(* ===== verification/KPrelude.thy ===== *)
theory KPrelude
  imports Main "HOL-Library.Word"
begin

text \<open>
  Prelude of the K_OS development: the machine types of \<open>code/lib/inc/stdint.h\<close>, the byte
  memory the C code reads and writes, results of code that may stop, and the facts on 32-bit
  words (index arithmetic, page arithmetic, division by powers of two) that the components share.

  Pointers are 32-bit words (the kernel is built with \<open>-m32\<close>); \<open>NULL\<close> is 0. A C \<open>int\<close> is
  kept as the 32-bit pattern and read with \<^term>\<open>sint\<close> where its sign matters.
\<close>

unbundle bit_operations_syntax

type_synonym u8 = "8 word"
type_synonym u16 = "16 word"
type_synonym u32 = "32 word"
type_synonym u64 = "64 word"

text \<open>A pointer value, and byte-addressed memory.\<close>

type_synonym ptr = u32
type_synonym mem = "ptr \<Rightarrow> u8"

abbreviation NULL :: ptr where
  "NULL \<equiv> 0"

text \<open>Shared rewrite collections: word index arithmetic, and effects of memory updates.\<close>

named_theorems word_arith_simps
named_theorems mem_simps

section \<open>Results of code that may stop\<close>

text \<open>
  A call may fail to come back: \<open>assert\<close> ends in \<open>kernel_panic\<close>, which spins for ever
  (\<open>Panic\<close>); a lock that is not free blocks the caller (\<open>Blocked\<close>); a reference through an
  absent page-table entry faults (\<open>Page_fault\<close>); a loop may never end (\<open>Hang\<close>).
\<close>

datatype stop = Panic | Blocked | Page_fault | Hang

definition rbind :: "'e + 'a \<Rightarrow> ('a \<Rightarrow> 'e + 'b) \<Rightarrow> 'e + 'b" where
  "rbind r f = (case r of Inl e \<Rightarrow> Inl e | Inr x \<Rightarrow> f x)"

lemma rbind_simps [simp]:
  "rbind (Inl e) f = Inl e"
  "rbind (Inr x) f = f x"
  by (simp_all add: rbind_def)

lemma rbind_Inr_iff: "rbind r f = Inr y \<longleftrightarrow> (\<exists>x. r = Inr x \<and> f x = Inr y)"
  by (cases r) auto

section \<open>Integer macros of \<open>kernel/inc/math.h\<close>\<close>

text \<open>\<open>((X + STEP - 1) / (STEP))\<close> on \<open>uint32_t\<close>: the sum wraps.\<close>

definition DIV_ROUND_UP :: "u32 \<Rightarrow> u32 \<Rightarrow> u32" where
  "DIV_ROUND_UP x step = (x + step - 1) div step"

section \<open>Word arithmetic\<close>

lemma unat_Suc_less:
  fixes a b :: u32
  assumes "a < b"
  shows "unat (a + 1) = Suc (unat a)"
  using assms by unat_arith

lemma unat_of_nat_less [word_arith_simps]:
  "n < 2 ^ 32 \<Longrightarrow> unat (of_nat n :: u32) = n"
  by (simp add: unat_of_nat)

lemma of_nat_u32_inj: 
  "m < 2 ^ 32 \<Longrightarrow> n < 2 ^ 32 \<Longrightarrow> (of_nat m :: u32) = of_nat n \<longleftrightarrow> m = n"
  by (metis unat_of_nat_less)

lemma of_nat_of_unat: "unat (w :: u32) = n \<Longrightarrow> of_nat n = w"
  by auto

lemma unat_less_4G [simp]: "unat (x :: u32) < 4294967296"
  using unsigned_less [of x, where ?'a = nat] by simp

lemma unat_le_4G: "unat (x :: u32) \<le> 4294967295"
  using unat_less_4G [of x] by linarith

lemma u32_less_of_nat [word_arith_simps]:
  "n < 2 ^ 32 \<Longrightarrow> (x :: u32) < of_nat n \<longleftrightarrow> unat x < n"
  by (simp add: word_less_nat_alt unat_of_nat_less)

lemma unat_mult_small:
  fixes a b :: u32
  assumes "unat a * unat b < 2 ^ 32"
  shows "unat (a * b) = unat a * unat b"
  using assms by (simp add: unat_word_ariths)

lemma unat_add_small:
  fixes a b :: u32
  assumes "unat a + unat b < 2 ^ 32"
  shows "unat (a + b) = unat a + unat b"
  using assms by (simp add: unat_word_ariths)

lemma unat_sub_small:
  fixes a b :: u32
  assumes "unat b \<le> unat a"
  shows "unat (a - b) = unat a - unat b"
  using assms by (simp add: unat_sub word_le_nat_alt)

lemma unat_minus_of_nat:
  "0 < k \<Longrightarrow> k < 2 ^ 32 \<Longrightarrow> unat (- of_nat k :: u32) = 2 ^ 32 - k"
proof -
  assume k: "0 < k" "k < 2 ^ 32"
  have "(of_nat (2 ^ 32 - k) :: u32) = of_nat (2 ^ 32) - of_nat k"
    using k by (intro of_nat_diff) simp
  also have "\<dots> = - of_nat k" by simp
  finally have "(- of_nat k :: u32) = of_nat (2 ^ 32 - k)" ..
  then show ?thesis using k by (simp only:) (rule unat_of_nat_less, simp)
qed

text \<open>A wrapping offset is in a run exactly when the index is, below 2^31.\<close>

lemma offset_in_run [word_arith_simps]:
  assumes "i < 2 ^ 31" "k + n \<le> 2 ^ 31"
  shows "(of_nat i - of_nat k :: u32) < of_nat n \<longleftrightarrow> k \<le> i \<and> i < k + n"
proof (cases "k \<le> i")
  case True
  then have "(of_nat i - of_nat k :: u32) = of_nat (i - k)" by simp
  then have "unat (of_nat i - of_nat k :: u32) = i - k"
    using assms by (simp only:) (rule unat_of_nat_less, simp)
  then show ?thesis using True assms by (subst u32_less_of_nat) auto
next
  case False
  then have "(of_nat i - of_nat k :: u32) = - of_nat (k - i)" by simp
  then have "unat (of_nat i - of_nat k :: u32) = 2 ^ 32 - (k - i)"
    using assms False by (simp only:) (rule unat_minus_of_nat, auto)
  then show ?thesis using False assms by (subst u32_less_of_nat) auto
qed

lemma sint_u32: "sint (w :: u32) = uint w - 2 ^ 32 * of_bool (bit (uint w) 31)"
proof -
  have "take_bit 32 (uint w) = uint w"
    by (rule take_bit_int_eq_self) (use uint_lt2p [of w] in simp_all)
  then show ?thesis by (simp add: sint_uint signed_take_bit_eq_take_bit_minus)
qed

lemma sint_nonneg_u32: "0 \<le> sint (w :: u32) \<Longrightarrow> sint w = uint w"
  using uint_lt2p [of w] by (auto simp: sint_u32 of_bool_def split: if_splits)

lemma sint_pos_nat: "0 < sint (w :: u32) \<Longrightarrow> nat (sint w) = unat w \<and> 0 < w"
  using sint_nonneg_u32 [of w] by (simp add: word_less_def)

lemma sint_pos_small: "0 < unat w \<Longrightarrow> unat w < 2 ^ 31 \<Longrightarrow> 0 < sint (w :: u32)"
proof -
  assume w: "0 < unat w" "unat w < 2 ^ 31"
  have "int 0 < int (unat w)" "int (unat w) < int (2 ^ 31)" using w by (simp_all only: of_nat_less_iff)
  then have u: "0 < uint w" "uint w < 2 ^ 31" by simp_all
  then have "\<not> bit (uint w) 31" by (simp add: bit_iff_odd)
  then show "0 < sint w" using u(1) by (simp add: sint_u32)
qed

lemma DIV_ROUND_UP_unat:
  assumes "unat x + unat step < 2 ^ 32 + 1" and "0 < step"
  shows "unat (DIV_ROUND_UP x step) = (unat x + unat step - 1) div unat step"
proof -
  have pos: "1 \<le> unat step"
    using assms(2) by (simp add: word_less_nat_alt)
  have eq: "x + step - 1 = x + (step - 1)" by simp
  have s1: "unat (step - 1) = unat step - 1"
    using pos by (simp add: unat_sub_small)
  have "unat (x + (step - 1)) = unat x + (unat step - 1)"
    using assms(1) pos s1 by (subst unat_add_small) auto
  then show ?thesis
    using pos by (simp add: DIV_ROUND_UP_def unat_div eq)
qed

text \<open>A rounding quotient is the least number of steps that covers the dividend.\<close>

lemma ceil_div_covers: "0 < (s::nat) \<Longrightarrow> x \<le> (x + s - 1) div s * s"
proof -
  assume s: "0 < s"
  have "(x + s - 1) div s * s + (x + s - 1) mod s = x + s - 1"
    by simp
  moreover have "(x + s - 1) mod s < s" using s by simp
  ultimately show ?thesis by linarith
qed

section \<open>Least index by search\<close>

lemma find_upt_Some:
  "find P [0..<N] = Some k \<longleftrightarrow> k < N \<and> P k \<and> (\<forall>j<k. \<not> P j)"
  by (auto simp: find_Some_iff)

lemma find_upt_None: "find P [0..<N] = None \<longleftrightarrow> (\<forall>j<N. \<not> P j)"
  by (auto simp: find_None_iff)

lemma find_map_inj: "find P (map f xs) = map_option f (find (\<lambda>x. P (f x)) xs)"
  by (induction xs) simp_all

lemma find_upt_Suc:
  "find P [0..<Suc n] = (if P 0 then Some 0 else map_option Suc (find (\<lambda>k. P (Suc k)) [0..<n]))"
proof -
  have "[0..<Suc n] = 0 # map Suc [0..<n]" by (simp add: upt_conv_Cons map_Suc_upt del: upt_Suc)
  then show ?thesis by (simp add: find_map_inj del: upt_Suc)
qed

section \<open>Byte memory\<close>

text \<open>Little-endian 32-bit loads and stores, as x86 does them.\<close>

definition load32 :: "mem \<Rightarrow> ptr \<Rightarrow> u32" where
  "load32 m p = ucast (m p) OR push_bit 8 (ucast (m (p + 1)))
     OR push_bit 16 (ucast (m (p + 2))) OR push_bit 24 (ucast (m (p + 3)))"

definition store32 :: "mem \<Rightarrow> ptr \<Rightarrow> u32 \<Rightarrow> mem" where
  "store32 m p v = m(p := ucast v, p + 1 := ucast (drop_bit 8 v),
     p + 2 := ucast (drop_bit 16 v), p + 3 := ucast (drop_bit 24 v))"

lemma ptr_offsets_distinct [simp]:
  fixes p :: ptr
  shows "p + 1 \<noteq> p" "p + 2 \<noteq> p" "p + 3 \<noteq> p" "p \<noteq> p + 1" "p \<noteq> p + 2" "p \<noteq> p + 3"
    "p + 1 \<noteq> p + 2" "p + 1 \<noteq> p + 3" "p + 2 \<noteq> p + 3" "p + 2 \<noteq> p + 1" "p + 3 \<noteq> p + 1" "p + 3 \<noteq> p + 2"
  by (simp_all add: add_left_cancel)

lemma load32_store32 [mem_simps]: "load32 (store32 m p v) p = v"
proof (rule bit_word_eqI)
  fix n assume "n < LENGTH(32)"
  then consider "n < 8" | "8 \<le> n \<and> n < 16" | "16 \<le> n \<and> n < 24" | "24 \<le> n \<and> n < 32"
    by fastforce
  then show "bit (load32 (store32 m p v) p) n = bit v n"
    by cases (auto simp: load32_def store32_def bit_simps)
qed

lemma store32_other [mem_simps]:
  "4 \<le> q - p \<Longrightarrow> store32 m p v q = m q"
  by (auto simp: store32_def word_le_nat_alt)

text \<open>Stepping a range: the first cell, or an offset into the rest.\<close>

lemma offset_less_Suc:
  fixes p q :: ptr
  assumes "Suc n < 2 ^ 32"
  shows "q - p < of_nat (Suc n) \<longleftrightarrow> q = p \<or> q - (p + 1) < of_nat n"
proof -
  have n: "n < 2 ^ 32" using assms by simp
  have "unat (q - p) < Suc n \<longleftrightarrow> q = p \<or> unat (q - (p + 1)) < n"
  proof (cases "q = p")
    case False
    then have "q - p \<noteq> 0" by simp
    then have pos: "0 < unat (q - p)" by (simp add: unat_gt_0)
    then have "unat (q - p - 1) = unat (q - p) - unat (1 :: u32)"
      by (intro unat_sub_small) simp
    moreover have "q - p - 1 = q - (p + 1)" by simp
    ultimately show ?thesis using False pos by auto
  qed simp
  then show ?thesis using assms n by (simp only: u32_less_of_nat)
qed

text \<open>A contiguous range of memory, written with a wrapping offset.\<close>

definition in_range :: "ptr \<Rightarrow> u32 \<Rightarrow> ptr \<Rightarrow> bool" where
  "in_range a n p \<longleftrightarrow> p - a < n"

end
