(* ===== verification/KString.thy ===== *)
theory KString
  imports KPrelude
begin

text \<open>
  \<open>code/lib/src/string.c\<close>: the byte and string routines, over a byte memory. The counted loops
  (\<open>while (n-- > 0)\<close>) recurse on the count. The NUL-terminated loops may run for ever (a string
  with no terminator, a copy that overwrites its own source), so they are \<open>option\<close> functions:
  \<open>None\<close> means the call does not return, and every theorem says when it does.

  \<open>char\<close> is signed on i386 gcc, so a \<open>char\<close> is compared through \<^term>\<open>sint\<close>, and a \<open>char\<close>
  against a \<open>uint8_t\<close> compares a signed with an unsigned value after integer promotion.
\<close>

section \<open>The routines\<close>

fun memset_loop :: "nat \<Rightarrow> mem \<Rightarrow> ptr \<Rightarrow> u8 \<Rightarrow> mem" where
  "memset_loop 0 m p ch = m"
| "memset_loop (Suc n) m p ch = memset_loop n (m(p := ch)) (p + 1) ch"

definition memset :: "mem \<Rightarrow> ptr \<Rightarrow> u8 \<Rightarrow> u32 \<Rightarrow> mem" where
  "memset m str ch n = memset_loop (unat n) m str ch"

fun memcpy_loop :: "nat \<Rightarrow> mem \<Rightarrow> ptr \<Rightarrow> ptr \<Rightarrow> mem" where
  "memcpy_loop 0 m dst src = m"
| "memcpy_loop (Suc n) m dst src = memcpy_loop n (m(dst := m src)) (dst + 1) (src + 1)"

definition memcpy :: "mem \<Rightarrow> ptr \<Rightarrow> ptr \<Rightarrow> u32 \<Rightarrow> mem" where
  "memcpy m dst src n = memcpy_loop (unat n) m dst src"

fun memcmp_loop :: "nat \<Rightarrow> mem \<Rightarrow> ptr \<Rightarrow> ptr \<Rightarrow> int" where
  "memcmp_loop 0 m s1 s2 = 0"
| "memcmp_loop (Suc n) m s1 s2 =
     (if m s1 \<noteq> m s2 then (if sint (m s1) > sint (m s2) then 1 else -1)
      else memcmp_loop n m (s1 + 1) (s2 + 1))"

definition memcmp :: "mem \<Rightarrow> ptr \<Rightarrow> ptr \<Rightarrow> u32 \<Rightarrow> int" where
  "memcmp m s1 s2 n = memcmp_loop (unat n) m s1 s2"

partial_function (option) strcpy_loop :: "mem \<Rightarrow> ptr \<Rightarrow> ptr \<Rightarrow> mem option" where
  "strcpy_loop m dst src =
     (if m src \<noteq> 0 then strcpy_loop (m(dst := m src)) (dst + 1) (src + 1)
      else Some (m(dst := m src)))"

definition strcpy :: "mem \<Rightarrow> ptr \<Rightarrow> ptr \<Rightarrow> (ptr \<times> mem) option" where
  "strcpy m dst src = map_option (Pair dst) (strcpy_loop m dst src)"

text \<open>\<open>while (*pStr++);\<close> leaves the pointer one past the terminator.\<close>

partial_function (option) skip_nul :: "mem \<Rightarrow> ptr \<Rightarrow> ptr option" where
  "skip_nul m p = (if m p \<noteq> 0 then skip_nul m (p + 1) else Some (p + 1))"

definition strlen :: "mem \<Rightarrow> ptr \<Rightarrow> u32 option" where
  "strlen m str = map_option (\<lambda>p. p - str - 1) (skip_nul m str)"

partial_function (option) strcmp :: "mem \<Rightarrow> ptr \<Rightarrow> ptr \<Rightarrow> int option" where
  "strcmp m s1 s2 =
     (if m s1 \<noteq> 0 \<and> m s1 = m s2 then strcmp m (s1 + 1) (s2 + 1)
      else Some (if sint (m s1) < sint (m s2) then -1
                 else if sint (m s1) > sint (m s2) then 1 else 0))"

partial_function (option) strchr :: "mem \<Rightarrow> ptr \<Rightarrow> u8 \<Rightarrow> ptr option" where
  "strchr m str ch =
     (if m str \<noteq> 0
      then (if sint (m str) = uint ch then Some str else strchr m (str + 1) ch)
      else Some NULL)"

partial_function (option) strrchr_loop :: "mem \<Rightarrow> ptr \<Rightarrow> u8 \<Rightarrow> ptr \<Rightarrow> ptr option" where
  "strrchr_loop m str ch last_char =
     (if m str \<noteq> 0
      then strrchr_loop m (str + 1) ch (if sint (m str) = uint ch then str else last_char)
      else Some last_char)"

definition strrchr :: "mem \<Rightarrow> ptr \<Rightarrow> u8 \<Rightarrow> ptr option" where
  "strrchr m str ch = strrchr_loop m str ch NULL"

definition strcat :: "mem \<Rightarrow> ptr \<Rightarrow> ptr \<Rightarrow> (ptr \<times> mem) option" where
  "strcat m dst src =
     Option.bind (skip_nul m dst) (\<lambda>p. map_option (Pair dst) (strcpy_loop m (p - 1) src))"

partial_function (option) strchrs_loop :: "mem \<Rightarrow> ptr \<Rightarrow> u8 \<Rightarrow> u32 \<Rightarrow> u32 option" where
  "strchrs_loop m p ch chCnt =
     (if m p \<noteq> 0 then strchrs_loop m (p + 1) ch (if sint (m p) = uint ch then chCnt + 1 else chCnt)
      else Some chCnt)"

definition strchrs :: "mem \<Rightarrow> ptr \<Rightarrow> u8 \<Rightarrow> u32 option" where
  "strchrs m str ch = strchrs_loop m str ch 0"

section \<open>Counted routines\<close>

lemma memset_loop_eq:
  "n < 2 ^ 32 \<Longrightarrow> memset_loop n m p ch q = (if q - p < of_nat n then ch else m q)"
proof (induction n arbitrary: m p)
  case 0
  then show ?case by simp
next
  case (Suc n)
  have n: "n < 2 ^ 32" using Suc.prems by simp
  note range = offset_less_Suc [OF Suc.prems, of q p]
  show ?case
    by (simp only: range memset_loop.simps Suc.IH [OF n] fun_upd_apply) auto
qed

lemma memset_apply [mem_simps]: "memset m str ch n q = (if in_range str n q then ch else m q)"
  using memset_loop_eq [of "unat n" m str ch q] by (simp add: memset_def in_range_def)

text \<open>A forward copy is right unless the destination starts inside the source's tail.\<close>

lemma memcpy_loop_eq:
  assumes "n < 2 ^ 32" and "dst = src \<or> of_nat n \<le> dst - src"
  shows "memcpy_loop n m dst src q = (if q - dst < of_nat n then m (src + (q - dst)) else m q)"
  using assms
proof (induction n arbitrary: m dst src)
  case 0
  then show ?case by simp
next
  case (Suc n)
  let ?m = "m(dst := m src)"
  have n: "n < 2 ^ 32" using Suc.prems by simp
  have "dst + 1 = src + 1 \<or> of_nat n \<le> dst + 1 - (src + 1)"
    using Suc.prems n by (auto simp: word_le_nat_alt unat_of_nat_less simp del: of_nat_Suc)
  from Suc.IH [OF n this, of ?m]
  have IH: "memcpy_loop n ?m (dst + 1) (src + 1) q =
    (if q - (dst + 1) < of_nat n then ?m (src + 1 + (q - (dst + 1))) else ?m q)" .
  note split = offset_less_Suc [OF Suc.prems(1), of q dst]
  have ofs: "src + 1 + (q - (dst + 1)) = src + (q - dst)" by simp
  show ?case
  proof (cases "q - (dst + 1) < of_nat n")
    case True
    have "src + (q - dst) \<noteq> dst \<or> dst = src"
    proof (rule ccontr)
      assume "\<not> ?thesis"
      then have hit: "src + (q - dst) = dst" and ne: "dst \<noteq> src" by auto
      have eq: "q - dst = dst - src" by (subst hit [symmetric]) simp
      have "of_nat (Suc n) \<le> dst - src" using ne Suc.prems(2) by blast
      moreover have "q - dst < of_nat (Suc n)" using True split by blast
      ultimately show False unfolding eq by (metis leD)
    qed
    then have "?m (src + (q - dst)) = m (src + (q - dst))" by auto
    moreover have "q - dst < of_nat (Suc n)" using True split by blast
    ultimately show ?thesis using IH True by (simp only: memcpy_loop.simps ofs if_True)
  next
    case False
    then show ?thesis using IH split by (auto simp del: of_nat_Suc)
  qed
qed

lemma memcpy_apply [mem_simps]:
  assumes "dst = src \<or> n \<le> dst - src"
  shows "memcpy m dst src n q = (if in_range dst n q then m (src + (q - dst)) else m q)"
  using memcpy_loop_eq [of "unat n" dst src m q] assms by (simp add: memcpy_def in_range_def)

lemma memcmp_loop_0_iff:
  "memcmp_loop n m s1 s2 = 0 \<longleftrightarrow> (\<forall>i<n. m (s1 + of_nat i) = m (s2 + of_nat i))"
proof (induction n arbitrary: s1 s2)
  case (Suc n)
  have "(\<forall>i<Suc n. m (s1 + of_nat i) = m (s2 + of_nat i)) \<longleftrightarrow>
      m s1 = m s2 \<and> (\<forall>i<n. m (s1 + 1 + of_nat i) = m (s2 + 1 + of_nat i))"
    by (auto simp: All_less_Suc2 algebra_simps)
  then show ?case by (simp add: Suc.IH)
qed simp

section \<open>NUL-terminated strings\<close>

text \<open>\<open>cstr m p xs\<close>: the bytes \<open>xs\<close>, none of them NUL, stand at \<open>p\<close>, with a NUL after them.\<close>

fun cstr :: "mem \<Rightarrow> ptr \<Rightarrow> u8 list \<Rightarrow> bool" where
  "cstr m p [] \<longleftrightarrow> m p = 0"
| "cstr m p (x # xs) \<longleftrightarrow> x \<noteq> 0 \<and> m p = x \<and> cstr m (p + 1) xs"

lemma cstr_update_other:
  "(\<And>i. i \<le> length xs \<Longrightarrow> q \<noteq> p + of_nat i) \<Longrightarrow> cstr (m(q := v)) p xs = cstr m p xs"
proof (induction xs arbitrary: p)
  case Nil
  have "q \<noteq> p + of_nat 0" by (rule Nil) simp
  then show ?case by simp
next
  case (Cons x xs)
  have "q \<noteq> p + of_nat 0" by (rule Cons.prems) simp
  moreover have "cstr (m(q := v)) (p + 1) xs = cstr m (p + 1) xs"
  proof (rule Cons.IH)
    fix i assume "i \<le> length xs"
    then have "q \<noteq> p + of_nat (Suc i)" by (intro Cons.prems) simp
    then show "q \<noteq> p + 1 + of_nat i" by (simp add: algebra_simps)
  qed
  ultimately show ?case by (simp add: fun_upd_def)
qed

lemma cstr_cong:
  "(\<And>i. i \<le> length xs \<Longrightarrow> m (p + of_nat i) = m' (p' + of_nat i)) \<Longrightarrow> cstr m p xs = cstr m' p' xs"
proof (induction xs arbitrary: p p')
  case Nil
  have "m (p + of_nat 0) = m' (p' + of_nat 0)" by (rule Nil) simp
  then show ?case by simp
next
  case (Cons x xs)
  have "m (p + of_nat 0) = m' (p' + of_nat 0)" by (rule Cons.prems) simp
  moreover have "cstr m (p + 1) xs = cstr m' (p' + 1) xs"
  proof (rule Cons.IH)
    fix i assume "i \<le> length xs"
    then have "m (p + of_nat (Suc i)) = m' (p' + of_nat (Suc i))" by (intro Cons.prems) simp
    then show "m (p + 1 + of_nat i) = m' (p' + 1 + of_nat i)" by (simp add: algebra_simps)
  qed
  ultimately show ?case by simp
qed

lemma cstr_at:
  "cstr m p xs \<Longrightarrow>
     m (p + of_nat (length xs)) = 0 \<and> (\<forall>i. unat i < length xs \<longrightarrow> m (p + i) = xs ! unat i \<and> m (p + i) \<noteq> 0)"
proof (induction xs arbitrary: p)
  case (Cons x xs)
  then have "cstr m (p + 1) xs" by simp
  from Cons.IH [OF this]
  have IH: "m (p + 1 + of_nat (length xs)) = 0"
    "\<And>i. unat i < length xs \<Longrightarrow> m (p + 1 + i) = xs ! unat i \<and> m (p + 1 + i) \<noteq> 0"
    by blast+
  have "m (p + i) = (x # xs) ! unat i \<and> m (p + i) \<noteq> 0" if i: "unat i < Suc (length xs)" for i
  proof (cases "i = 0")
    case True
    then show ?thesis using Cons.prems by simp
  next
    case False
    then have "0 < unat i" by (simp add: unat_gt_0)
    then have "unat (i - 1) = unat i - unat (1 :: u32)" by (intro unat_sub_small) simp
    then have "unat (i - 1) < length xs" using i \<open>0 < unat i\<close> by simp
    note at = IH(2) [OF this]
    have shift: "p + 1 + (i - 1) = p + i" by simp
    from at have A: "m (p + i) = xs ! (unat i - 1)"
      unfolding shift using \<open>unat (i - 1) = _\<close> by simp
    from at have B: "m (p + i) \<noteq> 0" unfolding shift by blast
    show ?thesis using B i \<open>0 < unat i\<close> by (simp add: A nth_Cons')
  qed
  moreover have "m (p + of_nat (length (x # xs))) = 0" using IH(1) by (simp add: algebra_simps)
  ultimately show ?case unfolding length_Cons by blast
qed simp

lemma cstr_append:
  "cstr m0 p xs \<Longrightarrow> cstr m (p + of_nat (length xs)) ys \<Longrightarrow>
   (\<And>i. i < length xs \<Longrightarrow> m (p + of_nat i) = m0 (p + of_nat i)) \<Longrightarrow> cstr m p (xs @ ys)"
proof (induction xs arbitrary: p)
  case (Cons x xs)
  have "m (p + of_nat 0) = m0 (p + of_nat 0)" by (rule Cons.prems) simp
  moreover have "cstr m (p + 1) (xs @ ys)"
  proof (rule Cons.IH)
    show "cstr m0 (p + 1) xs" using Cons.prems(1) by simp
    show "cstr m (p + 1 + of_nat (length xs)) ys" using Cons.prems(2) by (simp add: algebra_simps)
    fix i assume "i < length xs"
    then have "m (p + of_nat (Suc i)) = m0 (p + of_nat (Suc i))" by (intro Cons.prems) simp
    then show "m (p + 1 + of_nat i) = m0 (p + 1 + of_nat i)" by (simp add: algebra_simps)
  qed
  ultimately show ?case using Cons.prems(1) by simp
qed simp

lemma cstr_unique: "cstr m p xs \<Longrightarrow> cstr m p ys \<Longrightarrow> xs = ys"
proof (induction xs arbitrary: p ys)
  case Nil
  then show ?case by (cases ys) auto
next
  case (Cons x xs)
  then show ?case by (cases ys) auto
qed

text \<open>Every string that is followed by some NUL byte of the address space has a content.\<close>

lemma cstr_exists: "m (p + of_nat n) = 0 \<Longrightarrow> \<exists>xs. length xs \<le> n \<and> cstr m p xs"
proof (induction n arbitrary: p)
  case 0
  then show ?case by (intro exI [of _ "[]"]) simp
next
  case (Suc n)
  show ?case
  proof (cases "m p = 0")
    case True
    then show ?thesis by (intro exI [of _ "[]"]) simp
  next
    case False
    have "m (p + 1 + of_nat n) = 0" using Suc.prems by (simp add: algebra_simps)
    from Suc.IH [OF this] obtain xs where "length xs \<le> n" "cstr m (p + 1) xs" by blast
    then show ?thesis using False by (intro exI [of _ "m p # xs"]) simp
  qed
qed

lemma skip_nul_cstr: "cstr m p xs \<Longrightarrow> skip_nul m p = Some (p + of_nat (length xs) + 1)"
proof (induction xs arbitrary: p)
  case Nil
  then show ?case by (simp add: skip_nul.simps)
next
  case (Cons x xs)
  then have "skip_nul m (p + 1) = Some (p + 1 + of_nat (length xs) + 1)" by simp
  then show ?case using Cons.prems by (subst skip_nul.simps) (simp add: algebra_simps)
qed

lemma strlen_cstr: "cstr m p xs \<Longrightarrow> strlen m p = Some (of_nat (length xs))"
  by (simp add: strlen_def skip_nul_cstr)

lemma strcpy_loop_memcpy:
  assumes "cstr m src xs" and "Suc (length xs) < 2 ^ 32"
    and "dst = src \<or> of_nat (Suc (length xs)) \<le> dst - src"
  shows "strcpy_loop m dst src = Some (memcpy_loop (Suc (length xs)) m dst src)"
  using assms
proof (induction xs arbitrary: m dst src)
  case Nil
  then show ?case by (simp add: strcpy_loop.simps fun_upd_def)
next
  case (Cons x xs)
  let ?m = "m(dst := m src)"
  have len: "Suc (length xs) < 2 ^ 32" using Cons.prems by simp
  have "cstr ?m (src + 1) xs"
  proof (cases "dst = src")
    case True
    then have "?m = m" by auto
    then show ?thesis using Cons.prems(1) by simp
  next
    case False
    have far: "length xs + 2 \<le> unat (dst - src)"
      using False Cons.prems(2,3) by (simp add: word_le_nat_alt unat_of_nat_less del: of_nat_Suc)
    have "cstr ?m (src + 1) xs = cstr m (src + 1) xs"
    proof (rule cstr_update_other)
      fix i assume i: "i \<le> length xs"
      show "dst \<noteq> src + 1 + of_nat i"
      proof
        assume "dst = src + 1 + of_nat i"
        then have "dst - src = of_nat (Suc i)" by simp
        then have "unat (dst - src) = Suc i"
          using i len by (simp add: unat_of_nat_less del: of_nat_Suc)
        with far i show False by simp
      qed
    qed
    then show ?thesis using Cons.prems(1) by simp
  qed
  moreover have "dst + 1 = src + 1 \<or> of_nat (Suc (length xs)) \<le> dst + 1 - (src + 1)"
    using Cons.prems(2,3) by (auto simp: word_le_nat_alt unat_of_nat_less simp del: of_nat_Suc)
  ultimately have "strcpy_loop ?m (dst + 1) (src + 1) =
      Some (memcpy_loop (Suc (length xs)) ?m (dst + 1) (src + 1))"
    using len by (intro Cons.IH)
  moreover have "m src \<noteq> 0" using Cons.prems(1) by simp
  ultimately show ?case
    by (simp only: strcpy_loop.simps [of m dst src] length_Cons if_True not_False_eq_True
        memcpy_loop.simps(2) [of "Suc (length xs)"])
qed

lemma strcpy_loop_result:
  assumes "cstr m src xs" and "Suc (length xs) < 2 ^ 32"
    and "dst = src \<or> of_nat (Suc (length xs)) \<le> dst - src"
  obtains m' where "strcpy_loop m dst src = Some m'" and "cstr m' dst xs"
    and "\<And>q. \<not> in_range dst (of_nat (Suc (length xs))) q \<Longrightarrow> m' q = m q"
proof
  let ?m = "memcpy_loop (Suc (length xs)) m dst src"
  show "strcpy_loop m dst src = Some ?m" by (rule strcpy_loop_memcpy [OF assms])
  note at = memcpy_loop_eq [OF assms(2,3), of m]
  have "cstr ?m dst xs = cstr m src xs"
  proof (rule cstr_cong)
    fix i assume "i \<le> length xs"
    then have "(of_nat i :: u32) < of_nat (Suc (length xs))"
      using assms(2) by (simp add: u32_less_of_nat unat_of_nat_less del: of_nat_Suc)
    then show "?m (dst + of_nat i) = m (src + of_nat i)"
      by (simp only: at add_diff_cancel_left' if_True)
  qed
  with assms(1) show "cstr ?m dst xs" by simp
  show "?m q = m q" if "\<not> in_range dst (of_nat (Suc (length xs))) q" for q
    using that by (simp only: at in_range_def if_False)
qed

text \<open>Comparison as the code orders it: bytes as signed chars, a prefix before its extensions.\<close>

fun cmp_signed :: "u8 list \<Rightarrow> u8 list \<Rightarrow> int" where
  "cmp_signed [] [] = 0"
| "cmp_signed [] (y # ys) = (if 0 < sint y then -1 else 1)"
| "cmp_signed (x # xs) [] = (if sint x < 0 then -1 else 1)"
| "cmp_signed (x # xs) (y # ys) =
     (if x = y then cmp_signed xs ys else if sint x < sint y then -1 else 1)"

lemma sint_neq: "x \<noteq> y \<Longrightarrow> sint (x :: u8) \<noteq> sint y"
  by (meson signed_word_eqI)

lemma strcmp_cmp_signed:
  "cstr m s1 xs \<Longrightarrow> cstr m s2 ys \<Longrightarrow> strcmp m s1 s2 = Some (cmp_signed xs ys)"
proof (induction xs ys arbitrary: s1 s2 rule: cmp_signed.induct)
  case 1
  then show ?case by (simp add: strcmp.simps)
next
  case (2 y ys)
  then have "sint y \<noteq> sint (0 :: u8)" by (intro sint_neq) simp
  with 2 show ?case by (subst strcmp.simps) auto
next
  case (3 x xs)
  then have "sint x \<noteq> sint (0 :: u8)" by (intro sint_neq) simp
  with 3 show ?case by (subst strcmp.simps) auto
next
  case (4 x xs y ys)
  show ?case
  proof (cases "x = y")
    case True
    with 4 have "strcmp m (s1 + 1) (s2 + 1) = Some (cmp_signed xs ys)" by simp
    with True 4 show ?thesis by (subst strcmp.simps) simp
  next
    case False
    with sint_neq [OF False] 4 show ?thesis by (subst strcmp.simps) auto
  qed
qed

lemma cmp_signed_eq_0: "0 \<notin> set xs \<Longrightarrow> 0 \<notin> set ys \<Longrightarrow> cmp_signed xs ys = 0 \<longleftrightarrow> xs = ys"
  by (induction xs ys rule: cmp_signed.induct) auto

lemma cmp_signed_anti: "0 \<notin> set xs \<Longrightarrow> 0 \<notin> set ys \<Longrightarrow> cmp_signed ys xs = - cmp_signed xs ys"
proof (induction xs ys rule: cmp_signed.induct)
  case (2 y ys)
  then have "sint y \<noteq> sint (0 :: u8)" by (intro sint_neq) auto
  then show ?case by auto
next
  case (3 x xs)
  then have "sint x \<noteq> sint (0 :: u8)" by (intro sint_neq) auto
  then show ?case by auto
next
  case (4 x xs y ys)
  then show ?case using sint_neq [of x y] by (cases "x = y") auto
qed simp

lemma cstr_no_nul: "cstr m p xs \<Longrightarrow> 0 \<notin> set xs"
  by (induction xs arbitrary: p) auto

lemma shift_mod_256:
  "0 \<le> u \<Longrightarrow> u < 256 \<Longrightarrow> (u + 128) mod 256 - 128 = (if u < 128 then u else u - (256 :: int))"
proof -
  assume u: "0 \<le> u" "u < 256"
  show ?thesis
  proof (cases "u < 128")
    case True
    then show ?thesis using u by simp
  next
    case False
    have "(u + 128) mod 256 = (u - 128 + 256) mod 256" by (simp add: algebra_simps)
    also have "\<dots> = (u - 128) mod 256" by (rule mod_add_self2)
    also have "\<dots> = u - 128" using u False by (intro mod_pos_pos_trivial) auto
    finally show ?thesis using False by simp
  qed
qed

text \<open>
  The signed/unsigned comparison \<open>*str == ch\<close> can hold only for bytes below 0x80.
\<close>

lemma char_eq_u8: "sint (x :: u8) = uint ch \<longleftrightarrow> x = ch \<and> ch < 0x80"
proof -
  have s: "sint x = (if x < 0x80 then uint x else uint x - 256)"
  proof -
    have b: "0 \<le> uint x" "uint x < 256" using uint_lt2p [of x] by simp_all
    have s: "sint x = (uint x + 128) mod 256 - 128"
      by (simp add: sint_uint signed_take_bit_eq_take_bit_shift take_bit_eq_mod)
    have c: "(uint x + 128) mod 256 - 128 = (if uint x < 128 then uint x else uint x - 256)"
      by (rule shift_mod_256 [OF b])
    have l: "x < 0x80 \<longleftrightarrow> uint x < 128" by (simp add: word_less_def)
    show ?thesis unfolding s l by (rule c)
  qed
  have ch: "uint ch < 256" "0 \<le> uint ch" and x: "uint x < 256"
    using uint_lt2p [of ch] uint_lt2p [of x] by simp_all
  show ?thesis
  proof (cases "x < 0x80")
    case True
    then have "sint x = uint ch \<longleftrightarrow> x = ch" using s by (simp add: word_uint_eq_iff)
    then show ?thesis using True by auto
  next
    case False
    then have "sint x < 0" using s x by simp
    then have "sint x \<noteq> uint ch" using ch by linarith
    then show ?thesis using False by auto
  qed
qed

fun index_of :: "u8 \<Rightarrow> u8 list \<Rightarrow> nat option" where
  "index_of ch [] = None"
| "index_of ch (x # xs) = (if x = ch then Some 0 else map_option Suc (index_of ch xs))"

lemma index_of_Some:
  "index_of ch xs = Some i \<Longrightarrow> i < length xs \<and> xs ! i = ch \<and> ch \<notin> set (take i xs)"
  by (induction xs arbitrary: i) (auto split: if_splits)

lemma index_of_None: "index_of ch xs = None \<longleftrightarrow> ch \<notin> set xs"
  by (induction xs) auto

lemma index_of_snoc:
  "index_of ch (ys @ [x]) = (case index_of ch ys of Some i \<Rightarrow> Some i
     | None \<Rightarrow> if x = ch then Some (length ys) else None)"
  by (induction ys) (auto split: option.splits)

lemma strchr_cstr:
  "cstr m p xs \<Longrightarrow> strchr m p ch =
     Some (if ch < 0x80 then (case index_of ch xs of Some i \<Rightarrow> p + of_nat i | None \<Rightarrow> NULL) else NULL)"
proof (induction xs arbitrary: p)
  case Nil
  then show ?case by (simp add: strchr.simps)
next
  case (Cons x xs)
  then have "strchr m (p + 1) ch = Some (if ch < 0x80 then
      (case index_of ch xs of Some i \<Rightarrow> p + 1 + of_nat i | None \<Rightarrow> NULL) else NULL)" by simp
  then show ?case using Cons.prems
    by (subst strchr.simps) (auto simp: char_eq_u8 algebra_simps split: option.splits)
qed

lemma strrchr_loop_append:
  "cstr m p xs \<Longrightarrow> strrchr_loop m p ch lc =
     Some (if ch < 0x80 then (case index_of ch (rev xs) of
       Some i \<Rightarrow> p + of_nat (length xs - Suc i) | None \<Rightarrow> lc) else lc)"
proof (induction xs arbitrary: p lc)
  case Nil
  then show ?case by (simp add: strrchr_loop.simps)
next
  case (Cons x xs)
  have sub: "(of_nat (length xs - i) :: u32) = 1 + of_nat (length xs - Suc i)"
    if "index_of ch (rev xs) = Some i" for i
    using index_of_Some [OF that] by (simp flip: Suc_diff_Suc)
  have IH: "strrchr_loop m (p + 1) ch lc' = Some (if ch < 0x80 then (case index_of ch (rev xs) of
       Some i \<Rightarrow> p + 1 + of_nat (length xs - Suc i) | None \<Rightarrow> lc') else lc')" for lc'
    using Cons by simp
  have step: "strrchr_loop m p ch lc =
      strrchr_loop m (p + 1) ch (if sint (m p) = uint ch then p else lc)"
    using Cons.prems by (subst strrchr_loop.simps) simp
  show ?case
    using Cons.prems unfolding step IH
    by (cases "index_of ch (rev xs)") (auto simp: char_eq_u8 index_of_snoc sub)
qed

text \<open>Without a terminator the scan never stops.\<close>

lemma skip_nul_Some:
  assumes ret: "skip_nul m p = Some r"
  shows "m (r - 1) = 0"
proof (rule skip_nul.raw_induct [where P = "\<lambda>m p r. m (r - 1) = 0", OF _ ret])
  fix f and m :: mem and p r :: ptr
  assume IH: "\<And>m p r. f m p = Some r \<Longrightarrow> m (r - 1) = 0"
    and eq: "(if m p \<noteq> 0 then f m (p + 1) else Some (p + 1)) = Some r"
  show "m (r - 1) = 0"
    using IH [of m "p + 1" r] eq by (auto split: if_splits)
qed

lemma strchrs_loop_cstr:
  "cstr m p xs \<Longrightarrow> strchrs_loop m p ch k =
     Some (if ch < 0x80 then k + of_nat (count_list xs ch) else k)"
proof (induction xs arbitrary: p k)
  case Nil
  then show ?case by (simp add: strchrs_loop.simps)
next
  case (Cons x xs)
  then show ?case
    by (subst strchrs_loop.simps) (auto simp: char_eq_u8 algebra_simps)
qed

section \<open>Properties\<close>

text \<open>\<open>memcpy\<close> copies exactly \<open>n\<close> bytes and leaves every other byte alone, for all areas but
  those whose destination starts strictly inside the source (a forward loop allows the rest).\<close>

theorem memcpy_copies:
  assumes "dst = src \<or> n \<le> dst - src"
  shows "(\<forall>i<n. memcpy m dst src n (dst + i) = m (src + i)) \<and>
    (\<forall>q. \<not> in_range dst n q \<longrightarrow> memcpy m dst src n q = m q)"
  using assms by (auto simp: memcpy_apply in_range_def)

theorem memcpy_copies_witness:
  "memcpy (\<lambda>p. ucast p) 100 200 4 102 = 202 \<and> memcpy (\<lambda>p. ucast p) 100 200 4 99 = 99"
proof -
  have mc: "(\<forall>i<4. memcpy (\<lambda>p. ucast p) 100 200 4 (100 + i) = ucast (200 + i)) \<and>
      (\<forall>q. \<not> in_range 100 4 q \<longrightarrow> memcpy (\<lambda>p. ucast p) 100 200 4 q = ucast q)"
    by (rule memcpy_copies [of 100 200 4 "\<lambda>p. ucast p"]) (simp add: word_le_nat_alt)
  have "memcpy (\<lambda>p. ucast p) 100 200 4 (100 + 2) = ucast (200 + 2 :: u32)"
    by (rule mc [THEN conjunct1, rule_format]) simp
  moreover have "memcpy (\<lambda>p. ucast p) 100 200 4 99 = ucast (99 :: u32)"
    by (rule mc [THEN conjunct2, rule_format]) (simp add: in_range_def)
  ultimately show ?thesis by simp
qed

text \<open>\<open>strlen\<close> returns exactly when some byte of the address space is NUL, and then it
  returns the number of bytes before the first one.\<close>

theorem strlen_returns:
  "(strlen m str \<noteq> None \<longleftrightarrow> (\<exists>q. m q = 0)) \<and>
   (strlen m str = Some n \<longleftrightarrow> m (str + n) = 0 \<and> (\<forall>i<n. m (str + i) \<noteq> 0))"
proof (intro conjI)
  have ret: "\<exists>xs. length xs \<le> unat (q - str) \<and> cstr m str xs" if "m q = 0" for q
    using cstr_exists [of m str "unat (q - str)"] that by simp
  show "strlen m str \<noteq> None \<longleftrightarrow> (\<exists>q. m q = 0)"
    using ret strlen_cstr skip_nul_Some [of m str] by (fastforce simp: strlen_def)
  show "strlen m str = Some n \<longleftrightarrow> m (str + n) = 0 \<and> (\<forall>i<n. m (str + i) \<noteq> 0)"
  proof
    assume n: "strlen m str = Some n"
    then obtain q where "m q = 0"
      using skip_nul_Some [of m str] by (auto simp: strlen_def)
    then obtain xs where len: "length xs \<le> unat (q - str)" and xs: "cstr m str xs"
      using ret by blast
    have small: "length xs < 2 ^ 32" using len unat_le_4G [of "q - str"] by simp
    have "n = of_nat (length xs)" using n xs by (simp add: strlen_cstr)
    then show "m (str + n) = 0 \<and> (\<forall>i<n. m (str + i) \<noteq> 0)"
      using cstr_at [OF xs] small by (auto simp: u32_less_of_nat)
  next
    assume n: "m (str + n) = 0 \<and> (\<forall>i<n. m (str + i) \<noteq> 0)"
    then obtain xs where len: "length xs \<le> unat n" and xs: "cstr m str xs"
      using ret [of "str + n"] by auto
    have small: "length xs < 2 ^ 32" using len unat_le_4G [of n] by simp
    have "m (str + of_nat (length xs)) = 0" using cstr_at [OF xs] by simp
    then have "\<not> of_nat (length xs) < n" using n by blast
    then have "length xs = unat n"
      using len small by (simp add: word_less_nat_alt unat_of_nat_less)
    then show "strlen m str = Some n" using xs by (simp add: strlen_cstr)
  qed
qed

theorem strlen_returns_witness: "strlen (\<lambda>p. if p = 5 then 0 else 1) 3 = Some 2"
proof -
  have "3 + i \<noteq> 5" if "i < 2" for i :: u32
  proof
    assume "3 + i = 5"
    then have "(3 + i) - 3 = 5 - 3" by (simp only:)
    then show False using that by simp
  qed
  then show ?thesis using strlen_returns [of "\<lambda>p. if p = 5 then 0 else 1" 3 2] by simp
qed

text \<open>\<open>strcpy\<close> returns, hands back the destination, and leaves there a copy of the source
  string, changing only the bytes of the copy and its terminator.\<close>

theorem strcpy_correct:
  assumes "cstr m src xs" and "Suc (length xs) < 2 ^ 32"
    and "dst = src \<or> of_nat (Suc (length xs)) \<le> dst - src"
  shows "\<exists>m'. strcpy m dst src = Some (dst, m') \<and> cstr m' dst xs \<and>
    (\<forall>q. \<not> in_range dst (of_nat (Suc (length xs))) q \<longrightarrow> m' q = m q)"
  using strcpy_loop_result [OF assms] by (auto simp: strcpy_def)

theorem strcpy_correct_witness:
  "\<exists>m'. strcpy ((\<lambda>_. 0)(8 := 0x41, 9 := 0x42)) 100 8 = Some (100, m') \<and> cstr m' 100 [0x41, 0x42] \<and>
    (\<forall>q. \<not> in_range 100 3 q \<longrightarrow> m' q = ((\<lambda>_. 0)(8 := 0x41, 9 := 0x42)) q)"
  using strcpy_correct [of "(\<lambda>_. 0)(8 := 0x41, 9 := 0x42)" 8 "[0x41, 0x42]" 100]
  by (simp add: word_le_nat_alt)

text \<open>\<open>strcat\<close> leaves at the destination the two strings one after the other.\<close>

theorem strcat_appends:
  assumes "cstr m dst xs" and "cstr m src ys" and "length xs + Suc (length ys) < 2 ^ 32"
    and "of_nat (Suc (length ys)) \<le> dst + of_nat (length xs) - src"
  shows "\<exists>m'. strcat m dst src = Some (dst, m') \<and> cstr m' dst (xs @ ys)"
proof -
  let ?e = "dst + of_nat (length xs)"
  have len: "Suc (length ys) < 2 ^ 32" using assms(3) by simp
  from strcpy_loop_result [OF assms(2) len disjI2 [OF assms(4)]]
  obtain m' where m': "strcpy_loop m ?e src = Some m'" "cstr m' ?e ys"
    "\<And>q. \<not> in_range ?e (of_nat (Suc (length ys))) q \<Longrightarrow> m' q = m q" by blast
  have "cstr m' dst (xs @ ys)"
  proof (rule cstr_append [OF assms(1) m'(2)])
    fix i assume i: "i < length xs"
    have "dst + of_nat i - ?e = - of_nat (length xs - i)"
      using i by (simp add: of_nat_diff)
    moreover have "length xs - i < 2 ^ 32" and "0 < length xs - i" using assms(3) i by simp_all
    ultimately have "unat (dst + of_nat i - ?e) = 2 ^ 32 - (length xs - i)"
      using unat_minus_of_nat by (simp only:)
    then have "\<not> in_range ?e (of_nat (Suc (length ys))) (dst + of_nat i)"
      using assms(3) len by (simp add: in_range_def u32_less_of_nat del: of_nat_Suc)
    then show "m' (dst + of_nat i) = m (dst + of_nat i)" by (rule m'(3))
  qed
  moreover have "strcat m dst src = Some (dst, m')"
    using m'(1) by (simp add: strcat_def skip_nul_cstr [OF assms(1)])
  ultimately show ?thesis by blast
qed

theorem strcat_appends_witness:
  "\<exists>m'. strcat ((\<lambda>_. 0)(8 := 0x41, 100 := 0x42)) 8 100 =
     Some (8, m') \<and> cstr m' 8 [0x41, 0x42]"
  using strcat_appends [of "(\<lambda>_. 0)(8 := 0x41, 100 := 0x42)" 8 "[0x41]" 100 "[0x42]"]
  by (simp add: word_le_nat_alt)

text \<open>\<open>strcmp\<close> returns on any two strings, answers 0 exactly on equal ones, and swapping the
  arguments negates the answer; bytes are ordered as signed chars.\<close>

theorem strcmp_order:
  assumes "cstr m s1 xs" and "cstr m s2 ys"
  shows "\<exists>r. strcmp m s1 s2 = Some r \<and> r = cmp_signed xs ys \<and> (r = 0 \<longleftrightarrow> xs = ys) \<and>
    strcmp m s2 s1 = Some (- r)"
  using strcmp_cmp_signed [OF assms] strcmp_cmp_signed [OF assms(2,1)]
    cmp_signed_eq_0 cmp_signed_anti assms cstr_no_nul by metis

theorem strcmp_order_witness:
  "\<exists>r. strcmp ((\<lambda>_. 0)(8 := 0x41, 100 := 0x80)) 8 100 = Some r \<and> r = cmp_signed [0x41] [0x80] \<and>
    (r = 0 \<longleftrightarrow> [0x41] = [0x80 :: u8]) \<and> strcmp ((\<lambda>_. 0)(8 := 0x41, 100 := 0x80)) 100 8 = Some (- r)"
  by (rule strcmp_order) simp_all

text \<open>\<open>strchr\<close> finds the first occurrence of an ASCII byte, but never finds a byte from 0x80
  up: the signed \<open>char\<close> read from the string is negative there and the \<open>uint8_t\<close> is not.\<close>

theorem strchr_first:
  assumes "cstr m str xs"
  shows "strchr m str ch = Some (case index_of ch xs of
      Some i \<Rightarrow> (if ch < 0x80 then str + of_nat i else NULL) | None \<Rightarrow> NULL)"
  using strchr_cstr [OF assms, of ch] by (simp split: option.splits)

theorem strchr_first_witness:
  "strchr ((\<lambda>_. 0)(8 := 0x41, 9 := 0xE9)) 8 0xE9 = Some (case index_of 0xE9 [0x41, 0xE9] of
      Some i \<Rightarrow> (if (0xE9 :: u8) < 0x80 then 8 + of_nat i else NULL) | None \<Rightarrow> NULL)"
  by (rule strchr_first) simp

text \<open>\<open>strrchr\<close> finds the last occurrence and \<open>strchrs\<close> the number of occurrences, with the
  same restriction to bytes below 0x80.\<close>

theorem strrchr_strchrs:
  assumes "cstr m str xs"
  shows "strrchr m str ch = Some (case index_of ch (rev xs) of
      Some i \<Rightarrow> (if ch < 0x80 then str + of_nat (length xs - Suc i) else NULL) | None \<Rightarrow> NULL) \<and>
    strchrs m str ch = Some (if ch < 0x80 then of_nat (count_list xs ch) else 0)"
  using strrchr_loop_append [OF assms, of ch NULL] strchrs_loop_cstr [OF assms, of ch 0]
  by (simp add: strrchr_def strchrs_def split: option.splits)

theorem strrchr_strchrs_witness:
  "strrchr ((\<lambda>_. 0)(8 := 0x41, 9 := 0x41)) 8 0x41 = Some (case index_of 0x41 (rev [0x41, 0x41]) of
      Some i \<Rightarrow> (if (0x41 :: u8) < 0x80 then 8 + of_nat (length [0x41, 0x41 :: u8] - Suc i) else NULL)
      | None \<Rightarrow> NULL) \<and>
    strchrs ((\<lambda>_. 0)(8 := 0x41, 9 := 0x41)) 8 0x41 =
      Some (if (0x41 :: u8) < 0x80 then of_nat (count_list [0x41, 0x41 :: u8] 0x41) else 0)"
  by (rule strrchr_strchrs) simp

text \<open>\<open>memcmp\<close> answers 0 exactly when the two areas hold the same bytes.\<close>

theorem memcmp_equal:
  "memcmp m s1 s2 n = 0 \<longleftrightarrow> (\<forall>i. i < n \<longrightarrow> m (s1 + i) = m (s2 + i))"
proof -
  have "(\<forall>i<unat n. m (s1 + of_nat i) = m (s2 + of_nat i)) \<longleftrightarrow> (\<forall>i<n. m (s1 + i) = m (s2 + i))"
    (is "?l \<longleftrightarrow> ?r")
  proof
    assume ?l
    then have "m (s1 + of_nat (unat i)) = m (s2 + of_nat (unat i))" if "i < n" for i
      using that by (simp only: word_less_nat_alt)
    then show ?r by simp
  next
    assume r: ?r
    show ?l
    proof (intro allI impI)
      fix i assume "i < unat n"
      then have "(of_nat i :: u32) < n"
        using unat_le_4G [of n] by (simp add: word_less_nat_alt unat_of_nat_less)
      then show "m (s1 + of_nat i) = m (s2 + of_nat i)" using r by blast
    qed
  qed
  then show ?thesis by (simp add: memcmp_def memcmp_loop_0_iff)
qed

theorem memcmp_equal_witness: "memcmp (\<lambda>p. ucast (p AND 1)) 4 8 3 = 0"
proof -
  have "(4 + i) AND 1 = (8 + i) AND (1 :: u32)" for i
    by (simp add: and_one_eq mod_2_eq_odd)
  then show ?thesis using memcmp_equal [of "\<lambda>p. ucast (p AND 1)" 4 8 3] by simp
qed

end
