(* ===== verification/KList.thy ===== *)
theory KList
  imports KPrelude
begin

text \<open>
  \<open>code/lib/src/list.c\<close>: the intrusive doubly linked list with two sentinels. A list node is the
  pair of its \<open>prev\<close> and \<open>next\<close> fields, and the store maps the address of a node to it; a struct
  that embeds a node is found from the node's address by \<open>elem2entry\<close>. \<open>struct list\<close> at address
  \<open>p\<close> is its head node at \<open>p\<close> and its tail node at \<open>p + 8\<close>.

  The assignments are made one by one in the order of the code, so that aliasing (a node already
  on a list, a node next to a sentinel) has the effect it has in C. \<open>dlist h p xs\<close> is the
  abstraction: the list at \<open>p\<close> is well linked both ways and holds the nodes \<open>xs\<close> in order. The
  locale \<open>deque\<close> is the contract the scheduler, the wait lists and the heap's free lists use.
\<close>

section \<open>Nodes and operations\<close>

record list_elem =
  prev :: ptr
  nxt :: ptr

type_synonym lheap = "ptr \<Rightarrow> list_elem"

definition set_prev :: "ptr \<Rightarrow> ptr \<Rightarrow> lheap \<Rightarrow> lheap" where
  "set_prev p v h = h(p := (h p)\<lparr>prev := v\<rparr>)"

definition set_nxt :: "ptr \<Rightarrow> ptr \<Rightarrow> lheap \<Rightarrow> lheap" where
  "set_nxt p v h = h(p := (h p)\<lparr>nxt := v\<rparr>)"

text \<open>\<open>struct list\<close>: \<open>&plist->head\<close> and \<open>&plist->tail\<close>.\<close>

definition list_head :: "ptr \<Rightarrow> ptr" where
  "list_head plist = plist"

definition list_tail :: "ptr \<Rightarrow> ptr" where
  "list_tail plist = plist + 8"

text \<open>\<open>elem2entry\<close>: the enclosing struct of a node embedded at byte offset \<open>ofs\<close>.\<close>

definition elem2entry :: "u32 \<Rightarrow> ptr \<Rightarrow> ptr" where
  "elem2entry ofs elem = elem - ofs"

definition list_init :: "lheap \<Rightarrow> ptr \<Rightarrow> lheap" where
  "list_init h plist =
     (let h1 = set_prev (list_head plist) NULL h;
          h2 = set_nxt (list_head plist) (list_tail plist) h1;
          h3 = set_prev (list_tail plist) (list_head plist) h2
      in set_nxt (list_tail plist) NULL h3)"

definition list_insert :: "lheap \<Rightarrow> ptr \<Rightarrow> ptr \<Rightarrow> lheap" where
  "list_insert h prev_elem elem =
     (let h1 = set_nxt (prev (h prev_elem)) elem h;
          h2 = set_prev elem (prev (h1 prev_elem)) h1;
          h3 = set_nxt elem prev_elem h2
      in set_prev prev_elem elem h3)"

definition list_remove :: "lheap \<Rightarrow> ptr \<Rightarrow> lheap" where
  "list_remove h elem =
     (let h1 = set_nxt (prev (h elem)) (nxt (h elem)) h
      in set_prev (nxt (h1 elem)) (prev (h1 elem)) h1)"

definition list_append :: "lheap \<Rightarrow> ptr \<Rightarrow> ptr \<Rightarrow> lheap" where
  "list_append h plist elem = list_insert h (list_tail plist) elem"

definition list_push :: "lheap \<Rightarrow> ptr \<Rightarrow> ptr \<Rightarrow> lheap" where
  "list_push h plist elem = list_insert h (nxt (h (list_head plist))) elem"

definition list_empty :: "lheap \<Rightarrow> ptr \<Rightarrow> bool" where
  "list_empty h plist \<longleftrightarrow> nxt (h (list_head plist)) = list_tail plist"

definition list_pop :: "lheap \<Rightarrow> ptr \<Rightarrow> ptr \<times> lheap" where
  "list_pop h plist =
     (if list_empty h plist then (NULL, h)
      else (let elem = nxt (h (list_head plist)) in (elem, list_remove h elem)))"

text \<open>The three walks follow \<open>next\<close> until the tail; on a broken list they may not stop.\<close>

partial_function (option) list_len_loop :: "lheap \<Rightarrow> ptr \<Rightarrow> ptr \<Rightarrow> u32 \<Rightarrow> u32 option" where
  "list_len_loop h plist elem len =
     (if elem \<noteq> list_tail plist then list_len_loop h plist (nxt (h elem)) (len + 1)
      else Some len)"

definition list_len :: "lheap \<Rightarrow> ptr \<Rightarrow> u32 option" where
  "list_len h plist = list_len_loop h plist (nxt (h (list_head plist))) 0"

partial_function (option) list_find_loop :: "lheap \<Rightarrow> ptr \<Rightarrow> ptr \<Rightarrow> ptr \<Rightarrow> bool option" where
  "list_find_loop h plist elem cur_elem =
     (if cur_elem \<noteq> list_tail plist
      then (if cur_elem = elem then Some True else list_find_loop h plist elem (nxt (h cur_elem)))
      else Some False)"

definition list_find :: "lheap \<Rightarrow> ptr \<Rightarrow> ptr \<Rightarrow> bool option" where
  "list_find h plist elem = list_find_loop h plist elem (nxt (h (list_head plist)))"

partial_function (option) list_traversal_loop ::
  "lheap \<Rightarrow> ptr \<Rightarrow> (ptr \<Rightarrow> 'c \<Rightarrow> bool) \<Rightarrow> 'c \<Rightarrow> ptr \<Rightarrow> ptr option" where
  "list_traversal_loop h plist func arg elem =
     (if elem \<noteq> list_tail plist
      then (if func elem arg then Some elem else list_traversal_loop h plist func arg (nxt (h elem)))
      else Some NULL)"

definition list_traversal :: "lheap \<Rightarrow> ptr \<Rightarrow> (ptr \<Rightarrow> 'c \<Rightarrow> bool) \<Rightarrow> 'c \<Rightarrow> ptr option" where
  "list_traversal h plist func arg =
     (let elem = nxt (h (list_head plist))
      in if list_empty h plist then Some NULL else list_traversal_loop h plist func arg elem)"

section \<open>Field updates\<close>

lemma set_prev_simps [simp]:
  "prev (set_prev p v h q) = (if q = p then v else prev (h q))"
  "nxt (set_prev p v h q) = nxt (h q)"
  by (simp_all add: set_prev_def)

lemma set_nxt_simps [simp]:
  "prev (set_nxt p v h q) = prev (h q)"
  "nxt (set_nxt p v h q) = (if q = p then v else nxt (h q))"
  by (simp_all add: set_nxt_def)

lemma tail_neq_head [simp]: "list_tail p \<noteq> p" "p \<noteq> list_tail p"
  by (simp_all add: list_tail_def)

lemma list_insert_fields:
  "prev (list_insert h b e q) =
     (if q = b then e
      else if q = e then (prev (h b)) else prev (h q))"
  "nxt (list_insert h b e q) =
     (if q = e then b else if q = prev (h b) then e else nxt (h q))"
  by (simp_all add: list_insert_def Let_def)

lemma list_remove_fields:
  "prev (list_remove h e q) = (if q = nxt (list_remove h e e) then prev (h e) else prev (h q))"
  "nxt (list_remove h e q) = (if q = prev (h e) then nxt (h e) else nxt (h q))"
  by (simp_all add: list_remove_def Let_def)

section \<open>Well-linked lists\<close>

fun dseg :: "lheap \<Rightarrow> ptr \<Rightarrow> ptr list \<Rightarrow> ptr \<Rightarrow> bool" where
  "dseg h a [] b \<longleftrightarrow> nxt (h a) = b \<and> prev (h b) = a"
| "dseg h a (x # xs) b \<longleftrightarrow> nxt (h a) = x \<and> prev (h x) = a \<and> dseg h x xs b"

definition dlist :: "lheap \<Rightarrow> ptr \<Rightarrow> ptr list \<Rightarrow> bool" where
  "dlist h p xs \<longleftrightarrow> dseg h p xs (list_tail p) \<and> distinct (p # list_tail p # xs)"

lemma dseg_append: "dseg h a (xs @ y # ys) b \<longleftrightarrow> dseg h a xs y \<and> dseg h y ys b"
  by (induction xs arbitrary: a) auto

lemma dseg_cong:
  assumes "\<And>x. x \<in> set (a # xs) \<Longrightarrow> nxt (h' x) = nxt (h x)"
    and "\<And>x. x \<in> set (b # xs) \<Longrightarrow> prev (h' x) = prev (h x)"
  shows "dseg h' a xs b = dseg h a xs b"
  using assms by (induction xs arbitrary: a) auto

lemma dseg_nxt: "dseg h a xs b \<Longrightarrow> nxt (h a) = hd (xs @ [b])"
  by (cases xs) auto

lemma dseg_prev: "dseg h a xs b \<Longrightarrow> prev (h b) = last (a # xs)"
  by (induction xs arbitrary: a) auto

lemma dseg_insert:
  assumes "dseg h a xs c" and "distinct (a # c # xs)" and "e \<notin> set (a # c # xs)"
  shows "dseg (list_insert h c e) a (xs @ [e]) c"
proof (cases xs rule: rev_cases)
  case Nil
  with assms show ?thesis by (auto simp: list_insert_fields)
next
  case (snoc us u)
  with assms have split: "dseg h a us u" "nxt (h u) = c" "prev (h c) = u"
    by (auto simp: dseg_append)
  have "dseg (list_insert h c e) a us u = dseg h a us u"
    by (rule dseg_cong) (use assms snoc split in \<open>auto simp: list_insert_fields\<close>)
  then show ?thesis
    using assms snoc split by (auto simp: dseg_append list_insert_fields)
qed

lemma dseg_remove:
  assumes "dseg h a (xs @ [e]) c" and "distinct (a # c # e # xs)"
  shows "dseg (list_remove h e) a xs c"
proof -
  have e: "dseg h a xs e" "nxt (h e) = c" "prev (h c) = e"
    using assms(1) by (simp_all add: dseg_append)
  show ?thesis
  proof (cases xs rule: rev_cases)
    case Nil
    with assms e show ?thesis by (auto simp: list_remove_fields)
  next
    case (snoc us u)
    with e have split: "dseg h a us u" "nxt (h u) = e" "prev (h e) = u"
      by (auto simp: dseg_append)
    have "dseg (list_remove h e) a us u = dseg h a us u"
      by (rule dseg_cong) (use assms snoc split e in \<open>auto simp: list_remove_fields\<close>)
    then show ?thesis
      using assms snoc split e by (auto simp: dseg_append list_remove_fields)
  qed
qed

text \<open>
  Both operations in the middle of a list: the part after the changed place is untouched.
\<close>

lemma dseg_split_at:
  "dseg h a (xs @ ys) b \<longleftrightarrow> dseg h a xs (hd (ys @ [b])) \<and> (ys \<noteq> [] \<longrightarrow> dseg h (hd ys) (tl ys) b)"
  by (cases ys) (auto simp: dseg_append)

lemma dlist_insert:
  assumes l: "dlist h p (xs @ ys)" and e: "e \<notin> {p, list_tail p} \<union> set (xs @ ys)"
  shows "dlist (list_insert h (hd (ys @ [list_tail p])) e) p (xs @ e # ys)"
proof -
  let ?c = "hd (ys @ [list_tail p])" and ?t = "list_tail p"
  let ?h = "list_insert h ?c e"
  have d: "distinct (p # ?t # xs @ ys)" using l by (simp add: dlist_def)
  have c: "dseg h p xs ?c" and rest: "ys \<noteq> [] \<Longrightarrow> dseg h (hd ys) (tl ys) ?t"
    using l by (simp_all add: dlist_def dseg_split_at)
  have dc: "distinct (p # ?c # xs)" and ec: "e \<notin> set (p # ?c # xs)"
    using d e by (cases ys; auto)+
  have pc: "prev (h ?c) = last (p # xs)" by (rule dseg_prev [OF c])
  have "dseg ?h p (xs @ [e]) ?c" by (rule dseg_insert [OF c dc ec])
  moreover have "dseg ?h (hd ys) (tl ys) ?t" if "ys \<noteq> []"
  proof -
    obtain y ys' where ys: "ys = y # ys'" using \<open>ys \<noteq> []\<close> by (cases ys) auto
    define q where "q = last (p # xs)"
    have q: "q \<in> insert p (set xs)" unfolding q_def by (metis last_in_set list.set(2) list.simps(3))
    have pq: "prev (h y) = q" using pc by (simp add: ys q_def)
    have "dseg ?h y ys' ?t = dseg h y ys' ?t"
    proof (rule dseg_cong)
      fix x assume "x \<in> set (y # ys')"
      then have "x \<noteq> e" "x \<noteq> q" using d e q by (auto simp: ys)
      then show "nxt (?h x) = nxt (h x)" by (simp add: list_insert_fields ys pq)
    next
      fix x assume "x \<in> set (?t # ys')"
      then have "x \<noteq> e" "x \<noteq> y" using d e by (auto simp: ys)
      then show "prev (?h x) = prev (h x)" by (simp add: list_insert_fields ys)
    qed
    then show ?thesis using rest that by (simp add: ys)
  qed
  ultimately have "dseg ?h p ((xs @ [e]) @ ys) ?t"
    using dseg_split_at [of ?h p "xs @ [e]" ys ?t] by blast
  then show ?thesis using d e by (auto simp: dlist_def)
qed

lemma dlist_remove:
  assumes l: "dlist h p (xs @ e # ys)"
  shows "dlist (list_remove h e) p (xs @ ys)"
proof -
  let ?c = "hd (ys @ [list_tail p])" and ?t = "list_tail p"
  let ?h = "list_remove h e"
  have d: "distinct (p # ?t # xs @ e # ys)" using l by (simp add: dlist_def)
  have "dseg h p ((xs @ [e]) @ ys) ?t" using l by (simp add: dlist_def)
  then have c: "dseg h p (xs @ [e]) ?c" and rest: "ys \<noteq> [] \<Longrightarrow> dseg h (hd ys) (tl ys) ?t"
    using dseg_split_at [of h p "xs @ [e]" ys ?t] by blast+
  have dc: "distinct (p # ?c # e # xs)" using d by (cases ys) auto
  have ne: "nxt (h e) = ?c" and pe: "prev (h e) = last (p # xs)"
    using c dseg_prev [of h p xs e] by (simp_all add: dseg_append)
  have "dseg ?h p xs ?c" by (rule dseg_remove [OF c dc])
  moreover have "dseg ?h (hd ys) (tl ys) ?t" if "ys \<noteq> []"
  proof -
    obtain y ys' where ys: "ys = y # ys'" using \<open>ys \<noteq> []\<close> by (cases ys) auto
    define q where "q = last (p # xs)"
    have q: "q \<in> insert p (set xs)" unfolding q_def by (metis last_in_set list.set(2) list.simps(3))
    have fields: "prev (h e) = q" "nxt (h e) = y" using pe ne by (simp_all add: ys q_def)
    have "e \<noteq> q" using d q by auto
    then have nne: "nxt (?h e) = y" by (simp add: list_remove_fields(2) fields)
    have "dseg ?h y ys' ?t = dseg h y ys' ?t"
    proof (rule dseg_cong)
      fix x assume "x \<in> set (y # ys')"
      then have "x \<noteq> q" using d q by (auto simp: ys)
      then show "nxt (?h x) = nxt (h x)" by (simp add: list_remove_fields(2) fields)
    next
      fix x assume "x \<in> set (?t # ys')"
      then have "x \<noteq> y" using d by (auto simp: ys)
      then show "prev (?h x) = prev (h x)" by (simp add: list_remove_fields(1) nne)
    qed
    then show ?thesis using rest that by (simp add: ys)
  qed
  ultimately have "dseg ?h p (xs @ ys) ?t"
    using dseg_split_at [of ?h p xs ys ?t] by blast
  then show ?thesis using d by (simp add: dlist_def)
qed

lemma dlist_nodes: "dlist h p xs \<Longrightarrow> distinct xs \<and> set xs \<inter> {p, list_tail p} = {}"
  by (auto simp: dlist_def)

text \<open>What an operation on one list does not touch.\<close>

lemma dlist_cong:
  "(\<And>q. q \<in> {p, list_tail p} \<union> set xs \<Longrightarrow> h' q = h q) \<Longrightarrow> dlist h' p xs = dlist h p xs"
  unfolding dlist_def by (subst dseg_cong [of p xs h' h "list_tail p"]) auto

lemma list_insert_other:
  "q \<noteq> e \<Longrightarrow> q \<noteq> b \<Longrightarrow> q \<noteq> prev (h b) \<Longrightarrow> list_insert h b e q = h q"
  by (rule list_elem.equality) (simp_all add: list_insert_fields)

lemma list_remove_other:
  "q \<noteq> prev (h e) \<Longrightarrow> q \<noteq> nxt (list_remove h e e) \<Longrightarrow> list_remove h e q = h q"
  by (rule list_elem.equality) (simp_all add: list_remove_fields)

lemma dlist_prev_in:
  assumes "dlist h p (xs @ ys)"
  shows "prev (h (hd (ys @ [list_tail p]))) = last (p # xs)"
proof (rule dseg_prev)
  show "dseg h p xs (hd (ys @ [list_tail p]))"
    using assms dseg_split_at [of h p xs ys "list_tail p"] by (simp add: dlist_def)
qed

lemma last_in: "last (p # xs) \<in> insert p (set xs)"
  by (metis last_in_set list.set(2) list.simps(3))

lemma dlist_insert_frame:
  assumes "dlist h p (xs @ ys)" and "q \<notin> {p, list_tail p, e} \<union> set (xs @ ys)"
  shows "list_insert h (hd (ys @ [list_tail p])) e q = h q"
proof (rule list_insert_other)
  show "q \<noteq> hd (ys @ [list_tail p])" using assms(2) by (cases ys) auto
  show "q \<noteq> prev (h (hd (ys @ [list_tail p])))"
    unfolding dlist_prev_in [OF assms(1)] using assms(2) last_in [of p xs] by auto
qed (use assms(2) in auto)

lemma dlist_remove_frame:
  assumes "dlist h p (xs @ e # ys)" and "q \<notin> {p, list_tail p} \<union> set (xs @ ys)"
  shows "list_remove h e q = h q"
proof -
  have d: "distinct (p # list_tail p # xs @ e # ys)" using assms(1) by (simp add: dlist_def)
  have "prev (h e) = last (p # xs)" using dlist_prev_in [of h p xs "e # ys"] assms(1) by simp
  then have pe: "prev (h e) \<in> insert p (set xs)" using last_in by simp
  have "dseg h e ys (list_tail p)" using assms(1) by (simp add: dlist_def dseg_append)
  then have ne: "nxt (h e) \<in> insert (list_tail p) (set ys)" by (cases ys) auto
  have "e \<noteq> prev (h e)" using d pe by auto
  then have "nxt (list_remove h e e) = nxt (h e)" by (simp add: list_remove_fields(2))
  then show ?thesis using assms(2) pe ne by (intro list_remove_other) auto
qed

section \<open>The operations on well-linked lists\<close>

lemma list_init_dlist: "dlist (list_init h p) p []"
  by (simp add: dlist_def list_init_def list_head_def Let_def)

lemma list_init_other: "q \<noteq> p \<Longrightarrow> q \<noteq> list_tail p \<Longrightarrow> list_init h p q = h q"
  by (simp add: list_init_def list_head_def Let_def set_prev_def set_nxt_def)

lemma list_append_dlist:
  "dlist h p xs \<Longrightarrow> e \<notin> {p, list_tail p} \<union> set xs \<Longrightarrow> dlist (list_append h p e) p (xs @ [e])"
  using dlist_insert [of h p xs "[]" e] by (simp add: list_append_def)

lemma list_push_eq:
  "dlist h p xs \<Longrightarrow> list_push h p e = list_insert h (hd (xs @ [list_tail p])) e"
  using dseg_nxt [of h p xs "list_tail p"] by (simp add: list_push_def list_head_def dlist_def)

lemma list_push_dlist:
  "dlist h p xs \<Longrightarrow> e \<notin> {p, list_tail p} \<union> set xs \<Longrightarrow> dlist (list_push h p e) p (e # xs)"
  using dlist_insert [of h p "[]" xs e] by (simp add: list_push_eq)

lemma list_empty_dlist: "dlist h p xs \<Longrightarrow> list_empty h p \<longleftrightarrow> xs = []"
  by (cases xs) (auto simp: list_empty_def list_head_def dlist_def)

lemma list_pop_Nil: "dlist h p [] \<Longrightarrow> list_pop h p = (NULL, h)"
  by (simp add: list_pop_def list_empty_dlist)

lemma list_pop_Cons: "dlist h p (x # xs) \<Longrightarrow> list_pop h p = (x, list_remove h x)"
  using list_empty_dlist [of h p "x # xs"]
  by (simp add: list_pop_def list_head_def Let_def dlist_def)

lemma list_pop_dlist: "dlist h p (x # xs) \<Longrightarrow> dlist (snd (list_pop h p)) p xs"
  using dlist_remove [of h p "[]" x xs] by (simp add: list_pop_Cons)

lemma list_len_loop_dseg:
  "dseg h a xs (list_tail p) \<Longrightarrow> list_tail p \<notin> set xs \<Longrightarrow>
   list_len_loop h p (nxt (h a)) k = Some (k + of_nat (length xs))"
proof (induction xs arbitrary: a k)
  case Nil
  then show ?case by (simp add: list_len_loop.simps)
next
  case (Cons x xs)
  then show ?case by (subst list_len_loop.simps) (auto simp: algebra_simps)
qed

lemma list_find_loop_dseg:
  "dseg h a xs (list_tail p) \<Longrightarrow> list_tail p \<notin> set xs \<Longrightarrow>
   list_find_loop h p e (nxt (h a)) = Some (e \<in> set xs)"
proof (induction xs arbitrary: a)
  case Nil
  then show ?case by (simp add: list_find_loop.simps)
next
  case (Cons x xs)
  then show ?case by (subst list_find_loop.simps) auto
qed

lemma list_traversal_loop_dseg:
  "dseg h a xs (list_tail p) \<Longrightarrow> list_tail p \<notin> set xs \<Longrightarrow>
   list_traversal_loop h p f arg (nxt (h a)) =
     Some (case find (\<lambda>x. f x arg) xs of Some x \<Rightarrow> x | None \<Rightarrow> NULL)"
proof (induction xs arbitrary: a)
  case Nil
  then show ?case by (simp add: list_traversal_loop.simps)
next
  case (Cons x xs)
  then show ?case by (subst list_traversal_loop.simps) auto
qed

section \<open>The contract: a double-ended queue of nodes\<close>

text \<open>
  \<open>rep h p xs\<close>: the list at \<open>p\<close> holds \<open>xs\<close> in store \<open>h\<close>; \<open>ends p\<close> are its own sentinels.
  Every operation keeps the lists whose nodes are disjoint from the ones it works on.
\<close>

locale deque =
  fixes rep :: "'h \<Rightarrow> 'p \<Rightarrow> 'p list \<Rightarrow> bool"
    and ends :: "'p \<Rightarrow> 'p set"
    and append :: "'h \<Rightarrow> 'p \<Rightarrow> 'p \<Rightarrow> 'h"
    and push :: "'h \<Rightarrow> 'p \<Rightarrow> 'p \<Rightarrow> 'h"
    and remove :: "'h \<Rightarrow> 'p \<Rightarrow> 'h"
    and pop :: "'h \<Rightarrow> 'p \<Rightarrow> 'p \<times> 'h"
    and null :: 'p
  assumes nodes: "rep h p xs \<Longrightarrow> distinct xs \<and> set xs \<inter> ends p = {}"
    and append: "rep h p xs \<Longrightarrow> e \<notin> ends p \<union> set xs \<Longrightarrow> rep (append h p e) p (xs @ [e])"
    and push: "rep h p xs \<Longrightarrow> e \<notin> ends p \<union> set xs \<Longrightarrow> rep (push h p e) p (e # xs)"
    and remove: "rep h p (xs @ e # ys) \<Longrightarrow> rep (remove h e) p (xs @ ys)"
    and pop_Nil: "rep h p [] \<Longrightarrow> pop h p = (null, h)"
    and pop_Cons: "rep h p (x # xs) \<Longrightarrow> pop h p = (x, remove h x)"
    and append_frame: "rep h p xs \<Longrightarrow> rep h q ys \<Longrightarrow>
      (ends p \<union> set xs \<union> {e}) \<inter> (ends q \<union> set ys) = {} \<Longrightarrow> rep (append h p e) q ys"
    and push_frame: "rep h p xs \<Longrightarrow> rep h q ys \<Longrightarrow>
      (ends p \<union> set xs \<union> {e}) \<inter> (ends q \<union> set ys) = {} \<Longrightarrow> rep (push h p e) q ys"
    and remove_frame: "rep h p (xs @ e # ys) \<Longrightarrow> rep h q zs \<Longrightarrow>
      (ends p \<union> set (xs @ ys)) \<inter> (ends q \<union> set zs) = {} \<Longrightarrow> rep (remove h e) q zs"
begin

lemma pop_rest: "rep h p (x # xs) \<Longrightarrow> rep (snd (pop h p)) p xs"
  using remove [of h p "[]" x xs] by (simp add: pop_Cons)

lemma pop_fst: "rep h p (x # xs) \<Longrightarrow> fst (pop h p) = x"
  by (simp add: pop_Cons)

text \<open>Appending a batch, as a fresh arena does with its blocks, keeps the batch's order.\<close>

lemma append_all:
  "rep h p xs \<Longrightarrow> distinct es \<Longrightarrow> set es \<inter> (ends p \<union> set xs) = {} \<Longrightarrow>
   rep (foldl (\<lambda>h e. append h p e) h es) p (xs @ es)"
proof (induction es arbitrary: h xs)
  case (Cons e es)
  have "rep (append h p e) p (xs @ [e])" using Cons.prems by (intro append) auto
  then have "rep (foldl (\<lambda>h e. append h p e) (append h p e) es) p ((xs @ [e]) @ es)"
    using Cons.prems by (intro Cons.IH) auto
  then show ?case by simp
qed simp

text \<open>Removing a batch of members leaves the others in order.\<close>

lemma remove_one: "rep h p xs \<Longrightarrow> e \<in> set xs \<Longrightarrow> rep (remove h e) p (filter (\<lambda>x. x \<noteq> e) xs)"
proof -
  assume r: "rep h p xs" and e: "e \<in> set xs"
  obtain us vs where xs: "xs = us @ e # vs" using e by (auto simp: in_set_conv_decomp)
  have "e \<notin> set us" "e \<notin> set vs" using nodes [OF r] by (auto simp: xs)
  then have "filter (\<lambda>x. x \<noteq> e) us = us" "filter (\<lambda>x. x \<noteq> e) vs = vs"
    by (auto simp: filter_id_conv)
  then have "filter (\<lambda>x. x \<noteq> e) xs = us @ vs" by (simp add: xs)
  then show ?thesis using remove [of h p us e vs] r by (simp add: xs)
qed

lemma remove_all:
  "rep h p xs \<Longrightarrow> distinct es \<Longrightarrow> set es \<subseteq> set xs \<Longrightarrow>
   rep (foldl remove h es) p (filter (\<lambda>x. x \<notin> set es) xs)"
proof (induction es arbitrary: h xs)
  case (Cons e es)
  have "rep (remove h e) p (filter (\<lambda>x. x \<noteq> e) xs)" using Cons.prems by (intro remove_one) auto
  then have "rep (foldl remove (remove h e) es) p
      (filter (\<lambda>x. x \<notin> set es) (filter (\<lambda>x. x \<noteq> e) xs))"
    using Cons.prems by (intro Cons.IH) auto
  then show ?case by (simp add: conj_commute)
qed simp

text \<open>One round of a round-robin scheduler: take the first node, put it back at the end.\<close>

lemma rotate_one: "rep h p (x # xs) \<Longrightarrow> rep (append (snd (pop h p)) p x) p (xs @ [x])"
  using nodes [of h p "x # xs"] pop_rest [of h p x xs] by (intro append) auto

end

lemma dlist_frame:
  assumes "dlist h q ys" and "\<And>r. r \<notin> A \<Longrightarrow> h' r = h r"
    and "A \<inter> ({q, list_tail q} \<union> set ys) = {}"
  shows "dlist h' q ys"
  using assms by (subst dlist_cong [of q ys h' h]) blast+

interpretation kl: deque dlist "\<lambda>p. {p, list_tail p}" list_append list_push list_remove list_pop NULL
proof unfold_locales
  fix h p xs assume "dlist h p xs"
  then show "distinct xs \<and> set xs \<inter> {p, list_tail p} = {}" by (rule dlist_nodes)
next
  fix h p xs q ys e
  assume p: "dlist h p xs" and q: "dlist h q ys"
    and dis: "({p, list_tail p} \<union> set xs \<union> {e}) \<inter> ({q, list_tail q} \<union> set ys) = {}"
  show "dlist (list_append h p e) q ys"
    by (rule dlist_frame [OF q _ dis], unfold list_append_def)
      (use dlist_insert_frame [of h p xs "[]"] p in auto)
  show "dlist (list_push h p e) q ys"
    by (rule dlist_frame [OF q _ dis], unfold list_push_eq [OF p])
      (use dlist_insert_frame [of h p "[]" xs] p in auto)
next
  fix h p xs e ys q zs
  assume p: "dlist h p (xs @ e # ys)" and q: "dlist h q zs"
    and dis: "({p, list_tail p} \<union> set (xs @ ys)) \<inter> ({q, list_tail q} \<union> set zs) = {}"
  show "dlist (list_remove h e) q zs"
    by (rule dlist_frame [OF q dlist_remove_frame [OF p] dis])
qed (rule list_append_dlist list_push_dlist dlist_remove list_pop_Nil list_pop_Cons; assumption)+

section \<open>Properties\<close>

text \<open>The insertions of \<open>list.c\<close> keep a list well linked in both directions: \<open>list_append\<close>
  adds the node at the back, \<open>list_push\<close> at the front, \<open>list_insert\<close> before the given element.\<close>

theorem list_insertions:
  assumes "dlist h p (xs @ b # ys)" and "e \<notin> {p, list_tail p} \<union> set (xs @ b # ys)"
  shows "dlist (list_append h p e) p (xs @ b # ys @ [e]) \<and>
    dlist (list_push h p e) p (e # xs @ b # ys) \<and>
    dlist (list_insert h b e) p (xs @ e # b # ys)"
  using list_append_dlist [OF assms] list_push_dlist [OF assms] dlist_insert [OF assms] by simp

text \<open>\<open>list_remove\<close> unlinks exactly the given element, wherever it stands; \<open>list_pop\<close> hands
  out the first one, or \<open>NULL\<close> with the list unchanged when there is none.\<close>

theorem list_removals:
  assumes "dlist h p (xs @ e # ys)" and "dlist h0 p0 []"
  shows "dlist (list_remove h e) p (xs @ ys) \<and>
    (case list_pop h p of (r, h') \<Rightarrow> r = hd (xs @ e # ys) \<and> dlist h' p (tl (xs @ e # ys))) \<and>
    list_pop h0 p0 = (NULL, h0)"
  using dlist_remove [OF assms(1)] list_pop_Nil [OF assms(2)]
    list_pop_dlist [of h p] list_pop_Cons [of h p] assms
  by (cases xs) auto

text \<open>the walks of \<open>list.c\<close> end on every well-linked list, and count, find and select exactly
  its elements (the count is a \<open>uint32_t\<close>, so it is right below 2^32 elements).\<close>

theorem list_walks:
  assumes "dlist h p xs"
  shows "list_len h p = Some (of_nat (length xs)) \<and> list_find h p e = Some (e \<in> set xs) \<and>
    list_traversal h p f arg = Some (case find (\<lambda>x. f x arg) xs of Some x \<Rightarrow> x | None \<Rightarrow> NULL)"
  using assms list_empty_dlist [OF assms] list_len_loop_dseg [of h p xs p 0]
    list_find_loop_dseg [of h p xs p e] list_traversal_loop_dseg [of h p xs p f arg]
  by (auto simp: list_len_def list_find_def list_traversal_def list_head_def dlist_def Let_def)

text \<open>A concrete list: nodes 100 and 200 on the list at 16, appended to an initialised list.\<close>

definition demo_list :: lheap where
  "demo_list = list_append (list_append (list_init (\<lambda>_. \<lparr>prev = 0, nxt = 0\<rparr>) 16) 16 100) 16 200"

lemma demo_list_dlist: "dlist demo_list 16 [100, 200]"
proof -
  have "dlist (list_append (list_init (\<lambda>_. \<lparr>prev = 0, nxt = 0\<rparr>) 16) 16 100) 16 ([] @ [100])"
    by (intro list_append_dlist list_init_dlist) (simp add: list_tail_def)
  then have "dlist demo_list 16 (([] @ [100]) @ [200])"
    unfolding demo_list_def by (rule list_append_dlist) (simp add: list_tail_def)
  then show ?thesis by simp
qed

theorem list_insertions_witness:
  "dlist (list_append demo_list 16 300) 16 [100, 200, 300] \<and>
    dlist (list_push demo_list 16 300) 16 [300, 100, 200] \<and>
    dlist (list_insert demo_list 200 300) 16 [100, 300, 200]"
  using list_insertions [of demo_list 16 "[100]" 200 "[]" 300] demo_list_dlist
  by (simp add: list_tail_def)

theorem list_removals_witness:
  "dlist (list_remove demo_list 200) 16 [100] \<and>
    (case list_pop demo_list 16 of (r, h') \<Rightarrow> r = 100 \<and> dlist h' 16 [200]) \<and>
    list_pop (list_init demo_list 16) 16 = (NULL, list_init demo_list 16)"
  using list_removals [of demo_list 16 "[100]" 200 "[]" "list_init demo_list 16" 16]
    demo_list_dlist list_init_dlist [of demo_list 16]
  by simp

theorem list_walks_witness:
  "list_len demo_list 16 = Some (of_nat (length [100, 200 :: ptr])) \<and>
    list_find demo_list 16 200 = Some (200 \<in> set [100, 200 :: ptr]) \<and>
    list_traversal demo_list 16 (\<lambda>x a. x = a) 200 =
      Some (case find (\<lambda>x. x = 200) [100, 200] of Some x \<Rightarrow> x | None \<Rightarrow> NULL)"
  by (rule list_walks [OF demo_list_dlist])

end
