(* ===== verification/KBitmap.thy ===== *)
theory KBitmap
  imports KString
begin

text \<open>
  \<open>code/kernel/src/bitmap.c\<close>: the bit allocator behind the page pools and the on-disk bitmaps.
  A \<open>struct bitmap\<close> is a length in bytes and a pointer to storage that the caller owns, so the
  bits are read and written in the byte memory: several bitmaps share one memory (the two physical
  pools are neighbours there) and reads may run past the end of a bitmap.

  \<open>bitmap_acquire\<close> is written loop by loop as in the code and then proved equal to a reference
  search: the first free run of the requested length. The locale \<open>bit_allocator\<close> is the contract
  the page pools are built on.
\<close>

section \<open>The operations\<close>

record bitmap =
  len :: u32
  bits :: ptr

definition bitmap_init :: "ptr \<Rightarrow> u32 \<Rightarrow> bitmap" where
  "bitmap_init btmp_addr n = \<lparr>len = n, bits = btmp_addr\<rparr>"

definition bitmap_reset :: "bitmap \<Rightarrow> mem \<Rightarrow> mem" where
  "bitmap_reset btmp m = memset m (bits btmp) 0 (len btmp)"

text \<open>\<open>bits[byte_idx] |= (1 << bit_idx)\<close> on an \<open>uint8_t\<close>: only the low eight bits are kept.\<close>

definition bitmap_set :: "bitmap \<Rightarrow> u32 \<Rightarrow> bool \<Rightarrow> mem \<Rightarrow> mem" where
  "bitmap_set btmp btmp_idx value m =
     (let byte_idx = btmp_idx div 8; bit_idx = btmp_idx mod 8; a = bits btmp + byte_idx
      in if value then m(a := m a OR push_bit (unat bit_idx) 1)
         else m(a := m a AND NOT (push_bit (unat bit_idx) 1)))"

definition bitmap_check :: "bitmap \<Rightarrow> u32 \<Rightarrow> mem \<Rightarrow> bool" where
  "bitmap_check btmp btmp_idx m =
     (let byte_idx = btmp_idx div 8; bit_idx = btmp_idx mod 8
      in m (bits btmp + byte_idx) AND push_bit (unat bit_idx) 1 \<noteq> 0)"

text \<open>
  Step 1 of \<open>bitmap_acquire\<close>: skip the full bytes. The guard is \<open>&\<close>, not \<open>&&\<close>, so the byte at
  index \<open>len\<close> is read too, without effect on the result.
\<close>

function skip_full_bytes :: "bitmap \<Rightarrow> mem \<Rightarrow> u32 \<Rightarrow> u32" where
  "skip_full_bytes btmp m byte_idx =
     (if 0xff = m (bits btmp + byte_idx) \<and> byte_idx < len btmp
      then skip_full_bytes btmp m (byte_idx + 1) else byte_idx)"
  by pat_completeness auto
termination
  by (relation "measure (\<lambda>(b, m, i). unat (len b) - unat i)")
    (auto simp: unat_Suc_less word_less_nat_alt intro!: diff_less_mono2)

declare skip_full_bytes.simps [simp del]

text \<open>Step 2: the first clear bit of that byte; \<open>(uint8_t)(1 << bit_idx)\<close> is 0 from bit 8 on.\<close>

function first_clear_bit :: "u8 \<Rightarrow> nat \<Rightarrow> nat" where
  "first_clear_bit byte bit_idx =
     (if push_bit bit_idx 1 AND byte \<noteq> 0 then first_clear_bit byte (Suc bit_idx) else bit_idx)"
  by pat_completeness auto
termination
proof (relation "measure (\<lambda>(b, i). 8 - i)")
  fix byte :: u8 and i
  assume nz: "push_bit i 1 AND byte \<noteq> 0"
  have "i < 8"
  proof (rule ccontr)
    assume "\<not> i < 8"
    then have "push_bit i (1 :: u8) = 0" by (intro push_bit_word_beyond) simp
    with nz show False by (simp only: and_zero_eq) simp
  qed
  then show "((byte, Suc i), byte, i) \<in> measure (\<lambda>(b, i). 8 - i)" by simp
qed simp

declare first_clear_bit.simps [simp del]

text \<open>Part B: scan on, counting the free bits in a row.\<close>

function find_run :: "bitmap \<Rightarrow> mem \<Rightarrow> u32 \<Rightarrow> u32 \<Rightarrow> u32 \<Rightarrow> u32 \<Rightarrow> u32" where
  "find_run btmp m cnt tot idx free_cnt =
     (if idx < tot
      then (let free_cnt' = (if bitmap_check btmp idx m then 0 else free_cnt + 1)
            in if free_cnt' = cnt then idx - free_cnt' + 1
               else find_run btmp m cnt tot (idx + 1) free_cnt')
      else -1)"
  by pat_completeness auto
termination
  by (relation "measure (\<lambda>(b, m, cnt, tot, idx, f). unat tot - unat idx)")
    (auto simp: unat_Suc_less word_less_nat_alt intro!: diff_less_mono2)

declare find_run.simps [simp del]

fun bitmap_set_run :: "nat \<Rightarrow> bitmap \<Rightarrow> u32 \<Rightarrow> bool \<Rightarrow> mem \<Rightarrow> mem" where
  "bitmap_set_run 0 btmp idx value m = m"
| "bitmap_set_run (Suc n) btmp idx value m =
     bitmap_set_run n btmp (idx + 1) value (bitmap_set btmp idx value m)"

definition bitmap_acquire :: "bitmap \<Rightarrow> u32 \<Rightarrow> mem \<Rightarrow> u32 \<times> mem" where
  "bitmap_acquire btmp cnt m =
     (let byte_idx = skip_full_bytes btmp m 0
      in if byte_idx = len btmp then (-1, m)
         else
           let bit_idx = first_clear_bit (m (bits btmp + byte_idx)) 0;
               free_idx = byte_idx * 8 + of_nat bit_idx
           in if cnt = 1 then (free_idx, bitmap_set btmp free_idx True m)
              else
                let tot = len btmp * 8;
                    free_idx' = find_run btmp m cnt tot (free_idx + 1) 1
                in (free_idx',
                    if free_idx' \<noteq> -1 then bitmap_set_run (unat cnt) btmp free_idx' True m else m))"

text \<open>\<open>bitmap_release\<close> asserts each bit before it clears it; a failed assertion panics.\<close>

fun bitmap_release_loop :: "nat \<Rightarrow> bitmap \<Rightarrow> u32 \<Rightarrow> mem \<Rightarrow> stop + mem" where
  "bitmap_release_loop 0 btmp idx m = Inr m"
| "bitmap_release_loop (Suc n) btmp idx m =
     (if bitmap_check btmp idx m
      then bitmap_release_loop n btmp (idx + 1) (bitmap_set btmp idx False m)
      else Inl Panic)"

definition bitmap_release :: "bitmap \<Rightarrow> u32 \<Rightarrow> u32 \<Rightarrow> mem \<Rightarrow> stop + mem" where
  "bitmap_release btmp btmp_idx cnt m = bitmap_release_loop (unat cnt) btmp btmp_idx m"

section \<open>Single bits\<close>

lemma bit_idx_less: "unat ((i :: u32) mod 8) < 8"
  using word_mod_less_divisor [of 8 i] by (simp add: word_less_nat_alt)

lemma word_bit_exists: "w \<noteq> (0 :: u8) \<Longrightarrow> \<exists>k. bit w k"
proof (rule ccontr)
  assume "w \<noteq> 0" and no: "\<nexists>k. bit w k"
  have "w = 0" by (rule bit_word_eqI) (use no in simp)
  with \<open>w \<noteq> 0\<close> show False ..
qed

lemma and_push_bit_1: "x AND push_bit n 1 \<noteq> 0 \<longleftrightarrow> bit x n" for x :: u8
proof
  assume "bit x n"
  then have "bit (x AND push_bit n 1) n"
    using bit_imp_le_length [of x n] by (simp add: bit_simps del: push_bit_of_1)
  then show "x AND push_bit n 1 \<noteq> 0" by auto
next
  assume "x AND push_bit n 1 \<noteq> 0"
  then obtain k where "bit (x AND push_bit n 1) k" using word_bit_exists by blast
  then show "bit x n" by (auto simp: bit_simps simp del: push_bit_of_1)
qed

lemma bitmap_check_bit:
  "bitmap_check b i m \<longleftrightarrow> bit (m (bits b + i div 8)) (unat (i mod 8))"
  unfolding bitmap_check_def Let_def by (rule and_push_bit_1)

lemma same_bit_iff:
  "(i :: u32) div 8 = j div 8 \<and> unat (i mod 8) = unat (j mod 8) \<longleftrightarrow> i = j"
  by (metis div_mult_mod_eq unsigned_word_eqI)

lemma bitmap_check_set [mem_simps]:
  "bitmap_check b j (bitmap_set b i v m) = (if j = i then v else bitmap_check b j m)"
proof -
  have "bit (bitmap_set b i v m (bits b + j div 8)) (unat (j mod 8)) =
      (if j div 8 = i div 8 \<and> unat (j mod 8) = unat (i mod 8) then v
       else bit (m (bits b + j div 8)) (unat (j mod 8)))"
    using bit_idx_less [of j]
    by (auto simp: bitmap_set_def Let_def bit_simps)
  then show ?thesis by (simp only: bitmap_check_bit same_bit_iff)
qed

lemma bitmap_set_other [mem_simps]:
  "q \<noteq> bits b + i div 8 \<Longrightarrow> bitmap_set b i v m q = m q"
  by (simp add: bitmap_set_def Let_def)

lemma bitmap_check_cong:
  "m (bits b + i div 8) = m' (bits b + i div 8) \<Longrightarrow> bitmap_check b i m = bitmap_check b i m'"
  by (simp add: bitmap_check_bit)

section \<open>Runs of bits\<close>

lemma check_of_nat:
  assumes "i < 2 ^ 32"
  shows "bitmap_check b (of_nat i) m \<longleftrightarrow> bit (m (bits b + of_nat (i div 8))) (i mod 8)"
proof -
  have "(of_nat i :: u32) div 8 = of_nat (i div 8)" "unat ((of_nat i :: u32) mod 8) = i mod 8"
    using assms by (simp_all add: word_arith_nat_div unat_mod unat_of_nat_less)
  then show ?thesis by (simp only: bitmap_check_bit)
qed

lemma bitmap_check_set_run [mem_simps]:
  "n < 2 ^ 32 \<Longrightarrow>
   bitmap_check b j (bitmap_set_run n b i v m) = (if j - i < of_nat n then v else bitmap_check b j m)"
proof (induction n arbitrary: i m)
  case (Suc n)
  have n: "n < 2 ^ 32" using Suc.prems by simp
  show ?case
    by (simp only: bitmap_set_run.simps Suc.IH [OF n] bitmap_check_set
        offset_less_Suc [OF Suc.prems, of j i]) auto
qed simp

text \<open>Only the bytes that hold a bit of the run are written.\<close>

lemma bitmap_set_run_other:
  "(\<And>k. k < n \<Longrightarrow> q \<noteq> bits b + (i + of_nat k) div 8) \<Longrightarrow> bitmap_set_run n b i v m q = m q"
proof (induction n arbitrary: i m)
  case (Suc n)
  have "q \<noteq> bits b + (i + of_nat 0) div 8" by (rule Suc.prems) simp
  moreover have "bitmap_set_run n b (i + 1) v (bitmap_set b i v m) q = bitmap_set b i v m q"
  proof (rule Suc.IH)
    fix k assume "k < n"
    then have "q \<noteq> bits b + (i + of_nat (Suc k)) div 8" by (intro Suc.prems) simp
    then show "q \<noteq> bits b + (i + 1 + of_nat k) div 8" by (simp add: algebra_simps)
  qed
  ultimately show ?case by (simp add: bitmap_set_other)
qed simp

section \<open>The reference search\<close>

definition capacity :: "bitmap \<Rightarrow> nat" where
  "capacity b = unat (len b) * 8"

definition bit_free :: "bitmap \<Rightarrow> mem \<Rightarrow> nat \<Rightarrow> bool" where
  "bit_free b m i \<longleftrightarrow> \<not> bitmap_check b (of_nat i) m"

definition run_free :: "bitmap \<Rightarrow> mem \<Rightarrow> nat \<Rightarrow> nat \<Rightarrow> bool" where
  "run_free b m s n \<longleftrightarrow> s + n \<le> capacity b \<and> list_all (bit_free b m) [s..<s + n]"

definition first_fit :: "bitmap \<Rightarrow> mem \<Rightarrow> nat \<Rightarrow> nat option" where
  "first_fit b m n = find (\<lambda>s. run_free b m s n) [0..<capacity b]"

lemma run_free_iff:
  "run_free b m s n \<longleftrightarrow> s + n \<le> capacity b \<and> (\<forall>i. s \<le> i \<and> i < s + n \<longrightarrow> bit_free b m i)"
  by (auto simp: run_free_def list_all_iff)

lemma run_free_1: "run_free b m k 1 \<longleftrightarrow> k < capacity b \<and> bit_free b m k"
  by (auto simp: run_free_iff le_less_Suc_eq)

lemma skip_full_bytes_spec:
  "i \<le> len b \<Longrightarrow> skip_full_bytes b m i \<le> len b \<and>
    (\<forall>j. i \<le> j \<and> j < skip_full_bytes b m i \<longrightarrow> m (bits b + j) = 0xff) \<and>
    (skip_full_bytes b m i < len b \<longrightarrow> m (bits b + skip_full_bytes b m i) \<noteq> 0xff)"
proof (induction b m i rule: skip_full_bytes.induct)
  case (1 b m i)
  show ?case
  proof (cases "0xff = m (bits b + i) \<and> i < len b")
    case True
    then have le: "i + 1 \<le> len b" and step: "unat (i + 1) = Suc (unat i)"
      using unat_Suc_less [of i "len b"] by (simp_all add: word_le_nat_alt word_less_nat_alt)
    have unf: "skip_full_bytes b m i = skip_full_bytes b m (i + 1)"
      using True by (subst skip_full_bytes.simps) simp
    note IH = "1.IH" [OF True le]
    have "m (bits b + j) = 0xff" if "i \<le> j" "j < skip_full_bytes b m (i + 1)" for j
    proof (cases "j = i")
      case False
      then have "i + 1 \<le> j" using that(1) step
        by (simp add: word_le_nat_alt) (metis le_neq_implies_less Suc_leI unsigned_word_eqI)
      then show ?thesis using IH that(2) by blast
    qed (use True in simp)
    then show ?thesis using IH unf by simp
  next
    case False
    then have "skip_full_bytes b m i = i" by (subst skip_full_bytes.simps) auto
    then show ?thesis using False "1.prems" by auto
  qed
qed

lemma push_bit_and_1: "push_bit n 1 AND x \<noteq> 0 \<longleftrightarrow> bit x n" for x :: u8
  by (subst and.commute) (rule and_push_bit_1)

lemma first_clear_bit_spec:
  "(\<forall>j. i \<le> j \<and> j < first_clear_bit x i \<longrightarrow> bit x j) \<and> \<not> bit x (first_clear_bit x i)"
proof (induction x i rule: first_clear_bit.induct)
  case (1 x i)
  show ?case
  proof (cases "bit x i")
    case True
    then have "first_clear_bit x i = first_clear_bit x (Suc i)"
      by (subst first_clear_bit.simps) (simp only: push_bit_and_1 if_True)
    moreover have "(\<forall>j. Suc i \<le> j \<and> j < first_clear_bit x (Suc i) \<longrightarrow> bit x j) \<and>
        \<not> bit x (first_clear_bit x (Suc i))"
      using True by (intro "1.IH") (simp only: push_bit_and_1)
    ultimately show ?thesis using True by (metis Suc_leI le_neq_implies_less)
  next
    case False
    then have "first_clear_bit x i = i"
      by (subst first_clear_bit.simps) (simp only: push_bit_and_1 if_False)
    then show ?thesis using False by auto
  qed
qed

lemma first_clear_bit_less:
  assumes "x \<noteq> 0xff"
  shows "first_clear_bit x 0 < 8"
proof (rule ccontr)
  assume "\<not> ?thesis"
  then have "\<forall>j<8. bit x j" using first_clear_bit_spec [of 0 x] by simp
  then have "x = mask 8" by (intro bit_word_eqI) (simp add: bit_mask_iff)
  then show False using assms by (simp add: mask_eq_exp_minus_1)
qed

lemma full_byte_bits:
  assumes "m (bits b + of_nat (i div 8)) = 0xff" and "i < 2 ^ 32"
  shows "\<not> bit_free b m i"
proof -
  have "(0xff :: u8) = mask 8" by (simp add: mask_eq_exp_minus_1)
  then have "bit (0xff :: u8) (i mod 8)" by (simp only: bit_mask_iff) simp
  then show ?thesis using assms by (simp add: bit_free_def check_of_nat)
qed

text \<open>The index the two searches of \<open>bitmap_acquire\<close> find is the least free one.\<close>

lemma first_free_bit:
  fixes m :: mem
  assumes cap: "capacity b < 2 ^ 31"
  defines "k \<equiv> skip_full_bytes b m 0"
  defines "f \<equiv> unat k * 8 + first_clear_bit (m (bits b + k)) 0"
  shows "if k = len b then (\<forall>i<capacity b. \<not> bit_free b m i)
    else f < capacity b \<and> bit_free b m f \<and> (\<forall>i<f. \<not> bit_free b m i)"
proof -
  have k: "k \<le> len b" "\<And>j. j < k \<Longrightarrow> m (bits b + j) = 0xff" "k < len b \<Longrightarrow> m (bits b + k) \<noteq> 0xff"
    using skip_full_bytes_spec [of 0 b m] by (auto simp: k_def)
  have below: "\<not> bit_free b m i" if "i < unat k * 8" for i
  proof (rule full_byte_bits)
    have lk: "i div 8 < unat k" using that by (simp add: less_mult_imp_div_less)
    then have "(of_nat (i div 8) :: u32) < k"
      using unat_le_4G [of k] by (simp add: word_less_nat_alt unat_of_nat_less)
    then show "m (bits b + of_nat (i div 8)) = 0xff" by (rule k(2))
    show "i < 2 ^ 32" using that cap k(1) by (simp add: capacity_def word_le_nat_alt)
  qed
  show ?thesis
  proof (cases "k = len b")
    case True
    then show ?thesis using below by (simp add: capacity_def)
  next
    case False
    then have less: "k < len b" using k(1) by simp
    let ?r = "first_clear_bit (m (bits b + k)) 0"
    have r: "?r < 8" by (rule first_clear_bit_less [OF k(3) [OF less]])
    have fcap: "f < capacity b" using less r by (simp add: f_def capacity_def word_less_nat_alt)
    have at: "bit_free b m (unat k * 8 + j) \<longleftrightarrow> \<not> bit (m (bits b + k)) j" if "j < 8" for j
    proof -
      have "unat k * 8 + j < 2 ^ 32" using that less cap by (simp add: capacity_def word_less_nat_alt)
      then have "bitmap_check b (of_nat (unat k * 8 + j)) m = bit (m (bits b + k)) j"
        using that by (subst check_of_nat) simp_all
      then show ?thesis by (simp only: bit_free_def)
    qed
    have "bit_free b m f" using at [OF r] first_clear_bit_spec [of 0] by (simp add: f_def)
    moreover have "\<not> bit_free b m i" if i: "i < f" for i
    proof (cases "i < unat k * 8")
      case False
      then obtain j where j: "i = unat k * 8 + j" by (metis le_Suc_ex not_less)
      then have "j < ?r" using i by (simp add: f_def)
      then show ?thesis using at [of j] r first_clear_bit_spec [of 0 "m (bits b + k)"] by (simp add: j)
    qed (rule below)
    ultimately show ?thesis using fcap False by simp
  qed
qed


section \<open>The scan finds the first free run\<close>

lemma find_run_spec:
  assumes cap: "capacity b < 2 ^ 31" and n: "unat cnt = n"
    and i: "i \<le> capacity b" and c: "c \<le> i" "c < n"
    and free: "\<And>k. i - c \<le> k \<Longrightarrow> k < i \<Longrightarrow> bit_free b m k"
    and none: "\<And>k. k < i - c \<Longrightarrow> \<not> run_free b m k n"
  shows "find_run b m cnt (len b * 8) (of_nat i) (of_nat c) =
    (case first_fit b m n of None \<Rightarrow> -1 | Some k \<Rightarrow> of_nat k)"
  using i c free none
proof (induction "capacity b - i" arbitrary: i c)
  case 0
  then have i: "i = capacity b" by simp
  have "unat (len b * 8) = i"
    using cap i by (simp add: capacity_def unat_mult_small)
  then have "(of_nat i :: u32) = len b * 8" by (rule of_nat_of_unat)
  then have "find_run b m cnt (len b * 8) (of_nat i) (of_nat c) = -1"
    by (subst find_run.simps) simp
  moreover have "\<not> run_free b m k n" for k
    using "0.prems"(3) "0.prems"(5) [of k] i by (cases "k < i - c") (auto simp: run_free_iff)
  then have "first_fit b m n = None" by (simp add: first_fit_def find_upt_None)
  ultimately show ?case by simp
next
  case (Suc d)
  have ilt: "i < capacity b" using Suc.hyps(2) by simp
  have i32: "i < 2 ^ 32" and n32: "n < 2 ^ 32" using ilt cap n by auto
  have "unat (len b * 8) = capacity b"
    using cap by (simp add: capacity_def unat_mult_small)
  then have lt: "(of_nat i :: u32) < len b * 8"
    using ilt i32 by (simp add: word_less_nat_alt unat_of_nat_less)
  have cnt: "cnt = of_nat n" using n by (simp add: of_nat_of_unat)
  have d: "d = capacity b - Suc i" using Suc.hyps(2) by simp
  note IH = Suc.hyps(1) [OF d]
  show ?case
  proof (cases "bit_free b m i")
    case False
    have "find_run b m cnt (len b * 8) (of_nat i) (of_nat c) =
        find_run b m cnt (len b * 8) (of_nat (Suc i)) (of_nat 0)"
      using False lt n Suc.prems(3)
      by (subst find_run.simps) (auto simp: bit_free_def Let_def unat_eq_zero algebra_simps)
    also have "\<dots> = (case first_fit b m n of None \<Rightarrow> -1 | Some k \<Rightarrow> of_nat k)"
    proof (rule IH)
      fix k assume k: "k < Suc i - 0"
      show "\<not> run_free b m k n"
      proof (cases "k < i - c")
        case g: False
        then have "k \<le> i \<and> i < k + n" using k Suc.prems(3) by simp
        then show ?thesis using False by (auto simp: run_free_iff)
      qed (rule Suc.prems(5))
    qed (use ilt Suc.prems in auto)
    finally show ?thesis .
  next
    case True
    have nc: "\<not> bitmap_check b (of_nat i) m" using True by (simp add: bit_free_def)
    show ?thesis
    proof (cases "Suc c = n")
      case eq: True
      have "find_run b m cnt (len b * 8) (of_nat i) (of_nat c) = of_nat i - of_nat n + 1"
        using nc lt eq by (subst find_run.simps) (simp add: Let_def cnt add.commute flip: eq)
      also have "(of_nat i :: u32) - of_nat n + 1 = of_nat (i - c)"
        using Suc.prems(2) by (simp flip: eq)
      finally have r: "find_run b m cnt (len b * 8) (of_nat i) (of_nat c) = of_nat (i - c)" .
      have "run_free b m (i - c) n"
        unfolding run_free_iff
      proof (intro conjI allI impI)
        show "i - c + n \<le> capacity b" using eq ilt Suc.prems(2) by simp
        fix k assume "i - c \<le> k \<and> k < i - c + n"
        then show "bit_free b m k" using Suc.prems(2,4) True eq by (cases "k = i") auto
      qed
      then have "first_fit b m n = Some (i - c)"
        using Suc.prems(5) ilt by (auto simp: first_fit_def find_upt_Some)
      then show ?thesis using r by simp
    next
      case False
      have "(of_nat (Suc c) :: u32) \<noteq> of_nat n"
        using False Suc.prems(3) n32 by (subst of_nat_u32_inj) auto
      then have "find_run b m cnt (len b * 8) (of_nat i) (of_nat c) =
          find_run b m cnt (len b * 8) (of_nat (Suc i)) (of_nat (Suc c))"
        using nc lt by (subst find_run.simps) (simp add: Let_def cnt add.commute)
      also have "\<dots> = (case first_fit b m n of None \<Rightarrow> -1 | Some k \<Rightarrow> of_nat k)"
      proof (rule IH)
        fix k assume "Suc i - Suc c \<le> k" "k < Suc i"
        then show "bit_free b m k" using Suc.prems(4) True by (cases "k = i") auto
      qed (use ilt Suc.prems False in auto)
      finally show ?thesis .
    qed
  qed
qed

lemma first_fit_Some: "first_fit b m n = Some k \<longleftrightarrow>
    k < capacity b \<and> run_free b m k n \<and> (\<forall>j<k. \<not> run_free b m j n)"
  by (simp add: first_fit_def find_upt_Some)

lemma first_fit_None: "0 < n \<Longrightarrow> first_fit b m n = None \<longleftrightarrow> (\<forall>k. \<not> run_free b m k n)"
  by (auto simp: first_fit_def find_upt_None run_free_iff)

lemma run_free_first: "run_free b m k n \<Longrightarrow> 0 < n \<Longrightarrow> bit_free b m k"
  by (simp add: run_free_iff)

lemma of_nat_not_minus_1: "k < 2 ^ 31 \<Longrightarrow> (of_nat k :: u32) \<noteq> - 1"
proof
  assume k: "k < 2 ^ 31" and "(of_nat k :: u32) = - 1"
  then have "unat (of_nat k :: u32) = unat (- 1 :: u32)" by (simp only:)
  moreover have "unat (of_nat k :: u32) = k" using k by (intro unat_of_nat_less) simp
  moreover have "unat (- 1 :: u32) = 2 ^ 32 - 1" using unat_minus_of_nat [of 1] by simp
  ultimately show False using k by simp
qed

lemma bitmap_set_run_1: "bitmap_set_run (unat (1 :: u32)) b i v m = bitmap_set b i v m"
  by simp

lemma acquire_first_fit:

  assumes "capacity b < 2 ^ 31" and "0 < cnt"
  shows "bitmap_acquire b cnt m =
    (case first_fit b m (unat cnt) of
       None \<Rightarrow> (-1, m)
     | Some k \<Rightarrow> (of_nat k, bitmap_set_run (unat cnt) b (of_nat k) True m))"
proof -
  let ?k = "skip_full_bytes b m 0"
  let ?r = "first_clear_bit (m (bits b + ?k)) 0"
  define f where "f = unat ?k * 8 + ?r"
  have pos: "0 < unat cnt" using assms(2) by (simp add: word_less_nat_alt)
  note first = first_free_bit [OF assms(1), of m, folded f_def]
  show ?thesis
  proof (cases "?k = len b")
    case True
    then have "first_fit b m (unat cnt) = None"
      using first pos by (auto simp: first_fit_def find_upt_None dest: run_free_first)
    then show ?thesis using True by (simp add: bitmap_acquire_def Let_def)
  next
    case False
    then have f: "f < capacity b" "bit_free b m f" "\<And>i. i < f \<Longrightarrow> \<not> bit_free b m i"
      using first by simp_all
    have word_f: "?k * 8 + of_nat ?r = (of_nat f :: u32)" by (simp add: f_def)
    have no_run: "\<not> run_free b m i (unat cnt)" if "i < f" for i
      using f(3) [OF that] pos by (auto dest: run_free_first)
    show ?thesis
    proof (cases "cnt = 1")
      case one: True
      then have "run_free b m f (unat cnt)" using f by (auto simp: run_free_iff le_less_Suc_eq)
      then have "first_fit b m (unat cnt) = Some f"
        using f no_run by (simp add: first_fit_Some)
      then show ?thesis using False one word_f by (simp add: bitmap_acquire_def Let_def)
    next
      case many: False
      have many': "unat cnt \<noteq> 1" using many by (metis unsigned_1 unsigned_word_eqI)
      have "find_run b m cnt (len b * 8) (of_nat (Suc f)) (of_nat 1) =
          (case first_fit b m (unat cnt) of None \<Rightarrow> -1 | Some k \<Rightarrow> of_nat k)"
        using f no_run pos many'
        by (intro find_run_spec [OF assms(1) refl]) (auto simp: le_less_Suc_eq)
      moreover have "first_fit b m (unat cnt) = Some k \<Longrightarrow> (of_nat k :: u32) \<noteq> -1" for k
        using assms(1) by (intro of_nat_not_minus_1) (simp add: first_fit_Some)
      ultimately show ?thesis using False many word_f
        by (auto simp: bitmap_acquire_def Let_def add.commute split: option.splits)
    qed
  qed
qed

section \<open>Releasing a run\<close>

lemma release_outcome:
  "bitmap_release b idx cnt m =
    (if list_all (\<lambda>k. bitmap_check b (idx + of_nat k) m) [0..<unat cnt]
     then Inr (bitmap_set_run (unat cnt) b idx False m) else Inl Panic)"
proof -
  have "n < 2 ^ 32 \<Longrightarrow> bitmap_release_loop n b idx m =
    (if \<forall>k<n. bitmap_check b (idx + of_nat k) m
     then Inr (bitmap_set_run n b idx False m) else Inl Panic)" for n
  proof (induction n arbitrary: idx m)
    case (Suc n)
    have keep: "bitmap_check b (idx + 1 + of_nat k) (bitmap_set b idx False m) =
        bitmap_check b (idx + of_nat (Suc k)) m" if "k < n" for k
    proof -
      have "(of_nat (Suc k) :: u32) \<noteq> of_nat 0"
        using that Suc.prems by (subst of_nat_u32_inj) auto
      then show ?thesis by (simp add: bitmap_check_set algebra_simps del: of_nat_Suc) (simp add: algebra_simps)
    qed
    have split: "(\<forall>k<Suc n. bitmap_check b (idx + of_nat k) m) \<longleftrightarrow> bitmap_check b idx m \<and>
        (\<forall>k<n. bitmap_check b (idx + 1 + of_nat k) (bitmap_set b idx False m))"
      using keep by (auto simp: less_Suc_eq_0_disj)
    have n: "n < 2 ^ 32" using Suc.prems by simp
    show ?case
      by (simp only: bitmap_release_loop.simps bitmap_set_run.simps Suc.IH [OF n] split) simp
  qed simp
  then show ?thesis by (simp add: bitmap_release_def list_all_iff)
qed

section \<open>The allocator contract\<close>

text \<open>
  What the page pools rely on. The client keeps the runs it holds; the contract says that a run
  that is handed out was free, that nothing else changes, and that a held run can be given back.
\<close>

definition bit_run :: "u32 \<Rightarrow> u32 \<Rightarrow> nat set" where
  "bit_run idx cnt = {unat idx..<unat idx + unat cnt}"

datatype alloc_request = Acquire u32 | Release nat

fun alloc_step :: "(u32 \<Rightarrow> 's \<Rightarrow> u32 \<times> 's) \<Rightarrow> (u32 \<Rightarrow> u32 \<Rightarrow> 's \<Rightarrow> stop + 's) \<Rightarrow>
    alloc_request \<Rightarrow> 's \<times> (u32 \<times> u32) list \<Rightarrow> stop + 's \<times> (u32 \<times> u32) list" where
  "alloc_step acq rel (Acquire n) (s, live) =
     (case acq n s of (r, s') \<Rightarrow> Inr (s', if r = -1 then live else (r, n) # live))"
| "alloc_step acq rel (Release j) (s, live) =
     (if j < length live
      then rbind (rel (fst (live ! j)) (snd (live ! j)) s)
             (\<lambda>s'. Inr (s', take j live @ drop (Suc j) live))
      else Inr (s, live))"

fun alloc_steps :: "(u32 \<Rightarrow> 's \<Rightarrow> u32 \<times> 's) \<Rightarrow> (u32 \<Rightarrow> u32 \<Rightarrow> 's \<Rightarrow> stop + 's) \<Rightarrow>
    alloc_request list \<Rightarrow> 's \<times> (u32 \<times> u32) list \<Rightarrow> stop + 's \<times> (u32 \<times> u32) list" where
  "alloc_steps acq rel [] s = Inr s"
| "alloc_steps acq rel (q # qs) s = rbind (alloc_step acq rel q s) (alloc_steps acq rel qs)"

fun request_ok :: "alloc_request \<Rightarrow> bool" where
  "request_ok (Acquire n) \<longleftrightarrow> 0 < n"
| "request_ok (Release j) \<longleftrightarrow> True"

text \<open>The runs a client holds do not overlap, and together they are \<open>t\<close>.\<close>

fun runs_cover :: "(u32 \<times> u32) list \<Rightarrow> nat set \<Rightarrow> bool" where
  "runs_cover [] t \<longleftrightarrow> t = {}"
| "runs_cover (r # rs) t \<longleftrightarrow> bit_run (fst r) (snd r) \<subseteq> t \<and>
     runs_cover rs (t - bit_run (fst r) (snd r))"

lemma runs_cover_drop:
  "runs_cover live t \<Longrightarrow> j < length live \<Longrightarrow>
   bit_run (fst (live ! j)) (snd (live ! j)) \<subseteq> t \<and>
   runs_cover (take j live @ drop (Suc j) live) (t - bit_run (fst (live ! j)) (snd (live ! j)))"
proof (induction live arbitrary: t j)
  case (Cons r rs)
  show ?case
  proof (cases j)
    case (Suc i)
    let ?x = "bit_run (fst r) (snd r)" and ?y = "bit_run (fst (rs ! i)) (snd (rs ! i))"
    have "runs_cover rs (t - ?x)" "i < length rs" using Cons.prems Suc by simp_all
    then have "?y \<subseteq> t - ?x" "runs_cover (take i rs @ drop (Suc i) rs) (t - ?x - ?y)"
      using Cons.IH by blast+
    moreover have "t - ?x - ?y = t - ?y - ?x" by blast
    ultimately show ?thesis using Cons.prems(1) Suc by auto
  qed (use Cons.prems in simp)
qed simp

locale bit_allocator =
  fixes inv :: "'s \<Rightarrow> bool"
    and taken :: "'s \<Rightarrow> nat set"
    and acq :: "u32 \<Rightarrow> 's \<Rightarrow> u32 \<times> 's"
    and rel :: "u32 \<Rightarrow> u32 \<Rightarrow> 's \<Rightarrow> stop + 's"
  assumes acq_fail: "inv s \<Longrightarrow> 0 < n \<Longrightarrow> acq n s = (-1, s') \<Longrightarrow> s' = s"
    and acq_run: "inv s \<Longrightarrow> 0 < n \<Longrightarrow> acq n s = (r, s') \<Longrightarrow> r \<noteq> -1 \<Longrightarrow>
      inv s' \<and> bit_run r n \<inter> taken s = {} \<and> taken s' = taken s \<union> bit_run r n"
    and rel_run: "inv s \<Longrightarrow> bit_run r n \<subseteq> taken s \<Longrightarrow>
      \<exists>s'. rel r n s = Inr s' \<and> inv s' \<and> taken s' = taken s - bit_run r n"
begin

lemma step_ok:
  assumes "inv s" "runs_cover live (taken s)" "request_ok q"
  shows "\<exists>s' live'. alloc_step acq rel q (s, live) = Inr (s', live') \<and> inv s' \<and>
    runs_cover live' (taken s')"
proof (cases q)
  case (Acquire n)
  obtain r s' where a: "acq n s = (r, s')" by fastforce
  have n: "0 < n" using assms(3) Acquire by simp
  show ?thesis
  proof (cases "r = -1")
    case True
    then show ?thesis using acq_fail [OF assms(1) n] a Acquire assms by simp
  next
    case False
    note run = acq_run [OF assms(1) n a False]
    then have "taken s' - bit_run r n = taken s" by blast
    then show ?thesis using run False a Acquire assms(2) by simp
  qed
next
  case (Release j)
  then show ?thesis
    using runs_cover_drop [OF assms(2), of j] rel_run [OF assms(1)] assms by fastforce
qed

lemma steps_ok:
  "inv s \<Longrightarrow> runs_cover live (taken s) \<Longrightarrow> list_all request_ok qs \<Longrightarrow>
   \<exists>s' live'. alloc_steps acq rel qs (s, live) = Inr (s', live') \<and> inv s' \<and>
     runs_cover live' (taken s')"
proof (induction qs arbitrary: s live)
  case (Cons q qs)
  then show ?case using step_ok [of s live q] by fastforce
qed simp

text \<open>A run taken and given back at once leaves the same bits taken.\<close>

lemma acq_rel:
  assumes "inv s" "0 < n" "acq n s = (r, s')" "r \<noteq> -1"
  shows "\<exists>s''. rel r n s' = Inr s'' \<and> inv s'' \<and> taken s'' = taken s"
proof -
  note run = acq_run [OF assms]
  then have "bit_run r n \<subseteq> taken s'" "inv s'" by blast+
  moreover have "taken s' - bit_run r n = taken s" using run by blast
  ultimately show ?thesis using rel_run by fastforce
qed

end

definition acquire_bits :: "u32 \<Rightarrow> bitmap \<times> mem \<Rightarrow> u32 \<times> bitmap \<times> mem" where
  "acquire_bits cnt s = (case bitmap_acquire (fst s) cnt (snd s) of (r, m) \<Rightarrow> (r, fst s, m))"

definition release_bits :: "u32 \<Rightarrow> u32 \<Rightarrow> bitmap \<times> mem \<Rightarrow> stop + bitmap \<times> mem" where
  "release_bits idx cnt s = rbind (bitmap_release (fst s) idx cnt (snd s)) (\<lambda>m. Inr (fst s, m))"

definition taken_bits :: "bitmap \<times> mem \<Rightarrow> nat set" where
  "taken_bits s = {i. i < capacity (fst s) \<and> bitmap_check (fst s) (of_nat i) (snd s)}"

definition bitmap_ok :: "bitmap \<times> mem \<Rightarrow> bool" where
  "bitmap_ok s \<longleftrightarrow> capacity (fst s) < 2 ^ 31"

lemma taken_set_run:
  assumes "capacity b < 2 ^ 31" "k + n \<le> capacity b"
  shows "taken_bits (b, bitmap_set_run n b (of_nat k) v m) =
    (if v then taken_bits (b, m) \<union> {k..<k + n} else taken_bits (b, m) - {k..<k + n})"
proof -
  have "bitmap_check b (of_nat i) (bitmap_set_run n b (of_nat k) v m) =
      (if k \<le> i \<and> i < k + n then v else bitmap_check b (of_nat i) m)" if "i < capacity b" for i
    using that assms by (subst bitmap_check_set_run) (simp_all add: offset_in_run)
  then show ?thesis using assms(2) by (auto simp: taken_bits_def split: if_splits)
qed

lemma bitmap_acquire_run:
  assumes "capacity b < 2 ^ 31" "0 < cnt" "bitmap_acquire b cnt m = (r, m')" "r \<noteq> -1"
  shows "first_fit b m (unat cnt) = Some (unat r) \<and> unat r + unat cnt \<le> capacity b \<and>
    m' = bitmap_set_run (unat cnt) b r True m"
proof -
  obtain k where k: "first_fit b m (unat cnt) = Some k" "r = of_nat k"
      "m' = bitmap_set_run (unat cnt) b (of_nat k) True m"
    using acquire_first_fit [OF assms(1,2), of m] assms(3,4)
    by (auto split: option.splits)
  then have "k < capacity b" "k + unat cnt \<le> capacity b"
    by (simp_all add: first_fit_Some run_free_iff)
  then have "unat r = k" using assms(1) k(2) by (simp add: unat_of_nat_less)
  then show ?thesis using k \<open>k + unat cnt \<le> capacity b\<close> by simp
qed

interpretation bm: bit_allocator bitmap_ok taken_bits acquire_bits release_bits
proof
  fix s s' :: "bitmap \<times> mem" and n r :: u32
  assume ok: "bitmap_ok s" and n: "0 < n"
  have cap: "capacity (fst s) < 2 ^ 31" using ok by (simp add: bitmap_ok_def)
  {
    assume "acquire_bits n s = (-1, s')"
    moreover have "first_fit (fst s) (snd s) (unat n) = Some k \<Longrightarrow> (of_nat k :: u32) \<noteq> -1" for k
      using cap by (intro of_nat_not_minus_1) (simp add: first_fit_Some)
    ultimately show "s' = s"
      using acquire_first_fit [OF cap n, of "snd s"]
      by (cases s) (auto simp: acquire_bits_def split: option.splits)
  next
    assume a: "acquire_bits n s = (r, s')" and r: "r \<noteq> -1"
    obtain b m where s: "s = (b, m)" by (cases s)
    obtain m' where m': "bitmap_acquire b n m = (r, m')" "s' = (b, m')"
      using a by (auto simp: s acquire_bits_def split: prod.splits)
    note run = bitmap_acquire_run [OF cap [unfolded s fst_conv] n m'(1) r]
    then have "taken_bits (b, m') = taken_bits (b, m) \<union> bit_run r n"
      using cap s taken_set_run [of b "unat r" "unat n" True m] by (simp add: bit_run_def)
    moreover have "bit_run r n \<inter> taken_bits (b, m) = {}"
      using run by (auto simp: first_fit_Some run_free_iff bit_run_def taken_bits_def bit_free_def)
    ultimately show "bitmap_ok s' \<and> bit_run r n \<inter> taken_bits s = {} \<and>
        taken_bits s' = taken_bits s \<union> bit_run r n"
      using cap s m' by (simp add: bitmap_ok_def)
  }
next
  fix s :: "bitmap \<times> mem" and n r :: u32
  assume ok: "bitmap_ok s" and sub: "bit_run r n \<subseteq> taken_bits s"
  obtain b m where s: "s = (b, m)" by (cases s)
  have cap: "capacity b < 2 ^ 31" using ok s by (simp add: bitmap_ok_def)
  have set: "bitmap_check b (r + of_nat k) m" if "k < unat n" for k
  proof -
    have "unat r + k \<in> taken_bits s" using that sub by (auto simp: bit_run_def)
    then show ?thesis by (simp add: s taken_bits_def)
  qed
  then have "release_bits r n s = Inr (b, bitmap_set_run (unat n) b r False m)"
    by (simp add: s release_bits_def release_outcome list_all_iff)
  moreover have "taken_bits (b, bitmap_set_run (unat n) b r False m) = taken_bits s - bit_run r n"
  proof (cases "n = 0")
    case False
    then have "unat r + (unat n - 1) \<in> taken_bits s"
      using sub by (auto simp: bit_run_def unat_gt_0)
    then have "unat r + unat n \<le> capacity b"
      using False by (auto simp: s taken_bits_def unat_gt_0)
    then show ?thesis
      using taken_set_run [OF cap, of "unat r" "unat n" False m] s by (simp add: bit_run_def)
  qed (simp add: s bit_run_def)
  ultimately show "\<exists>s'. release_bits r n s = Inr s' \<and> bitmap_ok s' \<and>
      taken_bits s' = taken_bits s - bit_run r n"
    using cap by (simp add: bitmap_ok_def)
qed

lemma step_keeps_bitmap:
  "alloc_step acquire_bits release_bits q (s, live) = Inr (s', live') \<Longrightarrow> fst s' = fst s"
  by (cases q) (auto simp: acquire_bits_def release_bits_def rbind_Inr_iff
      split: prod.splits if_splits)

lemma steps_keep_bitmap:
  "alloc_steps acquire_bits release_bits qs (s, live) = Inr (s', live') \<Longrightarrow> fst s' = fst s"
proof (induction qs arbitrary: s live)
  case (Cons q qs)
  then obtain t l where "alloc_step acquire_bits release_bits q (s, live) = Inr (t, l)"
      "alloc_steps acquire_bits release_bits qs (t, l) = Inr (s', live')"
    by (auto simp: rbind_Inr_iff)
  then show ?case using Cons.IH step_keeps_bitmap by metis
qed simp

section \<open>Properties\<close>

text \<open>C32: \<open>bitmap_acquire\<close> (\<open>bitmap.c\<close>), with its byte skip, its bit search, its one-bit shortcut
  and its run counter, is a first-fit search: on a bitmap of fewer than 2^31 bits and a non-zero
  count it returns the least index at which \<open>cnt\<close> clear bits start and sets exactly these, or
  returns -1 and leaves the memory as it was when no run fits.\<close>

theorem bitmap_acquire_first_fit:
  assumes "capacity b < 2 ^ 31" and "0 < cnt"
  shows "bitmap_acquire b cnt m =
    (case first_fit b m (unat cnt) of
       None \<Rightarrow> (-1, m)
     | Some k \<Rightarrow> (of_nat k, bitmap_set_run (unat cnt) b (of_nat k) True m))"
  by (rule acquire_first_fit [OF assms])

definition demo_map :: mem where
  "demo_map = (\<lambda>_. 0)(100 := 0xff, 101 := 0x17)"

definition demo_bitmap :: bitmap where
  "demo_bitmap = \<lparr>len = 3, bits = 100\<rparr>"

theorem bitmap_acquire_first_fit_witness:
  "capacity demo_bitmap < 2 ^ 31 \<and> (0 :: u32) < 3 \<and>
   fst (bitmap_acquire demo_bitmap 3 demo_map) = 13"
proof -
  have cap: "capacity demo_bitmap < 2 ^ 31" by (simp add: demo_bitmap_def capacity_def)
  have "first_fit demo_bitmap demo_map 3 = Some 13" by code_simp
  then show ?thesis
    using cap bitmap_acquire_first_fit [OF cap, of 3 demo_map] by simp
qed

text \<open>\<open>bitmap_release\<close> asserts every bit of the run before it clears it: it panics exactly
  when a bit of the run is already clear, and otherwise clears exactly the bits of the run.\<close>

theorem bitmap_release_outcome:
  "bitmap_release b idx cnt m =
    (if list_all (\<lambda>k. bitmap_check b (idx + of_nat k) m) [0..<unat cnt]
     then Inr (bitmap_set_run (unat cnt) b idx False m) else Inl Panic)"
  by (rule release_outcome)

text \<open>C31: Allocation is exclusive. From a freshly reset bitmap of fewer than 2^31 bits
  (\<open>bitmap_reset\<close>), any sequence of \<open>bitmap_acquire\<close> calls with non-zero counts and of
  \<open>bitmap_release\<close> calls on runs the client holds runs without a panic; the runs the client holds
  never overlap and are together exactly the set bits, so nothing is handed out twice and nothing
  is lost.\<close>

theorem bitmap_exclusive:
  assumes "capacity b < 2 ^ 31" and "list_all request_ok qs"
  shows "\<exists>m' live. alloc_steps acquire_bits release_bits qs ((b, bitmap_reset b m), []) =
      Inr ((b, m'), live) \<and> runs_cover live (taken_bits (b, m'))"
proof -
  have "\<not> bitmap_check b (of_nat i) (bitmap_reset b m)" if "i < capacity b" for i
    using that assms(1)
    by (subst check_of_nat) (auto simp: bitmap_reset_def memset_apply in_range_def capacity_def
        word_less_nat_alt unat_of_nat_less)
  then have "runs_cover [] (taken_bits (b, bitmap_reset b m))" by (auto simp: taken_bits_def)
  then show ?thesis
    using bm.steps_ok [of "(b, bitmap_reset b m)" "[]" qs] steps_keep_bitmap assms
    by (fastforce simp: bitmap_ok_def)
qed

theorem bitmap_exclusive_witness:
  "\<exists>m' live. alloc_steps acquire_bits release_bits [Acquire 3, Acquire 2, Release 1]
      ((demo_bitmap, bitmap_reset demo_bitmap demo_map), []) = Inr ((demo_bitmap, m'), live) \<and>
    runs_cover live (taken_bits (demo_bitmap, m'))"
  by (rule bitmap_exclusive) (simp_all add: demo_bitmap_def capacity_def)

end
