(* ===== verification/KPools.thy ===== *)
theory KPools
  imports KBitmap
begin

text \<open>
  The page pools of \<open>code/kernel/src/memory.c\<close>: \<open>struct p_pool\<close> hands out physical frames and
  \<open>struct v_pool\<close> virtual pages, each through a bitmap whose bits live in the byte memory, and
  \<open>pool_init\<close> lays the pools out at boot. A \<open>mlock\<close> is kept as its owner, \<open>NULL\<close> when it is free;
  the queue of a contended mutex is the subject of the lock theories.
\<close>

section \<open>The pools\<close>

record p_pool =
  paddr_start :: u32
  p_size :: u32
  paddr_bitmap :: bitmap
  p_mlock :: ptr

record v_pool =
  vaddr_start :: u32
  vaddr_bitmap :: bitmap
  v_mlock :: ptr

definition PG_SIZE :: u32 where "PG_SIZE = 4096"
definition PADDR_BITMAP_BASE :: u32 where "PADDR_BITMAP_BASE = 0xC0076000"
definition K_VADDR_BITMAP_BASE :: u32 where "K_VADDR_BITMAP_BASE = 0xC0096000"
definition K_HEAP_START :: u32 where "K_HEAP_START = 0xC0100000"

text \<open>
  Fixed-address mode of \<open>vaddr_acquire\<close>: check and set bit after bit, and give up at the first
  used one, leaving the bits set so far. The count is a signed \<open>int\<close>.
\<close>

fun vaddr_fix_loop :: "nat \<Rightarrow> bitmap \<Rightarrow> u32 \<Rightarrow> mem \<Rightarrow> bool \<times> mem" where
  "vaddr_fix_loop 0 b idx m = (True, m)"
| "vaddr_fix_loop (Suc n) b idx m =
     (if bitmap_check b idx m then (False, m)
      else vaddr_fix_loop n b (idx + 1) (bitmap_set b idx True m))"

definition vaddr_acquire :: "v_pool \<Rightarrow> ptr \<Rightarrow> u32 \<Rightarrow> mem \<Rightarrow> ptr \<times> mem" where
  "vaddr_acquire vp vaddr pg_cnt m =
     (if vaddr = NULL then
        (case bitmap_acquire (vaddr_bitmap vp) pg_cnt m of (btmp_idx, m') \<Rightarrow>
           if btmp_idx = -1 then (NULL, m') else (vaddr_start vp + btmp_idx * PG_SIZE, m'))
      else
        (let btmp_idx = (vaddr - vaddr_start vp) div PG_SIZE
         in case vaddr_fix_loop (nat (sint pg_cnt)) (vaddr_bitmap vp) btmp_idx m of
              (ok, m') \<Rightarrow> (if ok then vaddr else NULL, m')))"

definition vaddr_release :: "v_pool \<Rightarrow> ptr \<Rightarrow> u32 \<Rightarrow> mem \<Rightarrow> stop + mem" where
  "vaddr_release vp vaddr pg_cnt m =
     bitmap_release (vaddr_bitmap vp) ((vaddr - vaddr_start vp) div PG_SIZE) pg_cnt m"

definition palloc :: "p_pool \<Rightarrow> mem \<Rightarrow> ptr \<times> mem" where
  "palloc pp m =
     (case bitmap_acquire (paddr_bitmap pp) 1 m of (btmp_idx, m') \<Rightarrow>
        if btmp_idx = -1 then (NULL, m') else (paddr_start pp + btmp_idx * PG_SIZE, m'))"

definition pfree :: "p_pool \<Rightarrow> ptr \<Rightarrow> mem \<Rightarrow> stop + mem" where
  "pfree pp paddr m = bitmap_release (paddr_bitmap pp) ((paddr - paddr_start pp) div PG_SIZE) 1 m"

text \<open>\<open>pool_init\<close>: all arithmetic is on \<open>uint32_t\<close>. The traces are compiled out (\<open>DEBUG\<close> is 0).\<close>

definition kernel_free_pages :: "u32 \<Rightarrow> u32" where
  "kernel_free_pages all_free_pages =
     (let k = all_free_pages div 2 in if k > 0x40000 then 0x40000 else k)"

definition pool_init :: "u32 \<Rightarrow> mem \<Rightarrow> p_pool \<times> p_pool \<times> v_pool \<times> mem" where
  "pool_init mem_total_size m =
     (let page_table_size = PG_SIZE * 256;
          used_mem = page_table_size + 0x100000;
          free_mem = mem_total_size - used_mem;
          all_free_pages = free_mem div PG_SIZE;
          kernel_pages = kernel_free_pages all_free_pages;
          user_pages = all_free_pages - kernel_pages;
          kp_start = used_mem;
          up_start = kp_start + kernel_pages * PG_SIZE;
          kbm_length = kernel_pages div 8;
          ubm_length = user_pages div 8;
          kbtmp = bitmap_init PADDR_BITMAP_BASE kbm_length;
          m1 = bitmap_reset kbtmp m;
          ubtmp = bitmap_init (PADDR_BITMAP_BASE + kbm_length) ubm_length;
          m2 = bitmap_reset ubtmp m1;
          vbtmp = bitmap_init K_VADDR_BITMAP_BASE 0x8000;
          m3 = bitmap_reset vbtmp m2
      in (\<lparr>paddr_start = kp_start, p_size = kernel_pages * PG_SIZE,
            paddr_bitmap = kbtmp, p_mlock = NULL\<rparr>,
          \<lparr>paddr_start = up_start, p_size = user_pages * PG_SIZE,
            paddr_bitmap = ubtmp, p_mlock = NULL\<rparr>,
          \<lparr>vaddr_start = K_HEAP_START, vaddr_bitmap = vbtmp, v_mlock = NULL\<rparr>, m3))"

section \<open>Frames of a pool\<close>

text \<open>The frame a bitmap index stands for; pools of at most 2^20 frames map back and forth.\<close>

definition frame_of :: "p_pool \<Rightarrow> u32 \<Rightarrow> ptr" where
  "frame_of pp idx = paddr_start pp + idx * PG_SIZE"

lemma page_index:
  fixes idx a :: u32
  assumes "unat idx < 2 ^ 20"
  shows "(a + idx * PG_SIZE - a) div PG_SIZE = idx"
proof -
  have "unat (idx * PG_SIZE) = unat idx * 4096"
    using assms by (simp add: PG_SIZE_def unat_mult_small)
  then have "unat (idx * PG_SIZE div PG_SIZE) = unat idx"
    by (simp only: unat_div) (simp add: PG_SIZE_def)
  then show ?thesis by (simp add: unsigned_word_eqI)
qed

definition pool_ok :: "p_pool \<Rightarrow> bool" where
  "pool_ok pp \<longleftrightarrow> capacity (paddr_bitmap pp) \<le> 2 ^ 20"

lemma palloc_frame:
  assumes "pool_ok pp"
  shows "palloc pp m =
    (case first_fit (paddr_bitmap pp) m 1 of
       None \<Rightarrow> (NULL, m)
     | Some k \<Rightarrow> (frame_of pp (of_nat k), bitmap_set (paddr_bitmap pp) (of_nat k) True m))"
proof -
  have cap: "capacity (paddr_bitmap pp) < 2 ^ 31" using assms by (simp add: pool_ok_def)
  moreover have "first_fit (paddr_bitmap pp) m 1 = Some k \<Longrightarrow> (of_nat k :: u32) \<noteq> -1" for k
    using cap by (intro of_nat_not_minus_1) (simp add: first_fit_Some)
  ultimately show ?thesis
    using acquire_first_fit [OF cap, of 1 m]
    by (auto simp: palloc_def frame_of_def split: option.splits)
qed

lemma pfree_frame:
  assumes "unat idx < 2 ^ 20"
  shows "pfree pp (frame_of pp idx) m =
    (if bitmap_check (paddr_bitmap pp) idx m
     then Inr (bitmap_set (paddr_bitmap pp) idx False m) else Inl Panic)"
  using page_index [OF assms, of "paddr_start pp"]
  by (simp only: pfree_def frame_of_def bitmap_release_def) simp

definition vpage_index :: "v_pool \<Rightarrow> ptr \<Rightarrow> u32" where
  "vpage_index vp vaddr = (vaddr - vaddr_start vp) div PG_SIZE"

section \<open>Fixed-address acquisition\<close>

lemma vaddr_fix_loop_spec:
  "n < 2 ^ 32 \<Longrightarrow> vaddr_fix_loop n b idx m =
    (case find (\<lambda>k. bitmap_check b (idx + of_nat k) m) [0..<n] of
       None \<Rightarrow> (True, bitmap_set_run n b idx True m)
     | Some k \<Rightarrow> (False, bitmap_set_run k b idx True m))"
proof (induction n arbitrary: idx m)
  case (Suc n)
  let ?m = "bitmap_set b idx True m"
  have keep: "bitmap_check b (idx + 1 + of_nat k) ?m = bitmap_check b (idx + of_nat (Suc k)) m"
    if "k < n" for k
  proof -
    have "(of_nat (Suc k) :: u32) \<noteq> of_nat 0"
      using that Suc.prems by (subst of_nat_u32_inj) auto
    moreover have "idx + 1 + of_nat k = idx + of_nat (Suc k)" by simp
    ultimately show ?thesis by (simp only: bitmap_check_set) simp
  qed
  have shift: "find (\<lambda>k. bitmap_check b (idx + of_nat k) m) [0..<Suc n] =
      (if bitmap_check b idx m then Some 0
       else map_option Suc (find (\<lambda>k. bitmap_check b (idx + 1 + of_nat k) ?m) [0..<n]))"
  proof -
    have "find (\<lambda>k. bitmap_check b (idx + of_nat (Suc k)) m) [0..<n] =
        find (\<lambda>k. bitmap_check b (idx + 1 + of_nat k) ?m) [0..<n]"
      using keep by (intro find_cong) auto
    then show ?thesis by (simp add: find_upt_Suc del: upt_Suc of_nat_Suc)
  qed
  show ?case
    using Suc.IH [of "idx + 1" ?m] Suc.prems
    by (auto simp: shift simp del: upt_Suc split: option.splits)
qed simp

section \<open>The pools at boot\<close>

lemma frame_of_bounds:
  assumes "unat (paddr_start pp) + n * 4096 < 2 ^ 32" and "i < n"
  shows "unat (frame_of pp (of_nat i)) = unat (paddr_start pp) + i * 4096"
proof -
  have i: "i * 4096 < 2 ^ 32" "i < 2 ^ 32" using assms by auto
  have "unat (of_nat i * PG_SIZE :: u32) = i * 4096"
    using i by (simp add: PG_SIZE_def unat_mult_small unat_of_nat_less)
  then show ?thesis
    using assms by (simp add: frame_of_def unat_add_small)
qed

definition boot_pages :: "u32 \<Rightarrow> nat" where
  "boot_pages tot = (unat tot - 0x200000) div 4096"

definition boot_kernel_pages :: "u32 \<Rightarrow> nat" where
  "boot_kernel_pages tot = min (boot_pages tot div 2) 0x40000"

lemma pool_init_sizes:
  assumes "0x200000 \<le> tot" and "pool_init tot m = (kp, up, vp, m')"
  shows "unat (paddr_start kp) = 0x200000"
    and "unat (paddr_start up) = 0x200000 + boot_kernel_pages tot * 4096"
    and "unat (len (paddr_bitmap kp)) = boot_kernel_pages tot div 8"
    and "unat (len (paddr_bitmap up)) = (boot_pages tot - boot_kernel_pages tot) div 8"
proof -
  have le: "0x200000 \<le> unat tot" using assms(1) by (simp add: word_le_nat_alt)
  let ?a = "(tot - 0x200000) div PG_SIZE"
  have a: "unat ?a = boot_pages tot"
    using le by (simp add: boot_pages_def PG_SIZE_def unat_div unat_sub_small)
  have small: "boot_pages tot < 2 ^ 20"
    using unat_le_4G [of tot] by (simp add: boot_pages_def)
  have half: "unat (?a div 2) = boot_pages tot div 2"
    by (subst unat_div, simp only: a, simp)
  have k: "unat (kernel_free_pages ?a) = boot_kernel_pages tot"
    using half by (simp add: kernel_free_pages_def Let_def boot_kernel_pages_def word_less_nat_alt)
  have kmax: "boot_kernel_pages tot \<le> 0x40000" by (simp add: boot_kernel_pages_def)
  have kle: "boot_kernel_pages tot \<le> boot_pages tot" by (simp add: boot_kernel_pages_def)
  have u: "unat (?a - kernel_free_pages ?a) = boot_pages tot - boot_kernel_pages tot"
    using kle by (simp add: unat_sub_small a k)
  have kpg: "unat (kernel_free_pages ?a * PG_SIZE) = boot_kernel_pages tot * 4096"
    using kle small by (subst unat_mult_small) (simp_all add: k, simp_all add: PG_SIZE_def)
  note pi = assms(2) [unfolded pool_init_def Let_def, symmetric]
  have used: "PG_SIZE * 256 + 0x100000 = (0x200000 :: u32)" by (simp add: PG_SIZE_def)
  show "unat (paddr_start kp) = 0x200000" using pi by (simp add: used)
  show "unat (paddr_start up) = 0x200000 + boot_kernel_pages tot * 4096"
  proof -
    have "paddr_start up = 0x200000 + kernel_free_pages ?a * PG_SIZE" using pi by (simp add: used)
    moreover have "unat (0x200000 + kernel_free_pages ?a * PG_SIZE) =
        unat (0x200000 :: u32) + unat (kernel_free_pages ?a * PG_SIZE)"
      by (rule unat_add_small) (use kpg kmax in simp)
    ultimately show ?thesis by (simp add: kpg)
  qed
  show "unat (len (paddr_bitmap kp)) = boot_kernel_pages tot div 8"
    using pi by (simp add: used bitmap_init_def unat_div k)
  show "unat (len (paddr_bitmap up)) = (boot_pages tot - boot_kernel_pages tot) div 8"
    using pi by (simp add: used bitmap_init_def unat_div u)
qed

lemma reset_taken:
  assumes "capacity b < 2 ^ 31"
  shows "taken_bits (b, bitmap_reset b m) = {}"
  using assms
  by (auto simp: taken_bits_def check_of_nat bitmap_reset_def memset_apply in_range_def
      capacity_def word_less_nat_alt unat_of_nat_less)

lemma taken_bits_cong:
  assumes "capacity b < 2 ^ 31" and "\<And>j. j < len b \<Longrightarrow> m (bits b + j) = m' (bits b + j)"
  shows "taken_bits (b, m) = taken_bits (b, m')"
proof -
  have "bitmap_check b (of_nat i) m = bitmap_check b (of_nat i) m'" if "i < capacity b" for i
    using that assms by (simp add: check_of_nat capacity_def word_less_nat_alt unat_of_nat_less)
  then show ?thesis by (auto simp: taken_bits_def)
qed

lemma pool_init_shape:
  assumes "pool_init tot m = (kp, up, vp, m')"
  shows "bits (paddr_bitmap kp) = PADDR_BITMAP_BASE"
    and "bits (paddr_bitmap up) = PADDR_BITMAP_BASE + len (paddr_bitmap kp)"
    and "vaddr_bitmap vp = \<lparr>len = 0x8000, bits = K_VADDR_BITMAP_BASE\<rparr>"
    and "vaddr_start vp = K_HEAP_START"
    and "p_mlock kp = NULL" "p_mlock up = NULL" "v_mlock vp = NULL"
    and "m' = bitmap_reset (vaddr_bitmap vp) (bitmap_reset (paddr_bitmap up)
      (bitmap_reset (paddr_bitmap kp) m))"
  using assms by (auto simp: pool_init_def Let_def bitmap_init_def)

lemma reset_other:
  "\<not> in_range (bits b) (len b) q \<Longrightarrow> bitmap_reset b m q = m q"
  by (simp add: bitmap_reset_def memset_apply)

lemma in_range_unat:
  assumes "unat a + unat n \<le> 2 ^ 32"
  shows "in_range a n p \<longleftrightarrow> unat a \<le> unat p \<and> unat p < unat a + unat n"
proof (cases "unat a \<le> unat p")
  case True
  then show ?thesis by (auto simp: in_range_def word_less_nat_alt unat_sub_small)
next
  case False
  have "unat (p - a) = 2 ^ 32 + unat p - unat a"
    using False unat_less_4G [of a] by (simp add: unat_sub_if' word_le_nat_alt)
  then show ?thesis using False assms by (auto simp: in_range_def word_less_nat_alt)
qed

lemma not_in_range:
  assumes "unat q < unat a \<or> unat a + unat n \<le> unat q" and "unat a + unat n \<le> 2 ^ 32"
  shows "\<not> in_range a n q"
  using assms unat_le_4G [of q] by (auto simp: in_range_def word_less_nat_alt unat_sub_if')

definition frames :: "p_pool \<Rightarrow> nat set" where
  "frames pp = (\<lambda>i. unat (frame_of pp (of_nat i))) ` {..<capacity (paddr_bitmap pp)}"

lemma pool_init_frames:
  assumes "0x200000 \<le> tot" and "pool_init tot m = (kp, up, vp, m')"
  shows "frames kp \<subseteq> {0x200000..unat (paddr_start up) - 4096}"
    and "frames up \<subseteq> {unat (paddr_start up)..unat tot - 4096}"
    and "pool_ok kp \<and> pool_ok up"
    and "unat (len (paddr_bitmap kp)) + unat (len (paddr_bitmap up)) \<le> 0x20000"
proof -
  note sz = pool_init_sizes [OF assms]
  let ?k = "boot_kernel_pages tot" and ?a = "boot_pages tot"
  have le: "0x200000 \<le> unat tot" using assms(1) by (simp add: word_le_nat_alt)
  have top: "0x200000 + ?a * 4096 \<le> unat tot" "?a < 2 ^ 20" "?k \<le> ?a"
    using le unat_le_4G [of tot] by (auto simp: boot_pages_def boot_kernel_pages_def)
  have kcap: "capacity (paddr_bitmap kp) \<le> ?k" by (simp add: capacity_def sz)
  have ucap: "capacity (paddr_bitmap up) \<le> ?a - ?k" by (simp add: capacity_def sz)
  show "pool_ok kp \<and> pool_ok up" using kcap ucap top by (simp add: pool_ok_def)
  have "?k div 8 + (?a - ?k) div 8 \<le> ?a div 8" using top(3) by linarith
  then show "unat (len (paddr_bitmap kp)) + unat (len (paddr_bitmap up)) \<le> 0x20000"
    using top by (simp add: sz)
  have bound: "0x200000 + ?a * 4096 < 2 ^ 32" using top(1) unat_le_4G [of tot] by simp
  have "unat (frame_of kp (of_nat i)) = 0x200000 + i * 4096" if "i < ?k" for i
    using that bound top(3) by (subst frame_of_bounds [of _ ?k]) (simp_all add: sz)
  then show "frames kp \<subseteq> {0x200000..unat (paddr_start up) - 4096}"
    using kcap by (fastforce simp: frames_def sz)
  have "unat (frame_of up (of_nat i)) = unat (paddr_start up) + i * 4096" if "i < ?a - ?k" for i
    using that bound top(3)
    by (subst frame_of_bounds [of _ "?a - ?k"]) (simp_all add: sz diff_mult_distrib)
  then show "frames up \<subseteq> {unat (paddr_start up)..unat tot - 4096}"
    using ucap top by (fastforce simp: frames_def sz)
qed

lemma pool_init_free:
  assumes "0x200000 \<le> tot" and "pool_init tot m = (kp, up, vp, m')"
  shows "unat (bits (paddr_bitmap up)) = unat PADDR_BITMAP_BASE + unat (len (paddr_bitmap kp)) \<and>
    unat (bits (paddr_bitmap up)) + unat (len (paddr_bitmap up)) \<le> unat K_VADDR_BITMAP_BASE \<and>
    taken_bits (paddr_bitmap kp, m') = {} \<and> taken_bits (paddr_bitmap up, m') = {} \<and>
    taken_bits (vaddr_bitmap vp, m') = {}"
proof -
  let ?kb = "paddr_bitmap kp" and ?ub = "paddr_bitmap up" and ?vb = "vaddr_bitmap vp"
  note fr = pool_init_frames [OF assms] and sh = pool_init_shape [OF assms(2)]
  have base: "unat PADDR_BITMAP_BASE = 0xC0076000" "unat K_VADDR_BITMAP_BASE = 0xC0096000"
    by (simp_all add: PADDR_BITMAP_BASE_def K_VADDR_BITMAP_BASE_def)
  have ub: "unat (bits ?ub) = unat PADDR_BITMAP_BASE + unat (len ?kb)"
    using fr(4) base by (simp add: sh(2) unat_add_small)
  have small: "capacity ?kb < 2 ^ 31" "capacity ?ub < 2 ^ 31" "capacity ?vb < 2 ^ 31"
    using fr(3) by (simp_all add: pool_ok_def sh(3) capacity_def)
  let ?m1 = "bitmap_reset ?kb m"
  have v_out: "\<not> in_range (bits ?vb) (len ?vb) (bits b + j)"
    if "unat (bits b) + unat (len b) \<le> 0xC0096000" "j < len b" for b j
    using that base by (intro not_in_range) (simp_all add: sh(3) word_less_nat_alt unat_add_small)
  have u_out: "\<not> in_range (bits ?ub) (len ?ub) (bits ?kb + j)" if "j < len ?kb" for j
    using that base fr(4) ub
    by (intro not_in_range) (simp_all add: sh(1) word_less_nat_alt unat_add_small)
  have "taken_bits (?kb, m') = taken_bits (?kb, ?m1)"
    using fr(4) base v_out [of ?kb] u_out
    by (intro taken_bits_cong small) (simp add: sh(1,8) reset_other)
  moreover have "taken_bits (?ub, m') = taken_bits (?ub, bitmap_reset ?ub ?m1)"
    using fr(4) base ub v_out [of ?ub]
    by (intro taken_bits_cong small) (simp add: sh(8) reset_other)
  moreover have "taken_bits (?vb, m') = {}" using reset_taken [OF small(3)] by (simp add: sh(8))
  ultimately show ?thesis
    using fr ub base reset_taken [OF small(1)] reset_taken [OF small(2)] by simp
qed

text \<open>The bytes of a bitmap.\<close>

definition btmp_bytes :: "bitmap \<Rightarrow> ptr set" where
  "btmp_bytes b = {q. in_range (bits b) (len b) q}"

lemma pool_init_apart:
  assumes "0x200000 \<le> tot" and "pool_init tot m = (kp, up, vp, m')"
  shows "btmp_bytes (paddr_bitmap kp) \<inter> btmp_bytes (paddr_bitmap up) = {}"
    and "btmp_bytes (paddr_bitmap kp) \<inter> btmp_bytes (vaddr_bitmap vp) = {}"
    and "btmp_bytes (paddr_bitmap up) \<inter> btmp_bytes (vaddr_bitmap vp) = {}"
    and "q \<notin> btmp_bytes (paddr_bitmap kp) \<union> btmp_bytes (paddr_bitmap up) \<union> btmp_bytes (vaddr_bitmap vp) \<Longrightarrow> m' q = m q"
proof -
  note sh = pool_init_shape [OF assms(2)] and fr = pool_init_free [OF assms]
  have v: "unat K_VADDR_BITMAP_BASE + unat (0x8000 :: u32) \<le> 2 ^ 32" by (simp add: K_VADDR_BITMAP_BASE_def)
  have k: "unat PADDR_BITMAP_BASE + unat (len (paddr_bitmap kp)) \<le> 2 ^ 32"
      "unat (bits (paddr_bitmap up)) + unat (len (paddr_bitmap up)) \<le> 2 ^ 32"
    using fr v by linarith+
  note r = in_range_unat [OF k(1)] in_range_unat [OF k(2)] in_range_unat [OF v]
  show "btmp_bytes (paddr_bitmap kp) \<inter> btmp_bytes (paddr_bitmap up) = {}"
      "btmp_bytes (paddr_bitmap kp) \<inter> btmp_bytes (vaddr_bitmap vp) = {}"
      "btmp_bytes (paddr_bitmap up) \<inter> btmp_bytes (vaddr_bitmap vp) = {}"
    using fr unfolding btmp_bytes_def sh(1,3) bitmap.simps r by auto
  show "q \<notin> btmp_bytes (paddr_bitmap kp) \<union> btmp_bytes (paddr_bitmap up) \<union> btmp_bytes (vaddr_bitmap vp) \<Longrightarrow> m' q = m q"
    unfolding sh(8) btmp_bytes_def by (simp add: reset_other)
qed

section \<open>Automatic acquisition\<close>

lemma vaddr_acquire_auto:
  assumes "capacity (vaddr_bitmap vp) < 2 ^ 31" and "0 < pg_cnt"
  shows "vaddr_acquire vp NULL pg_cnt m =
    (case first_fit (vaddr_bitmap vp) m (unat pg_cnt) of
       None \<Rightarrow> (NULL, m)
     | Some k \<Rightarrow> (vaddr_start vp + of_nat k * PG_SIZE,
         bitmap_set_run (unat pg_cnt) (vaddr_bitmap vp) (of_nat k) True m))"
proof -
  have "first_fit (vaddr_bitmap vp) m (unat pg_cnt) = Some k \<Longrightarrow> (of_nat k :: u32) \<noteq> -1" for k
    using assms(1) by (intro of_nat_not_minus_1) (simp add: first_fit_Some)
  then show ?thesis
    using acquire_first_fit [OF assms, of m]
    by (auto simp: vaddr_acquire_def split: option.splits)
qed

text \<open>
  The kernel pool starts at \<open>0xC0100000\<close> but its bitmap counts 2^18 pages, so the last 256 pages
  wrap past 4 GB: page \<open>0x3FF00\<close> has address 0, and a run that starts there is marked and then
  reported as a failure.
\<close>

lemma vaddr_acquire_wraps:
  assumes "pool_init tot m0 = (kp, up, vp, m1)" and "0 < pg_cnt"
    and "first_fit (vaddr_bitmap vp) m (unat pg_cnt) = Some 0x3FF00"
  shows "vaddr_acquire vp NULL pg_cnt m =
    (NULL, bitmap_set_run (unat pg_cnt) (vaddr_bitmap vp) 0x3FF00 True m)"
proof -
  note sh = pool_init_shape [OF assms(1)]
  have "capacity (vaddr_bitmap vp) < 2 ^ 31" by (simp add: sh(3) capacity_def)
  then show ?thesis
    using vaddr_acquire_auto [OF _ assms(2), of vp m] assms(3)
    by (simp add: sh(4) K_HEAP_START_def PG_SIZE_def)
qed

section \<open>Properties\<close>

text \<open>C23: At boot (\<open>pool_init\<close>, at least 2 MB of memory) the frames the kernel pool can hand out
  lie in [2 MB, start of the user pool) and those of the user pool between there and the end of
  memory. The bitmap of the kernel pool starts at \<open>PADDR_BITMAP_BASE\<close>, that of the user pool right behind
  it, and both end below the 32 KB of the virtual bitmap at \<open>K_VADDR_BITMAP_BASE\<close>, which ends below the
  page of the main thread: no byte belongs to two of them. Nothing else in memory is written, no lock
  is held, and every frame and every virtual page is free.\<close>

theorem pool_init_layout:
  assumes "0x200000 \<le> tot" and "pool_init tot m = (kp, up, vp, m')"
  shows "frames kp \<subseteq> {0x200000..unat (paddr_start up) - 4096} \<and>
    frames up \<subseteq> {unat (paddr_start up)..unat tot - 4096} \<and>
    bits (paddr_bitmap kp) = PADDR_BITMAP_BASE \<and>
    unat (bits (paddr_bitmap up)) = unat PADDR_BITMAP_BASE + unat (len (paddr_bitmap kp)) \<and>
    unat (bits (paddr_bitmap up)) + unat (len (paddr_bitmap up)) \<le> unat K_VADDR_BITMAP_BASE \<and>
    vaddr_start vp = K_HEAP_START \<and> bits (vaddr_bitmap vp) = K_VADDR_BITMAP_BASE \<and> len (vaddr_bitmap vp) = 0x8000 \<and>
    unat K_VADDR_BITMAP_BASE + 0x8000 \<le> 0xC009E000 \<and>
    btmp_bytes (paddr_bitmap kp) \<inter> btmp_bytes (paddr_bitmap up) = {} \<and>
    btmp_bytes (paddr_bitmap kp) \<inter> btmp_bytes (vaddr_bitmap vp) = {} \<and>
    btmp_bytes (paddr_bitmap up) \<inter> btmp_bytes (vaddr_bitmap vp) = {} \<and>
    (\<forall>q. q \<notin> btmp_bytes (paddr_bitmap kp) \<union> btmp_bytes (paddr_bitmap up) \<union> btmp_bytes (vaddr_bitmap vp) \<longrightarrow> m' q = m q) \<and>
    p_mlock kp = NULL \<and> p_mlock up = NULL \<and> v_mlock vp = NULL \<and>
    taken_bits (paddr_bitmap kp, m') = {} \<and> taken_bits (paddr_bitmap up, m') = {} \<and>
    taken_bits (vaddr_bitmap vp, m') = {}"
proof -
  note sh = pool_init_shape [OF assms(2)] and fr = pool_init_free [OF assms]
  have "unat K_VADDR_BITMAP_BASE + 0x8000 \<le> 0xC009E000" by (simp add: K_VADDR_BITMAP_BASE_def)
  then show ?thesis
    using fr pool_init_frames [OF assms] sh(1,3-7) pool_init_apart [OF assms] by auto
qed

theorem pool_init_layout_witness:
  "\<exists>kp up vp m'. pool_init 0x2000000 (\<lambda>_. 0xff) = (kp, up, vp, m') \<and>
    frames kp \<subseteq> {0x200000..unat (paddr_start up) - 4096} \<and> taken_bits (paddr_bitmap kp, m') = {} \<and>
    bits (paddr_bitmap kp) = PADDR_BITMAP_BASE"
proof -
  obtain kp up vp m' where "pool_init 0x2000000 (\<lambda>_. 0xff) = (kp, up, vp, m')"
    using prod_cases4 by blast
  then show ?thesis using pool_init_layout [of "0x2000000"] by fastforce
qed

text \<open>Fixed-address mode of \<open>vaddr_acquire\<close>: the requested address comes back exactly when
  every page of the range is free, and then exactly these pages are marked; otherwise the answer
  is \<open>NULL\<close> and the free pages in front of the first used one stay marked, although nobody holds
  them. (The comment of the function says the range is verified before it is marked.)\<close>

theorem vaddr_acquire_fixed:
  assumes "vaddr \<noteq> NULL"
  shows "vaddr_acquire vp vaddr pg_cnt m =
    (case find (\<lambda>k. bitmap_check (vaddr_bitmap vp) (vpage_index vp vaddr + of_nat k) m)
       [0..<nat (sint pg_cnt)] of
       None \<Rightarrow> (vaddr, bitmap_set_run (nat (sint pg_cnt)) (vaddr_bitmap vp) (vpage_index vp vaddr) True m)
     | Some k \<Rightarrow> (NULL, bitmap_set_run k (vaddr_bitmap vp) (vpage_index vp vaddr) True m))"
proof -
  have "sint pg_cnt < 2 ^ 31" using sint_lt [of pg_cnt] by simp
  then show ?thesis
    using assms(1)
    by (simp add: vaddr_acquire_def vpage_index_def Let_def vaddr_fix_loop_spec split: option.splits)
qed

theorem vaddr_acquire_fixed_witness:
  "fst (vaddr_acquire \<lparr>vaddr_start = 0xC0100000, vaddr_bitmap = \<lparr>len = 4, bits = 100\<rparr>, v_mlock = 0\<rparr>
     0xC0101000 3 ((\<lambda>_. 0)(100 := 0x08))) = NULL"
proof -
  let ?vp = "\<lparr>vaddr_start = 0xC0100000, vaddr_bitmap = \<lparr>len = 4, bits = 100\<rparr>, v_mlock = 0\<rparr>"
  have "find (\<lambda>k. bitmap_check (vaddr_bitmap ?vp) (vpage_index ?vp 0xC0101000 + of_nat k)
      ((\<lambda>_. 0)(100 := 0x08))) [0..<nat (sint (3 :: u32))] = Some 2"
    by code_simp
  then show ?thesis
    using vaddr_acquire_fixed [of "0xC0101000" ?vp 3 "(\<lambda>_. 0)(100 := 0x08)"] by simp
qed

end
