(* ===== verification/KPaging.thy ===== *)
theory KPaging
  imports KPools
begin

text \<open>
  The page tables of \<open>code/kernel/src/memory.c\<close>: the x86 two-level walk over physical memory, the
  recursive window (\<open>PDE[1023]\<close> points at the page directory itself) through which the kernel reads
  and writes its tables, and \<open>page_table_add\<close> and \<open>page_table_remove\<close>, which go through that
  window. Loads and stores of table entries are translated by the walk; a missing entry is a fault.
\<close>

section \<open>The memory management unit\<close>

text \<open>
  \<open>cr3\<close>: physical address of the page directory; \<open>pmem\<close>: the 32-bit word at a physical address;
  \<open>tlb\<close>: the frame the translation cache holds for a page.
\<close>

record mmu =
  cr3 :: u32
  pmem :: "u32 \<Rightarrow> u32"
  tlb :: "u32 \<Rightarrow> u32 option"

definition page_of :: "u32 \<Rightarrow> u32" where
  "page_of v = v AND 0xfffff000"

definition page_offset :: "u32 \<Rightarrow> u32" where
  "page_offset v = v AND 0xfff"

text \<open>The hardware walk: bits 31..22 select the directory entry, bits 21..12 the table entry.\<close>

definition pde_paddr :: "mmu \<Rightarrow> u32 \<Rightarrow> u32" where
  "pde_paddr u v = cr3 u + drop_bit 22 v * 4"

definition pte_paddr :: "mmu \<Rightarrow> u32 \<Rightarrow> u32" where
  "pte_paddr u v = page_of (pmem u (pde_paddr u v)) + (drop_bit 12 v AND 0x3ff) * 4"

definition walk :: "mmu \<Rightarrow> u32 \<Rightarrow> u32 option" where
  "walk u v =
     (if bit (pmem u (pde_paddr u v)) 0 \<and> bit (pmem u (pte_paddr u v)) 0
      then Some (page_of (pmem u (pte_paddr u v)) + page_offset v) else None)"

definition vload :: "mmu \<Rightarrow> ptr \<Rightarrow> stop + u32" where
  "vload u p = (case walk u p of None \<Rightarrow> Inl Page_fault | Some pa \<Rightarrow> Inr (pmem u pa))"

definition vstore :: "mmu \<Rightarrow> ptr \<Rightarrow> u32 \<Rightarrow> stop + mmu" where
  "vstore u p x = (case walk u p of None \<Rightarrow> Inl Page_fault
     | Some pa \<Rightarrow> Inr (u\<lparr>pmem := (pmem u)(pa := x)\<rparr>))"

section \<open>Table access in \<open>memory.c\<close>\<close>

definition PDE_IDX :: "u32 \<Rightarrow> u32" where
  "PDE_IDX addr = drop_bit 22 (addr AND 0xFFC00000)"

definition PTE_IDX :: "u32 \<Rightarrow> u32" where
  "PTE_IDX addr = drop_bit 12 (addr AND 0x003FF000)"

definition pde_ptr :: "ptr \<Rightarrow> ptr" where
  "pde_ptr vaddr = 0xfffff000 + PDE_IDX vaddr * 4"

definition pte_ptr :: "ptr \<Rightarrow> ptr" where
  "pte_ptr vaddr = 0xffc00000 + drop_bit 10 (vaddr AND 0xffc00000) + PTE_IDX vaddr * 4"

definition addr_v2p :: "mmu \<Rightarrow> ptr \<Rightarrow> stop + u32" where
  "addr_v2p u vaddr =
     rbind (vload u (pte_ptr vaddr)) (\<lambda>pte. Inr ((pte AND 0xfffff000) + (vaddr AND 0x00000fff)))"

definition PG_P_1 :: u32 where "PG_P_1 = 1"
definition PG_RW_W :: u32 where "PG_RW_W = 2"
definition PG_US_U :: u32 where "PG_US_U = 4"

text \<open>\<open>memset(page, 0, PG_SIZE)\<close> over a page table, as 1024 words.\<close>

fun zero_words :: "nat \<Rightarrow> mmu \<Rightarrow> ptr \<Rightarrow> stop + mmu" where
  "zero_words 0 u p = Inr u"
| "zero_words (Suc n) u p = rbind (vstore u p 0) (\<lambda>u'. zero_words n u' (p + 4))"

text \<open>
  \<open>page_table_add\<close>. A missing table is taken from the kernel pool, and what \<open>palloc\<close> answers is
  used unchecked: when the pool is empty the entry points at frame 0.
\<close>

definition page_table_add :: "p_pool \<Rightarrow> ptr \<Rightarrow> u32 \<Rightarrow> mem \<times> mmu \<Rightarrow> stop + mem \<times> mmu" where
  "page_table_add kp vaddr paddr s =
     (case s of (m, u) \<Rightarrow>
        let pde = pde_ptr vaddr; pte = pte_ptr vaddr
        in rbind (vload u pde) (\<lambda>e.
           rbind (if e AND 0x00000001 = 0
                  then (case palloc kp m of (pt_paddr, m') \<Rightarrow>
                    rbind (vstore u pde (pt_paddr OR PG_US_U OR PG_RW_W OR PG_P_1)) (\<lambda>u'.
                    rbind (zero_words 1024 u' (pte AND 0xfffff000)) (\<lambda>u''. Inr (m', u''))))
                  else Inr (m, u)) (\<lambda>(m', u').
           rbind (vstore u' pte (paddr OR PG_US_U OR PG_RW_W OR PG_P_1)) (\<lambda>u''. Inr (m', u'')))))"

text \<open>
  \<open>page_table_remove\<close>. The operand of \<open>invlpg\<close> is the memory operand \<open>"m"(vaddr)\<close>, that is, the
  stack slot that holds the parameter: the page that is flushed is the one of \<open>slot\<close>.
\<close>

definition invlpg :: "mmu \<Rightarrow> ptr \<Rightarrow> mmu" where
  "invlpg u p = u\<lparr>tlb := (tlb u)(page_of p := None)\<rparr>"

definition page_table_remove :: "ptr \<Rightarrow> ptr \<Rightarrow> mmu \<Rightarrow> stop + mmu" where
  "page_table_remove slot vaddr u =
     (let pte = pte_ptr vaddr
      in rbind (vload u pte) (\<lambda>e.
         rbind (vstore u pte (e AND NOT PG_P_1)) (\<lambda>u'. Inr (invlpg u' slot))))"

section \<open>Bits of the window addresses\<close>

lemma mask_numerals:
  "(0xfffff000 :: u32) = push_bit 12 (mask 20)" "(0xfff :: u32) = mask 12"
  "(0xffc00000 :: u32) = push_bit 22 (mask 10)" "(0x003ff000 :: u32) = push_bit 12 (mask 10)"
  "(0x3ff :: u32) = mask 10"
  by (simp_all add: mask_eq_exp_minus_1 push_bit_eq_mult)

lemma bit_page_of: "bit (page_of v) n \<longleftrightarrow> 12 \<le> n \<and> bit v n"
  using bit_imp_le_length [of v n] unfolding page_of_def mask_numerals
  by (auto simp: bit_simps)

lemma bit_page_offset: "bit (page_offset v) n \<longleftrightarrow> n < 12 \<and> bit v n"
  unfolding page_offset_def mask_numerals by (auto simp: bit_simps)

lemma bit_PDE_IDX: "bit (PDE_IDX v) n \<longleftrightarrow> bit v (n + 22)"
  using bit_imp_le_length [of v "n + 22"] unfolding PDE_IDX_def mask_numerals
  by (auto simp: bit_simps add.commute)

lemma bit_PTE_IDX: "bit (PTE_IDX v) n \<longleftrightarrow> n < 10 \<and> bit v (n + 12)"
  unfolding PTE_IDX_def mask_numerals by (auto simp: bit_simps add.commute)

lemma times_4: "x * 4 = push_bit 2 (x :: u32)"
  by (simp add: push_bit_eq_mult)

lemma bit_times_4: "bit (x * 4 :: u32) n \<longleftrightarrow> n < 32 \<and> 2 \<le> n \<and> bit x (n - 2)"
  by (auto simp: times_4 bit_simps)

lemma pde_ptr_or: "pde_ptr v = 0xfffff000 OR PDE_IDX v * 4"
  unfolding pde_ptr_def
proof (rule disjunctive_add)
  fix n
  show "\<not> bit (0xfffff000 :: u32) n \<or> \<not> bit (PDE_IDX v * 4) n"
    using bit_imp_le_length [of v "n - 2 + 22"]
    unfolding mask_numerals by (auto simp: bit_simps bit_times_4 bit_PDE_IDX)
qed

lemma pte_ptr_or:
  "pte_ptr v = 0xffc00000 OR drop_bit 10 (v AND 0xffc00000) OR PTE_IDX v * 4"
proof -
  have "0xffc00000 + drop_bit 10 (v AND 0xffc00000) = 0xffc00000 OR drop_bit 10 (v AND 0xffc00000)"
  proof (rule disjunctive_add)
    fix n
    show "\<not> bit (0xffc00000 :: u32) n \<or> \<not> bit (drop_bit 10 (v AND 0xffc00000)) n"
      using bit_imp_le_length [of v "n + 10"] unfolding mask_numerals by (auto simp: bit_simps)
  qed
  moreover have "(0xffc00000 OR drop_bit 10 (v AND 0xffc00000)) + PTE_IDX v * 4 =
      0xffc00000 OR drop_bit 10 (v AND 0xffc00000) OR PTE_IDX v * 4"
    unfolding or.assoc [symmetric]
  proof (rule disjunctive_add)
    fix n
    show "\<not> bit (0xffc00000 OR drop_bit 10 (v AND 0xffc00000)) n \<or> \<not> bit (PTE_IDX v * 4) n"
      unfolding mask_numerals by (auto simp: bit_simps bit_times_4 bit_PTE_IDX)
  qed
  ultimately show ?thesis by (simp add: pte_ptr_def)
qed

lemma bit_pde_ptr: "bit (pde_ptr v) n \<longleftrightarrow> n < 32 \<and> (12 \<le> n \<or> 2 \<le> n \<and> bit v (n + 20))"
  using bit_imp_le_length [of v "n + 20"] unfolding pde_ptr_or mask_numerals
  by (auto simp: bit_simps bit_times_4 bit_PDE_IDX add.commute)

lemma bit_pte_ptr:
  "bit (pte_ptr v) n \<longleftrightarrow> n < 32 \<and>
    (if 22 \<le> n then True else if 12 \<le> n then bit v (n + 10) else 2 \<le> n \<and> bit v (n + 10))"
  using bit_imp_le_length [of v "n + 10"] unfolding pte_ptr_or mask_numerals
  by (auto simp: bit_simps bit_times_4 bit_PTE_IDX add.commute)

lemma pde_ptr_parts:
  "drop_bit 22 (pde_ptr v) = 0x3ff" "drop_bit 12 (pde_ptr v) AND 0x3ff = 0x3ff"
  "page_offset (pde_ptr v) = drop_bit 22 v * 4"
proof -
  note bits = bit_simps bit_pde_ptr bit_page_offset bit_times_4 add.commute
  show "drop_bit 22 (pde_ptr v) = 0x3ff"
    by (rule bit_word_eqI, unfold mask_numerals) (auto simp: bits)
  show "drop_bit 12 (pde_ptr v) AND 0x3ff = 0x3ff"
    by (rule bit_word_eqI, unfold mask_numerals) (auto simp: bits)
  show "page_offset (pde_ptr v) = drop_bit 22 v * 4"
    by (rule bit_word_eqI) (auto simp: bits dest: bit_imp_le_length)
qed

lemma pte_ptr_parts:
  "drop_bit 22 (pte_ptr v) = 0x3ff" "drop_bit 12 (pte_ptr v) AND 0x3ff = drop_bit 22 v"
  "page_offset (pte_ptr v) = (drop_bit 12 v AND 0x3ff) * 4"
proof -
  note bits = bit_simps bit_pte_ptr bit_page_offset bit_times_4 add.commute
  show "drop_bit 22 (pte_ptr v) = 0x3ff"
    by (rule bit_word_eqI, unfold mask_numerals) (auto simp: bits)
  show "drop_bit 12 (pte_ptr v) AND 0x3ff = drop_bit 22 v"
    by (rule bit_word_eqI, unfold mask_numerals) (auto simp: bits dest: bit_imp_le_length)
  show "page_offset (pte_ptr v) = (drop_bit 12 v AND 0x3ff) * 4"
    by (rule bit_word_eqI, unfold mask_numerals) (auto simp: bits)
qed

section \<open>The recursive window\<close>

definition self_mapped :: "mmu \<Rightarrow> bool" where
  "self_mapped u \<longleftrightarrow> page_of (cr3 u) = cr3 u \<and> bit (pmem u (cr3 u + 0x3ff * 4)) 0 \<and>
     page_of (pmem u (cr3 u + 0x3ff * 4)) = cr3 u"

definition pde_present :: "mmu \<Rightarrow> u32 \<Rightarrow> bool" where
  "pde_present u v \<longleftrightarrow> bit (pmem u (pde_paddr u v)) 0"

lemma walk_pde_ptr: "self_mapped u \<Longrightarrow> walk u (pde_ptr v) = Some (pde_paddr u v)"
  by (simp only: walk_def pde_paddr_def pte_paddr_def self_mapped_def pde_ptr_parts) simp

lemma walk_pte_ptr:
  "self_mapped u \<Longrightarrow> walk u (pte_ptr v) = (if pde_present u v then Some (pte_paddr u v) else None)"
  by (simp only: walk_def pde_paddr_def pte_paddr_def self_mapped_def pde_present_def pte_ptr_parts)
    simp

section \<open>Entries and frames\<close>

abbreviation dir_idx :: "u32 \<Rightarrow> u32" where
  "dir_idx v \<equiv> drop_bit 22 v"

abbreviation tab_idx :: "u32 \<Rightarrow> u32" where
  "tab_idx v \<equiv> drop_bit 12 v AND 0x3ff"

definition table :: "mmu \<Rightarrow> u32 \<Rightarrow> u32" where
  "table u v = page_of (pmem u (pde_paddr u v))"

text \<open>A ten-bit index.\<close>

abbreviation idx10 :: "u32 \<Rightarrow> bool" where
  "idx10 i \<equiv> take_bit 10 i = i"

lemma bit_small: "bit x n \<Longrightarrow> idx10 x \<Longrightarrow> n < 10"
  by (metis bit_take_bit_iff)

lemma small_index [simp]: "idx10 (dir_idx v)" "idx10 (tab_idx v)"
  by (rule bit_word_eqI, auto simp: bit_simps dest: bit_imp_le_length)
    (rule bit_word_eqI, unfold mask_numerals, auto simp: bit_simps)

lemma idx10_of_nat: "k < 1024 \<Longrightarrow> idx10 (of_nat k)"
  by (simp add: take_bit_of_nat take_bit_nat_eq_self)

lemma page_of_page_of: "page_of (page_of v) = page_of v"
  by (rule bit_word_eqI) (auto simp: bit_page_of)

lemma page_of_plus:
  assumes "page_of f = f" and "idx10 i"
  shows "page_of (f + i * 4) = f"
proof -
  have f: "bit f n \<Longrightarrow> 12 \<le> n" for n using assms(1) bit_page_of by metis
  have i: "bit i n \<Longrightarrow> n < 10" for n using bit_small assms(2) by blast
  have "f + i * 4 = f OR i * 4"
    by (rule disjunctive_add) (use f i in \<open>fastforce simp: bit_times_4\<close>)
  then show ?thesis
    by (intro bit_word_eqI) (use f i in \<open>fastforce simp: bit_simps bit_times_4 bit_page_of\<close>)
qed

lemma times_4_inj: "i * 4 = j * 4 \<longleftrightarrow> i = j" if "idx10 i" "idx10 j" for i j :: u32
proof
  assume "i * 4 = j * 4"
  then have "bit (i * 4) (n + 2) = bit (j * 4) (n + 2)" for n by simp
  then show "i = j"
    by (intro bit_word_eqI) (use that bit_small in \<open>fastforce simp: bit_times_4\<close>)
qed simp

lemma page_of_pde_paddr: "self_mapped u \<Longrightarrow> page_of (pde_paddr u v) = cr3 u"
  unfolding pde_paddr_def by (rule page_of_plus) (simp_all add: self_mapped_def)

lemma pte_paddr_table: "pte_paddr u v = table u v + tab_idx v * 4"
  by (simp add: pte_paddr_def table_def)

lemma page_of_pte_paddr: "page_of (pte_paddr u v) = table u v"
  unfolding pte_paddr_table by (rule page_of_plus) (simp only: table_def page_of_page_of, rule small_index)

lemma same_page_iff: "page_of w = page_of v \<longleftrightarrow> dir_idx w = dir_idx v \<and> tab_idx w = tab_idx v"
proof
  assume eq: "page_of w = page_of v"
  have b: "bit w n = bit v n" if "12 \<le> n" for n
    using arg_cong [OF eq, of "\<lambda>x. bit x n"] that by (simp add: bit_page_of)
  show "dir_idx w = dir_idx v \<and> tab_idx w = tab_idx v"
    by (intro conjI bit_word_eqI) (auto simp: bit_simps b)
next
  assume "dir_idx w = dir_idx v \<and> tab_idx w = tab_idx v"
  then have eq: "dir_idx w = dir_idx v" "tab_idx w = tab_idx v" by simp_all
  have d: "bit w (22 + n) = bit v (22 + n)" for n
    using arg_cong [OF eq(1), of "\<lambda>x. bit x n"] by (simp add: bit_simps)
  have t: "bit w (12 + n) = bit v (12 + n)" if "n < 10" for n
    using arg_cong [OF eq(2), of "\<lambda>x. bit x n"] that unfolding mask_numerals by (simp add: bit_simps)
  have "bit w n = bit v n" if "12 \<le> n" for n
    using d [of "n - 22"] t [of "n - 12"] that by (cases "22 \<le> n") auto
  then show "page_of w = page_of v" by (intro bit_word_eqI) (auto simp: bit_page_of)
qed

definition in_window :: "u32 \<Rightarrow> bool" where
  "in_window v \<longleftrightarrow> dir_idx v = 0x3ff"

text \<open>
  The directory maps itself and only its last entry does. Tables may be shared: the boot loader
  lets entries 0 and 768 point at one table, so a heap page below 0xC0400000 has a low alias.
\<close>

definition mmu_ok :: "mmu \<Rightarrow> bool" where
  "mmu_ok u \<longleftrightarrow> self_mapped u \<and> (\<forall>v. pde_present u v \<longrightarrow> table u v = cr3 u \<longrightarrow> in_window v)"

text \<open>Two addresses that are translated by one table entry.\<close>

definition same_entry :: "mmu \<Rightarrow> u32 \<Rightarrow> u32 \<Rightarrow> bool" where
  "same_entry u v w \<longleftrightarrow> pde_present u w \<and> table u w = table u v \<and> tab_idx w = tab_idx v"

section \<open>Stores through the window\<close>

lemma walk_cong:
  assumes "cr3 u' = cr3 u" and "pmem u' (pde_paddr u v) = pmem u (pde_paddr u v)"
    and "pde_present u v \<Longrightarrow> pmem u' (pte_paddr u v) = pmem u (pte_paddr u v)"
  shows "walk u' v = walk u v"
  using assms by (auto simp: walk_def pde_paddr_def pte_paddr_def pde_present_def)

lemma pde_paddr_eq: "pde_paddr u v = pde_paddr u w \<longleftrightarrow> dir_idx v = dir_idx w"
  by (simp only: pde_paddr_def add_left_cancel times_4_inj [OF small_index(1) small_index(1)])

lemma pte_paddr_eq:
  "pte_paddr u v = pte_paddr u w \<longleftrightarrow> table u v = table u w \<and> tab_idx v = tab_idx w"
proof
  assume eq: "pte_paddr u v = pte_paddr u w"
  then have "table u v = table u w" by (metis page_of_pte_paddr)
  then show "table u v = table u w \<and> tab_idx v = tab_idx w"
    using eq
    by (simp only: pte_paddr_table add_left_cancel times_4_inj [OF small_index(2) small_index(2)])
qed (simp add: pte_paddr_table)

lemma window_entry: "dir_idx v = 0x3ff \<Longrightarrow> pde_paddr u v = cr3 u + 0x3ff * 4"
  by (simp add: pde_paddr_def)

lemma exists_window: "\<exists>v. dir_idx v = 0x3ff"
  by (rule exI [of _ "0xffc00000"]) simp

lemma table_not_dir: "mmu_ok u \<Longrightarrow> pde_present u v \<Longrightarrow> \<not> in_window v \<Longrightarrow> table u v \<noteq> cr3 u"
  by (auto simp: mmu_ok_def)

lemma mmu_okI:
  "self_mapped u \<Longrightarrow> (\<And>v. pde_present u v \<Longrightarrow> table u v = cr3 u \<Longrightarrow> in_window v) \<Longrightarrow> mmu_ok u"
  by (simp add: mmu_ok_def)

text \<open>Writing an entry of a present table changes the translation of the pages that use it.\<close>

lemma map_entry:
  fixes e :: u32
  assumes ok: "mmu_ok u" and pres: "pde_present u v" and win: "\<not> in_window v"
  defines "u' \<equiv> u\<lparr>pmem := (pmem u)(pte_paddr u v := e)\<rparr>"
  shows "mmu_ok u'" and "walk u' w = (if same_entry u v w
      then (if bit e 0 then Some (page_of e + page_offset w) else None) else walk u w)"
    and "\<And>x. pmem u' (pde_paddr u x) = pmem u (pde_paddr u x)"
    and "pde_present u' w = pde_present u w" and "table u' w = table u w"
    and "same_entry u' = same_entry u"
proof -
  have self: "self_mapped u" using ok by (simp add: mmu_ok_def)
  have dir: "pde_paddr u x \<noteq> pte_paddr u v" for x
    using table_not_dir [OF ok pres win] page_of_pde_paddr [OF self, of x] page_of_pte_paddr [of u v]
    by metis
  then show pde: "\<And>x. pmem u' (pde_paddr u x) = pmem u (pde_paddr u x)" by (simp add: u'_def)
  have c: "cr3 u' = cr3 u" by (simp add: u'_def)
  have pdes: "pde_paddr u' x = pde_paddr u x" for x by (simp add: pde_paddr_def c)
  obtain x where x: "dir_idx x = 0x3ff" using exists_window by blast
  have "pmem u' (cr3 u + 0x3ff * 4) = pmem u (cr3 u + 0x3ff * 4)"
    using pde [of x] by (simp only: window_entry [OF x])
  then have self': "self_mapped u'" using self by (simp add: self_mapped_def c)
  have same: "pde_present u' x = pde_present u x" "table u' x = table u x" for x
    by (simp_all add: pde_present_def table_def pdes pde)
  then show "pde_present u' w = pde_present u w" "table u' w = table u w" by simp_all
  show "same_entry u' = same_entry u" by (simp add: fun_eq_iff same_entry_def same)
  show "mmu_ok u'" using ok by (intro mmu_okI [OF self']) (simp add: same c mmu_ok_def)
  have pte: "pte_paddr u' x = pte_paddr u x" for x by (simp add: pte_paddr_def pdes pde)
  show "walk u' w = (if same_entry u v w
      then (if bit e 0 then Some (page_of e + page_offset w) else None) else walk u w)"
  proof (cases "same_entry u v w")
    case True
    then have w: "pde_present u w" "pte_paddr u w = pte_paddr u v"
      by (simp_all add: same_entry_def pte_paddr_eq)
    then have "pmem u' (pte_paddr u w) = e" by (simp add: u'_def)
    then show ?thesis using True w(1) pde [of w]
      by (simp add: walk_def pdes pte pde_present_def)
  next
    case False
    have "pte_paddr u w \<noteq> pte_paddr u v" if "pde_present u w"
      using False that by (simp only: pte_paddr_eq same_entry_def) simp
    then have "walk u' w = walk u w" by (intro walk_cong [OF c pde]) (simp add: u'_def)
    then show ?thesis by (simp only: False if_False)
  qed
qed

lemma load_pde: "self_mapped u \<Longrightarrow> vload u (pde_ptr v) = Inr (pmem u (pde_paddr u v))"
  by (simp add: vload_def walk_pde_ptr)

lemma store_pde:
  "self_mapped u \<Longrightarrow> vstore u (pde_ptr v) x = Inr (u\<lparr>pmem := (pmem u)(pde_paddr u v := x)\<rparr>)"
  by (simp add: vstore_def walk_pde_ptr)

lemma store_pte:
  "self_mapped u \<Longrightarrow> pde_present u v \<Longrightarrow>
   vstore u (pte_ptr v) x = Inr (u\<lparr>pmem := (pmem u)(pte_paddr u v := x)\<rparr>)"
  by (simp add: vstore_def walk_pte_ptr)

section \<open>A fresh page table\<close>

text \<open>The words of the window page of \<open>v\<close> are the entries of the table of \<open>v\<close>.\<close>

definition nth_page :: "u32 \<Rightarrow> u32 \<Rightarrow> u32" where
  "nth_page v i = (v AND 0xffc00000) OR push_bit 12 i"

lemma nth_page_idx: "dir_idx (nth_page v i) = dir_idx v" "tab_idx (nth_page v i) = i" if "idx10 i"
proof -
  have i: "bit i n \<Longrightarrow> n < 10" for n using bit_small that by blast
  show "dir_idx (nth_page v i) = dir_idx v"
    unfolding nth_page_def mask_numerals
    by (rule bit_word_eqI) (auto simp: bit_simps dest: i bit_imp_le_length)
  show "tab_idx (nth_page v i) = i"
    unfolding nth_page_def mask_numerals
    by (rule bit_word_eqI) (auto simp: bit_simps dest: i)
qed

lemma window_word:
  assumes "idx10 i"
  shows "page_of (pte_ptr v) + i * 4 = pte_ptr (nth_page v i)"
proof -
  have i: "bit i n \<Longrightarrow> n < 10" for n using bit_small assms by blast
  have "page_of (pte_ptr v) + i * 4 = page_of (pte_ptr v) OR i * 4"
    by (rule disjunctive_add) (use i in \<open>fastforce simp: bit_times_4 bit_page_of\<close>)
  also have "\<dots> = pte_ptr (nth_page v i)"
  proof (rule bit_word_eqI)
    fix n assume n: "n < LENGTH(32)"
    have "bit (nth_page v i) (n + 10) = (if 22 \<le> n + 10 then n < 22 \<and> bit v (n + 10) else 2 \<le> n \<and> bit i (n - 2))"
      unfolding nth_page_def mask_numerals using i [of "n - 2"] bit_imp_le_length [of v "n + 10"]
      by (auto simp: bit_simps)
    then show "bit (page_of (pte_ptr v) OR i * 4) n = bit (pte_ptr (nth_page v i)) n"
      using n i [of "n - 2"] bit_imp_le_length [of v "n + 10"]
      by (auto simp: bit_or_iff bit_page_of bit_pte_ptr bit_times_4)
  qed
  finally show ?thesis .
qed

fun zeroed :: "nat \<Rightarrow> u32 \<Rightarrow> (u32 \<Rightarrow> u32) \<Rightarrow> u32 \<Rightarrow> u32" where
  "zeroed 0 f pm = pm"
| "zeroed (Suc n) f pm = zeroed n (f + 4) (pm(f := 0))"

lemma zeroed_apply: "zeroed n f pm a = (if \<exists>k<n. a = f + of_nat k * 4 then 0 else pm a)"
proof (induction n arbitrary: f pm)
  case (Suc n)
  have "(\<exists>k<Suc n. a = f + of_nat k * 4) \<longleftrightarrow> a = f \<or> (\<exists>k<n. a = f + 4 + of_nat k * 4)"
    by (auto simp: Ex_less_Suc2 algebra_simps)
  then show ?case by (simp only: zeroed.simps Suc.IH) auto
qed simp

lemma zeroed_other: "page_of f = f \<Longrightarrow> page_of a \<noteq> f \<Longrightarrow> n \<le> 1024 \<Longrightarrow> zeroed n f pm a = pm a"
  using page_of_plus [OF _ idx10_of_nat, of f] by (auto simp: zeroed_apply)

lemma zeroed_in: "page_of f = f \<Longrightarrow> idx10 i \<Longrightarrow> zeroed 1024 f pm (f + i * 4) = 0"
proof -
  assume i: "idx10 i"
  have "unat (take_bit 10 i) = take_bit 10 (unat i)" by (rule unsigned_take_bit_eq)
  then have "unat i < 1024" using i take_bit_nat_less_exp [of 10 "unat i"] by simp
  then show ?thesis by (auto simp: zeroed_apply intro!: exI [of _ "unat i"])
qed

lemma zero_words_window:
  assumes "self_mapped u" "pde_present u v" "table u v = f" "page_of f = f" "f \<noteq> cr3 u"
    and "j + n \<le> 1024"
  shows "zero_words n u (page_of (pte_ptr v) + of_nat j * 4) =
    Inr (u\<lparr>pmem := zeroed n (f + of_nat j * 4) (pmem u)\<rparr>)"
  using assms
proof (induction n arbitrary: u j)
  case (Suc n)
  have j: "idx10 (of_nat j)" using Suc.prems(6) by (intro idx10_of_nat) simp
  let ?u = "u\<lparr>pmem := (pmem u)(f + of_nat j * 4 := 0)\<rparr>"
  have "pte_paddr u (nth_page v (of_nat j)) = f + of_nat j * 4"
    using Suc.prems(3) nth_page_idx [OF j, of v] by (simp add: pte_paddr_def table_def pde_paddr_def)
  moreover have "pde_present u (nth_page v (of_nat j))"
    using Suc.prems(2) nth_page_idx(1) [OF j, of v] by (simp add: pde_present_def pde_paddr_def)
  ultimately have st: "vstore u (page_of (pte_ptr v) + of_nat j * 4) 0 = Inr ?u"
    using Suc.prems(1) by (simp add: window_word [OF j] store_pte)
  have off: "pde_paddr u w \<noteq> f + of_nat j * 4" for w
    using page_of_pde_paddr [OF Suc.prems(1)] page_of_plus [OF Suc.prems(4) j] Suc.prems(5) by metis
  have pde: "pmem ?u (pde_paddr u w) = pmem u (pde_paddr u w)" for w using off [of w] by simp
  have same: "pde_paddr ?u w = pde_paddr u w" for w by (simp add: pde_paddr_def)
  obtain x where x: "dir_idx x = 0x3ff" using exists_window by blast
  have "self_mapped ?u"
    using Suc.prems(1) pde [of x] unfolding self_mapped_def window_entry [OF x] by simp
  moreover have "pde_present ?u v" "table ?u v = f"
    using Suc.prems(2,3) pde [of v] by (simp_all add: pde_present_def table_def same)
  ultimately have "zero_words n ?u (page_of (pte_ptr v) + of_nat (Suc j) * 4) =
      Inr (?u\<lparr>pmem := zeroed n (f + of_nat (Suc j) * 4) (pmem ?u)\<rparr>)"
    using Suc.prems(4-6) by (intro Suc.IH) simp_all
  then show ?case using st by (simp add: algebra_simps)
qed simp

text \<open>A frame that neither the directory nor a present table occupies.\<close>

definition fresh_frame :: "mmu \<Rightarrow> u32 \<Rightarrow> bool" where
  "fresh_frame u f \<longleftrightarrow> page_of f = f \<and> f \<noteq> cr3 u \<and> (\<forall>w. pde_present u w \<longrightarrow> table u w \<noteq> f)"

definition with_table :: "mmu \<Rightarrow> u32 \<Rightarrow> u32 \<Rightarrow> mmu" where
  "with_table u v f =
     u\<lparr>pmem := zeroed 1024 f ((pmem u)(pde_paddr u v := f OR PG_US_U OR PG_RW_W OR PG_P_1))\<rparr>"

lemma entry_bits: "bit (f OR PG_US_U OR PG_RW_W OR PG_P_1) 0"
    "page_of (f OR PG_US_U OR PG_RW_W OR PG_P_1) = page_of f"
proof -
  have flags: "PG_US_U = push_bit 2 (mask 1)" "PG_RW_W = push_bit 1 (mask 1)" "PG_P_1 = mask 1"
    by (simp_all add: PG_US_U_def PG_RW_W_def PG_P_1_def mask_eq_exp_minus_1 push_bit_eq_mult)
  show "bit (f OR PG_US_U OR PG_RW_W OR PG_P_1) 0"
    unfolding flags by (simp only: bit_or_iff bit_mask_iff) simp
  show "page_of (f OR PG_US_U OR PG_RW_W OR PG_P_1) = page_of f"
    by (rule bit_word_eqI)
      (auto simp only: flags bit_page_of bit_or_iff bit_push_bit_iff bit_mask_iff)
qed

lemma with_table_entries:
  assumes ok: "mmu_ok u" and abs: "\<not> pde_present u v" and fr: "fresh_frame u f"
  defines "u' \<equiv> with_table u v f"
  shows "pde_paddr u' w = pde_paddr u w"
    and "pmem u' (pde_paddr u w) = (if dir_idx w = dir_idx v
      then f OR PG_US_U OR PG_RW_W OR PG_P_1 else pmem u (pde_paddr u w))"
    and "page_of a \<noteq> f \<Longrightarrow> page_of a \<noteq> cr3 u \<Longrightarrow> pmem u' a = pmem u a"
    and "cr3 u' = cr3 u"
proof -
  have f: "page_of f = f" "f \<noteq> cr3 u" using fr by (simp_all add: fresh_frame_def)
  have self: "self_mapped u" using ok by (simp add: mmu_ok_def)
  show "pde_paddr u' w = pde_paddr u w" by (simp add: u'_def with_table_def pde_paddr_def)
  show "cr3 u' = cr3 u" by (simp add: u'_def with_table_def)
  have "page_of (pde_paddr u w) \<noteq> f" using page_of_pde_paddr [OF self] f(2) by simp
  then show "pmem u' (pde_paddr u w) = (if dir_idx w = dir_idx v
      then f OR PG_US_U OR PG_RW_W OR PG_P_1 else pmem u (pde_paddr u w))"
    by (simp add: u'_def with_table_def zeroed_other [OF f(1)] pde_paddr_eq)
  show "page_of a \<noteq> f \<Longrightarrow> page_of a \<noteq> cr3 u \<Longrightarrow> pmem u' a = pmem u a"
    using page_of_pde_paddr [OF self, of v]
    by (auto simp: u'_def with_table_def zeroed_other [OF f(1)])
qed

lemma with_table_ok:
  assumes ok: "mmu_ok u" and abs: "\<not> pde_present u v" and fr: "fresh_frame u f"
    and win: "\<not> in_window v"
  defines "u' \<equiv> with_table u v f"
  shows "mmu_ok u'" and "pde_present u' v" and "table u' v = f"
    and "\<not> in_window w \<Longrightarrow> walk u' w = walk u w"
proof -
  note ent = with_table_entries [OF ok abs fr, folded u'_def]
  have f: "page_of f = f" "f \<noteq> cr3 u" using fr by (simp_all add: fresh_frame_def)
  have self: "self_mapped u" using ok by (simp add: mmu_ok_def)
  have pres: "pde_present u' x \<longleftrightarrow> dir_idx x = dir_idx v \<or> pde_present u x" for x
    by (simp add: pde_present_def ent entry_bits)
  have tab: "table u' x = (if dir_idx x = dir_idx v then f else table u x)" for x
    by (simp add: table_def ent entry_bits f)
  show "pde_present u' v" "table u' v = f" by (simp_all add: pres tab)
  obtain x where x: "dir_idx x = 0x3ff" using exists_window by blast
  have "dir_idx x \<noteq> dir_idx v" using win x by (simp add: in_window_def)
  then have self': "self_mapped u'"
    using self ent(2) [of x] by (simp add: self_mapped_def ent(4) window_entry [OF x])
  show "mmu_ok u'"
    using f ok by (intro mmu_okI [OF self']) (auto simp: pres tab ent(4) mmu_ok_def split: if_splits)
  assume w: "\<not> in_window w"
  show "walk u' w = walk u w"
  proof (cases "dir_idx w = dir_idx v")
    case True
    then have "pde_paddr u w = pde_paddr u v" by (simp add: pde_paddr_def)
    then have none: "walk u w = None" using abs by (simp add: walk_def pde_present_def)
    have "pte_paddr u' w = f + tab_idx w * 4"
      using tab [of w] by (simp add: pte_paddr_table True)
    moreover have "pmem u' = zeroed 1024 f
        ((pmem u)(pde_paddr u v := f OR PG_US_U OR PG_RW_W OR PG_P_1))"
      by (simp add: u'_def with_table_def)
    ultimately have "pmem u' (pte_paddr u' w) = 0"
      using zeroed_in [OF f(1) small_index(2) [of w]] by (simp only:)
    then have "walk u' w = None" by (simp add: walk_def)
    then show ?thesis using none by simp
  next
    case False
    have pde: "pmem u' (pde_paddr u w) = pmem u (pde_paddr u w)" using False by (simp add: ent(2))
    show ?thesis
    proof (rule walk_cong [OF ent(4) pde])
      assume p: "pde_present u w"
      have "table u w \<noteq> f" using fr p by (simp add: fresh_frame_def)
      then show "pmem u' (pte_paddr u w) = pmem u (pte_paddr u w)"
        using table_not_dir [OF ok p w] by (intro ent(3)) (simp_all add: page_of_pte_paddr)
    qed
  qed
qed

section \<open>Mapping a page\<close>

lemma pde_bit0: "e AND 0x00000001 = 0 \<longleftrightarrow> \<not> bit e 0" for e :: u32
  by (simp add: and_one_eq mod_2_eq_odd bit_0)

lemma pte_page: "pte AND 0xfffff000 = page_of pte"
  by (simp add: page_of_def)

text \<open>The table \<open>page_table_add\<close> writes to: the one that is there, or a fresh zeroed one.\<close>

definition table_for :: "p_pool \<Rightarrow> ptr \<Rightarrow> mem \<times> mmu \<Rightarrow> mem \<times> mmu" where
  "table_for kp v s = (case s of (m, u) \<Rightarrow>
     if pde_present u v then (m, u)
     else (snd (palloc kp m), with_table u v (fst (palloc kp m))))"

lemma page_table_add_steps:
  assumes ok: "mmu_ok u" and win: "\<not> in_window v"
    and fr: "\<not> pde_present u v \<Longrightarrow> fresh_frame u (fst (palloc kp m))"
  shows "page_table_add kp v paddr (m, u) = (case table_for kp v (m, u) of (m', u') \<Rightarrow>
    Inr (m', u'\<lparr>pmem := (pmem u')(pte_paddr u' v := paddr OR PG_US_U OR PG_RW_W OR PG_P_1)\<rparr>))"
    and "mmu_ok (snd (table_for kp v (m, u)))" and "pde_present (snd (table_for kp v (m, u))) v"
    and "\<not> in_window w \<Longrightarrow> walk (snd (table_for kp v (m, u))) w = walk u w"
proof -
  have self: "self_mapped u" using ok by (simp add: mmu_ok_def)
  let ?u = "snd (table_for kp v (m, u))"
  have t: "mmu_ok ?u \<and> pde_present ?u v \<and> (\<not> in_window w \<longrightarrow> walk ?u w = walk u w)"
    using ok with_table_ok [OF ok _ fr win] by (auto simp: table_for_def)
  then show "mmu_ok ?u" "pde_present ?u v" "\<not> in_window w \<Longrightarrow> walk ?u w = walk u w" by auto
  have last_store: "vstore ?u (pte_ptr v) x = Inr (?u\<lparr>pmem := (pmem ?u)(pte_paddr ?u v := x)\<rparr>)" for x
    using t by (intro store_pte) (simp_all add: mmu_ok_def)
  have new: "rbind (vstore u (pde_ptr v) (f OR PG_US_U OR PG_RW_W OR PG_P_1))
      (\<lambda>u'. zero_words 1024 u' (page_of (pte_ptr v))) = Inr (with_table u v f)"
    if abs: "\<not> pde_present u v" and f: "fresh_frame u f" for f
  proof -
    let ?e = "f OR PG_US_U OR PG_RW_W OR PG_P_1"
    let ?u1 = "u\<lparr>pmem := (pmem u)(pde_paddr u v := ?e)\<rparr>"
    have ff: "page_of f = f" "f \<noteq> cr3 u" using f by (simp_all add: fresh_frame_def)
    obtain x where x: "dir_idx x = 0x3ff" using exists_window by blast
    have "pde_paddr u x \<noteq> pde_paddr u v" using win x by (simp add: pde_paddr_eq in_window_def)
    then have "self_mapped ?u1"
      using self unfolding self_mapped_def window_entry [OF x] by simp
    moreover have "pde_present ?u1 v" "table ?u1 v = f"
      by (simp_all add: pde_present_def table_def pde_paddr_def entry_bits ff)
    ultimately have "zero_words 1024 ?u1 (page_of (pte_ptr v) + of_nat 0 * 4) =
        Inr (?u1\<lparr>pmem := zeroed 1024 (f + of_nat 0 * 4) (pmem ?u1)\<rparr>)"
      using ff by (intro zero_words_window) simp_all
    then show ?thesis by (simp add: store_pde [OF self] with_table_def)
  qed
  show "page_table_add kp v paddr (m, u) = (case table_for kp v (m, u) of (m', u') \<Rightarrow>
    Inr (m', u'\<lparr>pmem := (pmem u')(pte_paddr u' v := paddr OR PG_US_U OR PG_RW_W OR PG_P_1)\<rparr>))"
  proof (cases "pde_present u v")
    case True
    then show ?thesis
      using last_store
      by (simp add: page_table_add_def load_pde [OF self] pde_bit0 Let_def table_for_def pde_present_def)
  next
    case False
    obtain f m' where p: "palloc kp m = (f, m')" by fastforce
    obtain u1 where u1: "vstore u (pde_ptr v) (f OR PG_US_U OR PG_RW_W OR PG_P_1) = Inr u1"
      by (simp add: store_pde [OF self])
    then have "zero_words 1024 u1 (page_of (pte_ptr v)) = Inr (with_table u v f)"
      using new [OF False, of f] fr [OF False] p by simp
    then show ?thesis
      using last_store False u1 p
      by (simp add: page_table_add_def load_pde [OF self] pde_bit0 Let_def table_for_def
          pde_present_def pte_page)
  qed
qed

lemma page_table_add_maps_page:
  assumes ok: "mmu_ok u" and win: "\<not> in_window v"
    and fr: "\<not> pde_present u v \<Longrightarrow> fresh_frame u (fst (palloc kp m))"
    and al: "page_of paddr = paddr"
  shows "\<exists>m' u'. page_table_add kp v paddr (m, u) = Inr (m', u') \<and> mmu_ok u' \<and> pde_present u' v \<and>
    m' = fst (table_for kp v (m, u)) \<and>
    (pde_present u v \<longrightarrow> (\<forall>w. pde_present u' w = pde_present u w \<and> table u' w = table u w)) \<and>
    (\<forall>w. \<not> in_window w \<longrightarrow>
      walk u' w = (if same_entry u' v w then Some (paddr + page_offset w) else walk u w))"
proof -
  obtain m' u1 where t: "table_for kp v (m, u) = (m', u1)" by fastforce
  let ?e = "paddr OR PG_US_U OR PG_RW_W OR PG_P_1"
  let ?u = "u1\<lparr>pmem := (pmem u1)(pte_paddr u1 v := ?e)\<rparr>"
  note steps = page_table_add_steps [OF ok win fr, unfolded t]
  have u1: "mmu_ok u1" "pde_present u1 v" "\<And>w. \<not> in_window w \<Longrightarrow> walk u1 w = walk u w"
    using steps(2-4) by simp_all
  note me = map_entry [OF u1(1,2) win, of ?e]
  have "walk ?u w = (if same_entry ?u v w then Some (paddr + page_offset w) else walk u w)"
    if "\<not> in_window w" for w
    using me(2) [of w] u1(3) [OF that] by (simp only: entry_bits al me(6) if_True)
  moreover have "pde_present u v \<Longrightarrow> u1 = u" using t by (simp add: table_for_def)
  ultimately show ?thesis using steps(1) [of paddr] me(1) me(4) me(5) u1(2) t by auto
qed

lemma page_table_remove_page:
  assumes ok: "mmu_ok u" and win: "\<not> in_window v" and pres: "pde_present u v"
  shows "\<exists>u'. page_table_remove slot v u = Inr u' \<and> mmu_ok u' \<and>
    (\<forall>w. walk u' w = (if same_entry u v w then None else walk u w)) \<and>
    tlb u' = (tlb u)(page_of slot := None) \<and>
    (\<forall>w. pde_present u' w = pde_present u w \<and> table u' w = table u w)"
proof -
  have self: "self_mapped u" using ok by (simp add: mmu_ok_def)
  let ?e = "pmem u (pte_paddr u v) AND NOT PG_P_1"
  let ?u = "u\<lparr>pmem := (pmem u)(pte_paddr u v := ?e)\<rparr>"
  note me = map_entry [OF ok pres win, of ?e]
  have "vload u (pte_ptr v) = Inr (pmem u (pte_paddr u v))"
    by (simp add: vload_def walk_pte_ptr [OF self] pres)
  then have "page_table_remove slot v u = Inr (invlpg ?u slot)"
    by (simp add: page_table_remove_def Let_def store_pte [OF self pres])
  moreover have "\<not> bit ?e 0" by (simp add: PG_P_1_def bit_simps)
  then have "walk ?u w = (if same_entry u v w then None else walk u w)" for w using me(2) [of w] by simp
  moreover have "walk (invlpg ?u slot) w = walk ?u w" "mmu_ok (invlpg ?u slot) = mmu_ok ?u"
      "pde_present (invlpg ?u slot) w = pde_present ?u w" "table (invlpg ?u slot) w = table ?u w" for w
    by (simp_all add: invlpg_def walk_def pde_paddr_def pte_paddr_def mmu_ok_def self_mapped_def
        pde_present_def table_def)
  ultimately show ?thesis using me(1,4,5) by (simp add: invlpg_def)
qed

lemma addr_v2p_walk: "self_mapped u \<Longrightarrow> walk u v = Some pa \<Longrightarrow> addr_v2p u v = Inr pa"
  using walk_pte_ptr [of u v]
  by (auto simp: addr_v2p_def vload_def walk_def pde_present_def page_of_def page_offset_def
      split: if_splits)

section \<open>Properties\<close>

text \<open>C22: With the recursive directory entry in place, the pointers \<open>pde_ptr\<close> and \<open>pte_ptr\<close>
  compute for an address are translated by the hardware walk to the directory entry and the table
  entry of that very address, and \<open>addr_v2p\<close> of a mapped address is its physical address.\<close>

theorem recursive_window:
  assumes "self_mapped u"
  shows "walk u (pde_ptr v) = Some (pde_paddr u v) \<and>
    walk u (pte_ptr v) = (if pde_present u v then Some (pte_paddr u v) else None) \<and>
    (walk u v = Some pa \<longrightarrow> addr_v2p u v = Inr pa)"
  using walk_pde_ptr [OF assms] walk_pte_ptr [OF assms] addr_v2p_walk [OF assms] by simp

text \<open>
  The directory the boot loader leaves, cut down to three entries: entries 0 and 768 share the
  first table, entry 1023 is the directory.
\<close>

definition small_mmu :: mmu where
  "small_mmu = \<lparr>cr3 = 0x100000,
     pmem = (\<lambda>_. 0)(0x100000 := 0x101003, 0x100C00 := 0x101003, 0x100FFC := 0x100003),
     tlb = (\<lambda>_. Some 0x300000)\<rparr>"

lemma small_pde: "pmem small_mmu (pde_paddr small_mmu v) =
    (if dir_idx v = 0x3ff then 0x100003 else if dir_idx v = 0x300 \<or> dir_idx v = 0 then 0x101003 else 0)"
proof -
  have eq: "pde_paddr small_mmu v = 0x100000 + i * 4 \<longleftrightarrow> dir_idx v = i" if "idx10 i" for i
    using times_4_inj [OF small_index(1) that, of v] unfolding pde_paddr_def
    by (simp only: small_mmu_def mmu.simps add_left_cancel)
  show ?thesis using eq [of "0x3ff"] eq [of "0x300"] eq [of 0] by (simp add: small_mmu_def)
qed

lemma small_mmu_ok: "mmu_ok small_mmu" "pde_present small_mmu 0xC0100000"
    "\<not> pde_present small_mmu 0xC0400000"
    "fresh_frame small_mmu 0x200000" "\<not> in_window 0xC0100000" "\<not> in_window 0xC0400000"
proof -
  have self: "self_mapped small_mmu"
    by (simp add: self_mapped_def small_mmu_def page_of_def bit_iff_odd)
  have "cr3 small_mmu = 0x100000" by (simp add: small_mmu_def)
  then show "mmu_ok small_mmu"
    by (intro mmu_okI [OF self])
      (auto simp: table_def pde_present_def small_pde in_window_def page_of_def split: if_splits)
  show "fresh_frame small_mmu 0x200000"
    by (auto simp: fresh_frame_def table_def pde_present_def small_pde page_of_def)
      (simp_all add: small_mmu_def)
qed (simp_all add: pde_present_def small_pde in_window_def bit_iff_odd)

theorem recursive_window_witness:
  "walk small_mmu (pde_ptr 0xC0123456) = Some (pde_paddr small_mmu 0xC0123456)"
  using recursive_window [of small_mmu "0xC0123456"] small_mmu_ok(1) by (simp add: mmu_ok_def)

text \<open>C21: \<open>page_table_add\<close> on a well-formed directory returns without a fault and maps its page
  to the given frame, through a fresh zeroed table where none was there: exactly the addresses that
  use the written table entry (the page itself, and its low alias below 4 MB) are translated to
  the frame, every other address outside the window keeps its translation, and the directory stays
  well formed. The hypothesis on a missing table is that \<open>palloc\<close> delivers a frame no table uses.\<close>

theorem page_table_add_maps:
  assumes "mmu_ok u" and "\<not> in_window v" and "page_of paddr = paddr"
    and "pde_present u v \<or> fresh_frame u (fst (palloc kp m))"
  shows "\<exists>m' u'. page_table_add kp v paddr (m, u) = Inr (m', u') \<and> mmu_ok u' \<and>
    walk u' v = Some (paddr + page_offset v) \<and>
    (\<forall>w. \<not> in_window w \<longrightarrow>
      walk u' w = (if same_entry u' v w then Some (paddr + page_offset w) else walk u w))"
proof -
  obtain m' u' where "page_table_add kp v paddr (m, u) = Inr (m', u')" "mmu_ok u'" "pde_present u' v"
      "\<forall>w. \<not> in_window w \<longrightarrow>
        walk u' w = (if same_entry u' v w then Some (paddr + page_offset w) else walk u w)"
    using page_table_add_maps_page [of u v kp m paddr] assms by blast
  then show ?thesis using assms(2) by (simp add: same_entry_def)
qed

definition demo_pool :: p_pool where
  "demo_pool = \<lparr>paddr_start = 0x200000, p_size = 0x40000,
     paddr_bitmap = \<lparr>len = 8, bits = 0xC0076000\<rparr>, p_mlock = 0\<rparr>"

theorem page_table_add_maps_witness:
  "\<exists>m' u'. page_table_add demo_pool 0xC0400000 0x300000 (\<lambda>_. 0, small_mmu) = Inr (m', u') \<and>
    walk u' 0xC0400000 = Some 0x300000"
proof -
  have "fst (palloc demo_pool (\<lambda>_. 0)) = 0x200000" by code_simp
  then have "\<exists>m' u'. page_table_add demo_pool 0xC0400000 0x300000 (\<lambda>_. 0, small_mmu) = Inr (m', u') \<and>
      mmu_ok u' \<and> walk u' 0xC0400000 = Some (0x300000 + page_offset 0xC0400000) \<and>
      (\<forall>w. \<not> in_window w \<longrightarrow> walk u' w =
        (if same_entry u' 0xC0400000 w then Some (0x300000 + page_offset w) else walk small_mmu w))"
    using small_mmu_ok by (intro page_table_add_maps) (simp_all add: page_of_def)
  then show ?thesis by (auto simp: page_offset_def)
qed

text \<open>\<open>page_table_remove\<close> on a well-formed directory unmaps the page of its argument (and
  whatever shares the entry) and nothing else, but the translation it flushes is the one of the
  stack slot that holds the argument: when that slot lies on another page, a cached translation of
  the removed page survives.\<close>

theorem page_table_remove_unmaps:
  assumes "mmu_ok u" and "\<not> in_window v" and "pde_present u v"
  shows "\<exists>u'. page_table_remove slot v u = Inr u' \<and> mmu_ok u' \<and>
    (\<forall>w. walk u' w = (if same_entry u v w then None else walk u w)) \<and>
    tlb u' (page_of v) = (if page_of slot = page_of v then None else tlb u (page_of v))"
  using page_table_remove_page [OF assms, of slot] by fastforce

theorem page_table_remove_unmaps_witness:
  "\<exists>u'. page_table_remove 0xC0120FF0 0xC0100000 small_mmu = Inr u' \<and> walk u' 0xC0100000 = None \<and>
    tlb u' (page_of 0xC0100000) = Some 0x300000"
proof -
  obtain u' where "page_table_remove 0xC0120FF0 0xC0100000 small_mmu = Inr u'"
      "\<forall>w. walk u' w = (if same_entry small_mmu 0xC0100000 w then None else walk small_mmu w)"
      "tlb u' (page_of 0xC0100000) = tlb small_mmu (page_of 0xC0100000)"
    using page_table_remove_unmaps [of small_mmu "0xC0100000" "0xC0120FF0"] small_mmu_ok
    by (auto simp: page_of_def)
  then show ?thesis using small_mmu_ok(2) by (simp add: same_entry_def) (simp add: small_mmu_def)
qed

end
