(* ===== verification/KPages.thy ===== *)
theory KPages
  imports KPaging
begin

text \<open>
  \<open>page_acquire\<close>, \<open>page_release\<close>, \<open>page_malloc\<close> and \<open>page_free\<close> of \<open>code/kernel/src/memory.c\<close>:
  virtual pages, physical frames and table entries wired together, each step under its lock.

  The locks are those a single thread sees: taking a lock somebody holds does not come back
  (\<open>Blocked\<close>). \<open>arg_slot\<close> is the stack address of the parameter of \<open>page_table_remove\<close>, which
  \<open>invlpg\<close> flushes by mistake.
\<close>

section \<open>State\<close>

record mm_state =
  kmem :: mem
  kmmu :: mmu
  k_p_pool :: p_pool
  u_p_pool :: p_pool
  k_v_pool :: v_pool
  mlock_pgtable :: ptr
  cur_task :: ptr
  arg_slot :: ptr

datatype pool_id = K_P_POOL | U_P_POOL

fun pool_of :: "pool_id \<Rightarrow> mm_state \<Rightarrow> p_pool" where
  "pool_of K_P_POOL s = k_p_pool s"
| "pool_of U_P_POOL s = u_p_pool s"

fun set_p_mlock :: "pool_id \<Rightarrow> ptr \<Rightarrow> mm_state \<Rightarrow> mm_state" where
  "set_p_mlock K_P_POOL t s = s\<lparr>k_p_pool := (k_p_pool s)\<lparr>p_mlock := t\<rparr>\<rparr>"
| "set_p_mlock U_P_POOL t s = s\<lparr>u_p_pool := (u_p_pool s)\<lparr>p_mlock := t\<rparr>\<rparr>"

definition set_v_mlock :: "ptr \<Rightarrow> mm_state \<Rightarrow> mm_state" where
  "set_v_mlock t s = s\<lparr>k_v_pool := (k_v_pool s)\<lparr>v_mlock := t\<rparr>\<rparr>"

text \<open>\<open>mutex_lock(&lock); body; mutex_unlock(&lock);\<close>\<close>

definition locked :: "(mm_state \<Rightarrow> ptr) \<Rightarrow> (ptr \<Rightarrow> mm_state \<Rightarrow> mm_state) \<Rightarrow>
    (mm_state \<Rightarrow> stop + 'a \<times> mm_state) \<Rightarrow> mm_state \<Rightarrow> stop + 'a \<times> mm_state" where
  "locked owner set_owner body s =
     (if owner s \<noteq> NULL then Inl Blocked
      else rbind (body (set_owner (cur_task s) s)) (\<lambda>(r, s'). Inr (r, set_owner NULL s')))"

definition with_v_lock :: "(mm_state \<Rightarrow> stop + 'a \<times> mm_state) \<Rightarrow> mm_state \<Rightarrow> stop + 'a \<times> mm_state" where
  "with_v_lock = locked (\<lambda>s. v_mlock (k_v_pool s)) set_v_mlock"

definition with_p_lock ::
    "pool_id \<Rightarrow> (mm_state \<Rightarrow> stop + 'a \<times> mm_state) \<Rightarrow> mm_state \<Rightarrow> stop + 'a \<times> mm_state" where
  "with_p_lock pid = locked (\<lambda>s. p_mlock (pool_of pid s)) (set_p_mlock pid)"

definition with_pgtable_lock :: "(mm_state \<Rightarrow> stop + 'a \<times> mm_state) \<Rightarrow> mm_state \<Rightarrow> stop + 'a \<times> mm_state" where
  "with_pgtable_lock = locked mlock_pgtable (\<lambda>t s. s\<lparr>mlock_pgtable := t\<rparr>)"

section \<open>Operations\<close>

definition vaddr_acquire_st :: "ptr \<Rightarrow> u32 \<Rightarrow> mm_state \<Rightarrow> stop + ptr \<times> mm_state" where
  "vaddr_acquire_st vaddr pg_cnt s =
     (case vaddr_acquire (k_v_pool s) vaddr pg_cnt (kmem s) of (v, m) \<Rightarrow> Inr (v, s\<lparr>kmem := m\<rparr>))"

definition palloc_st :: "pool_id \<Rightarrow> mm_state \<Rightarrow> stop + ptr \<times> mm_state" where
  "palloc_st pid s = (case palloc (pool_of pid s) (kmem s) of (p, m) \<Rightarrow> Inr (p, s\<lparr>kmem := m\<rparr>))"

definition page_table_add_st :: "ptr \<Rightarrow> ptr \<Rightarrow> mm_state \<Rightarrow> stop + unit \<times> mm_state" where
  "page_table_add_st vaddr paddr s =
     rbind (page_table_add (k_p_pool s) vaddr paddr (kmem s, kmmu s))
       (\<lambda>(m, u). Inr ((), s\<lparr>kmem := m, kmmu := u\<rparr>))"

fun page_acquire_loop :: "nat \<Rightarrow> pool_id \<Rightarrow> ptr \<Rightarrow> mm_state \<Rightarrow> stop + bool \<times> mm_state" where
  "page_acquire_loop 0 pid vaddr_idx s = Inr (True, s)"
| "page_acquire_loop (Suc n) pid vaddr_idx s =
     rbind (with_p_lock pid (palloc_st pid) s) (\<lambda>(paddr, s1).
       if paddr = NULL then Inr (False, s1)
       else rbind (with_pgtable_lock (page_table_add_st vaddr_idx paddr) s1) (\<lambda>(_, s2).
         page_acquire_loop n pid (vaddr_idx + PG_SIZE) s2))"

text \<open>A frame that cannot be had ends the loop: nothing acquired so far is given back.\<close>

definition page_acquire :: "pool_id \<Rightarrow> ptr \<Rightarrow> u32 \<Rightarrow> mm_state \<Rightarrow> stop + ptr \<times> mm_state" where
  "page_acquire pid vaddr pg_cnt s =
     rbind (with_v_lock (vaddr_acquire_st vaddr pg_cnt) s) (\<lambda>(vaddr_ret, s1).
       if vaddr_ret = NULL then Inr (NULL, s1)
       else rbind (page_acquire_loop (nat (sint pg_cnt)) pid vaddr_ret s1) (\<lambda>(ok, s2).
         Inr (if ok then vaddr_ret else NULL, s2)))"

definition pfree_st :: "pool_id \<Rightarrow> ptr \<Rightarrow> mm_state \<Rightarrow> stop + unit \<times> mm_state" where
  "pfree_st pid paddr s = rbind (pfree (pool_of pid s) paddr (kmem s)) (\<lambda>m. Inr ((), s\<lparr>kmem := m\<rparr>))"

definition page_table_remove_st :: "ptr \<Rightarrow> mm_state \<Rightarrow> stop + unit \<times> mm_state" where
  "page_table_remove_st vaddr s =
     rbind (page_table_remove (arg_slot s) vaddr (kmmu s)) (\<lambda>u. Inr ((), s\<lparr>kmmu := u\<rparr>))"

fun page_release_loop :: "nat \<Rightarrow> pool_id \<Rightarrow> ptr \<Rightarrow> mm_state \<Rightarrow> stop + mm_state" where
  "page_release_loop 0 pid vaddr_idx s = Inr s"
| "page_release_loop (Suc n) pid vaddr_idx s =
     rbind (addr_v2p (kmmu s) vaddr_idx) (\<lambda>paddr.
     rbind (with_p_lock pid (pfree_st pid paddr) s) (\<lambda>(_, s1).
     rbind (with_pgtable_lock (page_table_remove_st vaddr_idx) s1) (\<lambda>(_, s2).
       page_release_loop n pid (vaddr_idx + PG_SIZE) s2)))"

definition vaddr_release_st :: "ptr \<Rightarrow> u32 \<Rightarrow> mm_state \<Rightarrow> stop + unit \<times> mm_state" where
  "vaddr_release_st vaddr pg_cnt s =
     rbind (vaddr_release (k_v_pool s) vaddr pg_cnt (kmem s)) (\<lambda>m. Inr ((), s\<lparr>kmem := m\<rparr>))"

definition page_release :: "pool_id \<Rightarrow> ptr \<Rightarrow> u32 \<Rightarrow> mm_state \<Rightarrow> stop + mm_state" where
  "page_release pid vaddr pg_cnt s =
     rbind (page_release_loop (nat (sint pg_cnt)) pid vaddr s) (\<lambda>s1.
     rbind (with_v_lock (vaddr_release_st vaddr pg_cnt) s1) (\<lambda>(_, s2). Inr s2))"

text \<open>\<open>enum pool_flags\<close> is passed as an \<open>int\<close>: 1 is \<open>PF_KERNEL\<close>, 2 is \<open>PF_USER\<close>.\<close>

definition page_malloc :: "u32 \<Rightarrow> ptr \<Rightarrow> u32 \<Rightarrow> mm_state \<Rightarrow> stop + ptr \<times> mm_state" where
  "page_malloc pf vaddr pg_cnt s =
     (if pf = 1 then page_acquire K_P_POOL vaddr pg_cnt s else Inr (NULL, s))"

definition page_free :: "u32 \<Rightarrow> ptr \<Rightarrow> u32 \<Rightarrow> mm_state \<Rightarrow> stop + mm_state" where
  "page_free pf vaddr pg_cnt s =
     (if pf = 1 then page_release K_P_POOL vaddr pg_cnt s else Inr s)"

section \<open>Lock brackets\<close>

lemma with_v_lock_free:
  "v_mlock (k_v_pool s) = NULL \<Longrightarrow> with_v_lock body s =
    rbind (body (set_v_mlock (cur_task s) s)) (\<lambda>(r, s'). Inr (r, set_v_mlock NULL s'))"
  by (simp add: with_v_lock_def locked_def)

lemma with_p_lock_free:
  "p_mlock (pool_of pid s) = NULL \<Longrightarrow> with_p_lock pid body s =
    rbind (body (set_p_mlock pid (cur_task s) s)) (\<lambda>(r, s'). Inr (r, set_p_mlock pid NULL s'))"
  by (simp add: with_p_lock_def locked_def)

lemma with_pgtable_lock_free:
  "mlock_pgtable s = NULL \<Longrightarrow> with_pgtable_lock body s =
    rbind (body (s\<lparr>mlock_pgtable := cur_task s\<rparr>)) (\<lambda>(r, s'). Inr (r, s'\<lparr>mlock_pgtable := NULL\<rparr>))"
  by (simp add: with_pgtable_lock_def locked_def)

text \<open>The operations under a lock do not look at it.\<close>

lemma palloc_p_mlock [simp]: "palloc (pp\<lparr>p_mlock := t\<rparr>) m = palloc pp m"
  by (simp add: palloc_def split: prod.splits)

lemma pfree_p_mlock [simp]: "pfree (pp\<lparr>p_mlock := t\<rparr>) p m = pfree pp p m"
  by (simp add: pfree_def)

lemma vaddr_acquire_v_mlock [simp]: "vaddr_acquire (vp\<lparr>v_mlock := t\<rparr>) v n m = vaddr_acquire vp v n m"
  by (simp add: vaddr_acquire_def split: prod.splits)

lemma vaddr_release_v_mlock [simp]: "vaddr_release (vp\<lparr>v_mlock := t\<rparr>) v n m = vaddr_release vp v n m"
  by (simp add: vaddr_release_def)

definition unlocked :: "mm_state \<Rightarrow> bool" where
  "unlocked s \<longleftrightarrow> v_mlock (k_v_pool s) = NULL \<and> p_mlock (k_p_pool s) = NULL \<and> mlock_pgtable s = NULL"

lemma palloc_locked:
  assumes "unlocked s"
  shows "with_p_lock K_P_POOL (palloc_st K_P_POOL) s =
    Inr (fst (palloc (k_p_pool s) (kmem s)), s\<lparr>kmem := snd (palloc (k_p_pool s) (kmem s))\<rparr>)"
  using assms by (simp add: unlocked_def with_p_lock_free palloc_st_def split: prod.splits)

lemma page_table_add_locked:
  assumes "unlocked s" and "page_table_add (k_p_pool s) v p (kmem s, kmmu s) = Inr (m, u)"
  shows "with_pgtable_lock (page_table_add_st v p) s = Inr ((), s\<lparr>kmem := m, kmmu := u\<rparr>)"
  using assms by (simp add: unlocked_def with_pgtable_lock_free page_table_add_st_def)

lemma vaddr_acquire_locked:
  assumes "unlocked s"
  shows "with_v_lock (vaddr_acquire_st v n) s =
    Inr (fst (vaddr_acquire (k_v_pool s) v n (kmem s)),
      s\<lparr>kmem := snd (vaddr_acquire (k_v_pool s) v n (kmem s))\<rparr>)"
  using assms
  by (simp add: unlocked_def with_v_lock_free vaddr_acquire_st_def set_v_mlock_def split: prod.splits)

section \<open>The invariant of the kernel pools\<close>

definition heap_addr :: "u32 \<Rightarrow> bool" where
  "heap_addr w \<longleftrightarrow> K_HEAP_START \<le> w \<and> w < 0xffc00000"

lemma heap_not_window: "heap_addr w \<Longrightarrow> \<not> in_window w"
proof
  assume h: "heap_addr w" and "in_window w"
  then have "unat (drop_bit 22 w) = 0x3ff" by (simp add: in_window_def)
  then have "unat w div 0x400000 = 0x3ff" by (simp add: drop_bit_eq_div unat_div)
  then have "0xffc00000 \<le> unat w" by linarith
  then show False using h by (simp add: heap_addr_def word_less_nat_alt)
qed

text \<open>
  Geometry that never changes: the directory is well formed, the tables of the heap are all
  present and not shared among heap addresses, the frames of the pool are page aligned and hold no
  table, and the storage of the two bitmaps is disjoint.
\<close>

definition mm_shape :: "mm_state \<Rightarrow> bool" where
  "mm_shape s \<longleftrightarrow> unlocked s \<and> mmu_ok (kmmu s) \<and>
     (\<forall>w. heap_addr w \<longrightarrow> pde_present (kmmu s) w) \<and>
     (\<forall>v w. heap_addr v \<longrightarrow> heap_addr w \<longrightarrow> table (kmmu s) v = table (kmmu s) w \<longrightarrow> dir_idx v = dir_idx w) \<and>
     pool_ok (k_p_pool s) \<and> capacity (vaddr_bitmap (k_v_pool s)) < 2 ^ 31 \<and>
     vaddr_start (k_v_pool s) = K_HEAP_START \<and>
     page_of (paddr_start (k_p_pool s)) = paddr_start (k_p_pool s) \<and> paddr_start (k_p_pool s) \<noteq> 0 \<and>
     unat (paddr_start (k_p_pool s)) + capacity (paddr_bitmap (k_p_pool s)) * 4096 < 2 ^ 32 \<and>
     (\<forall>i < capacity (paddr_bitmap (k_p_pool s)). \<forall>j < capacity (vaddr_bitmap (k_v_pool s)).
       bits (paddr_bitmap (k_p_pool s)) + of_nat i div 8 \<noteq> bits (vaddr_bitmap (k_v_pool s)) + of_nat j div 8)"

text \<open>Virtual pages in use and frames in use, as bit sets.\<close>

definition vpages :: "mm_state \<Rightarrow> nat set" where
  "vpages s = taken_bits (vaddr_bitmap (k_v_pool s), kmem s)"

definition pframes :: "mm_state \<Rightarrow> nat set" where
  "pframes s = taken_bits (paddr_bitmap (k_p_pool s), kmem s)"

definition heap_page :: "nat \<Rightarrow> u32" where
  "heap_page k = K_HEAP_START + of_nat k * PG_SIZE"

definition kframe :: "mm_state \<Rightarrow> nat \<Rightarrow> u32" where
  "kframe s i = frame_of (k_p_pool s) (of_nat i)"

text \<open>
  The state in which pages come and go: a heap page that is not in use is not mapped, a mapped
  heap page has a frame in use, and no frame backs two pages.
\<close>

definition mapping :: "mm_state \<Rightarrow> nat \<Rightarrow> u32 option" where
  "mapping s k = walk (kmmu s) (heap_page k)"

definition HEAP_PAGES :: nat where "HEAP_PAGES = 0x3FB00"

definition mm_ok :: "mm_state \<Rightarrow> bool" where
  "mm_ok s \<longleftrightarrow> mm_shape s \<and>
     (\<forall>k < HEAP_PAGES. k \<notin> vpages s \<longrightarrow> mapping s k = None) \<and>
     (\<forall>k < HEAP_PAGES. \<forall>i < capacity (paddr_bitmap (k_p_pool s)).
       mapping s k = Some (kframe s i) \<longrightarrow> i \<in> pframes s) \<and>
     (\<forall>k < HEAP_PAGES. \<forall>l < HEAP_PAGES. \<forall>i < capacity (paddr_bitmap (k_p_pool s)).
       mapping s k = Some (kframe s i) \<longrightarrow> mapping s l = Some (kframe s i) \<longrightarrow> k = l)"

lemma mm_okD:
  assumes "mm_ok s"
  shows "mm_shape s" "k < HEAP_PAGES \<Longrightarrow> k \<notin> vpages s \<Longrightarrow> mapping s k = None"
    "k < HEAP_PAGES \<Longrightarrow> i < capacity (paddr_bitmap (k_p_pool s)) \<Longrightarrow>
      mapping s k = Some (kframe s i) \<Longrightarrow> i \<in> pframes s"
    "k < HEAP_PAGES \<Longrightarrow> l < HEAP_PAGES \<Longrightarrow> i < capacity (paddr_bitmap (k_p_pool s)) \<Longrightarrow>
      mapping s k = Some (kframe s i) \<Longrightarrow> mapping s l = Some (kframe s i) \<Longrightarrow> k = l"
  using assms unfolding mm_ok_def by blast+

lemma heap_page_unat: "k < HEAP_PAGES \<Longrightarrow> unat (heap_page k) = 0xC0100000 + k * 4096"
proof -
  assume k: "k < HEAP_PAGES"
  have "unat (of_nat k * PG_SIZE :: u32) = k * 4096"
    using k by (subst unat_mult_small) (simp_all add: HEAP_PAGES_def PG_SIZE_def unat_of_nat_less)
  then show ?thesis
    using k unfolding heap_page_def by (subst unat_add_small) (simp_all add: HEAP_PAGES_def K_HEAP_START_def)
qed

lemma heap_page_addr: "k < HEAP_PAGES \<Longrightarrow> heap_addr (heap_page k)"
  using heap_page_unat [of k]
  by (simp add: heap_addr_def word_le_nat_alt word_less_nat_alt K_HEAP_START_def HEAP_PAGES_def)

lemma heap_page_Suc: "heap_page k + PG_SIZE = heap_page (Suc k)"
  by (simp add: heap_page_def algebra_simps)

lemma page_of_unat: "unat (page_of v) = unat v div 4096 * 4096"
proof -
  have "page_of v = push_bit 12 (drop_bit 12 v)"
    by (rule bit_word_eqI) (auto simp: bit_page_of bit_simps)
  then have "page_of v = v div 4096 * 4096" by (simp add: push_bit_eq_mult drop_bit_eq_div)
  moreover have "unat (v div 4096) = unat v div 4096" by (simp add: unat_div)
  moreover have "unat v div 4096 * 4096 < 2 ^ 32" using unat_le_4G [of v] by simp
  ultimately show ?thesis by (simp add: unat_mult_small)
qed

lemma heap_page_aligned: "k < HEAP_PAGES \<Longrightarrow> page_of (heap_page k) = heap_page k"
proof -
  assume "k < HEAP_PAGES"
  then have "unat (page_of (heap_page k)) = unat (heap_page k)"
    by (simp add: page_of_unat heap_page_unat)
  then show ?thesis by (rule unsigned_word_eqI)
qed

lemma heap_page_inj: "k < HEAP_PAGES \<Longrightarrow> l < HEAP_PAGES \<Longrightarrow> heap_page k = heap_page l \<longleftrightarrow> k = l"
  using heap_page_unat by (metis add_left_cancel mult_right_cancel zero_neq_numeral)

lemma page_offset_aligned: "page_of f = f \<Longrightarrow> page_offset f = 0"
proof -
  assume "page_of f = f"
  then have "bit f n \<Longrightarrow> 12 \<le> n" for n using bit_page_of by metis
  then show ?thesis by (intro bit_word_eqI) (auto simp: bit_page_offset dest: leD)
qed

section \<open>Frames of the kernel pool\<close>

lemma mm_shapeD:
  assumes "mm_shape s"
  shows "unlocked s" "mmu_ok (kmmu s)" "heap_addr w \<Longrightarrow> pde_present (kmmu s) w"
    "heap_addr v \<Longrightarrow> heap_addr w \<Longrightarrow> table (kmmu s) v = table (kmmu s) w \<Longrightarrow> dir_idx v = dir_idx w"
    "pool_ok (k_p_pool s)" "capacity (vaddr_bitmap (k_v_pool s)) < 2 ^ 31"
    "vaddr_start (k_v_pool s) = K_HEAP_START"
    "page_of (paddr_start (k_p_pool s)) = paddr_start (k_p_pool s)" "paddr_start (k_p_pool s) \<noteq> 0"
    "unat (paddr_start (k_p_pool s)) + capacity (paddr_bitmap (k_p_pool s)) * 4096 < 2 ^ 32"
    "i < capacity (paddr_bitmap (k_p_pool s)) \<Longrightarrow> j < capacity (vaddr_bitmap (k_v_pool s)) \<Longrightarrow>
       bits (paddr_bitmap (k_p_pool s)) + of_nat i div 8 \<noteq> bits (vaddr_bitmap (k_v_pool s)) + of_nat j div 8"
  using assms unfolding mm_shape_def by blast+

abbreviation kcap :: "mm_state \<Rightarrow> nat" where
  "kcap s \<equiv> capacity (paddr_bitmap (k_p_pool s))"

lemma kframe_unat:
  "mm_shape s \<Longrightarrow> i < kcap s \<Longrightarrow> unat (kframe s i) = unat (paddr_start (k_p_pool s)) + i * 4096"
  unfolding kframe_def using mm_shapeD(10) frame_of_bounds by blast

lemma kframe_aligned:
  assumes "mm_shape s" "i < kcap s"
  shows "page_of (kframe s i) = kframe s i"
proof -
  let ?a = "unat (paddr_start (k_p_pool s))"
  have "?a div 4096 * 4096 = ?a" using page_of_unat mm_shapeD(8) [OF assms(1)] by metis
  then obtain q where "?a = q * 4096" by metis
  then have "unat (page_of (kframe s i)) = unat (kframe s i)"
    by (simp add: page_of_unat kframe_unat [OF assms])
  then show ?thesis by (rule unsigned_word_eqI)
qed

lemma kframe_inj: "mm_shape s \<Longrightarrow> i < kcap s \<Longrightarrow> j < kcap s \<Longrightarrow> kframe s i = kframe s j \<longleftrightarrow> i = j"
  using kframe_unat by (metis add_left_cancel mult_right_cancel zero_neq_numeral)

lemma kframe_not_null: "mm_shape s \<Longrightarrow> i < kcap s \<Longrightarrow> kframe s i \<noteq> 0"
  using kframe_unat [of s i] mm_shapeD(9) [of s] by (auto simp: unat_eq_zero)

text \<open>\<open>palloc\<close> on the kernel pool takes the least free frame.\<close>

definition least_free :: "mm_state \<Rightarrow> nat option" where
  "least_free s = first_fit (paddr_bitmap (k_p_pool s)) (kmem s) 1"

lemma least_free_Some:
  "least_free s = Some i \<Longrightarrow> i < kcap s \<and> i \<notin> pframes s"
  unfolding least_free_def first_fit_Some run_free_1
  by (simp add: pframes_def taken_bits_def bit_free_def)

lemma least_free_None: "least_free s = None \<longleftrightarrow> pframes s = {..<kcap s}"
  unfolding least_free_def first_fit_None [OF zero_less_one] run_free_1
  by (auto simp: pframes_def taken_bits_def bit_free_def)

lemma palloc_least:
  "mm_shape s \<Longrightarrow> palloc (k_p_pool s) (kmem s) = (case least_free s of
     None \<Rightarrow> (NULL, kmem s)
   | Some i \<Rightarrow> (kframe s i, bitmap_set (paddr_bitmap (k_p_pool s)) (of_nat i) True (kmem s)))"
  unfolding least_free_def kframe_def using mm_shapeD(5) palloc_frame by blast

lemma taken_set_bit:
  assumes "capacity b < 2 ^ 31" "i < capacity b"
  shows "taken_bits (b, bitmap_set b (of_nat i) v m) =
    (if v then insert i (taken_bits (b, m)) else taken_bits (b, m) - {i})"
  using taken_set_run [of b i 1 v m] assms by simp

text \<open>A bit of one bitmap does not show in the other.\<close>

lemma vpages_set_frame:
  assumes "mm_shape s" "i < kcap s"
  shows "taken_bits (vaddr_bitmap (k_v_pool s), bitmap_set (paddr_bitmap (k_p_pool s)) (of_nat i) v m) =
    taken_bits (vaddr_bitmap (k_v_pool s), m)"
proof -
  have "bitmap_check (vaddr_bitmap (k_v_pool s)) (of_nat j)
      (bitmap_set (paddr_bitmap (k_p_pool s)) (of_nat i) v m) =
      bitmap_check (vaddr_bitmap (k_v_pool s)) (of_nat j) m"
    if "j < capacity (vaddr_bitmap (k_v_pool s))" for j
    using mm_shapeD(11) [OF assms that] by (intro bitmap_check_cong bitmap_set_other) metis
  then show ?thesis by (auto simp: taken_bits_def)
qed

section \<open>Acquiring one page\<close>

lemma same_entry_heap:
  assumes "mm_shape s" "k < HEAP_PAGES" "l < HEAP_PAGES"
  shows "same_entry (kmmu s) (heap_page k) (heap_page l) \<longleftrightarrow> l = k"
proof
  assume "same_entry (kmmu s) (heap_page k) (heap_page l)"
  then have t: "table (kmmu s) (heap_page l) = table (kmmu s) (heap_page k)"
      "tab_idx (heap_page l) = tab_idx (heap_page k)"
    by (simp_all add: same_entry_def)
  have "dir_idx (heap_page l) = dir_idx (heap_page k)"
    using mm_shapeD(4) [OF assms(1)] t(1) heap_page_addr assms(2,3) by blast
  then have "page_of (heap_page l) = page_of (heap_page k)" using t(2) by (simp add: same_page_iff)
  then show "l = k" using assms(2,3) by (simp add: heap_page_aligned heap_page_inj)
next
  assume "l = k"
  then show "same_entry (kmmu s) (heap_page k) (heap_page l)"
    using mm_shapeD(3) [OF assms(1) heap_page_addr] assms(2) by (simp add: same_entry_def)
qed

text \<open>A change of bits and of table entries keeps the geometry.\<close>

lemma mm_shape_update:
  assumes sh: "mm_shape s" and ok: "mmu_ok u"
    and same: "\<And>w. pde_present u w = pde_present (kmmu s) w \<and> table u w = table (kmmu s) w"
  shows "mm_shape (s\<lparr>kmem := m, kmmu := u\<rparr>)"
proof -
  define s' where "s' = s\<lparr>kmem := m, kmmu := u\<rparr>"
  have fields: "kmmu s' = u" "k_p_pool s' = k_p_pool s" "k_v_pool s' = k_v_pool s"
      "pde_present u = pde_present (kmmu s)" "table u = table (kmmu s)"
    using same by (auto simp: s'_def)
  have "unlocked s'" using mm_shapeD(1) [OF sh] by (simp add: unlocked_def s'_def)
  then have "mm_shape s'" using sh ok unfolding mm_shape_def fields by blast
  then show ?thesis by (simp add: s'_def)
qed

text \<open>Of the kernel's memory, only the bytes of the two bitmaps change.\<close>

definition pool_bytes :: "mm_state \<Rightarrow> ptr set" where
  "pool_bytes s = (\<lambda>i. bits (paddr_bitmap (k_p_pool s)) + of_nat i div 8) ` {..<kcap s} \<union>
     (\<lambda>i. bits (vaddr_bitmap (k_v_pool s)) + of_nat i div 8) ` {..<capacity (vaddr_bitmap (k_v_pool s))}"

definition pool_only :: "mm_state \<Rightarrow> mm_state \<Rightarrow> bool" where
  "pool_only s s' \<longleftrightarrow> cur_task s' = cur_task s \<and> (\<forall>a. a \<notin> pool_bytes s \<longrightarrow> kmem s' a = kmem s a)"

lemma pool_only_refl: "pool_only s s"
  by (simp add: pool_only_def)

lemma pool_only_trans:
  "pool_only s t \<Longrightarrow> pool_only t u \<Longrightarrow> k_p_pool t = k_p_pool s \<Longrightarrow> k_v_pool t = k_v_pool s \<Longrightarrow> pool_only s u"
  by (simp add: pool_only_def pool_bytes_def)

lemma bitmap_set_at: "a \<noteq> bits b + i div 8 \<Longrightarrow> bitmap_set b i v m a = m a"
  by (simp add: bitmap_set_def Let_def)

lemma acquire_step:
  assumes ok: "mm_ok s" and k: "k < HEAP_PAGES" "k \<in> vpages s" and i: "least_free s = Some i"
  shows "\<exists>s1. (\<forall>n. page_acquire_loop (Suc n) K_P_POOL (heap_page k) s =
      page_acquire_loop n K_P_POOL (heap_page (Suc k)) s1) \<and> mm_ok s1 \<and>
    k_p_pool s1 = k_p_pool s \<and> k_v_pool s1 = k_v_pool s \<and> vpages s1 = vpages s \<and>
    pframes s1 = insert i (pframes s) \<and>
    (\<forall>l<HEAP_PAGES. mapping s1 l = (if l = k then Some (kframe s i) else mapping s l)) \<and> pool_only s s1"
proof -
  have sh: "mm_shape s" using ok by (simp add: mm_ok_def)
  have icap: "i < kcap s" "i \<notin> pframes s" using least_free_Some [OF i] by simp_all
  let ?f = "kframe s i" and ?m = "bitmap_set (paddr_bitmap (k_p_pool s)) (of_nat i) True (kmem s)"
  let ?s = "s\<lparr>kmem := ?m\<rparr>"
  have pal: "palloc (k_p_pool s) (kmem s) = (?f, ?m)" using palloc_least [OF sh] i by simp
  have pres: "pde_present (kmmu s) (heap_page k)"
    by (rule mm_shapeD(3) [OF sh heap_page_addr [OF k(1)]])
  then obtain m u where add: "page_table_add (k_p_pool s) (heap_page k) ?f (?m, kmmu s) = Inr (m, u)"
      "mmu_ok u" "m = fst (table_for (k_p_pool s) (heap_page k) (?m, kmmu s))"
      "\<forall>w. pde_present u w = pde_present (kmmu s) w \<and> table u w = table (kmmu s) w"
      "\<forall>w. \<not> in_window w \<longrightarrow>
        walk u w = (if same_entry u (heap_page k) w then Some (?f + page_offset w) else walk (kmmu s) w)"
    using page_table_add_maps_page [OF mm_shapeD(2) [OF sh] heap_not_window [OF heap_page_addr [OF k(1)]],
        of "k_p_pool s" ?m ?f] kframe_aligned [OF sh icap(1)]
    by blast
  have m: "m = ?m" using add(3) pres by (simp add: table_for_def)
  define s1 where "s1 = s\<lparr>kmem := ?m, kmmu := u\<rparr>"
  have sh1: "mm_shape s1" unfolding s1_def by (rule mm_shape_update [OF sh add(2)]) (use add(4) in blast)
  have un: "unlocked s" "unlocked ?s" using mm_shapeD(1) [OF sh] by (simp_all add: unlocked_def)
  have "with_pgtable_lock (page_table_add_st (heap_page k) ?f) ?s = Inr ((), s1)"
    using page_table_add_locked [OF un(2), of "heap_page k" ?f m u] add(1) m by (simp add: s1_def)
  then have loop: "page_acquire_loop (Suc n) K_P_POOL (heap_page k) s =
      page_acquire_loop n K_P_POOL (heap_page (Suc k)) s1" for n
    using kframe_not_null [OF sh icap(1)]
    by (simp add: palloc_locked [OF un(1)] pal heap_page_Suc)
  have vp: "vpages s1 = vpages s"
    using vpages_set_frame [OF sh icap(1), of True "kmem s"] by (simp add: vpages_def s1_def)
  have pf: "pframes s1 = insert i (pframes s)"
    using taken_set_bit [of "paddr_bitmap (k_p_pool s)" i True "kmem s"] icap(1) mm_shapeD(5) [OF sh]
    by (simp add: pframes_def s1_def pool_ok_def)
  have se: "same_entry u = same_entry (kmmu s)"
    using add(4) by (simp add: same_entry_def fun_eq_iff)
  have map: "mapping s1 l = (if l = k then Some ?f else mapping s l)" if l: "l < HEAP_PAGES" for l
    using add(5) heap_not_window [OF heap_page_addr [OF l]] same_entry_heap [OF sh k(1) l]
      page_offset_aligned [OF heap_page_aligned [OF k(1)]]
    by (simp add: mapping_def s1_def se)
  have kf: "kframe s1 j = kframe s j" "k_p_pool s1 = k_p_pool s" for j
    by (simp_all add: kframe_def s1_def)
  have "mm_ok s1"
    unfolding mm_ok_def
  proof (intro conjI allI impI)
    show "mm_shape s1" by (rule sh1)
    fix l assume l: "l < HEAP_PAGES"
    show "l \<notin> vpages s1 \<Longrightarrow> mapping s1 l = None"
      using ok l k(2) map [OF l] by (auto simp: vp mm_ok_def)
    fix j assume j: "j < kcap s1"
    show "mapping s1 l = Some (kframe s1 j) \<Longrightarrow> j \<in> pframes s1"
      using ok l j map [OF l] kframe_inj [OF sh icap(1), of j]
      by (auto simp: pf kf mm_ok_def split: if_splits)
    fix l' assume l': "l' < HEAP_PAGES"
    assume m: "mapping s1 l = Some (kframe s1 j)" "mapping s1 l' = Some (kframe s1 j)"
    have only: "mapping s x \<noteq> Some ?f" if "x < HEAP_PAGES" for x
      using mm_okD(3) [OF ok that icap(1)] icap(2) by blast
    show "l = l'"
    proof (cases "j = i")
      case True
      then show ?thesis
        using m map [OF l] map [OF l'] only [OF l] only [OF l'] by (auto simp: kf split: if_splits)
    next
      case False
      then have "?f \<noteq> kframe s j" using kframe_inj [OF sh icap(1), of j] j kf by simp
      then have "mapping s l = Some (kframe s j)" "mapping s l' = Some (kframe s j)"
        using m map [OF l] map [OF l'] by (auto simp: kf split: if_splits)
      then show ?thesis using mm_okD(4) [OF ok l l', of j] j kf by simp
    qed
  qed
  moreover have "?m a = kmem s a" if "a \<notin> pool_bytes s" for a
    using that icap(1) by (intro bitmap_set_at) (auto simp: pool_bytes_def)
  ultimately show ?thesis using loop vp pf map by (intro exI [of _ s1]) (simp add: s1_def pool_only_def)
qed

section \<open>Acquiring a run\<close>

definition free_frames :: "mm_state \<Rightarrow> nat" where
  "free_frames s = kcap s - card (pframes s)"

lemma pframes_sub: "pframes s \<subseteq> {..<kcap s}" "finite (pframes s)"
  by (auto simp: pframes_def taken_bits_def)

lemma free_frames_0: "free_frames s = 0 \<longleftrightarrow> pframes s = {..<kcap s}"
proof
  assume "free_frames s = 0"
  then have "kcap s \<le> card (pframes s)" by (simp add: free_frames_def)
  moreover have "card (pframes s) \<le> card {..<kcap s}" by (rule card_mono) (simp_all add: pframes_sub)
  ultimately have "card (pframes s) = card {..<kcap s}" by simp
  then show "pframes s = {..<kcap s}" by (intro card_subset_eq) (simp_all add: pframes_sub)
qed (simp add: free_frames_def)

lemma free_frames_insert:
  assumes "k_p_pool s1 = k_p_pool s" "pframes s1 = insert i (pframes s)" "i \<notin> pframes s"
  shows "free_frames s1 = free_frames s - 1"
  using assms pframes_sub(2) [of s] by (simp add: free_frames_def)

text \<open>What a loop that got \<open>c\<close> frames leaves behind.\<close>

definition acquired :: "nat \<Rightarrow> nat \<Rightarrow> mm_state \<Rightarrow> mm_state \<Rightarrow> nat list \<Rightarrow> bool" where
  "acquired k c s s' fs \<longleftrightarrow> mm_ok s' \<and> k_p_pool s' = k_p_pool s \<and> k_v_pool s' = k_v_pool s \<and>
     vpages s' = vpages s \<and> distinct fs \<and> length fs = c \<and> set fs \<inter> pframes s = {} \<and>
     set fs \<subseteq> {..<kcap s} \<and> pframes s' = pframes s \<union> set fs \<and>
     (\<forall>l<HEAP_PAGES. mapping s' l =
        (if k \<le> l \<and> l < k + c then Some (kframe s (fs ! (l - k))) else mapping s l)) \<and> pool_only s s'"

lemma acquired_0: "mm_ok s \<Longrightarrow> acquired k 0 s s []"
  by (auto simp: acquired_def pool_only_refl)

lemma acquired_Suc:
  assumes "acquired (Suc k) c s1 s' fs"
    and "k_p_pool s1 = k_p_pool s" "k_v_pool s1 = k_v_pool s" "vpages s1 = vpages s"
    and "pframes s1 = insert i (pframes s)" "i < kcap s" "i \<notin> pframes s"
    and "\<forall>l<HEAP_PAGES. mapping s1 l = (if l = k then Some (kframe s i) else mapping s l)" and "pool_only s s1"
  shows "acquired k (Suc c) s s' (i # fs)"
proof -
  have kf: "kframe s1 j = kframe s j" for j using assms(2) by (simp add: kframe_def)
  have "mapping s' l = (if k \<le> l \<and> l < k + Suc c then Some (kframe s ((i # fs) ! (l - k))) else mapping s l)"
    if "l < HEAP_PAGES" for l
    using that assms(1,8) by (cases "l = k") (auto simp: acquired_def kf nth_Cons')
  moreover have "pool_only s s'" using pool_only_trans [OF assms(9) _ assms(2,3)] assms(1) by (simp add: acquired_def)
  ultimately show ?thesis using assms(1-8) by (auto simp: acquired_def)
qed

lemma acquire_loop:
  "mm_ok s \<Longrightarrow> k + n \<le> HEAP_PAGES \<Longrightarrow> {k..<k + n} \<subseteq> vpages s \<Longrightarrow>
   \<exists>s' fs. page_acquire_loop n K_P_POOL (heap_page k) s = Inr (n \<le> free_frames s, s') \<and>
     acquired k (min n (free_frames s)) s s' fs"
proof (induction n arbitrary: k s)
  case 0
  then show ?case using acquired_0 by fastforce
next
  case (Suc n)
  have sh: "mm_shape s" by (rule mm_okD(1) [OF Suc.prems(1)])
  show ?case
  proof (cases "least_free s")
    case None
    then have "free_frames s = 0" by (simp add: least_free_None free_frames_0)
    moreover have "page_acquire_loop (Suc n) K_P_POOL (heap_page k) s = Inr (False, s)"
      using None by (simp add: palloc_locked [OF mm_shapeD(1) [OF sh]] palloc_least [OF sh])
    ultimately show ?thesis using acquired_0 [OF Suc.prems(1)] by fastforce
  next
    case (Some i)
    have k: "k < HEAP_PAGES" "k \<in> vpages s" using Suc.prems(2,3) by auto
    obtain s1 where s1: "\<forall>n. page_acquire_loop (Suc n) K_P_POOL (heap_page k) s =
          page_acquire_loop n K_P_POOL (heap_page (Suc k)) s1" "mm_ok s1"
        "k_p_pool s1 = k_p_pool s" "k_v_pool s1 = k_v_pool s" "vpages s1 = vpages s"
        "pframes s1 = insert i (pframes s)"
        "\<forall>l<HEAP_PAGES. mapping s1 l = (if l = k then Some (kframe s i) else mapping s l)" "pool_only s s1"
      using acquire_step [OF Suc.prems(1) k Some] by blast
    have i: "i < kcap s" "i \<notin> pframes s" using least_free_Some [OF Some] by simp_all
    have fr: "free_frames s1 = free_frames s - 1" "0 < free_frames s"
      using free_frames_insert [OF s1(3,6) i(2)] free_frames_0 [of s] i by auto
    have "{Suc k..<Suc k + n} \<subseteq> vpages s1" using Suc.prems(3) s1(5) by auto
    then obtain s' fs where IH: "page_acquire_loop n K_P_POOL (heap_page (Suc k)) s1 =
          Inr (n \<le> free_frames s1, s')" "acquired (Suc k) (min n (free_frames s1)) s1 s' fs"
      using Suc.IH [OF s1(2), of "Suc k"] Suc.prems(2) by auto
    have "acquired k (Suc (min n (free_frames s1))) s s' (i # fs)"
      by (rule acquired_Suc [OF IH(2) s1(3-6) i s1(7,8)])
    moreover have "Suc (min n (free_frames s1)) = min (Suc n) (free_frames s)" using fr by simp
    moreover have "n \<le> free_frames s1 \<longleftrightarrow> Suc n \<le> free_frames s" using fr by auto
    ultimately show ?thesis using IH(1) s1(1) by fastforce
  qed
qed

section \<open>Marking and clearing the run\<close>

definition v_run :: "nat \<Rightarrow> nat \<Rightarrow> bool \<Rightarrow> mm_state \<Rightarrow> mm_state" where
  "v_run k n v s = s\<lparr>kmem := bitmap_set_run n (vaddr_bitmap (k_v_pool s)) (of_nat k) v (kmem s)\<rparr>"

lemma v_run_fields [simp]:
  "k_p_pool (v_run k n v s) = k_p_pool s" "k_v_pool (v_run k n v s) = k_v_pool s"
  "mapping (v_run k n v s) = mapping s" "kframe (v_run k n v s) = kframe s"
  "kmmu (v_run k n v s) = kmmu s"
  by (simp_all add: v_run_def mapping_def kframe_def fun_eq_iff)

lemma v_run_sets:
  assumes sh: "mm_shape s" and fits: "k + n \<le> capacity (vaddr_bitmap (k_v_pool s))"
  shows "vpages (v_run k n v s) = (if v then vpages s \<union> {k..<k + n} else vpages s - {k..<k + n})"
    and "pframes (v_run k n v s) = pframes s" and "mm_shape (v_run k n v s)"
proof -
  let ?vb = "vaddr_bitmap (k_v_pool s)" and ?pb = "paddr_bitmap (k_p_pool s)"
  show "vpages (v_run k n v s) = (if v then vpages s \<union> {k..<k + n} else vpages s - {k..<k + n})"
    using taken_set_run [OF mm_shapeD(6) [OF sh] fits] by (simp add: vpages_def v_run_def)
  have "bitmap_check ?pb (of_nat i) (bitmap_set_run n ?vb (of_nat k) v (kmem s)) =
      bitmap_check ?pb (of_nat i) (kmem s)" if "i < kcap s" for i
  proof (intro bitmap_check_cong bitmap_set_run_other)
    fix j assume "j < n"
    then show "bits ?pb + of_nat i div 8 \<noteq> bits ?vb + (of_nat k + of_nat j) div 8"
      using mm_shapeD(11) [OF sh that, of "k + j"] fits by simp
  qed
  then show "pframes (v_run k n v s) = pframes s" by (auto simp: pframes_def v_run_def taken_bits_def)
  show "mm_shape (v_run k n v s)"
    using mm_shape_update [OF sh mm_shapeD(2) [OF sh], of "kmem (v_run k n v s)"]
    by (simp add: v_run_def)
qed

lemma v_run_only: "k + n \<le> capacity (vaddr_bitmap (k_v_pool s)) \<Longrightarrow> pool_only s (v_run k n v s)"
proof -
  assume fits: "k + n \<le> capacity (vaddr_bitmap (k_v_pool s))"
  have "bitmap_set_run n (vaddr_bitmap (k_v_pool s)) (of_nat k) v (kmem s) a = kmem s a" if "a \<notin> pool_bytes s" for a
  proof (rule bitmap_set_run_other)
    fix j assume "j < n"
    then have "k + j < capacity (vaddr_bitmap (k_v_pool s))" using fits by simp
    then show "a \<noteq> bits (vaddr_bitmap (k_v_pool s)) + (of_nat k + of_nat j) div 8"
      using that unfolding pool_bytes_def of_nat_add [symmetric] by blast
  qed
  then show ?thesis by (simp add: pool_only_def v_run_def)
qed

text \<open>The allocator does not look at other memory.\<close>

lemma mm_ok_kmem:
  assumes "mm_ok s" and "\<And>a. a \<in> pool_bytes s \<Longrightarrow> m a = kmem s a"
  shows "mm_ok (s\<lparr>kmem := m\<rparr>)" and "vpages (s\<lparr>kmem := m\<rparr>) = vpages s" and "pframes (s\<lparr>kmem := m\<rparr>) = pframes s"
proof -
  let ?s = "s\<lparr>kmem := m\<rparr>"
  have "bitmap_check (vaddr_bitmap (k_v_pool s)) (of_nat i) m = bitmap_check (vaddr_bitmap (k_v_pool s)) (of_nat i) (kmem s)"
    if "i < capacity (vaddr_bitmap (k_v_pool s))" for i
    using that by (intro bitmap_check_cong assms(2)) (auto simp: pool_bytes_def)
  then show v: "vpages ?s = vpages s" by (auto simp: vpages_def taken_bits_def)
  have "bitmap_check (paddr_bitmap (k_p_pool s)) (of_nat i) m = bitmap_check (paddr_bitmap (k_p_pool s)) (of_nat i) (kmem s)"
    if "i < kcap s" for i
    using that by (intro bitmap_check_cong assms(2)) (auto simp: pool_bytes_def)
  then show p: "pframes ?s = pframes s" by (auto simp: pframes_def taken_bits_def)
  have "mm_shape ?s" using mm_shape_update [OF mm_okD(1) [OF assms(1)] mm_shapeD(2) [OF mm_okD(1) [OF assms(1)]], of m] by simp
  then show "mm_ok ?s" using assms(1) unfolding mm_ok_def v p by (simp add: mapping_def kframe_def)
qed

lemma mm_okI:
  assumes "mm_shape s"
    and "\<And>k. k < HEAP_PAGES \<Longrightarrow> k \<notin> vpages s \<Longrightarrow> mapping s k = None"
    and "\<And>k i. k < HEAP_PAGES \<Longrightarrow> i < kcap s \<Longrightarrow> mapping s k = Some (kframe s i) \<Longrightarrow> i \<in> pframes s"
    and "\<And>k l i. k < HEAP_PAGES \<Longrightarrow> l < HEAP_PAGES \<Longrightarrow> i < kcap s \<Longrightarrow>
      mapping s k = Some (kframe s i) \<Longrightarrow> mapping s l = Some (kframe s i) \<Longrightarrow> k = l"
  shows "mm_ok s"
  unfolding mm_ok_def using assms by blast

lemma v_run_set_ok:
  assumes ok: "mm_ok s" and fits: "k + n \<le> capacity (vaddr_bitmap (k_v_pool s))"
  shows "mm_ok (v_run k n True s)"
proof -
  note sets = v_run_sets [OF mm_okD(1) [OF ok] fits, of True]
  show ?thesis
    by (rule mm_okI) (use sets mm_okD [OF ok] in auto)
qed

lemma v_run_clear_ok:
  assumes ok: "mm_ok s" and fits: "k + n \<le> capacity (vaddr_bitmap (k_v_pool s))"
    and un: "\<And>l. k \<le> l \<Longrightarrow> l < k + n \<Longrightarrow> l < HEAP_PAGES \<Longrightarrow> mapping s l = None"
  shows "mm_ok (v_run k n False s)"
proof -
  note sets = v_run_sets [OF mm_okD(1) [OF ok] fits, of False]
  show ?thesis
    by (rule mm_okI) (use sets mm_okD [OF ok] un in auto)
qed

section \<open>\<open>page_acquire\<close>\<close>

definition first_vrun :: "mm_state \<Rightarrow> u32 \<Rightarrow> nat option" where
  "first_vrun s cnt = first_fit (vaddr_bitmap (k_v_pool s)) (kmem s) (unat cnt)"

lemma first_vrun_fits:
  "first_vrun s cnt = Some k \<Longrightarrow> k + unat cnt \<le> capacity (vaddr_bitmap (k_v_pool s))"
  "first_vrun s cnt = Some k \<Longrightarrow> {k..<k + unat cnt} \<inter> vpages s = {}"
  by (auto simp: first_vrun_def first_fit_Some run_free_iff vpages_def taken_bits_def bit_free_def)

lemma heap_page_not_null: "k < HEAP_PAGES \<Longrightarrow> heap_page k \<noteq> NULL"
  using heap_page_unat [of k] by (auto simp: unat_eq_zero)

lemma page_acquire_none:
  assumes "mm_ok s" "0 < sint cnt" "first_vrun s cnt = None"
  shows "page_acquire pid NULL cnt s = Inr (NULL, s)"
proof -
  note sh = mm_okD(1) [OF assms(1)]
  have "vaddr_acquire (k_v_pool s) NULL cnt (kmem s) = (NULL, kmem s)"
    using vaddr_acquire_auto [OF mm_shapeD(6) [OF sh], of cnt "kmem s"] sint_pos_nat [OF assms(2)]
      assms(3) by (simp add: first_vrun_def)
  then show ?thesis
    by (simp add: page_acquire_def vaddr_acquire_locked [OF mm_shapeD(1) [OF sh]])
qed

lemma page_acquire_run:
  assumes ok: "mm_ok s" and pos: "0 < sint cnt" and k: "first_vrun s cnt = Some k"
    and below: "k + unat cnt \<le> HEAP_PAGES"
  shows "\<exists>s' fs. page_acquire K_P_POOL NULL cnt s =
      Inr (if unat cnt \<le> free_frames s then heap_page k else NULL, s') \<and>
    vpages s' = vpages s \<union> {k..<k + unat cnt} \<and>
    acquired k (min (unat cnt) (free_frames s)) (v_run k (unat cnt) True s) s' fs"
proof -
  note sh = mm_okD(1) [OF ok]
  let ?s = "v_run k (unat cnt) True s"
  have n: "nat (sint cnt) = unat cnt" "0 < cnt" using sint_pos_nat [OF pos] by simp_all
  have "k < HEAP_PAGES" using below n(2) by (simp add: word_less_nat_alt)
  note fits = first_vrun_fits(1) [OF k]
  have "vaddr_acquire (k_v_pool s) NULL cnt (kmem s) = (heap_page k, kmem ?s)"
    using vaddr_acquire_auto [OF mm_shapeD(6) [OF sh] n(2), of "kmem s"] k
    by (simp add: first_vrun_def heap_page_def mm_shapeD(7) [OF sh] v_run_def)
  then have acq: "with_v_lock (vaddr_acquire_st NULL cnt) s = Inr (heap_page k, ?s)"
    by (simp add: vaddr_acquire_locked [OF mm_shapeD(1) [OF sh]]) (simp add: v_run_def)
  have vp: "vpages ?s = vpages s \<union> {k..<k + unat cnt}"
    using v_run_sets(1) [OF sh fits, of True] by simp
  have fr: "free_frames ?s = free_frames s"
    using v_run_sets(2) [OF sh fits, of True] by (simp add: free_frames_def)
  obtain s' fs where "page_acquire_loop (unat cnt) K_P_POOL (heap_page k) ?s =
        Inr (unat cnt \<le> free_frames s, s')"
      "acquired k (min (unat cnt) (free_frames s)) ?s s' fs"
    using acquire_loop [OF v_run_set_ok [OF ok fits] below] vp fr by auto
  then show ?thesis
    using heap_page_not_null [OF \<open>k < HEAP_PAGES\<close>] vp
    by (auto simp: page_acquire_def acq n(1) acquired_def)
qed

section \<open>\<open>page_release\<close>\<close>

lemma release_step:
  assumes ok: "mm_ok s" and k: "k < HEAP_PAGES" and i: "i < kcap s"
    and map: "mapping s k = Some (kframe s i)"
  shows "\<exists>s1. (\<forall>n. page_release_loop (Suc n) K_P_POOL (heap_page k) s =
      page_release_loop n K_P_POOL (heap_page (Suc k)) s1) \<and> mm_ok s1 \<and>
    k_p_pool s1 = k_p_pool s \<and> k_v_pool s1 = k_v_pool s \<and> vpages s1 = vpages s \<and>
    pframes s1 = pframes s - {i} \<and>
    (\<forall>l<HEAP_PAGES. mapping s1 l = (if l = k then None else mapping s l))"
proof -
  note sh = mm_okD(1) [OF ok]
  let ?f = "kframe s i" and ?m = "bitmap_set (paddr_bitmap (k_p_pool s)) (of_nat i) False (kmem s)"
  have used: "i \<in> pframes s" using mm_okD(3) [OF ok k i map] .
  have self: "self_mapped (kmmu s)" using mm_shapeD(2) [OF sh] by (simp add: mmu_ok_def)
  have v2p: "addr_v2p (kmmu s) (heap_page k) = Inr ?f"
    using addr_v2p_walk [OF self] map by (simp add: mapping_def)
  have i20: "i < 2 ^ 20" using i mm_shapeD(5) [OF sh] by (simp add: pool_ok_def)
  then have "pfree (k_p_pool s) ?f (kmem s) = Inr ?m"
    using pfree_frame [of "of_nat i" "k_p_pool s" "kmem s"] used
    by (simp add: kframe_def unat_of_nat_less pframes_def taken_bits_def)
  then have free: "with_p_lock K_P_POOL (pfree_st K_P_POOL ?f) s = Inr ((), s\<lparr>kmem := ?m\<rparr>)"
    using mm_shapeD(1) [OF sh] by (simp add: with_p_lock_free unlocked_def pfree_st_def)
  obtain u where u: "page_table_remove (arg_slot s) (heap_page k) (kmmu s) = Inr u" "mmu_ok u"
      "\<forall>w. walk u w = (if same_entry (kmmu s) (heap_page k) w then None else walk (kmmu s) w)"
      "\<forall>w. pde_present u w = pde_present (kmmu s) w \<and> table u w = table (kmmu s) w"
    using page_table_remove_page [OF mm_shapeD(2) [OF sh] heap_not_window [OF heap_page_addr [OF k]]
        mm_shapeD(3) [OF sh heap_page_addr [OF k]], of "arg_slot s"]
    by blast
  define s1 where "s1 = s\<lparr>kmem := ?m, kmmu := u\<rparr>"
  have "with_pgtable_lock (page_table_remove_st (heap_page k)) (s\<lparr>kmem := ?m\<rparr>) = Inr ((), s1)"
    using mm_shapeD(1) [OF sh] u(1)
    by (simp add: with_pgtable_lock_free unlocked_def page_table_remove_st_def s1_def)
  then have loop: "page_release_loop (Suc n) K_P_POOL (heap_page k) s =
      page_release_loop n K_P_POOL (heap_page (Suc k)) s1" for n
    by (simp add: v2p free heap_page_Suc)
  have sh1: "mm_shape s1" unfolding s1_def by (rule mm_shape_update [OF sh u(2)]) (use u(4) in blast)
  have vp: "vpages s1 = vpages s"
    using vpages_set_frame [OF sh i, of False "kmem s"] by (simp add: vpages_def s1_def)
  have pf: "pframes s1 = pframes s - {i}"
    using taken_set_bit [of "paddr_bitmap (k_p_pool s)" i False "kmem s"] i mm_shapeD(5) [OF sh]
    by (simp add: pframes_def s1_def pool_ok_def)
  have map1: "mapping s1 l = (if l = k then None else mapping s l)" if "l < HEAP_PAGES" for l
    using u(3) same_entry_heap [OF sh k that] by (simp add: mapping_def s1_def)
  have kf: "kframe s1 j = kframe s j" "k_p_pool s1 = k_p_pool s" for j
    by (simp_all add: kframe_def s1_def)
  have "mm_ok s1"
  proof (rule mm_okI [OF sh1])
    fix l j assume l: "l < HEAP_PAGES" "j < kcap s1" "mapping s1 l = Some (kframe s1 j)"
    then have *: "l \<noteq> k" "mapping s l = Some (kframe s j)" "j < kcap s"
      using map1 by (auto simp: kf split: if_splits)
    then have "j \<noteq> i" using mm_okD(4) [OF ok l(1) k i] map by auto
    then show "j \<in> pframes s1" using mm_okD(3) [OF ok l(1) *(3,2)] by (simp add: pf)
  next
    fix l l' j
    assume "l < HEAP_PAGES" "l' < HEAP_PAGES" "j < kcap s1"
      "mapping s1 l = Some (kframe s1 j)" "mapping s1 l' = Some (kframe s1 j)"
    then show "l = l'"
      using mm_okD(4) [OF ok, of l l' j] map1 by (auto simp: kf split: if_splits)
  qed (use mm_okD(2) [OF ok] map1 vp in auto)
  then show ?thesis using loop vp pf map1 by (intro exI [of _ s1]) (simp add: s1_def)
qed

definition released :: "nat \<Rightarrow> nat list \<Rightarrow> mm_state \<Rightarrow> mm_state \<Rightarrow> bool" where
  "released k fs s s' \<longleftrightarrow> mm_ok s' \<and> k_p_pool s' = k_p_pool s \<and> k_v_pool s' = k_v_pool s \<and>
     pframes s' = pframes s - set fs \<and>
     (\<forall>l<HEAP_PAGES. mapping s' l = (if k \<le> l \<and> l < k + length fs then None else mapping s l))"

lemma release_loop:
  "mm_ok s \<Longrightarrow> k + length fs \<le> HEAP_PAGES \<Longrightarrow> set fs \<subseteq> {..<kcap s} \<Longrightarrow>
   (\<And>j. j < length fs \<Longrightarrow> mapping s (k + j) = Some (kframe s (fs ! j))) \<Longrightarrow>
   \<exists>s'. page_release_loop (length fs) K_P_POOL (heap_page k) s = Inr s' \<and> released k fs s s' \<and>
     vpages s' = vpages s"
proof (induction fs arbitrary: k s)
  case Nil
  then show ?case by (auto simp: released_def)
next
  case (Cons i fs)
  have k: "k < HEAP_PAGES" "i < kcap s" "mapping s k = Some (kframe s i)"
    using Cons.prems(2,3) Cons.prems(4) [of 0] by auto
  obtain s1 where s1: "\<forall>n. page_release_loop (Suc n) K_P_POOL (heap_page k) s =
        page_release_loop n K_P_POOL (heap_page (Suc k)) s1" "mm_ok s1"
      "k_p_pool s1 = k_p_pool s" "k_v_pool s1 = k_v_pool s" "vpages s1 = vpages s"
      "pframes s1 = pframes s - {i}"
      "\<forall>l<HEAP_PAGES. mapping s1 l = (if l = k then None else mapping s l)"
    using release_step [OF Cons.prems(1) k] by blast
  have kf: "kframe s1 j = kframe s j" for j using s1(3) by (simp add: kframe_def)
  have "\<exists>s'. page_release_loop (length fs) K_P_POOL (heap_page (Suc k)) s1 = Inr s' \<and>
      released (Suc k) fs s1 s' \<and> vpages s' = vpages s1"
  proof (rule Cons.IH [OF s1(2)])
    fix j assume "j < length fs"
    then show "mapping s1 (Suc k + j) = Some (kframe s1 (fs ! j))"
      using Cons.prems(4) [of "Suc j"] Cons.prems(2) s1(7) by (simp add: kf)
  qed (use Cons.prems(2,3) s1(3) in auto)
  then show ?case
    using s1 by (fastforce simp: released_def)
qed

lemma page_release_run:
  assumes ok: "mm_ok s" and pos: "0 < sint cnt" and len: "length fs = unat cnt"
    and below: "k + unat cnt \<le> HEAP_PAGES" "k + unat cnt \<le> capacity (vaddr_bitmap (k_v_pool s))"
    and sub: "set fs \<subseteq> {..<kcap s}"
    and map: "\<And>j. j < unat cnt \<Longrightarrow> mapping s (k + j) = Some (kframe s (fs ! j))"
  shows "\<exists>s'. page_release K_P_POOL (heap_page k) cnt s = Inr s' \<and> released k fs s s' \<and>
    vpages s' = vpages s - {k..<k + unat cnt}"
proof -
  have n: "nat (sint cnt) = unat cnt" using sint_pos_nat [OF pos] by simp
  obtain s1 where s1: "page_release_loop (unat cnt) K_P_POOL (heap_page k) s = Inr s1"
      "released k fs s s1" "vpages s1 = vpages s"
    using release_loop [OF ok, of k fs] assms(3-7) by auto
  have ok1: "mm_ok s1" and same: "k_p_pool s1 = k_p_pool s" "k_v_pool s1 = k_v_pool s"
    using s1(2) by (simp_all add: released_def)
  note sh1 = mm_okD(1) [OF ok1]
  let ?s = "v_run k (unat cnt) False s1"
  have small: "k < 2 ^ 18" using below(1) pos by (cases "unat cnt") (auto simp: HEAP_PAGES_def unat_eq_zero)
  have idx: "(heap_page k - K_HEAP_START) div PG_SIZE = of_nat k"
    using page_index [of "of_nat k" K_HEAP_START] small by (simp add: heap_page_def unat_of_nat_less)
  have used: "k + j \<in> vpages s1" if "j < unat cnt" for j
    using mm_okD(2) [OF ok, of "k + j"] map [OF that] below(1) that s1(3) by fastforce
  have "bitmap_check (vaddr_bitmap (k_v_pool s1)) (of_nat k + of_nat j) (kmem s1)" if "j < unat cnt" for j
    using used [OF that] by (simp add: vpages_def taken_bits_def)
  then have "vaddr_release (k_v_pool s1) (heap_page k) cnt (kmem s1) = Inr (kmem ?s)"
    by (simp add: vaddr_release_def mm_shapeD(7) [OF sh1] idx release_outcome list_all_iff v_run_def)
  then have "with_v_lock (vaddr_release_st (heap_page k) cnt) s1 = Inr ((), ?s)"
    using mm_shapeD(1) [OF sh1]
    by (simp add: with_v_lock_free unlocked_def vaddr_release_st_def set_v_mlock_def v_run_def)
  moreover have fits: "k + unat cnt \<le> capacity (vaddr_bitmap (k_v_pool s1))"
    using below(2) same by simp
  moreover have "mm_ok ?s"
    by (rule v_run_clear_ok [OF ok1 fits]) (use s1(2) len in \<open>simp add: released_def\<close>)
  ultimately show ?thesis
    using s1 n v_run_sets [OF sh1 fits, of False]
    by (auto simp: page_release_def released_def)
qed

section \<open>The state at boot\<close>

text \<open>
  The tables as \<open>setup_page\<close> of \<open>boot/loader.s\<close> leaves them in cleared memory: the directory at
  1 MB, entries 0 and 768 on the table at \<open>0x101000\<close>, entries 769 to 1022 on the tables behind it,
  entry 1023 on the directory, and the first 256 pages mapped one to one.
\<close>

definition boot_pde :: "u32 \<Rightarrow> u32" where
  "boot_pde d =
     (if d = 0 \<or> d = 768 then 0x101003
      else if 768 < d \<and> d < 1023 then 0x101003 + (d - 768) * 0x1000
      else if d = 1023 then 0x100003 else 0)"

definition boot_mmu :: mmu where
  "boot_mmu = \<lparr>cr3 = 0x100000,
     pmem = (\<lambda>a. if a mod 4 \<noteq> 0 then 0
       else if a - 0x100000 < 0x1000 then boot_pde ((a - 0x100000) div 4)
       else if a - 0x101000 < 0x400 then ((a - 0x101000) div 4) * 0x1000 + 3 else 0),
     tlb = Map.empty\<rparr>"

lemma boot_cr3 [simp]: "cr3 boot_mmu = 0x100000"
  by (simp add: boot_mmu_def)

definition mm_boot :: "u32 \<Rightarrow> mem \<Rightarrow> ptr \<Rightarrow> ptr \<Rightarrow> mm_state" where
  "mm_boot tot m task slot =
     (case pool_init tot m of (kp, up, vp, m') \<Rightarrow>
       \<lparr>kmem = m', kmmu = boot_mmu, k_p_pool = kp, u_p_pool = up, k_v_pool = vp,
         mlock_pgtable = NULL, cur_task = task, arg_slot = slot\<rparr>)"

lemma idx10_unat: "idx10 d \<Longrightarrow> unat d < 1024"
proof -
  assume d: "idx10 d"
  have "unat (take_bit 10 d) = take_bit 10 (unat d)" by (rule unsigned_take_bit_eq)
  then show ?thesis using d take_bit_nat_less_exp [of 10 "unat d"] by simp
qed

lemma unat_times_4: "idx10 d \<Longrightarrow> unat (d * 4) = unat d * 4"
  using idx10_unat [of d] by (simp add: unat_mult_small)

lemma boot_entry: "pmem boot_mmu (pde_paddr boot_mmu v) = boot_pde (dir_idx v)"
proof -
  have p: "pde_paddr boot_mmu v = 0x100000 + dir_idx v * 4" by (simp add: pde_paddr_def boot_mmu_def)
  then have "pde_paddr boot_mmu v - 0x100000 = dir_idx v * 4" by simp
  moreover have "unat (pde_paddr boot_mmu v mod 4) = 0"
    unfolding p using unat_times_4 [of "dir_idx v"] idx10_unat [of "dir_idx v"] by (simp add: unat_mod unat_add_small mod_add_eq)
  then have "pde_paddr boot_mmu v mod 4 = 0" by (simp add: unat_eq_zero)
  moreover have "dir_idx v * 4 < 0x1000"
    using unat_times_4 [of "dir_idx v"] idx10_unat [of "dir_idx v"] by (simp add: word_less_nat_alt)
  moreover have "unat (dir_idx v * 4 div 4) = unat (dir_idx v)"
    using unat_times_4 [of "dir_idx v"] by (simp add: unat_div)
  then have "dir_idx v * 4 div 4 = dir_idx v" by (rule unsigned_word_eqI)
  ultimately show ?thesis by (simp add: boot_mmu_def)
qed

lemma heap_dir:
  assumes "heap_addr w"
  shows "768 \<le> unat (dir_idx w)" "unat (dir_idx w) < 1023"
proof -
  have "0xC0100000 \<le> unat w" "unat w < 0xffc00000"
    using assms by (simp_all add: heap_addr_def word_le_nat_alt word_less_nat_alt K_HEAP_START_def)
  moreover have "unat (dir_idx w) = unat w div 0x400000" by (simp add: drop_bit_eq_div unat_div)
  ultimately show "768 \<le> unat (dir_idx w)" "unat (dir_idx w) < 1023" by linarith+
qed

lemma boot_pde_heap:
  assumes "768 \<le> unat d" "unat d < 1023"
  shows "unat (boot_pde d) = 0x101003 + (unat d - 768) * 4096"
proof (cases "d = 768")
  case False
  then have "unat d \<noteq> 768" using unsigned_word_eqI [of d "768"] by auto
  then have d: "768 < d" "d < 1023" using assms by (simp_all add: word_less_nat_alt)
  then have "d \<noteq> 0" by auto
  have u: "unat (d - 768) = unat d - 768" using assms by (simp add: unat_sub_small)
  have m: "unat ((d - 768) * 0x1000) = (unat d - 768) * 4096"
    by (subst unat_mult_small, simp_all only: u) (use assms in simp_all)
  have "unat (0x101003 + (d - 768) * 0x1000) = 0x101003 + (unat d - 768) * 4096"
    using assms m by (subst unat_add_small) simp_all
  then show ?thesis using d False \<open>d \<noteq> 0\<close> by (simp add: boot_pde_def)
qed (simp add: boot_pde_def)

lemma boot_tables:
  assumes "heap_addr w"
  shows "pde_present boot_mmu w" "unat (table boot_mmu w) = 0x101000 + (unat (dir_idx w) - 768) * 4096"
proof -
  let ?e = "boot_pde (dir_idx w)"
  have e: "unat ?e = 0x101003 + (unat (dir_idx w) - 768) * 4096"
    using boot_pde_heap heap_dir [OF assms] by blast
  have "odd (unat ?e)" unfolding e by simp
  then have "bit ?e 0" by (metis bit_0 bit_unsigned_iff bit_imp_le_length even_unset_bit_iff unat_eq_nat_uint)
  then show "pde_present boot_mmu w" by (simp add: pde_present_def boot_entry)
  have "(0x101003 + n * 4096) div 4096 * 4096 = 0x101000 + n * (4096 :: nat)" for n by simp
  then show "unat (table boot_mmu w) = 0x101000 + (unat (dir_idx w) - 768) * 4096"
    by (simp add: table_def boot_entry page_of_unat e)
qed

lemma boot_mmu_ok: "mmu_ok boot_mmu"
proof (rule mmu_okI)
  have "pmem boot_mmu (0x100000 + 0x3ff * 4) = 0x100003"
    by (simp add: boot_mmu_def boot_pde_def)
  then show "self_mapped boot_mmu"
    by (simp add: self_mapped_def page_of_def bit_iff_odd)
  fix v assume p: "pde_present boot_mmu v" and t: "table boot_mmu v = cr3 boot_mmu"
  show "in_window v"
  proof (rule ccontr)
    assume w: "\<not> in_window v"
    have "page_of (boot_pde (dir_idx v)) = 0x100000" using t by (simp add: table_def boot_entry)
    then have "unat (boot_pde (dir_idx v)) div 4096 * 4096 = 0x100000"
      using page_of_unat [of "boot_pde (dir_idx v)"] by simp
    moreover have "768 < dir_idx v \<Longrightarrow> dir_idx v < 1023 \<Longrightarrow>
        unat (boot_pde (dir_idx v)) = 0x101003 + (unat (dir_idx v) - 768) * 4096"
      by (intro boot_pde_heap) (simp_all add: word_less_nat_alt)
    ultimately show False using w p
      by (auto simp: boot_pde_def in_window_def pde_present_def boot_entry split: if_splits)
  qed
qed

lemma tab_idx_unat: "unat (tab_idx w) = unat w div 4096 mod 1024"
proof -
  have "tab_idx w = take_bit 10 (drop_bit 12 w)"
    by (rule bit_word_eqI, unfold mask_numerals) (auto simp: bit_simps)
  then have "unat (tab_idx w) = take_bit 10 (unat (drop_bit 12 w))"
    by (simp only: unsigned_take_bit_eq)
  then show ?thesis by (simp add: take_bit_eq_mod drop_bit_eq_div unat_div)
qed

lemma boot_unmapped: "heap_addr w \<Longrightarrow> walk boot_mmu w = None"
proof -
  assume h: "heap_addr w"
  let ?d = "unat (dir_idx w)" and ?t = "unat (tab_idx w)" and ?a = "pte_paddr boot_mmu w"
  have lim: "768 \<le> ?d" "?d < 1023" "?t < 1024" using heap_dir [OF h] idx10_unat [OF small_index(2) [of w]] by simp_all
  have base: "unat (table boot_mmu w) = 0x101000 + (?d - 768) * 4096" by (rule boot_tables(2) [OF h])
  have a: "unat ?a = 0x101000 + (?d - 768) * 4096 + ?t * 4"
    unfolding pte_paddr_table using lim base unat_times_4 [OF small_index(2) [of w]]
    by (subst unat_add_small) simp_all
  have w: "0xC0100000 \<le> unat w" using h by (simp add: heap_addr_def word_le_nat_alt K_HEAP_START_def)
  have d: "?d = unat w div 0x400000" by (simp add: drop_bit_eq_div unat_div)
  have "256 \<le> (?d - 768) * 1024 + ?t"
  proof (cases "?d = 768")
    case True
    then have "unat w div 4096 = 768 * 1024 + ?t"
      unfolding tab_idx_unat d
      using div_mult2_eq [of "unat w" 4096 1024] div_mult_mod_eq [of "unat w div 4096" 1024] by simp
    then show ?thesis using w by linarith
  qed (use lim in simp)
  then have "unat (?a - 0x100000) \<ge> 0x1000" "unat (?a - 0x101000) \<ge> 0x400"
    using a lim by (simp_all add: unat_sub_small)
  then have "pmem boot_mmu ?a = 0" by (simp add: boot_mmu_def word_less_nat_alt)
  then show ?thesis by (simp add: walk_def)
qed

lemma mm_boot_ok:
  assumes "0x200000 \<le> tot"
  shows "mm_ok (mm_boot tot m task slot)" and "vpages (mm_boot tot m task slot) = {}"
    and "pframes (mm_boot tot m task slot) = {}"
proof -
  obtain kp up vp m' where pi: "pool_init tot m = (kp, up, vp, m')" using prod_cases4 by blast
  let ?s = "mm_boot tot m task slot"
  note sz = pool_init_sizes [OF assms pi] and sh = pool_init_shape [OF pi]
  note fr = pool_init_frames [OF assms pi]
  have f: "k_p_pool ?s = kp" "k_v_pool ?s = vp" "kmmu ?s = boot_mmu" "kmem ?s = m'"
      "mlock_pgtable ?s = NULL"
    by (simp_all add: mm_boot_def pi)
  have tk: "taken_bits (paddr_bitmap kp, m') = {}" "taken_bits (vaddr_bitmap vp, m') = {}"
    using pool_init_free [OF assms pi] by simp_all
  then show "vpages ?s = {}" "pframes ?s = {}" by (simp_all add: vpages_def pframes_def f)
  have kb: "boot_kernel_pages tot \<le> 0x40000" by (simp add: boot_kernel_pages_def)
  have start: "paddr_start kp = 0x200000" using sz(1) by (intro unsigned_word_eqI) simp
  have shape: "mm_shape ?s"
    unfolding mm_shape_def f
  proof (intro conjI allI impI)
    show "unlocked ?s" by (simp add: unlocked_def f sh)
    show "heap_addr w \<Longrightarrow> pde_present boot_mmu w" for w by (rule boot_tables(1))
    show "dir_idx v = dir_idx w"
      if "heap_addr v" "heap_addr w" "table boot_mmu v = table boot_mmu w" for v w
    proof -
      have "unat (dir_idx v) = unat (dir_idx w)"
        using boot_tables(2) [OF that(1)] boot_tables(2) [OF that(2)] that(3)
          heap_dir(1) [OF that(1)] heap_dir(1) [OF that(2)] by simp
      then show ?thesis by (rule unsigned_word_eqI)
    qed
    show "bits (paddr_bitmap kp) + of_nat i div 8 \<noteq> bits (vaddr_bitmap vp) + of_nat j div 8"
      if "i < capacity (paddr_bitmap kp)" "j < capacity (vaddr_bitmap vp)" for i j
    proof -
      have i: "i div 8 < 0x8000" "i < 2 ^ 32" using that(1) kb sz(3) by (auto simp: capacity_def)
      have j: "j div 8 < 0x8000" "j < 2 ^ 32" using that(2) by (auto simp: capacity_def sh(3))
      have "unat (bits (paddr_bitmap kp) + of_nat (i div 8)) = 0xC0076000 + i div 8"
        using i by (subst unat_add_small) (simp_all add: sh(1) PADDR_BITMAP_BASE_def unat_of_nat_less)
      moreover have "unat (bits (vaddr_bitmap vp) + of_nat (j div 8)) = 0xC0096000 + j div 8"
        using j by (subst unat_add_small) (simp_all add: sh(3) K_VADDR_BITMAP_BASE_def unat_of_nat_less)
      moreover have "of_nat i div 8 = (of_nat (i div 8) :: u32)" "of_nat j div 8 = (of_nat (j div 8) :: u32)"
        using i(2) j(2) by (simp_all add: word_arith_nat_div unat_of_nat_less)
      ultimately show ?thesis using i by auto
    qed
    show "unat (paddr_start kp) + capacity (paddr_bitmap kp) * 4096 < 2 ^ 32"
      using kb sz(1,3) by (simp add: capacity_def)
  qed (use fr(3) sh start boot_mmu_ok in \<open>auto simp: capacity_def page_of_def\<close>)
  have none: "mapping ?s k = None" if "k < HEAP_PAGES" for k
    using boot_unmapped [OF heap_page_addr [OF that]] by (simp add: mapping_def f)
  show "mm_ok ?s" by (rule mm_okI [OF shape]) (simp_all add: none)
qed

text \<open>The operations do not change who is running.\<close>

lemma locked_cur:
  assumes "locked ow set_ow body s = Inr (r, s')"
    and "\<And>t x. cur_task (set_ow t x) = cur_task x"
    and "\<And>x r x'. body x = Inr (r, x') \<Longrightarrow> cur_task x' = cur_task x"
  shows "cur_task s' = cur_task s"
  using assms by (auto simp: locked_def rbind_Inr_iff split: if_splits)

lemma set_p_mlock_cur: "cur_task (set_p_mlock pid t x) = cur_task x"
  by (cases pid) simp_all

lemma page_release_loop_cur: "page_release_loop n pid v s = Inr s' \<Longrightarrow> cur_task s' = cur_task s"
proof (induction n arbitrary: v s)
  case (Suc n)
  then obtain p s1 s2 where l: "with_p_lock pid (pfree_st pid p) s = Inr ((), s1)"
      "with_pgtable_lock (page_table_remove_st v) s1 = Inr ((), s2)"
      "page_release_loop n pid (v + PG_SIZE) s2 = Inr s'"
    by (auto simp: rbind_Inr_iff)
  have "cur_task s1 = cur_task s"
    by (rule locked_cur [OF l(1) [unfolded with_p_lock_def] set_p_mlock_cur])
      (auto simp: pfree_st_def rbind_Inr_iff)
  moreover have "cur_task s2 = cur_task s1"
    by (rule locked_cur [OF l(2) [unfolded with_pgtable_lock_def]])
      (auto simp: page_table_remove_st_def rbind_Inr_iff)
  ultimately show ?case using Suc.IH [OF l(3)] by simp
qed simp

lemma page_free_cur: "page_free pf v n s = Inr s' \<Longrightarrow> cur_task s' = cur_task s"
proof -
  have "cur_task s2 = cur_task s1"
    if "with_v_lock (vaddr_release_st v n) s1 = Inr ((), s2)" for s1 s2
    by (rule locked_cur [OF that [unfolded with_v_lock_def]])
      (auto simp: vaddr_release_st_def set_v_mlock_def rbind_Inr_iff)
  then show "page_free pf v n s = Inr s' \<Longrightarrow> cur_task s' = cur_task s"
    using page_release_loop_cur
    by (fastforce simp: page_free_def page_release_def rbind_Inr_iff split: if_splits)
qed

section \<open>Properties\<close>

text \<open>The state \<open>mem_init\<close> finds at boot, with the page tables of the loader and at least 2 MB
  of memory, satisfies the invariant of the page allocator: tables present and unshared for the
  whole heap, no heap page mapped, no frame and no page in use, no lock held.\<close>

theorem mm_boot_invariant:
  assumes "0x200000 \<le> tot"
  shows "mm_ok (mm_boot tot m task slot) \<and> vpages (mm_boot tot m task slot) = {} \<and>
    pframes (mm_boot tot m task slot) = {}"
  using mm_boot_ok [OF assms] by blast

theorem mm_boot_invariant_witness: "mm_ok (mm_boot 0x2000000 (\<lambda>_. 0xcc) 0xC009E000 0xC009EFF0)"
  using mm_boot_invariant [of "0x2000000" "\<lambda>_. 0xcc" "0xC009E000" "0xC009EFF0"] by simp

text \<open>C16: \<open>page_acquire\<close> for the kernel, at no particular address: the pages are the first free run
  of the pool. When the frames suffice the run comes back, each of its pages mapped to a frame of
  its own that was free, and no other heap page changes its mapping. When they do not suffice the
  answer is \<open>NULL\<close>, but the run stays marked, every remaining frame is gone and the first pages of
  the run stay mapped. The invariant holds afterwards either way.\<close>

theorem page_acquire_outcome:
  assumes "mm_ok s" and "0 < sint cnt" and "first_vrun s cnt = Some k"
    and "k + unat cnt \<le> HEAP_PAGES"
  shows "\<exists>s' fs. page_acquire K_P_POOL NULL cnt s =
      Inr (if unat cnt \<le> free_frames s then heap_page k else NULL, s') \<and> mm_ok s' \<and>
    vpages s' = vpages s \<union> {k..<k + unat cnt} \<and>
    distinct fs \<and> length fs = min (unat cnt) (free_frames s) \<and> set fs \<inter> pframes s = {} \<and>
    pframes s' = pframes s \<union> set fs \<and>
    (\<forall>l<HEAP_PAGES. mapping s' l =
      (if k \<le> l \<and> l < k + length fs then Some (kframe s (fs ! (l - k))) else mapping s l))"
  using page_acquire_run [OF assms]
    v_run_sets(2) [OF mm_okD(1) [OF assms(1)] first_vrun_fits(1) [OF assms(3)], of True]
  by (fastforce simp: acquired_def)

text \<open>The boot state of a 32 MB machine, from which pages 0 to 2 come first.\<close>

definition boot32 :: mm_state where
  "boot32 = mm_boot 0x2000000 (\<lambda>_. 0xcc) 0xC009E000 0xC009EFF0"

lemma boot32_ok: "mm_ok boot32" "vpages boot32 = {}" "pframes boot32 = {}"
  using mm_boot_ok [of "0x2000000"] by (simp_all add: boot32_def)

lemma boot_run:
  assumes "0x200000 \<le> tot" "0 < n" "n \<le> 2 ^ 18"
  shows "first_vrun (mm_boot tot m task slot) (of_nat n) = Some 0"
proof -
  let ?s = "mm_boot tot m task slot"
  obtain kp up vp m' where pi: "pool_init tot m = (kp, up, vp, m')"
    using prod_cases4 by blast
  have f: "k_v_pool ?s = vp" "kmem ?s = m'" by (simp_all add: mm_boot_def pi)
  have cap: "capacity (vaddr_bitmap vp) = 2 ^ 18" using pool_init_shape(3) [OF pi] by (simp add: capacity_def)
  then have "\<forall>i<2 ^ 18. bit_free (vaddr_bitmap vp) m' i"
    using mm_boot_ok(2) [OF assms(1), of m task slot] by (auto simp: vpages_def f taken_bits_def bit_free_def)
  then have "run_free (vaddr_bitmap vp) m' 0 n" using assms cap by (simp add: run_free_iff)
  then show ?thesis using assms cap by (simp add: first_vrun_def f first_fit_Some unat_of_nat_less)
qed

lemma boot_frames: "free_frames (mm_boot 0x2000000 m task slot) = 3840"
proof -
  obtain kp up vp m' where pi: "pool_init 0x2000000 m = (kp, up, vp, m')"
    using prod_cases4 by blast
  have "k_p_pool (mm_boot 0x2000000 m task slot) = kp" by (simp add: mm_boot_def pi)
  moreover have "unat (len (paddr_bitmap kp)) = 480"
    using pool_init_sizes(3) [OF _ pi] by (simp add: boot_kernel_pages_def boot_pages_def)
  ultimately show ?thesis
    using mm_boot_ok(3) [of "0x2000000" m task slot] by (simp add: free_frames_def capacity_def)
qed

lemma boot32_run: "0 < n \<Longrightarrow> n \<le> 2 ^ 18 \<Longrightarrow> first_vrun boot32 (of_nat n) = Some 0"
  unfolding boot32_def by (rule boot_run) simp_all

lemma boot32_frames: "free_frames boot32 = 3840"
  unfolding boot32_def by (rule boot_frames)

theorem page_acquire_outcome_witness:
  "(\<exists>s'. page_acquire K_P_POOL NULL 3 boot32 = Inr (heap_page 0, s') \<and> vpages s' = {0..<3}) \<and>
   (\<exists>s'. page_acquire K_P_POOL NULL 4000 boot32 = Inr (NULL, s') \<and> vpages s' = {0..<4000})"
  using page_acquire_outcome [of boot32 3 0] page_acquire_outcome [of boot32 4000 0]
    boot32_run [of 3] boot32_run [of 4000] boot32_ok boot32_frames
  by (simp add: HEAP_PAGES_def) blast

text \<open>\<open>page_release\<close> of a run whose pages are mapped to frames of the pool returns, frees exactly
  these frames and these pages, unmaps exactly these pages, and keeps the invariant.\<close>

theorem page_release_outcome:
  assumes "mm_ok s" and "0 < sint cnt" and "length fs = unat cnt" and "set fs \<subseteq> {..<kcap s}"
    and "k + unat cnt \<le> HEAP_PAGES" and "k + unat cnt \<le> capacity (vaddr_bitmap (k_v_pool s))"
    and "\<forall>j < unat cnt. mapping s (k + j) = Some (kframe s (fs ! j))"
  shows "\<exists>s'. page_release K_P_POOL (heap_page k) cnt s = Inr s' \<and> mm_ok s' \<and>
    vpages s' = vpages s - {k..<k + unat cnt} \<and> pframes s' = pframes s - set fs \<and>
    (\<forall>l<HEAP_PAGES. mapping s' l = (if k \<le> l \<and> l < k + unat cnt then None else mapping s l))"
  using page_release_run [OF assms(1-3,5,6,4)] assms(3,7) by (auto simp: released_def)

lemma malloc_free_run:
  assumes "mm_ok s" and "0 < sint cnt" and "first_vrun s cnt = Some k"
    and "k + unat cnt \<le> HEAP_PAGES" and "unat cnt \<le> free_frames s"
  shows "\<exists>s' s''. page_malloc 1 NULL cnt s = Inr (heap_page k, s') \<and>
    page_free 1 (heap_page k) cnt s' = Inr s'' \<and> mm_ok s'' \<and> vpages s'' = vpages s \<and>
    pframes s'' = pframes s \<and> (\<forall>l<HEAP_PAGES. mapping s'' l = mapping s l)"
proof -
  let ?n = "unat cnt" and ?s = "v_run k (unat cnt) True s"
  note fits = first_vrun_fits(1) [OF assms(3)] and free = first_vrun_fits(2) [OF assms(3)]
  have pf: "pframes ?s = pframes s" by (rule v_run_sets(2) [OF mm_okD(1) [OF assms(1)] fits])
  obtain s' fs where a: "page_acquire K_P_POOL NULL cnt s = Inr (heap_page k, s')"
      "vpages s' = vpages s \<union> {k..<k + ?n}" "acquired k ?n ?s s' fs"
    using page_acquire_run [OF assms(1-4)] assms(5) by (auto simp: min_def)
  then have b: "mm_ok s'" "k_p_pool s' = k_p_pool s" "k_v_pool s' = k_v_pool s" "length fs = ?n"
      "set fs \<inter> pframes s = {}" "set fs \<subseteq> {..<kcap s}" "pframes s' = pframes s \<union> set fs"
      "\<forall>l<HEAP_PAGES. mapping s' l =
        (if k \<le> l \<and> l < k + ?n then Some (kframe s (fs ! (l - k))) else mapping s l)"
    using pf by (simp_all add: acquired_def)
  have kf: "kframe s' = kframe s" using b(2) by (simp add: kframe_def fun_eq_iff)
  have "\<And>j. j < ?n \<Longrightarrow> mapping s' (k + j) = Some (kframe s' (fs ! j))"
    using b(8) assms(4) by (simp add: kf)
  then obtain s'' where r: "page_release K_P_POOL (heap_page k) cnt s' = Inr s''"
      "released k fs s' s''" "vpages s'' = vpages s' - {k..<k + ?n}"
    using page_release_run [OF b(1) assms(2) b(4) assms(4)] fits b by auto
  have "mapping s'' l = mapping s l" if l: "l < HEAP_PAGES" for l
  proof (cases "k \<le> l \<and> l < k + ?n")
    case True
    then have "l \<notin> vpages s" using free by auto
    then show ?thesis using True r(2) b(4) l mm_okD(2) [OF assms(1) l] by (simp add: released_def)
  next
    case False
    then show ?thesis using r(2) b(4,8) l by (auto simp: released_def)
  qed
  moreover have "vpages s'' = vpages s" using r(3) a(2) free by auto
  moreover have "pframes s'' = pframes s" using r(2) b(5,7) by (auto simp: released_def)
  ultimately show ?thesis
    using a(1) r by (auto simp: page_malloc_def page_free_def released_def)
qed

text \<open>C17: Pages come back: \<open>page_malloc\<close> of a run that fits, followed by \<open>page_free\<close> of the result,
  runs through and restores the pages in use, the frames in use and the mapping of the heap.\<close>

theorem page_malloc_free:
  assumes "mm_ok s" and "0 < sint cnt" and "first_vrun s cnt = Some k"
    and "k + unat cnt \<le> HEAP_PAGES" and "unat cnt \<le> free_frames s"
  shows "\<exists>s' s''. page_malloc 1 NULL cnt s = Inr (heap_page k, s') \<and>
    page_free 1 (heap_page k) cnt s' = Inr s'' \<and> mm_ok s'' \<and> vpages s'' = vpages s \<and>
    pframes s'' = pframes s \<and> (\<forall>l<HEAP_PAGES. mapping s'' l = mapping s l)"
  by (rule malloc_free_run [OF assms])

theorem page_malloc_free_witness:
  "\<exists>s' s''. page_malloc 1 NULL 7 boot32 = Inr (heap_page 0, s') \<and>
    page_free 1 (heap_page 0) 7 s' = Inr s'' \<and> vpages s'' = {} \<and> pframes s'' = {}"
  using page_malloc_free [of boot32 7 0] boot32_run [of 7] boot32_ok boot32_frames
  by (simp add: HEAP_PAGES_def) blast

theorem page_release_outcome_witness:
  "\<exists>s s'. vpages s = {0..<3} \<and> page_release K_P_POOL (heap_page 0) 3 s = Inr s' \<and> vpages s' = {}"
proof -
  let ?s = "v_run 0 3 True boot32"
  obtain s fs where a: "vpages s = {0..<3}" "acquired 0 3 ?s s fs"
    using page_acquire_run [of boot32 3 0] boot32_run [of 3] boot32_ok boot32_frames
    by (auto simp: HEAP_PAGES_def)
  have fits: "0 + unat (3 :: u32) \<le> capacity (vaddr_bitmap (k_v_pool boot32))"
    using first_vrun_fits(1) [of boot32 3 0] boot32_run [of 3] by simp
  have kf: "kframe s = kframe boot32" using a(2) by (simp add: kframe_def fun_eq_iff acquired_def)
  have "\<exists>s'. page_release K_P_POOL (heap_page 0) 3 s = Inr s' \<and> mm_ok s' \<and>
      vpages s' = vpages s - {0..<0 + unat (3 :: u32)} \<and> pframes s' = pframes s - set fs \<and>
      (\<forall>l<HEAP_PAGES. mapping s' l = (if 0 \<le> l \<and> l < 0 + unat (3 :: u32) then None else mapping s l))"
    using a(2) fits by (intro page_release_outcome) (simp_all add: acquired_def HEAP_PAGES_def kf)
  then show ?thesis using a(1) by auto
qed

end
