(* ===== verification/KSched.thy ===== *)
theory KSched
  imports KList KPages
begin

text \<open>
  Threads and the scheduler: \<open>code/kernel/src/thread.c\<close>, \<open>code/kernel/src/sched.c\<close> and the context
  switch of \<open>code/kernel/src/switch.s\<close>. A thread is its PCB pointer, the start of its page; its two
  list nodes are embedded in the PCB at offsets 12 and 20. The state has the list nodes, the PCB
  fields, the words of the stacks, the interrupt flag and, for every suspended thread, the interrupt
  status it restores when it comes back from \<open>switch_to\<close>. The running thread is \<open>cur_task\<close> of the
  memory state.
\<close>

section \<open>State\<close>

datatype task_status =
  TASK_RUNNING | TASK_READY | TASK_BLOCKED | TASK_WAITING | TASK_HANGING | TASK_DIED

record task_struct =
  kstack :: ptr
  status :: task_status
  time_slice :: u32
  stack_magic :: u32

record kstack_switch =
  f_ebp :: u32
  f_ebx :: u32
  f_edi :: u32
  f_esi :: u32
  f_kthread :: u32
  f_fn :: u32
  f_fn_arg :: u32

record sched_state =
  mm :: mm_state
  nodes :: lheap
  tasks :: "ptr \<Rightarrow> task_struct"
  stk :: "ptr \<Rightarrow> u32"
  intr_on :: bool
  saved_intr :: "ptr \<Rightarrow> bool"
  g_idle_task :: ptr
  g_main_task :: ptr
  task_ready_list :: ptr
  task_all_list :: ptr

definition task_tag :: "ptr \<Rightarrow> ptr" where "task_tag t = t + 12"
definition task_all_tag :: "ptr \<Rightarrow> ptr" where "task_all_tag t = t + 20"

text \<open>100 ms in timer ticks of \<open>SYS_TICK_US\<close> microseconds (\<open>timer.h\<close>).\<close>

definition SYS_TICK_US :: u32 where "SYS_TICK_US = 10"

definition SCHED_RR_TIME_SLICE :: u32 where "SCHED_RR_TIME_SLICE = 100 * 1000 div SYS_TICK_US"

text \<open>\<open>kthread_current\<close> masks \<open>esp\<close>; the stack pointer of the running thread is in its PCB page.\<close>

definition kthread_current :: "sched_state \<Rightarrow> ptr" where
  "kthread_current s = cur_task (mm s)"

definition set_status :: "ptr \<Rightarrow> task_status \<Rightarrow> sched_state \<Rightarrow> sched_state" where
  "set_status t st s = s\<lparr>tasks := (tasks s)(t := (tasks s t)\<lparr>status := st\<rparr>)\<rparr>"

definition set_slice :: "ptr \<Rightarrow> u32 \<Rightarrow> sched_state \<Rightarrow> sched_state" where
  "set_slice t n s = s\<lparr>tasks := (tasks s)(t := (tasks s t)\<lparr>time_slice := n\<rparr>)\<rparr>"

definition set_cur :: "ptr \<Rightarrow> sched_state \<Rightarrow> sched_state" where
  "set_cur t s = s\<lparr>mm := (mm s)\<lparr>cur_task := t\<rparr>\<rparr>"

definition on_nodes :: "(lheap \<Rightarrow> lheap) \<Rightarrow> sched_state \<Rightarrow> sched_state" where
  "on_nodes f s = s\<lparr>nodes := f (nodes s)\<rparr>"

definition blocked_status :: "task_status \<Rightarrow> bool" where
  "blocked_status st \<longleftrightarrow> TASK_BLOCKED = st \<or> TASK_WAITING = st \<or> TASK_HANGING = st"

section \<open>\<open>sched.c\<close> and \<open>thread.c\<close>\<close>

text \<open>\<open>kthread_unblock\<close>: no effect on a thread that is not blocked.\<close>

definition kthread_unblock :: "ptr \<Rightarrow> sched_state \<Rightarrow> sched_state" where
  "kthread_unblock task s =
     (let intr_stat = intr_on s;
          s1 = s\<lparr>intr_on := False\<rparr>;
          stat = status (tasks s1 task);
          s2 = (if blocked_status stat
                then on_nodes (\<lambda>h. list_push h (task_ready_list s1) (task_tag task))
                       (set_status task TASK_READY s1)
                else s1)
      in s2\<lparr>intr_on := intr_stat\<rparr>)"

text \<open>
  The switch itself, seen from the scheduler: the outgoing thread keeps the interrupt status it
  will restore, the incoming one restores its own.
\<close>

definition switch_task :: "bool \<Rightarrow> ptr \<Rightarrow> ptr \<Rightarrow> sched_state \<Rightarrow> sched_state" where
  "switch_task intr_stat cur next_task s =
     (let s1 = s\<lparr>saved_intr := (saved_intr s)(cur := intr_stat)\<rparr>
      in set_cur next_task (s1\<lparr>intr_on := saved_intr s1 next_task\<rparr>))"

definition schedule :: "bool \<Rightarrow> sched_state \<Rightarrow> sched_state" where
  "schedule intr_stat s =
     (let curTask = kthread_current s;
          s1 = (if TASK_RUNNING = status (tasks s curTask)
                then on_nodes (\<lambda>h. list_append h (task_ready_list s) (task_tag curTask))
                       (set_slice curTask SCHED_RR_TIME_SLICE (set_status curTask TASK_READY s))
                else s);
          s2 = (if list_empty (nodes s1) (task_ready_list s1)
                then kthread_unblock (g_idle_task s1) s1 else s1);
          nextTaskTag = fst (list_pop (nodes s2) (task_ready_list s2));
          s3 = on_nodes (\<lambda>h. snd (list_pop h (task_ready_list s2))) s2;
          nextTask = elem2entry 12 nextTaskTag;
          s4 = set_status nextTask TASK_RUNNING s3
      in switch_task intr_stat curTask nextTask s4)"

definition kthread_block :: "task_status \<Rightarrow> sched_state \<Rightarrow> sched_state" where
  "kthread_block stat s =
     (let intr_stat = intr_on s;
          s1 = s\<lparr>intr_on := False\<rparr>
      in if blocked_status stat
         then schedule intr_stat (set_status (kthread_current s1) stat s1)
         else s1\<lparr>intr_on := intr_stat\<rparr>)"

definition kthread_yield :: "sched_state \<Rightarrow> sched_state" where
  "kthread_yield s =
     (let intr_stat = intr_on s;
          s1 = s\<lparr>intr_on := False\<rparr>;
          task = kthread_current s1;
          s2 = set_status task TASK_READY s1;
          s3 = on_nodes (\<lambda>h. list_append h (task_ready_list s2) (task_tag task)) s2
      in schedule intr_stat s3)"

definition kthread_run :: "ptr \<Rightarrow> sched_state \<Rightarrow> sched_state" where
  "kthread_run task s =
     (let intr_stat = intr_on s;
          s1 = s\<lparr>intr_on := False\<rparr>;
          s2 = set_slice task SCHED_RR_TIME_SLICE (set_status task TASK_READY s1);
          s3 = on_nodes (\<lambda>h. list_append h (task_ready_list s2) (task_tag task)) s2;
          s4 = on_nodes (\<lambda>h. list_append h (task_all_list s3) (task_all_tag task)) s3
      in s4\<lparr>intr_on := intr_stat\<rparr>)"

text \<open>
  \<open>kthread_exit\<close> of any thread but main frees the page it runs on: its PCB, and the stack the calls
  still return through. \<open>page_table_remove\<close> clears the entry of the page and \<open>invlpg\<close> flushes the page
  of its own parameter, which is on that stack. The next access to the stack has no translation left.
\<close>

definition kthread_exit :: "sched_state \<Rightarrow> stop + sched_state" where
  "kthread_exit s =
     (let intr_stat = intr_on s;
          s1 = s\<lparr>intr_on := False\<rparr>;
          task = kthread_current s1;
          s2 = set_status task TASK_DIED s1;
          s3 = on_nodes (\<lambda>h. list_remove h (task_tag task)) s2;
          s4 = on_nodes (\<lambda>h. list_remove h (task_all_tag task)) s3
      in rbind (if task \<noteq> g_main_task s4
                then rbind (page_free 1 task 1 (mm s4)) (\<lambda>m.
                       if walk (kmmu m) task = None then Inl Page_fault else Inr (s4\<lparr>mm := m\<rparr>))
                else Inr s4)
           (\<lambda>s5. Inr (schedule intr_stat s5)))"

section \<open>Creating threads\<close>

definition store_frame :: "ptr \<Rightarrow> kstack_switch \<Rightarrow> (ptr \<Rightarrow> u32) \<Rightarrow> ptr \<Rightarrow> u32" where
  "store_frame p f w = w(p := f_ebp f, p + 4 := f_ebx f, p + 8 := f_edi f, p + 12 := f_esi f,
     p + 16 := f_kthread f, p + 24 := f_fn f, p + 28 := f_fn_arg f)"

text \<open>
  \<open>kthread_create\<close>; \<open>entry\<close> is the address of \<open>kernel_thread\<close>. The page is not checked for
  \<open>NULL\<close>. \<open>memset\<close> clears the PCB, list nodes included, and \<open>strcpy\<close> copies the whole name.
\<close>

definition sizeof_task_struct :: u32 where "sizeof_task_struct = 48"
definition sizeof_kstack_switch :: u32 where "sizeof_kstack_switch = 32"

definition kthread_create ::
    "u32 \<Rightarrow> u32 \<Rightarrow> u32 \<Rightarrow> ptr \<Rightarrow> sched_state \<Rightarrow> stop + ptr \<times> sched_state" where
  "kthread_create entry fn fn_arg name s =
     rbind (page_malloc 1 NULL 1 (mm s)) (\<lambda>(task, m1).
     let mem1 = memset (kmem m1) task 0 sizeof_task_struct;
         null = \<lparr>prev = NULL, nxt = NULL\<rparr>
     in case strcpy mem1 (task + 28) name of
          None \<Rightarrow> Inl Hang
        | Some (_, mem2) \<Rightarrow>
            let ks = task + PG_SIZE - sizeof_kstack_switch;
                pcb = \<lparr>kstack = ks, status = TASK_RUNNING, time_slice = 0, stack_magic = 0x19880802\<rparr>;
                frame = \<lparr>f_ebp = 0, f_ebx = 0, f_edi = 0, f_esi = 0, f_kthread = entry,
                  f_fn = fn, f_fn_arg = fn_arg\<rparr>
            in Inr (task, s\<lparr>mm := m1\<lparr>kmem := mem2\<rparr>,
                 nodes := (nodes s)(task_tag task := null, task_all_tag task := null),
                 tasks := (tasks s)(task := pcb),
                 stk := store_frame ks frame (stk s),
                 saved_intr := (saved_intr s)(task := True)\<rparr>))"

definition main_thread_init :: "ptr \<Rightarrow> sched_state \<Rightarrow> sched_state" where
  "main_thread_init esp s =
     (let task = kthread_current s;
          null = \<lparr>prev = NULL, nxt = NULL\<rparr>;
          pcb = \<lparr>kstack = esp, status = TASK_RUNNING, time_slice = 0, stack_magic = 0x19880802\<rparr>;
          mem1 = (memset (kmem (mm s)) task 0 sizeof_task_struct)(task + 28 := 0x6d, task + 29 := 0x61,
            task + 30 := 0x69, task + 31 := 0x6e, task + 32 := 0);
          s1 = s\<lparr>mm := (mm s)\<lparr>kmem := mem1\<rparr>, g_main_task := task, tasks := (tasks s)(task := pcb),
                 nodes := (nodes s)(task_tag task := null, task_all_tag task := null)\<rparr>
      in kthread_run task s1)"

definition kthread_init :: "u32 \<Rightarrow> u32 \<Rightarrow> ptr \<Rightarrow> ptr \<Rightarrow> sched_state \<Rightarrow> stop + sched_state" where
  "kthread_init entry idle_thread idle_name esp s =
     (let s1 = on_nodes (\<lambda>h. list_init (list_init h (task_ready_list s)) (task_all_list s)) s
      in rbind (kthread_create entry idle_thread NULL idle_name s1) (\<lambda>(idle, s2).
           let s3 = kthread_run idle (s2\<lparr>g_idle_task := idle\<rparr>)
           in Inr (main_thread_init esp s3)))"

section \<open>The scheduler invariant\<close>

text \<open>
  \<open>R\<close> is the ready list and \<open>A\<close> the list of all threads, front first. Every thread but the running
  one is either queued and ready, or not queued and blocked. Until the first switch the running
  (main) thread is itself on the ready list, because \<open>main_thread_init\<close> puts it there.
\<close>

definition links_ok :: "sched_state \<Rightarrow> ptr list \<Rightarrow> ptr list \<Rightarrow> bool" where
  "links_ok s R A \<longleftrightarrow> dlist (nodes s) (task_ready_list s) (map task_tag R) \<and>
     dlist (nodes s) (task_all_list s) (map task_all_tag A) \<and> set R \<subseteq> set A \<and>
     task_tag ` set A \<inter> {task_ready_list s, list_tail (task_ready_list s)} = {} \<and>
     ({task_ready_list s, list_tail (task_ready_list s)} \<union> task_tag ` set A) \<inter>
     ({task_all_list s, list_tail (task_all_list s)} \<union> task_all_tag ` set A) = {}"

definition others_ok :: "sched_state \<Rightarrow> ptr list \<Rightarrow> ptr list \<Rightarrow> bool" where
  "others_ok s R A \<longleftrightarrow> (\<forall>t \<in> set R. status (tasks s t) = TASK_READY) \<and>
     (\<forall>t \<in> set A - set R. t \<noteq> kthread_current s \<longrightarrow> blocked_status (status (tasks s t))) \<and>
     kthread_current s \<in> set A \<and> g_idle_task s \<in> set A"

definition sched_ok :: "sched_state \<Rightarrow> ptr list \<Rightarrow> ptr list \<Rightarrow> bool" where
  "sched_ok s R A \<longleftrightarrow> links_ok s R A \<and> others_ok s R A \<and>
     (kthread_current s \<notin> set R \<longrightarrow> status (tasks s (kthread_current s)) = TASK_RUNNING)"

section \<open>Field lemmas\<close>

named_theorems sched_simps

lemma set_status_fields [sched_simps]:
  "mm (set_status t st s) = mm s" "nodes (set_status t st s) = nodes s"
  "intr_on (set_status t st s) = intr_on s" "saved_intr (set_status t st s) = saved_intr s"
  "g_idle_task (set_status t st s) = g_idle_task s" "g_main_task (set_status t st s) = g_main_task s"
  "task_ready_list (set_status t st s) = task_ready_list s"
  "task_all_list (set_status t st s) = task_all_list s"
  "kthread_current (set_status t st s) = kthread_current s"
  "status (tasks (set_status t st s) x) = (if x = t then st else status (tasks s x))"
  "time_slice (tasks (set_status t st s) x) = time_slice (tasks s x)"
  by (simp_all add: set_status_def kthread_current_def)

lemma set_slice_fields [sched_simps]:
  "mm (set_slice t n s) = mm s" "nodes (set_slice t n s) = nodes s"
  "intr_on (set_slice t n s) = intr_on s" "saved_intr (set_slice t n s) = saved_intr s"
  "g_idle_task (set_slice t n s) = g_idle_task s" "g_main_task (set_slice t n s) = g_main_task s"
  "task_ready_list (set_slice t n s) = task_ready_list s"
  "task_all_list (set_slice t n s) = task_all_list s"
  "kthread_current (set_slice t n s) = kthread_current s"
  "status (tasks (set_slice t n s) x) = status (tasks s x)"
  "time_slice (tasks (set_slice t n s) x) = (if x = t then n else time_slice (tasks s x))"
  by (simp_all add: set_slice_def kthread_current_def)

lemma on_nodes_fields [sched_simps]:
  "mm (on_nodes f s) = mm s" "nodes (on_nodes f s) = f (nodes s)"
  "intr_on (on_nodes f s) = intr_on s" "saved_intr (on_nodes f s) = saved_intr s"
  "g_idle_task (on_nodes f s) = g_idle_task s" "g_main_task (on_nodes f s) = g_main_task s"
  "task_ready_list (on_nodes f s) = task_ready_list s"
  "task_all_list (on_nodes f s) = task_all_list s"
  "kthread_current (on_nodes f s) = kthread_current s" "tasks (on_nodes f s) = tasks s"
  by (simp_all add: on_nodes_def kthread_current_def)

lemma intr_fields [sched_simps]:
  "kthread_current (s\<lparr>intr_on := b\<rparr>) = kthread_current s"
  by (simp add: kthread_current_def)

lemma switch_task_fields [sched_simps]:
  "nodes (switch_task i c t s) = nodes s" "tasks (switch_task i c t s) = tasks s"
  "g_idle_task (switch_task i c t s) = g_idle_task s"
  "g_main_task (switch_task i c t s) = g_main_task s"
  "task_ready_list (switch_task i c t s) = task_ready_list s"
  "task_all_list (switch_task i c t s) = task_all_list s"
  "kthread_current (switch_task i c t s) = t"
  "intr_on (switch_task i c t s) = (if t = c then i else saved_intr s t)"
  "saved_intr (switch_task i c t s) = (saved_intr s)(c := i)"
  by (simp_all add: switch_task_def set_cur_def kthread_current_def Let_def)

lemma task_tag_inj: "inj task_tag" "inj task_all_tag"
  by (simp_all add: inj_def task_tag_def task_all_tag_def)

lemma tag_of_task: "elem2entry 12 (task_tag t) = t"
  by (simp add: elem2entry_def task_tag_def)

section \<open>List moves\<close>

lemma links_okD:
  assumes "links_ok s R A"
  shows "dlist (nodes s) (task_ready_list s) (map task_tag R)"
    "dlist (nodes s) (task_all_list s) (map task_all_tag A)" "set R \<subseteq> set A"
    "task_tag ` set A \<inter> {task_ready_list s, list_tail (task_ready_list s)} = {}"
    "X \<subseteq> {task_ready_list s, list_tail (task_ready_list s)} \<union> task_tag ` set A \<Longrightarrow>
     X \<inter> ({task_all_list s, list_tail (task_all_list s)} \<union> set (map task_all_tag A)) = {}"
proof -
  let ?H = "{task_ready_list s, list_tail (task_ready_list s)} \<union> task_tag ` set A"
    and ?L = "{task_all_list s, list_tail (task_all_list s)} \<union> task_all_tag ` set A"
  note d = assms [unfolded links_ok_def]
  from d have sep: "?H \<inter> ?L = {}" by (elim conjE)
  show "dlist (nodes s) (task_ready_list s) (map task_tag R)" using d by (elim conjE)
  show "dlist (nodes s) (task_all_list s) (map task_all_tag A)" using d by (elim conjE)
  show "set R \<subseteq> set A" using d by (elim conjE)
  show "task_tag ` set A \<inter> {task_ready_list s, list_tail (task_ready_list s)} = {}"
    using d by (elim conjE)
  assume "X \<subseteq> ?H"
  then have "X \<inter> ?L \<subseteq> ?H \<inter> ?L" by (intro Int_mono order_refl)
  then show "X \<inter> ({task_all_list s, list_tail (task_all_list s)} \<union> set (map task_all_tag A)) = {}"
    using sep by (simp only: set_map subset_empty)
qed

lemma links_fresh:
  assumes "links_ok s R A" "t \<in> set A" "t \<notin> set R"
  shows "task_tag t \<notin> {task_ready_list s, list_tail (task_ready_list s)} \<union> set (map task_tag R)"
proof -
  have "task_tag t \<in> task_tag ` set A" using assms(2) by simp
  then have "task_tag t \<notin> {task_ready_list s, list_tail (task_ready_list s)}"
    using links_okD(4) [OF assms(1)] by blast
  moreover have "task_tag t \<notin> set (map task_tag R)"
    using assms(3) by (simp add: inj_image_mem_iff [OF task_tag_inj(1)])
  ultimately show ?thesis by blast
qed

text \<open>Rebuilding the links after the ready list alone changed.\<close>

lemma links_update:
  assumes "links_ok s R A" and "set R' \<subseteq> set A"
    and "dlist h (task_ready_list s) (map task_tag R')"
    and "dlist h (task_all_list s) (map task_all_tag A)"
  shows "links_ok (on_nodes (\<lambda>_. h) s) R' A"
  using assms unfolding links_ok_def by (simp add: sched_simps)

lemma links_append:
  assumes "links_ok s R A" "t \<in> set A" "t \<notin> set R"
  shows "links_ok (on_nodes (\<lambda>h. list_append h (task_ready_list s) (task_tag t)) s) (R @ [t]) A"
proof -
  note l = links_okD [OF assms(1)]
  let ?h = "list_append (nodes s) (task_ready_list s) (task_tag t)"
  note fresh = links_fresh [OF assms]
  have "dlist ?h (task_ready_list s) (map task_tag R @ [task_tag t])" using l(1) fresh by (rule kl.append)
  moreover have "dlist ?h (task_all_list s) (map task_all_tag A)"
    by (rule kl.append_frame [OF l(1,2)], rule l(5)) (use l(3) assms(2) in auto)
  ultimately have "links_ok (on_nodes (\<lambda>_. ?h) s) (R @ [t]) A"
    using l(3) assms(2) by (intro links_update [OF assms(1)]) auto
  then show ?thesis by (simp add: on_nodes_def)
qed

lemma links_push:
  assumes "links_ok s R A" "t \<in> set A" "t \<notin> set R"
  shows "links_ok (on_nodes (\<lambda>h. list_push h (task_ready_list s) (task_tag t)) s) (t # R) A"
proof -
  note l = links_okD [OF assms(1)]
  let ?h = "list_push (nodes s) (task_ready_list s) (task_tag t)"
  note fresh = links_fresh [OF assms]
  have "dlist ?h (task_ready_list s) (task_tag t # map task_tag R)" using l(1) fresh by (rule kl.push)
  moreover have "dlist ?h (task_all_list s) (map task_all_tag A)"
    by (rule kl.push_frame [OF l(1,2)], rule l(5)) (use l(3) assms(2) in auto)
  ultimately have "links_ok (on_nodes (\<lambda>_. ?h) s) (t # R) A"
    using l(3) assms(2) by (intro links_update [OF assms(1)]) auto
  then show ?thesis by (simp add: on_nodes_def)
qed

lemma links_pop:
  assumes "links_ok s (t # R) A"
  shows "list_pop (nodes s) (task_ready_list s) = (task_tag t, list_remove (nodes s) (task_tag t))"
    and "links_ok (on_nodes (\<lambda>h. snd (list_pop h (task_ready_list s))) s) R A"
proof -
  note l = links_okD [OF assms]
  show pop: "list_pop (nodes s) (task_ready_list s) = (task_tag t, list_remove (nodes s) (task_tag t))"
    by (rule kl.pop_Cons) (use l(1) in simp)
  let ?h = "snd (list_pop (nodes s) (task_ready_list s))"
  have "dlist ?h (task_ready_list s) (map task_tag R)" by (rule kl.pop_rest) (use l(1) in simp)
  moreover have "dlist ?h (task_all_list s) (map task_all_tag A)"
    unfolding pop snd_conv
    by (rule kl.remove_frame [of _ _ "[]", OF _ l(2)], use l(1) in simp, rule l(5)) (use l(3) in auto)
  ultimately have "links_ok (on_nodes (\<lambda>_. ?h) s) R A"
    using l(3) by (intro links_update [OF assms]) auto
  then show "links_ok (on_nodes (\<lambda>h. snd (list_pop h (task_ready_list s))) s) R A"
    by (simp add: on_nodes_def)
qed

lemma links_empty: "links_ok s R A \<Longrightarrow> list_empty (nodes s) (task_ready_list s) \<longleftrightarrow> R = []"
  using list_empty_dlist [OF links_okD(1)] by simp

text \<open>The links do not look at the status fields, the flag or the running thread.\<close>

lemma links_cong:
  "nodes s' = nodes s \<Longrightarrow> task_ready_list s' = task_ready_list s \<Longrightarrow>
   task_all_list s' = task_all_list s \<Longrightarrow> links_ok s' R A = links_ok s R A"
  by (simp add: links_ok_def)

section \<open>Unblocking and switching\<close>

lemma kthread_unblock_fields [sched_simps]:
  "mm (kthread_unblock t s) = mm s" "intr_on (kthread_unblock t s) = intr_on s"
  "saved_intr (kthread_unblock t s) = saved_intr s" "stk (kthread_unblock t s) = stk s"
  "g_idle_task (kthread_unblock t s) = g_idle_task s" "g_main_task (kthread_unblock t s) = g_main_task s"
  "task_ready_list (kthread_unblock t s) = task_ready_list s"
  "task_all_list (kthread_unblock t s) = task_all_list s"
  "kthread_current (kthread_unblock t s) = kthread_current s"
  "status (tasks (kthread_unblock t s) x) =
    (if x = t \<and> blocked_status (status (tasks s t)) then TASK_READY else status (tasks s x))"
  by (simp_all add: kthread_unblock_def Let_def kthread_current_def set_status_def on_nodes_def)

lemma kthread_unblock_slice: "time_slice (tasks (kthread_unblock t s) x) = time_slice (tasks s x)"
  by (simp add: kthread_unblock_def Let_def set_status_def on_nodes_def)

lemma kthread_unblock_not_blocked: "\<not> blocked_status (status (tasks s t)) \<Longrightarrow> kthread_unblock t s = s"
  by (simp add: kthread_unblock_def Let_def)

lemma links_unblock:
  assumes "links_ok s R A" "t \<in> set A" "t \<notin> set R" "blocked_status (status (tasks s t))"
  shows "links_ok (kthread_unblock t s) (t # R) A"
proof -
  have "nodes (kthread_unblock t s) =
      nodes (on_nodes (\<lambda>h. list_push h (task_ready_list s) (task_tag t)) s)"
    using assms(4) by (simp add: kthread_unblock_def Let_def set_status_def on_nodes_def)
  then show ?thesis
    using links_push [OF assms(1-3)] by (subst links_cong) (simp_all add: sched_simps)
qed

definition next_queue :: "bool \<Rightarrow> ptr \<Rightarrow> ptr \<Rightarrow> ptr list \<Rightarrow> ptr list" where
  "next_queue running c idle R =
     (let R1 = (if running then R @ [c] else R) in if R1 = [] then [idle] else R1)"

lemma links_distinct: "links_ok s R A \<Longrightarrow> distinct R"
  using links_okD(1) by (auto simp: dlist_def distinct_map)

lemma others_okD:
  assumes "others_ok s R A"
  shows "t \<in> set R \<Longrightarrow> status (tasks s t) = TASK_READY"
    "t \<in> set A \<Longrightarrow> t \<notin> set R \<Longrightarrow> t \<noteq> kthread_current s \<Longrightarrow> blocked_status (status (tasks s t))"
    "kthread_current s \<in> set A" "g_idle_task s \<in> set A"
  using assms by (auto simp: others_ok_def)

lemma ready_not_blocked [simp]: "\<not> blocked_status TASK_READY" "\<not> blocked_status TASK_RUNNING"
  by (simp_all add: blocked_status_def)

text \<open>The part of \<open>schedule\<close> before the queue is popped.\<close>

definition requeue :: "sched_state \<Rightarrow> sched_state" where
  "requeue s =
     (let c = kthread_current s
      in if TASK_RUNNING = status (tasks s c)
         then on_nodes (\<lambda>h. list_append h (task_ready_list s) (task_tag c))
                (set_slice c SCHED_RR_TIME_SLICE (set_status c TASK_READY s))
         else s)"

definition ensure_ready :: "sched_state \<Rightarrow> sched_state" where
  "ensure_ready s = (if list_empty (nodes s) (task_ready_list s) then kthread_unblock (g_idle_task s) s else s)"

definition dispatch :: "bool \<Rightarrow> ptr \<Rightarrow> sched_state \<Rightarrow> sched_state" where
  "dispatch intr_stat c s =
     (let t = elem2entry 12 (fst (list_pop (nodes s) (task_ready_list s)))
      in switch_task intr_stat c t
           (set_status t TASK_RUNNING (on_nodes (\<lambda>h. snd (list_pop h (task_ready_list s))) s)))"

lemma schedule_steps:
  "schedule i s = dispatch i (kthread_current s) (ensure_ready (requeue s))"
  by (simp add: schedule_def requeue_def ensure_ready_def dispatch_def Let_def)

lemma schedule_slice:
  "time_slice (tasks (schedule i s) x) =
     (if x = kthread_current s \<and> status (tasks s x) = TASK_RUNNING then SCHED_RR_TIME_SLICE else time_slice (tasks s x))"
  by (auto simp: schedule_steps dispatch_def ensure_ready_def requeue_def Let_def sched_simps kthread_unblock_slice)

lemma schedule_main: "g_main_task (schedule i s) = g_main_task s"
  by (simp add: schedule_steps dispatch_def ensure_ready_def requeue_def Let_def sched_simps)

lemma requeue_fields [sched_simps]:
  "kthread_current (requeue s) = kthread_current s" "g_idle_task (requeue s) = g_idle_task s"
  "saved_intr (requeue s) = saved_intr s"
  "status (tasks (requeue s) x) = (if x = kthread_current s \<and> status (tasks s x) = TASK_RUNNING
     then TASK_READY else status (tasks s x))"
  by (auto simp: requeue_def Let_def sched_simps)

lemma links_requeue:
  assumes l: "links_ok s R A" and c: "kthread_current s \<in> set A"
    and "status (tasks s (kthread_current s)) = TASK_RUNNING \<Longrightarrow> kthread_current s \<notin> set R"
  shows "links_ok (requeue s)
    (if status (tasks s (kthread_current s)) = TASK_RUNNING then R @ [kthread_current s] else R) A"
proof (cases "status (tasks s (kthread_current s)) = TASK_RUNNING")
  case True
  let ?c = "kthread_current s"
  have "links_ok (on_nodes (\<lambda>h. list_append h (task_ready_list s) (task_tag ?c)) s) (R @ [?c]) A"
    using assms True by (intro links_append) simp_all
  then have "links_ok (requeue s) (R @ [?c]) A"
    by (subst links_cong) (simp_all add: requeue_def True Let_def sched_simps)
  then show ?thesis by (simp add: True)
qed (use l in \<open>auto simp: requeue_def Let_def\<close>)

lemma others_requeue:
  assumes "others_ok s R A"
  shows "others_ok (requeue s)
    (if status (tasks s (kthread_current s)) = TASK_RUNNING then R @ [kthread_current s] else R) A"
  using assms by (auto simp: others_ok_def sched_simps)

text \<open>Dispatching the head of a queue all of whose other threads are in order.\<close>

lemma dispatch_ok:
  assumes l: "links_ok s (t # R) A" and o: "others_ok s (t # R) A"
    and c: "kthread_current s \<notin> set (t # R) \<Longrightarrow> blocked_status (status (tasks s (kthread_current s)))"
  shows "sched_ok (dispatch i (kthread_current s) s) R A"
    and "kthread_current (dispatch i (kthread_current s) s) = t"
    and "status (tasks (dispatch i (kthread_current s) s) x) =
      (if x = t then TASK_RUNNING else status (tasks s x))"
    and "intr_on (dispatch i (kthread_current s) s) = (if t = kthread_current s then i else saved_intr s t)"
    and "saved_intr (dispatch i (kthread_current s) s) = (saved_intr s)(kthread_current s := i)"
proof -
  let ?c = "kthread_current s" and ?s = "dispatch i (kthread_current s) s"
  have pop: "elem2entry 12 (fst (list_pop (nodes s) (task_ready_list s))) = t"
    by (simp add: links_pop(1) [OF l] tag_of_task)
  show cur: "kthread_current ?s = t" "intr_on ?s = (if t = ?c then i else saved_intr s t)"
      "saved_intr ?s = (saved_intr s)(?c := i)"
    by (simp_all add: dispatch_def pop sched_simps)
  show st: "status (tasks ?s x) = (if x = t then TASK_RUNNING else status (tasks s x))" for x
    by (simp add: dispatch_def pop sched_simps)
  have "links_ok ?s R A"
    using links_pop(2) [OF l] by (subst links_cong) (simp_all add: dispatch_def pop sched_simps)
  moreover have "t \<notin> set R" using links_distinct [OF l] by simp
  moreover have "t \<in> set A" using links_okD(3) [OF l] by simp
  moreover have "g_idle_task ?s = g_idle_task s" by (simp add: dispatch_def pop sched_simps)
  ultimately show "sched_ok ?s R A"
    using others_okD [OF o] c unfolding sched_ok_def others_ok_def cur st by auto
qed

text \<open>A state in which \<open>schedule\<close> may be called: the status of the running thread is still open.\<close>

definition may_schedule :: "sched_state \<Rightarrow> ptr list \<Rightarrow> ptr list \<Rightarrow> bool" where
  "may_schedule s R A \<longleftrightarrow> links_ok s R A \<and> others_ok s R A \<and>
     (kthread_current s \<notin> set R \<longrightarrow> status (tasks s (kthread_current s)) = TASK_RUNNING \<or>
        blocked_status (status (tasks s (kthread_current s))))"

lemma sched_ok_may: "sched_ok s R A \<Longrightarrow> may_schedule s R A"
  by (auto simp: sched_ok_def may_schedule_def)

definition upcoming :: "sched_state \<Rightarrow> ptr list \<Rightarrow> ptr list" where
  "upcoming s R = next_queue (status (tasks s (kthread_current s)) = TASK_RUNNING)
     (kthread_current s) (g_idle_task s) R"

lemma schedule_dispatch:
  assumes "may_schedule s R A"
  shows "\<exists>s2. links_ok s2 (upcoming s R) A \<and> others_ok s2 (upcoming s R) A \<and>
    kthread_current s2 = kthread_current s \<and> saved_intr s2 = saved_intr s \<and>
    (kthread_current s \<notin> set (upcoming s R) \<longrightarrow> blocked_status (status (tasks s2 (kthread_current s)))) \<and>
    (\<forall>y. y \<noteq> hd (upcoming s R) \<longrightarrow> status (tasks s2 y) =
      (if y = kthread_current s \<and> status (tasks s y) = TASK_RUNNING then TASK_READY else status (tasks s y))) \<and>
    schedule i s = dispatch i (kthread_current s2) s2"
proof -
  let ?c = "kthread_current s" and ?run = "status (tasks s (kthread_current s)) = TASK_RUNNING"
  let ?R = "if ?run then R @ [?c] else R"
  have l: "links_ok s R A" and o: "others_ok s R A"
    and st: "?c \<notin> set R \<Longrightarrow> ?run \<or> blocked_status (status (tasks s ?c))"
    using assms by (simp_all add: may_schedule_def)
  have nin: "?run \<Longrightarrow> ?c \<notin> set R" using others_okD(1) [OF o] by auto
  define s1 where "s1 = requeue s"
  have l1: "links_ok s1 ?R A" unfolding s1_def by (rule links_requeue [OF l others_okD(3) [OF o] nin])
  have o1: "others_ok s1 ?R A" unfolding s1_def by (rule others_requeue [OF o])
  have c1: "kthread_current s1 = ?c" "g_idle_task s1 = g_idle_task s" "saved_intr s1 = saved_intr s"
    by (simp_all add: s1_def sched_simps)
  have st1: "status (tasks s1 y) = (if y = ?c \<and> status (tasks s y) = TASK_RUNNING then TASK_READY
      else status (tasks s y))" for y
    by (simp add: s1_def sched_simps)
  have eq: "schedule i s = dispatch i ?c (ensure_ready s1)" by (simp add: schedule_steps s1_def)
  show ?thesis
  proof (cases "?R = []")
    case True
    let ?t = "g_idle_task s"
    have up: "upcoming s R = [?t]" using True by (simp add: upcoming_def next_queue_def Let_def)
    have run: "\<not> ?run" "R = []" using True by (auto split: if_splits)
    have bl: "blocked_status (status (tasks s1 ?t))"
      using others_okD(2) [OF o1, of ?t] others_okD(4) [OF o1] st run
      by (cases "?t = ?c") (auto simp: st1 c1)
    have cb: "blocked_status (status (tasks s1 ?c))" using st run by (simp add: st1)
    have s2: "ensure_ready s1 = kthread_unblock ?t s1"
      using links_empty [OF l1] True by (simp add: ensure_ready_def c1)
    have "links_ok (kthread_unblock ?t s1) [?t] A"
      using links_unblock [OF l1, of ?t] others_okD(4) [OF o1] bl c1 True by simp
    moreover have "others_ok (kthread_unblock ?t s1) [?t] A"
      using o1 bl True by (auto simp: others_ok_def sched_simps)
    ultimately show ?thesis
      using eq cb unfolding up s2 by (intro exI [of _ "kthread_unblock ?t s1"]) (auto simp: c1 st1 sched_simps)
  next
    case False
    have up: "upcoming s R = ?R" using False unfolding upcoming_def next_queue_def Let_def by (rule if_not_P)
    have s2: "ensure_ready s1 = s1" using links_empty [OF l1] False by (simp add: ensure_ready_def)
    have "?c \<notin> set ?R \<Longrightarrow> blocked_status (status (tasks s1 ?c))"
      using st by (auto simp: st1 split: if_splits)
    then show ?thesis using l1 o1 eq c1 unfolding up s2 by (intro exI [of _ s1]) (simp add: st1)
  qed
qed

lemma schedule_ok:
  assumes "may_schedule s R A"
  shows "sched_ok (schedule i s) (tl (upcoming s R)) A"
    and "kthread_current (schedule i s) = hd (upcoming s R)"
    and "status (tasks (schedule i s) x) = (if x = hd (upcoming s R) then TASK_RUNNING
      else if x = kthread_current s \<and> status (tasks s x) = TASK_RUNNING then TASK_READY
      else status (tasks s x))"
    and "saved_intr (schedule i s) = (saved_intr s)(kthread_current s := i)"
    and "intr_on (schedule i s) =
      (if hd (upcoming s R) = kthread_current s then i else saved_intr s (hd (upcoming s R)))"
proof -
  obtain t Q where up: "upcoming s R = t # Q"
    by (cases "upcoming s R") (auto simp: upcoming_def next_queue_def Let_def split: if_splits)
  obtain s2 where s2: "links_ok s2 (t # Q) A" "others_ok s2 (t # Q) A"
      "kthread_current s2 = kthread_current s" "saved_intr s2 = saved_intr s"
      "kthread_current s \<notin> set (t # Q) \<longrightarrow> blocked_status (status (tasks s2 (kthread_current s)))"
      "\<forall>y. y \<noteq> t \<longrightarrow> status (tasks s2 y) = (if y = kthread_current s \<and>
        status (tasks s y) = TASK_RUNNING then TASK_READY else status (tasks s y))"
      "schedule i s = dispatch i (kthread_current s2) s2"
    using schedule_dispatch [OF assms, of i] unfolding up list.sel by blast
  have c: "kthread_current s2 \<notin> set (t # Q) \<Longrightarrow> blocked_status (status (tasks s2 (kthread_current s2)))"
    using s2(3,5) by simp
  note d = dispatch_ok [OF s2(1,2) c, of i, folded s2(7)]
  show "sched_ok (schedule i s) (tl (upcoming s R)) A" using d(1) by (simp add: up)
  show "kthread_current (schedule i s) = hd (upcoming s R)"
    "intr_on (schedule i s) =
      (if hd (upcoming s R) = kthread_current s then i else saved_intr s (hd (upcoming s R)))"
    "saved_intr (schedule i s) = (saved_intr s)(kthread_current s := i)"
    using d(2,4,5) by (simp_all add: up s2(3,4))
  show "status (tasks (schedule i s) x) = (if x = hd (upcoming s R) then TASK_RUNNING
      else if x = kthread_current s \<and> status (tasks s x) = TASK_RUNNING then TASK_READY
      else status (tasks s x))"
    using d(3) [of x] s2(6) by (simp add: up)
qed

section \<open>The operations keep the invariant\<close>

text \<open>After the first switch the running thread is not on the ready list.\<close>

definition running_ok :: "sched_state \<Rightarrow> ptr list \<Rightarrow> ptr list \<Rightarrow> bool" where
  "running_ok s R A \<longleftrightarrow> sched_ok s R A \<and> kthread_current s \<notin> set R"

lemma upcoming_sub: "may_schedule s R A \<Longrightarrow> distinct (upcoming s R)"
  using links_distinct [of s R A] others_okD(1) [of s R A "kthread_current s"]
  by (auto simp: may_schedule_def upcoming_def next_queue_def Let_def)

lemma schedule_running: "may_schedule s R A \<Longrightarrow> running_ok (schedule i s) (tl (upcoming s R)) A"
  using schedule_ok(1,2) [of s R A i] upcoming_sub [of s R A]
  by (cases "upcoming s R") (auto simp: running_ok_def upcoming_def next_queue_def Let_def)

lemma running_okD:
  assumes "running_ok s R A"
  shows "links_ok s R A" "others_ok s R A" "status (tasks s (kthread_current s)) = TASK_RUNNING"
    "kthread_current s \<notin> set R" "may_schedule s R A"
  using assms by (auto simp: running_ok_def sched_ok_def may_schedule_def)

lemma upcoming_running: "running_ok s R A \<Longrightarrow> upcoming s R = R @ [kthread_current s]"
  by (simp add: upcoming_def next_queue_def running_okD(3))

text \<open>Preemption by the timer: rotate.\<close>

lemma preempt_ok:
  assumes "running_ok s R A"
  shows "running_ok (schedule i s) (tl (R @ [kthread_current s])) A"
    and "kthread_current (schedule i s) = hd (R @ [kthread_current s])"
  using schedule_running [OF running_okD(5) [OF assms]] schedule_ok(2) [OF running_okD(5) [OF assms]]
  by (simp_all add: upcoming_running [OF assms])

lemma status_cur_ok:
  assumes "running_ok s R A" "st = TASK_RUNNING \<or> blocked_status st"
  shows "may_schedule (set_status (kthread_current s) st (s\<lparr>intr_on := b\<rparr>)) R A"
proof -
  let ?s = "set_status (kthread_current s) st (s\<lparr>intr_on := b\<rparr>)"
  have c: "kthread_current ?s = kthread_current s" by (simp add: sched_simps)
  have "links_ok ?s R A" using running_okD(1) [OF assms(1)] by (subst links_cong) (simp_all add: sched_simps)
  moreover have "others_ok ?s R A"
    using running_okD(2,4) [OF assms(1)] unfolding others_ok_def c by (auto simp: sched_simps)
  ultimately show ?thesis using assms(2) by (simp add: may_schedule_def sched_simps)
qed

lemma kthread_block_ok:
  assumes "running_ok s R A"
  shows "running_ok (kthread_block st s)
    (if blocked_status st then (if R = [] then [] else tl R) else R) A"
    and "kthread_current (kthread_block st s) =
      (if blocked_status st then (if R = [] then g_idle_task s else hd R) else kthread_current s)"
proof -
  let ?s = "set_status (kthread_current s) st (s\<lparr>intr_on := False\<rparr>)"
  have "running_ok (kthread_block st s) (if R = [] then [] else tl R) A \<and>
      kthread_current (kthread_block st s) = (if R = [] then g_idle_task s else hd R)"
    if b: "blocked_status st"
  proof -
    have m: "may_schedule ?s R A" using status_cur_ok [OF assms] b by blast
    have "st \<noteq> TASK_RUNNING" using b by auto
    then have up: "upcoming ?s R = (if R = [] then [g_idle_task s] else R)"
      by (simp add: upcoming_def next_queue_def sched_simps)
    have "kthread_block st s = schedule (intr_on s) ?s"
      using b by (simp add: kthread_block_def Let_def sched_simps)
    then show ?thesis
      using schedule_running [OF m, of "intr_on s"] schedule_ok(2) [OF m, of "intr_on s"] up
      by (cases "R = []") simp_all
  qed
  moreover have "kthread_block st s = s" if "\<not> blocked_status st"
    using that by (simp add: kthread_block_def Let_def)
  ultimately show "running_ok (kthread_block st s)
      (if blocked_status st then (if R = [] then [] else tl R) else R) A"
    and "kthread_current (kthread_block st s) =
      (if blocked_status st then (if R = [] then g_idle_task s else hd R) else kthread_current s)"
    using assms by auto
qed

lemma kthread_yield_ok:
  assumes "running_ok s R A"
  shows "running_ok (kthread_yield s) (tl (R @ [kthread_current s])) A"
    and "kthread_current (kthread_yield s) = hd (R @ [kthread_current s])"
proof -
  let ?c = "kthread_current s"
  define s2 where "s2 = set_status ?c TASK_READY (s\<lparr>intr_on := False\<rparr>)"
  define s3 where "s3 = on_nodes (\<lambda>h. list_append h (task_ready_list s) (task_tag ?c)) s2"
  have f: "kthread_current s3 = ?c" "g_idle_task s3 = g_idle_task s"
      "\<And>x. status (tasks s3 x) = (if x = ?c then TASK_READY else status (tasks s x))"
    by (simp_all add: s3_def s2_def sched_simps)
  have "links_ok s2 R A"
    using running_okD(1) [OF assms] by (subst links_cong) (simp_all add: s2_def sched_simps)
  moreover have "task_ready_list s2 = task_ready_list s" by (simp add: s2_def sched_simps)
  ultimately have "links_ok s3 (R @ [?c]) A"
    using links_append [of s2 R A ?c] others_okD(3) [OF running_okD(2) [OF assms]]
      running_okD(4) [OF assms] by (simp add: s3_def)
  moreover have "others_ok s3 (R @ [?c]) A"
    using running_okD(2) [OF assms] by (auto simp: others_ok_def f)
  ultimately have m: "may_schedule s3 (R @ [?c]) A" by (simp add: may_schedule_def f)
  have up: "upcoming s3 (R @ [?c]) = R @ [?c]" by (simp add: upcoming_def next_queue_def f)
  have "kthread_yield s = schedule (intr_on s) s3"
    by (simp add: kthread_yield_def Let_def s3_def s2_def sched_simps)
  then show "running_ok (kthread_yield s) (tl (R @ [?c])) A"
    and "kthread_current (kthread_yield s) = hd (R @ [?c])"
    using schedule_running [OF m, of "intr_on s"] schedule_ok(2) [OF m, of "intr_on s"] up by simp_all
qed

lemma kthread_unblock_ok:
  assumes "running_ok s R A" "t \<in> set A"
  shows "running_ok (kthread_unblock t s)
    (if blocked_status (status (tasks s t)) then t # R else R) A"
proof (cases "blocked_status (status (tasks s t))")
  case True
  have ne: "t \<noteq> kthread_current s" using True running_okD(3) [OF assms(1)] by auto
  have nin: "t \<notin> set R" using True others_okD(1) [OF running_okD(2) [OF assms(1)]] by auto
  have "links_ok (kthread_unblock t s) (t # R) A"
    by (rule links_unblock [OF running_okD(1) [OF assms(1)] assms(2) nin True])
  moreover have "others_ok (kthread_unblock t s) (t # R) A"
    using running_okD(2) [OF assms(1)] True by (auto simp: others_ok_def sched_simps)
  ultimately show ?thesis
    using True ne running_okD(3,4) [OF assms(1)] by (auto simp: running_ok_def sched_ok_def sched_simps)
next
  case False
  then show ?thesis using assms(1) by (simp add: kthread_unblock_not_blocked)
qed

section \<open>Sequences of operations\<close>

datatype sched_op = Tick_expired | Yield | Block task_status | Unblock ptr

fun sched_step :: "sched_op \<Rightarrow> sched_state \<Rightarrow> sched_state" where
  "sched_step Tick_expired s = schedule True s"
| "sched_step Yield s = kthread_yield s"
| "sched_step (Block st) s = kthread_block st s"
| "sched_step (Unblock t) s = kthread_unblock t s"

fun op_ok :: "ptr list \<Rightarrow> sched_op \<Rightarrow> bool" where
  "op_ok A (Unblock t) \<longleftrightarrow> t \<in> set A"
| "op_ok A _ \<longleftrightarrow> True"

lemma sched_step_ok: "running_ok s R A \<Longrightarrow> op_ok A q \<Longrightarrow> \<exists>R'. running_ok (sched_step q s) R' A"
  using preempt_ok(1) [of s R A True] kthread_yield_ok(1) [of s R A] kthread_block_ok(1) [of s R A]
    kthread_unblock_ok [of s R A]
  by (cases q) (auto intro: exI)

lemma sched_steps_ok:
  "running_ok s R A \<Longrightarrow> list_all (op_ok A) qs \<Longrightarrow> \<exists>R'. running_ok (fold sched_step qs s) R' A"
proof (induction qs arbitrary: s R)
  case (Cons q qs)
  then obtain R1 where "running_ok (sched_step q s) R1 A" using sched_step_ok by fastforce
  then show ?case using Cons by simp
qed auto

text \<open>Yields walk through the ready list in order.\<close>

lemma yields_rotate:
  "running_ok s R A \<Longrightarrow> k < length R \<Longrightarrow>
   kthread_current ((kthread_yield ^^ Suc k) s) = R ! k"
proof (induction k arbitrary: s R)
  case 0
  then show ?case using kthread_yield_ok(2) [OF 0(1)] by (cases R) auto
next
  case (Suc k)
  let ?R = "tl (R @ [kthread_current s])"
  have "?R ! k = R ! Suc k" "k < length ?R"
    using Suc.prems(2) by (auto simp: nth_tl nth_append)
  then show ?case
    using Suc.IH [OF kthread_yield_ok(1) [OF Suc.prems(1)]] by (simp only: funpow_Suc_right o_apply)
qed

section \<open>A thread lost by \<open>kthread_exit\<close>\<close>

text \<open>
  Popping a thread leaves its own links as they were: they point at the list head and at the
  thread that was second then. \<open>kthread_exit\<close> unlinks the running thread through these links.
\<close>

lemma popped_links:
  assumes "links_ok s (t # R) A"
  defines "h \<equiv> snd (list_pop (nodes s) (task_ready_list s))"
  shows "prev (h (task_tag t)) = task_ready_list s"
    and "nxt (h (task_tag t)) = hd (map task_tag R @ [list_tail (task_ready_list s)])"
proof -
  have d: "dlist (nodes s) (task_ready_list s) (task_tag t # map task_tag R)"
    using links_okD(1) [OF assms(1)] by simp
  then have seg: "prev (nodes s (task_tag t)) = task_ready_list s"
      "dseg (nodes s) (task_tag t) (map task_tag R) (list_tail (task_ready_list s))"
      "distinct (task_ready_list s # list_tail (task_ready_list s) # task_tag t # map task_tag R)"
    by (simp_all add: dlist_def)
  have n: "nxt (nodes s (task_tag t)) = hd (map task_tag R @ [list_tail (task_ready_list s)])"
    by (rule dseg_nxt [OF seg(2)])
  have h: "h = list_remove (nodes s) (task_tag t)"
    unfolding h_def by (simp add: links_pop(1) [OF assms(1)])
  have "hd (map task_tag R @ [list_tail (task_ready_list s)]) \<noteq> task_tag t"
    using seg(3) by (cases R) auto
  then show "prev (h (task_tag t)) = task_ready_list s"
    and "nxt (h (task_tag t)) = hd (map task_tag R @ [list_tail (task_ready_list s)])"
    using seg(1,3) n by (auto simp: h list_remove_def Let_def)
qed

definition just_popped :: "sched_state \<Rightarrow> ptr list \<Rightarrow> bool" where
  "just_popped s R \<longleftrightarrow>
     prev (nodes s (task_tag (kthread_current s))) = task_ready_list s \<and>
     nxt (nodes s (task_tag (kthread_current s))) = hd (map task_tag R @ [list_tail (task_ready_list s)])"

lemma dispatch_just_popped:
  assumes "links_ok s (t # R) A"
  shows "just_popped (dispatch i c s) R"
  using popped_links [OF assms]
  by (simp add: just_popped_def dispatch_def links_pop(1) [OF assms] tag_of_task sched_simps)

lemma schedule_just_popped:
  assumes "may_schedule s R A"
  shows "just_popped (schedule i s) (tl (upcoming s R))"
proof -
  obtain s2 where "links_ok s2 (upcoming s R) A" "schedule i s = dispatch i (kthread_current s2) s2"
    using schedule_dispatch [OF assms] by blast
  moreover obtain t Q where "upcoming s R = t # Q"
    by (cases "upcoming s R") (auto simp: upcoming_def next_queue_def Let_def split: if_splits)
  ultimately show ?thesis using dispatch_just_popped by simp
qed

text \<open>Unlinking through stale links: harmless while the front is the same, and else the removal of
  whatever was pushed in front since.\<close>

lemma stale_remove_same:
  assumes "dlist h p xs" "prev (h e) = p" "nxt (h e) = hd (xs @ [list_tail p])" "e \<noteq> p"
  shows "list_remove h e = h"
proof -
  have s: "dseg h p xs (list_tail p)" using assms(1) by (simp add: dlist_def)
  have "nxt (h p) = hd (xs @ [list_tail p])" by (rule dseg_nxt [OF s])
  moreover have "prev (h (hd (xs @ [list_tail p]))) = p"
    using s by (cases xs) auto
  ultimately show ?thesis
    using assms(2-4)
    by (intro ext list_elem.equality) (auto simp: list_remove_def Let_def)
qed

lemma stale_remove_front:
  assumes "dlist h p (x # xs)" "prev (h e) = p" "nxt (h e) = hd (xs @ [list_tail p])" "e \<noteq> p"
  shows "list_remove h e = list_remove h x"
proof -
  have s: "prev (h x) = p" "dseg h x xs (list_tail p)" "x \<noteq> p" using assms(1) by (auto simp: dlist_def)
  have "nxt (h x) = hd (xs @ [list_tail p])" by (rule dseg_nxt [OF s(2)])
  then show ?thesis using assms(2-4) s(1,3) by (simp add: list_remove_def Let_def)
qed

lemma unblock_keeps_links:
  assumes r: "running_ok s R A" and t: "t \<in> set A" "blocked_status (status (tasks s t))"
  shows "nodes (kthread_unblock t s) (task_tag (kthread_current s)) = nodes s (task_tag (kthread_current s))"
proof -
  let ?p = "task_ready_list s" and ?c = "kthread_current s"
  note l = running_okD(1) [OF r]
  have ne: "t \<noteq> ?c" using t(2) running_okD(3) [OF r] by auto
  have fr: "task_tag ?c \<notin> {?p, list_tail ?p} \<union> set (map task_tag R)"
    by (rule links_fresh [OF l others_okD(3) [OF running_okD(2) [OF r]] running_okD(4) [OF r]])
  have "task_tag ?c \<noteq> task_tag t" using ne by (simp add: task_tag_def)
  then have "list_push (nodes s) ?p (task_tag t) (task_tag ?c) = nodes s (task_tag ?c)"
    using fr dlist_insert_frame [of "nodes s" ?p "[]" "map task_tag R" "task_tag ?c" "task_tag t"]
      links_okD(1) [OF l] by (simp add: list_push_eq)
  then show ?thesis using t(2) by (simp add: kthread_unblock_def Let_def set_status_def on_nodes_def)
qed

text \<open>Dispatch with nothing but the two lists in order.\<close>

lemma dispatch_lists:
  assumes "dlist (nodes s) (task_ready_list s) (map task_tag (t # R))"
  shows "kthread_current (dispatch i c s) = t"
    and "dlist (nodes (dispatch i c s)) (task_ready_list s) (map task_tag R)"
    and "status (tasks (dispatch i c s) x) = (if x = t then TASK_RUNNING else status (tasks s x))"
proof -
  have d: "dlist (nodes s) (task_ready_list s) (task_tag t # map task_tag R)" using assms by simp
  have pop: "list_pop (nodes s) (task_ready_list s) = (task_tag t, list_remove (nodes s) (task_tag t))"
    by (rule kl.pop_Cons [OF d])
  show "kthread_current (dispatch i c s) = t"
    and "status (tasks (dispatch i c s) x) = (if x = t then TASK_RUNNING else status (tasks s x))"
    by (simp_all add: dispatch_def pop tag_of_task sched_simps)
  show "dlist (nodes (dispatch i c s)) (task_ready_list s) (map task_tag R)"
    using kl.pop_rest [OF d] by (simp add: dispatch_def Let_def sched_simps)
qed

lemma exit_unlinks:
  assumes ready: "dlist h p (map task_tag R)" and all: "dlist h q (map task_all_tag A)" and c: "c \<in> set A"
    and dis: "({p, list_tail p} \<union> set (map task_tag R)) \<inter> ({q, list_tail q} \<union> set (map task_all_tag A)) = {}"
  shows "dlist (list_remove h (task_all_tag c)) p (map task_tag R)"
proof -
  obtain xs ys where A: "A = xs @ c # ys" using c by (auto simp: in_set_conv_decomp)
  have "dlist h q (map task_all_tag xs @ task_all_tag c # map task_all_tag ys)" using all A by simp
  then show ?thesis
    by (rule kl.remove_frame [OF _ ready]) (use dis A in auto)
qed

text \<open>What main has unlinked when it calls \<open>schedule\<close> for the last time.\<close>

definition exit_unlinked :: "sched_state \<Rightarrow> sched_state" where
  "exit_unlinked s = on_nodes (\<lambda>h. list_remove h (task_all_tag (kthread_current s)))
     (on_nodes (\<lambda>h. list_remove h (task_tag (kthread_current s))) (set_status (kthread_current s) TASK_DIED (s\<lparr>intr_on := False\<rparr>)))"

lemma kthread_exit_main:
  "kthread_current s = g_main_task s \<Longrightarrow> kthread_exit s = Inr (schedule (intr_on s) (exit_unlinked s))"
  by (simp add: kthread_exit_def exit_unlinked_def Let_def sched_simps)

text \<open>What is left of the two lists when the running thread has unlinked itself and left.\<close>

lemma exit_state:
  assumes main: "kthread_current s = g_main_task s" and ne: "R \<noteq> []" and c: "kthread_current s \<in> set A"
    and lists: "dlist (list_remove (nodes s) (task_tag (kthread_current s))) (task_ready_list s) (map task_tag R)"
      "dlist (list_remove (nodes s) (task_tag (kthread_current s))) (task_all_list s) (map task_all_tag A)"
    and dis: "({task_ready_list s, list_tail (task_ready_list s)} \<union> set (map task_tag R)) \<inter>
      ({task_all_list s, list_tail (task_all_list s)} \<union> set (map task_all_tag A)) = {}"
  obtains s' where "kthread_exit s = Inr s'" and "kthread_current s' = hd R"
    and "dlist (nodes s') (task_ready_list s) (map task_tag (tl R))"
    and "\<forall>x. status (tasks s' x) = (if x = hd R then TASK_RUNNING
      else if x = kthread_current s then TASK_DIED else status (tasks s x))"
proof -
  let ?c = "kthread_current s"
  define s5 where "s5 = exit_unlinked s"
  have f: "nodes s5 = list_remove (list_remove (nodes s) (task_tag ?c)) (task_all_tag ?c)"
      "task_ready_list s5 = task_ready_list s" "kthread_current s5 = ?c"
      "\<And>x. status (tasks s5 x) = (if x = ?c then TASK_DIED else status (tasks s x))"
    by (simp_all add: s5_def exit_unlinked_def sched_simps)
  have d: "dlist (nodes s5) (task_ready_list s5) (map task_tag R)"
    unfolding f by (rule exit_unlinks [OF lists c dis])
  have "requeue s5 = s5" by (simp add: requeue_def f Let_def)
  moreover have "ensure_ready s5 = s5" using list_empty_dlist [OF d] ne by (simp add: ensure_ready_def)
  ultimately have e: "kthread_exit s = Inr (dispatch (intr_on s) ?c s5)"
    by (simp add: kthread_exit_main [OF main] schedule_steps f(3) flip: s5_def)
  have d': "dlist (nodes s5) (task_ready_list s5) (map task_tag (hd R # tl R))" using d ne by simp
  show thesis
    using dispatch_lists [OF d', of "intr_on s" ?c] by (intro that [OF e]) (simp_all add: f)
qed

section \<open>Properties\<close>

text \<open>C2: The scheduler is round robin. From a running state whose ready list is \<open>R\<close>, a tick that ends
  the time slice makes the head of \<open>R @ [current]\<close> run and leaves the rest as the ready list; the
  old thread is ready (it keeps running when it was the only one), and in either case it has a full
  time slice again, while the other threads keep what they have left of theirs. The state is again in
  order: both lists well linked, every thread running, ready and queued, or blocked and not queued.\<close>

theorem schedule_round_robin:
  assumes "running_ok s R A"
  shows "running_ok (schedule i s) (tl (R @ [kthread_current s])) A \<and>
    kthread_current (schedule i s) = hd (R @ [kthread_current s]) \<and>
    status (tasks (schedule i s) (hd (R @ [kthread_current s]))) = TASK_RUNNING \<and>
    (R \<noteq> [] \<longrightarrow> status (tasks (schedule i s) (kthread_current s)) = TASK_READY) \<and>
    time_slice (tasks (schedule i s) (kthread_current s)) = SCHED_RR_TIME_SLICE \<and>
    (\<forall>t. t \<noteq> kthread_current s \<longrightarrow> time_slice (tasks (schedule i s) t) = time_slice (tasks s t))"
proof -
  have "R \<noteq> [] \<Longrightarrow> hd (R @ [kthread_current s]) \<noteq> kthread_current s"
    using running_okD(4) [OF assms] by (cases R) auto
  then show ?thesis
    using preempt_ok [OF assms] schedule_ok(3) [OF running_okD(5) [OF assms], of i]
      running_okD(3) [OF assms] upcoming_running [OF assms]
    by (cases "R = []") (simp_all add: schedule_slice)
qed

text \<open>C3: No sequence of expired ticks, yields, blocks and unblocks (of known threads) loses a thread
  or breaks a list: afterwards the ready list is again well linked and every thread is the running
  one, or ready and queued, or blocked.\<close>

theorem scheduler_invariant:
  assumes "running_ok s R A" and "list_all (op_ok A) qs"
  shows "\<exists>R'. running_ok (fold sched_step qs s) R' A"
  by (rule sched_steps_ok [OF assms])

text \<open>C38: Yielding is fair: after \<open>k + 1\<close> yields (\<open>kthread_yield\<close>, each by the thread then running)
  the thread that was at position \<open>k\<close> of the ready list runs.\<close>

theorem yield_fair:
  assumes "running_ok s R A" and "k < length R"
  shows "kthread_current ((kthread_yield ^^ Suc k) s) = R ! k"
  by (rule yields_rotate [OF assms])

text \<open>C39: \<open>kthread_exit\<close> of the main thread loses a thread. Main is switched to, and while it runs a
  blocked thread \<open>t\<close> is unblocked, by main or by an interrupt handler. When main then exits, it
  unlinks itself through the links it had when it was popped from the ready list: \<open>t\<close>, which was
  pushed in front since, drops out of the list. The exit returns to the next ready thread; \<open>t\<close> stays
  \<open>TASK_READY\<close>, is not on the ready list, and a further \<open>kthread_unblock\<close> has no effect on it.\<close>

theorem exit_loses_unblocked:
  assumes "may_schedule s0 R0 A" and "tl (upcoming s0 R0) = R" and "R \<noteq> []"
    and "s = schedule i s0" and "kthread_current s = g_main_task s" and "t \<in> set A" and "blocked_status (status (tasks s t))"
  shows "\<exists>s'. kthread_exit (kthread_unblock t s) = Inr s' \<and> dlist (nodes s') (task_ready_list s) (map task_tag (tl R)) \<and>
    t \<notin> set R \<and> status (tasks s' t) = TASK_READY \<and> kthread_current s' = hd R \<and> kthread_current s' \<noteq> t \<and>
    kthread_unblock t s' = s'"
proof -
  let ?c = "kthread_current s" and ?u = "kthread_unblock t s"
  have r: "running_ok s R A" using schedule_running [OF assms(1)] assms(2,4) by simp
  note l = running_okD(1) [OF r]
  have t: "t \<noteq> ?c" "t \<notin> set R"
    using assms(7) running_okD(3) [OF r] others_okD(1) [OF running_okD(2) [OF r]] by auto
  have lu: "links_ok ?u (t # R) A" by (rule links_unblock [OF l assms(6) t(2) assms(7)])
  have cA: "?c \<in> set A" by (rule others_okD(3) [OF running_okD(2) [OF r]])
  have jp: "just_popped s R" using schedule_just_popped [OF assms(1), of i] assms(2,4) by simp
  have e: "task_tag ?c \<noteq> task_ready_list s" using links_fresh [OF l cA running_okD(4) [OF r]] by simp
  have du: "dlist (nodes ?u) (task_ready_list s) (task_tag t # map task_tag R)"
    using links_okD(1) [OF lu] by (simp add: sched_simps)
  have stale: "list_remove (nodes ?u) (task_tag ?c) = list_remove (nodes ?u) (task_tag t)"
    using jp unblock_keeps_links [OF r assms(6,7)]
    by (intro stale_remove_front [OF du _ _ e]) (simp_all add: just_popped_def)
  have ready: "dlist (list_remove (nodes ?u) (task_tag t)) (task_ready_list s) (map task_tag R)"
    using kl.remove [of _ _ "[]"] du by simp
  have "links_ok (on_nodes (\<lambda>h. snd (list_pop h (task_ready_list ?u))) ?u) R A" by (rule links_pop(2) [OF lu])
  then have lr: "dlist (list_remove (nodes ?u) (task_tag t)) (task_all_list s) (map task_all_tag A)"
    using links_okD(2) links_pop(1) [OF lu] by (fastforce simp: sched_simps)
  have dis: "({task_ready_list s, list_tail (task_ready_list s)} \<union> set (map task_tag R)) \<inter>
      ({task_all_list s, list_tail (task_all_list s)} \<union> set (map task_all_tag A)) = {}"
    by (rule links_okD(5) [OF l]) (use links_okD(3) [OF l] in auto)
  have u: "kthread_current ?u = ?c" "task_ready_list ?u = task_ready_list s" "g_main_task ?u = g_main_task s"
      "task_all_list ?u = task_all_list s" "status (tasks ?u t) = TASK_READY"
    using assms(7) by (simp_all add: sched_simps)
  have "hd R \<noteq> t" using t(2) assms(3) by auto
  moreover obtain s' where s': "kthread_exit ?u = Inr s'" "kthread_current s' = hd R"
      "dlist (nodes s') (task_ready_list s) (map task_tag (tl R))"
      "\<forall>x. status (tasks s' x) = (if x = hd R then TASK_RUNNING else if x = ?c then TASK_DIED else status (tasks ?u x))"
    using exit_state [of ?u R A, unfolded u stale, OF assms(5,3) cA ready lr dis] by blast
  ultimately have "status (tasks s' t) = TASK_READY" using u(5) t(1) by simp
  then show ?thesis
    using s' t(2) \<open>hd R \<noteq> t\<close> kthread_unblock_not_blocked [of s' t] by (intro exI [of _ s']) simp
qed

text \<open>Any other thread does not survive its own \<open>kthread_exit\<close>: with its page mapped to a frame of the
  kernel pool, as \<open>kthread_create\<close> got it, the page is unmapped under the running code.\<close>

theorem kthread_exit_faults:
  assumes "mm_ok (mm s)" and "kthread_current s = heap_page k" and "kthread_current s \<noteq> g_main_task s" and "k < HEAP_PAGES"
    and "k < capacity (vaddr_bitmap (k_v_pool (mm s)))" and "i < kcap (mm s)" and "mapping (mm s) k = Some (kframe (mm s) i)"
  shows "kthread_exit s = Inl Page_fault"
proof -
  have one: "unat (1 :: u32) = 1" "0 < sint (1 :: u32)" by simp_all
  obtain m where m: "page_release K_P_POOL (heap_page k) 1 (mm s) = Inr m"
      "\<forall>l<HEAP_PAGES. mapping m l = (if k \<le> l \<and> l < k + unat (1 :: u32) then None else mapping (mm s) l)"
    using page_release_outcome [OF assms(1) one(2), of "[i]" k] assms(4-7) by auto
  then have "walk (kmmu m) (heap_page k) = None" using assms(4) by (simp add: mapping_def)
  then show ?thesis
    using assms(2,3) m(1) by (simp add: kthread_exit_def Let_def sched_simps page_free_def)
qed

text \<open>Three threads: the first runs, the second is ready, the third is blocked.\<close>

definition demo_sched :: sched_state where
  "demo_sched = \<lparr>mm = boot32\<lparr>cur_task := 0xC0101000\<rparr>,
     nodes = (let h0 = list_init (list_init (\<lambda>_. \<lparr>prev = 0, nxt = 0\<rparr>) 0x5000) 0x6000;
                  h1 = list_append h0 0x5000 (task_tag 0xC0102000);
                  h2 = list_append h1 0x6000 (task_all_tag 0xC0101000);
                  h3 = list_append h2 0x6000 (task_all_tag 0xC0102000)
              in list_append h3 0x6000 (task_all_tag 0xC0103000)),
     tasks = (\<lambda>_. \<lparr>kstack = 0, status = TASK_BLOCKED, time_slice = 10, stack_magic = 0x19880802\<rparr>)
       (0xC0101000 := \<lparr>kstack = 0, status = TASK_RUNNING, time_slice = 10, stack_magic = 0x19880802\<rparr>,
        0xC0102000 := \<lparr>kstack = 0, status = TASK_READY, time_slice = 10, stack_magic = 0x19880802\<rparr>),
     stk = (\<lambda>_. 0), intr_on = True, saved_intr = (\<lambda>_. True), g_idle_task = 0xC0101000,
     g_main_task = 0xC0102000, task_ready_list = 0x5000, task_all_list = 0x6000\<rparr>"

lemma demo_sched_ok: "running_ok demo_sched [0xC0102000] [0xC0101000, 0xC0102000, 0xC0103000]"
proof -
  let ?i = "list_init (list_init (\<lambda>_. \<lparr>prev = 0, nxt = 0\<rparr>) 0x5000) 0x6000"
  let ?h = "list_append ?i 0x5000 (task_tag 0xC0102000)"
  have i5: "dlist ?i 0x5000 []"
    by (rule dlist_frame [OF list_init_dlist, where A = "{0x6000, list_tail 0x6000}"])
      (simp_all add: list_init_other list_tail_def)
  have h5: "dlist ?h 0x5000 ([] @ [task_tag 0xC0102000])"
    by (rule kl.append [OF i5]) (simp add: task_tag_def list_tail_def)
  have h6: "dlist ?h 0x6000 []"
    by (rule kl.append_frame [OF i5 list_init_dlist]) (simp add: task_tag_def list_tail_def)
  note tags = task_tag_def task_all_tag_def list_tail_def
  note a7 = kl.append [OF h6, of "task_all_tag 0xC0101000"]
    kl.append_frame [OF h6 h5, of "task_all_tag 0xC0101000"]
  note a8 = kl.append [OF a7(1), of "task_all_tag 0xC0102000"]
    kl.append_frame [OF a7(1,2), of "task_all_tag 0xC0102000"]
  note a9 = kl.append [OF a8(1), of "task_all_tag 0xC0103000"]
    kl.append_frame [OF a8(1,2), of "task_all_tag 0xC0103000"]
  have "dlist (nodes demo_sched) 0x6000
      ((([] @ [task_all_tag 0xC0101000]) @ [task_all_tag 0xC0102000]) @ [task_all_tag 0xC0103000])"
    unfolding demo_sched_def sched_state.simps Let_def by (rule a9(1)) (simp_all add: tags)
  moreover have "dlist (nodes demo_sched) 0x5000 ([] @ [task_tag 0xC0102000])"
    unfolding demo_sched_def sched_state.simps Let_def by (rule a9(2)) (simp_all add: tags)
  moreover have "task_ready_list demo_sched = 0x5000" "task_all_list demo_sched = 0x6000"
      "kthread_current demo_sched = 0xC0101000" "g_idle_task demo_sched = 0xC0101000"
    by (simp_all add: demo_sched_def kthread_current_def)
  moreover have "status (tasks demo_sched 0xC0101000) = TASK_RUNNING"
      "status (tasks demo_sched 0xC0102000) = TASK_READY" "status (tasks demo_sched 0xC0103000) = TASK_BLOCKED"
    by (simp_all add: demo_sched_def)
  ultimately show ?thesis
    unfolding running_ok_def sched_ok_def links_ok_def others_ok_def
    by (auto simp: tags blocked_status_def)
qed

theorem schedule_round_robin_witness:
  "kthread_current (schedule True demo_sched) = 0xC0102000 \<and>
   time_slice (tasks (schedule True demo_sched) 0xC0101000) = SCHED_RR_TIME_SLICE"
  using schedule_round_robin [OF demo_sched_ok, of True] by (simp add: demo_sched_def kthread_current_def)

theorem scheduler_invariant_witness:
  "\<exists>R'. running_ok (fold sched_step [Tick_expired, Unblock 0xC0103000, Yield, Block TASK_WAITING] demo_sched)
     R' [0xC0101000, 0xC0102000, 0xC0103000]"
  by (rule scheduler_invariant [OF demo_sched_ok]) simp

theorem yield_fair_witness: "kthread_current ((kthread_yield ^^ Suc 0) demo_sched) = [0xC0102000] ! 0"
  by (rule yield_fair [OF demo_sched_ok]) simp

theorem exit_loses_unblocked_witness:
  "\<exists>s'. kthread_exit (kthread_unblock 0xC0103000 (schedule True demo_sched)) = Inr s' \<and>
    status (tasks s' 0xC0103000) = TASK_READY \<and> dlist (nodes s') (task_ready_list (schedule True demo_sched)) [] \<and>
    kthread_current s' = 0xC0101000"
proof -
  let ?s = "schedule True demo_sched"
  have c: "kthread_current demo_sched = 0xC0101000" by (simp add: demo_sched_def kthread_current_def)
  have up: "upcoming demo_sched [0xC0102000] = [0xC0102000, 0xC0101000]"
    using upcoming_running [OF demo_sched_ok] by (simp add: c)
  note may = running_okD(5) [OF demo_sched_ok]
  have main: "kthread_current ?s = g_main_task ?s"
    using schedule_ok(2) [OF may] up by (simp add: schedule_main) (simp add: demo_sched_def)
  have "blocked_status (status (tasks demo_sched 0xC0103000))" by (simp add: demo_sched_def blocked_status_def)
  then have bl: "blocked_status (status (tasks ?s 0xC0103000))"
    using schedule_ok(3) [OF may, of True "0xC0103000"] up c by simp
  show ?thesis
    using exit_loses_unblocked [OF may _ _ refl main _ bl] up by fastforce
qed

text \<open>A thread on the page \<open>page_malloc\<close> gives out first exits.\<close>

theorem kthread_exit_faults_witness:
  "\<exists>m. page_malloc 1 NULL 1 boot32 = Inr (heap_page 0, m) \<and>
     kthread_exit (demo_sched\<lparr>mm := m\<lparr>cur_task := heap_page 0\<rparr>\<rparr>) = Inl Page_fault"
proof -
  have one: "unat (1 :: u32) = 1" "0 < sint (1 :: u32)" by simp_all
  have b: "first_vrun boot32 1 = Some 0" using boot32_run [of 1] by simp
  have h: "0 + unat (1 :: u32) \<le> HEAP_PAGES" "min (unat (1 :: u32)) (free_frames boot32) = 1"
      "(if unat (1 :: u32) \<le> free_frames boot32 then heap_page 0 else NULL) = heap_page 0"
    by (simp_all add: HEAP_PAGES_def boot32_frames)
  obtain m fs where m: "page_acquire K_P_POOL NULL 1 boot32 = Inr (heap_page 0, m)" "vpages m = vpages boot32 \<union> {0..<0 + unat (1 :: u32)}"
      "acquired 0 1 (v_run 0 (unat (1 :: u32)) True boot32) m fs"
    using page_acquire_run [OF boot32_ok(1) one(2) b h(1)] unfolding h by blast
  let ?m = "m\<lparr>cur_task := heap_page 0\<rparr>"
  have e: "mm_ok ?m = mm_ok m" "kcap ?m = kcap m" "mapping ?m = mapping m" "kframe ?m = kframe m" "k_v_pool ?m = k_v_pool m"
    by (simp_all add: mm_ok_def mm_shape_def mapping_def kframe_def vpages_def pframes_def unlocked_def fun_eq_iff)
  have "0 \<in> vpages m" using m(2) by simp
  then have cap: "0 < capacity (vaddr_bitmap (k_v_pool m))" by (simp add: vpages_def taken_bits_def)
  note q = m(3) [unfolded acquired_def v_run_fields]
  have f: "length fs = 1" "set fs \<subseteq> {..<kcap boot32}" and p: "mm_ok m" "k_p_pool m = k_p_pool boot32" using q by blast+
  have "0 < HEAP_PAGES" by (simp add: HEAP_PAGES_def)
  then have "mapping m 0 = Some (kframe boot32 (fs ! 0))" using q by simp
  moreover have "fs ! 0 \<in> set fs" using f(1) by simp
  ultimately have a: "mapping m 0 = Some (kframe m (fs ! 0))" "fs ! 0 < kcap m"
    using f(2) p(2) by (auto simp: kframe_def)
  have "kthread_exit (demo_sched\<lparr>mm := ?m\<rparr>) = Inl Page_fault"
    by (rule kthread_exit_faults [where k = 0 and i = "fs ! 0"])
      (use a cap p(1) e in \<open>simp_all add: kthread_current_def demo_sched_def HEAP_PAGES_def heap_page_def K_HEAP_START_def\<close>)
  then show ?thesis using m(1) by (simp add: page_malloc_def)
qed

end
