(* ===== verification/KSwitch.thy ===== *)
theory KSwitch
  imports KSched
begin

text \<open>
  The context switch at register level: \<open>switch_to\<close> of \<open>code/kernel/src/switch.s\<close>, instruction by
  instruction, on the callee-saved registers, the stack pointer and word memory, and the stack a
  new thread starts on (\<open>struct kstack_switch\<close>, built by \<open>kthread_create\<close>). \<open>kstack\<close> is the first
  member of the PCB, so the word at a PCB address is the saved stack pointer.
\<close>

record cpu =
  eax :: u32
  ebx :: u32
  ebp :: u32
  esi :: u32
  edi :: u32
  esp :: u32
  eip :: u32

type_synonym machine = "cpu \<times> (u32 \<Rightarrow> u32)"

definition push :: "u32 \<Rightarrow> 'a cpu_scheme \<times> (u32 \<Rightarrow> u32) \<Rightarrow> 'a cpu_scheme \<times> (u32 \<Rightarrow> u32)" where
  "push v c = (let p = esp (fst c) - 4 in ((fst c)\<lparr>esp := p\<rparr>, (snd c)(p := v)))"

definition pop_word :: "'a cpu_scheme \<times> (u32 \<Rightarrow> u32) \<Rightarrow> u32 \<times> 'a cpu_scheme \<times> (u32 \<Rightarrow> u32)" where
  "pop_word c = (snd c (esp (fst c)), (fst c)\<lparr>esp := esp (fst c) + 4\<rparr>, snd c)"

definition switch_to :: "machine \<Rightarrow> machine" where
  "switch_to c0 =
     (let c1 = push (esi (fst c0)) c0;
          c2 = push (edi (fst c1)) c1;
          c3 = push (ebx (fst c2)) c2;
          c4 = push (ebp (fst c3)) c3;
          r5 = (fst c4)\<lparr>eax := snd c4 (esp (fst c4) + 20)\<rparr>;
          m5 = (snd c4)(eax r5 := esp r5);
          r6 = r5\<lparr>eax := m5 (esp r5 + 24)\<rparr>;
          r7 = r6\<lparr>esp := m5 (eax r6)\<rparr>;
          (v8, c8) = pop_word (r7, m5);
          (v9, c9) = pop_word ((fst c8)\<lparr>ebp := v8\<rparr>, snd c8);
          (v10, c10) = pop_word ((fst c9)\<lparr>ebx := v9\<rparr>, snd c9);
          (v11, c11) = pop_word ((fst c10)\<lparr>edi := v10\<rparr>, snd c10);
          (v12, c12) = pop_word ((fst c11)\<lparr>esi := v11\<rparr>, snd c11)
      in ((fst c12)\<lparr>eip := v12\<rparr>, snd c12))"

text \<open>What it does to memory and registers, in one step.\<close>

definition saved_stack :: "cpu \<Rightarrow> (u32 \<Rightarrow> u32) \<Rightarrow> u32 \<Rightarrow> u32" where
  "saved_stack r w = (let p = esp r; w' = w(p - 4 := esi r, p - 8 := edi r, p - 12 := ebx r, p - 16 := ebp r)
     in w'(w' (p + 4) := p - 16))"

definition resume_at :: "cpu \<Rightarrow> u32 \<Rightarrow> (u32 \<Rightarrow> u32) \<Rightarrow> cpu" where
  "resume_at r p w = r\<lparr>ebp := w p, ebx := w (p + 4), edi := w (p + 8), esi := w (p + 12),
     eip := w (p + 16), esp := p + 20\<rparr>"

lemma word_offset_simps:
  "(p :: u32) - 4 - 4 = p - 8" "(p :: u32) - 8 - 4 = p - 12" "(p :: u32) - 12 - 4 = p - 16"
  "(p :: u32) - 16 + 20 = p + 4" "(p :: u32) - 16 + 24 = p + 8"
  "(p :: u32) + 4 + 4 = p + 8" "(p :: u32) + 8 + 4 = p + 12" "(p :: u32) + 12 + 4 = p + 16"
  "(p :: u32) + 16 + 4 = p + 20"
  by simp_all

lemma switch_to_eq:
  "switch_to (r, w) = (let m = saved_stack r w; nxt_task = m (esp r + 8)
     in (resume_at (r\<lparr>eax := nxt_task\<rparr>) (m nxt_task) m, m))"
  by (cases r) (simp add: switch_to_def push_def pop_word_def saved_stack_def resume_at_def Let_def
      word_offset_simps add.commute del: fun_upd_apply)

lemma stack_distinct [simp]:
  fixes p :: u32
  shows "p + 4 \<noteq> p - 4" "p + 4 \<noteq> p - 8" "p + 4 \<noteq> p - 12" "p + 4 \<noteq> p - 16"
    "p + 8 \<noteq> p - 4" "p + 8 \<noteq> p - 8" "p + 8 \<noteq> p - 12" "p + 8 \<noteq> p - 16"
    "p \<noteq> p - 4" "p \<noteq> p - 8" "p \<noteq> p - 12" "p \<noteq> p - 16"
  by (simp_all add: diff_conv_add_uminus del: add_uminus_conv_diff)

text \<open>The caller's frame: return address, outgoing and incoming thread.\<close>

definition call_frame :: "machine \<Rightarrow> u32 \<Rightarrow> u32 \<Rightarrow> u32 \<Rightarrow> bool" where
  "call_frame c ret cur_t next_t \<longleftrightarrow> snd c (esp (fst c)) = ret \<and> snd c (esp (fst c) + 4) = cur_t \<and>
     snd c (esp (fst c) + 8) = next_t"

text \<open>The words a switch writes: four below the stack pointer and the PCB word of the old thread.\<close>

definition written :: "cpu \<Rightarrow> u32 \<Rightarrow> u32 set" where
  "written r cur_t = {esp r - 4, esp r - 8, esp r - 12, esp r - 16, cur_t}"

lemma saved_stack_apply:
  assumes "w (esp r + 4) = cur_t" and "cur_t \<notin> {esp r - 4, esp r - 8, esp r - 12, esp r - 16}"
  shows "a \<notin> written r cur_t \<Longrightarrow> saved_stack r w a = w a"
    and "saved_stack r w (esp r - 4) = esi r" "saved_stack r w (esp r - 8) = edi r"
    "saved_stack r w (esp r - 12) = ebx r" "saved_stack r w (esp r - 16) = ebp r"
    "saved_stack r w cur_t = esp r - 16"
  using assms by (auto simp: saved_stack_def Let_def written_def)

lemma switch_to_resumes:
  assumes f: "call_frame (r, w) ret cur_t next_t"
    and d: "cur_t \<notin> {esp r - 4, esp r - 8, esp r - 12, esp r - 16}"
    and n: "{esp r + 8, next_t} \<inter> written r cur_t = {}"
  shows "switch_to (r, w) =
    (resume_at (r\<lparr>eax := next_t\<rparr>) (w next_t) (saved_stack r w), saved_stack r w)"
proof -
  have w: "w (esp r + 4) = cur_t" "w (esp r + 8) = next_t" using f by (simp_all add: call_frame_def)
  have "saved_stack r w (esp r + 8) = next_t" "saved_stack r w next_t = w next_t"
    using saved_stack_apply(1) [of w r cur_t] w d n by auto
  then show ?thesis by (simp add: switch_to_eq Let_def)
qed

section \<open>Properties\<close>

text \<open>C33: The first switch to a new thread enters \<open>kernel_thread\<close>: with the frame \<open>kthread_create\<close>
  stores at the top of the new page, \<open>switch_to\<close> jumps to the entry with cleared callee-saved
  registers and a stack on which the payload and its argument are the two C arguments.\<close>

theorem switch_to_new_thread:
  assumes "call_frame (r, w) ret cur_t next_t" and "w next_t = ks"
    and "\<forall>a \<in> {ks, ks + 4, ks + 8, ks + 12, ks + 16, ks + 24, ks + 28}. w a = store_frame ks f w0 a"
    and "cur_t \<notin> {esp r - 4, esp r - 8, esp r - 12, esp r - 16}"
    and "{esp r + 8, next_t, ks, ks + 4, ks + 8, ks + 12, ks + 16, ks + 24, ks + 28} \<inter> written r cur_t = {}"
  shows "eip (fst (switch_to (r, w))) = f_kthread f \<and> ebp (fst (switch_to (r, w))) = f_ebp f \<and>
    ebx (fst (switch_to (r, w))) = f_ebx f \<and> edi (fst (switch_to (r, w))) = f_edi f \<and>
    esi (fst (switch_to (r, w))) = f_esi f \<and>
    snd (switch_to (r, w)) (esp (fst (switch_to (r, w))) + 4) = f_fn f \<and>
    snd (switch_to (r, w)) (esp (fst (switch_to (r, w))) + 8) = f_fn_arg f"
proof -
  have sw: "switch_to (r, w) =
      (resume_at (r\<lparr>eax := next_t\<rparr>) ks (saved_stack r w), saved_stack r w)"
    using switch_to_resumes [OF assms(1,4)] assms(2,5) by simp
  have w4: "w (esp r + 4) = cur_t" using assms(1) by (simp add: call_frame_def)
  have keep: "saved_stack r w a = store_frame ks f w0 a"
    if "a \<in> {ks, ks + 4, ks + 8, ks + 12, ks + 16, ks + 24, ks + 28}" for a
  proof -
    have "a \<notin> written r cur_t" using assms(5) that by auto
    then have "saved_stack r w a = w a" using saved_stack_apply(1) [of w r cur_t a] w4 assms(4) by blast
    then show ?thesis using bspec [OF assms(3) that] by simp
  qed
  have vals: "saved_stack r w ks = f_ebp f" "saved_stack r w (ks + 4) = f_ebx f"
      "saved_stack r w (ks + 8) = f_edi f" "saved_stack r w (ks + 12) = f_esi f"
      "saved_stack r w (ks + 16) = f_kthread f" "saved_stack r w (ks + 24) = f_fn f"
      "saved_stack r w (ks + 28) = f_fn_arg f"
    by (simp_all add: keep store_frame_def)
  have "4 + (ks + 20) = ks + 24" "8 + (ks + 20) = ks + 28" by simp_all
  then show ?thesis unfolding sw using vals by (simp add: resume_at_def add.commute)
qed

text \<open>C34: A thread that was switched out comes back where it left: when the words its
  \<open>switch_to\<close> saved are intact at the switch back, that switch returns to its return address, with
  its callee-saved registers and its stack pointer just above the return address.\<close>

theorem switch_roundtrip:
  assumes "call_frame (r, w) ret t u"
    and "t \<notin> {esp r, esp r - 4, esp r - 8, esp r - 12, esp r - 16}"
    and "call_frame (r', w') ret' u' t"
    and "u' \<notin> {esp r' - 4, esp r' - 8, esp r' - 12, esp r' - 16}"
    and "{esp r' + 8, t, esp r, esp r - 4, esp r - 8, esp r - 12, esp r - 16} \<inter> written r' u' = {}"
    and "\<forall>a \<in> {t, esp r, esp r - 4, esp r - 8, esp r - 12, esp r - 16}. w' a = snd (switch_to (r, w)) a"
  shows "eip (fst (switch_to (r', w'))) = ret \<and> esp (fst (switch_to (r', w'))) = esp r + 4 \<and>
    ebp (fst (switch_to (r', w'))) = ebp r \<and> ebx (fst (switch_to (r', w'))) = ebx r \<and>
    edi (fst (switch_to (r', w'))) = edi r \<and> esi (fst (switch_to (r', w'))) = esi r"
proof -
  have w4: "w (esp r + 4) = t" and w0: "w (esp r) = ret" using assms(1) by (simp_all add: call_frame_def)
  have d: "t \<notin> {esp r - 4, esp r - 8, esp r - 12, esp r - 16}" using assms(2) by simp
  have snd: "snd (switch_to (r, w)) = saved_stack r w" by (simp add: switch_to_eq Let_def)
  note sv = saved_stack_apply(1) [of w r t "esp r"] saved_stack_apply(2-6) [of w r t]
  have nw: "esp r \<notin> written r t" using assms(2) by (auto simp: written_def)
  have at: "w' t = esp r - 16" "w' (esp r) = ret" "w' (esp r - 4) = esi r" "w' (esp r - 8) = edi r"
      "w' (esp r - 12) = ebx r" "w' (esp r - 16) = ebp r"
    using assms(6) sv nw w4 d w0 by (simp_all add: snd)
  have sw: "switch_to (r', w') =
      (resume_at (r'\<lparr>eax := t\<rparr>) (esp r - 16) (saved_stack r' w'), saved_stack r' w')"
    using switch_to_resumes [OF assms(3,4)] assms(5) at(1) by simp
  have w4': "w' (esp r' + 4) = u'" using assms(3) by (simp add: call_frame_def)
  have keep: "saved_stack r' w' a = w' a"
    if "a \<in> {esp r, esp r - 4, esp r - 8, esp r - 12, esp r - 16}" for a
  proof -
    have "a \<notin> written r' u'" using assms(5) that by auto
    then show ?thesis using saved_stack_apply(1) [of w' r' u' a] w4' assms(4) by blast
  qed
  have ofs: "esp r - 16 + 4 = esp r - 12" "esp r - 16 + 8 = esp r - 8" "esp r - 16 + 12 = esp r - 4"
      "esp r - 16 + 16 = esp r" "esp r - 16 + 20 = esp r + 4"
    by simp_all
  show ?thesis unfolding sw by (simp add: resume_at_def ofs keep at)
qed

text \<open>A thread with its frame at 0x20FE0 is switched to from a stack at 0x10F00 of PCB 0x10000.\<close>

definition demo_frame :: kstack_switch where
  "demo_frame = \<lparr>f_ebp = 0, f_ebx = 0, f_edi = 0, f_esi = 0, f_kthread = 0x1234, f_fn = 0x5678,
     f_fn_arg = 9\<rparr>"

definition demo_words :: "u32 \<Rightarrow> u32" where
  "demo_words = (store_frame 0x20FE0 demo_frame (\<lambda>_. 7))
     (0x20000 := 0x20FE0, 0x10F00 := 0xAAAA, 0x10F04 := 0x10000, 0x10F08 := 0x20000)"

definition demo_cpu :: cpu where
  "demo_cpu = \<lparr>eax = 1, ebx = 2, ebp = 3, esi = 4, edi = 5, esp = 0x10F00, eip = 0\<rparr>"

theorem switch_to_new_thread_witness:
  "eip (fst (switch_to (demo_cpu, demo_words))) = 0x1234 \<and>
   snd (switch_to (demo_cpu, demo_words)) (esp (fst (switch_to (demo_cpu, demo_words))) + 4) = 0x5678"
proof -
  have "call_frame (demo_cpu, demo_words) 0xAAAA 0x10000 0x20000" "demo_words 0x20000 = 0x20FE0"
    by (simp_all add: call_frame_def demo_cpu_def demo_words_def store_frame_def)
  moreover have "\<forall>a \<in> {0x20FE0, 0x20FE0 + 4, 0x20FE0 + 8, 0x20FE0 + 12, 0x20FE0 + 16, 0x20FE0 + 24,
      0x20FE0 + 28}. demo_words a = store_frame 0x20FE0 demo_frame (\<lambda>_. 7) a"
    by (simp add: demo_words_def)
  ultimately show ?thesis
    using switch_to_new_thread [of demo_cpu demo_words "0xAAAA" "0x10000" "0x20000" "0x20FE0" demo_frame]
    by (simp add: written_def demo_cpu_def demo_frame_def)
qed

theorem switch_roundtrip_witness:
  "\<exists>w'. eip (fst (switch_to (demo_cpu\<lparr>esp := 0x20F00\<rparr>, w'))) = 0xAAAA"
proof -
  let ?m = "snd (switch_to (demo_cpu, demo_words))"
  let ?w = "?m(0x20F00 := 0xBBBB, 0x20F04 := 0x20000, 0x20F08 := 0x10000)"
  have "call_frame (demo_cpu, demo_words) 0xAAAA 0x10000 0x20000"
    by (simp add: call_frame_def demo_cpu_def demo_words_def store_frame_def)
  moreover have "call_frame (demo_cpu\<lparr>esp := 0x20F00\<rparr>, ?w) 0xBBBB 0x20000 0x10000"
    by (simp add: call_frame_def)
  ultimately have "eip (fst (switch_to (demo_cpu\<lparr>esp := 0x20F00\<rparr>, ?w))) = 0xAAAA"
    using switch_roundtrip [of demo_cpu demo_words "0xAAAA" "0x10000" "0x20000"
        "demo_cpu\<lparr>esp := 0x20F00\<rparr>" ?w "0xBBBB" "0x20000"]
    by (simp add: written_def demo_cpu_def)
  then show ?thesis by blast
qed

end
