(* ===== verification/KLock.thy ===== *)
theory KLock
  imports KSched
begin

text \<open>
  Spinlock, mutex and semaphore of \<open>code/kernel/src/lock.c\<close> under preemption. Every thread has a
  program counter inside the lock functions; one step is one access to shared state, and any thread
  that is not blocked may make the next step, as a timer tick between any two instructions allows.
  A thread is its PCB pointer and not \<open>NULL\<close>. \<open>kthread_block\<close> and \<open>kthread_unblock\<close> appear through the
  blocked flag of a thread: unblocking a thread that is not blocked has no effect (see \<open>KSched\<close>).
\<close>

section \<open>Spinlock\<close>

text \<open>\<open>xchg\<close>: the old value, and the new content of the word.\<close>

definition xchg :: "u32 \<Rightarrow> u32 \<Rightarrow> u32 \<times> u32" where
  "xchg word x = (word, x)"

datatype spin_pc = Xchg | Spin_wait

definition SPIN_FREE :: u32 where "SPIN_FREE = 0"

text \<open>
  One access of \<open>spin_lock\<close>: the new lock word, and where the thread stands (\<open>None\<close>: it has the
  lock). \<open>kthread_yield\<close> while the lock is held changes nothing here but who runs next.
\<close>

fun spin_lock :: "spin_pc \<Rightarrow> u32 \<Rightarrow> u32 \<times> spin_pc option" where
  "spin_lock Xchg v = (case xchg v 1 of (old, v') \<Rightarrow> (v', if old = 0 then None else Some Spin_wait))"
| "spin_lock Spin_wait v = (v, Some (if v \<noteq> 0 then Spin_wait else Xchg))"

definition spin_unlock :: "u32 \<Rightarrow> u32" where
  "spin_unlock v = 0"

text \<open>
  At most one thread is between the claim and the release of a spinlock, and none while the word
  is 0. \<open>has\<close> tells which program counters are inside. A move of one thread keeps this when it
  enters only on a free word and frees the word only from inside.
\<close>

definition spin_excl :: "('pc \<Rightarrow> bool) \<Rightarrow> u32 \<Rightarrow> (ptr \<Rightarrow> 'pc) \<Rightarrow> bool" where
  "spin_excl has w pc \<longleftrightarrow>
     (\<forall>t u. has (pc t) \<longrightarrow> has (pc u) \<longrightarrow> t = u) \<and> (w = 0 \<longrightarrow> (\<forall>t. \<not> has (pc t)))"

lemma spin_exclD:
  assumes "spin_excl has w pc"
  shows "has (pc t) \<Longrightarrow> has (pc u) \<Longrightarrow> t = u"
    and "has (pc t) \<Longrightarrow> w \<noteq> 0"
  using assms unfolding spin_excl_def by blast+

lemma spin_excl_move:
  assumes inv: "spin_excl has w pc"
    and take: "has c' \<Longrightarrow> w' \<noteq> 0 \<and> (has (pc t) \<or> w = 0)"
    and free: "w' = 0 \<Longrightarrow> w = 0 \<or> has (pc t)"
  shows "spin_excl has w' (pc(t := c'))"
proof -
  have one: "\<And>u v. has (pc u) \<Longrightarrow> has (pc v) \<Longrightarrow> u = v" and fr: "\<And>u. w = 0 \<Longrightarrow> \<not> has (pc u)"
    using inv unfolding spin_excl_def by blast+
  have "u = v" if "has ((pc(t := c')) u)" "has ((pc(t := c')) v)" for u v
    using that one fr take by (metis fun_upd_apply)
  moreover have "\<not> has ((pc(t := c')) u)" if "w' = 0" for u
    using that one fr take free by (metis fun_upd_apply)
  ultimately show ?thesis unfolding spin_excl_def by blast
qed

lemma spin_lock_cases:
  "spin_lock c v = (v', None) \<Longrightarrow> v = 0 \<and> v' = 1"
  "spin_lock c v = (v', Some c') \<Longrightarrow> v \<noteq> 0 \<and> v' \<noteq> 0 \<or> v' = v"
  by (cases c; auto simp: xchg_def split: if_splits)+

section \<open>Mutex\<close>

record mutex =
  m_slock :: u32
  m_owner :: ptr
  m_wait :: "ptr list"

definition mutex_init :: mutex where
  "mutex_init = \<lparr>m_slock = SPIN_FREE, m_owner = NULL, m_wait = []\<rparr>"

text \<open>Program counters: outside, in \<open>mutex_lock\<close>, in the critical section, in \<open>mutex_unlock\<close>.\<close>

datatype mutex_pc =
  Outside
| Lock_spin spin_pc | Lock_test | Lock_take | Lock_got | Lock_park | Lock_block | Lock_woken
| Critical
| Unlock_spin spin_pc | Unlock_clear | Unlock_wake | Unlock_rel

record mutex_sys =
  mtx :: mutex
  mpc :: "ptr \<Rightarrow> mutex_pc"
  mblocked :: "ptr \<Rightarrow> bool"

text \<open>The wakeup of \<open>mutex_unlock\<close>: pop the first waiter and unblock it.\<close>

definition wake_first :: "ptr list \<Rightarrow> (ptr \<Rightarrow> bool) \<Rightarrow> ptr list \<times> (ptr \<Rightarrow> bool)" where
  "wake_first ws b = (case ws of [] \<Rightarrow> ([], b) | w # ws' \<Rightarrow> (ws', b(w := False)))"

definition goto :: "ptr \<Rightarrow> mutex_pc \<Rightarrow> mutex_sys \<Rightarrow> mutex_sys" where
  "goto t c s = s\<lparr>mpc := (mpc s)(t := c)\<rparr>"

definition on_mtx :: "(mutex \<Rightarrow> mutex) \<Rightarrow> mutex_sys \<Rightarrow> mutex_sys" where
  "on_mtx f s = s\<lparr>mtx := f (mtx s)\<rparr>"

text \<open>
  \<open>mutex_lock\<close> and \<open>mutex_unlock\<close>, one access at a time. A thread outside calls \<open>mutex_lock\<close> next
  and one in its critical section calls \<open>mutex_unlock\<close> next; how long it waits before is open.
\<close>

definition mutex_lock :: "ptr \<Rightarrow> mutex_sys \<Rightarrow> mutex_sys" where
  "mutex_lock t s =
     (case mpc s t of
        Outside \<Rightarrow> goto t (Lock_spin Xchg) s
      | Lock_spin c \<Rightarrow>
          (case spin_lock c (m_slock (mtx s)) of (v, c') \<Rightarrow>
             goto t (case c' of None \<Rightarrow> Lock_test | Some c' \<Rightarrow> Lock_spin c') (on_mtx (m_slock_update (\<lambda>_. v)) s))
      | Lock_test \<Rightarrow>
          if m_owner (mtx s) = NULL then goto t Lock_take s
          else goto t Lock_park (on_mtx (m_wait_update (\<lambda>ws. ws @ [t])) s)
      | Lock_take \<Rightarrow> goto t Lock_got (on_mtx (m_owner_update (\<lambda>_. t)) s)
      | Lock_got \<Rightarrow> goto t Critical (on_mtx (m_slock_update spin_unlock) s)
      | Lock_park \<Rightarrow> goto t Lock_block (on_mtx (m_slock_update spin_unlock) s)
      | Lock_block \<Rightarrow> goto t Lock_woken (s\<lparr>mblocked := (mblocked s)(t := True)\<rparr>)
      | Lock_woken \<Rightarrow> goto t (Lock_spin Xchg) s
      | _ \<Rightarrow> s)"

definition mutex_unlock :: "ptr \<Rightarrow> mutex_sys \<Rightarrow> mutex_sys" where
  "mutex_unlock t s =
     (case mpc s t of
        Critical \<Rightarrow> goto t (Unlock_spin Xchg) s
      | Unlock_spin c \<Rightarrow>
          (case spin_lock c (m_slock (mtx s)) of (v, c') \<Rightarrow>
             goto t (case c' of None \<Rightarrow> Unlock_clear | Some c' \<Rightarrow> Unlock_spin c') (on_mtx (m_slock_update (\<lambda>_. v)) s))
      | Unlock_clear \<Rightarrow> goto t Unlock_wake (on_mtx (m_owner_update (\<lambda>_. NULL)) s)
      | Unlock_wake \<Rightarrow>
          (case wake_first (m_wait (mtx s)) (mblocked s) of (ws, b) \<Rightarrow>
             goto t Unlock_rel (on_mtx (m_wait_update (\<lambda>_. ws)) (s\<lparr>mblocked := b\<rparr>)))
      | Unlock_rel \<Rightarrow> goto t Outside (on_mtx (m_slock_update spin_unlock) s)
      | _ \<Rightarrow> s)"

inductive mutex_step :: "mutex_sys \<Rightarrow> mutex_sys \<Rightarrow> bool" where
  lock: "t \<noteq> NULL \<Longrightarrow> \<not> mblocked s t \<Longrightarrow> mutex_step s (mutex_lock t s)"
| unlock: "t \<noteq> NULL \<Longrightarrow> \<not> mblocked s t \<Longrightarrow> mutex_step s (mutex_unlock t s)"

definition mutex_start :: mutex_sys where
  "mutex_start = \<lparr>mtx = mutex_init, mpc = (\<lambda>_. Outside), mblocked = (\<lambda>_. False)\<rparr>"

inductive mutex_reach :: "mutex_sys \<Rightarrow> mutex_sys \<Rightarrow> bool" where
  refl: "mutex_reach s s"
| step: "mutex_reach s s' \<Longrightarrow> mutex_step s' s'' \<Longrightarrow> mutex_reach s s''"

inductive_cases mutex_stepE: "mutex_step s s'"

section \<open>Mutual exclusion\<close>

text \<open>Where a thread has the spinlock, and where it owns the mutex.\<close>

fun has_spin :: "mutex_pc \<Rightarrow> bool" where
  "has_spin c \<longleftrightarrow> c \<in> {Lock_test, Lock_take, Lock_got, Lock_park, Unlock_clear, Unlock_wake, Unlock_rel}"

fun owns :: "mutex_pc \<Rightarrow> bool" where
  "owns Lock_got \<longleftrightarrow> True"
| "owns Critical \<longleftrightarrow> True"
| "owns (Unlock_spin _) \<longleftrightarrow> True"
| "owns Unlock_clear \<longleftrightarrow> True"
| "owns _ \<longleftrightarrow> False"

definition mutex_inv :: "mutex_sys \<Rightarrow> bool" where
  "mutex_inv s \<longleftrightarrow>
     spin_excl has_spin (m_slock (mtx s)) (mpc s) \<and>
     (\<forall>t. owns (mpc s t) \<longrightarrow> m_owner (mtx s) = t \<and> t \<noteq> NULL) \<and>
     (\<forall>t. mpc s t = Lock_take \<longrightarrow> m_owner (mtx s) = NULL)"

lemmas mutex_defs = goto_def on_mtx_def spin_unlock_def xchg_def wake_first_def

lemma mutex_inv_start: "mutex_inv mutex_start"
  by (simp add: mutex_inv_def spin_excl_def mutex_start_def)


text \<open>
  What one access of a thread may do to the lock, so that the invariant holds after it: it takes
  the spinlock when it is free, gives it up when it has it, and writes the owner only in the
  spinlock.
\<close>

lemma mutex_inv_moveI:
  assumes inv: "mutex_inv s" and pc: "mpc s' = (mpc s)(t := c')"
    and take: "has_spin c' \<Longrightarrow> m_slock (mtx s') \<noteq> 0 \<and> (has_spin (mpc s t) \<or> m_slock (mtx s) = 0)"
    and free: "m_slock (mtx s') = 0 \<Longrightarrow> m_slock (mtx s) = 0 \<or> has_spin (mpc s t)"
    and own: "owns c' \<Longrightarrow> m_owner (mtx s') = t \<and> t \<noteq> NULL"
    and others: "\<And>u. u \<noteq> t \<Longrightarrow> owns (mpc s u) \<Longrightarrow> m_owner (mtx s') = u"
    and seen: "c' = Lock_take \<Longrightarrow> m_owner (mtx s') = NULL"
    and kept: "m_owner (mtx s') = m_owner (mtx s) \<or> has_spin (mpc s t)"
  shows "mutex_inv s'"
proof -
  have ow: "\<And>u. owns (mpc s u) \<Longrightarrow> m_owner (mtx s) = u \<and> u \<noteq> NULL"
    using inv unfolding mutex_inv_def by blast
  have "spin_excl has_spin (m_slock (mtx s')) (mpc s')"
    unfolding pc
    by (rule spin_excl_move [where w = "m_slock (mtx s)"]) (use inv take free in \<open>auto simp only: mutex_inv_def\<close>)
  moreover have "m_owner (mtx s') = u \<and> u \<noteq> NULL" if "owns (mpc s' u)" for u
    using that ow own others unfolding pc by (metis fun_upd_apply)
  moreover have "m_owner (mtx s') = NULL" if u: "mpc s' u = Lock_take" for u
  proof (cases "u = t")
    case True
    then show ?thesis using u seen pc by simp
  next
    case False
    then have "mpc s u = Lock_take" using u pc by simp
    then have "m_owner (mtx s) = NULL" "has_spin (mpc s u)" using inv unfolding mutex_inv_def by auto
    then show ?thesis using kept False inv spin_exclD(1) unfolding mutex_inv_def by metis
  qed
  ultimately show ?thesis unfolding mutex_inv_def by blast
qed

lemma mutex_invD:
  assumes "mutex_inv s"
  shows "has_spin (mpc s t) \<Longrightarrow> has_spin (mpc s u) \<Longrightarrow> t = u"
    and "has_spin (mpc s t) \<Longrightarrow> m_slock (mtx s) \<noteq> 0"
    and "owns (mpc s t) \<Longrightarrow> m_owner (mtx s) = t"
    and "owns (mpc s t) \<Longrightarrow> t \<noteq> NULL"
    and "mpc s t = Lock_take \<Longrightarrow> m_owner (mtx s) = NULL"
  using assms spin_exclD [of has_spin "m_slock (mtx s)" "mpc s"] unfolding mutex_inv_def by blast+

lemma mutex_inv_lock:
  assumes inv: "mutex_inv s" and t: "t \<noteq> NULL"
  shows "mutex_inv (mutex_lock t s)"
proof (cases "mpc s t")
  case (Lock_spin c)
  obtain v c' where sl: "spin_lock c (m_slock (mtx s)) = (v, c')" by (cases "spin_lock c (m_slock (mtx s))")
  show ?thesis
    by (rule mutex_inv_moveI [OF inv, where t = t and c' = "case c' of None \<Rightarrow> Lock_test | Some c' \<Rightarrow> Lock_spin c'"])
      (use sl spin_lock_cases [of c "m_slock (mtx s)" v] mutex_invD(3) [OF inv]
        in \<open>auto simp: mutex_lock_def Lock_spin mutex_defs split: option.splits\<close>)
next
  case Lock_test
  show ?thesis
    by (rule mutex_inv_moveI [OF inv, where t = t and
          c' = "if m_owner (mtx s) = NULL then Lock_take else Lock_park"])
      (use mutex_invD(2) [OF inv, of t] mutex_invD(3,4) [OF inv] Lock_test t in \<open>auto simp: mutex_lock_def Lock_test mutex_defs split: if_splits\<close>)
next
  case Lock_take
  show ?thesis
    by (rule mutex_inv_moveI [OF inv, where t = t and c' = Lock_got])
      (use mutex_invD(2,5) [OF inv, of t] mutex_invD(3,4) [OF inv] Lock_take t
        in \<open>auto simp: mutex_lock_def mutex_defs\<close>)
next
  case Outside
  show ?thesis
    by (rule mutex_inv_moveI [OF inv, where t = t and c' = "Lock_spin Xchg"])
      (use mutex_invD(3) [OF inv] in \<open>auto simp: mutex_lock_def Outside mutex_defs\<close>)
next
  case Lock_got
  show ?thesis
    by (rule mutex_inv_moveI [OF inv, where t = t and c' = Critical])
      (use mutex_invD(3) [OF inv] t in \<open>auto simp: mutex_lock_def Lock_got mutex_defs\<close>)
next
  case Lock_park
  show ?thesis
    by (rule mutex_inv_moveI [OF inv, where t = t and c' = Lock_block])
      (use mutex_invD(3) [OF inv] in \<open>auto simp: mutex_lock_def Lock_park mutex_defs\<close>)
next
  case Lock_block
  show ?thesis
    by (rule mutex_inv_moveI [OF inv, where t = t and c' = Lock_woken])
      (use mutex_invD(3) [OF inv] in \<open>auto simp: mutex_lock_def Lock_block mutex_defs\<close>)
next
  case Lock_woken
  show ?thesis
    by (rule mutex_inv_moveI [OF inv, where t = t and c' = "Lock_spin Xchg"])
      (use mutex_invD(3) [OF inv] in \<open>auto simp: mutex_lock_def Lock_woken mutex_defs\<close>)
qed (simp_all add: mutex_lock_def inv)

lemma mutex_inv_unlock:
  assumes inv: "mutex_inv s" and t: "t \<noteq> NULL"
  shows "mutex_inv (mutex_unlock t s)"
proof (cases "mpc s t")
  case (Unlock_spin c)
  obtain v c' where sl: "spin_lock c (m_slock (mtx s)) = (v, c')" by (cases "spin_lock c (m_slock (mtx s))")
  have "m_owner (mtx s) = t" using mutex_invD(3) [OF inv, of t] Unlock_spin by simp
  then show ?thesis
    by - (rule mutex_inv_moveI [OF inv, where t = t and c' = "case c' of None \<Rightarrow> Unlock_clear | Some c' \<Rightarrow> Unlock_spin c'"],
      use sl t spin_lock_cases [of c "m_slock (mtx s)" v] mutex_invD(3) [OF inv]
        in \<open>auto simp: mutex_unlock_def Unlock_spin mutex_defs split: option.splits\<close>)
next
  case Critical
  have "m_owner (mtx s) = t" using mutex_invD(3) [OF inv, of t] Critical by simp
  then show ?thesis
    by - (rule mutex_inv_moveI [OF inv, where t = t and c' = "Unlock_spin Xchg"],
      use mutex_invD(3) [OF inv] t in \<open>auto simp: mutex_unlock_def Critical mutex_defs\<close>)
next
  case Unlock_clear
  have own: "m_owner (mtx s) = t" using mutex_invD(3) [OF inv, of t] Unlock_clear by simp
  have "\<not> owns (mpc s u)" if "u \<noteq> t" for u using mutex_invD(3) [OF inv, of u] own that by auto
  then show ?thesis
    by - (rule mutex_inv_moveI [OF inv, where t = t and c' = Unlock_wake],
      use mutex_invD(2) [OF inv, of t] in \<open>auto simp: mutex_unlock_def Unlock_clear mutex_defs\<close>)
next
  case Unlock_wake
  show ?thesis
    by (rule mutex_inv_moveI [OF inv, where t = t and c' = Unlock_rel])
      (use mutex_invD(2) [OF inv, of t] mutex_invD(3) [OF inv]
        in \<open>auto simp: mutex_unlock_def Unlock_wake mutex_defs split: list.splits\<close>)
next
  case Unlock_rel
  show ?thesis
    by (rule mutex_inv_moveI [OF inv, where t = t and c' = Outside])
      (use mutex_invD(3) [OF inv] in \<open>auto simp: mutex_unlock_def Unlock_rel mutex_defs\<close>)
qed (simp_all add: mutex_unlock_def inv)

lemma mutex_inv_reach: "mutex_reach s s' \<Longrightarrow> mutex_inv s \<Longrightarrow> mutex_inv s'"
  by (induction rule: mutex_reach.induct) (auto elim!: mutex_stepE intro: mutex_inv_lock mutex_inv_unlock)

section \<open>The lost wakeup\<close>

text \<open>A list of moves, each the thread and whether it runs \<open>mutex_lock\<close>; \<open>None\<close>: one is blocked.\<close>

fun mutex_run :: "(bool \<times> ptr) list \<Rightarrow> mutex_sys \<Rightarrow> mutex_sys option" where
  "mutex_run [] s = Some s"
| "mutex_run ((l, t) # ms) s =
     (if t = NULL \<or> mblocked s t then None else mutex_run ms (if l then mutex_lock t s else mutex_unlock t s))"

lemma mutex_run_reach: "mutex_run ms s = Some s' \<Longrightarrow> mutex_reach s0 s \<Longrightarrow> mutex_reach s0 s'"
  by (induction ms s rule: mutex_run.induct)
    (auto split: if_splits intro: mutex_reach.step mutex_step.intros)

text \<open>The thread is blocked and stays blocked, whatever the others do.\<close>

definition blocked_for_ever :: "ptr \<Rightarrow> mutex_sys \<Rightarrow> bool" where
  "blocked_for_ever t s \<longleftrightarrow> (\<forall>s'. mutex_reach s s' \<longrightarrow> mblocked s' t)"

lemma lost_lock:
  "t \<noteq> u \<Longrightarrow> \<not> mblocked s u \<Longrightarrow> mblocked s t \<Longrightarrow> t \<notin> set (m_wait (mtx s)) \<Longrightarrow>
     mblocked (mutex_lock u s) t \<and> t \<notin> set (m_wait (mtx (mutex_lock u s)))"
  by (auto simp: mutex_lock_def goto_def on_mtx_def split: mutex_pc.splits prod.splits)

lemma lost_unlock:
  "t \<noteq> u \<Longrightarrow> \<not> mblocked s u \<Longrightarrow> mblocked s t \<Longrightarrow> t \<notin> set (m_wait (mtx s)) \<Longrightarrow>
     mblocked (mutex_unlock u s) t \<and> t \<notin> set (m_wait (mtx (mutex_unlock u s)))"
  by (auto simp: mutex_unlock_def goto_def on_mtx_def wake_first_def
      split: mutex_pc.splits prod.splits list.splits)

lemma lost_reach:
  "mutex_reach s s' \<Longrightarrow> mblocked s t \<Longrightarrow> t \<notin> set (m_wait (mtx s)) \<Longrightarrow>
     mblocked s' t \<and> t \<notin> set (m_wait (mtx s'))"
proof (induction rule: mutex_reach.induct)
  case (step s s' s'')
  from step.hyps(2) show ?case
    by (cases rule: mutex_step.cases) (use step lost_lock lost_unlock in metis)+
qed simp

lemma lost_for_ever: "mblocked s t \<Longrightarrow> t \<notin> set (m_wait (mtx s)) \<Longrightarrow> blocked_for_ever t s"
  unfolding blocked_for_ever_def using lost_reach by blast

text \<open>
  \<open>u\<close> takes the mutex; \<open>t\<close> finds it owned, parks and leaves the spinlock; \<open>u\<close> unlocks, pops \<open>t\<close>
  and unblocks it, which does nothing as \<open>t\<close> is still running; \<open>u\<close> returns, and \<open>t\<close> blocks.
\<close>

definition lost_wakeup_moves :: "ptr \<Rightarrow> ptr \<Rightarrow> (bool \<times> ptr) list" where
  "lost_wakeup_moves u t = replicate 5 (True, u) @ replicate 4 (True, t) @ replicate 5 (False, u) @ [(True, t)]"

definition lost_wakeup_end :: "ptr \<Rightarrow> mutex_sys" where
  "lost_wakeup_end t = \<lparr>mtx = mutex_init, mpc = (\<lambda>_. Outside)(t := Lock_woken), mblocked = (\<lambda>_. False)(t := True)\<rparr>"

lemma lost_wakeup_run:
  assumes "u \<noteq> NULL" "t \<noteq> NULL" "t \<noteq> u"
  shows "mutex_run (lost_wakeup_moves u t) mutex_start = Some (lost_wakeup_end t)"
  using assms
  by (simp add: lost_wakeup_moves_def lost_wakeup_end_def mutex_start_def mutex_init_def SPIN_FREE_def
      numeral_eq_Suc mutex_lock_def mutex_unlock_def mutex_defs fun_eq_iff)

section \<open>Semaphore\<close>

record semaphore =
  s_slock :: u32
  s_count :: u32
  s_wait :: "ptr list"

definition sema_init :: "u32 \<Rightarrow> semaphore" where
  "sema_init value = \<lparr>s_slock = SPIN_FREE, s_count = value, s_wait = []\<rparr>"

text \<open>
  \<open>count--\<close> and \<open>count++\<close> are a load and a store; the program counter between them carries the
  value loaded.
\<close>

datatype sema_pc =
  S_outside
| Down_spin spin_pc | Down_test | Down_take u32 | Down_got | Down_park | Down_block | Down_woken
| Up_spin spin_pc | Up_load | Up_store u32 | Up_wake | Up_rel

text \<open>The last two fields count the permits taken and returned so far.\<close>

record sema_sys =
  sem :: semaphore
  spc :: "ptr \<Rightarrow> sema_pc"
  sblocked :: "ptr \<Rightarrow> bool"
  downs :: nat
  ups :: nat

definition sgoto :: "ptr \<Rightarrow> sema_pc \<Rightarrow> sema_sys \<Rightarrow> sema_sys" where
  "sgoto t c s = s\<lparr>spc := (spc s)(t := c)\<rparr>"

definition on_sem :: "(semaphore \<Rightarrow> semaphore) \<Rightarrow> sema_sys \<Rightarrow> sema_sys" where
  "on_sem f s = s\<lparr>sem := f (sem s)\<rparr>"

definition sema_down :: "ptr \<Rightarrow> sema_sys \<Rightarrow> sema_sys" where
  "sema_down t s =
     (case spc s t of
        S_outside \<Rightarrow> sgoto t (Down_spin Xchg) s
      | Down_spin c \<Rightarrow>
          (case spin_lock c (s_slock (sem s)) of (v, c') \<Rightarrow>
             sgoto t (case c' of None \<Rightarrow> Down_test | Some c' \<Rightarrow> Down_spin c') (on_sem (s_slock_update (\<lambda>_. v)) s))
      | Down_test \<Rightarrow>
          if s_count (sem s) > 0 then sgoto t (Down_take (s_count (sem s))) s
          else sgoto t Down_park (on_sem (s_wait_update (\<lambda>ws. ws @ [t])) s)
      | Down_take n \<Rightarrow>
          sgoto t Down_got (on_sem (s_count_update (\<lambda>_. n - 1)) (s\<lparr>downs := Suc (downs s)\<rparr>))
      | Down_got \<Rightarrow> sgoto t S_outside (on_sem (s_slock_update spin_unlock) s)
      | Down_park \<Rightarrow> sgoto t Down_block (on_sem (s_slock_update spin_unlock) s)
      | Down_block \<Rightarrow> sgoto t Down_woken (s\<lparr>sblocked := (sblocked s)(t := True)\<rparr>)
      | Down_woken \<Rightarrow> sgoto t (Down_spin Xchg) s
      | _ \<Rightarrow> s)"

definition sema_up :: "ptr \<Rightarrow> sema_sys \<Rightarrow> sema_sys" where
  "sema_up t s =
     (case spc s t of
        S_outside \<Rightarrow> sgoto t (Up_spin Xchg) s
      | Up_spin c \<Rightarrow>
          (case spin_lock c (s_slock (sem s)) of (v, c') \<Rightarrow>
             sgoto t (case c' of None \<Rightarrow> Up_load | Some c' \<Rightarrow> Up_spin c') (on_sem (s_slock_update (\<lambda>_. v)) s))
      | Up_load \<Rightarrow> sgoto t (Up_store (s_count (sem s))) s
      | Up_store n \<Rightarrow>
          sgoto t Up_wake (on_sem (s_count_update (\<lambda>_. n + 1)) (s\<lparr>ups := Suc (ups s)\<rparr>))
      | Up_wake \<Rightarrow>
          (case wake_first (s_wait (sem s)) (sblocked s) of (ws, b) \<Rightarrow>
             sgoto t Up_rel (on_sem (s_wait_update (\<lambda>_. ws)) (s\<lparr>sblocked := b\<rparr>)))
      | Up_rel \<Rightarrow> sgoto t S_outside (on_sem (s_slock_update spin_unlock) s)
      | _ \<Rightarrow> s)"

inductive sema_step :: "sema_sys \<Rightarrow> sema_sys \<Rightarrow> bool" where
  down: "t \<noteq> NULL \<Longrightarrow> \<not> sblocked s t \<Longrightarrow> sema_step s (sema_down t s)"
| up: "t \<noteq> NULL \<Longrightarrow> \<not> sblocked s t \<Longrightarrow> sema_step s (sema_up t s)"

definition sema_start :: "u32 \<Rightarrow> sema_sys" where
  "sema_start value = \<lparr>sem = sema_init value, spc = (\<lambda>_. S_outside), sblocked = (\<lambda>_. False), downs = 0, ups = 0\<rparr>"

inductive sema_reach :: "sema_sys \<Rightarrow> sema_sys \<Rightarrow> bool" where
  refl: "sema_reach s s"
| step: "sema_reach s s' \<Longrightarrow> sema_step s' s'' \<Longrightarrow> sema_reach s s''"

inductive_cases sema_stepE: "sema_step s s'"

section \<open>Permits\<close>

fun sema_spin :: "sema_pc \<Rightarrow> bool" where
  "sema_spin c \<longleftrightarrow> (case c of S_outside \<Rightarrow> False | Down_spin _ \<Rightarrow> False | Down_block \<Rightarrow> False
      | Down_woken \<Rightarrow> False | Up_spin _ \<Rightarrow> False | _ \<Rightarrow> True)"

fun loaded :: "sema_pc \<Rightarrow> u32 \<Rightarrow> bool" where
  "loaded (Down_take n) c \<longleftrightarrow> n = c \<and> 0 < c"
| "loaded (Up_store n) c \<longleftrightarrow> n = c"
| "loaded _ c \<longleftrightarrow> True"

definition sema_inv :: "u32 \<Rightarrow> sema_sys \<Rightarrow> bool" where
  "sema_inv value s \<longleftrightarrow>
     spin_excl sema_spin (s_slock (sem s)) (spc s) \<and>
     (\<forall>t. loaded (spc s t) (s_count (sem s))) \<and>
     (unat value + ups s < 2 ^ 32 \<longrightarrow> unat (s_count (sem s)) + downs s = unat value + ups s)"

lemmas sema_defs = sgoto_def on_sem_def spin_unlock_def wake_first_def

lemma sema_inv_start: "sema_inv value (sema_start value)"
  by (simp add: sema_inv_def spin_excl_def sema_start_def sema_init_def)

lemma loaded_spin: "\<not> sema_spin c \<Longrightarrow> loaded c n"
  by (cases c) auto

text \<open>A move that leaves the count alone, and a move that writes it from inside the spinlock.\<close>

lemma sema_inv_moveI:
  assumes inv: "sema_inv value s" and pc: "spc s' = (spc s)(t := c')"
    and take: "sema_spin c' \<Longrightarrow> s_slock (sem s') \<noteq> 0 \<and> (sema_spin (spc s t) \<or> s_slock (sem s) = 0)"
    and free: "s_slock (sem s') = 0 \<Longrightarrow> s_slock (sem s) = 0 \<or> sema_spin (spc s t)"
    and load: "loaded c' (s_count (sem s'))"
    and count: "s_count (sem s') = s_count (sem s) \<and> downs s' = downs s \<and> ups s' = ups s \<or>
      sema_spin (spc s t) \<and> (unat value + ups s' < 2 ^ 32 \<longrightarrow> unat (s_count (sem s')) + downs s' = unat value + ups s')"
  shows "sema_inv value s'"
proof -
  have ex: "spin_excl sema_spin (s_slock (sem s)) (spc s)"
    and ld: "\<And>u. loaded (spc s u) (s_count (sem s))"
    using inv unfolding sema_inv_def by blast+
  have "spin_excl sema_spin (s_slock (sem s')) (spc s')"
    unfolding pc
    by (rule spin_excl_move [where w = "s_slock (sem s)"]) (use ex take free in \<open>auto simp only:\<close>)
  moreover have "loaded (spc s' u) (s_count (sem s'))" for u
  proof (cases "u = t \<or> s_count (sem s') = s_count (sem s)")
    case True
    then show ?thesis using ld load unfolding pc by (metis fun_upd_apply)
  next
    case False
    then have "\<not> sema_spin (spc s u)" using count spin_exclD(1) [OF ex, of t u] by blast
    then show ?thesis using False loaded_spin unfolding pc by simp
  qed
  moreover have "unat value + ups s' < 2 ^ 32 \<longrightarrow> unat (s_count (sem s')) + downs s' = unat value + ups s'"
    using count inv unfolding sema_inv_def by metis
  ultimately show ?thesis unfolding sema_inv_def by blast
qed

lemma sema_invD:
  assumes "sema_inv value s"
  shows "sema_spin (spc s t) \<Longrightarrow> s_slock (sem s) \<noteq> 0"
    and "loaded (spc s t) (s_count (sem s))"
  using assms spin_exclD [of sema_spin "s_slock (sem s)" "spc s"] unfolding sema_inv_def by blast+

text \<open>The two writes of the count.\<close>

lemma sema_take_count:
  assumes inv: "sema_inv value s" and pc: "spc s t = Down_take n"
    and lim: "unat value + ups s < 2 ^ 32"
  shows "unat (n - 1) + Suc (downs s) = unat value + ups s"
proof -
  have n: "n = s_count (sem s)" "0 < n" using sema_invD(2) [OF inv, of t] pc by auto
  then have "unat (n - 1) = unat n - 1" "0 < unat n" by (auto simp: unat_sub_small unat_gt_0 Suc_le_eq)
  then show ?thesis using inv lim n(1) unfolding sema_inv_def by auto
qed

lemma sema_store_count:
  assumes inv: "sema_inv value s" and pc: "spc s t = Up_store n"
    and lim: "unat value + Suc (ups s) < 2 ^ 32"
  shows "unat (n + 1) + downs s = unat value + Suc (ups s)"
proof -
  have n: "n = s_count (sem s)" using sema_invD(2) [OF inv, of t] pc by auto
  have c: "unat n + downs s = unat value + ups s" using inv lim n unfolding sema_inv_def by auto
  then have "unat n + unat (1 :: u32) < 2 ^ 32" using lim by simp
  then have "unat (n + 1) = unat n + 1" using unat_add_small [of n 1] by simp
  then show ?thesis using c by simp
qed

lemma sema_inv_down:
  assumes inv: "sema_inv value s"
  shows "sema_inv value (sema_down t s)"
proof (cases "spc s t")
  case (Down_spin c)
  obtain v c' where sl: "spin_lock c (s_slock (sem s)) = (v, c')" by (cases "spin_lock c (s_slock (sem s))")
  show ?thesis
    by (rule sema_inv_moveI [OF inv, where t = t and c' = "case c' of None \<Rightarrow> Down_test | Some c' \<Rightarrow> Down_spin c'"])
      (use sl spin_lock_cases [of c "s_slock (sem s)" v] in \<open>auto simp: sema_down_def Down_spin sema_defs split: option.splits\<close>)
next
  case S_outside
  show ?thesis
    by (rule sema_inv_moveI [OF inv, where t = t and c' = "Down_spin Xchg"])
      (use sema_invD [OF inv, of t] S_outside in \<open>auto simp: sema_down_def sema_defs split: list.splits\<close>)
next
  case Down_test
  show ?thesis
    by (rule sema_inv_moveI [OF inv, where t = t and c' = "if 0 < s_count (sem s) then Down_take (s_count (sem s)) else Down_park"])
      (use sema_invD [OF inv, of t] Down_test in \<open>auto simp: sema_down_def sema_defs split: list.splits\<close>)
next
  case (Down_take n)
  show ?thesis
    by (rule sema_inv_moveI [OF inv, where t = t and c' = Down_got])
      (use sema_invD(1) [OF inv, of t] sema_take_count [OF inv] Down_take in \<open>auto simp: sema_down_def sema_defs split: list.splits\<close>)
next
  case Down_got
  show ?thesis
    by (rule sema_inv_moveI [OF inv, where t = t and c' = S_outside])
      (use sema_invD [OF inv, of t] Down_got in \<open>auto simp: sema_down_def sema_defs split: list.splits\<close>)
next
  case Down_park
  show ?thesis
    by (rule sema_inv_moveI [OF inv, where t = t and c' = Down_block])
      (use sema_invD [OF inv, of t] Down_park in \<open>auto simp: sema_down_def sema_defs split: list.splits\<close>)
next
  case Down_block
  show ?thesis
    by (rule sema_inv_moveI [OF inv, where t = t and c' = Down_woken])
      (use sema_invD [OF inv, of t] Down_block in \<open>auto simp: sema_down_def sema_defs split: list.splits\<close>)
next
  case Down_woken
  show ?thesis
    by (rule sema_inv_moveI [OF inv, where t = t and c' = "Down_spin Xchg"])
      (use sema_invD [OF inv, of t] Down_woken in \<open>auto simp: sema_down_def sema_defs split: list.splits\<close>)
qed (simp_all add: sema_down_def inv)

lemma sema_inv_up:
  assumes inv: "sema_inv value s"
  shows "sema_inv value (sema_up t s)"
proof (cases "spc s t")
  case (Up_spin c)
  obtain v c' where sl: "spin_lock c (s_slock (sem s)) = (v, c')" by (cases "spin_lock c (s_slock (sem s))")
  show ?thesis
    by (rule sema_inv_moveI [OF inv, where t = t and c' = "case c' of None \<Rightarrow> Up_load | Some c' \<Rightarrow> Up_spin c'"])
      (use sl spin_lock_cases [of c "s_slock (sem s)" v] in \<open>auto simp: sema_up_def Up_spin sema_defs split: option.splits\<close>)
next
  case S_outside
  show ?thesis
    by (rule sema_inv_moveI [OF inv, where t = t and c' = "Up_spin Xchg"])
      (use sema_invD [OF inv, of t] S_outside in \<open>auto simp: sema_up_def sema_defs split: list.splits\<close>)
next
  case Up_load
  show ?thesis
    by (rule sema_inv_moveI [OF inv, where t = t and c' = "Up_store (s_count (sem s))"])
      (use sema_invD [OF inv, of t] Up_load in \<open>auto simp: sema_up_def sema_defs split: list.splits\<close>)
next
  case (Up_store n)
  show ?thesis
    by (rule sema_inv_moveI [OF inv, where t = t and c' = Up_wake])
      (use sema_invD(1) [OF inv, of t] sema_store_count [OF inv] Up_store in \<open>auto simp: sema_up_def sema_defs split: list.splits\<close>)
next
  case Up_wake
  show ?thesis
    by (rule sema_inv_moveI [OF inv, where t = t and c' = Up_rel])
      (use sema_invD [OF inv, of t] Up_wake in \<open>auto simp: sema_up_def sema_defs split: list.splits\<close>)
next
  case Up_rel
  show ?thesis
    by (rule sema_inv_moveI [OF inv, where t = t and c' = S_outside])
      (use sema_invD [OF inv, of t] Up_rel in \<open>auto simp: sema_up_def sema_defs split: list.splits\<close>)
qed (simp_all add: sema_up_def inv)

lemma sema_inv_reach: "sema_reach s s' \<Longrightarrow> sema_inv value s \<Longrightarrow> sema_inv value s'"
  by (induction rule: sema_reach.induct) (auto elim!: sema_stepE intro: sema_inv_down sema_inv_up)

section \<open>Properties\<close>

text \<open>C1: in every state that threads running \<open>mutex_lock\<close> and \<open>mutex_unlock\<close> reach, in any
  interleaving, at most one thread is in its critical section, and the mutex names it as the owner.\<close>

theorem mutex_exclusion:
  assumes "mutex_reach mutex_start s" and "mpc s t = Critical"
  shows "m_owner (mtx s) = t \<and> (\<forall>u. mpc s u = Critical \<longrightarrow> u = t)"
proof -
  have inv: "mutex_inv s" using mutex_inv_reach [OF assms(1) mutex_inv_start] .
  show ?thesis using mutex_invD(3) [OF inv] assms(2) by (metis owns.simps(2))
qed

text \<open>C7: the wakeup of a mutex can be lost: two threads reach a state where the mutex is free,
  nobody is inside it or waits for it, and one thread is blocked in \<open>mutex_lock\<close> for ever,
  whatever any other thread does after.\<close>

theorem mutex_lost_wakeup:
  assumes "u \<noteq> NULL" "t \<noteq> NULL" "t \<noteq> u"
  shows "\<exists>s. mutex_reach mutex_start s \<and> mtx s = mutex_init \<and> mpc s u = Outside \<and>
    mpc s t = Lock_woken \<and> blocked_for_ever t s"
  by (rule exI [where x = "lost_wakeup_end t"])
    (use assms mutex_run_reach [OF lost_wakeup_run mutex_reach.refl] lost_for_ever [of "lost_wakeup_end t" t]
      in \<open>auto simp: lost_wakeup_end_def mutex_init_def\<close>)

text \<open>C40: a semaphore never gives out a permit it does not have: while fewer than 2^32 permits
  were put in, the count is the permits put in less the permits taken, and no thread decrements a
  count of 0.\<close>

theorem sema_permits:
  assumes "sema_reach (sema_start value) s" and "unat value + ups s < 2 ^ 32"
  shows "unat (s_count (sem s)) = unat value + ups s - downs s \<and> downs s \<le> unat value + ups s \<and>
    (\<forall>t n. spc s t = Down_take n \<longrightarrow> n = s_count (sem s) \<and> 0 < n)"
proof -
  have inv: "sema_inv value s" using sema_inv_reach [OF assms(1) sema_inv_start] .
  then have "unat (s_count (sem s)) + downs s = unat value + ups s"
    using assms(2) unfolding sema_inv_def by blast
  then show ?thesis using sema_invD(2) [OF inv] by (metis add_diff_cancel_right' le_add2 loaded.simps(1))
qed

text \<open>One thread locks an idle mutex; one takes the only permit of a semaphore.\<close>

definition demo_critical :: mutex_sys where
  "demo_critical = \<lparr>mtx = \<lparr>m_slock = 0, m_owner = 1, m_wait = []\<rparr>, mpc = (\<lambda>_. Outside)(1 := Critical), mblocked = (\<lambda>_. False)\<rparr>"

lemma demo_critical_reach: "mutex_reach mutex_start demo_critical"
  by (rule mutex_run_reach [OF _ mutex_reach.refl, where ms = "replicate 5 (True, 1)"])
    (simp add: demo_critical_def mutex_start_def mutex_init_def SPIN_FREE_def numeral_eq_Suc mutex_lock_def mutex_defs)

theorem mutex_exclusion_witness: "m_owner (mtx demo_critical) = 1"
  using mutex_exclusion [OF demo_critical_reach, of 1] by (simp add: demo_critical_def)

theorem mutex_lost_wakeup_witness:
  "\<exists>s. mutex_reach mutex_start s \<and> mtx s = mutex_init \<and> mpc s 0xC0102000 = Outside \<and>
    mpc s 0xC0103000 = Lock_woken \<and> blocked_for_ever 0xC0103000 s"
  by (rule mutex_lost_wakeup) simp_all

fun sema_run :: "(bool \<times> ptr) list \<Rightarrow> sema_sys \<Rightarrow> sema_sys option" where
  "sema_run [] s = Some s"
| "sema_run ((d, t) # ms) s =
     (if t = NULL \<or> sblocked s t then None else sema_run ms (if d then sema_down t s else sema_up t s))"

lemma sema_run_reach: "sema_run ms s = Some s' \<Longrightarrow> sema_reach s0 s \<Longrightarrow> sema_reach s0 s'"
  by (induction ms s rule: sema_run.induct)
    (auto split: if_splits intro: sema_reach.step sema_step.intros)

definition demo_taken :: sema_sys where
  "demo_taken = \<lparr>sem = \<lparr>s_slock = 1, s_count = 0, s_wait = []\<rparr>, spc = (\<lambda>_. S_outside)(1 := Down_got),
     sblocked = (\<lambda>_. False), downs = 1, ups = 0\<rparr>"

lemma demo_taken_reach: "sema_reach (sema_start 1) demo_taken"
  by (rule sema_run_reach [OF _ sema_reach.refl, where ms = "replicate 4 (True, 1)"])
    (simp add: demo_taken_def sema_start_def sema_init_def SPIN_FREE_def numeral_eq_Suc sema_down_def sema_defs xchg_def)

theorem sema_permits_witness: "unat (s_count (sem demo_taken)) = 0 \<and> downs demo_taken \<le> 1"
  using sema_permits [OF demo_taken_reach] by (simp add: demo_taken_def)

end
