(* ===== verification/KHeap.thy ===== *)
theory KHeap
  imports KList KPages KString
begin

text \<open>
  The byte-granularity heap of \<open>code/kernel/src/memory.c\<close>: \<open>sys_malloc\<close>, \<open>sys_free\<close>,
  \<open>mem_acquire\<close>, \<open>mem_release\<close> and the table of block descriptors.

  Heap memory is seen through its types: the arena header at the start of a page, the list node at
  the start of a free block, and the bytes of the blocks. A \<open>memset\<close> clears whatever of the three
  starts in its range. \<open>sizeof(struct arena)\<close> is 12 and \<open>sizeof(struct mem_block_desc)\<close> is 48 on
  the 32-bit target; the free list of a descriptor is at offset 8.
\<close>

section \<open>State\<close>

text \<open>\<open>lingers\<close> is a choice of the processor: whether it still holds the translation of a page when the
  call that gave the page back touches it once more.\<close>

record arena =
  p_mem_block :: ptr
  a_cnt :: u32
  is_page_cnt :: bool

record mem_block_desc =
  block_size :: u32
  blocks_per_arena :: u32
  d_mlock :: ptr

record heap_state =
  mm :: mm_state
  arenas :: "ptr \<Rightarrow> arena"
  hnodes :: lheap
  hbytes :: mem
  descs :: "ptr \<Rightarrow> mem_block_desc"
  k_mem_block :: ptr
  lingers :: bool

definition MEM_BLOCK_CNT :: nat where "MEM_BLOCK_CNT = 7"

definition ARENA_SIZE :: u32 where "ARENA_SIZE = 12"

definition desc_at :: "ptr \<Rightarrow> u32 \<Rightarrow> ptr" where
  "desc_at mblock idx = mblock + idx * 48"

definition free_list :: "ptr \<Rightarrow> ptr" where
  "free_list d = d + 8"

section \<open>Operations\<close>

definition arena2block :: "heap_state \<Rightarrow> ptr \<Rightarrow> u32 \<Rightarrow> ptr" where
  "arena2block s a idx = a + ARENA_SIZE + idx * block_size (descs s (p_mem_block (arenas s a)))"

definition block2arena :: "ptr \<Rightarrow> ptr" where
  "block2arena b = b AND 0xfffff000"

definition heap_memset :: "ptr \<Rightarrow> u32 \<Rightarrow> heap_state \<Rightarrow> heap_state" where
  "heap_memset p n s = s\<lparr>
     arenas := (\<lambda>q. if in_range p n q then \<lparr>p_mem_block = NULL, a_cnt = 0, is_page_cnt = False\<rparr> else arenas s q),
     hnodes := (\<lambda>q. if in_range p n q then \<lparr>prev = NULL, nxt = NULL\<rparr> else hnodes s q),
     hbytes := memset (hbytes s) p 0 n\<rparr>"

definition set_arena :: "ptr \<Rightarrow> (arena \<Rightarrow> arena) \<Rightarrow> heap_state \<Rightarrow> heap_state" where
  "set_arena a f s = s\<lparr>arenas := (arenas s)(a := f (arenas s a))\<rparr>"

fun split_arena :: "nat \<Rightarrow> u32 \<Rightarrow> ptr \<Rightarrow> heap_state \<Rightarrow> heap_state" where
  "split_arena 0 idx a s = s"
| "split_arena (Suc n) idx a s =
     (let b = arena2block s a idx
      in split_arena n (idx + 1) a
           (s\<lparr>hnodes := list_append (hnodes s) (free_list (p_mem_block (arenas s a))) b\<rparr>))"

text \<open>A page just acquired becomes an arena of the descriptor at \<open>d\<close>.\<close>

definition new_arena :: "ptr \<Rightarrow> ptr \<Rightarrow> heap_state \<Rightarrow> heap_state" where
  "new_arena d a s =
     (let s1 = heap_memset a PG_SIZE s;
          s2 = set_arena a (\<lambda>_. \<lparr>p_mem_block = d, a_cnt = blocks_per_arena (descs s d), is_page_cnt = False\<rparr>) s1
      in split_arena (unat (blocks_per_arena (descs s d))) 0 a s2)"

definition take_block :: "ptr \<Rightarrow> heap_state \<Rightarrow> ptr \<times> heap_state" where
  "take_block d s =
     (case list_pop (hnodes s) (free_list d) of (elem, h) \<Rightarrow>
        let b = elem2entry 0 elem;
            s1 = heap_memset b (block_size (descs s d)) (s\<lparr>hnodes := h\<rparr>)
        in (b, set_arena (block2arena b) (a_cnt_update (\<lambda>c. c - 1)) s1))"

definition mem_acquire :: "pool_id \<Rightarrow> ptr \<Rightarrow> u32 \<Rightarrow> heap_state \<Rightarrow> stop + ptr \<times> heap_state" where
  "mem_acquire pp mblock mblock_idx s =
     (let d = desc_at mblock mblock_idx
      in if list_empty (hnodes s) (free_list d)
         then rbind (page_acquire pp NULL 1 (mm s)) (\<lambda>(a, m).
                let s1 = s\<lparr>mm := m\<rparr>
                in if a = NULL then Inr (NULL, s1) else Inr (take_block d (new_arena d a s1)))
         else Inr (take_block d s))"

fun unlink_arena :: "nat \<Rightarrow> u32 \<Rightarrow> ptr \<Rightarrow> heap_state \<Rightarrow> heap_state" where
  "unlink_arena 0 idx a s = s"
| "unlink_arena (Suc n) idx a s =
     unlink_arena n (idx + 1) a (s\<lparr>hnodes := list_remove (hnodes s) (arena2block s a idx)\<rparr>)"

definition mem_release :: "pool_id \<Rightarrow> ptr \<Rightarrow> heap_state \<Rightarrow> stop + heap_state" where
  "mem_release pp vaddr s =
     (let a = block2arena vaddr;
          s1 = s\<lparr>hnodes := list_append (hnodes s) (free_list (p_mem_block (arenas s a))) vaddr\<rparr>;
          s2 = set_arena a (a_cnt_update (\<lambda>c. c + 1)) s1;
          n = blocks_per_arena (descs s2 (p_mem_block (arenas s2 a)))
      in if a_cnt (arenas s2 a) = n
         then let s3 = unlink_arena (unat n) 0 a s2
              in rbind (page_release pp a 1 (mm s3)) (\<lambda>m. Inr (s3\<lparr>mm := m\<rparr>))
         else Inr s2)"

text \<open>\<open>mutex_lock(&d->mlock); body; mutex_unlock(&d->mlock);\<close>\<close>

definition set_d_mlock :: "ptr \<Rightarrow> ptr \<Rightarrow> heap_state \<Rightarrow> heap_state" where
  "set_d_mlock d t s = s\<lparr>descs := (descs s)(d := (descs s d)\<lparr>d_mlock := t\<rparr>)\<rparr>"

definition with_d_lock ::
    "ptr \<Rightarrow> (heap_state \<Rightarrow> stop + 'a \<times> heap_state) \<Rightarrow> heap_state \<Rightarrow> stop + 'a \<times> heap_state" where
  "with_d_lock d body s =
     (if d_mlock (descs s d) \<noteq> NULL then Inl Blocked
      else rbind (body (set_d_mlock d (cur_task (mm s)) s)) (\<lambda>(r, s'). Inr (r, set_d_mlock d NULL s')))"

fun find_desc :: "nat \<Rightarrow> nat \<Rightarrow> u32 \<Rightarrow> heap_state \<Rightarrow> nat" where
  "find_desc 0 mblock_idx sz s = mblock_idx"
| "find_desc (Suc n) mblock_idx sz s =
     (if sz \<le> block_size (descs s (desc_at (k_mem_block s) (of_nat mblock_idx))) then mblock_idx
      else find_desc n (Suc mblock_idx) sz s)"

definition sys_malloc :: "u32 \<Rightarrow> heap_state \<Rightarrow> stop + ptr \<times> heap_state" where
  "sys_malloc sz s =
     (if sz > 1024 then
        let page_cnt = DIV_ROUND_UP (sz + ARENA_SIZE) PG_SIZE
        in rbind (page_acquire K_P_POOL NULL page_cnt (mm s)) (\<lambda>(a, m).
             let s1 = s\<lparr>mm := m\<rparr>
             in if a = NULL then Inr (NULL, s1)
                else let s2 = heap_memset a (page_cnt * PG_SIZE) s1
                     in Inr (a + ARENA_SIZE,
                          set_arena a (\<lambda>_. \<lparr>p_mem_block = NULL, a_cnt = page_cnt, is_page_cnt = True\<rparr>) s2))
      else
        let mblock_idx = of_nat (find_desc MEM_BLOCK_CNT 0 sz s)
        in with_d_lock (desc_at (k_mem_block s) mblock_idx)
             (mem_acquire K_P_POOL (k_mem_block s) mblock_idx) s)"

text \<open>
  \<open>mutex_unlock(&a->p_mem_block->mlock)\<close> reads the header again. When \<open>mem_release\<close> gave the page of the
  arena back, the table has no entry for it any more; \<open>invlpg\<close> flushed another page, so the read still
  finds the old header where the processor kept the translation, and faults where it did not.
\<close>

definition sys_free :: "ptr \<Rightarrow> heap_state \<Rightarrow> stop + heap_state" where
  "sys_free vaddr s =
     (let a = block2arena vaddr
      in if is_page_cnt (arenas s a)
         then rbind (page_release K_P_POOL a (a_cnt (arenas s a)) (mm s)) (\<lambda>m. Inr (s\<lparr>mm := m\<rparr>))
         else let d = p_mem_block (arenas s a)
              in if d_mlock (descs s d) \<noteq> NULL then Inl Blocked
                 else rbind (mem_release K_P_POOL vaddr (set_d_mlock d (cur_task (mm s)) s)) (\<lambda>s1.
                   if walk (kmmu (mm s1)) a = None \<and> \<not> lingers s1 then Inl Page_fault
                   else Inr (set_d_mlock (p_mem_block (arenas s1 a)) NULL s1)))"

fun mem_block_init_loop :: "nat \<Rightarrow> u32 \<Rightarrow> u32 \<Rightarrow> heap_state \<Rightarrow> heap_state" where
  "mem_block_init_loop 0 idx blk s = s"
| "mem_block_init_loop (Suc n) idx blk s =
     (let d = desc_at (k_mem_block s) idx;
          s1 = s\<lparr>descs := (descs s)(d := \<lparr>block_size = blk,
                   blocks_per_arena = (PG_SIZE - ARENA_SIZE) div blk, d_mlock = NULL\<rparr>)\<rparr>
      in mem_block_init_loop n (idx + 1) (blk * 2) (s1\<lparr>hnodes := list_init (hnodes s1) (free_list d)\<rparr>))"

definition mem_block_init :: "heap_state \<Rightarrow> heap_state" where
  "mem_block_init s = mem_block_init_loop MEM_BLOCK_CNT 0 16 s"

text \<open>
  \<open>mem_init\<close> from the memory size that the boot code left at \<open>MEM_SIZE_ADDR\<close>. The page tables,
  the running thread and the stack slot are those of \<open>mm\<close>.
\<close>

definition MEM_SIZE_ADDR :: ptr where "MEM_SIZE_ADDR = 0x900"

definition mem_init :: "heap_state \<Rightarrow> heap_state" where
  "mem_init s =
     (case pool_init (load32 (kmem (mm s)) MEM_SIZE_ADDR) (kmem (mm s)) of (kp, up, vp, m) \<Rightarrow>
        let s1 = s\<lparr>mm := (mm s)\<lparr>kmem := m, k_p_pool := kp, u_p_pool := up, k_v_pool := vp\<rparr>\<rparr>;
            s2 = mem_block_init s1
        in s2\<lparr>mm := (mm s2)\<lparr>mlock_pgtable := NULL\<rparr>\<rparr>)"

section \<open>The header and the processor's choice\<close>

named_theorems lingers_simps

lemma lingers_parts [lingers_simps]:
  "lingers (heap_memset p n s) = lingers s" "lingers (set_arena a f s) = lingers s" "lingers (set_d_mlock d t s) = lingers s"
  "lingers (s\<lparr>hnodes := h\<rparr>) = lingers s" "lingers (s\<lparr>mm := m\<rparr>) = lingers s"
  "k_mem_block (heap_memset p n s) = k_mem_block s" "k_mem_block (set_arena a f s) = k_mem_block s"
  "k_mem_block (set_d_mlock d t s) = k_mem_block s"
  by (simp_all add: heap_memset_def set_arena_def set_d_mlock_def)

lemma lingers_split [lingers_simps]:
  "lingers (split_arena n idx a s) = lingers s" "k_mem_block (split_arena n idx a s) = k_mem_block s"
  by (induction n arbitrary: idx s) (simp_all add: Let_def)

lemma lingers_unlink [lingers_simps]: "lingers (unlink_arena n idx a s) = lingers s"
  by (induction n arbitrary: idx s) simp_all

lemma lingers_take [lingers_simps]:
  "lingers (snd (take_block d s)) = lingers s" "k_mem_block (snd (take_block d s)) = k_mem_block s"
  by (simp_all add: take_block_def Let_def lingers_simps split: prod.splits)

lemma lingers_new [lingers_simps]:
  "lingers (new_arena d a s) = lingers s" "k_mem_block (new_arena d a s) = k_mem_block s"
  by (simp_all add: new_arena_def Let_def lingers_simps)

lemma sys_malloc_lingers:
  assumes "sys_malloc sz s = Inr (p, s')"
  shows "lingers s' = lingers s" and "k_mem_block s' = k_mem_block s"
proof -
  have take: "take_block d t = (q, u) \<Longrightarrow> lingers u = lingers t \<and> k_mem_block u = k_mem_block t" for d t q u
    using lingers_take [of d t] by simp
  have acq: "lingers u = lingers t \<and> k_mem_block u = k_mem_block t" if "mem_acquire pp mb i t = Inr (q, u)" for pp mb i t q u
    using that by (auto simp: mem_acquire_def Let_def rbind_Inr_iff lingers_simps dest!: take split: if_splits)
  show "lingers s' = lingers s" "k_mem_block s' = k_mem_block s"
    using assms by (auto simp: sys_malloc_def Let_def with_d_lock_def rbind_Inr_iff lingers_simps dest!: acq split: if_splits)
qed

lemma unlink_mm: "mm (unlink_arena n idx a s) = mm s" "arenas (unlink_arena n idx a s) = arenas s"
  by (induction n arbitrary: idx s) simp_all

text \<open>The block is the last of its arena that is not free.\<close>

definition last_block :: "ptr \<Rightarrow> heap_state \<Rightarrow> bool" where
  "last_block b s \<longleftrightarrow> (let h = arenas s (block2arena b)
     in \<not> is_page_cnt h \<and> a_cnt h + 1 = blocks_per_arena (descs s (p_mem_block h)))"

lemma mem_release_header:
  assumes "mem_release pp b s = Inr s'" and "\<not> is_page_cnt (arenas s (block2arena b))"
  shows "p_mem_block (arenas s' x) = p_mem_block (arenas s x)" and "lingers s' = lingers s"
    and "if last_block b s then page_release pp (block2arena b) 1 (mm s) = Inr (mm s') else mm s' = mm s"
  using assms
  by (auto simp: mem_release_def last_block_def Let_def set_arena_def rbind_Inr_iff lingers_simps unlink_mm split: if_splits)

lemma sys_free_lingers: "sys_free p s = Inr s' \<Longrightarrow> lingers s' = lingers s"
  by (auto simp: sys_free_def Let_def rbind_Inr_iff lingers_simps set_d_mlock_def dest!: mem_release_header(2) split: if_splits)

section \<open>Geometry of blocks and descriptors\<close>

text \<open>Block size and blocks per arena of descriptor \<open>i\<close>, block \<open>j\<close> of heap page \<open>k\<close> cut for \<open>i\<close>.\<close>

definition BS :: "nat \<Rightarrow> nat" where "BS i = 16 * 2 ^ i"

definition BPA :: "nat \<Rightarrow> nat" where "BPA i = 4084 div BS i"

definition blk :: "nat \<Rightarrow> nat \<Rightarrow> nat \<Rightarrow> ptr" where
  "blk i k j = heap_page k + ARENA_SIZE + of_nat j * of_nat (BS i)"

definition blks :: "nat \<Rightarrow> nat \<Rightarrow> ptr set" where
  "blks i k = blk i k ` {..<BPA i}"

lemma less_7: "i < (7::nat) \<Longrightarrow> i = 0 \<or> i = 1 \<or> i = 2 \<or> i = 3 \<or> i = 4 \<or> i = 5 \<or> i = 6"
  by linarith

lemma BS_BPA:
  assumes "i < 7"
  shows "16 \<le> BS i" "BS i \<le> 1024" "BPA i * BS i \<le> 4084" "3 \<le> BPA i" "BPA i \<le> 255"
  using less_7 [OF assms] by (elim disjE; simp add: BS_def BPA_def)+

lemma blk_fits: "i < 7 \<Longrightarrow> j < BPA i \<Longrightarrow> 12 + j * BS i + BS i \<le> 4096"
  using mult_le_mono1 [of "Suc j" "BPA i" "BS i"] BS_BPA(3) [of i] by simp

lemma blk_unat:
  assumes "i < 7" "k < HEAP_PAGES" "j < BPA i"
  shows "unat (blk i k j) = 0xC0100000 + k * 4096 + 12 + j * BS i"
proof -
  have j: "12 + j * BS i + BS i \<le> 4096" using blk_fits assms by blast
  have k: "k < 0x3FB00" using assms(2) by (simp add: HEAP_PAGES_def)
  have b: "BS i \<le> 1024" "j < 256" using BS_BPA [OF assms(1)] assms(3) by auto
  have 1: "unat (of_nat j * of_nat (BS i) :: u32) = j * BS i"
    using j b by (subst unat_mult_small) (simp_all add: unat_of_nat_less)
  have 2: "unat (heap_page k + ARENA_SIZE) = 0xC0100000 + k * 4096 + 12"
    using k by (subst unat_add_small; simp add: heap_page_unat [OF assms(2)] ARENA_SIZE_def)
  show ?thesis unfolding blk_def using 1 2 j k by (subst unat_add_small; simp)
qed

lemma blk_page:
  assumes "i < 7" "k < HEAP_PAGES" "j < BPA i"
  shows "(unat (blk i k j) - 0xC0100000) div 4096 = k"
  using blk_unat [OF assms] blk_fits [OF assms(1,3)] BS_BPA(1) [OF assms(1)] by simp

lemma blk_same_page:
  assumes "i < 7" "k < HEAP_PAGES" "j < BPA i" "i' < 7" "k' < HEAP_PAGES" "j' < BPA i'"
    and "blk i k j = blk i' k' j'"
  shows "k = k'"
  using blk_page [OF assms(1-3)] blk_page [OF assms(4-6)] assms(7) by simp

lemma blk_inj:
  assumes "i < 7" "k < HEAP_PAGES" "j < BPA i" "j' < BPA i"
  shows "blk i k j = blk i k j' \<longleftrightarrow> j = j'"
proof
  assume "blk i k j = blk i k j'"
  then have "unat (blk i k j) = unat (blk i k j')" by (rule arg_cong)
  then have "j * BS i = j' * BS i" unfolding blk_unat [OF assms(1-3)] blk_unat [OF assms(1,2,4)] by simp
  then show "j = j'" using BS_BPA(1) [OF assms(1)] by simp
qed simp

lemma card_blks: "i < 7 \<Longrightarrow> k < HEAP_PAGES \<Longrightarrow> card (blks i k) = BPA i"
  unfolding blks_def by (subst card_image) (auto simp: inj_on_def blk_inj)

lemma block2arena_page: "block2arena b = page_of b"
  by (simp add: block2arena_def page_of_def)

lemma block2arena_blk:
  assumes "i < 7" "k < HEAP_PAGES" "j < BPA i"
  shows "block2arena (blk i k j) = heap_page k"
proof -
  have j: "12 + j * BS i < 4096" using blk_fits [OF assms(1,3)] BS_BPA(1) [OF assms(1)] by simp
  have "unat (blk i k j) = (0xC0100 + k) * 4096 + (12 + j * BS i)"
    using blk_unat [OF assms] by simp
  then have "unat (blk i k j) div 4096 = 0xC0100 + k" using j by simp
  then have "unat (page_of (blk i k j)) = unat (heap_page k)"
    by (simp add: page_of_unat heap_page_unat [OF assms(2)])
  then show ?thesis unfolding block2arena_page by (rule unsigned_word_eqI)
qed

lemma in_block:
  assumes "i < 7" "k < HEAP_PAGES" "j < BPA i"
  shows "in_range (blk i k j) (of_nat (BS i)) q \<longleftrightarrow>
    unat (blk i k j) \<le> unat q \<and> unat q < unat (blk i k j) + BS i"
proof -
  have n: "unat (of_nat (BS i) :: u32) = BS i" using BS_BPA(2) [OF assms(1)] by (simp add: unat_of_nat_less)
  have "unat (blk i k j) + BS i \<le> 2 ^ 32"
    using blk_unat [OF assms] blk_fits [OF assms(1,3)] assms(2) by (simp add: HEAP_PAGES_def)
  then show ?thesis using in_range_unat [of "blk i k j" "of_nat (BS i)" q] by (simp only: n)
qed

text \<open>No header and no other block starts inside a block.\<close>

lemma header_not_in_block:
  assumes "i < 7" "k < HEAP_PAGES" "j < BPA i" "k' < HEAP_PAGES"
  shows "\<not> in_range (blk i k j) (of_nat (BS i)) (heap_page k')"
proof
  assume "in_range (blk i k j) (of_nat (BS i)) (heap_page k')"
  then have "k * 4096 < k' * 4096" "k' * 4096 < k * 4096 + 4096"
    using in_block [OF assms(1-3)] blk_unat [OF assms(1-3)] heap_page_unat [OF assms(4)]
      blk_fits [OF assms(1,3)] by auto
  then show False by simp
qed

lemma block_not_in_block:
  assumes "i < 7" "k < HEAP_PAGES" "j < BPA i" "i' < 7" "k' < HEAP_PAGES" "j' < BPA i'"
    and same: "k = k' \<Longrightarrow> i = i'"
    and "in_range (blk i k j) (of_nat (BS i)) (blk i' k' j')"
  shows "blk i' k' j' = blk i k j"
proof -
  have r: "unat (blk i k j) \<le> unat (blk i' k' j')" "unat (blk i' k' j') < unat (blk i k j) + BS i"
    using assms(8) in_block [OF assms(1-3)] by blast+
  then have "k * 4096 + j * BS i \<le> k' * 4096 + j' * BS i'" "k' * 4096 + j' * BS i' < k * 4096 + j * BS i + BS i"
    by (simp_all add: blk_unat [OF assms(1-3)] blk_unat [OF assms(4-6)])
  moreover have "j * BS i + BS i \<le> 4084" "j' * BS i' + BS i' \<le> 4084"
    using blk_fits [OF assms(1,3)] blk_fits [OF assms(4,6)] by simp_all
  ultimately have kk: "k = k'" by linarith
  then have ii: "i = i'" by (rule same)
  have "j * BS i \<le> j' * BS i" "j' * BS i < Suc j * BS i"
    using r blk_unat [OF assms(1-3)] blk_unat [OF assms(4-6)] kk ii by simp_all
  then have "j \<le> j'" "j' < Suc j"
    using BS_BPA(1) [OF assms(1)] mult_less_cancel2 [of j' "BS i" "Suc j"] by auto
  then have "j' = j" by simp
  then show ?thesis using kk ii by simp
qed

text \<open>Descriptors lie below the heap, 48 bytes apart.\<close>

definition dsc :: "ptr \<Rightarrow> nat \<Rightarrow> ptr" where
  "dsc m i = desc_at m (of_nat i)"

definition flist :: "ptr \<Rightarrow> nat \<Rightarrow> ptr" where
  "flist m i = free_list (dsc m i)"

definition fends :: "ptr \<Rightarrow> nat \<Rightarrow> ptr set" where
  "fends m i = {flist m i, list_tail (flist m i)}"

definition low :: "ptr \<Rightarrow> bool" where
  "low m \<longleftrightarrow> unat m + 336 \<le> 0xC0100000"

lemma dsc_unat:
  assumes "low m" "i < 7"
  shows "unat (dsc m i) = unat m + 48 * i"
    "unat (flist m i) = unat m + 48 * i + 8"
    "unat (list_tail (flist m i)) = unat m + 48 * i + 16"
proof -
  have m: "unat m + 336 \<le> 0xC0100000" using assms(1) by (simp add: low_def)
  have 1: "unat (of_nat i * 48 :: u32) = i * 48"
    using assms(2) by (subst unat_mult_small) (simp_all add: unat_of_nat_less)
  show 2: "unat (dsc m i) = unat m + 48 * i"
    using assms(2) m unfolding dsc_def desc_at_def by (subst unat_add_small) (simp_all add: 1)
  show 3: "unat (flist m i) = unat m + 48 * i + 8"
    unfolding flist_def free_list_def using 2 assms(2) m by (subst unat_add_small) simp_all
  show "unat (list_tail (flist m i)) = unat m + 48 * i + 16"
    unfolding list_tail_def using 3 assms(2) m by (subst unat_add_small) simp_all
qed

lemma fends_unat:
  assumes "low m" "i < 7" "q \<in> fends m i"
  shows "unat q = unat m + 48 * i + 8 \<or> unat q = unat m + 48 * i + 16"
  using assms(3) dsc_unat [OF assms(1,2)] by (auto simp: fends_def)

lemma fends_disjoint:
  assumes "low m" "i < 7" "i' < 7" "i \<noteq> i'"
  shows "fends m i \<inter> fends m i' = {}"
proof -
  have "q \<notin> fends m i'" if "q \<in> fends m i" for q
    using fends_unat [OF assms(1,2) that] fends_unat [OF assms(1,3), of q] assms(4) by auto
  then show ?thesis by blast
qed

lemma dsc_inj: "low m \<Longrightarrow> i < 7 \<Longrightarrow> i' < 7 \<Longrightarrow> dsc m i = dsc m i' \<longleftrightarrow> i = i'"
  using dsc_unat(1) [of m i] dsc_unat(1) [of m i'] by (metis add_left_cancel mult_cancel1 zero_neq_numeral)

lemma blks_not_fends:
  assumes "low m" "i' < 7" "i < 7" "k < HEAP_PAGES" "b \<in> blks i k"
  shows "b \<notin> fends m i'"
proof
  assume b: "b \<in> fends m i'"
  have "unat m + 336 \<le> 0xC0100000" using assms(1) by (simp add: low_def)
  then have "unat b < 0xC0100000" using fends_unat [OF assms(1,2) b] assms(2) by linarith
  moreover obtain j where "b = blk i k j" "j < BPA i" using assms(5) by (auto simp: blks_def)
  ultimately show False using blk_unat [OF assms(3,4), of j] by simp
qed

lemma blks_same_page:
  assumes "i < 7" "k < HEAP_PAGES" "b \<in> blks i k" "i' < 7" "k' < HEAP_PAGES" "b \<in> blks i' k'"
  shows "k = k'"
  using assms blk_same_page by (auto simp: blks_def)

section \<open>The free lists\<close>

text \<open>
  \<open>own k = Some i\<close>: heap page \<open>k\<close> is an arena of descriptor \<open>i\<close>. \<open>fl i\<close> is the content of the free
  list of descriptor \<open>i\<close>, made of blocks of its arenas.
\<close>

definition owned :: "(nat \<Rightarrow> nat option) \<Rightarrow> bool" where
  "owned own \<longleftrightarrow> (\<forall>k i. own k = Some i \<longrightarrow> i < 7 \<and> k < HEAP_PAGES)"

definition lists_ok :: "ptr \<Rightarrow> (nat \<Rightarrow> nat option) \<Rightarrow> (nat \<Rightarrow> ptr list) \<Rightarrow> lheap \<Rightarrow> bool" where
  "lists_ok m own fl h \<longleftrightarrow> low m \<and> owned own \<and>
     (\<forall>i<7. dlist h (flist m i) (fl i) \<and> (\<forall>b\<in>set (fl i). \<exists>k. own k = Some i \<and> b \<in> blks i k))"

lemma lists_okD:
  assumes "lists_ok m own fl h"
  shows "low m" "own k = Some i \<Longrightarrow> i < 7 \<and> k < HEAP_PAGES"
    "i < 7 \<Longrightarrow> dlist h (flist m i) (fl i)"
    "i < 7 \<Longrightarrow> b \<in> set (fl i) \<Longrightarrow> \<exists>k. own k = Some i \<and> b \<in> blks i k"
  using assms unfolding lists_ok_def owned_def by blast+

lemma owned_unique:
  assumes "owned own" "own k = Some i" "own k' = Some i'" "b \<in> blks i k" "b \<in> blks i' k'"
  shows "k = k' \<and> i = i'"
  using assms blks_same_page [of i k b i' k'] unfolding owned_def by force

lemma lists_apart:
  assumes ok: "lists_ok m own fl h" and i: "i < 7" "i' < 7" "i \<noteq> i'"
    and e: "e \<in> set (fl i) \<or> (\<exists>k. own k = Some i \<and> e \<in> blks i k)"
  shows "(fends m i \<union> set (fl i) \<union> {e}) \<inter> (fends m i' \<union> set (fl i')) = {}"
proof -
  have ow: "owned own" and lo: "low m" using ok by (simp_all add: lists_ok_def)
  have own: "\<exists>k. own k = Some i \<and> b \<in> blks i k" if "b \<in> set (fl i) \<union> {e}" for b
    using that e lists_okD(4) [OF ok i(1)] by auto
  have "b \<notin> fends m i' \<union> set (fl i')" if "b \<in> set (fl i) \<union> {e}" for b
    using own [OF that] lists_okD(2) [OF ok] lists_okD(4) [OF ok i(2)] owned_unique [OF ow]
      blks_not_fends [OF lo i(2)] i(3) by (metis Un_iff)
  moreover have "b \<notin> fends m i" if "b \<in> set (fl i')" for b
    using that lists_okD(2) [OF ok] lists_okD(4) [OF ok i(2)] blks_not_fends [OF lo i(1)] by metis
  ultimately show ?thesis using fends_disjoint [OF lo i] by blast
qed

lemma lists_okI:
  assumes "low m" "owned own" "\<And>i. i < 7 \<Longrightarrow> dlist h (flist m i) (fl i)"
    "\<And>i b. i < 7 \<Longrightarrow> b \<in> set (fl i) \<Longrightarrow> \<exists>k. own k = Some i \<and> b \<in> blks i k"
  shows "lists_ok m own fl h"
  using assms unfolding lists_ok_def by blast

lemma lists_append:
  assumes ok: "lists_ok m own fl h" and k: "own k = Some i" "b \<in> blks i k" and new: "b \<notin> set (fl i)"
  shows "lists_ok m own (fl(i := fl i @ [b])) (list_append h (flist m i) b)"
proof (rule lists_okI)
  have i: "i < 7" "k < HEAP_PAGES" using lists_okD(2) [OF ok k(1)] by simp_all
  have lo: "low m" by (rule lists_okD(1) [OF ok])
  fix i' assume i': "i' < (7::nat)"
  show "dlist (list_append h (flist m i) b) (flist m i') ((fl(i := fl i @ [b])) i')"
  proof (cases "i' = i")
    case True
    have "b \<notin> fends m i" using blks_not_fends [OF lo i(1) i k(2)] .
    then show ?thesis
      using True kl.append [OF lists_okD(3) [OF ok i(1)], of b] new by (simp add: fends_def)
  next
    case False
    then show ?thesis
      using kl.append_frame [OF lists_okD(3) [OF ok i(1)] lists_okD(3) [OF ok i'], of b]
        lists_apart [OF ok i(1) i', of b] k by (auto simp: fends_def)
  qed
  fix c assume "c \<in> set ((fl(i := fl i @ [b])) i')"
  then show "\<exists>k. own k = Some i' \<and> c \<in> blks i' k"
    using k lists_okD(4) [OF ok i', of c] by (auto split: if_splits)
qed (use ok in \<open>simp_all add: lists_ok_def\<close>)

lemma lists_remove:
  assumes ok: "lists_ok m own fl h" and i: "i < 7" and b: "fl i = xs @ b # ys"
  shows "lists_ok m own (fl(i := xs @ ys)) (list_remove h b)"
proof (rule lists_okI)
  fix i' assume i': "i' < (7::nat)"
  show "dlist (list_remove h b) (flist m i') ((fl(i := xs @ ys)) i')"
  proof (cases "i' = i")
    case True
    then show ?thesis using kl.remove [of h "flist m i" xs b ys] lists_okD(3) [OF ok i] b by simp
  next
    case False
    have "dlist (list_remove h b) (flist m i') (fl i')"
      using kl.remove_frame [of h "flist m i" xs b ys "flist m i'" "fl i'"] lists_okD(3) [OF ok i]
        lists_okD(3) [OF ok i'] lists_apart [OF ok i i', of b] False b by (auto simp: fends_def)
    then show ?thesis using False by simp
  qed
  fix c assume "c \<in> set ((fl(i := xs @ ys)) i')"
  then show "\<exists>k. own k = Some i' \<and> c \<in> blks i' k"
    using lists_okD(4) [OF ok i', of c] b by (auto split: if_splits)
qed (use ok in \<open>simp_all add: lists_ok_def\<close>)

lemma lists_outside:
  assumes ok: "lists_ok m own fl h" and same: "\<And>q. q \<notin> A \<Longrightarrow> h' q = h q"
    and ends: "\<And>i q. i < 7 \<Longrightarrow> q \<in> fends m i \<Longrightarrow> q \<notin> A"
    and elems: "\<And>i b. i < 7 \<Longrightarrow> b \<in> set (fl i) \<Longrightarrow> b \<notin> A"
  shows "lists_ok m own fl h'"
proof (rule lists_okI)
  fix i assume i: "i < (7::nat)"
  have "A \<inter> ({flist m i, list_tail (flist m i)} \<union> set (fl i)) = {}"
    using ends [OF i] elems [OF i] by (auto simp: fends_def)
  then show "dlist h' (flist m i) (fl i)"
    using dlist_frame [OF lists_okD(3) [OF ok i] same] by blast
qed (use ok lists_okD(4) [OF ok] in \<open>auto simp: lists_ok_def\<close>)

section \<open>The invariant of the heap\<close>

text \<open>
  \<open>big k = Some n\<close>: pages \<open>k\<close> to \<open>k + n - 1\<close> are one large allocation. Every page in use by the
  heap is mapped to a frame of the kernel pool; the header of an arena counts its free blocks; an
  arena all of whose blocks are free is given back, except those in \<open>F\<close>, which are in transit.
\<close>

definition backed :: "mm_state \<Rightarrow> nat \<Rightarrow> bool" where
  "backed s k \<longleftrightarrow> k < HEAP_PAGES \<and> k < capacity (vaddr_bitmap (k_v_pool s)) \<and>
     (\<exists>f<kcap s. mapping s k = Some (kframe s f))"

definition descs_ok :: "heap_state \<Rightarrow> bool" where
  "descs_ok s \<longleftrightarrow> (\<forall>i<7. block_size (descs s (dsc (k_mem_block s) i)) = of_nat (BS i) \<and>
     blocks_per_arena (descs s (dsc (k_mem_block s) i)) = of_nat (BPA i))"

definition free_in :: "(nat \<Rightarrow> ptr list) \<Rightarrow> nat \<Rightarrow> nat \<Rightarrow> nat" where
  "free_in fl i k = card (blks i k \<inter> set (fl i))"

definition arena_hdr :: "ptr \<Rightarrow> nat \<Rightarrow> nat \<Rightarrow> arena" where
  "arena_hdr m i n = \<lparr>p_mem_block = dsc m i, a_cnt = of_nat n, is_page_cnt = False\<rparr>"

definition big_hdr :: "nat \<Rightarrow> arena" where
  "big_hdr n = \<lparr>p_mem_block = NULL, a_cnt = of_nat n, is_page_cnt = True\<rparr>"

definition apart_runs :: "(nat \<Rightarrow> nat option) \<Rightarrow> (nat \<Rightarrow> nat option) \<Rightarrow> bool" where
  "apart_runs own big \<longleftrightarrow>
     (\<forall>k n. big k = Some n \<longrightarrow> 0 < n \<and> n < 2 ^ 31 \<and> (\<forall>j<n. own (k + j) = None)) \<and>
     (\<forall>k n k' n'. big k = Some n \<longrightarrow> big k' = Some n' \<longrightarrow> k \<noteq> k' \<longrightarrow> {k..<k + n} \<inter> {k'..<k' + n'} = {})"

definition heap_inv :: "nat set \<Rightarrow> (nat \<Rightarrow> nat option) \<Rightarrow> (nat \<Rightarrow> nat option) \<Rightarrow> (nat \<Rightarrow> ptr list) \<Rightarrow>
    heap_state \<Rightarrow> bool" where
  "heap_inv F own big fl s \<longleftrightarrow>
     mm_ok (mm s) \<and> lists_ok (k_mem_block s) own fl (hnodes s) \<and> descs_ok s \<and> apart_runs own big \<and>
     (\<forall>k i. own k = Some i \<longrightarrow> backed (mm s) k \<and>
        arenas s (heap_page k) = arena_hdr (k_mem_block s) i (free_in fl i k) \<and>
        (k \<notin> F \<longrightarrow> free_in fl i k < BPA i)) \<and>
     (\<forall>k n. big k = Some n \<longrightarrow> (\<forall>j<n. backed (mm s) (k + j)) \<and> arenas s (heap_page k) = big_hdr n)"

lemma heap_invD:
  assumes "heap_inv F own big fl s"
  shows "mm_ok (mm s)" "lists_ok (k_mem_block s) own fl (hnodes s)" "descs_ok s" "apart_runs own big"
    "own k = Some i \<Longrightarrow> backed (mm s) k"
    "own k = Some i \<Longrightarrow> arenas s (heap_page k) = arena_hdr (k_mem_block s) i (free_in fl i k)"
    "own k = Some i \<Longrightarrow> k \<notin> F \<Longrightarrow> free_in fl i k < BPA i"
    "big k = Some n \<Longrightarrow> j < n \<Longrightarrow> backed (mm s) (k + j)"
    "big k = Some n \<Longrightarrow> arenas s (heap_page k) = big_hdr n"
    "own k = Some i \<Longrightarrow> i < 7" "own k = Some i \<Longrightarrow> k < HEAP_PAGES"
  using assms lists_okD(2) [of "k_mem_block s" own fl "hnodes s" k i] unfolding heap_inv_def by blast+

lemma heap_invI:
  assumes "mm_ok (mm s)" "lists_ok (k_mem_block s) own fl (hnodes s)" "descs_ok s" "apart_runs own big"
    "\<And>k i. own k = Some i \<Longrightarrow> backed (mm s) k"
    "\<And>k i. own k = Some i \<Longrightarrow> arenas s (heap_page k) = arena_hdr (k_mem_block s) i (free_in fl i k)"
    "\<And>k i. own k = Some i \<Longrightarrow> k \<notin> F \<Longrightarrow> free_in fl i k < BPA i"
    "\<And>k n j. big k = Some n \<Longrightarrow> j < n \<Longrightarrow> backed (mm s) (k + j)"
    "\<And>k n. big k = Some n \<Longrightarrow> arenas s (heap_page k) = big_hdr n"
  shows "heap_inv F own big fl s"
  using assms unfolding heap_inv_def by blast

lemma big_page:
  assumes "heap_inv F own big fl s" "big k = Some n"
  shows "0 < n" "n < 2 ^ 31" "k < HEAP_PAGES" "own k = None" "k + n \<le> HEAP_PAGES"
    "k + n \<le> capacity (vaddr_bitmap (k_v_pool (mm s)))"
proof -
  have ap: "apart_runs own big" by (rule heap_invD(4) [OF assms(1)])
  show n: "0 < n" "n < 2 ^ 31" using ap assms(2) unfolding apart_runs_def by blast+
  have "\<And>j. j < n \<Longrightarrow> own (k + j) = None" using ap assms(2) unfolding apart_runs_def by blast
  from this [OF n(1)] show "own k = None" by simp
  have b: "\<And>j. j < n \<Longrightarrow> backed (mm s) (k + j)" using heap_invD(8) [OF assms] .
  from b [OF n(1)] show "k < HEAP_PAGES" by (simp add: backed_def)
  have "backed (mm s) (k + (n - 1))" by (rule b) (use n(1) in simp)
  then show "k + n \<le> HEAP_PAGES" "k + n \<le> capacity (vaddr_bitmap (k_v_pool (mm s)))"
    using n(1) by (auto simp: backed_def)
qed

lemma free_in_cons:
  assumes ow: "owned own" and k: "own k = Some i" "b \<in> blks i k" and b: "b \<notin> set rest"
    and fl: "set (fl i) = insert b (set rest)" and k': "own k' = Some i'"
  shows "free_in (fl(i := rest)) i' k' = (if k' = k then free_in fl i k - 1 else free_in fl i' k')"
    and "0 < free_in fl i k"
proof -
  have fin: "finite (blks i k)" by (simp add: blks_def)
  have eq: "blks i k \<inter> set (fl i) = insert b (blks i k \<inter> set rest)" using k(2) fl by auto
  then show "0 < free_in fl i k" by (simp add: free_in_def card_gt_0_iff fin)
  have "b \<notin> blks i k \<inter> set rest" using b by simp
  then have c: "free_in fl i k = Suc (card (blks i k \<inter> set rest))"
    unfolding free_in_def eq using fin by simp
  show "free_in (fl(i := rest)) i' k' = (if k' = k then free_in fl i k - 1 else free_in fl i' k')"
  proof (cases "k' = k")
    case True
    then have "i' = i" using k(1) k' by simp
    then show ?thesis using True c by (simp add: free_in_def)
  next
    case False
    show ?thesis
    proof (cases "i' = i")
      case True
      have "b \<notin> blks i k'" using owned_unique [OF ow k(1) k' k(2)] True False by auto
      then show ?thesis using True False fl by (simp add: free_in_def)
    qed (use False in \<open>simp add: free_in_def\<close>)
  qed
qed

lemma memset_block_fields:
  assumes "i < 7" "k < HEAP_PAGES" "j < BPA i"
  shows "k' < HEAP_PAGES \<Longrightarrow>
      arenas (heap_memset (blk i k j) (of_nat (BS i)) s) (heap_page k') = arenas s (heap_page k')"
    "mm (heap_memset p n s) = mm s" "descs (heap_memset p n s) = descs s"
    "k_mem_block (heap_memset p n s) = k_mem_block s"
    "hbytes (heap_memset p n s) q = (if in_range p n q then 0 else hbytes s q)"
  using header_not_in_block [OF assms] by (simp_all add: heap_memset_def memset_apply)

lemma blksE: "b \<in> blks i k \<Longrightarrow> (\<And>j. b = blk i k j \<Longrightarrow> j < BPA i \<Longrightarrow> thesis) \<Longrightarrow> thesis"
  by (auto simp: blks_def)

text \<open>Clearing a block that is on no list keeps the lists.\<close>

lemma lists_memset_block:
  assumes ok: "lists_ok m own fl h" and k: "own k = Some i" "j < BPA i" and out: "blk i k j \<notin> set (fl i)"
  shows "lists_ok m own fl (\<lambda>q. if in_range (blk i k j) (of_nat (BS i)) q then z else h q)"
proof (rule lists_outside [OF ok, where A = "{q. in_range (blk i k j) (of_nat (BS i)) q}"])
  have i: "i < 7" "k < HEAP_PAGES" using lists_okD(2) [OF ok k(1)] by simp_all
  have lo: "low m" and ow: "owned own" using ok by (simp_all add: lists_ok_def)
  { fix i' q assume i': "i' < (7::nat)" and q: "q \<in> fends m i'"
    have "unat m + 336 \<le> 0xC0100000" using lo by (simp add: low_def)
    then have "unat q < unat (blk i k j)"
      using fends_unat [OF lo i' q] i' blk_unat [OF i k(2)] by linarith
    then show "q \<notin> {q. in_range (blk i k j) (of_nat (BS i)) q}" using in_block [OF i k(2)] by simp }
  { fix i' b assume i': "i' < (7::nat)" and b: "b \<in> set (fl i')"
    obtain k' where k': "own k' = Some i'" "b \<in> blks i' k'" using lists_okD(4) [OF ok i' b] by blast
    obtain j' where j': "b = blk i' k' j'" "j' < BPA i'" using k'(2) by (rule blksE)
    have "k = k' \<Longrightarrow> i = i'" using k(1) k'(1) by simp
    then have "in_range (blk i k j) (of_nat (BS i)) b \<Longrightarrow> b = blk i k j"
      using block_not_in_block [OF i k(2) i' _ j'(2)] lists_okD(2) [OF ok k'(1)] j'(1) by blast
    moreover have "b = blk i k j \<Longrightarrow> i = i'"
      using owned_unique [OF ow k(1) k'(1), of b] k'(2) k(2) by (simp add: blks_def)
    ultimately show "b \<notin> {q. in_range (blk i k j) (of_nat (BS i)) q}" using out b by auto }
qed simp

section \<open>Taking and giving back a block\<close>

lemma fl_head_block:
  assumes inv: "heap_inv F own big fl s" and i: "i < 7" and fl: "fl i = b # rest"
  shows "\<exists>k j. own k = Some i \<and> j < BPA i \<and> b = blk i k j"
  using lists_okD(4) [OF heap_invD(2) [OF inv] i, of b] fl by (force simp: blks_def)

lemma take_block_inv:
  assumes inv: "heap_inv F own big fl s" and F: "F \<subseteq> {k}" and k: "own k = Some i" "j < BPA i"
    and fl: "fl i = blk i k j # rest"
  shows "\<exists>s'. take_block (dsc (k_mem_block s) i) s = (blk i k j, s') \<and>
    heap_inv {} own big (fl(i := rest)) s' \<and> mm s' = mm s \<and> k_mem_block s' = k_mem_block s \<and>
    descs s' = descs s \<and>
    (\<forall>q. hbytes s' q = (if in_range (blk i k j) (of_nat (BS i)) q then 0 else hbytes s q))"
proof -
  let ?m = "k_mem_block s" and ?b = "blk i k j" and ?f = "fl(i := rest)"
  note ok = heap_invD(2) [OF inv]
  have i: "i < 7" "k < HEAP_PAGES" using heap_invD(10,11) [OF inv k(1)] .
  have ow: "owned own" using ok by (simp add: lists_ok_def)
  have d: "dlist (hnodes s) (flist ?m i) (?b # rest)" using lists_okD(3) [OF ok i(1)] fl by simp
  have bs: "block_size (descs s (dsc ?m i)) = of_nat (BS i)"
    using heap_invD(3) [OF inv] i(1) by (simp add: descs_ok_def)
  have nb: "?b \<notin> set rest" using kl.nodes [OF d] by simp
  define s1 where "s1 = s\<lparr>hnodes := list_remove (hnodes s) ?b\<rparr>"
  define s2 where "s2 = heap_memset ?b (of_nat (BS i)) s1"
  define s' where "s' = set_arena (heap_page k) (a_cnt_update (\<lambda>c. c - 1)) s2"
  have eq: "take_block (dsc ?m i) s = (?b, s')"
    using kl.pop_Cons [OF d] bs
    by (simp add: take_block_def flist_def elem2entry_def Let_def s'_def s2_def s1_def
        block2arena_blk [OF i k(2)])
  note ms = memset_block_fields [OF i k(2)]
  have fields: "mm s' = mm s" "k_mem_block s' = ?m" "descs s' = descs s"
    by (simp_all add: s'_def s2_def s1_def set_arena_def ms)
  have hb: "hbytes s' q = (if in_range ?b (of_nat (BS i)) q then 0 else hbytes s q)" for q
    by (simp add: s'_def s2_def set_arena_def ms(5)) (simp add: s1_def)
  have ar: "arenas s' (heap_page k') = (if k' = k then (arenas s (heap_page k))\<lparr>a_cnt := a_cnt (arenas s (heap_page k)) - 1\<rparr>
      else arenas s (heap_page k'))" if "k' < HEAP_PAGES" for k'
    using ms(1) [OF that, of s1] ms(1) [OF i(2), of s1] heap_page_inj [OF that i(2)]
    by (simp add: s'_def set_arena_def s2_def) (simp add: s1_def)
  have "lists_ok ?m own ?f (list_remove (hnodes s) ?b)"
    using lists_remove [OF ok i(1), of "[]" ?b rest] fl by simp
  then have lists: "lists_ok ?m own ?f (hnodes s')"
    using lists_memset_block [of ?m own ?f "list_remove (hnodes s) ?b" k i j "\<lparr>prev = NULL, nxt = NULL\<rparr>"] k nb
    by (simp add: s'_def s2_def set_arena_def heap_memset_def s1_def cong: if_cong)
  have fin: "free_in ?f i' k' = (if k' = k then free_in fl i k - 1 else free_in fl i' k')"
      and pos: "0 < free_in fl i k" if "own k' = Some i'" for i' k'
    using free_in_cons [OF ow k(1) _ nb _ that, of fl] k(2) fl by (simp_all add: blks_def)
  have le: "free_in fl i k \<le> BPA i"
    unfolding free_in_def card_blks [OF i, symmetric] by (rule card_mono) (auto simp: blks_def)
  have "heap_inv {} own big ?f s'"
  proof (rule heap_invI)
    fix k' i' assume k': "own k' = Some i'"
    have lt: "k' < HEAP_PAGES" using heap_invD(11) [OF inv k'] .
    have n1: "of_nat (free_in fl i k - 1) = (of_nat (free_in fl i k) :: u32) - 1"
      using pos [OF k(1)] by (simp add: of_nat_diff)
    show "backed (mm s') k'" using heap_invD(5) [OF inv k'] by (simp add: fields)
    show "arenas s' (heap_page k') = arena_hdr (k_mem_block s') i' (free_in ?f i' k')"
      using heap_invD(6) [OF inv k'] k k' ar [OF lt] fin [OF k'] n1 by (auto simp: arena_hdr_def fields)
    show "free_in ?f i' k' < BPA i'" if "k' \<notin> {}"
      using heap_invD(7) [OF inv k'] F le pos [OF k(1)] fin [OF k'] k k' by (cases "k' = k") auto
  next
    fix k' n assume b: "big k' = Some n"
    note bp = big_page [OF inv b]
    have "k' \<noteq> k" using bp(4) k(1) by auto
    then show "arenas s' (heap_page k') = big_hdr n" using ar [OF bp(3)] heap_invD(9) [OF inv b] by simp
    fix l assume "l < n"
    then show "backed (mm s') (k' + l)" using heap_invD(8) [OF inv b] by (simp add: fields)
  qed (use inv lists in \<open>simp_all add: heap_inv_def fields descs_ok_def\<close>)
  then show ?thesis using eq fields hb by blast
qed

text \<open>\<open>free_block\<close>: the first half of \<open>mem_release\<close>.\<close>

definition give_block :: "ptr \<Rightarrow> heap_state \<Rightarrow> heap_state" where
  "give_block b s = set_arena (block2arena b) (a_cnt_update (\<lambda>c. c + 1))
     (s\<lparr>hnodes := list_append (hnodes s) (free_list (p_mem_block (arenas s (block2arena b)))) b\<rparr>)"

lemma give_block_inv:
  assumes inv: "heap_inv {} own big fl s" and k: "own k = Some i" "j < BPA i"
    and out: "blk i k j \<notin> set (fl i)"
  shows "heap_inv {k} own big (fl(i := fl i @ [blk i k j])) (give_block (blk i k j) s)"
    and "mm (give_block b s) = mm s" "k_mem_block (give_block b s) = k_mem_block s"
    and "descs (give_block b s) = descs s" "hbytes (give_block b s) = hbytes s"
proof -
  let ?b = "blk i k j" and ?f = "fl(i := fl i @ [blk i k j])" and ?m = "k_mem_block s"
  let ?s = "give_block ?b s"
  note ok = heap_invD(2) [OF inv]
  have i: "i < 7" "k < HEAP_PAGES" using heap_invD(10,11) [OF inv k(1)] .
  have ow: "owned own" using ok by (simp add: lists_ok_def)
  have b: "?b \<in> blks i k" using k(2) by (simp add: blks_def)
  have hdr: "arenas s (heap_page k) = arena_hdr ?m i (free_in fl i k)" by (rule heap_invD(6) [OF inv k(1)])
  show f: "mm (give_block b s) = mm s" "k_mem_block (give_block b s) = k_mem_block s"
    "descs (give_block b s) = descs s" "hbytes (give_block b s) = hbytes s" for b
    by (simp_all add: give_block_def set_arena_def)
  have nodes: "hnodes ?s = list_append (hnodes s) (flist ?m i) ?b"
    by (simp add: give_block_def set_arena_def block2arena_blk [OF i k(2)] hdr arena_hdr_def flist_def)
  have ar: "arenas ?s (heap_page k') = (if k' = k then arena_hdr ?m i (Suc (free_in fl i k)) else arenas s (heap_page k'))"
    if "k' < HEAP_PAGES" for k'
    using heap_page_inj [OF that i(2)] hdr
    by (simp add: give_block_def set_arena_def block2arena_blk [OF i k(2)] arena_hdr_def)
  have fin: "free_in ?f i' k' = (if k' = k then Suc (free_in fl i k) else free_in fl i' k')"
    if "own k' = Some i'" for i' k'
  proof -
    have "free_in fl i' k' = (if k' = k then free_in ?f i k - 1 else free_in ?f i' k')" "0 < free_in ?f i k"
      using free_in_cons [OF ow k(1) b out, where fl = ?f and i' = i' and k' = k'] that by simp_all
    moreover have "k' = k \<Longrightarrow> i' = i" using that k(1) by simp
    ultimately show ?thesis by (cases "k' = k") simp_all
  qed
  show "heap_inv {k} own big ?f ?s"
  proof (rule heap_invI)
    show "lists_ok (k_mem_block ?s) own ?f (hnodes ?s)"
      using lists_append [OF ok k(1) b out] by (simp add: f nodes)
    fix k' i' assume k': "own k' = Some i'"
    show "arenas ?s (heap_page k') = arena_hdr (k_mem_block ?s) i' (free_in ?f i' k')"
      using ar [OF heap_invD(11) [OF inv k']] heap_invD(6) [OF inv k'] fin [OF k'] k' k by (auto simp: f)
    show "free_in ?f i' k' < BPA i'" if "k' \<notin> {k}"
      using heap_invD(7) [OF inv k'] fin [OF k'] that by simp
  next
    fix k' n assume b: "big k' = Some n"
    note bp = big_page [OF inv b]
    have "k' \<noteq> k" using bp(4) k(1) by auto
    then show "arenas ?s (heap_page k') = big_hdr n" using ar [OF bp(3)] heap_invD(9) [OF inv b] by simp
  qed (use inv in \<open>simp_all add: heap_inv_def f descs_ok_def\<close>)
qed

end
