(* ===== verification/KHeapRep.thy ===== *)
theory KHeapRep
  imports KHeap
begin

text \<open>
  Correctness of the heap of \<open>KHeap\<close>: arenas come from and go back to the page allocator, an
  allocation hands out cleared memory that overlaps nothing live, and a release gives it back. The
  abstract view is the set of live regions (\<open>heap_rep\<close>); the locale \<open>allocator\<close> states the contract
  on it, and a client's ledger of requests is checked against it once, inside the locale.
\<close>

section \<open>Opening and closing an arena\<close>

definition all_blocks :: "nat \<Rightarrow> nat \<Rightarrow> ptr list" where
  "all_blocks i k = map (blk i k) [0..<BPA i]"

lemma all_blocks_set: "set (all_blocks i k) = blks i k"
  by (auto simp: all_blocks_def blks_def)

lemma all_blocks_distinct: "i < 7 \<Longrightarrow> k < HEAP_PAGES \<Longrightarrow> distinct (all_blocks i k)"
  by (auto simp: all_blocks_def distinct_map inj_on_def blk_inj)

text \<open>Both loops run over the blocks of the arena, in order.\<close>

definition arena_at :: "heap_state \<Rightarrow> nat \<Rightarrow> nat \<Rightarrow> bool" where
  "arena_at s i k \<longleftrightarrow> p_mem_block (arenas s (heap_page k)) = dsc (k_mem_block s) i \<and>
     block_size (descs s (dsc (k_mem_block s) i)) = of_nat (BS i)"

lemma arena2block_blk: "arena_at s i k \<Longrightarrow> arena2block s (heap_page k) (of_nat j) = blk i k j"
  by (simp add: arena2block_def arena_at_def blk_def)

lemma split_arena_foldl:
  "arena_at s i k \<Longrightarrow> split_arena n (of_nat j) (heap_page k) s =
     s\<lparr>hnodes := foldl (\<lambda>h b. list_append h (flist (k_mem_block s) i) b) (hnodes s) (map (blk i k) [j..<j + n])\<rparr>"
proof (induction n arbitrary: j s)
  case (Suc n)
  let ?s = "s\<lparr>hnodes := list_append (hnodes s) (flist (k_mem_block s) i) (blk i k j)\<rparr>"
  have "arena_at ?s i k" using Suc.prems by (simp add: arena_at_def)
  from Suc.IH [OF this, of "Suc j"] show ?case
    using Suc.prems arena2block_blk [OF Suc.prems, of j]
    by (simp add: arena_at_def flist_def Let_def upt_conv_Cons add.commute del: upt_Suc)
qed simp

lemma unlink_arena_foldl:
  "arena_at s i k \<Longrightarrow> unlink_arena n (of_nat j) (heap_page k) s =
     s\<lparr>hnodes := foldl list_remove (hnodes s) (map (blk i k) [j..<j + n])\<rparr>"
proof (induction n arbitrary: j s)
  case (Suc n)
  let ?s = "s\<lparr>hnodes := list_remove (hnodes s) (blk i k j)\<rparr>"
  have "arena_at ?s i k" using Suc.prems by (simp add: arena_at_def)
  from Suc.IH [OF this, of "Suc j"] show ?case
    using Suc.prems arena2block_blk [OF Suc.prems, of j]
    by (simp add: upt_conv_Cons add.commute del: upt_Suc)
qed simp

text \<open>Batches on the free lists.\<close>

lemma lists_append_all:
  "lists_ok m own fl h \<Longrightarrow> own k = Some i \<Longrightarrow> set bs \<subseteq> blks i k \<Longrightarrow> distinct bs \<Longrightarrow> set bs \<inter> set (fl i) = {} \<Longrightarrow>
   lists_ok m own (fl(i := fl i @ bs)) (foldl (\<lambda>h b. list_append h (flist m i) b) h bs)"
proof (induction bs arbitrary: fl h)
  case (Cons b bs)
  let ?f = "fl(i := fl i @ [b])"
  have l: "lists_ok m own ?f (list_append h (flist m i) b)"
    using Cons.prems by (intro lists_append) auto
  have "lists_ok m own (?f(i := ?f i @ bs)) (foldl (\<lambda>h b. list_append h (flist m i) b) (list_append h (flist m i) b) bs)"
    by (rule Cons.IH [OF l]) (use Cons.prems in auto)
  then show ?case by (simp add: fun_upd_def cong: if_cong)
qed simp

lemma lists_remove_all:
  "lists_ok m own fl h \<Longrightarrow> i < 7 \<Longrightarrow> distinct bs \<Longrightarrow> set bs \<subseteq> set (fl i) \<Longrightarrow>
   lists_ok m own (fl(i := filter (\<lambda>b. b \<notin> set bs) (fl i))) (foldl list_remove h bs)"
proof (induction bs arbitrary: fl h)
  case (Cons b bs)
  have d: "distinct (fl i)" using kl.nodes [OF lists_okD(3) [OF Cons.prems(1,2)]] by blast
  obtain us vs where uv: "fl i = us @ b # vs"
    using Cons.prems(4) by (auto simp: in_set_conv_decomp)
  have "filter (\<lambda>x. x \<noteq> b) us = us" "filter (\<lambda>x. x \<noteq> b) vs = vs"
    using d uv by (auto simp: filter_id_conv)
  then have f: "us @ vs = filter (\<lambda>x. x \<noteq> b) (fl i)" by (simp add: uv)
  let ?f = "fl(i := filter (\<lambda>x. x \<noteq> b) (fl i))"
  have l: "lists_ok m own ?f (list_remove h b)"
    using lists_remove [OF Cons.prems(1,2) uv] f by simp
  have "lists_ok m own (?f(i := filter (\<lambda>x. x \<notin> set bs) (?f i))) (foldl list_remove (list_remove h b) bs)"
    by (rule Cons.IH [OF l]) (use Cons.prems in auto)
  moreover have "filter (\<lambda>x. x \<notin> set bs) (?f i) = filter (\<lambda>x. x \<notin> set (b # bs)) (fl i)"
    by (simp add: conj_commute)
  ultimately show ?case by (simp add: fun_upd_def cong: if_cong)
qed simp

section \<open>Runs of pages\<close>

lemma in_run:
  assumes "0 < n" "k + n \<le> HEAP_PAGES"
  shows "in_range (heap_page k) (of_nat n * PG_SIZE) q \<longleftrightarrow>
    0xC0100000 + k * 4096 \<le> unat q \<and> unat q < 0xC0100000 + (k + n) * 4096"
proof -
  have k: "k < HEAP_PAGES" using assms by simp
  have "n < 2 ^ 20" using assms(2) by (simp add: HEAP_PAGES_def)
  then have n: "unat (of_nat n * PG_SIZE :: u32) = n * 4096"
    by (subst unat_mult_small) (simp_all add: PG_SIZE_def unat_of_nat_less)
  have "unat (heap_page k) + n * 4096 \<le> 2 ^ 32"
    using assms(2) by (simp add: heap_page_unat [OF k] HEAP_PAGES_def)
  then show ?thesis
    using in_range_unat [of "heap_page k" "of_nat n * PG_SIZE" q]
    unfolding n heap_page_unat [OF k] add_mult_distrib by linarith
qed

lemma header_in_run:
  assumes "0 < n" "k + n \<le> HEAP_PAGES" "k' < HEAP_PAGES"
  shows "in_range (heap_page k) (of_nat n * PG_SIZE) (heap_page k') \<longleftrightarrow> k \<le> k' \<and> k' < k + n"
  unfolding in_run [OF assms(1,2)] heap_page_unat [OF assms(3)] by auto

lemma block_in_run:
  assumes "0 < n" "k + n \<le> HEAP_PAGES" "i < 7" "k' < HEAP_PAGES" "j < BPA i"
    and "in_range (heap_page k) (of_nat n * PG_SIZE) (blk i k' j)"
  shows "k \<le> k' \<and> k' < k + n"
proof -
  have u: "unat (blk i k' j) = 0xC0100000 + k' * 4096 + 12 + j * BS i" "12 + j * BS i < 4096"
    using blk_unat [OF assms(3-5)] blk_fits [OF assms(3,5)] BS_BPA(1) [OF assms(3)] by auto
  then have "k * 4096 < k' * 4096 + 4096" "k' * 4096 < (k + n) * 4096"
    using assms(6) unfolding in_run [OF assms(1,2)] by linarith+
  then show ?thesis by simp
qed

text \<open>Clearing a run of pages that are no arenas keeps the lists.\<close>

lemma lists_memset_run:
  assumes ok: "lists_ok m own fl h" and n: "0 < n" "k + n \<le> HEAP_PAGES"
    and out: "\<And>j. k \<le> j \<Longrightarrow> j < k + n \<Longrightarrow> own j = None"
  shows "lists_ok m own fl (\<lambda>q. if in_range (heap_page k) (of_nat n * PG_SIZE) q then z else h q)"
proof (rule lists_outside [OF ok, where A = "{q. in_range (heap_page k) (of_nat n * PG_SIZE) q}"])
  have lo: "low m" and ow: "owned own" using ok by (simp_all add: lists_ok_def)
  { fix i' q assume i': "i' < (7::nat)" and q: "q \<in> fends m i'"
    have "unat m + 336 \<le> 0xC0100000" using lo by (simp add: low_def)
    then have "unat q < 0xC0100000" using fends_unat [OF lo i' q] i' by linarith
    then show "q \<notin> {q. in_range (heap_page k) (of_nat n * PG_SIZE) q}" by (simp add: in_run [OF n]) }
  { fix i' b assume i': "i' < (7::nat)" and b: "b \<in> set (fl i')"
    obtain k' where k': "own k' = Some i'" "b \<in> blks i' k'" using lists_okD(4) [OF ok i' b] by blast
    obtain j' where j': "b = blk i' k' j'" "j' < BPA i'" using k'(2) by (rule blksE)
    show "b \<notin> {q. in_range (heap_page k) (of_nat n * PG_SIZE) q}"
      using block_in_run [OF n i' _ j'(2), of k'] lists_okD(2) [OF ok k'(1)] out [of k'] k'(1) j'(1) by auto }
qed simp

lemma lists_new_owner:
  assumes "lists_ok m own fl h" "own k = None" "i < 7" "k < HEAP_PAGES"
  shows "lists_ok m (own(k := Some i)) fl h"
proof (rule lists_okI)
  show "owned (own(k := Some i))" using assms unfolding lists_ok_def owned_def by auto
  fix i' b assume "i' < (7::nat)" "b \<in> set (fl i')"
  then obtain k' where "own k' = Some i'" "b \<in> blks i' k'" using lists_okD(4) [OF assms(1)] by blast
  then show "\<exists>k'. (own(k := Some i)) k' = Some i' \<and> b \<in> blks i' k'"
    using assms(2) by (intro exI [of _ k']) auto
qed (use assms(1) in \<open>auto simp: lists_ok_def\<close>)

definition apart_from :: "(nat \<Rightarrow> nat option) \<Rightarrow> nat \<Rightarrow> nat \<Rightarrow> bool" where
  "apart_from big k n \<longleftrightarrow> (\<forall>k' n'. big k' = Some n' \<longrightarrow> {k..<k + n} \<inter> {k'..<k' + n'} = {})"

lemma heap_memset_fields [simp]:
  "mm (heap_memset p n s) = mm s" "descs (heap_memset p n s) = descs s"
  "k_mem_block (heap_memset p n s) = k_mem_block s"
  by (simp_all add: heap_memset_def)

lemma set_arena_fields [simp]:
  "mm (set_arena a f s) = mm s" "descs (set_arena a f s) = descs s"
  "k_mem_block (set_arena a f s) = k_mem_block s" "hnodes (set_arena a f s) = hnodes s"
  "hbytes (set_arena a f s) = hbytes s"
  by (simp_all add: set_arena_def)

lemma new_arena_inv:
  assumes inv: "heap_inv {} own big fl s" and i: "i < 7" "fl i = []"
    and k: "own k = None" "apart_from big k 1" "backed (mm s) k"
  shows "\<exists>s'. new_arena (dsc (k_mem_block s) i) (heap_page k) s = s' \<and>
    heap_inv {k} (own(k := Some i)) big (fl(i := all_blocks i k)) s' \<and> mm s' = mm s \<and>
    k_mem_block s' = k_mem_block s \<and> descs s' = descs s \<and>
    (\<forall>q. hbytes s' q = (if in_range (heap_page k) PG_SIZE q then 0 else hbytes s q))"
proof -
  let ?m = "k_mem_block s" and ?own = "own(k := Some i)" and ?f = "fl(i := all_blocks i k)"
  note ok = heap_invD(2) [OF inv]
  have kH: "k < HEAP_PAGES" using k(3) by (simp add: backed_def)
  have bs: "block_size (descs s (dsc ?m i)) = of_nat (BS i)"
      "blocks_per_arena (descs s (dsc ?m i)) = of_nat (BPA i)"
    using heap_invD(3) [OF inv] i(1) by (simp_all add: descs_ok_def)
  have un: "unat (of_nat (BPA i) :: u32) = BPA i" using BS_BPA(5) [OF i(1)] by (simp add: unat_of_nat_less)
  define s1 where "s1 = heap_memset (heap_page k) PG_SIZE s"
  define s2 where "s2 = set_arena (heap_page k) (\<lambda>_. arena_hdr ?m i (BPA i)) s1"
  define s' where "s' = s2\<lparr>hnodes := foldl (\<lambda>h b. list_append h (flist ?m i) b) (hnodes s2) (all_blocks i k)\<rparr>"
  have at: "arena_at s2 i k" by (simp add: arena_at_def s2_def s1_def set_arena_def arena_hdr_def bs)
  have eq: "new_arena (dsc ?m i) (heap_page k) s = s'"
    using split_arena_foldl [OF at, of "BPA i" 0]
    by (simp add: new_arena_def s'_def s2_def s1_def bs un arena_hdr_def all_blocks_def)
  have fields: "mm s' = mm s" "k_mem_block s' = ?m" "descs s' = descs s"
    by (simp_all add: s'_def s2_def s1_def)
  have hb: "hbytes s' q = (if in_range (heap_page k) PG_SIZE q then 0 else hbytes s q)" for q
    by (simp add: s'_def s2_def s1_def heap_memset_def memset_apply)
  have hin: "in_range (heap_page k) PG_SIZE (heap_page k') \<longleftrightarrow> k' = k" if "k' < HEAP_PAGES" for k'
    using header_in_run [of 1 k k'] kH that by auto
  have ar: "arenas s' (heap_page k') = (if k' = k then arena_hdr ?m i (BPA i) else arenas s (heap_page k'))"
    if "k' < HEAP_PAGES" for k'
    using hin [OF that] heap_page_inj [OF that kH]
    by (simp add: s'_def s2_def s1_def set_arena_def heap_memset_def)
  have "own j = None" if "k \<le> j" "j < k + 1" for j
  proof -
    have "j = k" using that by simp
    then show ?thesis using k(1) by simp
  qed
  then have "lists_ok ?m own fl (hnodes s2)"
    using lists_memset_run [OF ok, of 1 k "\<lparr>prev = NULL, nxt = NULL\<rparr>"] kH
    by (simp add: s2_def s1_def heap_memset_def cong: if_cong)
  then have "lists_ok ?m ?own fl (hnodes s2)" using lists_new_owner [of ?m own] k(1) i(1) kH by blast
  from lists_append_all [OF this, of k i "all_blocks i k"]
  have lists: "lists_ok ?m ?own ?f (hnodes s')"
    using all_blocks_distinct [OF i(1) kH] i(2) by (simp add: s'_def all_blocks_set)
  have ow: "owned ?own" using lists by (simp add: lists_ok_def)
  have fin: "free_in ?f i' k' = (if k' = k then BPA i else free_in fl i' k')" if k': "?own k' = Some i'" for i' k'
  proof (cases "k' = k")
    case True
    then have "i' = i" using k' by simp
    then show ?thesis using True card_blks [OF i(1) kH] by (simp add: free_in_def all_blocks_set)
  next
    case False
    have "blks i k' \<inter> blks i k = {}" if "i' = i"
      using owned_unique [OF ow, of k i k' i] k' that False by auto
    then show ?thesis using False i(2) by (auto simp: free_in_def all_blocks_set)
  qed
  have "heap_inv {k} ?own big ?f s'"
  proof (rule heap_invI)
    show "apart_runs ?own big"
      using heap_invD(4) [OF inv] k(2) unfolding apart_runs_def apart_from_def by fastforce
    fix k' i' assume k': "?own k' = Some i'"
    then have lt: "k' < HEAP_PAGES" using ow unfolding owned_def by blast
    show "backed (mm s') k'" using k' k(3) heap_invD(5) [OF inv, of k' i'] by (auto simp: fields split: if_splits)
    show "arenas s' (heap_page k') = arena_hdr (k_mem_block s') i' (free_in ?f i' k')"
      using k' ar [OF lt] fin [OF k'] heap_invD(6) [OF inv, of k' i'] by (auto simp: fields split: if_splits)
    show "free_in ?f i' k' < BPA i'" if "k' \<notin> {k}"
      using k' fin [OF k'] heap_invD(7) [OF inv, of k' i'] that by auto
  next
    fix k' n assume b: "big k' = Some n"
    note bp = big_page [OF inv b]
    have "k' \<noteq> k" using k(2) b bp(1) unfolding apart_from_def by force
    then show "arenas s' (heap_page k') = big_hdr n" using ar [OF bp(3)] heap_invD(9) [OF inv b] by simp
    fix l assume "l < n"
    then show "backed (mm s') (k' + l)" using heap_invD(8) [OF inv b] by (simp add: fields)
  qed (use inv lists in \<open>simp_all add: heap_inv_def fields descs_ok_def\<close>)
  then show ?thesis using eq fields hb by blast
qed

section \<open>The heap over the page allocator\<close>

text \<open>The virtual pages that answer the request lie below the page-table window.\<close>

definition room :: "mm_state \<Rightarrow> u32 \<Rightarrow> bool" where
  "room s cnt \<longleftrightarrow> (\<forall>k. first_vrun s cnt = Some k \<longrightarrow> k + unat cnt \<le> HEAP_PAGES)"

lemma backed_vpages: "mm_ok s \<Longrightarrow> backed s l \<Longrightarrow> l \<in> vpages s"
  using mm_okD(2) [of s l] by (force simp: backed_def)

lemma backed_keep:
  assumes "backed s l" "k_p_pool s' = k_p_pool s" "k_v_pool s' = k_v_pool s" "mapping s' l = mapping s l"
  shows "backed s' l"
  using assms by (auto simp: backed_def kframe_def)

definition starved :: "mm_state \<Rightarrow> u32 \<Rightarrow> bool" where
  "starved s cnt \<longleftrightarrow> first_vrun s cnt = None \<or> free_frames s < unat cnt"

lemma page_get:
  assumes ok: "mm_ok s" and pos: "0 < sint cnt" and room: "room s cnt"
  shows "\<exists>a s'. page_acquire K_P_POOL NULL cnt s = Inr (a, s') \<and> mm_ok s' \<and>
    (\<forall>l. backed s l \<longrightarrow> backed s' l) \<and>
    (a = NULL \<and> starved s cnt \<or> (\<exists>k. a = heap_page k \<and> k + unat cnt \<le> HEAP_PAGES \<and>
       (\<forall>l. k \<le> l \<longrightarrow> l < k + unat cnt \<longrightarrow> \<not> backed s l \<and> backed s' l)))"
proof (cases "first_vrun s cnt")
  case None
  then show ?thesis using page_acquire_none [OF ok pos] ok unfolding starved_def by blast
next
  case (Some k)
  let ?n = "unat cnt"
  have below: "k + ?n \<le> HEAP_PAGES" using room Some by (simp add: room_def)
  note fits = first_vrun_fits(1) [OF Some] and free = first_vrun_fits(2) [OF Some]
  obtain s' fs where acq: "page_acquire K_P_POOL NULL cnt s = Inr (if ?n \<le> free_frames s then heap_page k else NULL, s')"
      and a: "acquired k (min ?n (free_frames s)) (v_run k ?n True s) s' fs"
    using page_acquire_run [OF ok pos Some below] by blast
  have fields: "mm_ok s'" "k_p_pool s' = k_p_pool s" "k_v_pool s' = k_v_pool s"
      "length fs = min ?n (free_frames s)" "set fs \<subseteq> {..<kcap s}"
      "\<forall>l<HEAP_PAGES. mapping s' l = (if k \<le> l \<and> l < k + min ?n (free_frames s)
         then Some (kframe s (fs ! (l - k))) else mapping s l)"
    using a by (simp_all add: acquired_def)
  have out: "\<not> backed s l" if "k \<le> l" "l < k + ?n" for l
    using backed_vpages [OF ok, of l] free that by auto
  have keep: "backed s' l" if l: "backed s l" for l
  proof (rule backed_keep [OF l fields(2,3)])
    have "\<not> (k \<le> l \<and> l < k + ?n)" using out l by blast
    then show "mapping s' l = mapping s l" using fields(6) l by (auto simp: backed_def)
  qed
  have new: "backed s' l" if n: "?n \<le> free_frames s" and l: "k \<le> l" "l < k + ?n" for l
  proof -
    have lt: "l < HEAP_PAGES" using l below by simp
    have "l - k < length fs" using n l fields(4) by simp
    then have "fs ! (l - k) < kcap s" using fields(5) by (metis lessThan_iff nth_mem subset_iff)
    moreover have "mapping s' l = Some (kframe s (fs ! (l - k)))"
      using fields(6) lt l n by (simp add: min_def)
    moreover have "kframe s' = kframe s" using fields(2) by (simp add: kframe_def fun_eq_iff)
    ultimately show ?thesis using fields(2,3) l fits lt by (auto simp: backed_def)
  qed
  show ?thesis
  proof (cases "?n \<le> free_frames s")
    case True
    then show ?thesis using acq fields(1) keep new out below by auto
  next
    case False
    then show ?thesis using acq fields(1) keep by (auto simp: starved_def)
  qed
qed

lemma page_give:
  assumes ok: "mm_ok s" and n: "0 < n" "n < 2 ^ 31" and b: "\<And>j. j < n \<Longrightarrow> backed s (k + j)"
  shows "\<exists>s'. page_release K_P_POOL (heap_page k) (of_nat n) s = Inr s' \<and> mm_ok s' \<and>
    (\<forall>l. backed s l \<longrightarrow> \<not> (k \<le> l \<and> l < k + n) \<longrightarrow> backed s' l) \<and> mapping s' k = None"
proof -
  have un: "unat (of_nat n :: u32) = n" using n(2) by (simp add: unat_of_nat_less)
  have pos: "0 < sint (of_nat n :: u32)"
    by (rule sint_pos_small) (use un n in simp_all)
  have last: "backed s (k + (n - 1))" by (rule b) (use n(1) in simp)
  have below: "k + n \<le> HEAP_PAGES" "k + n \<le> capacity (vaddr_bitmap (k_v_pool s))"
    using last n(1) by (auto simp: backed_def)
  have "\<forall>j<n. \<exists>f<kcap s. mapping s (k + j) = Some (kframe s f)" using b by (simp add: backed_def)
  then obtain g where g: "\<And>j. j < n \<Longrightarrow> g j < kcap s \<and> mapping s (k + j) = Some (kframe s (g j))" by metis
  define fs where "fs = map g [0..<n]"
  have fs: "length fs = n" "set fs \<subseteq> {..<kcap s}" using g by (auto simp: fs_def)
  have map: "\<And>j. j < n \<Longrightarrow> mapping s (k + j) = Some (kframe s (fs ! j))" using g by (simp add: fs_def)
  obtain s' where s': "page_release K_P_POOL (heap_page k) (of_nat n) s = Inr s'" "released k fs s s'"
    using page_release_run [OF ok pos, of fs k] fs below map un by auto
  have "backed s' l" if l: "backed s l" "\<not> (k \<le> l \<and> l < k + n)" for l
    by (rule backed_keep [OF l(1)]) (use s'(2) l fs(1) in \<open>auto simp: released_def backed_def\<close>)
  moreover have "mapping s' k = None" using s'(2) fs(1) n(1) below(1) by (simp add: released_def)
  ultimately show ?thesis using s' by (auto simp: released_def)
qed

definition used :: "(nat \<Rightarrow> nat option) \<Rightarrow> (nat \<Rightarrow> nat option) \<Rightarrow> nat \<Rightarrow> bool" where
  "used own big k \<longleftrightarrow> own k \<noteq> None \<or> (\<exists>k' n. big k' = Some n \<and> k' \<le> k \<and> k < k' + n)"

lemma used_backed:
  assumes "heap_inv F own big fl s" "used own big k"
  shows "backed (mm s) k"
proof (cases "own k")
  case None
  then obtain k' n where b: "big k' = Some n" "k' \<le> k" "k < k' + n" using assms(2) by (auto simp: used_def)
  then show ?thesis using heap_invD(8) [OF assms(1) b(1), of "k - k'"] by simp
qed (use heap_invD(5) [OF assms(1)] in auto)

lemma heap_inv_mm:
  assumes inv: "heap_inv F own big fl s" and ok: "mm_ok m'"
    and keep: "\<And>k. used own big k \<Longrightarrow> backed m' k"
  shows "heap_inv F own big fl (s\<lparr>mm := m'\<rparr>)"
proof (rule heap_invI)
  fix k i assume k: "own k = Some i"
  show "backed (mm (s\<lparr>mm := m'\<rparr>)) k" using keep [of k] k by (simp add: used_def)
  show "arenas (s\<lparr>mm := m'\<rparr>) (heap_page k) = arena_hdr (k_mem_block (s\<lparr>mm := m'\<rparr>)) i (free_in fl i k)"
    using heap_invD(6) [OF inv k] by simp
  show "k \<notin> F \<Longrightarrow> free_in fl i k < BPA i" by (rule heap_invD(7) [OF inv k])
next
  fix k n j assume b: "big k = Some n"
  then show "arenas (s\<lparr>mm := m'\<rparr>) (heap_page k) = big_hdr n" using heap_invD(9) [OF inv] by simp
  assume "j < n"
  then have "k \<le> k + j \<and> k + j < k + n" by simp
  then have "used own big (k + j)" using b unfolding used_def by blast
  then show "backed (mm (s\<lparr>mm := m'\<rparr>)) (k + j)" using keep by simp
qed (use inv ok in \<open>simp_all add: heap_inv_def descs_ok_def\<close>)

lemma not_backed_fresh:
  assumes "heap_inv F own big fl s" "\<And>l. k \<le> l \<Longrightarrow> l < k + n \<Longrightarrow> \<not> backed (mm s) l"
  shows "k \<le> l \<Longrightarrow> l < k + n \<Longrightarrow> own l = None" "apart_from big k n"
proof -
  have nu: "\<not> used own big l" if "k \<le> l" "l < k + n" for l using used_backed [OF assms(1)] assms(2) that by blast
  then show "k \<le> l \<Longrightarrow> l < k + n \<Longrightarrow> own l = None" by (auto simp: used_def)
  have "{k..<k + n} \<inter> {k'..<k' + n'} = {}" if "big k' = Some n'" for k' n'
  proof -
    have "\<not> (k' \<le> l \<and> l < k' + n')" if "k \<le> l" "l < k + n" for l
      using nu [OF that] \<open>big k' = Some n'\<close> unfolding used_def by blast
    then show ?thesis by (intro equals0I) (simp, blast)
  qed
  then show "apart_from big k n" unfolding apart_from_def by blast
qed

section \<open>Live regions\<close>

text \<open>The memory the heap has handed out: start and usable size.\<close>

definition live :: "(nat \<Rightarrow> nat option) \<Rightarrow> (nat \<Rightarrow> nat option) \<Rightarrow> (nat \<Rightarrow> ptr list) \<Rightarrow> (ptr \<times> nat) set" where
  "live own big fl =
     {(blk i k j, BS i) | i k j. own k = Some i \<and> j < BPA i \<and> blk i k j \<notin> set (fl i)} \<union>
     {(heap_page k + ARENA_SIZE, n * 4096 - 12) | k n. big k = Some n}"

lemma liveE:
  assumes "(p, n) \<in> live own big fl"
  obtains (block) i k j where "p = blk i k j" "n = BS i" "own k = Some i" "j < BPA i" "blk i k j \<notin> set (fl i)"
  | (run) k c where "p = heap_page k + ARENA_SIZE" "n = c * 4096 - 12" "big k = Some c"
  using assms by (auto simp: live_def)

definition page_no :: "ptr \<Rightarrow> nat" where
  "page_no q = (unat q - 0xC0100000) div 4096"

lemma page_noI: "0xC0100000 + l * 4096 \<le> unat q \<Longrightarrow> unat q < 0xC0100000 + l * 4096 + 4096 \<Longrightarrow> page_no q = l"
  by (simp add: page_no_def)

lemma block_page_no:
  assumes "i < 7" "k < HEAP_PAGES" "j < BPA i" "in_range (blk i k j) (of_nat (BS i)) q"
  shows "page_no q = k" "(unat q - 0xC0100000) mod 4096 \<ge> 12"
    "j = ((unat q - 0xC0100000) mod 4096 - 12) div BS i"
proof -
  have r: "unat (blk i k j) \<le> unat q" "unat q < unat (blk i k j) + BS i"
    using assms(4) in_block [OF assms(1-3)] by blast+
  note u = blk_unat [OF assms(1-3)] and f = blk_fits [OF assms(1,3)]
  show pg: "page_no q = k" using r f unfolding u by (intro page_noI) simp_all
  define o' where "o' = unat q - 0xC0100000 - k * 4096"
  have o: "unat q - 0xC0100000 = o' + k * 4096" "12 + j * BS i \<le> o'" "o' < 12 + j * BS i + BS i"
    using r unfolding u o'_def by simp_all
  have m: "(unat q - 0xC0100000) mod 4096 = o'" using o f by simp
  then show "(unat q - 0xC0100000) mod 4096 \<ge> 12" using o(2) by simp
  have "(o' - 12) div BS i = j" using o(2,3) by (intro div_nat_eqI) (simp_all add: algebra_simps)
  then show "j = ((unat q - 0xC0100000) mod 4096 - 12) div BS i" using m by simp
qed

lemma run_unat:
  assumes "0 < n" "k + n \<le> HEAP_PAGES"
  shows "unat (heap_page k + ARENA_SIZE) = 0xC0100000 + k * 4096 + 12"
    "unat (of_nat (n * 4096 - 12) :: u32) = n * 4096 - 12"
    "in_range (heap_page k + ARENA_SIZE) (of_nat (n * 4096 - 12)) q \<longleftrightarrow>
      0xC0100000 + k * 4096 + 12 \<le> unat q \<and> unat q < 0xC0100000 + (k + n) * 4096"
proof -
  have k: "k < HEAP_PAGES" using assms by simp
  show 1: "unat (heap_page k + ARENA_SIZE) = 0xC0100000 + k * 4096 + 12"
    using k by (subst unat_add_small; simp add: heap_page_unat [OF k] ARENA_SIZE_def HEAP_PAGES_def)
  show 2: "unat (of_nat (n * 4096 - 12) :: u32) = n * 4096 - 12"
    using assms by (intro unat_of_nat_less) (simp add: HEAP_PAGES_def)
  have "unat (heap_page k + ARENA_SIZE) + unat (of_nat (n * 4096 - 12) :: u32) \<le> 2 ^ 32"
    using assms unfolding 1 2 by (simp add: HEAP_PAGES_def)
  then show "in_range (heap_page k + ARENA_SIZE) (of_nat (n * 4096 - 12)) q \<longleftrightarrow>
      0xC0100000 + k * 4096 + 12 \<le> unat q \<and> unat q < 0xC0100000 + (k + n) * 4096"
    using in_range_unat [of "heap_page k + ARENA_SIZE" "of_nat (n * 4096 - 12)" q] assms(1)
    unfolding 1 2 add_mult_distrib by linarith
qed

lemma run_page_no:
  assumes "0 < n" "k + n \<le> HEAP_PAGES" "in_range (heap_page k + ARENA_SIZE) (of_nat (n * 4096 - 12)) q"
  shows "k \<le> page_no q" "page_no q < k + n"
proof -
  have r: "0xC0100000 + k * 4096 + 12 \<le> unat q" "unat q < 0xC0100000 + (k + n) * 4096"
    using assms(3) unfolding run_unat(3) [OF assms(1,2)] by blast+
  show "k \<le> page_no q" using r(1) unfolding page_no_def by (simp add: less_eq_div_iff_mult_less_eq)
  show "page_no q < k + n" using r unfolding page_no_def by (simp add: div_less_iff_less_mult)
qed

lemma live_used:
  assumes inv: "heap_inv F own big fl s" and p: "(p, n) \<in> live own big fl" and q: "in_range p (of_nat n) q"
  shows "used own big (page_no q)"
  using p
proof (cases rule: liveE)
  case (block i k j)
  have "page_no q = k"
    using block_page_no(1) [OF heap_invD(10,11) [OF inv block(3)] block(4)] q block by simp
  then show ?thesis using block(3) by (simp add: used_def)
next
  case (run k c)
  note bp = big_page [OF inv run(3)]
  show ?thesis using run_page_no [OF bp(1,5)] q run unfolding used_def by blast
qed

text \<open>No byte belongs to two live regions.\<close>

lemma live_disjoint:
  assumes inv: "heap_inv F own big fl s"
    and p: "(p, n) \<in> live own big fl" "in_range p (of_nat n) q"
    and p': "(p', n') \<in> live own big fl" "in_range p' (of_nat n') q"
  shows "p = p' \<and> n = n'"
  using p(1)
proof (cases rule: liveE)
  case b: (block i k j)
  note bq = block_page_no [OF heap_invD(10,11) [OF inv b(3)] b(4)]
  show ?thesis using p'(1)
  proof (cases rule: liveE)
    case (block i' k' j')
    have q: "in_range (blk i k j) (of_nat (BS i)) q" "in_range (blk i' k' j') (of_nat (BS i')) q"
      using p(2) p'(2) b block by simp_all
    note bq = bq [OF q(1)] and bq' = block_page_no [OF heap_invD(10,11) [OF inv block(3)] block(4) q(2)]
    have "k = k'" using bq(1) bq'(1) by simp
    moreover have "i = i'" using \<open>k = k'\<close> b(3) block(3) by simp
    moreover have "j = j'" using bq(3) bq'(3) \<open>i = i'\<close> by simp
    ultimately show ?thesis using b block by simp
  next
    case (run k' c)
    note bp = big_page [OF inv run(3)]
    have "page_no q = k" using bq(1) p(2) b by simp
    moreover have "in_range (heap_page k' + ARENA_SIZE) (of_nat (c * 4096 - 12)) q"
      using p'(2) run by (simp only:)
    ultimately have "k' \<le> k" "k < k' + c" using run_page_no [OF bp(1,5)] by blast+
    then have "own (k' + (k - k')) = None" "k' + (k - k') = k"
      using heap_invD(4) [OF inv] run(3) unfolding apart_runs_def by (metis less_diff_conv2 add.commute, simp)
    then show ?thesis using b(3) by simp
  qed
next
  case r: (run k c)
  note bp = big_page [OF inv r(3)]
  have "in_range (heap_page k + ARENA_SIZE) (of_nat (c * 4096 - 12)) q" using p(2) r by (simp only:)
  note pg = run_page_no [OF bp(1,5) this]
  show ?thesis using p'(1)
  proof (cases rule: liveE)
    case (block i' k' j')
    have "page_no q = k'"
      using block_page_no(1) [OF heap_invD(10,11) [OF inv block(3)] block(4)] p'(2) block by simp
    then have "own (k + (k' - k)) = None" "k + (k' - k) = k'"
      using heap_invD(4) [OF inv] r(3) pg unfolding apart_runs_def by (metis less_diff_conv2 add.commute, simp)
    then show ?thesis using block(3) by simp
  next
    case (run k' c')
    note bp' = big_page [OF inv run(3)]
    have "in_range (heap_page k' + ARENA_SIZE) (of_nat (c' * 4096 - 12)) q" using p'(2) run by (simp only:)
    from run_page_no [OF bp'(1,5) this] have "{k..<k + c} \<inter> {k'..<k' + c'} \<noteq> {}" using pg by (metis Int_iff atLeastLessThan_iff empty_iff)
    then have "k = k'" using heap_invD(4) [OF inv] r(3) run(3) unfolding apart_runs_def by blast
    then show ?thesis using r run by simp
  qed
qed

lemma live_blockI: "own k = Some i \<Longrightarrow> j < BPA i \<Longrightarrow> blk i k j \<notin> set (fl i) \<Longrightarrow> (blk i k j, BS i) \<in> live own big fl"
  unfolding live_def by blast

lemma live_runI: "big k = Some n \<Longrightarrow> (heap_page k + ARENA_SIZE, n * 4096 - 12) \<in> live own big fl"
  unfolding live_def by blast

lemma live_take:
  assumes k: "own k = Some i" "j < BPA i" and b: "blk i k j \<in> set (fl i)"
    and rest: "set (fl i) = insert (blk i k j) (set rest)" "blk i k j \<notin> set rest"
  shows "live own big (fl(i := rest)) = insert (blk i k j, BS i) (live own big fl)"
proof -
  have eq: "blk i' k' j' \<notin> set ((fl(i := rest)) i') \<longleftrightarrow>
      (i' = i \<and> blk i' k' j' = blk i k j) \<or> blk i' k' j' \<notin> set (fl i')" for i' k' j'
    using rest by auto
  have "(p, n) \<in> insert (blk i k j, BS i) (live own big fl)" if "(p, n) \<in> live own big (fl(i := rest))" for p n
    using that
  proof (cases rule: liveE)
    case (block i' k' j')
    then show ?thesis using eq [of i' k' j'] live_blockI [of own k' i' j' fl big] by auto
  qed (simp add: live_runI)
  moreover have "(p, n) \<in> live own big (fl(i := rest))" if "(p, n) \<in> live own big fl" for p n
    using that
  proof (cases rule: liveE)
    case (block i' k' j')
    then show ?thesis using eq [of i' k' j'] live_blockI [of own k' i' j' "fl(i := rest)" big] by auto
  qed (simp add: live_runI)
  moreover have "(blk i k j, BS i) \<in> live own big (fl(i := rest))"
    using k by (intro live_blockI) (simp_all add: rest)
  ultimately show ?thesis by (intro set_eqI) (metis insertE surj_pair)
qed

lemma block_not_live:
  assumes inv: "heap_inv F own big fl s" and b: "own k = Some i" "j < BPA i" "blk i k j \<in> set (fl i)"
  shows "(blk i k j, n) \<notin> live own big fl"
proof
  note ik = heap_invD(10,11) [OF inv b(1)]
  have ow: "owned own" using heap_invD(2) [OF inv] by (simp add: lists_ok_def)
  assume "(blk i k j, n) \<in> live own big fl"
  then show False
  proof (cases rule: liveE)
    case (block i' k' j')
    then have "i' = i"
      using owned_unique [OF ow b(1) block(3), of "blk i k j"] b(2) block(1,4) unfolding blks_def by blast
    then show False using block b(3) by simp
  next
    case (run k' c)
    note bp = big_page [OF inv run(3)]
    have "own (k' + (k - k')) = None" if "k' \<le> k" "k < k' + c"
      using heap_invD(4) [OF inv] run(3) that unfolding apart_runs_def by (metis less_diff_conv2 add.commute)
    moreover have "unat (blk i k j) = 0xC0100000 + k' * 4096 + 12"
      using run(1) run_unat(1) [OF bp(1,5)] by simp
    then have "k' * 4096 + 12 = k * 4096 + 12 + j * BS i" using blk_unat [OF ik b(2)] by simp
    moreover have "12 + j * BS i < 4096" using blk_fits [OF ik(1) b(2)] BS_BPA(1) [OF ik(1)] by simp
    ultimately show False using b(1) bp(1) by (cases "k' = k") auto
  qed
qed

lemma live_new_arena:
  assumes inv: "heap_inv {} own big fl s" and i: "i < 7" "fl i = []" and k: "own k = None" "k < HEAP_PAGES"
  shows "live (own(k := Some i)) big (fl(i := all_blocks i k)) = live own big fl"
proof -
  have ow: "owned (own(k := Some i))"
    using heap_invD(2) [OF inv] i k unfolding lists_ok_def owned_def by auto
  have eq: "(own(k := Some i)) k' = Some i' \<and> j' < BPA i' \<and> blk i' k' j' \<notin> set ((fl(i := all_blocks i k)) i') \<longleftrightarrow>
      own k' = Some i' \<and> j' < BPA i' \<and> blk i' k' j' \<notin> set (fl i')" for i' k' j'
  proof (cases "k' = k")
    case True
    then show ?thesis using k(1) by (auto simp: all_blocks_set blks_def)
  next
    case False
    have "blk i k' j' \<notin> blks i k" if "own k' = Some i" "j' < BPA i"
      using owned_unique [OF ow, of k i k' i "blk i k' j'"] that False by (auto simp: blks_def)
    then show ?thesis using False i(2) by (auto simp: all_blocks_set)
  qed
  show ?thesis unfolding live_def by (subst eq) simp
qed

text \<open>What an allocation gives: a region that was not live, cleared, the live ones untouched.\<close>

definition same_below :: "heap_state \<Rightarrow> heap_state \<Rightarrow> bool" where
  "same_below s s' \<longleftrightarrow> (\<forall>q. unat q < 0xC0100000 \<longrightarrow> hbytes s' q = hbytes s q)"

definition fresh_region :: "(ptr \<times> nat) set \<Rightarrow> ptr \<Rightarrow> nat \<Rightarrow> heap_state \<Rightarrow> heap_state \<Rightarrow> bool" where
  "fresh_region L p n s s' \<longleftrightarrow> p \<noteq> NULL \<and> (p, n) \<notin> L \<and>
     (\<forall>q. in_range p (of_nat n) q \<longrightarrow> hbytes s' q = 0) \<and>
     (\<forall>(p', n')\<in>L. \<forall>q. in_range p' (of_nat n') q \<longrightarrow> hbytes s' q = hbytes s q) \<and> same_below s s'"

lemma blk_not_null: "i < 7 \<Longrightarrow> k < HEAP_PAGES \<Longrightarrow> j < BPA i \<Longrightarrow> blk i k j \<noteq> NULL"
  using blk_unat [of i k j] by (auto simp: unat_eq_zero)

lemma take_block_live:
  assumes inv: "heap_inv F own big fl s" and F: "F \<subseteq> {k}" and k: "own k = Some i" "j < BPA i"
    and fl: "fl i = blk i k j # rest"
  shows "\<exists>s'. take_block (dsc (k_mem_block s) i) s = (blk i k j, s') \<and>
    heap_inv {} own big (fl(i := rest)) s' \<and> mm s' = mm s \<and> k_mem_block s' = k_mem_block s \<and> descs s' = descs s \<and>
    live own big (fl(i := rest)) = insert (blk i k j, BS i) (live own big fl) \<and>
    fresh_region (live own big fl) (blk i k j) (BS i) s s'"
proof -
  let ?b = "blk i k j" and ?f = "fl(i := rest)"
  note ik = heap_invD(10,11) [OF inv k(1)]
  obtain s' where s': "take_block (dsc (k_mem_block s) i) s = (?b, s')" "heap_inv {} own big ?f s'"
      "mm s' = mm s" "k_mem_block s' = k_mem_block s" "descs s' = descs s"
      "\<And>q. hbytes s' q = (if in_range ?b (of_nat (BS i)) q then 0 else hbytes s q)"
    using take_block_inv [OF inv F k fl] by blast
  have nb: "?b \<notin> set rest"
    using kl.nodes [OF lists_okD(3) [OF heap_invD(2) [OF inv] ik(1)]] fl by simp
  have lv: "live own big ?f = insert (?b, BS i) (live own big fl)"
    by (rule live_take [where k = k]) (use k fl nb in auto)
  have nl: "(?b, BS i) \<notin> live own big fl" by (rule block_not_live [OF inv k]) (use fl in simp)
  have keep: "hbytes s' q = hbytes s q" if "(p', n') \<in> live own big fl" "in_range p' (of_nat n') q" for p' n' q
  proof -
    have "\<not> in_range ?b (of_nat (BS i)) q"
      using live_disjoint [OF s'(2), of ?b "BS i" q p' n'] that nl unfolding lv by blast
    then show ?thesis using s'(6) by simp
  qed
  have "\<forall>q. in_range ?b (of_nat (BS i)) q \<longrightarrow> hbytes s' q = 0" using s'(6) by simp
  moreover have "same_below s s'"
    using s'(6) blk_unat [OF ik k(2)] by (auto simp: same_below_def in_block [OF ik k(2)])
  ultimately have "fresh_region (live own big fl) ?b (BS i) s s'"
    using nl keep blk_not_null [OF ik k(2)] unfolding fresh_region_def by blast
  then show ?thesis using s' lv by blast
qed

section \<open>\<open>mem_acquire\<close> and \<open>mem_release\<close>\<close>

lemma fresh_region_mono:
  assumes "fresh_region L p n s1 s'" and "\<And>p' n' q. (p', n') \<in> L \<Longrightarrow> in_range p' (of_nat n') q \<Longrightarrow> hbytes s1 q = hbytes s q"
    and "same_below s s1"
  shows "fresh_region L p n s s'"
  using assms unfolding fresh_region_def same_below_def by fastforce

text \<open>An allocation: nothing but a \<open>NULL\<close>, or a fresh region of at least \<open>sz\<close> bytes.\<close>

definition alloc_outcome :: "nat \<Rightarrow> (nat \<Rightarrow> nat option) \<Rightarrow> (nat \<Rightarrow> nat option) \<Rightarrow> (nat \<Rightarrow> ptr list) \<Rightarrow>
    heap_state \<Rightarrow> ptr \<Rightarrow> heap_state \<Rightarrow> bool" where
  "alloc_outcome sz own big fl s p s' \<longleftrightarrow> k_mem_block s' = k_mem_block s \<and> descs s' = descs s \<and>
     (p = NULL \<and> starved (mm s) 1 \<and> heap_inv {} own big fl s' \<and> hbytes s' = hbytes s \<or>
      (\<exists>n own' big' fl'. sz \<le> n \<and> heap_inv {} own' big' fl' s' \<and>
        live own' big' fl' = insert (p, n) (live own big fl) \<and> fresh_region (live own big fl) p n s s'))"

lemma sint_1_pos: "0 < sint (1 :: u32)"
  by simp

lemma take_outcome:
  assumes inv: "heap_inv F own' big fl' s1" and F: "F \<subseteq> {k}" and k: "own' k = Some i" "j < BPA i"
    and fl: "fl' i = blk i k j # rest" and sz: "sz \<le> BS i"
    and same: "live own' big fl' = live own big fl" "k_mem_block s1 = k_mem_block s" "descs s1 = descs s"
    and bytes: "\<And>p n q. (p, n) \<in> live own big fl \<Longrightarrow> in_range p (of_nat n) q \<Longrightarrow> hbytes s1 q = hbytes s q"
    and low: "same_below s s1"
  shows "\<exists>s'. take_block (dsc (k_mem_block s) i) s1 = (blk i k j, s') \<and> alloc_outcome sz own big fl s (blk i k j) s'"
proof -
  obtain s' where s': "take_block (dsc (k_mem_block s1) i) s1 = (blk i k j, s')"
      "heap_inv {} own' big (fl'(i := rest)) s'" "k_mem_block s' = k_mem_block s1" "descs s' = descs s1"
      "live own' big (fl'(i := rest)) = insert (blk i k j, BS i) (live own' big fl')"
      "fresh_region (live own' big fl') (blk i k j) (BS i) s1 s'"
    using take_block_live [OF inv F k fl] by blast
  have fr: "fresh_region (live own big fl) (blk i k j) (BS i) s s'"
    by (rule fresh_region_mono [where ?s1.0 = s1]) (use s'(6) same(1) bytes low in auto)
  have lv: "live own' big (fl'(i := rest)) = insert (blk i k j, BS i) (live own big fl)" using s'(5) same(1) by simp
  have "alloc_outcome sz own big fl s (blk i k j) s'"
    unfolding alloc_outcome_def using s'(2-4) sz same(2,3) fr lv by metis
  then show ?thesis using s'(1) same(2) by simp
qed

lemma mem_acquire_inv:
  assumes inv: "heap_inv {} own big fl s" and i: "i < 7" and sz: "sz \<le> BS i"
    and room: "list_empty (hnodes s) (flist (k_mem_block s) i) \<Longrightarrow> room (mm s) 1"
  shows "\<exists>p s'. mem_acquire K_P_POOL (k_mem_block s) (of_nat i) s = Inr (p, s') \<and> alloc_outcome sz own big fl s p s'"
proof (cases "fl i")
  case (Cons b rest)
  obtain k j where b: "own k = Some i" "j < BPA i" "b = blk i k j"
    using fl_head_block [OF inv i Cons] by blast
  have ne: "\<not> list_empty (hnodes s) (flist (k_mem_block s) i)"
    using list_empty_dlist [OF lists_okD(3) [OF heap_invD(2) [OF inv] i]] Cons by simp
  have "fl i = blk i k j # rest" using Cons b(3) by simp
  from take_outcome [OF inv _ b(1,2) this sz, where s = s] have "\<exists>s'. take_block (dsc (k_mem_block s) i) s = (blk i k j, s') \<and>
      alloc_outcome sz own big fl s (blk i k j) s'" by (simp add: same_below_def)
  then show ?thesis using ne by (fastforce simp: mem_acquire_def dsc_def flist_def Let_def)
next
  case Nil
  have em: "list_empty (hnodes s) (flist (k_mem_block s) i)"
    using list_empty_dlist [OF lists_okD(3) [OF heap_invD(2) [OF inv] i]] Nil by simp
  obtain a m' where a: "page_acquire K_P_POOL NULL 1 (mm s) = Inr (a, m')" "mm_ok m'"
      "\<And>l. backed (mm s) l \<Longrightarrow> backed m' l"
      "a = NULL \<and> starved (mm s) 1 \<or> (\<exists>k. a = heap_page k \<and> k + 1 \<le> HEAP_PAGES \<and> (\<forall>l. k \<le> l \<longrightarrow> l < k + 1 \<longrightarrow> \<not> backed (mm s) l \<and> backed m' l))"
    using page_get [OF heap_invD(1) [OF inv] sint_1_pos room [OF em]] by auto
  let ?s = "s\<lparr>mm := m'\<rparr>"
  have inv1: "heap_inv {} own big fl ?s"
    by (rule heap_inv_mm [OF inv a(2)]) (use used_backed [OF inv] a(3) in blast)
  show ?thesis
  proof (cases "a = NULL")
    case True
    then have "mem_acquire K_P_POOL (k_mem_block s) (of_nat i) s = Inr (NULL, ?s)"
      using em a(1) by (simp add: mem_acquire_def dsc_def flist_def Let_def)
    moreover have "starved (mm s) 1" using True a(4) heap_page_not_null by fastforce
    ultimately show ?thesis using inv1 by (fastforce simp: alloc_outcome_def)
  next
    case False
    then obtain k where k: "a = heap_page k" "k < HEAP_PAGES" "\<And>l. k \<le> l \<Longrightarrow> l < k + 1 \<Longrightarrow> \<not> backed (mm s) l" "backed m' k"
      using a(4) by fastforce
    have ap: "apart_from big k 1" by (rule not_backed_fresh(2) [OF inv k(3)])
    have own: "own k = None" by (rule not_backed_fresh(1) [OF inv, where k = k and n = 1]) (use k(3) in auto)
    obtain s' where s': "new_arena (dsc (k_mem_block s) i) (heap_page k) ?s = s'"
        "heap_inv {k} (own(k := Some i)) big (fl(i := all_blocks i k)) s'"
        "k_mem_block s' = k_mem_block s" "descs s' = descs s"
        "\<And>q. hbytes s' q = (if in_range (heap_page k) PG_SIZE q then 0 else hbytes s q)"
      using new_arena_inv [OF inv1 i Nil own ap] k(4) by auto
    have bytes: "hbytes s' q = hbytes s q" if "(p, n) \<in> live own big fl" "in_range p (of_nat n) q" for p n q
    proof -
      have "used own big (page_no q)" by (rule live_used [OF inv that])
      then have "page_no q \<noteq> k" using used_backed [OF inv] k(3) [of k] by auto
      then have "\<not> in_range (heap_page k) PG_SIZE q"
        using in_run [of 1 k q] k(2) page_noI [of k q] by (auto simp: add_mult_distrib)
      then show ?thesis using s'(5) by simp
    qed
    have low: "same_below s s'"
      using s'(5) in_run [of 1 k] k(2) by (auto simp: same_below_def)
    have pos: "0 < BPA i" using BS_BPA(4) [OF i] by simp
    have hd: "(fl(i := all_blocks i k)) i = blk i k 0 # map (blk i k) [Suc 0..<BPA i]"
      using pos by (simp add: all_blocks_def upt_conv_Cons)
    have "\<exists>s''. take_block (dsc (k_mem_block s) i) s' = (blk i k 0, s'') \<and> alloc_outcome sz own big fl s (blk i k 0) s''"
      by (rule take_outcome [OF s'(2) _ _ pos hd sz live_new_arena [OF inv i Nil own k(2)] s'(3,4)])
        (use bytes low in auto)
    then show ?thesis
      using em a(1) False k(1) s'(1) by (auto simp: mem_acquire_def dsc_def flist_def Let_def)
  qed
qed

lemma live_give:
  assumes inv: "heap_inv F own big fl s" and k: "own k = Some i" "j < BPA i" and out: "blk i k j \<notin> set (fl i)"
    and inv': "heap_inv F' own big (fl(i := fl i @ [blk i k j])) s'"
  shows "live own big (fl(i := fl i @ [blk i k j])) = live own big fl - {(blk i k j, BS i)}"
proof -
  let ?f = "fl(i := fl i @ [blk i k j])"
  have "live own big (?f(i := fl i)) = insert (blk i k j, BS i) (live own big ?f)"
    by (rule live_take [where k = k]) (use k out in auto)
  then have "live own big fl = insert (blk i k j, BS i) (live own big ?f)" by simp
  moreover have "(blk i k j, BS i) \<notin> live own big ?f" by (rule block_not_live [OF inv' k]) simp
  ultimately show ?thesis by simp
qed

text \<open>An arena all of whose blocks are free leaves the heap.\<close>

lemma close_arena:
  assumes inv: "heap_inv {k} own big fl s" and k: "own k = Some i" and full: "free_in fl i k = BPA i"
  shows "heap_inv {} (own(k := None)) big (fl(i := filter (\<lambda>b. b \<notin> blks i k) (fl i)))
      (unlink_arena (BPA i) 0 (heap_page k) s)"
    and "live (own(k := None)) big (fl(i := filter (\<lambda>b. b \<notin> blks i k) (fl i))) = live own big fl"
    and "\<exists>h. unlink_arena (BPA i) 0 (heap_page k) s = s\<lparr>hnodes := h\<rparr>"
proof -
  let ?m = "k_mem_block s" and ?own = "own(k := None)" and ?f = "fl(i := filter (\<lambda>b. b \<notin> blks i k) (fl i))"
  note ik = heap_invD(10,11) [OF inv k] and ok = heap_invD(2) [OF inv]
  have ow: "owned own" using ok by (simp add: lists_ok_def)
  have sub: "blks i k \<subseteq> set (fl i)"
  proof -
    have "card (blks i k \<inter> set (fl i)) = card (blks i k)" using full card_blks [OF ik] by (simp add: free_in_def)
    then have "blks i k \<inter> set (fl i) = blks i k" by (intro card_subset_eq) (auto simp: blks_def)
    then show ?thesis by blast
  qed
  have at: "arena_at s i k"
    using heap_invD(6) [OF inv k] heap_invD(3) [OF inv] ik(1) by (simp add: arena_at_def arena_hdr_def descs_ok_def)
  let ?h = "foldl list_remove (hnodes s) (all_blocks i k)"
  have un: "unlink_arena (BPA i) 0 (heap_page k) s = s\<lparr>hnodes := ?h\<rparr>"
    using unlink_arena_foldl [OF at, of "BPA i" 0] by (simp add: all_blocks_def)
  then show "\<exists>h. unlink_arena (BPA i) 0 (heap_page k) s = s\<lparr>hnodes := h\<rparr>" by blast
  have l1: "lists_ok ?m own ?f ?h"
    using lists_remove_all [OF ok ik(1) all_blocks_distinct [OF ik]] sub by (simp add: all_blocks_set)
  have lists: "lists_ok ?m ?own ?f ?h"
  proof (rule lists_okI)
    show "owned ?own" using ow unfolding owned_def by auto
    fix i' b assume i': "i' < (7::nat)" and b: "b \<in> set (?f i')"
    obtain k' where k': "own k' = Some i'" "b \<in> blks i' k'" using lists_okD(4) [OF l1 i' b] by blast
    have "k' \<noteq> k" using k' b k by auto
    then show "\<exists>k'. ?own k' = Some i' \<and> b \<in> blks i' k'" using k' by (intro exI [of _ k']) simp
  qed (use l1 in \<open>auto simp: lists_ok_def\<close>)
  have apart: "blks i' k' \<inter> blks i k = {}" if "own k' = Some i'" "k' \<noteq> k" for i' k'
    using owned_unique [OF ow k that(1)] that(2) by blast
  have fin: "free_in ?f i' k' = free_in fl i' k'" if "own k' = Some i'" "k' \<noteq> k" for i' k'
  proof -
    have "blks i' k' \<inter> set (?f i') = blks i' k' \<inter> set (fl i')" using apart [OF that] by auto
    then show ?thesis by (simp only: free_in_def)
  qed
  show "heap_inv {} ?own big ?f (unlink_arena (BPA i) 0 (heap_page k) s)"
    unfolding un
  proof (rule heap_invI)
    show "apart_runs ?own big" using heap_invD(4) [OF inv] unfolding apart_runs_def fun_upd_apply by metis
    fix k' i' assume "?own k' = Some i'"
    then have k': "own k' = Some i'" "k' \<noteq> k" by (auto split: if_splits)
    show "backed (mm (s\<lparr>hnodes := ?h\<rparr>)) k'" using heap_invD(5) [OF inv k'(1)] by simp
    show "arenas (s\<lparr>hnodes := ?h\<rparr>) (heap_page k') = arena_hdr (k_mem_block (s\<lparr>hnodes := ?h\<rparr>)) i' (free_in ?f i' k')"
      using heap_invD(6) [OF inv k'(1)] fin [OF k'] by simp
    show "free_in ?f i' k' < BPA i'" using heap_invD(7) [OF inv k'(1)] fin [OF k'] k'(2) by simp
  qed (use inv lists in \<open>simp_all add: heap_inv_def descs_ok_def\<close>)
  have eq: "?own k' = Some i' \<and> j' < BPA i' \<and> blk i' k' j' \<notin> set (?f i') \<longleftrightarrow>
      own k' = Some i' \<and> j' < BPA i' \<and> blk i' k' j' \<notin> set (fl i')" for i' k' j'
  proof (cases "k' = k")
    case True
    then show ?thesis using sub k by (auto simp: blks_def)
  next
    case False
    have "blk i' k' j' \<notin> blks i k" if "own k' = Some i'" "j' < BPA i'"
      using apart [OF that(1) False] that(2) by (auto simp: blks_def)
    then show ?thesis using False by auto
  qed
  show "live ?own big ?f = live own big fl" unfolding live_def by (subst eq) simp
qed

lemma mem_release_inv:
  assumes inv: "heap_inv {} own big fl s" and k: "own k = Some i" "j < BPA i" and out: "blk i k j \<notin> set (fl i)"
  shows "\<exists>s' own' fl'. mem_release K_P_POOL (blk i k j) s = Inr s' \<and> k_mem_block s' = k_mem_block s \<and>
    descs s' = descs s \<and> hbytes s' = hbytes s \<and> heap_inv {} own' big fl' s' \<and>
    live own' big fl' = live own big fl - {(blk i k j, BS i)}"
proof -
  let ?b = "blk i k j" and ?f = "fl(i := fl i @ [blk i k j])"
  let ?s = "give_block ?b s"
  note ik = heap_invD(10,11) [OF inv k(1)] and g = give_block_inv [OF inv k out]
  have lg: "live own big ?f = live own big fl - {(?b, BS i)}" by (rule live_give [OF inv k out g(1)])
  have hdr: "arenas ?s (heap_page k) = arena_hdr (k_mem_block s) i (free_in ?f i k)"
    using heap_invD(6) [OF g(1) k(1)] g(3) by simp
  have le: "free_in ?f i k \<le> BPA i"
    unfolding free_in_def card_blks [OF ik, symmetric] by (rule card_mono) (auto simp: blks_def)
  have bpa: "blocks_per_arena (descs ?s (dsc (k_mem_block s) i)) = of_nat (BPA i)"
    using heap_invD(3) [OF inv] ik(1) by (simp add: descs_ok_def g(4))
  have cmp: "(of_nat (free_in ?f i k) :: u32) = of_nat (BPA i) \<longleftrightarrow> free_in ?f i k = BPA i"
    using le BS_BPA(5) [OF ik(1)] by (intro of_nat_u32_inj) simp_all
  have un: "unat (of_nat (BPA i) :: u32) = BPA i" using BS_BPA(5) [OF ik(1)] by (simp add: unat_of_nat_less)
  have rel: "mem_release K_P_POOL ?b s =
      (if free_in ?f i k = BPA i
       then rbind (page_release K_P_POOL (heap_page k) 1 (mm (unlink_arena (BPA i) 0 (heap_page k) ?s)))
              (\<lambda>m. Inr ((unlink_arena (BPA i) 0 (heap_page k) ?s)\<lparr>mm := m\<rparr>))
       else Inr ?s)"
    using hdr bpa cmp un unfolding mem_release_def Let_def give_block_def [symmetric]
    by (simp add: block2arena_blk [OF ik k(2)] give_block_def arena_hdr_def)
  show ?thesis
  proof (cases "free_in ?f i k = BPA i")
    case False
    have "heap_inv {} own big ?f ?s"
    proof (rule heap_invI)
      fix k' i' assume k': "own k' = Some i'"
      show "free_in ?f i' k' < BPA i'"
      proof (cases "k' = k")
        case True
        then show ?thesis using k' k(1) False le by auto
      qed (use heap_invD(7) [OF g(1) k'] in simp)
    qed (use g(1) in \<open>simp_all add: heap_inv_def\<close>)
    then show ?thesis using rel False lg g(3-5) by auto
  next
    case True
    note c = close_arena [OF g(1) k(1) True]
    let ?u = "unlink_arena (BPA i) 0 (heap_page k) ?s"
    let ?own = "own(k := None)" and ?f2 = "?f(i := filter (\<lambda>b. b \<notin> blks i k) (?f i))"
    obtain h where h: "?u = ?s\<lparr>hnodes := h\<rparr>" using c(3) by blast
    have mmu: "mm ?u = mm s" using h g(2) by simp
    have bk: "backed (mm s) (k + j)" if "j < 1" for j using heap_invD(5) [OF inv k(1)] that by simp
    obtain m' where m': "page_release K_P_POOL (heap_page k) 1 (mm s) = Inr m'" "mm_ok m'"
        "\<And>l. backed (mm s) l \<Longrightarrow> \<not> (k \<le> l \<and> l < k + 1) \<Longrightarrow> backed m' l"
      using page_give [OF heap_invD(1) [OF inv], of 1 k] bk by auto
    have "heap_inv {} ?own big ?f2 (?u\<lparr>mm := m'\<rparr>)"
    proof (rule heap_inv_mm [OF c(1) m'(2)])
      fix l assume l: "used ?own big l"
      have "backed (mm s) l" using used_backed [OF c(1) l] mmu by simp
      moreover have "l \<noteq> k"
      proof
        assume "l = k"
        then obtain k' n where b: "big k' = Some n" "k' \<le> k" "k < k' + n" using l by (auto simp: used_def)
        then have "own (k' + (k - k')) = None"
          using heap_invD(4) [OF inv] unfolding apart_runs_def by (metis less_diff_conv2 add.commute)
        then show False using b(2) k(1) by simp
      qed
      ultimately show "backed m' l" using m'(3) by simp
    qed
    then show ?thesis
      using rel True m'(1) mmu h c(2) lg g(3-5) by auto
  qed
qed

section \<open>\<open>sys_malloc\<close> and \<open>sys_free\<close>\<close>

lemma set_d_mlock_fields [simp]:
  "mm (set_d_mlock d t s) = mm s" "arenas (set_d_mlock d t s) = arenas s" "hnodes (set_d_mlock d t s) = hnodes s"
  "hbytes (set_d_mlock d t s) = hbytes s" "k_mem_block (set_d_mlock d t s) = k_mem_block s"
  "block_size (descs (set_d_mlock d t s) e) = block_size (descs s e)"
  "blocks_per_arena (descs (set_d_mlock d t s) e) = blocks_per_arena (descs s e)"
  "d_mlock (descs (set_d_mlock d t s) e) = (if e = d then t else d_mlock (descs s e))"
  by (simp_all add: set_d_mlock_def)

lemma heap_inv_lock [simp]: "heap_inv F own big fl (set_d_mlock d t s) = heap_inv F own big fl s"
  by (simp add: heap_inv_def descs_ok_def)

definition descs_free :: "heap_state \<Rightarrow> bool" where
  "descs_free s \<longleftrightarrow> (\<forall>i<7. d_mlock (descs s (dsc (k_mem_block s) i)) = NULL)"

text \<open>The abstract view: the set of live regions.\<close>

definition heap_rep :: "(ptr \<times> nat) set \<Rightarrow> heap_state \<Rightarrow> bool" where
  "heap_rep L s \<longleftrightarrow> descs_free s \<and> (\<exists>own big fl. heap_inv {} own big fl s \<and> L = live own big fl)"

text \<open>The descriptor that serves a small request.\<close>

lemma find_desc_least:
  assumes ok: "descs_ok s" and n: "idx + n = 7" and fit: "unat sz \<le> BS 6" and n0: "0 < n"
  shows "find_desc n idx sz s < 7 \<and> unat sz \<le> BS (find_desc n idx sz s)"
  using n n0
proof (induction n arbitrary: idx)
  case (Suc n)
  have bs: "block_size (descs s (desc_at (k_mem_block s) (of_nat idx))) = of_nat (BS idx)"
    using ok Suc.prems by (simp add: descs_ok_def dsc_def)
  have le: "sz \<le> of_nat (BS idx) \<longleftrightarrow> unat sz \<le> BS idx"
    using BS_BPA(2) [of idx] Suc.prems(1) by (simp add: word_le_nat_alt unat_of_nat_less)
  show ?case
  proof (cases "unat sz \<le> BS idx")
    case True
    then show ?thesis using Suc.prems by (simp add: bs le)
  next
    case False
    then have "n \<noteq> 0" using fit Suc.prems(1) by (cases n) auto
    then show ?thesis using Suc.IH [of "Suc idx"] Suc.prems(1) False by (simp add: bs le)
  qed
qed simp

definition malloc_pages :: "u32 \<Rightarrow> u32" where
  "malloc_pages sz = (if sz > 1024 then DIV_ROUND_UP (sz + ARENA_SIZE) PG_SIZE else 1)"

definition malloc_room :: "u32 \<Rightarrow> heap_state \<Rightarrow> bool" where
  "malloc_room sz s \<longleftrightarrow> unat sz + 4107 < 2 ^ 32 \<and> room (mm s) (malloc_pages sz)"

definition malloc_outcome :: "u32 \<Rightarrow> (ptr \<times> nat) set \<Rightarrow> heap_state \<Rightarrow> ptr \<Rightarrow> heap_state \<Rightarrow> bool" where
  "malloc_outcome sz L s p s' \<longleftrightarrow>
     p = NULL \<and> starved (mm s) (malloc_pages sz) \<and> heap_rep L s' \<and> hbytes s' = hbytes s \<or>
     (\<exists>n. unat sz \<le> n \<and> heap_rep (insert (p, n) L) s' \<and> fresh_region L p n s s')"

lemma small_malloc:
  assumes inv: "heap_inv {} own big fl s" and free: "descs_free s" and sz: "sz \<le> 1024" and rm: "room (mm s) 1"
  shows "\<exists>p s'. sys_malloc sz s = Inr (p, s') \<and> malloc_outcome sz (live own big fl) s p s'"
proof -
  let ?i = "find_desc MEM_BLOCK_CNT 0 sz s" and ?m = "k_mem_block s"
  have "unat sz \<le> BS 6" using sz by (simp add: BS_def word_le_nat_alt)
  then have i: "?i < 7" "unat sz \<le> BS ?i"
    using find_desc_least [OF heap_invD(3) [OF inv], of 0 7 sz] by (simp_all add: MEM_BLOCK_CNT_def)
  let ?d = "dsc ?m ?i"
  let ?s = "set_d_mlock ?d (cur_task (mm s)) s"
  have fr: "d_mlock (descs s ?d) = NULL" using free i(1) by (simp add: descs_free_def)
  obtain p s1 where a: "mem_acquire K_P_POOL ?m (of_nat ?i) ?s = Inr (p, s1)" "alloc_outcome (unat sz) own big fl ?s p s1"
    using mem_acquire_inv [of own big fl ?s ?i "unat sz"] inv i rm by auto
  let ?t = "set_d_mlock ?d NULL s1"
  have eq: "sys_malloc sz s = Inr (p, ?t)"
    using sz fr a(1) by (simp add: sys_malloc_def with_d_lock_def Let_def dsc_def linorder_not_less [symmetric])
  have df: "descs_free ?t"
    using free a(2) by (auto simp: descs_free_def alloc_outcome_def)
  show ?thesis
  proof (cases "p = NULL \<and> starved (mm s) 1 \<and> heap_inv {} own big fl s1 \<and> hbytes s1 = hbytes ?s")
    case True
    then have "heap_rep (live own big fl) ?t" using df unfolding heap_rep_def by auto
    moreover have "malloc_pages sz = 1" using sz by (simp add: malloc_pages_def linorder_not_less [symmetric])
    ultimately show ?thesis using eq True by (auto simp: malloc_outcome_def)
  next
    case False
    then obtain n own' big' fl' where n: "unat sz \<le> n" "heap_inv {} own' big' fl' s1"
        "live own' big' fl' = insert (p, n) (live own big fl)" "fresh_region (live own big fl) p n ?s s1"
      using a(2) unfolding alloc_outcome_def by auto
    have "heap_rep (insert (p, n) (live own big fl)) ?t" using n(2,3) df unfolding heap_rep_def by auto
    moreover have "fresh_region (live own big fl) p n s ?t" using n(4) by (simp add: fresh_region_def same_below_def)
    ultimately show ?thesis using eq n(1) unfolding malloc_outcome_def by blast
  qed
qed

text \<open>The page count of a large request, when the sums do not wrap.\<close>

lemma large_pages:
  assumes "1024 < sz" "unat sz + 4107 < 2 ^ 32"
  shows "unat (DIV_ROUND_UP (sz + ARENA_SIZE) PG_SIZE) = (unat sz + 4107) div 4096"
    "unat sz \<le> (unat sz + 4107) div 4096 * 4096 - 12" "0 < (unat sz + 4107) div 4096"
    "0 < sint (DIV_ROUND_UP (sz + ARENA_SIZE) PG_SIZE)"
proof -
  have a: "unat (sz + ARENA_SIZE) = unat sz + 12"
    using assms(2) unfolding ARENA_SIZE_def by (subst unat_add_small) simp_all
  show n: "unat (DIV_ROUND_UP (sz + ARENA_SIZE) PG_SIZE) = (unat sz + 4107) div 4096"
    using assms(2) DIV_ROUND_UP_unat [of "sz + ARENA_SIZE" PG_SIZE] by (simp add: a PG_SIZE_def)
  show "unat sz \<le> (unat sz + 4107) div 4096 * 4096 - 12" by linarith
  show p: "0 < (unat sz + 4107) div 4096" using assms(1) by (simp add: word_less_nat_alt)
  show "0 < sint (DIV_ROUND_UP (sz + ARENA_SIZE) PG_SIZE)"
    by (rule sint_pos_small) (use p assms(2) in \<open>simp_all add: n\<close>)
qed

lemma live_big_insert:
  "big k = None \<Longrightarrow> live own (big(k := Some n)) fl = insert (heap_page k + ARENA_SIZE, n * 4096 - 12) (live own big fl)"
  unfolding live_def by (intro set_eqI) (auto split: if_splits)

lemma big_page_of_live:
  assumes inv: "heap_inv F own big fl s" and nb: "\<not> backed (mm s) k" and n: "0 < n" "k + n \<le> HEAP_PAGES"
  shows "(heap_page k + ARENA_SIZE, n * 4096 - 12) \<notin> live own big fl"
proof
  let ?p = "heap_page k + ARENA_SIZE"
  assume l: "(?p, n * 4096 - 12) \<in> live own big fl"
  have u: "unat ?p = 0xC0100000 + k * 4096 + 12" by (rule run_unat(1) [OF n])
  have "in_range ?p (of_nat (n * 4096 - 12)) ?p"
    unfolding run_unat(3) [OF n] u using n(1) by (simp add: add_mult_distrib)
  then have "used own big (page_no ?p)" by (rule live_used [OF inv l])
  moreover have "page_no ?p = k" by (rule page_noI) (simp_all add: u)
  ultimately show False using used_backed [OF inv] nb by simp
qed

text \<open>A run of fresh pages becomes a large allocation.\<close>

definition open_run :: "nat \<Rightarrow> nat \<Rightarrow> heap_state \<Rightarrow> heap_state" where
  "open_run k n s = set_arena (heap_page k) (\<lambda>_. big_hdr n) (heap_memset (heap_page k) (of_nat n * PG_SIZE) s)"

lemma open_run_inv:
  assumes inv: "heap_inv {} own big fl s" and n: "0 < n" "k + n \<le> HEAP_PAGES"
    and own: "\<And>l. k \<le> l \<Longrightarrow> l < k + n \<Longrightarrow> own l = None" and ap: "apart_from big k n"
    and bk: "\<And>l. k \<le> l \<Longrightarrow> l < k + n \<Longrightarrow> backed (mm s) l"
  shows "heap_inv {} own (big(k := Some n)) fl (open_run k n s)"
    and "hbytes (open_run k n s) q = (if in_range (heap_page k) (of_nat n * PG_SIZE) q then 0 else hbytes s q)"
    and "big k = None"
proof -
  let ?s = "open_run k n s" and ?big = "big(k := Some n)"
  have f: "mm ?s = mm s" "descs ?s = descs s" "k_mem_block ?s = k_mem_block s" by (simp_all add: open_run_def)
  have kH: "k < HEAP_PAGES" using n by simp
  show "hbytes (open_run k n s) q = (if in_range (heap_page k) (of_nat n * PG_SIZE) q then 0 else hbytes s q)"
    by (simp add: open_run_def heap_memset_def memset_apply)
  show none: "big k = None"
  proof (rule ccontr)
    assume "big k \<noteq> None"
    then obtain c where c: "big k = Some c" by blast
    then have "{k..<k + n} \<inter> {k..<k + c} = {}" using ap unfolding apart_from_def by blast
    moreover have "k \<in> {k..<k + n} \<inter> {k..<k + c}" using n(1) big_page(1) [OF inv c] by simp
    ultimately show False by blast
  qed
  have ar: "arenas ?s (heap_page k') = (if k' = k then big_hdr n else arenas s (heap_page k'))"
    if "k' < HEAP_PAGES" "k' = k \<or> \<not> (k \<le> k' \<and> k' < k + n)" for k'
    using header_in_run [OF n that(1)] heap_page_inj [OF that(1) kH] that(2)
    by (auto simp: open_run_def set_arena_def heap_memset_def)
  have lists: "lists_ok (k_mem_block s) own fl (hnodes ?s)"
    using lists_memset_run [OF heap_invD(2) [OF inv] n own, of "\<lparr>prev = NULL, nxt = NULL\<rparr>"]
    by (simp add: open_run_def heap_memset_def cong: if_cong)
  have nH: "n < 2 ^ 31" using n(2) by (simp add: HEAP_PAGES_def)
  have oj: "\<forall>j<n. own (k + j) = None" using own by simp
  have apr: "apart_runs own ?big"
    unfolding apart_runs_def
  proof (intro conjI allI impI)
    fix k1 n1 assume b: "?big k1 = Some n1"
    have old: "0 < n1 \<and> n1 < 2 ^ 31 \<and> (\<forall>j<n1. own (k1 + j) = None)" if "big k1 = Some n1"
      using that heap_invD(4) [OF inv] unfolding apart_runs_def by blast
    show "0 < n1" "n1 < 2 ^ 31" using b n(1) nH old by (cases "k1 = k"; simp)+
    show "own (k1 + j) = None" if "j < n1" for j
      using b that oj old by (cases "k1 = k") simp_all
    have apD: "{k..<k + n} \<inter> {x..<x + y} = {}" if "big x = Some y" for x y
      using ap that unfolding apart_from_def by blast
    fix k2 n2 assume b2: "?big k2 = Some n2" and ne: "k1 \<noteq> k2"
    consider "k1 = k" "n1 = n" "big k2 = Some n2" | "k2 = k" "n2 = n" "big k1 = Some n1"
      | "big k1 = Some n1" "big k2 = Some n2"
      using b b2 ne by (metis fun_upd_apply option.inject)
    then show "{k1..<k1 + n1} \<inter> {k2..<k2 + n2} = {}"
    proof cases
      case 1 then show ?thesis using apD [of k2 n2] by simp
    next
      case 2 then show ?thesis using apD [of k1 n1] by (simp add: Int_commute)
    next
      case 3 then show ?thesis using heap_invD(4) [OF inv] ne unfolding apart_runs_def by blast
    qed
  qed
  show "heap_inv {} own ?big fl ?s"
  proof (rule heap_invI)
    fix k' i assume k': "own k' = Some i"
    have "k' \<noteq> k \<and> \<not> (k \<le> k' \<and> k' < k + n)" using own k' n(1) by force
    then show "arenas ?s (heap_page k') = arena_hdr (k_mem_block ?s) i (free_in fl i k')"
      using ar [OF heap_invD(11) [OF inv k']] heap_invD(6) [OF inv k'] f by simp
    show "backed (mm ?s) k'" using heap_invD(5) [OF inv k'] f by simp
    show "k' \<notin> {} \<Longrightarrow> free_in fl i k' < BPA i" using heap_invD(7) [OF inv k'] by simp
  next
    fix k' c assume b: "?big k' = Some c"
    show "arenas ?s (heap_page k') = big_hdr c"
    proof (cases "k' = k")
      case True
      then show ?thesis using ar [OF kH] b by simp
    next
      case False
      then have b': "big k' = Some c" using b by simp
      have "{k..<k + n} \<inter> {k'..<k' + c} = {}" using ap b' unfolding apart_from_def by blast
      moreover have "k' \<in> {k'..<k' + c}" using big_page(1) [OF inv b'] by simp
      ultimately have "k' \<notin> {k..<k + n}" by blast
      then show ?thesis using ar [OF big_page(3) [OF inv b']] heap_invD(9) [OF inv b'] False by simp
    qed
    fix l assume "l < c"
    then show "backed (mm ?s) (k' + l)"
      using b bk [of "k + l"] heap_invD(8) [OF inv, of k' c l] f by (auto split: if_splits)
  qed (use inv lists apr f in \<open>simp_all add: heap_inv_def descs_ok_def\<close>)
qed

lemma large_malloc_pages:
  assumes inv: "heap_inv {} own big fl s" and free: "descs_free s" and sz: "1024 < sz"
    and room: "room (mm s) (DIV_ROUND_UP (sz + ARENA_SIZE) PG_SIZE)"
    and n: "unat (DIV_ROUND_UP (sz + ARENA_SIZE) PG_SIZE) = n" "0 < n"
      "0 < sint (DIV_ROUND_UP (sz + ARENA_SIZE) PG_SIZE)"
  shows "\<exists>p s'. sys_malloc sz s = Inr (p, s') \<and>
    (p = NULL \<and> starved (mm s) (DIV_ROUND_UP (sz + ARENA_SIZE) PG_SIZE) \<and> heap_rep (live own big fl) s' \<and>
       hbytes s' = hbytes s \<or>
     heap_rep (insert (p, n * 4096 - 12) (live own big fl)) s' \<and>
     fresh_region (live own big fl) p (n * 4096 - 12) s s')"
proof -
  let ?cnt = "DIV_ROUND_UP (sz + ARENA_SIZE) PG_SIZE" and ?n = n and ?L = "live own big fl"
  note lp = n(1) n(1) n(2,3)
  have cnt: "?cnt = of_nat ?n" using of_nat_of_unat [OF lp(1)] by simp
  obtain a m' where a: "page_acquire K_P_POOL NULL ?cnt (mm s) = Inr (a, m')" "mm_ok m'"
      "\<And>l. backed (mm s) l \<Longrightarrow> backed m' l"
      "a = NULL \<and> starved (mm s) ?cnt \<or> (\<exists>k. a = heap_page k \<and> k + ?n \<le> HEAP_PAGES \<and> (\<forall>l. k \<le> l \<longrightarrow> l < k + ?n \<longrightarrow> \<not> backed (mm s) l \<and> backed m' l))"
    using page_get [OF heap_invD(1) [OF inv] lp(4) room] lp(1) by auto
  let ?s = "s\<lparr>mm := m'\<rparr>"
  have inv1: "heap_inv {} own big fl ?s"
    by (rule heap_inv_mm [OF inv a(2)]) (use used_backed [OF inv] a(3) in blast)
  show ?thesis
  proof (cases "a = NULL")
    case True
    then have "sys_malloc sz s = Inr (NULL, ?s)" using sz a(1) by (simp add: sys_malloc_def Let_def)
    moreover have "heap_rep ?L ?s" using inv1 free unfolding heap_rep_def descs_free_def by auto
    moreover have "starved (mm s) ?cnt"
    proof -
      have "heap_page k \<noteq> NULL" if "k + ?n \<le> HEAP_PAGES" for k using that lp(3) by (intro heap_page_not_null) simp
      then show ?thesis using True a(4) by metis
    qed
    ultimately show ?thesis by auto
  next
    case False
    then obtain k where k: "a = heap_page k" "k + ?n \<le> HEAP_PAGES"
        "\<And>l. k \<le> l \<Longrightarrow> l < k + ?n \<Longrightarrow> \<not> backed (mm s) l" "\<And>l. k \<le> l \<Longrightarrow> l < k + ?n \<Longrightarrow> backed m' l"
      using a(4) by blast
    have bk: "\<And>l. k \<le> l \<Longrightarrow> l < k + ?n \<Longrightarrow> backed (mm ?s) l" using k(4) by simp
    note o' = open_run_inv [OF inv1 lp(3) k(2) not_backed_fresh(1) [OF inv k(3)] not_backed_fresh(2) [OF inv k(3)] bk]
    let ?t = "open_run k ?n ?s" and ?p = "heap_page k + ARENA_SIZE"
    have run: "heap_inv {} own (big(k := Some ?n)) fl ?t" "big k = None" by (rule o'(1) o'(3); assumption)+
    have eq: "sys_malloc sz s = Inr (?p, ?t)"
      using sz a(1) False k(1) by (simp add: sys_malloc_def Let_def cnt open_run_def big_hdr_def)
    have L: "live own (big(k := Some ?n)) fl = insert (?p, ?n * 4096 - 12) ?L" by (rule live_big_insert [where big = big]) (rule run(2))
    have kf: "\<not> backed (mm s) k" using k(3) [of k] lp(3) by simp
    have new: "(?p, ?n * 4096 - 12) \<notin> ?L" by (rule big_page_of_live [OF inv kf lp(3) k(2)])
    have hb: "hbytes ?t q = (if in_range (heap_page k) (of_nat ?n * PG_SIZE) q then 0 else hbytes s q)" for q
    proof -
      have "hbytes ?t q = (if in_range (heap_page k) (of_nat ?n * PG_SIZE) q then 0 else hbytes ?s q)"
        by (rule o'(2); assumption)
      then show ?thesis by (simp cong: if_cong)
    qed
    have zero: "hbytes ?t q = 0" if "in_range ?p (of_nat (?n * 4096 - 12)) q" for q
    proof -
      have "in_range (heap_page k) (of_nat ?n * PG_SIZE) q"
        using that unfolding run_unat(3) [OF lp(3) k(2)] in_run [OF lp(3) k(2)] by simp
      then show ?thesis using hb by simp
    qed
    have keep: "hbytes ?t q = hbytes s q" if "(p', n') \<in> ?L" "in_range p' (of_nat n') q" for p' n' q
    proof -
      have "\<not> (k \<le> page_no q \<and> page_no q < k + ?n)"
        using used_backed [OF inv live_used [OF inv that]] k(3) by blast
      then have "\<not> in_range (heap_page k) (of_nat ?n * PG_SIZE) q"
        unfolding in_run [OF lp(3) k(2)] page_no_def by (simp add: less_eq_div_iff_mult_less_eq div_less_iff_less_mult) linarith
      then show ?thesis using hb by simp
    qed
    have "?p \<noteq> NULL" using run_unat(1) [OF lp(3) k(2)] by (auto simp: unat_eq_zero)
    moreover have "same_below s ?t" using hb in_run [OF lp(3) k(2)] by (simp add: same_below_def)
    ultimately have "fresh_region ?L ?p (?n * 4096 - 12) s ?t" using new zero keep unfolding fresh_region_def by blast
    moreover have "descs_free ?t" using free by (simp add: descs_free_def open_run_def)
    then have "heap_rep (insert (?p, ?n * 4096 - 12) ?L) ?t"
      using run(1) L unfolding heap_rep_def by metis
    ultimately show ?thesis using eq by blast
  qed
qed

lemma large_malloc:
  assumes inv: "heap_inv {} own big fl s" and free: "descs_free s" and sz: "1024 < sz"
    and rm: "malloc_room sz s"
  shows "\<exists>p s'. sys_malloc sz s = Inr (p, s') \<and> malloc_outcome sz (live own big fl) s p s'"
proof -
  have lim: "unat sz + 4107 < 2 ^ 32" and room: "room (mm s) (DIV_ROUND_UP (sz + ARENA_SIZE) PG_SIZE)"
    using rm sz by (simp_all add: malloc_room_def malloc_pages_def)
  note lp = large_pages [OF sz lim]
  have mp: "malloc_pages sz = DIV_ROUND_UP (sz + ARENA_SIZE) PG_SIZE" using sz by (simp add: malloc_pages_def)
  show ?thesis
    using large_malloc_pages [OF inv free sz room lp(1,3,4)] lp(2) unfolding malloc_outcome_def mp by blast
qed

lemma malloc_run:
  assumes "heap_rep L s" "malloc_room sz s"
  shows "\<exists>p s'. sys_malloc sz s = Inr (p, s') \<and> malloc_outcome sz L s p s'"
proof -
  obtain own big fl where r: "heap_inv {} own big fl s" "descs_free s" "L = live own big fl"
    using assms(1) unfolding heap_rep_def by blast
  show ?thesis
  proof (cases "sz \<le> 1024")
    case True
    then have "room (mm s) 1" using assms(2) by (simp add: malloc_room_def malloc_pages_def linorder_not_less [symmetric])
    then show ?thesis using small_malloc [OF r(1,2) True] r(3) by simp
  next
    case False
    then show ?thesis using large_malloc [OF r(1,2) _ assms(2)] r(3) by (simp add: not_le)
  qed
qed

lemma free_block:
  assumes inv: "heap_inv {} own big fl s" and free: "descs_free s"
    and k: "own k = Some i" "j < BPA i" and out: "blk i k j \<notin> set (fl i)"
  shows "if last_block (blk i k j) s \<and> \<not> lingers s then sys_free (blk i k j) s = Inl Page_fault
    else \<exists>s'. sys_free (blk i k j) s = Inr s' \<and> heap_rep (live own big fl - {(blk i k j, BS i)}) s' \<and> hbytes s' = hbytes s"
proof -
  note ik = heap_invD(10,11) [OF inv k(1)]
  let ?d = "dsc (k_mem_block s) i" and ?b = "blk i k j"
  let ?s = "set_d_mlock ?d (cur_task (mm s)) s"
  note pg = block2arena_blk [OF ik k(2)]
  have hdr: "arenas s (heap_page k) = arena_hdr (k_mem_block s) i (free_in fl i k)" by (rule heap_invD(6) [OF inv k(1)])
  have fr: "d_mlock (descs s ?d) = NULL" using free ik(1) by (simp add: descs_free_def)
  have inv1: "heap_inv {} own big fl ?s" using inv by simp
  obtain s1 own' fl' where r: "mem_release K_P_POOL ?b ?s = Inr s1" "k_mem_block s1 = k_mem_block s"
      "descs s1 = descs ?s" "hbytes s1 = hbytes s" "heap_inv {} own' big fl' s1"
      "live own' big fl' = live own big fl - {(?b, BS i)}"
    using mem_release_inv [OF inv1 k out] by auto
  have np: "\<not> is_page_cnt (arenas ?s (block2arena ?b))" using hdr by (simp add: pg arena_hdr_def)
  note h = mem_release_header [OF r(1) np]
  have lb: "last_block ?b ?s = last_block ?b s" by (simp add: last_block_def)
  have w: "walk (kmmu (mm s1)) (heap_page k) = None \<longleftrightarrow> last_block ?b s"
  proof (cases "last_block ?b s")
    case True
    then have "page_release K_P_POOL (heap_page k) (of_nat 1) (mm s) = Inr (mm s1)" using h(3) lb by (simp add: pg)
    moreover obtain m' where "page_release K_P_POOL (heap_page k) (of_nat 1) (mm s) = Inr m'" "mapping m' k = None"
      using page_give [OF heap_invD(1) [OF inv], of 1 k] heap_invD(5) [OF inv k(1)] by auto
    ultimately show ?thesis using True by (simp add: mapping_def)
  next
    case False
    then have "mm s1 = mm s" using h(3) lb by simp
    then show ?thesis using False heap_invD(5) [OF inv k(1)] by (auto simp: backed_def mapping_def)
  qed
  let ?t = "set_d_mlock ?d NULL s1"
  have eq: "sys_free ?b s = (if last_block ?b s \<and> \<not> lingers s then Inl Page_fault else Inr ?t)"
    using hdr fr r(1) w h(1,2) by (simp add: sys_free_def Let_def arena_hdr_def pg lingers_simps)
  have df: "descs_free ?t" using free by (simp add: descs_free_def r(2,3))
  have "heap_inv {} own' big fl' ?t" using r(5) by simp
  then have "heap_rep (live own big fl - {(?b, BS i)}) ?t" using r(6) df unfolding heap_rep_def by metis
  then show ?thesis using eq r(4) by auto
qed

lemma block2arena_run: "k < HEAP_PAGES \<Longrightarrow> block2arena (heap_page k + ARENA_SIZE) = heap_page k"
proof -
  assume k: "k < HEAP_PAGES"
  have "unat (heap_page k + ARENA_SIZE) = (0xC0100 + k) * 4096 + 12"
    using run_unat(1) [of 1 k] k by simp
  then have "unat (page_of (heap_page k + ARENA_SIZE)) = unat (heap_page k)"
    by (simp add: page_of_unat heap_page_unat [OF k])
  then show ?thesis unfolding block2arena_page by (rule unsigned_word_eqI)
qed

lemma free_run:
  assumes inv: "heap_inv {} own big fl s" and free: "descs_free s" and b: "big k = Some n"
  shows "\<exists>s'. sys_free (heap_page k + ARENA_SIZE) s = Inr s' \<and>
    heap_rep (live own big fl - {(heap_page k + ARENA_SIZE, n * 4096 - 12)}) s' \<and> hbytes s' = hbytes s"
proof -
  note bp = big_page [OF inv b]
  let ?p = "heap_page k + ARENA_SIZE" and ?big = "big(k := None)"
  obtain m' where m': "page_release K_P_POOL (heap_page k) (of_nat n) (mm s) = Inr m'" "mm_ok m'"
      "\<And>l. backed (mm s) l \<Longrightarrow> \<not> (k \<le> l \<and> l < k + n) \<Longrightarrow> backed m' l"
    using page_give [OF heap_invD(1) [OF inv] bp(1,2) heap_invD(8) [OF inv b]] by blast
  let ?t = "s\<lparr>mm := m'\<rparr>"
  have eq: "sys_free ?p s = Inr ?t"
    using m'(1) heap_invD(9) [OF inv b] by (simp add: sys_free_def Let_def block2arena_run [OF bp(3)] big_hdr_def)
  have ap: "apart_runs own big" by (rule heap_invD(4) [OF inv])
  have inv': "heap_inv {} own ?big fl s"
  proof (rule heap_invI)
    show "apart_runs own ?big" using ap unfolding apart_runs_def fun_upd_apply by (metis option.distinct(1))
    fix k' n' assume "?big k' = Some n'"
    then have b': "big k' = Some n'" by (simp split: if_splits)
    show "arenas s (heap_page k') = big_hdr n'" by (rule heap_invD(9) [OF inv b'])
    show "backed (mm s) (k' + j)" if "j < n'" for j by (rule heap_invD(8) [OF inv b' that])
  qed (use inv in \<open>simp_all add: heap_inv_def\<close>)
  have "heap_inv {} own ?big fl ?t"
  proof (rule heap_inv_mm [OF inv' m'(2)])
    fix l assume l: "used own ?big l"
    have "\<not> (k \<le> l \<and> l < k + n)"
    proof
      assume in_k: "k \<le> l \<and> l < k + n"
      then have "own (k + (l - k)) = None"
        using ap b unfolding apart_runs_def by (metis less_diff_conv2 add.commute)
      then have "own l = None" using in_k by simp
      then obtain k' n' where k': "?big k' = Some n'" "k' \<le> l" "l < k' + n'" using l unfolding used_def by blast
      then have "k' \<noteq> k" "big k' = Some n'" by (auto split: if_splits)
      then have "{k..<k + n} \<inter> {k'..<k' + n'} = {}" using ap b unfolding apart_runs_def by metis
      moreover have "l \<in> {k..<k + n} \<inter> {k'..<k' + n'}" using k' in_k by simp
      ultimately show False by blast
    qed
    then show "backed m' l" using m'(3) used_backed [OF inv' l] by blast
  qed
  moreover have "live own ?big fl = live own big fl - {(?p, n * 4096 - 12)}"
  proof -
    have "live own (?big(k := Some n)) fl = insert (?p, n * 4096 - 12) (live own ?big fl)"
      by (rule live_big_insert) simp
    moreover have "?big(k := Some n) = big" using b by auto
    moreover have "(?p, n * 4096 - 12) \<notin> live own ?big fl"
    proof
      let ?q = "?p"
      assume l: "(?p, n * 4096 - 12) \<in> live own ?big fl"
      have u: "unat ?p = 0xC0100000 + k * 4096 + 12" by (rule run_unat(1) [OF bp(1,5)])
      have "in_range ?p (of_nat (n * 4096 - 12)) ?p"
        unfolding run_unat(3) [OF bp(1,5)] u using bp(1) by (simp add: add_mult_distrib)
      then have "used own ?big (page_no ?p)" by (rule live_used [OF inv' l])
      moreover have "page_no ?p = k" by (rule page_noI) (simp_all add: u)
      ultimately obtain k' n' where k': "?big k' = Some n'" "k' \<le> k" "k < k' + n'"
        using bp(4) unfolding used_def by auto
      then have "k' \<noteq> k" "big k' = Some n'" by (auto split: if_splits)
      then have "{k..<k + n} \<inter> {k'..<k' + n'} = {}" using ap b unfolding apart_runs_def by metis
      moreover have "k \<in> {k..<k + n} \<inter> {k'..<k' + n'}" using k' bp(1) by simp
      ultimately show False by blast
    qed
    ultimately show ?thesis by simp
  qed
  moreover have "descs_free ?t" using free by (simp add: descs_free_def)
  ultimately show ?thesis using eq unfolding heap_rep_def by (intro exI [of _ ?t]) (simp, metis)
qed

lemma free_outcome:
  assumes "heap_rep L s" "(p, n) \<in> L"
  shows "if last_block p s \<and> \<not> lingers s then sys_free p s = Inl Page_fault
    else \<exists>s'. sys_free p s = Inr s' \<and> heap_rep (L - {(p, n)}) s' \<and> hbytes s' = hbytes s"
proof -
  obtain own big fl where r: "heap_inv {} own big fl s" "descs_free s" "L = live own big fl"
    using assms(1) unfolding heap_rep_def by blast
  have "(p, n) \<in> live own big fl" using assms(2) r(3) by simp
  then show ?thesis
  proof (cases rule: liveE)
    case (block i k j)
    then show ?thesis using r(3) free_block [OF r(1,2)] by auto
  next
    case (run k c)
    have "\<not> last_block p s"
      using heap_invD(9) [OF r(1) run(3)] big_page(3) [OF r(1) run(3)]
      by (simp add: run(1) last_block_def Let_def block2arena_run big_hdr_def)
    then show ?thesis using r run free_run [OF r(1,2) run(3)] by simp
  qed
qed

lemma free_live:
  assumes "heap_rep L s" "(p, n) \<in> L" "lingers s"
  shows "\<exists>s'. sys_free p s = Inr s' \<and> heap_rep (L - {(p, n)}) s' \<and> hbytes s' = hbytes s"
  using free_outcome [OF assms(1,2)] assms(3) by simp

lemma rep_disjoint:
  assumes "heap_rep L s" "(p, n) \<in> L" "(p', n') \<in> L" "in_range p (of_nat n) q" "in_range p' (of_nat n') q"
  shows "p = p' \<and> n = n'"
  using assms live_disjoint unfolding heap_rep_def by blast

section \<open>The allocator contract\<close>

text \<open>
  \<open>rep L s\<close>: the live regions of \<open>s\<close> are \<open>L\<close>, each a start and a size. What a client of
  \<open>sys_malloc\<close> and \<open>sys_free\<close> may rely on; releases run through in a \<open>steady\<close> state.
\<close>

locale allocator =
  fixes rep :: "(ptr \<times> nat) set \<Rightarrow> 'h \<Rightarrow> bool"
    and malloc :: "u32 \<Rightarrow> 'h \<Rightarrow> stop + ptr \<times> 'h"
    and release :: "ptr \<Rightarrow> 'h \<Rightarrow> stop + 'h"
    and byte :: "'h \<Rightarrow> ptr \<Rightarrow> u8"
    and avail :: "u32 \<Rightarrow> 'h \<Rightarrow> bool"
    and exhausted :: "u32 \<Rightarrow> 'h \<Rightarrow> bool"
    and steady :: "'h \<Rightarrow> bool"
  assumes malloc: "rep L s \<Longrightarrow> avail sz s \<Longrightarrow> \<exists>p s'. malloc sz s = Inr (p, s') \<and>
      (p = NULL \<and> exhausted sz s \<and> rep L s' \<and> byte s' = byte s \<or>
       (\<exists>n. unat sz \<le> n \<and> p \<noteq> NULL \<and> (p, n) \<notin> L \<and> rep (insert (p, n) L) s' \<and>
          (\<forall>q. in_range p (of_nat n) q \<longrightarrow> byte s' q = 0) \<and>
          (\<forall>(p', n')\<in>L. \<forall>q. in_range p' (of_nat n') q \<longrightarrow> byte s' q = byte s q)))"
    and release: "rep L s \<Longrightarrow> (p, n) \<in> L \<Longrightarrow> steady s \<Longrightarrow>
      \<exists>s'. release p s = Inr s' \<and> rep (L - {(p, n)}) s' \<and> byte s' = byte s"
    and returned: "rep L s \<Longrightarrow> (p, n) \<in> L \<Longrightarrow> release p s = Inr s' \<Longrightarrow> rep (L - {(p, n)}) s' \<and> byte s' = byte s"
    and steady_malloc: "malloc sz s = Inr (p, s') \<Longrightarrow> steady s' = steady s"
    and steady_release: "release p s = Inr s' \<Longrightarrow> steady s' = steady s"
    and disjoint: "rep L s \<Longrightarrow> (p, n) \<in> L \<Longrightarrow> (p', n') \<in> L \<Longrightarrow>
      in_range p (of_nat n) q \<Longrightarrow> in_range p' (of_nat n') q \<Longrightarrow> p = p' \<and> n = n'"
    and sizes: "rep L s \<Longrightarrow> (p, n) \<in> L \<Longrightarrow> 0 < n \<and> n < 2 ^ 32"

text \<open>A client's ledger: what it asked for and has not given back.\<close>

definition covers :: "(ptr \<times> nat) set \<Rightarrow> (ptr \<times> nat) set \<Rightarrow> bool" where
  "covers L D \<longleftrightarrow> (\<forall>p m. (p, m) \<in> D \<longrightarrow> (\<exists>n\<ge>m. (p, n) \<in> L)) \<and>
     (\<forall>p m m'. (p, m) \<in> D \<longrightarrow> (p, m') \<in> D \<longrightarrow> m = m')"

lemma coversD:
  "covers L D \<Longrightarrow> (p, m) \<in> D \<Longrightarrow> \<exists>n\<ge>m. (p, n) \<in> L"
  "covers L D \<Longrightarrow> (p, m) \<in> D \<Longrightarrow> (p, m') \<in> D \<Longrightarrow> m = m'"
  unfolding covers_def by blast+

lemma covers_insert:
  assumes "covers L D" "m \<le> n" "\<And>m'. (p, m') \<notin> D"
  shows "covers (insert (p, n) L) (insert (p, m) D)"
  unfolding covers_def
proof (intro conjI allI impI)
  fix p' m' assume "(p', m') \<in> insert (p, m) D"
  then show "\<exists>n'\<ge>m'. (p', n') \<in> insert (p, n) L"
    using assms(2) coversD(1) [OF assms(1)] by blast
qed (use assms(3) coversD(2) [OF assms(1)] in blast)

lemma covers_delete:
  assumes "covers L D" "(p, m) \<in> D"
  shows "covers (L - {(p, n)}) (D - {(p, m)})"
  unfolding covers_def
proof (intro conjI allI impI)
  fix p' m' assume d: "(p', m') \<in> D - {(p, m)}"
  then have "p' \<noteq> p" using coversD(2) [OF assms(1), of p m' m] assms(2) by auto
  then show "\<exists>n'\<ge>m'. (p', n') \<in> L - {(p, n)}" using d coversD(1) [OF assms(1), of p' m'] by blast
qed (use coversD(2) [OF assms(1)] in blast)

lemma in_range_mono:
  assumes "m \<le> n" "n < 2 ^ 32" "in_range p (of_nat m) q"
  shows "in_range p (of_nat n) q"
  using assms by (simp add: in_range_def u32_less_of_nat)

context allocator
begin

lemma start_unique: "rep L s \<Longrightarrow> (p, n) \<in> L \<Longrightarrow> (p, n') \<in> L \<Longrightarrow> n = n'"
  using disjoint [of L s p n p n' p] sizes [of L s p n] sizes [of L s p n']
  by (simp add: in_range_def u32_less_of_nat)

text \<open>What is allocated and released at once leaves the others as they were.\<close>

lemma malloc_release:
  assumes "rep L s" "avail sz s" "malloc sz s = Inr (p, s')" "p \<noteq> NULL" "steady s"
  shows "\<exists>s''. release p s' = Inr s'' \<and> rep L s''"
proof -
  obtain n where n: "(p, n) \<notin> L" "rep (insert (p, n) L) s'" using malloc [OF assms(1,2)] assms(3,4) by auto
  then obtain s'' where "release p s' = Inr s''" "rep (insert (p, n) L - {(p, n)}) s''"
    using release [OF n(2), of p n] steady_malloc [OF assms(3)] assms(5) by auto
  then show ?thesis using n(1) by simp
qed

lemma ledger_malloc:
  assumes "rep L s" "covers L D" "avail sz s" "malloc sz s = Inr (p, s')"
  shows "if p = NULL then rep L s' else \<exists>L'. rep L' s' \<and> covers L' (insert (p, unat sz) D)"
proof (cases "p = NULL")
  case False
  then obtain n where n: "unat sz \<le> n" "(p, n) \<notin> L" "rep (insert (p, n) L) s'"
    using malloc [OF assms(1,3)] assms(4) by auto
  have "(p, m) \<notin> D" for m
  proof
    assume "(p, m) \<in> D"
    then obtain n' where "(p, n') \<in> L" using coversD(1) [OF assms(2)] by blast
    then show False using start_unique [OF n(3), of p n n'] n(2) by auto
  qed
  then have "covers (insert (p, n) L) (insert (p, unat sz) D)"
    by (intro covers_insert assms(2) n(1))
  then show ?thesis using n(3) False by auto
qed (use malloc [OF assms(1,3)] assms(4) in auto)

lemma ledger_release:
  assumes "rep L s" "covers L D" "(p, m) \<in> D" "steady s"
  shows "\<exists>s'. release p s = Inr s'"
  using coversD(1) [OF assms(2,3)] release [OF assms(1) _ assms(4)] by blast

lemma ledger_returned:
  assumes "rep L s" "covers L D" "(p, m) \<in> D" "release p s = Inr s'"
  shows "\<exists>L'. rep L' s' \<and> covers L' (D - {(p, m)})"
proof -
  obtain n where n: "(p, n) \<in> L" using coversD(1) [OF assms(2,3)] by blast
  then show ?thesis using returned [OF assms(1) n assms(4)] covers_delete [OF assms(2,3)] by blast
qed

lemma ledger_disjoint:
  assumes "rep L s" "covers L D" "(p, m) \<in> D" "(p', m') \<in> D"
    and "in_range p (of_nat m) q" "in_range p' (of_nat m') q"
  shows "p = p' \<and> m = m'"
proof -
  obtain n n' where n: "m \<le> n" "(p, n) \<in> L" "m' \<le> n'" "(p', n') \<in> L"
    using coversD(1) [OF assms(2)] assms(3,4) by blast
  have "in_range p (of_nat n) q" "in_range p' (of_nat n') q"
    using in_range_mono [OF n(1) _ assms(5)] in_range_mono [OF n(3) _ assms(6)] sizes [OF assms(1)] n by blast+
  then have "p = p'" using disjoint [OF assms(1) n(2,4)] by blast
  then show ?thesis using coversD(2) [OF assms(2)] assms(3,4) by blast
qed

end

lemma live_sizes:
  assumes "heap_rep L s" "(p, n) \<in> L"
  shows "0 < n \<and> n < 2 ^ 32"
proof -
  obtain own big fl where r: "heap_inv {} own big fl s" "L = live own big fl"
    using assms(1) unfolding heap_rep_def by blast
  have "(p, n) \<in> live own big fl" using assms(2) r(2) by simp
  then show ?thesis
  proof (cases rule: liveE)
    case (block i k j)
    then show ?thesis using BS_BPA(1,2) [OF heap_invD(10) [OF r(1) block(3)]] by simp
  next
    case (run k c)
    then show ?thesis using big_page(1,5) [OF r(1) run(3)] by (simp add: HEAP_PAGES_def)
  qed
qed

definition malloc_starved :: "u32 \<Rightarrow> heap_state \<Rightarrow> bool" where
  "malloc_starved sz s \<longleftrightarrow> starved (mm s) (malloc_pages sz)"

interpretation heap: allocator heap_rep sys_malloc sys_free hbytes malloc_room malloc_starved lingers
proof unfold_locales
  fix L s sz assume "heap_rep L s" "malloc_room sz s"
  then obtain p s' where eq: "sys_malloc sz s = Inr (p, s')" and o: "malloc_outcome sz L s p s'"
    using malloc_run by blast
  have "p = NULL \<and> malloc_starved sz s \<and> heap_rep L s' \<and> hbytes s' = hbytes s \<or>
      (\<exists>n. unat sz \<le> n \<and> heap_rep (insert (p, n) L) s' \<and> fresh_region L p n s s')"
    using o unfolding malloc_outcome_def malloc_starved_def .
  then show "\<exists>p s'. sys_malloc sz s = Inr (p, s') \<and>
      (p = NULL \<and> malloc_starved sz s \<and> heap_rep L s' \<and> hbytes s' = hbytes s \<or>
       (\<exists>n. unat sz \<le> n \<and> p \<noteq> NULL \<and> (p, n) \<notin> L \<and> heap_rep (insert (p, n) L) s' \<and>
          (\<forall>q. in_range p (of_nat n) q \<longrightarrow> hbytes s' q = 0) \<and>
          (\<forall>(p', n')\<in>L. \<forall>q. in_range p' (of_nat n') q \<longrightarrow> hbytes s' q = hbytes s q)))"
    using eq unfolding fresh_region_def by blast
next
  fix L s p n s' assume "heap_rep L s" "(p, n) \<in> L" "sys_free p s = Inr s'"
  then show "heap_rep (L - {(p, n)}) s' \<and> hbytes s' = hbytes s"
    using free_outcome [of L s p n] by (auto split: if_splits)
qed (fact free_live rep_disjoint live_sizes sys_malloc_lingers(1) sys_free_lingers)+

section \<open>Clients of the heap\<close>

text \<open>
  A client allocates, releases what it holds, and writes into what it holds. \<open>D\<close> is its ledger: the
  pointers it got and the sizes it asked for.
\<close>

inductive heap_client :: "heap_state \<Rightarrow> (ptr \<times> nat) set \<Rightarrow> heap_state \<Rightarrow> bool" for s0 where
  start: "heap_client s0 {} s0"
| got: "heap_client s0 D s \<Longrightarrow> malloc_room sz s \<Longrightarrow> sys_malloc sz s = Inr (p, s') \<Longrightarrow> p \<noteq> NULL \<Longrightarrow>
    heap_client s0 (insert (p, unat sz) D) s'"
| none: "heap_client s0 D s \<Longrightarrow> malloc_room sz s \<Longrightarrow> sys_malloc sz s = Inr (NULL, s') \<Longrightarrow> heap_client s0 D s'"
| free: "heap_client s0 D s \<Longrightarrow> (p, m) \<in> D \<Longrightarrow> sys_free p s = Inr s' \<Longrightarrow> heap_client s0 (D - {(p, m)}) s'"
| store: "heap_client s0 D s \<Longrightarrow> (p, m) \<in> D \<Longrightarrow> in_range p (of_nat m) q \<Longrightarrow>
    heap_client s0 D (s\<lparr>hbytes := (hbytes s)(q := b)\<rparr>)"

lemma heap_rep_bytes: "heap_rep L s \<Longrightarrow> heap_rep L (s\<lparr>hbytes := h\<rparr>)"
  by (simp add: heap_rep_def heap_inv_def descs_ok_def descs_free_def)

lemma client_ledger: "heap_client s0 D s \<Longrightarrow> heap_rep {} s0 \<Longrightarrow> \<exists>L. heap_rep L s \<and> covers L D"
proof (induction rule: heap_client.induct)
  case (got D s sz p s')
  then show ?case using heap.ledger_malloc by metis
next
  case (none D s sz s')
  then show ?case using heap.ledger_malloc by metis
next
  case (free D s p m s')
  then show ?case using heap.ledger_returned by metis
next
  case (store D s p m q b)
  then show ?case using heap_rep_bytes by blast
qed (auto simp: covers_def)

lemma client_steady: "heap_client s0 D s \<Longrightarrow> lingers s = lingers s0"
  by (induction rule: heap_client.induct) (simp_all add: sys_malloc_lingers(1) sys_free_lingers)

text \<open>The bytes of the live regions reach physical bytes of their own through the page tables.\<close>

lemma live_high:
  assumes "heap_rep L s" and "(p, n) \<in> L" and "in_range p (of_nat n) q"
  shows "0xC0100000 \<le> unat q"
proof -
  obtain own big fl where inv: "heap_inv {} own big fl s" and L: "L = live own big fl"
    using assms(1) unfolding heap_rep_def by blast
  have l: "(p, n) \<in> live own big fl" using assms(2) L by simp
  from l show ?thesis
  proof (cases rule: liveE)
    case (block i k j)
    have lt: "i < 7" "k < HEAP_PAGES" using heap_invD(10,11) [OF inv block(3)] .
    show ?thesis using assms(3) in_block [OF lt block(4)] blk_unat [OF lt block(4)] unfolding block(1,2) by simp
  next
    case (run k c)
    note bp = big_page [OF inv run(3)]
    show ?thesis using assms(3) run_unat(3) [OF bp(1,5)] unfolding run(1,2) by simp
  qed
qed

lemma word_parts: "page_of q = page_of q' \<Longrightarrow> page_offset q = page_offset q' \<Longrightarrow> q = q'"
proof (rule bit_word_eqI)
  fix n assume "page_of q = page_of q'" "page_offset q = page_offset q'"
  then have "bit (page_of q) n = bit (page_of q') n" "bit (page_offset q) n = bit (page_offset q') n" by simp_all
  then show "bit q n = bit q' n" unfolding bit_page_of bit_page_offset by linarith
qed

lemma frame_parts:
  assumes "page_of f = f"
  shows "page_of (f + page_offset q) = f" "page_offset (f + page_offset q) = page_offset q"
proof -
  have b: "bit f n \<Longrightarrow> 12 \<le> n" for n using bit_page_of [of f n] assms by simp
  have e: "f + page_offset q = f OR page_offset q"
    by (rule disjunctive_add) (auto simp: bit_page_offset dest!: b)
  show "page_of (f + page_offset q) = f" "page_offset (f + page_offset q) = page_offset q"
    unfolding e by (rule bit_word_eqI; auto simp: bit_page_of bit_page_offset bit_or_iff dest: b)+
qed

lemma walk_page: "walk u (page_of q) = Some f \<Longrightarrow> page_of f = f \<Longrightarrow> walk u q = Some (f + page_offset q)"
proof -
  assume w: "walk u (page_of q) = Some f" "page_of f = f"
  have "drop_bit 22 (page_of q) = drop_bit 22 q" "drop_bit 12 (page_of q) AND 0x3ff = drop_bit 12 q AND 0x3ff"
    unfolding mask_numerals by (rule bit_word_eqI; simp add: bit_simps bit_page_of)+
  then have e: "pde_paddr u (page_of q) = pde_paddr u q" "pte_paddr u (page_of q) = pte_paddr u q"
    by (simp_all add: pde_paddr_def pte_paddr_def)
  have "page_offset (page_of q) = 0" by (rule bit_word_eqI) (auto simp: bit_page_offset bit_page_of)
  then show ?thesis using w by (auto simp: walk_def e split: if_splits)
qed

lemma page_split:
  assumes "0xC0100000 \<le> unat q" and "page_no q < HEAP_PAGES"
  shows "page_of q = heap_page (page_no q)"
proof (rule unsigned_word_eqI)
  obtain r where r: "unat q = 0xC0100000 + r" using assms(1) le_Suc_ex by blast
  show "unat (page_of q) = unat (heap_page (page_no q))"
    using heap_page_unat [OF assms(2)] r div_mult_self1 [of 4096 r "0xC0100"] by (simp add: page_of_unat page_no_def add.commute)
qed

lemma live_walk:
  assumes rep: "heap_rep L s" and p: "(p, n) \<in> L" and q: "in_range p (of_nat n) q"
  obtains f where "f < kcap (mm s)" and "page_no q < HEAP_PAGES" and "mapping (mm s) (page_no q) = Some (kframe (mm s) f)"
    and "page_of q = heap_page (page_no q)" and "walk (kmmu (mm s)) q = Some (kframe (mm s) f + page_offset q)"
proof -
  obtain own big fl where inv: "heap_inv {} own big fl s" and L: "L = live own big fl"
    using rep unfolding heap_rep_def by blast
  have "backed (mm s) (page_no q)"
    by (rule used_backed [OF inv live_used [OF inv p [unfolded L] q]])
  then obtain f where f: "f < kcap (mm s)" "page_no q < HEAP_PAGES" "mapping (mm s) (page_no q) = Some (kframe (mm s) f)"
    by (auto simp: backed_def)
  have pg: "page_of q = heap_page (page_no q)" by (rule page_split [OF live_high [OF rep p q] f(2)])
  have "walk (kmmu (mm s)) q = Some (kframe (mm s) f + page_offset q)"
    by (rule walk_page) (use f(3) pg kframe_aligned [OF mm_okD(1) [OF heap_invD(1) [OF inv]] f(1)] in \<open>simp_all add: mapping_def\<close>)
  then show thesis using that f pg by blast
qed

lemma live_frames:
  assumes rep: "heap_rep L s" and p: "(p, n) \<in> L" "(p', n') \<in> L" and q: "in_range p (of_nat n) q" "in_range p' (of_nat n') q'"
    and ne: "q \<noteq> q'"
  shows "walk (kmmu (mm s)) q \<noteq> walk (kmmu (mm s)) q'"
proof
  assume eq: "walk (kmmu (mm s)) q = walk (kmmu (mm s)) q'"
  have ok: "mm_ok (mm s)" using rep by (auto simp: heap_rep_def dest: heap_invD(1))
  obtain f where f: "f < kcap (mm s)" "page_no q < HEAP_PAGES" "mapping (mm s) (page_no q) = Some (kframe (mm s) f)"
      "page_of q = heap_page (page_no q)" "walk (kmmu (mm s)) q = Some (kframe (mm s) f + page_offset q)"
    by (rule live_walk [OF rep p(1) q(1)])
  obtain f' where f': "f' < kcap (mm s)" "page_no q' < HEAP_PAGES" "mapping (mm s) (page_no q') = Some (kframe (mm s) f')"
      "page_of q' = heap_page (page_no q')" "walk (kmmu (mm s)) q' = Some (kframe (mm s) f' + page_offset q')"
    by (rule live_walk [OF rep p(2) q(2)])
  note al = kframe_aligned [OF mm_okD(1) [OF ok]]
  have "kframe (mm s) f + page_offset q = kframe (mm s) f' + page_offset q'" using eq f(5) f'(5) by simp
  then have k: "kframe (mm s) f = kframe (mm s) f'" "page_offset q = page_offset q'"
    using frame_parts [OF al [OF f(1)], of q] frame_parts [OF al [OF f'(1)], of q'] by metis+
  then have "page_no q = page_no q'" using mm_okD(4) [OF ok f(2) f'(2) f(1)] f(3) f'(3) by simp
  then show False using ne word_parts k(2) f(4) f'(4) by metis
qed

section \<open>The heap at boot\<close>

definition descs_upto :: "nat \<Rightarrow> heap_state \<Rightarrow> bool" where
  "descs_upto n s \<longleftrightarrow> (\<forall>i<n. descs s (dsc (k_mem_block s) i) =
       \<lparr>block_size = of_nat (BS i), blocks_per_arena = of_nat (BPA i), d_mlock = NULL\<rparr> \<and>
     dlist (hnodes s) (flist (k_mem_block s) i) [])"

lemma BPA_word: "i < 7 \<Longrightarrow> (PG_SIZE - ARENA_SIZE) div of_nat (BS i) = of_nat (BPA i)"
proof (rule unsigned_word_eqI)
  assume i: "i < 7"
  have "unat ((PG_SIZE - ARENA_SIZE) div of_nat (BS i) :: u32) = 4084 div BS i"
    using BS_BPA(2) [OF i] by (simp add: unat_div unat_of_nat_less PG_SIZE_def ARENA_SIZE_def)
  moreover have "unat (of_nat (BPA i) :: u32) = BPA i"
    using BS_BPA(5) [OF i] by (simp add: unat_of_nat_less)
  ultimately show "unat ((PG_SIZE - ARENA_SIZE) div of_nat (BS i) :: u32) = unat (of_nat (BPA i) :: u32)"
    by (simp add: BPA_def)
qed

lemma mem_block_init_loop_ok:
  "low (k_mem_block s) \<Longrightarrow> descs_upto idx s \<Longrightarrow> idx + n = 7 \<Longrightarrow> w = of_nat (BS idx) \<Longrightarrow>
   \<exists>s'. mem_block_init_loop n (of_nat idx) w s = s' \<and> descs_upto 7 s' \<and> mm s' = mm s \<and>
     k_mem_block s' = k_mem_block s"
proof (induction n arbitrary: idx w s)
  case (Suc n)
  let ?m = "k_mem_block s"
  let ?d = "dsc ?m idx"
  let ?s = "s\<lparr>descs := (descs s)(?d := \<lparr>block_size = w, blocks_per_arena = (PG_SIZE - ARENA_SIZE) div w, d_mlock = NULL\<rparr>),
    hnodes := list_init (hnodes s) (flist ?m idx)\<rparr>"
  have idx: "idx < 7" using Suc.prems(3) by simp
  have "descs_upto (Suc idx) ?s"
    unfolding descs_upto_def
  proof (intro allI impI)
    fix i assume "i < Suc idx"
    then consider "i = idx" | "i < idx" by linarith
    then show "descs ?s (dsc (k_mem_block ?s) i) =
        \<lparr>block_size = of_nat (BS i), blocks_per_arena = of_nat (BPA i), d_mlock = NULL\<rparr> \<and>
        dlist (hnodes ?s) (flist (k_mem_block ?s) i) []"
    proof cases
      case 1
      then show ?thesis by (simp add: BPA_word [OF idx] Suc.prems(4) list_init_dlist)
    next
      case 2
      have i7: "i < 7" using 2 idx by simp
      have "fends ?m i \<inter> fends ?m idx = {}" using fends_disjoint [OF Suc.prems(1) i7 idx] 2 by simp
      then have "dlist (list_init (hnodes s) (flist ?m idx)) (flist ?m i) []"
        using Suc.prems(2) 2 list_init_other unfolding descs_upto_def fends_def
        by (subst dlist_cong [where h = "hnodes s"]) auto
      then show ?thesis
        using Suc.prems(2) 2 dsc_inj [OF Suc.prems(1) i7 idx] unfolding descs_upto_def by simp
    qed
  qed
  moreover have "w * 2 = of_nat (BS (Suc idx))" unfolding Suc.prems(4) by (simp add: BS_def)
  ultimately show ?case
    using Suc.IH [of ?s "Suc idx" "w * 2"] Suc.prems
    by (simp add: Let_def dsc_def flist_def add.commute)
qed auto

lemma mem_init_rep:
  assumes low: "low (k_mem_block s)" and tot: "0x200000 \<le> load32 (kmem (mm s)) MEM_SIZE_ADDR"
    and tables: "kmmu (mm s) = boot_mmu"
  shows "heap_rep {} (mem_init s)"
    and "mm (mem_init s) = mm_boot (load32 (kmem (mm s)) MEM_SIZE_ADDR) (kmem (mm s)) (cur_task (mm s)) (arg_slot (mm s))"
proof -
  let ?tot = "load32 (kmem (mm s)) MEM_SIZE_ADDR"
  obtain kp up vp m where pi: "pool_init ?tot (kmem (mm s)) = (kp, up, vp, m)" using prod_cases4 by blast
  let ?s1 = "s\<lparr>mm := (mm s)\<lparr>kmem := m, k_p_pool := kp, u_p_pool := up, k_v_pool := vp\<rparr>\<rparr>"
  have "\<exists>s2. mem_block_init_loop 7 (of_nat 0) 16 ?s1 = s2 \<and> descs_upto 7 s2 \<and> mm s2 = mm ?s1 \<and>
      k_mem_block s2 = k_mem_block ?s1"
    by (rule mem_block_init_loop_ok) (simp_all add: low descs_upto_def BS_def)
  then obtain s2 where "mem_block_init_loop 7 0 16 ?s1 = s2" and s2': "descs_upto 7 s2" "mm s2 = mm ?s1"
      "k_mem_block s2 = k_mem_block s" by auto
  then have s2: "mem_block_init ?s1 = s2" "descs_upto 7 s2" "mm s2 = mm ?s1" "k_mem_block s2 = k_mem_block s"
    by (simp_all only: mem_block_init_def MEM_BLOCK_CNT_def)
  let ?t = "s2\<lparr>mm := (mm s2)\<lparr>mlock_pgtable := NULL\<rparr>\<rparr>"
  have eq: "mem_init s = ?t" using s2(1) by (simp add: mem_init_def pi)
  have mmt: "mm ?t = mm_boot ?tot (kmem (mm s)) (cur_task (mm s)) (arg_slot (mm s))"
    using tables by (simp add: s2(3) mm_boot_def pi)
  have d: "descs s2 (dsc (k_mem_block s) i) =
      \<lparr>block_size = of_nat (BS i), blocks_per_arena = of_nat (BPA i), d_mlock = NULL\<rparr>"
      "dlist (hnodes s2) (flist (k_mem_block s) i) []" if "i < 7" for i
    using s2(2,4) that by (simp_all add: descs_upto_def)
  have "heap_inv {} (\<lambda>_. None) (\<lambda>_. None) (\<lambda>_. []) ?t"
  proof (rule heap_invI)
    show "mm_ok (mm ?t)" unfolding mmt by (rule mm_boot_ok(1) [OF tot])
    show "lists_ok (k_mem_block ?t) (\<lambda>_. None) (\<lambda>_. []) (hnodes ?t)"
      by (rule lists_okI) (use low d s2(4) in \<open>simp_all add: owned_def\<close>)
    show "descs_ok ?t" using d s2(4) by (simp add: descs_ok_def)
  qed (simp_all add: apart_runs_def)
  moreover have "descs_free ?t" using d s2(4) by (simp add: descs_free_def)
  moreover have "live (\<lambda>_. None) (\<lambda>_. None) (\<lambda>_. []) = {}" by (simp add: live_def)
  ultimately show "heap_rep {} (mem_init s)" unfolding heap_rep_def eq by metis
  show "mm (mem_init s) = mm_boot ?tot (kmem (mm s)) (cur_task (mm s)) (arg_slot (mm s))"
    unfolding eq by (rule mmt)
qed

section \<open>Properties\<close>


text \<open>C9: \<open>sys_malloc\<close> returns \<open>NULL\<close>, only when the pages or the frames for the request are used up,
  and changes no live region and no byte, or it returns a region that was
  not live, holds the size asked for, is all zero, and leaves the bytes of every live region alone.\<close>

theorem sys_malloc_outcome:
  assumes "heap_rep L s" and "malloc_room sz s"
  shows "\<exists>p s'. sys_malloc sz s = Inr (p, s') \<and>
    (p = NULL \<and> malloc_starved sz s \<and> heap_rep L s' \<and> hbytes s' = hbytes s \<or>
     (\<exists>n. unat sz \<le> n \<and> p \<noteq> NULL \<and> (p, n) \<notin> L \<and> heap_rep (insert (p, n) L) s' \<and>
        (\<forall>q. in_range p (of_nat n) q \<longrightarrow> hbytes s' q = 0) \<and>
        (\<forall>(p', n')\<in>L. \<forall>q. in_range p' (of_nat n') q \<longrightarrow> hbytes s' q = hbytes s q)))"
  by (rule heap.malloc [OF assms])

text \<open>C11: \<open>sys_free\<close> of a live region, block or run of pages, takes exactly that region out of the live
  ones and changes no byte. An arena whose last block comes back is unlinked and its page given back on
  the way; \<open>sys_free\<close> then reads the header of the released page for the lock to release, and ends in a
  page fault there unless the processor still holds the translation of the page. In every other case
  it returns.\<close>

theorem sys_free_outcome:
  assumes "heap_rep L s" and "(p, n) \<in> L"
  shows "if last_block p s \<and> \<not> lingers s then sys_free p s = Inl Page_fault
    else \<exists>s'. sys_free p s = Inr s' \<and> heap_rep (L - {(p, n)}) s' \<and> hbytes s' = hbytes s"
  by (rule free_outcome [OF assms])

text \<open>\<open>mem_init\<close>, over the page tables of the loader and with at least 2 MB of memory, makes a heap
  with no live region: pools, descriptors, free lists and locks are all in place.\<close>

theorem mem_init_heap:
  assumes "unat (k_mem_block s) + 336 \<le> 0xC0100000" and "0x200000 \<le> load32 (kmem (mm s)) MEM_SIZE_ADDR"
    and "kmmu (mm s) = boot_mmu"
  shows "heap_rep {} (mem_init s)"
  by (rule mem_init_rep(1)) (use assms in \<open>simp_all add: low_def\<close>)

text \<open>The size arithmetic of \<open>sys_malloc\<close> wraps: asked for at least \<open>0xFFFFFFF5\<close> bytes, it answers
  with a region of 4084 bytes (or \<open>NULL\<close>).\<close>

theorem sys_malloc_wraps:
  assumes "heap_rep L s" and "0xFFFFFFF5 \<le> sz" and "room (mm s) 1"
  shows "\<exists>p s'. sys_malloc sz s = Inr (p, s') \<and>
    (p = NULL \<and> heap_rep L s' \<or> (p, 4084) \<notin> L \<and> heap_rep (insert (p, 4084) L) s')"
proof -
  obtain own big fl where r: "heap_inv {} own big fl s" "descs_free s" "L = live own big fl"
    using assms(1) unfolding heap_rep_def by blast
  have lo: "0xFFFFFFF5 \<le> unat sz" using assms(2) by (simp add: word_le_nat_alt)
  have small: "1 \<le> unat sz - 4294967284" "unat sz - 4294967284 \<le> 11" using lo unat_less_4G [of sz] by linarith+
  have a: "unat (sz + ARENA_SIZE) = unat sz - 4294967284"
  proof -
    have "unat (sz + ARENA_SIZE) = (unat sz + 12) mod 4294967296" by (simp add: ARENA_SIZE_def unat_word_ariths)
    also have "unat sz + 12 = (unat sz - 4294967284) + 4294967296" using lo by simp
    also have "\<dots> mod 4294967296 = unat sz - 4294967284" using small(2) by simp
    finally show ?thesis .
  qed
  have "unat (DIV_ROUND_UP (sz + ARENA_SIZE) PG_SIZE) = (unat sz - 4294967284 + 4095) div 4096"
    using DIV_ROUND_UP_unat [of "sz + ARENA_SIZE" PG_SIZE] small by (simp add: a PG_SIZE_def)
  also have "\<dots> = 1" using small by simp
  finally have n: "unat (DIV_ROUND_UP (sz + ARENA_SIZE) PG_SIZE) = 1" .
  then have one: "DIV_ROUND_UP (sz + ARENA_SIZE) PG_SIZE = 1" using of_nat_of_unat [OF n] by simp
  have "1024 < sz" using lo by (simp add: word_less_nat_alt)
  from large_malloc_pages [OF r(1,2) this, of 1] show ?thesis
    using assms(3) r(3) n unfolding one by (auto simp: fresh_region_def)
qed

text \<open>A heap on a machine with 32 MB, just initialised.\<close>

definition demo_heap :: heap_state where
  "demo_heap = mem_init \<lparr>mm = boot32\<lparr>kmem := store32 (\<lambda>_. 0) MEM_SIZE_ADDR 0x2000000\<rparr>,
     arenas = (\<lambda>_. \<lparr>p_mem_block = NULL, a_cnt = 0, is_page_cnt = False\<rparr>),
     hnodes = (\<lambda>_. \<lparr>prev = NULL, nxt = NULL\<rparr>), hbytes = (\<lambda>_. 0xcc),
     descs = (\<lambda>_. \<lparr>block_size = 0, blocks_per_arena = 0, d_mlock = NULL\<rparr>), k_mem_block = 0xC0020000, lingers = True\<rparr>"

lemma boot32_mmu: "kmmu boot32 = boot_mmu"
  by (simp add: boot32_def mm_boot_def split: prod.splits)

lemma mem_init_lingers: "lingers (mem_init s) = lingers s"
proof -
  have "lingers (mem_block_init_loop n idx b t) = lingers t" for n idx b t
    by (induction n arbitrary: idx b t) (simp_all add: Let_def)
  then show ?thesis by (simp add: mem_init_def mem_block_init_def Let_def split: prod.splits)
qed

lemma mem_init_table: "k_mem_block (mem_init s) = k_mem_block s"
proof -
  have "k_mem_block (mem_block_init_loop n idx b t) = k_mem_block t" for n idx b t
    by (induction n arbitrary: idx b t) (simp_all add: Let_def)
  then show ?thesis by (simp add: mem_init_def mem_block_init_def Let_def split: prod.splits)
qed

lemma demo_heap_lingers: "lingers demo_heap"
  unfolding demo_heap_def mem_init_lingers by simp

lemma demo_heap_rep: "heap_rep {} demo_heap"
  unfolding demo_heap_def
  by (rule mem_init_rep(1)) (simp_all add: low_def load32_store32 boot32_mmu)

theorem mem_init_heap_witness: "heap_rep {} demo_heap"
  unfolding demo_heap_def
  by (rule mem_init_heap) (simp_all add: load32_store32 boot32_mmu)

lemma room_empty: "vpages s = {} \<Longrightarrow> 0 < unat cnt \<Longrightarrow> unat cnt \<le> HEAP_PAGES \<Longrightarrow> room s cnt"
  unfolding room_def
proof (intro allI impI)
  fix k assume e: "vpages s = {}" and cnt: "0 < unat cnt" "unat cnt \<le> HEAP_PAGES" and k: "first_vrun s cnt = Some k"
  have "k + unat cnt \<le> capacity (vaddr_bitmap (k_v_pool s))" by (rule first_vrun_fits(1) [OF k])
  moreover have "bit_free (vaddr_bitmap (k_v_pool s)) (kmem s) i" if "i < capacity (vaddr_bitmap (k_v_pool s))" for i
    using e that by (auto simp: vpages_def taken_bits_def bit_free_def)
  ultimately have "run_free (vaddr_bitmap (k_v_pool s)) (kmem s) 0 (unat cnt)" by (simp add: run_free_iff)
  then have "k = 0" using k unfolding first_vrun_def first_fit_Some by auto
  then show "k + unat cnt \<le> HEAP_PAGES" using cnt by simp
qed

lemma demo_heap_mm: "mm demo_heap =
    mm_boot 0x2000000 (store32 (\<lambda>_. 0) MEM_SIZE_ADDR 0x2000000) (cur_task boot32) (arg_slot boot32)"
  unfolding demo_heap_def
  by (subst mem_init_rep(2)) (simp_all add: low_def load32_store32 boot32_mmu)

lemma demo_heap_empty: "vpages (mm demo_heap) = {}"
  unfolding demo_heap_mm using mm_boot_ok(2) [of "0x2000000"] by simp

lemma demo_heap_room: "0 < unat cnt \<Longrightarrow> unat cnt \<le> HEAP_PAGES \<Longrightarrow> room (mm demo_heap) cnt"
  by (rule room_empty [OF demo_heap_empty])

lemma demo_malloc_room: "malloc_room 100 demo_heap" "malloc_room 5000 demo_heap"
proof -
  have "unat (DIV_ROUND_UP (5000 + ARENA_SIZE) PG_SIZE) = 2"
    using large_pages(1) [of 5000] by simp
  then show "malloc_room 5000 demo_heap"
    using demo_heap_room by (simp add: malloc_room_def malloc_pages_def HEAP_PAGES_def)
  show "malloc_room 100 demo_heap"
    using demo_heap_room [of 1] by (simp add: malloc_room_def malloc_pages_def HEAP_PAGES_def)
qed

theorem sys_malloc_outcome_witness:
  "(\<exists>p s'. sys_malloc 100 demo_heap = Inr (p, s')) \<and> (\<exists>p s'. sys_malloc 5000 demo_heap = Inr (p, s'))"
  using sys_malloc_outcome [OF demo_heap_rep demo_malloc_room(1)]
    sys_malloc_outcome [OF demo_heap_rep demo_malloc_room(2)] by blast

theorem sys_malloc_wraps_witness: "\<exists>r. sys_malloc 0xFFFFFFFF demo_heap = Inr r"
proof -
  have "room (mm demo_heap) 1" by (rule demo_heap_room) (simp_all add: HEAP_PAGES_def)
  from sys_malloc_wraps [OF demo_heap_rep _ this, of "0xFFFFFFFF"] show ?thesis by auto
qed

lemma demo_heap_not_starved: "\<not> malloc_starved 5000 demo_heap"
proof -
  have "unat (malloc_pages 5000) = 2" using large_pages(1) [of 5000] by (simp add: malloc_pages_def)
  then have c: "malloc_pages 5000 = of_nat 2" using of_nat_of_unat by metis
  show ?thesis
    unfolding malloc_starved_def starved_def demo_heap_mm c boot_frames
    by (subst boot_run) simp_all
qed

text \<open>Two pages are free there, so a request for 5000 bytes gets a region, which can be given back.\<close>

theorem sys_free_outcome_witness:
  "\<exists>p s s'. p \<noteq> NULL \<and> sys_malloc 5000 demo_heap = Inr (p, s) \<and> sys_free p s = Inr s' \<and> heap_rep {} s'"
proof -
  obtain p s where ps: "sys_malloc 5000 demo_heap = Inr (p, s)" "malloc_outcome 5000 {} demo_heap p s"
    using malloc_run [OF demo_heap_rep demo_malloc_room(2)] by blast
  then obtain n where n: "p \<noteq> NULL" "heap_rep {(p, n)} s"
    using demo_heap_not_starved unfolding malloc_outcome_def malloc_starved_def fresh_region_def by auto
  have "lingers s" using sys_malloc_lingers(1) [OF ps(1)] demo_heap_lingers by simp
  then obtain s' where "sys_free p s = Inr s'" "heap_rep ({(p, n)} - {(p, n)}) s'"
    using sys_free_outcome [OF n(2), of p n] by auto
  then show ?thesis using ps(1) n(1) by auto
qed


end
