(* ===== verification/KIo.thy ===== *)
theory KIo
  imports KPrelude
begin

text \<open>
  Port input and output, \<open>code/kernel/inc/io.h\<close>. The devices behind the ports are not code of the
  repository: a device is a record of what a byte or word read from or written to a port does to its
  state, and every function that talks to hardware takes one as an argument.
\<close>

record 'd io_dev =
  in8 :: "u16 \<Rightarrow> 'd \<Rightarrow> u8 \<times> 'd"
  out8 :: "u16 \<Rightarrow> u8 \<Rightarrow> 'd \<Rightarrow> 'd"
  in16 :: "u16 \<Rightarrow> 'd \<Rightarrow> u16 \<times> 'd"
  out16 :: "u16 \<Rightarrow> u16 \<Rightarrow> 'd \<Rightarrow> 'd"

definition outb :: "'d io_dev \<Rightarrow> u16 \<Rightarrow> u8 \<Rightarrow> 'd \<Rightarrow> 'd" where
  "outb dev port data d = out8 dev port data d"

definition outw :: "'d io_dev \<Rightarrow> u16 \<Rightarrow> u16 \<Rightarrow> 'd \<Rightarrow> 'd" where
  "outw dev port data d = out16 dev port data d"

definition inb :: "'d io_dev \<Rightarrow> u16 \<Rightarrow> 'd \<Rightarrow> u8 \<times> 'd" where
  "inb dev port d = in8 dev port d"

text \<open>Little-endian 16-bit accesses of byte memory.\<close>

definition load16 :: "mem \<Rightarrow> ptr \<Rightarrow> u16" where
  "load16 m p = ucast (m p) OR push_bit 8 (ucast (m (p + 1)))"

definition store16 :: "mem \<Rightarrow> ptr \<Rightarrow> u16 \<Rightarrow> mem" where
  "store16 m p v = m(p := ucast v, p + 1 := ucast (drop_bit 8 v))"

text \<open>\<open>rep outsw\<close> and \<open>rep insw\<close>: \<open>cnt\<close> words, at ascending addresses.\<close>

fun outsw_loop :: "'d io_dev \<Rightarrow> u16 \<Rightarrow> nat \<Rightarrow> ptr \<Rightarrow> mem \<Rightarrow> 'd \<Rightarrow> 'd" where
  "outsw_loop dev port 0 addr m d = d"
| "outsw_loop dev port (Suc n) addr m d =
     outsw_loop dev port n (addr + 2) m (out16 dev port (load16 m addr) d)"

definition outsw :: "'d io_dev \<Rightarrow> u16 \<Rightarrow> ptr \<Rightarrow> u32 \<Rightarrow> mem \<Rightarrow> 'd \<Rightarrow> 'd" where
  "outsw dev port addr cnt m d = outsw_loop dev port (unat cnt) addr m d"

fun insw_loop :: "'d io_dev \<Rightarrow> u16 \<Rightarrow> nat \<Rightarrow> ptr \<Rightarrow> mem \<times> 'd \<Rightarrow> mem \<times> 'd" where
  "insw_loop dev port 0 addr (m, d) = (m, d)"
| "insw_loop dev port (Suc n) addr (m, d) =
     (case in16 dev port d of (v, d') \<Rightarrow> insw_loop dev port n (addr + 2) (store16 m addr v, d'))"

definition insw :: "'d io_dev \<Rightarrow> u16 \<Rightarrow> ptr \<Rightarrow> u32 \<Rightarrow> mem \<times> 'd \<Rightarrow> mem \<times> 'd" where
  "insw dev port addr cnt s = insw_loop dev port (unat cnt) addr s"

lemma load16_store16 [mem_simps]: "load16 (store16 m p v) p = v"
proof (rule bit_word_eqI)
  fix n assume "n < LENGTH(16)"
  then consider "n < 8" | "8 \<le> n \<and> n < 16" by fastforce
  then show "bit (load16 (store16 m p v) p) n = bit v n"
    by cases (auto simp: load16_def store16_def bit_simps)
qed

lemma store16_other [mem_simps]: "q \<noteq> p \<Longrightarrow> q \<noteq> p + 1 \<Longrightarrow> store16 m p v q = m q"
  by (simp add: store16_def)

end
