(* ===== verification/KTimer.thy ===== *)
theory KTimer
  imports KSched KIo "HOL-Library.Signed_Division"
begin

text \<open>
  The timer of \<open>code/kernel/src/timer.c\<close>: programming of counter 0 of the 8253, the tick handler
  that drives the scheduler, the conversions between ticks and time, and the two sleeps.
\<close>

section \<open>Programming the counter\<close>

definition INPUT_FREQUENCY :: u32 where "INPUT_FREQUENCY = 1193180"
definition CONTRER_PORT_0 :: u16 where "CONTRER_PORT_0 = 0x40"
definition COUNTER_CTL_PORT :: u16 where "COUNTER_CTL_PORT = 0x43"
definition COUNTER_CH_0 :: u8 where "COUNTER_CH_0 = 0"
definition COUNTER_AC_ALL :: u8 where "COUNTER_AC_ALL = 0x30"
definition COUNTER_MODE_2 :: u8 where "COUNTER_MODE_2 = 0x04"
definition COUNTER_BIN :: u8 where "COUNTER_BIN = 0"

text \<open>
  \<open>US_TO_TICKS\<close> is \<open>int\<close> arithmetic: product and sum wrap at 32 bits as the compiled code does, and
  the division truncates towards zero.
\<close>

definition US_TO_TICKS :: "u32 \<Rightarrow> u32" where
  "US_TO_TICKS us = word_of_int (sint (us * INPUT_FREQUENCY + 1000000 - 1) sdiv 1000000)"

definition timer_set :: "'d io_dev \<Rightarrow> u32 \<Rightarrow> 'd \<Rightarrow> 'd" where
  "timer_set dev us d =
     (let counter_ctl = COUNTER_CH_0 + COUNTER_AC_ALL + COUNTER_MODE_2 + COUNTER_BIN;
          d1 = outb dev COUNTER_CTL_PORT counter_ctl d;
          counter_data = (if us <s 54924 then ucast (US_TO_TICKS us) else 0xffff :: u16);
          d2 = outb dev CONTRER_PORT_0 (ucast counter_data) d1
      in outb dev CONTRER_PORT_0 (ucast (drop_bit 8 counter_data)) d2)"

section \<open>The tick\<close>

record timer_state =
  sched :: sched_state
  jiffies :: u32

definition timer_handler :: "timer_state \<Rightarrow> stop + timer_state" where
  "timer_handler s =
     (let s1 = s\<lparr>jiffies := jiffies s + 1\<rparr>;
          cur_task = kthread_current (sched s1);
          t = tasks (sched s1) cur_task
      in if 0x19880802 \<noteq> stack_magic t then Inl Panic
         else if 0 = time_slice t then Inr (s1\<lparr>sched := schedule False (sched s1)\<rparr>)
         else Inr (s1\<lparr>sched := set_slice cur_task (time_slice t - 1) (sched s1)\<rparr>))"

definition msecs_to_jiffies :: "u32 \<Rightarrow> u32" where
  "msecs_to_jiffies ms = ms * 1000 div SYS_TICK_US"

definition usecs_to_jiffies :: "u32 \<Rightarrow> u32" where
  "usecs_to_jiffies us = us div SYS_TICK_US"

definition jiffies_to_msecs :: "u32 \<Rightarrow> u32" where
  "jiffies_to_msecs js = js * SYS_TICK_US div 1000"

definition jiffies_to_usecs :: "u32 \<Rightarrow> u32" where
  "jiffies_to_usecs js = js * SYS_TICK_US"

text \<open>
  The wait loop of \<open>msleep\<close> and \<open>usleep\<close>. \<open>reading n\<close> is the value of \<open>jiffies\<close> when the loop
  condition is tested for the \<open>n\<close>-th time; between two tests the thread yields. The result is the
  number of yields.
\<close>

partial_function (option) sleep_loop :: "u32 \<Rightarrow> u32 \<Rightarrow> (nat \<Rightarrow> u32) \<Rightarrow> nat \<Rightarrow> nat option" where
  "sleep_loop sleep_ticks start reading n =
     (if reading n - start < sleep_ticks then sleep_loop sleep_ticks start reading (Suc n) else Some n)"

definition msleep :: "u32 \<Rightarrow> u32 \<Rightarrow> (nat \<Rightarrow> u32) \<Rightarrow> nat option" where
  "msleep ms start_ticks reading = sleep_loop (msecs_to_jiffies ms) start_ticks reading 0"

definition usleep :: "u32 \<Rightarrow> u32 \<Rightarrow> (nat \<Rightarrow> u32) \<Rightarrow> nat option" where
  "usleep us start_tick reading = sleep_loop (usecs_to_jiffies us) start_tick reading 0"

text \<open>\<open>timer_init\<close>; the registration of the handler at vector \<open>0x20\<close> is the caller's \<open>register\<close>.\<close>

definition timer_init :: "'d io_dev \<Rightarrow> (u8 \<Rightarrow> 'i \<Rightarrow> 'i) \<Rightarrow> timer_state \<times> 'i \<times> 'd \<Rightarrow> timer_state \<times> 'i \<times> 'd" where
  "timer_init dev register = (\<lambda>(s, i, d). (s\<lparr>jiffies := 0\<rparr>, register 0x20 i, timer_set dev SYS_TICK_US d))"

section \<open>The counter\<close>

text \<open>
  Counter 0 of the 8253 as its data sheet has it: a control word with access mode LSB/MSB makes the
  next byte the low half of the reload value and the byte after it the high half; other accesses do
  nothing here.
\<close>

record pit =
  pit_mode :: u8
  pit_low :: "u8 option"
  pit_reload :: u16

definition pit_out :: "u16 \<Rightarrow> u8 \<Rightarrow> pit \<Rightarrow> pit" where
  "pit_out port v d =
     (if port = 0x43 then d\<lparr>pit_mode := v, pit_low := None\<rparr>
      else if port = 0x40 then
        (case pit_low d of None \<Rightarrow> d\<lparr>pit_low := Some v\<rparr>
         | Some l \<Rightarrow> d\<lparr>pit_low := None, pit_reload := ucast l OR push_bit 8 (ucast v)\<rparr>)
      else d)"

definition pit_dev :: "pit io_dev" where
  "pit_dev = \<lparr>in8 = (\<lambda>_ d. (0, d)), out8 = pit_out, in16 = (\<lambda>_ d. (0, d)), out16 = (\<lambda>_ _ d. d)\<rparr>"

lemma halves16: "ucast (ucast w :: u8) OR push_bit 8 (ucast (ucast (drop_bit 8 w) :: u8)) = (w :: u16)"
proof (rule bit_word_eqI)
  fix n assume "n < LENGTH(16)"
  then consider "n < 8" | "8 \<le> n \<and> n < 16" by fastforce
  then show "bit (ucast (ucast w :: u8) OR push_bit 8 (ucast (ucast (drop_bit 8 w) :: u8)) :: u16) n = bit w n"
    by cases (auto simp: bit_simps)
qed

lemma timer_set_pit:
  "timer_set pit_dev us d = \<lparr>pit_mode = 0x34, pit_low = None,
     pit_reload = (if us <s 54924 then ucast (US_TO_TICKS us) else 0xffff)\<rparr>"
  by (cases d) (simp add: timer_set_def pit_dev_def pit_out_def outb_def Let_def halves16 COUNTER_CTL_PORT_def
      CONTRER_PORT_0_def COUNTER_CH_0_def COUNTER_AC_ALL_def COUNTER_MODE_2_def COUNTER_BIN_def)

lemma sdiv_nat: "int a sdiv 1000000 = int (a div 1000000)"
  by (cases "a = 0") (simp_all add: signed_divide_int_def zdiv_int)

lemma US_TO_TICKS_small:
  assumes "unat us < 1799"
  shows "unat (US_TO_TICKS us) = (unat us * 1193180 + 999999) div 1000000"
proof -
  let ?p = "us * INPUT_FREQUENCY + 1000000 - 1"
  have m: "unat (us * INPUT_FREQUENCY) = unat us * 1193180"
    using assms by (subst unat_mult_small) (simp_all add: INPUT_FREQUENCY_def)
  have "unat (us * INPUT_FREQUENCY + 999999) = unat us * 1193180 + 999999"
    using assms by (subst unat_add_small) (simp_all add: m)
  then have p: "unat ?p = unat us * 1193180 + 999999" by (simp add: algebra_simps)
  have "0 < sint ?p" by (rule sint_pos_small) (use assms p in simp_all)
  then have "sint ?p = int (unat ?p)" using sint_nonneg_u32 [of ?p] by simp
  then have s: "sint ?p sdiv 1000000 = int ((unat us * 1193180 + 999999) div 1000000)"
    unfolding p by (simp only: sdiv_nat)
  have "(unat us * 1193180 + 999999) div 1000000 < 2 ^ 32" using assms by simp
  then show ?thesis unfolding US_TO_TICKS_def s by (simp only: of_int_of_nat_eq unat_of_nat_less)
qed

section \<open>Ticks and the scheduler\<close>

lemma set_slice_magic: "stack_magic (tasks (set_slice t n s) x) = stack_magic (tasks s x)"
  by (simp add: set_slice_def)

lemmas slice_fields [simp] = set_slice_fields set_slice_magic

lemma running_set_slice: "running_ok (set_slice t n s) R A = running_ok s R A"
  unfolding running_ok_def sched_ok_def links_ok_def others_ok_def kthread_current_def slice_fields ..

text \<open>\<open>k\<close> ticks in a row.\<close>

fun ticks :: "nat \<Rightarrow> timer_state \<Rightarrow> stop + timer_state" where
  "ticks 0 s = Inr s"
| "ticks (Suc k) s = rbind (timer_handler s) (ticks k)"

lemma ticks_within_slice:
  "unat (time_slice (tasks (sched s) c)) = n \<Longrightarrow> kthread_current (sched s) = c \<Longrightarrow> k \<le> n \<Longrightarrow>
   stack_magic (tasks (sched s) c) = 0x19880802 \<Longrightarrow> running_ok (sched s) R A \<Longrightarrow>
   \<exists>s'. ticks k s = Inr s' \<and> kthread_current (sched s') = c \<and> running_ok (sched s') R A \<and>
     jiffies s' = jiffies s + of_nat k \<and> unat (time_slice (tasks (sched s') c)) = n - k \<and>
     stack_magic (tasks (sched s') c) = 0x19880802"
proof (induction k arbitrary: s n)
  case (Suc k)
  let ?t = "time_slice (tasks (sched s) c)"
  let ?s = "s\<lparr>jiffies := jiffies s + 1, sched := set_slice c (?t - 1) (sched s)\<rparr>"
  have nz: "?t \<noteq> 0" using Suc.prems(1,3) by auto
  have "1 \<le> unat ?t" using Suc.prems(1,3) by simp
  then have u: "unat (?t - 1) = n - 1" using Suc.prems(1) by (simp add: unat_sub_small)
  have step: "timer_handler s = Inr ?s" using Suc.prems(2,4) nz by (simp add: timer_handler_def Let_def)
  have "\<exists>s'. ticks k ?s = Inr s' \<and> kthread_current (sched s') = c \<and> running_ok (sched s') R A \<and>
     jiffies s' = jiffies ?s + of_nat k \<and> unat (time_slice (tasks (sched s') c)) = n - 1 - k \<and>
     stack_magic (tasks (sched s') c) = 0x19880802"
    by (rule Suc.IH) (use Suc.prems u in \<open>simp_all add: running_set_slice kthread_current_def\<close>)
  then show ?case using step by (auto simp: add.assoc)
qed auto

lemma ticks_append: "ticks (j + k) s = rbind (ticks j s) (ticks k)"
  by (induction j arbitrary: s) (auto simp: rbind_def split: sum.splits)

lemma slice_expires:
  assumes "running_ok (sched s) R A" and "stack_magic (tasks (sched s) (kthread_current (sched s))) = 0x19880802"
    and "unat (time_slice (tasks (sched s) (kthread_current (sched s)))) = n"
  shows "\<exists>s'. ticks (Suc n) s = Inr s' \<and> jiffies s' = jiffies s + of_nat (Suc n) \<and>
    kthread_current (sched s') = hd (R @ [kthread_current (sched s)]) \<and>
    running_ok (sched s') (tl (R @ [kthread_current (sched s)])) A"
proof -
  let ?c = "kthread_current (sched s)"
  obtain s1 where s1: "ticks n s = Inr s1" "kthread_current (sched s1) = ?c" "running_ok (sched s1) R A"
      "jiffies s1 = jiffies s + of_nat n" "unat (time_slice (tasks (sched s1) ?c)) = n - n"
      "stack_magic (tasks (sched s1) ?c) = 0x19880802"
    using ticks_within_slice [OF assms(3) refl order_refl assms(2,1)] by blast
  let ?s = "s1\<lparr>jiffies := jiffies s1 + 1, sched := schedule False (sched s1)\<rparr>"
  have "time_slice (tasks (sched s1) ?c) = 0" using s1(5) by (simp add: unat_eq_zero)
  then have "timer_handler s1 = Inr ?s" using s1(2,6) by (simp add: timer_handler_def Let_def)
  then have t: "ticks (Suc n) s = Inr ?s" using ticks_append [of n 1 s] s1(1) by simp
  have up: "upcoming (sched s1) R = R @ [?c]" using upcoming_running [OF s1(3)] s1(2) by simp
  note sk = schedule_ok(2) [OF running_okD(5) [OF s1(3)], of False]
    and sr = schedule_running [OF running_okD(5) [OF s1(3)], of False]
  show ?thesis using t s1(4) sk sr by (simp add: up add.assoc)
qed

section \<open>Sleeping\<close>

text \<open>
  \<open>e n\<close> ticks have passed since the start when the condition is tested for the \<open>n\<close>-th time. No two
  tests are so far apart that the counter runs once around past the goal.
\<close>

lemma sleep_loop_first:
  assumes reach: "t \<le> e k" "\<And>m. m < k \<Longrightarrow> e m < t" and n: "n \<le> k" and small: "t < 2 ^ 32" "e k < 2 ^ 32"
  shows "sleep_loop (of_nat t) start (\<lambda>n. start + of_nat (e n)) n = Some k"
  using n
proof (induction "k - n" arbitrary: n)
  case 0
  then have "n = k" by simp
  then show ?case using reach(1) small
    by (subst sleep_loop.simps) (simp add: word_less_nat_alt unat_of_nat_less)
next
  case (Suc x)
  then have nk: "n < k" by simp
  have "e n < 2 ^ 32" using reach(2) [OF nk] small(1) by simp
  then have "(of_nat (e n) :: u32) < of_nat t" using reach(2) [OF nk] small(1) by (simp add: word_less_nat_alt unat_of_nat_less)
  then have "sleep_loop (of_nat t) start (\<lambda>n. start + of_nat (e n)) n =
      sleep_loop (of_nat t) start (\<lambda>n. start + of_nat (e n)) (Suc n)"
    by (subst sleep_loop.simps) simp
  then show ?case using Suc.hyps(1) [of "Suc n"] Suc.hyps(2) nk by simp
qed

lemma sleep_loop_returns:
  assumes step: "\<And>n. e (Suc n) - e n < 2 ^ 32 - t" and t: "t < 2 ^ 32" and e0: "e 0 < 2 ^ 32" and far: "\<exists>n. t \<le> e n"
  shows "\<exists>k. sleep_loop (of_nat t) start (\<lambda>n. start + of_nat (e n)) 0 = Some k \<and> t \<le> e k \<and> (\<forall>m<k. e m < t)"
proof -
  define k where "k = (LEAST n. t \<le> e n)"
  have k: "t \<le> e k" unfolding k_def using far by (auto intro: LeastI_ex)
  have less: "e m < t" if "m < k" for m using not_less_Least [of m "\<lambda>n. t \<le> e n"] that by (simp add: k_def)
  have "e k < 2 ^ 32"
  proof (cases k)
    case (Suc m)
    then show ?thesis using less [of m] step [of m] by simp
  qed (use e0 in simp)
  then show ?thesis using sleep_loop_first [of t e k 0 start] k less t by auto
qed

section \<open>Properties\<close>

text \<open>A time slice is a time slice: with a slice of \<open>n\<close> ticks left the running thread keeps the
  processor for \<open>n\<close> ticks, and the next tick switches to the head of the ready list; \<open>jiffies\<close> counts
  every tick, and the scheduler state stays in order.\<close>

theorem tick_slice:
  assumes "running_ok (sched s) R A" and "stack_magic (tasks (sched s) (kthread_current (sched s))) = 0x19880802"
    and "unat (time_slice (tasks (sched s) (kthread_current (sched s)))) = n"
  shows "(\<forall>k\<le>n. \<exists>s'. ticks k s = Inr s' \<and> kthread_current (sched s') = kthread_current (sched s)) \<and>
    (\<exists>s'. ticks (Suc n) s = Inr s' \<and> jiffies s' = jiffies s + of_nat (Suc n) \<and>
      kthread_current (sched s') = hd (R @ [kthread_current (sched s)]) \<and>
      running_ok (sched s') (tl (R @ [kthread_current (sched s)])) A)"
  using ticks_within_slice [OF assms(3) refl _ assms(2,1)] slice_expires [OF assms] by blast

theorem tick_slice_witness:
  "\<exists>s'. ticks 11 \<lparr>sched = demo_sched, jiffies = 0xFFFFFFFF\<rparr> = Inr s' \<and> jiffies s' = 10 \<and>
    kthread_current (sched s') = 0xC0102000"
proof -
  let ?s = "\<lparr>sched = demo_sched, jiffies = 0xFFFFFFFF\<rparr>"
  have c: "kthread_current demo_sched = 0xC0101000" by (simp add: demo_sched_def kthread_current_def)
  have t: "time_slice (tasks demo_sched 0xC0101000) = 10" "stack_magic (tasks demo_sched 0xC0101000) = 0x19880802"
    by (simp_all add: demo_sched_def)
  have "\<exists>s'. ticks (Suc 10) ?s = Inr s' \<and> jiffies s' = jiffies ?s + of_nat (Suc 10) \<and>
      kthread_current (sched s') = hd ([0xC0102000] @ [kthread_current (sched ?s)]) \<and>
      running_ok (sched s') (tl ([0xC0102000] @ [kthread_current (sched ?s)])) [0xC0101000, 0xC0102000, 0xC0103000]"
    using tick_slice [of ?s "[0xC0102000]" "[0xC0101000, 0xC0102000, 0xC0103000]" 10] demo_sched_ok c t by simp
  then show ?thesis by auto
qed

text \<open>C37: \<open>msleep\<close> returns, and sleeps long enough and no longer than it must: it yields until the first
  test at which the ticks of \<open>ms\<close> milliseconds have passed since the start, also when \<open>jiffies\<close>
  wraps on the way, for times whose product \<open>ms * 1000\<close> fits 32 bits; beyond that the product wraps and the
  sleep is too short. \<open>e n\<close> is the number of ticks between the start and test \<open>n\<close>.\<close>

theorem msleep_waits:
  assumes "unat ms * 1000 < 2 ^ 32" and "\<And>n. e (Suc n) - e n < 2 ^ 32 - unat ms * 100" and "e 0 < 2 ^ 32"
    and "\<exists>n. unat ms * 100 \<le> e n"
  shows "\<exists>k. msleep ms start (\<lambda>n. start + of_nat (e n)) = Some k \<and> unat ms * 100 \<le> e k \<and>
    (\<forall>m<k. e m < unat ms * 100)"
proof -
  have "unat (ms * 1000) = unat ms * 1000" using assms(1) by (subst unat_mult_small) simp_all
  then have "unat (msecs_to_jiffies ms) = unat ms * 100" by (simp add: msecs_to_jiffies_def SYS_TICK_US_def unat_div)
  then have "msecs_to_jiffies ms = of_nat (unat ms * 100)" by (rule of_nat_of_unat [symmetric])
  then show ?thesis
    using sleep_loop_returns [of e "unat ms * 100" start] assms by (simp add: msleep_def)
qed

theorem msleep_waits_witness:
  "\<exists>k. msleep 2 0xFFFFFFF0 (\<lambda>n. 0xFFFFFFF0 + of_nat (7 * n)) = Some k \<and> k = 29"
proof -
  have far: "\<exists>n. unat (2 :: u32) * 100 \<le> 7 * n" by (rule exI [of _ 29]) simp
  obtain k where k: "msleep 2 0xFFFFFFF0 (\<lambda>n. 0xFFFFFFF0 + of_nat (7 * n)) = Some k" "200 \<le> 7 * k" "\<forall>m<k. 7 * m < 200"
    using msleep_waits [of 2 "\<lambda>n. 7 * n" "0xFFFFFFF0", OF _ _ _ far] by auto
  have "k = 29" using k(2) k(3) [rule_format, of 29] by (cases "k < 29"; cases "29 < k") auto
  then show ?thesis using k(1) by blast
qed

text \<open>\<open>Timer_set\<close> leaves the 8253 in rate-generator mode with the period asked for, rounded up to
  whole counter steps, for any period below 1799 microseconds; the conversions to and from ticks
  agree for times that fit.\<close>

theorem timer_set_period:
  assumes "unat us < 1799" and "unat ms * 1000 < 2 ^ 32"
  shows "pit_mode (timer_set pit_dev us d) = 0x34 \<and> pit_low (timer_set pit_dev us d) = None \<and>
    unat (pit_reload (timer_set pit_dev us d)) = (unat us * 1193180 + 999999) div 1000000 \<and>
    jiffies_to_msecs (msecs_to_jiffies ms) = ms"
proof -
  have u: "us <s 54924"
  proof (cases "us = 0")
    case False
    then have "0 < sint us" using assms(1) by (intro sint_pos_small) (simp_all add: unat_gt_0)
    then have "sint us = int (unat us)" using sint_nonneg_u32 [of us] by simp
    moreover have "int (unat us) < int 1799" using assms(1) by (simp only: of_nat_less_iff)
    ultimately have "sint us < 54924" by linarith
    then show ?thesis by (simp add: word_sless_alt)
  qed (simp add: word_sless_alt)
  have t: "unat (US_TO_TICKS us) = (unat us * 1193180 + 999999) div 1000000" by (rule US_TO_TICKS_small [OF assms(1)])
  have "(unat us * 1193180 + 999999) div 1000000 < 2 ^ 16" using assms(1) by simp
  then have r: "unat (ucast (US_TO_TICKS us) :: u16) = (unat us * 1193180 + 999999) div 1000000"
    using t by (simp add: unsigned_ucast_eq take_bit_nat_eq_self)
  have m1: "unat (ms * 1000) = unat ms * 1000" using assms(2) by (subst unat_mult_small) simp_all
  have j: "unat (msecs_to_jiffies ms) = unat ms * 100" using m1 by (simp add: msecs_to_jiffies_def SYS_TICK_US_def unat_div)
  have "unat (msecs_to_jiffies ms * SYS_TICK_US) = unat ms * 1000"
    using assms(2) j by (subst unat_mult_small) (simp_all add: SYS_TICK_US_def)
  then have "unat (jiffies_to_msecs (msecs_to_jiffies ms)) = unat ms" by (simp add: jiffies_to_msecs_def unat_div)
  then have "jiffies_to_msecs (msecs_to_jiffies ms) = ms" by (rule unsigned_word_eqI)
  then show ?thesis using u r by (simp add: timer_set_pit)
qed

theorem timer_set_period_witness:
  "pit_reload (timer_set pit_dev 10 \<lparr>pit_mode = 0, pit_low = None, pit_reload = 0\<rparr>) = 12 \<and>
   jiffies_to_msecs (msecs_to_jiffies 1000) = 1000"
proof -
  let ?d = "\<lparr>pit_mode = 0, pit_low = None, pit_reload = 0\<rparr>"
  have "unat (pit_reload (timer_set pit_dev 10 ?d)) = 12" "jiffies_to_msecs (msecs_to_jiffies 1000) = 1000"
    using timer_set_period [of 10 1000 ?d] by simp_all
  moreover have "unat (12 :: u16) = 12" by simp
  ultimately show ?thesis by (metis unsigned_word_eqI)
qed

text \<open>
  From 1800 microseconds on the \<open>int\<close> product overflows, well before the clamp at 54924: a period of
  2 ms programs 63629 counter steps instead of 2387.
\<close>

lemma timer_set_overflow: "US_TO_TICKS 2000 = - 1907"
  by (simp add: US_TO_TICKS_def INPUT_FREQUENCY_def signed_divide_int_def)

end
