(* ===== verification/KIntr.thy ===== *)
theory KIntr
  imports KIo
begin

text \<open>
  Interrupt set-up, \<open>code/kernel/src/interrupt.c\<close>: the interrupt descriptor table, the 8259A
  controllers, the default handler and the handler table. The arrays \<open>intr_func\<close> and \<open>intr_name\<close> are
  functions of the index: \<open>register_handler\<close> does not check it, and an index past \<open>IDT_VEC_MAX\<close> names
  the memory the linker put behind the array.
\<close>

section \<open>Descriptors\<close>

definition GDT_P_1 :: u32 where "GDT_P_1 = push_bit 15 1"
definition GDT_DPL_0 :: u32 where "GDT_DPL_0 = push_bit 13 0"
definition GDT_DPL_3 :: u32 where "GDT_DPL_3 = push_bit 13 3"
definition SELECTOR_K_CODE :: u32 where "SELECTOR_K_CODE = push_bit 3 1 + 0 + 0"
definition IDT_VEC_MAX :: nat where "IDT_VEC_MAX = 0x80"
definition IDT_DESC_CNT :: nat where "IDT_DESC_CNT = 0x30"

record idt_desc =
  offset_1 :: u16
  selector :: u16
  zero_ :: u8
  attribute :: u8
  offset_2 :: u16

definition make_idt_table :: "u32 \<Rightarrow> ptr \<Rightarrow> idt_desc" where
  "make_idt_table attr func =
     \<lparr>offset_1 = ucast (func AND 0x000FFFF), selector = ucast SELECTOR_K_CODE, zero_ = 0,
      attribute = ucast (drop_bit 8 attr AND 0xE0 OR 0x0E),
      offset_2 = ucast (drop_bit 16 (func AND 0xFFFF0000))\<rparr>"

text \<open>Addresses fixed by the linker: the entry stubs, the tables and the default handler.\<close>

record image =
  intr_entry :: "nat \<Rightarrow> ptr"
  syscall_entry_at :: ptr
  idt_table_at :: ptr
  intr_general_handler_at :: ptr

record intr_state =
  idt_table :: "nat \<Rightarrow> idt_desc"
  intr_func :: "nat \<Rightarrow> ptr"
  intr_name :: "nat \<Rightarrow> string"
  idtr :: u64

section \<open>Loading the table\<close>

definition exception_names :: "(nat \<times> string) list" where
  "exception_names =
     [(0x00, ''#DE Divide Error''), (0x01, ''#DB Debug Exception''), (0x02, ''NMI Interrupt''),
      (0x03, ''#BP Breakpoint Exception''), (0x04, ''#OF Overflow Exception''),
      (0x05, ''#BR BOUND Range Exceeded Exception''), (0x06, ''#UD Invalid Opcode Exception''),
      (0x07, ''#NM Device Not Available Exception''), (0x08, ''#DF Double Fault Exception''),
      (0x09, ''Coprocessor Segment Overrun''), (0x0A, ''#TS Invalid TSS Exception''),
      (0x0B, ''#NP Segment Not Present''), (0x0C, ''#SS Stack Fault Exception''),
      (0x0D, ''#GP General Protection Exception''), (0x0E, ''#PF Page-Fault Exception''),
      (0x10, ''#MF x87 FPU Floating-Point Error''), (0x11, ''#AC Alignment Check Exception''),
      (0x12, ''#MC Machine-Check Exception''), (0x13, ''#XF SIMD Floating-Point Exception''),
      (0x14, ''#VE Virtualization Exception''), (0x15, ''#CP Control Protection Exception''),
      (0x1C, ''#HV Hypervisor Injection Exception''), (0x1D, ''#VC VMM Communication Exception''),
      (0x1E, ''#SX Security Exception'')]"

definition idt_init_step :: "image \<Rightarrow> nat \<Rightarrow> intr_state \<Rightarrow> intr_state" where
  "idt_init_step img idx s =
     (let s1 = s\<lparr>intr_name := (intr_name s)(idx := ''unknown''), intr_func := (intr_func s)(idx := NULL)\<rparr>
      in if idx < IDT_DESC_CNT
         then s1\<lparr>idt_table := (idt_table s1)(idx := make_idt_table (GDT_P_1 + GDT_DPL_0) (intr_entry img idx)),
                 intr_func := (intr_func s1)(idx := intr_general_handler_at img)\<rparr>
         else s1)"

definition idt_init :: "image \<Rightarrow> intr_state \<Rightarrow> intr_state" where
  "idt_init img s =
     (let s1 = fold (idt_init_step img) [0..<IDT_VEC_MAX + 1] s;
          s2 = s1\<lparr>idt_table := (idt_table s1)(0x80 := make_idt_table (GDT_P_1 + GDT_DPL_3) (syscall_entry_at img))\<rparr>;
          s3 = s2\<lparr>intr_name := fold (\<lambda>(v, n) f. f(v := n)) exception_names (intr_name s2)\<rparr>
      in s3\<lparr>idtr := of_nat (8 * (IDT_VEC_MAX + 1) - 1) OR push_bit 16 (ucast (idt_table_at img))\<rparr>)"

section \<open>The controllers\<close>

definition PIC_M_CTRL :: u16 where "PIC_M_CTRL = 0x20"
definition PIC_M_DATA :: u16 where "PIC_M_DATA = 0x21"
definition PIC_S_CTRL :: u16 where "PIC_S_CTRL = 0xA0"
definition PIC_S_DATA :: u16 where "PIC_S_DATA = 0xA1"

definition pic_init :: "'d io_dev \<Rightarrow> 'd \<Rightarrow> 'd" where
  "pic_init dev d0 =
     (let d1 = outb dev PIC_M_CTRL 0x11 d0;
          d2 = outb dev PIC_M_DATA 0x20 d1;
          d3 = outb dev PIC_M_DATA 0x04 d2;
          d4 = outb dev PIC_M_DATA 0x01 d3;
          d5 = outb dev PIC_S_CTRL 0x11 d4;
          d6 = outb dev PIC_S_DATA 0x28 d5;
          d7 = outb dev PIC_S_DATA 0x02 d6;
          d8 = outb dev PIC_S_DATA 0x01 d7;
          d9 = outb dev PIC_M_DATA 0xFA d8
      in outb dev PIC_S_DATA 0x33 d9)"

definition intr_init :: "image \<Rightarrow> 'd io_dev \<Rightarrow> intr_state \<times> 'd \<Rightarrow> intr_state \<times> 'd" where
  "intr_init img dev = (\<lambda>(s, d). (idt_init img s, pic_init dev d))"

section \<open>The interrupt flag and the handlers\<close>

definition intr_get_status :: "u32 \<Rightarrow> bool" where
  "intr_get_status eflags = (eflags AND 0x200 \<noteq> 0)"

definition intr_set_status :: "bool \<Rightarrow> u32 \<Rightarrow> u32" where
  "intr_set_status intr_status eflags = (if intr_status then eflags OR 0x200 else eflags AND NOT 0x200)"

definition register_handler :: "u8 \<Rightarrow> ptr \<Rightarrow> intr_state \<Rightarrow> intr_state" where
  "register_handler vec func s = s\<lparr>intr_func := (intr_func s)(unat vec := func)\<rparr>"

text \<open>What goes to the screen (\<open>print.s\<close>), call by call.\<close>

datatype put = Put_str string | Put_int u32

abbreviation nl :: char where "nl \<equiv> CHR 10"

definition bang_line :: string where
  "bang_line = replicate 40 (CHR ''!'') @ [nl]"

text \<open>The default handler: \<open>None\<close> when it returns, the reason when it does not.\<close>

definition intr_general_handler :: "u8 \<Rightarrow> u32 \<Rightarrow> intr_state \<Rightarrow> put list \<times> stop option" where
  "intr_general_handler vec cr2 s =
     (if vec = 0x27 \<or> vec = 0x2F then ([], None)
      else
        ([Put_str (nl # bang_line), Put_str ''    vector number: 0x'', Put_int (ucast vec), Put_str [nl],
          Put_str ''    '', Put_str (intr_name s (unat vec)), Put_str [nl]] @
         (if 0xE = vec then [Put_str ''    page fault addr is '', Put_int cr2, Put_str [nl]] else []) @
         [Put_str bang_line], Some Hang))"

section \<open>What the processor and the controllers make of it\<close>

text \<open>
  Delivery of interrupt \<open>vec\<close> at privilege \<open>cpl\<close>, by the processor's manual: the vector must lie within
  the limit, the descriptor must be a present 32-bit interrupt gate, and an \<open>int\<close> instruction needs
  the privilege of the gate.
\<close>

datatype delivery = Enter u16 ptr | Fault_GP | Fault_NP

definition gate_offset :: "idt_desc \<Rightarrow> ptr" where
  "gate_offset d = ucast (offset_1 d) OR push_bit 16 (ucast (offset_2 d))"

definition deliver :: "intr_state \<Rightarrow> nat \<Rightarrow> nat \<Rightarrow> bool \<Rightarrow> delivery" where
  "deliver s vec cpl software =
     (if unat (ucast (idtr s) :: u16) < 8 * vec + 7 then Fault_GP
      else let d = idt_table s vec
        in if attribute d AND 0x1F \<noteq> 0x0E then Fault_GP
           else if software \<and> unat (drop_bit 5 (attribute d) AND 3) < cpl then Fault_GP
           else if attribute d AND 0x80 = 0 then Fault_NP
           else Enter (selector d) (gate_offset d))"

text \<open>
  An 8259A: the command word ICW1 starts the initialisation, whose next words go to the data port;
  afterwards the data port is the mask, and the command \<open>0x20\<close> ends the in-service interrupt of
  highest priority.
\<close>

datatype pic_phase = Ready | Icw2 | Icw3 | Icw4

record pic =
  phase :: pic_phase
  single :: bool
  needs_icw4 :: bool
  vec_base :: u8
  cascade :: u8
  pic_mode :: u8
  imr :: u8
  isr :: u8

definition pic_command :: "u8 \<Rightarrow> pic \<Rightarrow> pic" where
  "pic_command v p =
     (if bit v 4 then p\<lparr>phase := Icw2, single := bit v 1, needs_icw4 := bit v 0, imr := 0, isr := 0\<rparr>
      else if v = 0x20 then p\<lparr>isr := isr p AND (isr p - 1)\<rparr>
      else p)"

fun pic_data :: "pic_phase \<Rightarrow> u8 \<Rightarrow> pic \<Rightarrow> pic" where
  "pic_data Ready v p = p\<lparr>imr := v\<rparr>"
| "pic_data Icw2 v p = p\<lparr>vec_base := v AND 0xF8,
     phase := if single p then (if needs_icw4 p then Icw4 else Ready) else Icw3\<rparr>"
| "pic_data Icw3 v p = p\<lparr>cascade := v, phase := if needs_icw4 p then Icw4 else Ready\<rparr>"
| "pic_data Icw4 v p = p\<lparr>pic_mode := v, phase := Ready\<rparr>"

definition pics_out :: "u16 \<Rightarrow> u8 \<Rightarrow> pic \<times> pic \<Rightarrow> pic \<times> pic" where
  "pics_out port v = (\<lambda>(m, s).
     if port = 0x20 then (pic_command v m, s)
     else if port = 0x21 then (pic_data (phase m) v m, s)
     else if port = 0xA0 then (m, pic_command v s)
     else if port = 0xA1 then (m, pic_data (phase s) v s)
     else (m, s))"

definition pics_dev :: "(pic \<times> pic) io_dev" where
  "pics_dev = \<lparr>in8 = (\<lambda>_ d. (0, d)), out8 = pics_out, in16 = (\<lambda>_ d. (0, d)), out16 = (\<lambda>_ _ d. d)\<rparr>"

text \<open>The vector a request line is delivered at, and whether it gets through.\<close>

definition irq_vector :: "pic \<times> pic \<Rightarrow> nat \<Rightarrow> u8" where
  "irq_vector = (\<lambda>(m, s) i. if i < 8 then vec_base m + of_nat i else vec_base s + of_nat (i - 8))"

definition irq_enabled :: "pic \<times> pic \<Rightarrow> nat \<Rightarrow> bool" where
  "irq_enabled = (\<lambda>(m, s) i. if i < 8 then \<not> bit (imr m) i
     else \<not> bit (imr s) (i - 8) \<and> \<not> bit (imr m) 2 \<and> bit (cascade m) 2 \<and> cascade s = 2)"

section \<open>Lemmas\<close>

lemma bit_0xFFFF: "bit (0xFFFF :: u32) n \<longleftrightarrow> n < 16" "bit (0xFFFF :: int) n \<longleftrightarrow> n < 16"
proof -
  have "(0xFFFF :: u32) = mask 16" by (simp add: mask_eq_exp_minus_1)
  then show "bit (0xFFFF :: u32) n \<longleftrightarrow> n < 16" by (simp only: bit_mask_iff) auto
  have "(0xFFFF :: int) = mask 16" by (simp add: mask_eq_exp_minus_1)
  then show "bit (0xFFFF :: int) n \<longleftrightarrow> n < 16" by (simp only: bit_mask_iff) auto
qed

lemma gate_offset_make: "gate_offset (make_idt_table attr func) = func"
proof (rule bit_word_eqI)
  fix n assume "n < LENGTH(32)"
  then consider "n < 16" | "16 \<le> n \<and> n < 32" by fastforce
  then show "bit (gate_offset (make_idt_table attr func)) n = bit func n"
    by cases (auto simp: gate_offset_def make_idt_table_def bit_simps bit_0xFFFF)
qed

lemma make_idt_table_gate:
  "attribute (make_idt_table (GDT_P_1 + GDT_DPL_0) f) = 0x8E"
  "attribute (make_idt_table (GDT_P_1 + GDT_DPL_3) f) = 0xEE"
  "selector (make_idt_table attr f) = 8"
  by (simp_all add: make_idt_table_def GDT_P_1_def GDT_DPL_0_def GDT_DPL_3_def SELECTOR_K_CODE_def)

lemma idt_init_loop:
  "n \<le> 0x81 \<Longrightarrow> fold (idt_init_step img) [0..<n] s =
     s\<lparr>idt_table := (\<lambda>v. if v < n \<and> v < 0x30 then make_idt_table (GDT_P_1 + GDT_DPL_0) (intr_entry img v) else idt_table s v),
       intr_func := (\<lambda>v. if v < n then (if v < 0x30 then intr_general_handler_at img else NULL) else intr_func s v),
       intr_name := (\<lambda>v. if v < n then ''unknown'' else intr_name s v)\<rparr>"
proof (induction n)
  case (Suc n)
  then show ?case by (cases s) (auto simp: idt_init_step_def Let_def IDT_DESC_CNT_def fun_eq_iff less_Suc_eq)
qed simp

lemma idt_init_fields:
  "idt_table (idt_init img s) = (\<lambda>v. if v < 0x30 then make_idt_table (GDT_P_1 + GDT_DPL_0) (intr_entry img v)
     else if v = 0x80 then make_idt_table (GDT_P_1 + GDT_DPL_3) (syscall_entry_at img) else idt_table s v)"
  "intr_func (idt_init img s) = (\<lambda>v. if v < 0x30 then intr_general_handler_at img
     else if v \<le> 0x80 then NULL else intr_func s v)"
  "idtr (idt_init img s) = 1031 OR push_bit 16 (ucast (idt_table_at img))"
proof -
  have "fold (idt_init_step img) [0..<IDT_VEC_MAX + 1] s = fold (idt_init_step img) [0..<0x81] s"
    by (simp add: IDT_VEC_MAX_def)
  note l = this [unfolded idt_init_loop [of "0x81" img s, simplified]]
  show "idt_table (idt_init img s) = (\<lambda>v. if v < 0x30 then make_idt_table (GDT_P_1 + GDT_DPL_0) (intr_entry img v)
     else if v = 0x80 then make_idt_table (GDT_P_1 + GDT_DPL_3) (syscall_entry_at img) else idt_table s v)"
    "intr_func (idt_init img s) = (\<lambda>v. if v < 0x30 then intr_general_handler_at img
     else if v \<le> 0x80 then NULL else intr_func s v)"
    "idtr (idt_init img s) = 1031 OR push_bit 16 (ucast (idt_table_at img))"
    unfolding idt_init_def Let_def l by (auto simp: IDT_VEC_MAX_def fun_eq_iff)
qed

lemma idtr_parts:
  "(ucast (1031 OR push_bit 16 (ucast (a :: u32)) :: u64) :: u16) = 1031"
  "(ucast (drop_bit 16 (1031 OR push_bit 16 (ucast (a :: u32)) :: u64)) :: u32) = a"
proof -
  have small: "\<not> bit (1031 :: u64) (n + 16)" for n
  proof -
    have "(1031 :: u64) = take_bit 16 1031" by simp
    then have "bit (1031 :: u64) (n + 16) = bit (take_bit 16 (1031 :: u64)) (n + 16)" by (rule arg_cong)
    then show ?thesis by (simp only: bit_take_bit_iff) simp
  qed
  show "(ucast (1031 OR push_bit 16 (ucast a) :: u64) :: u16) = 1031"
  proof (rule bit_word_eqI)
    fix n assume n: "n < LENGTH(16)"
    have "(1031 :: u16) = ucast (1031 :: u64)" by simp
    then have "bit (1031 :: u16) n = bit (1031 :: u64) n" using n by (simp only: bit_ucast_iff) simp
    then show "bit (ucast (1031 OR push_bit 16 (ucast a) :: u64) :: u16) n = bit (1031 :: u16) n"
      using n by (simp add: bit_simps)
  qed
  show "(ucast (drop_bit 16 (1031 OR push_bit 16 (ucast a) :: u64)) :: u32) = a"
  proof (rule bit_word_eqI)
    fix n assume n: "n < LENGTH(32)"
    show "bit (ucast (drop_bit 16 (1031 OR push_bit 16 (ucast a) :: u64)) :: u32) n = bit a n"
      using n small [of n] by (simp add: bit_simps add.commute)
  qed
qed

section \<open>Properties\<close>

text \<open>C14: after \<open>idt_init\<close>, over a table the loader left zero, the processor finds the table at its
  address; each of the vectors below \<open>0x30\<close> is delivered to its own entry stub in the kernel code
  segment but cannot be raised by an \<open>int\<close> of user code; \<open>int 0x80\<close> enters \<open>syscall_entry\<close> from every
  privilege level; every other vector faults. The stubs find the default handler.\<close>

theorem idt_gates:
  assumes "\<forall>v. 0x30 \<le> v \<and> v \<le> IDT_VEC_MAX \<longrightarrow> attribute (idt_table s v) = 0" and "cpl \<le> 3"
  shows "ucast (drop_bit 16 (idtr (idt_init img s))) = idt_table_at img \<and>
    (\<forall>v < 0x30. deliver (idt_init img s) v cpl False = Enter 8 (intr_entry img v) \<and>
       (0 < cpl \<longrightarrow> deliver (idt_init img s) v cpl True = Fault_GP) \<and>
       intr_func (idt_init img s) v = intr_general_handler_at img) \<and>
    deliver (idt_init img s) 0x80 cpl True = Enter 8 (syscall_entry_at img) \<and>
    (\<forall>v sw. 0x30 \<le> v \<and> v \<noteq> 0x80 \<longrightarrow> deliver (idt_init img s) v cpl sw = Fault_GP)"
proof (intro conjI allI impI)
  show "ucast (drop_bit 16 (idtr (idt_init img s))) = idt_table_at img" unfolding idt_init_fields by (rule idtr_parts)
  show "deliver (idt_init img s) 0x80 cpl True = Enter 8 (syscall_entry_at img)"
    using assms(2) by (simp add: deliver_def idt_init_fields idtr_parts make_idt_table_gate gate_offset_make Let_def)
  fix v :: nat and sw assume v: "0x30 \<le> v \<and> v \<noteq> 0x80"
  show "deliver (idt_init img s) v cpl sw = Fault_GP"
  proof (cases "v \<le> 0x80")
    case True
    then have "attribute (idt_table s v) = 0" using assms(1) v by (simp add: IDT_VEC_MAX_def)
    then show ?thesis using v by (simp add: deliver_def idt_init_fields Let_def)
  qed (simp add: deliver_def idt_init_fields idtr_parts)
qed (simp_all add: deliver_def idt_init_fields idtr_parts make_idt_table_gate gate_offset_make Let_def)

definition demo_image :: image where
  "demo_image = \<lparr>intr_entry = (\<lambda>v. 0xC0001000 + 64 * of_nat v), syscall_entry_at = 0xC0002000,
     idt_table_at = 0xC0009000, intr_general_handler_at = 0xC0003000\<rparr>"

definition demo_intr :: intr_state where
  "demo_intr = \<lparr>idt_table = (\<lambda>_. \<lparr>offset_1 = 0, selector = 0, zero_ = 0, attribute = 0, offset_2 = 0\<rparr>),
     intr_func = (\<lambda>_. NULL), intr_name = (\<lambda>_. []), idtr = 0\<rparr>"

theorem idt_gates_witness:
  "deliver (idt_init demo_image demo_intr) 0x0E 3 False = Enter 8 0xC0001380 \<and>
   deliver (idt_init demo_image demo_intr) 0x80 3 True = Enter 8 0xC0002000 \<and>
   deliver (idt_init demo_image demo_intr) 0x0E 3 True = Fault_GP \<and>
   deliver (idt_init demo_image demo_intr) 0x31 3 True = Fault_GP"
  using idt_gates [of demo_intr 3 demo_image] by (simp add: demo_intr_def demo_image_def)

text \<open>C15: \<open>pic_init\<close> leaves both controllers ready, whatever state they were in: line \<open>i\<close> is delivered at
  vector \<open>0x20 + i\<close>, the cascade is wired through line 2, and exactly the lines of the timer, the
  cascade and the four disk channels get through.\<close>

theorem pic_irqs:
  "(\<forall>i < 16. irq_vector (pic_init pics_dev d) i = of_nat (0x20 + i) \<and>
     irq_enabled (pic_init pics_dev d) i = (i \<in> {0, 2, 10, 11, 14, 15})) \<and>
   phase (fst (pic_init pics_dev d)) = Ready \<and> phase (snd (pic_init pics_dev d)) = Ready"
proof -
  obtain m s where d: "d = (m, s)" by fastforce
  have i: "i = 0 \<or> i = 1 \<or> i = 2 \<or> i = 3 \<or> i = 4 \<or> i = 5 \<or> i = 6 \<or> i = 7 \<or> i = 8 \<or> i = 9 \<or> i = 10 \<or> i = 11 \<or>
    i = 12 \<or> i = 13 \<or> i = 14 \<or> i = 15" if "i < 16" for i :: nat using that by presburger
  have p: "pic_init pics_dev d = (m\<lparr>phase := Ready, single := False, needs_icw4 := True, vec_base := 0x20,
      cascade := 4, pic_mode := 1, imr := 0xFA, isr := 0\<rparr>, s\<lparr>phase := Ready, single := False, needs_icw4 := True,
      vec_base := 0x28, cascade := 2, pic_mode := 1, imr := 0x33, isr := 0\<rparr>)"
    by (cases m; cases s) (simp add: d pic_init_def pics_dev_def pics_out_def outb_def pic_command_def Let_def
        PIC_M_CTRL_def PIC_M_DATA_def PIC_S_CTRL_def PIC_S_DATA_def)
  have "irq_vector (pic_init pics_dev d) i = of_nat (0x20 + i) \<and>
     irq_enabled (pic_init pics_dev d) i = (i \<in> {0, 2, 10, 11, 14, 15})" if "i < 16" for i
    using i [OF that] unfolding p by (elim disjE) (simp_all add: irq_vector_def irq_enabled_def)
  then show ?thesis unfolding p by simp
qed

definition cold_pic :: pic where
  "cold_pic = \<lparr>phase = Icw3, single = True, needs_icw4 = False, vec_base = 0, cascade = 0, pic_mode = 0, imr = 0, isr = 0\<rparr>"

theorem pic_irqs_witness:
  "irq_enabled (pic_init pics_dev (cold_pic, cold_pic)) 14 \<and> irq_vector (pic_init pics_dev (cold_pic, cold_pic)) 14 = 0x2E \<and>
   \<not> irq_enabled (pic_init pics_dev (cold_pic, cold_pic)) 1"
  using pic_irqs [of "(cold_pic, cold_pic)"] by simp

end
