(* ===== verification/KEntry.thy ===== *)
theory KEntry
  imports KIntr KSwitch
begin

text \<open>
  The way into the kernel: the interrupt stubs and \<open>syscall_entry\<close> of \<open>code/kernel/src/kernel.s\<close>,
  instruction by instruction on registers and word memory, the system calls of
  \<open>code/kernel/src/syscall_sys.c\<close> and the wrappers of \<open>code/usr\<close> that raise \<open>int 0x80\<close>. What a called C
  function does is a parameter \<open>call\<close>, from the \<open>call\<close> instruction to the return, bound to the C
  calling convention where a property needs it.
\<close>

section \<open>Machine\<close>

record xcpu = cpu +
  ecx :: u32
  edx :: u32
  ds :: u32
  es :: u32
  fs :: u32
  gs :: u32
  cs :: u32
  eflags :: u32

type_synonym xmachine = "xcpu \<times> (u32 \<Rightarrow> u32)"

definition pushad :: "xmachine \<Rightarrow> xmachine" where
  "pushad c = push (edi (fst c)) (push (esi (fst c)) (push (ebp (fst c)) (push (esp (fst c))
     (push (ebx (fst c)) (push (edx (fst c)) (push (ecx (fst c)) (push (eax (fst c)) c)))))))"

definition pop_reg :: "((u32 \<Rightarrow> u32) \<Rightarrow> xcpu \<Rightarrow> xcpu) \<Rightarrow> xmachine \<Rightarrow> xmachine" where
  "pop_reg upd c = (case pop_word c of (v, r, m) \<Rightarrow> (upd (\<lambda>_. v) r, m))"

definition drop_words :: "u32 \<Rightarrow> xmachine \<Rightarrow> xmachine" where
  "drop_words n c = ((fst c)\<lparr>esp := esp (fst c) + n\<rparr>, snd c)"

definition popad :: "xmachine \<Rightarrow> xmachine" where
  "popad c = pop_reg eax_update (pop_reg ecx_update (pop_reg edx_update (pop_reg ebx_update (drop_words 4
     (pop_reg ebp_update (pop_reg esi_update (pop_reg edi_update c)))))))"

definition iretd :: "xmachine \<Rightarrow> xmachine" where
  "iretd c = pop_reg eflags_update (pop_reg cs_update (pop_reg eip_update c))"

text \<open>The common head and tail of all entries.\<close>

definition save_context :: "xmachine \<Rightarrow> xmachine" where
  "save_context c = pushad (push (gs (fst c)) (push (fs (fst c)) (push (es (fst c)) (push (ds (fst c)) c))))"

definition restore_context :: "xmachine \<Rightarrow> xmachine" where
  "restore_context c =
     iretd (drop_words 4 (pop_reg ds_update (pop_reg es_update (pop_reg fs_update (pop_reg gs_update (popad c))))))"

section \<open>Interrupt stubs\<close>

text \<open>The vectors for which the processor pushes an error code itself.\<close>

definition has_error_code :: "nat \<Rightarrow> bool" where
  "has_error_code vec \<longleftrightarrow> vec \<in> {0x08, 0x0A, 0x0B, 0x0C, 0x0D, 0x0E, 0x11, 0x15, 0x1D, 0x1E}"

definition vector_entry :: "'d io_dev \<Rightarrow> (ptr \<Rightarrow> xmachine \<times> 'd \<Rightarrow> stop + xmachine \<times> 'd) \<Rightarrow> intr_state \<Rightarrow>
    nat \<Rightarrow> xmachine \<times> 'd \<Rightarrow> stop + xmachine \<times> 'd" where
  "vector_entry dev call s vec = (\<lambda>(c, d).
     let c1 = save_context (if has_error_code vec then c else push 0 c);
         c2 = ((fst c1)\<lparr>eax := eax (fst c1) AND 0xFFFFFF00 OR 0x20\<rparr>, snd c1);
         d2 = outb dev 0x20 0x20 (outb dev 0xA0 0x20 d)
     in rbind (call (intr_func s vec) (push (of_nat vec) c2, d2))
          (\<lambda>(c3, d3). Inr (restore_context (drop_words 4 c3), d3)))"

section \<open>System calls\<close>

definition SYSCALL_MAX :: nat where "SYSCALL_MAX = 32"
definition SYS_TEST0 :: u32 where "SYS_TEST0 = 0"
definition SYS_TEST1 :: u32 where "SYS_TEST1 = 1"
definition SYS_TEST2 :: u32 where "SYS_TEST2 = 2"
definition SYS_TEST3 :: u32 where "SYS_TEST3 = 3"

text \<open>
  The table \<open>syscall_func\<close> is read as \<open>[syscall_func + eax * 4]\<close> with no test of \<open>eax\<close>: it is given by
  byte offset, and offsets from \<open>4 * SYSCALL_MAX\<close> on name what the linker put behind it.
\<close>

definition syscall_entry :: "(ptr \<Rightarrow> xmachine \<times> 'd \<Rightarrow> stop + xmachine \<times> 'd) \<Rightarrow> (u32 \<Rightarrow> ptr) \<Rightarrow>
    xmachine \<times> 'd \<Rightarrow> stop + xmachine \<times> 'd" where
  "syscall_entry call syscall_func = (\<lambda>(c, d).
     let c1 = save_context (push 0 c);
         c2 = push (ebx (fst c1)) (push (ecx (fst c1)) (push (edx (fst c1)) c1));
         c3 = ((fst c2)\<lparr>eflags := intr_set_status True (eflags (fst c2))\<rparr>, snd c2)
     in rbind (call (syscall_func (eax (fst c3) * 4)) (c3, d))
          (\<lambda>(c4, d'). let c5 = drop_words 12 c4
             in Inr (restore_context (fst c5, (snd c5)(esp (fst c5) + 7 * 4 := eax (fst c5))), d')))"

record syscall_image =
  sys_test_syscall0_at :: ptr
  sys_test_syscall1_at :: ptr
  sys_test_syscall2_at :: ptr
  sys_test_syscall3_at :: ptr

definition syscall_init :: "syscall_image \<Rightarrow> (u32 \<Rightarrow> ptr) \<Rightarrow> u32 \<Rightarrow> ptr" where
  "syscall_init img t = t(4 * SYS_TEST0 := sys_test_syscall0_at img, 4 * SYS_TEST1 := sys_test_syscall1_at img,
     4 * SYS_TEST2 := sys_test_syscall2_at img, 4 * SYS_TEST3 := sys_test_syscall3_at img)"

definition sys_test_syscall0 :: "put list" where
  "sys_test_syscall0 = [Put_str (''sys_test_syscall0() called'' @ [nl])]"

definition sys_test_syscall1 :: "u32 \<Rightarrow> u32 \<times> put list" where
  "sys_test_syscall1 arg = (0x9527, [Put_str (''sys_test_syscall1()'' @ [nl]),
     Put_str ''argument 1: 0x'', Put_int arg, Put_str [nl]])"

definition sys_test_syscall2 :: "u32 \<Rightarrow> u32 \<Rightarrow> u32 \<times> put list" where
  "sys_test_syscall2 arg1 arg2 = (0x9528, [Put_str (''sys_test_syscall2()'' @ [nl]),
     Put_str ''argument 1: 0x'', Put_int arg1, Put_str [nl],
     Put_str ''argument 2: 0x'', Put_int arg2, Put_str [nl]])"

definition sys_test_syscall3 :: "u32 \<Rightarrow> u32 \<Rightarrow> u32 \<Rightarrow> u32 \<times> put list" where
  "sys_test_syscall3 arg1 arg2 arg3 = (0x9529, [Put_str (''sys_test_syscall3()'' @ [nl]),
     Put_str ''argument 1: 0x'', Put_int arg1, Put_str [nl],
     Put_str ''argument 2: 0x'', Put_int arg2, Put_str [nl],
     Put_str ''argument 3: 0x'', Put_int arg3, Put_str [nl]])"

section \<open>The caller's side\<close>

text \<open>
  \<open>int vec\<close> through an interrupt gate, without a change of privilege (the kernel has no user mode
  yet): flags, code segment and return address on the stack, IF, TF and the task flags cleared.
\<close>

definition interrupt :: "u16 \<Rightarrow> ptr \<Rightarrow> u32 option \<Rightarrow> xmachine \<Rightarrow> xmachine" where
  "interrupt sel target err c =
     (let c1 = push (eip (fst c)) (push (cs (fst c)) (push (eflags (fst c)) c));
          c2 = (case err of None \<Rightarrow> c1 | Some e \<Rightarrow> push e c1)
      in ((fst c2)\<lparr>cs := ucast sel, eip := target, eflags := eflags (fst c2) AND NOT 0x34300\<rparr>, snd c2))"

record 'd kernel =
  img :: image
  idt :: intr_state
  sys_table :: "u32 \<Rightarrow> ptr"
  run_call :: "ptr \<Rightarrow> xmachine \<times> 'd \<Rightarrow> stop + xmachine \<times> 'd"

definition int_0x80 :: "'d kernel \<Rightarrow> xmachine \<times> 'd \<Rightarrow> stop + xmachine \<times> 'd" where
  "int_0x80 k = (\<lambda>(c, d). case deliver (idt k) 0x80 (unat (cs (fst c) AND 3)) True of
     Enter sel target \<Rightarrow> if target = syscall_entry_at (img k)
       then syscall_entry (run_call k) (sys_table k) (interrupt sel target None c, d) else Inl Hang
   | Fault_GP \<Rightarrow> Inl Hang | Fault_NP \<Rightarrow> Inl Hang)"

definition syscall_with :: "'d kernel \<Rightarrow> (xcpu \<Rightarrow> xcpu) \<Rightarrow> xmachine \<times> 'd \<Rightarrow> stop + u32 \<times> xmachine \<times> 'd" where
  "syscall_with k load = (\<lambda>((r, m), d). rbind (int_0x80 k ((load r, m), d)) (\<lambda>(c, d'). Inr (eax (fst c), c, d')))"

definition syscall0 :: "'d kernel \<Rightarrow> u32 \<Rightarrow> xmachine \<times> 'd \<Rightarrow> stop + u32 \<times> xmachine \<times> 'd" where
  "syscall0 k number = syscall_with k (\<lambda>r. r\<lparr>eax := number\<rparr>)"

definition syscall1 :: "'d kernel \<Rightarrow> u32 \<Rightarrow> u32 \<Rightarrow> xmachine \<times> 'd \<Rightarrow> stop + u32 \<times> xmachine \<times> 'd" where
  "syscall1 k number arg1 = syscall_with k (\<lambda>r. r\<lparr>eax := number, ebx := arg1\<rparr>)"

definition syscall2 :: "'d kernel \<Rightarrow> u32 \<Rightarrow> u32 \<Rightarrow> u32 \<Rightarrow> xmachine \<times> 'd \<Rightarrow> stop + u32 \<times> xmachine \<times> 'd" where
  "syscall2 k number arg1 arg2 = syscall_with k (\<lambda>r. r\<lparr>eax := number, ebx := arg1, ecx := arg2\<rparr>)"

definition syscall3 :: "'d kernel \<Rightarrow> u32 \<Rightarrow> u32 \<Rightarrow> u32 \<Rightarrow> u32 \<Rightarrow> xmachine \<times> 'd \<Rightarrow> stop + u32 \<times> xmachine \<times> 'd" where
  "syscall3 k number arg1 arg2 arg3 =
     syscall_with k (\<lambda>r. r\<lparr>eax := number, ebx := arg1, ecx := arg2, edx := arg3\<rparr>)"

definition test_syscall0 :: "'d kernel \<Rightarrow> xmachine \<times> 'd \<Rightarrow> stop + xmachine \<times> 'd" where
  "test_syscall0 k c = rbind (syscall0 k SYS_TEST0 c) (\<lambda>(_, c'). Inr c')"

definition test_syscall1 :: "'d kernel \<Rightarrow> u32 \<Rightarrow> xmachine \<times> 'd \<Rightarrow> stop + u32 \<times> xmachine \<times> 'd" where
  "test_syscall1 k a = syscall1 k SYS_TEST1 a"

definition test_syscall2 :: "'d kernel \<Rightarrow> u32 \<Rightarrow> u32 \<Rightarrow> xmachine \<times> 'd \<Rightarrow> stop + u32 \<times> xmachine \<times> 'd" where
  "test_syscall2 k a b = syscall2 k SYS_TEST2 a b"

definition test_syscall3 :: "'d kernel \<Rightarrow> u32 \<Rightarrow> u32 \<Rightarrow> u32 \<Rightarrow> xmachine \<times> 'd \<Rightarrow> stop + u32 \<times> xmachine \<times> 'd" where
  "test_syscall3 k a b c = syscall3 k SYS_TEST3 a b c"

section \<open>Stack frames\<close>

text \<open>\<open>ws\<close> are the words on the stack from \<open>p\<close> up.\<close>

definition frame :: "u32 \<Rightarrow> u32 list \<Rightarrow> (u32 \<Rightarrow> u32) \<Rightarrow> bool" where
  "frame p ws m \<longleftrightarrow> (\<forall>i < length ws. m (p + 4 * of_nat i) = ws ! i)"

lemma frame_Cons: "frame p (v # ws) m \<longleftrightarrow> m p = v \<and> frame (p + 4) ws m"
proof -
  have "p + 4 + 4 * of_nat i = p + 4 * of_nat (Suc i)" for i by (simp add: algebra_simps)
  then show ?thesis by (auto simp: frame_def less_Suc_eq_0_disj nth_Cons add.assoc split: nat.splits)
qed

lemma frame_Nil [simp]: "frame p [] m" by (simp add: frame_def)

lemma frame_below:
  assumes "frame p ws m" and "length ws < 2 ^ 28" and "0 < k" and "k \<le> 2 ^ 28"
  shows "frame p ws (m(p - 4 * of_nat k := v))"
  unfolding frame_def
proof (intro allI impI)
  fix i assume i: "i < length ws"
  have "(4 :: u32) * of_nat i + 4 * of_nat k = of_nat (4 * i + 4 * k)" by simp
  moreover have "unat (of_nat (4 * i + 4 * k) :: u32) = 4 * i + 4 * k"
    using i assms(2,4) by (intro unat_of_nat_less) simp
  ultimately have "(4 :: u32) * of_nat i + 4 * of_nat k \<noteq> 0" using assms(3) by (metis add_is_0 mult_is_0 nat_less_le unat_0 zero_neq_numeral)
  then have "p + 4 * of_nat i \<noteq> p - 4 * of_nat k" by (simp add: eq_diff_eq add.assoc)
  then show "(m(p - 4 * of_nat k := v)) (p + 4 * of_nat i) = ws ! i" using assms(1) i by (simp add: frame_def)
qed

lemma frame_push:
  assumes "frame (esp (fst c)) ws (snd c)" and "length ws < 2 ^ 28"
  shows "frame (esp (fst (push v c))) (v # ws) (snd (push v c))"
  using frame_below [OF assms, of 1 v] by (simp add: push_def Let_def frame_Cons)

lemma frame_update:
  assumes "frame p ws m" and "i < length ws" and "length ws < 2 ^ 28"
  shows "frame p (ws[i := v]) (m(p + 4 * of_nat i := v))"
  unfolding frame_def
proof (intro allI impI)
  fix j assume j: "j < length (ws[i := v])"
  have n: "unat (of_nat (4 * k) :: u32) = 4 * k" if "k < length ws" for k
    using that assms(3) by (intro unat_of_nat_less) simp
  have "p + 4 * of_nat j = p + 4 * of_nat i \<longleftrightarrow> (of_nat (4 * j) :: u32) = of_nat (4 * i)" by simp
  also have "\<dots> \<longleftrightarrow> j = i" using n [of i] n [of j] j assms(2) by (metis length_list_update mult_cancel1 zero_neq_numeral)
  finally show "(m(p + 4 * of_nat i := v)) (p + 4 * of_nat j) = ws[i := v] ! j"
    using assms(1,2) j by (auto simp: frame_def nth_list_update)
qed

lemma push_regs: "fst (push v c) = (fst c)\<lparr>esp := esp (fst c) - 4\<rparr>"
  by (simp add: push_def Let_def)

lemma pushes_regs: "fst (fold push vs c) = (fst c)\<lparr>esp := esp (fst c) - 4 * of_nat (length vs)\<rparr>"
  by (induction vs arbitrary: c) (simp_all add: push_regs algebra_simps)

lemma frame_pushes:
  assumes "frame (esp (fst c)) ws (snd c)" and "length ws + length vs < 2 ^ 28"
  shows "frame (esp (fst (fold push vs c))) (rev vs @ ws) (snd (fold push vs c))"
  using assms
proof (induction vs arbitrary: c ws)
  case (Cons v vs)
  have "frame (esp (fst (push v c))) (v # ws) (snd (push v c))" using Cons.prems by (intro frame_push) simp_all
  from Cons.IH [OF this] Cons.prems(2) show ?case by simp
qed simp

text \<open>The words \<open>save_context\<close> leaves for the tail, and what the tail does with them.\<close>

definition context_words :: "xcpu \<Rightarrow> u32 list" where
  "context_words r = [edi r, esi r, ebp r, esp r - 16, ebx r, edx r, ecx r, eax r, gs r, fs r, es r, ds r]"

lemma context_length [simp]: "length (context_words r) = 12"
  by (simp add: context_words_def)

lemma save_context_pushes: "save_context c = fold push (rev (context_words (fst c))) c"
  by (simp add: save_context_def pushad_def push_regs context_words_def word_offset_simps)

lemma save_context_frame:
  assumes "frame (esp (fst c)) ws (snd c)" and "length ws < 2 ^ 27"
  shows "frame (esp (fst c) - 48) (context_words (fst c) @ ws) (snd (save_context c))"
    and "fst (save_context c) = (fst c)\<lparr>esp := esp (fst c) - 48\<rparr>"
  using frame_pushes [OF assms(1), of "rev (context_words (fst c))"] assms(2)
  by (simp_all add: save_context_pushes pushes_regs)

lemma pops_frame:
  "frame (esp r) ([di, si, bp, sp, bx, dx, cx, ax] @ ws) m \<Longrightarrow> popad (r, m) =
     (r\<lparr>edi := di, esi := si, ebp := bp, ebx := bx, edx := dx, ecx := cx, eax := ax, esp := esp r + 32\<rparr>, m)"
  "frame (esp r) ([g, f, e, d] @ ws) m \<Longrightarrow>
     pop_reg ds_update (pop_reg es_update (pop_reg fs_update (pop_reg gs_update (r, m)))) =
     (r\<lparr>gs := g, fs := f, es := e, ds := d, esp := esp r + 16\<rparr>, m)"
  "frame (esp r) ([ip, sel, fl] @ ws) m \<Longrightarrow> iretd (r, m) = (r\<lparr>eip := ip, cs := sel, eflags := fl, esp := esp r + 12\<rparr>, m)"
  by (simp_all add: frame_Cons popad_def iretd_def pop_reg_def pop_word_def drop_words_def add.assoc)

lemma frame_skip: "frame p (vs @ ws) m \<Longrightarrow> frame (p + 4 * of_nat (length vs)) ws m"
proof (induction vs arbitrary: p)
  case (Cons v vs)
  then show ?case using Cons.IH [of "p + 4"] by (simp add: frame_Cons algebra_simps)
qed simp

lemma restore_context_frame:
  assumes "frame (esp r) ([di, si, bp, sp, bx, dx, cx, ax, g, f, e, d, err, ip, sel, fl] @ ws) m"
  shows "restore_context (r, m) = (r\<lparr>edi := di, esi := si, ebp := bp, ebx := bx, edx := dx, ecx := cx, eax := ax,
      gs := g, fs := f, es := e, ds := d, eip := ip, cs := sel, eflags := fl, esp := esp r + 64\<rparr>, m)"
    and "frame (esp r + 64) ws m"
proof -
  let ?r1 = "r\<lparr>edi := di, esi := si, ebp := bp, ebx := bx, edx := dx, ecx := cx, eax := ax, esp := esp r + 32\<rparr>"
  let ?r2 = "?r1\<lparr>gs := g, fs := f, es := e, ds := d, esp := esp ?r1 + 16\<rparr>"
  have f1: "frame (esp ?r1) ([g, f, e, d] @ err # [ip, sel, fl] @ ws) m"
    using frame_skip [of "esp r" "[di, si, bp, sp, bx, dx, cx, ax]"] assms by simp
  have f2: "frame (esp (?r2\<lparr>esp := esp ?r2 + 4\<rparr>)) ([ip, sel, fl] @ ws) m"
    using frame_skip [of "esp r + 32" "[g, f, e, d, err]"] f1 by (simp add: add.commute)
  have "popad (r, m) = (?r1, m)" by (rule pops_frame(1)) (use assms in simp)
  then have "restore_context (r, m) = iretd (?r2\<lparr>esp := esp ?r2 + 4\<rparr>, m)"
    using pops_frame(2) [OF f1] by (simp add: restore_context_def drop_words_def)
  then show "restore_context (r, m) = (r\<lparr>edi := di, esi := si, ebp := bp, ebx := bx, edx := dx, ecx := cx, eax := ax,
      gs := g, fs := f, es := e, ds := d, eip := ip, cs := sel, eflags := fl, esp := esp r + 64\<rparr>, m)"
    using pops_frame(3) [OF f2] by simp
  show "frame (esp r + 64) ws m" using frame_skip [OF f2] by (simp add: add.commute)
qed

section \<open>The calling convention\<close>

text \<open>
  What the entries need of a C function: it gives back the stack pointer, and leaves the words above
  its own \<open>n\<close> argument words alone, as far as 64 words up.
\<close>

definition kept :: "nat \<Rightarrow> xmachine \<Rightarrow> xmachine \<Rightarrow> bool" where
  "kept n c c' \<longleftrightarrow> esp (fst c') = esp (fst c) \<and> (\<forall>i. n \<le> i \<and> i < 64 \<longrightarrow>
     snd c' (esp (fst c) + 4 * of_nat i) = snd c (esp (fst c) + 4 * of_nat i))"

lemma kept_frame:
  assumes "kept n c c'" and "frame (esp (fst c)) (args @ ws) (snd c)" and "n \<le> length args" and "length args + length ws \<le> 64"
  shows "frame (esp (fst c') + 4 * of_nat (length args)) ws (snd c')"
  unfolding frame_def
proof (intro allI impI)
  fix i assume i: "i < length ws"
  let ?j = "length args + i"
  have "snd c' (esp (fst c) + 4 * of_nat ?j) = snd c (esp (fst c) + 4 * of_nat ?j)"
    using assms(1)[unfolded kept_def, THEN conjunct2, THEN spec, of ?j] assms(3,4) i by linarith
  moreover have "snd c (esp (fst c) + 4 * of_nat ?j) = (args @ ws) ! ?j"
    using assms(2) i unfolding frame_def by (metis length_append nat_add_left_cancel_less)
  ultimately show "snd c' (esp (fst c') + 4 * of_nat (length args) + 4 * of_nat i) = ws ! i"
    using assms(1) by (simp add: kept_def algebra_simps nth_append)
qed

lemma drop_frame: "kept n c c' \<Longrightarrow> frame (esp (fst c)) (args @ ws) (snd c) \<Longrightarrow> n \<le> length args \<Longrightarrow> length args + length ws \<le> 64 \<Longrightarrow>
    frame (esp (fst (drop_words (4 * of_nat (length args)) c'))) ws (snd (drop_words (4 * of_nat (length args)) c'))"
  by (simp add: drop_words_def kept_frame)

lemma restore_context_words:
  assumes "frame (esp (fst c)) (context_words r @ err # ip # sel # fl # ws) (snd c)" and "esp (fst c) + 64 = p"
  shows "fst (restore_context c) = r\<lparr>eip := ip, cs := sel, eflags := fl, esp := p\<rparr>"
    and "frame p ws (snd (restore_context c))"
proof -
  obtain q m where c: "c = (q, m)" by fastforce
  note f = assms(1)[unfolded c fst_conv snd_conv context_words_def append.simps]
  have "frame (esp q) ([edi r, esi r, ebp r, esp r - 16, ebx r, edx r, ecx r, eax r, gs r, fs r, es r, ds r, err, ip, sel, fl] @ ws) m"
    using f by simp
  note w = restore_context_frame [OF this]
  show "fst (restore_context c) = r\<lparr>eip := ip, cs := sel, eflags := fl, esp := p\<rparr>"
    using w(1) assms(2) by (cases q; cases r) (simp add: c)
  show "frame p ws (snd (restore_context c))" using w assms(2) by (simp add: c)
qed

text \<open>The stack and the registers of an entry once the error code is in place.\<close>

definition entered :: "u32 \<Rightarrow> xcpu \<Rightarrow> u32 list \<Rightarrow> xmachine \<Rightarrow> bool" where
  "entered err r ws c \<longleftrightarrow> frame (esp (fst c)) (err # eip r # cs r # eflags r # ws) (snd c) \<and>
     (\<exists>sel target fl. fst c = r\<lparr>esp := esp r - 16, cs := sel, eip := target, eflags := fl\<rparr>)"

lemma interrupt_entered:
  assumes "frame (esp (fst c)) ws (snd c)" and "length ws \<le> 40"
  shows "entered e (fst c) ws (interrupt sel target (Some e) c)"
    and "entered 0 (fst c) ws (push 0 (interrupt sel target None c))"
proof -
  obtain r m where c: "c = (r, m)" by fastforce
  have f: "frame (esp (fst (fold push [eflags r, cs r, eip r, x] c))) (x # eip r # cs r # eflags r # ws)
      (snd (fold push [eflags r, cs r, eip r, x] c))" for x
    using frame_pushes [OF assms(1), of "[eflags r, cs r, eip r, x]"] assms(2) by simp
  have i: "entered x (fst c) ws c'" if "snd c' = snd (fold push [eflags r, cs r, eip r, x] c)"
    "fst c' = r\<lparr>esp := esp r - 16, cs := ucast sel, eip := target, eflags := eflags r AND NOT 0x34300\<rparr>" for x c'
  proof -
    have "esp (fst (fold push [eflags r, cs r, eip r, x] c)) = esp (fst c')" by (simp add: pushes_regs that(2) c del: fold.simps)
    then show ?thesis using f [of x] that unfolding entered_def by (simp add: c) blast
  qed
  show "entered e (fst c) ws (interrupt sel target (Some e) c)"
    by (rule i; cases r) (simp_all add: c interrupt_def push_def Let_def word_offset_simps)
  show "entered 0 (fst c) ws (push 0 (interrupt sel target None c))"
    by (rule i; cases r) (simp_all add: c interrupt_def push_def Let_def word_offset_simps)
qed

lemma saved_entry:
  assumes "entered err r ws c" and "length ws \<le> 40"
  shows "frame (esp r - 64) (context_words (r\<lparr>esp := esp r - 16\<rparr>) @ err # eip r # cs r # eflags r # ws) (snd (save_context c))"
    and "\<exists>sel target fl. fst (save_context c) = r\<lparr>esp := esp r - 64, cs := sel, eip := target, eflags := fl\<rparr>"
proof -
  obtain sel target fl where r: "fst c = r\<lparr>esp := esp r - 16, cs := sel, eip := target, eflags := fl\<rparr>"
    and f: "frame (esp (fst c)) (err # eip r # cs r # eflags r # ws) (snd c)"
    using assms(1) unfolding entered_def by blast
  have w: "context_words (fst c) = context_words (r\<lparr>esp := esp r - 16\<rparr>)" by (simp add: r context_words_def)
  note s = save_context_frame [OF f]
  have l: "length (err # eip r # cs r # eflags r # ws) < 2 ^ 27" using assms(2) by simp
  show "frame (esp r - 64) (context_words (r\<lparr>esp := esp r - 16\<rparr>) @ err # eip r # cs r # eflags r # ws) (snd (save_context c))"
    using s(1) [OF l] unfolding w by (simp add: r)
  show "\<exists>sel target fl. fst (save_context c) = r\<lparr>esp := esp r - 64, cs := sel, eip := target, eflags := fl\<rparr>"
    using s(2) [OF l] by (cases r) (auto simp: r)
qed

locale c_functions =
  fixes call :: "ptr \<Rightarrow> xmachine \<times> 'd \<Rightarrow> stop + xmachine \<times> 'd"
    and arity :: "ptr \<Rightarrow> nat"
  assumes convention: "call f (c, d) = Inr (c', d') \<Longrightarrow> kept (arity f) c c'"
begin

lemma vector_entry_calls:
  assumes "arity (intr_func s vec) \<le> 1" and "length ws \<le> 40" and "frame (esp (fst c)) ws (snd c)"
    and "has_error_code vec \<longleftrightarrow> err \<noteq> None"
  obtains c2 where "frame (esp (fst c2)) [of_nat vec] (snd c2)"
    and "\<And>c3 d3. call (intr_func s vec) (c2, outb dev 0x20 0x20 (outb dev 0xA0 0x20 d)) = Inr (c3, d3) \<Longrightarrow>
      \<exists>m. vector_entry dev call s vec (interrupt sel target err c, d) = Inr ((fst c, m), d3) \<and> frame (esp (fst c)) ws m"
proof -
  let ?r = "fst c"
  let ?c0 = "interrupt sel target err c"
  let ?c1 = "if has_error_code vec then ?c0 else push 0 ?c0"
  obtain e where c1: "entered e ?r ws ?c1"
    using interrupt_entered [OF assms(3,2), where sel = sel and target = target] assms(4) by (cases err) auto
  let ?w = "context_words (?r\<lparr>esp := esp ?r - 16\<rparr>) @ e # eip ?r # cs ?r # eflags ?r # ws"
  note s = saved_entry [OF c1 assms(2)]
  let ?c2 = "((fst (save_context ?c1))\<lparr>eax := eax (fst (save_context ?c1)) AND 0xFFFFFF00 OR 0x20\<rparr>, snd (save_context ?c1))"
  have e2: "esp (fst ?c2) = esp ?r - 64" using s(2) by auto
  then have "frame (esp (fst ?c2)) ?w (snd ?c2)" using s(1) by simp
  then have f3: "frame (esp (fst (push (of_nat vec) ?c2))) ([of_nat vec] @ ?w) (snd (push (of_nat vec) ?c2))"
    using frame_push [of ?c2 ?w "of_nat vec"] assms(2) by simp
  show thesis
  proof (rule that [of "push (of_nat vec) ?c2"])
    show "frame (esp (fst (push (of_nat vec) ?c2))) [of_nat vec] (snd (push (of_nat vec) ?c2))"
      using f3 by (simp add: frame_Cons)
    fix c3 d3
    assume call: "call (intr_func s vec) (push (of_nat vec) ?c2, outb dev 0x20 0x20 (outb dev 0xA0 0x20 d)) = Inr (c3, d3)"
    note k = convention [OF call]
    have "frame (esp (fst (drop_words 4 c3))) ?w (snd (drop_words 4 c3))"
      using drop_frame [OF k f3] assms(1,2) by simp
    moreover have "esp (fst c3) = esp ?r - 68" using k e2 by (simp add: kept_def push_regs)
    then have "esp (fst (drop_words 4 c3)) + 64 = esp ?r" by (simp add: drop_words_def)
    ultimately have "fst (restore_context (drop_words 4 c3)) = ?r"
      "frame (esp ?r) ws (snd (restore_context (drop_words 4 c3)))"
      using restore_context_words [where c = "drop_words 4 c3" and r = "?r\<lparr>esp := esp ?r - 16\<rparr>"] by auto
    moreover have "vector_entry dev call s vec (?c0, d) = Inr (restore_context (drop_words 4 c3), d3)"
      using call by (simp add: vector_entry_def Let_def)
    ultimately show "\<exists>m. vector_entry dev call s vec (?c0, d) = Inr ((?r, m), d3) \<and> frame (esp ?r) ws m"
      by (metis prod.collapse)
  qed
qed

lemma syscall_entry_calls:
  assumes "arity (tbl (eax (fst c) * 4)) \<le> 3" and "length ws \<le> 40" and "frame (esp (fst c)) ws (snd c)"
  obtains c3 where "frame (esp (fst c3)) [ebx (fst c), ecx (fst c), edx (fst c)] (snd c3)"
    and "\<And>c4 d'. call (tbl (eax (fst c) * 4)) (c3, d) = Inr (c4, d') \<Longrightarrow>
      \<exists>m. syscall_entry call tbl (interrupt sel target None c, d) = Inr (((fst c)\<lparr>eax := eax (fst c4)\<rparr>, m), d') \<and>
        frame (esp (fst c)) ws m"
proof -
  let ?r = "fst c"
  let ?c0 = "interrupt sel target None c"
  have c1: "entered 0 ?r ws (push 0 ?c0)" by (rule interrupt_entered [OF assms(3,2)])
  let ?w = "\<lambda>v. context_words (?r\<lparr>esp := esp ?r - 16, eax := v\<rparr>) @ 0 # eip ?r # cs ?r # eflags ?r # ws"
  note s = saved_entry [OF c1 assms(2)]
  let ?c1 = "save_context (push 0 ?c0)"
  let ?c2 = "push (ebx ?r) (push (ecx ?r) (push (edx ?r) ?c1))"
  let ?c3 = "((fst ?c2)\<lparr>eflags := intr_set_status True (eflags (fst ?c2))\<rparr>, snd ?c2)"
  have r1: "eax (fst ?c1) = eax ?r" "ebx (fst ?c1) = ebx ?r" "ecx (fst ?c1) = ecx ?r" "edx (fst ?c1) = edx ?r"
    "esp (fst ?c1) = esp ?r - 64" using s(2) by auto
  have "frame (esp (fst ?c1)) (?w (eax ?r)) (snd ?c1)" using s(1) by (simp add: r1 context_words_def)
  then have f3: "frame (esp (fst ?c3)) ([ebx ?r, ecx ?r, edx ?r] @ ?w (eax ?r)) (snd ?c3)"
    using frame_pushes [of ?c1 "?w (eax ?r)" "[edx ?r, ecx ?r, ebx ?r]"] assms(2) by simp
  show thesis
  proof (rule that [of ?c3])
    show "frame (esp (fst ?c3)) [ebx ?r, ecx ?r, edx ?r] (snd ?c3)" using f3 by (simp add: frame_Cons)
    fix c4 d' assume call: "call (tbl (eax ?r * 4)) (?c3, d) = Inr (c4, d')"
    note k = convention [OF call]
    let ?c5 = "drop_words 12 c4"
    have f5: "frame (esp (fst ?c5)) (?w (eax ?r)) (snd ?c5)" using drop_frame [OF k f3] assms(1,2) by simp
    let ?c6 = "(fst ?c5, (snd ?c5)(esp (fst ?c5) + 7 * 4 := eax (fst ?c5)))"
    have "frame (esp (fst ?c5)) ((?w (eax ?r))[7 := eax (fst ?c5)]) ((snd ?c5)(esp (fst ?c5) + 4 * of_nat 7 := eax (fst ?c5)))"
      by (rule frame_update [OF f5]) (use assms(2) in simp_all)
    then have "frame (esp (fst ?c6)) (?w (eax (fst c4))) (snd ?c6)" by (simp add: context_words_def drop_words_def)
    moreover have "esp (fst c4) = esp ?r - 76" using k by (simp add: kept_def push_regs r1)
    then have "esp (fst ?c6) + 64 = esp ?r" by (simp add: drop_words_def)
    ultimately have "fst (restore_context ?c6) = ?r\<lparr>eax := eax (fst c4)\<rparr>" "frame (esp ?r) ws (snd (restore_context ?c6))"
      using restore_context_words [where c = ?c6 and r = "?r\<lparr>esp := esp ?r - 16, eax := eax (fst c4)\<rparr>"] by auto
    moreover have "syscall_entry call tbl (?c0, d) = Inr (restore_context ?c6, d')"
      using call by (simp add: syscall_entry_def Let_def r1 push_regs)
    ultimately show "\<exists>m. syscall_entry call tbl (?c0, d) = Inr ((?r\<lparr>eax := eax (fst c4)\<rparr>, m), d') \<and> frame (esp ?r) ws m"
      by (metis prod.collapse)
  qed
qed

end

text \<open>
  Compiled functions: at address \<open>f\<close> a function of \<open>n\<close> argument words with the meaning \<open>g\<close>. The
  return address is on the stack below the arguments, a value comes back in \<open>eax\<close>, and the
  caller-saved registers are left with \<open>scratch\<close>. An address that holds no function faults.
\<close>

type_synonym 'd code = "ptr \<Rightarrow> (nat \<times> (u32 list \<Rightarrow> 'd \<Rightarrow> stop + u32 option \<times> 'd)) option"

definition c_call :: "u32 \<times> u32 \<times> u32 \<Rightarrow> 'd code \<Rightarrow> ptr \<Rightarrow> xmachine \<times> 'd \<Rightarrow> stop + xmachine \<times> 'd" where
  "c_call scratch fns f = (\<lambda>((r, m), d). case fns f of None \<Rightarrow> Inl Page_fault
   | Some (n, g) \<Rightarrow> rbind (g (map (\<lambda>i. m (esp r + 4 * of_nat i)) [0..<n]) d) (\<lambda>(v, d').
       Inr ((r\<lparr>eax := (case v of None \<Rightarrow> fst scratch | Some x \<Rightarrow> x), ecx := fst (snd scratch), edx := snd (snd scratch)\<rparr>,
         m(esp r - 4 := eip r)), d')))"

definition c_arity :: "'d code \<Rightarrow> ptr \<Rightarrow> nat" where
  "c_arity fns f = (case fns f of None \<Rightarrow> 0 | Some (n, g) \<Rightarrow> n)"

lemma c_call_kept: "c_call scratch fns f (c, d) = Inr (c', d') \<Longrightarrow> kept (c_arity fns f) c c'"
proof -
  assume h: "c_call scratch fns f (c, d) = Inr (c', d')"
  obtain r m where c: "c = (r, m)" by fastforce
  have "esp r + 4 * of_nat i \<noteq> esp r - 4" if "i < 64" for i
  proof -
    have "(4 :: u32) * of_nat i + 4 = of_nat (4 * i + 4)" by simp
    moreover have "unat (of_nat (4 * i + 4) :: u32) = 4 * i + 4" using that by (intro unat_of_nat_less) simp
    ultimately have "(4 :: u32) * of_nat i + 4 \<noteq> 0" by (metis add_is_0 unat_0 zero_neq_numeral)
    then show ?thesis by (simp add: eq_diff_eq add.assoc)
  qed
  moreover obtain n g where "fns f = Some (n, g)" using h by (auto simp: c_call_def c split: option.splits)
  ultimately show ?thesis using h by (auto simp: c_call_def c rbind_Inr_iff kept_def)
qed

interpretation code: c_functions "c_call scratch fns" "c_arity fns" for scratch fns
  by unfold_locales (rule c_call_kept)

lemma c_call_returns:
  assumes "fns f = Some (n, g)" and "frame (esp (fst c)) args (snd c)" and "n \<le> length args" and "g (take n args) d = Inr (v, d')"
  obtains c' where "c_call scratch fns f (c, d) = Inr (c', d')" and "\<And>x. v = Some x \<Longrightarrow> eax (fst c') = x"
proof -
  obtain r m where c: "c = (r, m)" by fastforce
  have "map (\<lambda>i. m (esp r + 4 * of_nat i)) [0..<n] = take n args"
    using assms(2,3) by (intro nth_equalityI) (simp_all add: c frame_def)
  then show thesis using that assms(1,4) by (simp add: c_call_def c)
qed

text \<open>The functions of \<open>syscall_sys.c\<close>, at their addresses.\<close>

definition sys_code :: "syscall_image \<Rightarrow> put list code" where
  "sys_code im f =
     (if f = sys_test_syscall0_at im then Some (0, \<lambda>_ out. Inr (None, out @ sys_test_syscall0))
      else if f = sys_test_syscall1_at im then
        Some (1, \<lambda>a out. case sys_test_syscall1 (a ! 0) of (v, ps) \<Rightarrow> Inr (Some v, out @ ps))
      else if f = sys_test_syscall2_at im then
        Some (2, \<lambda>a out. case sys_test_syscall2 (a ! 0) (a ! 1) of (v, ps) \<Rightarrow> Inr (Some v, out @ ps))
      else if f = sys_test_syscall3_at im then
        Some (3, \<lambda>a out. case sys_test_syscall3 (a ! 0) (a ! 1) (a ! 2) of (v, ps) \<Rightarrow> Inr (Some v, out @ ps))
      else None)"

lemma sys_codes:
  assumes "distinct [sys_test_syscall0_at im, sys_test_syscall1_at im, sys_test_syscall2_at im, sys_test_syscall3_at im]"
  shows "sys_code im (sys_test_syscall0_at im) = Some (0, \<lambda>_ out. Inr (None, out @ sys_test_syscall0))"
    "sys_code im (sys_test_syscall1_at im) = Some (1, \<lambda>a out. case sys_test_syscall1 (a ! 0) of (v, ps) \<Rightarrow> Inr (Some v, out @ ps))"
    "sys_code im (sys_test_syscall2_at im) =
       Some (2, \<lambda>a out. case sys_test_syscall2 (a ! 0) (a ! 1) of (v, ps) \<Rightarrow> Inr (Some v, out @ ps))"
    "sys_code im (sys_test_syscall3_at im) =
       Some (3, \<lambda>a out. case sys_test_syscall3 (a ! 0) (a ! 1) (a ! 2) of (v, ps) \<Rightarrow> Inr (Some v, out @ ps))"
  using assms by (auto simp: sys_code_def)

definition boot_kernel :: "image \<Rightarrow> intr_state \<Rightarrow> syscall_image \<Rightarrow> (u32 \<Rightarrow> ptr) \<Rightarrow> u32 \<times> u32 \<times> u32 \<Rightarrow> put list kernel" where
  "boot_kernel im s sim t scratch =
     \<lparr>img = im, idt = idt_init im s, sys_table = syscall_init sim t, run_call = c_call scratch (sys_code sim)\<rparr>"

lemma deliver_syscall: "deliver (idt_init im s) 0x80 (unat (w AND 3 :: u32)) True = Enter 8 (syscall_entry_at im)"
proof -
  have "w AND 3 \<le> 3" by (rule word_and_le1)
  then have "unat (w AND 3) \<le> 3" by (simp add: word_le_nat_alt)
  then show ?thesis by (simp add: deliver_def idt_init_fields idtr_parts make_idt_table_gate gate_offset_make Let_def)
qed

lemma syscall_with_runs:
  assumes "sys_code sim f = Some (n, g)" and "n \<le> 3" and "syscall_init sim t (eax (load r) * 4) = f"
    and "esp (load r) = esp r" and "g (take n [ebx (load r), ecx (load r), edx (load r)]) d = Inr (v, d')"
    and "frame (esp r) ws m" and "length ws \<le> 40"
  shows "\<exists>x m'. syscall_with (boot_kernel im s sim t scratch) load ((r, m), d) = Inr (x, ((load r)\<lparr>eax := x\<rparr>, m'), d') \<and>
    frame (esp r) ws m' \<and> (\<forall>y. v = Some y \<longrightarrow> x = y)"
proof -
  let ?c = "(load r, m)"
  have ar: "c_arity (sys_code sim) (syscall_init sim t (eax (fst ?c) * 4)) \<le> 3" using assms(1,2,3) by (simp add: c_arity_def)
  have fr: "frame (esp (fst ?c)) ws (snd ?c)" using assms(4,6) by simp
  obtain c3 where c3: "frame (esp (fst c3)) [ebx (load r), ecx (load r), edx (load r)] (snd c3)"
    and run: "\<And>c4 d'. c_call scratch (sys_code sim) f (c3, d) = Inr (c4, d') \<Longrightarrow>
      \<exists>m'. syscall_entry (c_call scratch (sys_code sim)) (syscall_init sim t) (interrupt 8 (syscall_entry_at im) None ?c, d) =
        Inr (((load r)\<lparr>eax := eax (fst c4)\<rparr>, m'), d') \<and> frame (esp r) ws m'"
    by (rule code.syscall_entry_calls [where c = ?c and fns = "sys_code sim" and tbl = "syscall_init sim t" and ws = ws and d = d and
        scratch = scratch and sel = 8 and target = "syscall_entry_at im", OF ar assms(7) fr]) (simp add: assms(3,4))
  obtain c4 where c4: "c_call scratch (sys_code sim) f (c3, d) = Inr (c4, d')" "\<And>x. v = Some x \<Longrightarrow> eax (fst c4) = x"
    by (rule c_call_returns [where c = c3 and g = g and n = n and scratch = scratch and fns = "sys_code sim" and f = f and args = "[ebx (load r), ecx (load r), edx (load r)]",
        OF assms(1) c3 _ assms(5)]) (use assms(2) in simp_all)
  show ?thesis using run [OF c4(1)] c4(2)
    by (auto simp: syscall_with_def int_0x80_def boot_kernel_def deliver_syscall)
qed

section \<open>Properties\<close>

text \<open>C13: an interrupt is invisible to the code it interrupts. Whatever the vector, with or without an
  error code, the stub acknowledges both controllers, calls the registered handler once with the
  vector as its argument, and returns to the interrupted instruction with every register, the flags
  and the stack as they were.\<close>

theorem interrupt_transparent:
  assumes "fns (intr_func s vec) = Some (n, g)" and "n \<le> 1"
    and "g (take n [of_nat vec]) (outb dev 0x20 0x20 (outb dev 0xA0 0x20 d)) = Inr (v, d')"
    and "has_error_code vec \<longleftrightarrow> err \<noteq> None"
    and "length ws \<le> 40" and "frame (esp (fst c)) ws (snd c)"
  shows "\<exists>m. vector_entry dev (c_call scratch fns) s vec (interrupt sel target err c, d) = Inr ((fst c, m), d') \<and>
    frame (esp (fst c)) ws m"
proof -
  have "c_arity fns (intr_func s vec) \<le> 1" using assms(1,2) by (simp add: c_arity_def)
  from code.vector_entry_calls [OF this assms(5,6,4)] obtain c2 where c2: "frame (esp (fst c2)) [of_nat vec] (snd c2)"
    and run: "\<And>c3 d3. c_call scratch fns (intr_func s vec) (c2, outb dev 0x20 0x20 (outb dev 0xA0 0x20 d)) = Inr (c3, d3) \<Longrightarrow>
      \<exists>m. vector_entry dev (c_call scratch fns) s vec (interrupt sel target err c, d) = Inr ((fst c, m), d3) \<and>
        frame (esp (fst c)) ws m" by metis
  obtain c3 where "c_call scratch fns (intr_func s vec) (c2, outb dev 0x20 0x20 (outb dev 0xA0 0x20 d)) = Inr (c3, d')"
    by (rule c_call_returns [where c = c2 and g = g and n = n and scratch = scratch and fns = fns and f = "intr_func s vec" and args = "[of_nat vec]", OF assms(1) c2 _ assms(3)]) (use assms(2) in simp_all)
  then show ?thesis by (rule run)
qed

definition demo_cpu :: xcpu where
  "demo_cpu = \<lparr>eax = 1, ebx = 2, ebp = 3, esi = 4, edi = 5, esp = 0xC0100F00, eip = 0xC0004444, ecx = 6, edx = 7,
     ds = 0x10, es = 0x10, fs = 0x10, gs = 0x18, cs = 8, eflags = 0x202\<rparr>"

definition demo_pic :: pic where
  "demo_pic = \<lparr>phase = Ready, single = False, needs_icw4 = True, vec_base = 0x20, cascade = 4, pic_mode = 1, imr = 0xFA, isr = 1\<rparr>"

text \<open>A handler that does nothing, on vector \<open>0x20\<close>.\<close>

definition demo_handler :: "(pic \<times> pic) code" where
  "demo_handler = [0xC0003000 \<mapsto> (1, \<lambda>a d. Inr (None, d))]"

theorem interrupt_transparent_witness:
  "\<exists>m. vector_entry pics_dev (c_call (11, 12, 13) demo_handler) (demo_intr\<lparr>intr_func := (\<lambda>_. 0xC0003000)\<rparr>) 0x20
      (interrupt 8 0xC0001800 None (demo_cpu, \<lambda>_. 9), (demo_pic, demo_pic)) =
     Inr ((demo_cpu, m), (demo_pic\<lparr>isr := 0\<rparr>, demo_pic\<lparr>isr := 0\<rparr>)) \<and> frame 0xC0100F00 [9, 9] m"
  using interrupt_transparent [where fns = demo_handler and s = "demo_intr\<lparr>intr_func := (\<lambda>_. 0xC0003000)\<rparr>" and vec = "0x20"
      and n = 1 and g = "\<lambda>a d. Inr (None, d)" and dev = pics_dev and d = "(demo_pic, demo_pic)" and v = None
      and d' = "(demo_pic\<lparr>isr := 0\<rparr>, demo_pic\<lparr>isr := 0\<rparr>)" and err = None and ws = "[9, 9]" and c = "(demo_cpu, \<lambda>_. 9)"
      and scratch = "(11, 12, 13)" and sel = 8 and target = "0xC0001800"]
  by (simp add: demo_handler_def has_error_code_def frame_Cons pics_dev_def pics_out_def outb_def pic_command_def demo_pic_def demo_cpu_def)

text \<open>C12: the system calls come back. After \<open>idt_init\<close> and \<open>syscall_init\<close>, each wrapper of user code
  raises \<open>int 0x80\<close>, its function sees the arguments of the wrapper, and the wrapper returns the
  result of the function with all other registers and the stack of the caller as they were.\<close>

theorem syscall_roundtrip:
  assumes "distinct [sys_test_syscall0_at sim, sys_test_syscall1_at sim, sys_test_syscall2_at sim, sys_test_syscall3_at sim]"
    and "frame (esp r) ws m" and "length ws \<le> 40" and "k = boot_kernel im s sim t scratch"
  shows "(\<exists>x m'. test_syscall0 k ((r, m), out) = Inr ((r\<lparr>eax := x\<rparr>, m'), out @ sys_test_syscall0) \<and> frame (esp r) ws m') \<and>
    (\<exists>m'. test_syscall1 k a ((r, m), out) =
       Inr (0x9527, (r\<lparr>eax := 0x9527, ebx := a\<rparr>, m'), out @ snd (sys_test_syscall1 a)) \<and> frame (esp r) ws m') \<and>
    (\<exists>m'. test_syscall2 k a b ((r, m), out) =
       Inr (0x9528, (r\<lparr>eax := 0x9528, ebx := a, ecx := b\<rparr>, m'), out @ snd (sys_test_syscall2 a b)) \<and> frame (esp r) ws m') \<and>
    (\<exists>m'. test_syscall3 k a b c ((r, m), out) =
       Inr (0x9529, (r\<lparr>eax := 0x9529, ebx := a, ecx := b, edx := c\<rparr>, m'), out @ snd (sys_test_syscall3 a b c)) \<and>
       frame (esp r) ws m')"
proof (intro conjI)
  note run = syscall_with_runs [where r = r and d = out and m = m and ws = ws and im = im and s = s and scratch = scratch and sim = sim and t = t,
      OF _ _ _ _ _ assms(2,3), folded assms(4)]
  note defs = syscall_init_def SYS_TEST0_def SYS_TEST1_def SYS_TEST2_def SYS_TEST3_def
  have "\<exists>x m'. syscall_with k (\<lambda>r. r\<lparr>eax := SYS_TEST0\<rparr>) ((r, m), out) =
      Inr (x, ((r\<lparr>eax := SYS_TEST0\<rparr>)\<lparr>eax := x\<rparr>, m'), out @ sys_test_syscall0) \<and> frame (esp r) ws m' \<and> (\<forall>y. None = Some y \<longrightarrow> x = y)"
    by (rule run [OF sys_codes(1) [OF assms(1)]]) (use assms(1) in \<open>simp_all add: defs\<close>)
  then show "\<exists>x m'. test_syscall0 k ((r, m), out) = Inr ((r\<lparr>eax := x\<rparr>, m'), out @ sys_test_syscall0) \<and> frame (esp r) ws m'"
    by (auto simp: test_syscall0_def syscall0_def)
  have "\<exists>x m'. syscall_with k (\<lambda>r. r\<lparr>eax := SYS_TEST1, ebx := a\<rparr>) ((r, m), out) =
      Inr (x, ((r\<lparr>eax := SYS_TEST1, ebx := a\<rparr>)\<lparr>eax := x\<rparr>, m'), out @ snd (sys_test_syscall1 a)) \<and>
      frame (esp r) ws m' \<and> (\<forall>y. Some (fst (sys_test_syscall1 a)) = Some y \<longrightarrow> x = y)"
    by (rule run [OF sys_codes(2) [OF assms(1)]]) (use assms(1) in \<open>simp_all add: defs case_prod_beta\<close>)
  then show "\<exists>m'. test_syscall1 k a ((r, m), out) =
       Inr (0x9527, (r\<lparr>eax := 0x9527, ebx := a\<rparr>, m'), out @ snd (sys_test_syscall1 a)) \<and> frame (esp r) ws m'"
    by (auto simp: test_syscall1_def syscall1_def sys_test_syscall1_def)
  have "\<exists>x m'. syscall_with k (\<lambda>r. r\<lparr>eax := SYS_TEST2, ebx := a, ecx := b\<rparr>) ((r, m), out) =
      Inr (x, ((r\<lparr>eax := SYS_TEST2, ebx := a, ecx := b\<rparr>)\<lparr>eax := x\<rparr>, m'), out @ snd (sys_test_syscall2 a b)) \<and>
      frame (esp r) ws m' \<and> (\<forall>y. Some (fst (sys_test_syscall2 a b)) = Some y \<longrightarrow> x = y)"
    by (rule run [OF sys_codes(3) [OF assms(1)]]) (use assms(1) in \<open>simp_all add: defs case_prod_beta\<close>)
  then show "\<exists>m'. test_syscall2 k a b ((r, m), out) =
       Inr (0x9528, (r\<lparr>eax := 0x9528, ebx := a, ecx := b\<rparr>, m'), out @ snd (sys_test_syscall2 a b)) \<and> frame (esp r) ws m'"
    by (auto simp: test_syscall2_def syscall2_def sys_test_syscall2_def)
  have "\<exists>x m'. syscall_with k (\<lambda>r. r\<lparr>eax := SYS_TEST3, ebx := a, ecx := b, edx := c\<rparr>) ((r, m), out) =
      Inr (x, ((r\<lparr>eax := SYS_TEST3, ebx := a, ecx := b, edx := c\<rparr>)\<lparr>eax := x\<rparr>, m'), out @ snd (sys_test_syscall3 a b c)) \<and>
      frame (esp r) ws m' \<and> (\<forall>y. Some (fst (sys_test_syscall3 a b c)) = Some y \<longrightarrow> x = y)"
    by (rule run [OF sys_codes(4) [OF assms(1)]]) (use assms(1) in \<open>simp_all add: defs case_prod_beta numeral_eq_Suc\<close>)
  then show "\<exists>m'. test_syscall3 k a b c ((r, m), out) =
       Inr (0x9529, (r\<lparr>eax := 0x9529, ebx := a, ecx := b, edx := c\<rparr>, m'), out @ snd (sys_test_syscall3 a b c)) \<and>
       frame (esp r) ws m'"
    by (auto simp: test_syscall3_def syscall3_def sys_test_syscall3_def)
qed

definition demo_syscalls :: syscall_image where
  "demo_syscalls = \<lparr>sys_test_syscall0_at = 0xC0005000, sys_test_syscall1_at = 0xC0005100,
     sys_test_syscall2_at = 0xC0005200, sys_test_syscall3_at = 0xC0005300\<rparr>"

theorem syscall_roundtrip_witness:
  "\<exists>m'. test_syscall2 (boot_kernel demo_image demo_intr demo_syscalls (\<lambda>_. 0) (11, 12, 13)) 0x111 0x222 ((demo_cpu, \<lambda>_. 9), []) =
     Inr (0x9528, (demo_cpu\<lparr>eax := 0x9528, ebx := 0x111, ecx := 0x222\<rparr>, m'), snd (sys_test_syscall2 0x111 0x222)) \<and> frame 0xC0100F00 [9, 9] m'"
  using syscall_roundtrip [where sim = demo_syscalls and r = demo_cpu and ws = "[9, 9]" and m = "\<lambda>_. 9" and im = demo_image
      and s = demo_intr and t = "\<lambda>_. 0" and scratch = "(11, 12, 13)" and out = "[]" and a = "0x111" and b = "0x222" and c = 0,
      OF _ _ _ refl]
  by (simp add: demo_syscalls_def frame_Cons demo_cpu_def)

text \<open>The number is used unchecked and scaled by 4 modulo \<open>2 ^ 32\<close>: numbers \<open>2 ^ 30\<close> apart are the same
  call, and a number of at least \<open>SYSCALL_MAX\<close> jumps through a word that is not of the table.\<close>

lemma syscall_number_unchecked:
  "(n + 0x40000000) * 4 = n * (4 :: u32)"
  "4 * of_nat SYSCALL_MAX \<le> o4 \<Longrightarrow> syscall_init sim t o4 = t o4"
proof -
  show "(n + 0x40000000) * 4 = n * (4 :: u32)" by (simp add: distrib_right)
  assume "4 * of_nat SYSCALL_MAX \<le> o4"
  then have "128 \<le> o4" by (simp add: SYSCALL_MAX_def)
  then show "syscall_init sim t o4 = t o4"
    by (auto simp: syscall_init_def SYS_TEST0_def SYS_TEST1_def SYS_TEST2_def SYS_TEST3_def)
qed

end
