(* ===== verification/KStdio.thy ===== *)
theory KStdio
  imports KString "HOL-Library.Monad_Syntax"
begin

text \<open>
  Formatted output: \<open>code/lib/src/stdio.c\<close> and \<open>code/kernel/src/printk.c\<close>, over byte memory. A state
  of the formatter is the memory and the output cursor; \<open>None\<close> means that the call does not return
  (a string without terminator, a division by the base 0, a number in base 1).
\<close>

section \<open>The routines\<close>

definition putc :: "u8 \<Rightarrow> mem \<times> ptr \<Rightarrow> mem \<times> ptr" where
  "putc c = (\<lambda>(m, out). (m(out := c), out + 1))"

partial_function (option) itoa :: "u32 \<Rightarrow> u8 \<Rightarrow> mem \<times> ptr \<Rightarrow> (mem \<times> ptr) option" where
  "itoa v base s =
     (if base = 0 then None
      else let m = v mod ucast base; i = v div ucast base
        in do {
          s' \<leftarrow> if i \<noteq> 0 then itoa i base s else Some s;
          Some (if m < 10 then putc (ucast (m + 48)) s' else putc (ucast (m - 10 + 65)) s')
        })"

text \<open>\<open>va_arg\<close> advances the argument pointer first.\<close>

definition convert :: "u8 \<Rightarrow> ptr \<Rightarrow> mem \<times> ptr \<Rightarrow> (ptr \<times> mem \<times> ptr) option" where
  "convert c ap = (\<lambda>(m, out).
     if c = 0x73 then do {
       let arg_str = load32 m (ap + 4);
       (_, m') \<leftarrow> strcpy m out arg_str;
       n \<leftarrow> strlen m' arg_str;
       Some (ap + 4, m', out + n)
     }
     else if c = 0x63 then Some (ap + 4, putc (m (ap + 4)) (m, out))
     else if c = 0x64 then do {
       let arg_int = load32 m (ap + 4);
       s \<leftarrow> if arg_int <s 0 then itoa (0 - arg_int) 10 (putc 0x2D (m, out)) else itoa arg_int 10 (m, out);
       Some (ap + 4, s)
     }
     else if c = 0x78 then do {
       s \<leftarrow> itoa (load32 m (ap + 4)) 16 (m, out);
       Some (ap + 4, s)
     }
     else Some (ap, m, out))"

partial_function (option) vsprintf_loop :: "ptr \<Rightarrow> ptr \<Rightarrow> mem \<times> ptr \<Rightarrow> (mem \<times> ptr) option" where
  "vsprintf_loop format ap s =
     (let c = fst s format
      in if c = 0 then Some s
         else if c \<noteq> 0x25 then vsprintf_loop (format + 1) ap (putc c s)
         else do {
           (ap', s') \<leftarrow> convert (fst s (format + 1)) ap s;
           vsprintf_loop (format + 2) ap' s'
         })"

definition vsprintf :: "ptr \<Rightarrow> ptr \<Rightarrow> ptr \<Rightarrow> mem \<Rightarrow> (u32 \<times> mem) option" where
  "vsprintf str format ap m = do {
     (m', out) \<leftarrow> vsprintf_loop format ap (m, str);
     Some (out - str, m'(out := 0))
   }"

text \<open>\<open>sprintf\<close> and \<open>printk\<close> are given the stack address of their parameter \<open>format\<close>; the arguments
  follow it.\<close>

definition sprintf :: "ptr \<Rightarrow> ptr \<Rightarrow> mem \<Rightarrow> (u32 \<times> mem) option" where
  "sprintf buf format_at m = vsprintf buf (load32 m format_at) format_at m"

text \<open>The state of \<open>printk.c\<close>: memory, the holder of \<open>printk_lock\<close>, and what went to the screen.\<close>

record printk_state =
  pmem :: mem
  printk_lock :: ptr
  screen :: "u8 list list"

definition printk_init :: "printk_state \<Rightarrow> printk_state" where
  "printk_init s = s\<lparr>printk_lock := NULL\<rparr>"

text \<open>\<open>put_str\<close> writes the bytes up to the NUL.\<close>

definition str_at :: "mem \<Rightarrow> ptr \<Rightarrow> u8 list option" where
  "str_at m p = map_option (\<lambda>n. map (\<lambda>i. m (p + of_nat i)) [0..<unat n]) (strlen m p)"

text \<open>\<open>buf\<close> is the array of 1024 bytes on the stack of \<open>printk\<close>, \<open>t\<close> the running thread.\<close>

definition printk :: "ptr \<Rightarrow> ptr \<Rightarrow> ptr \<Rightarrow> printk_state \<Rightarrow> stop + printk_state" where
  "printk t buf format_at s =
     (let m1 = memset (pmem s) buf 0 1024
      in case vsprintf buf (load32 m1 format_at) format_at m1 of None \<Rightarrow> Inl Hang
         | Some (_, m2) \<Rightarrow>
             if printk_lock s \<noteq> NULL then Inl Blocked
             else case str_at m2 buf of None \<Rightarrow> Inl Hang
               | Some x \<Rightarrow> Inr (s\<lparr>pmem := m2, printk_lock := NULL, screen := screen s @ [x]\<rparr>))"

section \<open>Digits\<close>

definition digit :: "nat \<Rightarrow> u8" where
  "digit d = of_nat (if d < 10 then d + 48 else d - 10 + 65)"

fun digits :: "nat \<Rightarrow> nat \<Rightarrow> u8 list" where
  "digits b n = (if b < 2 \<or> n < b then [digit n] else digits b (n div b) @ [digit (n mod b)])"

declare digits.simps [simp del]

definition digit_value :: "u8 \<Rightarrow> nat" where
  "digit_value c = (if c < 58 then unat c - 48 else unat c - 55)"

definition number_value :: "nat \<Rightarrow> u8 list \<Rightarrow> nat" where
  "number_value b ds = foldl (\<lambda>a c. a * b + digit_value c) 0 ds"

definition put_bytes :: "u8 list \<Rightarrow> mem \<times> ptr \<Rightarrow> mem \<times> ptr" where
  "put_bytes bs s = fold putc bs s"

lemma put_bytes_simps [simp]:
  "put_bytes [] s = s" "put_bytes (b # bs) s = put_bytes bs (putc b s)"
  "put_bytes (bs @ cs) s = put_bytes cs (put_bytes bs s)"
  by (simp_all add: put_bytes_def)

lemma digit_value_digit: "d < 36 \<Longrightarrow> digit_value (digit d) = d"
  by (auto simp: digit_value_def digit_def unat_of_nat word_less_nat_alt)

lemma digits_value: "2 \<le> b \<Longrightarrow> b \<le> 36 \<Longrightarrow> number_value b (digits b n) = n"
proof (induction b n rule: digits.induct)
  case (1 b n)
  show ?case
  proof (cases "n < b")
    case True
    then show ?thesis using 1(3) by (simp add: digits.simps [of b n] number_value_def digit_value_digit)
  next
    case False
    then have "number_value b (digits b (n div b)) = n div b" using 1 by simp
    moreover have "digit_value (digit (n mod b)) = n mod b"
      by (rule digit_value_digit) (use 1(2,3) mod_less_divisor [of b n] in linarith)
    ultimately show ?thesis using False 1(2) by (subst digits.simps) (simp add: number_value_def)
  qed
qed

lemma ucast_of_nat_u8: "(ucast (of_nat k :: u32) :: u8) = of_nat k"
  by (rule bit_word_eqI) (simp add: bit_simps)

lemma digit_word: "unat (w :: u32) = d \<Longrightarrow>
    (if w < 10 then putc (ucast (w + 48)) s else putc (ucast (w - 10 + 65)) s) = putc (digit d) s"
proof -
  assume d: "unat w = d"
  then have w: "w = of_nat d" by (rule of_nat_of_unat [symmetric])
  have lt: "w < 10 \<longleftrightarrow> d < 10" using d by (simp add: word_less_nat_alt)
  show ?thesis
  proof (cases "d < 10")
    case True
    have "w + 48 = of_nat (d + 48)" by (simp add: w)
    then show ?thesis using True lt by (simp only: digit_def if_True ucast_of_nat_u8)
  next
    case False
    have "w - 10 + 65 = of_nat (d - 10 + 65)" using False by (simp add: w of_nat_diff)
    then show ?thesis using False lt by (simp only: digit_def if_False ucast_of_nat_u8)
  qed
qed

lemma itoa_digits_put:
  "2 \<le> base \<Longrightarrow> itoa v base s = Some (put_bytes (digits (unat base) (unat v)) s)"
proof (induction "unat v" arbitrary: v s rule: less_induct)
  case less
  have b: "2 \<le> unat base" "base \<noteq> 0" using less.prems by (auto simp: word_le_nat_alt)
  have "unat base < 2 ^ 32" using unsigned_less [of base, where ?'a = nat] by simp
  then have ub: "unat (ucast base :: u32) = unat base" by (simp add: unsigned_ucast_eq take_bit_nat_eq_self)
  have m: "unat (v mod ucast base) = unat v mod unat base" and i: "unat (v div ucast base) = unat v div unat base"
    by (simp_all add: unat_mod unat_div ub)
  have z: "v div ucast base = 0 \<longleftrightarrow> unat v < unat base"
    using i b(1) by (metis div_less_iff_less_mult div_eq_0_iff not_numeral_le_zero unat_0 unsigned_word_eqI)
  show ?case
  proof (cases "unat v < unat base")
    case True
    then show ?thesis using b z digit_word [OF m]
      by (subst itoa.simps) (simp add: digits.simps [of _ "unat v"])
  next
    case False
    have "unat (v div ucast base) < unat v" using i b False by simp
    from less.hyps [OF this less.prems] show ?thesis using b False digit_word [OF m] z
      by (subst itoa.simps) (simp add: digits.simps [of _ "unat v"] i)
  qed
qed

section \<open>What a format stands for\<close>

datatype arg = Str "u8 list" | Chr u8 | Num u32

definition decimal :: "u32 \<Rightarrow> u8 list" where
  "decimal w = (if w <s 0 then 0x2D # digits 10 (unat (- w)) else digits 10 (unat w))"

definition piece :: "u8 \<Rightarrow> arg list \<Rightarrow> (u8 list \<times> arg list) option" where
  "piece c as =
     (if c = 0x73 then (case as of Str s # as' \<Rightarrow> Some (s, as') | _ \<Rightarrow> None)
      else if c = 0x63 then (case as of Chr x # as' \<Rightarrow> Some ([x], as') | _ \<Rightarrow> None)
      else if c = 0x64 then (case as of Num w # as' \<Rightarrow> Some (decimal w, as') | _ \<Rightarrow> None)
      else if c = 0x78 then (case as of Num w # as' \<Rightarrow> Some (digits 16 (unat w), as') | _ \<Rightarrow> None)
      else Some ([], as))"

text \<open>\<open>None\<close>: the arguments do not match, or the format ends in a lone \<open>%\<close>.\<close>

fun render :: "u8 list \<Rightarrow> arg list \<Rightarrow> u8 list option" where
  "render [] as = Some []"
| "render [c] as = (if c = 0x25 then None else Some [c])"
| "render (c # k # f) as =
     (if c \<noteq> 0x25 then map_option ((#) c) (render (k # f) as)
      else case piece k as of None \<Rightarrow> None | Some (p, as') \<Rightarrow> map_option ((@) p) (render f as'))"

text \<open>
  Where the inputs stand, with all the bytes read in a set \<open>S\<close>: a string, the argument word at \<open>p\<close>, and
  the argument words above \<open>ap\<close>.
\<close>

definition cstr_in :: "ptr set \<Rightarrow> mem \<Rightarrow> ptr \<Rightarrow> u8 list \<Rightarrow> bool" where
  "cstr_in S m p s \<longleftrightarrow> cstr m p s \<and> (\<forall>i \<le> length s. p + of_nat i \<in> S)"

fun arg_at :: "ptr set \<Rightarrow> mem \<Rightarrow> ptr \<Rightarrow> arg \<Rightarrow> bool" where
  "arg_at S m p (Str s) \<longleftrightarrow> {p, p + 1, p + 2, p + 3} \<subseteq> S \<and> cstr_in S m (load32 m p) s"
| "arg_at S m p (Chr c) \<longleftrightarrow> p \<in> S \<and> m p = c"
| "arg_at S m p (Num w) \<longleftrightarrow> {p, p + 1, p + 2, p + 3} \<subseteq> S \<and> load32 m p = w"

fun args_at :: "ptr set \<Rightarrow> mem \<Rightarrow> ptr \<Rightarrow> arg list \<Rightarrow> bool" where
  "args_at S m ap [] \<longleftrightarrow> True"
| "args_at S m ap (a # as) \<longleftrightarrow> arg_at S m (ap + 4) a \<and> args_at S m (ap + 4) as"

text \<open>The output so far: \<open>bs\<close> at \<open>str\<close>, the cursor behind them, and nothing else changed but the \<open>n\<close>
  bytes at \<open>str\<close>.\<close>

definition written :: "nat \<Rightarrow> mem \<Rightarrow> ptr \<Rightarrow> u8 list \<Rightarrow> mem \<times> ptr \<Rightarrow> bool" where
  "written n m0 str bs s \<longleftrightarrow> snd s = str + of_nat (length bs) \<and> (\<forall>i < length bs. fst s (str + of_nat i) = bs ! i) \<and>
     (\<forall>q. \<not> in_range str (of_nat n) q \<longrightarrow> fst s q = m0 q)"

lemma offset_inj: "i < 2 ^ 32 \<Longrightarrow> j < 2 ^ 32 \<Longrightarrow> (p :: ptr) + of_nat i = p + of_nat j \<longleftrightarrow> i = j"
  by (simp add: of_nat_u32_inj)

lemma in_range_offset: "i < n \<Longrightarrow> n < 2 ^ 32 \<Longrightarrow> in_range p (of_nat n) (p + of_nat i)"
  by (simp add: in_range_def u32_less_of_nat unat_of_nat_less)

lemma written_Nil: "written n m str [] (m, str)"
  by (simp add: written_def)

lemma written_snoc:
  assumes "written n m0 str bs s" and "length bs < n" and "n < 2 ^ 32"
  shows "written n m0 str (bs @ [b]) (putc b s)"
proof -
  obtain m out where s: "s = (m, out)" by fastforce
  have out: "out = str + of_nat (length bs)" using assms(1) by (simp add: written_def s)
  have "(m(out := b)) (str + of_nat i) = (bs @ [b]) ! i" if "i < Suc (length bs)" for i
    using that assms offset_inj [of i "length bs" str] by (auto simp: out written_def s nth_append less_Suc_eq)
  moreover have "(m(out := b)) q = m0 q" if "\<not> in_range str (of_nat n) q" for q
    using that assms in_range_offset [OF assms(2,3), of str] by (auto simp: out written_def s)
  ultimately show ?thesis by (simp add: written_def s putc_def out algebra_simps)
qed

lemma written_put:
  "written n m0 str bs s \<Longrightarrow> length bs + length cs \<le> n \<Longrightarrow> n < 2 ^ 32 \<Longrightarrow> written n m0 str (bs @ cs) (put_bytes cs s)"
proof (induction cs arbitrary: bs s)
  case (Cons c cs)
  have "written n m0 str (bs @ [c]) (putc c s)" using Cons.prems by (intro written_snoc) simp_all
  from Cons.IH [OF this] Cons.prems show ?case by simp
qed simp

text \<open>Inputs apart from the output area read as at the start.\<close>

definition apart :: "ptr set \<Rightarrow> ptr \<Rightarrow> nat \<Rightarrow> bool" where
  "apart S str n \<longleftrightarrow> (\<forall>q \<in> S. \<not> in_range str (of_nat n) q)"

lemma written_reads: "written n m0 str bs s \<Longrightarrow> apart S str n \<Longrightarrow> q \<in> S \<Longrightarrow> fst s q = m0 q"
  by (simp add: written_def apart_def)

lemma written_cstr: "written n m0 str bs s \<Longrightarrow> apart S str n \<Longrightarrow> cstr_in S m0 p xs \<Longrightarrow> cstr (fst s) p xs"
  unfolding cstr_in_def using cstr_cong [of xs "fst s" p m0 p] written_reads [of n m0 str bs s S] by blast

lemma written_load: "written n m0 str bs s \<Longrightarrow> apart S str n \<Longrightarrow> {p, p + 1, p + 2, p + 3} \<subseteq> S \<Longrightarrow> load32 (fst s) p = load32 m0 p"
  by (simp add: load32_def written_reads [of n m0 str bs s S])

lemma written_strcpy:
  assumes "written n m0 str bs s" and "apart S str n" and "cstr_in S m0 p xs"
    and "length bs + length xs < n" and "n < 2 ^ 32"
  shows "\<exists>m'. strcpy (fst s) (snd s) p = Some (snd s, m') \<and> strlen m' p = Some (of_nat (length xs)) \<and>
    written n m0 str (bs @ xs) (m', snd s + of_nat (length xs))"
proof -
  let ?out = "str + of_nat (length bs)"
  have out: "snd s = ?out" using assms(1) by (simp add: written_def)
  have far: "of_nat (Suc (length xs)) \<le> ?out - p"
  proof (rule ccontr)
    assume "\<not> of_nat (Suc (length xs)) \<le> ?out - p"
    then have "unat (?out - p) < Suc (length xs)" using assms(4,5) by (simp add: u32_less_of_nat linorder_not_le del: of_nat_Suc)
    then have "unat (?out - p) \<le> length xs" by simp
    then have "p + of_nat (unat (?out - p)) \<in> S" using assms(3) unfolding cstr_in_def by blast
    then have "?out \<in> S" by simp
    then show False using assms(2,4,5) in_range_offset [of "length bs" n str] by (simp add: apart_def)
  qed
  have len: "Suc (length xs) < 2 ^ 32" using assms(4,5) by simp
  obtain m' where m': "strcpy_loop (fst s) ?out p = Some m'" "cstr m' ?out xs"
    "\<And>q. \<not> in_range ?out (of_nat (Suc (length xs))) q \<Longrightarrow> m' q = fst s q"
    using strcpy_loop_result [OF written_cstr [OF assms(1-3)] len disjI2 [OF far]] by blast
  have sub: "in_range str (of_nat n) q" if "in_range ?out (of_nat (Suc (length xs))) q" for q
  proof -
    let ?k = "unat (q - ?out)"
    have k: "?k < Suc (length xs)" using that len by (simp add: in_range_def u32_less_of_nat del: of_nat_Suc)
    have "q = str + of_nat (length bs + ?k)" by simp
    moreover have "in_range str (of_nat n) (str + of_nat (length bs + ?k))"
      using k assms(4,5) by (intro in_range_offset) simp_all
    ultimately show ?thesis by simp
  qed
  have "m' (str + of_nat i) = (bs @ xs) ! i" if i: "i < length bs + length xs" for i
  proof (cases "i < length bs")
    case True
    have "\<not> in_range ?out (of_nat (Suc (length xs))) (str + of_nat i)"
    proof
      assume "in_range ?out (of_nat (Suc (length xs))) (str + of_nat i)"
      then have k: "unat (str + of_nat i - ?out) < Suc (length xs)"
        using len by (simp add: in_range_def u32_less_of_nat del: of_nat_Suc)
      have "str + of_nat (length bs + unat (str + of_nat i - ?out)) = str + of_nat i" by simp
      then have "length bs + unat (str + of_nat i - ?out) = i"
        using k True assms(4,5) by (subst (asm) offset_inj) simp_all
      then show False using True by simp
    qed
    then show ?thesis using True assms(1) m'(3) by (simp add: written_def nth_append)
  next
    case False
    let ?j = "i - length bs"
    have j: "unat (of_nat ?j :: u32) = ?j" using i assms(4,5) by (intro unat_of_nat_less) simp
    have "unat (of_nat ?j :: u32) < length xs" unfolding j using i False by linarith
    then have "m' (?out + of_nat ?j) = xs ! unat (of_nat ?j :: u32)" using cstr_at [OF m'(2)] by blast
    then have "m' (?out + of_nat ?j) = xs ! ?j" unfolding j .
    moreover have "?out + of_nat ?j = str + of_nat i" using False by (simp add: of_nat_diff)
    ultimately show ?thesis using False by (simp add: nth_append)
  qed
  moreover have "m' q = m0 q" if "\<not> in_range str (of_nat n) q" for q
    using that m'(3) [of q] sub [of q] assms(1) by (auto simp: written_def)
  ultimately have w: "written n m0 str (bs @ xs) (m', ?out + of_nat (length xs))" by (simp add: written_def algebra_simps)
  then have "strlen m' p = Some (of_nat (length xs))" using written_cstr [OF w assms(2,3)] by (simp add: strlen_cstr)
  then show ?thesis using w m'(1) by (simp add: strcpy_def out)
qed

lemma convert_piece:
  assumes "written n m0 str bs s" and "apart S str n" and "args_at S m0 ap as" and "piece k as = Some (ps, as')"
    and "length bs + length ps < n" and "n < 2 ^ 32"
  shows "\<exists>ap' s'. convert k ap s = Some (ap', s') \<and> written n m0 str (bs @ ps) s' \<and> args_at S m0 ap' as'"
proof -
  obtain m out where s: "s = (m, out)" by fastforce
  have put: "written n m0 str (bs @ cs) (put_bytes cs s)" if "length cs \<le> length ps" for cs
    using that assms(5,6) by (intro written_put [OF assms(1)]) simp_all
  consider (str) x where "k = 0x73" "as = Str x # as'" "ps = x" | (chr) c where "k = 0x63" "as = Chr c # as'" "ps = [c]"
    | (dec) w where "k = 0x64" "as = Num w # as'" "ps = decimal w" | (hex) w where "k = 0x78" "as = Num w # as'" "ps = digits 16 (unat w)"
    | (other) "k \<notin> {0x73, 0x63, 0x64, 0x78}" "as = as'" "ps = []"
    using assms(4) by (auto simp: piece_def split: if_splits list.splits arg.splits)
  then show ?thesis
  proof cases
    case str
    then have a: "{ap + 4, ap + 4 + 1, ap + 4 + 2, ap + 4 + 3} \<subseteq> S" "cstr_in S m0 (load32 m0 (ap + 4)) x" using assms(3) by simp_all
    have l: "load32 m (ap + 4) = load32 m0 (ap + 4)" using written_load [OF assms(1,2) a(1)] by (simp add: s)
    from written_strcpy [OF assms(1,2) a(2)] str(3) assms(5,6) obtain m' where
      "strcpy m out (load32 m0 (ap + 4)) = Some (out, m')" "strlen m' (load32 m0 (ap + 4)) = Some (of_nat (length x))"
      "written n m0 str (bs @ x) (m', out + of_nat (length x))" by (auto simp: s)
    then show ?thesis using str assms(3) by (simp add: convert_def s l)
  next
    case chr
    then have a: "ap + 4 \<in> S" "m0 (ap + 4) = c" using assms(3) by simp_all
    then have "m (ap + 4) = c" using written_reads [OF assms(1,2) a(1)] by (simp add: s)
    then show ?thesis using chr assms(3) put [of "[c]"] by (simp add: convert_def s)
  next
    case dec
    then have a: "{ap + 4, ap + 4 + 1, ap + 4 + 2, ap + 4 + 3} \<subseteq> S" "load32 m0 (ap + 4) = w" using assms(3) by simp_all
    have l: "load32 m (ap + 4) = w" using written_load [OF assms(1,2) a(1)] a(2) by (simp add: s)
    show ?thesis
      by (rule exI [of _ "ap + 4"], rule exI [of _ "put_bytes (decimal w) s"])
        (use dec assms(3) put [of "decimal w"] in \<open>simp add: convert_def s l itoa_digits_put decimal_def\<close>)
  next
    case hex
    then have a: "{ap + 4, ap + 4 + 1, ap + 4 + 2, ap + 4 + 3} \<subseteq> S" "load32 m0 (ap + 4) = w" using assms(3) by simp_all
    have l: "load32 m (ap + 4) = w" using written_load [OF assms(1,2) a(1)] a(2) by (simp add: s)
    show ?thesis
      by (rule exI [of _ "ap + 4"], rule exI [of _ "put_bytes (digits 16 (unat w)) s"])
        (use hex assms(3) put [of "digits 16 (unat w)"] in \<open>simp add: convert_def s l itoa_digits_put\<close>)
  next
    case other
    then show ?thesis using assms(1,3) by (simp add: convert_def s)
  qed
qed

lemma cstr_in_Cons: "cstr_in S m p (c # f) \<Longrightarrow> cstr_in S m (p + 1) f"
proof -
  assume h: "cstr_in S m p (c # f)"
  have "p + 1 + of_nat i \<in> S" if "i \<le> length f" for i
    using h that unfolding cstr_in_def by (metis add.assoc length_Cons not_less_eq_eq of_nat_Suc)
  then show ?thesis using h by (simp add: cstr_in_def)
qed

lemma vsprintf_loop_renders:
  "render f as = Some ps \<Longrightarrow> cstr_in S m0 format f \<Longrightarrow> args_at S m0 ap as \<Longrightarrow> written n m0 str bs s \<Longrightarrow> apart S str n \<Longrightarrow>
   length bs + length ps < n \<Longrightarrow> n < 2 ^ 32 \<Longrightarrow> \<exists>s'. vsprintf_loop format ap s = Some s' \<and> written n m0 str (bs @ ps) s'"
proof (induction f as arbitrary: ps format ap bs s rule: render.induct)
  case (1 as)
  have "cstr (fst s) format []" by (rule written_cstr [OF 1(4,5,2)])
  then show ?case using 1 by (subst vsprintf_loop.simps) simp
next
  case (2 c as)
  have c: "cstr (fst s) format [c]" by (rule written_cstr [OF 2(4,5,2)])
  have ps: "c \<noteq> 0x25" "ps = [c]" using 2(1) by (auto split: if_splits)
  have w: "written n m0 str (bs @ [c]) (putc c s)" using 2(4,6,7) ps by (intro written_snoc) simp_all
  have "cstr (fst (putc c s)) (format + 1) []" by (rule written_cstr [OF w 2(5) cstr_in_Cons [OF 2(2)]])
  then have "vsprintf_loop (format + 1) ap (putc c s) = Some (putc c s)" by (subst vsprintf_loop.simps) simp
  then show ?case using c ps w by (subst vsprintf_loop.simps) simp
next
  case (3 c k f as)
  have cs: "cstr (fst s) format (c # k # f)" by (rule written_cstr [OF 3(6,7,4)])
  note in1 = cstr_in_Cons [OF 3(4)]
  note in2 = cstr_in_Cons [OF in1]
  show ?case
  proof (cases "c = 0x25")
    case False
    then obtain qs where qs: "render (k # f) as = Some qs" "ps = c # qs" using 3(3) by auto
    have w: "written n m0 str (bs @ [c]) (putc c s)" using 3(6,8,9) qs by (intro written_snoc) simp_all
    have "\<exists>s'. vsprintf_loop (format + 1) ap (putc c s) = Some s' \<and> written n m0 str ((bs @ [c]) @ qs) s'"
      by (rule "3.IH"(1) [OF False qs(1) in1 3(5) w 3(7)]) (use 3(8,9) qs in simp_all)
    then show ?thesis using cs False qs by (subst vsprintf_loop.simps) simp
  next
    case True
    then obtain p as' qs where q: "piece k as = Some (p, as')" "render f as' = Some qs" "ps = p @ qs"
      using 3(3) by (auto split: option.splits)
    obtain ap' s' where s': "convert k ap s = Some (ap', s')" "written n m0 str (bs @ p) s'" "args_at S m0 ap' as'"
      using convert_piece [OF 3(6,7,5) q(1)] 3(8,9) q(3) by auto
    have "\<exists>s''. vsprintf_loop (format + 1 + 1) ap' s' = Some s'' \<and> written n m0 str ((bs @ p) @ qs) s''"
      by (rule "3.IH"(2) [OF _ q(1) refl q(2) in2 s'(3,2) 3(7)]) (use True 3(8,9) q in simp_all)
    moreover have "format + 1 + 1 = format + 2" by simp
    ultimately have "\<exists>s''. vsprintf_loop (format + 2) ap' s' = Some s'' \<and> written n m0 str ((bs @ p) @ qs) s''" by (simp only:)
    then show ?thesis using cs True q s'(1) by (subst vsprintf_loop.simps) simp
  qed
qed

lemma cstr_of_bytes:
  "0 \<notin> set ps \<Longrightarrow> (\<forall>i < length ps. m (p + of_nat i) = ps ! i) \<Longrightarrow> m (p + of_nat (length ps)) = 0 \<Longrightarrow> cstr m p ps"
proof (induction ps arbitrary: p)
  case (Cons x ps)
  have "m (p + of_nat (Suc i)) = ps ! i" if "i < length ps" for i using Cons.prems(2) that by (metis Suc_less_eq length_Cons nth_Cons_Suc)
  then have "cstr m (p + 1) ps" using Cons.prems by (intro Cons.IH) (simp_all add: algebra_simps)
  moreover have "m (p + of_nat 0) = x" using Cons.prems(2) by (metis length_greater_0_conv list.distinct(1) nth_Cons_0)
  ultimately show ?case using Cons.prems(1) by auto
qed simp

lemma vsprintf_written:
  assumes "render f as = Some ps" and "cstr_in S m0 format f" and "args_at S m0 ap as"
    and "written n m0 str [] (m, str)" and "apart S str n" and "length ps < n" and "n < 2 ^ 32" and "0 \<notin> set ps"
  shows "\<exists>m'. vsprintf str format ap m = Some (of_nat (length ps), m') \<and> cstr m' str ps \<and>
    (\<forall>q. \<not> in_range str (of_nat n) q \<longrightarrow> m' q = m0 q)"
proof -
  obtain m1 out where l: "vsprintf_loop format ap (m, str) = Some (m1, out)" and w: "written n m0 str ps (m1, out)"
    using vsprintf_loop_renders [OF assms(1-5)] assms(6,7) by auto
  have out: "out = str + of_nat (length ps)" using w by (simp add: written_def)
  let ?m = "m1(out := 0)"
  have "cstr ?m str ps"
  proof (rule cstr_of_bytes [OF assms(8)])
    show "\<forall>i < length ps. ?m (str + of_nat i) = ps ! i"
      using w assms(6,7) offset_inj [of _ "length ps" str] by (auto simp: written_def out)
    show "?m (str + of_nat (length ps)) = 0" by (simp add: out)
  qed
  moreover have "?m q = m0 q" if "\<not> in_range str (of_nat n) q" for q
    using w that in_range_offset [OF assms(6,7), of str] by (auto simp: written_def out)
  ultimately show ?thesis using l by (simp add: vsprintf_def out)
qed

lemma str_at_cstr: "cstr m p xs \<Longrightarrow> length xs < 2 ^ 32 \<Longrightarrow> str_at m p = Some xs"
proof -
  assume h: "cstr m p xs" "length xs < 2 ^ 32"
  have "map (\<lambda>i. m (p + of_nat i)) [0..<length xs] = xs"
  proof (rule nth_equalityI)
    fix i assume "i < length (map (\<lambda>i. m (p + of_nat i)) [0..<length xs])"
    then have i: "i < length xs" by simp
    then have "unat (of_nat i :: u32) = i" using h(2) by (intro unat_of_nat_less) simp
    then show "map (\<lambda>i. m (p + of_nat i)) [0..<length xs] ! i = xs ! i"
      using cstr_at [OF h(1), THEN conjunct2, THEN spec, of "of_nat i"] i by simp
  qed simp
  then show ?thesis using h by (simp add: str_at_def strlen_cstr unat_of_nat_less)
qed

text \<open>A format that ends in a lone \<open>%\<close>: the loop steps over the NUL and goes on behind it.\<close>

lemma lone_percent:
  assumes "cstr m format [0x25]"
  shows "vsprintf_loop format ap (m, out) = vsprintf_loop (format + 2) ap (m, out)"
  using assms by (subst vsprintf_loop.simps) (simp add: convert_def)

section \<open>Properties\<close>

text \<open>\<open>itoa\<close> returns for every value and every base from 2 on, and puts at the cursor the digits of
  the value, most significant first: read back in that base they give the value, for bases up to 36.\<close>

lemma itoa_digits:
  assumes "2 \<le> base" and "base \<le> 36"
  shows "\<exists>ds. itoa v base s = Some (put_bytes ds s) \<and> number_value (unat base) ds = unat v"
proof -
  have "2 \<le> unat base" "unat base \<le> 36" using assms by (simp_all add: word_le_nat_alt)
  then have "number_value (unat base) (digits (unat base) (unat v)) = unat v" by (rule digits_value)
  then show ?thesis using itoa_digits_put [OF assms(1)] by blast
qed

text \<open>C35: \<open>vsprintf\<close> returns, leaves at \<open>str\<close> the string the format and its arguments stand for, with
  its NUL, returns its length, and changes no other byte, whenever the arguments match the format,
  the format does not end in a lone \<open>%\<close>, and everything it reads lies outside the output.\<close>

theorem vsprintf_renders:
  assumes "render f as = Some ps" and "cstr_in S m format f" and "args_at S m ap as"
    and "apart S str (Suc (length ps))" and "Suc (length ps) < 2 ^ 32" and "0 \<notin> set ps"
  shows "\<exists>m'. vsprintf str format ap m = Some (of_nat (length ps), m') \<and> cstr m' str ps \<and>
    (\<forall>q. \<not> in_range str (of_nat (Suc (length ps))) q \<longrightarrow> m' q = m q)"
  by (rule vsprintf_written [OF assms(1-3) written_Nil assms(4) lessI assms(5,6)])

text \<open>\<open>printk\<close>, with the lock free and a result of less than 1024 bytes, puts on the screen exactly
  the string the format and its arguments stand for, releases the lock, and changes no byte but those
  of its buffer.\<close>

theorem printk_prints:
  assumes "printk_lock s = NULL" and "render f as = Some ps" and "length ps < 1024" and "0 \<notin> set ps"
    and "{format_at, format_at + 1, format_at + 2, format_at + 3} \<subseteq> S" and "cstr_in S (pmem s) (load32 (pmem s) format_at) f"
    and "args_at S (pmem s) format_at as" and "apart S buf 1024"
  shows "\<exists>m'. printk t buf format_at s = Inr (s\<lparr>pmem := m', screen := screen s @ [ps]\<rparr>) \<and>
    (\<forall>q. \<not> in_range buf 1024 q \<longrightarrow> m' q = pmem s q)"
proof -
  let ?m1 = "memset (pmem s) buf 0 1024"
  have w: "written 1024 (pmem s) buf [] (?m1, buf)" by (simp add: written_def memset_apply)
  have l: "load32 ?m1 format_at = load32 (pmem s) format_at" using written_load [OF w assms(8,5)] by simp
  obtain m' where m': "vsprintf buf (load32 (pmem s) format_at) format_at ?m1 = Some (of_nat (length ps), m')"
      "cstr m' buf ps" "\<forall>q. \<not> in_range buf (of_nat 1024) q \<longrightarrow> m' q = pmem s q"
    using vsprintf_written [OF assms(2,6,7) w assms(8,3) _ assms(4)] by auto
  have "str_at m' buf = Some ps" using assms(3) by (intro str_at_cstr [OF m'(2)]) simp
  moreover have "s\<lparr>pmem := m', printk_lock := NULL, screen := x\<rparr> = s\<lparr>pmem := m', screen := x\<rparr>" for x
    using assms(1) by (cases s) simp
  ultimately show ?thesis using m' assms(1) by (intro exI [of _ m']) (simp add: printk_def l Let_def)
qed

text \<open>\<open>"n=%d"\<close> and its argument -5, for the two witnesses.\<close>

definition demo_format :: mem where
  "demo_format = ((\<lambda>_. 0)(100 := 0x6E, 101 := 0x3D, 102 := 0x25, 103 := 0x64, 200 := 100,
     204 := 0xFB, 205 := 0xFF, 206 := 0xFF, 207 := 0xFF))"

definition demo_reads :: "ptr set" where
  "demo_reads = {100, 101, 102, 103, 104, 200, 201, 202, 203, 204, 205, 206, 207}"

lemma demo_format_inputs:
  "load32 demo_format 200 = 100" "cstr_in demo_reads demo_format 100 [0x6E, 0x3D, 0x25, 0x64]"
  "args_at demo_reads demo_format 200 [Num (- 5)]"
  "render [0x6E, 0x3D, 0x25, 0x64] [Num (- 5)] = Some [0x6E, 0x3D, 0x2D, 0x35]"
proof -
  show "load32 demo_format 200 = 100" by (simp add: load32_def demo_format_def)
  have i: "i = 0 \<or> i = 1 \<or> i = 2 \<or> i = 3 \<or> i = 4" if "i \<le> 4" for i :: nat using that by presburger
  have "100 + of_nat i \<in> demo_reads" if "i \<le> 4" for i using i [OF that] by (elim disjE) (simp_all add: demo_reads_def)
  moreover have "cstr demo_format 100 [0x6E, 0x3D, 0x25, 0x64]" by (simp add: demo_format_def)
  ultimately show "cstr_in demo_reads demo_format 100 [0x6E, 0x3D, 0x25, 0x64]" by (simp add: cstr_in_def)
  show "args_at demo_reads demo_format 200 [Num (- 5)]"
    by (simp add: demo_reads_def load32_def demo_format_def)
  show "render [0x6E, 0x3D, 0x25, 0x64] [Num (- 5)] = Some [0x6E, 0x3D, 0x2D, 0x35]"
    by (simp add: piece_def decimal_def digits.simps digit_def word_sless_alt)
qed

theorem vsprintf_renders_witness:
  "\<exists>m'. vsprintf 300 100 200 demo_format = Some (4, m') \<and> cstr m' 300 [0x6E, 0x3D, 0x2D, 0x35]"
proof -
  have "apart demo_reads 300 (Suc (length [0x6E, 0x3D, 0x2D, 0x35 :: u8]))" by (simp add: apart_def demo_reads_def in_range_def)
  from vsprintf_renders [OF demo_format_inputs(4,2,3) this] show ?thesis by auto
qed

theorem printk_prints_witness:
  "\<exists>m'. printk 0xC0100000 2000 200 \<lparr>pmem = demo_format, printk_lock = NULL, screen = []\<rparr> =
     Inr \<lparr>pmem = m', printk_lock = NULL, screen = [[0x6E, 0x3D, 0x2D, 0x35]]\<rparr>"
proof -
  have a: "apart demo_reads 2000 1024" by (simp add: apart_def demo_reads_def in_range_def)
  show ?thesis
    using printk_prints [of "\<lparr>pmem = demo_format, printk_lock = NULL, screen = []\<rparr>", OF _ demo_format_inputs(4) _ _ _ _ _ a, of 200]
      demo_format_inputs(1-3) by (auto simp: demo_reads_def)
qed

end
