(* ===== verification/KScreen.thy ===== *)
theory KScreen
  imports KIo KString
begin

text \<open>
  The console, \<open>code/kernel/src/print.s\<close>: \<open>put_char\<close>, \<open>put_str\<close>, \<open>put_int\<close>, \<open>set_cursor\<close> and \<open>cls_screen\<close>, over
  byte memory and the ports of the display controller. The video segment starts at \<open>0xC00B8000\<close> (\<open>video_desc\<close> in
  \<open>code/boot/loader.s\<close>, after paging is on); offsets into it are 16-bit. The registers are saved and restored by
  \<open>pushad\<close> and \<open>popad\<close>, only memory and device are state. The theorems compare it with a terminal of 25 lines of 80 cells.
\<close>

section \<open>Cells and cursor\<close>

definition VIDEO :: ptr where "VIDEO = 0xC00B8000"

definition gs_store :: "u16 \<Rightarrow> u8 \<Rightarrow> mem \<Rightarrow> mem" where
  "gs_store bx v m = m(VIDEO + ucast bx := v)"

definition put_cell :: "u16 \<Rightarrow> u8 \<Rightarrow> mem \<Rightarrow> mem" where
  "put_cell bx c m = gs_store (bx + 1) 0x07 (gs_store bx c m)"

definition get_cursor :: "'d io_dev \<Rightarrow> 'd \<Rightarrow> u16 \<times> 'd" where
  "get_cursor dev d =
     (let (hi, d) = inb dev 0x3d5 (outb dev 0x3d4 0x0e d);
          (lo, d) = inb dev 0x3d5 (outb dev 0x3d4 0x0f d)
      in (push_bit 8 (ucast hi) OR ucast lo, d))"

definition set_cursor :: "'d io_dev \<Rightarrow> u16 \<Rightarrow> 'd \<Rightarrow> 'd" where
  "set_cursor dev bx d =
     outb dev 0x3d5 (ucast bx) (outb dev 0x3d4 0x0f (outb dev 0x3d5 (ucast (drop_bit 8 bx)) (outb dev 0x3d4 0x0e d)))"

text \<open>\<open>rep movsb\<close> with the direction flag clear, and the loops that blank cells from offset \<open>bx\<close> on.\<close>

fun movsb :: "nat \<Rightarrow> ptr \<Rightarrow> ptr \<Rightarrow> mem \<Rightarrow> mem" where
  "movsb 0 esi edi m = m"
| "movsb (Suc n) esi edi m = movsb n (esi + 1) (edi + 1) (m(edi := m esi))"

fun cls_loop :: "nat \<Rightarrow> u16 \<Rightarrow> mem \<Rightarrow> mem" where
  "cls_loop 0 bx m = m"
| "cls_loop (Suc n) bx m = cls_loop n (bx + 2) (put_cell bx 0x20 m)"

definition roll_screen :: "mem \<Rightarrow> mem" where
  "roll_screen m = cls_loop 80 3840 (movsb 3840 0xc00b80a0 0xc00b8000 m)"

definition put_char :: "'d io_dev \<Rightarrow> u8 \<Rightarrow> mem \<times> 'd \<Rightarrow> mem \<times> 'd" where
  "put_char dev c s =
     (let (m, d) = s;
          (bx, d) = get_cursor dev d;
          (m, bx) =
            (if c = 0x8 then (let bx = push_bit 1 (bx - 1) in (put_cell bx 0x20 m, drop_bit 1 bx))
             else
               let (m, bx) =
                 (if c = 0xd \<or> c = 0xa then (m, bx - bx mod 80 + 80)
                  else let bx = push_bit 1 bx in (put_cell bx c m, drop_bit 1 bx + 1))
               in if sint bx < 2000 then (m, bx) else (roll_screen m, 1920))
      in (m, set_cursor dev bx d))"

partial_function (option) put_str :: "'d io_dev \<Rightarrow> ptr \<Rightarrow> mem \<times> 'd \<Rightarrow> (mem \<times> 'd) option" where
  "put_str dev ebx s = (if fst s ebx = 0 then Some s else put_str dev (ebx + 1) (put_char dev (fst s ebx) s))"

definition cls_screen :: "'d io_dev \<Rightarrow> mem \<times> 'd \<Rightarrow> mem \<times> 'd" where
  "cls_screen dev s = (cls_loop 2000 0 (fst s), set_cursor dev 0 (snd s))"

section \<open>Numbers\<close>

text \<open>\<open>put_int\<close>: eight digits into the buffer at \<open>ebx\<close>, last one first; zeros at the front skipped (\<open>dl\<close> is the
  byte looked at last); then at least one digit is printed.\<close>

definition hex_digit :: "u32 \<Rightarrow> u8" where
  "hex_digit edx = (if 9 <s edx then ucast (edx - 10 + 0x41) else ucast (edx + 0x30))"

fun store_digits :: "nat \<Rightarrow> ptr \<Rightarrow> u32 \<Rightarrow> u32 \<Rightarrow> mem \<Rightarrow> mem" where
  "store_digits 0 ebx edi eax m = m"
| "store_digits (Suc ecx) ebx edi eax m =
     store_digits ecx ebx (edi - 1) (drop_bit 4 eax) (m(ebx + edi := hex_digit (eax AND 0xF)))"

fun skip_zeros :: "nat \<Rightarrow> ptr \<Rightarrow> mem \<Rightarrow> nat \<Rightarrow> u8 \<Rightarrow> nat \<times> u8" where
  "skip_zeros 0 ebx m edi dl = (edi, dl)"
| "skip_zeros (Suc n) ebx m edi dl =
     (let dl = m (ebx + of_nat edi) in if dl = 0x30 then skip_zeros n ebx m (Suc edi) dl else (edi, dl))"

function print_digits :: "'d io_dev \<Rightarrow> ptr \<Rightarrow> nat \<Rightarrow> u8 \<Rightarrow> mem \<times> 'd \<Rightarrow> mem \<times> 'd" where
  "print_digits dev ebx edi dl s =
     (let s = put_char dev dl s; edi = Suc edi
      in if edi < 8 then print_digits dev ebx edi (fst s (ebx + of_nat edi)) s else s)"
  by pat_completeness auto
termination by (relation "measure (\<lambda>(dev, ebx, edi, dl, s). 8 - edi)") auto

definition put_int :: "'d io_dev \<Rightarrow> ptr \<Rightarrow> u32 \<Rightarrow> mem \<times> 'd \<Rightarrow> mem \<times> 'd" where
  "put_int dev ebx num s =
     (let m = store_digits 8 ebx 7 num (fst s);
          (edi, dl) = skip_zeros 8 ebx m 0 0
      in print_digits dev ebx edi dl (m, snd s))"

section \<open>The display controller\<close>

text \<open>The index and data registers of the controller as the chip has them.\<close>

record crtc =
  crt_index :: u8
  crt_regs :: "u8 \<Rightarrow> u8"

definition crt_dev :: "crtc io_dev" where
  "crt_dev = \<lparr>in8 = (\<lambda>port d. (if port = 0x3d5 then crt_regs d (crt_index d) else 0, d)),
     out8 = (\<lambda>port v d. if port = 0x3d4 then d\<lparr>crt_index := v\<rparr>
       else if port = 0x3d5 then d\<lparr>crt_regs := (crt_regs d)(crt_index d := v)\<rparr> else d),
     in16 = (\<lambda>_ d. (0, d)), out16 = (\<lambda>_ _ d. d)\<rparr>"

definition crt_pos :: "crtc \<Rightarrow> u16" where
  "crt_pos d = push_bit 8 (ucast (crt_regs d 0x0e)) OR ucast (crt_regs d 0x0f)"

lemma halves_join: "push_bit 8 (ucast (ucast (drop_bit 8 w) :: u8)) OR ucast (ucast w :: u8) = (w :: u16)"
proof (rule bit_word_eqI)
  fix n assume "n < LENGTH(16)"
  then consider "n < 8" | "8 \<le> n \<and> n < 16" by fastforce
  then show "bit (push_bit 8 (ucast (ucast (drop_bit 8 w) :: u8)) OR ucast (ucast w :: u8) :: u16) n = bit w n"
    by cases (auto simp: bit_simps)
qed

lemma get_cursor_crt: "get_cursor crt_dev d = (crt_pos d, d\<lparr>crt_index := 0x0f\<rparr>)"
  by (simp add: get_cursor_def crt_dev_def inb_def outb_def crt_pos_def)

lemma set_cursor_crt [simp]: "crt_pos (set_cursor crt_dev bx d) = bx"
  by (simp add: set_cursor_def crt_dev_def outb_def crt_pos_def halves_join)

lemma crt_pos_index [simp]: "crt_pos (d\<lparr>crt_index := i\<rparr>) = crt_pos d"
  by (simp add: crt_pos_def)

section \<open>Memory of the display\<close>

lemma u16_small:
  fixes w :: u16
  assumes "unat w = n" and "n < 2 ^ 15"
  shows "ucast w = (of_nat n :: u32)" and "sint w = int n"
    and "push_bit 1 w = of_nat (2 * n)" and "drop_bit 1 (of_nat (2 * n) :: u16) = w"
proof -
  have w: "w = of_nat n" using assms(1) by auto
  show "ucast w = (of_nat n :: u32)" using of_nat_unat [of w, where 'a = u32] assms(1) by simp
  show "sint w = int n" using assms signed_take_bit_int_eq_self [of 15 "int n"] by (simp add: sint_uint uint_nat)
  show p: "push_bit 1 w = of_nat (2 * n)" by (simp add: w push_bit_eq_mult mult.commute)
  have u: "unat (of_nat (2 * n) :: u16) = 2 * n" using assms(2) by (simp add: unat_of_nat take_bit_nat_eq_self del: of_nat_mult)
  have "unat (drop_bit 1 (of_nat (2 * n) :: u16)) = unat w"
    unfolding unat_drop_bit_eq u by (simp add: drop_bit_eq_div assms(1))
  then show "drop_bit 1 (of_nat (2 * n) :: u16) = w" by (rule unsigned_word_eqI)
qed

lemma video_at: "a < 2 ^ 16 \<Longrightarrow> b < 2 ^ 16 \<Longrightarrow> VIDEO + of_nat a = VIDEO + of_nat b \<longleftrightarrow> a = b"
  using of_nat_u32_inj [of a b] by simp

lemma video_parity: "a < 2 ^ 15 \<Longrightarrow> b < 2 ^ 15 \<Longrightarrow> VIDEO + of_nat (2 * a + 1) \<noteq> VIDEO + of_nat (2 * b)"
proof -
  assume h: "a < 2 ^ 15" "b < 2 ^ 15"
  have "2 * a + 1 < 2 ^ 16" "2 * b < 2 ^ 16" "2 * a + 1 \<noteq> 2 * b" using h by (simp, simp, presburger)
  then show ?thesis using video_at [of "2 * a + 1" "2 * b"] by blast
qed

lemma gs_ofs: "n < 2 ^ 16 \<Longrightarrow> ucast (of_nat n :: u16) = (of_nat n :: u32)"
  using of_nat_unat [of "of_nat n :: u16", where 'a = u32] by (simp add: unat_of_nat take_bit_nat_eq_self)

lemma put_cell_at:
  assumes "p < 2 ^ 15"
  shows "put_cell (of_nat (2 * p)) c m = m(VIDEO + of_nat (2 * p) := c, VIDEO + of_nat (2 * p + 1) := 7)"
proof -
  have "of_nat (2 * p) + 1 = (of_nat (2 * p + 1) :: u16)" by simp
  then show ?thesis using gs_ofs [of "2 * p"] gs_ofs [of "2 * p + 1"] assms unfolding put_cell_def gs_store_def by (simp only:) simp
qed

lemma cls_loop_at:
  assumes "p + n \<le> 2 ^ 15"
  shows "cls_loop n (of_nat (2 * p)) m q =
    (if \<exists>i. p \<le> i \<and> i < p + n \<and> q = VIDEO + of_nat (2 * i) then 0x20
     else if \<exists>i. p \<le> i \<and> i < p + n \<and> q = VIDEO + of_nat (2 * i + 1) then 7 else m q)"
  using assms
proof (induction n arbitrary: p m)
  case (Suc n)
  have e: "of_nat (2 * p) + 2 = (of_nat (2 * Suc p) :: u16)" by simp
  have s: "(\<exists>i. p \<le> i \<and> i < p + Suc n \<and> P i) \<longleftrightarrow> P p \<or> (\<exists>i. Suc p \<le> i \<and> i < Suc p + n \<and> P i)" for P
    by (metis Suc_le_eq add_Suc_right add_Suc_shift le_eq_less_or_eq le_add1 less_Suc_eq_le)
  have ne: "VIDEO + of_nat (2 * p + 1) \<noteq> VIDEO + of_nat (2 * i)" "VIDEO + of_nat (2 * p) \<noteq> VIDEO + of_nat (2 * i + 1)"
    if "i < Suc p + n" for i
  proof -
    have l: "i < 2 ^ 15" "p < 2 ^ 15" using that Suc.prems by simp_all
    show "VIDEO + of_nat (2 * p + 1) \<noteq> VIDEO + of_nat (2 * i)" "VIDEO + of_nat (2 * p) \<noteq> VIDEO + of_nat (2 * i + 1)"
      using video_parity [OF l(2,1)] video_parity [OF l] by metis+
  qed
  have p: "p < 2 ^ 15" "Suc p + n \<le> 2 ^ 15" using Suc.prems by simp_all
  show ?case
    unfolding cls_loop.simps e Suc.IH [OF p(2)] put_cell_at [OF p(1)] s using ne by (auto simp del: of_nat_mult of_nat_add of_nat_Suc)
qed auto

section \<open>A terminal\<close>

text \<open>2000 cells and a position. A character goes to its cell, a line ends at the right margin or with a control
  character, behind the last line everything moves up.\<close>

definition display :: "mem \<times> crtc \<Rightarrow> u8 list \<times> nat" where
  "display s = (map (\<lambda>i. fst s (VIDEO + of_nat (2 * i))) [0..<2000], unat (crt_pos (snd s)))"

definition term_char :: "u8 \<Rightarrow> u8 list \<times> nat \<Rightarrow> u8 list \<times> nat" where
  "term_char c = (\<lambda>(cs, p).
     if c = 8 then (cs[p - 1 := 0x20], p - 1)
     else let (cs, p) = (if c = 0xd \<or> c = 0xa then (cs, (p div 80 + 1) * 80) else (cs[p := c], p + 1))
          in if p < 2000 then (cs, p) else (drop 80 cs @ replicate 80 0x20, 1920))"

text \<open>Where the memory of the display is.\<close>

definition video_byte :: "ptr \<Rightarrow> bool" where
  "video_byte q \<longleftrightarrow> unat (q - VIDEO) < 4000"

lemma video_even: "i < 2000 \<Longrightarrow> video_byte (VIDEO + of_nat (2 * i))" and video_odd: "i < 2000 \<Longrightarrow> video_byte (VIDEO + of_nat (2 * i + 1))"
  by (simp_all add: video_byte_def unat_of_nat_less del: of_nat_mult of_nat_add of_nat_Suc)

lemma cell_update:
  assumes "p < 2000"
  shows "map (\<lambda>i. put_cell (of_nat (2 * p)) c m (VIDEO + of_nat (2 * i))) [0..<2000] =
    (map (\<lambda>i. m (VIDEO + of_nat (2 * i))) [0..<2000])[p := c]"
    and "\<not> video_byte q \<Longrightarrow> put_cell (of_nat (2 * p)) c m q = m q"
proof -
  have p: "p < 2 ^ 15" using assms by simp
  have "put_cell (of_nat (2 * p)) c m (VIDEO + of_nat (2 * i)) = (if i = p then c else m (VIDEO + of_nat (2 * i)))" if "i < 2000" for i
    using video_at [of "2 * i" "2 * p"] video_parity [of p i] that assms unfolding put_cell_at [OF p]
    by (auto simp del: of_nat_mult of_nat_add)
  then show "map (\<lambda>i. put_cell (of_nat (2 * p)) c m (VIDEO + of_nat (2 * i))) [0..<2000] =
      (map (\<lambda>i. m (VIDEO + of_nat (2 * i))) [0..<2000])[p := c]"
    by (intro nth_equalityI) (simp_all add: nth_list_update)
  show "put_cell (of_nat (2 * p)) c m q = m q" if "\<not> video_byte q"
    using that video_even [OF assms] video_odd [OF assms] unfolding put_cell_at [OF p] by (auto simp del: of_nat_mult of_nat_add)
qed

lemma movsb_memcpy: "movsb n esi edi m = memcpy_loop n m edi esi"
  by (induction n arbitrary: esi edi m) simp_all

lemma movsb_row:
  "movsb 3840 0xc00b80a0 0xc00b8000 m q = (if q - VIDEO < 3840 then m (q + 160) else m q)"
  unfolding movsb_memcpy by (subst memcpy_loop_eq) (simp_all add: VIDEO_def word_le_nat_alt, simp add: add.commute)

lemma roll_screen_at:
  shows "i < 2000 \<Longrightarrow> roll_screen m (VIDEO + of_nat (2 * i)) = (if i < 1920 then m (VIDEO + of_nat (2 * (i + 80))) else 0x20)"
    and "\<not> video_byte q \<Longrightarrow> roll_screen m q = m q"
proof -
  have e: "3840 = (of_nat (2 * 1920) :: u16)" by simp
  have pr: "1920 + 80 \<le> (2 :: nat) ^ 15" by simp
  note c = cls_loop_at [OF pr, folded e]
  show "roll_screen m (VIDEO + of_nat (2 * i)) = (if i < 1920 then m (VIDEO + of_nat (2 * (i + 80))) else 0x20)" if i: "i < 2000"
  proof (cases "i < 1920")
    case True
    have "VIDEO + of_nat (2 * i) \<noteq> VIDEO + of_nat (2 * j)" "VIDEO + of_nat (2 * i) \<noteq> VIDEO + of_nat (2 * j + 1)"
      if "1920 \<le> j" "j < 2000" for j
    proof -
      have l: "2 * i < 2 ^ 16" "2 * j < 2 ^ 16" "j < 2 ^ 15" "i < 2 ^ 15" "2 * i \<noteq> 2 * j" using that True by simp_all
      show "VIDEO + of_nat (2 * i) \<noteq> VIDEO + of_nat (2 * j)" using video_at [OF l(1,2)] l(5) by blast
      show "VIDEO + of_nat (2 * i) \<noteq> VIDEO + of_nat (2 * j + 1)" using video_parity [OF l(3,4)] by metis
    qed
    then have no: "\<not> (\<exists>j. 1920 \<le> j \<and> j < 1920 + 80 \<and> VIDEO + of_nat (2 * i) = VIDEO + of_nat (2 * j))"
      "\<not> (\<exists>j. 1920 \<le> j \<and> j < 1920 + 80 \<and> VIDEO + of_nat (2 * i) = VIDEO + of_nat (2 * j + 1))"
      by simp_all
    have "of_nat (2 * i) < (3840 :: u32)" using True by (simp add: word_less_nat_alt unat_of_nat_less del: of_nat_mult)
    moreover have "VIDEO + of_nat (2 * i) + 160 = VIDEO + of_nat (2 * (i + 80))" by simp
    ultimately have "movsb 3840 0xc00b80a0 0xc00b8000 m (VIDEO + of_nat (2 * i)) = m (VIDEO + of_nat (2 * (i + 80)))"
      unfolding movsb_row by (simp add: add.assoc)
    moreover have "roll_screen m (VIDEO + of_nat (2 * i)) = movsb 3840 0xc00b80a0 0xc00b8000 m (VIDEO + of_nat (2 * i))"
      unfolding roll_screen_def by (simp only: c no if_False)
    ultimately show ?thesis using True by simp
  next
    case False
    then have "\<exists>j. 1920 \<le> j \<and> j < 1920 + 80 \<and> VIDEO + of_nat (2 * i) = VIDEO + of_nat (2 * j)" using i by (intro exI [of _ i]) simp
    then show ?thesis unfolding roll_screen_def c using False by simp
  qed
  show "roll_screen m q = m q" if q: "\<not> video_byte q"
  proof -
    have no: "\<not> (\<exists>j. 1920 \<le> j \<and> j < 1920 + 80 \<and> q = VIDEO + of_nat (2 * j))"
      "\<not> (\<exists>j. 1920 \<le> j \<and> j < 1920 + 80 \<and> q = VIDEO + of_nat (2 * j + 1))"
      using q video_even video_odd by (fastforce simp del: of_nat_mult of_nat_add of_nat_Suc)+
    have "\<not> q - VIDEO < 3840" using q by (simp add: video_byte_def word_less_nat_alt)
    then show ?thesis unfolding roll_screen_def by (simp only: c no if_False movsb_row)
  qed
qed

lemma roll_screen_cells:
  "map (\<lambda>i. roll_screen m (VIDEO + of_nat (2 * i))) [0..<2000] =
    drop 80 (map (\<lambda>i. m (VIDEO + of_nat (2 * i))) [0..<2000]) @ replicate 80 0x20"
proof (rule nth_equalityI)
  fix i assume "i < length (map (\<lambda>i. roll_screen m (VIDEO + of_nat (2 * i))) [0..<2000])"
  then have "i < 2000" by simp
  then show "map (\<lambda>i. roll_screen m (VIDEO + of_nat (2 * i))) [0..<2000] ! i =
      (drop 80 (map (\<lambda>i. m (VIDEO + of_nat (2 * i))) [0..<2000]) @ replicate 80 0x20) ! i"
    by (auto simp: roll_screen_at(1) nth_append add.commute simp del: of_nat_mult of_nat_add)
qed simp

text \<open>The new position, as the code computes it.\<close>

lemma next_line:
  fixes w :: u16
  assumes "unat w = p" and "p < 2000"
  shows "unat (w - w mod 80 + 80) = (p div 80 + 1) * 80" and "(p div 80 + 1) * 80 \<le> 2000"
proof -
  have m: "unat (w mod 80) = p mod 80" by (simp add: unat_mod assms(1))
  have "w mod 80 \<le> w" by (simp add: word_le_nat_alt m assms(1))
  then have "unat (w - w mod 80) = p - p mod 80" by (simp add: unat_sub m assms(1))
  then have s: "unat (w - w mod 80) = p div 80 * 80" by (simp add: minus_mod_eq_div_mult)
  have "p div 80 \<le> 24" using assms(2) by (simp add: less_eq_div_iff_mult_less_eq div_le_mono)
  then show "(p div 80 + 1) * 80 \<le> 2000" by simp
  then show "unat (w - w mod 80 + 80) = (p div 80 + 1) * 80"
    using unat_add_lem [of "w - w mod 80" 80] s by simp
qed

lemma put_char_back:
  assumes p: "unat (crt_pos d) = Suc p" "p < 1999"
  shows "put_char crt_dev 8 (m, d) = (put_cell (of_nat (2 * p)) 0x20 m, set_cursor crt_dev (of_nat p) (d\<lparr>crt_index := 0x0f\<rparr>))"
proof -
  have "of_nat (unat (crt_pos d)) = crt_pos d" by simp
  then have w: "crt_pos d - 1 = of_nat p" unfolding p(1) by (metis add_diff_cancel_left' of_nat_Suc)
  have "unat (of_nat p :: u16) = p" using p(2) by (simp add: unat_of_nat take_bit_nat_eq_self)
  moreover have "p < 2 ^ 15" using p(2) by simp
  ultimately have sm: "push_bit 1 (of_nat p :: u16) = of_nat (2 * p)" "drop_bit 1 (of_nat (2 * p) :: u16) = of_nat p"
    by (rule u16_small(3), rule u16_small(4))
  show ?thesis using p(2) unfolding put_char_def Let_def prod.case get_cursor_crt w sm by simp
qed

lemma put_char_line:
  assumes p: "unat (crt_pos d) = p" "p < 2000" and c: "c = 0xd \<or> c = 0xa"
  shows "put_char crt_dev c (m, d) =
    (if (p div 80 + 1) * 80 < 2000 then (m, set_cursor crt_dev (crt_pos d - crt_pos d mod 80 + 80) (d\<lparr>crt_index := 0x0f\<rparr>))
     else (roll_screen m, set_cursor crt_dev 1920 (d\<lparr>crt_index := 0x0f\<rparr>)))"
proof -
  note n = next_line [OF p]
  have "sint (crt_pos d - crt_pos d mod 80 + 80) = int ((p div 80 + 1) * 80)" by (rule u16_small(2) [OF n(1)]) (rule le_less_trans [OF n(2)], simp)
  then have "sint (crt_pos d - crt_pos d mod 80 + 80) < 2000 \<longleftrightarrow> (p div 80 + 1) * 80 < 2000" by linarith
  then show ?thesis using c by (auto simp: put_char_def get_cursor_crt)
qed

lemma put_char_cell:
  assumes p: "unat (crt_pos d) = p" "p < 2000" and c: "c \<noteq> 8" "c \<noteq> 0xd" "c \<noteq> 0xa"
  shows "put_char crt_dev c (m, d) =
    (if p + 1 < 2000 then (put_cell (of_nat (2 * p)) c m, set_cursor crt_dev (crt_pos d + 1) (d\<lparr>crt_index := 0x0f\<rparr>))
     else (roll_screen (put_cell (of_nat (2 * p)) c m), set_cursor crt_dev 1920 (d\<lparr>crt_index := 0x0f\<rparr>)))"
    and "unat (crt_pos d + 1) = p + 1"
proof -
  have l: "p < 2 ^ 15" using p(2) by simp
  note sm = u16_small [OF p(1) l]
  show u: "unat (crt_pos d + 1) = p + 1" using unat_add_lem [of "crt_pos d" 1] p by simp
  have "sint (crt_pos d + 1) = int (p + 1)" by (rule u16_small(2) [OF u]) (use p(2) in simp)
  then have "sint (crt_pos d + 1) < 2000 \<longleftrightarrow> p + 1 < 2000" by linarith
  then show "put_char crt_dev c (m, d) =
    (if p + 1 < 2000 then (put_cell (of_nat (2 * p)) c m, set_cursor crt_dev (crt_pos d + 1) (d\<lparr>crt_index := 0x0f\<rparr>))
     else (roll_screen (put_cell (of_nat (2 * p)) c m), set_cursor crt_dev 1920 (d\<lparr>crt_index := 0x0f\<rparr>)))"
    using c sm(3,4) by (simp add: put_char_def get_cursor_crt del: of_nat_mult)
qed

lemma put_char_run:
  assumes "unat (crt_pos d) < 2000" and "c = 8 \<longrightarrow> crt_pos d \<noteq> 0"
  shows "display (put_char crt_dev c (m, d)) = term_char c (display (m, d))"
    and "unat (crt_pos (snd (put_char crt_dev c (m, d)))) < 2000"
    and "\<not> video_byte q \<Longrightarrow> fst (put_char crt_dev c (m, d)) q = m q"
proof -
  let ?r = "put_char crt_dev c (m, d)"
  have "display ?r = term_char c (display (m, d)) \<and> unat (crt_pos (snd ?r)) < 2000 \<and> (\<not> video_byte q \<longrightarrow> fst ?r q = m q)"
  proof -
    consider "c = 8" | "c = 0xd \<or> c = 0xa" | "c \<noteq> 8" "c \<noteq> 0xd" "c \<noteq> 0xa" by blast
    then show ?thesis
    proof cases
      case 1
      have "unat (crt_pos d) \<noteq> 0" using assms(2) 1 by (simp add: unat_eq_zero)
      then obtain p where p: "unat (crt_pos d) = Suc p" by (cases "unat (crt_pos d)") auto
      then have l: "p < 1999" "p < 2000" using assms(1) by simp_all
      have "unat (of_nat p :: u16) = p" using l by (simp add: unat_of_nat take_bit_nat_eq_self)
      then show ?thesis using cell_update [OF l(2)] p l unfolding 1 put_char_back [OF p l(1)]
        by (simp add: display_def term_char_def del: of_nat_mult)
    next
      case 2
      then show ?thesis
        using next_line [OF refl assms(1)] roll_screen_at(2) unfolding put_char_line [OF refl assms(1) 2]
        by (auto simp: display_def term_char_def Let_def roll_screen_cells simp del: of_nat_mult)
    next
      case 3
      then show ?thesis
        using cell_update [OF assms(1)] put_char_cell(2) [OF refl assms(1) 3] roll_screen_at(2)
        unfolding put_char_cell(1) [OF refl assms(1) 3]
        by (auto simp: display_def term_char_def Let_def roll_screen_cells simp del: of_nat_mult)
    qed
  qed
  then show "display ?r = term_char c (display (m, d))" "unat (crt_pos (snd ?r)) < 2000" "\<not> video_byte q \<Longrightarrow> fst ?r q = m q" by blast+
qed

text \<open>A whole string.\<close>

lemma put_str_run:
  assumes "unat (crt_pos d) < 2000" and "cstr m p xs" and "8 \<notin> set xs" and "\<forall>i\<le>length xs. \<not> video_byte (p + of_nat i)"
  shows "\<exists>s'. put_str crt_dev p (m, d) = Some s' \<and> display s' = fold term_char xs (display (m, d)) \<and>
    unat (crt_pos (snd s')) < 2000 \<and> (\<forall>q. \<not> video_byte q \<longrightarrow> fst s' q = m q)"
  using assms
proof (induction xs arbitrary: p m d)
  case Nil
  then show ?case by (simp add: put_str.simps)
next
  case (Cons x xs)
  obtain m1 d1 where r: "put_char crt_dev x (m, d) = (m1, d1)" by (cases "put_char crt_dev x (m, d)")
  have x: "m p = x" "x \<noteq> 0" "x \<noteq> 8" "cstr m (p + 1) xs" using Cons.prems(2,3) by auto
  have ne: "x = 8 \<longrightarrow> crt_pos d \<noteq> 0" using x(3) by simp
  note run = put_char_run [OF Cons.prems(1) ne, where m = m, unfolded r prod.sel]
  have e: "p + of_nat (Suc i) = p + 1 + of_nat i" for i by simp
  have out: "\<forall>i\<le>length xs. \<not> video_byte (p + 1 + of_nat i)" using Cons.prems(4) e by (metis Suc_le_mono length_Cons)
  have "m1 (p + 1 + of_nat i) = m (p + 1 + of_nat i)" if "i \<le> length xs" for i using run(3) out that by blast
  then have c: "cstr m1 (p + 1) xs" using x(4) cstr_cong [of xs m1 "p + 1" m "p + 1"] by simp
  obtain s' where s': "put_str crt_dev (p + 1) (m1, d1) = Some s'" "display s' = fold term_char xs (display (m1, d1))"
      "unat (crt_pos (snd s')) < 2000" "\<forall>q. \<not> video_byte q \<longrightarrow> fst s' q = m1 q"
    using Cons.IH [OF run(2) c _ out] Cons.prems(3) by auto
  have "put_str crt_dev p (m, d) = put_str crt_dev (p + 1) (m1, d1)" by (subst put_str.simps) (simp add: x r)
  then show ?case using s' run by auto
qed

section \<open>Hexadecimal numbers\<close>

definition digit_char :: "nat \<Rightarrow> u8" where
  "digit_char n = (if 9 < n then of_nat (n + 55) else of_nat (n + 48))"

fun hex_string :: "nat \<Rightarrow> u8 list" where
  "hex_string n = (if n < 16 then [digit_char n] else hex_string (n div 16) @ [digit_char (n mod 16)])"

declare hex_string.simps [simp del]

fun hex_digits :: "nat \<Rightarrow> nat \<Rightarrow> u8 list" where
  "hex_digits 0 n = []"
| "hex_digits (Suc k) n = hex_digits k (n div 16) @ [digit_char (n mod 16)]"

lemma hex_digits_length [simp]: "length (hex_digits k n) = k"
  by (induction k arbitrary: n) simp_all

lemma hex_digits_zero: "hex_digits k 0 = replicate k 0x30"
  by (induction k) (simp_all add: digit_char_def replicate_append_same)

lemma nat_below_16: "n < 16 \<Longrightarrow> n \<in> {0, 1, 2, 3, 4, 5, 6, 7, 8, 9, 10, 11, 12, 13, 14, 15 :: nat}"
  unfolding insert_iff empty_iff by presburger

lemma digit_char_values: "n < 16 \<Longrightarrow> digit_char n \<in> {0x30, 0x31, 0x32, 0x33, 0x34, 0x35, 0x36, 0x37, 0x38, 0x39, 0x41, 0x42, 0x43, 0x44, 0x45, 0x46} \<and>
    (digit_char n = 0x30 \<longleftrightarrow> n = 0)"
proof -
  assume "n < 16"
  note n = nat_below_16 [OF this]
  show ?thesis using n by (auto simp: digit_char_def)
qed

text \<open>Without the zeros at the front, that is the number.\<close>

lemma drop_zeros: "0 < n \<Longrightarrow> n < 16 ^ k \<Longrightarrow> dropWhile (\<lambda>c. c = 0x30) (hex_digits k n) = hex_string n"
proof (induction k arbitrary: n)
  case (Suc k)
  show ?case
  proof (cases "n < 16")
    case True
    then have "digit_char n \<noteq> 0x30" using digit_char_values [of n] Suc.prems(1) by simp
    then show ?thesis using True by (simp add: hex_digits_zero hex_string.simps [of n] dropWhile_append)
  next
    case False
    then have n: "0 < n div 16" "n div 16 < 16 ^ k" using Suc.prems(2) by (simp_all add: div_greater_zero_iff less_mult_imp_div_less mult.commute)
    have "hex_string (n div 16) \<noteq> []" by (subst hex_string.simps) simp
    then have "dropWhile (\<lambda>c. c = 0x30) (hex_digits k (n div 16)) \<noteq> []" using Suc.IH [OF n] by simp
    then have "\<exists>c \<in> set (hex_digits k (n div 16)). c \<noteq> 0x30" by (simp add: dropWhile_eq_Nil_conv)
    then show ?thesis using Suc.IH [OF n] False by (auto simp add: hex_string.simps [of n] dropWhile_append)
  qed
qed simp

lemma hex_digit_char: "hex_digit (eax AND 0xF) = digit_char (unat eax mod 16)"
proof -
  define n where "n = unat eax mod 16"
  have "(0xF :: u32) = mask 4" by (simp add: mask_eq_exp_minus_1)
  then have "eax AND 0xF = take_bit 4 eax" by (simp only: take_bit_eq_mask)
  moreover have "unat (take_bit 4 eax) = take_bit 4 (unat eax)" by (rule unsigned_take_bit_eq)
  ultimately have "unat (eax AND 0xF) = n" by (simp only: n_def take_bit_nat_def) simp
  then have e: "eax AND 0xF = of_nat n" by (rule of_nat_of_unat [symmetric])
  have "n \<in> {0, 1, 2, 3, 4, 5, 6, 7, 8, 9, 10, 11, 12, 13, 14, 15}" by (rule nat_below_16) (simp add: n_def)
  then show ?thesis unfolding e n_def [symmetric] by (auto simp: hex_digit_def digit_char_def word_sless_alt)
qed

lemma store_digits_at:
  assumes "k \<le> 8"
  shows "store_digits k b (of_nat k - 1) eax m q =
    (if unat (q - b) < k then hex_digits k (unat eax) ! unat (q - b) else m q)"
  using assms
proof (induction k arbitrary: eax m)
  case (Suc k)
  have k: "k \<le> 8" using Suc.prems by simp
  have e: "of_nat (Suc k) - 1 = (of_nat k :: u32)" by simp
  have u: "unat (of_nat k :: u32) = k" using k by (simp add: unat_of_nat_less)
  have hit: "q = b + of_nat k \<longleftrightarrow> unat (q - b) = k" using u by (metis add_diff_cancel_left' diff_add_cancel add.commute of_nat_of_unat)
  have "unat (drop_bit 4 eax) = drop_bit 4 (unat eax)" by (rule unat_drop_bit_eq)
  then have d: "unat (drop_bit 4 eax) = unat eax div 16" by (simp add: drop_bit_nat_def)
  show ?case
    unfolding store_digits.simps e Suc.IH [OF k] d hex_digit_char hex_digits.simps
    by (auto simp: hit nth_append less_Suc_eq)
qed simp

text \<open>The walk over the zeros stops where \<open>dropWhile\<close> does.\<close>

lemma skip_zeros_run:
  assumes "\<forall>i<length xs. m (b + of_nat (j + i)) = xs ! i"
  shows "skip_zeros (length xs) b m j dl =
    (j + length (takeWhile (\<lambda>c. c = 0x30) xs), case dropWhile (\<lambda>c. c = 0x30) xs of [] \<Rightarrow> (if xs = [] then dl else 0x30) | c # _ \<Rightarrow> c)"
  using assms
proof (induction xs arbitrary: j dl)
  case (Cons x xs)
  have x: "m (b + of_nat j) = x" using Cons.prems [rule_format, of 0] by simp
  have "m (b + of_nat (Suc j + i)) = xs ! i" if "i < length xs" for i using Cons.prems [rule_format, of "Suc i"] that by simp
  then show ?case using Cons.IH [of "Suc j"] x by (auto split: list.splits)
qed simp

lemma print_digits_run:
  assumes "j < 8" and "unat (crt_pos d) < 2000" and "length xs = 8" and "\<forall>i<8. m (b + of_nat i) = xs ! i \<and> \<not> video_byte (b + of_nat i)"
    and "8 \<notin> set xs"
  shows "display (print_digits crt_dev b j (xs ! j) (m, d)) = fold term_char (drop j xs) (display (m, d)) \<and>
    (\<forall>q. \<not> video_byte q \<longrightarrow> fst (print_digits crt_dev b j (xs ! j) (m, d)) q = m q)"
  using assms
proof (induction "7 - j" arbitrary: j m d)
  case 0
  then have j: "j = 7" by simp
  obtain m1 d1 where r: "put_char crt_dev (xs ! 7) (m, d) = (m1, d1)" by (cases "put_char crt_dev (xs ! 7) (m, d)")
  have "xs ! 7 \<in> set xs" using 0(4) by simp
  then have ne: "xs ! 7 = 8 \<longrightarrow> crt_pos d \<noteq> 0" using 0(6) by metis
  note run = put_char_run [OF 0(3) ne, where m = m, unfolded r prod.sel]
  have "drop 7 xs = [xs ! 7]" using Cons_nth_drop_Suc [of 7 xs] 0(4) by simp
  then show ?case using run by (simp add: j r Let_def)
next
  case (Suc n)
  then have j: "Suc j < 8" "n = 7 - Suc j" by simp_all
  obtain m1 d1 where r: "put_char crt_dev (xs ! j) (m, d) = (m1, d1)" by (cases "put_char crt_dev (xs ! j) (m, d)")
  have "xs ! j \<in> set xs" using Suc.prems(1,3) by simp
  then have ne: "xs ! j = 8 \<longrightarrow> crt_pos d \<noteq> 0" using Suc.prems(5) by metis
  note run = put_char_run [OF Suc.prems(2) ne, where m = m, unfolded r prod.sel]
  have mem: "\<forall>i<8. m1 (b + of_nat i) = xs ! i \<and> \<not> video_byte (b + of_nat i)" using Suc.prems(4) run(3) by metis
  have nx: "m1 (b + of_nat (Suc j)) = xs ! Suc j" using mem j(1) by blast
  have "print_digits crt_dev b j (xs ! j) (m, d) = print_digits crt_dev b (Suc j) (xs ! Suc j) (m1, d1)"
    by (subst print_digits.simps) (simp only: r Let_def prod.sel nx j(1) if_True)
  moreover have "drop j xs = xs ! j # drop (Suc j) xs" using Suc.prems(1,3) by (simp add: Cons_nth_drop_Suc)
  ultimately show ?case using Suc.hyps(1) [OF j(2,1) run(2) Suc.prems(3) mem Suc.prems(5)] run by simp
qed

lemma put_int_run:
  assumes pos: "unat (crt_pos d) < 2000" and buf: "\<forall>i<8. \<not> video_byte (b + of_nat i)"
  shows "display (put_int crt_dev b num (m, d)) = fold term_char (hex_string (unat num)) (display (m, d))"
    and "\<not> video_byte q \<Longrightarrow> 8 \<le> unat (q - b) \<Longrightarrow> fst (put_int crt_dev b num (m, d)) q = m q"
proof -
  let ?xs = "hex_digits 8 (unat num)" and ?m = "store_digits 8 b 7 num m" and ?z = "\<lambda>c :: u8. c = 0x30"
  have "7 = of_nat 8 - (1 :: u32)" by simp
  note st = store_digits_at [of 8 b num m, folded this]
  have mem: "\<forall>i<8. ?m (b + of_nat i) = ?xs ! i \<and> \<not> video_byte (b + of_nat i)" using buf by (simp add: st unat_of_nat_less)
  have "8 \<noteq> digit_char (n mod 16)" for n using digit_char_values [of "n mod 16"] by auto
  then have no8: "8 \<notin> set (hex_digits k n)" for k n by (induction k arbitrary: n) simp_all
  have sk: "skip_zeros 8 b ?m 0 0 = (length (takeWhile ?z ?xs), case dropWhile ?z ?xs of [] \<Rightarrow> (if ?xs = [] then 0 else 0x30) | c # _ \<Rightarrow> c)"
    using skip_zeros_run [of ?xs ?m b 0 0] mem by simp
  have vid: "display (?m, d) = display (m, d)"
  proof -
    have "?m (VIDEO + of_nat (2 * i)) = m (VIDEO + of_nat (2 * i))" if "i < 2000" for i
    proof -
      have "\<not> unat (VIDEO + of_nat (2 * i) - b) < 8"
      proof
        assume a: "unat (VIDEO + of_nat (2 * i) - b) < 8"
        have "b + of_nat (unat (VIDEO + of_nat (2 * i) - b)) = VIDEO + of_nat (2 * i)" by simp
        then show False using buf a video_even [OF that] by metis
      qed
      then show ?thesis by (simp add: st del: of_nat_mult)
    qed
    then show ?thesis by (simp add: display_def del: of_nat_mult)
  qed
  have "display (put_int crt_dev b num (m, d)) = fold term_char (hex_string (unat num)) (display (m, d)) \<and>
    (\<forall>q. \<not> video_byte q \<longrightarrow> fst (put_int crt_dev b num (m, d)) q = ?m q)"
  proof (cases "num = 0")
    case True
    have xs: "?xs = replicate 8 0x30" using True by (simp add: hex_digits_zero)
    have hs: "hex_string (unat num) = [0x30]" using True by (subst hex_string.simps) (simp add: digit_char_def)
    have "skip_zeros 8 b ?m 0 0 = (8, 0x30)" unfolding sk xs by simp
    then have "put_int crt_dev b num (m, d) = put_char crt_dev 0x30 (?m, d)" by (simp add: put_int_def Let_def)
    moreover have "(0x30 :: u8) = 8 \<longrightarrow> crt_pos d \<noteq> 0" by simp
    note put_char_run [OF pos this, where m = ?m]
    ultimately show ?thesis using hs vid by simp
  next
    case False
    then have "0 < unat num" "unat num < 16 ^ 8" by (simp_all add: unat_gt_0)
    note dz = drop_zeros [OF this]
    define j where "j = length (takeWhile ?z ?xs)"
    have dj: "drop j ?xs = hex_string (unat num)" using dz by (simp add: j_def dropWhile_eq_drop)
    have "hex_string (unat num) \<noteq> []" by (subst hex_string.simps) simp
    then have j: "j < 8" using dj by (metis drop_all hex_digits_length not_less)
    have c: "?xs ! j = hd (hex_string (unat num))" using dj j by (metis hd_drop_conv_nth hex_digits_length)
    have "skip_zeros 8 b ?m 0 0 = (j, hd (hex_string (unat num)))"
      unfolding sk dz j_def using \<open>hex_string (unat num) \<noteq> []\<close> by (cases "hex_string (unat num)") simp_all
    then have "put_int crt_dev b num (m, d) = print_digits crt_dev b j (?xs ! j) (?m, d)"
      by (simp add: put_int_def Let_def c del: print_digits.simps)
    then show ?thesis using print_digits_run [OF j pos _ mem no8] dj vid by simp
  qed
  then show "display (put_int crt_dev b num (m, d)) = fold term_char (hex_string (unat num)) (display (m, d))"
    and "\<not> video_byte q \<Longrightarrow> 8 \<le> unat (q - b) \<Longrightarrow> fst (put_int crt_dev b num (m, d)) q = m q"
    by (simp_all add: st)
qed

section \<open>Properties\<close>

text \<open>C36: the console is a terminal. From any position on the screen, \<open>put_str\<close> of a string without backspaces
  returns, the 2000 cells and the cursor are what the characters do one by one to a terminal that wraps and
  scrolls, and no byte outside the screen changes; \<open>put_int\<close> does the same with the hexadecimal digits of its
  argument, without zeros in front.\<close>

theorem console_displays:
  assumes "unat (crt_pos d) < 2000" and "cstr m p xs" and "8 \<notin> set xs" and "\<forall>i\<le>length xs. \<not> video_byte (p + of_nat i)"
    and "\<forall>i<8. \<not> video_byte (b + of_nat i)"
  shows "(\<exists>s. put_str crt_dev p (m, d) = Some s \<and> display s = fold term_char xs (display (m, d)) \<and>
      (\<forall>q. \<not> video_byte q \<longrightarrow> fst s q = m q)) \<and>
    display (put_int crt_dev b num (m, d)) = fold term_char (hex_string (unat num)) (display (m, d))"
  using put_str_run [OF assms(1-4)] put_int_run(1) [OF assms(1,5)] by blast

theorem console_displays_witness:
  "\<exists>s. put_str crt_dev 0x1000 ((\<lambda>_. 0)(0x1000 := 0x4B), \<lparr>crt_index = 0, crt_regs = (\<lambda>_. 0)\<rparr>) = Some s"
proof -
  have v: "\<not> video_byte (a + of_nat i)" if "unat a < 0x10000" "i < 8" for a :: ptr and i
  proof -
    have "unat (a + of_nat i) = unat a + i" using that by (subst unat_add_small) (simp_all add: unat_of_nat_less)
    moreover have "a + of_nat i - VIDEO = (a + of_nat i) + 0x3FF48000" by (simp add: VIDEO_def)
    ultimately show ?thesis using that by (simp only: video_byte_def) (subst unat_add_small, simp_all)
  qed
  have h: "unat (crt_pos \<lparr>crt_index = 0, crt_regs = (\<lambda>_. 0)\<rparr>) < 2000" "cstr ((\<lambda>_. 0)(0x1000 := 0x4B)) 0x1000 [0x4B]" "8 \<notin> set [0x4B :: u8]"
    "\<forall>i\<le>length [0x4B :: u8]. \<not> video_byte (0x1000 + of_nat i)" "\<forall>i<8. \<not> video_byte (0x2000 + of_nat i)"
    using v [of "0x1000"] v [of "0x2000"] by (simp_all add: crt_pos_def)
  show ?thesis using conjunct1 [OF console_displays [OF h, of 0]] by blast
qed

text \<open>A backspace at the first cell. The cursor goes round: the blank is written 64 KB behind the start of the
  screen, the cursor is set to 32767, and, positions being compared as signed numbers, the next character sets it
  to 32768 without scrolling.\<close>

theorem put_char_home:
  assumes "crt_pos d = 0"
  shows "fst (put_char crt_dev 8 (m, d)) = m(0xC00C7FFE := 0x20, 0xC00C7FFF := 0x07) \<and>
    crt_pos (snd (put_char crt_dev 8 (m, d))) = 0x7FFF \<and>
    crt_pos (snd (put_char crt_dev 0x41 (put_char crt_dev 8 (m, d)))) = 0x8000"
proof -
  have b: "put_char crt_dev 8 (m, d) = (m(0xC00C7FFE := 0x20, 0xC00C7FFF := 0x07), set_cursor crt_dev 0x7FFF (d\<lparr>crt_index := 0x0f\<rparr>))"
    using assms by (simp add: put_char_def get_cursor_crt put_cell_def gs_store_def VIDEO_def unsigned_minus_1_eq_mask mask_eq_exp_minus_1)
  have "crt_pos (snd (put_char crt_dev 0x41 (m', d'))) = 0x8000" if "crt_pos d' = 0x7FFF" for m' d'
    using that by (simp add: put_char_def get_cursor_crt)
  then show ?thesis unfolding b by simp
qed

theorem put_char_home_witness:
  "crt_pos (snd (put_char crt_dev 8 (\<lambda>_. 0, \<lparr>crt_index = 0, crt_regs = (\<lambda>_. 0)\<rparr>))) = 0x7FFF"
  using put_char_home [of "\<lparr>crt_index = 0, crt_regs = (\<lambda>_. 0)\<rparr>" "\<lambda>_. 0"] by (simp add: crt_pos_def)

end
