(* ===== verification/KIde.thy ===== *)
theory KIde
  imports KHeapRep KStdio KIntr
begin

text \<open>
  The disk driver, \<open>code/kernel/src/ide.c\<close>. The hardware is a parameter: the devices behind the ports,
  what they raise while the driver sleeps, the next interrupt a blocked driver is woken by, and an
  interrupt that falls between the failed test of a semaphore and the blocking of the thread. An
  interrupt only raises the semaphore of its channel (\<open>ide_handler\<close>): taken anywhere else it counts the
  same, and the model takes it where the driver waits; taken there, its wakeup finds a thread that does
  not sleep yet, and is lost. A mutex is a bracket seen by one thread, as in
  the page allocator. Pointers to channels and disks are indices into \<open>g_ide_ch\<close>; a partition lives at
  the address \<open>sys_malloc\<close> gave it. Names are what \<open>sprintf\<close> puts there (theorem \<open>vsprintf_renders\<close>).
\<close>

section \<open>State\<close>

definition SECTOR_SIZE :: u32 where "SECTOR_SIZE = 512"
definition IDE_CH_NR :: nat where "IDE_CH_NR = 4"
definition IDE_DATA_REG :: u16 where "IDE_DATA_REG = 0"
definition IDE_SEC_CNT :: u16 where "IDE_SEC_CNT = 2"
definition IDE_LBA_LOW :: u16 where "IDE_LBA_LOW = 3"
definition IDE_LBA_MID :: u16 where "IDE_LBA_MID = 4"
definition IDE_LBA_HIGH :: u16 where "IDE_LBA_HIGH = 5"
definition IDE_DRIVE_SET :: u16 where "IDE_DRIVE_SET = 6"
definition IDE_STA_CMD :: u16 where "IDE_STA_CMD = 7"
definition DRIVE_DEFAULT :: u8 where "DRIVE_DEFAULT = 0xA0"
definition DRIVE_MASTER :: u8 where "DRIVE_MASTER = push_bit 4 0"
definition DRIVE_SLAVE :: u8 where "DRIVE_SLAVE = push_bit 4 1"
definition DRIVE_LBA :: u8 where "DRIVE_LBA = push_bit 6 1"
definition CMD_IDENTIFY :: u8 where "CMD_IDENTIFY = 0xEC"
definition CMD_READ_SEC :: u8 where "CMD_READ_SEC = 0x20"
definition CMD_WRITE_SEC :: u8 where "CMD_WRITE_SEC = 0x30"
definition STAT_BSY :: u8 where "STAT_BSY = push_bit 7 1"
definition STAT_DRQ :: u8 where "STAT_DRQ = push_bit 3 1"

record ide_hd =
  hd_name :: "u8 list"
  hd_ch :: nat
  dev_nr :: u8
  valid :: bool

record ide_ch =
  ch_name :: "u8 list"
  ch_dev :: "nat \<Rightarrow> ide_hd"
  ch_mlock :: ptr
  ch_sema :: u32
  port_base :: u16
  ch_irq :: u8

text \<open>A disk is named by its channel and its place there.\<close>

type_synonym hd_ptr = "nat \<times> nat"

record ide_ptn =
  ptn_name :: "u8 list"
  start_lba :: u32
  sec_cnt :: u32
  ptn_hd :: hd_ptr
  inode_base :: u32
  inode_cnt :: u32
  inode_btmp_lba :: u32
  inode_btmp :: bitmap
  inode_table_lba :: u32
  blk_btmp_lba :: u32
  blk_btmp :: bitmap
  blk_lba :: u32
  ptn_mlock :: ptr

text \<open>Sizes and offsets on the 32-bit target.\<close>

definition sizeof_boot_sector :: u32 where "sizeof_boot_sector = 512"
definition sizeof_ide_ptn :: u32 where "sizeof_ide_ptn = 108"
definition ptn_tag :: "ptr \<Rightarrow> ptr" where "ptn_tag ptn = ptn + 20"
definition ptn_open_inodes :: "ptr \<Rightarrow> ptr" where "ptn_open_inodes ptn = ptn + 68"

definition ptable_at :: "ptr \<Rightarrow> nat \<Rightarrow> ptr" where
  "ptable_at bs idx = bs + 446 + 16 * of_nat idx"

record 'd ide_state =
  heap :: heap_state
  hw :: 'd
  intr :: intr_state
  ide_ch :: "nat \<Rightarrow> ide_ch"
  ptn_at :: "ptr \<Rightarrow> ide_ptn"
  ptn_nodes :: lheap
  ptn_nr :: u32

text \<open>
  The platform: the ports, the interrupts that come while the thread sleeps, the interrupts that
  wake a thread that has nothing else to wait for (\<open>None\<close> if none ever comes), and whether an interrupt
  strikes between the \<open>spin_unlock\<close> and the \<open>kthread_block\<close> of \<open>sema_down\<close>. \<open>ptn_list_at\<close> and
  \<open>ide_handler_at\<close> are link-time addresses.
\<close>

record 'd platform =
  io :: "'d io_dev"
  sleep :: "u32 \<Rightarrow> 'd \<Rightarrow> u8 list \<times> 'd"
  await :: "'d \<Rightarrow> (u8 list \<times> 'd) option"
  strikes :: "'d \<Rightarrow> bool"
  ptn_list_at :: ptr
  ide_handler_at :: ptr

definition hd_of :: "hd_ptr \<Rightarrow> ('d, 'x) ide_state_scheme \<Rightarrow> ide_hd" where
  "hd_of h s = ch_dev (ide_ch s (fst h)) (snd h)"

definition chan_of :: "hd_ptr \<Rightarrow> ('d, 'x) ide_state_scheme \<Rightarrow> ide_ch" where
  "chan_of h s = ide_ch s (hd_ch (hd_of h s))"

section \<open>Registers\<close>

definition ide_set_drive :: "'d platform \<Rightarrow> hd_ptr \<Rightarrow> ('d, 'x) ide_state_scheme \<Rightarrow> ('d, 'x) ide_state_scheme" where
  "ide_set_drive p h s =
     (let port = port_base (chan_of h s) + IDE_DRIVE_SET
      in if 0 = dev_nr (hd_of h s)
         then s\<lparr>hw := outb (io p) port (DRIVE_DEFAULT OR DRIVE_MASTER OR DRIVE_LBA) (hw s)\<rparr>
         else s\<lparr>hw := outb (io p) port (DRIVE_DEFAULT OR DRIVE_SLAVE OR DRIVE_LBA) (hw s)\<rparr>)"

definition ide_set_cmd :: "'d platform \<Rightarrow> hd_ptr \<Rightarrow> u8 \<Rightarrow> ('d, 'x) ide_state_scheme \<Rightarrow> ('d, 'x) ide_state_scheme" where
  "ide_set_cmd p h cmd s = s\<lparr>hw := outb (io p) (port_base (chan_of h s) + IDE_STA_CMD) cmd (hw s)\<rparr>"

definition ide_set_lba ::
    "'d platform \<Rightarrow> hd_ptr \<Rightarrow> u32 \<Rightarrow> u32 \<Rightarrow> ('d, 'x) ide_state_scheme \<Rightarrow> ('d, 'x) ide_state_scheme" where
  "ide_set_lba p h start cnt s =
     (let base = port_base (chan_of h s);
          d1 = outb (io p) (base + IDE_LBA_LOW) (ucast start) (hw s);
          d2 = outb (io p) (base + IDE_LBA_MID) (ucast (drop_bit 8 start)) d1;
          d3 = outb (io p) (base + IDE_LBA_HIGH) (ucast (drop_bit 16 start)) d2;
          (reg, d4) = inb (io p) (base + IDE_DRIVE_SET) d3;
          d5 = outb (io p) (base + IDE_DRIVE_SET) (reg OR ucast (drop_bit 24 start AND 0xF)) d4;
          n = (if 256 \<le> cnt then 0 else cnt)
      in s\<lparr>hw := outb (io p) (base + IDE_SEC_CNT) (ucast n) d5\<rparr>)"

text \<open>Memory is the bytes of the heap state.\<close>

definition ide_set_data ::
    "'d platform \<Rightarrow> hd_ptr \<Rightarrow> ptr \<Rightarrow> u32 \<Rightarrow> ('d, 'x) ide_state_scheme \<Rightarrow> ('d, 'x) ide_state_scheme" where
  "ide_set_data p h src cnt s =
     s\<lparr>hw := outsw (io p) (port_base (chan_of h s) + IDE_DATA_REG) src (cnt * SECTOR_SIZE div 2) (hbytes (heap s)) (hw s)\<rparr>"

definition ide_get_data ::
    "'d platform \<Rightarrow> hd_ptr \<Rightarrow> ptr \<Rightarrow> u32 \<Rightarrow> ('d, 'x) ide_state_scheme \<Rightarrow> ('d, 'x) ide_state_scheme" where
  "ide_get_data p h dst cnt s =
     (case insw (io p) (port_base (chan_of h s) + IDE_DATA_REG) dst (cnt * SECTOR_SIZE div 2) (hbytes (heap s), hw s) of
        (m, d) \<Rightarrow> s\<lparr>heap := (heap s)\<lparr>hbytes := m\<rparr>, hw := d\<rparr>)"

definition ide_get_status ::
    "'d platform \<Rightarrow> hd_ptr \<Rightarrow> ('d, 'x) ide_state_scheme \<Rightarrow> u8 \<times> ('d, 'x) ide_state_scheme" where
  "ide_get_status p h s =
     (case inb (io p) (port_base (chan_of h s) + IDE_STA_CMD) (hw s) of (v, d) \<Rightarrow> (v, s\<lparr>hw := d\<rparr>))"

section \<open>Interrupts and waiting\<close>

definition set_sema :: "nat \<Rightarrow> u32 \<Rightarrow> ('d, 'x) ide_state_scheme \<Rightarrow> ('d, 'x) ide_state_scheme" where
  "set_sema c v s = s\<lparr>ide_ch := (ide_ch s)(c := (ide_ch s c)\<lparr>ch_sema := v\<rparr>)\<rparr>"

fun ide_handler_loop :: "nat \<Rightarrow> nat \<Rightarrow> u8 \<Rightarrow> ('d, 'x) ide_state_scheme \<Rightarrow> ('d, 'x) ide_state_scheme" where
  "ide_handler_loop 0 idx irq s = s"
| "ide_handler_loop (Suc n) idx irq s =
     (if ch_irq (ide_ch s idx) = irq then set_sema idx (ch_sema (ide_ch s idx) + 1) s
      else ide_handler_loop n (Suc idx) irq s)"

definition ide_handler :: "u8 \<Rightarrow> ('d, 'x) ide_state_scheme \<Rightarrow> ('d, 'x) ide_state_scheme" where
  "ide_handler = ide_handler_loop IDE_CH_NR 0"

definition msleep_irqs :: "'d platform \<Rightarrow> u32 \<Rightarrow> ('d, 'x) ide_state_scheme \<Rightarrow> ('d, 'x) ide_state_scheme" where
  "msleep_irqs p ms s = (case sleep p ms (hw s) of (irqs, d) \<Rightarrow> fold ide_handler irqs (s\<lparr>hw := d\<rparr>))"

text \<open>
  \<open>sema_down\<close> of a channel. With no permit the thread enters the wait list, unlocks and blocks. An
  interrupt that strikes in between takes the waiter off the list and unblocks a thread that still
  runs; the thread then blocks, and nobody has it on a list any more.
\<close>

partial_function (option) ch_sema_down ::
    "'d platform \<Rightarrow> nat \<Rightarrow> ('d, 'x) ide_state_scheme \<Rightarrow> ('d, 'x) ide_state_scheme option" where
  "ch_sema_down p c s =
     (if ch_sema (ide_ch s c) \<noteq> 0 then Some (set_sema c (ch_sema (ide_ch s c) - 1) s)
      else if strikes p (hw s) then None
      else case await p (hw s) of None \<Rightarrow> None
        | Some (irqs, d) \<Rightarrow> ch_sema_down p c (fold ide_handler irqs (s\<lparr>hw := d\<rparr>)))"

text \<open>\<open>do { msleep(10); stat = ide_get_status(hd); } while (busy stat);\<close>\<close>

partial_function (option) poll ::
    "'d platform \<Rightarrow> hd_ptr \<Rightarrow> (u8 \<Rightarrow> bool) \<Rightarrow> ('d, 'x) ide_state_scheme \<Rightarrow> (u8 \<times> ('d, 'x) ide_state_scheme) option" where
  "poll p h busy s =
     (case ide_get_status p h (msleep_irqs p 10 s) of
        (stat, s') \<Rightarrow> if busy stat then poll p h busy s' else Some (stat, s'))"

definition not_ready :: "u8 \<Rightarrow> bool" where
  "not_ready stat \<longleftrightarrow> stat AND STAT_BSY \<noteq> 0 \<or> stat AND STAT_DRQ = 0"

section \<open>Transfers\<close>

definition set_ch_mlock :: "hd_ptr \<Rightarrow> ptr \<Rightarrow> ('d, 'x) ide_state_scheme \<Rightarrow> ('d, 'x) ide_state_scheme" where
  "set_ch_mlock h t s = (let c = hd_ch (hd_of h s)
     in s\<lparr>ide_ch := (ide_ch s)(c := (ide_ch s c)\<lparr>ch_mlock := t\<rparr>)\<rparr>)"

definition with_ch_lock :: "hd_ptr \<Rightarrow> (('d, 'x) ide_state_scheme \<Rightarrow> ('d, 'x) ide_state_scheme option) \<Rightarrow>
    ('d, 'x) ide_state_scheme \<Rightarrow> stop + ('d, 'x) ide_state_scheme" where
  "with_ch_lock h body s =
     (if ch_mlock (chan_of h s) \<noteq> NULL then Inl Blocked
      else case body (set_ch_mlock h (cur_task (mm (heap s))) s) of None \<Rightarrow> Inl Hang
        | Some s' \<Rightarrow> Inr (set_ch_mlock h NULL s'))"

definition chunk :: "u32 \<Rightarrow> u32 \<Rightarrow> u32" where
  "chunk cnt cnt_done = (if 256 \<le> cnt - cnt_done then 256 else cnt - cnt_done)"

partial_function (option) ide_read_loop ::
    "'d platform \<Rightarrow> hd_ptr \<Rightarrow> u32 \<Rightarrow> u32 \<Rightarrow> u32 \<Rightarrow> ptr \<Rightarrow> ('d, 'x) ide_state_scheme \<Rightarrow> ('d, 'x) ide_state_scheme option" where
  "ide_read_loop p h lba cnt cnt_done p_dst s =
     (if cnt_done < cnt then
        let cnt_each = chunk cnt cnt_done
        in do {
          s1 \<leftarrow> ch_sema_down p (hd_ch (hd_of h s)) (ide_set_cmd p h CMD_READ_SEC (ide_set_lba p h lba cnt_each s));
          (stat, s2) \<leftarrow> poll p h not_ready s1;
          ide_read_loop p h lba cnt (cnt_done + cnt_each) (p_dst + cnt_each * SECTOR_SIZE) (ide_get_data p h p_dst cnt_each s2)
        }
      else Some s)"

definition ide_read ::
    "'d platform \<Rightarrow> hd_ptr \<Rightarrow> u32 \<Rightarrow> ptr \<Rightarrow> u32 \<Rightarrow> ('d, 'x) ide_state_scheme \<Rightarrow> stop + ('d, 'x) ide_state_scheme" where
  "ide_read p h lba dst cnt = with_ch_lock h (\<lambda>s. ide_read_loop p h lba cnt 0 dst (ide_set_drive p h s))"

partial_function (option) ide_write_loop ::
    "'d platform \<Rightarrow> hd_ptr \<Rightarrow> u32 \<Rightarrow> u32 \<Rightarrow> u32 \<Rightarrow> ptr \<Rightarrow> ('d, 'x) ide_state_scheme \<Rightarrow> ('d, 'x) ide_state_scheme option" where
  "ide_write_loop p h lba cnt cnt_done p_src s =
     (if cnt_done < cnt then
        let cnt_each = chunk cnt cnt_done
        in do {
          (stat, s1) \<leftarrow> poll p h not_ready (ide_set_cmd p h CMD_WRITE_SEC (ide_set_lba p h lba cnt_each s));
          s2 \<leftarrow> ch_sema_down p (hd_ch (hd_of h s)) (ide_set_data p h p_src cnt_each s1);
          ide_write_loop p h lba cnt (cnt_done + cnt_each) (p_src + cnt_each * SECTOR_SIZE) s2
        }
      else Some s)"

definition ide_write ::
    "'d platform \<Rightarrow> hd_ptr \<Rightarrow> u32 \<Rightarrow> ptr \<Rightarrow> u32 \<Rightarrow> ('d, 'x) ide_state_scheme \<Rightarrow> stop + ('d, 'x) ide_state_scheme" where
  "ide_write p h lba src cnt = with_ch_lock h (\<lambda>s. ide_write_loop p h lba cnt 0 src (ide_set_drive p h s))"

section \<open>Probing\<close>

text \<open>\<open>id_info\<close> is the array of 512 bytes on the stack.\<close>

definition ide_get_identify ::
    "'d platform \<Rightarrow> ptr \<Rightarrow> hd_ptr \<Rightarrow> ('d, 'x) ide_state_scheme \<Rightarrow> (bool \<times> ('d, 'x) ide_state_scheme) option" where
  "ide_get_identify p id_info h s =
     (let s1 = s\<lparr>heap := (heap s)\<lparr>hbytes := memset (hbytes (heap s)) id_info 0 512\<rparr>\<rparr>
      in do {
        (stat, s2) \<leftarrow> poll p h (\<lambda>stat. stat AND STAT_BSY \<noteq> 0) (ide_set_cmd p h CMD_IDENTIFY (ide_set_drive p h s1));
        if 0 = stat then Some (False, s2)
        else do {
          s3 \<leftarrow> ch_sema_down p (hd_ch (hd_of h s2)) s2;
          Some (True, ide_get_data p h id_info 1 s3)
        }
      })"

definition ptable_type :: "ptr \<Rightarrow> nat \<Rightarrow> ('d, 'x) ide_state_scheme \<Rightarrow> u8" where
  "ptable_type bs idx s = hbytes (heap s) (ptable_at bs idx + 4)"

definition ptable_start :: "ptr \<Rightarrow> nat \<Rightarrow> ('d, 'x) ide_state_scheme \<Rightarrow> u32" where
  "ptable_start bs idx s = load32 (hbytes (heap s)) (ptable_at bs idx + 8)"

definition ptable_cnt :: "ptr \<Rightarrow> nat \<Rightarrow> ('d, 'x) ide_state_scheme \<Rightarrow> u32" where
  "ptable_cnt bs idx s = load32 (hbytes (heap s)) (ptable_at bs idx + 12)"

definition zero_ptn :: ide_ptn where
  "zero_ptn = \<lparr>ptn_name = [], start_lba = 0, sec_cnt = 0, ptn_hd = (0, 0), inode_base = 0, inode_cnt = 0, inode_btmp_lba = 0,
     inode_btmp = \<lparr>len = 0, bits = 0\<rparr>, inode_table_lba = 0, blk_btmp_lba = 0, blk_btmp = \<lparr>len = 0, bits = 0\<rparr>,
     blk_lba = 0, ptn_mlock = NULL\<rparr>"

text \<open>\<open>sprintf(name, "%s_%d", ...)\<close> and the two other formats, by their meaning.\<close>

definition formatted :: "u8 list \<Rightarrow> arg list \<Rightarrow> u8 list" where
  "formatted f as = (case render f as of Some bs \<Rightarrow> bs | None \<Rightarrow> [])"

definition ptn_format :: "u8 list" where "ptn_format = [0x25, 0x73, 0x5F, 0x25, 0x64]"
definition ch_format :: "u8 list" where "ch_format = [0x69, 0x64, 0x65, 0x25, 0x64]"
definition hd_format :: "u8 list" where "hd_format = [0x73, 0x64, 0x25, 0x63]"

text \<open>A data partition: \<open>sys_malloc\<close> clears it, its answer is not checked.\<close>

definition record_ptn :: "'d platform \<Rightarrow> hd_ptr \<Rightarrow> u32 \<Rightarrow> u32 \<Rightarrow> ptr \<Rightarrow> nat \<Rightarrow> ('d, 'x) ide_state_scheme \<Rightarrow>
    stop + ('d, 'x) ide_state_scheme" where
  "record_ptn p h base offset bs idx s =
     rbind (sys_malloc sizeof_ide_ptn (heap s)) (\<lambda>(ptn, hp).
       let s1 = s\<lparr>heap := hp, ptn_at := (ptn_at s)(ptn := if ptn = NULL then ptn_at s NULL else zero_ptn)\<rparr>;
           nr = (if base = 0 then of_nat (idx + 1) else ptn_nr s1);
           s2 = (if base = 0 then s1 else s1\<lparr>ptn_nr := ptn_nr s1 + 1\<rparr>)
       in Inr (s2\<lparr>
         ptn_at := (ptn_at s2)(ptn := (ptn_at s2 ptn)\<lparr>
           ptn_name := formatted ptn_format [Str (hd_name (hd_of h s2)), Num nr],
           start_lba := base + offset + ptable_start bs idx s2,
           sec_cnt := ptable_cnt bs idx s2,
           ptn_hd := h\<rparr>),
         ptn_nodes := list_append (ptn_nodes s2) (ptn_list_at p) (ptn_tag ptn)\<rparr>))"

text \<open>
  The four entries of a table; \<open>rescan\<close> is the recursive call. \<open>fuel\<close> bounds the depth of the
  recursion: what it needs is shown by the theorems, and a chain that loops exhausts every fuel.
\<close>

fun ptable_loop :: "'d platform \<Rightarrow> (u32 \<Rightarrow> u32 \<Rightarrow> ('d, 'x) ide_state_scheme \<Rightarrow> stop + ('d, 'x) ide_state_scheme) \<Rightarrow> hd_ptr \<Rightarrow>
    u32 \<Rightarrow> u32 \<Rightarrow> ptr \<Rightarrow> nat list \<Rightarrow> ('d, 'x) ide_state_scheme \<Rightarrow> stop + ('d, 'x) ide_state_scheme" where
  "ptable_loop p rescan h base offset bs [] s = Inr s"
| "ptable_loop p rescan h base offset bs (idx # is) s =
     (if ptable_type bs idx s = 0 then ptable_loop p rescan h base offset bs is s
      else if ptable_type bs idx s = 0x05 then
        rbind (if base = 0 then rescan (ptable_start bs idx s) 0 (s\<lparr>ptn_nr := 5\<rparr>)
               else rescan base (ptable_start bs idx s) s)
          (ptable_loop p rescan h base offset bs is)
      else rbind (record_ptn p h base offset bs idx s) (ptable_loop p rescan h base offset bs is))"

fun ide_get_partition :: "nat \<Rightarrow> 'd platform \<Rightarrow> hd_ptr \<Rightarrow> u32 \<Rightarrow> u32 \<Rightarrow> ('d, 'x) ide_state_scheme \<Rightarrow>
    stop + ('d, 'x) ide_state_scheme" where
  "ide_get_partition 0 p h base offset s = Inl Hang"
| "ide_get_partition (Suc fuel) p h base offset s =
     rbind (sys_malloc sizeof_boot_sector (heap s)) (\<lambda>(bs, hp).
       rbind (ide_read p h (base + offset) bs 1 (s\<lparr>heap := hp\<rparr>)) (\<lambda>s1.
         rbind (ptable_loop p (ide_get_partition fuel p h) h base offset bs [0..<4] s1) (\<lambda>s2.
           rbind (sys_free bs (heap s2)) (\<lambda>hp'. Inr (s2\<lparr>heap := hp'\<rparr>)))))"

section \<open>Start-up\<close>

definition set_hd :: "hd_ptr \<Rightarrow> (ide_hd \<Rightarrow> ide_hd) \<Rightarrow> ('d, 'x) ide_state_scheme \<Rightarrow> ('d, 'x) ide_state_scheme" where
  "set_hd h f s = s\<lparr>ide_ch := (ide_ch s)(fst h := (ide_ch s (fst h))\<lparr>ch_dev := (ch_dev (ide_ch s (fst h)))(snd h := f (hd_of h s))\<rparr>)\<rparr>"

definition set_ch :: "nat \<Rightarrow> (ide_ch \<Rightarrow> ide_ch) \<Rightarrow> ('d, 'x) ide_state_scheme \<Rightarrow> ('d, 'x) ide_state_scheme" where
  "set_ch c f s = s\<lparr>ide_ch := (ide_ch s)(c := f (ide_ch s c))\<rparr>"

definition probe_hd :: "nat \<Rightarrow> 'd platform \<Rightarrow> ptr \<Rightarrow> nat \<Rightarrow> nat \<Rightarrow> ('d, 'x) ide_state_scheme \<Rightarrow>
    stop + ('d, 'x) ide_state_scheme" where
  "probe_hd fuel p id_info ch_idx hd_idx s =
     (let h = (ch_idx, hd_idx);
          s1 = set_hd h (\<lambda>d. d\<lparr>hd_name := formatted hd_format [Chr (0x61 + of_nat (ch_idx * 2 + hd_idx))],
            hd_ch := ch_idx, dev_nr := of_nat hd_idx\<rparr>) s
      in case ide_get_identify p id_info h s1 of None \<Rightarrow> Inl Hang
         | Some (ok, s2) \<Rightarrow>
             if ok then ide_get_partition fuel p h 0 0 (set_hd h (\<lambda>d. d\<lparr>valid := True\<rparr>) s2)
             else Inr (set_hd h (\<lambda>d. d\<lparr>valid := False\<rparr>) s2))"

definition probe_ch :: "nat \<Rightarrow> 'd platform \<Rightarrow> ptr \<Rightarrow> nat \<Rightarrow> ('d, 'x) ide_state_scheme \<Rightarrow> stop + ('d, 'x) ide_state_scheme" where
  "probe_ch fuel p id_info ch_idx s =
     (let s1 = set_ch ch_idx (\<lambda>c. c\<lparr>ch_name := formatted ch_format [Num (of_nat ch_idx)], ch_mlock := NULL, ch_sema := 0\<rparr>) s;
          s2 = s1\<lparr>intr := register_handler (ch_irq (ide_ch s1 ch_idx)) (ide_handler_at p) (intr s1)\<rparr>
      in rbind (probe_hd fuel p id_info ch_idx 0 s2) (probe_hd fuel p id_info ch_idx 1))"

definition ide_ch_init :: "nat \<Rightarrow> 'd platform \<Rightarrow> ptr \<Rightarrow> ('d, 'x) ide_state_scheme \<Rightarrow> stop + ('d, 'x) ide_state_scheme" where
  "ide_ch_init fuel p id_info s =
     (let s1 = set_ch 0 (\<lambda>c. c\<lparr>port_base := 0x1F0, ch_irq := 0x20 + 14\<rparr>) s;
          s2 = set_ch 1 (\<lambda>c. c\<lparr>port_base := 0x170, ch_irq := 0x20 + 15\<rparr>) s1;
          s3 = set_ch 2 (\<lambda>c. c\<lparr>port_base := 0x1E8, ch_irq := 0x20 + 11\<rparr>) s2;
          s4 = set_ch 3 (\<lambda>c. c\<lparr>port_base := 0x168, ch_irq := 0x20 + 10\<rparr>) s3
      in rbind (probe_ch fuel p id_info 0 s4) (\<lambda>s. rbind (probe_ch fuel p id_info 1 s) (\<lambda>s.
           rbind (probe_ch fuel p id_info 2 s) (probe_ch fuel p id_info 3))))"

definition ide_init :: "nat \<Rightarrow> 'd platform \<Rightarrow> ptr \<Rightarrow> ('d, 'x) ide_state_scheme \<Rightarrow> stop + ('d, 'x) ide_state_scheme" where
  "ide_init fuel p id_info s = ide_ch_init fuel p id_info (s\<lparr>ptn_nodes := list_init (ptn_nodes s) (ptn_list_at p)\<rparr>)"

end
