(* ===== verification/KAta.thy ===== *)
theory KAta
  imports KIde
begin

text \<open>
  The driver on an ATA channel. The channel is an automaton after the ATA standard, for the commands the
  driver uses: the task file, a transfer in progress, the time until the drive is ready, and the
  interrupts it has raised. It stands at any of the port bases, with up to two drives of 512-byte
  sectors. A drive is busy for \<open>delay\<close> ticks before the first sector of a command and for \<open>gap\<close> ticks after
  each sector: before the next one, or before a write is done. The driver polls once per command, so a
  transfer of several sectors is right only where \<open>gap\<close> is 0. The theorems say what \<open>ide_read\<close> and
  \<open>ide_write\<close> do to memory and to the drives.
\<close>

section \<open>The channel\<close>

datatype xfer = Idle | Data_in "u16 list" | Data_out nat nat "u16 list"

record ata =
  base :: u16
  vec :: u8
  drv_sel :: u8
  sec_reg :: u8
  lba_low :: u8
  lba_mid :: u8
  lba_high :: u8
  platters :: "bool \<Rightarrow> (nat \<Rightarrow> u8 list) option"
  ident :: "u16 list"
  xfer :: xfer
  lag :: nat
  pend :: nat
  delay :: nat
  gap :: nat
  due :: bool

fun words_of :: "u8 list \<Rightarrow> u16 list" where
  "words_of (x # y # r) = (ucast x OR push_bit 8 (ucast y)) # words_of r"
| "words_of _ = []"

fun bytes_of :: "u16 list \<Rightarrow> u8 list" where
  "bytes_of [] = []"
| "bytes_of (w # ws) = ucast w # ucast (drop_bit 8 w) # bytes_of ws"

definition slave :: "ata \<Rightarrow> bool" where
  "slave a = bit (drv_sel a) 4"

definition lba28 :: "ata \<Rightarrow> nat" where
  "lba28 a = unat (lba_low a) + 2 ^ 8 * unat (lba_mid a) + 2 ^ 16 * unat (lba_high a) + 2 ^ 24 * unat (drv_sel a AND 0xF)"

definition sector_count :: "ata \<Rightarrow> nat" where
  "sector_count a = (if sec_reg a = 0 then 256 else unat (sec_reg a))"

text \<open>The drive is busy for \<open>n\<close> ticks, and raises an interrupt when it is ready again (\<open>due\<close>).\<close>

definition busy_for :: "nat \<Rightarrow> ata \<Rightarrow> ata" where
  "busy_for n a = a\<lparr>lag := n, pend := pend a + (if n = 0 then 1 else 0), due := True\<rparr>"

text \<open>Data for the host come with an interrupt when they are ready. The first sector from the host is
  asked for without one; every later one is, and so is the end of the write.\<close>

definition start_in :: "u16 list \<Rightarrow> ata \<Rightarrow> ata" where
  "start_in ws a = busy_for (delay a) (a\<lparr>xfer := Data_in ws\<rparr>)"

definition ata_command :: "u8 \<Rightarrow> ata \<Rightarrow> ata" where
  "ata_command v a = (case platters a (slave a) of None \<Rightarrow> a
     | Some f \<Rightarrow>
         if lag a \<noteq> 0 then a
         else if v = 0x20 then start_in (concat (map (\<lambda>l. words_of (f l)) [lba28 a..<lba28 a + sector_count a])) a
         else if v = 0x30 then a\<lparr>xfer := Data_out (lba28 a) (sector_count a) [], lag := delay a, due := False\<rparr>
         else if v = 0xEC then start_in (ident a) a
         else a)"

definition ata_status :: "ata \<Rightarrow> u8" where
  "ata_status a = (if platters a (slave a) = None then 0 else if lag a \<noteq> 0 then 0x80 else if xfer a = Idle then 0x40 else 0x48)"

definition ata_out8 :: "u16 \<Rightarrow> u8 \<Rightarrow> ata \<Rightarrow> ata" where
  "ata_out8 port v a =
     (if port = base a + 2 then a\<lparr>sec_reg := v\<rparr>
      else if port = base a + 3 then a\<lparr>lba_low := v\<rparr>
      else if port = base a + 4 then a\<lparr>lba_mid := v\<rparr>
      else if port = base a + 5 then a\<lparr>lba_high := v\<rparr>
      else if port = base a + 6 then a\<lparr>drv_sel := v\<rparr>
      else if port = base a + 7 then ata_command v a
      else a)"

definition ata_in8 :: "u16 \<Rightarrow> ata \<Rightarrow> u8 \<times> ata" where
  "ata_in8 port a = (if port = base a + 7 then ata_status a else if port = base a + 6 then drv_sel a else 0, a)"

text \<open>The data port while the drive is busy: reads give no data, writes are lost.\<close>

definition ata_in16 :: "u16 \<Rightarrow> ata \<Rightarrow> u16 \<times> ata" where
  "ata_in16 port a =
     (if port = base a \<and> lag a = 0 then (case xfer a of
        Data_in (w # ws) \<Rightarrow> (w, if ws = [] then a\<lparr>xfer := Idle\<rparr>
          else if 256 dvd length ws then busy_for (gap a) (a\<lparr>xfer := Data_in ws\<rparr>)
          else a\<lparr>xfer := Data_in ws\<rparr>)
      | _ \<Rightarrow> (0xFFFF, a)) else (0xFFFF, a))"

definition set_sector :: "nat \<Rightarrow> u8 list \<Rightarrow> ata \<Rightarrow> ata" where
  "set_sector l bs a = a\<lparr>platters := (platters a)(slave a := map_option (\<lambda>f. f(l := bs)) (platters a (slave a)))\<rparr>"

definition ata_out16 :: "u16 \<Rightarrow> u16 \<Rightarrow> ata \<Rightarrow> ata" where
  "ata_out16 port v a =
     (if port = base a \<and> lag a = 0 then (case xfer a of
        Data_out l n ws \<Rightarrow> if length ws = 255
          then busy_for (gap a) ((set_sector l (bytes_of (ws @ [v])) a)\<lparr>xfer := if n \<le> 1 then Idle else Data_out (l + 1) (n - 1) []\<rparr>)
          else a\<lparr>xfer := Data_out l n (ws @ [v])\<rparr>
      | _ \<Rightarrow> a) else a)"

definition ata_dev :: "ata io_dev" where
  "ata_dev = \<lparr>in8 = ata_in8, out8 = ata_out8, in16 = ata_in16, out16 = ata_out16\<rparr>"

text \<open>Time: the drive comes closer to being ready; the interrupts raised are taken.\<close>

definition tick :: "ata \<Rightarrow> ata" where
  "tick a = (if lag a = 0 then a else a\<lparr>lag := lag a - 1, pend := pend a + (if lag a = 1 \<and> due a then 1 else 0)\<rparr>)"

definition ata_sleep :: "u32 \<Rightarrow> ata \<Rightarrow> u8 list \<times> ata" where
  "ata_sleep ms a = (replicate (pend (tick a)) (vec a), (tick a)\<lparr>pend := 0\<rparr>)"

definition ata_await :: "ata \<Rightarrow> (u8 list \<times> ata) option" where
  "ata_await a =
     (if pend a \<noteq> 0 then Some (replicate (pend a) (vec a), a\<lparr>pend := 0\<rparr>)
      else if lag a \<noteq> 0 \<and> due a then Some ([vec a], a\<lparr>lag := 0\<rparr>)
      else None)"

text \<open>The machine on which no interrupt strikes a thread on its way to sleep.\<close>

definition ata_platform :: "ptr \<Rightarrow> ptr \<Rightarrow> ata platform" where
  "ata_platform pl ih = \<lparr>io = ata_dev, sleep = ata_sleep, await = ata_await, strikes = (\<lambda>_. False), ptn_list_at = pl, ide_handler_at = ih\<rparr>"

section \<open>Bytes and words\<close>

definition store_bytes :: "mem \<Rightarrow> ptr \<Rightarrow> u8 list \<Rightarrow> mem" where
  "store_bytes m p bs = (\<lambda>q. if unat (q - p) < length bs then bs ! unat (q - p) else m q)"

definition mem_bytes :: "mem \<Rightarrow> ptr \<Rightarrow> nat \<Rightarrow> u8 list" where
  "mem_bytes m p n = map (\<lambda>i. m (p + of_nat i)) [0..<n]"

lemma bytes_of_length [simp]: "length (bytes_of ws) = 2 * length ws"
  by (induction ws) simp_all

lemma bytes_of_append [simp]: "bytes_of (xs @ ys) = bytes_of xs @ bytes_of ys"
  by (induction xs) simp_all

lemma join_bytes: "ucast (ucast x OR push_bit 8 (ucast y) :: u16) = (x :: u8)"
  "ucast (drop_bit 8 (ucast x OR push_bit 8 (ucast y) :: u16)) = (y :: u8)"
  by (rule bit_word_eqI; auto simp: bit_simps dest: bit_imp_le_length)+

lemmas join_bytes_simps = join_bytes join_bytes(2) [unfolded drop_bit_or]

lemma bytes_of_words_of: "even (length bs) \<Longrightarrow> bytes_of (words_of bs) = bs"
  by (induction bs rule: words_of.induct) (simp_all add: join_bytes_simps)

lemma words_of_length: "length (words_of bs) = length bs div 2"
  by (induction bs rule: words_of.induct) simp_all

lemma store_bytes_Nil [simp]: "store_bytes m p [] = m"
  by (simp add: store_bytes_def)

lemma store_bytes_Cons:
  assumes "Suc (length bs) < 2 ^ 32"
  shows "store_bytes m p (b # bs) = store_bytes (m(p := b)) (p + 1) bs"
proof
  fix q
  note o = offset_less_Suc [OF assms, of q p]
  have len: "length bs < 2 ^ 32" using assms by simp
  show "store_bytes m p (b # bs) q = store_bytes (m(p := b)) (p + 1) bs q"
  proof (cases "q = p")
    case True
    have "unat (- 1 :: u32) = 2 ^ 32 - 1" using unat_minus_of_nat [of 1] by simp
    then show ?thesis using assms True by (simp add: store_bytes_def)
  next
    case False
    then have "q - p \<noteq> 0" by simp
    then have pos: "0 < unat (q - p)" by (simp add: unat_gt_0)
    then have "unat (q - p - 1) = unat (q - p) - unat (1 :: u32)" by (intro unat_sub_small) simp
    then have "unat (q - (p + 1)) = unat (q - p) - 1" by (simp add: diff_diff_eq)
    then show ?thesis using pos False by (auto simp: store_bytes_def nth_Cons' fun_upd_def)
  qed
qed

lemma store_bytes_append:
  "length xs + length ys < 2 ^ 32 \<Longrightarrow> store_bytes m p (xs @ ys) = store_bytes (store_bytes m p xs) (p + of_nat (length xs)) ys"
proof (induction xs arbitrary: m p)
  case (Cons x xs)
  have "store_bytes m p (x # xs @ ys) = store_bytes (m(p := x)) (p + 1) (xs @ ys)"
    using Cons.prems by (intro store_bytes_Cons) simp
  moreover have "store_bytes m p (x # xs) = store_bytes (m(p := x)) (p + 1) xs"
    using Cons.prems by (intro store_bytes_Cons) simp
  ultimately show ?case using Cons.IH [of "m(p := x)" "p + 1"] Cons.prems by (simp add: algebra_simps del: fun_upd_apply)
qed simp

lemma store16_bytes: "store16 m p w = store_bytes m p [ucast w, ucast (drop_bit 8 w)]"
  by (simp add: store16_def store_bytes_Cons add.commute)

lemma load16_bytes: "bytes_of [load16 m p] = [m p, m (p + 1)]"
  by (simp add: load16_def join_bytes_simps)

lemma mem_bytes_Suc: "mem_bytes m p (Suc n) = m p # mem_bytes m (p + 1) n"
proof -
  have "[0..<Suc n] = 0 # map Suc [0..<n]" by (simp add: upt_conv_Cons map_Suc_upt del: upt_Suc)
  then show ?thesis by (simp add: mem_bytes_def add.assoc del: upt_Suc)
qed

lemma mem_bytes_add: "mem_bytes m p (a + b) = mem_bytes m p a @ mem_bytes m (p + of_nat a) b"
  by (induction a arbitrary: p) (simp_all add: mem_bytes_Suc mem_bytes_def [of m _ 0] algebra_simps)

lemma mem_bytes_length [simp]: "length (mem_bytes m p n) = n"
  by (simp add: mem_bytes_def)

section \<open>The driver's view\<close>

text \<open>The state \<open>s\<close> with the channel in state \<open>a\<close>, its semaphore at \<open>v\<close> and memory \<open>m\<close>: what the transfer
  routines change.\<close>

definition drv :: "nat \<Rightarrow> ata \<Rightarrow> u32 \<Rightarrow> mem \<Rightarrow> (ata, 'x) ide_state_scheme \<Rightarrow> (ata, 'x) ide_state_scheme" where
  "drv c a v m s = s\<lparr>hw := a, ide_ch := (ide_ch s)(c := (ide_ch s c)\<lparr>ch_sema := v\<rparr>), heap := (heap s)\<lparr>hbytes := m\<rparr>\<rparr>"

lemma drv_fields [simp]:
  "hw (drv c a v m s) = a" "hbytes (heap (drv c a v m s)) = m" "hd_of h (drv c a v m s) = hd_of h s"
  "ch_sema (ide_ch (drv c a v m s) c) = v" "ch_irq (ide_ch (drv c a v m s) x) = ch_irq (ide_ch s x)"
  "port_base (ide_ch (drv c a v m s) x) = port_base (ide_ch s x)"
  "ch_mlock (ide_ch (drv c a v m s) x) = ch_mlock (ide_ch s x)" "mm (heap (drv c a v m s)) = mm (heap s)"
  "drv c a v m (drv c a' v' m' s) = drv c a v m s"
  "(drv c a v m s)\<lparr>hw := a'\<rparr> = drv c a' v m s" "set_sema c v' (drv c a v m s) = drv c a v' m s"
  "drv c a v m s\<lparr>heap := (heap (drv c a v m s))\<lparr>hbytes := m'\<rparr>, hw := a'\<rparr> = drv c a' v m' s"
  by (simp_all add: drv_def hd_of_def set_sema_def)

lemma drv_self: "drv c (hw s) (ch_sema (ide_ch s c)) (hbytes (heap s)) s = s"
  by (simp add: drv_def)

definition wired :: "nat \<Rightarrow> hd_ptr \<Rightarrow> ata \<Rightarrow> (ata, 'x) ide_state_scheme \<Rightarrow> bool" where
  "wired c h a s \<longleftrightarrow> c < 4 \<and> hd_ch (hd_of h s) = c \<and> port_base (ide_ch s c) = base a \<and> ch_irq (ide_ch s c) = vec a \<and>
     (\<forall>c'<c. ch_irq (ide_ch s c') \<noteq> vec a)"

lemma wired_drv [simp]: "wired c h a (drv c a' v m s) = wired c h a s"
  by (simp add: wired_def)

lemma wired_cong: "base a = base a' \<Longrightarrow> vec a = vec a' \<Longrightarrow> wired c h a s = wired c h a' s"
  by (simp add: wired_def)

lemma port_of: "wired c h a s \<Longrightarrow> port_base (chan_of h (drv c a' v m s)) = base a"
  by (simp add: wired_def chan_of_def)

lemma handler_loop:
  "idx \<le> c \<Longrightarrow> c < idx + n \<Longrightarrow> ch_irq (ide_ch s c) = i \<Longrightarrow> \<forall>c'<c. ch_irq (ide_ch s c') \<noteq> i \<Longrightarrow>
   ide_handler_loop n idx i s = set_sema c (ch_sema (ide_ch s c) + 1) s"
proof (induction n arbitrary: idx)
  case (Suc n)
  then show ?case by (cases "idx = c") auto
qed simp

lemma handler_drv: "wired c h a s \<Longrightarrow> ide_handler (vec a) (drv c a' v m s) = drv c a' (v + 1) m s"
  unfolding ide_handler_def by (subst handler_loop [where c = c]) (auto simp: wired_def IDE_CH_NR_def)

lemma handlers_drv: "wired c h a s \<Longrightarrow> (ide_handler (vec a) ^^ n) (drv c a' v m s) = drv c a' (v + of_nat n) m s"
  by (induction n) (simp_all add: handler_drv algebra_simps)

lemma tick_fields [simp]:
  "base (tick a) = base a" "vec (tick a) = vec a" "xfer (tick a) = xfer a" "platters (tick a) = platters a"
  "drv_sel (tick a) = drv_sel a" "slave (tick a) = slave a" "lag (tick a) = lag a - 1" "delay (tick a) = delay a"
  "due (tick a) = due a" "gap (tick a) = gap a"
  by (simp_all add: tick_def slave_def)

lemma msleep_drv:
  "wired c h a s \<Longrightarrow> msleep_irqs (ata_platform pl ih) ms (drv c a v m s) =
     drv c ((tick a)\<lparr>pend := 0\<rparr>) (v + of_nat (pend (tick a))) m s"
  by (simp add: msleep_irqs_def ata_platform_def ata_sleep_def handlers_drv)

text \<open>The interrupts a driver may still count on, taken or to come.\<close>

definition credits :: "ata \<Rightarrow> u32 \<Rightarrow> nat" where
  "credits a v = unat v + pend a + (if lag a \<noteq> 0 \<and> due a then 1 else 0)"

lemma busy_for_fields [simp]:
  "base (busy_for n a) = base a" "vec (busy_for n a) = vec a" "xfer (busy_for n a) = xfer a" "platters (busy_for n a) = platters a"
  "drv_sel (busy_for n a) = drv_sel a" "slave (busy_for n a) = slave a" "lag (busy_for n a) = n" "delay (busy_for n a) = delay a"
  "gap (busy_for n a) = gap a" "ident (busy_for n a) = ident a" "due (busy_for n a)" "lba28 (busy_for n a) = lba28 a"
  "credits (busy_for n a) v = unat v + pend a + 1" "pend (busy_for 0 a) = pend a + 1"
  by (simp_all add: busy_for_def slave_def credits_def lba28_def)

lemma start_in_fields [simp]:
  "base (start_in ws a) = base a" "vec (start_in ws a) = vec a" "xfer (start_in ws a) = Data_in ws" "platters (start_in ws a) = platters a"
  "drv_sel (start_in ws a) = drv_sel a" "slave (start_in ws a) = slave a" "lag (start_in ws a) = delay a"
  "delay (start_in ws a) = delay a" "gap (start_in ws a) = gap a" "ident (start_in ws a) = ident a" "due (start_in ws a)"
  "credits (start_in ws a) v = unat v + pend a + 1"
  by (simp_all add: start_in_def slave_def)

lemma add_credit: "unat v + n < 2 ^ 32 \<Longrightarrow> unat (v + of_nat n :: u32) = unat v + n"
  by (subst unat_add_small) (simp_all add: unat_of_nat_less)

lemma sleep_credits: "credits a v < 2 ^ 32 \<Longrightarrow> credits ((tick a)\<lparr>pend := 0\<rparr>) (v + of_nat (pend (tick a))) = credits a v"
  using add_credit [of v "pend (tick a)"] by (auto simp: credits_def tick_def split: if_splits)

lemma sema_down_full:
  assumes "wired c h a s" and "0 < credits a v" and "credits a v < 2 ^ 32"
  obtains l p v' where "ch_sema_down (ata_platform pl ih) c (drv c a v m s) = Some (drv c (a\<lparr>lag := l, pend := p\<rparr>) v' m s)"
    and "credits (a\<lparr>lag := l, pend := p\<rparr>) v' = credits a v - 1" and "l \<le> lag a"
    and "credits a v = 1 \<longrightarrow> lag a = 0 \<or> due a \<longrightarrow> l = 0"
proof -
  have step: "ch_sema_down (ata_platform pl ih) c (drv c x w m s) = Some (drv c x (w - 1) m s)" if "w \<noteq> 0" for w x
    using that by (subst ch_sema_down.simps) simp
  show thesis
proof (cases "v = 0")
  case False
  then have "0 < unat v" by (simp add: unat_gt_0)
  then have "unat (v - 1) = unat v - 1" using unat_sub_small [of 1 v] by simp
  then have "credits a (v - 1) = credits a v - 1" using \<open>0 < unat v\<close> by (simp add: credits_def)
  moreover have "ch_sema_down (ata_platform pl ih) c (drv c a v m s) = Some (drv c a (v - 1) m s)" by (rule step [OF False])
  moreover have "lag a = 0 \<or> \<not> due a" if "credits a v = 1" using that \<open>0 < unat v\<close> by (auto simp: credits_def split: if_splits)
  ultimately show thesis using that [where l = "lag a" and p = "pend a" and v' = "v - 1"] by auto
next
  case True
  show thesis
  proof (cases "pend a = 0")
    case False
    have n: "unat (of_nat (pend a) :: u32) = pend a" using assms(3) by (intro unat_of_nat_less) (simp add: credits_def)
    then have nz: "(of_nat (pend a) :: u32) \<noteq> 0" using False by (metis unat_0)
    have "unat (of_nat (pend a) - 1 :: u32) = pend a - 1" using n False by (subst unat_sub_small) simp_all
    then have "credits (a\<lparr>lag := lag a, pend := 0\<rparr>) (of_nat (pend a) - 1) = credits a v - 1"
      using True False by (simp add: credits_def)
    moreover have "ch_sema_down (ata_platform pl ih) c (drv c a v m s) = Some (drv c (a\<lparr>lag := lag a, pend := 0\<rparr>) (of_nat (pend a) - 1) m s)"
      using True False handlers_drv [OF assms(1), of "pend a" "a\<lparr>pend := 0\<rparr>" 0 m] step [OF nz, of "a\<lparr>pend := 0\<rparr>"]
      by (subst ch_sema_down.simps) (simp add: ata_platform_def ata_await_def)
    moreover have "lag a = 0 \<or> \<not> due a" if "credits a v = 1" using that False by (auto simp: credits_def split: if_splits)
    ultimately show thesis using that [where l = "lag a" and p = 0 and v' = "of_nat (pend a) - 1"] by auto
  next
    case no: True
    then have l: "lag a \<noteq> 0 \<and> due a" using assms(2) True by (auto simp: credits_def split: if_splits)
    have e: "a\<lparr>lag := 0\<rparr> = a\<lparr>lag := 0, pend := 0\<rparr>" using no by (cases a) simp
    have "ch_sema_down (ata_platform pl ih) c (drv c a v m s) = Some (drv c (a\<lparr>lag := 0\<rparr>) 0 m s)"
      using True no l handler_drv [OF assms(1), of "a\<lparr>lag := 0\<rparr>" 0 m] step [of 1 "a\<lparr>lag := 0\<rparr>"]
      by (subst ch_sema_down.simps) (simp add: ata_platform_def ata_await_def)
    then have "ch_sema_down (ata_platform pl ih) c (drv c a v m s) = Some (drv c (a\<lparr>lag := 0, pend := 0\<rparr>) 0 m s)" by (simp only: e [symmetric])
    moreover have "credits (a\<lparr>lag := 0, pend := 0\<rparr>) 0 = credits a v - 1" using True no l by (simp add: credits_def)
    ultimately show thesis using that [where l = 0 and p = 0 and v' = 0] by simp
  qed
qed
qed

lemma sema_down_drv:
  assumes "wired c h a s" and "0 < credits a v" and "credits a v < 2 ^ 32"
  obtains l p v' where "ch_sema_down (ata_platform pl ih) c (drv c a v m s) = Some (drv c (a\<lparr>lag := l, pend := p\<rparr>) v' m s)"
    and "credits (a\<lparr>lag := l, pend := p\<rparr>) v' = credits a v - 1" and "l \<le> lag a"
  using sema_down_full [OF assms] by metis

text \<open>Registers and status.\<close>

lemma reg_offsets [simp]:
  "(b :: u16) + 2 \<noteq> b + 7" "b + 3 \<noteq> b + 2" "b + 4 \<noteq> b + 2" "b + 4 \<noteq> b + 3" "b + 5 \<noteq> b + 2" "b + 5 \<noteq> b + 3" "b + 5 \<noteq> b + 4"
  "b + 6 \<noteq> b + 2" "b + 6 \<noteq> b + 3" "b + 6 \<noteq> b + 4" "b + 6 \<noteq> b + 5" "b + 6 \<noteq> b + 7" "b + 7 \<noteq> b + 2" "b + 7 \<noteq> b + 3"
  "b + 7 \<noteq> b + 4" "b + 7 \<noteq> b + 5" "b + 7 \<noteq> b + 6"
  by simp_all

lemmas port_defs = IDE_DATA_REG_def IDE_SEC_CNT_def IDE_LBA_LOW_def IDE_LBA_MID_def IDE_LBA_HIGH_def IDE_DRIVE_SET_def
  IDE_STA_CMD_def

lemma io_ata [simp]: "io (ata_platform pl ih) = ata_dev" "out8 ata_dev = ata_out8" "in8 ata_dev = ata_in8"
  "in16 ata_dev = ata_in16" "out16 ata_dev = ata_out16" "ptn_list_at (ata_platform pl ih) = pl"
  by (simp_all add: ata_platform_def ata_dev_def)

definition drive_byte :: "hd_ptr \<Rightarrow> (ata, 'x) ide_state_scheme \<Rightarrow> u8" where
  "drive_byte h s = (if dev_nr (hd_of h s) = 0 then 0xE0 else 0xF0)"

lemma drive_byte_drv [simp]: "drive_byte h (drv c a v m s) = drive_byte h s"
  by (simp add: drive_byte_def)

lemma set_drive_drv:
  "wired c h a s \<Longrightarrow> ide_set_drive (ata_platform pl ih) h (drv c a v m s) = drv c (a\<lparr>drv_sel := drive_byte h s\<rparr>) v m s"
  by (simp add: ide_set_drive_def port_of outb_def ata_out8_def port_defs drive_byte_def DRIVE_DEFAULT_def DRIVE_MASTER_def
      DRIVE_SLAVE_def DRIVE_LBA_def)

lemma set_cmd_drv:
  "wired c h a s \<Longrightarrow> ide_set_cmd (ata_platform pl ih) h cmd (drv c a v m s) = drv c (ata_command cmd a) v m s"
  by (simp add: ide_set_cmd_def port_of outb_def ata_out8_def port_defs)

definition with_lba :: "u32 \<Rightarrow> u32 \<Rightarrow> ata \<Rightarrow> ata" where
  "with_lba start n a = a\<lparr>lba_low := ucast start, lba_mid := ucast (drop_bit 8 start), lba_high := ucast (drop_bit 16 start),
     drv_sel := drv_sel a OR ucast (drop_bit 24 start AND 0xF), sec_reg := ucast (if 256 \<le> n then 0 else n)\<rparr>"

lemma set_lba_drv:
  "wired c h a s \<Longrightarrow> ide_set_lba (ata_platform pl ih) h start n (drv c a v m s) = drv c (with_lba start n a) v m s"
  by (simp add: ide_set_lba_def port_of outb_def inb_def ata_out8_def ata_in8_def port_defs with_lba_def Let_def
      del: push_bit_numeral_minus_1)

lemma get_status_drv:
  "wired c h a s \<Longrightarrow> ide_get_status (ata_platform pl ih) h (drv c a v m s) = (ata_status a, drv c a v m s)"
  by (simp add: ide_get_status_def port_of inb_def ata_in8_def port_defs)

text \<open>Polling ends when the drive is ready, with the interrupts taken.\<close>

lemma not_ready_values: "\<not> not_ready 0x48" "not_ready 0x80"
  by (simp_all add: not_ready_def STAT_BSY_def STAT_DRQ_def)

lemma rested: "lag x = 0 \<Longrightarrow> pend x = 0 \<Longrightarrow> x\<lparr>lag := 0, pend := 0\<rparr> = (x :: ata)"
  by (cases x) simp

lemma poll_any:
  assumes busy: "\<not> busy 0x48" "busy 0x80" and "wired c h a s" and "xfer a \<noteq> Idle" and "platters a (slave a) \<noteq> None" and "credits a v < 2 ^ 32"
  obtains v' where "poll (ata_platform pl ih) h busy (drv c a v m s) = Some (0x48, drv c (a\<lparr>lag := 0, pend := 0\<rparr>) v' m s)"
    and "credits (a\<lparr>lag := 0, pend := 0\<rparr>) v' = credits a v"
  using assms(3-6)
proof (induction "lag a" arbitrary: a v thesis rule: less_induct)
  case less
  let ?a = "(tick a)\<lparr>pend := 0\<rparr>" and ?v = "v + of_nat (pend (tick a))"
  have w: "wired c h ?a s" using less.prems(2) by (simp add: wired_def)
  have st: "ide_get_status (ata_platform pl ih) h (msleep_irqs (ata_platform pl ih) 10 (drv c a v m s)) = (ata_status ?a, drv c ?a ?v m s)"
    using less.prems(2) by (simp add: msleep_drv get_status_drv [OF w])
  have cr: "credits ?a ?v = credits a v" by (rule sleep_credits [OF less.prems(5)])
  have same: "(?a)\<lparr>lag := 0, pend := 0\<rparr> = a\<lparr>lag := 0, pend := 0\<rparr>" by (cases a) (simp add: tick_def)
  show ?case
  proof (cases "lag a \<le> 1")
    case True
    then have "lag ?a = 0" by simp
    then have "?a\<lparr>lag := 0, pend := 0\<rparr> = ?a" by (intro rested) simp_all
    then have "?a = a\<lparr>lag := 0, pend := 0\<rparr>" using same by simp
    moreover have "ata_status ?a = 0x48" using \<open>lag ?a = 0\<close> less.prems(3,4) by (simp add: ata_status_def slave_def)
    ultimately have "poll (ata_platform pl ih) h busy (drv c a v m s) = Some (0x48, drv c (a\<lparr>lag := 0, pend := 0\<rparr>) ?v m s)"
      using st busy by (subst poll.simps) simp
    then show ?thesis using less.prems(1) [of ?v] cr \<open>?a = a\<lparr>lag := 0, pend := 0\<rparr>\<close> by simp
  next
    case False
    then have lt: "lag ?a < lag a" by simp
    have xf: "xfer ?a \<noteq> Idle" "platters ?a (slave ?a) \<noteq> None" "credits ?a ?v < 2 ^ 32"
      using less.prems(3,4,5) cr by (simp_all add: slave_def)
    obtain v' where v': "poll (ata_platform pl ih) h busy (drv c ?a ?v m s) = Some (0x48, drv c (?a\<lparr>lag := 0, pend := 0\<rparr>) v' m s)"
      "credits (?a\<lparr>lag := 0, pend := 0\<rparr>) v' = credits ?a ?v"
      using less.hyps [OF lt _ w xf] by blast
    have "ata_status ?a = 0x80" using False less.prems(4) by (simp add: ata_status_def slave_def)
    then have "busy (ata_status ?a)" using busy by simp
    then have "poll (ata_platform pl ih) h busy (drv c a v m s) = Some (0x48, drv c (a\<lparr>lag := 0, pend := 0\<rparr>) v' m s)"
      using v'(1) by (subst poll.simps) (simp only: st same prod.case if_True)
    moreover have "credits (a\<lparr>lag := 0, pend := 0\<rparr>) v' = credits a v" using v'(2) cr unfolding same by simp
    ultimately show ?thesis by (rule less.prems(1))
  qed
qed

lemmas poll_drv = poll_any [where busy = not_ready, OF not_ready_values]

section \<open>Moving data\<close>

lemma div_256_Suc: "0 < n \<Longrightarrow> n div 256 = (if 256 dvd n then 1 else 0) + (n - 1) div (256 :: nat)"
  by (cases n) (simp_all add: div_Suc dvd_eq_mod_eq_0)

lemma busy_for_0: "lag a = 0 \<Longrightarrow> due a \<Longrightarrow> busy_for 0 a = a\<lparr>pend := pend a + 1\<rparr>"
  by (cases a) (simp add: busy_for_def)

lemma insw_ata:
  "lag a = 0 \<Longrightarrow> due a \<Longrightarrow> length ws \<le> 256 \<or> gap a = 0 \<Longrightarrow> xfer a = Data_in ws \<Longrightarrow> ws \<noteq> [] \<Longrightarrow> 2 * length ws < 2 ^ 32 \<Longrightarrow>
   insw_loop ata_dev (base a) (length ws) dst (m, a) =
     (store_bytes m dst (bytes_of ws), a\<lparr>xfer := Idle, pend := pend a + (length ws - 1) div 256\<rparr>)"
proof (induction ws arbitrary: a m dst)
  case (Cons w ws)
  have st: "store_bytes (store16 m dst w) (dst + 2) (bytes_of ws) = store_bytes m dst (bytes_of (w # ws))"
    using store_bytes_append [of "[ucast w, ucast (drop_bit 8 w)]" "bytes_of ws" m dst] Cons.prems(6) by (simp add: store16_bytes)
  show ?case
  proof (cases "ws = []")
    case True
    then show ?thesis using Cons.prems st by (simp add: ata_in16_def)
  next
    case False
    let ?a = "a\<lparr>xfer := Data_in ws, pend := pend a + (if 256 dvd length ws then 1 else 0)\<rparr>"
    have g: "256 dvd length ws \<Longrightarrow> gap a = 0" using Cons.prems(3) False by (auto dest: dvd_imp_le)
    have "insw_loop ata_dev (base ?a) (length ws) (dst + 2) (store16 m dst w, ?a) =
        (store_bytes (store16 m dst w) (dst + 2) (bytes_of ws), ?a\<lparr>xfer := Idle, pend := pend ?a + (length ws - 1) div 256\<rparr>)"
      using Cons.prems False by (intro Cons.IH) auto
    moreover have "length ws div 256 = (if 256 dvd length ws then 1 else 0) + (length ws - 1) div 256"
      using False by (intro div_256_Suc) simp
    moreover have "insw_loop ata_dev (base a) (length (w # ws)) dst (m, a) =
        insw_loop ata_dev (base ?a) (length ws) (dst + 2) (store16 m dst w, ?a)"
      using Cons.prems False g busy_for_0 [of "a\<lparr>xfer := Data_in ws\<rparr>"] by (auto simp: ata_in16_def)
    ultimately show ?thesis by (simp add: st)
  qed
qed simp

lemma outsw_loop_add: "outsw_loop dev port (j + k) p m d = outsw_loop dev port k (p + 2 * of_nat j) m (outsw_loop dev port j p m d)"
  by (induction j arbitrary: p d) (simp_all add: algebra_simps)

lemma bytes_of_load16: "bytes_of (map (\<lambda>i. load16 m (p + 2 * of_nat i)) [0..<n]) = mem_bytes m p (2 * n)"
proof (induction n)
  case (Suc n)
  have "mem_bytes m p (2 * n + 2) = mem_bytes m p (2 * n) @ mem_bytes m (p + of_nat (2 * n)) 2" by (rule mem_bytes_add)
  moreover have "mem_bytes m q 2 = [m q, m (q + 1)]" for q by (simp add: mem_bytes_def numeral_2_eq_2)
  ultimately show ?case using Suc load16_bytes [of m "p + 2 * of_nat n"] by simp
qed (simp add: mem_bytes_def)

lemma outsw_words:
  "lag a = 0 \<Longrightarrow> xfer a = Data_out l n ws \<Longrightarrow> length ws + k \<le> 255 \<Longrightarrow>
   outsw_loop ata_dev (base a) k p m a = a\<lparr>xfer := Data_out l n (ws @ map (\<lambda>i. load16 m (p + 2 * of_nat i)) [0..<k])\<rparr>"
proof (induction k arbitrary: a ws p)
  case (Suc k)
  let ?a = "a\<lparr>xfer := Data_out l n (ws @ [load16 m p])\<rparr>"
  have "outsw_loop ata_dev (base ?a) k (p + 2) m ?a =
      ?a\<lparr>xfer := Data_out l n ((ws @ [load16 m p]) @ map (\<lambda>i. load16 m (p + 2 + 2 * of_nat i)) [0..<k])\<rparr>"
    using Suc.prems by (intro Suc.IH) simp_all
  moreover have "[0..<Suc k] = 0 # map Suc [0..<k]" by (simp add: upt_conv_Cons map_Suc_upt del: upt_Suc)
  ultimately show ?case using Suc.prems by (simp add: ata_out16_def algebra_simps del: upt_Suc)
qed (cases a, simp)

lemma outsw_sector:
  assumes "lag a = 0" and "xfer a = Data_out l n []"
  shows "outsw_loop ata_dev (base a) 256 p m a =
    busy_for (gap a) ((set_sector l (mem_bytes m p 512) a)\<lparr>xfer := if n \<le> 1 then Idle else Data_out (l + 1) (n - 1) []\<rparr>)"
proof -
  let ?ws = "map (\<lambda>i. load16 m (p + 2 * of_nat i)) [0..<255]"
  have "outsw_loop ata_dev (base a) (255 + 1) p m a = outsw_loop ata_dev (base a) 1 (p + 2 * of_nat 255) m (a\<lparr>xfer := Data_out l n ?ws\<rparr>)"
    unfolding outsw_loop_add using outsw_words [OF assms, of 255 p m] by simp
  also have "\<dots> = busy_for (gap a) ((set_sector l (bytes_of (?ws @ [load16 m (p + 2 * of_nat 255)])) a)\<lparr>xfer := if n \<le> 1 then Idle else Data_out (l + 1) (n - 1) []\<rparr>)"
    using assms(1) by (simp add: ata_out16_def set_sector_def slave_def del: upt_rec_numeral)
  also have "?ws @ [load16 m (p + 2 * of_nat 255)] = map (\<lambda>i. load16 m (p + 2 * of_nat i)) [0..<Suc 255]"
    unfolding upt_Suc_append [OF le0] by (simp only: map_append list.map)
  also have "bytes_of \<dots> = mem_bytes m p (2 * Suc 255)" by (rule bytes_of_load16)
  finally show ?thesis by simp
qed

text \<open>The sectors of \<open>n\<close> buffers of 512 bytes, over \<open>f\<close>.\<close>

definition put_sectors :: "nat \<Rightarrow> nat \<Rightarrow> mem \<Rightarrow> ptr \<Rightarrow> (nat \<Rightarrow> u8 list) \<Rightarrow> nat \<Rightarrow> u8 list" where
  "put_sectors l n m p f = (\<lambda>x. if l \<le> x \<and> x < l + n then mem_bytes m (p + 512 * of_nat (x - l)) 512 else f x)"

lemma outsw_sectors:
  "lag a = 0 \<Longrightarrow> xfer a = Data_out l n [] \<Longrightarrow> 0 < n \<Longrightarrow> n = 1 \<or> gap a = 0 \<Longrightarrow> platters a (slave a) = Some f \<Longrightarrow>
   outsw_loop ata_dev (base a) (256 * n) p m a =
     a\<lparr>platters := (platters a)(slave a := Some (put_sectors l n m p f)), xfer := Idle, lag := gap a,
       pend := pend a + (if gap a = 0 then n else 0), due := True\<rparr>"
proof (induction n arbitrary: a l p f)
  case (Suc n)
  let ?x = "if Suc n \<le> 1 then Idle else Data_out (l + 1) (Suc n - 1) []"
  let ?a = "busy_for (gap a) ((set_sector l (mem_bytes m p 512) a)\<lparr>xfer := ?x\<rparr>)"
  have one: "outsw_loop ata_dev (base a) (256 + 256 * n) p m a = outsw_loop ata_dev (base a) (256 * n) (p + 512) m ?a"
    using outsw_sector [OF Suc.prems(1,2), of p m] outsw_loop_add [of ata_dev "base a" 256 "256 * n" p m a] by simp
  show ?case
  proof (cases "n = 0")
    case True
    have "f(l := mem_bytes m p 512) = put_sectors l (Suc 0) m p f" by (auto simp: put_sectors_def fun_eq_iff)
    then show ?thesis using True one Suc.prems by (simp add: set_sector_def busy_for_def fun_upd_def)
  next
    case False
    then have g: "gap a = 0" using Suc.prems(4) by simp
    have sl: "slave ?a = slave a" by (simp add: slave_def set_sector_def)
    let ?f = "f(l := mem_bytes m p 512)"
    have "platters ?a (slave a) = Some ?f" using Suc.prems(5) by (simp add: set_sector_def)
    then have "platters ?a (slave ?a) = Some ?f" by (simp only: sl)
    then have "outsw_loop ata_dev (base ?a) (256 * n) (p + 512) m ?a =
        ?a\<lparr>platters := (platters ?a)(slave ?a := Some (put_sectors (l + 1) n m (p + 512) ?f)), xfer := Idle, lag := gap ?a,
          pend := pend ?a + (if gap ?a = 0 then n else 0), due := True\<rparr>"
      using Suc.prems False g by (intro Suc.IH) (simp_all add: set_sector_def fun_upd_def)
    moreover have "put_sectors (l + 1) n m (p + 512) ?f = put_sectors l (Suc n) m p f"
    proof
      fix x
      have "p + 512 + 512 * of_nat (x - (l + 1)) = p + 512 * of_nat (x - l)" if "l < x"
        using that by (simp add: of_nat_diff algebra_simps)
      then show "put_sectors (l + 1) n m (p + 512) ?f x = put_sectors l (Suc n) m p f x"
        by (auto simp: put_sectors_def)
    qed
    ultimately show ?thesis using one g unfolding sl by (simp add: set_sector_def busy_for_def fun_upd_def cong: if_cong)
  qed
qed simp

section \<open>One command\<close>

definition low_nibble :: "u32 \<Rightarrow> u8" where
  "low_nibble lba = ucast (drop_bit 24 lba AND 0xF)"

lemma nibble_bits: "bit (low_nibble lba) n \<longleftrightarrow> n < 4 \<and> bit lba (24 + n)"
proof -
  have "(0xF :: u32) = mask 4" by (simp add: mask_eq_exp_minus_1)
  then have "low_nibble lba = ucast (drop_bit 24 lba AND mask 4)" by (simp only: low_nibble_def)
  then show ?thesis by (auto simp: bit_simps)
qed

lemma drive_bits: "bit (0xE0 :: u8) n \<longleftrightarrow> 5 \<le> n \<and> n < 8" "bit (0xF0 :: u8) n \<longleftrightarrow> 4 \<le> n \<and> n < 8"
proof -
  have e: "(0xE0 :: u8) = push_bit 5 (mask 3)" "(0xF0 :: u8) = push_bit 4 (mask 4)" by (simp_all add: mask_eq_exp_minus_1)
  show "bit (0xE0 :: u8) n \<longleftrightarrow> 5 \<le> n \<and> n < 8" "bit (0xF0 :: u8) n \<longleftrightarrow> 4 \<le> n \<and> n < 8"
    unfolding e by (auto simp: bit_simps)
qed

lemma drive_sel:
  assumes "d = 0xE0 \<or> d = 0xF0"
  shows "bit (d OR low_nibble lba) 4 \<longleftrightarrow> d = 0xF0" and "(d OR low_nibble lba) AND 0xF = low_nibble lba"
    and "d OR low_nibble lba OR low_nibble lba = d OR low_nibble lba"
proof -
  have b: "bit d n \<longleftrightarrow> (if d = 0xF0 then 4 \<le> n \<and> n < 8 else 5 \<le> n \<and> n < 8)" for n
    using assms drive_bits [of n] by metis
  show "bit (d OR low_nibble lba) 4 \<longleftrightarrow> d = 0xF0" by (simp add: bit_or_iff nibble_bits b)
  have m: "(0xF :: u8) = mask 4" by (simp add: mask_eq_exp_minus_1)
  show "(d OR low_nibble lba) AND 0xF = low_nibble lba"
    unfolding m by (rule bit_word_eqI) (auto simp: bit_or_iff bit_and_iff bit_mask_iff nibble_bits b split: if_splits)
  show "d OR low_nibble lba OR low_nibble lba = d OR low_nibble lba" by (simp add: or.assoc)
qed

lemma unat_bytes:
  "unat (ucast w :: u8) = unat (w :: u32) mod 256" "unat (drop_bit n (w :: u32)) = unat w div 2 ^ n"
proof -
  show "unat (ucast w :: u8) = unat w mod 256" by (simp add: unsigned_ucast_eq take_bit_eq_mod)
  show "unat (drop_bit n w) = unat w div 2 ^ n" by (simp only: unat_drop_bit_eq) (simp only: drop_bit_eq_div)
qed

lemma lba_split:
  assumes "unat (lba :: u32) < 2 ^ 28"
  shows "unat (ucast lba :: u8) + 2 ^ 8 * unat (ucast (drop_bit 8 lba) :: u8) + 2 ^ 16 * unat (ucast (drop_bit 16 lba) :: u8) +
    2 ^ 24 * unat (low_nibble lba) = unat lba"
proof -
  let ?x = "unat lba"
  have "(0xF :: u32) = mask 4" by (simp add: mask_eq_exp_minus_1)
  then have "drop_bit 24 lba AND 0xF = take_bit 4 (drop_bit 24 lba)" by (simp only: take_bit_eq_mask)
  then have "unat (drop_bit 24 lba AND 0xF) = ?x div 2 ^ 24 mod 2 ^ 4"
    by (simp only: unsigned_take_bit_eq unat_bytes(2)) (simp only: take_bit_eq_mod)
  moreover have "?x div 2 ^ 24 < 16" using assms by (intro div_less_iff_less_mult [THEN iffD2]) simp_all
  ultimately have n: "unat (low_nibble lba) = ?x div 2 ^ 24" by (simp add: low_nibble_def unat_bytes(1))
  have d: "?x div 2 ^ 8 = ?x div 256" "?x div 2 ^ 16 = ?x div 256 div 256" "?x div 2 ^ 24 = ?x div 256 div 256 div 256"
    by (simp_all add: div_mult2_eq [symmetric])
  have e: "?x mod 256 + 256 * (?x div 256) = ?x" "?x div 256 mod 256 + 256 * (?x div 256 div 256) = ?x div 256"
    "?x div 256 div 256 mod 256 + 256 * (?x div 256 div 256 div 256) = ?x div 256 div 256" by simp_all
  have p: "(2 :: nat) ^ 8 = 256" "(2 :: nat) ^ 16 = 65536" "(2 :: nat) ^ 24 = 16777216" by simp_all
  show ?thesis unfolding n unat_bytes unfolding d unfolding p using e by linarith
qed

text \<open>Before a command: the drive of \<open>h\<close> selected, no transfer going on.\<close>

definition selected :: "hd_ptr \<Rightarrow> u32 \<Rightarrow> ata \<Rightarrow> (ata, 'x) ide_state_scheme \<Rightarrow> bool" where
  "selected h lba a s \<longleftrightarrow> drv_sel a = drive_byte h s \<or> drv_sel a = drive_byte h s OR low_nibble lba"

definition resting :: "ata \<Rightarrow> bool" where
  "resting a \<longleftrightarrow> xfer a = Idle \<and> lag a = 0"

definition is_slave :: "hd_ptr \<Rightarrow> (ata, 'x) ide_state_scheme \<Rightarrow> bool" where
  "is_slave h s \<longleftrightarrow> dev_nr (hd_of h s) \<noteq> 0"

lemma is_slave_drv [simp]: "is_slave h (drv c a v m s) = is_slave h s"
  by (simp add: is_slave_def)

lemma with_lba_fields [simp]:
  "base (with_lba lba n a) = base a" "vec (with_lba lba n a) = vec a" "platters (with_lba lba n a) = platters a"
  "xfer (with_lba lba n a) = xfer a" "lag (with_lba lba n a) = lag a" "pend (with_lba lba n a) = pend a"
  "delay (with_lba lba n a) = delay a" "gap (with_lba lba n a) = gap a" "due (with_lba lba n a) = due a" "ident (with_lba lba n a) = ident a"
  by (simp_all add: with_lba_def)

lemma with_lba_selects:
  assumes "selected h lba a s" and "0 < n" and "n \<le> 256" and "unat lba < 2 ^ 28"
  shows "slave (with_lba lba n a) = is_slave h s" "lba28 (with_lba lba n a) = unat lba"
    "sector_count (with_lba lba n a) = unat n" "drv_sel (with_lba lba n a) = drive_byte h s OR low_nibble lba"
proof -
  have db: "drive_byte h s = 0xE0 \<or> drive_byte h s = 0xF0" by (simp add: drive_byte_def)
  have d: "drv_sel (with_lba lba n a) = drive_byte h s OR low_nibble lba"
    using assms(1) drive_sel(3) [OF db] by (auto simp: with_lba_def selected_def low_nibble_def)
  show "drv_sel (with_lba lba n a) = drive_byte h s OR low_nibble lba" by (rule d)
  show "slave (with_lba lba n a) = is_slave h s"
    unfolding slave_def d drive_sel(1) [OF db] by (simp add: drive_byte_def is_slave_def)
  show "lba28 (with_lba lba n a) = unat lba"
    unfolding lba28_def d drive_sel(2) [OF db] using lba_split [OF assms(4)] by (simp add: with_lba_def)
  have n: "0 < unat n" "unat n \<le> 256" using assms(2,3) by (simp_all add: word_less_nat_alt word_le_nat_alt)
  show "sector_count (with_lba lba n a) = unat n"
  proof (cases "n = 256")
    case False
    have "unat n \<noteq> unat (256 :: u32)" using False by (metis unsigned_word_eqI)
    then have "unat n < 256" using n(2) by simp
    then have "unat (ucast n :: u8) = unat n" "\<not> 256 \<le> n" by (simp_all add: unat_bytes(1) word_le_nat_alt)
    then show ?thesis using n(1) by (auto simp: sector_count_def with_lba_def)
  qed (simp add: sector_count_def with_lba_def)
qed

text \<open>What a transfer leaves of the channel.\<close>

definition same_drive :: "ata \<Rightarrow> ata \<Rightarrow> bool" where
  "same_drive a b \<longleftrightarrow> base a = base b \<and> vec a = vec b \<and> ident a = ident b \<and> delay a = delay b \<and> gap a = gap b"

lemma chunk_words: "0 < n \<Longrightarrow> n \<le> 256 \<Longrightarrow> unat (n * SECTOR_SIZE div 2) = 256 * unat n"
proof -
  assume n: "0 < n" "n \<le> 256"
  then have "unat n \<le> 256" by (simp add: word_le_nat_alt)
  then have "unat (n * SECTOR_SIZE) = unat n * 512" by (subst unat_mult_small) (simp_all add: SECTOR_SIZE_def)
  then show ?thesis by (simp add: unat_div)
qed

lemma sector_bytes: "(\<And>l. length (f l) = 512) \<Longrightarrow> bytes_of (concat (map (\<lambda>l. words_of (f l)) ls)) = concat (map f ls)"
  by (induction ls) (simp_all add: bytes_of_words_of)

lemma sector_words: "(\<And>l. length (f l) = 512) \<Longrightarrow> length (concat (map (\<lambda>l. words_of (f l)) ls)) = 256 * length ls"
  by (induction ls) (simp_all add: words_of_length)

text \<open>A read command up to its data: the interrupt taken, the drive polled until it is ready.\<close>

lemma read_started:
  assumes w: "wired c h a s" and rest: "resting a" and sel: "selected h lba a s"
    and f: "platters a (is_slave h s) = Some f"
    and n: "0 < n" "n \<le> 256" and lba: "unat lba < 2 ^ 28" and cr: "credits a v + unat n < 2 ^ 32"
  obtains s1 b v' where
    "ch_sema_down (ata_platform pl ih) c (ide_set_cmd (ata_platform pl ih) h CMD_READ_SEC
       (ide_set_lba (ata_platform pl ih) h lba n (drv c a v m s))) = Some s1"
    and "poll (ata_platform pl ih) h not_ready s1 = Some (0x48, drv c b v' m s)"
    and "xfer b = Data_in (concat (map (\<lambda>l. words_of (f l)) [unat lba..<unat lba + unat n]))" and "lag b = 0" and "due b" and "pend b = 0"
    and "same_drive a b" and "platters b = platters a" and "drv_sel b = drive_byte h s OR low_nibble lba" and "credits b v' = credits a v"
proof -
  let ?P = "ata_platform pl ih"
  let ?b = "with_lba lba n a"
  note b = with_lba_selects [OF sel n lba]
  let ?ws = "concat (map (\<lambda>l. words_of (f l)) [unat lba..<unat lba + unat n])"
  have k: "0 < unat n" using n by (simp add: word_less_nat_alt)
  let ?a1 = "start_in ?ws ?b"
  have lag: "lag a = 0" using rest by (simp add: resting_def)
  have cmd: "ata_command CMD_READ_SEC ?b = ?a1"
    by (simp add: ata_command_def CMD_READ_SEC_def b f(1) lag)
  have wb: "wired c h ?b s" using w by (simp add: wired_def)
  have w1: "wired c h ?a1 s" using w by (simp add: wired_def)
  have cr1: "credits ?a1 v = credits a v + 1" using lag by (simp add: credits_def [of a])
  have pos: "0 < credits ?a1 v" and lim: "credits ?a1 v < 2 ^ 32" using cr1 cr k by simp_all
  obtain l p v1 where d: "ch_sema_down ?P c (drv c ?a1 v m s) = Some (drv c (?a1\<lparr>lag := l, pend := p\<rparr>) v1 m s)"
    and d2: "credits (?a1\<lparr>lag := l, pend := p\<rparr>) v1 = credits ?a1 v - 1" and "l \<le> lag ?a1"
    by (rule sema_down_drv [OF w1 pos lim])
  let ?a2 = "?a1\<lparr>lag := l, pend := p\<rparr>"
  have w2: "wired c h ?a2 s" using w by (simp add: wired_def)
  have x2: "xfer ?a2 \<noteq> Idle" "platters ?a2 (slave ?a2) \<noteq> None" "credits ?a2 v1 < 2 ^ 32"
    using d2 lim f(1) b(1) by (simp_all add: slave_def)
  obtain v2 where q: "poll ?P h not_ready (drv c ?a2 v1 m s) = Some (0x48, drv c (?a2\<lparr>lag := 0, pend := 0\<rparr>) v2 m s)"
    and q2: "credits (?a2\<lparr>lag := 0, pend := 0\<rparr>) v2 = credits ?a2 v1"
    by (rule poll_drv [OF w2 x2])
  show thesis
  proof (rule that)
    show "ch_sema_down ?P c (ide_set_cmd ?P h CMD_READ_SEC (ide_set_lba ?P h lba n (drv c a v m s))) = Some (drv c ?a2 v1 m s)"
      unfolding set_lba_drv [OF w] set_cmd_drv [OF wb] cmd by (rule d)
    show "poll ?P h not_ready (drv c ?a2 v1 m s) = Some (0x48, drv c (?a2\<lparr>lag := 0, pend := 0\<rparr>) v2 m s)" by (rule q)
  qed (use b q2 d2 cr1 in \<open>simp_all add: same_drive_def\<close>)
qed

lemma get_data_drv:
  assumes "wired c h a s" and "base b = base a" and "0 < n" and "n \<le> 256"
    and "insw_loop ata_dev (base a) (256 * unat n) dst (m, b) = (m', b')"
  shows "ide_get_data (ata_platform pl ih) h dst n (drv c b v m s) = drv c b' v m' s"
  using assms chunk_words [OF assms(3,4)] by (simp add: ide_get_data_def port_of [OF assms(1)] IDE_DATA_REG_def insw_def)

lemma read_command:
  assumes w: "wired c h a s" and rest: "resting a" and sel: "selected h lba a s"
    and f: "platters a (is_slave h s) = Some f" "\<And>l. length (f l) = 512"
    and n: "0 < n" "n \<le> 256" and lba: "unat lba < 2 ^ 28" and cr: "credits a v + unat n < 2 ^ 32"
    and g: "unat n \<le> 1 \<or> gap a = 0"
  obtains s1 s2 a' v' where
    "ch_sema_down (ata_platform pl ih) c (ide_set_cmd (ata_platform pl ih) h CMD_READ_SEC
       (ide_set_lba (ata_platform pl ih) h lba n (drv c a v m s))) = Some s1"
    and "poll (ata_platform pl ih) h not_ready s1 = Some (0x48, s2)"
    and "ide_get_data (ata_platform pl ih) h dst n s2 =
       drv c a' v' (store_bytes m dst (concat (map f [unat lba..<unat lba + unat n]))) s"
    and "same_drive a a'" and "platters a' = platters a" and "resting a'" and "drv_sel a' = drive_byte h s OR low_nibble lba"
    and "credits a' v' + 1 = credits a v + unat n"
proof -
  let ?P = "ata_platform pl ih"
  let ?ws = "concat (map (\<lambda>l. words_of (f l)) [unat lba..<unat lba + unat n])"
  have k: "0 < unat n" "unat n \<le> 256" using n by (simp_all add: word_less_nat_alt word_le_nat_alt)
  have bytes: "bytes_of ?ws = concat (map f [unat lba..<unat lba + unat n])" by (rule sector_bytes [OF f(2)])
  have len: "length ?ws = 256 * unat n" by (simp add: sector_words [OF f(2)])
  obtain s1 b v2 where r: "ch_sema_down ?P c (ide_set_cmd ?P h CMD_READ_SEC (ide_set_lba ?P h lba n (drv c a v m s))) = Some s1"
      "poll ?P h not_ready s1 = Some (0x48, drv c b v2 m s)"
    and b: "xfer b = Data_in ?ws" "lag b = 0" "due b" "pend b = 0" "same_drive a b" "platters b = platters a"
      "drv_sel b = drive_byte h s OR low_nibble lba" "credits b v2 = credits a v"
    by (rule read_started [OF w rest sel f(1) n lba cr])
  let ?b = "b\<lparr>xfer := Idle, pend := (length ?ws - 1) div 256\<rparr>"
  have gb: "length ?ws \<le> 256 \<or> gap b = 0" using g b(5) unfolding len by (auto simp: same_drive_def)
  have "insw_loop ata_dev (base b) (length ?ws) dst (m, b) =
      (store_bytes m dst (bytes_of ?ws), b\<lparr>xfer := Idle, pend := pend b + (length ?ws - 1) div 256\<rparr>)"
    using len k by (intro insw_ata [OF b(2,3) gb b(1)]) (auto simp flip: length_0_conv)
  then have i: "insw_loop ata_dev (base a) (256 * unat n) dst (m, b) = (store_bytes m dst (bytes_of ?ws), ?b)"
    using b(4,5) unfolding len by (simp add: same_drive_def)
  have gd: "ide_get_data ?P h dst n (drv c b v2 m s) = drv c ?b v2 (store_bytes m dst (bytes_of ?ws)) s"
    by (rule get_data_drv [OF w _ n i]) (use b(5) in \<open>simp add: same_drive_def\<close>)
  have q: "(length ?ws - 1) div 256 = unat n - 1" unfolding len using k by simp
  show thesis
  proof (rule that [OF r])
    show "ide_get_data ?P h dst n (drv c b v2 m s) =
        drv c ?b v2 (store_bytes m dst (concat (map f [unat lba..<unat lba + unat n]))) s"
      unfolding gd bytes ..
    show "credits ?b v2 + 1 = credits a v + unat n" using b(2,4,8) q k by (simp add: credits_def)
  qed (use b in \<open>simp_all add: same_drive_def resting_def\<close>)
qed

lemma write_command:
  assumes w: "wired c h a s" and rest: "resting a" and sel: "selected h lba a s"
    and f: "platters a (is_slave h s) = Some f"
    and n: "0 < n" "n \<le> 256" and lba: "unat lba < 2 ^ 28" and cr: "credits a v + unat n < 2 ^ 32"
    and gp: "gap a = 0 \<or> unat n = 1 \<and> credits a v = 0"
  obtains s1 a' v' where
    "poll (ata_platform pl ih) h not_ready (ide_set_cmd (ata_platform pl ih) h CMD_WRITE_SEC
       (ide_set_lba (ata_platform pl ih) h lba n (drv c a v m s))) = Some (0x48, s1)"
    and "ch_sema_down (ata_platform pl ih) c (ide_set_data (ata_platform pl ih) h src n s1) = Some (drv c a' v' m s)"
    and "same_drive a a'" and "platters a' = (platters a)(is_slave h s := Some (put_sectors (unat lba) (unat n) m src f))"
    and "resting a'" and "drv_sel a' = drive_byte h s OR low_nibble lba" and "credits a' v' + 1 = credits a v + unat n"
proof -
  let ?P = "ata_platform pl ih"
  let ?b = "with_lba lba n a"
  note b = with_lba_selects [OF sel n lba]
  have k: "0 < unat n" "unat n \<le> 256" using n by (simp_all add: word_less_nat_alt word_le_nat_alt)
  let ?a1 = "?b\<lparr>xfer := Data_out (unat lba) (unat n) [], lag := delay ?b, due := False\<rparr>"
  have lag: "lag a = 0" using rest by (simp add: resting_def)
  have cmd: "ata_command CMD_WRITE_SEC ?b = ?a1" by (simp add: ata_command_def CMD_WRITE_SEC_def b f lag)
  have wb: "wired c h ?b s" and w1: "wired c h ?a1 s" using w by (simp_all add: wired_def)
  have cr1: "credits ?a1 v = credits a v" using lag by (simp add: credits_def)
  have x1: "xfer ?a1 \<noteq> Idle" "platters ?a1 (slave ?a1) \<noteq> None" "credits ?a1 v < 2 ^ 32"
    using cr1 cr f b(1) by (simp_all add: slave_def)
  let ?a2 = "?a1\<lparr>lag := 0, pend := 0\<rparr>"
  obtain v1 where q: "poll ?P h not_ready (drv c ?a1 v m s) = Some (0x48, drv c ?a2 v1 m s)" and q2: "credits ?a2 v1 = credits ?a1 v"
    by (rule poll_drv [OF w1 x1])
  have sl: "slave ?a2 = is_slave h s" using b(1) by (simp add: slave_def)
  let ?a3 = "?a2\<lparr>platters := (platters a)(is_slave h s := Some (put_sectors (unat lba) (unat n) m src f)), xfer := Idle,
    lag := gap a, pend := if gap a = 0 then unat n else 0, due := True\<rparr>"
  have pf: "platters ?a2 (slave ?a2) = Some f" unfolding sl using f by simp
  have "outsw_loop ata_dev (base ?a2) (256 * unat n) src m ?a2 =
      ?a2\<lparr>platters := (platters ?a2)(slave ?a2 := Some (put_sectors (unat lba) (unat n) m src f)), xfer := Idle, lag := gap ?a2,
        pend := pend ?a2 + (if gap ?a2 = 0 then unat n else 0), due := True\<rparr>"
    by (rule outsw_sectors [OF _ _ k(1) _ pf]) (use gp in auto)
  then have "outsw_loop ata_dev (base a) (256 * unat n) src m ?a2 = ?a3" unfolding sl by simp
  then have g: "ide_set_data ?P h src n (drv c ?a2 v1 m s) = drv c ?a3 v1 m s"
    using chunk_words [OF n] by (simp add: ide_set_data_def port_of [OF w] IDE_DATA_REG_def outsw_def)
  have w3: "wired c h ?a3 s" using w by (simp add: wired_def)
  have cr3: "credits ?a3 v1 = credits a v + unat n"
  proof -
    have "unat v1 = credits a v" using q2 cr1 by (simp add: credits_def)
    then show ?thesis using gp by (auto simp: credits_def [of "x\<lparr>due := True\<rparr>" for x])
  qed
  have pos: "0 < credits ?a3 v1" and lim: "credits ?a3 v1 < 2 ^ 32" using cr3 cr k by simp_all
  obtain l p v2 where d: "ch_sema_down ?P c (drv c ?a3 v1 m s) = Some (drv c (?a3\<lparr>lag := l, pend := p\<rparr>) v2 m s)"
    and d2: "credits (?a3\<lparr>lag := l, pend := p\<rparr>) v2 = credits ?a3 v1 - 1" and l: "l \<le> lag ?a3" "credits ?a3 v1 = 1 \<longrightarrow> lag ?a3 = 0 \<or> due ?a3 \<longrightarrow> l = 0"
    by (rule sema_down_full [OF w3 pos lim])
  have "l = 0" using gp l cr3 by auto
  show thesis
  proof (rule that)
    show "poll ?P h not_ready (ide_set_cmd ?P h CMD_WRITE_SEC (ide_set_lba ?P h lba n (drv c a v m s))) = Some (0x48, drv c ?a2 v1 m s)"
      unfolding set_lba_drv [OF w] set_cmd_drv [OF wb] cmd by (rule q)
    show "ch_sema_down ?P c (ide_set_data ?P h src n (drv c ?a2 v1 m s)) = Some (drv c (?a3\<lparr>lag := l, pend := p\<rparr>) v2 m s)"
      unfolding g by (rule d)
    show "same_drive a (?a3\<lparr>lag := l, pend := p\<rparr>)"
      "platters (?a3\<lparr>lag := l, pend := p\<rparr>) = (platters a)(is_slave h s := Some (put_sectors (unat lba) (unat n) m src f))"
      "resting (?a3\<lparr>lag := l, pend := p\<rparr>)" "drv_sel (?a3\<lparr>lag := l, pend := p\<rparr>) = drive_byte h s OR low_nibble lba"
      using \<open>l = 0\<close> by (simp_all add: same_drive_def resting_def b)
    show "credits (?a3\<lparr>lag := l, pend := p\<rparr>) v2 + 1 = credits a v + unat n" using d2 cr3 k by simp
  qed
qed

section \<open>Transfers of any length\<close>

lemma chunk_bounds:
  assumes "cnt_done < cnt"
  shows "0 < chunk cnt cnt_done" "chunk cnt cnt_done \<le> 256" "unat cnt_done + unat (chunk cnt cnt_done) \<le> unat cnt"
    "unat (cnt_done + chunk cnt cnt_done) = unat cnt_done + unat (chunk cnt cnt_done)"
    "unat (chunk cnt cnt_done) = min 256 (unat cnt - unat cnt_done)"
proof -
  have d: "unat (cnt - cnt_done) = unat cnt - unat cnt_done" "unat cnt_done < unat cnt"
    using assms by (simp_all add: unat_sub_small word_less_nat_alt)
  show m: "unat (chunk cnt cnt_done) = min 256 (unat cnt - unat cnt_done)"
    using d by (auto simp: chunk_def word_le_nat_alt)
  then show "0 < chunk cnt cnt_done" "chunk cnt cnt_done \<le> 256" "unat cnt_done + unat (chunk cnt cnt_done) \<le> unat cnt"
    using d(2) by (simp_all add: word_less_nat_alt word_le_nat_alt)
  then show "unat (cnt_done + chunk cnt cnt_done) = unat cnt_done + unat (chunk cnt cnt_done)"
    using unat_le_4G [of cnt] by (intro unat_add_small) simp
qed

text \<open>
  The memory after a read of \<open>cnt\<close> sectors to \<open>dst\<close>: sector \<open>i\<close> of the buffer holds sector
  \<open>lba + i mod 256\<close> of the drive, since \<open>lba\<close> is not advanced from one command to the next.
\<close>

definition read_image :: "(nat \<Rightarrow> u8 list) \<Rightarrow> nat \<Rightarrow> nat \<Rightarrow> u8 list" where
  "read_image f lba cnt = concat (map (\<lambda>i. f (lba + i mod 256)) [0..<cnt])"

lemma read_image_length: "(\<And>l. length (f l) = 512) \<Longrightarrow> length (read_image f lba cnt) = 512 * cnt"
  by (induction cnt) (simp_all add: read_image_def)

lemma read_image_short: "cnt \<le> 256 \<Longrightarrow> read_image f lba cnt = concat (map f [lba..<lba + cnt])"
proof -
  assume "cnt \<le> 256"
  then have "map (\<lambda>i. f (lba + i mod 256)) [0..<cnt] = map f [lba..<lba + cnt]" by (intro nth_equalityI) simp_all
  then show ?thesis by (simp add: read_image_def)
qed

lemma read_image_step: "256 dvd d \<Longrightarrow> n \<le> 256 \<Longrightarrow> read_image f lba (d + n) = read_image f lba d @ concat (map f [lba..<lba + n])"
proof -
  assume h: "256 dvd d" "n \<le> 256"
  have s: "[x..<x + n] = map (\<lambda>i. i + x) [0..<n]" for x by (simp add: map_add_upt add.commute)
  have "f (lba + (i + d) mod 256) = f (i + lba)" if "i \<in> set [0..<n]" for i
  proof -
    obtain k where k: "d = 256 * k" using h(1) by (rule dvdE)
    have "(i + 256 * k) mod 256 = i mod 256" by (rule mod_mult_self2)
    then have "(i + d) mod 256 = i" using that h(2) unfolding k by (simp only: mod_less set_upt atLeastLessThan_iff) simp
    then show ?thesis by (simp only: add.commute)
  qed
  then have "map (\<lambda>i. f (lba + i mod 256)) [d..<d + n] = map f [lba..<lba + n]"
    unfolding s map_map comp_def by (rule map_cong [OF refl])
  moreover have "[0..<d + n] = [0..<d] @ [d..<d + n]" by (rule upt_add_eq_append) simp
  ultimately show ?thesis by (simp only: read_image_def map_append concat_append)
qed

lemma same_drive_refl [simp]: "same_drive a a"
  by (simp add: same_drive_def)

lemma same_drive_trans: "same_drive a b \<Longrightarrow> same_drive b d \<Longrightarrow> same_drive a d"
  by (simp add: same_drive_def)

lemma wired_same: "same_drive a b \<Longrightarrow> wired c h a s \<Longrightarrow> wired c h b s"
  by (simp add: same_drive_def wired_def)

lemma selected_after: "drv_sel a = drive_byte h s OR low_nibble lba \<Longrightarrow> selected h lba a s"
  by (simp add: selected_def)

lemma wired_hd_ch: "wired c h a s \<Longrightarrow> hd_ch (hd_of h s) = c"
  by (simp add: wired_def)

lemma read_loop:
  assumes "wired c h a s" and "resting a" and "selected h lba a s" and "platters a (is_slave h s) = Some f"
    and "\<And>l. length (f l) = 512" and "unat lba < 2 ^ 28" and "credits a v + (unat cnt - unat cnt_done) < 2 ^ 32"
    and "256 dvd unat cnt_done \<or> cnt_done = cnt" and "unat cnt * 512 < 2 ^ 32" and "unat cnt_done \<le> unat cnt"
    and "p_dst = dst + 512 * cnt_done" and "m = store_bytes m0 dst (read_image f (unat lba) (unat cnt_done))"
    and "unat cnt \<le> 1 \<or> gap a = 0"
  shows "\<exists>a' v'. ide_read_loop (ata_platform pl ih) h lba cnt cnt_done p_dst (drv c a v m s) =
      Some (drv c a' v' (store_bytes m0 dst (read_image f (unat lba) (unat cnt))) s) \<and>
    same_drive a a' \<and> platters a' = platters a \<and> resting a' \<and> credits a' v' \<le> credits a v + (unat cnt - unat cnt_done)"
  using assms
proof (induction "unat cnt - unat cnt_done" arbitrary: cnt_done p_dst a v m rule: less_induct)
  case less
  let ?P = "ata_platform pl ih"
  show ?case
  proof (cases "cnt_done < cnt")
    case False
    then have "unat cnt_done = unat cnt" using less.prems(10) by (simp add: word_less_nat_alt)
    then have "ide_read_loop ?P h lba cnt cnt_done p_dst (drv c a v m s) =
        Some (drv c a v (store_bytes m0 dst (read_image f (unat lba) (unat cnt))) s)"
      using False less.prems(12) by (subst ide_read_loop.simps) simp
    then show ?thesis using less.prems(2) by (intro exI [of _ a] exI [of _ v]) simp
  next
    case True
    let ?n = "chunk cnt cnt_done"
    note b = chunk_bounds [OF True]
    have cr: "credits a v + unat ?n < 2 ^ 32" using less.prems(7) b(3) by simp
    have gp: "unat ?n \<le> 1 \<or> gap a = 0" using less.prems(13) b(3) by linarith
    obtain s1 s2 a1 v1 where
      r: "ch_sema_down ?P c (ide_set_cmd ?P h CMD_READ_SEC (ide_set_lba ?P h lba ?n (drv c a v m s))) = Some s1"
      "poll ?P h not_ready s1 = Some (0x48, s2)"
      "ide_get_data ?P h p_dst ?n s2 = drv c a1 v1 (store_bytes m p_dst (concat (map f [unat lba..<unat lba + unat ?n]))) s"
      and a1: "same_drive a a1" "platters a1 = platters a" "resting a1" "drv_sel a1 = drive_byte h s OR low_nibble lba"
      "credits a1 v1 + 1 = credits a v + unat ?n"
      by (rule read_command [OF less.prems(1-5) b(1,2) less.prems(6) cr gp])
    let ?d = "cnt_done + ?n"
    have k: "256 dvd unat cnt_done" using less.prems(8) True by auto
    have len: "length (read_image f (unat lba) (unat cnt_done)) = 512 * unat cnt_done"
      by (rule read_image_length [where f = f, OF less.prems(5)])
    have tot: "512 * unat cnt_done + 512 * unat ?n < 2 ^ 32" using b(3) less.prems(9) by simp
    have ofs: "p_dst = dst + of_nat (length (read_image f (unat lba) (unat cnt_done)))" using less.prems(11) unfolding len by simp
    have "length (concat (map f [unat lba..<unat lba + unat ?n])) = 512 * unat ?n"
      using read_image_length [where f = f and lba = "unat lba" and cnt = "unat ?n", OF less.prems(5)] read_image_short [of "unat ?n" f "unat lba"] b(5) by simp
    then have img: "store_bytes m p_dst (concat (map f [unat lba..<unat lba + unat ?n])) = store_bytes m0 dst (read_image f (unat lba) (unat ?d))"
      using store_bytes_append [of "read_image f (unat lba) (unat cnt_done)" "concat (map f [unat lba..<unat lba + unat ?n])" m0 dst]
        tot b(4,5) less.prems(12) ofs read_image_step [OF k, of "unat ?n" f "unat lba"] unfolding len by simp
    have nxt: "256 dvd unat ?d \<or> ?d = cnt"
    proof (cases "256 \<le> unat cnt - unat cnt_done")
      case True
      then show ?thesis using b(4,5) k by simp
    next
      case False
      then have "unat ?d = unat cnt" using b(3-5) by simp
      then show ?thesis by (metis unsigned_word_eqI)
    qed
    have "\<exists>a' v'. ide_read_loop ?P h lba cnt ?d (p_dst + ?n * SECTOR_SIZE) (drv c a1 v1 (store_bytes m0 dst (read_image f (unat lba) (unat ?d))) s) =
        Some (drv c a' v' (store_bytes m0 dst (read_image f (unat lba) (unat cnt))) s) \<and>
      same_drive a1 a' \<and> platters a' = platters a1 \<and> resting a' \<and> credits a' v' \<le> credits a1 v1 + (unat cnt - unat ?d)"
    proof (rule less.hyps)
      have "0 < unat ?n" using b(1) by (simp add: word_less_nat_alt)
      then show "unat cnt - unat ?d < unat cnt - unat cnt_done" using b(3,4) by linarith
      show "wired c h a1 s" by (rule wired_same [OF a1(1) less.prems(1)])
      show "resting a1" by (rule a1(3))
      show "selected h lba a1 s" by (rule selected_after [OF a1(4)])
      show "platters a1 (is_slave h s) = Some f" using a1(2) less.prems(4) by simp
      show "length (f l) = 512" for l by (rule less.prems(5))
      show "unat lba < 2 ^ 28" by (rule less.prems(6))
      show "credits a1 v1 + (unat cnt - unat ?d) < 2 ^ 32" using a1(5) b(3,4) less.prems(7) by simp
      show "256 dvd unat ?d \<or> ?d = cnt" by (rule nxt)
      show "unat cnt * 512 < 2 ^ 32" by (rule less.prems(9))
      show "unat ?d \<le> unat cnt" using b(3,4) by simp
      show "unat cnt \<le> 1 \<or> gap a1 = 0" using less.prems(13) a1(1) by (auto simp: same_drive_def)
      show "p_dst + ?n * SECTOR_SIZE = dst + 512 * ?d" using less.prems(11) by (simp add: SECTOR_SIZE_def algebra_simps)
    qed simp
    moreover have "ide_read_loop ?P h lba cnt cnt_done p_dst (drv c a v m s) =
        ide_read_loop ?P h lba cnt ?d (p_dst + ?n * SECTOR_SIZE) (drv c a1 v1 (store_bytes m0 dst (read_image f (unat lba) (unat ?d))) s)"
      using True r wired_hd_ch [OF less.prems(1)] img by (subst ide_read_loop.simps) (simp add: Let_def)
    ultimately obtain a' v' where l: "ide_read_loop ?P h lba cnt cnt_done p_dst (drv c a v m s) =
        Some (drv c a' v' (store_bytes m0 dst (read_image f (unat lba) (unat cnt))) s)"
      "same_drive a1 a'" "platters a' = platters a1" "resting a'" "credits a' v' \<le> credits a1 v1 + (unat cnt - unat ?d)" by metis
    have "credits a' v' \<le> credits a v + (unat cnt - unat cnt_done)" using l(5) a1(5) b(3,4) by linarith
    then show ?thesis using l a1(2) same_drive_trans [OF a1(1) l(2)] by (intro exI [of _ a'] exI [of _ v']) simp
  qed
qed

lemma write_one:
  assumes "wired c h a s" and "resting a" and "selected h lba a s" and "platters a (is_slave h s) = Some f"
    and "unat lba < 2 ^ 28" and "credits a v + unat cnt < 2 ^ 32" and "0 < cnt" and "cnt \<le> 256"
    and "gap a = 0 \<or> unat cnt = 1 \<and> credits a v = 0"
  shows "\<exists>a' v'. ide_write_loop (ata_platform pl ih) h lba cnt 0 src (drv c a v m s) = Some (drv c a' v' m s) \<and>
    same_drive a a' \<and> platters a' = (platters a)(is_slave h s := Some (put_sectors (unat lba) (unat cnt) m src f)) \<and>
    resting a' \<and> credits a' v' \<le> credits a v + unat cnt"
proof -
  let ?P = "ata_platform pl ih"
  have n: "chunk cnt 0 = cnt" using assms(8) by (simp add: chunk_def)
  obtain s1 a' v' where
    r: "poll ?P h not_ready (ide_set_cmd ?P h CMD_WRITE_SEC (ide_set_lba ?P h lba cnt (drv c a v m s))) = Some (0x48, s1)"
    "ch_sema_down ?P c (ide_set_data ?P h src cnt s1) = Some (drv c a' v' m s)"
    and a': "same_drive a a'" "platters a' = (platters a)(is_slave h s := Some (put_sectors (unat lba) (unat cnt) m src f))"
    "resting a'" "drv_sel a' = drive_byte h s OR low_nibble lba" "credits a' v' + 1 = credits a v + unat cnt"
    by (rule write_command [OF assms(1-4,7,8,5,6,9)])
  have "ide_write_loop ?P h lba cnt 0 src (drv c a v m s) = ide_write_loop ?P h lba cnt cnt (src + cnt * SECTOR_SIZE) (drv c a' v' m s)"
    using assms(7) r wired_hd_ch [OF assms(1)] by (subst ide_write_loop.simps) (simp add: Let_def n)
  also have "\<dots> = Some (drv c a' v' m s)" by (subst ide_write_loop.simps) simp
  finally show ?thesis using a' by (intro exI [of _ a'] exI [of _ v']) simp
qed

section \<open>The disk\<close>

text \<open>The drive of \<open>h\<close> holds the sectors \<open>f\<close> and is ready for transfers of up to \<open>bt\<close> sectors at a time and
  \<open>n\<close> more sectors in all. More than one at a time takes a drive without a gap between the sectors of a
  command. (Each sector may leave one permit in the semaphore, which counts to \<open>2 ^ 32\<close>.)\<close>

definition disk_ready :: "nat \<Rightarrow> nat \<Rightarrow> hd_ptr \<Rightarrow> (nat \<Rightarrow> u8 list) \<Rightarrow> (ata, 'x) ide_state_scheme \<Rightarrow> bool" where
  "disk_ready bt n h f s \<longleftrightarrow> (bt \<le> 1 \<or> gap (hw s) = 0) \<and> wired (hd_ch (hd_of h s)) h (hw s) s \<and> resting (hw s) \<and> platters (hw s) (is_slave h s) = Some f \<and>
     (\<forall>l. length (f l) = 512) \<and> ch_mlock (chan_of h s) = NULL \<and> credits (hw s) (ch_sema (chan_of h s)) + n < 2 ^ 32"

lemma lock_keeps [simp]:
  "hw (set_ch_mlock h t s) = hw s" "heap (set_ch_mlock h t s) = heap s" "hd_of h' (set_ch_mlock h t s) = hd_of h' s"
  "ch_sema (ide_ch (set_ch_mlock h t s) c) = ch_sema (ide_ch s c)" "ch_irq (ide_ch (set_ch_mlock h t s) c) = ch_irq (ide_ch s c)"
  "port_base (ide_ch (set_ch_mlock h t s) c) = port_base (ide_ch s c)"
  by (auto simp: set_ch_mlock_def hd_of_def Let_def)

lemma lock_fields [simp]:
  "drive_byte h' (set_ch_mlock h t s) = drive_byte h' s" "is_slave h' (set_ch_mlock h t s) = is_slave h' s"
  "wired c h' a (set_ch_mlock h t s) = wired c h' a s"
  by (simp_all add: drive_byte_def is_slave_def wired_def)

lemma lock_drv: "set_ch_mlock h NULL (drv c a v m (set_ch_mlock h t s)) = drv c a v m (set_ch_mlock h NULL s)"
  by (auto simp: set_ch_mlock_def drv_def hd_of_def Let_def fun_eq_iff)

lemma mlock_same: "ch_mlock x = t \<Longrightarrow> x\<lparr>ch_mlock := t\<rparr> = (x :: ide_ch)"
  by (cases x) simp

lemma unlock_same: "ch_mlock (chan_of h s) = NULL \<Longrightarrow> set_ch_mlock h NULL s = s"
  by (simp add: set_ch_mlock_def chan_of_def Let_def mlock_same)

lemma with_ch_lock_drv:
  assumes "ch_mlock (chan_of h s) = NULL"
    and "body (set_ch_mlock h (cur_task (mm (heap s))) s) = Some (drv c a v m (set_ch_mlock h (cur_task (mm (heap s))) s))"
  shows "with_ch_lock h body s = Inr (drv c a v m s)"
  using assms lock_drv [of h c a v m "cur_task (mm (heap s))" s] unlock_same [OF assms(1)] by (simp add: with_ch_lock_def)

lemma disk_ready_after:
  assumes "disk_ready bt n h f s" and "same_drive (hw s) a" and "platters a (is_slave h s) = Some f'" and "\<And>l. length (f' l) = 512"
    and "resting a" and "credits a v \<le> credits (hw s) (ch_sema (chan_of h s)) + k" and "k \<le> n"
  shows "disk_ready bt (n - k) h f' (drv (hd_ch (hd_of h s)) a v m s)"
proof -
  let ?c = "hd_ch (hd_of h s)"
  have "wired ?c h a s" using wired_same [OF assms(2), of ?c h s] assms(1) by (simp add: disk_ready_def)
  moreover have "chan_of h (drv ?c a v m s) = (chan_of h s)\<lparr>ch_sema := v\<rparr>" by (simp add: chan_of_def drv_def hd_of_def)
  moreover have "credits a v + (n - k) < 2 ^ 32" using assms(1,6,7) unfolding disk_ready_def by linarith
  ultimately show ?thesis using assms(1-5) by (simp add: disk_ready_def same_drive_def)
qed

lemma store_bytes_apply:
  "in_range p n q \<Longrightarrow> unat n \<le> length bs \<Longrightarrow> store_bytes m p bs q = bs ! unat (q - p)"
  by (simp add: store_bytes_def in_range_def word_less_nat_alt)

text \<open>The transfer routines under the lock, with the drive selected.\<close>

definition begun :: "hd_ptr \<Rightarrow> (ata, 'x) ide_state_scheme \<Rightarrow> ata" where
  "begun h s = (hw s)\<lparr>drv_sel := drive_byte h s\<rparr>"

lemma begun_fields [simp]:
  "platters (begun h s) = platters (hw s)" "gap (begun h s) = gap (hw s)" "credits (begun h s) v = credits (hw s) v" "same_drive (begun h s) a = same_drive (hw s) a"
  by (simp_all add: begun_def credits_def same_drive_def)

lemma locked_start:
  fixes s :: "(ata, 'x) ide_state_scheme" and h :: hd_ptr
  defines "c \<equiv> hd_ch (hd_of h s)" and "t \<equiv> set_ch_mlock h (cur_task (mm (heap s))) s"
  assumes r: "disk_ready bt n h f s"
  shows "ide_set_drive (ata_platform pl ih) h t = drv c (begun h s) (ch_sema (chan_of h s)) (hbytes (heap s)) t"
    and "wired c h (begun h s) t" and "resting (begun h s)" and "selected h lba (begun h s) t"
    and "platters (begun h s) (is_slave h t) = Some f"
proof -
  let ?v = "ch_sema (chan_of h s)" and ?m = "hbytes (heap s)"
  have w: "wired c h (hw s) s" and rest: "resting (hw s)" and f: "platters (hw s) (is_slave h s) = Some f"
    using r by (simp_all add: disk_ready_def c_def)
  have t: "t = drv c (hw s) ?v ?m t" using drv_self [of c t] by (simp add: chan_of_def c_def t_def)
  have "ide_set_drive (ata_platform pl ih) h t = ide_set_drive (ata_platform pl ih) h (drv c (hw s) ?v ?m t)" using t by simp
  also have "\<dots> = drv c (begun h s) ?v ?m t"
    using set_drive_drv [of c h "hw s" t] w by (simp add: t_def begun_def)
  finally show "ide_set_drive (ata_platform pl ih) h t = drv c (begun h s) ?v ?m t" .
  show "wired c h (begun h s) t" using w by (simp add: wired_def t_def begun_def)
  show "resting (begun h s)" using rest by (simp add: resting_def begun_def)
  show "selected h lba (begun h s) t" by (simp add: selected_def t_def begun_def)
  show "platters (begun h s) (is_slave h t) = Some f" using f by (simp add: t_def)
qed

lemma locked_transfer:
  fixes s :: "(ata, 'x) ide_state_scheme" and h :: hd_ptr
  defines "c \<equiv> hd_ch (hd_of h s)" and "t \<equiv> set_ch_mlock h (cur_task (mm (heap s))) s"
  assumes r: "disk_ready bt n h f s"
    and go: "wired c h (begun h s) t \<Longrightarrow> resting (begun h s) \<Longrightarrow> selected h lba (begun h s) t \<Longrightarrow> platters (begun h s) (is_slave h t) = Some f \<Longrightarrow>
      \<exists>a v. body (drv c (begun h s) (ch_sema (chan_of h s)) (hbytes (heap s)) t) = Some (drv c a v m t) \<and> same_drive (begun h s) a \<and>
        platters a = (platters (hw s))(is_slave h t := Some f') \<and> resting a \<and> credits a v \<le> credits (begun h s) (ch_sema (chan_of h s)) + k"
    and k: "k \<le> n" and f': "\<And>l. length (f' l) = 512"
  shows "\<exists>a v. with_ch_lock h (\<lambda>s. body (ide_set_drive (ata_platform pl ih) h s)) s = Inr (drv c a v m s) \<and>
    disk_ready bt (n - k) h f' (drv c a v m s) \<and> platters a = (platters (hw s))(is_slave h s := Some f')"
proof -
  let ?v = "ch_sema (chan_of h s)" and ?m = "hbytes (heap s)"
  note d = locked_start [OF r, folded c_def t_def]
  have lk: "ch_mlock (chan_of h s) = NULL" using r by (simp add: disk_ready_def)
  obtain a v where b: "body (drv c (begun h s) ?v ?m t) = Some (drv c a v m t)" and a: "same_drive (hw s) a"
    "platters a = (platters (hw s))(is_slave h s := Some f')" "resting a" "credits a v \<le> credits (hw s) ?v + k"
    using go [OF d(2-5)] by (auto simp: t_def)
  have "with_ch_lock h (\<lambda>s. body (ide_set_drive (ata_platform pl ih) h s)) s = Inr (drv c a v m s)"
    by (rule with_ch_lock_drv [OF lk]) (use b d(1) in \<open>simp add: t_def\<close>)
  moreover have "disk_ready bt (n - k) h f' (drv c a v m s)"
    unfolding c_def by (rule disk_ready_after [OF r a(1) _ f' a(3,4) k]) (simp add: a(2))
  ultimately show ?thesis using a(2) by blast
qed

lemma read_disk:
  assumes r: "disk_ready bt n h f s" and n: "unat cnt \<le> n" "unat cnt * 512 < 2 ^ 32" and l: "unat lba < 2 ^ 28"
    and bt: "unat cnt \<le> bt"
  shows "\<exists>a v. ide_read (ata_platform pl ih) h lba dst cnt s =
      Inr (drv (hd_ch (hd_of h s)) a v (store_bytes (hbytes (heap s)) dst (read_image f (unat lba) (unat cnt))) s) \<and>
    disk_ready bt (n - unat cnt) h f
      (drv (hd_ch (hd_of h s)) a v (store_bytes (hbytes (heap s)) dst (read_image f (unat lba) (unat cnt))) s) \<and>
    platters a = (platters (hw s))(is_slave h s := Some f)"
  unfolding ide_read_def
proof (rule locked_transfer [where f = f, OF r])
  have cr: "credits (hw s) (ch_sema (chan_of h s)) + n < 2 ^ 32" and f: "length (f l) = 512" for l
    using r by (simp_all add: disk_ready_def)
  have g: "unat cnt \<le> 1 \<or> gap (begun h s) = 0" using r bt by (auto simp: disk_ready_def)
  let ?t = "set_ch_mlock h (cur_task (mm (heap s))) s" and ?c = "hd_ch (hd_of h s)"
  let ?m = "store_bytes (hbytes (heap s)) dst (read_image f (unat lba) (unat cnt))"
  assume b: "wired ?c h (begun h s) ?t" "resting (begun h s)" "selected h lba (begun h s) ?t" "platters (begun h s) (is_slave h ?t) = Some f"
  have "\<exists>a v. ide_read_loop (ata_platform pl ih) h lba cnt 0 dst
        (drv ?c (begun h s) (ch_sema (chan_of h s)) (hbytes (heap s)) ?t) = Some (drv ?c a v ?m ?t) \<and>
      same_drive (begun h s) a \<and> platters a = platters (begun h s) \<and> resting a \<and>
      credits a v \<le> credits (begun h s) (ch_sema (chan_of h s)) + (unat cnt - unat (0 :: u32))"
    by (rule read_loop [OF b(1-4) f l]) (use cr n g in \<open>simp_all add: read_image_def\<close>)
  then show "\<exists>a v. ide_read_loop (ata_platform pl ih) h lba cnt 0 dst
        (drv ?c (begun h s) (ch_sema (chan_of h s)) (hbytes (heap s)) ?t) = Some (drv ?c a v ?m ?t) \<and>
      same_drive (begun h s) a \<and> platters a = (platters (hw s))(is_slave h ?t := Some f) \<and> resting a \<and>
      credits a v \<le> credits (begun h s) (ch_sema (chan_of h s)) + unat cnt"
    using b(4) by (auto simp: fun_upd_idem)
qed (use n(1) r in \<open>simp_all add: disk_ready_def\<close>)

lemma write_disk:
  assumes r: "disk_ready bt n h f s" and n: "unat cnt \<le> n" "0 < cnt" "cnt \<le> 256" and l: "unat lba < 2 ^ 28"
    and bt: "unat cnt \<le> bt" "gap (hw s) = 0 \<or> credits (hw s) (ch_sema (chan_of h s)) = 0"
  shows "\<exists>a v. ide_write (ata_platform pl ih) h lba src cnt s = Inr (drv (hd_ch (hd_of h s)) a v (hbytes (heap s)) s) \<and>
    disk_ready bt (n - unat cnt) h (put_sectors (unat lba) (unat cnt) (hbytes (heap s)) src f)
      (drv (hd_ch (hd_of h s)) a v (hbytes (heap s)) s) \<and>
    platters a = (platters (hw s))(is_slave h s := Some (put_sectors (unat lba) (unat cnt) (hbytes (heap s)) src f))"
  unfolding ide_write_def
proof (rule locked_transfer [where f = f, OF r])
  have cr: "credits (hw s) (ch_sema (chan_of h s)) + n < 2 ^ 32"
    using r by (simp_all add: disk_ready_def)
  have "0 < unat cnt" using n(2) by (simp add: word_less_nat_alt)
  then have g: "gap (begun h s) = 0 \<or> unat cnt = 1 \<and> credits (begun h s) (ch_sema (chan_of h s)) = 0"
    using r bt by (auto simp: disk_ready_def)
  let ?t = "set_ch_mlock h (cur_task (mm (heap s))) s" and ?c = "hd_ch (hd_of h s)"
  assume b: "wired ?c h (begun h s) ?t" "resting (begun h s)" "selected h lba (begun h s) ?t" "platters (begun h s) (is_slave h ?t) = Some f"
  have "\<exists>a v. ide_write_loop (ata_platform pl ih) h lba cnt 0 src
        (drv ?c (begun h s) (ch_sema (chan_of h s)) (hbytes (heap s)) ?t) = Some (drv ?c a v (hbytes (heap s)) ?t) \<and>
      same_drive (begun h s) a \<and>
      platters a = (platters (begun h s))(is_slave h ?t := Some (put_sectors (unat lba) (unat cnt) (hbytes (heap s)) src f)) \<and> resting a \<and>
      credits a v \<le> credits (begun h s) (ch_sema (chan_of h s)) + unat cnt"
    by (rule write_one [OF b(1-4) l]) (use cr n g in simp_all)
  then show "\<exists>a v. ide_write_loop (ata_platform pl ih) h lba cnt 0 src
        (drv ?c (begun h s) (ch_sema (chan_of h s)) (hbytes (heap s)) ?t) = Some (drv ?c a v (hbytes (heap s)) ?t) \<and>
      same_drive (begun h s) a \<and>
      platters a = (platters (hw s))(is_slave h ?t := Some (put_sectors (unat lba) (unat cnt) (hbytes (heap s)) src f)) \<and> resting a \<and>
      credits a v \<le> credits (begun h s) (ch_sema (chan_of h s)) + unat cnt"
    by simp
qed (use n(1) r in \<open>simp_all add: disk_ready_def put_sectors_def\<close>)

section \<open>A drive with a gap\<close>

lemma insw_loop_add: "insw_loop dev port (j + k) p (m, d) =
    insw_loop dev port k (p + 2 * of_nat j) (insw_loop dev port j p (m, d))"
  by (induction j arbitrary: p m d) (simp_all add: algebra_simps split: prod.splits)

lemma insw_busy: "lag a \<noteq> 0 \<Longrightarrow> 2 * n < 2 ^ 32 \<Longrightarrow> insw_loop ata_dev port n dst (m, a) = (store_bytes m dst (replicate (2 * n) 0xFF), a)"
proof (induction n arbitrary: m dst)
  case (Suc n)
  have b: "[ucast (0xFFFF :: u16), ucast (drop_bit 8 (0xFFFF :: u16))] = [0xFF, 0xFF :: u8]" by simp
  have "store_bytes (store16 m dst 0xFFFF) (dst + 2) (replicate (2 * n) 0xFF) = store_bytes m dst (replicate (2 * Suc n) 0xFF)"
    using store_bytes_append [of "[0xFF, 0xFF]" "replicate (2 * n) 0xFF" m dst] Suc.prems(2) unfolding store16_bytes b by simp
  then show ?case using Suc by (simp add: ata_in16_def)
qed simp

lemma insw_first:
  "lag a = 0 \<Longrightarrow> xfer a = Data_in (us @ ws) \<Longrightarrow> us \<noteq> [] \<Longrightarrow> length us \<le> 256 \<Longrightarrow> ws \<noteq> [] \<Longrightarrow> 256 dvd length ws \<Longrightarrow>
   insw_loop ata_dev (base a) (length us) dst (m, a) = (store_bytes m dst (bytes_of us), busy_for (gap a) (a\<lparr>xfer := Data_in ws\<rparr>))"
proof (induction us arbitrary: a m dst)
  case (Cons u us)
  have st: "store_bytes (store16 m dst u) (dst + 2) (bytes_of us) = store_bytes m dst (bytes_of (u # us))"
    using store_bytes_append [of "[ucast u, ucast (drop_bit 8 u)]" "bytes_of us" m dst] Cons.prems(4) by (simp add: store16_bytes)
  show ?case
  proof (cases "us = []")
    case True
    then show ?thesis using Cons.prems st by (simp add: ata_in16_def)
  next
    case False
    let ?a = "a\<lparr>xfer := Data_in (us @ ws)\<rparr>"
    have "\<not> 256 dvd length us" using False Cons.prems(4) by (auto dest: dvd_imp_le)
    then have "\<not> 256 dvd length (us @ ws)" using Cons.prems(6) by (simp add: dvd_add_left_iff)
    then have "insw_loop ata_dev (base a) (length (u # us)) dst (m, a) = insw_loop ata_dev (base ?a) (length us) (dst + 2) (store16 m dst u, ?a)"
      using Cons.prems(1,2,5) False by (simp add: ata_in16_def)
    also have "\<dots> = (store_bytes (store16 m dst u) (dst + 2) (bytes_of us), busy_for (gap ?a) (?a\<lparr>xfer := Data_in ws\<rparr>))"
      using Cons.prems False by (intro Cons.IH) simp_all
    finally show ?thesis by (simp add: st)
  qed
qed simp

lemma read_overrun:
  assumes r: "disk_ready 1 n h f s" and n: "unat cnt \<le> n" "1 < unat cnt" "cnt \<le> 256" and l: "unat lba < 2 ^ 28" and g: "gap (hw s) \<noteq> 0"
  shows "\<exists>a v. ide_read (ata_platform pl ih) h lba dst cnt s =
      Inr (drv (hd_ch (hd_of h s)) a v (store_bytes (hbytes (heap s)) dst (f (unat lba) @ replicate (512 * (unat cnt - 1)) 0xFF)) s) \<and>
    lag a = gap (hw s) \<and> xfer a = Data_in (concat (map (\<lambda>l. words_of (f l)) [unat lba + 1..<unat lba + unat cnt]))"
proof -
  let ?P = "ata_platform pl ih" and ?c = "hd_ch (hd_of h s)" and ?t = "set_ch_mlock h (cur_task (mm (heap s))) s"
    and ?v = "ch_sema (chan_of h s)" and ?m = "hbytes (heap s)"
  let ?us = "words_of (f (unat lba))" and ?ws = "concat (map (\<lambda>l. words_of (f l)) [unat lba + 1..<unat lba + unat cnt])"
  note d = locked_start [OF r]
  have f: "length (f l) = 512" for l using r by (simp add: disk_ready_def)
  have pos: "0 < cnt" using n(2) by (simp add: word_less_nat_alt)
  have cr: "credits (begun h s) ?v + unat cnt < 2 ^ 32" using r n(1) by (simp add: disk_ready_def)
  obtain s1 b v where q: "ch_sema_down ?P ?c (ide_set_cmd ?P h CMD_READ_SEC (ide_set_lba ?P h lba cnt (drv ?c (begun h s) ?v ?m ?t))) = Some s1"
      "poll ?P h not_ready s1 = Some (0x48, drv ?c b v ?m ?t)"
    and b: "xfer b = Data_in (concat (map (\<lambda>l. words_of (f l)) [unat lba..<unat lba + unat cnt]))" "lag b = 0" "same_drive (begun h s) b"
    by (rule read_started [OF d(2-5) pos n(3) l cr])
  have ws: "concat (map (\<lambda>l. words_of (f l)) [unat lba..<unat lba + unat cnt]) = ?us @ ?ws" using n(2) by (simp add: upt_conv_Cons)
  have len: "length ?us = 256" "length ?ws = 256 * (unat cnt - 1)" by (simp_all add: words_of_length f sector_words [OF f])
  have ne: "?us \<noteq> []" "?ws \<noteq> []" "256 dvd length ?ws" using len n(2) by (auto simp flip: length_0_conv)
  let ?b = "busy_for (gap b) (b\<lparr>xfer := Data_in ?ws\<rparr>)"
  have gb: "gap b = gap (hw s)" "base b = base (begun h s)" using b(3) by (simp_all add: same_drive_def begun_def)
  have "insw_loop ata_dev (base b) 256 dst (?m, b) = (store_bytes ?m dst (bytes_of ?us), ?b)"
    using insw_first [OF b(2) b(1) [unfolded ws] ne(1) _ ne(2,3)] len(1) by simp
  moreover have "insw_loop ata_dev (base b) (256 * (unat cnt - 1)) (dst + 2 * of_nat 256) (store_bytes ?m dst (bytes_of ?us), ?b) =
      (store_bytes (store_bytes ?m dst (bytes_of ?us)) (dst + 2 * of_nat 256) (replicate (512 * (unat cnt - 1)) 0xFF), ?b)"
    using insw_busy [of ?b "256 * (unat cnt - 1)"] g gb(1) n(3) by (simp add: word_le_nat_alt)
  moreover have "bytes_of ?us = f (unat lba)" by (simp add: bytes_of_words_of f)
  moreover have "256 * unat cnt = 256 + 256 * (unat cnt - 1)" using n(2) by simp
  ultimately have "insw_loop ata_dev (base b) (256 * unat cnt) dst (?m, b) =
      (store_bytes (store_bytes ?m dst (f (unat lba))) (dst + 2 * of_nat 256) (replicate (512 * (unat cnt - 1)) 0xFF), ?b)"
    by (simp only: insw_loop_add)
  then have i: "insw_loop ata_dev (base (begun h s)) (256 * unat cnt) dst (?m, b) =
      (store_bytes ?m dst (f (unat lba) @ replicate (512 * (unat cnt - 1)) 0xFF), ?b)"
    using store_bytes_append [of "f (unat lba)" "replicate (512 * (unat cnt - 1)) 0xFF" ?m dst] n(3) gb(2) by (simp add: f word_le_nat_alt)
  note gd = get_data_drv [OF d(2) gb(2) pos n(3) i, of pl ih v]
  let ?m' = "store_bytes ?m dst (f (unat lba) @ replicate (512 * (unat cnt - 1)) 0xFF)"
  have ch: "chunk cnt 0 = cnt" using n(3) by (simp add: chunk_def)
  have "ide_read_loop ?P h lba cnt 0 dst (drv ?c (begun h s) ?v ?m ?t) = ide_read_loop ?P h lba cnt cnt (dst + cnt * SECTOR_SIZE) (drv ?c ?b v ?m' ?t)"
    using pos q wired_hd_ch [OF d(2)] gd by (subst ide_read_loop.simps) (simp add: Let_def ch)
  also have "\<dots> = Some (drv ?c ?b v ?m' ?t)" by (subst ide_read_loop.simps) simp
  finally have "ide_read ?P h lba dst cnt s = Inr (drv ?c ?b v ?m' s)"
    unfolding ide_read_def using r d(1) by (intro with_ch_lock_drv) (simp_all add: disk_ready_def)
  then show ?thesis using gb(1) by (intro exI [of _ ?b] exI [of _ v]) simp
qed

section \<open>A block device\<close>

text \<open>What the file system relies on: a ready device answers reads and writes of up to 256 sectors, a
  read delivers the sectors, a write replaces them.\<close>

locale block_device =
  fixes rd wr :: "u32 \<Rightarrow> ptr \<Rightarrow> u32 \<Rightarrow> 's \<Rightarrow> stop + 's"
    and ready :: "nat \<Rightarrow> (nat \<Rightarrow> u8 list) \<Rightarrow> 's \<Rightarrow> bool"
    and mem_of :: "'s \<Rightarrow> mem"
  assumes rd: "ready n f s \<Longrightarrow> unat cnt \<le> n \<Longrightarrow> cnt \<le> 256 \<Longrightarrow> unat lba < 2 ^ 28 \<Longrightarrow>
      \<exists>s'. rd lba dst cnt s = Inr s' \<and> ready (n - unat cnt) f s' \<and>
        mem_of s' = store_bytes (mem_of s) dst (concat (map f [unat lba..<unat lba + unat cnt]))"
    and wr: "ready n f s \<Longrightarrow> unat cnt \<le> n \<Longrightarrow> 0 < cnt \<Longrightarrow> cnt \<le> 256 \<Longrightarrow> unat lba < 2 ^ 28 \<Longrightarrow>
      \<exists>s'. wr lba src cnt s = Inr s' \<and> ready (n - unat cnt) (put_sectors (unat lba) (unat cnt) (mem_of s) src f) s' \<and> mem_of s' = mem_of s"

lemma put_sectors_read: "concat (map (put_sectors l n m p f) [l..<l + n]) = mem_bytes m p (512 * n)"
proof (induction n)
  case (Suc n)
  let ?g = "put_sectors l (Suc n) m p f"
  have e: "map ?g [l..<l + n] = map (put_sectors l n m p f) [l..<l + n]"
    by (auto simp: put_sectors_def)
  have s: "concat (map ?g [l..<l + Suc n]) = concat (map ?g [l..<l + n]) @ ?g (l + n)" by simp
  have "put_sectors l (Suc n) m p f (l + n) = mem_bytes m (p + 512 * of_nat n) 512" by (simp add: put_sectors_def)
  then have "concat (map ?g [l..<l + Suc n]) = mem_bytes m p (512 * n) @ mem_bytes m (p + 512 * of_nat n) 512"
    unfolding s e Suc by simp
  also have "\<dots> = mem_bytes m p (512 * n + 512)" by (simp add: mem_bytes_add)
  finally show ?case by (simp add: add.commute)
qed (simp add: mem_bytes_def)

lemma mem_bytes_store: "length bs < 2 ^ 32 \<Longrightarrow> mem_bytes (store_bytes m p bs) p (length bs) = bs"
  by (rule nth_equalityI) (simp_all add: mem_bytes_def store_bytes_def unat_of_nat_less)

lemma sectors_bytes: "cnt \<le> 256 \<Longrightarrow> 512 * unat (cnt :: u32) \<le> 131072"
  by (simp add: word_le_nat_alt)

context block_device
begin

text \<open>What was written is read back, into any buffer.\<close>

lemma write_read:
  assumes "ready n f s" and "2 * unat cnt \<le> n" and "0 < cnt" and "cnt \<le> 256" and "unat lba < 2 ^ 28"
  shows "\<exists>s' s''. wr lba src cnt s = Inr s' \<and> rd lba dst cnt s' = Inr s'' \<and>
    mem_bytes (mem_of s'') dst (512 * unat cnt) = mem_bytes (mem_of s) src (512 * unat cnt)"
proof -
  let ?f = "put_sectors (unat lba) (unat cnt) (mem_of s) src f" and ?n = "512 * unat cnt"
  obtain s' where w: "wr lba src cnt s = Inr s'" "ready (n - unat cnt) ?f s'" "mem_of s' = mem_of s"
    using wr [OF assms(1) _ assms(3-5)] assms(2) by auto
  have k: "unat cnt \<le> n - unat cnt" using assms(2) by simp
  obtain s'' where r: "rd lba dst cnt s' = Inr s''"
    and m: "mem_of s'' = store_bytes (mem_of s') dst (concat (map ?f [unat lba..<unat lba + unat cnt]))"
    using rd [OF w(2) k assms(4,5), of dst] by auto
  have "mem_of s'' = store_bytes (mem_of s') dst (mem_bytes (mem_of s) src ?n)" using m by (simp only: put_sectors_read)
  then have "mem_bytes (mem_of s'') dst ?n = mem_bytes (mem_of s) src ?n"
    using mem_bytes_store [of "mem_bytes (mem_of s) src ?n" "mem_of s'" dst] sectors_bytes [OF assms(4)] by simp
  then show ?thesis using w r by blast
qed

text \<open>A write leaves the other sectors readable as before.\<close>

lemma write_elsewhere:
  assumes "ready n f s" and "unat cnt + unat cnt' \<le> n" and "0 < cnt" and "cnt \<le> 256" and "cnt' \<le> 256" and "unat lba < 2 ^ 28"
    and "unat lba' < 2 ^ 28" and "unat lba + unat cnt \<le> unat lba' \<or> unat lba' + unat cnt' \<le> unat lba"
  shows "\<exists>s' s''. wr lba src cnt s = Inr s' \<and> rd lba' dst cnt' s' = Inr s'' \<and>
    mem_of s'' = store_bytes (mem_of s) dst (concat (map f [unat lba'..<unat lba' + unat cnt']))"
proof -
  let ?f = "put_sectors (unat lba) (unat cnt) (mem_of s) src f"
  obtain s' where w: "wr lba src cnt s = Inr s'" "ready (n - unat cnt) ?f s'" "mem_of s' = mem_of s"
    using wr [OF assms(1) _ assms(3,4,6)] assms(2) by auto
  have "map ?f [unat lba'..<unat lba' + unat cnt'] = map f [unat lba'..<unat lba' + unat cnt']"
    using assms(8) by (auto simp: put_sectors_def)
  moreover have k: "unat cnt' \<le> n - unat cnt" using assms(2) by simp
  moreover obtain s'' where "rd lba' dst cnt' s' = Inr s''"
    "mem_of s'' = store_bytes (mem_of s') dst (concat (map ?f [unat lba'..<unat lba' + unat cnt']))"
    using rd [OF w(2) k assms(5,7), of dst] by auto
  ultimately show ?thesis using w(1,3) by (simp del: map_eq_conv)
qed

end

text \<open>A drive without a gap is one.\<close>

interpretation disk: block_device "ide_read (ata_platform pl ih) h" "ide_write (ata_platform pl ih) h"
  "\<lambda>n f s. disk_ready 256 n h f s" "\<lambda>s. hbytes (heap s)"
proof unfold_locales
  fix n f and s :: "(ata, 'a) ide_state_scheme" and cnt lba :: u32 and dst
  assume a: "disk_ready 256 n h f s" "unat cnt \<le> n" "cnt \<le> 256" "unat lba < 2 ^ 28"
  have n: "unat cnt * 512 < 2 ^ 32" "unat cnt \<le> 256" using a(3) by (simp_all add: word_le_nat_alt)
  show "\<exists>s'. ide_read (ata_platform pl ih) h lba dst cnt s = Inr s' \<and> disk_ready 256 (n - unat cnt) h f s' \<and>
      hbytes (heap s') = store_bytes (hbytes (heap s)) dst (concat (map f [unat lba..<unat lba + unat cnt]))"
    using read_disk [OF a(1,2) n(1) a(4) n(2), of pl ih dst] read_image_short [OF n(2), of f "unat lba"] by auto
next
  fix n f and s :: "(ata, 'a) ide_state_scheme" and cnt lba :: u32 and src
  assume a: "disk_ready 256 n h f s" "unat cnt \<le> n" "0 < cnt" "cnt \<le> 256" "unat lba < 2 ^ 28"
  show "\<exists>s'. ide_write (ata_platform pl ih) h lba src cnt s = Inr s' \<and>
      disk_ready 256 (n - unat cnt) h (put_sectors (unat lba) (unat cnt) (hbytes (heap s)) src f) s' \<and> hbytes (heap s') = hbytes (heap s)"
    using write_disk [OF a, of pl ih src] a(1,4) by (auto simp: disk_ready_def word_le_nat_alt)
qed

section \<open>Properties\<close>

text \<open>C24: \<open>ide_read\<close> on a ready drive returns with the lock free again and the drive ready and
  unchanged. The buffer holds the sectors from \<open>lba\<close> on, nothing else in memory changes, nor anything
  but the channel's registers and semaphore. The address is not advanced from one command to the next:
  from the 257th sector on the buffer repeats the first 256 (\<open>read_image\<close>). The driver waits for the data
  once per command: more than one sector takes a drive that has the next sector ready at once
  (\<open>gap\<close> is 0, from \<open>disk_ready\<close> with \<open>unat cnt \<le> bt\<close>).\<close>

theorem ide_read_sectors:
  assumes "disk_ready bt n h f s" and "unat cnt \<le> n" and "unat cnt * 512 < 2 ^ 32" and "unat lba < 2 ^ 28" and "unat cnt \<le> bt"
  shows "\<exists>a v. ide_read (ata_platform pl ih) h lba dst cnt s =
      Inr (drv (hd_ch (hd_of h s)) a v (store_bytes (hbytes (heap s)) dst (concat (map (\<lambda>i. f (unat lba + i mod 256)) [0..<unat cnt]))) s) \<and>
    disk_ready bt (n - unat cnt) h f
      (drv (hd_ch (hd_of h s)) a v (store_bytes (hbytes (heap s)) dst (concat (map (\<lambda>i. f (unat lba + i mod 256)) [0..<unat cnt]))) s) \<and>
    platters a = platters (hw s)"
proof -
  have "platters (hw s) (is_slave h s) = Some f" using assms(1) by (simp add: disk_ready_def)
  then show ?thesis using read_disk [OF assms, of pl ih dst] by (simp add: read_image_def fun_upd_idem)
qed

text \<open>C25: \<open>ide_write\<close> of up to 256 sectors on a ready drive returns, puts the buffer into exactly those
  sectors of that drive, and leaves memory and the other drive of the channel as they were. As for
  reads, more than one sector takes a drive without a gap between them; a single sector can also go to a
  drive that is busy after it, when no interrupt of an earlier command was left uncounted: then the
  semaphore waits for the end of the write.\<close>

theorem ide_write_sectors:
  assumes "disk_ready bt n h f s" and "unat cnt \<le> n" and "0 < cnt" and "cnt \<le> 256" and "unat lba < 2 ^ 28" and "unat cnt \<le> bt"
    and "gap (hw s) = 0 \<or> credits (hw s) (ch_sema (chan_of h s)) = 0"
  shows "\<exists>a v. ide_write (ata_platform pl ih) h lba src cnt s = Inr (drv (hd_ch (hd_of h s)) a v (hbytes (heap s)) s) \<and>
    disk_ready bt (n - unat cnt) h (put_sectors (unat lba) (unat cnt) (hbytes (heap s)) src f)
      (drv (hd_ch (hd_of h s)) a v (hbytes (heap s)) s) \<and>
    platters a = (platters (hw s))(is_slave h s := Some (put_sectors (unat lba) (unat cnt) (hbytes (heap s)) src f))"
  by (rule write_disk [OF assms])

text \<open>What \<open>ide_write\<close> put on the disk, \<open>ide_read\<close> gets back, from a drive without a gap.\<close>

theorem disk_roundtrip:
  assumes "disk_ready 256 n h f s" and "2 * unat cnt \<le> n" and "0 < cnt" and "cnt \<le> 256" and "unat lba < 2 ^ 28"
  shows "\<exists>s' s''. ide_write (ata_platform pl ih) h lba src cnt s = Inr s' \<and>
    ide_read (ata_platform pl ih) h lba dst cnt s' = Inr s'' \<and>
    mem_bytes (hbytes (heap s'')) dst (512 * unat cnt) = mem_bytes (hbytes (heap s)) src (512 * unat cnt)"
  by (rule disk.write_read [OF assms])

text \<open>On a drive that is busy between two sectors the single poll is not enough: \<open>ide_read\<close> of 2 to 256
  sectors returns all the same, with the first sector in the buffer and what the busy data port gives
  behind it, and leaves the rest of the transfer in the drive.\<close>

theorem ide_read_outruns_drive:
  assumes "disk_ready 1 n h f s" and "unat cnt \<le> n" and "1 < unat cnt" and "cnt \<le> 256" and "unat lba < 2 ^ 28" and "gap (hw s) \<noteq> 0"
  shows "\<exists>a v. ide_read (ata_platform pl ih) h lba dst cnt s =
      Inr (drv (hd_ch (hd_of h s)) a v (store_bytes (hbytes (heap s)) dst (f (unat lba) @ replicate (512 * (unat cnt - 1)) 0xFF)) s) \<and>
    lag a = gap (hw s) \<and> xfer a = Data_in (concat (map (\<lambda>l. words_of (f l)) [unat lba + 1..<unat lba + unat cnt]))"
  by (rule read_overrun [OF assms])

text \<open>A machine with a drive at the first channel that takes three polls to get ready, and \<open>g\<close> ticks from
  one sector to the next.\<close>

definition slow_disk :: "nat \<Rightarrow> ata ide_state" where
  "slow_disk g = \<lparr>heap = demo_heap,
     hw = \<lparr>base = 0x1F0, vec = 0x2E, drv_sel = 0, sec_reg = 0, lba_low = 0, lba_mid = 0, lba_high = 0,
       platters = (\<lambda>d. if d then None else Some (\<lambda>l. replicate 512 (of_nat l))), ident = [], xfer = Idle, lag = 0, pend = 0, delay = 3,
       gap = g, due = False\<rparr>,
     intr = \<lparr>idt_table = (\<lambda>_. make_idt_table 0 0), intr_func = (\<lambda>_. 0), intr_name = (\<lambda>_. []), idtr = 0\<rparr>,
     ide_ch = (\<lambda>c. \<lparr>ch_name = [], ch_dev = (\<lambda>d. \<lparr>hd_name = [], hd_ch = c, dev_nr = of_nat d, valid = True\<rparr>), ch_mlock = NULL,
       ch_sema = 0, port_base = 0x1F0, ch_irq = 0x2E\<rparr>),
     ptn_at = (\<lambda>_. zero_ptn), ptn_nodes = (\<lambda>_. \<lparr>prev = NULL, nxt = NULL\<rparr>), ptn_nr = 0\<rparr>"

definition demo_disk :: "ata ide_state" where
  "demo_disk = slow_disk 0"

lemma slow_disk_ready: "n < 2 ^ 32 \<Longrightarrow> bt \<le> 1 \<or> g = 0 \<Longrightarrow> disk_ready bt n (0, 0) (\<lambda>l. replicate 512 (of_nat l)) (slow_disk g)"
  by (simp add: disk_ready_def slow_disk_def wired_def hd_of_def chan_of_def resting_def is_slave_def credits_def)

lemma demo_disk_ready: "n < 2 ^ 32 \<Longrightarrow> disk_ready bt n (0, 0) (\<lambda>l. replicate 512 (of_nat l)) demo_disk"
  unfolding demo_disk_def by (rule slow_disk_ready) simp_all

theorem ide_read_sectors_witness:
  "(\<exists>s. ide_read (ata_platform 0 0) (0, 0) 7 0x1000 300 demo_disk = Inr s) \<and>
   (\<exists>s. ide_read (ata_platform 0 0) (0, 0) 7 0x1000 1 (slow_disk 2) = Inr s)"
  using ide_read_sectors [OF demo_disk_ready [of 300 300], of 300 7 0 0 "0x1000"]
    ide_read_sectors [OF slow_disk_ready [of 1 1 2], of 1 7 0 0 "0x1000"] by auto

theorem ide_write_sectors_witness:
  "(\<exists>s. ide_write (ata_platform 0 0) (0, 0) 7 0x1000 256 demo_disk = Inr s) \<and>
   (\<exists>s. ide_write (ata_platform 0 0) (0, 0) 7 0x1000 1 (slow_disk 2) = Inr s)"
proof -
  have c: "credits (hw (slow_disk g)) (ch_sema (chan_of (0, 0) (slow_disk g))) = 0" for g
    by (simp add: slow_disk_def credits_def chan_of_def hd_of_def)
  show ?thesis
    using ide_write_sectors [OF demo_disk_ready [of 300 256], of 256 7 0 0 "0x1000"]
      ide_write_sectors [OF slow_disk_ready [of 1 1 2], of 1 7 0 0 "0x1000"] c [of 0] c [of 2] by (auto simp: demo_disk_def)
qed

theorem disk_roundtrip_witness:
  "\<exists>s s'. ide_write (ata_platform 0 0) (0, 0) 7 0x1000 2 demo_disk = Inr s \<and> ide_read (ata_platform 0 0) (0, 0) 7 0x2000 2 s = Inr s'"
  using disk_roundtrip [OF demo_disk_ready [of 300], of 2 7 0 0 "0x1000" "0x2000"] by auto

theorem ide_read_outruns_drive_witness: "\<exists>s. ide_read (ata_platform 0 0) (0, 0) 7 0x1000 2 (slow_disk 5) = Inr s \<and> lag (hw s) = 5"
proof -
  have "gap (hw (slow_disk 5)) = 5" by (simp add: slow_disk_def)
  then show ?thesis using ide_read_outruns_drive [OF slow_disk_ready [of 2 1 5], of 2 7 0 0 "0x1000"] by fastforce
qed

end
