(* ===== verification/KBudget.thy ===== *)
theory KBudget
  imports KHeapRep
begin

text \<open>
  How many allocations a heap can still answer. A budget of \<open>q\<close> pages bounds the pages in use, so that
  the search for a run succeeds below the page-table window, and counts the free frames. It goes down
  with each allocation and never with a release; clients such as the file system need no more than that.
\<close>

definition spare :: "nat \<Rightarrow> mm_state \<Rightarrow> bool" where
  "spare q s \<longleftrightarrow> q \<le> free_frames s \<and> (card (vpages s) + q) * 64 \<le> HEAP_PAGES \<and>
     HEAP_PAGES \<le> capacity (vaddr_bitmap (k_v_pool s))"

lemma spare_less: "spare q s \<Longrightarrow> q' \<le> q \<Longrightarrow> spare q' s"
  by (auto simp: spare_def)

lemma vpages_finite: "finite (vpages s)"
  by (simp add: vpages_def taken_bits_def)

text \<open>Among one block more than there are pages in use, one block is free.\<close>

lemma free_block_exists:
  assumes "finite V" and "0 < c"
  shows "\<exists>j \<le> card V. {j * c..<j * c + c} \<inter> V = {}"
proof (rule ccontr)
  assume "\<not> ?thesis"
  then have "\<forall>j \<in> {..card V}. \<exists>x. x \<in> {j * c..<j * c + c} \<inter> V" by blast
  then obtain g where g: "\<And>j. j \<le> card V \<Longrightarrow> g j \<in> {j * c..<j * c + c} \<inter> V" by (metis atMost_iff)
  have div: "g j div c = j" if "j \<le> card V" for j
    using g [OF that] assms(2) by (intro div_nat_eqI) (simp_all add: mult.commute)
  have "inj_on g {..card V}" by (rule inj_onI) (metis div atMost_iff)
  moreover have "g ` {..card V} \<subseteq> V" using g by auto
  ultimately have "card {..card V} \<le> card V" using assms(1) by (metis card_image card_mono)
  then show False by simp
qed

lemma spare_run:
  assumes "spare (unat cnt + q) s" and "0 < unat cnt" and "unat cnt \<le> 64"
  obtains k where "first_vrun s cnt = Some k" and "k + unat cnt \<le> HEAP_PAGES"
proof -
  let ?c = "unat cnt" and ?b = "vaddr_bitmap (k_v_pool s)"
  obtain j where j: "j \<le> card (vpages s)" "{j * ?c..<j * ?c + ?c} \<inter> vpages s = {}"
    using free_block_exists [OF vpages_finite assms(2)] by blast
  have "j * ?c + ?c \<le> card (vpages s) * 64 + 64" using j(1) assms(3) by (intro add_mono mult_le_mono) simp_all
  also have "\<dots> \<le> (card (vpages s) + (?c + q)) * 64" using assms(2) by simp
  also have "\<dots> \<le> HEAP_PAGES" using assms(1) by (simp add: spare_def)
  finally have le: "j * ?c + ?c \<le> HEAP_PAGES" .
  have cap: "HEAP_PAGES \<le> capacity ?b" using assms(1) by (simp add: spare_def)
  have run: "run_free ?b (kmem s) (j * ?c) ?c"
    unfolding run_free_iff using le cap j(2) by (auto simp: bit_free_def vpages_def taken_bits_def)
  have "first_vrun s cnt \<noteq> None" using run assms(2) by (auto simp: first_vrun_def first_fit_None)
  then obtain k where k: "first_vrun s cnt = Some k" by blast
  then have "k \<le> j * ?c" using run unfolding first_vrun_def first_fit_Some by (meson not_le)
  then show thesis using k le that by simp
qed

lemma spare_acquire:
  assumes ok: "mm_ok s" and sp: "spare (unat cnt + q) s" and cnt: "0 < unat cnt" "unat cnt \<le> 64"
    and acq: "page_acquire K_P_POOL NULL cnt s = Inr (a, s')"
  shows "spare q s'"
proof -
  obtain k where k: "first_vrun s cnt = Some k" "k + unat cnt \<le> HEAP_PAGES" by (rule spare_run [OF sp cnt])
  have pos: "0 < sint cnt" by (rule sint_pos_small) (use cnt in simp_all)
  have ff: "unat cnt \<le> free_frames s" using sp by (simp add: spare_def)
  have v: "k_p_pool (v_run k (unat cnt) True s) = k_p_pool s" "pframes (v_run k (unat cnt) True s) = pframes s"
    using v_run_sets(2) [OF mm_okD(1) [OF ok] first_vrun_fits(1) [OF k(1)], of True] by (simp_all add: v_run_def)
  obtain fs where p: "vpages s' = vpages s \<union> {k..<k + unat cnt}"
    and a: "acquired k (unat cnt) (v_run k (unat cnt) True s) s' fs"
    using page_acquire_run [OF ok pos k] acq ff by (auto simp: min_def)
  have pools: "k_p_pool s' = k_p_pool s" "k_v_pool s' = k_v_pool s" using a v(1) by (simp_all add: acquired_def v_run_def)
  have "card (pframes s') = card (pframes s) + unat cnt"
    using a v pframes_sub(2) [of s] by (simp add: acquired_def card_Un_disjoint Int_commute distinct_card)
  moreover have "card (vpages s') = card (vpages s) + unat cnt"
    using p first_vrun_fits(2) [OF k(1)] vpages_finite [of s] by (simp add: card_Un_disjoint Int_commute)
  ultimately show ?thesis using sp pools by (simp add: spare_def free_frames_def) linarith
qed

text \<open>An allocation is at most one \<open>page_acquire\<close>.\<close>

lemma split_arena_mm [simp]: "mm (split_arena n idx a s) = mm s"
  by (induction n idx a s rule: split_arena.induct) (simp_all add: Let_def)

lemma unlink_arena_mm [simp]: "mm (unlink_arena n idx a s) = mm s"
  by (induction n idx a s rule: unlink_arena.induct) simp_all

lemma new_arena_mm [simp]: "mm (new_arena d a s) = mm s"
  by (simp add: new_arena_def Let_def)

lemma take_block_mm: "take_block d s = (p, s') \<Longrightarrow> mm s' = mm s"
  by (auto simp: take_block_def Let_def set_arena_def heap_memset_def split: prod.splits)

lemma mem_acquire_mm:
  assumes "mem_acquire K_P_POOL mb i s = Inr (p, s')"
  shows "mm s' = mm s \<or> (\<exists>a. page_acquire K_P_POOL NULL 1 (mm s) = Inr (a, mm s'))"
proof (cases "list_empty (hnodes s) (free_list (desc_at mb i))")
  case True
  then obtain a m where a: "page_acquire K_P_POOL NULL 1 (mm s) = Inr (a, m)"
    "(if a = NULL then (NULL, s\<lparr>mm := m\<rparr>) else take_block (desc_at mb i) (new_arena (desc_at mb i) a (s\<lparr>mm := m\<rparr>))) = (p, s')"
    using assms by (auto simp: mem_acquire_def Let_def rbind_Inr_iff split: if_splits)
  then have "mm s' = m" using take_block_mm [of "desc_at mb i" "new_arena (desc_at mb i) a (s\<lparr>mm := m\<rparr>)" p s']
    by (auto split: if_splits)
  then show ?thesis using a(1) by blast
next
  case False
  then have "take_block (desc_at mb i) s = (p, s')" using assms by (simp add: mem_acquire_def Let_def)
  then show ?thesis by (simp add: take_block_mm)
qed

lemma sys_malloc_mm:
  assumes "sys_malloc sz s = Inr (p, s')"
  shows "mm s' = mm s \<or> (\<exists>a. page_acquire K_P_POOL NULL (malloc_pages sz) (mm s) = Inr (a, mm s'))"
proof (cases "sz > 1024")
  case True
  then show ?thesis using assms by (auto simp: sys_malloc_def malloc_pages_def Let_def rbind_Inr_iff split: if_splits)
next
  case False
  then show ?thesis
    using assms by (auto simp: sys_malloc_def malloc_pages_def with_d_lock_def Let_def rbind_Inr_iff split: if_splits dest!: mem_acquire_mm)
qed

section \<open>Allocation within a budget\<close>

definition in_budget :: "nat \<Rightarrow> heap_state \<Rightarrow> bool" where
  "in_budget q s \<longleftrightarrow> spare q (mm s)"

text \<open>Pages a request may take, for requests up to 64 pages.\<close>

definition cost :: "u32 \<Rightarrow> nat" where
  "cost sz = (if unat sz \<le> 1024 then 1 else (unat sz + 4107) div 4096)"

definition modest :: "u32 \<Rightarrow> bool" where
  "modest sz \<longleftrightarrow> unat sz \<le> 200000"

lemma in_budget_bytes [simp]: "in_budget q (s\<lparr>hbytes := m\<rparr>) = in_budget q s"
  by (simp add: in_budget_def)

lemma cost_pages:
  assumes "modest sz"
  shows "unat (malloc_pages sz) = cost sz" "0 < cost sz" "cost sz \<le> 64"
proof -
  have sz: "unat sz \<le> 200000" using assms by (simp add: modest_def)
  show "unat (malloc_pages sz) = cost sz"
    using large_pages(1) [of sz] sz by (auto simp: malloc_pages_def cost_def word_less_nat_alt)
  show "0 < cost sz" by (simp add: cost_def div_greater_zero_iff)
  have "(unat sz + 4107) div 4096 \<le> 204107 div 4096" using sz by (intro div_le_mono) simp
  then show "cost sz \<le> 64" by (simp add: cost_def)
qed

lemma budget_room:
  assumes "in_budget (cost sz + q) s" and "modest sz"
  shows "malloc_room sz s" "\<not> malloc_starved sz s"
proof -
  note c = cost_pages [OF assms(2)]
  have sp: "spare (unat (malloc_pages sz) + q) (mm s)" using assms(1) c(1) by (simp add: in_budget_def)
  obtain k where k: "first_vrun (mm s) (malloc_pages sz) = Some k" "k + unat (malloc_pages sz) \<le> HEAP_PAGES"
    by (rule spare_run [OF sp]) (use c in simp_all)
  have "cost sz \<le> free_frames (mm s)" using assms(1) by (simp add: in_budget_def spare_def)
  then show "\<not> malloc_starved sz s" using k c(1) by (simp add: malloc_starved_def starved_def)
  show "malloc_room sz s" using k assms(2) by (simp add: malloc_room_def room_def modest_def)
qed

lemma malloc_budget:
  assumes "heap_rep L s" and "in_budget (cost sz + q) s" and "modest sz"
  shows "\<exists>p k s'. sys_malloc sz s = Inr (p, s') \<and> unat sz \<le> k \<and> heap_rep (insert (p, k) L) s' \<and>
    fresh_region L p k s s' \<and> in_budget q s'"
proof -
  note c = cost_pages [OF assms(3)]
  obtain p s' where m: "sys_malloc sz s = Inr (p, s')" "malloc_outcome sz L s p s'"
    using malloc_run [OF assms(1) budget_room(1) [OF assms(2,3)]] by blast
  have "in_budget q s'"
    using sys_malloc_mm [OF m(1)]
  proof
    assume "mm s' = mm s"
    then show ?thesis using assms(2) spare_less [of "cost sz + q" "mm s" q] by (simp add: in_budget_def)
  next
    assume "\<exists>a. page_acquire K_P_POOL NULL (malloc_pages sz) (mm s) = Inr (a, mm s')"
    then obtain a where a: "page_acquire K_P_POOL NULL (malloc_pages sz) (mm s) = Inr (a, mm s')" by blast
    have ok: "mm_ok (mm s)" using assms(1) by (auto simp: heap_rep_def dest: heap_invD(1))
    show ?thesis
      unfolding in_budget_def by (rule spare_acquire [OF ok _ _ _ a]) (use assms(2) c in \<open>simp_all add: in_budget_def\<close>)
  qed
  then show ?thesis
    using m budget_room(2) [OF assms(2,3)] unfolding malloc_outcome_def malloc_starved_def by blast
qed

text \<open>A release of a live region is at most one \<open>page_release\<close> of backed pages.\<close>

lemma sys_free_mm:
  assumes "heap_rep L s" and "(p, n) \<in> L" and "sys_free p s = Inr s'"
  shows "mm s' = mm s \<or> (\<exists>k c. 0 < c \<and> c < 2 ^ 31 \<and> (\<forall>j<c. backed (mm s) (k + j)) \<and>
    page_release K_P_POOL (heap_page k) (of_nat c) (mm s) = Inr (mm s'))"
proof -
  obtain own big fl where inv: "heap_inv {} own big fl s" and L: "L = live own big fl"
    using assms(1) unfolding heap_rep_def by blast
  have l: "(p, n) \<in> live own big fl" using assms(2) L by simp
  from l show ?thesis
  proof (cases rule: liveE)
    case (block i k j)
    have lt: "i < 7" "k < HEAP_PAGES" using heap_invD(10,11) [OF inv block(3)] .
    have a: "block2arena p = heap_page k" unfolding block(1) by (rule block2arena_blk [OF lt block(4)])
    have hdr: "is_page_cnt (arenas s (heap_page k)) = False" using heap_invD(6) [OF inv block(3)] by (simp add: arena_hdr_def)
    have "backed (mm s) k" by (rule heap_invD(5) [OF inv block(3)])
    then have "\<forall>j<(1::nat). backed (mm s) (k + j)" by simp
    moreover have "mm s' = mm s \<or> page_release K_P_POOL (heap_page k) 1 (mm s) = Inr (mm s')"
      using assms(3) a hdr
      by (auto simp: sys_free_def with_d_lock_def mem_release_def Let_def rbind_Inr_iff set_d_mlock_def set_arena_def split: if_splits)
    ultimately show ?thesis by (metis of_nat_1 one_less_numeral_iff one_less_power zero_less_one semiring_norm(76) zero_less_numeral)
  next
    case (run k c)
    note bp = big_page [OF inv run(3)]
    have a: "block2arena p = heap_page k" unfolding run(1) by (rule block2arena_run [OF bp(3)])
    have "page_release K_P_POOL (heap_page k) (of_nat c) (mm s) = Inr (mm s')"
      using assms(3) a heap_invD(9) [OF inv run(3)] by (auto simp: sys_free_def Let_def rbind_Inr_iff big_hdr_def)
    then show ?thesis using bp(1,2) heap_invD(8) [OF inv run(3)] by blast
  qed
qed

lemma spare_release:
  assumes ok: "mm_ok s" and n: "0 < n" "n < 2 ^ 31" and b: "\<forall>j<n. backed s (k + j)"
    and rel: "page_release K_P_POOL (heap_page k) (of_nat n) s = Inr s'" and sp: "spare q s"
  shows "spare q s'"
proof -
  have un: "unat (of_nat n :: u32) = n" using n(2) by (simp add: unat_of_nat_less)
  have pos: "0 < sint (of_nat n :: u32)" by (rule sint_pos_small) (use un n in simp_all)
  have "backed s (k + (n - 1))" using b [rule_format, of "n - 1"] n(1) by simp
  then have below: "k + n \<le> HEAP_PAGES" "k + n \<le> capacity (vaddr_bitmap (k_v_pool s))"
    using n(1) by (auto simp: backed_def)
  have "\<forall>j<n. \<exists>f<kcap s. mapping s (k + j) = Some (kframe s f)" using b by (simp add: backed_def)
  then obtain g where g: "\<And>j. j < n \<Longrightarrow> g j < kcap s \<and> mapping s (k + j) = Some (kframe s (g j))" by metis
  have fs: "length (map g [0..<n]) = n" "set (map g [0..<n]) \<subseteq> {..<kcap s}" using g by auto
  have r: "released k (map g [0..<n]) s s'" and v: "vpages s' = vpages s - {k..<k + n}"
    using page_release_run [OF ok pos, of "map g [0..<n]" k] fs below g un rel by auto
  have "card (vpages s') \<le> card (vpages s)" unfolding v by (rule card_mono [OF vpages_finite]) blast
  moreover have "card (pframes s') \<le> card (pframes s)"
    using r pframes_sub(2) [of s] by (auto simp: released_def intro: card_mono)
  moreover have "(card (vpages s') + q) * 64 \<le> (card (vpages s) + q) * 64" using calculation(1) by simp
  ultimately show ?thesis using sp r unfolding spare_def free_frames_def released_def by auto
qed

lemma free_budget:
  assumes "heap_rep L s" and "(p, n) \<in> L" and "sys_free p s = Inr s'" and "in_budget q s"
  shows "in_budget q s'"
proof -
  have ok: "mm_ok (mm s)" using assms(1) by (auto simp: heap_rep_def dest: heap_invD(1))
  show ?thesis
    using sys_free_mm [OF assms(1-3)] assms(4) spare_release [OF ok] unfolding in_budget_def by metis
qed

text \<open>A whole list of requests, one after the other.\<close>

fun requests :: "(u32 \<Rightarrow> 'h \<Rightarrow> stop + ptr \<times> 'h) \<Rightarrow> u32 list \<Rightarrow> 'h \<Rightarrow> stop + ptr list \<times> 'h" where
  "requests alloc [] s = Inr ([], s)"
| "requests alloc (sz # szs) s = rbind (alloc sz s) (\<lambda>(p, s). rbind (requests alloc szs s) (\<lambda>(ps, s). Inr (p # ps, s)))"

text \<open>An allocator with a budget: allocations within it never fail, releases never cost.\<close>

locale budgeted = allocator +
  fixes budget :: "nat \<Rightarrow> 'a \<Rightarrow> bool"
    and price :: "u32 \<Rightarrow> nat"
    and fit :: "u32 \<Rightarrow> bool"
  assumes within: "rep L s \<Longrightarrow> budget (price sz + q) s \<Longrightarrow> fit sz \<Longrightarrow> malloc sz s = Inr (p, s') \<Longrightarrow> p \<noteq> NULL \<and> budget q s'"
    and affordable: "rep L s \<Longrightarrow> budget (price sz + q) s \<Longrightarrow> fit sz \<Longrightarrow> avail sz s"
    and refund: "rep L s \<Longrightarrow> (p, n) \<in> L \<Longrightarrow> release p s = Inr s' \<Longrightarrow> budget q s \<Longrightarrow> budget q s'"

context budgeted
begin

lemma served:
  assumes "rep L s" and "budget (price sz + q) s" and "fit sz"
  obtains p n s' where "malloc sz s = Inr (p, s')" and "p \<noteq> NULL" and "(p, n) \<notin> L" and "unat sz \<le> n" and "rep (insert (p, n) L) s'"
    and "budget q s'"
proof -
  obtain p s' where m: "malloc sz s = Inr (p, s')" "p = NULL \<and> exhausted sz s \<and> rep L s' \<and> byte s' = byte s \<or>
      (\<exists>n. unat sz \<le> n \<and> p \<noteq> NULL \<and> (p, n) \<notin> L \<and> rep (insert (p, n) L) s' \<and>
        (\<forall>q. in_range p (of_nat n) q \<longrightarrow> byte s' q = 0) \<and>
        (\<forall>(p', n')\<in>L. \<forall>q. in_range p' (of_nat n') q \<longrightarrow> byte s' q = byte s q))"
    using malloc [OF assms(1) affordable [OF assms]] by blast
  then show thesis using within [OF assms m(1)] that by blast
qed

lemma all_served:
  assumes "rep L s" and "budget (sum_list (map price szs) + q) s" and "\<And>sz. sz \<in> set szs \<Longrightarrow> fit sz"
  shows "\<exists>ps s' L'. requests malloc szs s = Inr (ps, s') \<and> length ps = length szs \<and> NULL \<notin> set ps \<and> L \<subseteq> L' \<and> rep L' s' \<and> budget q s'"
  using assms
proof (induction szs arbitrary: L s)
  case (Cons sz szs)
  have b: "budget (price sz + (sum_list (map price szs) + q)) s" using Cons.prems(2) by (simp add: add.assoc)
  have f: "fit sz" using Cons.prems(3) by simp
  obtain p n s1 where m: "malloc sz s = Inr (p, s1)" "p \<noteq> NULL" "rep (insert (p, n) L) s1" "budget (sum_list (map price szs) + q) s1"
    by (rule served [OF Cons.prems(1) b f])
  obtain ps s' L' where "requests malloc szs s1 = Inr (ps, s')" "length ps = length szs" "NULL \<notin> set ps" "insert (p, n) L \<subseteq> L'" "rep L' s'"
    "budget q s'"
    using Cons.IH [OF m(3,4)] Cons.prems(3) by auto
  then show ?case using m(1,2) by (intro exI [of _ "p # ps"] exI [of _ s'] exI [of _ L']) auto
qed auto

end

interpretation heap_budget: budgeted heap_rep sys_malloc sys_free hbytes malloc_room malloc_starved lingers in_budget cost modest
proof unfold_locales
  fix L s sz q p s'
  assume "heap_rep L s" "in_budget (cost sz + q) s" "modest sz" "sys_malloc sz s = Inr (p, s')"
  then show "p \<noteq> NULL \<and> in_budget q s'" using malloc_budget [of L s sz q] by (auto simp: fresh_region_def)
qed (use budget_room free_budget in blast)+

section \<open>Properties\<close>

text \<open>C10: a budget of pages is a promise. With one page in the budget for each small request and
  \<open>(size + 4107) div 4096\<close> for each large one, any sequence of requests of up to 200000 bytes each is
  answered in full: every call returns, none with \<open>NULL\<close>, and what was live stays live.\<close>

theorem malloc_never_null:
  assumes "heap_rep L s" and "in_budget (sum_list (map cost szs)) s" and "\<forall>sz \<in> set szs. unat sz \<le> 200000"
  shows "\<exists>ps s' L'. requests sys_malloc szs s = Inr (ps, s') \<and> length ps = length szs \<and> NULL \<notin> set ps \<and> L \<subseteq> L' \<and> heap_rep L' s'"
  using heap_budget.all_served [of L s szs 0] assms by (auto simp: modest_def)

text \<open>The heap of a machine with 32 MB answers 3840 pages.\<close>

lemma boot_capacity: "capacity (vaddr_bitmap (k_v_pool (mm_boot tot m task slot))) = 0x40000"
proof -
  obtain kp up vp m' where p: "pool_init tot m = (kp, up, vp, m')" using prod_cases4 by blast
  then show ?thesis using pool_init_shape(3) [OF p] by (simp add: mm_boot_def capacity_def)
qed

lemma demo_budget: "q \<le> 3840 \<Longrightarrow> in_budget q demo_heap"
  unfolding in_budget_def spare_def demo_heap_mm boot_frames boot_capacity
  using mm_boot_ok(2) [of "0x2000000"] by (simp add: HEAP_PAGES_def)

theorem malloc_never_null_witness:
  "\<exists>ps s. requests sys_malloc [100, 5000, 200000, 16] demo_heap = Inr (ps, s) \<and> NULL \<notin> set ps"
  using malloc_never_null [OF demo_heap_rep, of "[100, 5000, 200000, 16]"] demo_budget by (auto simp: cost_def)

end
