(* ===== verification/KFs.thy ===== *)
theory KFs
  imports KAta KBudget
begin

text \<open>
  The file system, \<open>code/kernel/src/fs.c\<close>: formatting, mounting and start-up. On-disk structures are
  bytes in memory at the offsets of the 32-bit target; a partition is the record of the disk driver.
  \<open>rb\<close> is the address of \<open>root_blk\<close>, \<open>sb\<close> that of the super block on the stack of \<open>fs_format\<close>, whose
  padding is whatever was there. Debug output is left out. Pointers are not checked against \<open>NULL\<close>,
  as in the code.
\<close>

section \<open>Layout\<close>

definition INODE_CNT_MAX :: u32 where "INODE_CNT_MAX = SECTOR_SIZE * 8"
definition sizeof_inode_hd :: u32 where "sizeof_inode_hd = 60"
definition sizeof_inode_sys :: u32 where "sizeof_inode_sys = 72"
definition sizeof_dirent :: u32 where "sizeof_dirent = 24"
definition sizeof_super_block :: u32 where "sizeof_super_block = 512"
definition INODE_PER_SEC :: u32 where "INODE_PER_SEC = SECTOR_SIZE div sizeof_inode_hd"
definition BLOCK_SIZE :: u32 where "BLOCK_SIZE = 4096"
definition FS_MAGIC :: u32 where "FS_MAGIC = 0x19890604"
definition ROOT_DIR_MAX :: nat where "ROOT_DIR_MAX = 10"
definition FT_UNKNOWN :: u32 where "FT_UNKNOWN = 0"
definition FT_DIR :: u32 where "FT_DIR = 2"

record super_block =
  sb_magic :: u32
  sb_inode_cnt :: u32
  sb_inode_btmp_lba :: u32
  sb_inode_btmp_sec :: u32
  sb_inode_table_lba :: u32
  sb_inode_table_sec :: u32
  sb_blk_cnt :: u32
  sb_blk_btmp_lba :: u32
  sb_blk_btmp_sec :: u32
  sb_blk_lba :: u32

fun put_words :: "ptr \<Rightarrow> u32 list \<Rightarrow> mem \<Rightarrow> mem" where
  "put_words p [] m = m"
| "put_words p (w # ws) m = put_words (p + 4) ws (store32 m p w)"

definition put_super :: "ptr \<Rightarrow> super_block \<Rightarrow> mem \<Rightarrow> mem" where
  "put_super p b = put_words p [sb_magic b, sb_inode_cnt b, sb_inode_btmp_lba b, sb_inode_btmp_sec b, sb_inode_table_lba b,
     sb_inode_table_sec b, sb_blk_cnt b, sb_blk_btmp_lba b, sb_blk_btmp_sec b, sb_blk_lba b]"

definition get_super :: "mem \<Rightarrow> ptr \<Rightarrow> super_block" where
  "get_super m p = \<lparr>sb_magic = load32 m p, sb_inode_cnt = load32 m (p + 4), sb_inode_btmp_lba = load32 m (p + 8),
     sb_inode_btmp_sec = load32 m (p + 12), sb_inode_table_lba = load32 m (p + 16), sb_inode_table_sec = load32 m (p + 20),
     sb_blk_cnt = load32 m (p + 24), sb_blk_btmp_lba = load32 m (p + 28), sb_blk_btmp_sec = load32 m (p + 32),
     sb_blk_lba = load32 m (p + 36)\<rparr>"

text \<open>\<open>struct dirent\<close>: number at 0, name at 4, type at 20. \<open>struct inode_hd\<close> and \<open>struct inode_sys\<close>:
  number at 0, size at 4, blocks from 8 on, \<open>open_cnt\<close> at 60.\<close>

definition dir_at :: "ptr \<Rightarrow> nat \<Rightarrow> ptr" where
  "dir_at dir idx = dir + sizeof_dirent * of_nat idx"

definition dir_no :: "mem \<Rightarrow> ptr \<Rightarrow> u32" where "dir_no m d = load32 m d"
definition dir_type :: "mem \<Rightarrow> ptr \<Rightarrow> u32" where "dir_type m d = load32 m (d + 20)"
definition i_size :: "mem \<Rightarrow> ptr \<Rightarrow> u32" where "i_size m i = load32 m (i + 4)"
definition i_block0 :: "mem \<Rightarrow> ptr \<Rightarrow> u32" where "i_block0 m i = load32 m (i + 8)"

text \<open>\<open>strcmp(filename, name) == 0\<close>, for a name without its terminator.\<close>

definition dir_named :: "mem \<Rightarrow> ptr \<Rightarrow> u8 list \<Rightarrow> bool" where
  "dir_named m d name \<longleftrightarrow> mem_bytes m (d + 4) (Suc (length name)) = name @ [0]"

definition put_dirent :: "ptr \<Rightarrow> u8 list \<Rightarrow> u32 \<Rightarrow> mem \<Rightarrow> mem" where
  "put_dirent d name no m = store32 (store32 (store_bytes m (d + 4) name) d no) (d + 20) FT_DIR"

text \<open>The globals \<open>root_dir\<close> and the static \<open>inode_max\<close> of \<open>fs_mount\<close>.\<close>

record 'd fs_state = "'d ide_state" +
  root_dir_inode :: ptr
  root_dir_pos :: u32
  inode_max :: u32

section \<open>State access\<close>

abbreviation bytes_in :: "('d, 'x) ide_state_scheme \<Rightarrow> mem" where
  "bytes_in s \<equiv> hbytes (heap s)"

definition on_mem :: "(mem \<Rightarrow> mem) \<Rightarrow> ('d, 'x) ide_state_scheme \<Rightarrow> ('d, 'x) ide_state_scheme" where
  "on_mem f s = s\<lparr>heap := (heap s)\<lparr>hbytes := f (bytes_in s)\<rparr>\<rparr>"

definition malloc_st :: "u32 \<Rightarrow> ('d, 'x) ide_state_scheme \<Rightarrow> stop + ptr \<times> ('d, 'x) ide_state_scheme" where
  "malloc_st sz s = rbind (sys_malloc sz (heap s)) (\<lambda>(p, hp). Inr (p, s\<lparr>heap := hp\<rparr>))"

definition free_st :: "ptr \<Rightarrow> ('d, 'x) ide_state_scheme \<Rightarrow> stop + ('d, 'x) ide_state_scheme" where
  "free_st p s = rbind (sys_free p (heap s)) (\<lambda>hp. Inr (s\<lparr>heap := hp\<rparr>))"

definition set_ptn :: "ptr \<Rightarrow> (ide_ptn \<Rightarrow> ide_ptn) \<Rightarrow> ('d, 'x) ide_state_scheme \<Rightarrow> ('d, 'x) ide_state_scheme" where
  "set_ptn ptn f s = s\<lparr>ptn_at := (ptn_at s)(ptn := f (ptn_at s ptn))\<rparr>"

section \<open>Formatting\<close>

definition format_super :: "ide_ptn \<Rightarrow> super_block" where
  "format_super ptn =
     (let inode_btmp_lba = start_lba ptn + 2;
          inode_btmp_sec = 1;
          inode_table_lba = inode_btmp_lba + 1;
          inode_table_sec = INODE_CNT_MAX div INODE_PER_SEC;
          used_sec = 2 + inode_btmp_sec + inode_table_sec;
          free_sec = sec_cnt ptn - used_sec;
          blk_cnt = free_sec * SECTOR_SIZE div BLOCK_SIZE;
          blk_btmp_lba = inode_table_lba + inode_table_sec;
          blk_btmp_sec = DIV_ROUND_UP blk_cnt (SECTOR_SIZE * 8)
      in \<lparr>sb_magic = FS_MAGIC, sb_inode_cnt = INODE_CNT_MAX, sb_inode_btmp_lba = inode_btmp_lba,
          sb_inode_btmp_sec = inode_btmp_sec, sb_inode_table_lba = inode_table_lba, sb_inode_table_sec = inode_table_sec,
          sb_blk_cnt = (free_sec - blk_btmp_sec) * SECTOR_SIZE div BLOCK_SIZE, sb_blk_btmp_lba = blk_btmp_lba,
          sb_blk_btmp_sec = blk_btmp_sec, sb_blk_lba = blk_btmp_lba + blk_btmp_sec\<rparr>)"

text \<open>\<open>while (idx <= last_bit) buf[last_byte] &= ~(1 << idx++)\<close>, on \<open>n\<close> rounds.\<close>

fun clear_bits :: "nat \<Rightarrow> nat \<Rightarrow> ptr \<Rightarrow> mem \<Rightarrow> mem" where
  "clear_bits 0 idx p m = m"
| "clear_bits (Suc n) idx p m = clear_bits n (Suc idx) p (m(p := m p AND NOT (push_bit idx 1)))"

definition mark_tail :: "ptr \<Rightarrow> u32 \<Rightarrow> mem \<Rightarrow> mem" where
  "mark_tail buf blk_cnt m =
     (let last_byte = blk_cnt div 8;
          last_bit = blk_cnt mod 8;
          last_size = SECTOR_SIZE - last_byte mod SECTOR_SIZE
      in clear_bits (Suc (unat last_bit)) 0 (buf + last_byte) (memset m (buf + last_byte) 0xFF last_size))"

definition put_root_inode :: "ptr \<Rightarrow> u32 \<Rightarrow> mem \<Rightarrow> mem" where
  "put_root_inode root lba = put_words root [0, sizeof_dirent * 2, lba]"

definition put_dots :: "ptr \<Rightarrow> mem \<Rightarrow> mem" where
  "put_dots dir m = put_dirent (dir_at dir 1) [0x2E, 0x2E] 0 (put_dirent (dir_at dir 0) [0x2E] 0 m)"

definition fs_format :: "'d platform \<Rightarrow> ptr \<Rightarrow> ptr \<Rightarrow> ('d, 'x) ide_state_scheme \<Rightarrow> stop + ('d, 'x) ide_state_scheme" where
  "fs_format P sb_at ptn s =
     (let sb = format_super (ptn_at s ptn);
          hd = ptn_hd (ptn_at s ptn);
          buf_size = sb_blk_btmp_sec sb * SECTOR_SIZE
      in rbind (ide_write P hd (start_lba (ptn_at s ptn) + 1) sb_at 1 (on_mem (put_super sb_at sb) s)) (\<lambda>s.
         rbind (malloc_st buf_size s) (\<lambda>(buf, s).
         rbind (ide_write P hd (sb_inode_btmp_lba sb) buf (sb_inode_btmp_sec sb)
             (on_mem (\<lambda>m. (memset m buf 0 buf_size)(buf := 1)) s)) (\<lambda>s.
         rbind (ide_write P hd (sb_inode_table_lba sb) buf 1
             (on_mem (\<lambda>m. put_root_inode buf (sb_blk_lba sb) (memset m buf 0 buf_size)) s)) (\<lambda>s.
         rbind (ide_write P hd (sb_blk_btmp_lba sb) buf (sb_blk_btmp_sec sb)
             (on_mem (\<lambda>m. mark_tail buf (sb_blk_cnt sb) ((memset m buf 0 buf_size)(buf := 1))) s)) (\<lambda>s.
         rbind (ide_write P hd (sb_blk_lba sb) buf 1 (on_mem (\<lambda>m. put_dots buf (memset m buf 0 buf_size)) s)) (free_st buf)))))))"

section \<open>Mounting\<close>

fun free_entry :: "nat \<Rightarrow> nat \<Rightarrow> ptr \<Rightarrow> mem \<Rightarrow> nat" where
  "free_entry 0 idx dir m = idx"
| "free_entry (Suc n) idx dir m =
     (if FT_UNKNOWN = dir_type m (dir_at dir idx) then idx else free_entry n (Suc idx) dir m)"

text \<open>\<open>strcpy\<close> of the name into the entry, and \<open>assert(dir_idx < ROOT_DIR_MAX)\<close>.\<close>

definition add_entry :: "ptr \<Rightarrow> nat \<Rightarrow> u8 list \<Rightarrow> u32 \<Rightarrow> ptr \<Rightarrow> mem \<Rightarrow> mem" where
  "add_entry dir idx name no inode m =
     (let m1 = put_dirent (dir_at dir idx) (name @ [0]) no m
      in store32 m1 (inode + 4) (load32 m1 (inode + 4) + sizeof_dirent))"

definition add_to_root :: "u8 list \<Rightarrow> u32 \<Rightarrow> 'd fs_state \<Rightarrow> stop + 'd fs_state" where
  "add_to_root name no s =
     (let dir = i_block0 (bytes_in s) (root_dir_inode s);
          dir_idx = free_entry ROOT_DIR_MAX 0 dir (bytes_in s)
      in if dir_idx < ROOT_DIR_MAX then Inr (on_mem (add_entry dir dir_idx name no (root_dir_inode s)) s)
         else Inl Panic)"

text \<open>Three stretches of \<open>fs_mount\<close> before the root directory: the inode part, the block part, and the
  list, lock and inode numbers.\<close>

definition mount_inodes :: "'d platform \<Rightarrow> ptr \<Rightarrow> ptr \<Rightarrow> 'd fs_state \<Rightarrow> stop + 'd fs_state" where
  "mount_inodes P ptn sb s =
     (let b = get_super (bytes_in s) sb;
          s = set_ptn ptn (\<lambda>p. p\<lparr>inode_cnt := sb_inode_cnt b, inode_btmp_lba := sb_inode_btmp_lba b,
            inode_btmp := (inode_btmp p)\<lparr>len := sb_inode_btmp_sec b * SECTOR_SIZE\<rparr>\<rparr>) s
      in rbind (malloc_st (len (inode_btmp (ptn_at s ptn))) s) (\<lambda>(bits, s).
       let s = set_ptn ptn (\<lambda>p. p\<lparr>inode_btmp := (inode_btmp p)\<lparr>bits := bits\<rparr>\<rparr>) s
       in rbind (ide_read P (ptn_hd (ptn_at s ptn)) (inode_btmp_lba (ptn_at s ptn)) (bitmap.bits (blk_btmp (ptn_at s ptn)))
             (sb_inode_btmp_sec (get_super (bytes_in s) sb)) s) (\<lambda>s.
       Inr (set_ptn ptn (\<lambda>p. p\<lparr>inode_table_lba := sb_inode_table_lba (get_super (bytes_in s) sb)\<rparr>) s))))"

definition mount_blocks :: "'d platform \<Rightarrow> ptr \<Rightarrow> ptr \<Rightarrow> 'd fs_state \<Rightarrow> stop + 'd fs_state" where
  "mount_blocks P ptn sb s =
     (let b = get_super (bytes_in s) sb;
          s = set_ptn ptn (\<lambda>p. p\<lparr>blk_btmp_lba := sb_blk_btmp_lba b,
            blk_btmp := (blk_btmp p)\<lparr>len := sb_blk_btmp_sec b * SECTOR_SIZE\<rparr>\<rparr>) s
      in rbind (malloc_st (len (blk_btmp (ptn_at s ptn))) s) (\<lambda>(bits, s).
       let s = set_ptn ptn (\<lambda>p. p\<lparr>blk_btmp := (blk_btmp p)\<lparr>bits := bits\<rparr>\<rparr>) s
       in rbind (ide_read P (ptn_hd (ptn_at s ptn)) (blk_btmp_lba (ptn_at s ptn)) (bitmap.bits (blk_btmp (ptn_at s ptn)))
             (sb_blk_btmp_sec (get_super (bytes_in s) sb)) s) (\<lambda>s.
       Inr (set_ptn ptn (\<lambda>p. p\<lparr>blk_lba := sb_blk_lba (get_super (bytes_in s) sb)\<rparr>) s))))"

definition mount_base :: "ptr \<Rightarrow> ptr \<Rightarrow> 'd fs_state \<Rightarrow> 'd fs_state" where
  "mount_base ptn sb s =
     (let s = set_ptn ptn (\<lambda>p. p\<lparr>ptn_mlock := NULL\<rparr>) (s\<lparr>ptn_nodes := list_init (ptn_nodes s) (ptn_open_inodes ptn)\<rparr>)
      in if 0 = inode_base (ptn_at s ptn)
         then (set_ptn ptn (\<lambda>p. p\<lparr>inode_base := inode_max s + 1\<rparr>) s)
           \<lparr>inode_max := inode_max s + sb_inode_cnt (get_super (bytes_in s) sb)\<rparr>
         else s)"

definition fs_mount :: "'d platform \<Rightarrow> ptr \<Rightarrow> 'd fs_state \<Rightarrow> stop + 'd fs_state" where
  "fs_mount P ptn s =
     rbind (malloc_st sizeof_super_block s) (\<lambda>(sb, s).
     rbind (ide_read P (ptn_hd (ptn_at s ptn)) (start_lba (ptn_at s ptn) + 1) sb 1 s) (\<lambda>s.
     rbind (mount_inodes P ptn sb s) (\<lambda>s.
     rbind (mount_blocks P ptn sb s) (\<lambda>s.
       let s = mount_base ptn sb s
       in rbind (add_to_root (ptn_name (ptn_at s ptn)) (inode_base (ptn_at s ptn)) s) (free_st sb)))))"

fun named_entry :: "nat \<Rightarrow> nat \<Rightarrow> ptr \<Rightarrow> u8 list \<Rightarrow> mem \<Rightarrow> nat" where
  "named_entry 0 idx dir name m = idx"
| "named_entry (Suc n) idx dir name m =
     (if dir_named m (dir_at dir idx) name then idx else named_entry n (Suc idx) dir name m)"

definition fs_unmount :: "ptr \<Rightarrow> 'd fs_state \<Rightarrow> 'd fs_state" where
  "fs_unmount ptn s =
     (let dir = i_block0 (bytes_in s) (root_dir_inode s);
          dir_idx = named_entry ROOT_DIR_MAX 0 dir (ptn_name (ptn_at s ptn)) (bytes_in s);
          size_at = root_dir_inode s + 4
      in if dir_idx < ROOT_DIR_MAX
         then on_mem (\<lambda>m. let m1 = store32 m (dir_at dir dir_idx + 20) FT_UNKNOWN
                in store32 m1 size_at (load32 m1 size_at - sizeof_dirent)) s
         else s)"

section \<open>Start-up\<close>

text \<open>
  \<open>memset(dir, 0, BLOCK_SIZE)\<close> clears 4096 bytes from \<open>root_blk\<close> on, an array of 240: whatever static data
  starts behind it goes too, the block descriptors and the list of partitions where the linker put them
  there. (\<open>fs.o\<close> is the last object with variables in the link, and variables that have no address in the
  model, as \<open>ide_ch\<close>, are taken to lie in front of it.)
\<close>

definition clear_data :: "ptr \<Rightarrow> u32 \<Rightarrow> heap_state \<Rightarrow> heap_state" where
  "clear_data p n hp = (heap_memset p n hp)\<lparr>descs := (\<lambda>q. if in_range p n q
     then \<lparr>block_size = 0, blocks_per_arena = 0, d_mlock = NULL\<rparr> else descs hp q)\<rparr>"

definition clear_static :: "ptr \<Rightarrow> u32 \<Rightarrow> ('d, 'x) ide_state_scheme \<Rightarrow> ('d, 'x) ide_state_scheme" where
  "clear_static p n s = s\<lparr>heap := clear_data p n (heap s),
     ptn_nodes := (\<lambda>q. if in_range p n q then \<lparr>prev = NULL, nxt = NULL\<rparr> else ptn_nodes s q)\<rparr>"

definition root_dir_init :: "ptr \<Rightarrow> 'd fs_state \<Rightarrow> stop + 'd fs_state" where
  "root_dir_init rb s =
     rbind (malloc_st sizeof_inode_sys s) (\<lambda>(inode, s).
       Inr ((on_mem (\<lambda>m. store32 (put_words inode [0, sizeof_dirent * 2, rb] (put_dots rb m)) (inode + 60) 0)
           (clear_static rb BLOCK_SIZE s))
         \<lparr>root_dir_inode := inode, root_dir_pos := 0\<rparr>))"

text \<open>The walk over the partitions, on \<open>fuel\<close> rounds.\<close>

fun fs_init_loop :: "nat \<Rightarrow> 'd platform \<Rightarrow> ptr \<Rightarrow> ptr \<Rightarrow> ptr \<Rightarrow> 'd fs_state \<Rightarrow> stop + 'd fs_state" where
  "fs_init_loop 0 P sb_at sb_buf cur_elem s = Inl Hang"
| "fs_init_loop (Suc fuel) P sb_at sb_buf cur_elem s =
     (if cur_elem = list_tail (ptn_list_at P) then Inr s
      else let ptn = elem2entry (ptn_tag 0) cur_elem
        in rbind (ide_read P (ptn_hd (ptn_at s ptn)) (start_lba (ptn_at s ptn) + 1) sb_buf 1 s) (\<lambda>s.
           rbind (if FS_MAGIC \<noteq> sb_magic (get_super (bytes_in s) sb_buf) then fs_format P sb_at ptn s else Inr s) (\<lambda>s.
           rbind (fs_mount P ptn s) (\<lambda>s. fs_init_loop fuel P sb_at sb_buf (nxt (ptn_nodes s cur_elem)) s))))"

definition fs_init :: "nat \<Rightarrow> 'd platform \<Rightarrow> ptr \<Rightarrow> ptr \<Rightarrow> 'd fs_state \<Rightarrow> stop + 'd fs_state" where
  "fs_init fuel P rb sb_at s =
     rbind (root_dir_init rb s) (\<lambda>s.
       if list_empty (ptn_nodes s) (ptn_list_at P) then Inr s
       else rbind (malloc_st SECTOR_SIZE s) (\<lambda>(sb_buf, s).
         rbind (fs_init_loop fuel P sb_at sb_buf (nxt (ptn_nodes s (ptn_list_at P))) s) (free_st sb_buf)))"

section \<open>The layout of a partition\<close>

text \<open>The layout computed for a partition of 523 sectors up to 4 GB, in plain numbers.\<close>

definition blk_sectors :: "nat \<Rightarrow> nat" where
  "blk_sectors secs = ((secs - 515) div 8 + 4095) div 4096"

lemma inode_counts: "INODE_CNT_MAX = 4096" "SECTOR_SIZE * 8 = 4096" "INODE_CNT_MAX div INODE_PER_SEC = 512"
proof -
  have "unat ((512 :: u32) div 60) = unat (8 :: u32)" unfolding unat_div by simp
  then have "(512 :: u32) div 60 = 8" by (rule unsigned_word_eqI)
  then have p: "INODE_PER_SEC = 8" unfolding INODE_PER_SEC_def SECTOR_SIZE_def sizeof_inode_hd_def .
  have "unat ((4096 :: u32) div 8) = unat (512 :: u32)" unfolding unat_div by simp
  then have "(4096 :: u32) div 8 = 512" by (rule unsigned_word_eqI)
  moreover have "INODE_CNT_MAX = 4096" by (simp add: INODE_CNT_MAX_def SECTOR_SIZE_def)
  ultimately show "INODE_CNT_MAX div INODE_PER_SEC = 512" unfolding p by metis
qed (simp_all add: INODE_CNT_MAX_def SECTOR_SIZE_def)

lemma format_super_const [simp]:
  "sb_magic (format_super p) = FS_MAGIC" "sb_inode_cnt (format_super p) = 4096" "sb_inode_btmp_lba (format_super p) = start_lba p + 2"
  "sb_inode_btmp_sec (format_super p) = 1" "sb_inode_table_lba (format_super p) = start_lba p + 3"
  "sb_inode_table_sec (format_super p) = 512" "sb_blk_btmp_lba (format_super p) = start_lba p + 515"
  "sb_blk_lba (format_super p) = start_lba p + 515 + sb_blk_btmp_sec (format_super p)"
  unfolding format_super_def Let_def inode_counts(3) by (simp_all add: inode_counts(1,2) algebra_simps)

lemma blocks_of:
  fixes x :: u32
  assumes "unat x < 2 ^ 23"
  shows "unat (x * SECTOR_SIZE div BLOCK_SIZE) = unat x div 8"
proof -
  have "unat (x * SECTOR_SIZE) = unat x * 512"
    using assms by (subst unat_mult_small) (simp_all add: SECTOR_SIZE_def)
  then have "unat (x * SECTOR_SIZE div BLOCK_SIZE) = unat x * 512 div 4096" by (simp add: unat_div BLOCK_SIZE_def)
  also have "\<dots> = unat x div 8" by (simp add: div_mult2_eq [of "unat x * 512" 512 8, simplified])
  finally show ?thesis .
qed

lemma format_sizes:
  assumes "523 \<le> unat (sec_cnt p)" and "unat (sec_cnt p) < 2 ^ 23"
  shows "unat (sb_blk_btmp_sec (format_super p)) = blk_sectors (unat (sec_cnt p))"
    and "unat (sb_blk_cnt (format_super p)) = (unat (sec_cnt p) - 515 - blk_sectors (unat (sec_cnt p))) div 8"
proof -
  let ?free = "sec_cnt p - 515" and ?n = "unat (sec_cnt p)"
  have free: "unat ?free = ?n - 515" using assms(1) by (subst unat_sub_small) simp_all
  have b: "unat (?free * SECTOR_SIZE div BLOCK_SIZE) = (?n - 515) div 8"
    using assms(2) by (subst blocks_of) (simp_all add: free)
  have sec: "sb_blk_btmp_sec (format_super p) = DIV_ROUND_UP (?free * SECTOR_SIZE div BLOCK_SIZE) 4096"
    "sb_blk_cnt (format_super p) = (?free - DIV_ROUND_UP (?free * SECTOR_SIZE div BLOCK_SIZE) 4096) * SECTOR_SIZE div BLOCK_SIZE"
    unfolding format_super_def Let_def inode_counts(3) by (simp_all add: inode_counts(1,2))
  have "unat (DIV_ROUND_UP (?free * SECTOR_SIZE div BLOCK_SIZE) 4096) = ((?n - 515) div 8 + 4096 - 1) div 4096"
    using DIV_ROUND_UP_unat [of "?free * SECTOR_SIZE div BLOCK_SIZE" 4096] assms(2) unfolding b by simp
  then have r: "unat (DIV_ROUND_UP (?free * SECTOR_SIZE div BLOCK_SIZE) 4096) = blk_sectors ?n" by (simp add: blk_sectors_def)
  then show "unat (sb_blk_btmp_sec (format_super p)) = blk_sectors ?n" unfolding sec .
  have le: "blk_sectors ?n \<le> ?n - 515" using assms(1) unfolding blk_sectors_def by linarith
  have "unat (?free - DIV_ROUND_UP (?free * SECTOR_SIZE div BLOCK_SIZE) 4096) = ?n - 515 - blk_sectors ?n"
    using le by (subst unat_sub_small) (simp_all add: free r)
  then show "unat (sb_blk_cnt (format_super p)) = (?n - 515 - blk_sectors ?n) div 8"
    unfolding sec using assms(2) by (subst blocks_of) simp_all
qed

lemma blk_sectors_bounds: "523 \<le> n \<Longrightarrow> n < 2 ^ 23 \<Longrightarrow> 1 \<le> blk_sectors n \<and> blk_sectors n \<le> 256"
proof -
  assume n: "523 \<le> n" "n < 2 ^ 23"
  then have "1 \<le> (n - 515) div 8" "(n - 515) div 8 \<le> 2 ^ 20" by simp_all
  then show ?thesis
    using div_le_mono [of "4096" "(n - 515) div 8 + 4095" 4096] div_le_mono [of "(n - 515) div 8 + 4095" "2 ^ 20 + 4095" 4096]
    unfolding blk_sectors_def by simp
qed

section \<open>Device and memory steps\<close>

lemma disk_ready_cong:
  assumes "hw s' = hw s" and "ide_ch s' = ide_ch s"
  shows "disk_ready bt n h f s' = disk_ready bt n h f s"
  using assms by (simp add: disk_ready_def wired_def hd_of_def chan_of_def is_slave_def)

lemma disk_ready_one: "disk_ready bt n h f s \<Longrightarrow> disk_ready 1 n h f s"
  by (simp add: disk_ready_def)

lemma on_mem_fields [simp]:
  "hw (on_mem g s) = hw s" "ide_ch (on_mem g s) = ide_ch s" "heap (on_mem g s) = (heap s)\<lparr>hbytes := g (bytes_in s)\<rparr>"
  "ptn_at (on_mem g s) = ptn_at s" "ptn_nodes (on_mem g s) = ptn_nodes s" "ide_state.more (on_mem g s) = ide_state.more s"
  by (simp_all add: on_mem_def)

text \<open>What the transfer routines and the heap leave alone.\<close>

definition same_files :: "('d, 'x) ide_state_scheme \<Rightarrow> ('d, 'x) ide_state_scheme \<Rightarrow> bool" where
  "same_files s s' \<longleftrightarrow> ptn_at s' = ptn_at s \<and> ptn_nodes s' = ptn_nodes s \<and> ide_state.more s' = ide_state.more s"

lemma same_files_trans: "same_files s t \<Longrightarrow> same_files t u \<Longrightarrow> same_files s u"
  by (simp add: same_files_def)

lemma write_step:
  assumes "disk_ready bt (c + n) h f s" and "unat cnt = c" and "0 < c" and "c \<le> 256" and "unat lba = l" and "l < 2 ^ 28"
    and "2 \<le> bt" and "c \<le> bt"
  obtains s' where "ide_write (ata_platform pl ih) h lba src cnt (on_mem g s) = Inr s'"
    and "disk_ready bt n h (put_sectors l c (g (bytes_in s)) src f) s'"
    and "heap s' = (heap s)\<lparr>hbytes := g (bytes_in s)\<rparr>" and "same_files s s'"
proof -
  have "disk_ready bt (c + n) h f (on_mem g s)" using assms(1) disk_ready_cong [of "on_mem g s" s bt "c + n" h f] by simp
  moreover have "0 < cnt" "cnt \<le> 256" using assms(2-4) by (simp_all add: word_less_nat_alt word_le_nat_alt)
  moreover have "gap (hw (on_mem g s)) = 0" using assms(1,7) by (simp add: disk_ready_def)
  ultimately show thesis
    using write_disk [of bt "c + n" h f "on_mem g s" cnt lba pl ih src] that assms(2,5,6,8) by (force simp: drv_def same_files_def)
qed

lemma read_step:
  assumes "disk_ready bt (c + n) h f s" and "unat cnt = c" and "c \<le> 256" and "unat lba = l" and "l < 2 ^ 28"
    and "c \<le> bt"
  obtains s' where "ide_read (ata_platform pl ih) h lba dst cnt s = Inr s'" and "disk_ready bt n h f s'"
    and "heap s' = (heap s)\<lparr>hbytes := store_bytes (bytes_in s) dst (concat (map f [l..<l + c]))\<rparr>" and "same_files s s'"
  using read_disk [OF assms(1), of cnt lba pl ih dst] read_image_short [of c f l] that assms(2-6)
  by (force simp: drv_def same_files_def)

text \<open>Allocation within the budget of the heap, and release.\<close>

lemma malloc_step:
  assumes "heap_rep L (heap s)" and "in_budget (cost sz + q) (heap s)" and "modest sz" and "disk_ready bt n h f s"
  obtains p hp k where "malloc_st sz s = Inr (p, s\<lparr>heap := hp\<rparr>)" and "heap_rep (insert (p, k) L) hp"
    and "unat sz \<le> k" and "fresh_region L p k (heap s) hp" and "in_budget q hp" and "disk_ready bt n h f (s\<lparr>heap := hp\<rparr>)"
    and "lingers hp = lingers (heap s)"
proof -
  obtain p k hp where "sys_malloc sz (heap s) = Inr (p, hp)" "unat sz \<le> k" "heap_rep (insert (p, k) L) hp"
      "fresh_region L p k (heap s) hp" "in_budget q hp"
    using malloc_budget [OF assms(1-3)] by blast
  then show thesis
    using that disk_ready_cong [of "s\<lparr>heap := hp\<rparr>" s bt n h f] sys_malloc_lingers(1) [of sz "heap s" p hp] assms(4)
    by (simp add: malloc_st_def)
qed

lemma free_step:
  assumes "heap_rep L (heap s)" and "(p, k) \<in> L" and "in_budget q (heap s)" and "disk_ready bt n h f s"
    and "lingers (heap s)"
  obtains hp where "free_st p s = Inr (s\<lparr>heap := hp\<rparr>)" and "heap_rep (L - {(p, k)}) hp" and "hbytes hp = bytes_in s"
    and "in_budget q hp" and "disk_ready bt n h f (s\<lparr>heap := hp\<rparr>)" and "lingers hp"
proof -
  obtain hp where hp: "sys_free p (heap s) = Inr hp" "heap_rep (L - {(p, k)}) hp" "hbytes hp = bytes_in s"
    using heap.release [OF assms(1,2)] assms(5) by blast
  then have "in_budget q hp" using free_budget [OF assms(1,2) _ assms(3)] by blast
  then show thesis using that hp assms(5) sys_free_lingers [OF hp(1)] disk_ready_cong [of "s\<lparr>heap := hp\<rparr>" s bt n h f] assms(4) by (simp add: free_st_def)
qed

text \<open>Clearing static data that holds neither a descriptor nor a part of the heap.\<close>

definition spares :: "ptr \<Rightarrow> heap_state \<Rightarrow> bool" where
  "spares p hp \<longleftrightarrow> unat (k_mem_block hp) + 336 \<le> unat p \<or> unat p + 4096 \<le> unat (k_mem_block hp)"

lemma heap_rep_clear:
  assumes rep: "heap_rep L hp" and high: "unat p + 4096 \<le> 0xC0100000" and off: "spares p hp"
  shows "heap_rep L (clear_data p 4096 hp)"
proof -
  let ?hp = "clear_data p 4096 hp" and ?m = "k_mem_block hp"
  obtain own big fl where free: "descs_free hp" and inv: "heap_inv {} own big fl hp" and L: "L = live own big fl"
    using rep by (auto simp: heap_rep_def)
  note ok = heap_invD(2) [OF inv]
  have lo: "low ?m" using ok by (simp add: lists_ok_def)
  have rng: "in_range p 4096 q \<longleftrightarrow> unat p \<le> unat q \<and> unat q < unat p + 4096" for q
    using in_range_unat [of p 4096 q] high by simp
  have ends: "\<not> in_range p 4096 q" if "unat ?m \<le> unat q" "unat q < unat ?m + 336" for q
    using that off by (auto simp: rng spares_def)
  have d: "\<not> in_range p 4096 (dsc ?m i)" if "i < 7" for i
    using dsc_unat(1) [OF lo that] that by (intro ends) simp_all
  have pg: "\<not> in_range p 4096 (heap_page k)" if "k < HEAP_PAGES" for k
    using high that by (simp add: rng heap_page_unat)
  have h: "lists_ok ?m own fl (hnodes ?hp)"
  proof (rule lists_outside [OF ok, where A = "{q. in_range p 4096 q}"])
    fix i b assume i: "i < (7 :: nat)" and b: "b \<in> set (fl i)"
    obtain k where k: "own k = Some i" "b \<in> blks i k" using lists_okD(4) [OF ok i b] by blast
    obtain j where "b = blk i k j" "j < BPA i" using k(2) by (rule blksE)
    then show "b \<notin> {q. in_range p 4096 q}" using blk_unat [of i k j] lists_okD(2) [OF ok k(1)] high by (simp add: rng)
  next
    fix i q assume "i < (7 :: nat)" "q \<in> fends ?m i"
    then have "unat ?m \<le> unat q \<and> unat q < unat ?m + 336" using fends_unat [OF lo, of i q] by auto
    then show "q \<notin> {q. in_range p 4096 q}" using ends by simp
  qed (simp add: clear_data_def heap_memset_def)
  have "heap_inv {} own big fl ?hp"
  proof (rule heap_invI)
    show "descs_ok ?hp" using heap_invD(3) [OF inv] d by (simp add: descs_ok_def clear_data_def)
    fix k i assume k: "own k = Some i"
    show "arenas ?hp (heap_page k) = arena_hdr (k_mem_block ?hp) i (free_in fl i k)"
      using heap_invD(6) [OF inv k] pg [OF heap_invD(11) [OF inv k]] by (simp add: clear_data_def heap_memset_def)
  next
    fix k n assume b: "big k = Some n"
    show "arenas ?hp (heap_page k) = big_hdr n"
      using heap_invD(9) [OF inv b] pg big_page(3) [OF inv b] by (simp add: clear_data_def heap_memset_def)
  qed (use inv h in \<open>simp_all add: heap_inv_def clear_data_def\<close>)
  moreover have "descs_free ?hp" using free d by (simp add: descs_free_def clear_data_def)
  ultimately show ?thesis using L by (auto simp: heap_rep_def)
qed

lemma clear_static_fields [simp]:
  "hw (clear_static p n s) = hw s" "ide_ch (clear_static p n s) = ide_ch s" "ptn_at (clear_static p n s) = ptn_at s"
  "ide_state.more (clear_static p n s) = ide_state.more s" "heap (clear_static p n s) = clear_data p n (heap s)"
  "hbytes (clear_data p n hp) = memset (hbytes hp) p 0 n" "mm (clear_data p n hp) = mm hp" "lingers (clear_data p n hp) = lingers hp"
  "k_mem_block (clear_data p n hp) = k_mem_block hp"
  by (simp_all add: clear_static_def clear_data_def heap_memset_def)

section \<open>Structures in memory\<close>

lemma offset_words: "i < 2 ^ 32 \<Longrightarrow> unat (p + of_nat i - p :: u32) = i"
  by (simp add: unat_of_nat_less)

lemma store32_outside: "4 \<le> unat (q - p) \<Longrightarrow> store32 m p w q = m q"
  by (rule store32_other) (simp add: word_le_nat_alt)

lemma put_words_other: "4 * length ws \<le> unat (q - p) \<Longrightarrow> put_words p ws m q = m q"
proof (induction ws arbitrary: p m)
  case (Cons w ws)
  have "unat (q - (p + 4)) = unat (q - p) - 4"
    using Cons.prems unat_sub_small [of 4 "q - p"] by (simp add: diff_diff_eq)
  then show ?case using Cons by (simp add: store32_outside)
qed simp

lemma load32_cong: "(\<And>i. i < 4 \<Longrightarrow> m (p + of_nat i) = m' (p' + of_nat i)) \<Longrightarrow> load32 m p = load32 m' p'"
proof -
  assume a: "\<And>i. i < 4 \<Longrightarrow> m (p + of_nat i) = m' (p' + of_nat i)"
  show ?thesis using a [of 0] a [of 1] a [of 2] a [of 3] by (simp add: load32_def)
qed

lemma load32_put_words:
  "i < length ws \<Longrightarrow> 4 * length ws < 2 ^ 32 \<Longrightarrow> load32 (put_words p ws m) (p + 4 * of_nat i) = ws ! i"
proof (induction ws arbitrary: p m i)
  case (Cons w ws)
  show ?case
  proof (cases i)
    case 0
    have "put_words (p + 4) ws (store32 m p w) (p + of_nat j) = store32 m p w (p + of_nat j)" if "j < 4" for j
    proof (rule put_words_other)
      have e: "p + of_nat j - (p + 4) = - of_nat (4 - j :: nat)" using that by (simp add: of_nat_diff)
      have "unat (p + of_nat j - (p + 4)) = 2 ^ 32 - (4 - j)"
        unfolding e by (rule unat_minus_of_nat) (use that in simp_all)
      then show "4 * length ws \<le> unat (p + of_nat j - (p + 4))" using Cons.prems(2) by simp
    qed
    then have "load32 (put_words (p + 4) ws (store32 m p w)) p = load32 (store32 m p w) p" by (rule load32_cong)
    then show ?thesis using 0 by (simp add: load32_store32)
  next
    case (Suc j)
    then show ?thesis using Cons.IH [of j "p + 4" "store32 m p w"] Cons.prems by (simp add: algebra_simps)
  qed
qed simp

lemma super_roundtrip: "get_super (put_super p b m) p = b"
proof -
  let ?ws = "[sb_magic b, sb_inode_cnt b, sb_inode_btmp_lba b, sb_inode_btmp_sec b, sb_inode_table_lba b,
     sb_inode_table_sec b, sb_blk_cnt b, sb_blk_btmp_lba b, sb_blk_btmp_sec b, sb_blk_lba b]"
  have "load32 (put_super p b m) (p + 4 * of_nat i) = ?ws ! i" if "i < 10" for i
    unfolding put_super_def using that by (intro load32_put_words) simp_all
  from this [of 0] this [of 1] this [of 2] this [of 3] this [of 4] this [of 5] this [of 6] this [of 7] this [of 8] this [of 9]
  show ?thesis by (simp add: get_super_def)
qed

text \<open>A sector as memory at address 0.\<close>

definition sector_mem :: "u8 list \<Rightarrow> mem" where
  "sector_mem bs q = bs ! unat q"

lemma sector_byte: "unat q < n \<Longrightarrow> sector_mem (mem_bytes m p n) q = m (p + q)"
  by (simp add: sector_mem_def mem_bytes_def)

lemma sector_load: "unat ofs + 4 \<le> n \<Longrightarrow> n < 2 ^ 32 \<Longrightarrow> load32 (sector_mem (mem_bytes m p n)) ofs = load32 m (p + ofs)"
proof (rule load32_cong)
  fix i :: nat assume a: "unat ofs + 4 \<le> n" "n < 2 ^ 32" "i < 4"
  then have "unat (ofs + of_nat i) = unat ofs + i" by (subst unat_add_small) (simp_all add: unat_of_nat_less)
  then show "sector_mem (mem_bytes m p n) (ofs + of_nat i) = m (p + ofs + of_nat i)"
    using a by (simp add: sector_byte add.assoc)
qed

lemma sector_super: "get_super (sector_mem (mem_bytes m p 512)) 0 = get_super m p"
  by (simp add: get_super_def sector_load)

section \<open>The block bitmap\<close>

lemma clear_bits_other: "q \<noteq> p \<Longrightarrow> clear_bits n idx p m q = m q"
  by (induction n arbitrary: idx m) simp_all

lemma clear_bits_bit: "bit (clear_bits n idx p m p) r \<longleftrightarrow> bit (m p) r \<and> \<not> (idx \<le> r \<and> r < idx + n)"
proof (induction n arbitrary: idx m)
  case (Suc n)
  have "bit (m p AND NOT (push_bit idx 1)) r \<longleftrightarrow> bit (m p) r \<and> r \<noteq> idx"
    by (auto simp: bit_simps dest: bit_imp_le_length)
  then show ?case using Suc [of "Suc idx"] by auto
qed simp

lemma ones_bit: "r < 8 \<Longrightarrow> bit (0xFF :: u8) r"
proof -
  assume "r < 8"
  then have "bit (mask 8 :: u8) r" by (simp add: bit_simps)
  moreover have "(0xFF :: u8) = mask 8" by (simp add: mask_eq_exp_minus_1)
  ultimately show ?thesis by simp
qed

text \<open>Where the number of blocks ends in the last sector of the bitmap: the bits in use are bit 0 and those
  behind bit \<open>c\<close>.\<close>

lemma mark_tail_eq:
  assumes "unat c div 4096 + 1 = k" and "k \<le> 256"
  shows "unat c div 8 < 512 * k" and "unat c div 8 + (512 - unat c div 8 mod 512) = 512 * k"
    and "mark_tail buf c m = clear_bits (Suc (unat c mod 8)) 0 (buf + of_nat (unat c div 8))
      (memset m (buf + of_nat (unat c div 8)) 0xFF (of_nat (512 - unat c div 8 mod 512)))"
proof -
  define lb where "lb = unat c div 8"
  have lbk: "lb div 512 + 1 = k" using assms(1) by (simp add: lb_def div_mult2_eq [symmetric])
  have lbw: "c div 8 = of_nat lb" using of_nat_of_unat [of "c div 8" lb] by (simp add: unat_div lb_def)
  show lt: "unat c div 8 < 512 * k" using lbk lb_def by linarith
  then have small: "lb < 2 ^ 17" using assms(2) lb_def by simp
  have "unat (SECTOR_SIZE - of_nat lb mod SECTOR_SIZE) = 512 - lb mod 512"
    using small by (subst unat_sub_small) (simp_all add: SECTOR_SIZE_def unat_mod unat_of_nat_less)
  then have sz: "SECTOR_SIZE - of_nat lb mod SECTOR_SIZE = of_nat (512 - lb mod 512)" by (rule of_nat_of_unat [symmetric])
  show "unat c div 8 + (512 - unat c div 8 mod 512) = 512 * k"
    unfolding lb_def [symmetric] using lbk div_mult_mod_eq [of lb 512] mod_less_divisor [of 512 lb] by linarith
  have last: "unat (c mod 8) = unat c mod 8" by (simp add: unat_mod)
  show "mark_tail buf c m = clear_bits (Suc (unat c mod 8)) 0 (buf + of_nat (unat c div 8))
      (memset m (buf + of_nat (unat c div 8)) 0xFF (of_nat (512 - unat c div 8 mod 512)))"
    unfolding lb_def [symmetric] by (simp only: mark_tail_def Let_def lbw last sz)
qed

lemma mark_tail_bits:
  assumes c: "8 \<le> unat c" "unat c div 4096 + 1 = k" and k: "k \<le> 256" and j: "j < 512 * k" and r: "r < 8"
  shows "bit (mark_tail buf c ((memset m buf 0 (of_nat (512 * k)))(buf := 1)) (buf + of_nat j)) r \<longleftrightarrow>
    8 * j + r = 0 \<or> unat c < 8 * j + r"
proof -
  let ?M = "(memset m buf 0 (of_nat (512 * k)))(buf := 1)"
  define lb where "lb = unat c div 8"
  note mt = mark_tail_eq [OF c(2) k, folded lb_def]
  have lb1: "1 \<le> lb" using c(1) by (simp add: lb_def)
  have lt: "lb < 512 * k" and e: "lb + (512 - lb mod 512) = 512 * k" by (rule mt(1,2))+
  have small: "j < 2 ^ 17" "lb < 2 ^ 17" using k j lt by simp_all
  have M: "memset ?M (buf + of_nat lb) 0xFF (of_nat (512 - lb mod 512)) (buf + of_nat j) = (if lb \<le> j then 0xFF else ?M (buf + of_nat j))"
    using offset_in_run [of j lb "512 - lb mod 512"] small j e by (simp add: memset_apply in_range_def)
  have z: "?M (buf + of_nat j) = (if j = 0 then 1 else 0)"
    using offset_in_run [of j 0 "512 * k"] small j k of_nat_u32_inj [of j 0] by (simp add: memset_apply in_range_def)
  have same: "buf + of_nat lb = buf + of_nat j \<longleftrightarrow> lb = j" using of_nat_u32_inj [of lb j] small by simp
  have split: "unat c = 8 * lb + unat c mod 8" by (simp add: lb_def)
  consider "j < lb" | "j = lb" | "lb < j" by linarith
  then show ?thesis
  proof cases
    case 1
    then have "\<not> unat c < 8 * j + r" using split r by linarith
    then show ?thesis using 1 same M z unfolding mt(3) by (simp add: clear_bits_other bit_1_iff)
  next
    case 2
    then have f: "memset ?M (buf + of_nat lb) 0xFF (of_nat (512 - lb mod 512)) (buf + of_nat lb) = 0xFF" using M by simp
    have "(\<not> (0 \<le> r \<and> r < 0 + Suc (unat c mod 8))) \<longleftrightarrow> 8 * lb + r = 0 \<or> unat c < 8 * lb + r"
      using split lb1 by linarith
    then show ?thesis unfolding mt(3) 2 clear_bits_bit f using ones_bit [OF r] by blast
  next
    case 3
    then have "unat c < 8 * j + r" using split r mod_less_divisor [of 8 "unat c"] by linarith
    then show ?thesis using 3 same M ones_bit [OF r] unfolding mt(3) by (simp add: clear_bits_other)
  qed
qed

section \<open>Directory entries\<close>

text \<open>Memory at offsets from a structure.\<close>

lemma offset_diff:
  assumes "i < 2 ^ 31" and "c < 2 ^ 31"
  shows "unat (d + of_nat i - (d + of_nat c) :: u32) = (if c \<le> i then i - c else 2 ^ 32 - (c - i))"
proof (cases "c \<le> i")
  case True
  then have e: "d + of_nat i - (d + of_nat c) = (of_nat (i - c) :: u32)" by simp
  show ?thesis using True assms unfolding e by (subst unat_of_nat_less) simp_all
next
  case False
  then have e: "d + of_nat i - (d + of_nat c) = (- of_nat (c - i) :: u32)" by simp
  show ?thesis using False assms unfolding e by (subst unat_minus_of_nat) simp_all
qed

lemma store_bytes_at:
  "i < 2 ^ 31 \<Longrightarrow> c < 2 ^ 31 \<Longrightarrow> length bs < 2 ^ 31 \<Longrightarrow>
   store_bytes m (d + of_nat c) bs (d + of_nat i) = (if c \<le> i \<and> i < c + length bs then bs ! (i - c) else m (d + of_nat i))"
  by (simp only: store_bytes_def offset_diff) auto

lemma store32_at_other:
  "i < 2 ^ 31 \<Longrightarrow> c < 2 ^ 31 \<Longrightarrow> \<not> (c \<le> i \<and> i < c + 4) \<Longrightarrow> store32 m (d + of_nat c) w (d + of_nat i) = m (d + of_nat i)"
  by (rule store32_outside) (simp only: offset_diff, auto)

lemma load32_at_cong:
  "(\<And>i. c \<le> i \<Longrightarrow> i < c + 4 \<Longrightarrow> m (d + of_nat i) = m' (d + of_nat i)) \<Longrightarrow> load32 m (d + of_nat c) = load32 m' (d + of_nat c)"
proof (rule load32_cong)
  fix i :: nat assume "i < 4" and "\<And>i. c \<le> i \<Longrightarrow> i < c + 4 \<Longrightarrow> m (d + of_nat i) = m' (d + of_nat i)"
  then show "m (d + of_nat c + of_nat i) = m' (d + of_nat c + of_nat i)" using \<open>i < 4\<close> by (simp add: add.assoc flip: of_nat_add)
qed

lemma put_dirent_offsets:
  "put_dirent d name no m = store32 (store32 (store_bytes m (d + of_nat 4) name) (d + of_nat 0) no) (d + of_nat 20) FT_DIR"
  by (simp add: put_dirent_def)

lemma put_dirent_other:
  assumes "\<not> (c \<le> i \<and> i < c + 24)" and "i < 2 ^ 31" and "c < 2 ^ 30" and "length name \<le> 16"
  shows "put_dirent (d + of_nat c) name no m (d + of_nat i) = m (d + of_nat i)"
proof -
  have e: "put_dirent (d + of_nat c) name no m =
      store32 (store32 (store_bytes m (d + of_nat (c + 4)) name) (d + of_nat c) no) (d + of_nat (c + 20)) FT_DIR"
    by (simp add: put_dirent_def add.assoc)
  have "store_bytes m (d + of_nat (c + 4)) name (d + of_nat i) = m (d + of_nat i)" using assms by (subst store_bytes_at) auto
  moreover have "store32 x (d + of_nat c) no (d + of_nat i) = x (d + of_nat i)"
    "store32 x (d + of_nat (c + 20)) w (d + of_nat i) = x (d + of_nat i)" for x w
    by (rule store32_at_other; use assms in auto)+
  ultimately show ?thesis unfolding e by (simp only:)
qed

lemma put_dirent_no: "dir_no (put_dirent d name no m) d = no" and put_dirent_type: "dir_type (put_dirent d name no m) d = FT_DIR"
proof -
  let ?x = "store32 (store_bytes m (d + of_nat 4) name) (d + of_nat 0) no"
  have "load32 (store32 ?x (d + of_nat 20) FT_DIR) (d + of_nat 0) = load32 ?x (d + of_nat 0)"
    by (rule load32_at_cong, rule store32_at_other) simp_all
  also have "\<dots> = no" by (simp only: load32_store32)
  finally show "dir_no (put_dirent d name no m) d = no" unfolding dir_no_def put_dirent_offsets by simp
  show "dir_type (put_dirent d name no m) d = FT_DIR" unfolding dir_type_def put_dirent_def by (rule load32_store32)
qed

lemma put_dirent_name:
  assumes "length name < 16" and "m (d + of_nat (4 + length name)) = 0"
  shows "dir_named (put_dirent d name no m) d name"
proof -
  have "put_dirent d name no m (d + of_nat (4 + i)) = (name @ [0]) ! i" if "i \<le> length name" for i
  proof -
    have "store32 x (d + of_nat 0) no (d + of_nat (4 + i)) = x (d + of_nat (4 + i))"
      "store32 x (d + of_nat 20) w (d + of_nat (4 + i)) = x (d + of_nat (4 + i))" for x w
      using that assms(1) by (intro store32_at_other; simp)+
    moreover have "store_bytes m (d + of_nat 4) name (d + of_nat (4 + i)) = (name @ [0]) ! i"
      using that assms by (subst store_bytes_at) (auto simp: nth_append)
    ultimately show ?thesis unfolding put_dirent_offsets by (simp only:)
  qed
  then have "mem_bytes (put_dirent d name no m) (d + 4) (Suc (length name)) = name @ [0]"
    unfolding mem_bytes_def by (intro nth_equalityI) (simp_all add: add.assoc del: upt_Suc)
  then show ?thesis by (simp add: dir_named_def)
qed

text \<open>A directory that holds only its two dots.\<close>

definition empty_dir :: "mem \<Rightarrow> ptr \<Rightarrow> bool" where
  "empty_dir m d \<longleftrightarrow> dir_no m (dir_at d 0) = 0 \<and> dir_named m (dir_at d 0) [0x2E] \<and> dir_type m (dir_at d 0) = FT_DIR \<and>
     dir_no m (dir_at d 1) = 0 \<and> dir_named m (dir_at d 1) [0x2E, 0x2E] \<and> dir_type m (dir_at d 1) = FT_DIR \<and>
     (\<forall>i<21. 2 \<le> i \<longrightarrow> dir_type m (dir_at d i) = FT_UNKNOWN)"

lemma dir_at_offset: "dir_at d i = d + of_nat (24 * i)"
  by (simp add: dir_at_def sizeof_dirent_def)

text \<open>What is read of an entry lies in its 24 bytes.\<close>

lemma dirent_cong:
  assumes "\<And>i. c \<le> i \<Longrightarrow> i < c + 24 \<Longrightarrow> m (d + of_nat i) = m' (d + of_nat i)"
  shows "dir_no m (d + of_nat c) = dir_no m' (d + of_nat c)" "dir_type m (d + of_nat c) = dir_type m' (d + of_nat c)"
    "length name < 16 \<Longrightarrow> dir_named m (d + of_nat c) name = dir_named m' (d + of_nat c) name"
proof -
  show "dir_no m (d + of_nat c) = dir_no m' (d + of_nat c)"
    unfolding dir_no_def by (rule load32_at_cong) (rule assms, simp_all)
  have "load32 m (d + of_nat (c + 20)) = load32 m' (d + of_nat (c + 20))"
    by (rule load32_at_cong) (rule assms, simp_all)
  then show "dir_type m (d + of_nat c) = dir_type m' (d + of_nat c)" by (simp add: dir_type_def add.assoc)
  assume "length name < 16"
  then have "m (d + of_nat c + 4 + of_nat i) = m' (d + of_nat c + 4 + of_nat i)" if "i < Suc (length name)" for i
    using assms [of "c + 4 + i"] that by (simp add: add.assoc)
  then have "mem_bytes m (d + of_nat c + 4) (Suc (length name)) = mem_bytes m' (d + of_nat c + 4) (Suc (length name))"
    unfolding mem_bytes_def by (intro map_cong [OF refl]) (simp add: less_Suc_eq del: upt_Suc)
  then show "dir_named m (d + of_nat c) name = dir_named m' (d + of_nat c) name"
    by (simp only: dir_named_def)
qed

lemma dots_empty_dir:
  assumes "\<And>i. i < 512 \<Longrightarrow> m (d + of_nat i) = 0"
  shows "empty_dir (put_dots d m) d"
proof -
  let ?m1 = "put_dirent (d + of_nat 0) [0x2E] 0 m"
  let ?m2 = "put_dirent (d + of_nat 24) [0x2E, 0x2E] 0 ?m1"
  have dots: "put_dots d m = ?m2" by (simp add: put_dots_def dir_at_offset)
  have low: "?m2 (d + of_nat i) = ?m1 (d + of_nat i)" if "i < 0 + 24" for i
    using that by (intro put_dirent_other) simp_all
  have e0: "dir_no ?m2 (d + of_nat 0) = 0" "dir_type ?m2 (d + of_nat 0) = FT_DIR" "dir_named ?m2 (d + of_nat 0) [0x2E]"
    using dirent_cong [of 0 ?m2 d ?m1] low put_dirent_no [of "d + of_nat 0"] put_dirent_type [of "d + of_nat 0"]
      put_dirent_name [of "[0x2E]" m "d + of_nat 0" 0] assms [of 5] by simp_all
  have "?m1 (d + of_nat 30) = m (d + of_nat 30)" by (rule put_dirent_other) simp_all
  then have "?m1 (d + of_nat 24 + of_nat (4 + length [0x2E :: u8, 0x2E])) = 0" using assms [of 30] by (simp add: ac_simps)
  then have e1: "dir_no ?m2 (d + of_nat 24) = 0" "dir_type ?m2 (d + of_nat 24) = FT_DIR" "dir_named ?m2 (d + of_nat 24) [0x2E, 0x2E]"
    using put_dirent_name [of "[0x2E, 0x2E]" ?m1 "d + of_nat 24" 0] by (simp_all add: put_dirent_no put_dirent_type)
  have "dir_type ?m2 (d + of_nat (24 * i)) = FT_UNKNOWN" if i: "i < 21" "2 \<le> i" for i
  proof -
    have "?m2 (d + of_nat j) = (\<lambda>_. 0) (d + of_nat j)" if "24 * i \<le> j" "j < 24 * i + 24" for j
    proof -
      have j: "48 \<le> j" "j < 512" using i that by linarith+
      then have "?m2 (d + of_nat j) = ?m1 (d + of_nat j)" "?m1 (d + of_nat j) = m (d + of_nat j)"
        by (intro put_dirent_other; simp)+
      then show ?thesis using assms [OF j(2)] by simp
    qed
    then have "dir_type ?m2 (d + of_nat (24 * i)) = dir_type (\<lambda>_. 0) (d + of_nat (24 * i))" by (rule dirent_cong(2))
    then show ?thesis by (simp add: dir_type_def load32_def FT_UNKNOWN_def)
  qed
  then show ?thesis using e0 e1 unfolding empty_dir_def dots dir_at_offset by simp
qed

lemma empty_dir_sector: "empty_dir (sector_mem (mem_bytes m p 512)) 0 = empty_dir m p"
proof -
  have b: "sector_mem (mem_bytes m p 512) (0 + of_nat i) = (\<lambda>q. m (p + q)) (0 + of_nat i)" if "i < 512" for i
    using that by (simp add: sector_byte unat_of_nat_less)
  have shift: "load32 (\<lambda>q. m (p + q)) q = load32 m (p + q)" for q by (simp add: load32_def add.assoc)
  have view: "dir_no (\<lambda>q. m (p + q)) q = dir_no m (p + q)" "dir_type (\<lambda>q. m (p + q)) q = dir_type m (p + q)"
    "dir_named (\<lambda>q. m (p + q)) q name = dir_named m (p + q) name" for q name
    by (simp_all add: dir_no_def dir_type_def dir_named_def mem_bytes_def shift add.assoc del: upt_Suc)
  have "dir_no (sector_mem (mem_bytes m p 512)) (0 + of_nat (24 * i)) = dir_no m (p + of_nat (24 * i))"
    "dir_type (sector_mem (mem_bytes m p 512)) (0 + of_nat (24 * i)) = dir_type m (p + of_nat (24 * i))"
    "length name < 16 \<Longrightarrow> dir_named (sector_mem (mem_bytes m p 512)) (0 + of_nat (24 * i)) name = dir_named m (p + of_nat (24 * i)) name"
    if "i < 21" for i name
  proof -
    have c: "sector_mem (mem_bytes m p 512) (0 + of_nat j) = (\<lambda>q. m (p + q)) (0 + of_nat j)" if "24 * i \<le> j" "j < 24 * i + 24" for j
      using that \<open>i < 21\<close> by (intro b) simp
    note d = dirent_cong [of "24 * i" "sector_mem (mem_bytes m p 512)" 0 "\<lambda>q. m (p + q)", OF c]
    show "dir_no (sector_mem (mem_bytes m p 512)) (0 + of_nat (24 * i)) = dir_no m (p + of_nat (24 * i))"
      using d(1) by (simp add: view)
    show "dir_type (sector_mem (mem_bytes m p 512)) (0 + of_nat (24 * i)) = dir_type m (p + of_nat (24 * i))"
      using d(2) by (simp add: view)
    show "dir_named (sector_mem (mem_bytes m p 512)) (0 + of_nat (24 * i)) name = dir_named m (p + of_nat (24 * i)) name"
      if "length name < 16" using d(3) [OF _ _ that] by (simp add: view)
  qed
  note v = this
  show ?thesis using v [of 0] v [of 1] v(2) unfolding empty_dir_def dir_at_offset by auto
qed

section \<open>A formatted partition\<close>

text \<open>Bit \<open>i\<close> of a bitmap that starts at sector \<open>l\<close>.\<close>

definition disk_bit :: "(nat \<Rightarrow> u8 list) \<Rightarrow> nat \<Rightarrow> nat \<Rightarrow> bool" where
  "disk_bit f l i = bit (f (l + i div 4096) ! (i mod 4096 div 8)) (i mod 8)"

text \<open>What formatting promises: an empty file system on the sectors \<open>f\<close>. The bits of the block bitmap are
  taken for block 0, the root directory, and from bit \<open>blk_cnt + 1\<close> on: the bit \<open>blk_cnt\<close> of the block behind
  the last one is free.\<close>

definition empty_fs :: "ide_ptn \<Rightarrow> (nat \<Rightarrow> u8 list) \<Rightarrow> bool" where
  "empty_fs p f \<longleftrightarrow>
     (let st = unat (start_lba p); b = format_super p
      in get_super (sector_mem (f (st + 1))) 0 = b \<and>
         f (st + 2) = 1 # replicate 511 0 \<and>
         load32 (sector_mem (f (st + 3))) 0 = 0 \<and>
         i_size (sector_mem (f (st + 3))) 0 = 2 * sizeof_dirent \<and> i_block0 (sector_mem (f (st + 3))) 0 = sb_blk_lba b \<and>
         (\<forall>i < 4096 * unat (sb_blk_btmp_sec b). disk_bit f (st + 515) i \<longleftrightarrow> i = 0 \<or> unat (sb_blk_cnt b) < i) \<and>
         empty_dir (sector_mem (f (unat (sb_blk_lba b)))) 0)"

lemma put_sectors_at: "l \<le> x \<Longrightarrow> x < l + n \<Longrightarrow> put_sectors l n m p f x = mem_bytes m (p + 512 * of_nat (x - l)) 512"
  and put_sectors_off: "x < l \<or> l + n \<le> x \<Longrightarrow> put_sectors l n m p f x = f x"
  by (auto simp: put_sectors_def)

lemma put_sectors_bit:
  assumes "i < 4096 * n"
  shows "disk_bit (put_sectors l n m p f) l i = bit (m (p + of_nat (i div 8))) (i mod 8)"
proof -
  have d: "i div 4096 < n" using assms by (simp add: less_mult_imp_div_less mult.commute)
  have "512 * (i div 4096) + i mod 4096 div 8 = i div 8"
    using div_mult2_eq [of i 8 512] mod_mult2_eq [of i 8 512] by simp
  then have a: "p + 512 * of_nat (i div 4096) + of_nat (i mod 4096 div 8) = p + of_nat (i div 8)"
    by (metis (no_types) add.assoc of_nat_add of_nat_mult of_nat_numeral)
  have "i mod 4096 div 8 < 512" by (simp add: less_mult_imp_div_less)
  then show ?thesis using d by (simp add: disk_bit_def put_sectors_at mem_bytes_def a)
qed

lemma cleared: "i < 512 * k \<Longrightarrow> k \<le> 256 \<Longrightarrow> memset m p 0 (of_nat (512 * k)) (p + of_nat i) = 0"
  using offset_in_run [of i 0 "512 * k"] by (simp add: memset_apply in_range_def)

lemma inode_bitmap_sector:
  assumes "1 \<le> k" and "k \<le> 256"
  shows "mem_bytes ((memset m p 0 (of_nat (512 * k)))(p := 1)) p 512 = 1 # replicate 511 0"
proof -
  let ?m = "(memset m p 0 (of_nat (512 * k)))(p := 1)"
  have z: "?m (p + 1 + of_nat i) = 0" if "i < 511" for i
  proof -
    have e: "p + 1 + of_nat i = p + of_nat (Suc i)" by (simp add: add.assoc)
    have "p + of_nat (Suc i) \<noteq> p" using of_nat_u32_inj [of "Suc i" 0] that by (simp del: of_nat_Suc)
    then show ?thesis using cleared [of "Suc i" k m p] that assms unfolding e by (simp del: of_nat_Suc)
  qed
  have "mem_bytes ?m p 512 = ?m p # mem_bytes ?m (p + 1) 511" using mem_bytes_Suc [of ?m p 511] by simp
  also have "mem_bytes ?m (p + 1) 511 = replicate 511 0"
    unfolding mem_bytes_def by (intro nth_equalityI) (use z in \<open>simp_all del: fun_upd_apply\<close>)
  finally show ?thesis by (simp only: fun_upd_same)
qed

lemma root_inode_sector:
  "load32 (sector_mem (mem_bytes (put_root_inode p lba m) p 512)) 0 = 0"
  "i_size (sector_mem (mem_bytes (put_root_inode p lba m) p 512)) 0 = 2 * sizeof_dirent"
  "i_block0 (sector_mem (mem_bytes (put_root_inode p lba m) p 512)) 0 = lba"
  using load32_put_words [of 0 "[0, sizeof_dirent * 2, lba]" p m] load32_put_words [of 1 "[0, sizeof_dirent * 2, lba]" p m] load32_put_words [of 2 "[0, sizeof_dirent * 2, lba]" p m]
  by (simp_all add: i_size_def i_block0_def sector_load put_root_inode_def)

lemma disk_bit_cong: "(\<And>x. l \<le> x \<Longrightarrow> x < l + k \<Longrightarrow> f x = g x) \<Longrightarrow> i < 4096 * k \<Longrightarrow> disk_bit f l i = disk_bit g l i"
  by (simp add: disk_bit_def less_mult_imp_div_less mult.commute)

text \<open>The five writes of \<open>fs_format\<close>, over the sectors they reach.\<close>

lemma written_fs:
  fixes f :: "nat \<Rightarrow> u8 list" and m0 m1 m2 m3 m4 :: mem and sb_at buf :: ptr
  assumes size: "523 \<le> unat (sec_cnt p)" "unat (sec_cnt p) < 2 ^ 23" "unat (start_lba p) + unat (sec_cnt p) \<le> 2 ^ 28"
    and cnt: "8 \<le> unat (sb_blk_cnt (format_super p))" "unat (sb_blk_cnt (format_super p)) div 4096 + 1 = k"
    and k: "k = blk_sectors (unat (sec_cnt p))" and sz: "sz = of_nat (512 * k)" and st: "st = unat (start_lba p)"
  defines "f1 \<equiv> put_sectors (st + 1) 1 (put_super sb_at (format_super p) m0) sb_at f"
  defines "f2 \<equiv> put_sectors (st + 2) 1 ((memset m1 buf 0 sz)(buf := 1)) buf f1"
  defines "f3 \<equiv> put_sectors (st + 3) 1 (put_root_inode buf (sb_blk_lba (format_super p)) (memset m2 buf 0 sz)) buf f2"
  defines "f4 \<equiv> put_sectors (st + 515) k (mark_tail buf (sb_blk_cnt (format_super p)) ((memset m3 buf 0 sz)(buf := 1))) buf f3"
  defines "f5 \<equiv> put_sectors (st + 515 + k) 1 (put_dots buf (memset m4 buf 0 sz)) buf f4"
  shows "empty_fs p f5" and "l \<notin> {st + 1..st + 3} \<union> {st + 515..st + 515 + k} \<Longrightarrow> f5 l = f l"
proof -
  let ?b = "format_super p"
  have kb: "1 \<le> k" "k \<le> 256" using blk_sectors_bounds [OF size(1,2)] k by simp_all
  have ks: "unat (sb_blk_btmp_sec ?b) = k" using format_sizes(1) [OF size(1,2)] k by simp
  have "515 + k < unat (sec_cnt p)" using cnt(1) format_sizes(2) [OF size(1,2)] k by linarith
  then have data: "unat (sb_blk_lba ?b) = st + 515 + k"
    using size(3) ks by (simp add: unat_add_small st)
  note off = put_sectors_off and at = put_sectors_at
  note fs = f5_def f4_def f3_def f2_def f1_def
  have s1: "f5 (st + 1) = mem_bytes (put_super sb_at ?b m0) sb_at 512" unfolding fs by (simp add: off at)
  have s2: "f5 (st + 2) = mem_bytes ((memset m1 buf 0 sz)(buf := 1)) buf 512"
    unfolding fs by (simp add: off at del: fun_upd_apply)
  have s3: "f5 (st + 3) = mem_bytes (put_root_inode buf (sb_blk_lba ?b) (memset m2 buf 0 sz)) buf 512"
    unfolding fs by (simp add: off at)
  have s5: "f5 (st + 515 + k) = mem_bytes (put_dots buf (memset m4 buf 0 sz)) buf 512" unfolding fs by (simp add: at)
  have bit: "disk_bit f5 (st + 515) i \<longleftrightarrow> i = 0 \<or> unat (sb_blk_cnt ?b) < i" if i: "i < 4096 * k" for i
  proof -
    have "disk_bit f5 (st + 515) i = disk_bit f4 (st + 515) i"
      unfolding f5_def by (rule disk_bit_cong [OF _ i]) (simp add: off)
    also have "\<dots> = bit (mark_tail buf (sb_blk_cnt ?b) ((memset m3 buf 0 sz)(buf := 1)) (buf + of_nat (i div 8))) (i mod 8)"
      unfolding f4_def by (rule put_sectors_bit [OF i])
    also have "\<dots> \<longleftrightarrow> 8 * (i div 8) + i mod 8 = 0 \<or> unat (sb_blk_cnt ?b) < 8 * (i div 8) + i mod 8"
      unfolding sz by (rule mark_tail_bits [OF cnt kb(2)]) (use i in simp_all)
    finally show ?thesis by simp
  qed
  have "empty_dir (put_dots buf (memset m4 buf 0 sz)) buf"
    by (rule dots_empty_dir) (use kb cleared in \<open>simp add: sz del: of_nat_mult\<close>)
  then show "empty_fs p f5"
    unfolding empty_fs_def Let_def st [symmetric] data ks s1 s2 s3 s5
    using bit inode_bitmap_sector [OF kb, of m1 buf] by (simp add: sz sector_super super_roundtrip root_inode_sector empty_dir_sector)
  show "f5 l = f l" if "l \<notin> {st + 1..st + 3} \<union> {st + 515..st + 515 + k}"
    using that unfolding fs by (simp add: put_sectors_def) auto
qed

lemma outside_shift: "unat c \<le> unat (q - e) \<Longrightarrow> unat (q - (e + c)) = unat (q - e) - unat (c :: u32)"
  using unat_sub_small [of c "q - e"] by (simp add: diff_diff_eq)

lemma put_dirent_outside:
  assumes "24 \<le> unat (q - d)" and "length name \<le> 16"
  shows "put_dirent d name no m q = m q"
proof -
  have "unat (q - (d + 4)) = unat (q - d) - 4" "unat (q - (d + 20)) = unat (q - d) - 20"
    using assms(1) outside_shift [of 4 q d] outside_shift [of 20 q d] by simp_all
  moreover from this have "\<not> unat (q - (d + 4)) < length name" using assms by linarith
  ultimately show ?thesis using assms(1) by (simp add: put_dirent_def store32_outside store_bytes_def)
qed

section \<open>What the file system leaves alone\<close>

text \<open>Bytes of live regions, and the image of the kernel, which ends below its page bitmaps.\<close>

definition safe :: "(ptr \<times> nat) set \<Rightarrow> ptr \<Rightarrow> bool" where
  "safe L q \<longleftrightarrow> (\<exists>(p, n)\<in>L. in_range p (of_nat n) q) \<or> 0xC0000000 \<le> unat q \<and> unat q < 0xC0076000"

lemma safe_insert: "safe L q \<Longrightarrow> safe (insert x L) q"
  by (auto simp: safe_def)

lemma safe_live: "(p, n) \<in> L \<Longrightarrow> i < n \<Longrightarrow> n < 2 ^ 32 \<Longrightarrow> safe L (p + of_nat i)"
  unfolding safe_def in_range_def by (rule disjI1) (force simp: u32_less_of_nat unat_of_nat_less)

lemma safe_malloc: "fresh_region L p k hp hp' \<Longrightarrow> safe L q \<Longrightarrow> hbytes hp' q = hbytes hp q"
  by (auto simp: fresh_region_def same_below_def safe_def)

lemma safe_far:
  assumes rep: "heap_rep (insert (p, k) L) hp" and new: "(p, k) \<notin> L" and q: "safe L q"
  shows "k \<le> unat (q - p)"
proof (rule ccontr)
  assume "\<not> ?thesis"
  then have i: "in_range p (of_nat k) q" using heap.sizes [OF rep insertI1] by (simp add: in_range_def u32_less_of_nat)
  have "0xC0100000 \<le> unat q" by (rule live_high [OF rep insertI1 i])
  then obtain p' n' where p': "(p', n') \<in> L" "in_range p' (of_nat n') q" using q by (auto simp: safe_def)
  then have "p = p' \<and> k = n'" using heap.disjoint [OF rep insertI1 _ i, of p' n'] by simp
  then show False using p'(1) new by simp
qed

lemma safe_buffer:
  assumes "heap_rep (insert (p, k) L) hp" and "(p, k) \<notin> L" and "length bs \<le> k" and "safe L q"
  shows "store_bytes m p bs q = m q"
  using safe_far [OF assms(1,2,4)] assms(3) by (simp add: store_bytes_def)

lemma safe_null: "heap_rep L hp \<Longrightarrow> safe L q \<Longrightarrow> length bs \<le> 512 \<Longrightarrow> store_bytes m NULL bs q = m q"
  using live_high [of L hp] by (fastforce simp: safe_def store_bytes_def)

text \<open>The bytes that formatting writes lie in its buffer, and in its super block on the stack.\<close>

lemma format_bytes_other:
  assumes far: "512 * k \<le> unat (a - buf)" and k: "1 \<le> k" "k \<le> 256" and c: "unat c div 4096 + 1 = k"
  shows "memset m buf 0 (of_nat (512 * k)) a = m a" "(m(buf := v)) a = m a" "put_root_inode buf l m a = m a"
    "put_dots buf m a = m a" "mark_tail buf c m a = m a"
proof -
  have ne: "a \<noteq> buf" using far k by auto
  show "memset m buf 0 (of_nat (512 * k)) a = m a"
    using far k by (simp add: memset_apply in_range_def word_less_nat_alt unat_of_nat_less del: of_nat_mult)
  show "(m(buf := v)) a = m a" using ne by simp
  show "put_root_inode buf l m a = m a" unfolding put_root_inode_def by (rule put_words_other) (use far k in simp)
  have "24 \<le> unat (a - buf)" "24 \<le> unat (a - (buf + 24))" using far k outside_shift [of 24 a buf] by simp_all
  then show "put_dots buf m a = m a" by (simp add: put_dots_def dir_at_def sizeof_dirent_def put_dirent_outside)
  define lb where "lb = unat c div 8"
  note mt = mark_tail_eq [OF c k(2), folded lb_def]
  have lt: "lb < 2 ^ 17" using mt(1) k by simp
  then have "unat (of_nat lb :: u32) = lb" by (simp add: unat_of_nat_less)
  then have d: "unat (a - (buf + of_nat lb)) = unat (a - buf) - lb" using outside_shift [of "of_nat lb" a buf] far mt(1) by simp
  then have ge: "512 - lb mod 512 \<le> unat (a - (buf + of_nat lb))" using mt(2) far by linarith
  have "0 < 512 - lb mod 512" by simp
  then have "a \<noteq> buf + of_nat lb" using ge by auto
  then have "mark_tail buf c m a = memset m (buf + of_nat lb) 0xFF (of_nat (512 - lb mod 512)) a"
    unfolding mt(3) by (rule clear_bits_other)
  moreover have "unat (of_nat (512 - lb mod 512) :: u32) = 512 - lb mod 512" by (rule unat_of_nat_less) simp
  then have "\<not> in_range (buf + of_nat lb) (of_nat (512 - lb mod 512)) a" using ge by (simp only: in_range_def word_less_nat_alt not_less)
  ultimately show "mark_tail buf c m a = m a" by (simp only: memset_apply if_False)
qed

lemma put_super_other: "40 \<le> unat (a - p) \<Longrightarrow> put_super p b m a = m a"
  unfolding put_super_def by (rule put_words_other) simp

lemma format_run:
  fixes s :: "(ata, 'x) ide_state_scheme" and ptn :: ptr
  defines "p \<equiv> ptn_at s ptn"
  defines "k \<equiv> blk_sectors (unat (sec_cnt p))" and "st \<equiv> unat (start_lba p)"
  assumes ready: "disk_ready bt (k + 4 + n) (ptn_hd p) f s"
    and heap: "heap_rep L (heap s)" "in_budget (cost (of_nat (512 * k)) + q) (heap s)"
    and size: "523 \<le> unat (sec_cnt p)" "unat (sec_cnt p) < 2 ^ 23" "st + unat (sec_cnt p) \<le> 2 ^ 28"
    and cnt: "8 \<le> unat (sb_blk_cnt (format_super p))" "unat (sb_blk_cnt (format_super p)) div 4096 + 1 = k"
    and bt: "2 \<le> bt" "k \<le> bt" and lg: "lingers (heap s)"
  shows "\<exists>s' f'. fs_format (ata_platform pl ih) sb_at ptn s = Inr s' \<and> disk_ready bt n (ptn_hd p) f' s' \<and>
    heap_rep L (heap s') \<and> in_budget q (heap s') \<and> lingers (heap s') \<and> same_files s s' \<and> empty_fs p f' \<and>
    (\<forall>l. l \<notin> {st + 1..st + 3} \<union> {st + 515..st + 515 + k} \<longrightarrow> f' l = f l) \<and>
    (\<forall>a. safe L a \<longrightarrow> 40 \<le> unat (a - sb_at) \<longrightarrow> bytes_in s' a = bytes_in s a)"
proof -
  let ?P = "ata_platform pl ih" and ?b = "format_super p" and ?h = "ptn_hd p" and ?sz = "of_nat (512 * k) :: u32"
  have ks: "unat (sb_blk_btmp_sec ?b) = k" using format_sizes(1) [OF size(1,2)] by (simp add: k_def)
  have kb: "1 \<le> k" "k \<le> 256" using blk_sectors_bounds [OF size(1,2)] by (simp_all add: k_def)
  have "sb_blk_btmp_sec ?b = of_nat k" using of_nat_of_unat [OF ks] by simp
  then have sz: "sb_blk_btmp_sec ?b * SECTOR_SIZE = ?sz" by (simp add: SECTOR_SIZE_def mult.commute)
  have "515 + k < unat (sec_cnt p)" using cnt(1) format_sizes(2) [OF size(1,2)] k_def by linarith
  then have room: "st + 515 + k < 2 ^ 28" using size(3) by linarith
  have lba: "unat (start_lba p + 1) = st + 1" "unat (start_lba p + 2) = st + 2" "unat (start_lba p + 3) = st + 3"
    "unat (start_lba p + 515) = st + 515" "unat (start_lba p + 515 + sb_blk_btmp_sec ?b) = st + 515 + k"
    using room ks by (simp_all add: unat_add_small st_def)
  have lt: "st + 1 < 2 ^ 28" "st + 2 < 2 ^ 28" "st + 3 < 2 ^ 28" "st + 515 < 2 ^ 28" using room by linarith+
  have one: "unat (1 :: u32) = 1" "(0 :: nat) < 1" "1 \<le> (256 :: nat)" "0 < k" "1 \<le> bt" using kb bt by simp_all
  have r0: "disk_ready bt (1 + (1 + (1 + (k + (1 + n))))) ?h f s"
  proof -
    have "1 + (1 + (1 + (k + (1 + n)))) = k + 4 + n" by simp
    then show ?thesis using ready by (simp only:)
  qed
  obtain s1 where w1: "ide_write ?P ?h (start_lba p + 1) sb_at 1 (on_mem (put_super sb_at ?b) s) = Inr s1"
    and r1: "disk_ready bt (1 + (1 + (k + (1 + n)))) ?h (put_sectors (st + 1) 1 (put_super sb_at ?b (bytes_in s)) sb_at f) s1"
    and h1: "heap s1 = (heap s)\<lparr>hbytes := put_super sb_at ?b (bytes_in s)\<rparr>" and q1: "same_files s s1"
    by (rule write_step [OF r0 one(1-3) lba(1) lt(1) bt(1) one(5)])
  have md: "modest ?sz" using kb by (simp add: modest_def unat_of_nat_less del: of_nat_mult)
  have hr1: "heap_rep L (heap s1)" "in_budget (cost ?sz + q) (heap s1)" unfolding h1 using heap heap_rep_bytes by simp_all
  obtain buf hp len2 where m2: "malloc_st ?sz s1 = Inr (buf, s1\<lparr>heap := hp\<rparr>)" and hr2: "heap_rep (insert (buf, len2) L) hp"
    and len2: "unat ?sz \<le> len2" and fresh: "fresh_region L buf len2 (heap s1) hp" and bd: "in_budget q hp"
    and r2: "disk_ready bt (1 + (1 + (k + (1 + n)))) ?h (put_sectors (st + 1) 1 (put_super sb_at ?b (bytes_in s)) sb_at f) (s1\<lparr>heap := hp\<rparr>)"
    and lg2: "lingers hp = lingers (heap s1)"
    by (rule malloc_step [OF hr1 md r1])
  define s2 where "s2 = s1\<lparr>heap := hp\<rparr>"
  have q2: "same_files s1 s2" and h2: "heap s2 = hp" by (simp_all add: same_files_def s2_def)
  let ?g3 = "\<lambda>m. (memset m buf 0 ?sz)(buf := 1)"
  let ?f1 = "put_sectors (st + 1) 1 (put_super sb_at ?b (bytes_in s)) sb_at f"
  obtain s3 where w3: "ide_write ?P ?h (start_lba p + 2) buf 1 (on_mem ?g3 s2) = Inr s3"
    and r3: "disk_ready bt (1 + (k + (1 + n))) ?h (put_sectors (st + 2) 1 (?g3 (bytes_in s2)) buf ?f1) s3"
    and h3: "heap s3 = (heap s2)\<lparr>hbytes := ?g3 (bytes_in s2)\<rparr>" and q3: "same_files s2 s3"
    by (rule write_step [OF r2 [folded s2_def] one(1-3) lba(2) lt(2) bt(1) one(5)])
  let ?g4 = "\<lambda>m. put_root_inode buf (sb_blk_lba ?b) (memset m buf 0 ?sz)"
  let ?f3 = "put_sectors (st + 2) 1 (?g3 (bytes_in s2)) buf ?f1"
  obtain s4 where w4: "ide_write ?P ?h (start_lba p + 3) buf 1 (on_mem ?g4 s3) = Inr s4"
    and r4: "disk_ready bt (k + (1 + n)) ?h (put_sectors (st + 3) 1 (?g4 (bytes_in s3)) buf ?f3) s4"
    and h4: "heap s4 = (heap s3)\<lparr>hbytes := ?g4 (bytes_in s3)\<rparr>" and q4: "same_files s3 s4"
    by (rule write_step [OF r3 one(1-3) lba(3) lt(3) bt(1) one(5)])
  let ?g5 = "\<lambda>m. mark_tail buf (sb_blk_cnt ?b) ((memset m buf 0 ?sz)(buf := 1))"
  let ?f4 = "put_sectors (st + 3) 1 (?g4 (bytes_in s3)) buf ?f3"
  obtain s5 where w5: "ide_write ?P ?h (start_lba p + 515) buf (sb_blk_btmp_sec ?b) (on_mem ?g5 s4) = Inr s5"
    and r5: "disk_ready bt (1 + n) ?h (put_sectors (st + 515) k (?g5 (bytes_in s4)) buf ?f4) s5"
    and h5: "heap s5 = (heap s4)\<lparr>hbytes := ?g5 (bytes_in s4)\<rparr>" and q5: "same_files s4 s5"
    by (rule write_step [OF r4 ks one(4) kb(2) lba(4) lt(4) bt])
  let ?g6 = "\<lambda>m. put_dots buf (memset m buf 0 ?sz)"
  let ?f5 = "put_sectors (st + 515) k (?g5 (bytes_in s4)) buf ?f4"
  let ?f6 = "put_sectors (st + 515 + k) 1 (?g6 (bytes_in s5)) buf ?f5"
  obtain s6 where w6: "ide_write ?P ?h (start_lba p + 515 + sb_blk_btmp_sec ?b) buf 1 (on_mem ?g6 s5) = Inr s6"
    and r6: "disk_ready bt n ?h ?f6 s6"
    and h6: "heap s6 = (heap s5)\<lparr>hbytes := ?g6 (bytes_in s5)\<rparr>" and q6: "same_files s5 s6"
    by (rule write_step [OF r5 one(1-3) lba(5) room bt(1) one(5)])
  have lg6: "lingers (heap s6)" using lg lg2 by (simp add: h6 h5 h4 h3 h2 h1)
  have bd6: "in_budget q (heap s6)" unfolding h6 h5 h4 h3 h2 using bd by simp
  have new: "(buf, len2) \<notin> L" using fresh by (simp add: fresh_region_def)
  have "heap_rep (insert (buf, len2) L) (heap s6)" unfolding h6 h5 h4 h3 h2 by (intro heap_rep_bytes hr2)
  then obtain hp' where fr: "free_st buf s6 = Inr (s6\<lparr>heap := hp'\<rparr>)" and hr7: "heap_rep (insert (buf, len2) L - {(buf, len2)}) hp'"
    and hb7: "hbytes hp' = bytes_in s6" and bd7: "in_budget q hp'" and r7: "disk_ready bt n ?h ?f6 (s6\<lparr>heap := hp'\<rparr>)"
    and lg7: "lingers hp'"
    by (rule free_step [OF _ insertI1 bd6 r6 lg6])
  have run: "fs_format ?P sb_at ptn s = Inr (s6\<lparr>heap := hp'\<rparr>)"
    unfolding fs_format_def Let_def p_def [symmetric] sz format_super_const
    by (simp only: w1 rbind_simps m2 [folded s2_def] prod.case w3 w4 [unfolded format_super_const] w5 w6 fr)
  have sf: "same_files s (s6\<lparr>heap := hp'\<rparr>)"
    using q1 q2 q3 q4 q5 q6 by (simp add: same_files_def)
  note wf = written_fs [OF size(1,2) size(3) [unfolded st_def] cnt k_def [THEN meta_eq_to_obj_eq] refl st_def [THEN meta_eq_to_obj_eq]]
  have "empty_fs p ?f6" by (rule wf(1))
  moreover have "\<forall>l. l \<notin> {st + 1..st + 3} \<union> {st + 515..st + 515 + k} \<longrightarrow> ?f6 l = f l"
    by (intro allI impI) (rule wf(2))
  moreover have "hbytes hp' a = bytes_in s a" if a: "safe L a" "40 \<le> unat (a - sb_at)" for a
  proof -
    have "512 * k \<le> unat (a - buf)"
      using safe_far [OF hr2 new a(1)] len2 kb by (simp add: unat_of_nat_less del: of_nat_mult)
    note same = format_bytes_other [OF this kb cnt(2)]
    have "bytes_in s3 a = hbytes hp a" "bytes_in s4 a = bytes_in s3 a" "bytes_in s5 a = bytes_in s4 a" "bytes_in s6 a = bytes_in s5 a"
      by (simp_all add: h2 h3 h4 h5 h6 same del: fun_upd_apply of_nat_mult)
    then have "hbytes hp' a = hbytes hp a" by (simp only: hb7)
    also have "\<dots> = bytes_in s1 a" using safe_malloc [OF fresh a(1)] .
    also have "\<dots> = bytes_in s a" by (simp add: h1 put_super_other [OF a(2)])
    finally show ?thesis .
  qed
  ultimately show ?thesis using run r7 hr7 bd7 lg7 sf new by (intro exI [of _ "s6\<lparr>heap := hp'\<rparr>"] exI [of _ ?f6]) (simp add: insert_Diff_if)
qed

lemma super_cong:
  assumes "\<And>i. i < 512 \<Longrightarrow> m (p + of_nat i) = m' (p' + of_nat i)"
  shows "get_super m p = get_super m' p'"
proof -
  have "load32 m (p + of_nat c) = load32 m' (p' + of_nat c)" if "c < 508" for c
    using assms that by (intro load32_cong) (simp add: add.assoc flip: of_nat_add)
  from this [of 0] this [of 4] this [of 8] this [of 12] this [of 16] this [of 20] this [of 24] this [of 28] this [of 32] this [of 36]
  show ?thesis by (simp add: get_super_def)
qed

lemma store_bytes_nth: "i < length bs \<Longrightarrow> length bs < 2 ^ 32 \<Longrightarrow> store_bytes m p bs (p + of_nat i) = bs ! i"
  by (simp add: store_bytes_def unat_of_nat_less)

text \<open>The root directory: its inode on the heap, its entries in static data.\<close>

definition root_ok :: "(ptr \<times> nat) set \<Rightarrow> 'd fs_state \<Rightarrow> bool" where
  "root_ok L s \<longleftrightarrow> (\<exists>n\<ge>72. (root_dir_inode s, n) \<in> L) \<and>
     0xC0000000 \<le> unat (i_block0 (bytes_in s) (root_dir_inode s)) \<and> unat (i_block0 (bytes_in s) (root_dir_inode s)) + 240 \<le> 0xC0076000"

lemma more_root:
  fixes s :: "'d fs_state"
  shows "ide_state.more s' = ide_state.more s \<Longrightarrow> root_dir_inode s' = root_dir_inode s \<and> inode_max s' = inode_max s"
  by (cases s; cases s') simp

lemma free_entry_least:
  "free_entry n idx dir m = j \<Longrightarrow> idx \<le> j \<and> j \<le> idx + n \<and> (j < idx + n \<longrightarrow> dir_type m (dir_at dir j) = FT_UNKNOWN) \<and>
     (\<forall>i. idx \<le> i \<longrightarrow> i < j \<longrightarrow> dir_type m (dir_at dir i) \<noteq> FT_UNKNOWN)"
proof (induction n arbitrary: idx)
  case (Suc n)
  show ?case
  proof (cases "FT_UNKNOWN = dir_type m (dir_at dir idx)")
    case True
    then show ?thesis using Suc.prems by auto
  next
    case False
    then have "free_entry n (Suc idx) dir m = j" using Suc.prems by simp
    from Suc.IH [OF this] show ?thesis using False by (auto simp: le_Suc_eq Suc_le_eq nat_less_le dest: sym)
  qed
qed auto

lemma low_offset: "unat (d :: ptr) + 240 \<le> 0xC0100000 \<Longrightarrow> i < 240 \<Longrightarrow> unat (d + of_nat i) = unat d + i"
proof -
  assume h: "unat d + 240 \<le> 0xC0100000" "i < 240"
  then have "unat (of_nat i :: u32) = i" by (intro unat_of_nat_less) simp
  then show ?thesis using h by (subst unat_add_small) simp_all
qed

lemma add_entry_other:
  assumes d: "unat d + 240 \<le> 0xC0100000" and idx: "idx < 10" and name: "length name < 16"
    and q: "unat q < unat d + 24 * idx \<or> unat d + 24 * idx + 24 \<le> unat q" "4 \<le> unat (q - (ri + 4))"
  shows "add_entry d idx name no ri m q = m q"
proof -
  have e: "unat (dir_at d idx) = unat d + 24 * idx" using d idx by (simp only: dir_at_offset) (rule low_offset, simp_all)
  have "24 \<le> unat (q - dir_at d idx)"
  proof (rule ccontr)
    assume "\<not> ?thesis"
    then have "in_range (dir_at d idx) 24 q" by (simp add: in_range_def word_less_nat_alt)
    then show False using q(1) e d idx in_range_unat [of "dir_at d idx" 24 q] by simp
  qed
  then show ?thesis using q(2) name by (simp add: add_entry_def Let_def store32_outside put_dirent_outside)
qed

lemma add_entry_run:
  assumes d: "unat d + 240 \<le> 0xC0100000" and idx: "idx < 10" and name: "length name < 16"
    and ri: "\<And>i. i < 72 \<Longrightarrow> 0xC0100000 \<le> unat (ri + of_nat i)"
  shows "dir_no (add_entry d idx name no ri m) (dir_at d idx) = no"
    and "dir_type (add_entry d idx name no ri m) (dir_at d idx) = FT_DIR"
    and "dir_named (add_entry d idx name no ri m) (dir_at d idx) name"
    and "j < 10 \<Longrightarrow> j \<noteq> idx \<Longrightarrow> dir_no (add_entry d idx name no ri m) (dir_at d j) = dir_no m (dir_at d j) \<and>
      dir_type (add_entry d idx name no ri m) (dir_at d j) = dir_type m (dir_at d j) \<and>
      (length nm < 16 \<longrightarrow> dir_named (add_entry d idx name no ri m) (dir_at d j) nm = dir_named m (dir_at d j) nm)"
    and "i_size (add_entry d idx name no ri m) ri = i_size m ri + sizeof_dirent"
    and "i_block0 (add_entry d idx name no ri m) ri = i_block0 m ri"
proof -
  let ?m1 = "put_dirent (dir_at d idx) (name @ [0]) no m" and ?m2 = "add_entry d idx name no ri m"
  have off: "4 \<le> unat (q - (ri + 4))" if "unat q < 0xC0100000" for q
  proof (rule ccontr)
    assume a: "\<not> 4 \<le> unat (q - (ri + 4))"
    then have "0xC0100000 \<le> unat (ri + of_nat (4 + unat (q - (ri + 4))))" by (intro ri) simp
    then show False using that by simp
  qed
  have m2: "?m2 (d + of_nat i) = ?m1 (d + of_nat i)" if "i < 240" for i
    using off [of "d + of_nat i"] low_offset [OF d that] that d by (simp add: add_entry_def Let_def store32_outside)
  have win: "?m2 (d + of_nat i) = ?m1 (d + of_nat i)" if "24 * idx \<le> i" "i < 24 * idx + 24" for i
    using that idx by (intro m2) simp
  note c = dirent_cong [of "24 * idx" ?m2 d ?m1, OF win, folded dir_at_offset]
  show "dir_no ?m2 (dir_at d idx) = no" using c(1) by (simp add: put_dirent_no)
  show "dir_type ?m2 (dir_at d idx) = FT_DIR" using c(2) by (simp add: put_dirent_type)
  have "dir_named ?m1 (dir_at d idx) name"
  proof -
    have "put_dirent e (name @ [0]) no m (e + of_nat (4 + i)) = (name @ [0]) ! i" if "i < Suc (length name)" for i e
    proof -
      have "store32 x (e + of_nat 0) no (e + of_nat (4 + i)) = x (e + of_nat (4 + i))"
        "store32 x (e + of_nat 20) w (e + of_nat (4 + i)) = x (e + of_nat (4 + i))" for x w
        using that name by (intro store32_at_other; simp)+
      moreover have "store_bytes m (e + of_nat 4) (name @ [0]) (e + of_nat (4 + i)) = (name @ [0]) ! i"
        using that name by (subst store_bytes_at) auto
      ultimately show ?thesis unfolding put_dirent_offsets by (simp only:)
    qed
    note b = this [of _ "dir_at d idx"]
    have "mem_bytes ?m1 (dir_at d idx + 4) (Suc (length name)) = name @ [0]"
    proof (intro nth_equalityI)
      fix i assume "i < length (mem_bytes ?m1 (dir_at d idx + 4) (Suc (length name)))"
      then have i: "i < Suc (length name)" by simp
      then show "mem_bytes ?m1 (dir_at d idx + 4) (Suc (length name)) ! i = (name @ [0]) ! i"
        using b [OF i] by (simp add: mem_bytes_def add.assoc nth_append del: upt_Suc)
    qed simp
    then show ?thesis by (simp add: dir_named_def)
  qed
  then show "dir_named ?m2 (dir_at d idx) name" using c(3) name by simp
  show "dir_no ?m2 (dir_at d j) = dir_no m (dir_at d j) \<and> dir_type ?m2 (dir_at d j) = dir_type m (dir_at d j) \<and>
      (length nm < 16 \<longrightarrow> dir_named ?m2 (dir_at d j) nm = dir_named m (dir_at d j) nm)"
    if j: "j < 10" "j \<noteq> idx"
  proof -
    have w: "?m2 (d + of_nat i) = m (d + of_nat i)" if i: "24 * j \<le> i" "i < 24 * j + 24" for i
    proof -
      have lt: "i < 240" using i j(1) by simp
      have "i < 24 * idx \<or> 24 * idx + 24 \<le> i" using i j(2) by linarith
      then show ?thesis
        using off [of "d + of_nat i"] low_offset [OF d lt] d lt by (intro add_entry_other [OF d idx name]) auto
    qed
    show ?thesis using dirent_cong [of "24 * j" ?m2 d m, OF w, folded dir_at_offset] by simp
  qed
  have e: "unat (dir_at d idx) = unat d + 24 * idx" using d idx by (simp only: dir_at_offset) (rule low_offset, simp_all)
  have far: "?m1 (ri + of_nat i) = m (ri + of_nat i)" if "i < 72" for i
  proof (rule put_dirent_outside)
    have "unat (dir_at d idx) + 24 \<le> unat (ri + of_nat i)" using ri [OF that] e d idx by linarith
    then show "24 \<le> unat (ri + of_nat i - dir_at d idx)" by (simp add: unat_sub_small)
  qed (use name in simp)
  have "load32 ?m1 (ri + of_nat 4) = load32 m (ri + of_nat 4)" by (rule load32_at_cong) (rule far, simp)
  then show "i_size ?m2 ri = i_size m ri + sizeof_dirent"
    by (simp add: add_entry_def Let_def i_size_def load32_store32)
  have "load32 ?m2 (ri + of_nat 8) = load32 ?m1 (ri + of_nat 8)"
    unfolding add_entry_def Let_def
    by (rule load32_at_cong) (use store32_at_other [where c = 4 and d = ri] in simp)
  also have "\<dots> = load32 m (ri + of_nat 8)" by (rule load32_at_cong) (rule far, simp)
  finally show "i_block0 ?m2 ri = i_block0 m ri" by (simp add: i_block0_def)
qed


section \<open>Properties\<close>

text \<open>C29: formatting. The partition has at least eight blocks (580 sectors do), the bits behind its blocks
  begin in the last sector of the block bitmap, and it is smaller than 4 GB; the drive has the next sector of
  a command ready at once. Then the driver completes all six transfers, and the disk holds an empty file
  system: super block, root inode in the inode bitmap and the inode table, a block bitmap in which block 0
  and the bits from \<open>blk_cnt + 1\<close> on are taken and no others (bit \<open>blk_cnt\<close>, behind the last block, stays
  free), a root directory with its two dots. Every other sector is as it was, and the temporary buffer is
  given back.\<close>

theorem fs_format_empty:
  fixes s :: "(ata, 'x) ide_state_scheme"
  assumes "p = ptn_at s ptn" and "k = blk_sectors (unat (sec_cnt p))" and "st = unat (start_lba p)"
    and "disk_ready bt (k + 4 + n) (ptn_hd p) f s" and "heap_rep L (heap s)" and "in_budget (cost (of_nat (512 * k))) (heap s)"
    and "523 \<le> unat (sec_cnt p)" and "unat (sec_cnt p) < 2 ^ 23" and "st + unat (sec_cnt p) \<le> 2 ^ 28"
    and "8 \<le> unat (sb_blk_cnt (format_super p))" and "unat (sb_blk_cnt (format_super p)) div 4096 + 1 = k"
    and "2 \<le> bt" and "k \<le> bt" and "lingers (heap s)"
  shows "\<exists>s' f'. fs_format (ata_platform pl ih) sb_at ptn s = Inr s' \<and> disk_ready bt n (ptn_hd p) f' s' \<and> empty_fs p f' \<and>
    (\<forall>l. l \<notin> {st + 1..st + 3} \<union> {st + 515..st + 515 + k} \<longrightarrow> f' l = f l) \<and> heap_rep L (heap s') \<and> ptn_at s' = ptn_at s"
  using format_run [where s = s and ptn = ptn and n = n and f = f and L = L and q = 0 and pl = pl and ih = ih and sb_at = sb_at, folded assms(1),
      folded assms(2,3), OF assms(4,5) _ assms(7-14)] assms(6) by (simp add: same_files_def) blast

section \<open>A machine with one partition\<close>

definition demo_ptn :: ide_ptn where
  "demo_ptn = zero_ptn\<lparr>ptn_name := [0x73, 0x64, 0x61], start_lba := 100, sec_cnt := 1000\<rparr>"

definition blank :: "nat \<Rightarrow> u8 list" where "blank l = replicate 512 (of_nat l)"

text \<open>The list of partitions at \<open>0x2000\<close> has the one at \<open>0x3000\<close>.\<close>

definition demo_fs :: "(nat \<Rightarrow> u8 list) \<Rightarrow> ata fs_state" where
  "demo_fs f = \<lparr>heap = demo_heap, hw = (hw demo_disk)\<lparr>platters := (\<lambda>d. if d then None else Some f)\<rparr>, intr = intr demo_disk,
     ide_ch = ide_ch demo_disk, ptn_at = (\<lambda>_. demo_ptn),
     ptn_nodes = (\<lambda>a. if a = 0x2000 then \<lparr>prev = NULL, nxt = 0x3014\<rparr> else \<lparr>prev = 0x2000, nxt = 0x2008\<rparr>), ptn_nr = 0,
     root_dir_inode = NULL, root_dir_pos = 0, inode_max = 0\<rparr>"

lemma demo_fs_ready: "n < 2 ^ 32 \<Longrightarrow> (\<And>l. length (f l) = 512) \<Longrightarrow> disk_ready bt n (0, 0) f (demo_fs f)"
  by (simp add: disk_ready_def demo_fs_def demo_disk_def slow_disk_def wired_def hd_of_def chan_of_def resting_def is_slave_def credits_def)

lemma demo_ptn_fields [simp]:
  "start_lba demo_ptn = 100" "sec_cnt demo_ptn = 1000" "ptn_hd demo_ptn = (0, 0)" "ptn_name demo_ptn = [0x73, 0x64, 0x61]"
  "inode_base demo_ptn = 0" "bits (blk_btmp demo_ptn) = 0" "heap (demo_fs f) = demo_heap" "ptn_at (demo_fs f) x = demo_ptn"
  by (simp_all add: demo_ptn_def zero_ptn_def demo_fs_def)

lemma demo_sizes: "blk_sectors 1000 = 1" "unat (sb_blk_cnt (format_super demo_ptn)) = 60"
  using format_sizes(2) [of demo_ptn] by (simp_all add: blk_sectors_def)

theorem fs_format_empty_witness:
  "\<exists>s f. fs_format (ata_platform 0 0) 0x9E000 0x3000 (demo_fs blank) = Inr s \<and> empty_fs demo_ptn f"
proof -
  have r: "disk_ready 256 (blk_sectors 1000 + 4 + 0) (0, 0) blank (demo_fs blank)" by (rule demo_fs_ready) (simp_all add: demo_sizes blank_def)
  have b: "in_budget (cost (of_nat (512 * blk_sectors 1000))) (heap (demo_fs blank))"
    using demo_budget [of 1] by (simp add: demo_sizes cost_def)
  show ?thesis
    using fs_format_empty [of demo_ptn "demo_fs blank" "0x3000" "blk_sectors 1000" 100 256 0 blank "{}" 0 0 "0x9E000"] r b demo_heap_rep demo_heap_lingers
    by (auto simp: demo_sizes)
qed

end
