(* ===== verification/KMount.thy ===== *)
theory KMount
  imports KFs
begin

text \<open>
  Mounting and unmounting, \<open>fs_mount\<close>, \<open>fs_unmount\<close> and \<open>root_dir_init\<close> of \<open>code/kernel/src/fs.c\<close>: each
  operation as a run from a heap with room and a drive with sectors to spare, with the bytes it leaves alone.
\<close>

section \<open>Working on a drive\<close>

text \<open>A heap with room for \<open>q\<close> pages, a processor that keeps the translation of a page just given back, a drive
  ready for \<open>n\<close> sectors in commands of at most \<open>bt\<close>; and what a step leaves alone.\<close>

definition working :: "nat \<Rightarrow> (ptr \<times> nat) set \<Rightarrow> hd_ptr \<Rightarrow> (nat \<Rightarrow> u8 list) \<Rightarrow> nat \<Rightarrow> nat \<Rightarrow> (ata, 'x) ide_state_scheme \<Rightarrow> bool" where
  "working bt L h f n q s \<longleftrightarrow> heap_rep L (heap s) \<and> in_budget q (heap s) \<and> disk_ready bt n h f s \<and> lingers (heap s) \<and> 0 < bt"

definition kept :: "(ptr \<times> nat) set \<Rightarrow> ('d, 'x) ide_state_scheme \<Rightarrow> ('d, 'x) ide_state_scheme \<Rightarrow> bool" where
  "kept L s s' \<longleftrightarrow> (\<forall>a. safe L a \<longrightarrow> bytes_in s' a = bytes_in s a)"

definition low_kept :: "('d, 'x) ide_state_scheme \<Rightarrow> ('d, 'x) ide_state_scheme \<Rightarrow> bool" where
  "low_kept s s' \<longleftrightarrow> (\<forall>a. unat a < 0xC0100000 \<longrightarrow> bytes_in s' a = bytes_in s a)"

lemma safe_mono: "K \<subseteq> L \<Longrightarrow> safe K a \<Longrightarrow> safe L a"
  by (auto simp: safe_def)

lemma kept_refl [simp]: "kept L s s"
  by (simp add: kept_def)

lemma kept_trans: "kept L s t \<Longrightarrow> kept L' t u \<Longrightarrow> L \<subseteq> L' \<Longrightarrow> kept L s u"
  using safe_mono [of L L'] by (auto simp: kept_def)

lemma set_ptn_fields [simp]:
  "hw (set_ptn ptn g s) = hw s" "ide_ch (set_ptn ptn g s) = ide_ch s" "heap (set_ptn ptn g s) = heap s"
  "ptn_at (set_ptn ptn g s) = (ptn_at s)(ptn := g (ptn_at s ptn))" "ptn_nodes (set_ptn ptn g s) = ptn_nodes s"
  "ide_state.more (set_ptn ptn g s) = ide_state.more s"
  by (simp_all add: set_ptn_def)

lemma working_less: "working bt L h f (m + n) (p + q) s \<Longrightarrow> working bt L h f n q s"
  using spare_less [of "p + q" "mm (heap s)" q] by (auto simp: working_def disk_ready_def in_budget_def)

lemma working_set_ptn [simp]: "working bt L h f n q (set_ptn ptn g s) = working bt L h f n q s"
  using disk_ready_cong [of "set_ptn ptn g s" s bt n h f] by (simp add: working_def)

lemma kept_set_ptn [simp]: "kept L (set_ptn ptn g s) t = kept L s t" "kept L t (set_ptn ptn g s) = kept L t s"
  by (simp_all add: kept_def)

lemma low_kept_set_ptn [simp]: "low_kept (set_ptn ptn g s) t = low_kept s t" "low_kept t (set_ptn ptn g s) = low_kept t s"
  by (simp_all add: low_kept_def)

lemma working_malloc:
  assumes "working bt L h f n (cost sz + q) s" and "modest sz"
  obtains p s' k where "malloc_st sz s = Inr (p, s')" and "unat sz \<le> k" and "(p, k) \<notin> L" and "working bt (insert (p, k) L) h f n q s'"
    and "kept L s s'" and "low_kept s s'" and "same_files s s'" and "mem_bytes (bytes_in s') p k = replicate k 0"
proof -
  have w: "heap_rep L (heap s)" "in_budget (cost sz + q) (heap s)" "disk_ready bt n h f s" "lingers (heap s)" "0 < bt"
    using assms(1) by (simp_all add: working_def)
  obtain p hp k where m: "malloc_st sz s = Inr (p, s\<lparr>heap := hp\<rparr>)" "heap_rep (insert (p, k) L) hp" "unat sz \<le> k"
      "fresh_region L p k (heap s) hp" "in_budget q hp" "disk_ready bt n h f (s\<lparr>heap := hp\<rparr>)"
      "lingers hp = lingers (heap s)"
    by (rule malloc_step [OF w(1,2) assms(2) w(3)])
  have k: "k < 2 ^ 32" using heap.sizes [OF m(2) insertI1] by simp
  have "hbytes hp (p + of_nat i) = 0" if "i < k" for i
    using m(4) that k by (simp add: fresh_region_def in_range_def u32_less_of_nat unat_of_nat_less)
  then have z: "mem_bytes hp' p k = replicate k 0" if "hp' = hbytes hp" for hp'
    unfolding that by (intro nth_equalityI) (simp_all add: mem_bytes_def)
  show thesis
    using m z w(4,5) safe_malloc [OF m(4)] by (intro that [OF m(1)]) (simp_all add: working_def kept_def low_kept_def same_below_def same_files_def fresh_region_def)
qed

lemma working_read:
  assumes w: "working bt L h f (c + n) q s" and p: "(p, k) \<in> L" "512 * c \<le> k" and cnt: "unat cnt = c" "c \<le> 256"
    and l: "unat lba = l" "l < 2 ^ 28" and bt: "c \<le> 1 \<or> c \<le> bt"
  obtains s' where "ide_read (ata_platform pl ih) h lba p cnt s = Inr s'" and "working bt L h f n q s'" and "kept (L - {(p, k)}) s s'"
    and "low_kept s s'" and "same_files s s'" and "mem_bytes (bytes_in s') p (512 * c) = concat (map f [l..<l + c])"
proof -
  have d: "heap_rep L (heap s)" "in_budget q (heap s)" "disk_ready bt (c + n) h f s" "lingers (heap s)" "0 < bt" "c \<le> bt"
    using w bt by (auto simp: working_def)
  let ?bs = "concat (map f [l..<l + c])"
  obtain s' where r: "ide_read (ata_platform pl ih) h lba p cnt s = Inr s'" "disk_ready bt n h f s'"
      "heap s' = (heap s)\<lparr>hbytes := store_bytes (bytes_in s) p ?bs\<rparr>" "same_files s s'"
    by (rule read_step [OF d(3) cnt l d(6)])
  have len: "length ?bs = 512 * c"
    using d(3) by (simp add: disk_ready_def length_concat comp_def sum_list_triv)
  have L: "insert (p, k) (L - {(p, k)}) = L" using p(1) by auto
  have "store_bytes (bytes_in s) p ?bs a = bytes_in s a" if "safe (L - {(p, k)}) a" for a
    by (rule safe_buffer [of p k "L - {(p, k)}" "heap s"]) (use that d(1) L len p(2) in simp_all)
  moreover have "store_bytes (bytes_in s) p ?bs a = bytes_in s a" if "unat a < 0xC0100000" for a
  proof -
    have "\<not> in_range p (of_nat k) a" using live_high [OF d(1) p(1)] that by (meson not_less)
    then show ?thesis using len p(2) heap.sizes [OF d(1) p(1)] by (auto simp: store_bytes_def in_range_def u32_less_of_nat)
  qed
  moreover have "mem_bytes (store_bytes (bytes_in s) p ?bs) p (512 * c) = ?bs"
  proof (rule nth_equalityI)
    fix i assume "i < length (mem_bytes (store_bytes (bytes_in s) p ?bs) p (512 * c))"
    then show "mem_bytes (store_bytes (bytes_in s) p ?bs) p (512 * c) ! i = ?bs ! i"
      using len cnt(2) store_bytes_nth [of i ?bs "bytes_in s" p] by (simp add: mem_bytes_def)
  qed (simp add: len)
  ultimately show thesis
    using r d(1,2,4,5) heap_rep_bytes by (intro that [OF r(1)]) (simp_all add: working_def kept_def low_kept_def)
qed

lemma working_read_null:
  assumes w: "working bt L h f (1 + n) q s" and l: "unat lba = l" "l < 2 ^ 28"
  obtains s' where "ide_read (ata_platform pl ih) h lba NULL 1 s = Inr s'" and "working bt L h f n q s'" and "kept L s s'"
    and "same_files s s'" and "mem_bytes (bytes_in s') NULL 512 = f l"
proof -
  have d: "heap_rep L (heap s)" "in_budget q (heap s)" "disk_ready bt (1 + n) h f s" "lingers (heap s)" "0 < bt" "1 \<le> bt"
    using w by (simp_all add: working_def)
  have one: "unat (1 :: u32) = 1" "1 \<le> (256 :: nat)" by simp_all
  obtain s' where r: "ide_read (ata_platform pl ih) h lba NULL 1 s = Inr s'" "disk_ready bt n h f s'"
      "heap s' = (heap s)\<lparr>hbytes := store_bytes (bytes_in s) NULL (concat (map f [l..<l + 1]))\<rparr>" "same_files s s'"
    by (rule read_step [OF d(3) one l d(6)])
  have len: "length (f l) = 512" using d(3) by (simp add: disk_ready_def)
  have bs: "concat (map f [l..<l + 1]) = f l" by simp
  have "mem_bytes (store_bytes (bytes_in s) NULL (f l)) NULL 512 = f l"
  proof (rule nth_equalityI)
    fix i assume "i < length (mem_bytes (store_bytes (bytes_in s) NULL (f l)) NULL 512)"
    then show "mem_bytes (store_bytes (bytes_in s) NULL (f l)) NULL 512 ! i = f l ! i"
      using len store_bytes_nth [of i "f l" "bytes_in s" NULL] by (simp add: mem_bytes_def)
  qed (simp add: len)
  then show thesis
    using r d(1,2,4,5) len safe_null [OF d(1)] heap_rep_bytes unfolding bs
    by (intro that [OF r(1)]) (simp_all add: working_def kept_def)
qed

lemma working_free:
  assumes "working bt L h f n q s" and "(p, k) \<in> L"
  obtains s' where "free_st p s = Inr s'" and "working bt (L - {(p, k)}) h f n q s'" and "bytes_in s' = bytes_in s" and "same_files s s'"
proof -
  have d: "heap_rep L (heap s)" "in_budget q (heap s)" "disk_ready bt n h f s" "lingers (heap s)" "0 < bt"
    using assms(1) by (simp_all add: working_def)
  obtain hp where "free_st p s = Inr (s\<lparr>heap := hp\<rparr>)" "heap_rep (L - {(p, k)}) hp" "hbytes hp = bytes_in s" "in_budget q hp"
      "disk_ready bt n h f (s\<lparr>heap := hp\<rparr>)" "lingers hp"
    by (rule free_step [OF d(1) assms(2) d(2,3,4)])
  then show thesis using that d(5) by (simp add: working_def same_files_def)
qed

section \<open>A mounted partition\<close>

lemma root_fields [simp]:
  "root_dir_inode (set_ptn ptn g s) = root_dir_inode s" "inode_max (set_ptn ptn g s) = inode_max s"
  "root_dir_inode (on_mem u s) = root_dir_inode s" "inode_max (on_mem u s) = inode_max s"
  by (simp_all add: set_ptn_def on_mem_def)

lemma kept_super:
  assumes "kept L s s'" and "heap_rep L hp" and "(sb, k) \<in> L" and "512 \<le> k"
  shows "get_super (bytes_in s') sb = get_super (bytes_in s) sb"
proof (rule super_cong)
  fix i :: nat assume "i < 512"
  then have "safe L (sb + of_nat i)" using safe_live [OF assms(3)] heap.sizes [OF assms(2,3)] assms(4) by simp
  then show "bytes_in s' (sb + of_nat i) = bytes_in s (sb + of_nat i)" using assms(1) by (simp add: kept_def)
qed

lemma read_super:
  assumes "mem_bytes m p (512 * 1) = concat (map f [l..<l + 1])"
  shows "get_super m p = get_super (sector_mem (f l)) 0"
  using assms sector_super [of m p] by simp

lemma kept_bytes:
  assumes "kept L s s'" and "heap_rep L hp" and "(p, k) \<in> L" and "n \<le> k"
  shows "mem_bytes (bytes_in s') p n = mem_bytes (bytes_in s) p n"
proof (rule nth_equalityI)
  fix i assume "i < length (mem_bytes (bytes_in s') p n)"
  then have "safe L (p + of_nat i)" "i < n" using safe_live [OF assms(3)] heap.sizes [OF assms(2,3)] assms(4) by simp_all
  then show "mem_bytes (bytes_in s') p n ! i = mem_bytes (bytes_in s) p n ! i"
    using assms(1) by (simp add: kept_def mem_bytes_def)
qed simp

lemma modest_512: "modest 512"
  by (simp add: modest_def)

lemma mount_inodes_run:
  assumes w: "working bt L (ptn_hd (ptn_at s ptn)) f (1 + n) (cost 512 + q) s" and sb: "(sb, k) \<in> L" "512 \<le> k"
    and b: "get_super (bytes_in s) sb = b" "sb_inode_btmp_sec b = 1" and null: "bits (blk_btmp (ptn_at s ptn)) = NULL"
    and l: "unat (sb_inode_btmp_lba b) = l" "l < 2 ^ 28"
  obtains s' ib ki where "mount_inodes (ata_platform pl ih) ptn sb s = Inr s'" and "512 \<le> ki" and "(ib, ki) \<notin> L"
    and "working bt (insert (ib, ki) L) (ptn_hd (ptn_at s ptn)) f n q s'" and "kept L s s'"
    and "ptn_at s' = (ptn_at s)(ptn := (ptn_at s ptn)\<lparr>inode_cnt := sb_inode_cnt b, inode_btmp_lba := sb_inode_btmp_lba b,
      inode_btmp := \<lparr>len = 512, bits = ib\<rparr>, inode_table_lba := sb_inode_table_lba b\<rparr>)"
    and "ptn_nodes s' = ptn_nodes s" and "ide_state.more s' = ide_state.more s"
    and "mem_bytes (bytes_in s') ib ki = replicate ki 0" and "mem_bytes (bytes_in s') NULL 512 = f l"
proof -
  define s1 where "s1 = set_ptn ptn (\<lambda>p. p\<lparr>inode_cnt := sb_inode_cnt b, inode_btmp_lba := sb_inode_btmp_lba b,
            inode_btmp := (inode_btmp p)\<lparr>len := sb_inode_btmp_sec b * SECTOR_SIZE\<rparr>\<rparr>) s"
  have len: "len (inode_btmp (ptn_at s1 ptn)) = 512" using b(2) by (simp add: s1_def SECTOR_SIZE_def)
  have "working bt L (ptn_hd (ptn_at s ptn)) f (1 + n) (cost 512 + q) s1" using w by (simp add: s1_def)
  then obtain ib s2 ki where m: "malloc_st 512 s1 = Inr (ib, s2)" "unat (512 :: u32) \<le> ki" "(ib, ki) \<notin> L"
      "working bt (insert (ib, ki) L) (ptn_hd (ptn_at s ptn)) f (1 + n) q s2" "kept L s1 s2" "low_kept s1 s2" "same_files s1 s2"
      "mem_bytes (bytes_in s2) ib ki = replicate ki 0"
    by (rule working_malloc [OF _ modest_512])
  define s3 where "s3 = set_ptn ptn (\<lambda>p. p\<lparr>inode_btmp := (inode_btmp p)\<lparr>bits := ib\<rparr>\<rparr>) s2"
  have rep: "heap_rep (insert (ib, ki) L) (heap s2)" using m(4) by (simp add: working_def)
  have k3: "kept L s s3" using m(5) by (simp add: s1_def s3_def)
  have "get_super (bytes_in s2) sb = get_super (bytes_in s1) sb"
    by (rule super_cong) (use m(5) sb rep safe_live [OF sb(1)] heap.sizes [OF rep, of sb k] in \<open>simp add: kept_def\<close>)
  then have b3: "get_super (bytes_in s3) sb = b" using b(1) by (simp add: s1_def s3_def)
  have p3: "ptn_at s3 ptn = (ptn_at s ptn)\<lparr>inode_cnt := sb_inode_cnt b, inode_btmp_lba := sb_inode_btmp_lba b,
      inode_btmp := \<lparr>len = 512, bits = ib\<rparr>\<rparr>"
    using m(7) b(2) by (simp add: s3_def s1_def same_files_def SECTOR_SIZE_def)
  then have at3: "ptn_hd (ptn_at s3 ptn) = ptn_hd (ptn_at s ptn)" "inode_btmp_lba (ptn_at s3 ptn) = sb_inode_btmp_lba b"
      "bits (blk_btmp (ptn_at s3 ptn)) = NULL"
    using null by simp_all
  have "working bt (insert (ib, ki) L) (ptn_hd (ptn_at s ptn)) f (1 + n) q s3" using m(4) by (simp add: s3_def)
  then obtain s4 where r: "ide_read (ata_platform pl ih) (ptn_hd (ptn_at s ptn)) (sb_inode_btmp_lba b) NULL 1 s3 = Inr s4"
      "working bt (insert (ib, ki) L) (ptn_hd (ptn_at s ptn)) f n q s4" "kept (insert (ib, ki) L) s3 s4" "same_files s3 s4"
      "mem_bytes (bytes_in s4) NULL 512 = f l"
    by (rule working_read_null [OF _ l])
  have b4: "get_super (bytes_in s4) sb = b" using kept_super [OF r(3) rep _ sb(2)] sb(1) b3 by simp
  have "mem_bytes (bytes_in s4) ib ki = replicate ki 0" using kept_bytes [OF r(3) rep insertI1 order_refl] m(8) by (simp add: s3_def)
  moreover have "mount_inodes (ata_platform pl ih) ptn sb s = Inr (set_ptn ptn (\<lambda>p. p\<lparr>inode_table_lba := sb_inode_table_lba b\<rparr>) s4)"
    unfolding mount_inodes_def Let_def b(1) s1_def [symmetric]
    by (simp only: len m(1) rbind_simps prod.case s3_def [symmetric] b3 b(2) at3 r(1) b4)
  moreover have "kept L s s4" using kept_trans [OF k3 r(3)] by auto
  moreover have "ptn_at s4 = (ptn_at s)(ptn := ptn_at s3 ptn)" "ptn_nodes s4 = ptn_nodes s" "ide_state.more s4 = ide_state.more s"
    using r(4) m(7) by (simp_all add: same_files_def s3_def s1_def)
  ultimately show thesis using m(2,3) r(2,5) p3
    by (intro that [where s' = "set_ptn ptn (\<lambda>p. p\<lparr>inode_table_lba := sb_inode_table_lba b\<rparr>) s4" and ib = ib and ki = ki]) simp_all
qed

lemma mount_blocks_run:
  assumes w: "working bt L (ptn_hd (ptn_at s ptn)) f (c + n) (cost (of_nat (512 * c)) + q) s" and sb: "(sb, k) \<in> L" "512 \<le> k"
    and b: "get_super (bytes_in s) sb = b" "unat (sb_blk_btmp_sec b) = c" and c: "1 \<le> c" "c \<le> 256"
    and l: "unat (sb_blk_btmp_lba b) = l" "l < 2 ^ 28" and bt: "c \<le> bt"
  obtains s' bb kb where "mount_blocks (ata_platform pl ih) ptn sb s = Inr s'" and "512 * c \<le> kb" and "(bb, kb) \<notin> L"
    and "working bt (insert (bb, kb) L) (ptn_hd (ptn_at s ptn)) f n q s'" and "kept L s s'" and "low_kept s s'"
    and "ptn_at s' = (ptn_at s)(ptn := (ptn_at s ptn)\<lparr>blk_btmp_lba := sb_blk_btmp_lba b,
      blk_btmp := \<lparr>len = of_nat (512 * c), bits = bb\<rparr>, blk_lba := sb_blk_lba b\<rparr>)"
    and "ptn_nodes s' = ptn_nodes s" and "ide_state.more s' = ide_state.more s"
    and "mem_bytes (bytes_in s') bb (512 * c) = concat (map f [l..<l + c])"
proof -
  define s1 where "s1 = set_ptn ptn (\<lambda>p. p\<lparr>blk_btmp_lba := sb_blk_btmp_lba b,
            blk_btmp := (blk_btmp p)\<lparr>len := sb_blk_btmp_sec b * SECTOR_SIZE\<rparr>\<rparr>) s"
  have "sb_blk_btmp_sec b = of_nat c" using of_nat_of_unat [OF b(2)] by simp
  then have sz: "sb_blk_btmp_sec b * SECTOR_SIZE = of_nat (512 * c)" by (simp add: SECTOR_SIZE_def mult.commute)
  have len: "len (blk_btmp (ptn_at s1 ptn)) = of_nat (512 * c)" using sz by (simp add: s1_def del: of_nat_mult)
  have md: "modest (of_nat (512 * c))" and un: "unat (of_nat (512 * c) :: u32) = 512 * c"
    using c by (simp_all add: modest_def unat_of_nat_less del: of_nat_mult)
  have "working bt L (ptn_hd (ptn_at s ptn)) f (c + n) (cost (of_nat (512 * c)) + q) s1" using w by (simp add: s1_def del: of_nat_mult)
  then obtain bb s2 kb where m: "malloc_st (of_nat (512 * c)) s1 = Inr (bb, s2)" "unat (of_nat (512 * c) :: u32) \<le> kb" "(bb, kb) \<notin> L"
      "working bt (insert (bb, kb) L) (ptn_hd (ptn_at s ptn)) f (c + n) q s2" "kept L s1 s2" "low_kept s1 s2" "same_files s1 s2"
      "mem_bytes (bytes_in s2) bb kb = replicate kb 0"
    by (rule working_malloc [OF _ md])
  define s3 where "s3 = set_ptn ptn (\<lambda>p. p\<lparr>blk_btmp := (blk_btmp p)\<lparr>bits := bb\<rparr>\<rparr>) s2"
  have rep: "heap_rep (insert (bb, kb) L) (heap s2)" using m(4) by (simp add: working_def)
  have k3: "kept L s s3" using m(5) by (simp add: s1_def s3_def)
  have repL: "heap_rep L (heap s)" using w by (simp add: working_def)
  have b3: "get_super (bytes_in s3) sb = b" using kept_super [OF k3 repL sb] b(1) by simp
  have p3: "ptn_at s3 ptn = (ptn_at s ptn)\<lparr>blk_btmp_lba := sb_blk_btmp_lba b, blk_btmp := \<lparr>len = of_nat (512 * c), bits = bb\<rparr>\<rparr>"
    using m(7) sz by (simp add: s3_def s1_def same_files_def del: of_nat_mult)
  then have at3: "ptn_hd (ptn_at s3 ptn) = ptn_hd (ptn_at s ptn)" "blk_btmp_lba (ptn_at s3 ptn) = sb_blk_btmp_lba b"
      "bits (blk_btmp (ptn_at s3 ptn)) = bb"
    by simp_all
  have kb: "512 * c \<le> kb" using m(2) un by simp
  have "working bt (insert (bb, kb) L) (ptn_hd (ptn_at s ptn)) f (c + n) q s3" using m(4) by (simp add: s3_def)
  then obtain s4 where r: "ide_read (ata_platform pl ih) (ptn_hd (ptn_at s ptn)) (sb_blk_btmp_lba b) bb (sb_blk_btmp_sec b) s3 = Inr s4"
      "working bt (insert (bb, kb) L) (ptn_hd (ptn_at s ptn)) f n q s4" "kept (insert (bb, kb) L - {(bb, kb)}) s3 s4" "low_kept s3 s4" "same_files s3 s4"
      "mem_bytes (bytes_in s4) bb (512 * c) = concat (map f [l..<l + c])"
    by (rule working_read [OF _ insertI1 kb b(2) c(2) l disjI2 [OF bt]])
  have k4: "kept L s3 s4" using r(3) m(3) by (simp add: insert_Diff_if)
  have b4: "get_super (bytes_in s4) sb = b" using kept_super [OF k4 repL sb] b3 by simp
  have "mount_blocks (ata_platform pl ih) ptn sb s = Inr (set_ptn ptn (\<lambda>p. p\<lparr>blk_lba := sb_blk_lba b\<rparr>) s4)"
    unfolding mount_blocks_def Let_def b(1) s1_def [symmetric]
    by (simp only: len m(1) rbind_simps prod.case s3_def [symmetric] b3 at3 r(1) b4)
  moreover have "kept L s s4" by (rule kept_trans [OF k3 k4 order_refl])
  moreover have "ptn_at s4 = (ptn_at s)(ptn := ptn_at s3 ptn)" "ptn_nodes s4 = ptn_nodes s" "ide_state.more s4 = ide_state.more s"
    using r(5) m(7) by (simp_all add: same_files_def s3_def s1_def)
  moreover have "low_kept s s4" using m(6) r(4) by (simp add: low_kept_def s1_def s3_def)
  ultimately show thesis using kb m(3) r(2,6) p3
    by (intro that [where s' = "set_ptn ptn (\<lambda>p. p\<lparr>blk_lba := sb_blk_lba b\<rparr>) s4" and bb = bb and kb = kb])
      (simp_all del: of_nat_mult)
qed

text \<open>What the entry of the root directory depends on, and what it leaves alone.\<close>

lemma store32_point: "m a = m' a \<Longrightarrow> store32 m p w a = store32 m' p w a"
  by (simp add: store32_def)

lemma put_dirent_point: "m a = m' a \<Longrightarrow> put_dirent d name no m a = put_dirent d name no m' a"
  unfolding put_dirent_def by (intro store32_point) (simp add: store_bytes_def)

lemma add_entry_point:
  assumes "\<And>i. i < 4 \<Longrightarrow> m (ri + 4 + of_nat i) = m' (ri + 4 + of_nat i)" and "m a = m' a"
  shows "add_entry d idx name no ri m a = add_entry d idx name no ri m' a"
proof -
  let ?m = "\<lambda>m. put_dirent (dir_at d idx) (name @ [0]) no m"
  have "load32 (?m m) (ri + 4) = load32 (?m m') (ri + 4)"
    by (rule load32_cong) (rule put_dirent_point, rule assms(1))
  then show ?thesis unfolding add_entry_def Let_def by (simp only:) (intro store32_point put_dirent_point assms(2))
qed

lemma free_entry_cong:
  "(\<And>i. idx \<le> i \<Longrightarrow> i < idx + n \<Longrightarrow> dir_type m (dir_at d i) = dir_type m' (dir_at d i)) \<Longrightarrow> free_entry n idx d m = free_entry n idx d m'"
proof (induction n arbitrary: idx)
  case (Suc n)
  have "free_entry n (Suc idx) d m = free_entry n (Suc idx) d m'" by (rule Suc.IH) (use Suc.prems in simp)
  then show ?case using Suc.prems [of idx] by simp
qed simp

text \<open>The partition after mounting with super block \<open>b\<close>: its bitmaps are at \<open>ib\<close> and \<open>bb\<close>, the static
  \<open>inode_max\<close> was \<open>mx\<close>.\<close>

definition mounted_ptn :: "ide_ptn \<Rightarrow> super_block \<Rightarrow> nat \<Rightarrow> u32 \<Rightarrow> ptr \<Rightarrow> ptr \<Rightarrow> ide_ptn" where
  "mounted_ptn p b c mx ib bb =
     p\<lparr>inode_cnt := sb_inode_cnt b,
       inode_btmp_lba := sb_inode_btmp_lba b, inode_btmp := \<lparr>len = 512, bits = ib\<rparr>, inode_table_lba := sb_inode_table_lba b,
       blk_btmp_lba := sb_blk_btmp_lba b, blk_btmp := \<lparr>len = of_nat (512 * c), bits = bb\<rparr>, blk_lba := sb_blk_lba b,
       ptn_mlock := NULL, inode_base := if 0 = inode_base p then mx + 1 else inode_base p\<rparr>"

lemma mount_base_fields:
  assumes "inode_base (ptn_at s ptn) = ino" and "sb_inode_cnt (get_super (bytes_in s) sb) = cnt"
  shows "hw (mount_base ptn sb s) = hw s" "ide_ch (mount_base ptn sb s) = ide_ch s" "heap (mount_base ptn sb s) = heap s"
    and "ptn_nodes (mount_base ptn sb s) = list_init (ptn_nodes s) (ptn_open_inodes ptn)"
    and "ptn_at (mount_base ptn sb s) = (ptn_at s)(ptn := (ptn_at s ptn)\<lparr>ptn_mlock := NULL,
      inode_base := if 0 = ino then inode_max s + 1 else ino\<rparr>)"
    and "root_dir_inode (mount_base ptn sb s) = root_dir_inode s"
    and "inode_max (mount_base ptn sb s) = (if 0 = ino then inode_max s + cnt else inode_max s)"
  using assms by (auto simp: mount_base_def Let_def)

text \<open>A super block that can be mounted: bitmaps of one and of \<open>c\<close> sectors, at \<open>il\<close> and \<open>bl\<close>.\<close>

definition mountable :: "super_block \<Rightarrow> nat \<Rightarrow> nat \<Rightarrow> nat \<Rightarrow> bool" where
  "mountable b c il bl \<longleftrightarrow> sb_inode_btmp_sec b = 1 \<and> unat (sb_blk_btmp_sec b) = c \<and> 1 \<le> c \<and> c \<le> 256 \<and>
     unat (sb_inode_btmp_lba b) = il \<and> il < 2 ^ 28 \<and> unat (sb_blk_btmp_lba b) = bl \<and> bl < 2 ^ 28"

lemma mount_load_run:
  fixes s :: "ata fs_state" and ptn :: ptr
  assumes w: "working bt L h f (1 + (1 + (c + n))) (cost 512 + (cost 512 + (cost (of_nat (512 * c)) + q))) s"
    and h: "h = ptn_hd (ptn_at s ptn)" and sl: "unat (start_lba (ptn_at s ptn) + 1) = sl" "sl < 2 ^ 28"
    and b: "get_super (sector_mem (f sl)) 0 = b" "mountable b c il bl" and null: "bits (blk_btmp (ptn_at s ptn)) = NULL"
    and bt: "c \<le> bt"
  obtains s' sb ks ib ki bb kb where "fs_mount (ata_platform pl ih) ptn s =
      rbind (add_to_root (ptn_name (ptn_at s' ptn)) (inode_base (ptn_at s' ptn)) s') (free_st sb)"
    and "(sb, ks) \<notin> L" and "(ib, ki) \<notin> insert (sb, ks) L" and "(bb, kb) \<notin> insert (ib, ki) (insert (sb, ks) L)"
    and "512 \<le> ki" and "512 * c \<le> kb" and "working bt (insert (bb, kb) (insert (ib, ki) (insert (sb, ks) L))) h f n q s'"
    and "kept L s s'" and "ptn_at s' = (ptn_at s)(ptn := mounted_ptn (ptn_at s ptn) b c (inode_max s) ib bb)"
    and "ptn_nodes s' = list_init (ptn_nodes s) (ptn_open_inodes ptn)" and "root_dir_inode s' = root_dir_inode s"
    and "inode_max s' = (if 0 = inode_base (ptn_at s ptn) then inode_max s + sb_inode_cnt b else inode_max s)"
    and "mem_bytes (bytes_in s') bb (512 * c) = concat (map f [bl..<bl + c])" and "mem_bytes (bytes_in s') ib ki = replicate ki 0"
    and "mem_bytes (bytes_in s') NULL 512 = f il"
proof -
  let ?P = "ata_platform pl ih"
  have mb: "sb_inode_btmp_sec b = 1" "unat (sb_blk_btmp_sec b) = c" "1 \<le> c" "c \<le> 256" "unat (sb_inode_btmp_lba b) = il" "il < 2 ^ 28"
      "unat (sb_blk_btmp_lba b) = bl" "bl < 2 ^ 28" using b(2) by (simp_all add: mountable_def)
  obtain sb s1 ks where m: "malloc_st 512 s = Inr (sb, s1)" "unat (512 :: u32) \<le> ks" "(sb, ks) \<notin> L"
      "working bt (insert (sb, ks) L) h f (1 + (1 + (c + n))) (cost 512 + (cost (of_nat (512 * c)) + q)) s1" "kept L s s1" "low_kept s s1"
      "same_files s s1" "mem_bytes (bytes_in s1) sb ks = replicate ks 0"
    by (rule working_malloc [OF w modest_512])
  have one: "unat (1 :: u32) = 1" "1 \<le> (256 :: nat)" by simp_all
  have ks: "512 * 1 \<le> ks" "512 \<le> ks" using m(2) by simp_all
  obtain s2 where r: "ide_read ?P h (start_lba (ptn_at s ptn) + 1) sb 1 s1 = Inr s2"
      "working bt (insert (sb, ks) L) h f (1 + (c + n)) (cost 512 + (cost (of_nat (512 * c)) + q)) s2"
      "kept (insert (sb, ks) L - {(sb, ks)}) s1 s2" "low_kept s1 s2" "same_files s1 s2"
      "mem_bytes (bytes_in s2) sb (512 * 1) = concat (map f [sl..<sl + 1])"
    by (rule working_read [OF m(4) insertI1 ks(1) one sl disjI1 [OF order_refl]])
  have f2: "ptn_at s2 = ptn_at s" "ptn_nodes s2 = ptn_nodes s" "ide_state.more s2 = ide_state.more s"
    using m(7) r(5) by (simp_all add: same_files_def)
  have k2: "kept L s s2" using kept_trans [OF m(5) r(3)] m(3) by simp
  have b2: "get_super (bytes_in s2) sb = b" using read_super [OF r(6)] b(1) by simp
  have w2: "working bt (insert (sb, ks) L) (ptn_hd (ptn_at s2 ptn)) f (1 + (c + n)) (cost 512 + (cost (of_nat (512 * c)) + q)) s2"
    using r(2) f2(1) h by simp
  have null2: "bits (blk_btmp (ptn_at s2 ptn)) = NULL" using null f2(1) by simp
  obtain s3 ib ki where i: "mount_inodes ?P ptn sb s2 = Inr s3" "512 \<le> ki" "(ib, ki) \<notin> insert (sb, ks) L"
    "working bt (insert (ib, ki) (insert (sb, ks) L)) (ptn_hd (ptn_at s2 ptn)) f (c + n) (cost (of_nat (512 * c)) + q) s3"
    "kept (insert (sb, ks) L) s2 s3"
    "ptn_at s3 = (ptn_at s2)(ptn := (ptn_at s2 ptn)\<lparr>inode_cnt := sb_inode_cnt b, inode_btmp_lba := sb_inode_btmp_lba b,
      inode_btmp := \<lparr>len = 512, bits = ib\<rparr>, inode_table_lba := sb_inode_table_lba b\<rparr>)"
    "ptn_nodes s3 = ptn_nodes s2" "ide_state.more s3 = ide_state.more s2"
    "mem_bytes (bytes_in s3) ib ki = replicate ki 0" "mem_bytes (bytes_in s3) NULL 512 = f il"
    by (rule mount_inodes_run [OF w2 insertI1 ks(2) b2 mb(1) null2 mb(5,6)])
  have rep2: "heap_rep (insert (sb, ks) L) (heap s2)" using r(2) by (simp add: working_def)
  have b3: "get_super (bytes_in s3) sb = b" using kept_super [OF i(5) rep2 insertI1 ks(2)] b2 by simp
  have w3: "working bt (insert (ib, ki) (insert (sb, ks) L)) (ptn_hd (ptn_at s3 ptn)) f (c + n) (cost (of_nat (512 * c)) + q) s3"
    using i(4,6) by simp
  obtain s4 bb kb where j: "mount_blocks ?P ptn sb s3 = Inr s4" "512 * c \<le> kb" "(bb, kb) \<notin> insert (ib, ki) (insert (sb, ks) L)"
    "working bt (insert (bb, kb) (insert (ib, ki) (insert (sb, ks) L))) (ptn_hd (ptn_at s3 ptn)) f n q s4"
    "kept (insert (ib, ki) (insert (sb, ks) L)) s3 s4" "low_kept s3 s4"
    "ptn_at s4 = (ptn_at s3)(ptn := (ptn_at s3 ptn)\<lparr>blk_btmp_lba := sb_blk_btmp_lba b,
      blk_btmp := \<lparr>len = of_nat (512 * c), bits = bb\<rparr>, blk_lba := sb_blk_lba b\<rparr>)"
    "ptn_nodes s4 = ptn_nodes s3" "ide_state.more s4 = ide_state.more s3"
    "mem_bytes (bytes_in s4) bb (512 * c) = concat (map f [bl..<bl + c])"
    by (rule mount_blocks_run [OF w3 _ ks(2) b3 mb(2-4,7,8) bt]) simp_all
  have rep3: "heap_rep (insert (ib, ki) (insert (sb, ks) L)) (heap s3)" using i(4) by (simp add: working_def)
  have k34: "kept (insert (sb, ks) L) s3 s4" using kept_trans [OF kept_refl j(5)] by blast
  have k4: "kept L s s4" using kept_trans [OF kept_trans [OF k2 i(5)] k34] by blast
  have b4: "get_super (bytes_in s4) sb = b" using kept_super [OF j(5) rep3 _ ks(2)] b3 by simp
  have ib4: "mem_bytes (bytes_in s4) ib ki = replicate ki 0" using kept_bytes [OF j(5) rep3 insertI1 order_refl] i(9) by simp
  have "bytes_in s4 (of_nat a) = bytes_in s3 (of_nat a)" if "a < 512" for a :: nat
    using j(6) that unat_of_nat_less [of a] by (simp add: low_kept_def)
  then have "mem_bytes (bytes_in s4) NULL 512 = mem_bytes (bytes_in s3) NULL 512" unfolding mem_bytes_def by (intro map_cong) simp_all
  then have nl4: "mem_bytes (bytes_in s4) NULL 512 = f il" using i(10) by simp
  have rt: "root_dir_inode s4 = root_dir_inode s" "inode_max s4 = inode_max s"
    using more_root [of s4 s] f2(3) i(8) j(9) by simp_all
  let ?s5 = "mount_base ptn sb s4"
  have "inode_base (ptn_at s4 ptn) = inode_base (ptn_at s ptn)" "sb_inode_cnt (get_super (bytes_in s4) sb) = sb_inode_cnt b"
    using j(7) i(6) f2(1) b4 by simp_all
  note mf = mount_base_fields [OF this]
  have w5: "working bt (insert (bb, kb) (insert (ib, ki) (insert (sb, ks) L))) h f n q ?s5"
    using j(4) mf(1-3) disk_ready_cong [of ?s5 s4 bt n h f] i(6) f2(1) h by (simp add: working_def)
  have p5: "ptn_at ?s5 = (ptn_at s)(ptn := mounted_ptn (ptn_at s ptn) b c (inode_max s) ib bb)"
    unfolding mf(5) using j(7) i(6) f2(1) rt(2) by (simp add: mounted_ptn_def del: of_nat_mult)
  have run: "fs_mount ?P ptn s = rbind (add_to_root (ptn_name (ptn_at ?s5 ptn)) (inode_base (ptn_at ?s5 ptn)) ?s5) (free_st sb)"
    using m(7) unfolding fs_mount_def Let_def sizeof_super_block_def
    by (simp only: m(1) rbind_simps prod.case same_files_def r(1) [unfolded h] i(1) j(1))
  have k5: "kept L s ?s5" using k4 mf(3) by (simp add: kept_def)
  show thesis
    using mf rt by (intro that [OF run m(3) i(3) j(3) i(2) j(2) w5 k5 p5])
      (simp_all add: j(10) ib4 nl4 mf f2(2) i(7) j(8))
qed

section \<open>The root directory\<close>

lemma root_kept:
  assumes "kept L s s'" and "root_ok L s" and "heap_rep L hp" and "root_dir_inode s' = root_dir_inode s"
  shows "i < 72 \<Longrightarrow> bytes_in s' (root_dir_inode s + of_nat i) = bytes_in s (root_dir_inode s + of_nat i)"
    and "i_block0 (bytes_in s') (root_dir_inode s') = i_block0 (bytes_in s) (root_dir_inode s)"
    and "free_entry 10 0 (i_block0 (bytes_in s) (root_dir_inode s)) (bytes_in s') =
      free_entry 10 0 (i_block0 (bytes_in s) (root_dir_inode s)) (bytes_in s)"
proof -
  let ?ri = "root_dir_inode s" and ?d = "i_block0 (bytes_in s) (root_dir_inode s)"
  obtain n where n: "(?ri, n) \<in> L" "72 \<le> n" using assms(2) by (auto simp: root_ok_def)
  have d: "0xC0000000 \<le> unat ?d" "unat ?d + 240 \<le> 0xC0076000" "unat ?d + 240 \<le> 0xC0100000" using assms(2) by (simp_all add: root_ok_def)
  have ri: "bytes_in s' (?ri + of_nat i) = bytes_in s (?ri + of_nat i)" if "i < 72" for i
    using safe_live [OF n(1)] heap.sizes [OF assms(3) n(1)] n(2) that assms(1) by (simp add: kept_def)
  then show "i < 72 \<Longrightarrow> bytes_in s' (?ri + of_nat i) = bytes_in s (?ri + of_nat i)" .
  have "load32 (bytes_in s') (?ri + of_nat 8) = load32 (bytes_in s) (?ri + of_nat 8)" by (rule load32_at_cong) (rule ri, simp)
  then show "i_block0 (bytes_in s') (root_dir_inode s') = ?d" using assms(4) by (simp add: i_block0_def)
  have dd: "bytes_in s' (?d + of_nat i) = bytes_in s (?d + of_nat i)" if "i < 240" for i
    using low_offset [OF d(3) that] d assms(1) that by (simp add: kept_def safe_def)
  have "dir_type (bytes_in s') (dir_at ?d i) = dir_type (bytes_in s) (dir_at ?d i)" if "i < 10" for i
    unfolding dir_at_offset by (rule dirent_cong(2)) (use that in \<open>intro dd, simp\<close>)
  then show "free_entry 10 0 ?d (bytes_in s') = free_entry 10 0 ?d (bytes_in s)" by (intro free_entry_cong) simp
qed

text \<open>Adding an entry leaves alone the first sector of memory and every live region but the inode.\<close>

lemma add_entry_frame:
  assumes root: "root_ok L s" and rep: "heap_rep L hp" and d: "d = i_block0 (bytes_in s) (root_dir_inode s)"
    and idx: "idx < 10" and name: "length name < 16"
  shows "unat a < 512 \<Longrightarrow> add_entry d idx name no (root_dir_inode s) m a = m a"
    and "heap_rep L' (hp' :: heap_state) \<Longrightarrow> L \<subseteq> L' \<Longrightarrow> (p, k) \<in> L' \<Longrightarrow> (p, k) \<notin> L \<Longrightarrow> i < k \<Longrightarrow>
      add_entry d idx name no (root_dir_inode s) m (p + of_nat i) = m (p + of_nat i)"
proof -
  let ?ri = "root_dir_inode s"
  obtain n where n: "(?ri, n) \<in> L" "72 \<le> n" using root by (auto simp: root_ok_def)
  have db: "0xC0000000 \<le> unat d" "unat d + 240 \<le> 0xC0100000" "unat d + 240 \<le> 0xC0076000" using root by (simp_all add: root_ok_def d)
  have inode: "in_range ?ri (of_nat n) a" if "\<not> 4 \<le> unat (a - (?ri + 4))" for a
  proof -
    have e: "a - ?ri = (a - (?ri + 4)) + 4" by simp
    have "unat (a - ?ri) = unat (a - (?ri + 4)) + 4" unfolding e by (subst unat_add_small) (use that in simp_all)
    then show ?thesis using that n(2) heap.sizes [OF rep n(1)] by (simp add: in_range_def u32_less_of_nat)
  qed
  show "add_entry d idx name no ?ri m a = m a" if a: "unat a < 512"
  proof (rule add_entry_other [OF db(2) idx name])
    show "unat a < unat d + 24 * idx \<or> unat d + 24 * idx + 24 \<le> unat a" using a db(1) by simp
    show "4 \<le> unat (a - (?ri + 4))"
    proof (rule ccontr)
      assume "\<not> 4 \<le> unat (a - (?ri + 4))"
      then have "0xC0100000 \<le> unat a" by (intro live_high [OF rep n(1)] inode)
      then show False using a by simp
    qed
  qed
  show "add_entry d idx name no ?ri m (p + of_nat i) = m (p + of_nat i)"
    if r: "heap_rep L' (hp' :: heap_state)" "L \<subseteq> L'" "(p, k) \<in> L'" "(p, k) \<notin> L" "i < k"
  proof (rule add_entry_other [OF db(2) idx name])
    have k: "k < 2 ^ 32" using heap.sizes [OF r(1,3)] by simp
    have i: "in_range p (of_nat k) (p + of_nat i)" using r(5) k by (simp add: in_range_def u32_less_of_nat unat_of_nat_less)
    have "0xC0100000 \<le> unat (p + of_nat i)" by (rule live_high [OF r(1,3) i])
    then show "unat (p + of_nat i) < unat d + 24 * idx \<or> unat d + 24 * idx + 24 \<le> unat (p + of_nat i)" using db(2) idx by simp
    have "(?ri, n) \<in> L'" using r(2) n(1) by blast
    then show "4 \<le> unat (p + of_nat i - (?ri + 4))"
      using heap.disjoint [OF r(1,3) _ i] inode [of "p + of_nat i"] n(1) r(4) by blast
  qed
qed

lemma mount_run:
  fixes s :: "ata fs_state" and ptn :: ptr
  assumes w: "working bt L (ptn_hd (ptn_at s ptn)) f (1 + (1 + (c + n))) (cost 512 + (cost 512 + (cost (of_nat (512 * c)) + q))) s"
    and sl: "unat (start_lba (ptn_at s ptn) + 1) = sl" "sl < 2 ^ 28"
    and b: "get_super (sector_mem (f sl)) 0 = b" "mountable b c il bl" and null: "bits (blk_btmp (ptn_at s ptn)) = NULL"
    and root: "root_ok L s" and name: "length (ptn_name (ptn_at s ptn)) < 16"
    and d: "d = i_block0 (bytes_in s) (root_dir_inode s)" and idx: "idx = free_entry ROOT_DIR_MAX 0 d (bytes_in s)" "idx < 10"
    and bt: "c \<le> bt"
  obtains s' ib bb L' where "fs_mount (ata_platform pl ih) ptn s = Inr s'"
    and "working bt L' (ptn_hd (ptn_at s ptn)) f n q s'" and "L \<subseteq> L'"
    and "ptn_at s' = (ptn_at s)(ptn := mounted_ptn (ptn_at s ptn) b c (inode_max s) ib bb)"
    and "ptn_nodes s' = list_init (ptn_nodes s) (ptn_open_inodes ptn)" and "root_dir_inode s' = root_dir_inode s"
    and "inode_max s' = (if 0 = inode_base (ptn_at s ptn) then inode_max s + sb_inode_cnt b else inode_max s)"
    and "mem_bytes (bytes_in s') bb (512 * c) = concat (map f [bl..<bl + c])" and "mem_bytes (bytes_in s') ib 512 = replicate 512 0"
    and "mem_bytes (bytes_in s') NULL 512 = f il"
    and "\<forall>a. safe L a \<longrightarrow> bytes_in s' a = add_entry d idx (ptn_name (ptn_at s ptn))
      (if 0 = inode_base (ptn_at s ptn) then inode_max s + 1 else inode_base (ptn_at s ptn)) (root_dir_inode s) (bytes_in s) a"
proof -
  let ?P = "ata_platform pl ih" and ?ri = "root_dir_inode s" and ?p = "ptn_at s ptn"
  let ?no = "if 0 = inode_base ?p then inode_max s + 1 else inode_base ?p"
  obtain s1 sb ks ib ki bb kb where m: "fs_mount ?P ptn s =
      rbind (add_to_root (ptn_name (ptn_at s1 ptn)) (inode_base (ptn_at s1 ptn)) s1) (free_st sb)"
    "(sb, ks) \<notin> L" "(ib, ki) \<notin> insert (sb, ks) L" "(bb, kb) \<notin> insert (ib, ki) (insert (sb, ks) L)"
    "512 \<le> ki" "512 * c \<le> kb" "working bt (insert (bb, kb) (insert (ib, ki) (insert (sb, ks) L))) (ptn_hd ?p) f n q s1"
    "kept L s s1" "ptn_at s1 = (ptn_at s)(ptn := mounted_ptn ?p b c (inode_max s) ib bb)"
    "ptn_nodes s1 = list_init (ptn_nodes s) (ptn_open_inodes ptn)" "root_dir_inode s1 = ?ri"
    "inode_max s1 = (if 0 = inode_base ?p then inode_max s + sb_inode_cnt b else inode_max s)"
    "mem_bytes (bytes_in s1) bb (512 * c) = concat (map f [bl..<bl + c])" "mem_bytes (bytes_in s1) ib ki = replicate ki 0"
    "mem_bytes (bytes_in s1) NULL 512 = f il"
    by (rule mount_load_run [OF w refl sl b null bt])
  define L1 where "L1 = insert (bb, kb) (insert (ib, ki) (insert (sb, ks) L))"
  have rep: "heap_rep L (heap s)" "heap_rep L1 (heap s1)" using w m(7) by (simp_all add: working_def L1_def)
  note rk = root_kept [OF m(8) root rep(1) m(11)]
  define s2 where "s2 = on_mem (add_entry d idx (ptn_name ?p) ?no ?ri) s1"
  have at1: "ptn_name (ptn_at s1 ptn) = ptn_name ?p" "inode_base (ptn_at s1 ptn) = ?no" using m(9) by (simp_all add: mounted_ptn_def)
  have add: "add_to_root (ptn_name (ptn_at s1 ptn)) (inode_base (ptn_at s1 ptn)) s1 = Inr s2"
    using rk(2,3) idx m(11) unfolding at1 by (simp add: add_to_root_def s2_def ROOT_DIR_MAX_def flip: d)
  have f2: "hw s2 = hw s1" "ide_ch s2 = ide_ch s1" "ptn_at s2 = ptn_at s1" "ptn_nodes s2 = ptn_nodes s1" "root_dir_inode s2 = ?ri"
      "inode_max s2 = inode_max s1" "heap s2 = (heap s1)\<lparr>hbytes := add_entry d idx (ptn_name ?p) ?no ?ri (bytes_in s1)\<rparr>"
    using m(11) by (simp_all add: s2_def)
  have w2: "working bt L1 (ptn_hd ?p) f n q s2"
    using m(7) disk_ready_cong [of s2 s1 bt n "ptn_hd ?p" f] f2 heap_rep_bytes by (simp add: working_def flip: L1_def)
  have sbL: "(sb, ks) \<in> L1" by (simp add: L1_def)
  obtain s3 where fr: "free_st sb s2 = Inr s3" "working bt (L1 - {(sb, ks)}) (ptn_hd ?p) f n q s3" "bytes_in s3 = bytes_in s2" "same_files s2 s3"
    by (rule working_free [OF w2 sbL])
  have sub: "L \<subseteq> L1" "L \<subseteq> L1 - {(sb, ks)}" using m(2) by (auto simp: L1_def)
  note frame = add_entry_frame [OF root rep(1) d idx(2) name]
  have hb: "bytes_in s3 = add_entry d idx (ptn_name ?p) ?no ?ri (bytes_in s1)" using fr(3) f2(7) by simp
  have reg: "bytes_in s3 (p + of_nat i) = bytes_in s1 (p + of_nat i)" if "(p, k) \<in> L1" "(p, k) \<notin> L" "i < k" for p k i
    unfolding hb using frame(2) [OF rep(2) sub(1) that] by simp
  have "mem_bytes (bytes_in s3) bb (512 * c) = mem_bytes (bytes_in s1) bb (512 * c)"
    unfolding mem_bytes_def by (intro map_cong refl reg [of bb kb]) (use m(4,6) in \<open>auto simp: L1_def\<close>)
  moreover have "mem_bytes (bytes_in s3) ib 512 = mem_bytes (bytes_in s1) ib 512"
    unfolding mem_bytes_def by (intro map_cong refl reg [of ib ki]) (use m(3,5) in \<open>auto simp: L1_def\<close>)
  moreover have "mem_bytes (bytes_in s1) ib 512 = take 512 (mem_bytes (bytes_in s1) ib ki)"
    unfolding mem_bytes_def using m(5) by (simp add: take_map)
  moreover have "mem_bytes (bytes_in s3) NULL 512 = mem_bytes (bytes_in s1) NULL 512"
    unfolding mem_bytes_def hb by (intro map_cong refl) (simp add: frame(1) unat_of_nat_less)
  moreover have "bytes_in s3 a = add_entry d idx (ptn_name ?p) ?no ?ri (bytes_in s) a" if "safe L a" for a
    unfolding hb
  proof (rule add_entry_point)
    show "bytes_in s1 (?ri + 4 + of_nat i) = bytes_in s (?ri + 4 + of_nat i)" if "i < 4" for i
      using rk(1) [of "4 + i"] that by (simp add: add.assoc)
    show "bytes_in s1 a = bytes_in s a" using m(8) that by (simp add: kept_def)
  qed
  moreover have "root_dir_inode s3 = ?ri \<and> inode_max s3 = inode_max s1"
    using more_root [of s3 s2] fr(4) f2(5,6) by (simp add: same_files_def)
  ultimately show thesis using fr sub(2) m(5,9-15) f2(3,4) add m(1)
    by (intro that [of s3 "L1 - {(sb, ks)}" ib bb]) (simp_all add: same_files_def)
qed

lemma empty_dir_cong: "mem_bytes m d 512 = mem_bytes m' d' 512 \<Longrightarrow> empty_dir m d = empty_dir m' d'"
  by (metis empty_dir_sector)

lemma empty_dir_free: "empty_dir m d \<Longrightarrow> free_entry ROOT_DIR_MAX 0 d m = 2"
  by (simp add: empty_dir_def ROOT_DIR_MAX_def FT_DIR_def FT_UNKNOWN_def eval_nat_numeral)

lemma root_dir_init_run:
  fixes s :: "ata fs_state"
  assumes w: "working bt L h f n (cost 72 + q) s" and rb: "0xC0000000 \<le> unat rb" "unat rb + 4096 \<le> 0xC0076000"
    and off: "spares rb (heap s)"
  obtains s' k where "root_dir_init rb s = Inr s'" and "working bt (insert (root_dir_inode s', k) L) h f n q s'"
    and "root_ok (insert (root_dir_inode s', k) L) s'" and "i_block0 (bytes_in s') (root_dir_inode s') = rb"
    and "i_size (bytes_in s') (root_dir_inode s') = 2 * sizeof_dirent" and "empty_dir (bytes_in s') rb"
    and "\<forall>i. 48 \<le> i \<longrightarrow> i < 4096 \<longrightarrow> bytes_in s' (rb + of_nat i) = 0" and "ptn_at s' = ptn_at s" and "\<forall>q. \<not> in_range rb 4096 q \<longrightarrow> ptn_nodes s' q = ptn_nodes s q"
    and "inode_max s' = inode_max s" and "(root_dir_inode s', k) \<notin> L"
proof -
  have md: "modest 72" by (simp add: modest_def)
  obtain ri s1 k where m: "malloc_st 72 s = Inr (ri, s1)" "unat (72 :: u32) \<le> k" "(ri, k) \<notin> L" "working bt (insert (ri, k) L) h f n q s1"
      "kept L s s1" "low_kept s s1" "same_files s s1" "mem_bytes (bytes_in s1) ri k = replicate k 0"
    by (rule working_malloc [OF w md])
  have k1: "k_mem_block (heap s1) = k_mem_block (heap s)"
    using m(1) sys_malloc_lingers(2) by (auto simp: malloc_st_def rbind_Inr_iff split: sum.splits)
  let ?m1 = "memset (bytes_in s1) rb 0 4096"
  let ?m2 = "put_dots rb ?m1"
  let ?m3 = "put_words ri [0, sizeof_dirent * 2, rb] ?m2"
  let ?m4 = "store32 ?m3 (ri + 60) 0"
  define s2 where "s2 = (on_mem (\<lambda>m. store32 (put_words ri [0, sizeof_dirent * 2, rb] (put_dots rb m)) (ri + 60) 0)
           (clear_static rb BLOCK_SIZE s1))\<lparr>root_dir_inode := ri, root_dir_pos := 0\<rparr>"
  have run: "root_dir_init rb s = Inr s2"
    using m(1) by (simp add: root_dir_init_def sizeof_inode_sys_def s2_def)
  have hb: "heap s2 = (clear_data rb 4096 (heap s1))\<lparr>hbytes := ?m4\<rparr>" "bytes_in s2 = ?m4"
    by (simp_all add: s2_def on_mem_def BLOCK_SIZE_def)
  have f2: "hw s2 = hw s1" "ide_ch s2 = ide_ch s1" "ptn_at s2 = ptn_at s" "root_dir_inode s2 = ri" "inode_max s2 = inode_max s"
    and nodes: "\<forall>q. \<not> in_range rb 4096 q \<longrightarrow> ptn_nodes s2 q = ptn_nodes s q"
    using m(7) more_root [of s1 s] by (simp_all add: s2_def on_mem_def clear_static_def same_files_def BLOCK_SIZE_def)
  have "heap_rep (insert (ri, k) L) (clear_data rb 4096 (heap s1))"
    by (rule heap_rep_clear) (use m(4) rb off k1 in \<open>simp_all add: working_def spares_def\<close>)
  then have w2: "working bt (insert (ri, k) L) h f n q s2"
    using m(4) disk_ready_cong [of s2 s1 bt n h f] f2 heap_rep_bytes by (simp add: working_def in_budget_def hb(1))
  have rep: "heap_rep (insert (ri, k) L) (heap s1)" using m(4) by (simp add: working_def)
  have k: "72 \<le> k" "k < 2 ^ 32" using m(2) heap.sizes [OF rep insertI1] by simp_all
  have high: "4 * 16 \<le> unat (a - ri)" if "unat a < 0xC0100000" for a
  proof (rule ccontr)
    assume "\<not> 4 * 16 \<le> unat (a - ri)"
    then have "in_range ri (of_nat k) a" using k by (simp add: in_range_def u32_less_of_nat)
    then have "0xC0100000 \<le> unat a" by (rule live_high [OF rep insertI1])
    then show False using that by simp
  qed
  have low: "?m4 a = ?m2 a" if "unat a < 0xC0100000" for a
  proof -
    have "4 \<le> unat (a - (ri + 60))" using outside_shift [of 60 a ri] high [OF that] by simp
    then have "?m4 a = ?m3 a" by (rule store32_outside)
    also have "\<dots> = ?m2 a" by (rule put_words_other) (use high [OF that] in simp)
    finally show ?thesis .
  qed
  have rbi: "unat (rb + of_nat i) = unat rb + i" if "i < 4096" for i
    using rb that by (subst unat_add_small) (simp_all add: unat_of_nat_less)
  have z: "?m1 (rb + of_nat i) = 0" if "i < 4096" for i
    using that by (simp add: memset_apply in_range_def word_less_nat_alt unat_of_nat_less)
  have same: "mem_bytes ?m4 rb 512 = mem_bytes ?m2 rb 512"
    unfolding mem_bytes_def by (intro map_cong refl low) (use rbi rb in simp)
  have "empty_dir ?m2 rb" by (rule dots_empty_dir, rule z, simp)
  then have e: "empty_dir ?m4 rb" by (simp only: empty_dir_cong [OF same])
  have rest: "?m4 (rb + of_nat i) = 0" if "48 \<le> i" "i < 4096" for i
  proof -
    have "?m4 (rb + of_nat i) = ?m2 (rb + of_nat i)" by (rule low) (use rbi [OF that(2)] that(2) rb in simp)
    also have "\<dots> = ?m1 (rb + of_nat i)"
      unfolding put_dots_def dir_at_offset by (rule trans; rule put_dirent_other) (use that in simp_all)
    finally show ?thesis using z that(2) by simp
  qed
  have "load32 ?m4 (ri + of_nat c) = load32 ?m3 (ri + of_nat c)" if "c \<le> 8" for c
    by (rule load32_at_cong) (use that store32_at_other [where c = 60 and d = ri] in simp)
  from this [of 4] this [of 8]
  have w3: "load32 ?m4 (ri + 4) = sizeof_dirent * 2" "load32 ?m4 (ri + 8) = rb"
    using load32_put_words [of 1 "[0, sizeof_dirent * 2, rb]" ri ?m2] load32_put_words [of 2 "[0, sizeof_dirent * 2, rb]" ri ?m2] by simp_all
  then have i: "i_block0 (bytes_in s2) ri = rb" "i_size (bytes_in s2) ri = 2 * sizeof_dirent"
    by (simp_all add: hb(2) i_block0_def i_size_def)
  have "root_ok (insert (ri, k) L) s2" using i(1) rb k by (auto simp: root_ok_def f2(4))
  then show thesis using w2 i e rest f2 nodes m(3) by (intro that [OF run]) (simp_all add: hb(2))
qed

text \<open>Structures in the root directory read the same when the bytes there are the same.\<close>

lemma root_bytes:
  assumes root: "root_ok L s" and rep: "heap_rep L hp" and d: "d = i_block0 (bytes_in s) (root_dir_inode s)"
    and same: "\<forall>a. safe L a \<longrightarrow> m' a = m a"
  shows "i_size m' (root_dir_inode s) = i_size m (root_dir_inode s)" "i_block0 m' (root_dir_inode s) = i_block0 m (root_dir_inode s)"
    and "i < 10 \<Longrightarrow> dir_no m' (dir_at d i) = dir_no m (dir_at d i)" "i < 10 \<Longrightarrow> dir_type m' (dir_at d i) = dir_type m (dir_at d i)"
    and "i < 10 \<Longrightarrow> length name < 16 \<Longrightarrow> dir_named m' (dir_at d i) name = dir_named m (dir_at d i) name"
proof -
  let ?ri = "root_dir_inode s"
  obtain n where n: "(?ri, n) \<in> L" "72 \<le> n" using root by (auto simp: root_ok_def)
  have db: "0xC0000000 \<le> unat d" "unat d + 240 \<le> 0xC0100000" "unat d + 240 \<le> 0xC0076000" using root by (simp_all add: root_ok_def d)
  have ri: "m' (?ri + of_nat i) = m (?ri + of_nat i)" if "i < 72" for i
    using safe_live [OF n(1)] heap.sizes [OF rep n(1)] n(2) that same by simp
  have "load32 m' (?ri + of_nat 4) = load32 m (?ri + of_nat 4)" "load32 m' (?ri + of_nat 8) = load32 m (?ri + of_nat 8)"
    by (rule load32_at_cong, rule ri, simp)+
  then show "i_size m' ?ri = i_size m ?ri" "i_block0 m' ?ri = i_block0 m ?ri" by (simp_all add: i_size_def i_block0_def)
  have dd: "m' (d + of_nat i) = m (d + of_nat i)" if "i < 240" for i
    by (rule same [rule_format]) (use low_offset [OF db(2) that] db that in \<open>simp add: safe_def\<close>)
  have w: "m' (d + of_nat j) = m (d + of_nat j)" if "i < 10" "24 * i \<le> j" "j < 24 * i + 24" for i j
    by (rule dd) (use that in simp)
  show "i < 10 \<Longrightarrow> dir_no m' (dir_at d i) = dir_no m (dir_at d i)" "i < 10 \<Longrightarrow> dir_type m' (dir_at d i) = dir_type m (dir_at d i)"
    "i < 10 \<Longrightarrow> length name < 16 \<Longrightarrow> dir_named m' (dir_at d i) name = dir_named m (dir_at d i) name"
    unfolding dir_at_offset by (intro dirent_cong, rule w; simp)+
qed

section \<open>Unmounting\<close>

lemma named_entry_least:
  "named_entry n idx dir name m = j \<Longrightarrow> j < idx + n \<Longrightarrow> idx \<le> j \<and> dir_named m (dir_at dir j) name \<and>
     (\<forall>i. idx \<le> i \<longrightarrow> i < j \<longrightarrow> \<not> dir_named m (dir_at dir i) name)"
proof (induction n arbitrary: idx)
  case (Suc n)
  show ?case
  proof (cases "dir_named m (dir_at dir idx) name")
    case True
    then show ?thesis using Suc.prems by auto
  next
    case False
    then have "named_entry n (Suc idx) dir name m = j" "j < Suc idx + n" using Suc.prems by simp_all
    from Suc.IH [OF this] show ?thesis using False by (auto simp: le_Suc_eq Suc_le_eq nat_less_le dest: sym)
  qed
qed auto

lemma named_entry_cong:
  "(\<And>i. idx \<le> i \<Longrightarrow> i < idx + n \<Longrightarrow> dir_named m (dir_at d i) name = dir_named m' (dir_at d i) name) \<Longrightarrow>
     named_entry n idx d name m = named_entry n idx d name m'"
proof (induction n arbitrary: idx)
  case (Suc n)
  have "named_entry n (Suc idx) d name m = named_entry n (Suc idx) d name m'" by (rule Suc.IH) (use Suc.prems in simp)
  then show ?case using Suc.prems [of idx] by simp
qed simp

text \<open>The entry is marked free and the size goes down; names, numbers and the other entries stay.\<close>

definition drop_entry :: "ptr \<Rightarrow> nat \<Rightarrow> ptr \<Rightarrow> mem \<Rightarrow> mem" where
  "drop_entry d idx ri m =
     (let m1 = store32 m (dir_at d idx + 20) FT_UNKNOWN
      in store32 m1 (ri + 4) (load32 m1 (ri + 4) - sizeof_dirent))"

lemma drop_entry_run:
  assumes d: "unat d + 240 \<le> 0xC0100000" and idx: "idx < 10" and ri: "\<And>i. i < 72 \<Longrightarrow> 0xC0100000 \<le> unat (ri + of_nat i)"
  shows "dir_type (drop_entry d idx ri m) (dir_at d idx) = FT_UNKNOWN"
    and "j < 10 \<Longrightarrow> dir_no (drop_entry d idx ri m) (dir_at d j) = dir_no m (dir_at d j)"
    and "j < 10 \<Longrightarrow> length name < 16 \<Longrightarrow> dir_named (drop_entry d idx ri m) (dir_at d j) name = dir_named m (dir_at d j) name"
    and "j < 10 \<Longrightarrow> j \<noteq> idx \<Longrightarrow> dir_type (drop_entry d idx ri m) (dir_at d j) = dir_type m (dir_at d j)"
    and "i_size (drop_entry d idx ri m) ri = i_size m ri - sizeof_dirent"
    and "i_block0 (drop_entry d idx ri m) ri = i_block0 m ri"
proof -
  let ?m1 = "store32 m (dir_at d idx + 20) FT_UNKNOWN" and ?m2 = "drop_entry d idx ri m"
  have at: "dir_at d idx + 20 = d + of_nat (24 * idx + 20)" by (simp add: dir_at_offset add.assoc)
  have off: "4 \<le> unat (q - (ri + 4))" if "unat q < 0xC0100000" for q
  proof (rule ccontr)
    assume a: "\<not> 4 \<le> unat (q - (ri + 4))"
    then have "0xC0100000 \<le> unat (ri + of_nat (4 + unat (q - (ri + 4))))" by (intro ri) simp
    then show False using that by simp
  qed
  have m2: "?m2 (d + of_nat i) = ?m1 (d + of_nat i)" if "i < 240" for i
    using off [of "d + of_nat i"] low_offset [OF d that] that d by (simp add: drop_entry_def Let_def store32_outside)
  have m1: "?m1 (d + of_nat i) = m (d + of_nat i)" if "i < 240" "\<not> (24 * idx + 20 \<le> i \<and> i < 24 * idx + 24)" for i
    unfolding at by (rule store32_at_other) (use that idx in auto)
  have "load32 ?m2 (d + of_nat (24 * idx + 20)) = load32 ?m1 (d + of_nat (24 * idx + 20))"
    by (rule load32_at_cong) (rule m2, use idx in simp)
  then show "dir_type ?m2 (dir_at d idx) = FT_UNKNOWN" unfolding dir_type_def at by (simp add: load32_store32)
  show "dir_no ?m2 (dir_at d j) = dir_no m (dir_at d j)" if j: "j < 10"
  proof -
    have "load32 ?m2 (d + of_nat (24 * j)) = load32 m (d + of_nat (24 * j))"
    proof (rule load32_at_cong)
      fix i assume i: "24 * j \<le> i" "i < 24 * j + 4"
      have "\<not> (24 * idx + 20 \<le> i \<and> i < 24 * idx + 24)" using i by (cases "j \<le> idx"; linarith)
      then show "?m2 (d + of_nat i) = m (d + of_nat i)" using m2 [of i] m1 [of i] i j by simp
    qed
    then show ?thesis by (simp add: dir_no_def dir_at_offset)
  qed
  show "dir_type ?m2 (dir_at d j) = dir_type m (dir_at d j)" if j: "j < 10" "j \<noteq> idx"
  proof -
    have "?m2 (d + of_nat i) = m (d + of_nat i)" if i: "24 * j \<le> i" "i < 24 * j + 24" for i
    proof -
      have "\<not> (24 * idx + 20 \<le> i \<and> i < 24 * idx + 24)" using i j(2) by (cases "j \<le> idx"; linarith)
      then show ?thesis using m2 [of i] m1 [of i] i j(1) by simp
    qed
    then show ?thesis unfolding dir_at_offset by (rule dirent_cong(2))
  qed
  show "dir_named ?m2 (dir_at d j) name = dir_named m (dir_at d j) name" if j: "j < 10" and name: "length name < 16"
  proof -
    have "?m2 (d + of_nat (24 * j + (4 + i))) = m (d + of_nat (24 * j + (4 + i)))" if i: "i < 16" for i
    proof -
      have "\<not> (24 * idx + 20 \<le> 24 * j + (4 + i) \<and> 24 * j + (4 + i) < 24 * idx + 24)" using i by (cases "j \<le> idx"; linarith)
      then show ?thesis using m2 [of "24 * j + (4 + i)"] m1 [of "24 * j + (4 + i)"] i j by simp
    qed
    then have "?m2 (dir_at d j + 4 + of_nat i) = m (dir_at d j + 4 + of_nat i)" if "i < 16" for i
      using that by (simp add: dir_at_offset add.assoc)
    then have "mem_bytes ?m2 (dir_at d j + 4) (Suc (length name)) = mem_bytes m (dir_at d j + 4) (Suc (length name))"
      unfolding mem_bytes_def by (intro map_cong refl) (use name in auto)
    then show ?thesis by (simp add: dir_named_def)
  qed
  have e: "unat (d + of_nat (24 * idx + 20)) = unat d + (24 * idx + 20)" by (rule low_offset [OF d]) (use idx in simp)
  have far: "?m1 (ri + of_nat i) = m (ri + of_nat i)" if "i < 72" for i
    unfolding at
  proof (rule store32_outside)
    have "unat (d + of_nat (24 * idx + 20)) + 4 \<le> unat (ri + of_nat i)" using ri [OF that] e d idx by linarith
    then show "4 \<le> unat (ri + of_nat i - (d + of_nat (24 * idx + 20)))" by (subst unat_sub_small) simp_all
  qed
  have "load32 ?m1 (ri + of_nat 4) = load32 m (ri + of_nat 4)" by (rule load32_at_cong) (rule far, simp)
  then show "i_size ?m2 ri = i_size m ri - sizeof_dirent"
    by (simp add: drop_entry_def Let_def i_size_def load32_store32)
  have "load32 ?m2 (ri + of_nat 8) = load32 ?m1 (ri + of_nat 8)"
    unfolding drop_entry_def Let_def
    by (rule load32_at_cong) (use store32_at_other [where c = 4 and d = ri] in simp)
  also have "\<dots> = load32 m (ri + of_nat 8)" by (rule load32_at_cong) (rule far, simp)
  finally show "i_block0 ?m2 ri = i_block0 m ri" by (simp add: i_block0_def)
qed

lemma root_high:
  assumes "root_ok L s" and "heap_rep L hp" and "i < 72"
  shows "0xC0100000 \<le> unat (root_dir_inode s + of_nat i)"
proof -
  obtain n where n: "(root_dir_inode s, n) \<in> L" "72 \<le> n" using assms(1) by (auto simp: root_ok_def)
  have "n < 2 ^ 32" using heap.sizes [OF assms(2) n(1)] by simp
  then show ?thesis
    using n(2) assms(3) by (intro live_high [OF assms(2) n(1)]) (simp add: in_range_def u32_less_of_nat unat_of_nat_less)
qed

lemma unmount_run:
  assumes root: "root_ok L s" and rep: "heap_rep L (heap s)" and d: "d = i_block0 (bytes_in s) (root_dir_inode s)"
    and name: "length (ptn_name (ptn_at s ptn)) < 16"
    and idx: "idx = named_entry ROOT_DIR_MAX 0 d (ptn_name (ptn_at s ptn)) (bytes_in s)" "idx < 10"
  shows "bytes_in (fs_unmount ptn s) = drop_entry d idx (root_dir_inode s) (bytes_in s)"
    and "root_ok L (fs_unmount ptn s)" and "heap_rep L (heap (fs_unmount ptn s))"
    and "i_block0 (bytes_in (fs_unmount ptn s)) (root_dir_inode (fs_unmount ptn s)) = d"
    and "named_entry ROOT_DIR_MAX 0 d (ptn_name (ptn_at s ptn)) (bytes_in (fs_unmount ptn s)) = idx"
    and "ptn_at (fs_unmount ptn s) = ptn_at s" and "root_dir_inode (fs_unmount ptn s) = root_dir_inode s"
proof -
  let ?s = "fs_unmount ptn s" and ?ri = "root_dir_inode s"
  have db: "0xC0000000 \<le> unat d" "unat d + 240 \<le> 0xC0100000" "unat d + 240 \<le> 0xC0076000" using root by (simp_all add: root_ok_def d)
  note dr = drop_entry_run [OF db(2) idx(2) root_high [OF root rep]]
  have eq: "?s = on_mem (drop_entry d idx ?ri) s"
    using idx by (simp add: fs_unmount_def Let_def drop_entry_def [abs_def] ROOT_DIR_MAX_def flip: d)
  show hb: "bytes_in ?s = drop_entry d idx ?ri (bytes_in s)" by (simp add: eq on_mem_def)
  show "heap_rep L (heap ?s)" using rep heap_rep_bytes by (simp add: eq on_mem_def)
  show ri: "root_dir_inode ?s = ?ri" "ptn_at ?s = ptn_at s" by (simp_all add: eq)
  show d': "i_block0 (bytes_in ?s) (root_dir_inode ?s) = d" unfolding hb ri using dr(6) d by simp
  show "root_ok L ?s" using root d' db by (simp add: root_ok_def ri)
  have nm: "named_entry ROOT_DIR_MAX 0 d (ptn_name (ptn_at s ptn)) (drop_entry d idx ?ri (bytes_in s)) =
      named_entry ROOT_DIR_MAX 0 d (ptn_name (ptn_at s ptn)) (bytes_in s)"
    by (rule named_entry_cong) (use dr(3) name in \<open>simp add: ROOT_DIR_MAX_def\<close>)
  show "named_entry ROOT_DIR_MAX 0 d (ptn_name (ptn_at s ptn)) (bytes_in ?s) = idx"
    unfolding hb by (simp only: nm idx(1) [symmetric])
qed

section \<open>Properties\<close>

text \<open>C30: mounting. Given a super block with an inode bitmap of one sector, and a drive that needs no time
  between two sectors of a command where the block bitmap has more than one, the partition gets its layout
  from the disk, a base of inode numbers, and the block bitmap of the disk in memory; the numbers in use,
  \<open>inode_max\<close>, go up by those of the partition when it had no base yet, so that the next one starts behind
  them; and it appears in the first free slot of the root directory, whose other entries stay. The inode bitmap in memory, however, is
  left zero: its sector is read to the address \<open>0\<close>, the block bitmap's pointer before it is set.\<close>

theorem fs_mount_loads:
  fixes s :: "ata fs_state"
  assumes "p = ptn_at s ptn" and "working bt L (ptn_hd p) f (c + 2 + n) (cost 512 + cost 512 + cost (of_nat (512 * c)) + q) s"
    and "sl = unat (start_lba p + 1)" and "sl < 2 ^ 28" and "b = get_super (sector_mem (f sl)) 0" and "mountable b c il bl"
    and "bits (blk_btmp p) = NULL" and "root_ok L s" and "length (ptn_name p) < 16"
    and "ri = root_dir_inode s" and "d = i_block0 (bytes_in s) ri"
    and "idx = free_entry ROOT_DIR_MAX 0 d (bytes_in s)" and "idx < ROOT_DIR_MAX" and "c \<le> bt"
  shows "\<exists>s' ib bb L'. fs_mount (ata_platform pl ih) ptn s = Inr s' \<and> working bt L' (ptn_hd p) f n q s' \<and> L \<subseteq> L' \<and>
    ptn_at s' = (ptn_at s)(ptn := mounted_ptn p b c (inode_max s) ib bb) \<and>
    mem_bytes (bytes_in s') bb (512 * c) = concat (map f [bl..<bl + c]) \<and>
    mem_bytes (bytes_in s') ib 512 = replicate 512 0 \<and> mem_bytes (bytes_in s') NULL 512 = f il \<and>
    dir_no (bytes_in s') (dir_at d idx) = inode_base (mounted_ptn p b c (inode_max s) ib bb) \<and>
    dir_type (bytes_in s') (dir_at d idx) = FT_DIR \<and> dir_named (bytes_in s') (dir_at d idx) (ptn_name p) \<and>
    (\<forall>j<ROOT_DIR_MAX. j \<noteq> idx \<longrightarrow> dir_no (bytes_in s') (dir_at d j) = dir_no (bytes_in s) (dir_at d j) \<and>
       dir_type (bytes_in s') (dir_at d j) = dir_type (bytes_in s) (dir_at d j)) \<and>
    i_size (bytes_in s') ri = i_size (bytes_in s) ri + sizeof_dirent \<and>
    inode_max s' = (if 0 = inode_base p then inode_max s + sb_inode_cnt b else inode_max s)"
proof -
  let ?no = "if 0 = inode_base p then inode_max s + 1 else inode_base p"
  have w: "working bt L (ptn_hd (ptn_at s ptn)) f (1 + (1 + (c + n))) (cost 512 + (cost 512 + (cost (of_nat (512 * c)) + q))) s"
    using assms(1,2) by (simp add: ac_simps)
  have i: "idx < 10" using assms(13) by (simp add: ROOT_DIR_MAX_def)
  obtain s' ib bb L' where m: "fs_mount (ata_platform pl ih) ptn s = Inr s'" "working bt L' (ptn_hd (ptn_at s ptn)) f n q s'" "L \<subseteq> L'"
      "ptn_at s' = (ptn_at s)(ptn := mounted_ptn (ptn_at s ptn) b c (inode_max s) ib bb)"
      "mem_bytes (bytes_in s') bb (512 * c) = concat (map f [bl..<bl + c])" "mem_bytes (bytes_in s') ib 512 = replicate 512 0"
      "mem_bytes (bytes_in s') NULL 512 = f il"
      "\<forall>a. safe L a \<longrightarrow> bytes_in s' a = add_entry d idx (ptn_name (ptn_at s ptn))
        (if 0 = inode_base (ptn_at s ptn) then inode_max s + 1 else inode_base (ptn_at s ptn)) (root_dir_inode s) (bytes_in s) a"
      "inode_max s' = (if 0 = inode_base (ptn_at s ptn) then inode_max s + sb_inode_cnt b else inode_max s)"
    using mount_run [OF w, of sl b il bl d idx pl ih] assms i by (metis (no_types, lifting))
  have rep: "heap_rep L (heap s)" using w by (simp add: working_def)
  have db: "unat d + 240 \<le> 0xC0100000" using assms(8,10,11) by (simp add: root_ok_def)
  have name: "length (ptn_name (ptn_at s ptn)) < 16" using assms(1,9) by simp
  note same = root_bytes [OF assms(8) rep assms(11) [unfolded assms(10)] m(8)]
  note add = add_entry_run [OF db i name root_high [OF assms(8) rep]]
  show ?thesis
    using m(1-7,9) same add i name assms(1,10) by (intro exI [of _ s'] exI [of _ ib] exI [of _ bb] exI [of _ L'])
      (simp add: ROOT_DIR_MAX_def mounted_ptn_def)
qed

text \<open>A full root directory. When all ten entries are taken, \<open>fs_mount\<close> does all its work and then
  fails its assertion: the machine stops.\<close>

theorem fs_mount_full:
  fixes s :: "ata fs_state"
  assumes "p = ptn_at s ptn" and "working bt L (ptn_hd p) f (c + 2 + n) (cost 512 + cost 512 + cost (of_nat (512 * c))) s"
    and "sl = unat (start_lba p + 1)" and "sl < 2 ^ 28" and "b = get_super (sector_mem (f sl)) 0" and "mountable b c il bl"
    and "bits (blk_btmp p) = NULL" and "root_ok L s" and "d = i_block0 (bytes_in s) (root_dir_inode s)"
    and "\<forall>i<ROOT_DIR_MAX. dir_type (bytes_in s) (dir_at d i) \<noteq> FT_UNKNOWN" and "c \<le> bt"
  shows "fs_mount (ata_platform pl ih) ptn s = Inl Panic"
proof -
  have w: "working bt L (ptn_hd p) f (1 + (1 + (c + n))) (cost 512 + (cost 512 + (cost (of_nat (512 * c)) + 0))) s"
    using assms(2) by (simp add: ac_simps)
  obtain s1 sb where m: "fs_mount (ata_platform pl ih) ptn s =
      rbind (add_to_root (ptn_name (ptn_at s1 ptn)) (inode_base (ptn_at s1 ptn)) s1) (free_st sb)"
    "kept L s s1" "root_dir_inode s1 = root_dir_inode s"
    by (rule mount_load_run [where pl = pl and ih = ih, OF w [unfolded assms(1)] refl assms(3) [symmetric, unfolded assms(1)] assms(4) assms(5) [symmetric]
      assms(6) assms(7) [unfolded assms(1)] assms(11)])
  have rep: "heap_rep L (heap s)" using w by (simp add: working_def)
  note rk = root_kept [OF m(2) assms(8) rep m(3)]
  have "free_entry 10 0 d (bytes_in s) = 10"
  proof (rule ccontr)
    assume a: "free_entry 10 0 d (bytes_in s) \<noteq> 10"
    note fl = free_entry_least [of 10 0 d "bytes_in s", OF refl]
    then have "free_entry 10 0 d (bytes_in s) < 10" using a by linarith
    then show False using fl assms(10) by (simp add: ROOT_DIR_MAX_def)
  qed
  then show ?thesis using rk(2,3) m(1,3) assms(9) by (simp add: add_to_root_def ROOT_DIR_MAX_def)
qed

text \<open>Unmounting. The entry with the name of the partition becomes free and the directory shrinks by one
  entry, all else stays. The name stays too: unmounting the same partition again finds the free entry and
  shrinks the directory a second time.\<close>

theorem fs_unmount_twice:
  fixes s :: "'d fs_state"
  assumes "root_ok L s" and "heap_rep L (heap s)" and "ri = root_dir_inode s" and "d = i_block0 (bytes_in s) ri"
    and "nm = ptn_name (ptn_at s ptn)" and "length nm < 16" and "idx = named_entry ROOT_DIR_MAX 0 d nm (bytes_in s)"
    and "idx < ROOT_DIR_MAX" and "s1 = fs_unmount ptn s" and "s2 = fs_unmount ptn s1"
  shows "dir_named (bytes_in s) (dir_at d idx) nm \<and> dir_type (bytes_in s1) (dir_at d idx) = FT_UNKNOWN \<and>
    i_size (bytes_in s1) ri = i_size (bytes_in s) ri - sizeof_dirent \<and>
    (\<forall>j<ROOT_DIR_MAX. j \<noteq> idx \<longrightarrow> dir_no (bytes_in s1) (dir_at d j) = dir_no (bytes_in s) (dir_at d j) \<and>
       dir_type (bytes_in s1) (dir_at d j) = dir_type (bytes_in s) (dir_at d j)) \<and>
    i_size (bytes_in s2) ri = i_size (bytes_in s) ri - 2 * sizeof_dirent"
proof -
  have i: "idx < 10" using assms(8) by (simp add: ROOT_DIR_MAX_def)
  have db: "unat d + 240 \<le> 0xC0100000" using assms(1,3,4) by (simp add: root_ok_def)
  note u = unmount_run [OF assms(1,2) assms(4) [unfolded assms(3)] assms(6) [unfolded assms(5)] assms(7) [unfolded assms(5)] i, folded assms(9)]
  have nm1: "ptn_name (ptn_at s1 ptn) = nm" using u(6) assms(5) by simp
  note u2 = unmount_run [where s = s1 and ptn = ptn, unfolded nm1, OF u(2,3) u(4) [symmetric] assms(6) u(5) [folded assms(5), symmetric] i, folded assms(10)]
  note dr = drop_entry_run [OF db i root_high [OF assms(1,2)]]
  have "dir_named (bytes_in s) (dir_at d idx) nm"
    using named_entry_least [OF assms(7) [symmetric]] i by (simp add: ROOT_DIR_MAX_def)
  moreover have "i_size (bytes_in s2) ri = i_size (bytes_in s1) ri - sizeof_dirent"
    unfolding u2(1) u(7) using dr(5) assms(3) by simp
  moreover have "i_size (bytes_in s1) ri = i_size (bytes_in s) ri - sizeof_dirent" unfolding u(1) using dr(5) assms(3) by simp
  moreover have "dir_type (bytes_in s1) (dir_at d idx) = FT_UNKNOWN" unfolding u(1) using dr(1) by simp
  moreover have "\<forall>j<ROOT_DIR_MAX. j \<noteq> idx \<longrightarrow> dir_no (bytes_in s1) (dir_at d j) = dir_no (bytes_in s) (dir_at d j) \<and>
       dir_type (bytes_in s1) (dir_at d j) = dir_type (bytes_in s) (dir_at d j)"
    unfolding u(1) ROOT_DIR_MAX_def using dr(2,4) by blast
  ultimately show ?thesis by simp
qed

section \<open>Witnesses\<close>

text \<open>The machine with one partition whose disk carries the super block, after its root directory was built.\<close>

definition super_disk :: "nat \<Rightarrow> u8 list" where
  "super_disk l = (if l = 101 then mem_bytes (put_super 0 (format_super demo_ptn) (\<lambda>_. 0)) 0 512 else blank l)"

lemma super_disk_super: "get_super (sector_mem (super_disk 101)) 0 = format_super demo_ptn"
  by (simp add: super_disk_def sector_super super_roundtrip)

lemma demo_mountable: "mountable (format_super demo_ptn) 1 102 615"
proof -
  have "unat (sb_blk_btmp_sec (format_super demo_ptn)) = 1" using format_sizes(1) [of demo_ptn] demo_sizes(1) by simp
  then show ?thesis by (simp add: mountable_def)
qed

lemma demo_spares: "spares 0xC0010000 demo_heap"
  by (simp add: spares_def demo_heap_def mem_init_table)

lemma demo_root:
  obtains s k where "root_dir_init 0xC0010000 (demo_fs super_disk) = Inr s" and "working 256 {(root_dir_inode s, k)} (0, 0) super_disk 3 5 s"
    and "root_ok {(root_dir_inode s, k)} s" and "i_block0 (bytes_in s) (root_dir_inode s) = 0xC0010000"
    and "empty_dir (bytes_in s) 0xC0010000" and "ptn_at s = (\<lambda>_. demo_ptn)" and "i_size (bytes_in s) (root_dir_inode s) = 48"
proof -
  have "working 256 {} (0, 0) super_disk 3 (cost 72 + 5) (demo_fs super_disk)"
    using demo_fs_ready [of 3 super_disk 256] demo_heap_rep demo_budget [of 6] demo_heap_lingers
    by (simp add: working_def cost_def super_disk_def blank_def)
  then obtain s k where "root_dir_init 0xC0010000 (demo_fs super_disk) = Inr s" "working 256 (insert (root_dir_inode s, k) {}) (0, 0) super_disk 3 5 s"
    "root_ok (insert (root_dir_inode s, k) {}) s" "i_block0 (bytes_in s) (root_dir_inode s) = 0xC0010000"
    "i_size (bytes_in s) (root_dir_inode s) = 2 * sizeof_dirent" "empty_dir (bytes_in s) 0xC0010000" "ptn_at s = ptn_at (demo_fs super_disk)"
    by (rule root_dir_init_run [where rb = "0xC0010000"]) (simp_all add: demo_spares)
  then show thesis using that [of s k] by (simp add: sizeof_dirent_def demo_fs_def)
qed

theorem fs_mount_loads_witness:
  "\<exists>s s'. root_dir_init 0xC0010000 (demo_fs super_disk) = Inr s \<and> fs_mount (ata_platform 0 0) 0x3000 s = Inr s'"
proof -
  obtain s k where i: "root_dir_init 0xC0010000 (demo_fs super_disk) = Inr s" "working 256 {(root_dir_inode s, k)} (0, 0) super_disk 3 5 s"
    "root_ok {(root_dir_inode s, k)} s" "i_block0 (bytes_in s) (root_dir_inode s) = 0xC0010000"
    "empty_dir (bytes_in s) 0xC0010000" "ptn_at s = (\<lambda>_. demo_ptn)"
    by (rule demo_root)
  have c: "cost 512 + cost 512 + cost (of_nat (512 * 1)) + 2 = 5" "1 + 2 + 0 = (3 :: nat)" by (simp_all add: cost_def)
  have h: "demo_ptn = ptn_at s 0x3000" "101 = unat (start_lba demo_ptn + 1)" "(101 :: nat) < 2 ^ 28"
    "working 256 {(root_dir_inode s, k)} (ptn_hd demo_ptn) super_disk (1 + 2 + 0) (cost 512 + cost 512 + cost (of_nat (512 * 1)) + 2) s"
    "bits (blk_btmp demo_ptn) = NULL" "length (ptn_name demo_ptn) < 16" "2 < ROOT_DIR_MAX"
    unfolding c using i(2,6) by (simp_all add: ROOT_DIR_MAX_def)
  obtain s' where "fs_mount (ata_platform 0 0) 0x3000 s = Inr s'"
    using fs_mount_loads [where pl = 0 and ih = 0, OF h(1,4,2,3) super_disk_super [symmetric] demo_mountable h(5) i(3) h(6) refl i(4) [symmetric]
      empty_dir_free [OF i(5), symmetric] h(7)] by auto
  then show ?thesis using i(1) by blast
qed

theorem fs_mount_full_witness: "\<exists>s :: ata fs_state. fs_mount (ata_platform 0 0) 0x3000 s = Inl Panic"
proof -
  obtain s k where i: "working 256 {(root_dir_inode s, k)} (0, 0) super_disk 3 5 s" "root_ok {(root_dir_inode s, k)} s"
    "i_block0 (bytes_in s) (root_dir_inode s) = 0xC0010000" "ptn_at s = (\<lambda>_. demo_ptn)"
    by (rule demo_root)
  define g where "g = (\<lambda>(m :: mem) q. if unat q < 0xC0100000 then 1 else m q)"
  define t where "t = on_mem g s"
  have ri: "0xC0100000 \<le> unat (root_dir_inode s + of_nat j)" if "j < 72" for j
    using root_high [OF i(2) _ that, of "heap s"] i(1) by (simp add: working_def)
  have "load32 (g (bytes_in s)) (root_dir_inode s + of_nat 8) = load32 (bytes_in s) (root_dir_inode s + of_nat 8)"
    by (rule load32_at_cong) (use ri in \<open>simp add: g_def not_less [symmetric]\<close>)
  then have d: "0xC0010000 = i_block0 (bytes_in t) (root_dir_inode t)" using i(3) by (simp add: t_def on_mem_def i_block0_def)
  have ones: "dir_type (\<lambda>_. 1) e = 0x01010101" for e by (simp add: dir_type_def load32_def)
  have ty: "dir_type (bytes_in t) (dir_at 0xC0010000 j) \<noteq> FT_UNKNOWN" if "j < 10" for j
  proof -
    have "bytes_in t (0xC0010000 + of_nat l) = (\<lambda>_. 1) (0xC0010000 + of_nat l)" if "24 * j \<le> l" "l < 24 * j + 24" for l
      using that \<open>j < 10\<close> low_offset [of "0xC0010000" l] by (simp add: t_def on_mem_def g_def)
    then have "dir_type (bytes_in t) (dir_at 0xC0010000 j) = dir_type (\<lambda>_. 1) (dir_at 0xC0010000 j)"
      unfolding dir_at_offset by (rule dirent_cong(2))
    then show ?thesis by (simp only: ones) (simp add: FT_UNKNOWN_def)
  qed
  have w: "working 256 {(root_dir_inode t, k)} (0, 0) super_disk 3 5 t"
    using i(1) disk_ready_cong [of t s 256 3 "(0, 0)" super_disk] heap_rep_bytes by (simp add: working_def t_def)
  have root: "root_ok {(root_dir_inode t, k)} t" using i(2) d by (auto simp: root_ok_def t_def)
  have c: "cost 512 + cost 512 + cost (of_nat (512 * 1)) = 3" "1 + 2 + 0 = (3 :: nat)" by (simp_all add: cost_def)
  have h: "demo_ptn = ptn_at t 0x3000" "101 = unat (start_lba demo_ptn + 1)" "(101 :: nat) < 2 ^ 28"
    "working 256 {(root_dir_inode t, k)} (ptn_hd demo_ptn) super_disk (1 + 2 + 0) (cost 512 + cost 512 + cost (of_nat (512 * 1))) t"
    "bits (blk_btmp demo_ptn) = NULL" "\<forall>j<ROOT_DIR_MAX. dir_type (bytes_in t) (dir_at 0xC0010000 j) \<noteq> FT_UNKNOWN"
    unfolding c using i(4) working_less [of 256 "{(root_dir_inode t, k)}" "(0, 0)" super_disk 0 3 2 3 t] w ty
    by (simp_all add: ROOT_DIR_MAX_def t_def)
  show ?thesis
    using fs_mount_full [where pl = 0 and ih = 0, OF h(1,4,2,3) super_disk_super [symmetric] demo_mountable h(5) root d h(6)] by (simp, blast)
qed

theorem fs_unmount_twice_witness:
  "\<exists>s :: ata fs_state. i_size (bytes_in s) (root_dir_inode s) = 48 \<and>
     i_size (bytes_in (fs_unmount 0x3000 (fs_unmount 0x3000 s))) (root_dir_inode s) = 0"
proof -
  obtain s k where i: "working 256 {(root_dir_inode s, k)} (0, 0) super_disk 3 5 s" "root_ok {(root_dir_inode s, k)} s"
    "i_block0 (bytes_in s) (root_dir_inode s) = 0xC0010000" "empty_dir (bytes_in s) 0xC0010000" "i_size (bytes_in s) (root_dir_inode s) = 48"
    by (rule demo_root)
  define t where "t = set_ptn 0x3000 (\<lambda>p. p\<lparr>ptn_name := [0x2E]\<rparr>) s"
  have n: "named_entry ROOT_DIR_MAX 0 0xC0010000 [0x2E] (bytes_in t) = 0"
    using i(4) by (simp add: t_def ROOT_DIR_MAX_def empty_dir_def eval_nat_numeral)
  have h: "root_ok {(root_dir_inode t, k)} t" "heap_rep {(root_dir_inode t, k)} (heap t)" "0xC0010000 = i_block0 (bytes_in t) (root_dir_inode t)"
    "[0x2E] = ptn_name (ptn_at t 0x3000)" "length [0x2E :: u8] < 16" "0 < ROOT_DIR_MAX"
    using i by (simp_all add: t_def root_ok_def working_def ROOT_DIR_MAX_def)
  have "i_size (bytes_in (fs_unmount 0x3000 (fs_unmount 0x3000 t))) (root_dir_inode t) = 0"
    using fs_unmount_twice [OF h(1,2) refl h(3,4,5) n [symmetric] h(6) refl refl] i(5) by (simp add: t_def sizeof_dirent_def)
  then show ?thesis using i(5) by (intro exI [of _ t]) (simp add: t_def)
qed

end
