(* ===== verification/KFsInit.thy ===== *)
theory KFsInit
  imports KMount
begin

text \<open>
  File system start-up, \<open>fs_init\<close> of \<open>code/kernel/src/fs.c\<close>, from end to end: the root directory is built,
  and every partition of the list is formatted when its super block does not carry the magic number, and
  mounted. The partitions lie on one drive, their sectors do not overlap.
\<close>

section \<open>One partition\<close>

lemma rep_without:
  assumes "heap_rep L hp" and "(p, k) \<in> L"
  shows "\<exists>hp'. heap_rep (L - {(p, k)}) hp'"
proof -
  have "heap_rep L (hp\<lparr>lingers := True\<rparr>)" using assms(1) by (simp add: heap_rep_def heap_inv_def descs_ok_def descs_free_def)
  then show ?thesis using heap.release [OF _ assms(2)] by fastforce
qed

abbreviation blocks :: "ide_ptn \<Rightarrow> nat" where
  "blocks p \<equiv> blk_sectors (unat (sec_cnt p))"

text \<open>The sectors of a partition, and what working on it takes from the heap and the drive.\<close>

definition extent :: "ide_ptn \<Rightarrow> nat set" where
  "extent p = {unat (start_lba p)..<unat (start_lba p) + unat (sec_cnt p)}"

definition ptn_price :: "ide_ptn \<Rightarrow> nat" where
  "ptn_price p = cost (of_nat (512 * blocks p)) + (cost 512 + (cost 512 + cost (of_nat (512 * blocks p))))"

definition ptn_traffic :: "ide_ptn \<Rightarrow> nat" where
  "ptn_traffic p = 1 + (blocks p + 4 + (1 + (1 + blocks p)))"

text \<open>A partition the code can handle, not mounted yet.\<close>

definition sound_ptn :: "hd_ptr \<Rightarrow> ide_ptn \<Rightarrow> bool" where
  "sound_ptn h p \<longleftrightarrow> ptn_hd p = h \<and> 523 \<le> unat (sec_cnt p) \<and> unat (sec_cnt p) < 2 ^ 23 \<and>
     unat (start_lba p) + unat (sec_cnt p) \<le> 2 ^ 28 \<and> 8 \<le> unat (sb_blk_cnt (format_super p)) \<and>
     unat (sb_blk_cnt (format_super p)) div 4096 + 1 = blocks p \<and> bits (blk_btmp p) = NULL \<and> inode_base p = 0 \<and>
     length (ptn_name p) < 16"

abbreviation super_on :: "(nat \<Rightarrow> u8 list) \<Rightarrow> ide_ptn \<Rightarrow> super_block" where
  "super_on f p \<equiv> get_super (sector_mem (f (unat (start_lba p) + 1))) 0"

text \<open>Blank, or formatted before with the present layout.\<close>

definition blank_or_ours :: "(nat \<Rightarrow> u8 list) \<Rightarrow> ide_ptn \<Rightarrow> bool" where
  "blank_or_ours f p \<longleftrightarrow> sb_magic (super_on f p) \<noteq> FS_MAGIC \<or> super_on f p = format_super p"

text \<open>What start-up makes of the sectors of a partition: a complete empty file system when it did not carry
  the magic number, and not a sector changed when it did.\<close>

definition meta_lbas :: "ide_ptn \<Rightarrow> nat set" where
  "meta_lbas p = {unat (start_lba p) + 1..unat (start_lba p) + 3} \<union> {unat (start_lba p) + 515..unat (start_lba p) + 515 + blocks p}"

definition prepared :: "(nat \<Rightarrow> u8 list) \<Rightarrow> ide_ptn \<Rightarrow> (nat \<Rightarrow> u8 list) \<Rightarrow> bool" where
  "prepared f p f' \<longleftrightarrow>
     (if sb_magic (super_on f p) = FS_MAGIC then \<forall>l \<in> extent p. f' l = f l
      else empty_fs p f' \<and> (\<forall>l \<in> extent p. l \<notin> meta_lbas p \<longrightarrow> f' l = f l))"

lemma sound_mountable:
  assumes "sound_ptn h p"
  shows "mountable (format_super p) (blocks p) (unat (start_lba p) + 2) (unat (start_lba p) + 515)"
    and "unat (start_lba p + 1) = unat (start_lba p) + 1" and "unat (start_lba p) + 1 < 2 ^ 28"
    and "515 + blocks p < unat (sec_cnt p)" and "sb_inode_cnt (format_super p) = 4096"
proof -
  have s: "523 \<le> unat (sec_cnt p)" "unat (sec_cnt p) < 2 ^ 23" "unat (start_lba p) + unat (sec_cnt p) \<le> 2 ^ 28"
    "8 \<le> unat (sb_blk_cnt (format_super p))" using assms by (simp_all add: sound_ptn_def)
  show b: "515 + blocks p < unat (sec_cnt p)" using s(4) format_sizes(2) [OF s(1,2)] by linarith
  show "mountable (format_super p) (blocks p) (unat (start_lba p) + 2) (unat (start_lba p) + 515)"
    using format_sizes(1) [OF s(1,2)] blk_sectors_bounds [OF s(1,2)] s(1,3) by (simp add: mountable_def unat_add_small)
  show "unat (start_lba p + 1) = unat (start_lba p) + 1" "unat (start_lba p) + 1 < 2 ^ 28" using s(1,3) by (simp_all add: unat_add_small)
  show "sb_inode_cnt (format_super p) = 4096" by (simp add: inode_counts(1))
qed

lemma super_in_extent: "sound_ptn h p \<Longrightarrow> unat (start_lba p) + 1 \<in> extent p"
  by (auto simp: sound_ptn_def extent_def)

lemma empty_fs_cong:
  assumes "sound_ptn h p" and same: "\<forall>l \<in> extent p. f l = g l" and "empty_fs p f"
  shows "empty_fs p g"
proof -
  let ?st = "unat (start_lba p)" and ?b = "format_super p"
  have s: "523 \<le> unat (sec_cnt p)" "unat (sec_cnt p) < 2 ^ 23" "?st + unat (sec_cnt p) \<le> 2 ^ 28"
    using assms(1) by (simp_all add: sound_ptn_def)
  have room: "515 + blocks p < unat (sec_cnt p)" by (rule sound_mountable(4) [OF assms(1)])
  have k: "unat (sb_blk_btmp_sec ?b) = blocks p" by (rule format_sizes(1) [OF s(1,2)])
  then have d: "unat (sb_blk_lba ?b) = ?st + (515 + blocks p)" using room s(3) by (simp add: unat_add_small)
  have at: "g (?st + i) = f (?st + i)" if "i < unat (sec_cnt p)" for i using same that by (simp add: extent_def)
  have "disk_bit g (?st + 515) i = disk_bit f (?st + 515) i" if "i < 4096 * blocks p" for i
    by (rule disk_bit_cong [OF _ that]) (use same room in \<open>simp add: extent_def\<close>)
  then show ?thesis
    using assms(3) at [of 1] at [of 2] at [of 3] at [of "515 + blocks p"] s(1) room
    unfolding empty_fs_def Let_def k d by simp
qed

lemma prepared_cong:
  assumes "sound_ptn h p" and "\<forall>l \<in> extent p. f l = g l" and "\<forall>l \<in> extent p. f' l = g' l" and "prepared f p f'"
  shows "prepared g p g'"
  using assms empty_fs_cong [OF assms(1,3)] super_in_extent [OF assms(1)] by (simp add: prepared_def split: if_splits)

lemma prepared_super:
  assumes "sound_ptn h p" and "blank_or_ours f p" and "prepared f p f'"
  shows "super_on f' p = format_super p"
  using assms super_in_extent [OF assms(1)] by (auto simp: prepared_def blank_or_ours_def empty_fs_def Let_def split: if_splits)

text \<open>The memory of \<open>fs_format\<close>'s super block: outside the image of the kernel and outside its heap.\<close>

definition on_stack :: "ptr \<Rightarrow> bool" where
  "on_stack sb \<longleftrightarrow> unat sb + 40 \<le> 0xC0000000 \<or> 0xC0076000 \<le> unat sb \<and> unat sb + 40 \<le> 0xC0100000"

lemma stack_apart:
  assumes "on_stack sb" and "heap_rep L hp" and "safe L a"
  shows "40 \<le> unat (a - sb)"
proof (rule ccontr)
  assume "\<not> ?thesis"
  then have i: "in_range sb 40 a" by (simp add: in_range_def word_less_nat_alt)
  then have r: "unat sb \<le> unat a" "unat a < unat sb + 40"
    using in_range_unat [of sb 40 a] assms(1) by (auto simp: on_stack_def)
  from assms(3) consider "0xC0100000 \<le> unat a" | "0xC0000000 \<le> unat a \<and> unat a < 0xC0076000"
    using live_high [OF assms(2)] by (auto simp: safe_def)
  then show False using r assms(1) by cases (auto simp: on_stack_def)
qed

lemma format_if_run:
  fixes s :: "ata fs_state" and ptn :: ptr
  assumes w: "working 256 L h f (1 + (blocks p + 4 + n)) (cost (of_nat (512 * blocks p)) + q) s" and p: "ptn_at s ptn = p"
    and sound: "sound_ptn h p" and disk: "blank_or_ours f p" and buf: "(buf, kb) \<in> L" "512 \<le> kb" and sb: "on_stack sb_at"
  obtains s' f' where "\<forall>c :: ata fs_state \<Rightarrow> stop + ata fs_state. rbind (ide_read (ata_platform pl ih) h (start_lba p + 1) buf 1 s) (\<lambda>s.
      rbind (if FS_MAGIC \<noteq> sb_magic (get_super (bytes_in s) buf) then fs_format (ata_platform pl ih) sb_at ptn s else Inr s) c) = c s'"
    and "working 256 L h f' n q s'" and "kept (L - {(buf, kb)}) s s'" and "same_files s s'" and "prepared f p f'"
    and "\<forall>l. l \<notin> extent p \<longrightarrow> f' l = f l"
proof -
  let ?P = "ata_platform pl ih" and ?L = "L - {(buf, kb)}" and ?st = "unat (start_lba p)"
  have one: "unat (1 :: u32) = 1" "1 \<le> (256 :: nat)" by simp_all
  have le1: "(1 :: nat) \<le> 1 \<or> 1 \<le> (256 :: nat)" by simp
  have bt: "2 \<le> (256 :: nat)" "blocks p \<le> 256" using blk_sectors_bounds [of "unat (sec_cnt p)"] sound by (simp_all add: sound_ptn_def)
  have kb: "512 * 1 \<le> kb" using buf(2) by simp
  obtain s1 where r: "ide_read ?P h (start_lba p + 1) buf 1 s = Inr s1"
      "working 256 L h f (blocks p + 4 + n) (cost (of_nat (512 * blocks p)) + q) s1" "kept ?L s s1" "low_kept s s1" "same_files s s1"
      "mem_bytes (bytes_in s1) buf (512 * 1) = concat (map f [?st + 1..<?st + 1 + 1])"
    by (rule working_read [OF w buf(1) kb one sound_mountable(2,3) [OF sound] le1])
  have sup: "get_super (bytes_in s1) buf = super_on f p" by (rule read_super [OF r(6)])
  show thesis
  proof (cases "FS_MAGIC = sb_magic (super_on f p)")
    case True
    have "working 256 L h f n q s1" using working_less [of 256 L h f "blocks p + 4" n _ q s1] r(2) by blast
    then show ?thesis using True disk r sup
      by (intro that [of s1 f]) (simp_all add: prepared_def)
  next
    case False
    have w1: "heap_rep L (heap s1)" "in_budget (cost (of_nat (512 * blocks p)) + q) (heap s1)" "disk_ready 256 (blocks p + 4 + n) h f s1"
      "lingers (heap s1)"
      using r(2) by (simp_all add: working_def)
    have p1: "ptn_at s1 ptn = p" using r(5) p by (simp add: same_files_def)
    have s: "ptn_hd p = h" "523 \<le> unat (sec_cnt p)" "unat (sec_cnt p) < 2 ^ 23" "?st + unat (sec_cnt p) \<le> 2 ^ 28"
      "8 \<le> unat (sb_blk_cnt (format_super p))" "unat (sb_blk_cnt (format_super p)) div 4096 + 1 = blocks p"
      using sound by (simp_all add: sound_ptn_def)
    obtain s2 f' where m: "fs_format ?P sb_at ptn s1 = Inr s2" "disk_ready 256 n h f' s2" "heap_rep L (heap s2)" "in_budget q (heap s2)"
        "lingers (heap s2)" "same_files s1 s2" "empty_fs p f'" "\<forall>l. l \<notin> {?st + 1..?st + 3} \<union> {?st + 515..?st + 515 + blocks p} \<longrightarrow> f' l = f l"
        "\<forall>a. safe L a \<longrightarrow> 40 \<le> unat (a - sb_at) \<longrightarrow> bytes_in s2 a = bytes_in s1 a"
      using format_run [where s = s1 and ptn = ptn and n = n and f = f and L = L and q = q and pl = pl and ih = ih and sb_at = sb_at,
        unfolded p1 s(1), OF w1(3,1,2) s(2-6) bt w1(4)] by blast
    have "kept L s1 s2" using m(9) stack_apart [OF sb w1(1)] by (simp add: kept_def)
    then have k: "kept ?L s s2" using r(3) safe_mono [of ?L L] by (auto simp: kept_def)
    have "prepared f p f'" using False m(7,8) by (simp add: prepared_def meta_lbas_def)
    moreover have "\<forall>l. l \<notin> extent p \<longrightarrow> f' l = f l" using m(8) sound_mountable(4) [OF sound] by (auto simp: extent_def)
    ultimately show ?thesis using False r(1,5) m sup k bt(1)
      by (intro that [of s2 f']) (simp_all add: working_def same_files_def)
  qed
qed

text \<open>Reading, formatting when needed, and mounting one partition.\<close>

lemma mount_one:
  fixes s :: "ata fs_state" and ptn :: ptr
  assumes w: "working 256 L h f (ptn_traffic p + n) (ptn_price p + q) s" and p: "ptn_at s ptn = p"
    and sound: "sound_ptn h p" and disk: "blank_or_ours f p" and buf: "(buf, kb) \<in> L" "512 \<le> kb" and sb: "on_stack sb_at"
    and root: "root_ok (L - {(buf, kb)}) s" and d: "d = i_block0 (bytes_in s) (root_dir_inode s)"
    and idx: "idx = free_entry ROOT_DIR_MAX 0 d (bytes_in s)" "idx < 10"
  obtains s' f' L' ib bb where "\<forall>c :: ata fs_state \<Rightarrow> stop + ata fs_state. rbind (ide_read (ata_platform pl ih) h (start_lba p + 1) buf 1 s) (\<lambda>s.
      rbind (if FS_MAGIC \<noteq> sb_magic (get_super (bytes_in s) buf) then fs_format (ata_platform pl ih) sb_at ptn s else Inr s) (\<lambda>s.
      rbind (fs_mount (ata_platform pl ih) ptn s) c)) = c s'"
    and "working 256 L' h f' n q s'" and "L \<subseteq> L'" and "prepared f p f'" and "\<forall>l. l \<notin> extent p \<longrightarrow> f' l = f l"
    and "ptn_at s' = (ptn_at s)(ptn := mounted_ptn p (format_super p) (blocks p) (inode_max s) ib bb)"
    and "ptn_nodes s' = list_init (ptn_nodes s) (ptn_open_inodes ptn)" and "root_dir_inode s' = root_dir_inode s"
    and "inode_max s' = inode_max s + 4096"
    and "\<forall>a. safe (L - {(buf, kb)}) a \<longrightarrow>
      bytes_in s' a = add_entry d idx (ptn_name p) (inode_max s + 1) (root_dir_inode s) (bytes_in s) a"
proof -
  let ?P = "ata_platform pl ih" and ?L = "L - {(buf, kb)}" and ?ri = "root_dir_inode s"
  have pr: "ptn_hd p = h" "bits (blk_btmp p) = NULL" "inode_base p = 0" "length (ptn_name p) < 16"
    using sound by (simp_all add: sound_ptn_def)
  have w0: "working 256 L h f (1 + (blocks p + 4 + (1 + (1 + (blocks p + n))))) (cost (of_nat (512 * blocks p)) +
      (cost 512 + (cost 512 + (cost (of_nat (512 * blocks p)) + q)))) s"
    using w by (simp add: ptn_traffic_def ptn_price_def ac_simps)
  obtain s1 f' where a: "\<forall>c :: ata fs_state \<Rightarrow> stop + ata fs_state. rbind (ide_read ?P h (start_lba p + 1) buf 1 s) (\<lambda>s.
      rbind (if FS_MAGIC \<noteq> sb_magic (get_super (bytes_in s) buf) then fs_format ?P sb_at ptn s else Inr s) c) = c s1"
      "working 256 L h f' (1 + (1 + (blocks p + n))) (cost 512 + (cost 512 + (cost (of_nat (512 * blocks p)) + q))) s1" "kept ?L s s1"
      "same_files s s1" "prepared f p f'" "\<forall>l. l \<notin> extent p \<longrightarrow> f' l = f l"
    by (rule format_if_run [OF w0 p sound disk buf sb, where pl = pl and ih = ih])
  have f1: "ptn_at s1 = ptn_at s" "ptn_nodes s1 = ptn_nodes s" "root_dir_inode s1 = ?ri" "inode_max s1 = inode_max s"
    using a(4) more_root [of s1 s] by (simp_all add: same_files_def)
  obtain hp' where rep: "heap_rep ?L hp'" using rep_without [OF _ buf(1)] w by (auto simp: working_def)
  note rk = root_kept [OF a(3) root rep f1(3)]
  have p1: "ptn_at s1 ptn = p" using f1(1) p by simp
  have d1: "d = i_block0 (bytes_in s1) (root_dir_inode s1)" using rk(2) d by simp
  have idx1: "idx = free_entry ROOT_DIR_MAX 0 d (bytes_in s1)" using rk(3) idx d by (simp add: ROOT_DIR_MAX_def)
  have root1: "root_ok L s1" using root d1 d f1(3) by (auto simp: root_ok_def)
  have bt: "blocks p \<le> 256" using blk_sectors_bounds [of "unat (sec_cnt p)"] sound by (simp add: sound_ptn_def)
  note sm = sound_mountable [OF sound] and su = prepared_super [OF sound disk a(5)]
  obtain s2 ib bb L' where m: "fs_mount ?P ptn s1 = Inr s2" "working 256 L' h f' n q s2" "L \<subseteq> L'"
      "ptn_at s2 = (ptn_at s1)(ptn := mounted_ptn p (format_super p) (blocks p) (inode_max s1) ib bb)"
      "ptn_nodes s2 = list_init (ptn_nodes s1) (ptn_open_inodes ptn)" "root_dir_inode s2 = root_dir_inode s1"
      "inode_max s2 = (if 0 = inode_base p then inode_max s1 + sb_inode_cnt (format_super p) else inode_max s1)"
      "\<forall>a. safe L a \<longrightarrow> bytes_in s2 a = add_entry d idx (ptn_name p) (if 0 = inode_base p then inode_max s1 + 1 else inode_base p)
        (root_dir_inode s1) (bytes_in s1) a"
    by (rule mount_run [where s = s1 and ptn = ptn, unfolded p1 pr(1), OF a(2) sm(2,3) su sm(1) pr(2) root1 pr(4) d1 idx1 idx(2) bt])
  have "bytes_in s2 a = add_entry d idx (ptn_name p) (inode_max s + 1) ?ri (bytes_in s) a" if sf: "safe ?L a" for a
  proof -
    have "bytes_in s2 a = add_entry d idx (ptn_name p) (inode_max s + 1) ?ri (bytes_in s1) a"
      using m(8) safe_mono [of ?L L a] sf pr(3) f1 by simp
    also have "\<dots> = add_entry d idx (ptn_name p) (inode_max s + 1) ?ri (bytes_in s) a"
    proof (rule add_entry_point)
      show "bytes_in s1 (?ri + 4 + of_nat i) = bytes_in s (?ri + 4 + of_nat i)" if "i < 4" for i
        using rk(1) [of "4 + i"] that by (simp add: add.assoc)
      show "bytes_in s1 a = bytes_in s a" using a(3) sf by (simp add: kept_def)
    qed
    finally show ?thesis .
  qed
  moreover have "\<forall>c :: ata fs_state \<Rightarrow> stop + ata fs_state. rbind (ide_read ?P h (start_lba p + 1) buf 1 s) (\<lambda>s.
      rbind (if FS_MAGIC \<noteq> sb_magic (get_super (bytes_in s) buf) then fs_format ?P sb_at ptn s else Inr s) (\<lambda>s.
      rbind (fs_mount ?P ptn s) c)) = c s2"
  proof
    fix c :: "ata fs_state \<Rightarrow> stop + ata fs_state"
    show "rbind (ide_read ?P h (start_lba p + 1) buf 1 s) (\<lambda>s.
      rbind (if FS_MAGIC \<noteq> sb_magic (get_super (bytes_in s) buf) then fs_format ?P sb_at ptn s else Inr s) (\<lambda>s.
      rbind (fs_mount ?P ptn s) c)) = c s2"
      using spec [OF a(1), of "\<lambda>s. rbind (fs_mount ?P ptn s) c"] by (simp only: m(1) rbind_simps)
  qed
  ultimately show thesis using a(5,6) m f1 pr(3) sm(5) by (intro that [of s2 L' f' ib bb]) simp_all
qed

section \<open>The slots of the root directory\<close>

definition dir_holds :: "mem \<Rightarrow> ptr \<Rightarrow> nat \<Rightarrow> u8 list \<Rightarrow> u32 \<Rightarrow> bool" where
  "dir_holds m d i name no \<longleftrightarrow> dir_no m (dir_at d i) = no \<and> dir_type m (dir_at d i) = FT_DIR \<and> dir_named m (dir_at d i) name"

text \<open>The first \<open>idx\<close> slots are taken, the others are free.\<close>

definition slots :: "mem \<Rightarrow> ptr \<Rightarrow> nat \<Rightarrow> bool" where
  "slots m d idx \<longleftrightarrow> (\<forall>i<idx. dir_type m (dir_at d i) \<noteq> FT_UNKNOWN) \<and> (\<forall>i. idx \<le> i \<longrightarrow> i < 10 \<longrightarrow> dir_type m (dir_at d i) = FT_UNKNOWN)"

lemma slots_free:
  assumes "slots m d idx" and "idx < 10"
  shows "free_entry ROOT_DIR_MAX 0 d m = idx"
proof -
  define j where "j = free_entry 10 0 d m"
  have j: "j < 10 \<longrightarrow> dir_type m (dir_at d j) = FT_UNKNOWN" "\<forall>i<j. dir_type m (dir_at d i) \<noteq> FT_UNKNOWN"
    using free_entry_least [OF j_def [symmetric]] by simp_all
  have s: "\<forall>i<idx. dir_type m (dir_at d i) \<noteq> FT_UNKNOWN" "dir_type m (dir_at d idx) = FT_UNKNOWN"
    using assms by (simp_all add: slots_def)
  have "\<not> idx < j" using j(2) s(2) by auto
  moreover have "\<not> j < idx" using j(1) s(1) assms(2) by auto
  ultimately show ?thesis by (simp add: ROOT_DIR_MAX_def flip: j_def)
qed

lemma root_step:
  assumes root: "root_ok K s" and rep: "heap_rep K hp" and d: "d = i_block0 (bytes_in s) (root_dir_inode s)"
    and idx: "idx < 10" and name: "length name < 16" and sl: "slots (bytes_in s) d idx" and ri: "root_dir_inode s' = root_dir_inode s"
    and step: "\<forall>a. safe K a \<longrightarrow> bytes_in s' a = add_entry d idx name no (root_dir_inode s) (bytes_in s) a"
  shows "root_ok K s'" and "i_block0 (bytes_in s') (root_dir_inode s) = d" and "slots (bytes_in s') d (Suc idx)"
    and "dir_holds (bytes_in s') d idx name no"
    and "j < 10 \<Longrightarrow> j \<noteq> idx \<Longrightarrow> length nm < 16 \<Longrightarrow> dir_holds (bytes_in s') d j nm no' = dir_holds (bytes_in s) d j nm no'"
    and "i_size (bytes_in s') (root_dir_inode s) = i_size (bytes_in s) (root_dir_inode s) + sizeof_dirent"
proof -
  have db: "unat d + 240 \<le> 0xC0100000" using root d by (simp add: root_ok_def)
  note same = root_bytes [OF root rep d, OF step]
  note add = add_entry_run [OF db idx name root_high [OF root rep]]
  show b: "i_block0 (bytes_in s') (root_dir_inode s) = d" using same(2) add(6) d by simp
  show "root_ok K s'" using root b d ri by (simp add: root_ok_def)
  show "i_size (bytes_in s') (root_dir_inode s) = i_size (bytes_in s) (root_dir_inode s) + sizeof_dirent" using same(1) add(5) by simp
  show "dir_holds (bytes_in s') d idx name no" using same(3-5) [OF idx] name add(1-3) by (simp add: dir_holds_def)
  have ty: "dir_type (bytes_in s') (dir_at d i) = (if i = idx then FT_DIR else dir_type (bytes_in s) (dir_at d i))" if "i < 10" for i
    using same(4) [OF that] add(2,4) that by simp
  show "dir_holds (bytes_in s') d j nm no' = dir_holds (bytes_in s) d j nm no'" if "j < 10" "j \<noteq> idx" "length nm < 16"
    using same(3-5) [OF that(1)] add(4) [OF _ that(1,2)] that(3) by (simp add: dir_holds_def)
  have "FT_DIR \<noteq> FT_UNKNOWN" by (simp add: FT_DIR_def FT_UNKNOWN_def)
  then show "slots (bytes_in s') d (Suc idx)" using sl ty idx by (auto simp: slots_def less_Suc_eq)
qed

section \<open>All partitions\<close>

fun chain :: "lheap \<Rightarrow> ptr \<Rightarrow> ptr list \<Rightarrow> ptr \<Rightarrow> bool" where
  "chain h c [] e \<longleftrightarrow> c = e"
| "chain h c (x # xs) e \<longleftrightarrow> c = x \<and> chain h (nxt (h x)) xs e"

lemma chain_cong: "(\<And>x. x \<in> set xs \<Longrightarrow> h' x = h x) \<Longrightarrow> chain h' c xs e = chain h c xs e"
  by (induction xs arbitrary: c) auto

text \<open>The list of partitions: no node of an open-inode list is one of its nodes, no two share a sector.\<close>

definition apart :: "(ptr \<Rightarrow> ide_ptn) \<Rightarrow> ptr list \<Rightarrow> bool" where
  "apart pt ps \<longleftrightarrow> distinct ps \<and> (\<forall>x \<in> set ps. \<forall>y \<in> set ps. x \<noteq> y \<longrightarrow> extent (pt x) \<inter> extent (pt y) = {}) \<and>
     (\<forall>x \<in> set ps. \<forall>y \<in> set ps. ptn_tag y \<noteq> list_head (ptn_open_inodes x) \<and> ptn_tag y \<noteq> list_tail (ptn_open_inodes x))"

lemma tag_entry: "elem2entry (ptn_tag 0) (ptn_tag p) = p"
  by (simp add: elem2entry_def ptn_tag_def)

text \<open>What the walk leaves: the file system of every partition on the disk, its bitmaps' places and its base of
  inode numbers in its record, and its entry in the root directory, in the order of the list.\<close>

definition mounted_all :: "ata fs_state \<Rightarrow> ptr list \<Rightarrow> ptr \<Rightarrow> nat \<Rightarrow> (nat \<Rightarrow> u8 list) \<Rightarrow> (nat \<Rightarrow> u8 list) \<Rightarrow> ata fs_state \<Rightarrow> bool" where
  "mounted_all s ps d idx f f' s' \<longleftrightarrow>
     root_dir_inode s' = root_dir_inode s \<and> i_block0 (bytes_in s') (root_dir_inode s) = d \<and>
     i_size (bytes_in s') (root_dir_inode s) = i_size (bytes_in s) (root_dir_inode s) + of_nat (length ps) * sizeof_dirent \<and>
     (\<forall>x \<in> set ps. prepared f (ptn_at s x) f') \<and>
     (\<forall>l. (\<forall>x \<in> set ps. l \<notin> extent (ptn_at s x)) \<longrightarrow> f' l = f l) \<and>
     (\<forall>x. x \<notin> set ps \<longrightarrow> ptn_at s' x = ptn_at s x) \<and>
     (\<forall>j<length ps. \<exists>ib bb. ptn_at s' (ps ! j) = mounted_ptn (ptn_at s (ps ! j)) (format_super (ptn_at s (ps ! j)))
        (blocks (ptn_at s (ps ! j))) (inode_max s + of_nat j * 4096) ib bb) \<and>
     (\<forall>j<length ps. dir_holds (bytes_in s') d (idx + j) (ptn_name (ptn_at s (ps ! j))) (inode_max s + of_nat j * 4096 + 1)) \<and>
     (\<forall>j nm no. j < idx \<longrightarrow> length nm < 16 \<longrightarrow> dir_holds (bytes_in s') d j nm no = dir_holds (bytes_in s) d j nm no)"

lemma mounted_allD:
  assumes "mounted_all s ps d idx f f' s'"
  shows "root_dir_inode s' = root_dir_inode s" and "i_block0 (bytes_in s') (root_dir_inode s) = d"
    and "i_size (bytes_in s') (root_dir_inode s) = i_size (bytes_in s) (root_dir_inode s) + of_nat (length ps) * sizeof_dirent"
    and "x \<in> set ps \<Longrightarrow> prepared f (ptn_at s x) f'"
    and "(\<And>x. x \<in> set ps \<Longrightarrow> l \<notin> extent (ptn_at s x)) \<Longrightarrow> f' l = f l"
    and "y \<notin> set ps \<Longrightarrow> ptn_at s' y = ptn_at s y"
    and "j < length ps \<Longrightarrow> \<exists>ib bb. ptn_at s' (ps ! j) = mounted_ptn (ptn_at s (ps ! j)) (format_super (ptn_at s (ps ! j)))
        (blocks (ptn_at s (ps ! j))) (inode_max s + of_nat j * 4096) ib bb"
    and "j < length ps \<Longrightarrow> dir_holds (bytes_in s') d (idx + j) (ptn_name (ptn_at s (ps ! j))) (inode_max s + of_nat j * 4096 + 1)"
    and "i < idx \<Longrightarrow> length nm < 16 \<Longrightarrow> dir_holds (bytes_in s') d i nm no = dir_holds (bytes_in s) d i nm no"
  using assms unfolding mounted_all_def by blast+

lemma all_Suc: "(\<forall>j<Suc n. P j) \<longleftrightarrow> P 0 \<and> (\<forall>j<n. P (Suc j))"
  using less_Suc_eq_0_disj by auto

text \<open>One partition, then the others.\<close>

lemma mounted_all_Cons:
  assumes p: "ptn_at s x = p" "length (ptn_name p) < 16" "x \<notin> set ps" and disj: "\<forall>y \<in> set ps. extent p \<inter> extent (ptn_at s y) = {}"
    and sound: "sound_ptn h p" "\<forall>y \<in> set ps. sound_ptn h (ptn_at s y)" and disk1: "prepared f p f1" "\<forall>l. l \<notin> extent p \<longrightarrow> f1 l = f l"
    and s1: "ptn_at s1 = (ptn_at s)(x := mounted_ptn p (format_super p) (blocks p) (inode_max s) ib bb)"
      "root_dir_inode s1 = root_dir_inode s" "inode_max s1 = inode_max s + 4096"
    and slot: "dir_holds (bytes_in s1) d idx (ptn_name p) (inode_max s + 1)"
    and before: "\<forall>j nm no. j < idx \<longrightarrow> length nm < 16 \<longrightarrow> dir_holds (bytes_in s1) d j nm no = dir_holds (bytes_in s) d j nm no"
    and size: "i_size (bytes_in s1) (root_dir_inode s) = i_size (bytes_in s) (root_dir_inode s) + sizeof_dirent"
    and rest: "mounted_all s1 ps d (Suc idx) f1 f' s'"
  shows "mounted_all s (x # ps) d idx f f' s'"
proof -
  have y: "ptn_at s1 y = ptn_at s y" if "y \<in> set ps" for y using that p(3) s1(1) by auto
  have nth: "ptn_at s1 (ps ! j) = ptn_at s (ps ! j)" if "j < length ps" for j using y [of "ps ! j"] that by simp
  note r = mounted_allD [OF rest, unfolded s1(2,3)]
  have x: "ptn_at s' x = mounted_ptn p (format_super p) (blocks p) (inode_max s) ib bb" using r(6) [OF p(3)] s1(1) by simp
  have "f1 l = f' l" if "l \<in> extent p" for l
    using disj that y by (intro r(5) [symmetric]) auto
  then have sx: "prepared f p f'" using prepared_cong [OF sound(1) _ _ disk1(1)] by blast
  have fx: "f' l = f l" if "\<forall>z \<in> set (x # ps). l \<notin> extent (ptn_at s z)" for l
  proof -
    have "f' l = f1 l" using y that by (intro r(5)) simp
    then show ?thesis using that disk1(2) p(1) by simp
  qed
  have sy: "prepared f (ptn_at s y) f'" if y': "y \<in> set ps" for y
  proof (rule prepared_cong)
    show "sound_ptn h (ptn_at s y)" using sound(2) y' by blast
    show "prepared f1 (ptn_at s y) f'" using r(4) [OF y'] y [OF y'] by simp
    show "\<forall>l \<in> extent (ptn_at s y). f1 l = f l" using disk1(2) disj y' by blast
  qed simp
  have oth: "ptn_at s' y = ptn_at s y" if "y \<notin> set (x # ps)" for y using r(6) [of y] s1(1) that by simp
  have ptns: "\<exists>ib bb. ptn_at s' (ps ! j) = mounted_ptn (ptn_at s (ps ! j)) (format_super (ptn_at s (ps ! j)))
        (blocks (ptn_at s (ps ! j))) (inode_max s + of_nat (Suc j) * 4096) ib bb" if "j < length ps" for j
    using r(7) [OF that] nth [OF that] by (simp add: algebra_simps)
  have dirs: "dir_holds (bytes_in s') d (idx + Suc j) (ptn_name (ptn_at s (ps ! j))) (inode_max s + of_nat (Suc j) * 4096 + 1)"
    if "j < length ps" for j
    using r(8) [OF that] nth [OF that] by (simp add: algebra_simps)
  have first: "dir_holds (bytes_in s') d idx (ptn_name p) (inode_max s + 1)" using r(9) [of idx] slot p(2) by simp
  have bef: "dir_holds (bytes_in s') d j nm no = dir_holds (bytes_in s) d j nm no" if "j < idx" "length nm < 16" for j nm no
    using r(9) [of j nm no] before that by simp
  show ?thesis
    unfolding mounted_all_def length_Cons all_Suc nth_Cons_0 nth_Cons_Suc
    using r(1-3) x sx sy fx oth ptns dirs first bef p(1) size by (auto simp: algebra_simps)
qed

lemma loop_run:
  fixes s :: "ata fs_state"
  assumes "working 256 L h f (sum_list (map (\<lambda>x. ptn_traffic (ptn_at s x)) ps) + n) (sum_list (map (\<lambda>x. ptn_price (ptn_at s x)) ps) + q) s"
    and "length ps < fuel" and "chain (ptn_nodes s) cur (map ptn_tag ps) (list_tail pl)" and "list_tail pl \<notin> ptn_tag ` set ps"
    and "\<forall>x \<in> set ps. sound_ptn h (ptn_at s x) \<and> blank_or_ours f (ptn_at s x)" and "apart (ptn_at s) ps"
    and "(buf, kb) \<in> L" and "512 \<le> kb" and "on_stack sb_at" and "root_ok (L - {(buf, kb)}) s"
    and "d = i_block0 (bytes_in s) (root_dir_inode s)" and "slots (bytes_in s) d idx" and "idx + length ps \<le> 10"
  shows "\<exists>s' f' L'. fs_init_loop fuel (ata_platform pl ih) sb_at buf cur s = Inr s' \<and> working 256 L' h f' n q s' \<and> L \<subseteq> L' \<and>
    mounted_all s ps d idx f f' s'"
  using assms
proof (induction ps arbitrary: s L f cur fuel idx)
  case Nil
  then obtain fu where "fuel = Suc fu" by (cases fuel) auto
  then show ?case using Nil by (intro exI [of _ s] exI [of _ f] exI [of _ L]) (simp add: ata_platform_def mounted_all_def)
next
  case (Cons x ps)
  let ?P = "ata_platform pl ih" and ?p = "ptn_at s x"
  obtain fu where fu: "fuel = Suc fu" "length ps < fu" using Cons.prems(2) by (cases fuel) auto
  have cur: "cur = ptn_tag x" "chain (ptn_nodes s) (nxt (ptn_nodes s (ptn_tag x))) (map ptn_tag ps) (list_tail pl)"
    "cur \<noteq> list_tail pl" using Cons.prems(3,4) by auto
  have sound: "sound_ptn h ?p" "blank_or_ours f ?p" using Cons.prems(5) by simp_all
  have pr: "ptn_hd ?p = h" "length (ptn_name ?p) < 16" using sound by (simp_all add: sound_ptn_def)
  have idx: "idx < 10" using Cons.prems(13) by simp
  have ap: "x \<notin> set ps" "\<forall>y \<in> set ps. extent ?p \<inter> extent (ptn_at s y) = {}" using Cons.prems(6) by (auto simp: apart_def)
  have w: "working 256 L h f (ptn_traffic ?p + (sum_list (map (\<lambda>x. ptn_traffic (ptn_at s x)) ps) + n))
      (ptn_price ?p + (sum_list (map (\<lambda>x. ptn_price (ptn_at s x)) ps) + q)) s"
    using Cons.prems(1) by (simp add: add.assoc)
  obtain s1 f1 L1 ib bb where m: "\<forall>c :: ata fs_state \<Rightarrow> stop + ata fs_state.
      rbind (ide_read ?P h (start_lba ?p + 1) buf 1 s) (\<lambda>s.
      rbind (if FS_MAGIC \<noteq> sb_magic (get_super (bytes_in s) buf) then fs_format ?P sb_at x s else Inr s) (\<lambda>s.
      rbind (fs_mount ?P x s) c)) = c s1"
    "working 256 L1 h f1 (sum_list (map (\<lambda>x. ptn_traffic (ptn_at s x)) ps) + n) (sum_list (map (\<lambda>x. ptn_price (ptn_at s x)) ps) + q) s1"
    "L \<subseteq> L1" "prepared f ?p f1" "\<forall>l. l \<notin> extent ?p \<longrightarrow> f1 l = f l"
    "ptn_at s1 = (ptn_at s)(x := mounted_ptn ?p (format_super ?p) (blocks ?p) (inode_max s) ib bb)"
    "ptn_nodes s1 = list_init (ptn_nodes s) (ptn_open_inodes x)" "root_dir_inode s1 = root_dir_inode s"
    "inode_max s1 = inode_max s + 4096"
    "\<forall>a. safe (L - {(buf, kb)}) a \<longrightarrow>
      bytes_in s1 a = add_entry d idx (ptn_name ?p) (inode_max s + 1) (root_dir_inode s) (bytes_in s) a"
    by (rule mount_one [where pl = pl and ih = ih and ptn = x, OF w refl sound Cons.prems(7-11)
      slots_free [OF Cons.prems(12) idx, symmetric] idx])
  obtain hp' where rep: "heap_rep (L - {(buf, kb)}) hp'" using rep_without [OF _ Cons.prems(7)] w by (auto simp: working_def)
  note rs = root_step [OF Cons.prems(10) rep Cons.prems(11) idx pr(2) Cons.prems(12) m(8,10)]
  have y: "ptn_at s1 y = ptn_at s y" if "y \<in> set ps" for y using that ap(1) m(6) by auto
  have "map (\<lambda>x. ptn_traffic (ptn_at s1 x)) ps = map (\<lambda>x. ptn_traffic (ptn_at s x)) ps"
    "map (\<lambda>x. ptn_price (ptn_at s1 x)) ps = map (\<lambda>x. ptn_price (ptn_at s x)) ps" using y by simp_all
  then have w1: "working 256 L1 h f1 (sum_list (map (\<lambda>x. ptn_traffic (ptn_at s1 x)) ps) + n)
      (sum_list (map (\<lambda>x. ptn_price (ptn_at s1 x)) ps) + q) s1" using m(2) by (simp only:)
  have tags: "ptn_nodes s1 (ptn_tag z) = ptn_nodes s (ptn_tag z)" if "z \<in> set (x # ps)" for z
    using Cons.prems(6) that m(7) by (auto simp: apart_def list_head_def list_init_other)
  have ch1: "chain (ptn_nodes s1) (nxt (ptn_nodes s1 cur)) (map ptn_tag ps) (list_tail pl)"
    using cur(1,2) tags by (subst chain_cong [of _ "ptn_nodes s1" "ptn_nodes s"]) auto
  have "f1 (unat (start_lba (ptn_at s y)) + 1) = f (unat (start_lba (ptn_at s y)) + 1)" if "y \<in> set ps" for y
    using m(5) ap(2) that Cons.prems(5) super_in_extent [of h "ptn_at s y"] by auto
  then have ok1: "\<forall>y \<in> set ps. sound_ptn h (ptn_at s1 y) \<and> blank_or_ours f1 (ptn_at s1 y)"
    using Cons.prems(5) y by (simp add: blank_or_ours_def)
  have sy: "\<forall>y \<in> set ps. sound_ptn h (ptn_at s y)" using Cons.prems(5) by simp
  have ap1: "apart (ptn_at s1) ps" using Cons.prems(6) y by (simp add: apart_def)
  have root1: "root_ok (L1 - {(buf, kb)}) s1" using rs(1) m(3) by (auto simp: root_ok_def)
  have d1: "d = i_block0 (bytes_in s1) (root_dir_inode s1)" using rs(2) m(8) by simp
  have tl: "list_tail pl \<notin> ptn_tag ` set ps" "Suc idx + length ps \<le> 10" "(buf, kb) \<in> L1" using Cons.prems(4,7,13) m(3) by auto
  obtain s' f' L' where r: "fs_init_loop fu ?P sb_at buf (nxt (ptn_nodes s1 cur)) s1 = Inr s'" "working 256 L' h f' n q s'" "L1 \<subseteq> L'"
      "mounted_all s1 ps d (Suc idx) f1 f' s'"
    using Cons.IH [OF w1 fu(2) ch1 tl(1) ok1 ap1 tl(3) Cons.prems(8,9) root1 d1 rs(3) tl(2)] by blast
  have "fs_init_loop fuel ?P sb_at buf cur s = fs_init_loop fu ?P sb_at buf (nxt (ptn_nodes s1 cur)) s1"
    using spec [OF m(1), of "\<lambda>s. fs_init_loop fu ?P sb_at buf (nxt (ptn_nodes s cur)) s"] cur(3)
    unfolding fu(1) fs_init_loop.simps Let_def cur(1) tag_entry pr(1) by (simp add: ata_platform_def)
  moreover have "\<forall>j nm no. j < idx \<longrightarrow> length nm < 16 \<longrightarrow> dir_holds (bytes_in s1) d j nm no = dir_holds (bytes_in s) d j nm no"
    using rs(5) idx by simp
  then have "mounted_all s (x # ps) d idx f f' s'"
    by (rule mounted_all_Cons [OF refl pr(2) ap sound(1) sy m(4-6,8,9) rs(4) _ rs(6) r(4)])
  ultimately show ?case using r(1-3) m(3) by (intro exI [of _ s'] exI [of _ f'] exI [of _ L']) auto
qed

section \<open>Start-up\<close>

lemma empty_dir_slots:
  assumes "empty_dir m d"
  shows "slots m d 2" and "dir_holds m d 0 [0x2E] 0" and "dir_holds m d 1 [0x2E, 0x2E] 0"
proof -
  have "FT_DIR \<noteq> FT_UNKNOWN" by (simp add: FT_DIR_def FT_UNKNOWN_def)
  then show "slots m d 2" using assms by (auto simp: slots_def empty_dir_def less_2_cases_iff)
qed (use assms in \<open>simp_all add: dir_holds_def empty_dir_def\<close>)

lemma empty_dir_kept:
  assumes "root_ok K s" and "heap_rep K hp" and "d = i_block0 (bytes_in s) (root_dir_inode s)" and "kept K s s'" and "empty_dir (bytes_in s) d"
  shows "slots (bytes_in s') d 2" and "dir_holds (bytes_in s') d 0 [0x2E] 0" and "dir_holds (bytes_in s') d 1 [0x2E, 0x2E] 0"
proof -
  note same = root_bytes [OF assms(1-3) assms(4) [unfolded kept_def]]
  have "slots (bytes_in s') d 2 = slots (bytes_in s) d 2" using same(4) by (auto simp: slots_def)
  then show "slots (bytes_in s') d 2" using empty_dir_slots(1) [OF assms(5)] by simp
  show "dir_holds (bytes_in s') d 0 [0x2E] 0" "dir_holds (bytes_in s') d 1 [0x2E, 0x2E] 0"
    using empty_dir_slots(2,3) [OF assms(5)] same(3-5) by (simp_all add: dir_holds_def)
qed

lemma fs_init_run:
  fixes s :: "ata fs_state"
  assumes w: "working 256 L h f (sum_list (map (\<lambda>x. ptn_traffic (ptn_at s x)) ps) + n)
      (cost 72 + (cost 512 + (sum_list (map (\<lambda>x. ptn_price (ptn_at s x)) ps) + q))) s"
    and fuel: "length ps < fuel" and ch: "chain (ptn_nodes s) (nxt (ptn_nodes s pl)) (map ptn_tag ps) (list_tail pl)"
    and tl: "list_tail pl \<notin> ptn_tag ` set ps"
    and ok: "\<forall>x \<in> set ps. sound_ptn h (ptn_at s x) \<and> blank_or_ours f (ptn_at s x)" and ap: "apart (ptn_at s) ps" and len: "length ps \<le> 8"
    and rb: "0xC0000000 \<le> unat rb" "unat rb + 4096 \<le> 0xC0076000" and sb: "on_stack sb_at"
    and off: "spares rb (heap s)" and far: "\<forall>q \<in> insert pl (ptn_tag ` set ps). \<not> in_range rb 4096 q"
  shows "\<exists>s' s0 f' L'. fs_init fuel (ata_platform pl ih) rb sb_at s = Inr s' \<and> working 256 L' h f' n q s' \<and> L \<subseteq> L' \<and>
    mounted_all s0 ps rb 2 f f' s' \<and> ptn_at s0 = ptn_at s \<and> inode_max s0 = inode_max s \<and>
    i_size (bytes_in s0) (root_dir_inode s0) = 2 * sizeof_dirent \<and>
    dir_holds (bytes_in s0) rb 0 [0x2E] 0 \<and> dir_holds (bytes_in s0) rb 1 [0x2E, 0x2E] 0"
proof -
  let ?P = "ata_platform pl ih"
  obtain s1 k where i: "root_dir_init rb s = Inr s1" "working 256 (insert (root_dir_inode s1, k) L) h f
      (sum_list (map (\<lambda>x. ptn_traffic (ptn_at s x)) ps) + n) (cost 512 + (sum_list (map (\<lambda>x. ptn_price (ptn_at s x)) ps) + q)) s1"
    "root_ok (insert (root_dir_inode s1, k) L) s1" "i_block0 (bytes_in s1) (root_dir_inode s1) = rb"
    "i_size (bytes_in s1) (root_dir_inode s1) = 2 * sizeof_dirent" "empty_dir (bytes_in s1) rb"
    "\<forall>i. 48 \<le> i \<longrightarrow> i < 4096 \<longrightarrow> bytes_in s1 (rb + of_nat i) = 0" "ptn_at s1 = ptn_at s"
    "\<forall>q. \<not> in_range rb 4096 q \<longrightarrow> ptn_nodes s1 q = ptn_nodes s q" "inode_max s1 = inode_max s" "(root_dir_inode s1, k) \<notin> L"
    by (rule root_dir_init_run [OF w rb off])
  have ch1: "chain (ptn_nodes s1) (nxt (ptn_nodes s1 pl)) (map ptn_tag ps) (list_tail pl)"
    using ch i(9) far by (subst chain_cong [of _ "ptn_nodes s1" "ptn_nodes s"]) auto
  let ?L1 = "insert (root_dir_inode s1, k) L"
  note e = empty_dir_slots [OF i(6)]
  show ?thesis
  proof (cases ps)
    case Nil
    then have "list_empty (ptn_nodes s1) pl" using ch1 by (simp add: list_empty_def list_head_def)
    then have "fs_init fuel ?P rb sb_at s = Inr s1" by (simp add: fs_init_def i(1) ata_platform_def)
    moreover have "working 256 ?L1 h f n q s1" using i(2) Nil working_less [of 256 ?L1 h f 0 n "cost 512" q s1] by simp
    moreover have "mounted_all s1 ps rb 2 f f s1" using Nil i(4) by (simp add: mounted_all_def)
    ultimately show ?thesis using i e by blast
  next
    case (Cons x xs)
    then have ne: "\<not> list_empty (ptn_nodes s1) pl" using ch1 tl by (auto simp: list_empty_def list_head_def)
    obtain buf s2 kb where m: "malloc_st 512 s1 = Inr (buf, s2)" "unat (512 :: u32) \<le> kb" "(buf, kb) \<notin> ?L1"
        "working 256 (insert (buf, kb) ?L1) h f (sum_list (map (\<lambda>x. ptn_traffic (ptn_at s x)) ps) + n)
          (sum_list (map (\<lambda>x. ptn_price (ptn_at s x)) ps) + q) s2"
        "kept ?L1 s1 s2" "low_kept s1 s2" "same_files s1 s2" "mem_bytes (bytes_in s2) buf kb = replicate kb 0"
      by (rule working_malloc [OF i(2) modest_512])
    let ?L2 = "insert (buf, kb) ?L1"
    have f2: "ptn_at s2 = ptn_at s" "ptn_nodes s2 = ptn_nodes s1" "root_dir_inode s2 = root_dir_inode s1" "inode_max s2 = inode_max s"
      using m(7) more_root [of s2 s1] i(8,10) by (simp_all add: same_files_def)
    have rep: "heap_rep ?L1 (heap s1)" using i(2) by (simp add: working_def)
    note rk = root_kept [OF m(5) i(3) rep f2(3)] and ek = empty_dir_kept [OF i(3) rep i(4) [symmetric] m(5) i(6)]
    have d2: "rb = i_block0 (bytes_in s2) (root_dir_inode s2)" using rk(2) i(4) by simp
    have size2: "i_size (bytes_in s2) (root_dir_inode s2) = 2 * sizeof_dirent"
      using root_bytes(1) [OF i(3) rep i(4) [symmetric] m(5) [unfolded kept_def]] i(5) f2(3) by simp
    have L2: "?L2 - {(buf, kb)} = ?L1" using m(3) by auto
    have root2: "root_ok (?L2 - {(buf, kb)}) s2" using i(3,4) d2 f2(3) unfolding L2 by (simp add: root_ok_def)
    have kb: "512 \<le> kb" "2 + length ps \<le> 10" using m(2) len by simp_all
    obtain s3 f' L' where l: "fs_init_loop fuel ?P sb_at buf (nxt (ptn_nodes s1 pl)) s2 = Inr s3" "working 256 L' h f' n q s3" "?L2 \<subseteq> L'"
        "mounted_all s2 ps rb 2 f f' s3"
      using loop_run [where s = s2, unfolded f2(1,2), OF m(4) fuel ch1 tl ok ap insertI1 kb(1) sb root2 d2 ek(1) kb(2)] by blast
    have bL: "(buf, kb) \<in> L'" using l(3) by auto
    obtain s4 where fr: "free_st buf s3 = Inr s4" "working 256 (L' - {(buf, kb)}) h f' n q s4" "bytes_in s4 = bytes_in s3" "same_files s3 s4"
      by (rule working_free [OF l(2) bL])
    have "mounted_all s2 ps rb 2 f f' s4"
      using l(4) fr(3,4) more_root [of s4 s3] by (simp add: mounted_all_def same_files_def)
    moreover have "fs_init fuel ?P rb sb_at s = Inr s4"
      using ne m(1) l(1) fr(1) f2(2) by (simp add: fs_init_def i(1) SECTOR_SIZE_def ata_platform_def)
    moreover have "L \<subseteq> L' - {(buf, kb)}" using l(3) m(3) by auto
    ultimately show ?thesis using fr(2) f2 size2 ek(2,3) by blast
  qed
qed

lemma fs_init_mounted:
  fixes s :: "ata fs_state"
  assumes "working 256 L h f (sum_list (map (\<lambda>x. ptn_traffic (ptn_at s x)) ps) + n)
      (cost 72 + (cost 512 + sum_list (map (\<lambda>x. ptn_price (ptn_at s x)) ps))) s"
    and "length ps < fuel" and "chain (ptn_nodes s) (nxt (ptn_nodes s pl)) (map ptn_tag ps) (list_tail pl)"
    and "list_tail pl \<notin> ptn_tag ` set ps"
    and "\<forall>x \<in> set ps. sound_ptn h (ptn_at s x) \<and> blank_or_ours f (ptn_at s x)" and "apart (ptn_at s) ps" and "length ps \<le> 8"
    and "0xC0000000 \<le> unat rb" and "unat rb + 4096 \<le> 0xC0076000" and "on_stack sb_at"
    and "spares rb (heap s)" and "\<forall>q \<in> insert pl (ptn_tag ` set ps). \<not> in_range rb 4096 q"
  shows "\<exists>s' f'. fs_init fuel (ata_platform pl ih) rb sb_at s = Inr s' \<and> disk_ready 256 n h f' s' \<and>
    i_block0 (bytes_in s') (root_dir_inode s') = rb \<and>
    i_size (bytes_in s') (root_dir_inode s') = of_nat (2 + length ps) * sizeof_dirent \<and>
    dir_holds (bytes_in s') rb 0 [0x2E] 0 \<and> dir_holds (bytes_in s') rb 1 [0x2E, 0x2E] 0 \<and>
    (\<forall>j<length ps. super_on f' (ptn_at s (ps ! j)) = format_super (ptn_at s (ps ! j)) \<and> prepared f (ptn_at s (ps ! j)) f' \<and>
       dir_holds (bytes_in s') rb (2 + j) (ptn_name (ptn_at s (ps ! j))) (inode_max s + of_nat j * 4096 + 1) \<and>
       (\<exists>ib bb. ptn_at s' (ps ! j) = mounted_ptn (ptn_at s (ps ! j)) (format_super (ptn_at s (ps ! j)))
          (blocks (ptn_at s (ps ! j))) (inode_max s + of_nat j * 4096) ib bb)) \<and>
    (\<forall>l. (\<forall>x \<in> set ps. l \<notin> extent (ptn_at s x)) \<longrightarrow> f' l = f l)"
proof -
  obtain s' s0 f' L' where r: "fs_init fuel (ata_platform pl ih) rb sb_at s = Inr s'" "working 256 L' h f' n 0 s'"
    and m: "mounted_all s0 ps rb 2 f f' s'" and s0: "ptn_at s0 = ptn_at s" "inode_max s0 = inode_max s"
      "i_size (bytes_in s0) (root_dir_inode s0) = 2 * sizeof_dirent"
      "dir_holds (bytes_in s0) rb 0 [0x2E] 0" "dir_holds (bytes_in s0) rb 1 [0x2E, 0x2E] 0"
    using fs_init_run [where q = 0, OF _ assms(2-12)] assms(1) by fastforce
  note a = mounted_allD [OF m, unfolded s0(1,2)]
  have sup: "super_on f' (ptn_at s (ps ! j)) = format_super (ptn_at s (ps ! j))" if "j < length ps" for j
    using prepared_super [of h "ptn_at s (ps ! j)" f f'] a(4) [of "ps ! j"] assms(5) that by simp
  have "disk_ready 256 n h f' s'" using r(2) by (simp add: working_def)
  moreover have "i_size (bytes_in s') (root_dir_inode s') = of_nat (2 + length ps) * sizeof_dirent"
    using a(1,3) s0(3) by (simp add: algebra_simps)
  moreover have "dir_holds (bytes_in s') rb 0 [0x2E] 0" "dir_holds (bytes_in s') rb 1 [0x2E, 0x2E] 0"
    using a(9) [of 0 "[0x2E]" 0] a(9) [of 1 "[0x2E, 0x2E]" 0] s0(4,5) by simp_all
  ultimately show ?thesis using r(1) sup a(1,2,4,5,7,8) by (intro exI [of _ s'] exI [of _ f']) simp
qed

section \<open>Properties\<close>

text \<open>C4: start-up. At most eight partitions of disjoint sectors lie on a drive that needs no time between two
  sectors of a command, each blank or formatted before; \<open>root_blk\<close> has 4096 bytes to itself as far as the
  block descriptors and the list of partitions go. Then \<open>fs_init\<close> returns. A partition that did not carry the
  magic number holds a complete empty file system (super block, inode bitmap, inode of the root directory,
  block bitmap, root directory with its two dots) and its other sectors are as they were; of a partition that
  did, no sector has changed. The record of every partition has the layout and a range of 4096 inode numbers
  of its own, the root directory lists the two dots and every partition by name, in order, with its inode
  base, and no sector outside the partitions has changed.\<close>

theorem fs_init_mounts_all:
  fixes s :: "ata fs_state"
  assumes "working 256 L h f (sum_list (map (\<lambda>x. ptn_traffic (ptn_at s x)) ps) + n)
      (cost 72 + (cost 512 + sum_list (map (\<lambda>x. ptn_price (ptn_at s x)) ps))) s"
    and "length ps < fuel" and "chain (ptn_nodes s) (nxt (ptn_nodes s pl)) (map ptn_tag ps) (list_tail pl)"
    and "list_tail pl \<notin> ptn_tag ` set ps"
    and "\<forall>x \<in> set ps. sound_ptn h (ptn_at s x) \<and> blank_or_ours f (ptn_at s x)" and "apart (ptn_at s) ps" and "length ps \<le> 8"
    and "0xC0000000 \<le> unat rb" and "unat rb + 4096 \<le> 0xC0076000" and "on_stack sb_at"
    and "spares rb (heap s)" and "\<forall>q \<in> insert pl (ptn_tag ` set ps). \<not> in_range rb 4096 q"
  shows "\<exists>s' f'. fs_init fuel (ata_platform pl ih) rb sb_at s = Inr s' \<and> disk_ready 256 n h f' s' \<and>
    i_block0 (bytes_in s') (root_dir_inode s') = rb \<and>
    i_size (bytes_in s') (root_dir_inode s') = of_nat (2 + length ps) * sizeof_dirent \<and>
    dir_holds (bytes_in s') rb 0 [0x2E] 0 \<and> dir_holds (bytes_in s') rb 1 [0x2E, 0x2E] 0 \<and>
    (\<forall>j<length ps. super_on f' (ptn_at s (ps ! j)) = format_super (ptn_at s (ps ! j)) \<and> prepared f (ptn_at s (ps ! j)) f' \<and>
       dir_holds (bytes_in s') rb (2 + j) (ptn_name (ptn_at s (ps ! j))) (inode_max s + of_nat j * 4096 + 1) \<and>
       (\<exists>ib bb. ptn_at s' (ps ! j) = mounted_ptn (ptn_at s (ps ! j)) (format_super (ptn_at s (ps ! j)))
          (blocks (ptn_at s (ps ! j))) (inode_max s + of_nat j * 4096) ib bb)) \<and>
    (\<forall>l. (\<forall>x \<in> set ps. l \<notin> extent (ptn_at s x)) \<longrightarrow> f' l = f l)"
  by (rule fs_init_mounted [OF assms])

lemma demo_sound: "sound_ptn (0, 0) demo_ptn" "blank_or_ours blank demo_ptn"
  and demo_blank: "sb_magic (super_on blank demo_ptn) \<noteq> FS_MAGIC"
proof -
  show "sound_ptn (0, 0) demo_ptn" by (simp add: sound_ptn_def demo_sizes)
  have at: "sector_mem (blank 101) (of_nat i) = 101" if "i < 512" for i
    using that by (simp add: sector_mem_def blank_def unat_of_nat_less)
  from at [of 0] at [of 1] at [of 2] at [of 3] have "load32 (sector_mem (blank 101)) 0 = 0x65656565"
    by (simp add: load32_def)
  then show "sb_magic (super_on blank demo_ptn) \<noteq> FS_MAGIC" by (simp add: get_super_def FS_MAGIC_def)
  then show "blank_or_ours blank demo_ptn" by (simp add: blank_or_ours_def)
qed

theorem fs_init_mounts_all_witness:
  "\<exists>s f. fs_init 5 (ata_platform 0x2000 0) 0xC0010000 0x9E000 (demo_fs blank) = Inr s \<and>
     super_on f demo_ptn = format_super demo_ptn \<and> empty_fs demo_ptn f \<and>
     dir_holds (bytes_in s) 0xC0010000 2 [0x73, 0x64, 0x61] 1"
proof -
  let ?s = "demo_fs blank"
  have tr: "ptn_traffic demo_ptn = 9" "cost 72 + (cost 512 + ptn_price demo_ptn) = 6"
    by (simp_all add: ptn_traffic_def ptn_price_def cost_def demo_sizes)
  have "disk_ready 256 9 (0, 0) blank ?s" by (rule demo_fs_ready) (simp_all add: blank_def)
  then have w: "working 256 {} (0, 0) blank (sum_list (map (\<lambda>x. ptn_traffic (ptn_at ?s x)) [0x3000]) + 0)
      (cost 72 + (cost 512 + sum_list (map (\<lambda>x. ptn_price (ptn_at ?s x)) [0x3000]))) ?s"
    using demo_heap_rep demo_budget [of 6] demo_heap_lingers tr by (simp add: working_def)
  have h: "length [0x3000 :: ptr] < 5" "chain (ptn_nodes ?s) (nxt (ptn_nodes ?s 0x2000)) (map ptn_tag [0x3000]) (list_tail 0x2000)"
    "list_tail 0x2000 \<notin> ptn_tag ` set [0x3000]" "\<forall>x \<in> set [0x3000 :: ptr]. sound_ptn (0, 0) (ptn_at ?s x) \<and> blank_or_ours blank (ptn_at ?s x)"
    "apart (ptn_at ?s) [0x3000]" "length [0x3000 :: ptr] \<le> 8" "0xC0000000 \<le> unat (0xC0010000 :: ptr)"
    "unat (0xC0010000 :: ptr) + 4096 \<le> 0xC0076000" "on_stack 0x9E000" "spares 0xC0010000 (heap ?s)"
    "\<forall>q \<in> insert 0x2000 (ptn_tag ` set [0x3000]). \<not> in_range (0xC0010000 :: ptr) 4096 q"
    using demo_sound demo_spares by (simp_all add: ptn_tag_def list_tail_def list_head_def apart_def ptn_open_inodes_def on_stack_def in_range_def)
      (simp add: demo_fs_def)
  have "sb_magic (super_on blank demo_ptn) \<noteq> FS_MAGIC"
    using demo_blank by blast
  with fs_init_mounts_all [where ih = 0, OF w h] show ?thesis by (auto simp: demo_fs_def prepared_def)
qed

end
