(* ===== verification/KScan.thy ===== *)
theory KScan
  imports KMount
begin

text \<open>
  The partition tables of a disk, \<open>ide_get_partition\<close> of \<open>code/kernel/src/ide.c\<close>: what a scan finds on a disk as a
  function of its sectors, and the run of the code that records it in heap and list, with the depth it needs.
\<close>

section \<open>The tables of a disk\<close>

text \<open>The four entries of a boot sector: type, first sector and number of sectors.\<close>

definition entry :: "u8 list \<Rightarrow> nat \<Rightarrow> u8 \<times> u32 \<times> u32" where
  "entry bs idx = (let e = ptable_at 0 idx in (sector_mem bs (e + 4), load32 (sector_mem bs) (e + 8), load32 (sector_mem bs) (e + 12)))"

text \<open>A data partition as it is recorded: number in its name, first sector, number of sectors.\<close>

type_synonym part = "u32 \<times> u32 \<times> u32"

text \<open>A walk over entries; \<open>sub\<close> scans the table of an extended entry. It answers the partitions in order, the
  next free number of a logical partition and how many tables were read.\<close>

fun walk :: "(u32 \<Rightarrow> u32 \<Rightarrow> u32 \<Rightarrow> (part list \<times> u32 \<times> nat) option) \<Rightarrow> u32 \<Rightarrow> u32 \<Rightarrow> u8 list \<Rightarrow> nat list \<Rightarrow> u32 \<Rightarrow>
    (part list \<times> u32 \<times> nat) option" where
  "walk sub b ofs bs [] nr = Some ([], nr, 0)"
| "walk sub b ofs bs (idx # is) nr =
     (case entry bs idx of (type, start, cnt) \<Rightarrow>
        if type = 0 then walk sub b ofs bs is nr
        else if type = 5 then do {
          (ps, nr1, k1) \<leftarrow> if b = 0 then sub start 0 5 else sub b start nr;
          (qs, nr2, k2) \<leftarrow> walk sub b ofs bs is nr1;
          Some (ps @ qs, nr2, k1 + k2)
        }
        else do {
          (qs, nr1, k) \<leftarrow> walk sub b ofs bs is (if b = 0 then nr else nr + 1);
          Some ((if b = 0 then of_nat (idx + 1) else nr, b + ofs + start, cnt) # qs, nr1, k)
        })"

text \<open>\<open>depth\<close> bounds the nesting of tables; a table behind the reach of a 28-bit sector number is not read.\<close>

fun scan :: "nat \<Rightarrow> (nat \<Rightarrow> u8 list) \<Rightarrow> u32 \<Rightarrow> u32 \<Rightarrow> u32 \<Rightarrow> (part list \<times> u32 \<times> nat) option" where
  "scan 0 f b ofs nr = None"
| "scan (Suc depth) f b ofs nr =
     (if unat (b + ofs) < 2 ^ 28
      then do { (ps, nr', k) \<leftarrow> walk (scan depth f) b ofs (f (unat (b + ofs))) [0..<4] nr; Some (ps, nr', Suc k) }
      else None)"

lemma walk_mono:
  assumes "\<And>x y nr r. sub x y nr = Some r \<Longrightarrow> sub' x y nr = Some r"
  shows "walk sub b ofs bs is nr = Some r \<Longrightarrow> walk sub' b ofs bs is nr = Some r"
proof (induction "is" arbitrary: b nr r)
  case (Cons idx "is")
  show ?case using Cons.prems assms by (auto simp: bind_eq_Some_conv split: prod.splits if_splits intro!: Cons.IH)
qed simp

lemma scan_deeper: "scan d f b ofs nr = Some r \<Longrightarrow> d \<le> d' \<Longrightarrow> scan d' f b ofs nr = Some r"
proof (induction d arbitrary: d' b ofs nr r)
  case (Suc d)
  then obtain e where e: "d' = Suc e" "d \<le> e" by (cases d') auto
  have sub: "scan d f b o' n = Some x \<Longrightarrow> scan e f b o' n = Some x" for b o' n x using Suc.IH e(2) by blast
  show ?case using Suc.prems(1) unfolding e(1)
    by (auto simp: bind_eq_Some_conv split: if_splits intro: walk_mono [OF sub])
qed simp


section \<open>What a scan leaves alone\<close>

definition same_rig :: "(ata, 'x) ide_state_scheme \<Rightarrow> (ata, 'x) ide_state_scheme \<Rightarrow> bool" where
  "same_rig s s' \<longleftrightarrow> (\<forall>c. port_base (ide_ch s' c) = port_base (ide_ch s c) \<and> ch_irq (ide_ch s' c) = ch_irq (ide_ch s c)) \<and>
     base (hw s') = base (hw s) \<and> platters (hw s') = platters (hw s) \<and> intr s' = intr s"

definition calm :: "(ata, 'x) ide_state_scheme \<Rightarrow> (ata, 'x) ide_state_scheme \<Rightarrow> bool" where
  "calm s s' \<longleftrightarrow> same_rig s s' \<and> ptn_at s' = ptn_at s \<and> ptn_nodes s' = ptn_nodes s \<and> ptn_nr s' = ptn_nr s \<and> ide_state.more s' = ide_state.more s \<and>
     (\<forall>h. hd_of h s' = hd_of h s)"

lemma same_rig_trans: "same_rig s t \<Longrightarrow> same_rig t u \<Longrightarrow> same_rig s u"
  by (simp add: same_rig_def)

lemma calm_trans: "calm s t \<Longrightarrow> calm t u \<Longrightarrow> calm s u"
  using same_rig_trans [of s t u] by (simp add: calm_def)

lemma malloc_shape: "malloc_st sz s = Inr (p, s') \<Longrightarrow> s' = s\<lparr>heap := heap s'\<rparr> \<and> sys_malloc sz (heap s) = Inr (p, heap s')"
  by (cases "sys_malloc sz (heap s)") (auto simp: malloc_st_def)

lemma free_shape: "free_st p s = Inr s' \<Longrightarrow> s' = s\<lparr>heap := heap s'\<rparr> \<and> sys_free p (heap s) = Inr (heap s')"
  by (cases "sys_free p (heap s)") (auto simp: free_st_def)

lemma calm_heap: "calm s (s\<lparr>heap := hp\<rparr>)"
  by (simp add: calm_def hd_of_def same_rig_def)

lemma read_calm:
  assumes D: "disk_ready bt n h f s" and "1 \<le> n" and "unat lba < 2 ^ 28" and "ide_read (ata_platform pl ih) h lba dst 1 s = Inr s'"
  shows "calm s s'"
proof -
  have "unat (1 :: u32) \<le> n" "unat (1 :: u32) * 512 < 2 ^ 32" "unat (1 :: u32) \<le> 1" using assms(2) by simp_all
  note r = read_disk [OF disk_ready_one [OF D] this(1,2) assms(3) this(3), of pl ih dst]
  obtain a v m where d: "s' = drv (hd_ch (hd_of h s)) a v m s" "disk_ready 1 (n - unat (1 :: u32)) h f s'"
      "platters a = (platters (hw s))(is_slave h s := Some f)" using r assms(4) by auto
  have f: "platters (hw s) (is_slave h s) = Some f" and b: "port_base (ide_ch s (hd_ch (hd_of h s))) = base (hw s)"
    using assms(1) by (simp_all add: disk_ready_def wired_def)
  have "base a = base (hw s)" using d(2) b unfolding d(1) by (simp add: disk_ready_def wired_def)
  moreover have "platters a = platters (hw s)" using d(3) f by (simp add: fun_upd_idem)
  ultimately have "same_rig s s'" by (simp add: same_rig_def d(1)) (simp add: drv_def)
  then show ?thesis unfolding calm_def by (simp add: d(1)) (simp add: drv_def)
qed

text \<open>The list of partitions: nodes in live structures, its ends outside the heap.\<close>

definition parts_at :: "ptr \<Rightarrow> (ptr \<times> nat) set \<Rightarrow> ('d, 'x) ide_state_scheme \<Rightarrow> ptr list \<Rightarrow> bool" where
  "parts_at pl L s qs \<longleftrightarrow> dlist (ptn_nodes s) pl (map ptn_tag qs) \<and> (\<forall>x \<in> set qs. \<exists>k\<ge>108. (x, k) \<in> L) \<and>
     unat pl + 16 \<le> 0xC0100000"

definition part_of :: "hd_ptr \<Rightarrow> ('d, 'x) ide_state_scheme \<Rightarrow> part \<Rightarrow> ide_ptn" where
  "part_of h s = (\<lambda>(nr, start, cnt). zero_ptn\<lparr>ptn_name := formatted ptn_format [Str (hd_name (hd_of h s)), Num nr],
     start_lba := start, sec_cnt := cnt, ptn_hd := h\<rparr>)"

text \<open>From \<open>s\<close> to \<open>s'\<close> the partitions \<open>rs\<close> are recorded at \<open>ps\<close>, behind \<open>qs\<close>; the live regions grow from \<open>L\<close> to \<open>L'\<close>.\<close>

definition recorded :: "ptr \<Rightarrow> hd_ptr \<Rightarrow> (ptr \<times> nat) set \<Rightarrow> (ata, 'x) ide_state_scheme \<Rightarrow> ptr list \<Rightarrow> part list \<Rightarrow>
    ptr list \<Rightarrow> (ptr \<times> nat) set \<Rightarrow> (ata, 'x) ide_state_scheme \<Rightarrow> bool" where
  "recorded pl h L s qs rs ps L' s' \<longleftrightarrow> parts_at pl L' s' (qs @ ps) \<and> map (ptn_at s') ps = map (part_of h s) rs \<and>
     (\<forall>x. x \<notin> set ps \<longrightarrow> ptn_at s' x = ptn_at s x) \<and> (\<forall>x k. x \<in> set ps \<longrightarrow> (x, k) \<notin> L) \<and> L \<subseteq> L' \<and> kept L s s' \<and> low_kept s s' \<and>
     (\<forall>h. hd_of h s' = hd_of h s) \<and> ide_state.more s' = ide_state.more s \<and> same_rig s s'"

lemma part_of_cong: "hd_of h s' = hd_of h s \<Longrightarrow> part_of h s' = part_of h s"
  by (simp add: part_of_def)

lemma recordedD:
  assumes "recorded pl h L s qs rs ps L' s'"
  shows "parts_at pl L' s' (qs @ ps)" and "map (ptn_at s') ps = map (part_of h s) rs" and "x \<notin> set ps \<Longrightarrow> ptn_at s' x = ptn_at s x"
    and "x \<in> set ps \<Longrightarrow> (x, k) \<notin> L" and "L \<subseteq> L'" and "kept L s s'" and "low_kept s s'" and "hd_of h' s' = hd_of h' s"
    and "ide_state.more s' = ide_state.more s" and "same_rig s s'"
  using assms unfolding recorded_def by blast+

lemma recorded_trans:
  assumes a: "recorded pl h L s qs rs ps L' s'" and b: "recorded pl h L' s' (qs @ ps) rs' ps' L'' s''"
  shows "recorded pl h L s qs (rs @ rs') (ps @ ps') L'' s''"
proof -
  note A = recordedD [OF a] and B = recordedD [OF b]
  have "\<exists>k. (x, k) \<in> L'" if "x \<in> set ps" for x using A(1) that by (auto simp: parts_at_def)
  then have new: "x \<notin> set ps'" if "x \<in> set ps" for x using B(4) that by blast
  have "map (ptn_at s'') ps = map (part_of h s) rs" using A(2) B(3) new by (metis (no_types, lifting) map_eq_conv)
  moreover have "map (ptn_at s'') ps' = map (part_of h s) rs'" using B(2) part_of_cong [OF A(8)] by simp
  moreover have "kept L s s''" by (rule kept_trans [OF A(6) B(6) A(5)])
  moreover have "low_kept s s''" using A(7) B(7) by (simp add: low_kept_def)
  moreover have "(x, k) \<notin> L" if "x \<in> set ps'" for x k using B(4) A(5) that by blast
  moreover have "same_rig s s''" using A(10) B(10) by (rule same_rig_trans)
  ultimately show ?thesis using A B unfolding recorded_def by (intro conjI allI impI) auto
qed

lemma recorded_calm:
  assumes "calm s s'" and "kept L s s'" and "low_kept s s'" and "L \<subseteq> L'" and "parts_at pl L s qs"
  shows "recorded pl h L s qs [] [] L' s'"
  using assms by (fastforce simp: recorded_def calm_def parts_at_def)


section \<open>The scan\<close>

text \<open>The table read into a live region.\<close>

definition table_at :: "(ptr \<times> nat) set \<Rightarrow> ('d, 'x) ide_state_scheme \<Rightarrow> ptr \<Rightarrow> u8 list \<Rightarrow> bool" where
  "table_at L s bs tb \<longleftrightarrow> (\<exists>k\<ge>512. (bs, k) \<in> L \<and> k < 2 ^ 32) \<and> mem_bytes (bytes_in s) bs 512 = tb"

lemma table_entry:
  assumes "table_at L s bs tb" and "idx < 4"
  shows "entry tb idx = (ptable_type bs idx s, ptable_start bs idx s, ptable_cnt bs idx s)"
proof -
  have tb: "tb = mem_bytes (bytes_in s) bs 512" using assms(1) by (simp add: table_at_def)
  have "idx = 0 \<or> idx = 1 \<or> idx = 2 \<or> idx = 3" using assms(2) by linarith
  then show ?thesis
    unfolding entry_def tb ptable_type_def ptable_start_def ptable_cnt_def ptable_at_def Let_def
    by (auto simp: sector_byte sector_load add.assoc)
qed

lemma ptable_fields [simp]:
  "ptable_start bs idx (s\<lparr>ptn_at := p\<rparr>) = ptable_start bs idx s" "ptable_start bs idx (s\<lparr>ptn_nr := v\<rparr>) = ptable_start bs idx s"
  "ptable_cnt bs idx (s\<lparr>ptn_at := p\<rparr>) = ptable_cnt bs idx s" "ptable_cnt bs idx (s\<lparr>ptn_nr := v\<rparr>) = ptable_cnt bs idx s"
  by (simp_all add: ptable_start_def ptable_cnt_def)

lemma table_kept:
  assumes "table_at L s bs tb" and "kept L s s'" and "L \<subseteq> L'"
  shows "table_at L' s' bs tb"
proof -
  obtain k where k: "512 \<le> k" "(bs, k) \<in> L" "k < 2 ^ 32" using assms(1) by (auto simp: table_at_def)
  have "bytes_in s' (bs + of_nat i) = bytes_in s (bs + of_nat i)" if "i < 512" for i
    using assms(2) safe_live [OF k(2) _ k(3), of i] that k(1) by (simp add: kept_def)
  then have "mem_bytes (bytes_in s') bs 512 = mem_bytes (bytes_in s) bs 512" by (simp add: mem_bytes_def)
  then show ?thesis using assms(1,3) unfolding table_at_def by auto
qed

lemma working_same: "heap s' = heap s \<Longrightarrow> hw s' = hw s \<Longrightarrow> ide_ch s' = ide_ch s \<Longrightarrow> working bt L h f n q s' = working bt L h f n q s"
  using disk_ready_cong [of s' s bt n h f] by (simp add: working_def)

lemma parts_append:
  assumes "parts_at pl L s qs" and "heap_rep (insert (x, k) L) hp" and "(x, k) \<notin> L" and "108 \<le> k"
  shows "dlist (list_append (ptn_nodes s) pl (ptn_tag x)) pl (map ptn_tag (qs @ [x]))"
proof -
  have d: "dlist (ptn_nodes s) pl (map ptn_tag qs)" and pl: "unat pl + 16 \<le> 0xC0100000"
    using assms(1) by (simp_all add: parts_at_def)
  have q: "\<exists>k. (y, k) \<in> L" if "y \<in> set qs" for y using assms(1) that by (auto simp: parts_at_def)
  have sz: "k < 2 ^ 32" using heap.sizes [OF assms(2) insertI1] by simp
  have "in_range x (of_nat k) (ptn_tag x)" using assms(4) sz by (simp add: in_range_def ptn_tag_def u32_less_of_nat)
  then have high: "0xC0100000 \<le> unat (ptn_tag x)" by (rule live_high [OF assms(2) insertI1])
  have "unat (pl + 8) = unat pl + 8" using pl by (subst unat_add_small) simp_all
  then have "ptn_tag x \<noteq> pl" "ptn_tag x \<noteq> list_tail pl" using high pl by (auto simp: list_tail_def)
  moreover have "ptn_tag x \<notin> ptn_tag ` set qs"
  proof
    assume "ptn_tag x \<in> ptn_tag ` set qs"
    then have "x \<in> set qs" by (auto simp: ptn_tag_def)
    then obtain k' where "(x, k') \<in> L" using q by blast
    then show False using heap.start_unique [OF assms(2), of x k k'] assms(3) by auto
  qed
  ultimately show ?thesis using list_append_dlist [OF d, of "ptn_tag x"] by simp
qed

lemma record_run:
  fixes s :: "(ata, 'x) ide_state_scheme"
  assumes w: "working bt L h f n (cost sizeof_ide_ptn + q) s" and at: "parts_at pl L s qs" and tb: "table_at L s bs tb" and idx: "idx < 4"
    and r: "r = (if b = 0 then of_nat (idx + 1) else ptn_nr s, b + ofs + ptable_start bs idx s, ptable_cnt bs idx s)"
  obtains x L' s' where "record_ptn (ata_platform pl ih) h b ofs bs idx s = Inr s'" and "recorded pl h L s qs [r] [x] L' s'"
    and "working bt L' h f n q s'" and "ptn_nr s' = (if b = 0 then ptn_nr s else ptn_nr s + 1)"
proof -
  have md: "modest sizeof_ide_ptn" by (simp add: modest_def sizeof_ide_ptn_def)
  obtain x t k where m: "malloc_st sizeof_ide_ptn s = Inr (x, t)" "unat sizeof_ide_ptn \<le> k" "(x, k) \<notin> L" "working bt (insert (x, k) L) h f n q t"
      "kept L s t" "low_kept s t" "same_files s t" "mem_bytes (bytes_in t) x k = replicate k 0"
    by (rule working_malloc [OF w md])
  note sh = malloc_shape [OF m(1)]
  have k: "108 \<le> k" using m(2) by (simp add: sizeof_ide_ptn_def)
  have hp: "heap_rep (insert (x, k) L) (heap t)" using m(4) by (simp add: working_def)
  have nn: "x \<noteq> NULL"
  proof -
    have "in_range x (of_nat k) x" using k heap.sizes [OF hp insertI1] by (simp add: in_range_def u32_less_of_nat)
    then show ?thesis using live_high [OF hp insertI1] by fastforce
  qed
  note e = table_entry [OF tb idx] table_entry [OF table_kept [OF tb m(5) order_refl] idx]
  then have en: "ptable_start bs idx t = ptable_start bs idx s" "ptable_cnt bs idx t = ptable_cnt bs idx s" by simp_all
  define s' where "s' = t\<lparr>ptn_nr := (if b = 0 then ptn_nr s else ptn_nr s + 1), ptn_at := (ptn_at s)(x := part_of h s r),
    ptn_nodes := list_append (ptn_nodes s) pl (ptn_tag x)\<rparr>"
  have t: "ptn_nr t = ptn_nr s" "ptn_at t = ptn_at s" "ptn_nodes t = ptn_nodes s" "hd_of h t = hd_of h s" for h
    using sh calm_heap [of s "heap t"] by (metis calm_def)+
  have "s\<lparr>heap := heap t\<rparr> = t" using sh by simp
  then have run: "record_ptn (ata_platform pl ih) h b ofs bs idx s = Inr s'"
    unfolding record_ptn_def conjunct2 [OF sh] rbind_simps
    by (cases "b = 0") (use nn sh en t in \<open>simp_all add: s'_def r part_of_def Let_def hd_of_def ata_platform_def\<close>)
  have "parts_at pl (insert (x, k) L) s' (qs @ [x])"
    using parts_append [OF at hp m(3) k] at k unfolding parts_at_def s'_def by auto
  moreover have "kept L s s'" "low_kept s s'" using m(5,6) by (simp_all add: kept_def low_kept_def s'_def)
  moreover have "(x, k') \<notin> L" for k' using heap.start_unique [OF hp, of x k k'] m(3) by auto
  moreover have "hd_of h' s' = hd_of h' s" "ide_state.more s' = ide_state.more s" for h'
    using t(4) [of h'] m(7) by (simp_all add: s'_def hd_of_def same_files_def)
  moreover have "same_rig s s'" using sh calm_heap [of s "heap t"] by (simp add: s'_def calm_def same_rig_def)
  ultimately have "recorded pl h L s qs [r] [x] (insert (x, k) L) s'"
    unfolding recorded_def by (auto simp: s'_def)
  moreover have "working bt (insert (x, k) L) h f n q s'"
    using m(4) working_same [of s' t] by (simp add: s'_def)
  moreover have "ptn_nr s' = (if b = 0 then ptn_nr s else ptn_nr s + 1)" by (simp add: s'_def)
  ultimately show thesis using run that by blast
qed


text \<open>\<open>rescan\<close> does on a machine with room what \<open>sub\<close> does on the disk.\<close>

definition pages :: "nat \<Rightarrow> part list \<Rightarrow> nat" where
  "pages k rs = k * cost sizeof_boot_sector + length rs * cost sizeof_ide_ptn"

definition scans :: "nat \<Rightarrow> ptr \<Rightarrow> hd_ptr \<Rightarrow> (nat \<Rightarrow> u8 list) \<Rightarrow> (u32 \<Rightarrow> u32 \<Rightarrow> u32 \<Rightarrow> (part list \<times> u32 \<times> nat) option) \<Rightarrow>
    (u32 \<Rightarrow> u32 \<Rightarrow> (ata, 'x) ide_state_scheme \<Rightarrow> stop + (ata, 'x) ide_state_scheme) \<Rightarrow> bool" where
  "scans bt pl h f sub rescan \<longleftrightarrow> (\<forall>b ofs nr rs nr' k L s qs n q. sub b ofs nr = Some (rs, nr', k) \<longrightarrow>
     working bt L h f (k + n) (pages k rs + q) s \<longrightarrow> parts_at pl L s qs \<longrightarrow> ptn_nr s = nr \<longrightarrow>
     (\<exists>ps L' s'. rescan b ofs s = Inr s' \<and> recorded pl h L s qs rs ps L' s' \<and> working bt L' h f n q s' \<and> ptn_nr s' = nr'))"

lemma scansD:
  assumes "scans bt pl h f sub rescan" and "sub b ofs (ptn_nr s) = Some (rs, nr', k)" and "working bt L h f (k + n) (pages k rs + q) s"
    and "parts_at pl L s qs"
  obtains ps L' s' where "rescan b ofs s = Inr s'" and "recorded pl h L s qs rs ps L' s'" and "working bt L' h f n q s'" and "ptn_nr s' = nr'"
  using assms unfolding scans_def by blast

lemma pages_add: "pages (j + k) (xs @ ys) = pages j xs + pages k ys" "pages k (x # xs) = cost sizeof_ide_ptn + pages k xs"
  "pages (Suc k) xs = cost sizeof_boot_sector + pages k xs"
  by (simp_all add: pages_def algebra_simps)

lemma parts_fields [simp]: "parts_at pl L (s\<lparr>ptn_nr := v\<rparr>) qs = parts_at pl L s qs"
  "recorded pl h L (s\<lparr>ptn_nr := v\<rparr>) qs rs ps L' s' = recorded pl h L s qs rs ps L' s'" "working bt L h f n q (s\<lparr>ptn_nr := v\<rparr>) = working bt L h f n q s"
  using working_same [of "s\<lparr>ptn_nr := v\<rparr>" s bt L h f n q]
  by (simp_all add: parts_at_def recorded_def part_of_def kept_def low_kept_def hd_of_def same_rig_def)

lemma walk_run:
  assumes sub: "scans bt pl h f sub rescan" and "set is \<subseteq> {..<4}" and "table_at L s bs tb"
    and "walk sub b ofs tb is (ptn_nr s) = Some (rs, nr', k)" and "working bt L h f (k + n) (pages k rs + q) s" and "parts_at pl L s qs"
  shows "\<exists>ps L' s'. ptable_loop (ata_platform pl ih) rescan h b ofs bs is s = Inr s' \<and> recorded pl h L s qs rs ps L' s' \<and>
    working bt L' h f n q s' \<and> ptn_nr s' = nr'"
  using assms(2-6)
proof (induction "is" arbitrary: L s qs rs k)
  case Nil
  then have "recorded pl h L s qs [] [] L s" using recorded_calm [of s s L L pl qs h] by (simp add: calm_def low_kept_def same_rig_def)
  then show ?case using Nil by (fastforce simp: pages_def)
next
  case (Cons idx "is")
  have i: "idx < 4" "set is \<subseteq> {..<4}" using Cons.prems(1) by simp_all
  note e = table_entry [OF Cons.prems(2) i(1)]
  note w = Cons.prems(3) [unfolded walk.simps e prod.case]
  show ?case
  proof (cases "ptable_type bs idx s = 0")
    case True
    then show ?thesis using Cons.IH [OF i(2) Cons.prems(2) _ Cons.prems(4,5)] w by simp
  next
    case nz: False
    show ?thesis
    proof (cases "ptable_type bs idx s = 5")
      case True
      define st where "st = (if b = 0 then s\<lparr>ptn_nr := 5\<rparr> else s)"
      define x y where "x = (if b = 0 then ptable_start bs idx s else b)" and "y = (if b = 0 then 0 else ptable_start bs idx s)"
      obtain ps nr1 k1 qs' k2 where a: "sub x y (ptn_nr st) = Some (ps, nr1, k1)" "walk sub b ofs tb is nr1 = Some (qs', nr', k2)"
          "rs = ps @ qs'" "k = k1 + k2"
        using w True by (cases "b = 0") (auto simp: bind_eq_Some_conv st_def x_def y_def)
      have ws: "working bt L h f (k1 + (k2 + n)) (pages k1 ps + (pages k2 qs' + q)) st" "parts_at pl L st qs"
        using Cons.prems(4,5) unfolding a(3,4) pages_add by (simp_all add: st_def add.assoc)
      obtain ns L1 s1 where r: "rescan x y st = Inr s1" "recorded pl h L st qs ps ns L1 s1"
          "working bt L1 h f (k2 + n) (pages k2 qs' + q) s1" "ptn_nr s1 = nr1"
        by (rule scansD [OF sub a(1) ws])
      have r2: "recorded pl h L s qs ps ns L1 s1" using r(2) by (simp add: st_def split: if_splits)
      note D = recordedD [OF r2]
      obtain ns' L2 s2 where t: "ptable_loop (ata_platform pl ih) rescan h b ofs bs is s1 = Inr s2" "recorded pl h L1 s1 (qs @ ns) qs' ns' L2 s2"
          "working bt L2 h f n q s2" "ptn_nr s2 = nr'"
        using Cons.IH [OF i(2) table_kept [OF Cons.prems(2) D(6,5)] a(2) [folded r(4)] r(3) D(1)] by blast
      have "ptable_loop (ata_platform pl ih) rescan h b ofs bs (idx # is) s = Inr s2"
        using nz True r(1) t(1) by (cases "b = 0") (simp_all add: st_def x_def y_def)
      then show ?thesis using recorded_trans [OF r2 t(2)] t(3,4) a(3) by blast
    next
      case False
      let ?r = "(if b = 0 then of_nat (idx + 1) else ptn_nr s, b + ofs + ptable_start bs idx s, ptable_cnt bs idx s)"
      obtain qs' where a: "walk sub b ofs tb is (if b = 0 then ptn_nr s else ptn_nr s + 1) = Some (qs', nr', k)" "rs = ?r # qs'"
        using w nz False by (auto simp: bind_eq_Some_conv)
      have ws: "working bt L h f (k + n) (cost sizeof_ide_ptn + (pages k qs' + q)) s"
        using Cons.prems(4) unfolding a(2) pages_add by (simp add: add.assoc)
      obtain x L1 s1 where r: "record_ptn (ata_platform pl ih) h b ofs bs idx s = Inr s1" "recorded pl h L s qs [?r] [x] L1 s1"
          "working bt L1 h f (k + n) (pages k qs' + q) s1" "ptn_nr s1 = (if b = 0 then ptn_nr s else ptn_nr s + 1)"
        by (rule record_run [OF ws Cons.prems(5,2) i(1) refl])
      note D = recordedD [OF r(2)]
      obtain ns' L2 s2 where t: "ptable_loop (ata_platform pl ih) rescan h b ofs bs is s1 = Inr s2" "recorded pl h L1 s1 (qs @ [x]) qs' ns' L2 s2"
          "working bt L2 h f n q s2" "ptn_nr s2 = nr'"
        using Cons.IH [OF i(2) table_kept [OF Cons.prems(2) D(6,5)] a(1) [folded r(4)] r(3) D(1)] by blast
      have "ptable_loop (ata_platform pl ih) rescan h b ofs bs (idx # is) s = Inr s2" using nz False r(1) t(1) by simp
      then show ?thesis using recorded_trans [OF r(2) t(2)] t(3,4) a(2) by (intro exI [of _ "x # ns'"] exI [of _ L2] exI [of _ s2]) simp
    qed
  qed
qed


lemma recorded_free:
  assumes r: "recorded pl h L s qs rs ps L' s'" and rep: "heap_rep L' (heap s')" and new: "(bs, k) \<notin> L" "\<And>j. bs \<notin> set (qs @ ps)"
    and c: "calm s' t" and b: "bytes_in t = bytes_in s'"
  shows "recorded pl h L s qs rs ps (L' - {(bs, k)}) t"
proof -
  note R = recordedD [OF r]
  have t: "ptn_at t = ptn_at s'" "ptn_nodes t = ptn_nodes s'" "ide_state.more t = ide_state.more s'" "hd_of h' t = hd_of h' s'" for h'
    using c unfolding calm_def by blast+
  have "parts_at pl (L' - {(bs, k)}) t (qs @ ps)" using R(1) new(2) t(2) unfolding parts_at_def by fastforce
  moreover have "same_rig s t" using R(10) c same_rig_trans [of s s' t] by (simp add: calm_def)
  ultimately show ?thesis using R new(1) t b unfolding recorded_def kept_def low_kept_def by auto
qed

lemma scan_run: "scans bt pl h f (scan d f) (ide_get_partition d (ata_platform pl ih :: ata platform) h :: u32 \<Rightarrow> u32 \<Rightarrow> (ata, 'x) ide_state_scheme \<Rightarrow> _)"
proof (induction d)
  case 0
  then show ?case by (simp add: scans_def)
next
  case (Suc d)
  have "\<exists>ps L' s'. ide_get_partition (Suc d) (ata_platform pl ih) h b ofs s = Inr s' \<and> recorded pl h L s qs rs ps L' s' \<and>
      working bt L' h f n q s' \<and> ptn_nr s' = nr'"
    if a: "scan (Suc d) f b ofs (ptn_nr s) = Some (rs, nr', j)" "working bt L h f (j + n) (pages j rs + q) s" "parts_at pl L s qs"
    for b ofs rs nr' j L qs n q and s :: "(ata, 'x) ide_state_scheme"
  proof -
    let ?l = "unat (b + ofs)"
    obtain k where l: "?l < 2 ^ 28" and w: "walk (scan d f) b ofs (f ?l) [0..<4] (ptn_nr s) = Some (rs, nr', k)" and j: "j = Suc k"
      using a(1) by (auto simp: bind_eq_Some_conv split: if_splits)
    have md: "modest sizeof_boot_sector" by (simp add: modest_def sizeof_boot_sector_def)
    have ws: "working bt L h f (Suc k + n) (cost sizeof_boot_sector + (pages k rs + q)) s" using a(2) by (simp add: j pages_add add.assoc)
    obtain bs t m where m: "malloc_st sizeof_boot_sector s = Inr (bs, t)" "unat sizeof_boot_sector \<le> m" "(bs, m) \<notin> L"
        "working bt (insert (bs, m) L) h f (Suc k + n) (pages k rs + q) t" "kept L s t" "low_kept s t" "same_files s t"
        "mem_bytes (bytes_in t) bs m = replicate m 0"
      by (rule working_malloc [OF ws md])
    let ?L = "insert (bs, m) L"
    note sh = malloc_shape [OF m(1)]
    have m5: "512 * 1 \<le> m" using m(2) by (simp add: sizeof_boot_sector_def)
    have wt: "working bt ?L h f (1 + (k + n)) (pages k rs + q) t" using m(4) by simp
    have one: "unat (1 :: u32) = 1" "1 \<le> (256 :: nat)" by simp_all
    obtain s1 where r: "ide_read (ata_platform pl ih) h (b + ofs) bs 1 t = Inr s1" "working bt ?L h f (k + n) (pages k rs + q) s1"
        "kept (?L - {(bs, m)}) t s1" "low_kept t s1" "same_files t s1" "mem_bytes (bytes_in s1) bs (512 * 1) = concat (map f [?l..<?l + 1])"
      by (rule working_read [OF wt insertI1 m5 one refl l disjI1 [OF order_refl]])
    have dr: "disk_ready bt (1 + (k + n)) h f t" and rep: "heap_rep ?L (heap t)" using wt by (simp_all add: working_def)
    have "calm s t" using sh calm_heap [of s "heap t"] by metis
    then have c1: "calm s s1" using calm_trans read_calm [OF dr _ l r(1)] by simp
    have "?L - {(bs, m)} = L" using m(3) by auto
    then have k1: "kept L s s1" "low_kept s s1" using kept_trans [OF m(5), of L s1] r(3,4) m(6) by (simp_all add: low_kept_def)
    have at: "parts_at pl ?L s1 qs" "recorded pl h L s qs [] [] ?L s1"
      using recorded_calm [OF c1 k1 subset_insertI a(3)] by (simp_all add: recorded_def)
    have tb: "table_at ?L s1 bs (f ?l)" using r(6) m5 heap.sizes [OF rep insertI1] by (auto simp: table_at_def)
    have nr: "ptn_nr s1 = ptn_nr s" using c1 by (simp add: calm_def)
    obtain ps L2 s2 where t: "ptable_loop (ata_platform pl ih) (ide_get_partition d (ata_platform pl ih) h) h b ofs bs [0..<4] s1 = Inr s2"
        "recorded pl h ?L s1 qs rs ps L2 s2" "working bt L2 h f n q s2" "ptn_nr s2 = nr'"
      using walk_run [OF Suc _ tb w [folded nr] r(2) at(1), where ih = ih] by (auto simp: atLeast0LessThan)
    have bL: "(bs, m) \<in> L2" using recordedD(5) [OF t(2)] by blast
    obtain s3 where fr: "free_st bs s2 = Inr s3" "working bt (L2 - {(bs, m)}) h f n q s3" "bytes_in s3 = bytes_in s2" "same_files s2 s3"
      by (rule working_free [OF t(3) bL])
    have c3: "calm s2 s3" using free_shape [OF fr(1)] calm_heap [of s2 "heap s3"] by metis
    have "bs \<notin> set qs"
    proof
      assume "bs \<in> set qs"
      then obtain m' where m': "(bs, m') \<in> L" using a(3) by (auto simp: parts_at_def)
      then show False using heap.start_unique [OF rep, of bs m m'] m(3) by auto
    qed
    moreover have "bs \<notin> set ps" using recordedD(4) [OF t(2), of bs m] by blast
    ultimately have nb: "bs \<notin> set (qs @ ps)" by simp
    have r2: "recorded pl h L s qs rs ps L2 s2" using recorded_trans [OF at(2), of rs ps L2 s2] t(2) by simp
    have rep2: "heap_rep L2 (heap s2)" using t(3) by (simp add: working_def)
    have "recorded pl h L s qs rs ps (L2 - {(bs, m)}) s3" by (rule recorded_free [OF r2 rep2 m(3) nb c3 fr(3)])
    moreover have "ptn_nr s3 = nr'" using c3 t(4) by (simp add: calm_def)
    moreover have "ide_get_partition (Suc d) (ata_platform pl ih) h b ofs s = Inr s3"
      using sh r(1) t(1) free_shape [OF fr(1)] by (simp add: upt_rec)
    ultimately show ?thesis using fr(2) by blast
  qed
  then show ?case unfolding scans_def by blast
qed


section \<open>Tables that lead back\<close>

text \<open>The first entry that is not empty; where it leads when it is an extended one.\<close>

fun first_entry :: "u8 list \<Rightarrow> nat list \<Rightarrow> (u8 \<times> u32 \<times> u32) option" where
  "first_entry tb [] = None"
| "first_entry tb (idx # is) = (if fst (entry tb idx) = 0 then first_entry tb is else Some (entry tb idx))"

definition next_table :: "(nat \<Rightarrow> u8 list) \<Rightarrow> u32 \<times> u32 \<Rightarrow> (u32 \<times> u32) option" where
  "next_table f = (\<lambda>(b, ofs). case first_entry (f (unat (b + ofs))) [0..<4] of
     Some (type, start, cnt) \<Rightarrow> if type = 5 then Some (if b = 0 then (start, 0) else (b, start)) else None
   | None \<Rightarrow> None)"

lemma loop_follows:
  assumes "first_entry tb is = Some (5, st, ct)" and "set is \<subseteq> {..<4}" and "mem_bytes (bytes_in s) bs 512 = tb"
    and "\<And>t. t = s \<or> t = s\<lparr>ptn_nr := 5\<rparr> \<Longrightarrow> \<exists>e. (if b = 0 then rescan st 0 t else rescan b st t) = Inl e \<and> P e"
  shows "\<exists>e. ptable_loop p rescan h b ofs bs is s = Inl e \<and> P e"
  using assms(1,2)
proof (induction "is")
  case (Cons idx "is")
  have i: "idx = 0 \<or> idx = 1 \<or> idx = 2 \<or> idx = 3" "set is \<subseteq> {..<4}" using Cons.prems(2) by auto
  have e: "entry tb idx = (ptable_type bs idx s, ptable_start bs idx s, ptable_cnt bs idx s)"
    using i(1) unfolding entry_def assms(3) [symmetric] ptable_type_def ptable_start_def ptable_cnt_def ptable_at_def Let_def
    by (auto simp: sector_byte sector_load add.assoc)
  show ?case
  proof (cases "ptable_type bs idx s = 0")
    case True
    then show ?thesis using Cons.IH [OF _ i(2)] Cons.prems(1) e by simp
  next
    case False
    then have f: "ptable_type bs idx s = 5" "ptable_start bs idx s = st" using Cons.prems(1) e by simp_all
    show ?thesis
    proof (cases "b = 0")
      case True
      then obtain e where "rescan st 0 (s\<lparr>ptn_nr := 5\<rparr>) = Inl e" "P e" using assms(4) [of "s\<lparr>ptn_nr := 5\<rparr>"] by auto
      then show ?thesis using False f True by simp
    next
      case nb: False
      then obtain e where "rescan b st s = Inl e" "P e" using assms(4) [of s] by auto
      then show ?thesis using False f nb by simp
    qed
  qed
qed simp

lemma first_read:
  assumes "heap_rep L (heap s)" and "in_budget (cost sizeof_boot_sector + q) (heap s)" and "disk_ready 1 (Suc n) h f s"
    and "sys_malloc sizeof_boot_sector (heap s) = Inr (bs, hp)"
    and "unat lba < 2 ^ 28" and "ide_read (ata_platform pl ih) h lba bs 1 (s\<lparr>heap := hp\<rparr>) = Inr s1"
  shows "\<exists>L'. heap_rep L' (heap s1) \<and> in_budget q (heap s1)"
proof -
  have md: "modest sizeof_boot_sector" by (simp add: modest_def sizeof_boot_sector_def)
  obtain bs' hp' m where m: "malloc_st sizeof_boot_sector s = Inr (bs', s\<lparr>heap := hp'\<rparr>)"
      "heap_rep (insert (bs', m) L) hp'" "in_budget q hp'" "disk_ready 1 (Suc n) h f (s\<lparr>heap := hp'\<rparr>)"
    by (rule malloc_step [OF assms(1,2) md assms(3)])
  have t: "bs' = bs" "hp' = hp" using m(1) assms(4) by (auto simp: malloc_st_def dest: arg_cong [where f = heap])
  have d: "disk_ready 1 (1 + n) h f (s\<lparr>heap := hp\<rparr>)" using m(4) t by simp
  have one: "unat (1 :: u32) = 1" "1 \<le> (256 :: nat)" by simp_all
  obtain s' where "ide_read (ata_platform pl ih) h lba bs 1 (s\<lparr>heap := hp\<rparr>) = Inr s'"
      "heap s' = (heap (s\<lparr>heap := hp\<rparr>))\<lparr>hbytes := store_bytes (bytes_in (s\<lparr>heap := hp\<rparr>)) bs (concat (map f [unat lba..<unat lba + 1]))\<rparr>"
    by (rule read_step [OF d one refl assms(5) order_refl])
  then show ?thesis using assms(6) m(2,3) t heap_rep_bytes by (intro exI [of _ "insert (bs, m) L"]) simp
qed

lemma scan_loops:
  assumes C: "\<forall>(b, ofs) \<in> C. unat (b + ofs) < 2 ^ 28 \<and> (\<exists>c \<in> C. next_table f (b, ofs) = Some c)"
  shows "(b, ofs) \<in> C \<Longrightarrow> disk_ready 1 fuel h f s \<Longrightarrow>
    \<exists>e. ide_get_partition fuel (ata_platform pl ih) h b ofs s = Inl e \<and>
      (\<forall>L. heap_rep L (heap s) \<longrightarrow> in_budget (fuel * cost sizeof_boot_sector) (heap s) \<longrightarrow> e = Hang)"
proof (induction fuel arbitrary: b ofs s)
  case (Suc n)
  let ?l = "unat (b + ofs)" and ?P = "\<lambda>e. \<forall>L. heap_rep L (heap s) \<longrightarrow> in_budget (Suc n * cost sizeof_boot_sector) (heap s) \<longrightarrow> e = Hang"
  obtain c where l: "?l < 2 ^ 28" and c: "c \<in> C" "next_table f (b, ofs) = Some c" using C Suc.prems(1) by blast
  then obtain st ct where fe: "first_entry (f ?l) [0..<4] = Some (5, st, ct)" and cv: "c = (if b = 0 then (st, 0) else (b, st))"
    by (auto simp: next_table_def split: option.splits if_splits)
  show ?case
  proof (cases "sys_malloc sizeof_boot_sector (heap s)")
    case (Inl e)
    have "\<not> in_budget (Suc n * cost sizeof_boot_sector) (heap s)" if "heap_rep L (heap s)" for L
    proof
      assume "in_budget (Suc n * cost sizeof_boot_sector) (heap s)"
      then have q: "in_budget (cost sizeof_boot_sector + n * cost sizeof_boot_sector) (heap s)" by simp
      have md: "modest sizeof_boot_sector" by (simp add: modest_def sizeof_boot_sector_def)
      show False by (rule malloc_step [OF that q md Suc.prems(2)]) (use Inl in \<open>simp add: malloc_st_def\<close>)
    qed
    then show ?thesis using Inl by auto
  next
    case (Inr r)
    obtain bs hp where r: "r = (bs, hp)" by (cases r)
    note m = Inr [unfolded r]
    have d: "disk_ready 1 (1 + n) h f (s\<lparr>heap := hp\<rparr>)" using Suc.prems(2) disk_ready_cong [of "s\<lparr>heap := hp\<rparr>" s] by simp
    have one: "unat (1 :: u32) = 1" "1 \<le> (256 :: nat)" by simp_all
    obtain s1 where s1: "ide_read (ata_platform pl ih) h (b + ofs) bs 1 (s\<lparr>heap := hp\<rparr>) = Inr s1" "disk_ready 1 n h f s1"
        "heap s1 = (heap (s\<lparr>heap := hp\<rparr>))\<lparr>hbytes := store_bytes (bytes_in (s\<lparr>heap := hp\<rparr>)) bs (concat (map f [?l..<?l + 1]))\<rparr>"
      by (rule read_step [OF d one refl l order_refl])
    have len: "length (f ?l) = 512" using d by (simp add: disk_ready_def)
    have tb: "mem_bytes (bytes_in s1) bs 512 = f ?l" using mem_bytes_store [of "f ?l" _ bs] len s1(3) by simp
    have "\<exists>e. (if b = 0 then ide_get_partition n (ata_platform pl ih) h st 0 t else ide_get_partition n (ata_platform pl ih) h b st t) = Inl e \<and> ?P e"
      if t: "t = s1 \<or> t = s1\<lparr>ptn_nr := 5\<rparr>" for t
    proof -
      have "disk_ready 1 n h f t" using t s1(2) disk_ready_cong [of t s1 1 n h f] by auto
      from Suc.IH [OF _ this, of "fst c" "snd c"] c(1)
      obtain e where e: "ide_get_partition n (ata_platform pl ih) h (fst c) (snd c) t = Inl e"
          "\<forall>L. heap_rep L (heap t) \<longrightarrow> in_budget (n * cost sizeof_boot_sector) (heap t) \<longrightarrow> e = Hang" by auto
      have "?P e"
      proof (intro allI impI)
        fix L assume "heap_rep L (heap s)" "in_budget (Suc n * cost sizeof_boot_sector) (heap s)"
        then have "heap_rep L (heap s)" "in_budget (cost sizeof_boot_sector + n * cost sizeof_boot_sector) (heap s)" by simp_all
        from first_read [OF this Suc.prems(2) m l s1(1)]
        obtain L' where "heap_rep L' (heap s1)" "in_budget (n * cost sizeof_boot_sector) (heap s1)" by blast
        then show "e = Hang" using e(2) t by auto
      qed
      then show ?thesis using e(1) cv by (cases "b = 0") auto
    qed
    note follow = this
    have four: "set [0..<4] \<subseteq> {..<4 :: nat}" by auto
    from loop_follows [where P = ?P and rescan = "ide_get_partition n (ata_platform pl ih) h" and s = s1 and h = h and p = "ata_platform pl ih"
      and ofs = ofs, OF fe four tb follow]
    obtain e where "ptable_loop (ata_platform pl ih) (ide_get_partition n (ata_platform pl ih) h) h b ofs bs [0..<4] s1 = Inl e" "?P e"
      by blast
    then show ?thesis using m s1(1) by (auto simp: upt_rec)
  qed
qed simp


section \<open>A chain of extended tables\<close>

text \<open>The usual form of an extended partition at \<open>ext\<close>: each table has one data partition and, but for the last one, a
  link to the next; \<open>ls\<close> gives the place of each table relative to \<open>ext\<close>, and the entry of its partition.\<close>

fun ebrs :: "(nat \<Rightarrow> u8 list) \<Rightarrow> u32 \<Rightarrow> (u32 \<times> u32 \<times> u32) list \<Rightarrow> bool" where
  "ebrs f ext [] \<longleftrightarrow> True"
| "ebrs f ext ((ofs, start, cnt) # ls) \<longleftrightarrow>
     (let e = entry (f (unat (ext + ofs)))
      in fst (e 0) \<notin> {0, 5} \<and> snd (e 0) = (start, cnt) \<and>
         (case ls of [] \<Rightarrow> fst (e 1) = 0 | l # _ \<Rightarrow> fst (e 1) = 5 \<and> fst (snd (e 1)) = fst l) \<and> fst (e 2) = 0 \<and> fst (e 3) = 0 \<and>
         unat (ext + ofs) < 2 ^ 28) \<and> ebrs f ext ls"

fun logical :: "u32 \<Rightarrow> u32 \<Rightarrow> (u32 \<times> u32 \<times> u32) list \<Rightarrow> part list" where
  "logical ext nr [] = []"
| "logical ext nr ((ofs, start, cnt) # ls) = (nr, ext + ofs + start, cnt) # logical ext (nr + 1) ls"

text \<open>The partitions of the chain are numbered in its order.\<close>

lemma scan_chain:
  assumes "ebrs f ext ls" and "ls \<noteq> []" and "ext \<noteq> 0"
  shows "scan (length ls) f ext (fst (hd ls)) nr = Some (logical ext nr ls, nr + of_nat (length ls), length ls)"
  using assms(1,2)
proof (induction ls arbitrary: nr)
  case (Cons l ls)
  obtain ofs start cnt where l: "l = (ofs, start, cnt)" by (cases l)
  let ?e = "entry (f (unat (ext + ofs)))"
  obtain t0 t1 s1 c1 where e: "?e 0 = (t0, start, cnt)" "t0 \<noteq> 0" "t0 \<noteq> 5" "?e 1 = (t1, s1, c1)" "fst (?e 2) = 0" "fst (?e 3) = 0" "unat (ext + ofs) < 2 ^ 28"
    using Cons.prems(1) unfolding l by (cases "?e 0"; cases "?e 1") (simp add: Let_def)
  obtain s2 c2 s3 c3 where e23: "?e 2 = (0, s2, c2)" "?e 3 = (0, s3, c3)" using e(5,6) by (metis prod.collapse)
  have four: "[0..<4] = [0, 1, 2, 3 :: nat]" by (simp add: upt_rec)
  show ?case
  proof (cases ls)
    case Nil
    then have "t1 = 0" using Cons.prems(1) e(4) unfolding l by (simp add: Let_def)
    then show ?thesis using e e23 assms(3) Nil by (simp add: l four)
  next
    case (Cons l' ls')
    then have t: "t1 = 5" "s1 = fst (hd ls)" using Cons.prems(1) e(4) unfolding l by (simp_all add: Let_def)
    have "scan (length ls) f ext (fst (hd ls)) (nr + 1) = Some (logical ext (nr + 1) ls, nr + 1 + of_nat (length ls), length ls)"
      using Cons.IH Cons.prems(1) Cons unfolding l by simp
    then show ?thesis using e e23 t assms(3) by (simp add: l four add.assoc)
  qed
qed simp

section \<open>Properties\<close>

text \<open>C26: the scan of a disk. When the tables on the disk nest to a finite depth, \<open>ide_get_partition\<close> returns; the
  partitions the tables describe, and no others, are appended to the list in order, each with its number in the name,
  first sector, size and disk; the disk, the live memory and the other partitions are as before.\<close>

theorem ide_get_partition_records:
  fixes s :: "(ata, 'x) ide_state_scheme"
  assumes "scan depth f b ofs (ptn_nr s) = Some (rs, nr', k)" and "depth \<le> fuel" and "working bt L h f (k + n) (pages k rs + q) s"
    and "parts_at pl L s qs"
  shows "\<exists>ps L' s'. ide_get_partition fuel (ata_platform pl ih) h b ofs s = Inr s' \<and> parts_at pl L' s' (qs @ ps) \<and>
    map (ptn_at s') ps = map (part_of h s) rs \<and> (\<forall>x. x \<notin> set ps \<longrightarrow> ptn_at s' x = ptn_at s x) \<and> L \<subseteq> L' \<and> kept L s s' \<and>
    working bt L' h f n q s' \<and> ptn_nr s' = nr'"
  using scansD [OF scan_run scan_deeper [OF assms(1,2)] assms(3,4)] unfolding recorded_def by metis

text \<open>C28: tables that lead in a circle. When from each of a set of tables the first used entry leads to one of the
  set, \<open>ide_get_partition\<close> does not return for any bound on the recursion: it exhausts it, as long as the heap has a
  page for each call.\<close>

theorem ide_get_partition_loops:
  assumes "\<forall>(b, ofs) \<in> C. unat (b + ofs) < 2 ^ 28 \<and> (\<exists>c \<in> C. next_table f (b, ofs) = Some c)" and "(b, ofs) \<in> C"
    and "disk_ready 1 fuel h f s"
  shows "(\<forall>s'. ide_get_partition fuel (ata_platform pl ih) h b ofs s \<noteq> Inr s') \<and>
    (\<forall>L. heap_rep L (heap s) \<longrightarrow> in_budget (fuel * cost sizeof_boot_sector) (heap s) \<longrightarrow>
       ide_get_partition fuel (ata_platform pl ih) h b ofs s = Inl Hang)"
  using scan_loops [OF assms, of pl ih] by auto


text \<open>A disk with a primary partition and two logical ones in a chain at sector 2000.\<close>

definition entry_bytes :: "u8 \<Rightarrow> u32 \<Rightarrow> u32 \<Rightarrow> u8 list" where
  "entry_bytes type start cnt = [0, 0, 0, 0, type, 0, 0, 0] @ map (\<lambda>i. ucast (drop_bit (8 * i) start)) [0..<4] @ map (\<lambda>i. ucast (drop_bit (8 * i) cnt)) [0..<4]"

definition table_of :: "u8 list \<Rightarrow> u8 list \<Rightarrow> u8 list" where
  "table_of e0 e1 = replicate 446 0 @ e0 @ e1 @ replicate 32 0 @ [0x55, 0xAA]"

definition parted :: "nat \<Rightarrow> u8 list" where
  "parted l = (if l = 0 then table_of (entry_bytes 0x83 100 1000) (entry_bytes 5 2000 5000)
     else if l = 2000 then table_of (entry_bytes 0x83 63 1000) (entry_bytes 5 2000 1100)
     else if l = 4000 then table_of (entry_bytes 0x83 63 1000) (entry_bytes 0 0 0) else replicate 512 0)"

lemma entry_bytes_list:
  "entry_bytes type start cnt = [0, 0, 0, 0, type, 0, 0, 0, ucast start, ucast (drop_bit 8 start), ucast (drop_bit 16 start), ucast (drop_bit 24 start),
     ucast cnt, ucast (drop_bit 8 cnt), ucast (drop_bit 16 cnt), ucast (drop_bit 24 cnt)]"
  by (simp add: entry_bytes_def upt_rec)

lemma load32_split: "m p = ucast v \<Longrightarrow> m (p + 1) = ucast (drop_bit 8 v) \<Longrightarrow> m (p + 2) = ucast (drop_bit 16 v) \<Longrightarrow> m (p + 3) = ucast (drop_bit 24 v) \<Longrightarrow>
    load32 m p = v"
  using load32_store32 [of m p v] by (simp add: load32_def store32_def)

lemma table_entries:
  "entry (table_of (entry_bytes t0 s0 c0) (entry_bytes t1 s1 c1)) 0 = (t0, s0, c0)"
  "entry (table_of (entry_bytes t0 s0 c0) (entry_bytes t1 s1 c1)) 1 = (t1, s1, c1)"
  "fst (entry (table_of (entry_bytes t0 s0 c0) (entry_bytes t1 s1 c1)) 2) = 0"
  "fst (entry (table_of (entry_bytes t0 s0 c0) (entry_bytes t1 s1 c1)) 3) = 0"
proof -
  let ?t = "table_of (entry_bytes t0 s0 c0) (entry_bytes t1 s1 c1)"
  have n: "?t ! 450 = t0" "?t ! 466 = t1" "?t ! 482 = 0" "?t ! 498 = 0"
    by (simp_all add: table_of_def entry_bytes_list nth_append)
  have w: "?t ! 454 = ucast s0" "?t ! 455 = ucast (drop_bit 8 s0)" "?t ! 456 = ucast (drop_bit 16 s0)" "?t ! 457 = ucast (drop_bit 24 s0)"
    "?t ! 458 = ucast c0" "?t ! 459 = ucast (drop_bit 8 c0)" "?t ! 460 = ucast (drop_bit 16 c0)" "?t ! 461 = ucast (drop_bit 24 c0)"
    "?t ! 470 = ucast s1" "?t ! 471 = ucast (drop_bit 8 s1)" "?t ! 472 = ucast (drop_bit 16 s1)" "?t ! 473 = ucast (drop_bit 24 s1)"
    "?t ! 474 = ucast c1" "?t ! 475 = ucast (drop_bit 8 c1)" "?t ! 476 = ucast (drop_bit 16 c1)" "?t ! 477 = ucast (drop_bit 24 c1)"
    by (simp_all add: table_of_def entry_bytes_list nth_append)
  have s: "load32 (sector_mem ?t) 454 = s0" "load32 (sector_mem ?t) 458 = c0" "load32 (sector_mem ?t) 470 = s1" "load32 (sector_mem ?t) 474 = c1"
    by (rule load32_split; simp add: sector_mem_def w)+
  show "entry ?t 0 = (t0, s0, c0)" "entry ?t 1 = (t1, s1, c1)" "fst (entry ?t 2) = 0" "fst (entry ?t 3) = 0"
    using n s by (simp_all add: entry_def ptable_at_def sector_mem_def)
qed


lemma parted_length: "length (parted l) = 512"
  by (simp add: parted_def table_of_def entry_bytes_list)

lemma parted_scan: "scan 3 parted 0 0 0 = Some ([(1, 100, 1000), (5, 2063, 1000), (6, 4063, 1000)], 7, 3)"
proof -
  have "ebrs parted 2000 [(0, 63, 1000), (2000, 63, 1000)]"
    by (simp add: parted_def table_entries table_entries(2) [unfolded One_nat_def] Let_def)
  from scan_chain [OF this, of 5]
  have c: "scan (Suc (Suc 0)) parted 2000 0 5 = Some ([(5, 2063, 1000), (6, 4063, 1000)], 7, Suc (Suc 0))" by (simp del: scan.simps)
  have e: "entry (parted 0) 0 = (0x83, 100, 1000)" "entry (parted 0) 1 = (5, 2000, 5000)" "fst (entry (parted 0) 2) = 0" "fst (entry (parted 0) 3) = 0"
    by (simp_all add: parted_def table_entries table_entries(2) [unfolded One_nat_def])
  obtain s2 c2 s3 c3 where e23: "entry (parted 0) 2 = (0, s2, c2)" "entry (parted 0) 3 = (0, s3, c3)" using e(3,4) by (metis prod.collapse)
  have four: "[0..<4] = [0, 1, 2, 3 :: nat]" by (simp add: upt_rec)
  have "scan (Suc (Suc (Suc 0))) parted 0 0 0 = Some ([(1, 100, 1000), (5, 2063, 1000), (6, 4063, 1000)], 7, 3)"
    unfolding scan.simps(2) [of "Suc (Suc 0)"] four by (simp add: e e(2) [unfolded One_nat_def] e23 c del: scan.simps)
  then show ?thesis by (simp add: numeral_3_eq_3 del: scan.simps)
qed

definition demo_scan :: "(nat \<Rightarrow> u8 list) \<Rightarrow> ata fs_state" where
  "demo_scan f = (demo_fs f)\<lparr>ptn_nodes := list_init (\<lambda>_. \<lparr>prev = NULL, nxt = NULL\<rparr>) 0x2000\<rparr>"

lemma demo_scan_working: "n < 2 ^ 32 \<Longrightarrow> q \<le> 3840 \<Longrightarrow> (\<And>l. length (f l) = 512) \<Longrightarrow> 0 < bt \<Longrightarrow> working bt {} (0, 0) f n q (demo_scan f)"
  using demo_heap_lingers demo_heap_rep demo_budget [of q] demo_fs_ready [of n f bt] disk_ready_cong [of "demo_scan f" "demo_fs f" bt n "(0, 0)" f]
  by (simp add: working_def demo_scan_def)

lemma demo_scan_parts: "parts_at 0x2000 {} (demo_scan f) []"
  using list_init_dlist by (simp add: parts_at_def demo_scan_def)

theorem ide_get_partition_records_witness:
  "\<exists>ps s. ide_get_partition 3 (ata_platform 0x2000 0) (0, 0) 0 0 (demo_scan parted) = Inr s \<and>
     map start_lba (map (ptn_at s) ps) = [100, 2063, 4063]"
proof -
  have "ptn_nr (demo_scan parted) = 0" by (simp add: demo_scan_def demo_fs_def)
  then have sc: "scan 3 parted 0 0 (ptn_nr (demo_scan parted)) = Some ([(1, 100, 1000), (5, 2063, 1000), (6, 4063, 1000)], 7, 3)"
    using parted_scan by simp
  have pg: "pages 3 [(1, 100, 1000), (5, 2063, 1000), (6, 4063, 1000 :: u32)] = 6"
    by (simp add: pages_def cost_def sizeof_boot_sector_def sizeof_ide_ptn_def)
  have w: "working 256 {} (0, 0) parted (3 + 0) (pages 3 [(1, 100, 1000), (5, 2063, 1000), (6, 4063, 1000)] + 0) (demo_scan parted)"
    by (rule demo_scan_working) (simp_all add: pg parted_length)
  from ide_get_partition_records [OF sc order_refl w demo_scan_parts, of 0]
  obtain ps s where "ide_get_partition 3 (ata_platform 0x2000 0) (0, 0) 0 0 (demo_scan parted) = Inr s"
      "map (ptn_at s) ps = map (part_of (0, 0) (demo_scan parted)) [(1, 100, 1000), (5, 2063, 1000), (6, 4063, 1000)]" by blast
  then show ?thesis by (intro exI [of _ ps] exI [of _ s]) (simp add: part_of_def)
qed

text \<open>A boot sector whose extended partition starts at sector 0: itself.\<close>

theorem ide_get_partition_loops_witness:
  "ide_get_partition 100 (ata_platform 0x2000 0) (0, 0) 0 0
     (demo_scan (\<lambda>l. table_of (entry_bytes 5 0 0) (entry_bytes 0 0 0))) = Inl Hang"
proof -
  let ?f = "\<lambda>l :: nat. table_of (entry_bytes 5 0 0) (entry_bytes 0 0 0)"
  have len: "length (?f l) = 512" for l by (simp add: table_of_def entry_bytes_list)
  have w: "working 256 {} (0, 0) ?f 100 (100 * cost sizeof_boot_sector) (demo_scan ?f)"
    by (rule demo_scan_working) (simp_all add: len cost_def sizeof_boot_sector_def)
  then have d: "disk_ready 1 100 (0, 0) ?f (demo_scan ?f)" "heap_rep {} (heap (demo_scan ?f))"
      "in_budget (100 * cost sizeof_boot_sector) (heap (demo_scan ?f))"
    by (auto simp: working_def dest: disk_ready_one)
  have "next_table ?f (0, 0) = Some (0, 0)" by (simp add: next_table_def upt_rec table_entries)
  then have "\<forall>(b, ofs) \<in> {(0, 0 :: u32)}. unat (b + ofs) < 2 ^ 28 \<and> (\<exists>c \<in> {(0, 0)}. next_table ?f (b, ofs) = Some c)" by simp
  from ide_get_partition_loops [OF this _ d(1), of 0 0 "0x2000" 0] d(2,3) show ?thesis by simp blast
qed

end
