(* ===== verification/KProbe.thy ===== *)
theory KProbe
  imports KScan
begin

text \<open>
  Start-up of the disk driver, \<open>ide_init\<close> of \<open>code/kernel/src/ide.c\<close>, on a machine with one drive, the master of the
  first channel: the probe of the eight places a drive can have, and what it leaves in channels, disks and list.
\<close>

section \<open>Identification\<close>

abbreviation waits :: "u8 \<Rightarrow> bool" where
  "waits stat \<equiv> stat AND STAT_BSY \<noteq> 0"

lemma waits_values: "\<not> waits 0x48" "waits 0x80" "\<not> waits 0"
  by (simp_all add: STAT_BSY_def)

lemma drive_selects: "bit (drive_byte h s) 4 \<longleftrightarrow> is_slave h s"
  by (simp add: drive_byte_def is_slave_def drive_bits)

lemma memset_drv: "(drv c a v m s)\<lparr>heap := (heap (drv c a v m s))\<lparr>hbytes := m'\<rparr>\<rparr> = drv c a v m' s"
  by (simp add: drv_def)

lemma identify_present:
  assumes w: "wired c h a s" and rest: "resting a" and f: "platters a (is_slave h s) = Some f" and len: "length (ident a) = 256"
    and cr: "credits a v + 1 < 2 ^ 32"
  obtains a' v' where "ide_get_identify (ata_platform pl ih) id_info h (drv c a v m s) =
      Some (True, drv c a' v' (store_bytes (memset m id_info 0 512) id_info (bytes_of (ident a))) s)"
    and "same_drive a a'" and "platters a' = platters a" and "resting a'" and "credits a' v' = credits a v"
proof -
  let ?P = "ata_platform pl ih" and ?m = "memset m id_info 0 512"
  let ?b = "a\<lparr>drv_sel := drive_byte h s\<rparr>"
  let ?a1 = "start_in (ident a) ?b"
  have sl: "slave ?b = is_slave h s" by (simp add: slave_def drive_selects)
  have lag: "lag a = 0" using rest by (simp add: resting_def)
  have cmd: "ata_command CMD_IDENTIFY ?b = ?a1" using f by (simp add: ata_command_def CMD_IDENTIFY_def sl lag)
  have wb: "wired c h ?b s" and w1: "wired c h ?a1 s" using w by (simp_all add: wired_def)
  have cr1: "credits ?a1 v = credits a v + 1" using lag by (simp add: credits_def [of a])
  have x1: "xfer ?a1 \<noteq> Idle" "platters ?a1 (slave ?a1) \<noteq> None" "credits ?a1 v < 2 ^ 32"
    using cr1 cr f sl by (simp_all add: slave_def)
  let ?a2 = "?a1\<lparr>lag := 0, pend := 0\<rparr>"
  obtain v1 where q: "poll ?P h waits (drv c ?a1 v ?m s) = Some (0x48, drv c ?a2 v1 ?m s)" and q2: "credits ?a2 v1 = credits ?a1 v"
    by (rule poll_any [OF waits_values(1,2) w1 x1])
  have w2: "wired c h ?a2 s" using w by (simp add: wired_def)
  have pos: "0 < credits ?a2 v1" "credits ?a2 v1 < 2 ^ 32" using q2 cr1 cr by simp_all
  obtain l p v2 where d: "ch_sema_down ?P c (drv c ?a2 v1 ?m s) = Some (drv c (?a2\<lparr>lag := l, pend := p\<rparr>) v2 ?m s)"
    and d2: "credits (?a2\<lparr>lag := l, pend := p\<rparr>) v2 = credits ?a2 v1 - 1" and l: "l \<le> lag ?a2"
    by (rule sema_down_drv [OF w2 pos])
  let ?a3 = "?a2\<lparr>lag := l, pend := p\<rparr>"
  have base: "base ?a3 = base a" by simp
  have ne: "ident a \<noteq> []" using len by auto
  have "insw_loop ata_dev (base ?a3) (length (ident a)) id_info (?m, ?a3) =
      (store_bytes ?m id_info (bytes_of (ident a)), ?a3\<lparr>xfer := Idle, pend := pend ?a3 + (length (ident a) - 1) div 256\<rparr>)"
    using l len ne by (intro insw_ata) simp_all
  moreover have "unat (1 * SECTOR_SIZE div 2) = 256" using chunk_words [of 1] by simp
  ultimately have g: "ide_get_data ?P h id_info 1 (drv c ?a3 v2 ?m s) =
      drv c (?a3\<lparr>xfer := Idle, pend := p\<rparr>) v2 (store_bytes ?m id_info (bytes_of (ident a))) s"
    using len base by (simp add: ide_get_data_def port_of [OF w] IDE_DATA_REG_def insw_def)
  have hd: "hd_ch (hd_of h s) = c" using w by (simp add: wired_def)
  show thesis
  proof (rule that)
    show "ide_get_identify ?P id_info h (drv c a v m s) = Some (True, drv c (?a3\<lparr>xfer := Idle, pend := p\<rparr>) v2 (store_bytes ?m id_info (bytes_of (ident a))) s)"
      using g by (simp only: ide_get_identify_def Let_def memset_drv drv_fields(2) set_drive_drv [OF w] set_cmd_drv [OF wb] cmd q bind_simps) (simp add: hd d)
    show "same_drive a (?a3\<lparr>xfer := Idle, pend := p\<rparr>)" "platters (?a3\<lparr>xfer := Idle, pend := p\<rparr>) = platters a" "resting (?a3\<lparr>xfer := Idle, pend := p\<rparr>)"
      using l by (simp_all add: same_drive_def resting_def)
    show "credits (?a3\<lparr>xfer := Idle, pend := p\<rparr>) v2 = credits a v"
      using q2 d2 cr1 l by (simp add: credits_def)
  qed
qed


text \<open>No drive: the status register reads 0. Either the channel has no such drive, or no channel is at these ports.\<close>

lemma port_base_drv [simp]: "port_base (chan_of h (drv c a v m s)) = port_base (chan_of h s)"
  by (simp add: chan_of_def)

lemma identify_absent:
  assumes w: "wired c h0 a s" and b: "base a = 0x1F0" and rest: "resting a" and cr: "credits a v < 2 ^ 32"
    and none: "port_base (chan_of h s) = 0x1F0 \<and> platters a (is_slave h s) = None \<or> port_base (chan_of h s) \<in> {0x170, 0x1E8, 0x168}"
  obtains a' v' where "ide_get_identify (ata_platform pl ih) id_info h (drv c a v m s) = Some (False, drv c a' v' (memset m id_info 0 512) s)"
    and "same_drive a a'" and "platters a' = platters a" and "resting a'" and "credits a' v' = credits a v"
proof -
  let ?P = "ata_platform pl ih" and ?m = "memset m id_info 0 512"
  define a1 where "a1 = (if port_base (chan_of h s) = 0x1F0 then a\<lparr>drv_sel := drive_byte h s\<rparr> else a)"
  have a1: "same_drive a a1" "platters a1 = platters a" "resting a1" "pend a1 = pend a" "lag a1 = lag a" "xfer a1 = xfer a" "base a1 = base a" "vec a1 = vec a" "due a1 = due a"
    using rest by (simp_all add: a1_def same_drive_def resting_def)
  have sel: "ide_set_drive ?P h (drv c a v ?m s) = drv c a1 v ?m s"
    using none b by (auto simp: ide_set_drive_def a1_def outb_def ata_out8_def port_defs drive_byte_def DRIVE_DEFAULT_def DRIVE_MASTER_def
      DRIVE_SLAVE_def DRIVE_LBA_def)
  have gone: "platters a1 (slave a1) = None" if "port_base (chan_of h s) = 0x1F0"
    using none that by (simp add: a1_def slave_def drive_selects)
  have cmd: "ide_set_cmd ?P h CMD_IDENTIFY (drv c a1 v ?m s) = drv c a1 v ?m s"
    using none b gone by (auto simp: ide_set_cmd_def outb_def ata_out8_def port_defs ata_command_def a1(7))
  let ?a2 = "(tick a1)\<lparr>pend := 0\<rparr>" and ?v2 = "v + of_nat (pend (tick a1))"
  have w1: "wired c h0 a1 s" using w a1(7,8) by (simp add: wired_def)
  have st: "ide_get_status ?P h (drv c ?a2 ?v2 ?m s) = (0, drv c ?a2 ?v2 ?m s)"
    using none b gone a1(7) by (auto simp: ide_get_status_def inb_def ata_in8_def port_defs ata_status_def slave_def)
  have po: "poll ?P h waits (drv c a1 v ?m s) = Some (0, drv c ?a2 ?v2 ?m s)"
    using waits_values(3) by (subst poll.simps) (simp add: msleep_drv [OF w1] st)
  have cr1: "credits a1 v = credits a v" using a1(4,5,9) by (simp add: credits_def)
  show thesis
  proof (rule that)
    show "ide_get_identify ?P id_info h (drv c a v m s) = Some (False, drv c ?a2 ?v2 ?m s)"
      by (simp only: ide_get_identify_def Let_def memset_drv drv_fields(2) sel cmd po bind_simps) simp
    show "same_drive a ?a2" "platters ?a2 = platters a" "resting ?a2" using a1 by (simp_all add: same_drive_def resting_def tick_def)
    show "credits ?a2 ?v2 = credits a v" using sleep_credits [of a1 v] cr cr1 by simp
  qed
qed


section \<open>The places\<close>

lemma set_hd_fields [simp]:
  "heap (set_hd h g s) = heap s" "hw (set_hd h g s) = hw s" "intr (set_hd h g s) = intr s" "ptn_at (set_hd h g s) = ptn_at s"
  "ptn_nodes (set_hd h g s) = ptn_nodes s" "ptn_nr (set_hd h g s) = ptn_nr s" "ide_state.more (set_hd h g s) = ide_state.more s"
  "port_base (ide_ch (set_hd h g s) c) = port_base (ide_ch s c)" "ch_irq (ide_ch (set_hd h g s) c) = ch_irq (ide_ch s c)"
  "ch_mlock (ide_ch (set_hd h g s) c) = ch_mlock (ide_ch s c)" "ch_sema (ide_ch (set_hd h g s) c) = ch_sema (ide_ch s c)"
  "hd_of h' (set_hd h g s) = (if h' = h then g (hd_of h s) else hd_of h' s)"
  by (auto simp: set_hd_def hd_of_def prod_eq_iff)

text \<open>The four channels, as \<open>ide_ch_init\<close> sets them.\<close>

definition port_at :: "nat \<Rightarrow> u16" where
  "port_at c = [0x1F0, 0x170, 0x1E8, 0x168] ! c"

definition irq_at :: "nat \<Rightarrow> u8" where
  "irq_at c = [0x2E, 0x2F, 0x2B, 0x2A] ! c"

lemma four: "c < (4 :: nat) \<longleftrightarrow> c = 0 \<or> c = 1 \<or> c = 2 \<or> c = 3"
  by auto

lemma at_values [simp]:
  "port_at 0 = 0x1F0" "port_at 1 = 0x170" "port_at (Suc 0) = 0x170" "port_at 2 = 0x1E8" "port_at 3 = 0x168"
  "irq_at 0 = 0x2E" "irq_at 1 = 0x2F" "irq_at (Suc 0) = 0x2F" "irq_at 2 = 0x2B" "irq_at 3 = 0x2A"
  by (simp_all add: port_at_def irq_at_def)

definition boards :: "('d, 'x) ide_state_scheme \<Rightarrow> bool" where
  "boards s \<longleftrightarrow> (\<forall>c<4. port_base (ide_ch s c) = port_at c \<and> ch_irq (ide_ch s c) = irq_at c)"

lemma platform_fields: "ptn_list_at (ata_platform pl ih) = pl" "ide_handler_at (ata_platform pl ih) = ih"
  by (simp_all add: ata_platform_def)

text \<open>Between two probes: the scanned drive ready, the list of partitions, the places found empty and the channels
  whose interrupt is bound.\<close>

definition settled :: "nat \<Rightarrow> ptr \<Rightarrow> ptr \<Rightarrow> (ptr \<times> nat) set \<Rightarrow> (nat \<Rightarrow> u8 list) \<Rightarrow> nat \<Rightarrow> nat \<Rightarrow> ptr list \<Rightarrow> hd_ptr set \<Rightarrow> nat set \<Rightarrow>
    (ata, 'x) ide_state_scheme \<Rightarrow> bool" where
  "settled bt pl ih L f n q ps V H s \<longleftrightarrow> working bt L (0, 0) f n q s \<and> parts_at pl L s ps \<and> boards s \<and> base (hw s) = 0x1F0 \<and>
     platters (hw s) True = None \<and> hd_ch (hd_of (0, 0) s) = 0 \<and> (\<forall>h \<in> V. \<not> valid (hd_of h s)) \<and>
     (\<forall>c \<in> H. intr_func (intr s) (unat (irq_at c)) = ih)"

text \<open>The gates, and the handlers of all other interrupts, stay.\<close>

definition same_gates :: "intr_state \<Rightarrow> intr_state \<Rightarrow> bool" where
  "same_gates i j \<longleftrightarrow> idt_table j = idt_table i \<and> idtr j = idtr i \<and>
     (\<forall>v. v \<notin> unat ` irq_at ` {0, 1, 2, 3} \<longrightarrow> intr_func j v = intr_func i v)"

lemma same_gates_refl [simp]: "same_gates i i"
  by (simp add: same_gates_def)

lemma same_gates_trans: "same_gates i j \<Longrightarrow> same_gates j k \<Longrightarrow> same_gates i k"
  by (simp add: same_gates_def)

lemma register_gates: "c < 4 \<Longrightarrow> same_gates i (register_handler (irq_at c) h i)"
  by (auto simp: same_gates_def register_handler_def four)

text \<open>What a probe of an empty place leaves: all but the buffer, its own place and the device.\<close>

definition probed :: "ptr \<Rightarrow> ('d, 'x) ide_state_scheme \<Rightarrow> ('d, 'x) ide_state_scheme \<Rightarrow> bool" where
  "probed b s s' \<longleftrightarrow> ptn_at s' = ptn_at s \<and> ptn_nr s' = ptn_nr s \<and> ide_state.more s' = ide_state.more s \<and>
     hd_of (0, 0) s' = hd_of (0, 0) s \<and> same_gates (intr s) (intr s') \<and> (\<forall>a. \<not> in_range b 512 a \<longrightarrow> bytes_in s' a = bytes_in s a)"

lemma probed_trans: "probed b s t \<Longrightarrow> probed b t u \<Longrightarrow> probed b s u"
  using same_gates_trans [of "intr s" "intr t" "intr u"] by (simp add: probed_def)

lemma working_first:
  assumes "heap s' = heap s" and "hw s' = hw s" and "hd_ch (hd_of (0, 0) s) = 0" and "hd_ch (hd_of (0, 0) s') = 0"
    and "dev_nr (hd_of (0, 0) s') = dev_nr (hd_of (0, 0) s)"
    and "port_base (ide_ch s' 0) = port_base (ide_ch s 0)" "ch_irq (ide_ch s' 0) = ch_irq (ide_ch s 0)"
      "ch_mlock (ide_ch s' 0) = ch_mlock (ide_ch s 0)" "ch_sema (ide_ch s' 0) = ch_sema (ide_ch s 0)"
  shows "working bt L (0, 0) f n q s' = working bt L (0, 0) f n q s"
  using assms by (simp add: working_def disk_ready_def wired_def chan_of_def is_slave_def)

lemma settled_set_hd:
  assumes "settled bt pl ih L f n q ps V H s" and "h \<noteq> (0, 0)"
  shows "settled bt pl ih L f n q ps (V - {h}) H (set_hd h g s)"
  using assms working_first [of "set_hd h g s" s bt L f n q] by (simp add: settled_def boards_def parts_at_def)

lemma probe_absent:
  assumes J: "settled bt pl ih L f n q ps V H s" and h: "c < 4" "d < 2" "(c, d) \<noteq> (0, 0)"
  obtains s' where "probe_hd fuel (ata_platform pl ih) id_info c d s = Inr s'" and "settled bt pl ih L f n q ps (insert (c, d) V) H s'"
    and "probed id_info s s'"
proof -
  let ?P = "ata_platform pl ih"
  let ?g = "\<lambda>x. x\<lparr>hd_name := formatted hd_format [Chr (0x61 + of_nat (c * 2 + d))], hd_ch := c, dev_nr := of_nat d\<rparr>"
  define t where "t = set_hd (c, d) ?g s"
  have T: "settled bt pl ih L f n q ps (V - {(c, d)}) H t" unfolding t_def by (rule settled_set_hd [OF J h(3)])
  then have fst: "hd_ch (hd_of (0, 0) t) = 0" by (simp add: settled_def)
  have w: "wired 0 (0, 0) (hw t) t" and r: "resting (hw t)" and cr: "credits (hw t) (ch_sema (ide_ch t 0)) < 2 ^ 32"
    and b: "base (hw t) = 0x1F0" and D: "disk_ready bt n (0, 0) f t"
    using T fst by (simp_all add: settled_def working_def disk_ready_def chan_of_def)
  have "port_base (chan_of (c, d) t) = port_at c" using J h by (simp add: chan_of_def t_def settled_def boards_def)
  moreover have "is_slave (0, Suc 0) t" if "c = 0" "d = 1" using that by (simp add: is_slave_def t_def)
  moreover have "platters (hw t) True = None" using T by (simp add: settled_def)
  ultimately have none: "port_base (chan_of (c, d) t) = 0x1F0 \<and> platters (hw t) (is_slave (c, d) t) = None \<or>
      port_base (chan_of (c, d) t) \<in> {0x170, 0x1E8, 0x168}"
    using h less_2_cases [OF h(2)] by (auto simp: four)
  obtain a v where i: "ide_get_identify ?P id_info (c, d) (drv 0 (hw t) (ch_sema (ide_ch t 0)) (hbytes (heap t)) t) =
        Some (False, drv 0 a v (memset (hbytes (heap t)) id_info 0 512) t)"
      "same_drive (hw t) a" "platters a = platters (hw t)" "resting a" "credits a v = credits (hw t) (ch_sema (ide_ch t 0))"
    by (rule identify_absent [OF w b r cr none])
  let ?u = "drv 0 a v (memset (hbytes (heap t)) id_info 0 512) t"
  have "disk_ready bt (n - 0) (0, 0) f ?u"
    using disk_ready_after [OF D i(2) _ _ i(4), of f v 0] D i(3,5) fst by (simp add: disk_ready_def chan_of_def)
  then have U: "settled bt pl ih L f n q ps (V - {(c, d)}) H ?u"
    using T i(2,3) heap_rep_bytes by (simp add: settled_def working_def boards_def parts_at_def same_drive_def) (simp add: drv_def)
  let ?s' = "set_hd (c, d) (\<lambda>x. x\<lparr>valid := False\<rparr>) ?u"
  have "settled bt pl ih L f n q ps (V - {(c, d)} - {(c, d)}) H ?s'" by (rule settled_set_hd [OF U h(3)])
  then have "settled bt pl ih L f n q ps (insert (c, d) V) H ?s'" by (auto simp: settled_def)
  moreover have "probe_hd fuel ?P id_info c d s = Inr ?s'"
    unfolding probe_hd_def Let_def t_def [symmetric] i(1) [unfolded drv_self] by simp
  moreover have "probed id_info s ?s'"
    using h(3) by (simp add: probed_def memset_apply) (auto simp: t_def drv_def)
  ultimately show thesis using that by blast
qed

text \<open>A channel without a drive.\<close>

lemma probe_ch_absent:
  assumes J: "settled bt pl ih L f n q ps V H s" and c: "c < 4" "c \<noteq> 0"
  obtains s' where "probe_ch fuel (ata_platform pl ih) id_info c s = Inr s'"
    and "settled bt pl ih L f n q ps ({(c, 0), (c, 1)} \<union> V) (insert c H) s'" and "probed id_info s s'"
proof -
  let ?P = "ata_platform pl ih"
  define s1 where "s1 = set_ch c (\<lambda>x. x\<lparr>ch_name := formatted ch_format [Num (of_nat c)], ch_mlock := NULL, ch_sema := 0\<rparr>) s"
  define s2 where "s2 = s1\<lparr>intr := register_handler (ch_irq (ide_ch s1 c)) ih (intr s1)\<rparr>"
  have irq: "ch_irq (ide_ch s1 c) = irq_at c" using J c by (simp add: s1_def set_ch_def settled_def boards_def)
  have W: "working bt L (0, 0) f n q s2 = working bt L (0, 0) f n q s"
    using J c by (intro working_first) (simp_all add: s2_def s1_def set_ch_def hd_of_def settled_def)
  have hd: "hd_of h s2 = hd_of h s" for h by (simp add: s2_def s1_def set_ch_def hd_of_def)
  have S: "settled bt pl ih L f n q ps V (insert c H) s2"
    using J c irq W unfolding settled_def hd
    by (auto simp: s2_def s1_def set_ch_def boards_def parts_at_def register_handler_def)
  obtain s3 where a: "probe_hd fuel ?P id_info c 0 s2 = Inr s3" "settled bt pl ih L f n q ps (insert (c, 0) V) (insert c H) s3" "probed id_info s2 s3"
    by (rule probe_absent [OF S c(1), where d = 0]) (use c in auto)
  obtain s4 where b: "probe_hd fuel ?P id_info c 1 s3 = Inr s4"
      "settled bt pl ih L f n q ps (insert (c, 1) (insert (c, 0) V)) (insert c H) s4" "probed id_info s3 s4"
    by (rule probe_absent [OF a(2) c(1), where d = 1]) (use c in auto)
  have "same_gates (intr s) (intr s2)" using register_gates [OF c(1)] irq by (simp add: s2_def) (simp add: s1_def set_ch_def)
  then have "probed id_info s s2" using hd by (simp add: probed_def) (simp add: s2_def s1_def set_ch_def)
  then have "probed id_info s s4" using a(3) b(3) by (blast intro: probed_trans)
  moreover have "probe_ch fuel ?P id_info c s = Inr s4"
    unfolding probe_ch_def Let_def s1_def [symmetric] platform_fields s2_def [symmetric] a(1) rbind_simps b(1) ..
  moreover have "insert (c, 1) (insert (c, 0) V) = {(c, 0), (c, 1)} \<union> V" by auto
  ultimately show thesis using that b(2) by simp
qed

section \<open>The drive\<close>

definition disk_part :: "part \<Rightarrow> ide_ptn" where
  "disk_part = (\<lambda>(nr, start, cnt). zero_ptn\<lparr>ptn_name := formatted ptn_format [Str [0x73, 0x64, 0x61], Num nr], start_lba := start,
     sec_cnt := cnt\<rparr>)"

lemma first_name: "formatted hd_format [Chr 0x61] = [0x73, 0x64, 0x61]"
  by (simp add: formatted_def hd_format_def piece_def)

lemma disk_part_of: "hd_name (hd_of (0, 0) s) = [0x73, 0x64, 0x61] \<Longrightarrow> part_of (0, 0) s = disk_part"
  by (auto simp: part_of_def disk_part_def zero_ptn_def fun_eq_iff)

text \<open>Live memory outside the buffer keeps its contents.\<close>

definition spared :: "ptr \<Rightarrow> (ptr \<times> nat) set \<Rightarrow> ('d, 'x) ide_state_scheme \<Rightarrow> ('d, 'x) ide_state_scheme \<Rightarrow> bool" where
  "spared b L s s' \<longleftrightarrow> (\<forall>a. safe L a \<longrightarrow> \<not> in_range b 512 a \<longrightarrow> bytes_in s' a = bytes_in s a)"

text \<open>A machine with one drive, the master of the first channel.\<close>

definition one_drive :: "(nat \<Rightarrow> u8 list) \<Rightarrow> ata \<Rightarrow> bool" where
  "one_drive f a \<longleftrightarrow> base a = 0x1F0 \<and> vec a = 0x2E \<and> platters a = (\<lambda>d. if d then None else Some f) \<and> resting a \<and> length (ident a) = 256 \<and>
     (\<forall>l. length (f l) = 512)"

lemma probe_present:
  assumes o: "one_drive f (hw s)" and b: "boards s" and rep: "heap_rep L (heap s)" and q: "in_budget (pages k rs + q) (heap s)"
    and lk: "ch_mlock (ide_ch s 0) = NULL" and cr: "credits (hw s) (ch_sema (ide_ch s 0)) + 1 + (k + n) < 2 ^ 32"
    and pt: "parts_at pl L s []" and sc: "scan depth f 0 0 (ptn_nr s) = Some (rs, nr', k)" "depth \<le> fuel"
    and H: "\<forall>c \<in> H. intr_func (intr s) (unat (irq_at c)) = ih"
    and bt: "0 < bt" "bt \<le> 1 \<or> gap (hw s) = 0" and lg: "lingers (heap s)"
  obtains ps L' s' where "probe_hd fuel (ata_platform pl ih) id_info 0 0 s = Inr s'" and "settled bt pl ih L' f n q ps {} H s'"
    and "map (ptn_at s') ps = map disk_part rs" and "hd_name (hd_of (0, 0) s') = [0x73, 0x64, 0x61]" and "valid (hd_of (0, 0) s')"
    and "L \<subseteq> L'" and "ide_state.more s' = ide_state.more s" and "ptn_nr s' = nr'"
    and "spared id_info L s s'" and "intr s' = intr s"
proof -
  let ?P = "ata_platform pl ih"
  let ?g = "\<lambda>x. x\<lparr>hd_name := formatted hd_format [Chr (0x61 + of_nat (0 * 2 + 0))], hd_ch := 0, dev_nr := of_nat 0\<rparr>"
  define t where "t = set_hd (0, 0) ?g s"
  have hd: "hd_ch (hd_of (0, 0) t) = 0" "dev_nr (hd_of (0, 0) t) = 0" "hd_name (hd_of (0, 0) t) = [0x73, 0x64, 0x61]"
    by (simp_all add: t_def first_name)
  have T: "hw t = hw s" "heap t = heap s" by (simp_all add: t_def)
  have w: "wired 0 (0, 0) (hw t) t" using b hd o by (simp add: wired_def t_def boards_def one_drive_def)
  have r: "resting (hw t)" "platters (hw t) (is_slave (0, 0) t) = Some f" "length (ident (hw t)) = 256"
    and l: "\<forall>l. length (f l) = 512" using o hd by (simp_all add: one_drive_def T is_slave_def)
  have c: "credits (hw t) (ch_sema (ide_ch t 0)) + 1 < 2 ^ 32" using cr by (simp add: t_def)
  obtain a v where i: "ide_get_identify ?P id_info (0, 0) (drv 0 (hw t) (ch_sema (ide_ch t 0)) (hbytes (heap t)) t) =
        Some (True, drv 0 a v (store_bytes (memset (hbytes (heap t)) id_info 0 512) id_info (bytes_of (ident (hw t)))) t)"
      "same_drive (hw t) a" "platters a = platters (hw t)" "resting a" "credits a v = credits (hw t) (ch_sema (ide_ch t 0))"
    by (rule identify_present [OF w r c])
  let ?m = "store_bytes (memset (hbytes (heap t)) id_info 0 512) id_info (bytes_of (ident (hw t)))"
  define u where "u = set_hd (0, 0) (\<lambda>x. x\<lparr>valid := True\<rparr>) (drv 0 a v ?m t)"
  have uh: "hd_ch (hd_of (0, 0) u) = 0" "hd_name (hd_of (0, 0) u) = [0x73, 0x64, 0x61]" "valid (hd_of (0, 0) u)"
    and us: "is_slave (0, 0) u = is_slave (0, 0) t"
    by (simp_all add: hd u_def is_slave_def)
  have wu: "wired 0 (0, 0) a u" using w i(2) hd by (simp add: wired_def same_drive_def u_def)
  have ch: "ch_mlock (chan_of (0, 0) u) = NULL" "ch_sema (chan_of (0, 0) u) = v" "hw u = a"
    using lk by (simp_all add: chan_of_def hd u_def) (simp add: t_def)
  have sm: "ch_sema (ide_ch t 0) = ch_sema (ide_ch s 0)" by (simp add: t_def)
  have cu: "credits a v + (k + n) < 2 ^ 32" using i(5) cr unfolding sm T(1) by linarith
  have "disk_ready bt (k + n) (0, 0) f u"
    using wu i(4) r(2) l cu bt(2) i(2) unfolding disk_ready_def uh(1) ch us i(3) same_drive_def T(1) by metis
  moreover have hu: "heap u = (heap s)\<lparr>hbytes := ?m\<rparr>" by (simp add: u_def) (simp add: drv_def T)
  ultimately have W: "working bt L (0, 0) f (k + n) (pages k rs + q) u"
    using rep q bt(1) lg heap_rep_bytes by (simp add: working_def)
  have eq: "ptn_nodes u = ptn_nodes s" "ptn_nr u = ptn_nr s" "ptn_at u = ptn_at s" "intr u = intr s" "ide_state.more u = ide_state.more s"
    by (simp_all add: u_def t_def) (simp_all add: drv_def)
  have pu: "parts_at pl L u []" using pt by (simp add: parts_at_def eq(1))
  have nr: "scan depth f 0 0 (ptn_nr u) = Some (rs, nr', k)" using sc(1) by (simp add: eq(2))
  obtain ps L' s' where g: "ide_get_partition fuel ?P (0, 0) 0 0 u = Inr s'" "recorded pl (0, 0) L u [] rs ps L' s'"
      "working bt L' (0, 0) f n q s'" "ptn_nr s' = nr'"
    by (rule scansD [OF scan_run scan_deeper [OF nr sc(2)] W pu])
  note R = recordedD [OF g(2)]
  have rig: "\<And>c. port_base (ide_ch s' c) = port_base (ide_ch s c)" "\<And>c. ch_irq (ide_ch s' c) = ch_irq (ide_ch s c)"
    "base (hw s') = base (hw s)" "platters (hw s') = platters (hw s)" "intr s' = intr s"
    using R(10) eq(4) i(2,3) unfolding same_rig_def ch(3) T(1) same_drive_def by (simp_all add: u_def t_def)
  show thesis
  proof (rule that)
    show "probe_hd fuel ?P id_info 0 0 s = Inr s'"
      unfolding probe_hd_def Let_def t_def [symmetric] i(1) [unfolded drv_self] using g(1) by (simp add: u_def)
    show "settled bt pl ih L' f n q ps {} H s'"
      using g(3) R(1) b o H uh(1) by (simp add: settled_def boards_def rig R(8) one_drive_def)
    show "map (ptn_at s') ps = map disk_part rs" using R(2) unfolding disk_part_of [OF uh(2)] .
    show "hd_name (hd_of (0, 0) s') = [0x73, 0x64, 0x61]" "valid (hd_of (0, 0) s')" unfolding R(8) by (fact uh)+
    show "L \<subseteq> L'" "ide_state.more s' = ide_state.more s" "ptn_nr s' = nr'" "intr s' = intr s" using R(5,9) eq(5) g(4) rig(5) by simp_all
    have "bytes_in s' a = bytes_in s a" if "safe L a" "\<not> in_range id_info 512 a" for a
    proof -
      have "length (bytes_of (ident (hw t))) = 512" using r(3) bytes_of_length [of "ident (hw t)"] by simp
      then have "bytes_in u a = bytes_in s a" using that(2) by (simp add: hu T(2) memset_apply store_bytes_def in_range_def word_less_nat_alt)
      moreover have "bytes_in s' a = bytes_in u a" using R(6) that(1) unfolding kept_def by blast
      ultimately show ?thesis by simp
    qed
    then show "spared id_info L s s'" by (simp add: spared_def)
  qed
qed


section \<open>The driver\<close>

lemma ide_init_run:
  fixes s :: "(ata, 'x) ide_state_scheme"
  assumes o: "one_drive f (hw s)" and rep: "heap_rep L (heap s)" and q: "in_budget (pages k rs + q) (heap s)"
    and cr: "pend (hw s) + 1 + (k + n) < 2 ^ 32" and pl: "unat pl + 16 \<le> 0xC0100000"
    and sc: "scan depth f 0 0 (ptn_nr s) = Some (rs, nr', k)" "depth \<le> fuel"
    and bt: "0 < bt" "bt \<le> 1 \<or> gap (hw s) = 0" and lg: "lingers (heap s)"
  obtains ps L' s' where "ide_init fuel (ata_platform pl ih) id_info s = Inr s'"
    and "settled bt pl ih L' f n q ps {(0, 1), (1, 0), (1, 1), (2, 0), (2, 1), (3, 0), (3, 1)} {0, 1, 2, 3} s'"
    and "map (ptn_at s') ps = map disk_part rs" and "hd_name (hd_of (0, 0) s') = [0x73, 0x64, 0x61]" and "valid (hd_of (0, 0) s')"
    and "L \<subseteq> L'" and "ide_state.more s' = ide_state.more s" and "ptn_nr s' = nr'"
    and "spared id_info L s s'" and "same_gates (intr s) (intr s')"
proof -
  let ?P = "ata_platform pl ih"
  define s0 where "s0 = s\<lparr>ptn_nodes := list_init (ptn_nodes s) pl\<rparr>"
  define s4 where "s4 = set_ch 3 (\<lambda>c. c\<lparr>port_base := 0x168, ch_irq := 0x20 + 10\<rparr>) (set_ch 2 (\<lambda>c. c\<lparr>port_base := 0x1E8, ch_irq := 0x20 + 11\<rparr>)
    (set_ch 1 (\<lambda>c. c\<lparr>port_base := 0x170, ch_irq := 0x20 + 15\<rparr>) (set_ch 0 (\<lambda>c. c\<lparr>port_base := 0x1F0, ch_irq := 0x20 + 14\<rparr>) s0)))"
  define s5 where "s5 = set_ch 0 (\<lambda>c. c\<lparr>ch_name := formatted ch_format [Num (of_nat 0)], ch_mlock := NULL, ch_sema := 0\<rparr>) s4"
  define s6 where "s6 = s5\<lparr>intr := register_handler (ch_irq (ide_ch s5 0)) ih (intr s5)\<rparr>"
  have eq: "hw s6 = hw s" "heap s6 = heap s" "ptn_nr s6 = ptn_nr s" "ide_state.more s6 = ide_state.more s"
      "ptn_nodes s6 = list_init (ptn_nodes s) pl" "ch_mlock (ide_ch s6 0) = NULL" "ch_sema (ide_ch s6 0) = 0"
    by (simp_all add: s6_def s5_def s4_def s0_def set_ch_def)
  have b: "boards s6" by (simp add: boards_def four s6_def s5_def s4_def set_ch_def all_conj_distrib disj_imp)
  have H: "\<forall>c \<in> {0}. intr_func (intr s6) (unat (irq_at c)) = ih" by (simp add: s6_def s5_def s4_def set_ch_def register_handler_def)
  have "credits (hw s) 0 = pend (hw s)" using o by (simp add: credits_def one_drive_def resting_def)
  then have c: "credits (hw s6) (ch_sema (ide_ch s6 0)) + 1 + (k + n) < 2 ^ 32" using cr by (simp add: eq)
  have pt: "parts_at pl L s6 []" using pl list_init_dlist by (simp add: parts_at_def eq)
  obtain ps L' t where a: "probe_hd fuel ?P id_info 0 0 s6 = Inr t" "settled bt pl ih L' f n q ps {} {0} t"
      "map (ptn_at t) ps = map disk_part rs" "hd_name (hd_of (0, 0) t) = [0x73, 0x64, 0x61]" "valid (hd_of (0, 0) t)"
      "L \<subseteq> L'" "ide_state.more t = ide_state.more s6" "ptn_nr t = nr'"
      "spared id_info L s6 t" "intr t = intr s6"
    by (rule probe_present [where id_info = id_info, OF o [folded eq(1)] b rep [folded eq(2)] q [folded eq(2)] eq(6) c pt sc(1) [folded eq(3)] sc(2) H bt [folded eq(1)] lg [folded eq(2)]])
  obtain t1 where p1: "probe_hd fuel ?P id_info 0 1 t = Inr t1" "settled bt pl ih L' f n q ps {(0, 1)} {0} t1" "probed id_info t t1"
    by (rule probe_absent [OF a(2), where c = 0 and d = 1]) auto
  obtain t2 where p2: "probe_ch fuel ?P id_info 1 t1 = Inr t2" "settled bt pl ih L' f n q ps ({(1, 0), (1, 1)} \<union> {(0, 1)}) {1, 0} t2"
      "probed id_info t1 t2"
    by (rule probe_ch_absent [OF p1(2), where c = 1]) auto
  obtain t3 where p3: "probe_ch fuel ?P id_info 2 t2 = Inr t3"
      "settled bt pl ih L' f n q ps ({(2, 0), (2, 1)} \<union> ({(1, 0), (1, 1)} \<union> {(0, 1)})) {2, 1, 0} t3" "probed id_info t2 t3"
    by (rule probe_ch_absent [OF p2(2), where c = 2]) auto
  obtain t4 where p4: "probe_ch fuel ?P id_info 3 t3 = Inr t4"
      "settled bt pl ih L' f n q ps ({(3, 0), (3, 1)} \<union> ({(2, 0), (2, 1)} \<union> ({(1, 0), (1, 1)} \<union> {(0, 1)}))) {3, 2, 1, 0} t4" "probed id_info t3 t4"
    by (rule probe_ch_absent [OF p3(2), where c = 3]) auto
  have pr: "probed id_info t t4" using p1(3) p2(3) p3(3) p4(3) by (blast intro: probed_trans)
  have ch0: "probe_ch fuel ?P id_info 0 s4 = Inr t1"
    unfolding probe_ch_def Let_def s5_def [symmetric] platform_fields s6_def [symmetric] a(1) rbind_simps p1(1) ..
  have "intr s6 = register_handler (irq_at 0) ih (intr s)" by (simp add: s6_def s5_def s4_def s0_def set_ch_def)
  then have "same_gates (intr s) (intr t)" using register_gates [of 0] a(10) by simp
  then have gates: "same_gates (intr s) (intr t4)" using pr same_gates_trans by (auto simp: probed_def)
  show thesis
  proof (rule that)
    show "same_gates (intr s) (intr t4)" by (rule gates)
    show "ide_init fuel ?P id_info s = Inr t4"
      unfolding ide_init_def ide_ch_init_def Let_def platform_fields s0_def [symmetric] s4_def [symmetric] ch0 rbind_simps p2(1) p3(1) p4(1) ..
    have "{(3, 0), (3, 1)} \<union> ({(2, 0), (2, 1)} \<union> ({(1, 0), (1, 1)} \<union> {(0, 1)})) =
        {(0, 1), (1, 0), (1, 1), (2, 0), (2, 1), (3, 0), (3, 1 :: nat)} \<and> {3, 2, 1, 0} = {0, 1, 2, 3 :: nat}" by auto
    then show "settled bt pl ih L' f n q ps {(0, 1), (1, 0), (1, 1), (2, 0), (2, 1), (3, 0), (3, 1)} {0, 1, 2, 3} t4" using p4(2) by metis
    show "map (ptn_at t4) ps = map disk_part rs" "hd_name (hd_of (0, 0) t4) = [0x73, 0x64, 0x61]" "valid (hd_of (0, 0) t4)" "ptn_nr t4 = nr'"
      "ide_state.more t4 = ide_state.more s"
      using pr a(3-5,7,8) eq(4) by (simp_all add: probed_def)
    show "L \<subseteq> L'" by (rule a(6))
    show "spared id_info L s t4" using pr a(9) by (simp add: spared_def probed_def eq(2))
  qed
qed


text \<open>C27: the start of the disk driver. On a machine with one drive, the master of the first channel, whose tables nest
  to a finite depth, \<open>ide_init\<close> returns: of the eight places a drive can have only that one is marked valid, the
  interrupt of each channel is bound to the driver's handler, the list of partitions holds what the tables describe,
  named after \<open>sda\<close>, and the drive and the heap are ready for more work. The probing and the scan use commands of one sector, and
  do with any drive; the drive is ready for commands of \<open>bt\<close> sectors when it needs no time between two of them. The scan frees
  its buffers, under the assumption of \<open>sys_free\<close> on the processor (\<open>lingers\<close>).\<close>

theorem ide_init_finds:
  fixes s :: "(ata, 'x) ide_state_scheme"
  assumes "one_drive f (hw s)" and "heap_rep L (heap s)" and "in_budget (pages k rs + q) (heap s)"
    and "pend (hw s) + 1 + (k + n) < 2 ^ 32" and "unat pl + 16 \<le> 0xC0100000"
    and "scan depth f 0 0 (ptn_nr s) = Some (rs, nr', k)" and "depth \<le> fuel"
    and "0 < bt" and "bt \<le> 1 \<or> gap (hw s) = 0" and "lingers (heap s)"
  shows "\<exists>ps L' s'. ide_init fuel (ata_platform pl ih) id_info s = Inr s' \<and>
    (\<forall>c<4. \<forall>d<2. valid (hd_of (c, d) s') \<longleftrightarrow> (c, d) = (0, 0)) \<and>
    (\<forall>c<4. ch_irq (ide_ch s' c) = irq_at c \<and> intr_func (intr s') (unat (irq_at c)) = ih) \<and>
    parts_at pl L' s' ps \<and> map (ptn_at s') ps = map disk_part rs \<and> L \<subseteq> L' \<and> working bt L' (0, 0) f n q s' \<and> spared id_info L s s' \<and>
    same_gates (intr s) (intr s')"
proof -
  obtain ps L' s' where g: "ide_init fuel (ata_platform pl ih) id_info s = Inr s'"
      "settled bt pl ih L' f n q ps {(0, 1), (1, 0), (1, 1), (2, 0), (2, 1), (3, 0), (3, 1)} {0, 1, 2, 3} s'"
      "map (ptn_at s') ps = map disk_part rs" "hd_name (hd_of (0, 0) s') = [0x73, 0x64, 0x61]" "valid (hd_of (0, 0) s')"
      "L \<subseteq> L'" "ide_state.more s' = ide_state.more s" "ptn_nr s' = nr'"
      "spared id_info L s s'" "same_gates (intr s) (intr s')"
    by (rule ide_init_run [where id_info = id_info and ih = ih, OF assms])
  have "\<forall>c<4. \<forall>d<2. valid (hd_of (c, d) s') \<longleftrightarrow> (c, d) = (0, 0)"
    using g(2,5) less_2_cases by (fastforce simp: settled_def four)
  moreover have "\<forall>c<4. ch_irq (ide_ch s' c) = irq_at c \<and> intr_func (intr s') (unat (irq_at c)) = ih"
    using g(2) by (auto simp: settled_def four boards_def)
  ultimately show ?thesis using g by (intro exI [of _ ps] exI [of _ L'] exI [of _ s']) (simp add: settled_def)
qed

definition demo_probe :: "(nat \<Rightarrow> u8 list) \<Rightarrow> ata fs_state" where
  "demo_probe f = (demo_fs f)\<lparr>hw := (hw (demo_fs f))\<lparr>ident := replicate 256 0\<rparr>\<rparr>"

lemma demo_probe_ready:
  assumes "\<And>l. length (f l) = 512"
  shows "one_drive f (hw (demo_probe f))" "heap (demo_probe f) = demo_heap" "pend (hw (demo_probe f)) = 0" "ptn_nr (demo_probe f) = 0"
    "inode_max (demo_probe f) = 0" "gap (hw (demo_probe f)) = 0" "lingers (heap (demo_probe f))"
  using assms demo_heap_lingers by (simp_all add: demo_probe_def demo_fs_def demo_disk_def slow_disk_def one_drive_def resting_def)

theorem ide_init_finds_witness:
  "\<exists>ps s. ide_init 3 (ata_platform 0x2000 0x3000) 0x9E000 (demo_probe parted) = Inr s \<and>
     valid (hd_of (0, 0) s) \<and> \<not> valid (hd_of (3, 1) s) \<and> map ptn_name (map (ptn_at s) ps) = map ptn_name (map disk_part [(1, 100, 1000), (5, 2063, 1000), (6, 4063, 1000)])"
proof -
  note d = demo_probe_ready [of parted, OF parted_length]
  let ?rs = "[(1, 100, 1000), (5, 2063, 1000), (6, 4063, 1000)] :: part list"
  have pg: "pages 3 ?rs = 6" by (simp add: pages_def cost_def sizeof_boot_sector_def sizeof_ide_ptn_def)
  have h: "heap_rep {} (heap (demo_probe parted))" "in_budget (pages 3 ?rs + 0) (heap (demo_probe parted))"
    using demo_heap_rep demo_budget [of 6] by (simp_all add: d pg)
  have r: "pend (hw (demo_probe parted)) + 1 + (3 + 0) < 2 ^ 32" "unat (0x2000 :: ptr) + 16 \<le> 0xC0100000" by (simp_all add: d)
  have "scan 3 parted 0 0 (ptn_nr (demo_probe parted)) = Some (?rs, 7, 3)" using parted_scan by (simp add: d)
  from ide_init_finds [where id_info = "0x9E000" and ih = "0x3000", OF d(1) h r this order_refl zero_less_one _ d(7)] d(6)
  obtain ps s where g: "ide_init 3 (ata_platform 0x2000 0x3000) 0x9E000 (demo_probe parted) = Inr s"
      "\<forall>c<4. \<forall>d<2. valid (hd_of (c, d) s) \<longleftrightarrow> (c, d) = (0, 0)" "map (ptn_at s) ps = map disk_part ?rs" by blast
  have "valid (hd_of (0, 0) s)" "\<not> valid (hd_of (3, 1) s)" using g(2) by auto
  then show ?thesis using g(1,3) by metis
qed

end
