(* ===== verification/KEnv.thy ===== *)
theory KEnv
  imports KProbe KFsInit
begin

text \<open>
  What the disk driver and the file system leave alone: the interrupt tables but for the registration of a
  handler, the running thread, and the place of the block descriptors of the heap.
\<close>

section \<open>The heap\<close>

lemma page_acquire_loop_cur: "page_acquire_loop n pid v s = Inr (b, s') \<Longrightarrow> cur_task s' = cur_task s"
proof (induction n arbitrary: v s)
  case (Suc n)
  then obtain f s1 where a: "with_p_lock pid (palloc_st pid) s = Inr (f, s1)"
      "(if f = NULL then Inr (False, s1) else rbind (with_pgtable_lock (page_table_add_st v f) s1) (\<lambda>(_, s2). page_acquire_loop n pid (v + PG_SIZE) s2)) =
        Inr (b, s')"
    by (auto simp: rbind_Inr_iff)
  have c: "cur_task s1 = cur_task s"
    by (rule locked_cur [OF a(1) [unfolded with_p_lock_def] set_p_mlock_cur]) (auto simp: palloc_st_def split: prod.splits)
  show ?case
  proof (cases "f = NULL")
    case False
    then obtain s2 where b: "with_pgtable_lock (page_table_add_st v f) s1 = Inr ((), s2)" "page_acquire_loop n pid (v + PG_SIZE) s2 = Inr (b, s')"
      using a(2) by (auto simp: rbind_Inr_iff)
    have "cur_task s2 = cur_task s1"
      by (rule locked_cur [OF b(1) [unfolded with_pgtable_lock_def]]) (auto simp: page_table_add_st_def rbind_Inr_iff)
    then show ?thesis using Suc.IH [OF b(2)] c by simp
  qed (use a(2) c in simp)
qed simp

lemma page_acquire_cur: "page_acquire pid v n s = Inr (p, s') \<Longrightarrow> cur_task s' = cur_task s"
proof -
  have "cur_task s2 = cur_task s1" if "with_v_lock (vaddr_acquire_st w n) s1 = Inr (r, s2)" for w r s1 s2
    by (rule locked_cur [OF that [unfolded with_v_lock_def]]) (auto simp: vaddr_acquire_st_def set_v_mlock_def split: prod.splits)
  then show "page_acquire pid v n s = Inr (p, s') \<Longrightarrow> cur_task s' = cur_task s"
    by (fastforce simp: page_acquire_def rbind_Inr_iff split: if_splits dest: page_acquire_loop_cur)
qed

lemma malloc_cur:
  "sys_malloc sz s = Inr (p, s') \<Longrightarrow> cur_task (mm s') = cur_task (mm s) \<and> k_mem_block s' = k_mem_block s"
  using sys_malloc_mm [of sz s p s'] page_acquire_cur sys_malloc_lingers(2) by metis

lemma release_cur: "page_release K_P_POOL v n s = Inr s' \<Longrightarrow> cur_task s' = cur_task s"
  using page_free_cur [of 1 v n s s'] by (simp add: page_free_def)

lemma mem_release_cur:
  "mem_release K_P_POOL v s = Inr s' \<Longrightarrow> cur_task (mm s') = cur_task (mm s) \<and> k_mem_block s' = k_mem_block s"
proof -
  have "mm (unlink_arena n i a t) = mm t \<and> k_mem_block (unlink_arena n i a t) = k_mem_block t" for n i a t
    by (induction n arbitrary: i t) simp_all
  then show "mem_release K_P_POOL v s = Inr s' \<Longrightarrow> cur_task (mm s') = cur_task (mm s) \<and> k_mem_block s' = k_mem_block s"
    by (auto simp: mem_release_def Let_def set_arena_def rbind_Inr_iff split: if_splits dest!: release_cur)
qed

lemma free_cur: "sys_free p s = Inr s' \<Longrightarrow> cur_task (mm s') = cur_task (mm s) \<and> k_mem_block s' = k_mem_block s"
  by (auto simp: sys_free_def set_d_mlock_def Let_def rbind_Inr_iff split: if_splits dest!: release_cur mem_release_cur)

section \<open>Transfers and the file system\<close>

text \<open>The interrupt tables, the running thread and the place of the block descriptors.\<close>

definition cur :: "('d, 'x) ide_state_scheme \<Rightarrow> ptr" where
  "cur s = cur_task (mm (heap s))"

definition env :: "('d, 'x) ide_state_scheme \<Rightarrow> intr_state \<times> ptr \<times> ptr" where
  "env s = (intr s, cur_task (mm (heap s)), k_mem_block (heap s))"

lemma env_fields [simp]:
  "env (set_sema c v s) = env s" "env (s\<lparr>hw := d\<rparr>) = env s" "env (t\<lparr>root_dir_inode := a, root_dir_pos := b\<rparr>) = env t"
  "env (s\<lparr>heap := hp\<rparr>) = (intr s, cur_task (mm hp), k_mem_block hp)" "env (set_ch n cf s) = env s" "env (set_hd x hf s) = env s"
  "env (s\<lparr>ptn_nodes := ns\<rparr>) = env s" "env (s\<lparr>ptn_nr := nr\<rparr>) = env s" "env (s\<lparr>ptn_at := pa\<rparr>) = env s"
  by (simp_all add: env_def set_sema_def set_ch_def)

lemma handlers_env: "env (fold ide_handler irqs s) = env s"
proof (induction irqs arbitrary: s)
  case (Cons i irqs)
  have "env (ide_handler_loop n c i s) = env s" for n c
    by (induction n c i s rule: ide_handler_loop.induct) (simp_all add: set_sema_def env_def)
  then show ?case using Cons by (simp add: ide_handler_def)
qed simp

lemma sleep_env: "env (msleep_irqs p ms s) = env s"
  by (simp add: msleep_irqs_def handlers_env split: prod.splits)

lemma sema_env: "ch_sema_down p c s = Some s' \<Longrightarrow> env s' = env s"
proof (erule ch_sema_down.raw_induct [where P = "\<lambda>p c s s'. env s' = env s", rotated])
  fix f p c s s'
  assume "\<And>p c s s'. f p c s = Some s' \<Longrightarrow> env s' = env s"
    and "(if ch_sema (ide_ch s c) \<noteq> 0 then Some (set_sema c (ch_sema (ide_ch s c) - 1) s)
      else if strikes p (hw s) then None
      else case await p (hw s) of None \<Rightarrow> None
        | Some (irqs, d) \<Rightarrow> f p c (fold ide_handler irqs (s\<lparr>hw := d\<rparr>))) = Some s'"
  then show "env s' = env s" by (auto simp: handlers_env split: if_splits option.splits prod.splits)
qed

lemma status_env: "ide_get_status p h s = (v, s') \<Longrightarrow> env s' = env s"
  by (auto simp: ide_get_status_def env_def split: prod.splits)

lemma poll_env: "poll p h busy s = Some (v, s') \<Longrightarrow> env s' = env s"
proof -
  have "env (snd r) = env s" if "poll p h busy s = Some r" for r
    using that
  proof (rule poll.raw_induct [where P = "\<lambda>p h busy s r. env (snd r) = env s", rotated])
    fix f :: "'a platform \<Rightarrow> hd_ptr \<Rightarrow> (u8 \<Rightarrow> bool) \<Rightarrow> ('a, 'b) ide_state_scheme \<Rightarrow> (u8 \<times> ('a, 'b) ide_state_scheme) option" and p h busy s r
    assume f: "\<And>p h busy s r. f p h busy s = Some r \<Longrightarrow> env (snd r) = env s"
      and r: "(case ide_get_status p h (msleep_irqs p 10 s) of (stat, s') \<Rightarrow> if busy stat then f p h busy s' else Some (stat, s')) = Some r"
    obtain v t where t: "ide_get_status p h (msleep_irqs p 10 s) = (v, t)" by fastforce
    have "env t = env s" using status_env [OF t] sleep_env by metis
    moreover have "(if busy v then f p h busy t else Some (v, t)) = Some r" using r unfolding t by simp
    ultimately show "env (snd r) = env s" using f [of p h busy t r] by (cases "busy v") auto
  qed
  then show "poll p h busy s = Some (v, s') \<Longrightarrow> env s' = env s" by fastforce
qed

lemma regs_env [simp]:
  "env (ide_set_cmd p h cmd s) = env s" "env (ide_set_lba p h lba n s) = env s" "env (ide_set_drive p h s) = env s"
  "env (ide_get_data p h dst n s) = env s" "env (ide_set_data p h src n s) = env s" "env (set_ch_mlock h t s) = env s"
  by (simp_all add: ide_set_cmd_def ide_set_lba_def ide_set_drive_def ide_get_data_def ide_set_data_def set_ch_mlock_def env_def Let_def split: prod.splits)

lemma read_loop_env: "ide_read_loop p h lba cnt k dst s = Some s' \<Longrightarrow> env s' = env s"
proof (erule ide_read_loop.raw_induct [where P = "\<lambda>p h lba cnt k q s s'. env s' = env s", rotated])
  fix f :: "'a platform \<Rightarrow> hd_ptr \<Rightarrow> u32 \<Rightarrow> u32 \<Rightarrow> u32 \<Rightarrow> ptr \<Rightarrow> ('a, 'b) ide_state_scheme \<Rightarrow> ('a, 'b) ide_state_scheme option"
    and p h lba cnt k dst s s'
  assume f: "\<And>p h lba cnt k q s s'. f p h lba cnt k q s = Some s' \<Longrightarrow> env s' = env s"
    and r: "(if k < cnt then
      let cnt_each = chunk cnt k
      in do {
        s1 \<leftarrow> ch_sema_down p (hd_ch (hd_of h s)) (ide_set_cmd p h CMD_READ_SEC (ide_set_lba p h lba cnt_each s));
        (stat, s2) \<leftarrow> poll p h not_ready s1;
        f p h lba cnt (k + cnt_each) (dst + cnt_each * SECTOR_SIZE) (ide_get_data p h dst cnt_each s2)
      }
      else Some s) = Some s'"
  show "env s' = env s"
  proof (cases "k < cnt")
    case True
    then obtain s1 v s2 where a: "ch_sema_down p (hd_ch (hd_of h s)) (ide_set_cmd p h CMD_READ_SEC (ide_set_lba p h lba (chunk cnt k) s)) = Some s1"
        "poll p h not_ready s1 = Some (v, s2)" "f p h lba cnt (k + chunk cnt k) (dst + chunk cnt k * SECTOR_SIZE) (ide_get_data p h dst (chunk cnt k) s2) = Some s'"
      using r by (auto simp: Let_def bind_eq_Some_conv)
    show ?thesis using f [OF a(3)] sema_env [OF a(1)] poll_env [OF a(2)] by simp
  qed (use r in simp)
qed

lemma write_loop_env: "ide_write_loop p h lba cnt k src s = Some s' \<Longrightarrow> env s' = env s"
proof (erule ide_write_loop.raw_induct [where P = "\<lambda>p h lba cnt k q s s'. env s' = env s", rotated])
  fix f :: "'a platform \<Rightarrow> hd_ptr \<Rightarrow> u32 \<Rightarrow> u32 \<Rightarrow> u32 \<Rightarrow> ptr \<Rightarrow> ('a, 'b) ide_state_scheme \<Rightarrow> ('a, 'b) ide_state_scheme option"
    and p h lba cnt k src s s'
  assume f: "\<And>p h lba cnt k q s s'. f p h lba cnt k q s = Some s' \<Longrightarrow> env s' = env s"
    and r: "(if k < cnt then
      let cnt_each = chunk cnt k
      in do {
        (stat, s1) \<leftarrow> poll p h not_ready (ide_set_cmd p h CMD_WRITE_SEC (ide_set_lba p h lba cnt_each s));
        s2 \<leftarrow> ch_sema_down p (hd_ch (hd_of h s)) (ide_set_data p h src cnt_each s1);
        f p h lba cnt (k + cnt_each) (src + cnt_each * SECTOR_SIZE) s2
      }
      else Some s) = Some s'"
  show "env s' = env s"
  proof (cases "k < cnt")
    case True
    then obtain v s1 s2 where a: "poll p h not_ready (ide_set_cmd p h CMD_WRITE_SEC (ide_set_lba p h lba (chunk cnt k) s)) = Some (v, s1)"
        "ch_sema_down p (hd_ch (hd_of h s)) (ide_set_data p h src (chunk cnt k) s1) = Some s2"
        "f p h lba cnt (k + chunk cnt k) (src + chunk cnt k * SECTOR_SIZE) s2 = Some s'"
      using r by (auto simp: Let_def bind_eq_Some_conv)
    show ?thesis using f [OF a(3)] poll_env [OF a(1)] sema_env [OF a(2)] by simp
  qed (use r in simp)
qed

lemma transfer_env:
  "ide_read p h lba dst cnt s = Inr s' \<Longrightarrow> env s' = env s" "ide_write p h lba src cnt s = Inr s' \<Longrightarrow> env s' = env s"
  by (auto simp: ide_read_def ide_write_def with_ch_lock_def split: if_splits option.splits dest!: read_loop_env write_loop_env)

lemma heap_env: "malloc_st sz s = Inr (x, s') \<Longrightarrow> env s' = env s" "free_st x s = Inr s' \<Longrightarrow> env s' = env s"
  by (auto simp: malloc_st_def free_st_def env_def rbind_Inr_iff dest!: malloc_cur free_cur)

lemma state_env [simp]: "env (on_mem g s) = env s" "env (set_ptn x h s) = env s" "env (mount_base x sb t) = env t"
  "env (clear_static q n s) = env s"
  by (simp_all add: clear_static_def on_mem_def set_ptn_def mount_base_def env_def Let_def)

lemma format_env: "fs_format p sb x s = Inr s' \<Longrightarrow> env s' = env s"
  by (auto simp: fs_format_def Let_def rbind_Inr_iff dest!: transfer_env heap_env)

lemma mount_env: "fs_mount p x s = Inr s' \<Longrightarrow> env s' = env s"
  by (auto simp: fs_mount_def mount_inodes_def mount_blocks_def add_to_root_def Let_def rbind_Inr_iff split: if_splits
    dest!: transfer_env heap_env)

lemma init_loop_env: "fs_init_loop n p sb buf e s = Inr s' \<Longrightarrow> env s' = env s"
proof (induction n arbitrary: e s)
  case (Suc n)
  show ?case
  proof (cases "e = list_tail (ptn_list_at p)")
    case False
    let ?x = "elem2entry (ptn_tag 0) e"
    obtain s1 s2 s3 where a: "ide_read p (ptn_hd (ptn_at s ?x)) (start_lba (ptn_at s ?x) + 1) buf 1 s = Inr s1"
        "(if FS_MAGIC \<noteq> sb_magic (get_super (bytes_in s1) buf) then fs_format p sb ?x s1 else Inr s1) = Inr s2"
        "fs_mount p ?x s2 = Inr s3" "fs_init_loop n p sb buf (nxt (ptn_nodes s3 e)) s3 = Inr s'"
      using Suc.prems False by (auto simp: Let_def rbind_Inr_iff)
    have "env s2 = env s1" using a(2) format_env by (auto split: if_splits)
    then show ?thesis using transfer_env(1) [OF a(1)] mount_env [OF a(3)] Suc.IH [OF a(4)] by simp
  qed (use Suc.prems in simp)
qed simp

lemma fs_init_env: "fs_init n p rb sb s = Inr s' \<Longrightarrow> env s' = env s"
  by (auto simp: fs_init_def root_dir_init_def rbind_Inr_iff split: if_splits dest!: init_loop_env heap_env)


section \<open>The start of the disk driver\<close>

text \<open>\<open>ide_init\<close> registers handlers, but changes neither the running thread nor the place of the descriptors.\<close>

definition owner :: "('d, 'x) ide_state_scheme \<Rightarrow> ptr \<times> ptr" where
  "owner s = (cur_task (mm (heap s)), k_mem_block (heap s))"

lemma env_owner: "env s' = env s \<Longrightarrow> owner s' = owner s"
  by (simp add: env_def owner_def)

lemma identify_owner: "ide_get_identify p b h s = Some (ok, s') \<Longrightarrow> owner s' = owner s"
proof -
  assume a: "ide_get_identify p b h s = Some (ok, s')"
  let ?s1 = "s\<lparr>heap := (heap s)\<lparr>hbytes := memset (hbytes (heap s)) b 0 512\<rparr>\<rparr>"
  obtain v s2 where p: "poll p h (\<lambda>stat. stat AND STAT_BSY \<noteq> 0) (ide_set_cmd p h CMD_IDENTIFY (ide_set_drive p h ?s1)) = Some (v, s2)"
      "(if 0 = v then Some (False, s2) else do { s3 \<leftarrow> ch_sema_down p (hd_ch (hd_of h s2)) s2; Some (True, ide_get_data p h b 1 s3) }) = Some (ok, s')"
    using a by (auto simp: ide_get_identify_def Let_def bind_eq_Some_conv)
  have "env s2 = env s" using poll_env [OF p(1)] by simp (simp add: env_def)
  then have "owner s2 = owner s" by (rule env_owner)
  moreover have "env s' = env s2" using p(2) by (auto split: if_splits simp: bind_eq_Some_conv dest!: sema_env)
  then have "owner s' = owner s2" by (rule env_owner)
  ultimately show "owner s' = owner s" by simp
qed

lemma record_owner: "record_ptn p h b0 ofs bs i s = Inr s' \<Longrightarrow> owner s' = owner s"
proof -
  assume a: "record_ptn p h b0 ofs bs i s = Inr s'"
  then obtain x hp where m: "sys_malloc sizeof_ide_ptn (heap s) = Inr (x, hp)" by (auto simp: record_ptn_def rbind_Inr_iff)
  have "heap s' = hp" using a unfolding record_ptn_def m rbind_simps prod.case Let_def by (cases "b0 = 0") auto
  then show "owner s' = owner s" using malloc_cur [OF m] by (simp add: owner_def)
qed

lemma ptable_owner:
  assumes "\<And>b c s s'. rescan b c s = Inr s' \<Longrightarrow> owner s' = owner s"
  shows "ptable_loop p rescan h b0 ofs bs xs s = Inr s' \<Longrightarrow> owner s' = owner s"
proof (induction xs arbitrary: s)
  case (Cons i xs)
  have nr: "owner (s\<lparr>ptn_nr := 5\<rparr>) = owner s" by (simp add: owner_def)
  consider (skip) "ptable_loop p rescan h b0 ofs bs xs s = Inr s'"
    | (step) s1 where "ptable_loop p rescan h b0 ofs bs xs s1 = Inr s'" "owner s1 = owner s"
  proof -
    have sub: "owner s1 = owner s" if "rescan b c (s\<lparr>ptn_nr := 5\<rparr>) = Inr s1 \<or> rescan b c s = Inr s1 \<or> record_ptn p h b0 ofs bs i s = Inr s1" for b c s1
      using that assms nr record_owner by metis
    show thesis using Cons.prems skip step sub by (auto simp: rbind_Inr_iff split: if_splits)
  qed
  then show ?case using Cons.IH by cases auto
qed simp

lemma partition_owner: "ide_get_partition n p h b0 ofs s = Inr s' \<Longrightarrow> owner s' = owner s"
proof (induction n arbitrary: b0 ofs s s')
  case (Suc n)
  then obtain bs hp s1 s2 hp' where a: "sys_malloc sizeof_boot_sector (heap s) = Inr (bs, hp)"
      "ide_read p h (b0 + ofs) bs 1 (s\<lparr>heap := hp\<rparr>) = Inr s1" "ptable_loop p (ide_get_partition n p h) h b0 ofs bs [0..<4] s1 = Inr s2"
      "sys_free bs (heap s2) = Inr hp'" "s' = s2\<lparr>heap := hp'\<rparr>"
    by (auto simp: rbind_Inr_iff)
  have "owner s1 = owner s" using transfer_env(1) [OF a(2)] malloc_cur [OF a(1)] by (simp add: env_def owner_def)
  moreover have "owner s2 = owner s1" by (rule ptable_owner [OF Suc.IH a(3)])
  ultimately show ?case using free_cur [OF a(4)] a(5) by (simp add: owner_def)
qed simp

lemma probe_owner: "probe_hd n p b c d s = Inr s' \<Longrightarrow> owner s' = owner s"
proof -
  assume a: "probe_hd n p b c d s = Inr s'"
  have f: "owner (set_hd x g t) = owner t" for x g and t :: "('a, 'b) ide_state_scheme" by (simp add: owner_def)
  show "owner s' = owner s"
    using a by (auto simp: probe_hd_def Let_def f split: option.splits if_splits dest!: identify_owner partition_owner)
qed

lemma probe_ch_owner: "probe_ch n p b c s = Inr s' \<Longrightarrow> owner s' = owner s"
  by (auto simp: probe_ch_def Let_def rbind_Inr_iff dest!: probe_owner) (simp add: owner_def set_ch_def)

lemma ide_init_owner: "ide_init n p b s = Inr s' \<Longrightarrow> owner s' = owner s"
  by (auto simp: ide_init_def ide_ch_init_def Let_def rbind_Inr_iff dest!: probe_ch_owner) (simp add: owner_def set_ch_def)

end
