(* ===== verification/KBoot.thy ===== *)
theory KBoot
  imports KEnv
begin

text \<open>
  The storage stack from probe to root directory: the start of the disk driver (\<open>ide_init\<close>) followed by that of the
  file system (\<open>fs_init\<close>), the two operations that meet in the list of partitions.
\<close>

section \<open>From the list to the start of the file system\<close>

lemma dseg_chain: "dseg h a xs b \<Longrightarrow> chain h (nxt (h a)) xs b"
  by (induction xs arbitrary: a) auto

lemma live_apart:
  assumes "heap_rep L hp" and "(x, k) \<in> L" and "(y, k') \<in> L" and "i < k" and "j < k'" and "x + of_nat i = y + of_nat j"
  shows "x = y \<and> i = j"
proof -
  have k: "k < 2 ^ 32" "k' < 2 ^ 32" using heap.sizes [OF assms(1,2)] heap.sizes [OF assms(1,3)] by simp_all
  have "in_range x (of_nat k) (x + of_nat i)" "in_range y (of_nat k') (y + of_nat j)"
    using assms(4,5) k by (simp_all add: in_range_def u32_less_of_nat unat_of_nat_less)
  note this [unfolded assms(6) [symmetric]]
  from heap.disjoint [OF assms(1-3) this] have "x = y" by simp
  moreover have "i = j" using assms(4-6) k \<open>x = y\<close> of_nat_u32_inj [of i j] by simp
  ultimately show ?thesis by simp
qed

text \<open>A list that the scan made is one \<open>fs_init\<close> can walk.\<close>

lemma parts_apart:
  assumes "parts_at pl L s ps" and "heap_rep L (heap s)"
    and "\<forall>x \<in> set ps. \<forall>y \<in> set ps. x \<noteq> y \<longrightarrow> extent (ptn_at s x) \<inter> extent (ptn_at s y) = {}"
  shows "chain (ptn_nodes s) (nxt (ptn_nodes s pl)) (map ptn_tag ps) (list_tail pl)" and "list_tail pl \<notin> ptn_tag ` set ps"
    and "apart (ptn_at s) ps"
proof -
  have d: "dseg (ptn_nodes s) pl (map ptn_tag ps) (list_tail pl)" "distinct (pl # list_tail pl # map ptn_tag ps)"
    and live: "\<forall>x \<in> set ps. \<exists>k\<ge>108. (x, k) \<in> L"
    using assms(1) by (simp_all add: parts_at_def dlist_def)
  show "chain (ptn_nodes s) (nxt (ptn_nodes s pl)) (map ptn_tag ps) (list_tail pl)" by (rule dseg_chain [OF d(1)])
  show "list_tail pl \<notin> ptn_tag ` set ps" using d(2) by simp
  have "distinct ps" using d(2) by (simp add: distinct_map)
  moreover have "ptn_tag y \<noteq> list_head (ptn_open_inodes x) \<and> ptn_tag y \<noteq> list_tail (ptn_open_inodes x)"
    if xy: "x \<in> set ps" "y \<in> set ps" for x y
  proof -
    obtain k k' where k: "108 \<le> k" "(y, k) \<in> L" "108 \<le> k'" "(x, k') \<in> L" using live xy by blast
    have "y + of_nat 20 \<noteq> x + of_nat 68" "y + of_nat 20 \<noteq> x + of_nat 76"
      using live_apart [OF assms(2) k(2,4), of 20 68] live_apart [OF assms(2) k(2,4), of 20 76] k(1,3) by auto
    then show ?thesis by (simp add: ptn_tag_def list_head_def list_tail_def ptn_open_inodes_def add.assoc)
  qed
  ultimately show "apart (ptn_at s) ps" using assms(3) by (simp add: apart_def)
qed

text \<open>The nodes of the list are on the heap, away from the static data.\<close>

lemma parts_high:
  assumes "parts_at pl L s ps" and "heap_rep L hp" and "x \<in> set ps" and "unat rb + 4096 \<le> 0xC0076000"
  shows "\<not> in_range rb 4096 (ptn_tag x)"
proof
  assume r: "in_range rb 4096 (ptn_tag x)"
  obtain k where k: "108 \<le> k" "(x, k) \<in> L" using assms(1,3) by (auto simp: parts_at_def)
  have "k < 2 ^ 32" using heap.sizes [OF assms(2) k(2)] by simp
  then have "in_range x (of_nat k) (x + of_nat 20)" using k(1) by (simp add: in_range_def u32_less_of_nat)
  then have "0xC0100000 \<le> unat (ptn_tag x)" using live_high [OF assms(2) k(2)] by (simp add: ptn_tag_def)
  moreover have "unat (ptn_tag x) < unat rb + 4096" using r in_range_unat [of rb 4096 "ptn_tag x"] assms(4) by simp
  ultimately show False using assms(4) by simp
qed

section \<open>From the drive to the root directory\<close>

lemma storage_run:
  fixes s :: "ata fs_state"
  assumes drive: "one_drive f (hw s)" "unat pl + 16 \<le> 0xC0100000"
    and sc: "scan depth f 0 0 (ptn_nr s) = Some (rs, nr', k)" "depth \<le> fuel" and len: "length rs < fuel'" "length rs \<le> 8"
    and rep: "heap_rep L (heap s)"
    and room: "in_budget (pages k rs + (cost 72 + (cost 512 + sum_list (map (\<lambda>r. ptn_price (disk_part r)) rs)))) (heap s)"
      "pend (hw s) + 1 + (k + (sum_list (map (\<lambda>r. ptn_traffic (disk_part r)) rs) + n)) < 2 ^ 32"
    and ok: "\<forall>r \<in> set rs. sound_ptn (0, 0) (disk_part r) \<and> blank_or_ours f (disk_part r)"
    and ap: "\<forall>i<length rs. \<forall>j<length rs. i \<noteq> j \<longrightarrow> extent (disk_part (rs ! i)) \<inter> extent (disk_part (rs ! j)) = {}"
    and rb: "0xC0000000 \<le> unat rb" "unat rb + 4096 \<le> 0xC0076000" "on_stack sb_at" "spares rb (heap s)" "\<not> in_range rb 4096 pl"
    and calm: "gap (hw s) = 0" "lingers (heap s)"
  obtains s1 s' f' where "ide_init fuel (ata_platform pl ih) id_info s = Inr s1" and "fs_init fuel' (ata_platform pl ih) rb sb_at s1 = Inr s'"
    and "same_gates (intr s) (intr s1) \<and> (\<forall>c<4. intr_func (intr s1) (unat (irq_at c)) = ih)"
    and "i_size (bytes_in s') (root_dir_inode s') = of_nat (2 + length rs) * sizeof_dirent \<and>
    (\<forall>j<length rs. super_on f' (disk_part (rs ! j)) = format_super (disk_part (rs ! j)) \<and> prepared f (disk_part (rs ! j)) f' \<and>
       dir_holds (bytes_in s') rb (2 + j) (ptn_name (disk_part (rs ! j))) (inode_max s + of_nat j * 4096 + 1)) \<and>
    (\<forall>l. (\<forall>r \<in> set rs. l \<notin> extent (disk_part r)) \<longrightarrow> f' l = f l) \<and> disk_ready 256 n (0, 0) f' s'"
proof -
  obtain ps L1 s1 where g: "ide_init fuel (ata_platform pl ih) id_info s = Inr s1"
      "settled 256 pl ih L1 f (sum_list (map (\<lambda>r. ptn_traffic (disk_part r)) rs) + n)
         (cost 72 + (cost 512 + sum_list (map (\<lambda>r. ptn_price (disk_part r)) rs))) ps
         {(0, 1), (1, 0), (1, 1), (2, 0), (2, 1), (3, 0), (3, 1)} {0, 1, 2, 3} s1"
      "map (ptn_at s1) ps = map disk_part rs" "ide_state.more s1 = ide_state.more s" "same_gates (intr s) (intr s1)"
    by (rule ide_init_run [where id_info = id_info and ih = ih, OF drive(1) rep room drive(2) sc zero_less_numeral disjI2 [OF calm(1)] calm(2)])
  note m = g(3)
  have lp: "length ps = length rs" using arg_cong [OF m, of length] by simp
  have nth: "ptn_at s1 (ps ! j) = disk_part (rs ! j)" if "j < length rs" for j using arg_cong [OF m, of "\<lambda>xs. xs ! j"] that lp by simp
  have imx: "inode_max s1 = inode_max s" using more_root [of s1 s] g(4) by simp
  have all: "(\<forall>x \<in> set ps. Q (ptn_at s1 x)) \<longleftrightarrow> (\<forall>r \<in> set rs. Q (disk_part r))" for Q
    using arg_cong [OF m, of "\<lambda>xs. \<forall>x \<in> set xs. Q x"] by simp
  have sums: "map (\<lambda>x. G (ptn_at s1 x)) ps = map (\<lambda>r. G (disk_part r)) rs" for G :: "ide_ptn \<Rightarrow> nat"
    using arg_cong [OF m, of "map G"] by (simp add: comp_def)
  have ex: "\<forall>x \<in> set ps. \<forall>y \<in> set ps. x \<noteq> y \<longrightarrow> extent (ptn_at s1 x) \<inter> extent (ptn_at s1 y) = {}"
    using ap nth lp by (metis in_set_conv_nth)
  have w1: "working 256 L1 (0, 0) f (sum_list (map (\<lambda>x. ptn_traffic (ptn_at s1 x)) ps) + n)
      (cost 72 + (cost 512 + sum_list (map (\<lambda>x. ptn_price (ptn_at s1 x)) ps))) s1" and at: "parts_at pl L1 s1 ps"
    using g(2) unfolding sums settled_def by blast+
  have rep1: "heap_rep L1 (heap s1)" using w1 by (simp add: working_def)
  have off: "spares rb (heap s1)" using ide_init_owner [OF g(1)] rb(4) by (simp add: owner_def spares_def)
  have far: "\<forall>q \<in> insert pl (ptn_tag ` set ps). \<not> in_range rb 4096 q"
    using parts_high [OF at rep1 _ rb(2)] rb(5) by auto
  note p = parts_apart [OF at rep1 ex]
  have ok1: "\<forall>x \<in> set ps. sound_ptn (0, 0) (ptn_at s1 x) \<and> blank_or_ours f (ptn_at s1 x)"
    using all [of "\<lambda>p. sound_ptn (0, 0) p \<and> blank_or_ours f p"] ok by simp
  have len1: "length ps < fuel'" "length ps \<le> 8" using len lp by simp_all
  from fs_init_mounted [where ih = ih, OF w1 len1(1) p(1,2) ok1 p(3) len1(2) rb(1-3) off far]
  obtain s' f' where i: "fs_init fuel' (ata_platform pl ih) rb sb_at s1 = Inr s'" "disk_ready 256 n (0, 0) f' s'"
      "i_size (bytes_in s') (root_dir_inode s') = of_nat (2 + length ps) * sizeof_dirent"
      "\<forall>j<length ps. super_on f' (ptn_at s1 (ps ! j)) = format_super (ptn_at s1 (ps ! j)) \<and> prepared f (ptn_at s1 (ps ! j)) f' \<and>
       dir_holds (bytes_in s') rb (2 + j) (ptn_name (ptn_at s1 (ps ! j))) (inode_max s1 + of_nat j * 4096 + 1)"
      "\<forall>l. (\<forall>x \<in> set ps. l \<notin> extent (ptn_at s1 x)) \<longrightarrow> f' l = f l" by blast
  have out: "(\<forall>x \<in> set ps. l \<notin> extent (ptn_at s1 x)) \<longleftrightarrow> (\<forall>r \<in> set rs. l \<notin> extent (disk_part r))" for l
    using all [of "\<lambda>p. l \<notin> extent p"] .
  have gates: "same_gates (intr s) (intr s1) \<and> (\<forall>c<4. intr_func (intr s1) (unat (irq_at c)) = ih)"
    using g(2,5) by (auto simp: settled_def four)
  show thesis by (rule that [of s1 s' f']) (use g(1) i nth lp imx gates in \<open>unfold out, simp_all\<close>)
qed


section \<open>Properties\<close>

text \<open>From the power-on state of the disk to the root directory. On a machine with room and one drive, whose tables
  describe at most eight partitions of disjoint sectors, each blank or formatted before, the two calls of the start-up
  return, \<open>ide_init\<close> and then \<open>fs_init\<close>; each described partition that did not carry a file system holds a complete empty one, the others are as before,
  and each is listed in the root
  directory under the name made of \<open>sda\<close> and its number, and no sector outside the partitions has changed.\<close>

theorem storage_boot:
  fixes s :: "ata fs_state"
  assumes drive: "one_drive f (hw s)" "unat pl + 16 \<le> 0xC0100000"
    and sc: "scan depth f 0 0 (ptn_nr s) = Some (rs, nr', k)" "depth \<le> fuel" and len: "length rs < fuel'" "length rs \<le> 8"
    and rep: "heap_rep L (heap s)"
    and room: "in_budget (pages k rs + (cost 72 + (cost 512 + sum_list (map (\<lambda>r. ptn_price (disk_part r)) rs)))) (heap s)"
      "pend (hw s) + 1 + (k + (sum_list (map (\<lambda>r. ptn_traffic (disk_part r)) rs) + n)) < 2 ^ 32"
    and ok: "\<forall>r \<in> set rs. sound_ptn (0, 0) (disk_part r) \<and> blank_or_ours f (disk_part r)"
    and ap: "\<forall>i<length rs. \<forall>j<length rs. i \<noteq> j \<longrightarrow> extent (disk_part (rs ! i)) \<inter> extent (disk_part (rs ! j)) = {}"
    and rb: "0xC0000000 \<le> unat rb" "unat rb + 4096 \<le> 0xC0076000" "on_stack sb_at" "spares rb (heap s)" "\<not> in_range rb 4096 pl"
    and calm: "gap (hw s) = 0" "lingers (heap s)"
  shows "\<exists>s1 s' f'. ide_init fuel (ata_platform pl ih) id_info s = Inr s1 \<and> fs_init fuel' (ata_platform pl ih) rb sb_at s1 = Inr s' \<and>
    i_size (bytes_in s') (root_dir_inode s') = of_nat (2 + length rs) * sizeof_dirent \<and>
    (\<forall>j<length rs. super_on f' (disk_part (rs ! j)) = format_super (disk_part (rs ! j)) \<and> prepared f (disk_part (rs ! j)) f' \<and>
       dir_holds (bytes_in s') rb (2 + j) (ptn_name (disk_part (rs ! j))) (inode_max s + of_nat j * 4096 + 1)) \<and>
    (\<forall>l. (\<forall>r \<in> set rs. l \<notin> extent (disk_part r)) \<longrightarrow> f' l = f l) \<and> disk_ready 256 n (0, 0) f' s'"
  by (rule storage_run [where id_info = id_info and ih = ih, OF assms]) blast


lemma thousand_sound:
  assumes "sec_cnt p = 1000" and "unat (start_lba p) + 1000 \<le> 2 ^ 28" and "ptn_hd p = h" and "bits (blk_btmp p) = NULL" and "inode_base p = 0"
    and "length (ptn_name p) < 16"
  shows "sound_ptn h p" and "ptn_traffic p = 9" and "ptn_price p = 4"
proof -
  have "unat (sb_blk_cnt (format_super p)) = 60" using format_sizes(2) [of p] assms(1) by (simp add: blk_sectors_def)
  moreover have "blocks p = 1" using assms(1) by (simp add: blk_sectors_def)
  ultimately show "sound_ptn h p" "ptn_traffic p = 9" "ptn_price p = 4"
    using assms by (simp_all add: sound_ptn_def ptn_traffic_def ptn_price_def cost_def)
qed

lemma demo_names:
  "formatted ptn_format [Str [0x73, 0x64, 0x61], Num 1] = [0x73, 0x64, 0x61, 0x5F, 0x31]"
  "formatted ptn_format [Str [0x73, 0x64, 0x61], Num 5] = [0x73, 0x64, 0x61, 0x5F, 0x35]"
  "formatted ptn_format [Str [0x73, 0x64, 0x61], Num 6] = [0x73, 0x64, 0x61, 0x5F, 0x36]"
  by (simp_all add: formatted_def ptn_format_def piece_def decimal_def digits.simps digit_def word_sless_alt)

lemma zero_blank: "f (unat (start_lba p) + 1) = replicate 512 0 \<Longrightarrow> blank_or_ours f p"
proof -
  assume a: "f (unat (start_lba p) + 1) = replicate 512 0"
  have "load32 (sector_mem (replicate 512 0)) 0 = 0" by (simp add: load32_def sector_mem_def)
  then show ?thesis using a by (simp add: blank_or_ours_def get_super_def FS_MAGIC_def)
qed

definition demo_parts :: "part list" where
  "demo_parts = [(1, 100, 1000), (5, 2063, 1000), (6, 4063, 1000)]"

lemma demo_parts_disk:
  "disk_part (1, 100, 1000) = zero_ptn\<lparr>ptn_name := [0x73, 0x64, 0x61, 0x5F, 0x31], start_lba := 100, sec_cnt := 1000\<rparr>"
  "disk_part (5, 2063, 1000) = zero_ptn\<lparr>ptn_name := [0x73, 0x64, 0x61, 0x5F, 0x35], start_lba := 2063, sec_cnt := 1000\<rparr>"
  "disk_part (6, 4063, 1000) = zero_ptn\<lparr>ptn_name := [0x73, 0x64, 0x61, 0x5F, 0x36], start_lba := 4063, sec_cnt := 1000\<rparr>"
  by (simp_all add: disk_part_def demo_names)

lemma demo_parts_each:
  "r \<in> set demo_parts \<Longrightarrow> sound_ptn (0, 0) (disk_part r) \<and> ptn_traffic (disk_part r) = 9 \<and> ptn_price (disk_part r) = 4"
proof -
  assume r: "r \<in> set demo_parts"
  have "sec_cnt (disk_part r) = 1000" "unat (start_lba (disk_part r)) + 1000 \<le> 2 ^ 28" "ptn_hd (disk_part r) = (0, 0)"
    "bits (blk_btmp (disk_part r)) = NULL" "inode_base (disk_part r) = NULL" "length (ptn_name (disk_part r)) < 16"
    using r by (auto simp: demo_parts_def demo_parts_disk zero_ptn_def)
  from thousand_sound [OF this] show ?thesis by simp
qed

lemma demo_parts_sums:
  "sum_list (map (\<lambda>r. ptn_price (disk_part r)) demo_parts) = 12" "sum_list (map (\<lambda>r. ptn_traffic (disk_part r)) demo_parts) = 27"
  "pages 3 demo_parts + (cost 72 + (cost 512 + 12)) \<le> 3839"
proof -
  show "sum_list (map (\<lambda>r. ptn_price (disk_part r)) demo_parts) = 12" "sum_list (map (\<lambda>r. ptn_traffic (disk_part r)) demo_parts) = 27"
    using demo_parts_each by (simp_all add: demo_parts_def)
  show "pages 3 demo_parts + (cost 72 + (cost 512 + 12)) \<le> 3839"
    by (simp add: pages_def cost_def sizeof_boot_sector_def sizeof_ide_ptn_def demo_parts_def)
qed

lemma demo_parts_ok: "\<forall>r \<in> set demo_parts. sound_ptn (0, 0) (disk_part r) \<and> blank_or_ours parted (disk_part r)"
proof
  fix r assume r: "r \<in> set demo_parts"
  then have "blank_or_ours parted (disk_part r)" by (intro zero_blank) (auto simp: demo_parts_def demo_parts_disk parted_def)
  then show "sound_ptn (0, 0) (disk_part r) \<and> blank_or_ours parted (disk_part r)" using demo_parts_each [OF r] by blast
qed

lemma demo_parts_apart:
  "\<forall>i<length demo_parts. \<forall>j<length demo_parts. i \<noteq> j \<longrightarrow> extent (disk_part (demo_parts ! i)) \<inter> extent (disk_part (demo_parts ! j)) = {}"
proof (intro allI impI)
  fix i j assume a: "i < length demo_parts" "j < length demo_parts" "i \<noteq> j"
  then have "i = 0 \<or> i = 1 \<or> i = 2" "j = 0 \<or> j = 1 \<or> j = 2" by (auto simp: demo_parts_def)
  then show "extent (disk_part (demo_parts ! i)) \<inter> extent (disk_part (demo_parts ! j)) = {}"
    using a(3) by (elim disjE) (simp_all add: demo_parts_def demo_parts_disk extent_def)
qed

lemma demo_scan: "scan 3 parted 0 0 0 = Some (demo_parts, 7, 3)"
  using parted_scan by (simp add: demo_parts_def)

lemma demo_root_blk: "0xC0000000 \<le> unat (0xC0010000 :: ptr)" "unat (0xC0010000 :: ptr) + 4096 \<le> 0xC0076000" "on_stack 0x9E000"
    "\<not> in_range (0xC0010000 :: ptr) 4096 0x2000"
  by (simp_all add: on_stack_def in_range_def)

lemma demo_parts_length: "length demo_parts < 4" "length demo_parts \<le> 8"
  by (simp_all add: demo_parts_def)

theorem storage_boot_witness:
  "\<exists>s1 s f. ide_init 3 (ata_platform 0x2000 0) 0x9E000 (demo_probe parted) = Inr s1 \<and>
     fs_init 4 (ata_platform 0x2000 0) 0xC0010000 0x9E000 s1 = Inr s \<and> disk_ready 256 0 (0, 0) f s \<and> f 0 = parted 0 \<and>
     dir_holds (bytes_in s) 0xC0010000 2 [0x73, 0x64, 0x61, 0x5F, 0x31] 1 \<and> dir_holds (bytes_in s) 0xC0010000 4 [0x73, 0x64, 0x61, 0x5F, 0x36] 8193"
proof -
  let ?s = "demo_probe parted"
  note d = demo_probe_ready [of parted, OF parted_length]
  have sc: "scan 3 parted 0 0 (ptn_nr ?s) = Some (demo_parts, 7, 3)" using demo_scan by (simp add: d)
  have room: "in_budget (pages 3 demo_parts + (cost 72 + (cost 512 + sum_list (map (\<lambda>r. ptn_price (disk_part r)) demo_parts)))) (heap ?s)"
    "pend (hw ?s) + 1 + (3 + (sum_list (map (\<lambda>r. ptn_traffic (disk_part r)) demo_parts) + 0)) < 2 ^ 32"
    using demo_budget demo_parts_sums(3) unfolding demo_parts_sums(1,2) by (simp_all add: d)
  have pl: "unat (0x2000 :: ptr) + 16 \<le> 0xC0100000" by simp
  have rep: "heap_rep {} (heap ?s)" "spares 0xC0010000 (heap ?s)" using demo_heap_rep demo_spares by (simp_all add: d)
  from storage_boot [where id_info = "0x9E000" and ih = 0, OF d(1) pl sc order_refl demo_parts_length rep(1) room demo_parts_ok
      demo_parts_apart demo_root_blk(1-3) rep(2) demo_root_blk(4) d(6,7)]
  obtain s1 s f where r: "ide_init 3 (ata_platform 0x2000 0) 0x9E000 ?s = Inr s1"
      "fs_init 4 (ata_platform 0x2000 0) 0xC0010000 0x9E000 s1 = Inr s"
    and dd: "\<forall>j<length demo_parts. dir_holds (bytes_in s) 0xC0010000 (2 + j) (ptn_name (disk_part (demo_parts ! j))) (inode_max ?s + of_nat j * 4096 + 1)"
    and f: "\<forall>l. (\<forall>r \<in> set demo_parts. l \<notin> extent (disk_part r)) \<longrightarrow> f l = parted l" "disk_ready 256 0 (0, 0) f s" by blast
  have "f 0 = parted 0" using f(1) by (auto simp: demo_parts_def demo_parts_disk extent_def)
  moreover have "dir_holds (bytes_in s) 0xC0010000 2 [0x73, 0x64, 0x61, 0x5F, 0x31] 1" "dir_holds (bytes_in s) 0xC0010000 4 [0x73, 0x64, 0x61, 0x5F, 0x36] 8193"
    using dd [rule_format, of 0] dd [rule_format, of 2] by (simp_all add: demo_parts_def demo_parts_disk d(5))
  ultimately show ?thesis using r f(2) by blast
qed

end
