(* ===== verification/KThreads.thy ===== *)
theory KThreads
  imports KSched
begin

text \<open>
  The start of the threads, \<open>kthread_create\<close>, \<open>kthread_run\<close> and \<open>kthread_init\<close> of \<open>code/kernel/src/thread.c\<close>: what they
  do to the page allocator and to the lists of the scheduler, and the bodies of the two functions a thread starts in,
  \<open>kernel_thread\<close> and \<open>idle_thread\<close>.
\<close>

section \<open>Where threads start\<close>

text \<open>\<open>kernel_thread\<close>: \<open>call\<close> is the call of the function at \<open>fn\<close>. When that returns, so does \<open>kernel_thread\<close>, to whatever
  the word above its entry in the frame holds.\<close>

definition kernel_thread :: "(u32 \<Rightarrow> u32 \<Rightarrow> sched_state \<Rightarrow> stop + sched_state) \<Rightarrow> u32 \<Rightarrow> u32 \<Rightarrow> sched_state \<Rightarrow> stop + sched_state" where
  "kernel_thread call fn fn_arg s = call fn fn_arg (s\<lparr>intr_on := True\<rparr>)"

text \<open>One round of the loop of \<open>idle_thread\<close>: it blocks and, once it runs again (at once when no other thread is ready,
  later otherwise), halts with interrupts on.\<close>

definition idle_halt :: "sched_state \<Rightarrow> sched_state" where
  "idle_halt s = s\<lparr>intr_on := True\<rparr>"

definition idle_thread :: "sched_state \<Rightarrow> sched_state" where
  "idle_thread s =
     (let s1 = kthread_block TASK_BLOCKED s in if kthread_current s1 = kthread_current s then idle_halt s1 else s1)"

text \<open>Alone, the idle thread goes on running; with others ready it makes way for the first of them.\<close>

lemma idle_thread_ok:
  assumes "running_ok s R A" and "kthread_current s = g_idle_task s"
  shows "running_ok (idle_thread s) (if R = [] then [] else tl R) A"
    and "kthread_current (idle_thread s) = (if R = [] then g_idle_task s else hd R)"
proof -
  have b: "blocked_status TASK_BLOCKED" by (simp add: blocked_status_def)
  let ?s = "kthread_block TASK_BLOCKED s"
  have k: "running_ok ?s (if R = [] then [] else tl R) A" "kthread_current ?s = (if R = [] then g_idle_task s else hd R)"
    using kthread_block_ok [OF assms(1), of TASK_BLOCKED] b by simp_all
  have h: "running_ok (idle_halt ?s) Q A = running_ok ?s Q A" "kthread_current (idle_halt ?s) = kthread_current ?s" for Q
    by (simp_all add: idle_halt_def running_ok_def sched_ok_def links_ok_def others_ok_def sched_simps)
  show "running_ok (idle_thread s) (if R = [] then [] else tl R) A"
    and "kthread_current (idle_thread s) = (if R = [] then g_idle_task s else hd R)"
    using k by (auto simp: idle_thread_def Let_def h split: if_splits)
qed

section \<open>A page for a thread\<close>

text \<open>The allocator has a page: the page it will give, and a frame for it.\<close>

definition has_page :: "nat \<Rightarrow> mm_state \<Rightarrow> bool" where
  "has_page k m \<longleftrightarrow> mm_ok m \<and> first_vrun m 1 = Some k \<and> k < HEAP_PAGES \<and> 1 \<le> free_frames m"

definition page_given :: "nat \<Rightarrow> mm_state \<Rightarrow> mm_state \<Rightarrow> bool" where
  "page_given k m m' \<longleftrightarrow> mm_ok m' \<and> k_p_pool m' = k_p_pool m \<and> k_v_pool m' = k_v_pool m \<and> vpages m' = insert k (vpages m) \<and>
     (\<exists>f. f < kcap m \<and> f \<notin> pframes m \<and> pframes m' = insert f (pframes m) \<and>
       (\<forall>l<HEAP_PAGES. mapping m' l = (if l = k then Some (kframe m f) else mapping m l))) \<and> cur_task m' = cur_task m"

lemma page_one:
  assumes "has_page k m"
  obtains m' where "page_malloc 1 NULL 1 m = Inr (heap_page k, m')" and "page_given k m m'" and "\<forall>a. a \<notin> pool_bytes m \<longrightarrow> kmem m' a = kmem m a"
proof -
  have ok: "mm_ok m" and k: "first_vrun m 1 = Some k" "k < HEAP_PAGES" and fr: "1 \<le> free_frames m"
    using assms by (simp_all add: has_page_def)
  note fits = first_vrun_fits(1) [OF k(1)]
  let ?m = "v_run k 1 True m"
  obtain m' fs where a: "page_acquire K_P_POOL NULL 1 m = Inr (heap_page k, m')" "vpages m' = vpages m \<union> {k..<k + 1}" "acquired k 1 ?m m' fs"
    using page_acquire_run [OF ok _ k(1)] k(2) fr by (auto simp: min_def)
  have v: "pframes ?m = pframes m" "pool_only m ?m" using v_run_sets(2) [OF mm_okD(1) [OF ok]] v_run_only fits by simp_all
  obtain f where f: "fs = [f]" using a(3) by (auto simp: acquired_def length_Suc_conv)
  have po: "pool_only m m'" using pool_only_trans [OF v(2)] a(3) by (simp add: acquired_def)
  have "page_given k m m'"
    using a(2,3) f v(1) po unfolding page_given_def acquired_def
    by (intro conjI exI [of _ f]) (auto simp: pool_only_def)
  then show thesis using that [of m'] a(1) po by (simp add: page_malloc_def pool_only_def)
qed


section \<open>A new thread on the lists\<close>

abbreviation heads :: "sched_state \<Rightarrow> ptr set" where
  "heads s \<equiv> {task_ready_list s, list_tail (task_ready_list s), task_all_list s, list_tail (task_all_list s)}"

text \<open>The two nodes of \<open>t\<close> are no nodes of the lists.\<close>

definition new_nodes :: "sched_state \<Rightarrow> ptr list \<Rightarrow> ptr \<Rightarrow> bool" where
  "new_nodes s A t \<longleftrightarrow> {task_tag t, task_all_tag t} \<inter> (heads s \<union> task_tag ` set A \<union> task_all_tag ` set A) = {}"

lemma tags_differ: "task_tag t \<noteq> task_all_tag t"
  by (simp add: task_tag_def task_all_tag_def)

lemma kthread_run_eq:
  "nodes (kthread_run t s) = list_append (list_append (nodes s) (task_ready_list s) (task_tag t)) (task_all_list s) (task_all_tag t)"
  "task_ready_list (kthread_run t s) = task_ready_list s" "task_all_list (kthread_run t s) = task_all_list s"
  "kthread_current (kthread_run t s) = kthread_current s" "g_idle_task (kthread_run t s) = g_idle_task s"
  "g_main_task (kthread_run t s) = g_main_task s" "intr_on (kthread_run t s) = intr_on s" "mm (kthread_run t s) = mm s"
  "saved_intr (kthread_run t s) = saved_intr s" "stk (kthread_run t s) = stk s"
  "status (tasks (kthread_run t s) x) = (if x = t then TASK_READY else status (tasks s x))"
  by (simp_all add: kthread_run_def Let_def set_slice_def set_status_def on_nodes_def kthread_current_def)

lemma apart_insert: "P \<inter> Q = {} \<Longrightarrow> X \<subseteq> P \<Longrightarrow> e \<notin> Q \<Longrightarrow> (X \<union> {e}) \<inter> Q = {}"
  by blast

lemma apart_both: "P \<inter> Q = {} \<Longrightarrow> e \<notin> Q \<Longrightarrow> Y \<subseteq> Q \<Longrightarrow> (P \<union> {e}) \<inter> Y = {}"
  by blast

lemma links_run:
  assumes l: "links_ok s R A" and n: "new_nodes s A t"
  shows "links_ok (kthread_run t s) (R @ [t]) (A @ [t])"
proof -
  let ?r = "task_ready_list s" and ?a = "task_all_list s"
  let ?h1 = "list_append (nodes s) ?r (task_tag t)"
  let ?H = "{?r, list_tail ?r} \<union> task_tag ` set A" and ?L = "{?a, list_tail ?a} \<union> task_all_tag ` set A"
  note d = l [unfolded links_ok_def]
  have fresh: "task_tag t \<notin> ?H" "task_tag t \<notin> ?L" "task_all_tag t \<notin> ?H" "task_all_tag t \<notin> ?L"
    using n by (auto simp: new_nodes_def)
  have dr: "dlist (nodes s) ?r (map task_tag R)" and da: "dlist (nodes s) ?a (map task_all_tag A)" and RA: "set R \<subseteq> set A" using d by blast+
  have sep: "?H \<inter> ?L = {}" and ends: "task_tag ` set A \<inter> {?r, list_tail ?r} = {}" using d by blast+
  have out: "{?r, list_tail ?r} \<union> set (map task_tag R) \<subseteq> ?H" and L: "{?a, list_tail ?a} \<union> set (map task_all_tag A) = ?L" using RA by auto
  have "task_tag t \<notin> {?r, list_tail ?r} \<union> set (map task_tag R)" by (rule contra_subsetD [OF out fresh(1)])
  then have r1: "dlist ?h1 ?r (map task_tag R @ [task_tag t])" by (rule kl.append [OF dr])
  have "({?r, list_tail ?r} \<union> set (map task_tag R) \<union> {task_tag t}) \<inter> ({?a, list_tail ?a} \<union> set (map task_all_tag A)) = {}"
    unfolding L by (rule apart_insert [OF sep out fresh(2)])
  then have a1: "dlist ?h1 ?a (map task_all_tag A)" by (rule kl.append_frame [OF dr da])
  let ?h2 = "list_append ?h1 ?a (task_all_tag t)"
  have a2: "dlist ?h2 ?a (map task_all_tag A @ [task_all_tag t])" by (rule kl.append [OF a1]) (use fresh(4) in \<open>unfold L\<close>)
  have "?L \<inter> insert (task_tag t) ?H = {}" using sep fresh(2) by (simp add: Int_commute)
  moreover have "{?r, list_tail ?r} \<union> set (map task_tag R @ [task_tag t]) \<subseteq> insert (task_tag t) ?H" using out by auto
  ultimately have "({?a, list_tail ?a} \<union> set (map task_all_tag A) \<union> {task_all_tag t}) \<inter> ({?r, list_tail ?r} \<union> set (map task_tag R @ [task_tag t])) = {}"
    unfolding L using fresh(3) tags_differ [of t] apart_both [of ?L "insert (task_tag t) ?H" "task_all_tag t"] by simp
  then have r2: "dlist ?h2 ?r (map task_tag R @ [task_tag t])" by (rule kl.append_frame [OF a1 r1])
  have im: "{?r, list_tail ?r} \<union> task_tag ` set (A @ [t]) = insert (task_tag t) ?H"
    "{?a, list_tail ?a} \<union> task_all_tag ` set (A @ [t]) = insert (task_all_tag t) ?L" by auto
  show ?thesis
    unfolding links_ok_def kthread_run_eq im
  proof (intro conjI)
    show "dlist ?h2 ?r (map task_tag (R @ [t]))" "dlist ?h2 ?a (map task_all_tag (A @ [t]))" using r2 a2 by simp_all
    show "set (R @ [t]) \<subseteq> set (A @ [t])" using RA by auto
    show "task_tag ` set (A @ [t]) \<inter> {?r, list_tail ?r} = {}" using ends fresh(1) by auto
    show "insert (task_tag t) ?H \<inter> insert (task_all_tag t) ?L = {}"
      using sep fresh tags_differ [of t] by (simp only: Int_insert_left Int_insert_right insert_iff if_False) simp
  qed
qed

text \<open>\<open>kthread_run\<close> keeps the invariant of the scheduler: the new thread is the last of both lists.\<close>

lemma kthread_run_ok:
  assumes "sched_ok s R A" and "new_nodes s A t" and "t \<notin> set A"
  shows "sched_ok (kthread_run t s) (R @ [t]) (A @ [t])"
proof -
  have "links_ok (kthread_run t s) (R @ [t]) (A @ [t])" using assms by (intro links_run) (simp_all add: sched_ok_def)
  moreover have "others_ok (kthread_run t s) (R @ [t]) (A @ [t])" using assms(1,3) by (auto simp: sched_ok_def others_ok_def kthread_run_eq)
  moreover have "kthread_current s \<in> set A" using assms(1) by (simp add: sched_ok_def others_ok_def)
  ultimately show ?thesis using assms(1,3) by (auto simp: sched_ok_def kthread_run_eq)
qed

text \<open>Nodes outside the lists may change.\<close>

lemma links_frame:
  assumes l: "links_ok s R A" and n: "new_nodes s A t"
    and eq: "task_ready_list s' = task_ready_list s" "task_all_list s' = task_all_list s"
    and other: "\<And>r. r \<notin> {task_tag t, task_all_tag t} \<Longrightarrow> nodes s' r = nodes s r"
  shows "links_ok s' R A"
proof -
  let ?X = "{task_tag t, task_all_tag t}"
  have RA: "set R \<subseteq> set A" using l by (simp add: links_ok_def)
  have "?X \<inter> ({task_ready_list s, list_tail (task_ready_list s)} \<union> set (map task_tag R)) = {}"
    "?X \<inter> ({task_all_list s, list_tail (task_all_list s)} \<union> set (map task_all_tag A)) = {}"
    using n RA unfolding new_nodes_def by auto
  then have "dlist (nodes s') (task_ready_list s) (map task_tag R)" "dlist (nodes s') (task_all_list s) (map task_all_tag A)"
    using dlist_frame [OF links_okD(1) [OF l], of ?X "nodes s'"] dlist_frame [OF links_okD(2) [OF l], of ?X "nodes s'"] other by blast+
  then show ?thesis using l unfolding links_ok_def eq by blast
qed

section \<open>Creation\<close>

text \<open>The bitmaps of the pools lie where \<open>pool_init\<close> puts them.\<close>

definition pools_placed :: "mm_state \<Rightarrow> bool" where
  "pools_placed m \<longleftrightarrow> (\<forall>a \<in> pool_bytes m. 0xC0076000 \<le> unat a \<and> unat a < 0xC009E000)"

lemma page_given_kmem:
  assumes "page_given k m m'" and "\<And>a. a \<in> pool_bytes m \<Longrightarrow> x a = kmem m' a"
  shows "page_given k m (m'\<lparr>kmem := x\<rparr>)"
proof -
  have "pool_bytes m' = pool_bytes m" using assms(1) by (simp add: page_given_def pool_bytes_def)
  then have "mm_ok (m'\<lparr>kmem := x\<rparr>)" "vpages (m'\<lparr>kmem := x\<rparr>) = vpages m'" "pframes (m'\<lparr>kmem := x\<rparr>) = pframes m'"
    using mm_ok_kmem [of m' x] assms by (simp_all add: page_given_def)
  then show ?thesis using assms(1) by (simp add: page_given_def mapping_def)
qed

lemma create_run:
  assumes pg: "has_page k (mm s)" and pl: "pools_placed (mm s)" and nm: "cstr (kmem (mm s)) name xs" "length xs < 16"
    and low: "unat name + length xs < 0xC0076000"
  obtains s' ks where "kthread_create entry fn arg name s = Inr (heap_page k, s')" and "page_given k (mm s) (mm s')"
    and "cstr (kmem (mm s')) (heap_page k + 28) xs" and "ks = heap_page k + PG_SIZE - sizeof_kstack_switch"
    and "\<forall>a. a \<notin> pool_bytes (mm s) \<longrightarrow> \<not> in_range (heap_page k) 48 a \<longrightarrow> kmem (mm s') a = kmem (mm s) a"
    and "s' = s\<lparr>mm := mm s', nodes := (nodes s)(task_tag (heap_page k) := \<lparr>prev = NULL, nxt = NULL\<rparr>, task_all_tag (heap_page k) := \<lparr>prev = NULL, nxt = NULL\<rparr>),
      tasks := (tasks s)(heap_page k := \<lparr>kstack = ks, status = TASK_RUNNING, time_slice = 0, stack_magic = 0x19880802\<rparr>),
      stk := store_frame ks \<lparr>f_ebp = 0, f_ebx = 0, f_edi = 0, f_esi = 0, f_kthread = entry, f_fn = fn, f_fn_arg = arg\<rparr> (stk s),
      saved_intr := (saved_intr s)(heap_page k := True)\<rparr>"
proof -
  let ?t = "heap_page k"
  obtain m1 where m1: "page_malloc 1 NULL 1 (mm s) = Inr (?t, m1)" "page_given k (mm s) m1"
    "\<forall>a. a \<notin> pool_bytes (mm s) \<longrightarrow> kmem m1 a = kmem (mm s) a"
    by (rule page_one [OF pg])
  have k: "k < HEAP_PAGES" using pg by (simp add: has_page_def)
  have t: "unat ?t = 0xC0100000 + k * 4096" "unat ?t + 4096 \<le> 2 ^ 32" using heap_page_unat [OF k] k by (simp_all add: HEAP_PAGES_def)
  have off: "unat (?t + of_nat i) = unat ?t + i" if "i < 4096" for i
    using t(2) that by (subst unat_add_small) (simp_all add: unat_of_nat_less)
  have t28: "unat (?t + 28) = unat ?t + 28" using off [of 28] by simp
  have rng: "in_range ?t n a \<longleftrightarrow> unat ?t \<le> unat a \<and> unat a < unat ?t + unat n" if "unat n \<le> 4096" for n a
    using that t(2) by (intro in_range_unat) linarith
  have src: "unat (name + of_nat i) = unat name + i" if "i \<le> length xs" for i
    using that low nm(2) by (subst unat_add_small) (simp_all add: unat_of_nat_less)
  define ma where "ma = memset (kmem m1) ?t 0 sizeof_task_struct"
  have out: "name + of_nat i \<notin> pool_bytes (mm s)" "\<not> in_range ?t sizeof_task_struct (name + of_nat i)" if "i \<le> length xs" for i
    using pl src [OF that] low that t(1) rng [of sizeof_task_struct "name + of_nat i"] by (auto simp: pools_placed_def sizeof_task_struct_def)
  have "cstr ma name xs = cstr (kmem (mm s)) name xs"
    by (rule cstr_cong) (use out m1(3) in \<open>simp add: ma_def memset_apply\<close>)
  then have c: "cstr ma name xs" using nm(1) by simp
  have len: "Suc (length xs) < 2 ^ 32" using nm(2) by simp
  have "unat (?t + 28 - name) = unat ?t + 28 - unat name" using t28 t(1) low by (subst unat_sub_small) (simp_all)
  then have dst: "of_nat (Suc (length xs)) \<le> ?t + 28 - name"
    using t(1) low nm(2) by (simp add: word_le_nat_alt unat_of_nat_less del: of_nat_Suc)
  obtain mb where mb: "strcpy ma (?t + 28) name = Some (?t + 28, mb)" "cstr mb (?t + 28) xs"
      "\<And>q. \<not> in_range (?t + 28) (of_nat (Suc (length xs))) q \<Longrightarrow> mb q = ma q"
    using strcpy_loop_result [OF c len disjI2 [OF dst]] by (auto simp: strcpy_def)
  have keep: "mb a = kmem m1 a" if "\<not> in_range ?t 48 a" for a
  proof -
    have "\<not> (unat ?t \<le> unat a \<and> unat a < unat ?t + 48)" using that rng [of 48 a] by simp
    moreover have "in_range (?t + 28) (of_nat (Suc (length xs))) a \<longleftrightarrow> unat ?t + 28 \<le> unat a \<and> unat a < unat ?t + 28 + Suc (length xs)"
      using in_range_unat [of "?t + 28" "of_nat (Suc (length xs))" a] t28 t(2) nm(2) by (simp add: unat_of_nat_less del: of_nat_Suc)
    ultimately have "\<not> in_range (?t + 28) (of_nat (Suc (length xs))) a" using nm(2) by linarith
    then have "mb a = ma a" by (rule mb(3))
    then show ?thesis using that by (simp add: ma_def memset_apply sizeof_task_struct_def)
  qed
  have "\<not> in_range ?t 48 a" if "a \<in> pool_bytes (mm s)" for a
    using pl that t(1) rng [of 48 a] by (fastforce simp: pools_placed_def)
  then have g: "page_given k (mm s) (m1\<lparr>kmem := mb\<rparr>)" by (intro page_given_kmem [OF m1(2)] keep)
  let ?ks = "?t + PG_SIZE - sizeof_kstack_switch"
  define u where "u = s\<lparr>mm := m1\<lparr>kmem := mb\<rparr>,
    nodes := (nodes s)(task_tag ?t := \<lparr>prev = NULL, nxt = NULL\<rparr>, task_all_tag ?t := \<lparr>prev = NULL, nxt = NULL\<rparr>),
    tasks := (tasks s)(?t := \<lparr>kstack = ?ks, status = TASK_RUNNING, time_slice = 0, stack_magic = 0x19880802\<rparr>),
    stk := store_frame ?ks \<lparr>f_ebp = 0, f_ebx = 0, f_edi = 0, f_esi = 0, f_kthread = entry, f_fn = fn, f_fn_arg = arg\<rparr> (stk s),
    saved_intr := (saved_intr s)(?t := True)\<rparr>"
  have um: "mm u = m1\<lparr>kmem := mb\<rparr>" by (simp add: u_def)
  show thesis
  proof (rule that)
    show "kthread_create entry fn arg name s = Inr (?t, u)"
      using m1(1) mb(1) by (simp add: kthread_create_def ma_def u_def Let_def)
    show "page_given k (mm s) (mm u)" "cstr (kmem (mm u)) (?t + 28) xs" using g mb(2) by (simp_all add: um)
    show "\<forall>a. a \<notin> pool_bytes (mm s) \<longrightarrow> \<not> in_range ?t 48 a \<longrightarrow> kmem (mm u) a = kmem (mm s) a" using keep m1(3) by (simp add: um)
    show "?ks = ?t + PG_SIZE - sizeof_kstack_switch" ..
    show "u = s\<lparr>mm := mm u, nodes := (nodes s)(task_tag ?t := \<lparr>prev = NULL, nxt = NULL\<rparr>, task_all_tag ?t := \<lparr>prev = NULL, nxt = NULL\<rparr>),
      tasks := (tasks s)(?t := \<lparr>kstack = ?ks, status = TASK_RUNNING, time_slice = 0, stack_magic = 0x19880802\<rparr>),
      stk := store_frame ?ks \<lparr>f_ebp = 0, f_ebx = 0, f_edi = 0, f_esi = 0, f_kthread = entry, f_fn = fn, f_fn_arg = arg\<rparr> (stk s),
      saved_intr := (saved_intr s)(?t := True)\<rparr>"
      unfolding um by (simp add: u_def)
  qed
qed


section \<open>The first two threads\<close>

text \<open>The two list heads in the kernel's data, the stack and the PCB of the running thread in the page above the bitmaps.\<close>

definition start_ok :: "sched_state \<Rightarrow> bool" where
  "start_ok s \<longleftrightarrow> unat (task_ready_list s) + 16 \<le> 0xC0076000 \<and> unat (task_all_list s) + 16 \<le> 0xC0076000 \<and>
     (unat (task_ready_list s) + 16 \<le> unat (task_all_list s) \<or> unat (task_all_list s) + 16 \<le> unat (task_ready_list s)) \<and>
     0xC009E000 \<le> unat (kthread_current s) \<and> unat (kthread_current s) + 4096 \<le> 0xC0100000"

lemma start_heads:
  assumes "start_ok s"
  shows "a \<in> heads s \<Longrightarrow> unat a < 0xC0076000" and "{task_ready_list s, list_tail (task_ready_list s)} \<inter> {task_all_list s, list_tail (task_all_list s)} = {}"
proof -
  let ?r = "task_ready_list s" and ?a = "task_all_list s"
  have h: "unat ?r + 16 \<le> 0xC0076000" "unat ?a + 16 \<le> 0xC0076000" "unat ?r + 16 \<le> unat ?a \<or> unat ?a + 16 \<le> unat ?r"
    using assms by (simp_all add: start_ok_def)
  have t: "unat (list_tail ?r) = unat ?r + 8" "unat (list_tail ?a) = unat ?a + 8"
    unfolding list_tail_def using h by (subst unat_add_small; simp)+
  show "a \<in> heads s \<Longrightarrow> unat a < 0xC0076000" using h t by auto
  show "{?r, list_tail ?r} \<inter> {?a, list_tail ?a} = {}" using h(3) t by auto
qed

lemma tag_unat:
  "unat t + 4096 \<le> 2 ^ 32 \<Longrightarrow> unat (task_tag t) = unat t + 12" "unat t + 4096 \<le> 2 ^ 32 \<Longrightarrow> unat (task_all_tag t) = unat t + 20"
  unfolding task_tag_def task_all_tag_def by (subst unat_add_small; simp)+

lemma new_nodes_first:
  assumes "start_ok s" and "0xC009E000 \<le> unat t" and "unat t + 4096 \<le> 2 ^ 32"
  shows "new_nodes s [] t"
  using start_heads(1) [OF assms(1)] tag_unat [OF assms(3)] assms(2) by (fastforce simp: new_nodes_def)

lemma new_nodes_second:
  assumes "start_ok s" and "0xC009E000 \<le> unat t" and "unat t + 4096 \<le> unat u" and "unat u + 4096 \<le> 2 ^ 32"
  shows "new_nodes s [u] t"
proof -
  have t: "unat t + 4096 \<le> 2 ^ 32" using assms(3,4) by linarith
  have "new_nodes s [] t" by (rule new_nodes_first [OF assms(1,2) t])
  moreover have "task_tag t \<noteq> task_tag u" "task_tag t \<noteq> task_all_tag u" "task_all_tag t \<noteq> task_tag u" "task_all_tag t \<noteq> task_all_tag u"
    using tag_unat [OF t] tag_unat [OF assms(4)] assms(3) by auto
  ultimately show ?thesis by (auto simp: new_nodes_def)
qed

lemma links_start:
  assumes "start_ok s"
  shows "links_ok (on_nodes (\<lambda>h. list_init (list_init h (task_ready_list s)) (task_all_list s)) s) [] []"
proof -
  let ?r = "task_ready_list s" and ?a = "task_all_list s" and ?h = "list_init (nodes s) (task_ready_list s)"
  have sep: "{?r, list_tail ?r} \<inter> {?a, list_tail ?a} = {}" by (rule start_heads(2) [OF assms])
  have "dlist (list_init ?h ?a) ?r []"
    by (rule dlist_frame [OF list_init_dlist, of "{?a, list_tail ?a}"]) (use sep list_init_other in auto)
  then show ?thesis using sep list_init_dlist by (auto simp: links_ok_def on_nodes_def)
qed

lemma main_frame:
  assumes m: "0xC009E000 \<le> unat t" "unat t + 4096 \<le> 2 ^ 32" and a: "unat a < 0xC009E000"
  shows "((memset h t 0 sizeof_task_struct)(t + 28 := v0, t + 29 := v1, t + 30 := v2, t + 31 := v3, t + 32 := v4)) a = h a"
proof -
  have "unat (t + 28) = unat t + 28" "unat (t + 29) = unat t + 29" "unat (t + 30) = unat t + 30" "unat (t + 31) = unat t + 31"
    "unat (t + 32) = unat t + 32"
    using m(2) by (subst unat_add_small; simp)+
  then have "a \<noteq> t + 28" "a \<noteq> t + 29" "a \<noteq> t + 30" "a \<noteq> t + 31" "a \<noteq> t + 32" using m(1) a by auto
  moreover have "\<not> in_range t sizeof_task_struct a"
    using in_range_unat [of t sizeof_task_struct a] m a by (simp add: sizeof_task_struct_def)
  ultimately show ?thesis by (simp add: memset_apply)
qed

text \<open>\<open>kthread_init\<close> makes two threads, \<open>idle\<close> on a new page and \<open>main\<close>, the one that runs; both are ready and queued.\<close>

definition started :: "nat \<Rightarrow> ptr \<Rightarrow> sched_state \<Rightarrow> sched_state \<Rightarrow> bool" where
  "started k esp s s' \<longleftrightarrow> sched_ok s' [heap_page k, kthread_current s] [heap_page k, kthread_current s] \<and>
     kthread_current s' = kthread_current s \<and> g_idle_task s' = heap_page k \<and> g_main_task s' = kthread_current s \<and>
     page_given k (mm s) (mm s') \<and> intr_on s' = intr_on s \<and> saved_intr s' (heap_page k) \<and>
     kstack (tasks s' (heap_page k)) = heap_page k + PG_SIZE - sizeof_kstack_switch \<and> kstack (tasks s' (kthread_current s)) = esp \<and>
     (\<forall>t \<in> {heap_page k, kthread_current s}. stack_magic (tasks s' t) = 0x19880802)"

lemma init_run:
  assumes pg: "has_page k (mm s)" and pl: "pools_placed (mm s)" and nm: "cstr (kmem (mm s)) name xs" "length xs < 16"
    and low: "unat name + length xs < 0xC0076000" and st: "start_ok s"
  obtains s' where "kthread_init entry idle name esp s = Inr s'" and "started k esp s s'"
    and "stk s' = store_frame (heap_page k + PG_SIZE - sizeof_kstack_switch)
      \<lparr>f_ebp = 0, f_ebx = 0, f_edi = 0, f_esi = 0, f_kthread = entry, f_fn = idle, f_fn_arg = NULL\<rparr> (stk s)"
proof -
  let ?t = "heap_page k" and ?c = "kthread_current s"
  let ?s1 = "on_nodes (\<lambda>h. list_init (list_init h (task_ready_list s)) (task_all_list s)) s"
  have k: "k < HEAP_PAGES" using pg by (simp add: has_page_def)
  have t: "0xC0100000 \<le> unat ?t" "unat ?t + 4096 \<le> 2 ^ 32" using heap_page_unat [OF k] k by (simp_all add: HEAP_PAGES_def)
  have c: "0xC009E000 \<le> unat ?c" "unat ?c + 4096 \<le> unat ?t" "unat ?c + 4096 \<le> 2 ^ 32" using st t by (simp_all add: start_ok_def)
  have ne: "?t \<noteq> ?c" using c(2) by auto
  have mm1: "mm ?s1 = mm s" by (simp add: sched_simps)
  obtain s2 ks where a: "kthread_create entry idle NULL name ?s1 = Inr (?t, s2)" "page_given k (mm s) (mm s2)"
      "ks = ?t + PG_SIZE - sizeof_kstack_switch"
    and s2: "s2 = ?s1\<lparr>mm := mm s2, nodes := (nodes ?s1)(task_tag ?t := \<lparr>prev = NULL, nxt = NULL\<rparr>, task_all_tag ?t := \<lparr>prev = NULL, nxt = NULL\<rparr>),
      tasks := (tasks ?s1)(?t := \<lparr>kstack = ks, status = TASK_RUNNING, time_slice = 0, stack_magic = 0x19880802\<rparr>),
      stk := store_frame ks \<lparr>f_ebp = 0, f_ebx = 0, f_edi = 0, f_esi = 0, f_kthread = entry, f_fn = idle, f_fn_arg = NULL\<rparr> (stk ?s1),
      saved_intr := (saved_intr ?s1)(?t := True)\<rparr>"
    by (rule create_run [of k ?s1 name xs entry idle NULL, unfolded mm1, OF pg pl nm low])
  define u where "u = s2\<lparr>g_idle_task := ?t\<rparr>"
  have uf: "task_ready_list u = task_ready_list s" "task_all_list u = task_all_list s" "g_idle_task u = ?t" "mm u = mm s2"
      "intr_on u = intr_on s" "tasks u = (tasks s)(?t := \<lparr>kstack = ks, status = TASK_RUNNING, time_slice = 0, stack_magic = 0x19880802\<rparr>)"
      "saved_intr u = (saved_intr s)(?t := True)" "stk u = store_frame ks \<lparr>f_ebp = 0, f_ebx = 0, f_edi = 0, f_esi = 0, f_kthread = entry, f_fn = idle, f_fn_arg = NULL\<rparr> (stk s)"
      "\<And>r. r \<notin> {task_tag ?t, task_all_tag ?t} \<Longrightarrow> nodes u r = nodes ?s1 r"
    unfolding u_def by (subst s2; simp add: sched_simps on_nodes_def)+
  have cu: "kthread_current u = ?c" using a(2) by (simp add: kthread_current_def uf(4) page_given_def)
  have n1: "new_nodes ?s1 [] ?t" and n1u: "new_nodes u [] ?t"
    using new_nodes_first [OF st _ t(2)] t(1) by (simp_all add: new_nodes_def uf(1,2) sched_simps)
  have "links_ok u [] []"
    by (rule links_frame [OF links_start [OF st] n1 _ _ uf(9)]) (simp_all add: uf(1,2) sched_simps)
  then have l3: "links_ok (kthread_run ?t u) [?t] [?t]" using links_run [OF _ n1u, of "[]"] by simp
  define w where "w = kthread_run ?t u"
  have wf: "task_ready_list w = task_ready_list s" "task_all_list w = task_all_list s" "g_idle_task w = ?t" "mm w = mm s2"
      "intr_on w = intr_on s" "kthread_current w = ?c" "saved_intr w = (saved_intr s)(?t := True)" "stk w = stk u"
      "status (tasks w ?t) = TASK_READY" "kstack (tasks w ?t) = ks"
      "stack_magic (tasks w ?t) = 0x19880802"
    by (simp_all add: w_def kthread_run_eq uf cu) (simp_all add: kthread_run_def Let_def set_slice_def set_status_def on_nodes_def uf)
  let ?m = "(memset (kmem (mm w)) ?c 0 sizeof_task_struct)(?c + 28 := 0x6d, ?c + 29 := 0x61, ?c + 30 := 0x69, ?c + 31 := 0x6e, ?c + 32 := 0)"
  define v where "v = w\<lparr>mm := (mm w)\<lparr>kmem := ?m\<rparr>, g_main_task := ?c,
    tasks := (tasks w)(?c := \<lparr>kstack = esp, status = TASK_RUNNING, time_slice = 0, stack_magic = 0x19880802\<rparr>),
    nodes := (nodes w)(task_tag ?c := \<lparr>prev = NULL, nxt = NULL\<rparr>, task_all_tag ?c := \<lparr>prev = NULL, nxt = NULL\<rparr>)\<rparr>"
  have vf: "kthread_current v = ?c" "g_idle_task v = ?t" "g_main_task v = ?c" "intr_on v = intr_on s" "saved_intr v = (saved_intr s)(?t := True)"
      "stk v = stk u" "task_ready_list v = task_ready_list s" "task_all_list v = task_all_list s" "status (tasks v ?t) = TASK_READY"
      "kstack (tasks v ?t) = ks" "kstack (tasks v ?c) = esp" "stack_magic (tasks v ?t) = 0x19880802" "stack_magic (tasks v ?c) = 0x19880802" "mm v = (mm s2)\<lparr>kmem := ?m\<rparr>"
    using ne wf by (simp_all add: v_def kthread_current_def)
  have n2: "new_nodes w [?t] ?c" and n2v: "new_nodes v [?t] ?c"
    using new_nodes_second [OF st c(1,2) t(2)] by (simp_all add: new_nodes_def wf(1,2) vf(7,8))
  have "links_ok v [?t] [?t]"
    by (rule links_frame [OF l3 [folded w_def] n2]) (simp_all add: vf wf v_def)
  then have l5: "links_ok (kthread_run ?c v) [?t, ?c] [?t, ?c]" using links_run [OF _ n2v, of "[?t]"] by simp
  have "page_given k (mm s) (mm v)"
    unfolding vf(14) by (rule page_given_kmem [OF a(2)])
      (subst wf(4) [symmetric], rule main_frame [OF c(1,3)], use pl in \<open>simp add: pools_placed_def\<close>)
  moreover have "sched_ok (kthread_run ?c v) [?t, ?c] [?t, ?c]"
    using l5 ne by (simp add: sched_ok_def others_ok_def kthread_run_eq vf)
  moreover have "kstack (tasks (kthread_run ?c v) x) = kstack (tasks v x)" "stack_magic (tasks (kthread_run ?c v) x) = stack_magic (tasks v x)" for x
    by (simp_all add: kthread_run_def Let_def set_slice_def set_status_def on_nodes_def)
  ultimately have "started k esp s (kthread_run ?c v)"
    by (simp add: started_def kthread_run_eq vf a(3))
  moreover have "kthread_init entry idle name esp s = Inr (kthread_run ?c v)"
    using a(1) by (simp add: kthread_init_def main_thread_init_def Let_def u_def [symmetric] w_def [symmetric] wf(6)) (simp add: v_def)
  moreover have "stk (kthread_run ?c v) = stk u" by (simp add: kthread_run_eq vf)
  ultimately show thesis using that [of "kthread_run ?c v"] by (simp add: uf(8) a(3))
qed


section \<open>The first switch\<close>

text \<open>The running thread \<open>main\<close> is on the ready list, and a yield appends its node a second time: that breaks the link
  from it back to the node before it, which the removal of that node, the next step, restores.\<close>

lemma append_again:
  assumes "dlist h p [a, b]"
  shows "list_remove (list_append h p b) a = list_remove h a" and "nxt (list_append h p b p) = a"
proof -
  have d: "nxt (h p) = a" "prev (h a) = p" "nxt (h a) = b" "prev (h b) = a" "nxt (h b) = list_tail p" "prev (h (list_tail p)) = b"
      "p \<noteq> a" "p \<noteq> b" "a \<noteq> b" "a \<noteq> list_tail p" "b \<noteq> list_tail p"
    using assms by (auto simp: dlist_def)
  have "list_append h p b = h(b := \<lparr>prev = b, nxt = list_tail p\<rparr>)"
    using d by (auto simp: list_append_def list_insert_def set_prev_def set_nxt_def Let_def fun_eq_iff)
  then show "list_remove (list_append h p b) a = list_remove h a" "nxt (list_append h p b p) = a"
    using d by (auto simp: list_remove_def set_prev_def set_nxt_def Let_def fun_eq_iff)
qed

lemma first_yield:
  assumes ok: "sched_ok s [t, kthread_current s] A" and ne: "t \<noteq> kthread_current s"
  shows "running_ok (kthread_yield s) [kthread_current s] A" and "kthread_current (kthread_yield s) = t"
    and "intr_on (kthread_yield s) = saved_intr s t"
proof -
  let ?c = "kthread_current s" and ?r = "task_ready_list s"
  define u where "u = set_status ?c TASK_READY (s\<lparr>intr_on := False\<rparr>)"
  define v where "v = on_nodes (\<lambda>h. list_append h ?r (task_tag ?c)) u"
  have st: "status (tasks s ?c) = TASK_READY" using ok by (simp add: sched_ok_def others_ok_def)
  have uf: "kthread_current u = ?c" "nodes u = nodes s" "task_ready_list u = ?r" "task_all_list u = task_all_list s" "saved_intr u = saved_intr s"
      "g_idle_task u = g_idle_task s" "status (tasks u x) = status (tasks s x)" for x
    using st by (simp_all add: u_def sched_simps)
  have "links_ok u [t, ?c] A" using ok by (subst links_cong [of u s]) (simp_all add: uf sched_ok_def)
  moreover have "others_ok u [t, ?c] A" using ok by (simp add: sched_ok_def others_ok_def uf)
  ultimately have m: "may_schedule u [t, ?c] A" by (simp add: may_schedule_def uf)
  have up: "upcoming u [t, ?c] = [t, ?c]" using st by (simp add: upcoming_def next_queue_def uf)
  have dl: "dlist (nodes s) ?r [task_tag t, task_tag ?c]" using ok by (simp add: sched_ok_def links_ok_def)
  have pop: "list_pop (list_append (nodes s) ?r (task_tag ?c)) ?r = list_pop (nodes s) ?r"
    and full: "\<not> list_empty (list_append (nodes s) ?r (task_tag ?c)) ?r" "\<not> list_empty (nodes s) ?r"
    using append_again [OF dl] dl by (auto simp: list_pop_def list_empty_def list_head_def Let_def dlist_def)
  have "schedule i v = schedule i u" for i
    using st full pop by (simp add: schedule_def Let_def v_def uf sched_simps) (simp add: on_nodes_def uf)
  moreover have "kthread_yield s = schedule (intr_on s) v" by (simp add: kthread_yield_def Let_def v_def u_def sched_simps)
  ultimately have y: "kthread_yield s = schedule (intr_on s) u" by simp
  show "running_ok (kthread_yield s) [?c] A" "kthread_current (kthread_yield s) = t" "intr_on (kthread_yield s) = saved_intr s t"
    using schedule_running [OF m] schedule_ok(2,5) [OF m] ne unfolding y by (simp_all add: up uf)
qed


text \<open>A block is worse: \<open>main\<close> stays on the ready list and runs again without having been unblocked.\<close>

lemma schedule_head:
  assumes "links_ok s (t # R) A" and "status (tasks s (kthread_current s)) \<noteq> TASK_RUNNING"
  shows "links_ok (schedule i s) R A" and "kthread_current (schedule i s) = t"
    and "status (tasks (schedule i s) x) = (if x = t then TASK_RUNNING else status (tasks s x))"
proof -
  have "schedule i s = dispatch i (kthread_current s) s"
    using assms links_empty [OF assms(1)] by (simp add: schedule_steps requeue_def ensure_ready_def Let_def)
  moreover have p: "elem2entry 12 (fst (list_pop (nodes s) (task_ready_list s))) = t"
    by (simp add: links_pop(1) [OF assms(1)] tag_of_task)
  moreover have "links_ok (dispatch i (kthread_current s) s) R A"
    using links_pop(2) [OF assms(1)] by (subst links_cong) (simp_all add: dispatch_def p sched_simps)
  ultimately show "links_ok (schedule i s) R A" "kthread_current (schedule i s) = t"
      "status (tasks (schedule i s) x) = (if x = t then TASK_RUNNING else status (tasks s x))"
    by (simp_all add: dispatch_def sched_simps)
qed

lemma block_head:
  assumes "links_ok s (t # R) A" and "blocked_status st"
  shows "links_ok (kthread_block st s) R A" and "kthread_current (kthread_block st s) = t"
    and "status (tasks (kthread_block st s) x) = (if x = t then TASK_RUNNING else if x = kthread_current s then st else status (tasks s x))"
proof -
  let ?u = "set_status (kthread_current s) st (s\<lparr>intr_on := False\<rparr>)"
  have l: "links_ok ?u (t # R) A" using assms(1) by (subst links_cong [of ?u s]) (simp_all add: sched_simps)
  have n: "status (tasks ?u (kthread_current ?u)) \<noteq> TASK_RUNNING" using assms(2) by (auto simp: sched_simps)
  have e: "kthread_block st s = schedule (intr_on s) ?u" using assms(2) by (simp add: kthread_block_def Let_def sched_simps)
  show "links_ok (kthread_block st s) R A" "kthread_current (kthread_block st s) = t"
      "status (tasks (kthread_block st s) x) = (if x = t then TASK_RUNNING else if x = kthread_current s then st else status (tasks s x))"
    using schedule_head [OF l n] unfolding e by (simp_all add: sched_simps)
qed

lemma first_block:
  assumes "sched_ok s [t, kthread_current s] A" and "t \<noteq> kthread_current s" and "blocked_status st"
  shows "kthread_current (kthread_block st s) = t" and "status (tasks (kthread_block st s) (kthread_current s)) = st"
    and "kthread_current (idle_thread (kthread_block st s)) = kthread_current s"
    and "status (tasks (idle_thread (kthread_block st s)) (kthread_current s)) = TASK_RUNNING"
proof -
  have l: "links_ok s [t, kthread_current s] A" using assms(1) by (simp add: sched_ok_def)
  note b = block_head [OF l assms(3)]
  have bl: "blocked_status TASK_BLOCKED" by (simp add: blocked_status_def)
  note c = block_head [OF b(1) bl]
  show "kthread_current (kthread_block st s) = t" "status (tasks (kthread_block st s) (kthread_current s)) = st"
    using b assms(2) by simp_all
  show "kthread_current (idle_thread (kthread_block st s)) = kthread_current s"
    "status (tasks (idle_thread (kthread_block st s)) (kthread_current s)) = TASK_RUNNING"
    using c(2,3) b(2) assms(2) by (simp_all add: idle_thread_def Let_def)
qed


section \<open>The memory at boot\<close>

lemma boot_placed:
  assumes "0x200000 \<le> tot"
  shows "pools_placed (mm_boot tot m task slot)"
    and "unat a < 0xC0076000 \<Longrightarrow> kmem (mm_boot tot m task slot) a = m a"
proof -
  obtain kp up vp m' where pi: "pool_init tot m = (kp, up, vp, m')" using prod_cases4 by blast
  note sh = pool_init_shape [OF pi] and fr = pool_init_frames [OF assms pi]
  have f: "k_p_pool (mm_boot tot m task slot) = kp" "k_v_pool (mm_boot tot m task slot) = vp" "kmem (mm_boot tot m task slot) = m'"
    by (simp_all add: mm_boot_def pi)
  have base: "unat PADDR_BITMAP_BASE = 0xC0076000" "unat K_VADDR_BITMAP_BASE = 0xC0096000"
    by (simp_all add: PADDR_BITMAP_BASE_def K_VADDR_BITMAP_BASE_def)
  have kl: "unat (len (paddr_bitmap kp)) \<le> 0x20000" using fr(4) by linarith
  have byte: "unat (p + of_nat i div 8) = unat p + i div 8" if "i < 8 * n" "n \<le> 0x20000" "unat p \<le> 0xC0096000" for p :: u32 and i n
  proof -
    have "(of_nat i div 8 :: u32) = of_nat (i div 8)" using that by (simp add: word_arith_nat_div unat_of_nat_less)
    moreover have "i div 8 < 0x20000" using that by linarith
    ultimately show ?thesis using that(3) by (simp only:) (subst unat_add_small; simp add: unat_of_nat_less)
  qed
  have "0xC0076000 \<le> unat b \<and> unat b < 0xC009E000" if pb: "b \<in> pool_bytes (mm_boot tot m task slot)" for b
  proof -
    from pb consider (k) i where "i < capacity (paddr_bitmap kp)" "b = bits (paddr_bitmap kp) + of_nat i div 8"
      | (v) i where "i < capacity (vaddr_bitmap vp)" "b = bits (vaddr_bitmap vp) + of_nat i div 8"
      unfolding pool_bytes_def f by blast
    then show ?thesis
    proof cases
      case k
      have "i < 8 * unat (len (paddr_bitmap kp))" using k(1) by (simp add: capacity_def)
      then show ?thesis using byte [of i _ "bits (paddr_bitmap kp)"] kl base k(2) by (auto simp: sh(1))
    next
      case v
      have "i < 8 * 0x8000" using v(1) by (simp add: capacity_def sh(3))
      then show ?thesis using byte [of i "0x8000" "bits (vaddr_bitmap vp)"] base v(2) by (auto simp: sh(3))
    qed
  qed
  then show "pools_placed (mm_boot tot m task slot)" by (simp add: pools_placed_def)
  assume a: "unat a < 0xC0076000"
  have out: "bitmap_reset b h a = h a" if "0xC0076000 \<le> unat (bits b)" "unat (bits b) + unat (len b) \<le> 2 ^ 32" for b h
    using in_range_unat [OF that(2), of a] that(1) a by (intro reset_other) simp
  have "unat (bits (paddr_bitmap up)) = 0xC0076000 + unat (len (paddr_bitmap kp))"
    using kl base by (simp add: sh(2) unat_add_small)
  then have "bitmap_reset (paddr_bitmap up) h a = h a" for h using fr(4) by (intro out) simp_all
  moreover have "bitmap_reset (paddr_bitmap kp) h a = h a" "bitmap_reset (vaddr_bitmap vp) h a = h a" for h
    using kl base by (intro out; simp add: sh(1,3))+
  ultimately show "kmem (mm_boot tot m task slot) a = m a" unfolding f sh(8) by simp
qed

text \<open>The first page goes to the first thread.\<close>

lemma boot_has_page:
  assumes "0x200000 \<le> tot" and "1 \<le> free_frames (mm_boot tot m task slot)"
  shows "has_page 0 (mm_boot tot m task slot)"
  using mm_boot_ok(1) [OF assms(1)] boot_run [OF assms(1), of 1] assms(2) by (simp add: has_page_def HEAP_PAGES_def)


section \<open>Properties\<close>

text \<open>C6: threads start. With a page left and its lists, its name and the running stack where the kernel has them,
  \<open>kthread_init\<close> returns: the lists hold \<open>idle\<close>, on a new page with a frame of its own, and \<open>main\<close>, the running thread;
  the page allocator is in order. Although \<open>main\<close> is on the ready list while it runs, a first tick or yield leads to
  \<open>idle\<close> with interrupts on and to a state the scheduler's invariant holds of; a first block does not: \<open>main\<close>, blocked,
  runs again when \<open>idle\<close> does, though no one has unblocked it.\<close>

theorem kthread_init_starts:
  assumes "has_page k (mm s)" and "pools_placed (mm s)" and "cstr (kmem (mm s)) name xs" and "length xs < 16"
    and "unat name + length xs < 0xC0076000" and "start_ok s"
  shows "\<exists>s'. kthread_init entry idle name esp s = Inr s' \<and> started k esp s s' \<and>
    (\<forall>s'' \<in> {schedule True s', kthread_yield s'}. running_ok s'' [kthread_current s] [heap_page k, kthread_current s] \<and>
       kthread_current s'' = heap_page k \<and> intr_on s'') \<and>
    kthread_current (kthread_block TASK_BLOCKED s') = heap_page k \<and>
    kthread_current (idle_thread (kthread_block TASK_BLOCKED s')) = kthread_current s"
proof -
  let ?t = "heap_page k" and ?c = "kthread_current s"
  obtain s' where i: "kthread_init entry idle name esp s = Inr s'" "started k esp s s'"
    by (rule init_run [OF assms, of entry idle esp]) blast
  have k: "k < HEAP_PAGES" using assms(1) by (simp add: has_page_def)
  have ne: "?t \<noteq> ?c" using heap_page_unat [OF k] assms(6) by (auto simp: start_ok_def)
  have c: "kthread_current s' = ?c" "saved_intr s' ?t" and ok: "sched_ok s' [?t, kthread_current s'] [?t, ?c]"
    using i(2) by (simp_all add: started_def)
  have m: "may_schedule s' [?t, ?c] [?t, ?c]" using sched_ok_may [OF ok] by (simp add: c)
  have "status (tasks s' ?c) = TASK_READY" using ok by (simp add: sched_ok_def others_ok_def c)
  then have up: "upcoming s' [?t, ?c] = [?t, ?c]" by (simp add: upcoming_def next_queue_def c)
  have "running_ok (schedule True s') [?c] [?t, ?c]" "kthread_current (schedule True s') = ?t" "intr_on (schedule True s')"
    using schedule_running [OF m] schedule_ok(2,5) [OF m] ne c by (simp_all add: up)
  moreover have "running_ok (kthread_yield s') [?c] [?t, ?c]" "kthread_current (kthread_yield s') = ?t" "intr_on (kthread_yield s')"
    using first_yield [OF ok] ne c by simp_all
  moreover have "kthread_current (kthread_block TASK_BLOCKED s') = ?t" "kthread_current (idle_thread (kthread_block TASK_BLOCKED s')) = ?c"
    using first_block [OF ok, of TASK_BLOCKED] ne c by (simp_all add: blocked_status_def)
  ultimately show ?thesis using i by (intro exI [of _ s']) simp
qed

text \<open>A machine of 32 MB whose kernel has the string \<open>idle\<close> at \<open>0xC0005000\<close>.\<close>

definition idle_name :: mem where
  "idle_name = (\<lambda>_. 0)(0xC0005000 := 0x69, 0xC0005001 := 0x64, 0xC0005002 := 0x6C, 0xC0005003 := 0x65)"

definition demo_start :: sched_state where
  "demo_start = \<lparr>mm = mm_boot 0x2000000 idle_name 0xC009E000 0xC009EFF0, nodes = (\<lambda>_. \<lparr>prev = 0, nxt = 0\<rparr>),
     tasks = (\<lambda>_. \<lparr>kstack = 0, status = TASK_RUNNING, time_slice = 0, stack_magic = 0\<rparr>), stk = (\<lambda>_. 0), intr_on = False,
     saved_intr = (\<lambda>_. False), g_idle_task = 0, g_main_task = 0, task_ready_list = 0xC0006000, task_all_list = 0xC0006010\<rparr>"

lemma boot_cur [simp]: "cur_task (mm_boot tot m task slot) = task"
  by (simp add: mm_boot_def split: prod.splits)

lemma demo_start_ready:
  "has_page 0 (mm demo_start)" "pools_placed (mm demo_start)" "cstr (kmem (mm demo_start)) 0xC0005000 [0x69, 0x64, 0x6C, 0x65]"
  "start_ok demo_start" "kthread_current demo_start = 0xC009E000"
  using boot_has_page [of "0x2000000"] boot_frames boot_placed [of "0x2000000"]
  by (simp_all add: demo_start_def start_ok_def kthread_current_def idle_name_def)

theorem kthread_init_starts_witness:
  "\<exists>s. kthread_init 0xC0001000 0xC0002000 0xC0005000 0xC009EFF0 demo_start = Inr s \<and>
     g_idle_task s = heap_page 0 \<and> kthread_current (kthread_yield s) = heap_page 0"
proof -
  have b: "length [0x69, 0x64, 0x6C, 0x65 :: u8] < 16" "unat (0xC0005000 :: ptr) + length [0x69, 0x64, 0x6C, 0x65 :: u8] < 0xC0076000" by simp_all
  from kthread_init_starts [OF demo_start_ready(1-3) b demo_start_ready(4), of "0xC0001000" "0xC0002000" "0xC009EFF0"]
  show ?thesis by (auto simp: started_def)
qed

end
