(* ===== verification/KRun.thy ===== *)
theory KRun
  imports KThreads KTimer
begin

text \<open>
  The two threads of the start while time passes: ticks of the clock at any moment, \<open>main\<close> yielding in \<open>msleep\<close> and
  blocking in \<open>sema_down\<close>, the handler of the disk waking it, \<open>idle\<close> in its loop. A sequence of such events drives
  \<open>timer.c\<close> and \<open>sched.c\<close>.
\<close>

section \<open>What happens\<close>

text \<open>The end of an interrupt that found the thread \<open>c\<close> running with interrupts on: \<open>iret\<close> puts them on again, at once when \<open>c\<close>
  still runs, otherwise as soon as \<open>c\<close> is switched back to.\<close>

definition intr_exit :: "ptr \<Rightarrow> sched_state \<Rightarrow> sched_state" where
  "intr_exit c s = s\<lparr>intr_on := (kthread_current s = c \<or> intr_on s), saved_intr := (saved_intr s)(c := True)\<rparr>"

text \<open>The clock ticks: through an interrupt gate, so with interrupts off, and not at all while they are off.\<close>

definition clock_tick :: "timer_state \<Rightarrow> stop + timer_state" where
  "clock_tick t =
     (let c = kthread_current (sched t)
      in if intr_on (sched t)
         then rbind (timer_handler (t\<lparr>sched := (sched t)\<lparr>intr_on := False\<rparr>\<rparr>)) (\<lambda>t1. Inr (t1\<lparr>sched := intr_exit c (sched t1)\<rparr>))
         else Inr t)"

datatype kevent = Ticks | Yields | Waits | Wakes | Idles

text \<open>\<open>m\<close> is the main thread. It yields (\<open>msleep\<close>) or waits (\<open>sema_down\<close>) when it runs, as \<open>idle\<close> goes round its loop when it
  runs; an event of the other thread does not happen.\<close>

fun happens :: "ptr \<Rightarrow> kevent \<Rightarrow> timer_state \<Rightarrow> stop + timer_state" where
  "happens m Ticks t = clock_tick t"
| "happens m Yields t = Inr (if kthread_current (sched t) = m then t\<lparr>sched := kthread_yield (sched t)\<rparr> else t)"
| "happens m Waits t = Inr (if kthread_current (sched t) = m then t\<lparr>sched := kthread_block TASK_BLOCKED (sched t)\<rparr> else t)"
| "happens m Wakes t = Inr (t\<lparr>sched := kthread_unblock m (sched t)\<rparr>)"
| "happens m Idles t = Inr (if kthread_current (sched t) = g_idle_task (sched t) then t\<lparr>sched := idle_thread (sched t)\<rparr> else t)"

fun play :: "ptr \<Rightarrow> kevent list \<Rightarrow> timer_state \<Rightarrow> stop + timer_state" where
  "play m [] t = Inr t"
| "play m (e # es) t = rbind (happens m e t) (play m es)"

lemma play_append: "play m (es @ fs) t = rbind (play m es t) (play m fs)"
  by (induction es arbitrary: t) (auto simp: rbind_def split: sum.splits)


section \<open>What no event touches\<close>

lemma unblock_magic: "stack_magic (tasks (kthread_unblock x s) y) = stack_magic (tasks s y)"
  by (simp add: kthread_unblock_def Let_def on_nodes_def set_status_def)

lemma schedule_keeps:
  "stack_magic (tasks (schedule j s) y) = stack_magic (tasks s y)" "g_idle_task (schedule j s) = g_idle_task s"
  "saved_intr (schedule j s) = (saved_intr s)(kthread_current s := j)"
  "intr_on (schedule j s) = saved_intr (schedule j s) (kthread_current (schedule j s))"
  by (simp_all add: schedule_steps dispatch_def ensure_ready_def requeue_def Let_def sched_simps unblock_magic)
    (simp_all add: set_status_def set_slice_def on_nodes_def unblock_magic)

lemma intr_free:
  "running_ok (s\<lparr>intr_on := b\<rparr>) R A = running_ok s R A" "running_ok (intr_exit c s) R A = running_ok s R A"
  "sched_ok (s\<lparr>intr_on := b\<rparr>) R A = sched_ok s R A" "sched_ok (intr_exit c s) R A = sched_ok s R A"
  "kthread_current (intr_exit c s) = kthread_current s" "tasks (intr_exit c s) = tasks s" "g_idle_task (intr_exit c s) = g_idle_task s"
  by (simp_all add: intr_exit_def running_ok_def sched_ok_def links_ok_def others_ok_def kthread_current_def)

text \<open>Both stacks unhurt, interrupts on in the running thread and, once it runs again, in the other.\<close>

definition crew :: "ptr \<Rightarrow> ptr \<Rightarrow> sched_state \<Rightarrow> bool" where
  "crew i m s \<longleftrightarrow> g_idle_task s = i \<and> intr_on s \<and>
     (\<forall>x \<in> {i, m}. stack_magic (tasks s x) = 0x19880802 \<and> (x \<noteq> kthread_current s \<longrightarrow> saved_intr s x))"

lemma crew_schedule:
  assumes "crew i m s" and "kthread_current (schedule True u) \<in> {i, m}" and "kthread_current u = kthread_current s"
    and "saved_intr u = saved_intr s" and "g_idle_task u = g_idle_task s" and "\<And>x. stack_magic (tasks u x) = stack_magic (tasks s x)"
  shows "crew i m (schedule True u)"
  using assms by (auto simp: crew_def schedule_keeps)

lemma crew_yield:
  assumes "crew i m s" and "kthread_current (kthread_yield s) \<in> {i, m}"
  shows "crew i m (kthread_yield s)"
proof -
  let ?t = "kthread_current s"
  define u where "u = on_nodes (\<lambda>h. list_append h (task_ready_list s) (task_tag ?t)) (set_status ?t TASK_READY (s\<lparr>intr_on := False\<rparr>))"
  have y: "kthread_yield s = schedule True u"
    using assms(1) by (simp add: kthread_yield_def Let_def u_def sched_simps crew_def)
  have u: "kthread_current u = ?t" "saved_intr u = saved_intr s" "g_idle_task u = g_idle_task s" "stack_magic (tasks u x) = stack_magic (tasks s x)" for x
    by (simp_all add: u_def sched_simps) (simp add: set_status_def)
  show ?thesis unfolding y by (rule crew_schedule [OF assms(1) _ u]) (use assms(2) in \<open>simp add: y\<close>)
qed

lemma crew_block:
  assumes "crew i m s" and "kthread_current (kthread_block TASK_BLOCKED s) \<in> {i, m}"
  shows "crew i m (kthread_block TASK_BLOCKED s)"
proof -
  let ?t = "kthread_current s"
  define u where "u = set_status ?t TASK_BLOCKED (s\<lparr>intr_on := False\<rparr>)"
  have y: "kthread_block TASK_BLOCKED s = schedule True u"
    using assms(1) by (simp add: kthread_block_def Let_def u_def sched_simps crew_def blocked_status_def)
  have u: "kthread_current u = ?t" "saved_intr u = saved_intr s" "g_idle_task u = g_idle_task s" "stack_magic (tasks u x) = stack_magic (tasks s x)" for x
    by (simp_all add: u_def sched_simps) (simp add: set_status_def)
  show ?thesis unfolding y by (rule crew_schedule [OF assms(1) _ u]) (use assms(2) in \<open>simp add: y\<close>)
qed

lemma crew_idle:
  assumes "crew i m s" and "kthread_current (idle_thread s) \<in> {i, m}"
  shows "crew i m (idle_thread s)"
proof -
  have h: "kthread_current (idle_halt t) = kthread_current t" for t by (simp add: idle_halt_def sched_simps)
  have "kthread_current (kthread_block TASK_BLOCKED s) \<in> {i, m}" using assms(2) by (auto simp: idle_thread_def Let_def h split: if_splits)
  then have "crew i m (kthread_block TASK_BLOCKED s)" by (rule crew_block [OF assms(1)])
  then show ?thesis by (simp add: idle_thread_def Let_def) (auto simp: crew_def idle_halt_def kthread_current_def)
qed

lemma crew_wake: "crew i m s \<Longrightarrow> crew i m (kthread_unblock m s)"
  by (auto simp: crew_def sched_simps unblock_magic)


section \<open>The lists stay in order\<close>

text \<open>Before the first switch, \<open>main\<close> runs and is queued; after it the invariant of the scheduler holds.\<close>

definition starting :: "ptr \<Rightarrow> ptr \<Rightarrow> sched_state \<Rightarrow> bool" where
  "starting i m s \<longleftrightarrow> crew i m s \<and> sched_ok s [i, m] [i, m] \<and> kthread_current s = m"

definition going :: "ptr \<Rightarrow> ptr \<Rightarrow> sched_state \<Rightarrow> bool" where
  "going i m s \<longleftrightarrow> crew i m s \<and> (\<exists>R. running_ok s R [i, m])"

lemma running_member: "running_ok s R A \<Longrightarrow> kthread_current s \<in> set A"
  using others_okD(3) [OF running_okD(2)] .

lemma tick_run:
  assumes c: "crew i m (sched t)" and m: "kthread_current (sched t) \<in> {i, m}"
    and sl: "running_ok (schedule False ((sched t)\<lparr>intr_on := False\<rparr>)) R [i, m]"
  obtains t' where "clock_tick t = Inr t'" and "jiffies t' = jiffies t + 1" and "crew i m (sched t')"
    and "(\<exists>n. sched t' = intr_exit (kthread_current (sched t)) (set_slice (kthread_current (sched t)) n ((sched t)\<lparr>intr_on := False\<rparr>))) \<or>
      running_ok (sched t') R [i, m]"
proof -
  let ?c = "kthread_current (sched t)"
  let ?off = "(sched t)\<lparr>intr_on := False\<rparr>"
  let ?sl = "time_slice (tasks (sched t) ?c)"
  have on: "intr_on (sched t)" "stack_magic (tasks (sched t) ?c) = 0x19880802" using c m unfolding crew_def by blast+
  have all: "g_idle_task (sched t) = i" "\<forall>x \<in> {i, m}. stack_magic (tasks (sched t) x) = 0x19880802 \<and> (x \<noteq> ?c \<longrightarrow> saved_intr (sched t) x)"
    using c unfolding crew_def by blast+
  have saved: "\<forall>x \<in> {i, m}. ((saved_intr (sched t))(?c := j, ?c := True)) x" for j using all(2) by simp
  show thesis
  proof (cases "?sl = 0")
    case True
    let ?u = "schedule False ?off"
    have r: "clock_tick t = Inr (t\<lparr>jiffies := jiffies t + 1, sched := intr_exit ?c ?u\<rparr>)"
      using on True by (simp add: clock_tick_def timer_handler_def Let_def sched_simps)
    have "kthread_current ?u \<in> {i, m}" using running_member [OF sl] by simp
    then have "intr_on (intr_exit ?c ?u)"
      using all(2) by (auto simp: intr_exit_def schedule_keeps intr_fields split: if_splits)
    then have "crew i m (intr_exit ?c ?u)"
      using all saved [of False] by (simp add: crew_def intr_free schedule_keeps intr_fields) (simp add: intr_exit_def schedule_keeps intr_fields)
    then show thesis by (intro that [OF r]) (simp_all add: intr_free sl)
  next
    case False
    let ?u = "set_slice ?c (?sl - 1) ?off"
    have r: "clock_tick t = Inr (t\<lparr>jiffies := jiffies t + 1, sched := intr_exit ?c ?u\<rparr>)"
      using on False by (simp add: clock_tick_def timer_handler_def Let_def sched_simps)
    have "crew i m (intr_exit ?c ?u)"
      using all saved by (simp add: crew_def intr_free) (simp add: intr_exit_def intr_fields)
    then show thesis by (intro that [OF r]) auto
  qed
qed

lemma slice_exit:
  "running_ok (intr_exit c (set_slice x n (s\<lparr>intr_on := b\<rparr>))) R A = running_ok s R A"
  "sched_ok (intr_exit c (set_slice x n (s\<lparr>intr_on := b\<rparr>))) R A = sched_ok s R A"
  "kthread_current (intr_exit c (set_slice x n (s\<lparr>intr_on := b\<rparr>))) = kthread_current s"
proof -
  have "sched_ok (set_slice x n u) R A = sched_ok u R A" for u
    unfolding sched_ok_def links_ok_def others_ok_def kthread_current_def slice_fields ..
  then show "sched_ok (intr_exit c (set_slice x n (s\<lparr>intr_on := b\<rparr>))) R A = sched_ok s R A" by (simp add: intr_free)
qed (simp_all add: intr_free running_set_slice sched_simps)

text \<open>Once going, every event keeps it so.\<close>

lemma going_step:
  assumes "going i m (sched t)"
  shows "\<exists>t'. happens m e t = Inr t' \<and> going i m (sched t') \<and> jiffies t' = jiffies t + (if e = Ticks then 1 else 0)"
proof -
  let ?s = "sched t"
  obtain R where c: "crew i m ?s" and r: "running_ok ?s R [i, m]" using assms by (auto simp: going_def)
  have cur: "kthread_current ?s \<in> {i, m}" using running_member [OF r] by simp
  have idle: "g_idle_task ?s = i" using c by (simp add: crew_def)
  have member: "kthread_current u \<in> {i, m}" if "running_ok u Q [i, m]" for u Q using running_member [OF that] by simp
  show ?thesis
  proof (cases e)
    case Ticks
    have off: "running_ok (?s\<lparr>intr_on := False\<rparr>) R [i, m]" using r by (simp add: intr_free)
    obtain t' where t': "clock_tick t = Inr t'" "jiffies t' = jiffies t + 1" "crew i m (sched t')"
        "(\<exists>n. sched t' = intr_exit (kthread_current ?s) (set_slice (kthread_current ?s) n (?s\<lparr>intr_on := False\<rparr>))) \<or>
          running_ok (sched t') (tl (R @ [kthread_current ?s])) [i, m]"
      by (rule tick_run [OF c cur preempt_ok(1) [OF off, unfolded intr_fields]])
    have "\<exists>Q. running_ok (sched t') Q [i, m]" using t'(4) r slice_exit(1) by metis
    then show ?thesis using t' by (simp add: Ticks going_def)
  next
    case Yields
    note y = kthread_yield_ok(1) [OF r]
    show ?thesis using crew_yield [OF c member [OF y]] y assms by (auto simp: Yields going_def)
  next
    case Waits
    note y = kthread_block_ok(1) [OF r, of TASK_BLOCKED]
    show ?thesis using crew_block [OF c member [OF y]] y assms by (auto simp: Waits going_def)
  next
    case Wakes
    have "m \<in> set [i, m]" by simp
    note y = kthread_unblock_ok [OF r this]
    show ?thesis using crew_wake [OF c] y by (auto simp: Wakes going_def)
  next
    case Idles
    show ?thesis
    proof (cases "kthread_current ?s = g_idle_task ?s")
      case True
      note y = idle_thread_ok(1) [OF r True]
      show ?thesis using crew_idle [OF c member [OF y]] y True by (auto simp: Idles going_def)
    qed (use assms in \<open>simp add: Idles\<close>)
  qed
qed

lemma starting_queue:
  assumes "starting i m u" and "i \<noteq> m"
  shows "running_ok (schedule False (u\<lparr>intr_on := False\<rparr>)) [m] [i, m]"
proof -
  let ?s = "u\<lparr>intr_on := False\<rparr>"
  have ok: "sched_ok ?s [i, m] [i, m]" and cur: "kthread_current ?s = m" using assms(1) by (simp_all add: starting_def intr_free intr_fields)
  have m: "may_schedule ?s [i, m] [i, m]" using sched_ok_may [OF ok] .
  have "status (tasks ?s m) = TASK_READY" using ok by (simp add: sched_ok_def others_ok_def)
  then have "upcoming ?s [i, m] = [i, m]" by (simp add: upcoming_def next_queue_def cur)
  then show ?thesis using schedule_running [OF m, of False] by simp
qed

lemma starting_step:
  assumes s: "starting i m (sched t)" and ne: "i \<noteq> m" and e: "e \<noteq> Waits"
  shows "\<exists>t'. happens m e t = Inr t' \<and> (starting i m (sched t') \<and> e \<noteq> Yields \<or> going i m (sched t')) \<and>
    jiffies t' = jiffies t + (if e = Ticks then 1 else 0)"
proof -
  let ?s = "sched t"
  have c: "crew i m ?s" and ok: "sched_ok ?s [i, m] [i, m]" and cur: "kthread_current ?s = m" using s by (simp_all add: starting_def)
  have idle: "g_idle_task ?s = i" using c by (simp add: crew_def)
  show ?thesis
  proof (cases e)
    case Ticks
    have "kthread_current ?s \<in> {i, m}" using cur by simp
    then obtain t' where t': "clock_tick t = Inr t'" "jiffies t' = jiffies t + 1" "crew i m (sched t')"
        "(\<exists>n. sched t' = intr_exit (kthread_current ?s) (set_slice (kthread_current ?s) n (?s\<lparr>intr_on := False\<rparr>))) \<or> running_ok (sched t') [m] [i, m]"
      by (rule tick_run [OF c _ starting_queue [OF s ne]])
    have "starting i m (sched t') \<or> going i m (sched t')"
      using t'(3,4) ok cur by (auto simp: starting_def going_def slice_exit)
    then show ?thesis using t' by (auto simp: Ticks)
  next
    case Yields
    have y: "running_ok (kthread_yield ?s) [m] [i, m]" "kthread_current (kthread_yield ?s) = i"
      using first_yield(1,2) [of ?s i "[i, m]"] ok ne by (simp_all add: cur)
    then show ?thesis using crew_yield [OF c] cur by (auto simp: Yields going_def)
  next
    case Wakes
    have "status (tasks ?s m) = TASK_READY" using ok by (simp add: sched_ok_def others_ok_def)
    then have "kthread_unblock m ?s = ?s" by (intro kthread_unblock_not_blocked) simp
    then show ?thesis using s by (simp add: Wakes)
  next
    case Idles
    then show ?thesis using s ne cur idle by simp
  qed (use e in simp)
qed

definition ticks_in :: "kevent list \<Rightarrow> nat" where
  "ticks_in es = length (filter (\<lambda>e. e = Ticks) es)"

lemma going_play:
  "going i m (sched t) \<Longrightarrow> \<exists>t'. play m es t = Inr t' \<and> going i m (sched t') \<and> jiffies t' = jiffies t + of_nat (ticks_in es)"
proof (induction es arbitrary: t)
  case (Cons e es)
  obtain t1 where t1: "happens m e t = Inr t1" "going i m (sched t1)" "jiffies t1 = jiffies t + (if e = Ticks then 1 else 0)"
    using going_step [OF Cons.prems, of e] by blast
  obtain t2 where "play m es t1 = Inr t2" "going i m (sched t2)" "jiffies t2 = jiffies t1 + of_nat (ticks_in es)"
    using Cons.IH [OF t1(2)] by blast
  then show ?case using t1 by (auto simp: ticks_in_def algebra_simps)
qed (simp add: ticks_in_def)

lemma starting_play:
  "starting i m (sched t) \<Longrightarrow> i \<noteq> m \<Longrightarrow> Waits \<notin> set es \<Longrightarrow>
   \<exists>t'. play m es t = Inr t' \<and> (starting i m (sched t') \<or> going i m (sched t')) \<and> jiffies t' = jiffies t + of_nat (ticks_in es)"
proof (induction es arbitrary: t)
  case (Cons e es)
  obtain t1 where t1: "happens m e t = Inr t1" "starting i m (sched t1) \<or> going i m (sched t1)" "jiffies t1 = jiffies t + (if e = Ticks then 1 else 0)"
    using starting_step [OF Cons.prems(1,2), of e] Cons.prems(3) by auto
  have "Waits \<notin> set es" using Cons.prems(3) by simp
  then obtain t2 where "play m es t1 = Inr t2" "starting i m (sched t2) \<or> going i m (sched t2)" "jiffies t2 = jiffies t1 + of_nat (ticks_in es)"
    using Cons.IH [OF _ Cons.prems(2), of t1] going_play [of i m t1 es] t1(2) by blast
  then show ?case using t1 by (auto simp: ticks_in_def algebra_simps)
qed (simp add: ticks_in_def)

text \<open>From the start through a first yield, and, when the disk has answered last, back to \<open>main\<close>.\<close>

lemma back_to_main:
  assumes "going i m (sched t)" and "i \<noteq> m"
  shows "\<exists>t'. play m [Wakes, Idles] t = Inr t' \<and> going i m (sched t') \<and> kthread_current (sched t') = m \<and> jiffies t' = jiffies t"
proof -
  let ?u = "t\<lparr>sched := kthread_unblock m (sched t)\<rparr>"
  have g: "going i m (sched ?u)" using going_step [OF assms(1), of Wakes] by simp
  then obtain R where r: "running_ok (sched ?u) R [i, m]" and idle: "g_idle_task (sched ?u) = i" by (auto simp: going_def crew_def)
  obtain t' where t': "happens m Idles ?u = Inr t'" "going i m (sched t')" "jiffies t' = jiffies ?u + 0"
    using going_step [OF g, of Idles] by auto
  have "kthread_current (sched t') = m"
  proof (cases "kthread_current (sched ?u) = i")
    case True
    have "\<not> blocked_status (status (tasks (sched ?u) m))" by (simp add: sched_simps)
    then have "m \<in> set R"
      using others_okD(2) [OF running_okD(2) [OF r]] True assms(2) by fastforce
    moreover have "set R \<subseteq> {i, m}" "distinct R" "i \<notin> set R"
      using running_okD(1) [OF r] running_okD(4) [OF r] links_distinct [OF running_okD(1) [OF r]] True by (auto simp: links_ok_def)
    ultimately have "hd R = m" "R \<noteq> []" by (cases R; auto)+
    then show ?thesis using idle_thread_ok(2) [OF r] True idle t'(1) by auto
  next
    case False
    then show ?thesis using running_member [OF r] idle t'(1) by auto
  qed
  then show ?thesis using t' by simp
qed

lemma play_start:
  assumes "starting i m (sched t)" and "i \<noteq> m" and "Waits \<notin> set es"
  shows "\<exists>t' R. play m (es @ [Yields] @ fs @ [Wakes, Idles]) t = Inr t' \<and> crew i m (sched t') \<and> running_ok (sched t') R [i, m] \<and>
    kthread_current (sched t') = m \<and> jiffies t' = jiffies t + of_nat (ticks_in (es @ fs))"
proof -
  obtain t1 where t1: "play m es t = Inr t1" "starting i m (sched t1) \<or> going i m (sched t1)" "jiffies t1 = jiffies t + of_nat (ticks_in es)"
    using starting_play [OF assms] by blast
  obtain t2 where t2: "happens m Yields t1 = Inr t2" "going i m (sched t2)" "jiffies t2 = jiffies t1"
    using t1(2) starting_step [of i m t1 Yields] going_step [of i m t1 Yields] assms(2) by auto
  obtain t3 where t3: "play m fs t2 = Inr t3" "going i m (sched t3)" "jiffies t3 = jiffies t2 + of_nat (ticks_in fs)"
    using going_play [OF t2(2), of fs] by blast
  obtain t4 where t4: "play m [Wakes, Idles] t3 = Inr t4" "going i m (sched t4)" "kthread_current (sched t4) = m" "jiffies t4 = jiffies t3"
    using back_to_main [OF t3(2) assms(2)] by blast
  have "play m (es @ [Yields] @ fs @ [Wakes, Idles]) t = Inr t4"
    unfolding play_append using t1(1) t2(1) t3(1) t4(1) by (simp del: happens.simps)
  moreover obtain R where "running_ok (sched t4) R [i, m]" "crew i m (sched t4)" using t4(2) by (auto simp: going_def)
  moreover have "jiffies t4 = jiffies t + of_nat (ticks_in (es @ fs))" using t1(3) t2(3) t3(3) t4(4) by (simp add: ticks_in_def algebra_simps)
  ultimately show ?thesis using t4(3) by blast
qed

text \<open>The state \<open>kthread_init\<close> leaves is such a start once interrupts are on.\<close>

lemma started_starting:
  assumes "started k esp s s'"
  shows "starting (heap_page k) (kthread_current s) (s'\<lparr>intr_on := True\<rparr>)"
  using assms by (auto simp: started_def starting_def crew_def intr_free sched_simps)

end
