(* ===== verification/KLoader.thy ===== *)
theory KLoader
  imports KHeapRep
begin

text \<open>
  The loader, \<open>code/boot/loader.s\<close>, in its 32-bit part and the search for the memory size: the page tables it builds
  (\<open>setup_page\<close>), the memory size it leaves at \<open>MEM_SIZE_ADDR\<close>, the sectors it reads (\<open>read_hd_32\<close>) and the
  segments it copies (\<open>kernel_decode_elf\<close>). Each loop is a function of the registers it uses; the stack of the loader
  and the messages it prints are left out.
\<close>

section \<open>Page tables\<close>

definition PAGE_DIR_ADDR :: u32 where "PAGE_DIR_ADDR = 0x100000"
definition PAGE_TABLE_ADDR :: u32 where "PAGE_TABLE_ADDR = 0x101000"
definition PG_US_S :: u32 where "PG_US_S = 0"

text \<open>The three loops store \<open>ecx\<close> consecutive words; they differ in what they add to \<open>eax\<close>, 0 or 4096.\<close>

fun fill_entries :: "nat \<Rightarrow> u32 \<Rightarrow> u32 \<Rightarrow> u32 \<Rightarrow> u32 \<Rightarrow> (u32 \<Rightarrow> u32) \<Rightarrow> u32 \<Rightarrow> u32" where
  "fill_entries 0 step ax bx si m = m"
| "fill_entries (Suc cx) step ax bx si m = fill_entries cx step (ax + step) bx (si + 1) (m(bx + si * 4 := ax))"

definition setup_page :: "(u32 \<Rightarrow> u32) \<Rightarrow> u32 \<Rightarrow> u32" where
  "setup_page m =
     (let bx = PAGE_DIR_ADDR;
          m1 = fill_entries 1024 0 0 bx 0 m;
          ax = PAGE_TABLE_ADDR OR PG_US_S OR PG_RW_W OR PG_P_1;
          m2 = m1(bx + 0 * 4 := ax, bx + 768 * 4 := ax);
          m3 = fill_entries 254 0x1000 (ax + 0x1000) bx 769 m2;
          m4 = m3(bx + 1023 * 4 := PAGE_DIR_ADDR OR PG_US_S OR PG_RW_W OR PG_P_1)
      in fill_entries 256 0x1000 (0 OR PG_US_S OR PG_RW_W OR PG_P_1) PAGE_TABLE_ADDR 0 m4)"

text \<open>\<open>cr3\<close> is loaded, which empties the translation cache, and paging is on.\<close>

definition enable_paging :: "(u32 \<Rightarrow> u32) \<Rightarrow> mmu" where
  "enable_paging m = \<lparr>cr3 = PAGE_DIR_ADDR, pmem = setup_page m, tlb = Map.empty\<rparr>"

lemma fill_entries_at:
  assumes "4 * n < 2 ^ 32"
  shows "fill_entries n step ax bx si m a =
    (let k = unat (a - (bx + si * 4)) in if k < 4 * n \<and> k mod 4 = 0 then ax + of_nat (k div 4) * step else m a)"
  using assms
proof (induction n arbitrary: ax si m)
  case (Suc n)
  let ?k = "unat (a - (bx + si * 4))" and ?k' = "unat (a - (bx + (si + 1) * 4))"
  have d: "a - (bx + (si + 1) * 4) = a - (bx + si * 4) - 4" by (simp add: algebra_simps)
  have ih: "fill_entries (Suc n) step ax bx si m a =
      (if ?k' < 4 * n \<and> ?k' mod 4 = 0 then ax + step + of_nat (?k' div 4) * step else (m(bx + si * 4 := ax)) a)"
    unfolding fill_entries.simps by (rule Suc.IH [unfolded Let_def]) (use Suc.prems in simp)
  consider "?k = 0" | "0 < ?k" "?k < 4" | "4 \<le> ?k" by linarith
  then show ?case
  proof cases
    case 1
    then have z: "a = bx + si * 4" by (simp add: unat_eq_zero)
    have "?k' = 2 ^ 32 - 4" unfolding d z using unat_minus_of_nat [of 4] by simp
    then show ?thesis unfolding ih Let_def using Suc.prems 1 z by simp
  next
    case 2
    then have w: "?k' = 2 ^ 32 + ?k - 4" unfolding d by (simp add: unat_sub_if_size word_size)
    have "\<not> ?k' < 4 * n" using w Suc.prems by simp
    moreover have "?k mod 4 \<noteq> 0" "a \<noteq> bx + si * 4" using 2 by auto
    ultimately show ?thesis unfolding ih Let_def by simp
  next
    case 3
    then have w: "?k' = ?k - 4" unfolding d by (subst unat_sub_small) simp_all
    obtain j where j: "?k = j + 4" using 3 by (metis le_add_diff_inverse2)
    have "a \<noteq> bx + si * 4" using 3 by auto
    moreover have "(j + 4) div 4 = Suc (j div 4)" by simp
    ultimately show ?thesis unfolding ih Let_def w j by (simp add: algebra_simps)
  qed
qed simp

text \<open>What \<open>setup_page\<close> leaves in every word of memory, by its distance from the directory.\<close>

lemma setup_page_at:
  fixes a :: u32
  defines "k \<equiv> unat (a - 0x100000)"
  shows "setup_page m a =
    (if 4096 \<le> k \<and> k < 5120 \<and> k mod 4 = 0 then 3 + of_nat ((k - 4096) div 4) * 0x1000
     else if k = 4092 then 0x100003
     else if 3076 \<le> k \<and> k < 4092 \<and> k mod 4 = 0 then 0x102003 + of_nat ((k - 3076) div 4) * 0x1000
     else if k = 0 \<or> k = 3072 then 0x101003
     else if k < 4096 \<and> k mod 4 = 0 then 0 else m a)"
proof -
  have sub: "unat (a - (0x100000 + c)) = (if unat c \<le> k then k - unat c else 2 ^ 32 + k - unat c)" for c
  proof -
    have "a - (0x100000 + c) = a - 0x100000 - c" by simp
    then show ?thesis unfolding k_def by (simp only: unat_sub_if_size word_size) simp
  qed
  have eq: "a = 0x100000 + c \<longleftrightarrow> k = unat c" for c
    unfolding k_def by (metis add_diff_cancel_left' add_diff_cancel_right' diff_add_cancel add.commute unsigned_word_eqI)
  have s: "unat (a - 0x101000) = (if 4096 \<le> k then k - 4096 else 2 ^ 32 + k - 4096)"
      "unat (a - 0x100C04) = (if 3076 \<le> k then k - 3076 else 2 ^ 32 + k - 3076)"
      "a = 0x100000 \<longleftrightarrow> k = 0" "a = 0x100C00 \<longleftrightarrow> k = 3072" "a = 0x100FFC \<longleftrightarrow> k = 4092" "unat (a - 0x100000) = k"
    using sub [of "0x1000"] sub [of "0xC04"] eq [of 0] eq [of "0xC00"] eq [of "0xFFC"] by (simp_all add: k_def)
  have lt: "k < 2 ^ 32" unfolding k_def using unsigned_less [of "a - 0x100000"] by simp
  have md: "4096 \<le> k \<Longrightarrow> (k - 4096) mod 4 = k mod 4" "3076 \<le> k \<Longrightarrow> (k - 3076) mod 4 = k mod 4"
    using mod_add_right_eq [of "k - 4096" 4096 4] mod_add_right_eq [of "k - 3076" 3076 4] by simp_all
  let ?m2 = "(fill_entries 1024 0 0 0x100000 0 m)(0x100000 := 0x101003, 0x100C00 := 0x101003)"
  let ?m4 = "(fill_entries 254 0x1000 0x102003 0x100000 769 ?m2)(0x100FFC := 0x100003)"
  have m1: "fill_entries 1024 0 0 0x100000 0 m a = (if k < 4096 \<and> k mod 4 = 0 then 0 else m a)"
    unfolding fill_entries_at [of 1024, simplified] Let_def by (simp add: s(6))
  then have m2: "?m2 a = (if k = 0 \<or> k = 3072 then 0x101003 else if k < 4096 \<and> k mod 4 = 0 then 0 else m a)" using s(3,4) by simp
  have "fill_entries 254 0x1000 0x102003 0x100000 769 ?m2 a =
      (if 3076 \<le> k \<and> k < 4092 \<and> k mod 4 = 0 then 0x102003 + of_nat ((k - 3076) div 4) * 0x1000 else ?m2 a)"
    unfolding fill_entries_at [of 254, simplified] Let_def by (simp add: s(2) md del: fun_upd_apply) (use md in linarith)
  then have m4: "?m4 a = (if k = 4092 then 0x100003
      else if 3076 \<le> k \<and> k < 4092 \<and> k mod 4 = 0 then 0x102003 + of_nat ((k - 3076) div 4) * 0x1000 else ?m2 a)" using s(5) by simp
  have "fill_entries 256 0x1000 3 0x101000 0 ?m4 a =
      (if 4096 \<le> k \<and> k < 5120 \<and> k mod 4 = 0 then 3 + of_nat ((k - 4096) div 4) * 0x1000 else ?m4 a)"
    unfolding fill_entries_at [of 256, simplified] Let_def
    by (cases "4096 \<le> k"; cases "k < 5120") (simp_all add: s(1) md less_diff_conv2 del: fun_upd_apply)
  moreover have "setup_page m = fill_entries 256 0x1000 3 0x101000 0 ?m4"
    by (simp add: setup_page_def Let_def PAGE_DIR_ADDR_def PAGE_TABLE_ADDR_def PG_US_S_def PG_RW_W_def PG_P_1_def)
  ultimately show ?thesis unfolding m4 m2 by simp
qed

text \<open>The directory and the first 256 entries of the first table are those of \<open>boot_mmu\<close>; every other word stays.\<close>

lemma aligned_minus: "unat (a - 0x100000) mod 4 = 0 \<longleftrightarrow> a mod 4 = (0 :: u32)"
proof -
  have "unat (a - 0x100000) mod 4 = unat a mod 4"
  proof (cases "0x100000 \<le> unat a")
    case True
    then obtain x where x: "unat a = x + 0x100000" using le_iff_add by (metis add.commute)
    then have "unat (a - 0x100000) = x" by (simp add: unat_sub_if_size word_size)
    then show ?thesis unfolding x using mod_add_right_eq [of x "0x100000" 4] by simp
  next
    case False
    then have "unat (a - 0x100000) = unat a + (2 ^ 32 - 0x100000)" by (simp add: unat_sub_if_size word_size)
    then show ?thesis using mod_add_right_eq [of "unat a" "2 ^ 32 - 0x100000" 4] by simp
  qed
  then show ?thesis by (simp add: unat_mod flip: unat_eq_zero)
qed

lemma setup_page_boot:
  "setup_page m a = (if a mod 4 = 0 \<and> a - 0x100000 < 0x1400 then mmu.pmem boot_mmu a else m a)"
proof -
  define k where "k = unat (a - 0x100000)"
  note at = setup_page_at [of m a, folded k_def] and al = aligned_minus [of a, folded k_def]
  show ?thesis
  proof (cases "a mod 4 = 0 \<and> a - 0x100000 < 0x1400")
    case False
    then have k: "\<not> (k mod 4 = 0 \<and> k < 5120)" unfolding al by (auto simp: k_def word_less_nat_alt)
    then have "k \<noteq> 0" "k \<noteq> 3072" "k \<noteq> 4092" by auto
    then show ?thesis using False k unfolding at by auto
  next
    case True
    then obtain j where j: "k = 4 * j" "j < 1280" unfolding al [symmetric] by (auto simp: k_def word_less_nat_alt elim: dvdE)
    have d: "unat (a - 0x100000) = 4 * j" "(a - 0x100000) div 4 = of_nat j"
      using j by (simp_all add: k_def unat_of_nat_less unat_div word_unat_eq_iff)
    have u: "unat (of_nat j :: u32) = j" using j by (simp add: unat_of_nat_less)
    show ?thesis
    proof (cases "1024 \<le> j")
      case big: True
      have lt: "j - 1024 < 256" using j big by linarith
      have "a - 0x101000 = a - 0x100000 - 0x1000" by simp
      then have e: "unat (a - 0x101000) = 4 * (j - 1024)" using d big by (simp only: unat_sub_if_size word_size) simp
      then have "(a - 0x101000) div 4 = of_nat (j - 1024)" using j by (simp add: unat_of_nat_less unat_div word_unat_eq_iff)
      then have "mmu.pmem boot_mmu a = of_nat (j - 1024) * 0x1000 + 3"
        using True d(1) e big lt by (simp add: boot_mmu_def word_less_nat_alt)
      moreover have "setup_page m a = 3 + of_nat (j - 1024) * 0x1000"
      proof -
        have "4 * j - 4096 = 4 * (j - 1024)" by simp
        then show ?thesis using j(2) big unfolding at j(1) by simp
      qed
      ultimately show ?thesis using True by simp
    next
      case False
      have c: "of_nat j = (0 :: u32) \<longleftrightarrow> j = 0" "of_nat j = (768 :: u32) \<longleftrightarrow> j = 768" "of_nat j = (1023 :: u32) \<longleftrightarrow> j = 1023"
          "768 < (of_nat j :: u32) \<longleftrightarrow> 768 < j" "(of_nat j :: u32) < 1023 \<longleftrightarrow> j < 1023"
        using u by (simp_all add: word_unat_eq_iff word_less_nat_alt)
      have "mmu.pmem boot_mmu a = boot_pde (of_nat j)" using True False d by (simp add: boot_mmu_def word_less_nat_alt)
      moreover have "setup_page m a = boot_pde (of_nat j)"
      proof (cases "769 \<le> j \<and> j < 1023")
        case True
        then obtain i where i: "j = i + 769" by (metis add.commute le_Suc_ex)
        then show ?thesis using True unfolding at j(1) boot_pde_def c by (simp add: algebra_simps)
      next
        case mid: False
        then show ?thesis using False unfolding at j(1) boot_pde_def c by auto
      qed
      ultimately show ?thesis using True by simp
    qed
  qed
qed

lemma setup_page_dir:
  assumes "j < 1024" shows "setup_page m (0x100000 + of_nat j * 4) = boot_pde (of_nat j)"
proof -
  have u: "unat (of_nat j * 4 :: u32) = 4 * j" using assms by (simp add: unat_mult_small unat_of_nat_less)
  let ?a = "0x100000 + of_nat j * 4 :: u32"
  have k: "unat (?a - 0x100000) = 4 * j" using u by simp
  have "unat ((?a - 0x100000) div 4) = j" unfolding unat_div k by simp
  then have "(?a - 0x100000) div 4 = of_nat j" using assms by (simp add: word_unat_eq_iff unat_of_nat_less)
  moreover have "?a mod 4 = 0" using k aligned_minus [of ?a] by simp
  ultimately show ?thesis unfolding setup_page_boot using k assms by (simp add: boot_mmu_def word_less_nat_alt)
qed

text \<open>The hardware walk over these tables.\<close>

definition leftover :: "u32 \<Rightarrow> u32 \<Rightarrow> u32 option" where
  "leftover e v = (if bit e 0 then Some (page_of e + page_offset v) else None)"

lemma paging_dir: "mmu.pmem (enable_paging m) (pde_paddr (enable_paging m) v) = boot_pde (dir_idx v)"
proof -
  let ?d = "dir_idx v"
  have d: "unat ?d < 1024" by (rule idx10_unat [OF small_index(1)])
  have "pde_paddr (enable_paging m) v = 0x100000 + of_nat (unat ?d) * 4" by (simp add: pde_paddr_def enable_paging_def PAGE_DIR_ADDR_def)
  then show ?thesis using setup_page_dir [OF d, of m] by (simp add: enable_paging_def)
qed

lemma paging_walk:
  fixes m :: "u32 \<Rightarrow> u32" and v :: u32
  defines "d \<equiv> unat (dir_idx v)" and "t \<equiv> unat (tab_idx v)"
  shows "d = 0 \<or> d = 768 \<Longrightarrow> t < 256 \<Longrightarrow> walk (enable_paging m) v = Some (of_nat (t * 4096) + page_offset v)"
    and "d = 0 \<or> d = 768 \<Longrightarrow> 256 \<le> t \<Longrightarrow> walk (enable_paging m) v = leftover (m (0x101000 + of_nat (t * 4))) v"
    and "0 < d \<Longrightarrow> d < 768 \<Longrightarrow> walk (enable_paging m) v = None"
    and "768 < d \<Longrightarrow> d < 1023 \<Longrightarrow> walk (enable_paging m) v = leftover (m (0x101000 + of_nat ((d - 768) * 4096 + t * 4))) v"
proof -
  let ?u = "enable_paging m"
  have lim: "d < 1024" "t < 1024" unfolding d_def t_def by (rule idx10_unat [OF small_index(1)], rule idx10_unat [OF small_index(2)])
  have dt: "dir_idx v = of_nat d" "tab_idx v = of_nat t" by (simp_all add: d_def t_def)
  have low: "page_of (boot_pde (of_nat d)) = 0x101000" "bit (boot_pde (of_nat d)) 0" if "d = 0 \<or> d = 768"
    using that by (auto simp: boot_pde_def page_of_def bit_iff_odd)
  have p: "pte_paddr ?u v = page_of (boot_pde (of_nat d)) + of_nat (t * 4)" unfolding pte_paddr_def paging_dir dt by simp
  have "boot_pde (of_nat d) = 0" if "0 < d" "d < 768"
  proof -
    have "unat (of_nat d :: u32) = d" using lim by (simp add: unat_of_nat_less)
    then show ?thesis using that unfolding boot_pde_def by (auto simp: word_unat_eq_iff word_less_nat_alt)
  qed
  then show "walk ?u v = None" if "0 < d" "d < 768" using that by (simp add: walk_def paging_dir dt)
  have t4: "unat (of_nat (t * 4) :: u32) = t * 4" by (rule unat_of_nat_less) (use lim in simp)
  let ?a = "0x101000 + of_nat (t * 4) :: u32"
  have ua: "unat (?a - 0x101000) = t * 4" using t4 by simp
  have ub: "unat (?a - 0x100000) = 0x1000 + t * 4" using t4 lim by (simp add: unat_add_small)
  have al: "?a mod 4 = 0" unfolding aligned_minus [symmetric] ub by simp
  have e: "setup_page m ?a = (if t < 256 then of_nat (t * 4096) + 3 else m ?a)"
  proof (cases "t < 256")
    case True
    have "unat ((?a - 0x101000) div 4) = t" unfolding unat_div ua by simp
    then have "(?a - 0x101000) div 4 = of_nat t" using lim by (simp add: word_unat_eq_iff unat_of_nat_less)
    then show ?thesis unfolding setup_page_boot using True al ua ub by (simp add: boot_mmu_def word_less_nat_alt)
  next
    case False
    then show ?thesis unfolding setup_page_boot using ub by (simp add: word_less_nat_alt)
  qed
  have pm: "pmem ?u = setup_page m" by (simp add: enable_paging_def)
  have w: "walk ?u v = leftover (setup_page m (pte_paddr ?u v)) v" if "bit (boot_pde (of_nat d)) 0"
    using that paging_dir [of m v] unfolding walk_def leftover_def pm [symmetric] dt by simp
  have wl: "walk ?u v = leftover (setup_page m ?a) v" if "d = 0 \<or> d = 768"
    using w low [OF that] unfolding p by simp
  show "walk ?u v = leftover (m ?a) v" if "d = 0 \<or> d = 768" "256 \<le> t" using wl [OF that(1)] that(2) e by simp
  show "walk ?u v = Some (of_nat (t * 4096) + page_offset v)" if "d = 0 \<or> d = 768" "t < 256"
  proof -
    let ?e = "of_nat (t * 4096) + 3 :: u32"
    have n: "unat (of_nat (t * 4096) :: u32) = t * 4096" by (rule unat_of_nat_less) (use lim in simp)
    then have u: "unat ?e = t * 4096 + 3" using that(2) by (subst unat_add_small) simp_all
    have "page_of ?e = of_nat (t * 4096)" unfolding word_unat_eq_iff page_of_unat u n by simp
    moreover have "odd (unat ?e)" unfolding u by simp
    then have "bit ?e 0" by (metis bit_0 bit_unsigned_iff bit_imp_le_length even_unset_bit_iff unat_eq_nat_uint)
    ultimately show ?thesis using wl [OF that(1)] that(2) e by (simp add: leftover_def)
  qed
  show "walk ?u v = leftover (m (0x101000 + of_nat ((d - 768) * 4096 + t * 4))) v" if "768 < d" "d < 1023"
  proof -
    let ?b = "boot_pde (of_nat d)" and ?n = "(d - 768) * 4096"
    have d: "unat (of_nat d :: u32) = d" using lim by (simp add: unat_of_nat_less)
    have ub: "unat ?b = 0x101003 + ?n" using boot_pde_heap [of "of_nat d"] that d by simp
    then have "odd (unat ?b)" by simp
    then have b: "bit ?b 0" by (metis bit_0 bit_unsigned_iff bit_imp_le_length even_unset_bit_iff unat_eq_nat_uint)
    have "(0x101003 + n * 4096) div 4096 * 4096 = 0x101000 + n * (4096 :: nat)" for n by simp
    then have up: "unat (page_of ?b) = 0x101000 + ?n" unfolding page_of_unat ub .
    let ?c = "0x101000 + of_nat (?n + t * 4) :: u32"
    have n: "unat (of_nat (?n + t * 4) :: u32) = ?n + t * 4" by (rule unat_of_nat_less) (use lim in simp)
    have "unat (page_of ?b + of_nat (t * 4)) = 0x101000 + ?n + t * 4" using up t4 lim by (subst unat_add_small) simp_all
    moreover have "unat ?c = 0x101000 + ?n + t * 4" using n lim by (subst unat_add_small) simp_all
    ultimately have c: "pte_paddr ?u v = ?c" unfolding p word_unat_eq_iff by simp
    have "?c - 0x100000 = of_nat (?n + t * 4) + 0x1000" by simp
    then have "unat (?c - 0x100000) = ?n + t * 4 + 0x1000" using n lim by (simp only:) (subst unat_add_small; simp)
    moreover have "1 * 4096 \<le> ?n" using that by (intro mult_le_mono1) simp
    ultimately have "\<not> ?c - 0x100000 < 0x1400" unfolding word_less_nat_alt by simp
    then have "setup_page m ?c = m ?c" unfolding setup_page_boot by simp
    then show ?thesis using w [OF b] unfolding c by simp
  qed
qed

text \<open>The first megabyte stands at address 0 and at 3 GB.\<close>

lemma page_offset_unat: "unat (page_offset v) = unat v mod 4096"
proof -
  have "page_offset v = take_bit 12 v" by (rule bit_word_eqI) (auto simp: bit_page_offset bit_simps)
  then have "unat (page_offset v) = take_bit 12 (unat v)" by (simp only: unsigned_take_bit_eq)
  then show ?thesis by (simp add: take_bit_eq_mod)
qed

lemma low_address:
  assumes "unat v < 0x100000"
  shows "unat (dir_idx v) = 0" "unat (tab_idx v) = unat v div 4096" "of_nat (unat v div 4096 * 4096) + page_offset v = v"
    "unat (dir_idx (0xC0000000 + v)) = 768" "unat (tab_idx (0xC0000000 + v)) = unat v div 4096" "page_offset (0xC0000000 + v) = page_offset v"
proof -
  show "unat (dir_idx v) = 0" using assms by (simp add: drop_bit_eq_div unat_div)
  show "unat (tab_idx v) = unat v div 4096" unfolding tab_idx_unat using assms by simp
  have n: "unat (of_nat (unat v div 4096 * 4096) :: u32) = unat v div 4096 * 4096" by (rule unat_of_nat_less [OF le_less_trans [OF div_times_less_eq_dividend]]) (use assms in simp)
  have s: "unat v div 4096 * 4096 + unat v mod 4096 = unat v" by simp
  then have "unat (of_nat (unat v div 4096 * 4096) + page_offset v) = unat v"
    using assms by (subst unat_add_small) (simp_all only: n page_offset_unat, simp)
  then show "of_nat (unat v div 4096 * 4096) + page_offset v = v" by (rule unsigned_word_eqI)
  have u: "unat (0xC0000000 + v) = 0xC0000000 + unat v" using assms by (subst unat_add_small) simp_all
  show "unat (dir_idx (0xC0000000 + v)) = 768" using assms by (simp add: drop_bit_eq_div unat_div u)
  have "(0xC0000 + x) mod 1024 = x mod (1024 :: nat)" for x using mod_add_left_eq [of "0xC0000" 1024 x] by simp
  moreover have "(0xC0000000 + x) div 4096 = 0xC0000 + x div (4096 :: nat)" for x by simp
  ultimately show "unat (tab_idx (0xC0000000 + v)) = unat v div 4096" unfolding tab_idx_unat u using assms by simp
  have "(0xC0000000 + x) mod 4096 = x mod (4096 :: nat)" for x using mod_add_left_eq [of "0xC0000000" 4096 x] by simp
  then show "page_offset (0xC0000000 + v) = page_offset v" unfolding word_unat_eq_iff page_offset_unat u by simp
qed

lemma paging_low:
  assumes "unat v < 0x100000"
  shows "walk (enable_paging m) v = Some v" "walk (enable_paging m) (0xC0000000 + v) = Some v"
proof -
  note a = low_address [OF assms]
  have t: "unat v div 4096 < 256" using assms by simp
  show "walk (enable_paging m) v = Some v" using paging_walk(1) [of v m] t a(3) unfolding a(1,2) by simp
  show "walk (enable_paging m) (0xC0000000 + v) = Some v" using paging_walk(1) [of "0xC0000000 + v" m] t a(3) unfolding a(4,5,6) by simp
qed

lemma paging_boot: "(\<And>a. m a = 0) \<Longrightarrow> enable_paging m = boot_mmu"
proof -
  assume z: "\<And>a. m a = 0"
  have "setup_page m a = pmem boot_mmu a" for a
  proof (cases "a mod 4 = 0 \<and> a - 0x100000 < 0x1400")
    case False
    have "a - 0x100000 < 0x1400" if "a - 0x101000 < 0x400"
    proof -
      have "a - 0x100000 = a - 0x101000 + 0x1000" by simp
      then have "unat (a - 0x100000) = unat (a - 0x101000) + 0x1000" using that by (simp only:) (subst unat_add_small; simp add: word_less_nat_alt)
      then show ?thesis using that by (simp add: word_less_nat_alt)
    qed
    moreover have "a - 0x100000 < 0x1400" if "a - 0x100000 < 0x1000" using that by (simp add: word_less_nat_alt)
    ultimately show ?thesis using False z unfolding setup_page_boot by (auto simp: boot_mmu_def)
  qed (simp add: setup_page_boot)
  then show "enable_paging m = boot_mmu" by (simp add: enable_paging_def boot_mmu_def PAGE_DIR_ADDR_def fun_eq_iff)
qed

section \<open>Properties\<close>

text \<open>C18: the page tables of the loader. Whatever memory held before, after \<open>setup_page\<close> the first megabyte is mapped one
  to one and again at 3 GB, and nothing else is mapped below 3 GB but what the first table shares. The entries above,
  of the first table from 256 on and of the tables of the kernel space, are not written: a word left there with bit 0
  set is a mapping. Over cleared memory the tables are those the page allocator starts from.\<close>

theorem setup_page_maps:
  fixes m :: "u32 \<Rightarrow> u32" and v :: u32
  shows "(unat v < 0x100000 \<longrightarrow> walk (enable_paging m) v = Some v \<and> walk (enable_paging m) (0xC0000000 + v) = Some v) \<and>
    (0 < unat (dir_idx v) \<and> unat (dir_idx v) < 768 \<longrightarrow> walk (enable_paging m) v = None) \<and>
    (unat (dir_idx v) \<in> {0, 768} \<and> 256 \<le> unat (tab_idx v) \<longrightarrow>
       walk (enable_paging m) v = leftover (m (0x101000 + of_nat (unat (tab_idx v) * 4))) v) \<and>
    (768 < unat (dir_idx v) \<and> unat (dir_idx v) < 1023 \<longrightarrow>
       walk (enable_paging m) v = leftover (m (0x101000 + of_nat ((unat (dir_idx v) - 768) * 4096 + unat (tab_idx v) * 4))) v) \<and>
    ((\<forall>a. m a = 0) \<longrightarrow> enable_paging m = boot_mmu)"
  using paging_low [of v m] paging_walk(2-4) [of v m] paging_boot [of m] by blast

text \<open>A word left at the entry 256 of the first table shows the kernel a page it did not map.\<close>

theorem setup_page_maps_witness:
  "walk (enable_paging ((\<lambda>_. 0)(0x101400 := 0x5003))) 0xC0001234 = Some 0x1234 \<and>
   walk (enable_paging ((\<lambda>_. 0)(0x101400 := 0x5003))) 0xC0100008 = Some 0x5008 \<and>
   walk (enable_paging ((\<lambda>_. 0)(0x101400 := 0x5003))) 0x40000000 = None \<and> enable_paging (\<lambda>_. 0) = boot_mmu"
proof -
  let ?m = "(\<lambda>_. 0)(0x101400 := 0x5003) :: u32 \<Rightarrow> u32"
  have "walk (enable_paging ?m) 0xC0001234 = Some 0x1234" using setup_page_maps [of "0x1234" ?m] by simp
  moreover have "walk (enable_paging ?m) 0xC0100008 = Some 0x5008"
    using setup_page_maps [of "0xC0100008" ?m] by (simp add: leftover_def page_of_def page_offset_def bit_iff_odd)
  moreover have "walk (enable_paging ?m) 0x40000000 = None" using setup_page_maps [of "0x40000000" ?m] by simp
  moreover have "enable_paging (\<lambda>_. 0) = boot_mmu" using setup_page_maps [of 0 "\<lambda>_. 0"] by simp
  ultimately show ?thesis by blast
qed

end
