(* ===== verification/KInit.thy ===== *)
theory KInit
  imports KBoot KRun KEntry KLoader
begin

text \<open>
  The start of the whole kernel, \<open>kernel_init\<close> of \<open>code/kernel/src/init.c\<close>, over one state, and \<open>kernel_panic\<close> of
  \<open>code/kernel/src/assert.c\<close>. The parts meet in three places: the page allocator (heap, threads), the interrupt table
  (timer, disk driver) and the ports.
\<close>

section \<open>\<open>kernel_panic\<close>\<close>

text \<open>The five messages, the formats by their meaning.\<close>

definition ascii :: "string \<Rightarrow> u8 list" where
  "ascii = map of_char"

definition panic_text :: "u8 list \<Rightarrow> u32 \<Rightarrow> u8 list \<Rightarrow> u8 list \<Rightarrow> u8 list list" where
  "panic_text filename line func condition =
     [formatted (ascii ([nl] @ ''!!!!! error !!!!!'' @ [nl])) [],
      formatted (ascii (''Filename: %s'' @ [nl])) [Str filename],
      formatted (ascii (''Line: %d'' @ [nl])) [Num line],
      formatted (ascii (''Function: %s'' @ [nl])) [Str func],
      formatted (ascii (''Condition: %s'' @ [nl])) [Str condition]]"

text \<open>The state has the interrupt flag. \<open>Panic\<close> is the loop at the end; before it \<open>printk\<close> takes its mutex.\<close>

definition kernel_panic :: "u8 list \<Rightarrow> u32 \<Rightarrow> u8 list \<Rightarrow> u8 list \<Rightarrow> bool \<times> printk_state \<Rightarrow> stop \<times> bool \<times> printk_state" where
  "kernel_panic filename line func condition = (\<lambda>(intr, s).
     if printk_lock s \<noteq> NULL then (Blocked, False, s)
     else (Panic, False, s\<lparr>screen := screen s @ panic_text filename line func condition\<rparr>))"

definition kassert :: "bool \<Rightarrow> u8 list \<Rightarrow> u32 \<Rightarrow> u8 list \<Rightarrow> u8 list \<Rightarrow> bool \<times> printk_state \<Rightarrow> (stop \<times> bool \<times> printk_state) + unit" where
  "kassert holds filename line func condition s = (if holds then Inr () else Inl (kernel_panic filename line func condition s))"

lemma panic_text_lines:
  "panic_text f l g c = [ascii ([nl] @ ''!!!!! error !!!!!'' @ [nl]), ascii ''Filename: '' @ f @ [10],
     ascii ''Line: '' @ decimal l @ [10], ascii ''Function: '' @ g @ [10], ascii ''Condition: '' @ c @ [10]]"
  by (simp add: panic_text_def ascii_def formatted_def piece_def)

section \<open>\<open>kernel_init\<close>\<close>

text \<open>The state of the kernel: disk and file system, with the heap, the interrupt tables and the ports; scheduler; clock;
  table of system calls; \<open>printk\<close>.\<close>

record 'd kstate =
  k_fs :: "'d fs_state"
  k_sched :: sched_state
  k_jiffies :: u32
  k_syscalls :: "u32 \<Rightarrow> ptr"
  k_printk :: printk_state

text \<open>Addresses of the linker and of the boot stack.\<close>

record link =
  l_image :: image
  l_syscalls :: syscall_image
  l_timer_handler :: ptr
  l_kernel_thread :: ptr
  l_idle_thread :: ptr
  l_idle_name :: ptr
  l_esp :: ptr
  l_id_info :: ptr
  l_root_blk :: ptr
  l_super_block :: ptr

text \<open>The memory of pages is one for heap and scheduler; it is handed over around \<open>kthread_init\<close>. From \<open>intr_set_status(true)\<close> on
  the clock ticks, and \<open>ide_init\<close> and \<open>fs_init\<close> yield in \<open>msleep\<close> and block in \<open>sema_down\<close> while the disk works. \<open>qs\<close> says
  what happens to the threads in that time. Neither routine reads the clock or the lists of the scheduler but in those waits, and
  \<open>main\<close> is the running thread whenever a statement of theirs is executed, so that disk and threads are driven one after the
  other; every sequence of events is allowed, those of the real run among them. \<open>Blocked\<close>: \<open>main\<close> does not run at the end.\<close>

definition kernel_init :: "nat \<Rightarrow> nat \<Rightarrow> 'd platform \<Rightarrow> link \<Rightarrow> kevent list \<Rightarrow> 'd kstate \<Rightarrow> stop + 'd kstate" where
  "kernel_init fuel fuel' P l qs k =
     (let f1 = (k_fs k)\<lparr>heap := mem_init (heap (k_fs k))\<rparr>;
          (i1, d1) = intr_init (l_image l) (io P) (intr f1, hw f1);
          calls = syscall_init (l_syscalls l) (k_syscalls k);
          (t, i2, d2) = timer_init (io P) (\<lambda>v. register_handler v (l_timer_handler l)) (\<lparr>sched = k_sched k, jiffies = k_jiffies k\<rparr>, i1, d1);
          f2 = f1\<lparr>intr := i2, hw := d2\<rparr>
      in rbind (kthread_init (l_kernel_thread l) (l_idle_thread l) (l_idle_name l) (l_esp l)
             ((sched t)\<lparr>sched_state.mm := heap_state.mm (heap f2)\<rparr>)) (\<lambda>s1.
         let f3 = f2\<lparr>heap := (heap f2)\<lparr>heap_state.mm := sched_state.mm s1\<rparr>\<rparr>;
             pr = printk_init (k_printk k);
             t2 = t\<lparr>sched := s1\<lparr>intr_on := True\<rparr>\<rparr>;
             main = kthread_current s1
         in rbind (ide_init fuel P (l_id_info l) f3) (\<lambda>f4.
            rbind (fs_init fuel' P (l_root_blk l) (l_super_block l) f4) (\<lambda>f5.
            rbind (play main qs t2) (\<lambda>t3.
              if kthread_current (sched t3) \<noteq> main then Inl Blocked
              else Inr \<lparr>k_fs = f5, k_sched = (sched t3)\<lparr>sched_state.mm := heap_state.mm (heap f5)\<rparr>, k_jiffies = jiffies t3,
                k_syscalls = calls, k_printk = pr\<rparr>)))))"

section \<open>A page for a thread, seen from the heap\<close>

lemma heap_rep_page:
  assumes rep: "heap_rep L s" and pg: "page_given k (heap_state.mm s) m" and k: "k \<notin> vpages (heap_state.mm s)"
  shows "heap_rep L (s\<lparr>heap_state.mm := m\<rparr>)"
proof -
  obtain own big fl where r: "heap_inv {} own big fl s" "descs_free s" "L = live own big fl" using rep unfolding heap_rep_def by blast
  have ok: "mm_ok m" "kframe m = kframe (heap_state.mm s)" "kcap m = kcap (heap_state.mm s)" using pg by (simp_all add: page_given_def kframe_def fun_eq_iff)
  obtain f where m: "\<forall>l<HEAP_PAGES. mapping m l = (if l = k then Some (kframe (heap_state.mm s) f) else mapping (heap_state.mm s) l)"
    "vpages m = insert k (vpages (heap_state.mm s))" using pg unfolding page_given_def by blast
  have "backed m l" if "used own big l" for l
  proof -
    have b: "backed (heap_state.mm s) l" by (rule used_backed [OF r(1) that])
    then have "l \<noteq> k" using k mm_okD(2) [OF heap_invD(1) [OF r(1)], of k] by (auto simp: backed_def)
    then show ?thesis using b m ok pg by (auto simp: backed_def page_given_def)
  qed
  then have "heap_inv {} own big fl (s\<lparr>heap_state.mm := m\<rparr>)" by (rule heap_inv_mm [OF r(1) ok(1)])
  then show ?thesis using r(2,3) unfolding heap_rep_def by (auto simp: descs_free_def)
qed

lemma spare_page:
  assumes "spare (1 + q) m" and "page_given k m m'" and "k \<notin> vpages m"
  shows "spare q m'"
proof -
  obtain f where f: "f \<notin> pframes m" "pframes m' = insert f (pframes m)" using assms(2) unfolding page_given_def by blast
  have "card (pframes m') = Suc (card (pframes m))" using f pframes_sub(2) [of m] by simp
  moreover have "card (vpages m') = Suc (card (vpages m))" using assms(2,3) vpages_finite [of m] by (simp add: page_given_def)
  ultimately show ?thesis using assms(1,2) by (simp add: spare_def free_frames_def page_given_def) linarith
qed


section \<open>The other chips\<close>

text \<open>The drive does not listen at the ports of the interrupt controllers and of the timer.\<close>

lemma drive_deaf:
  assumes "base d = 0x1F0"
  shows "intr_init im ata_dev (i, d) = (idt_init im i, d)"
    and "timer_init ata_dev reg (s, j, d) = (s\<lparr>jiffies := 0\<rparr>, reg 0x20 j, d)"
proof -
  have o: "outb ata_dev 0x20 v d = d" "outb ata_dev 0x21 v d = d" "outb ata_dev 0xA0 v d = d" "outb ata_dev 0xA1 v d = d"
      "outb ata_dev 0x40 v d = d" "outb ata_dev 0x43 v d = d" for v
    by (simp_all add: outb_def ata_dev_def ata_out8_def assms)
  show "intr_init im ata_dev (i, d) = (idt_init im i, d)"
    by (simp add: intr_init_def pic_init_def Let_def PIC_M_CTRL_def PIC_M_DATA_def PIC_S_CTRL_def PIC_S_DATA_def o)
  show "timer_init ata_dev reg (s, j, d) = (s\<lparr>jiffies := 0\<rparr>, reg 0x20 j, d)"
    unfolding timer_init_def timer_set_def Let_def prod.case COUNTER_CTL_PORT_def CONTRER_PORT_0_def o ..
qed


section \<open>From the loader to a running kernel\<close>

text \<open>What the loader leaves: the page tables over cleared memory, the memory size, the kernel image with the name of the idle thread, the
  stack; and one drive, which needs no time between two sectors of a command. The processor keeps the translation of a page that is being
  given back until the call that gives it back is over (\<open>lingers\<close>).\<close>

definition loaded :: "(nat \<Rightarrow> u8 list) \<Rightarrow> link \<Rightarrow> u8 list \<Rightarrow> ata kstate \<Rightarrow> bool" where
  "loaded f l name k \<longleftrightarrow> (let h = heap (k_fs k); m = heap_state.mm h in
     unat (k_mem_block h) + 336 \<le> 0xC0100000 \<and> 0x200000 \<le> load32 (kmem m) MEM_SIZE_ADDR \<and> kmmu m = enable_paging (\<lambda>_. 0) \<and>
     start_ok ((k_sched k)\<lparr>sched_state.mm := m\<rparr>) \<and> cstr (kmem m) (l_idle_name l) name \<and> length name < 16 \<and>
     unat (l_idle_name l) + length name < 0xC0076000 \<and> one_drive f (hw (k_fs k)) \<and> gap (hw (k_fs k)) = 0 \<and> lingers h)"

text \<open>\<open>root_dir_init\<close> clears 4096 bytes at \<open>root_blk\<close>. They hold nothing else: not the block descriptors, the interrupt table, the
  lists of threads and of partitions.\<close>

definition clear_of :: "ptr \<Rightarrow> ptr \<Rightarrow> nat \<Rightarrow> bool" where
  "clear_of rb p n \<longleftrightarrow> unat p + n \<le> unat rb \<or> unat rb + 4096 \<le> unat p"

definition root_apart :: "link \<Rightarrow> ptr \<Rightarrow> ata kstate \<Rightarrow> bool" where
  "root_apart l pl k \<longleftrightarrow> 0xC0000000 \<le> unat (l_root_blk l) \<and> unat (l_root_blk l) + 4096 \<le> 0xC0076000 \<and>
     spares (l_root_blk l) (heap (k_fs k)) \<and> clear_of (l_root_blk l) pl 16 \<and> clear_of (l_root_blk l) (idt_table_at (l_image l)) 2048 \<and>
     clear_of (l_root_blk l) (task_ready_list (k_sched k)) 16 \<and> clear_of (l_root_blk l) (task_all_list (k_sched k)) 16"

lemma root_apartD:
  assumes "root_apart l pl k" and "unat pl + 16 \<le> 0xC0100000"
  shows "0xC0000000 \<le> unat (l_root_blk l)" and "unat (l_root_blk l) + 4096 \<le> 0xC0076000" and "spares (l_root_blk l) (heap (k_fs k))"
    and "\<not> in_range (l_root_blk l) 4096 pl"
proof -
  show r: "0xC0000000 \<le> unat (l_root_blk l)" "unat (l_root_blk l) + 4096 \<le> 0xC0076000" "spares (l_root_blk l) (heap (k_fs k))"
    using assms(1) by (simp_all add: root_apart_def)
  have "unat (l_root_blk l) + unat (4096 :: u32) \<le> 2 ^ 32" using r(2) by simp
  from in_range_unat [OF this, of pl] show "\<not> in_range (l_root_blk l) 4096 pl"
    using assms(1) by (auto simp: root_apart_def clear_of_def)
qed

lemma start_ok_mm: "start_ok (s\<lparr>sched_state.mm := m\<rparr>) \<Longrightarrow> cur_task m' = cur_task m \<Longrightarrow> start_ok (s\<lparr>sched_state.mm := m'\<rparr>)"
  by (simp add: start_ok_def kthread_current_def)

lemma running_mm: "cur_task m = kthread_current s \<Longrightarrow> running_ok (s\<lparr>sched_state.mm := m\<rparr>) R A = running_ok s R A"
  by (simp add: running_ok_def sched_ok_def links_ok_def others_ok_def kthread_current_def)

text \<open>Memory and threads: \<open>kthread_init\<close> over the heap that \<open>mem_init\<close> makes takes one page of it.\<close>

lemma loaded_threads:
  assumes ld: "loaded f l name k" and room: "in_budget (1 + q) (mem_init (heap (k_fs k)))"
  obtains s1 where "kthread_init (l_kernel_thread l) (l_idle_thread l) (l_idle_name l) (l_esp l)
      ((k_sched k)\<lparr>sched_state.mm := heap_state.mm (mem_init (heap (k_fs k)))\<rparr>) = Inr s1"
    and "starting (heap_page 0) (cur (k_fs k)) (s1\<lparr>intr_on := True\<rparr>)" and "kthread_current s1 = cur (k_fs k)"
    and "heap_page 0 \<noteq> cur (k_fs k)" and "heap_rep {} ((mem_init (heap (k_fs k)))\<lparr>heap_state.mm := sched_state.mm s1\<rparr>)"
    and "in_budget q ((mem_init (heap (k_fs k)))\<lparr>heap_state.mm := sched_state.mm s1\<rparr>)"
proof -
  let ?h = "heap (k_fs k)"
  let ?m = "heap_state.mm ?h"
  let ?m1 = "heap_state.mm (mem_init ?h)" and ?tot = "load32 (kmem ?m) MEM_SIZE_ADDR"
  have L: "unat (k_mem_block ?h) + 336 \<le> 0xC0100000" "0x200000 \<le> ?tot" "kmmu ?m = boot_mmu"
      "start_ok ((k_sched k)\<lparr>sched_state.mm := ?m\<rparr>)" "cstr (kmem ?m) (l_idle_name l) name" "length name < 16"
      "unat (l_idle_name l) + length name < 0xC0076000"
    using ld by (simp_all add: loaded_def Let_def paging_boot)
  note mi = mem_init_rep [OF _ L(2,3)]
  have rep: "heap_rep {} (mem_init ?h)" and m1: "?m1 = mm_boot ?tot (kmem ?m) (cur_task ?m) (arg_slot ?m)" using mi L(1) by (simp_all add: low_def)
  have sp: "spare (1 + q) ?m1" using room by (simp add: in_budget_def)
  have pg: "has_page 0 ?m1" using boot_has_page [OF L(2)] sp by (simp add: m1 spare_def)
  have v0: "0 \<notin> vpages ?m1" using mm_boot_ok(2) [OF L(2)] by (simp add: m1)
  have pl1: "pools_placed ?m1" unfolding m1 by (rule boot_placed(1) [OF L(2)])
  have "cstr (kmem ?m1) (l_idle_name l) name = cstr (kmem ?m) (l_idle_name l) name"
  proof (rule cstr_cong)
    fix i assume i: "i \<le> length name"
    have "unat (l_idle_name l + of_nat i) = unat (l_idle_name l) + i" using i L(6,7) by (subst unat_add_small) (simp_all add: unat_of_nat_less)
    then show "kmem ?m1 (l_idle_name l + of_nat i) = kmem ?m (l_idle_name l + of_nat i)" unfolding m1 using i L(7) by (intro boot_placed(2) [OF L(2)]) simp
  qed
  then have nm: "cstr (kmem ?m1) (l_idle_name l) name" using L(5) by simp
  let ?s0 = "(k_sched k)\<lparr>sched_state.mm := ?m1\<rparr>"
  have st: "start_ok ?s0" using start_ok_mm [OF L(4), of ?m1] by (simp add: m1)
  have c0: "kthread_current ?s0 = cur (k_fs k)" by (simp add: kthread_current_def m1 cur_def)
  obtain s1 where s1: "kthread_init (l_kernel_thread l) (l_idle_thread l) (l_idle_name l) (l_esp l) ?s0 = Inr s1" "started 0 (l_esp l) ?s0 s1"
    by (rule init_run [of 0 ?s0 "l_idle_name l" name "l_kernel_thread l" "l_idle_thread l" "l_esp l"]) (use pg pl1 nm L(6,7) st in simp_all)
  have g: "page_given 0 ?m1 (sched_state.mm s1)" using s1(2) by (simp add: started_def)
  show thesis
  proof (rule that [OF s1(1)])
    show "starting (heap_page 0) (cur (k_fs k)) (s1\<lparr>intr_on := True\<rparr>)" using started_starting [OF s1(2)] by (simp add: c0)
    show "kthread_current s1 = cur (k_fs k)" using s1(2) by (simp add: started_def c0)
    have "unat (cur (k_fs k)) + 4096 \<le> 0xC0100000" using st by (simp add: start_ok_def c0)
    moreover have "unat (heap_page 0) = 0xC0100000" by (simp add: heap_page_def K_HEAP_START_def)
    ultimately show "heap_page 0 \<noteq> cur (k_fs k)" by auto
    show "heap_rep {} ((mem_init ?h)\<lparr>heap_state.mm := sched_state.mm s1\<rparr>)" by (rule heap_rep_page [OF rep g v0])
    show "in_budget q ((mem_init ?h)\<lparr>heap_state.mm := sched_state.mm s1\<rparr>)" using spare_page [OF sp g v0] by (simp add: in_budget_def)
  qed
qed



subsection \<open>A machine of 32 MB with a disk of three partitions\<close>

definition demo_low :: mem where
  "demo_low = idle_name(MEM_SIZE_ADDR + 3 := 2)"

definition demo_kernel :: "ata kstate" where
  "demo_kernel = \<lparr>k_fs = (demo_probe parted)\<lparr>heap := \<lparr>heap_state.mm = (sched_state.mm demo_start)\<lparr>kmem := demo_low, kmmu := boot_mmu\<rparr>,
       arenas = (\<lambda>_. \<lparr>p_mem_block = NULL, a_cnt = 0, is_page_cnt = False\<rparr>),
       hnodes = (\<lambda>_. \<lparr>prev = NULL, nxt = NULL\<rparr>), hbytes = (\<lambda>_. 0xcc),
       descs = (\<lambda>_. \<lparr>block_size = 0, blocks_per_arena = 0, d_mlock = NULL\<rparr>), k_mem_block = 0xC0020000, lingers = True\<rparr>\<rparr>,
     k_sched = demo_start, k_jiffies = 7, k_syscalls = (\<lambda>_. NULL), k_printk = \<lparr>pmem = (\<lambda>_. 0), printk_lock = NULL, screen = []\<rparr>\<rparr>"

definition demo_link :: link where
  "demo_link = \<lparr>l_image = \<lparr>intr_entry = (\<lambda>v. 0xC0003000 + of_nat v * 16), syscall_entry_at = 0xC0003800, idt_table_at = 0xC0030000,
       intr_general_handler_at = 0xC0004000\<rparr>,
     l_syscalls = \<lparr>sys_test_syscall0_at = 0xC0004100, sys_test_syscall1_at = 0xC0004140, sys_test_syscall2_at = 0xC0004180,
       sys_test_syscall3_at = 0xC00041C0\<rparr>,
     l_timer_handler = 0xC0001800, l_kernel_thread = 0xC0001000, l_idle_thread = 0xC0002000, l_idle_name = 0xC0005000,
     l_esp = 0xC009EFF0, l_id_info = 0x9E000, l_root_blk = 0xC0010000, l_super_block = 0x9E000\<rparr>"

lemma demo_loaded: "loaded parted demo_link [0x69, 0x64, 0x6C, 0x65] demo_kernel"
proof -
  have "cstr demo_low 0xC0005000 [0x69, 0x64, 0x6C, 0x65]" "0x200000 \<le> load32 demo_low MEM_SIZE_ADDR"
    by (simp_all add: demo_low_def idle_name_def MEM_SIZE_ADDR_def load32_def)
  moreover have "one_drive parted (hw (demo_probe parted))" "gap (hw (demo_probe parted)) = 0"
    using demo_probe_ready(1,6) [of parted, OF parted_length] by blast+
  moreover have "start_ok (demo_start\<lparr>sched_state.mm := (sched_state.mm demo_start)\<lparr>kmem := demo_low, kmmu := boot_mmu\<rparr>\<rparr>)"
    using demo_start_ready(4) by (simp add: start_ok_def kthread_current_def)
  ultimately show ?thesis by (simp add: loaded_def demo_kernel_def demo_link_def paging_boot)
qed

lemma demo_kernel_fields:
  "ptn_nr (k_fs demo_kernel) = 0" "pend (hw (k_fs demo_kernel)) = 0" "inode_max (k_fs demo_kernel) = 0"
  "cur (k_fs demo_kernel) = 0xC009E000" "l_root_blk demo_link = 0xC0010000" "l_super_block demo_link = 0x9E000"
  "l_timer_handler demo_link = 0xC0001800" "root_apart demo_link 0x2000 demo_kernel"
proof -
  show "root_apart demo_link 0x2000 demo_kernel"
    by (simp add: root_apart_def clear_of_def spares_def demo_kernel_def demo_link_def demo_start_def)
qed (use demo_probe_ready(3-5) [of parted, OF parted_length] demo_start_ready(5)
    in \<open>simp_all add: demo_kernel_def demo_link_def cur_def kthread_current_def\<close>)

lemma demo_kernel_room: "q \<le> 3840 \<Longrightarrow> in_budget q (mem_init (heap (k_fs demo_kernel)))"
proof -
  let ?h = "heap (k_fs demo_kernel)"
  have t: "load32 (kmem (heap_state.mm ?h)) MEM_SIZE_ADDR = 0x2000000" "kmmu (heap_state.mm ?h) = boot_mmu" "low (k_mem_block ?h)"
    by (simp_all add: demo_kernel_def demo_low_def idle_name_def MEM_SIZE_ADDR_def load32_def low_def)
  have m: "heap_state.mm (mem_init ?h) = mm_boot 0x2000000 (kmem (heap_state.mm ?h)) (cur_task (heap_state.mm ?h)) (arg_slot (heap_state.mm ?h))"
    using mem_init_rep(2) [of ?h] t by simp
  show "q \<le> 3840 \<Longrightarrow> in_budget q (mem_init ?h)"
    unfolding in_budget_def spare_def m boot_frames boot_capacity using mm_boot_ok(2) [of "0x2000000"] by (simp add: HEAP_PAGES_def)
qed


end
