(* ===== verification/KImage.thy ===== *)
theory KImage
  imports KLoader KProbe
begin

text \<open>
  The loader, \<open>code/boot/loader.s\<close>, on memory and disk: the memory size it leaves at \<open>MEM_SIZE_ADDR\<close>
  (\<open>get_ram_size\<close>), the sectors it reads (\<open>read_hd_32\<close>) and the segments of the kernel it copies
  (\<open>kernel_decode_elf\<close>). Memory is physical; the addresses of the kernel go through the two windows that
  \<open>setup_page\<close> has made of the first megabyte.
\<close>

section \<open>Memory size\<close>

text \<open>
  The BIOS function is a parameter: from the continuation value in \<open>ebx\<close> it answers the bytes of a range descriptor,
  their number in \<open>cx\<close> and the next continuation value, 0 after the last one. Nothing else ends the loop \<open>e820\<close>.
\<close>

type_synonym e820_bios = "u32 \<Rightarrow> u8 list \<times> u16 \<times> u32"

definition ram_size :: ptr where "ram_size = 0x900"
definition ards_nr :: ptr where "ards_nr = 0x904"
definition ards_buf :: u16 where "ards_buf = 0x908"

partial_function (option) e820 :: "e820_bios \<Rightarrow> mem \<Rightarrow> u16 \<Rightarrow> u32 \<Rightarrow> mem option" where
  "e820 bios m di bx =
     (case bios bx of (ards, cx, bx') \<Rightarrow>
        let m1 = store_bytes m (ucast di) ards;
            m2 = store16 m1 ards_nr (load16 m1 ards_nr + 1)
        in if bx' \<noteq> 0 then e820 bios m2 (di + cx) bx' else Some m2)"

text \<open>\<open>loop\<close> counts before it tests: a count of 0 is one of \<open>2 ^ 16\<close>, or \<open>2 ^ 32\<close> in 32-bit code.\<close>

definition loop_count :: "'w::len word \<Rightarrow> nat" where
  "loop_count c = (if c = 0 then 2 ^ LENGTH('w) else unat c)"

fun find_max_addr_loop :: "nat \<Rightarrow> mem \<Rightarrow> ptr \<Rightarrow> u32 \<Rightarrow> u32" where
  "find_max_addr_loop 0 m bx dx = dx"
| "find_max_addr_loop (Suc n) m bx dx =
     (let ax = load32 m bx + load32 m (bx + 8)
      in find_max_addr_loop n m (bx + 20) (if ax \<le> dx then dx else ax))"

definition get_ram_size :: "e820_bios \<Rightarrow> mem \<Rightarrow> mem option" where
  "get_ram_size bios m = do {
     m1 \<leftarrow> e820 bios m ards_buf 0;
     Some (store32 m1 ram_size (find_max_addr_loop (loop_count (load16 m1 ards_nr)) m1 (ucast ards_buf) 0))
   }"

text \<open>A BIOS that reports the descriptors \<open>es\<close>, 20 bytes each, and the end of the range of one, in 32 bits.\<close>

fun reports :: "e820_bios \<Rightarrow> u32 \<Rightarrow> u8 list list \<Rightarrow> bool" where
  "reports bios k [] \<longleftrightarrow> False"
| "reports bios k (e # es) \<longleftrightarrow>
     (case bios k of (bs, cx, k') \<Rightarrow> bs = e \<and> length e = 20 \<and> cx = 20 \<and> (if es = [] then k' = 0 else k' \<noteq> 0 \<and> reports bios k' es))"

definition view :: "u8 list \<Rightarrow> mem" where
  "view bs = store_bytes (\<lambda>_. 0) 0 bs"

definition range_end :: "u8 list \<Rightarrow> u32" where
  "range_end e = load32 (view e) 0 + load32 (view e) 8"

lemma reports_length: "reports bios k es \<Longrightarrow> length (concat es) = 20 * length es"
  by (induction bios k es rule: reports.induct) (auto split: prod.splits if_splits)

lemma reports_each: "reports bios k es \<Longrightarrow> \<forall>e \<in> set es. length e = 20"
  by (induction bios k es rule: reports.induct) (auto split: prod.splits if_splits)

lemma stored_at: "store_bytes m p bs q = (if unat (q - p) < length bs then bs ! unat (q - p) else m q)"
  by (simp add: store_bytes_def)

lemma store_bytes_store16:
  assumes "\<not> unat (a - p) < length bs" "\<not> unat (a + 1 - p) < length bs"
  shows "store_bytes (store16 m a v) p bs = store16 (store_bytes m p bs) a v"
  using assms by (auto simp: fun_eq_iff store_bytes_def store16_def)

lemma load16_store_bytes:
  assumes "\<not> unat (a - p) < length bs" "\<not> unat (a + 1 - p) < length bs"
  shows "load16 (store_bytes m p bs) a = load16 m a"
  using assms by (simp add: load16_def store_bytes_def)

lemma store16_store16 [simp]: "store16 (store16 m a v) a w = store16 m a w"
  by (simp add: fun_eq_iff store16_def)

lemma unat_ucast16: "unat (ucast d :: u32) = unat (d :: u16)"
proof -
  have "unat d < 2 ^ 32" using unsigned_less [of d, where ?'a = nat] by simp
  then show ?thesis by (simp add: unsigned_ucast_eq take_bit_nat_eq_self)
qed

lemma below_outside: "unat a < unat p \<Longrightarrow> unat p + n \<le> 2 ^ 32 \<Longrightarrow> \<not> unat (a - p :: u32) < n"
  by (auto simp: unat_sub_if_size word_size)

lemma e820_run:
  assumes "reports bios k es" and "0x908 \<le> unat di" and "unat di + 20 * length es < 0x10000"
  shows "e820 bios m di k = Some (store16 (store_bytes m (ucast di) (concat es)) ards_nr (load16 m ards_nr + of_nat (length es)))"
  using assms
proof (induction es arbitrary: k m di)
  case (Cons e es)
  obtain k' where b: "bios k = (e, 20, k')" "length e = 20" "if es = [] then k' = 0 else k' \<noteq> 0 \<and> reports bios k' es"
    using Cons.prems(1) by (auto split: prod.splits)
  note u = unat_ucast16
  have next_di: "unat (di + 20) = unat di + 20" using Cons.prems(3) by (simp add: unat_word_ariths)
  then have p: "ucast (di + 20) = (ucast di + 20 :: u32)"
    using Cons.prems(3) by (simp add: word_unat_eq_iff u) (simp add: unat_word_ariths u)
  have out: "\<not> unat (a - ucast d) < n" if "a = ards_nr \<or> a = ards_nr + 1" "0x908 \<le> unat d" "unat d + n < 0x20000" for a :: u32 and d :: u16 and n
    using that by (intro below_outside) (auto simp: u ards_nr_def)
  let ?m1 = "store_bytes m (ucast di) e"
  let ?m2 = "store16 ?m1 ards_nr (load16 ?m1 ards_nr + 1)"
  have l1: "load16 ?m1 ards_nr = load16 m ards_nr" using Cons.prems by (intro load16_store_bytes out) (simp_all add: b(2))
  show ?case
  proof (cases "es = []")
    case True
    then show ?thesis using b l1 by (subst e820.simps) (simp add: Let_def)
  next
    case False
    then have r: "reports bios k' es" "k' \<noteq> 0" using b(3) by simp_all
    have len: "length (concat es) = 20 * length es" by (rule reports_length [OF r(1)])
    have "e820 bios ?m2 (di + 20) k' =
        Some (store16 (store_bytes ?m2 (ucast (di + 20)) (concat es)) ards_nr (load16 ?m2 ards_nr + of_nat (length es)))"
      using Cons.prems by (intro Cons.IH [OF r(1)]) (simp_all add: next_di)
    moreover have "store_bytes ?m2 (ucast (di + 20)) (concat es) =
        store16 (store_bytes ?m1 (ucast (di + 20)) (concat es)) ards_nr (load16 ?m1 ards_nr + 1)"
      using Cons.prems by (intro store_bytes_store16 out) (simp_all add: next_di len)
    moreover have "store_bytes ?m1 (ucast (di + 20)) (concat es) = store_bytes m (ucast di) (concat (e # es))"
      using store_bytes_append [of e "concat es" m "ucast di"] Cons.prems(3) b(2) by (simp add: p len)
    ultimately show ?thesis using b r l1 by (subst e820.simps) (simp add: Let_def load16_store16 algebra_simps)
  qed
qed simp

lemma load32_view:
  assumes "\<And>i. i < length bs \<Longrightarrow> m (p + of_nat i) = bs ! i" and "unat q + 4 \<le> length bs" and "length bs < 2 ^ 32"
  shows "load32 m (p + q) = load32 (view bs) q"
proof -
  have "m (p + (q + of_nat i)) = view bs (q + of_nat i)" if "i < 4" for i
  proof -
    have u: "unat (q + of_nat i) = unat q + i" using assms(2,3) that by (subst unat_add_small) (simp_all add: unat_of_nat_less)
    then have "view bs (q + of_nat i) = bs ! (unat q + i)" using assms(2) that by (simp add: view_def stored_at)
    moreover have "m (p + of_nat (unat q + i)) = bs ! (unat q + i)" using assms(2) that by (intro assms(1)) simp
    ultimately show ?thesis by simp
  qed
  from this [of 0] this [of 1] this [of 2] this [of 3] show ?thesis by (simp add: load32_def add.assoc)
qed

lemma find_max_run:
  assumes "\<And>x. x < length (concat es) \<Longrightarrow> m (p + of_nat x) = concat es ! x" and "\<forall>e \<in> set es. length e = 20"
  shows "find_max_addr_loop (length es) m p dx = foldl max dx (map range_end es)"
  using assms
proof (induction es arbitrary: p dx)
  case (Cons e es)
  have e: "length e = 20" using Cons.prems(2) by simp
  have "m (p + of_nat i) = e ! i" if "i < length e" for i using Cons.prems(1) [of i] that by (simp add: nth_append)
  from load32_view [of e m p, OF this] e have "load32 m p + load32 m (p + 8) = range_end e"
    using load32_view [of e m p 0, OF \<open>\<And>i. i < length e \<Longrightarrow> m (p + of_nat i) = e ! i\<close>] by (simp add: range_end_def)
  moreover have "m (p + 20 + of_nat x) = concat es ! x" if "x < length (concat es)" for x
    using Cons.prems(1) [of "20 + x"] that e by (simp add: nth_append add.assoc)
  then have "find_max_addr_loop (length es) m (p + 20) d = foldl max d (map range_end es)" for d
    using Cons.prems(2) by (intro Cons.IH) simp_all
  moreover have "(if range_end e \<le> dx then dx else range_end e) = max dx (range_end e)"
    using linear [of "range_end e" dx] by (auto simp: max_def)
  ultimately show ?case by (simp add: Let_def)
qed simp

lemma foldl_max_words: "xs \<noteq> [] \<Longrightarrow> foldl max 0 xs = Max (set (xs :: u32 list))"
proof -
  assume "xs \<noteq> []"
  have "foldl max a xs = Max (insert a (set xs))" for a
    using Max.set_eq_fold [of a xs] by (simp add: foldl_conv_fold max.commute fold_commute_apply)
  then show ?thesis using \<open>xs \<noteq> []\<close> by (simp add: max_def)
qed


section \<open>Reading sectors\<close>

text \<open>\<open>read_hd_32\<close>, for the first drive of the first channel: \<open>eax\<close> is the sector, \<open>ebx\<close> the destination, \<open>cl\<close> the count.
  The device moves on, as \<open>wait\<close> says, before each reading of its status. The product \<open>al * 256\<close> goes to \<open>cx\<close>, and
  \<open>loop\<close> counts in \<open>ecx\<close>.\<close>

partial_function (option) polling :: "'d io_dev \<Rightarrow> ('d \<Rightarrow> 'd) \<Rightarrow> 'd \<Rightarrow> 'd option" where
  "polling dev wait d = (case inb dev 0x1F7 (wait d) of (v, d') \<Rightarrow> if v AND 0x88 = 0x08 then Some d' else polling dev wait d')"

fun read_words :: "'d io_dev \<Rightarrow> nat \<Rightarrow> ptr \<Rightarrow> mem \<times> 'd \<Rightarrow> mem \<times> 'd" where
  "read_words dev 0 bx (m, d) = (m, d)"
| "read_words dev (Suc n) bx (m, d) = (case in16 dev 0x1F0 d of (v, d') \<Rightarrow> read_words dev n (bx + 2) (store16 m bx v, d'))"

definition read_hd_32 :: "'d io_dev \<Rightarrow> ('d \<Rightarrow> 'd) \<Rightarrow> u32 \<Rightarrow> ptr \<Rightarrow> u32 \<Rightarrow> mem \<times> 'd \<Rightarrow> (mem \<times> 'd) option" where
  "read_hd_32 dev wait lba bx cx s =
     (let cl = ucast cx :: u8;
          d1 = outb dev 0x1F2 cl (snd s);
          d2 = outb dev 0x1F3 (ucast lba) d1;
          d3 = outb dev 0x1F4 (ucast (drop_bit 8 lba)) d2;
          d4 = outb dev 0x1F5 (ucast (drop_bit 16 lba)) d3;
          d5 = outb dev 0x1F6 (ucast (drop_bit 24 lba) AND 0x0F OR 0xE0) d4;
          d6 = outb dev 0x1F7 0x20 d5
      in do {
        d7 \<leftarrow> polling dev wait d6;
        Some (read_words dev (loop_count (cx AND 0xFFFF0000 OR ucast (ucast cl * 256 :: u16))) bx (fst s, d7))
      })"

lemma read_words_insw: "read_words dev n p s = insw_loop dev 0x1F0 n p s"
  by (induction dev n p s rule: read_words.induct) (auto split: prod.splits)

lemma polling_ata:
  assumes "base a = 0x1F0" and "platters a (slave a) \<noteq> None" and "xfer a \<noteq> Idle" and "due a"
  shows "polling ata_dev tick a = Some (a\<lparr>lag := 0, pend := pend a + (if lag a = 0 then 0 else 1)\<rparr>)"
  using assms
proof (induction "lag a" arbitrary: a)
  case 0
  have "tick a = a" "xfer a \<noteq> Idle" using 0 by (auto simp: tick_def)
  then have "inb ata_dev 0x1F7 (tick a) = (0x48, a)" using 0 by (simp add: inb_def ata_dev_def ata_in8_def ata_status_def)
  then show ?case using 0(1) by (subst polling.simps) simp
next
  case (Suc n)
  let ?a = "a\<lparr>lag := n, pend := pend a + (if n = 0 then 1 else 0)\<rparr>"
  have t: "tick a = ?a" using Suc(2,6) by (auto simp: tick_def)
  have i: "base ?a = 0x1F0" "platters ?a (slave ?a) \<noteq> None" "xfer ?a \<noteq> Idle" "due ?a" "xfer a \<noteq> Idle"
    using Suc(3-6) by (auto simp: slave_def)
  have s: "inb ata_dev 0x1F7 (tick a) = ((if n = 0 then 0x48 else 0x80), ?a)"
    unfolding t using i(1,5) Suc.prems(2) by (auto simp: inb_def ata_dev_def ata_in8_def ata_status_def slave_def)
  show ?case
  proof (cases "n = 0")
    case True
    then show ?thesis using Suc(2) s by (subst polling.simps) simp
  next
    case False
    have "polling ata_dev tick ?a = Some (?a\<lparr>lag := 0, pend := pend ?a + (if lag ?a = 0 then 0 else 1)\<rparr>)"
      using i by (intro Suc.hyps(1)) simp_all
    then show ?thesis using Suc(2) s False by (subst polling.simps) simp
  qed
qed

lemma drive_register: "ucast (drop_bit 24 lba) AND 0x0F OR 0xE0 = (0xE0 OR low_nibble lba :: u8)"
proof -
  have e: "(0x0F :: u8) = mask 4" by (simp add: mask_eq_exp_minus_1)
  have "bit (0x0F :: u8) n \<longleftrightarrow> n < 4" for n unfolding e by (auto simp: bit_simps)
  then show ?thesis by (intro bit_word_eqI) (auto simp: bit_or_iff bit_and_iff bit_ucast_iff bit_drop_bit_eq nibble_bits add.commute)
qed

lemma count_register:
  assumes "0 < unat cx" and "unat cx < 256"
  shows "loop_count (cx AND 0xFFFF0000 OR ucast (ucast (ucast cx :: u8) * 256 :: u16) :: u32) = 256 * unat cx"
proof -
  have "cx AND 0xFFFF0000 = 0"
  proof (rule bit_word_eqI)
    fix n
    have "cx = take_bit 8 cx" using assms(2) by (simp add: word_unat_eq_iff unsigned_take_bit_eq take_bit_nat_eq_self)
    then have "bit cx n \<Longrightarrow> n < 8" by (metis bit_take_bit_iff)
    moreover have e: "(0xFFFF0000 :: u32) = push_bit 16 (mask 16)" by (simp add: mask_eq_exp_minus_1 push_bit_eq_mult)
    have "bit (0xFFFF0000 :: u32) n \<Longrightarrow> 16 \<le> n" unfolding e by (auto simp: bit_simps)
    ultimately show "bit (cx AND 0xFFFF0000) n = bit 0 n" by (auto simp: bit_and_iff)
  qed
  moreover have "unat (ucast cx :: u8) = unat cx" using assms(2) by (simp add: unat_bytes(1))
  then have "unat (ucast (ucast cx :: u8) :: u16) = unat cx"
    using assms(2) by (subst unsigned_ucast_eq) (simp only: take_bit_nat_eq_self, simp add: take_bit_nat_eq_self)
  then have "unat (ucast (ucast cx :: u8) * 256 :: u16) = unat cx * 256" using assms(2) by (simp add: unat_word_ariths)
  then have "unat (ucast (ucast (ucast cx :: u8) * 256 :: u16) :: u32) = 256 * unat cx" by (simp add: unat_ucast16)
  moreover from this have "ucast (ucast (ucast cx :: u8) * 256 :: u16) \<noteq> (0 :: u32)" using assms(1) by (metis mult_is_0 neq0_conv unat_0 zero_neq_numeral)
  ultimately show ?thesis by (simp add: loop_count_def)
qed

text \<open>The command and the one wait for data, then the words.\<close>

lemma read_hd_start:
  assumes d: "one_drive f a" and n: "0 < unat cx" "unat cx < 256" and lba: "unat lba < 2 ^ 28"
  obtains e where "read_hd_32 ata_dev tick lba bx cx (m, a) = Some (insw_loop ata_dev 0x1F0 (256 * unat cx) bx (m, e))" and "lag e = 0" and "due e"
    and "xfer e = Data_in (concat (map (\<lambda>l. words_of (f l)) [unat lba..<unat lba + unat cx]))" and "pend e = pend a + 1" and "gap e = gap a"
    and "base e = 0x1F0" and "one_drive f (e\<lparr>xfer := Idle\<rparr>)"
proof -
  have a: "base a = 0x1F0" "vec a = 0x2E" "platters a = (\<lambda>d. if d then None else Some f)" "xfer a = Idle" "lag a = 0" "length (ident a) = 256"
      "length (f l) = 512" for l
    using d by (simp_all add: one_drive_def resting_def)
  let ?b = "a\<lparr>sec_reg := ucast cx, lba_low := ucast lba, lba_mid := ucast (drop_bit 8 lba), lba_high := ucast (drop_bit 16 lba),
    drv_sel := 0xE0 OR low_nibble lba\<rparr>"
  let ?ws = "concat (map (\<lambda>l. words_of (f l)) [unat lba..<unat lba + unat cx])"
  have b: "slave ?b = False" "lba28 ?b = unat lba" "sector_count ?b = unat cx"
  proof -
    show "slave ?b = False" unfolding slave_def using drive_sel(1) [of "0xE0" lba] by simp
    show "lba28 ?b = unat lba" unfolding lba28_def using drive_sel(2) [of "0xE0" lba] lba_split [OF lba] by simp
    have "unat (ucast cx :: u8) = unat cx" using n by (simp add: unat_bytes(1))
    then show "sector_count ?b = unat cx" using n by (auto simp: sector_count_def)
  qed
  let ?c = "start_in ?ws ?b"
  have regs: "outb ata_dev 0x1F6 (0xE0 OR low_nibble lba) (outb ata_dev 0x1F5 (ucast (drop_bit 16 lba)) (outb ata_dev 0x1F4 (ucast (drop_bit 8 lba))
      (outb ata_dev 0x1F3 (ucast lba) (outb ata_dev 0x1F2 (ucast cx) a)))) = ?b"
    using a(1) by (simp add: outb_def ata_dev_def ata_out8_def)
  have cmd: "outb ata_dev 0x1F7 0x20 ?b = ?c"
    using a(1,3,5) b by (simp add: outb_def ata_dev_def ata_out8_def ata_command_def)
  have c: "base ?c = 0x1F0" "platters ?c (slave ?c) \<noteq> None" "xfer ?c \<noteq> Idle" "due ?c" "xfer ?c = Data_in ?ws"
    using a(1,3) b(1) by (simp_all add: start_in_def slave_def busy_for_def)
  let ?e = "?c\<lparr>lag := 0, pend := pend ?c + (if lag ?c = 0 then 0 else 1)\<rparr>"
  show thesis
  proof (rule that [of ?e])
    show "read_hd_32 ata_dev tick lba bx cx (m, a) = Some (insw_loop ata_dev 0x1F0 (256 * unat cx) bx (m, ?e))"
      unfolding read_hd_32_def Let_def drive_register read_words_insw count_register [OF n] fst_conv snd_conv regs cmd polling_ata [OF c(1-4)]
      by simp
    show "one_drive f (?e\<lparr>xfer := Idle\<rparr>)" using a by (simp add: one_drive_def resting_def start_in_def busy_for_def)
  qed (use c in \<open>simp_all add: start_in_def busy_for_def\<close>)
qed

lemma read_hd_run:
  assumes d: "one_drive f a" and n: "0 < unat cx" "unat cx < 256" and lba: "unat lba < 2 ^ 28" and g: "unat cx \<le> 1 \<or> gap a = 0"
  shows "\<exists>a'. read_hd_32 ata_dev tick lba bx cx (m, a) = Some (store_bytes m bx (concat (map f [unat lba..<unat lba + unat cx])), a') \<and>
    one_drive f a' \<and> pend a' = pend a + unat cx"
proof -
  let ?ws = "concat (map (\<lambda>l. words_of (f l)) [unat lba..<unat lba + unat cx])"
  obtain e where e: "read_hd_32 ata_dev tick lba bx cx (m, a) = Some (insw_loop ata_dev 0x1F0 (256 * unat cx) bx (m, e))" "lag e = 0" "due e"
      "xfer e = Data_in ?ws" "pend e = pend a + 1" "gap e = gap a" "base e = 0x1F0" "one_drive f (e\<lparr>xfer := Idle\<rparr>)"
    by (rule read_hd_start [OF d n lba])
  have f: "length (f l) = 512" for l using d by (simp add: one_drive_def)
  have len: "length ?ws = 256 * unat cx" by (simp add: sector_words f)
  have ne: "?ws \<noteq> []" using len n by (metis length_0_conv mult_is_0 neq0_conv zero_neq_numeral)
  let ?g = "e\<lparr>xfer := Idle, pend := pend e + (length ?ws - 1) div 256\<rparr>"
  have "insw_loop ata_dev (base e) (length ?ws) bx (m, e) = (store_bytes m bx (bytes_of ?ws), ?g)"
    using ne n g by (intro insw_ata e(2-4)) (auto simp: len e(6))
  then have "insw_loop ata_dev 0x1F0 (256 * unat cx) bx (m, e) = (store_bytes m bx (concat (map f [unat lba..<unat lba + unat cx])), ?g)"
    using e(7) sector_bytes [of f] f len by simp
  moreover have "one_drive f ?g" using e(8) by (simp add: one_drive_def resting_def)
  moreover have "(length ?ws - 1) div 256 = unat cx - 1" unfolding len using n by simp
  ultimately show ?thesis using e(1,5) n by simp
qed

text \<open>A drive that needs time after a sector is not waited for: behind the first sector the buffer holds what the data port gives
  while the drive is busy.\<close>

lemma read_hd_overrun:
  assumes d: "one_drive f a" and n: "1 < unat cx" "unat cx < 256" and lba: "unat lba < 2 ^ 28" and g: "gap a \<noteq> 0"
  shows "\<exists>a'. read_hd_32 ata_dev tick lba bx cx (m, a) = Some (store_bytes m bx (f (unat lba) @ replicate (512 * (unat cx - 1)) 0xFF), a') \<and>
    lag a' = gap a \<and> xfer a' = Data_in (concat (map (\<lambda>l. words_of (f l)) [unat lba + 1..<unat lba + unat cx]))"
proof -
  let ?us = "words_of (f (unat lba))" and ?ws = "concat (map (\<lambda>l. words_of (f l)) [unat lba + 1..<unat lba + unat cx])"
  have pos: "0 < unat cx" using n by simp
  obtain e where e: "read_hd_32 ata_dev tick lba bx cx (m, a) = Some (insw_loop ata_dev 0x1F0 (256 * unat cx) bx (m, e))" "lag e = 0" "due e"
      "xfer e = Data_in (concat (map (\<lambda>l. words_of (f l)) [unat lba..<unat lba + unat cx]))" "pend e = pend a + 1" "gap e = gap a"
      "base e = 0x1F0" "one_drive f (e\<lparr>xfer := Idle\<rparr>)"
    by (rule read_hd_start [OF d pos n(2) lba])
  have f: "length (f l) = 512" for l using d by (simp add: one_drive_def)
  have ws: "concat (map (\<lambda>l. words_of (f l)) [unat lba..<unat lba + unat cx]) = ?us @ ?ws" using n(1) by (simp add: upt_conv_Cons)
  have len: "length ?us = 256" "length ?ws = 256 * (unat cx - 1)" by (simp_all add: words_of_length f sector_words [OF f])
  have ne: "?us \<noteq> []" "?ws \<noteq> []" "256 dvd length ?ws" using len n(1) by (auto simp flip: length_0_conv)
  let ?b = "busy_for (gap e) (e\<lparr>xfer := Data_in ?ws\<rparr>)"
  have "insw_loop ata_dev 0x1F0 256 bx (m, e) = (store_bytes m bx (f (unat lba)), ?b)"
    using insw_first [OF e(2) e(4) [unfolded ws] ne(1) _ ne(2,3)] len(1) by (simp add: e(7) bytes_of_words_of f)
  moreover have "insw_loop ata_dev 0x1F0 (256 * (unat cx - 1)) (bx + 2 * of_nat 256) (store_bytes m bx (f (unat lba)), ?b) =
      (store_bytes (store_bytes m bx (f (unat lba))) (bx + 2 * of_nat 256) (replicate (512 * (unat cx - 1)) 0xFF), ?b)"
    using insw_busy [of ?b "256 * (unat cx - 1)"] g n(2) by (simp add: e(6))
  moreover have "256 * unat cx = 256 + 256 * (unat cx - 1)" using n(1) by simp
  ultimately have "insw_loop ata_dev 0x1F0 (256 * unat cx) bx (m, e) =
      (store_bytes (store_bytes m bx (f (unat lba))) (bx + 2 * of_nat 256) (replicate (512 * (unat cx - 1)) 0xFF), ?b)"
    by (simp only: insw_loop_add)
  then have "insw_loop ata_dev 0x1F0 (256 * unat cx) bx (m, e) = (store_bytes m bx (f (unat lba) @ replicate (512 * (unat cx - 1)) 0xFF), ?b)"
    using store_bytes_append [of "f (unat lba)" "replicate (512 * (unat cx - 1)) 0xFF" m bx] n(2) by (simp add: f)
  then show ?thesis using e(1,6) by (intro exI [of _ ?b]) simp
qed


section \<open>The kernel image\<close>

definition KERNEL_START_SECTOR :: u32 where "KERNEL_START_SECTOR = 5"
definition KERNEL_SECTOR_COUNT :: u32 where "KERNEL_SECTOR_COUNT = 200"
definition KERNEL_BASE_ADDR :: ptr where "KERNEL_BASE_ADDR = 0x70000"
definition PT_LOAD :: u8 where "PT_LOAD = 1"

text \<open>An access of the loader goes through the page tables; \<open>tr\<close> is the translation. No address it uses faults.\<close>

definition through :: "mmu \<Rightarrow> u32 \<Rightarrow> u32" where
  "through u v = (case KPaging.walk u v of Some a \<Rightarrow> a | None \<Rightarrow> v)"

fun rep_movsb :: "(u32 \<Rightarrow> u32) \<Rightarrow> nat \<Rightarrow> ptr \<Rightarrow> ptr \<Rightarrow> mem \<Rightarrow> mem" where
  "rep_movsb tr 0 di si m = m"
| "rep_movsb tr (Suc n) di si m = rep_movsb tr n (di + 1) (si + 1) (m(tr di := m (tr si)))"

definition mem_cpy :: "(u32 \<Rightarrow> u32) \<Rightarrow> ptr \<Rightarrow> ptr \<Rightarrow> u32 \<Rightarrow> mem \<Rightarrow> mem" where
  "mem_cpy tr dst src size_of m = rep_movsb tr (unat size_of) dst src m"

fun each_program_header_loop :: "(u32 \<Rightarrow> u32) \<Rightarrow> nat \<Rightarrow> ptr \<Rightarrow> u32 \<Rightarrow> mem \<Rightarrow> mem" where
  "each_program_header_loop tr 0 bx dx m = m"
| "each_program_header_loop tr (Suc n) bx dx m =
     (let v = (\<lambda>a. m (tr a));
          m' = (if v bx = PT_LOAD then mem_cpy tr (load32 v (bx + 8)) (load32 v (bx + 4) + KERNEL_BASE_ADDR) (load32 v (bx + 16)) m else m)
      in each_program_header_loop tr n (bx + dx) dx m')"

definition kernel_decode_elf :: "(u32 \<Rightarrow> u32) \<Rightarrow> mem \<Rightarrow> mem" where
  "kernel_decode_elf tr m =
     (let v = (\<lambda>a. m (tr a));
          bx = KERNEL_BASE_ADDR + load32 v (KERNEL_BASE_ADDR + 28);
          cx = ucast (load16 v (KERNEL_BASE_ADDR + 44)) :: u32;
          dx = ucast (load16 v (KERNEL_BASE_ADDR + 42)) :: u32
      in each_program_header_loop tr (loop_count cx) bx dx m)"

text \<open>The two calls of \<open>p_mode_start\<close>; the messages before them leave 0 in \<open>ecx\<close>.\<close>

definition load_kernel :: "'d io_dev \<Rightarrow> ('d \<Rightarrow> 'd) \<Rightarrow> (u32 \<Rightarrow> u32) \<Rightarrow> mem \<times> 'd \<Rightarrow> (mem \<times> 'd) option" where
  "load_kernel dev wait tr s = do {
     (m, d) \<leftarrow> read_hd_32 dev wait KERNEL_START_SECTOR KERNEL_BASE_ADDR KERNEL_SECTOR_COUNT s;
     Some (kernel_decode_elf tr m, d)
   }"

text \<open>The translation of the first megabyte, from the page tables of \<open>setup_page\<close>.\<close>

definition two_windows :: "(u32 \<Rightarrow> u32) \<Rightarrow> bool" where
  "two_windows tr \<longleftrightarrow> (\<forall>v. unat v < 0x100000 \<longrightarrow> tr v = v \<and> tr (0xC0000000 + v) = v)"

lemma through_windows: "two_windows (through (enable_paging r))"
  using paging_low [of _ r] by (simp add: two_windows_def through_def)

text \<open>The file in terms of its bytes: the program headers, and what each asks for.\<close>

definition phnum :: "u8 list \<Rightarrow> nat" where
  "phnum img = unat (load16 (view img) 44)"

definition header :: "u8 list \<Rightarrow> nat \<Rightarrow> u32" where
  "header img i = load32 (view img) 28 + of_nat i * ucast (load16 (view img) 42)"

definition loadable :: "u8 list \<Rightarrow> u32 \<Rightarrow> bool" where
  "loadable img p \<longleftrightarrow> view img p = 1"

definition seg_off :: "u8 list \<Rightarrow> u32 \<Rightarrow> u32" where "seg_off img p = load32 (view img) (p + 4)"
definition seg_to :: "u8 list \<Rightarrow> u32 \<Rightarrow> u32" where "seg_to img p = load32 (view img) (p + 8)"
definition seg_len :: "u8 list \<Rightarrow> u32 \<Rightarrow> u32" where "seg_len img p = load32 (view img) (p + 16)"

definition sound_seg :: "u8 list \<Rightarrow> u32 \<Rightarrow> bool" where
  "sound_seg img p \<longleftrightarrow> unat p + 20 \<le> length img \<and> (loadable img p \<longrightarrow> unat (seg_off img p) + unat (seg_len img p) \<le> length img \<and>
     0xC0001000 \<le> unat (seg_to img p) \<and> unat (seg_to img p) + unat (seg_len img p) \<le> 0xC0070000)"

definition place :: "u8 list \<Rightarrow> u32 \<Rightarrow> mem \<Rightarrow> mem" where
  "place img p m = (if loadable img p
     then store_bytes m (seg_to img p - 0xC0000000) (take (unat (seg_len img p)) (drop (unat (seg_off img p)) img)) else m)"

definition in_buffer :: "u8 list \<Rightarrow> mem \<Rightarrow> bool" where
  "in_buffer img m \<longleftrightarrow> length img = 102400 \<and> (\<forall>x<102400. m (0x70000 + of_nat x) = img ! x)"

lemma rep_movsb_run:
  assumes tr: "two_windows tr" and d: "unat d + n \<le> 0x70000" and s: "0x70000 \<le> unat s" "unat s + n \<le> 0x89000"
  shows "rep_movsb tr n (0xC0000000 + d) s m = store_bytes m d (map (\<lambda>j. m (s + of_nat j)) [0..<n])"
  using d s
proof (induction n arbitrary: d s m)
  case (Suc n)
  have t: "tr (0xC0000000 + d) = d" "tr s = s" using tr Suc.prems by (simp_all add: two_windows_def)
  have u: "unat (d + 1) = unat d + 1" "unat (s + 1) = unat s + 1" using Suc.prems by (subst unat_add_small; simp)+
  let ?m = "m(d := m s)"
  have same: "?m (s + 1 + of_nat j) = m (s + of_nat (Suc j))" if "j < n" for j
  proof -
    have "unat (s + of_nat (Suc j)) = unat s + Suc j" using Suc.prems that by (subst unat_add_small) (simp_all add: unat_of_nat_less del: of_nat_Suc)
    then have "s + of_nat (Suc j) \<noteq> d" using Suc.prems by auto
    then show ?thesis by (simp add: algebra_simps)
  qed
  have "rep_movsb tr (Suc n) (0xC0000000 + d) s m = rep_movsb tr n (0xC0000000 + (d + 1)) (s + 1) ?m" by (simp add: t add.assoc)
  also have "\<dots> = store_bytes ?m (d + 1) (map (\<lambda>j. ?m (s + 1 + of_nat j)) [0..<n])" using Suc.prems u by (intro Suc.IH) simp_all
  also have "map (\<lambda>j. ?m (s + 1 + of_nat j)) [0..<n] = map (\<lambda>j. m (s + of_nat (Suc j))) [0..<n]" using same by simp
  also have "store_bytes ?m (d + 1) (map (\<lambda>j. m (s + of_nat (Suc j))) [0..<n]) = store_bytes m d (m s # map (\<lambda>j. m (s + of_nat (Suc j))) [0..<n])"
    using Suc.prems by (intro store_bytes_Cons [symmetric]) simp
  also have "m s # map (\<lambda>j. m (s + of_nat (Suc j))) [0..<n] = map (\<lambda>j. m (s + of_nat j)) [0..<Suc n]"
    by (simp add: upt_conv_Cons map_Suc_upt [symmetric] del: upt_Suc of_nat_Suc)
  finally show ?case .
qed simp

lemma view_at: "unat q < length img \<Longrightarrow> view img q = img ! unat q"
  by (simp add: view_def stored_at)

text \<open>What the loader sees of the image through the lower window.\<close>

lemma seen_image:
  assumes tr: "two_windows tr" and b: "in_buffer img m" and q: "unat q + 4 \<le> 102400"
  shows "load32 (\<lambda>a. m (tr a)) (KERNEL_BASE_ADDR + q) = load32 (view img) q"
    and "load16 (\<lambda>a. m (tr a)) (KERNEL_BASE_ADDR + q) = load16 (view img) q" and "m (tr (KERNEL_BASE_ADDR + q)) = view img q"
proof -
  have len: "length img = 102400" using b by (simp add: in_buffer_def)
  have at: "m (0x70000 + of_nat x) = img ! x" if "x < 102400" for x using b that by (simp add: in_buffer_def)
  have a: "m (tr (KERNEL_BASE_ADDR + of_nat x)) = img ! x" if "x < length img" for x
  proof -
    have "unat (0x70000 + of_nat x :: u32) = 0x70000 + x" using that len by (subst unat_add_small) (simp_all add: unat_of_nat_less)
    then have "tr (0x70000 + of_nat x) = 0x70000 + of_nat x" using tr that len by (simp add: two_windows_def)
    then show ?thesis using at [of x] that len by (simp add: KERNEL_BASE_ADDR_def)
  qed
  show "load32 (\<lambda>a. m (tr a)) (KERNEL_BASE_ADDR + q) = load32 (view img) q"
    by (rule load32_view) (use a q len in simp_all)
  have v: "m (tr (KERNEL_BASE_ADDR + p)) = view img p" if "unat p < 102400" for p
    using a [of "unat p"] view_at [of p img] that len by simp
  show "m (tr (KERNEL_BASE_ADDR + q)) = view img q" using q by (intro v) simp
  have "unat (q + 1) < 102400" using q by (subst unat_add_small) simp_all
  then show "load16 (\<lambda>a. m (tr a)) (KERNEL_BASE_ADDR + q) = load16 (view img) q"
    using v [of q] v [of "q + 1"] q by (simp add: load16_def add.assoc)
qed

lemma place_run:
  assumes tr: "two_windows tr" and b: "in_buffer img m" and s: "sound_seg img p"
  defines "v \<equiv> \<lambda>a. m (tr a)" and "x \<equiv> KERNEL_BASE_ADDR + p"
  shows "(if v x = PT_LOAD then mem_cpy tr (load32 v (x + 8)) (load32 v (x + 4) + KERNEL_BASE_ADDR) (load32 v (x + 16)) m else m) = place img p m"
    and "in_buffer img (place img p m)"
proof -
  have len: "length img = 102400" using b by (simp add: in_buffer_def)
  have p: "unat p + 20 \<le> 102400" using s len by (simp add: sound_seg_def)
  have pk: "unat (p + k) = unat p + unat k" if "unat k \<le> 16" for k using p that by (subst unat_add_small) simp_all
  have "unat p + 4 \<le> 102400" using p by simp
  from seen_image(3) [OF tr b this] have l0: "v x = view img p" by (simp add: v_def x_def)
  have l: "load32 v (x + 8) = seg_to img p" "load32 v (x + 4) = seg_off img p" "load32 v (x + 16) = seg_len img p"
    using seen_image(1) [OF tr b, of "p + 8"] seen_image(1) [OF tr b, of "p + 4"] seen_image(1) [OF tr b, of "p + 16"] p pk [of 8] pk [of 4] pk [of 16]
    by (simp_all add: v_def x_def seg_to_def seg_off_def seg_len_def add.assoc)
  let ?d = "seg_to img p - 0xC0000000" and ?o = "unat (seg_off img p)" and ?n = "unat (seg_len img p)"
  have seg: "?o + ?n \<le> 102400" "unat ?d + ?n \<le> 0x70000" "seg_to img p = 0xC0000000 + ?d" if "loadable img p"
  proof -
    have r: "0xC0001000 \<le> unat (seg_to img p)" "unat (seg_to img p) + ?n \<le> 0xC0070000" and "?o + ?n \<le> 102400"
      using s that len by (simp_all add: sound_seg_def)
    then show "?o + ?n \<le> 102400" by simp
    have "unat ?d = unat (seg_to img p) - 0xC0000000" using r by (subst unat_sub_small) simp_all
    then show "unat ?d + ?n \<le> 0x70000" using r by simp
  qed simp
  show "(if v x = PT_LOAD then mem_cpy tr (load32 v (x + 8)) (load32 v (x + 4) + KERNEL_BASE_ADDR) (load32 v (x + 16)) m else m) = place img p m"
  proof (cases "loadable img p")
    case True
    let ?s = "seg_off img p + KERNEL_BASE_ADDR"
    have us: "unat ?s = ?o + 0x70000" using seg(1) [OF True] by (subst unat_add_small) (simp_all add: KERNEL_BASE_ADDR_def)
    have bytes: "map (\<lambda>j. m (?s + of_nat j)) [0..<?n] = take ?n (drop ?o img)"
    proof (rule nth_equalityI)
      fix j assume "j < length (map (\<lambda>j. m (?s + of_nat j)) [0..<?n])"
      then have j: "j < ?n" by simp
      have "?s + of_nat j = 0x70000 + of_nat (?o + j)" by (simp add: KERNEL_BASE_ADDR_def)
      then have "m (?s + of_nat j) = img ! (?o + j)" using b j seg(1) [OF True] by (simp add: in_buffer_def del: of_nat_add)
      then show "map (\<lambda>j. m (?s + of_nat j)) [0..<?n] ! j = take ?n (drop ?o img) ! j" using j seg(1) [OF True] len by simp
    qed (use seg(1) [OF True] len in simp)
    have "mem_cpy tr (0xC0000000 + ?d) ?s (seg_len img p) m = store_bytes m ?d (map (\<lambda>j. m (?s + of_nat j)) [0..<?n])"
      unfolding mem_cpy_def by (rule rep_movsb_run [OF tr]) (use seg [OF True] us in simp_all)
    then show ?thesis using True l l0 seg(3) [OF True] unfolding bytes by (simp add: place_def loadable_def PT_LOAD_def)
  next
    case False
    then show ?thesis using l0 by (simp add: place_def loadable_def PT_LOAD_def)
  qed
  show "in_buffer img (place img p m)"
  proof (cases "loadable img p")
    case True
    have out: "\<not> unat (0x70000 + of_nat x - ?d) < length (take ?n (drop ?o img))" if "x < 102400" for x
    proof -
      have "unat (0x70000 + of_nat x :: u32) = 0x70000 + x" using that by (subst unat_add_small) (simp_all add: unat_of_nat_less)
      then have "unat (0x70000 + of_nat x - ?d) = 0x70000 + x - unat ?d" using seg(2) [OF True] by (subst unat_sub_small) simp_all
      moreover have "?n \<le> 0x70000 + x - unat ?d" using seg(2) [OF True] by linarith
      ultimately show ?thesis by simp
    qed
    have "place img p m (0x70000 + of_nat x) = m (0x70000 + of_nat x)" if "x < 102400" for x
      using True out [OF that] by (simp only: place_def stored_at if_True if_False)
    then show ?thesis using b by (simp add: in_buffer_def)
  qed (use b in \<open>simp add: place_def\<close>)
qed

lemma headers_run:
  assumes tr: "two_windows tr" and ps: "\<forall>i<n. sound_seg img (p + of_nat i * dx)" and b: "in_buffer img m"
  shows "each_program_header_loop tr n (KERNEL_BASE_ADDR + p) dx m = fold (place img) (map (\<lambda>i. p + of_nat i * dx) [0..<n]) m"
  using ps b
proof (induction n arbitrary: p m)
  case (Suc n)
  have s: "sound_seg img p" using Suc.prems(1) by (metis add.right_neutral mult_zero_left of_nat_0 zero_less_Suc)
  note r = place_run [OF tr Suc.prems(2) s]
  have "sound_seg img (p + dx + of_nat i * dx)" if "i < n" for i
    using Suc.prems(1) [rule_format, of "Suc i"] that by (simp add: algebra_simps)
  then have "each_program_header_loop tr n (KERNEL_BASE_ADDR + (p + dx)) dx (place img p m) =
      fold (place img) (map (\<lambda>i. p + dx + of_nat i * dx) [0..<n]) (place img p m)"
    by (intro Suc.IH r(2)) simp
  moreover have "map (\<lambda>i. p + of_nat i * dx) [0..<Suc n] = p # map (\<lambda>i. p + dx + of_nat i * dx) [0..<n]"
    by (simp add: upt_conv_Cons map_Suc_upt [symmetric] algebra_simps del: upt_Suc)
  ultimately show ?case using r(1) by (simp add: Let_def add.assoc del: upt_Suc)
qed simp

definition covers :: "u8 list \<Rightarrow> u32 \<Rightarrow> u32 \<Rightarrow> bool" where
  "covers img p q \<longleftrightarrow> loadable img p \<and> unat (q - (seg_to img p - 0xC0000000)) < unat (seg_len img p)"

lemma place_at:
  assumes "sound_seg img p"
  shows "place img p m q = (if covers img p q then img ! (unat (seg_off img p) + unat (q - (seg_to img p - 0xC0000000))) else m q)"
  using assms by (auto simp: place_def covers_def stored_at sound_seg_def)

lemma places_outside: "\<forall>p \<in> set ps. sound_seg img p \<and> \<not> covers img p q \<Longrightarrow> fold (place img) ps m q = m q"
  by (induction ps arbitrary: m) (simp_all add: place_at)

lemma places_at:
  assumes "\<forall>p \<in> set ps. sound_seg img p" and "i < length ps" and "covers img (ps ! i) q"
    and "\<forall>j<length ps. j \<noteq> i \<longrightarrow> \<not> covers img (ps ! j) q"
  shows "fold (place img) ps m q = img ! (unat (seg_off img (ps ! i)) + unat (q - (seg_to img (ps ! i) - 0xC0000000)))"
proof -
  have ps: "ps = take i ps @ ps ! i # drop (Suc i) ps" using assms(2) by (rule id_take_nth_drop)
  have d: "\<forall>p \<in> set (drop (Suc i) ps). sound_seg img p \<and> \<not> covers img p q"
  proof
    fix p assume "p \<in> set (drop (Suc i) ps)"
    then obtain k where "k < length (drop (Suc i) ps)" "p = drop (Suc i) ps ! k" by (metis in_set_conv_nth)
    then have "p = ps ! (Suc i + k)" "Suc i + k < length ps" by simp_all
    then show "sound_seg img p \<and> \<not> covers img p q" using assms(1,4) by simp
  qed
  have "fold (place img) ps m = fold (place img) (drop (Suc i) ps) (place img (ps ! i) (fold (place img) (take i ps) m))"
    by (subst ps) simp
  then show ?thesis using places_outside [OF d] place_at [of img "ps ! i"] assms(1-3) by simp
qed

text \<open>A file the loader can load: the headers in its 200 sectors, the segments in the window at 3 GB, behind the loader (its code
  and table of descriptors, \<open>0x800\<close> to \<open>0x1000\<close>, and its stack below them) and before the buffer, and apart.\<close>

definition sound_kernel :: "u8 list \<Rightarrow> bool" where
  "sound_kernel img \<longleftrightarrow> length img = 102400 \<and> 0 < phnum img \<and> (\<forall>i<phnum img. sound_seg img (header img i)) \<and>
     (\<forall>i<phnum img. \<forall>j<phnum img. i \<noteq> j \<longrightarrow> (\<forall>q. \<not> (covers img (header img i) q \<and> covers img (header img j) q)))"

lemma load_kernel_run:
  assumes d: "one_drive f a" and img: "sound_kernel (concat (map f [5..<205]))" and tr: "two_windows tr" and g: "gap a = 0"
  defines "img \<equiv> concat (map f [5..<205])"
  shows "\<exists>a'. load_kernel ata_dev tick tr (m, a) = Some (fold (place img) (map (header img) [0..<phnum img]) (store_bytes m 0x70000 img), a') \<and>
    one_drive f a' \<and> pend a' = pend a + 200"
proof -
  have len: "length img = 102400" and n: "0 < phnum img" "\<forall>i<phnum img. sound_seg img (header img i)"
    using img unfolding sound_kernel_def img_def by blast+
  have c: "unat KERNEL_SECTOR_COUNT = 200" "unat KERNEL_START_SECTOR = 5" by (simp_all add: KERNEL_SECTOR_COUNT_def KERNEL_START_SECTOR_def)
  obtain a' where r: "read_hd_32 ata_dev tick KERNEL_START_SECTOR KERNEL_BASE_ADDR KERNEL_SECTOR_COUNT (m, a) =
      Some (store_bytes m KERNEL_BASE_ADDR img, a')" "one_drive f a'" "pend a' = pend a + 200"
    using read_hd_run [OF d, of KERNEL_SECTOR_COUNT KERNEL_START_SECTOR KERNEL_BASE_ADDR m] g by (auto simp: c img_def)
  let ?m = "store_bytes m KERNEL_BASE_ADDR img"
  have b: "in_buffer img ?m"
    by (auto simp: in_buffer_def len stored_at KERNEL_BASE_ADDR_def unat_of_nat_less)
  let ?v = "\<lambda>a. ?m (tr a)"
  have h: "load32 ?v (KERNEL_BASE_ADDR + 28) = load32 (view img) 28" "load16 ?v (KERNEL_BASE_ADDR + 44) = load16 (view img) 44"
      "load16 ?v (KERNEL_BASE_ADDR + 42) = load16 (view img) 42"
    by (rule seen_image [OF tr b]; simp)+
  let ?cx = "ucast (load16 (view img) 44) :: u32"
  have "unat ?cx = phnum img" by (simp add: unat_ucast16 phnum_def)
  then have "loop_count ?cx = phnum img" using n(1) by (auto simp: loop_count_def)
  moreover have "each_program_header_loop tr (phnum img) (KERNEL_BASE_ADDR + load32 (view img) 28) (ucast (load16 (view img) 42)) ?m =
      fold (place img) (map (\<lambda>i. load32 (view img) 28 + of_nat i * ucast (load16 (view img) 42)) [0..<phnum img]) ?m"
    by (rule headers_run [OF tr _ b]) (use n(2) in \<open>simp add: header_def\<close>)
  ultimately have "kernel_decode_elf tr ?m = fold (place img) (map (header img) [0..<phnum img]) ?m"
    unfolding kernel_decode_elf_def Let_def h by (simp add: header_def [abs_def])
  then show ?thesis using r by (simp add: load_kernel_def KERNEL_BASE_ADDR_def)
qed

text \<open>Where everything is when the drive is quick.\<close>

lemma load_kernel_at:
  fixes f :: "nat \<Rightarrow> u8 list" and a :: ata
  assumes "one_drive f a" and "sound_kernel (concat (map f [5..<205]))" and "gap a = 0"
  shows "\<exists>m' a'. load_kernel ata_dev tick (through (enable_paging r)) (m, a) = Some (m', a') \<and> one_drive f a' \<and> pend a' = pend a + 200 \<and>
      (let img = concat (map f [5..<205]) in
        (\<forall>i<phnum img. loadable img (header img i) \<longrightarrow> (\<forall>j<unat (seg_len img (header img i)).
           m' (through (enable_paging r) (seg_to img (header img i) + of_nat j)) = img ! (unat (seg_off img (header img i)) + j))) \<and>
        (\<forall>q. \<not> unat (q - 0x70000) < 102400 \<and> (\<forall>i<phnum img. \<not> covers img (header img i) q) \<and> \<not> unat (q - 0x7E8) < 24 \<longrightarrow> m' q = m q))"
proof -
  let ?tr = "through (enable_paging r)"
  define img where "img = concat (map f [5..<205])"
  have k: "length img = 102400" "\<forall>i<phnum img. sound_seg img (header img i)"
      "\<forall>i<phnum img. \<forall>j<phnum img. i \<noteq> j \<longrightarrow> (\<forall>q. \<not> (covers img (header img i) q \<and> covers img (header img j) q))"
    using assms(2) unfolding sound_kernel_def img_def by blast+
  let ?hs = "map (header img) [0..<phnum img]" and ?m = "store_bytes m 0x70000 img"
  let ?m' = "fold (place img) ?hs ?m"
  have all: "\<forall>p \<in> set ?hs. sound_seg img p" using k(2) by simp
  have "?m' (?tr (seg_to img (header img i) + of_nat j)) = img ! (unat (seg_off img (header img i)) + j)"
    if i: "i < phnum img" "loadable img (header img i)" and j: "j < unat (seg_len img (header img i))" for i j
  proof -
    let ?p = "header img i" and ?d = "seg_to img (header img i) - 0xC0000000"
    have s: "0xC0001000 \<le> unat (seg_to img ?p)" "unat (seg_to img ?p) + unat (seg_len img ?p) \<le> 0xC0070000"
      using k(2) i by (simp_all add: sound_seg_def)
    have ud: "unat ?d = unat (seg_to img ?p) - 0xC0000000" using s by (subst unat_sub_small) simp_all
    then have u: "unat (?d + of_nat j) = unat ?d + j" using s j by (subst unat_add_small) (simp_all add: unat_of_nat_less)
    then have "unat (?d + of_nat j) < 0x100000" unfolding ud using s j by linarith
    from conjunct2 [OF through_windows [of r, unfolded two_windows_def, rule_format, OF this]]
    have t: "?tr (seg_to img ?p + of_nat j) = ?d + of_nat j" by (simp add: add.assoc)
    have off: "unat (?d + of_nat j - ?d) = j" using s j by (simp add: unat_of_nat_less)
    then have c: "covers img ?p (?d + of_nat j)" using i(2) j by (simp add: covers_def)
    have "?m' (?d + of_nat j) = img ! (unat (seg_off img (?hs ! i)) + unat (?d + of_nat j - (seg_to img (?hs ! i) - 0xC0000000)))"
      by (rule places_at [OF all]) (use i(1) c k(3) in auto)
    then show ?thesis using t off i(1) by simp
  qed
  moreover have "?m' q = m q" if q: "\<not> unat (q - 0x70000) < 102400" "\<forall>i<phnum img. \<not> covers img (header img i) q" for q
  proof -
    have "?m' q = ?m q" by (rule places_outside) (use q(2) k(2) in auto)
    then show ?thesis using q(1) k(1) by (simp add: stored_at)
  qed
  ultimately show ?thesis using load_kernel_run [OF assms(1,2) through_windows assms(3), of r m] unfolding img_def [symmetric] Let_def by blast
qed

section \<open>Properties\<close>

text \<open>C20: the memory size. When the BIOS reports at most twelve ranges, \<open>get_ram_size\<close> returns and leaves at \<open>ram_size\<close> the
  largest end of a range, in the low 32 bits and whatever the type of the range; outside its variables and the buffer,
  memory is as it was. (The buffer is made for ten, the code after it starts behind twelve.)\<close>

theorem get_ram_size_max:
  assumes "reports bios 0 es" and "length es \<le> 12" and "load16 m ards_nr = 0"
  shows "\<exists>m'. get_ram_size bios m = Some m' \<and> load32 m' ram_size = Max (range_end ` set es) \<and>
    (\<forall>a. \<not> unat (a - 0x900) < 0xF8 \<longrightarrow> m' a = m a)"
proof -
  let ?m1 = "store16 (store_bytes m 0x908 (concat es)) ards_nr (of_nat (length es))"
  let ?m2 = "store32 ?m1 ram_size (Max (range_end ` set es))"
  have ne: "es \<noteq> []" using assms(1) by auto
  have len: "length (concat es) = 20 * length es" by (rule reports_length [OF assms(1)])
  have r: "e820 bios m ards_buf 0 = Some ?m1"
    using e820_run [OF assms(1), of ards_buf m] assms(2,3) by (simp add: ards_buf_def)
  have n: "loop_count (of_nat (length es) :: u16) = length es"
  proof -
    have "unat (of_nat (length es) :: u16) = length es" using assms(2) by (simp add: unat_of_nat)
    then show ?thesis using ne by (auto simp: loop_count_def unat_eq_zero)
  qed
  have all: "\<forall>e \<in> set es. length e = 20" by (rule reports_each [OF assms(1)])
  have "find_max_addr_loop (length es) ?m1 0x908 0 = foldl max 0 (map range_end es)"
  proof (rule find_max_run [OF _ all])
    fix x assume x: "x < length (concat es)"
    then have u: "unat (of_nat x :: u32) = x" "x < 240" using assms(2) len by (simp_all add: unat_of_nat_less)
    have "unat (0x908 + of_nat x :: u32) = 0x908 + x" using u by (subst unat_add_small) simp_all
    then have "0x908 + of_nat x \<noteq> ards_nr" "0x908 + of_nat x \<noteq> ards_nr + 1" by (auto simp: word_unat_eq_iff ards_nr_def)
    then show "?m1 (0x908 + of_nat x) = concat es ! x" using x u(1) by (simp add: store16_other stored_at)
  qed
  also have "\<dots> = Max (range_end ` set es)" using foldl_max_words [of "map range_end es"] ne by simp
  finally have "get_ram_size bios m = Some ?m2"
    using r n by (simp add: get_ram_size_def load16_store16 ards_buf_def)
  moreover have "?m2 a = m a" if a: "\<not> unat (a - 0x900) < 0xF8" for a
  proof -
    have e: "a - 0x908 = a - 0x900 - 8" "a = 0x900 + (a - 0x900)" by simp_all
    have "unat (a - 0x908) = unat (a - 0x900) - 8" unfolding e(1) using a by (subst unat_sub_small) simp_all
    then have "\<not> unat (a - 0x908) < length (concat es)" using a assms(2) len by simp
    moreover have "a \<noteq> 0x900 + i" if "unat i < 0xF8" for i using a that by auto
    from this [of 0] this [of 1] this [of 2] this [of 3] this [of 4] this [of 5]
    have "a \<notin> {0x900, 0x901, 0x902, 0x903, 0x904, 0x905}" by simp
    ultimately show ?thesis by (simp add: store32_def store16_def stored_at ram_size_def ards_nr_def)
  qed
  ultimately show ?thesis by (intro exI [of _ ?m2]) (simp add: load32_store32)
qed

definition demo_ranges :: "u8 list list" where
  "demo_ranges = [[0,0,0,0, 0,0,0,0, 0,0xFC,9,0, 0,0,0,0, 1,0,0,0], [0,0,0x10,0, 0,0,0,0, 0,0,0xF0,1, 0,0,0,0, 1,0,0,0]]"

definition demo_bios :: e820_bios where
  "demo_bios k = (if k = 0 then (demo_ranges ! 0, 20, 1) else (demo_ranges ! 1, 20, 0))"

theorem get_ram_size_max_witness: "\<exists>m. get_ram_size demo_bios (\<lambda>_. 0) = Some m \<and> load32 m ram_size = 0x2000000"
proof -
  have "reports demo_bios 0 demo_ranges" by (simp add: demo_bios_def demo_ranges_def)
  moreover have "range_end ` set demo_ranges = {0x9FC00, 0x2000000}"
    by (simp add: demo_ranges_def range_end_def load32_def view_def stored_at)
  moreover have "length demo_ranges \<le> 12" "load16 (\<lambda>_. 0) ards_nr = 0" by (simp_all add: demo_ranges_def load16_def)
  ultimately show ?thesis using get_ram_size_max [of demo_bios demo_ranges "\<lambda>_. 0"] by auto
qed

text \<open>C19: the loader loads the kernel. With one drive that holds an executable from sector 5 on, and that needs no time
  between two sectors of a command, for \<open>read_hd_32\<close> waits once for all 200, the reading and \<open>kernel_decode_elf\<close> return; then, in the
  window at 3 GB that the loader's page tables make of low memory, each loadable segment stands at its address with the bytes of the
  file; all memory outside the buffer, the segments and the loader's stack (24 bytes below \<open>0x800\<close>, which the model does not write) is as it was,
  also between the end of the bytes of a segment and the end of its memory; and the drive is at rest. When the drive does need
  time after a sector, the buffer is filled with what an unready port gives behind the first sector.\<close>

theorem load_kernel_places:
  fixes f :: "nat \<Rightarrow> u8 list" and a :: ata
  assumes "one_drive f a" and "sound_kernel (concat (map f [5..<205]))"
  shows "(gap a = 0 \<longrightarrow> (\<exists>m' a'. load_kernel ata_dev tick (through (enable_paging r)) (m, a) = Some (m', a') \<and> one_drive f a' \<and> pend a' = pend a + 200 \<and>
      (let img = concat (map f [5..<205]) in
        (\<forall>i<phnum img. loadable img (header img i) \<longrightarrow> (\<forall>j<unat (seg_len img (header img i)).
           m' (through (enable_paging r) (seg_to img (header img i) + of_nat j)) = img ! (unat (seg_off img (header img i)) + j))) \<and>
        (\<forall>q. \<not> unat (q - 0x70000) < 102400 \<and> (\<forall>i<phnum img. \<not> covers img (header img i) q) \<and> \<not> unat (q - 0x7E8) < 24 \<longrightarrow> m' q = m q)))) \<and>
    (gap a \<noteq> 0 \<longrightarrow> (\<exists>a'. read_hd_32 ata_dev tick KERNEL_START_SECTOR KERNEL_BASE_ADDR KERNEL_SECTOR_COUNT (m, a) =
      Some (store_bytes m 0x70000 (f 5 @ replicate (512 * 199) 0xFF), a') \<and> lag a' = gap a))"
proof (intro conjI impI)
  assume "gap a \<noteq> 0"
  moreover have "unat KERNEL_SECTOR_COUNT = 200" "unat KERNEL_START_SECTOR = 5" by (simp_all add: KERNEL_SECTOR_COUNT_def KERNEL_START_SECTOR_def)
  ultimately show "\<exists>a'. read_hd_32 ata_dev tick KERNEL_START_SECTOR KERNEL_BASE_ADDR KERNEL_SECTOR_COUNT (m, a) =
      Some (store_bytes m 0x70000 (f 5 @ replicate (512 * 199) 0xFF), a') \<and> lag a' = gap a"
    using read_hd_overrun [OF assms(1), of KERNEL_SECTOR_COUNT KERNEL_START_SECTOR KERNEL_BASE_ADDR m] by (auto simp: KERNEL_BASE_ADDR_def)
qed (rule load_kernel_at [OF assms])

text \<open>A disk with an executable of one segment of four bytes, for \<open>0xC0001000\<close>.\<close>

definition demo_elf :: "nat \<Rightarrow> u8 list" where
  "demo_elf l = (if l = 5 then (replicate 512 0)[28 := 52, 42 := 32, 44 := 1, 52 := 1, 57 := 1, 61 := 0x10, 63 := 0xC0, 68 := 4,
     256 := 0xFA, 257 := 0xF4, 258 := 0xEB, 259 := 0xFE] else replicate 512 0)"

lemma demo_elf_length [simp]: "length (demo_elf l) = 512"
  by (simp add: demo_elf_def)

definition kernel_file :: "u8 list" where
  "kernel_file = concat (map demo_elf [5..<205])"

lemma kernel_file_at: "length kernel_file = 102400" "i < 512 \<Longrightarrow> kernel_file ! i = demo_elf 5 ! i"
proof -
  have "length (concat (map demo_elf ls)) = 512 * length ls" for ls by (induction ls) simp_all
  from this [of "[5..<205]"] show "length kernel_file = 102400" by (simp only: kernel_file_def length_upt)
  have "kernel_file = demo_elf 5 @ concat (map demo_elf [Suc 5..<205])" unfolding kernel_file_def by (subst upt_conv_Cons) (simp_all only: list.map concat.simps)
  then show "i < 512 \<Longrightarrow> kernel_file ! i = demo_elf 5 ! i" by (metis nth_append demo_elf_length)
qed

lemma demo_elf_sound:
  "sound_kernel kernel_file" "phnum kernel_file = 1" "header kernel_file 0 = 52" "loadable kernel_file 52" "seg_off kernel_file 52 = 256"
  "seg_to kernel_file 52 = 0xC0001000" "seg_len kernel_file 52 = 4"
proof -
  have v: "view kernel_file q = demo_elf 5 ! unat q" if "unat q < 512" for q
    using that kernel_file_at by (simp add: view_def stored_at)
  show n: "phnum kernel_file = 1" by (simp add: phnum_def load16_def v demo_elf_def)
  show h: "header kernel_file 0 = 52" by (simp add: header_def load32_def v demo_elf_def)
  show s: "loadable kernel_file 52" "seg_off kernel_file 52 = 256" "seg_to kernel_file 52 = 0xC0001000" "seg_len kernel_file 52 = 4"
    by (simp_all add: loadable_def seg_off_def seg_to_def seg_len_def load32_def v demo_elf_def)
  show "sound_kernel kernel_file" using kernel_file_at(1) n h s by (simp add: sound_kernel_def sound_seg_def)
qed

theorem load_kernel_places_witness:
  "\<exists>m a. load_kernel ata_dev tick (through (enable_paging (\<lambda>_. 0))) (\<lambda>_. 0xCC, hw (demo_probe demo_elf)) = Some (m, a) \<and> one_drive demo_elf a \<and>
     [m 0x1000, m 0x1001, m 0x1002, m 0x1003, m 0x1004] = [0xFA, 0xF4, 0xEB, 0xFE, 0xCC]"
proof -
  let ?tr = "through (enable_paging (\<lambda>_. 0))"
  note e = demo_elf_sound
  have d: "one_drive demo_elf (hw (demo_probe demo_elf))" and calm: "gap (hw (demo_probe demo_elf)) = 0"
    using demo_probe_ready(1,6) [of demo_elf] by simp_all
  from load_kernel_places [OF d e(1) [unfolded kernel_file_def], folded kernel_file_def, of "\<lambda>_. 0" "\<lambda>_. 0xCC"]
  obtain m a where r: "load_kernel ata_dev tick ?tr (\<lambda>_. 0xCC, hw (demo_probe demo_elf)) = Some (m, a)" "one_drive demo_elf a"
      "\<forall>j<4. m (?tr (0xC0001000 + of_nat j)) = kernel_file ! (256 + j)"
      "\<forall>q. \<not> unat (q - 0x70000) < 102400 \<and> \<not> covers kernel_file 52 q \<and> \<not> unat (q - 0x7E8) < 24 \<longrightarrow> m q = 0xCC"
    using calm unfolding Let_def by (auto simp: e)
  have t: "?tr (0xC0001000 + of_nat j) = 0x1000 + of_nat j" if "j < 4" for j
    using through_windows [unfolded two_windows_def, rule_format, of "0x1000 + of_nat j" "\<lambda>_. 0"] that by (simp add: unat_of_nat_less unat_add_small add.assoc)
  have m: "m (0x1000 + of_nat j) = demo_elf 5 ! (256 + j)" if "j < 4" for j using r(3) t kernel_file_at(2) [of "256 + j"] that by simp
  have "m 0x1004 = 0xCC" using r(4) by (simp add: covers_def e)
  moreover have "m 0x1000 = 0xFA" "m 0x1001 = 0xF4" "m 0x1002 = 0xEB" "m 0x1003 = 0xFE"
    using m [of 0] m [of 1] m [of 2] m [of 3] by (simp_all add: demo_elf_def)
  ultimately show ?thesis using r(1,2) by auto
qed

end
