(* ===== verification/Spec2Isabelle.thy ===== *)
theory Spec2Isabelle
  imports KPrelude KString KList KBitmap KPools KPaging KPages KSched KSwitch KLock KHeap KHeapRep KIo KTimer KIntr KEntry KStdio KScreen KIde KAta KBudget KFs KMount KFsInit KScan KProbe KEnv KBoot KThreads KRun KInit KLoader KImage
begin

text \<open>
  \<^bold>\<open>K_OS\<close>, a 32-bit x86 teaching kernel in C and assembly (sources under \<open>src/code\<close>). This is the root of its
  verification: the theories below model the kernel file by file, each definition an executable translation
  of the code it names, and prove what the operations do. The properties proper carry claim numbers.

  \<^bold>\<open>The program.\<close> After the boot loader \<open>main\<close> calls \<open>kernel_init\<close>: memory, interrupts, system calls, timer,
  threads, formatted output, disk driver and file system, in this order. The file system calls the disk driver
  and the heap; the driver calls the heap, sleeps on the timer and waits on semaphores raised from interrupts;
  the heap takes pages from the page allocator, which takes runs of bits from the bitmaps, frames from the
  pools, and maps them through the page tables of the loader; threads get their PCB pages from the page allocator, the
  scheduler rotates them over two intrusive lists, driven by the timer and by the locks.

  \<^bold>\<open>Theories and sources.\<close>
  \<^item> \<open>KPrelude\<close>: 32-bit words, byte memory, results that may stop (\<open>Panic\<close>, \<open>Page_fault\<close>, \<open>Blocked\<close>, \<open>Hang\<close>).
  \<^item> \<open>KString\<close>, \<open>KList\<close>, \<open>KStdio\<close>: \<open>lib/src/string.c\<close>, \<open>list.c\<close>, \<open>stdio.c\<close> and \<open>kernel/src/printk.c\<close>. Loops
    that need a terminator are \<open>partial_function (option)\<close>; the theorems say when they return.
  \<^item> \<open>KBitmap\<close>, \<open>KPools\<close>, \<open>KPaging\<close>, \<open>KPages\<close>: \<open>bitmap.c\<close> and the page half of \<open>memory.c\<close>, over byte memory for
    the bitmaps and physical words behind the two-level x86 walk for the tables.
  \<^item> \<open>KHeap\<close>, \<open>KHeapRep\<close>, \<open>KBudget\<close>: the byte heap of \<open>memory.c\<close>, its representation by live regions, and how
    many requests it can still answer.
  \<^item> \<open>KSched\<close>, \<open>KSwitch\<close>, \<open>KLock\<close>: \<open>thread.c\<close>, \<open>sched.c\<close>, \<open>switch.s\<close>, \<open>lock.c\<close>; the locks under full interleaving.
  \<^item> \<open>KIo\<close>, \<open>KIntr\<close>, \<open>KEntry\<close>, \<open>KTimer\<close>: \<open>io.h\<close>, \<open>interrupt.c\<close>, \<open>kernel.s\<close> with \<open>syscall_sys.c\<close> and
    \<open>syscall_usr.c\<close>, \<open>timer.c\<close>. Chips (8259A, 8253) are automata after their data sheets.
  \<^item> \<open>KScreen\<close>: the console of \<open>print.s\<close> over the display memory and the cursor registers of the controller.
  \<^item> \<open>KIde\<close>, \<open>KAta\<close>: \<open>ide.c\<close> over a parameter \<open>platform\<close>, instantiated by an automaton of an ATA channel.
  \<^item> \<open>KScan\<close>, \<open>KProbe\<close>: the partition tables of a disk, \<open>ide_get_partition\<close> as a walk over them, and \<open>ide_init\<close>, which
    finds the drive and its tables.
  \<^item> \<open>KFs\<close>, \<open>KMount\<close>, \<open>KFsInit\<close>: \<open>fs.c\<close>, formatting, mounting and start-up, down to the bytes on the disk;
    \<open>KBoot\<close>: the storage stack, from the probe of the drive to the root directory; \<open>KEnv\<close>: what it leaves alone.
  \<^item> \<open>KThreads\<close>: the first threads, \<open>kthread_init\<close> over lists and pages, \<open>kernel_thread\<close> and \<open>idle_thread\<close> of \<open>thread.c\<close>;
    \<open>KRun\<close>: these two threads under any sequence of ticks, yields, waits and wake-ups.
  \<^item> \<open>KLoader\<close>, \<open>KImage\<close>: \<open>boot/loader.s\<close>: its page tables; the memory size, the reading of sectors and the loading of the
    kernel image.
  \<^item> \<open>KInit\<close>: \<open>init.c\<close> and \<open>assert.c\<close>; \<open>kernel_init\<close> over one state of the whole kernel, from what the loader leaves.

  \<^bold>\<open>State.\<close> A C struct is a record with its fields; a pointer is a 32-bit word; a pointer to a node or a PCB
  indexes a store. The state grows along the calls: bitmaps and strings live in \<open>mem\<close>, the page allocator adds
  pools and the MMU (\<open>mm_state\<close>), the heap adds arenas and block lists (\<open>heap_state\<close>), the driver adds channels,
  partitions and the hardware (\<open>ide_state\<close>), the file system its root directory (\<open>fs_state\<close>). A failing \<open>assert\<close>,
  a page fault and a mutex that is never released are values of \<open>stop\<close>.

  \<^bold>\<open>Interfaces.\<close> Locales hold the contracts, each interpreted on the model's own definitions: \<open>bit_allocator\<close>
  (\<open>bm\<close>), \<open>deque\<close> (\<open>kl\<close>), \<open>allocator\<close> (\<open>heap\<close>) and its extension \<open>budgeted\<close> (\<open>heap_budget\<close>), \<open>block_device\<close>
  (\<open>disk\<close>), \<open>c_functions\<close> (\<open>code\<close>). The properties of the clients rest on their facts.

  \<^bold>\<open>What the lemmas show.\<close> Allocators: invariants over any sequence of calls, first-fit equivalence, no region
  handed out twice, and what leaks on failure. Page tables: the recursive window is the walk, maps and unmaps
  touch one translation. Scheduler and locks: invariants by rule induction over steps, mutual exclusion,
  conservation of permits, fairness of yields, the lost wakeup. Entry code: registers and stacks are restored.
  Formatted output: equality with a specification of the rendered string. Console: refinement of a terminal
  that wraps and scrolls. Disk: a write replaces its sectors, a read delivers them, a scan records the
  partitions its tables describe. File system: the layout on the disk, the root directory, and its start-up.
  Loader: what is mapped, the memory size, the segments of the kernel in memory. The whole: \<open>kernel_init\<close> returns with
  every part in the state its own theorems start from, by composition of those theorems over the shared heap, interrupt
  tables and ports, and of the runs of the scheduler while the disk works.

  \<^bold>\<open>What is assumed of the hardware.\<close> Four places of the code are right only on some machines; each is a named part of the state.
  \<open>gap\<close>: the ticks a drive is busy after a sector. The driver and the loader wait once per command, so transfers of more than one
  sector need \<open>gap = 0\<close> (\<open>disk_ready bt\<close>: commands of up to \<open>bt\<close> sectors work); \<open>ide_read_outruns_drive\<close> and the loader's theorem say what
  comes of a drive that is slower. \<open>lingers\<close>: \<open>sys_free\<close> reads the descriptor's address from the arena page it has just given back,
  which works only while the processor still holds the translation of that page (\<open>page_table_remove\<close> flushes another one);
  otherwise the model's \<open>sys_free\<close> is a page fault. \<open>strikes\<close>: an interrupt between \<open>spin_unlock\<close> and \<open>kthread_block\<close> of \<open>sema_down\<close> is
  lost, and the driver then waits for ever; the platform of the theorems has none, while \<open>KLock\<close> has every interleaving.
  \<open>root_blk\<close>: \<open>root_dir_init\<close> clears 4096 bytes of an array of 240; the hypotheses keep them apart from what the model places in
  memory, and \<open>clear_static\<close> clears whatever else lies there. \<open>kthread_exit\<close> of a thread other than main unmaps the page it runs
  on, and faults.

  \<^bold>\<open>Bounds and fuel.\<close> The kernel image is the 200 sectors the loader reads, its segments below the buffer at 448 KB.
  \<open>ide_get_partition\<close> recurses on the chain of extended partitions, with fuel for its depth:
  the depth of the tables on the disk is enough, and for tables in a circle no fuel is. \<open>fs_init_loop\<close> walks the
  partition list, with fuel for its length: one round more than there are partitions is enough, any larger fuel
  gives the same. Partitions have at most \<open>2 ^ 23 - 1\<close> sectors, below sector \<open>2 ^ 28\<close> (beyond, the code overflows), and at least
  eight blocks, about 580 sectors, with the tail of the bitmap in its last sector (in a smaller one \<open>fs_format\<close> leaves the block
  of the root directory free); at most eight of them (the root directory has ten entries). A budget counts pages: requests up to
  200000 bytes take at most 49. The events of \<open>KRun\<close> are a list of any length.

  \<^bold>\<open>Not modelled.\<close> \<open>boot/mbr.s\<close> and, of the loader, the descriptor table, the switch to protected mode and its
  messages: single instructions on registers no model here has. What the loader asks of the BIOS is a parameter. \<open>main.c\<close>
  after \<open>kernel_init\<close>: it runs the tests. In \<open>kernel_init\<close> the interrupts are on from \<open>printk_init\<close> on: what happens to the threads
  from then on is a parameter, any sequence of ticks, yields, waits and wake-ups, not tied to the moments at which the driver
  polls and waits. Debug prints (\<open>TRACE_\<close>, \<open>pr_debug\<close>), and \<open>PF_USER\<close>, which the code leaves empty.
\<close>

end
